(* ===== verification/Kern_Prelude.thy ===== *)
theory Kern_Prelude
  imports Main "HOL-Library.Word" "HOL-Library.Monad_Syntax"
begin

text \<open>
  Shared vocabulary of the development: the machine integer types of
  \<^verbatim>\<open>src/include/kern/kern_types.h\<close>, the error numbers of
  \<^verbatim>\<open>src/include/kern/errno.h\<close>, and generic lemmas on lists, options and words.

  Conventions of every component theory:
  \<^item> a C function that returns an error code returns an \<open>int\<close> here, \<open>0\<close> or a negated
    error number, next to the new state;
  \<^item> \<open>kassert\<close> (\<^verbatim>\<open>src/include/kern/assert.h\<close>) spins forever when its condition is
    false, and an access outside an array or through \<^verbatim>\<open>NULL\<close> is undefined.
    Both are the value \<open>None\<close> of an \<open>option\<close> result: the call never returns to its
    caller.  A theorem that an operation succeeds therefore always states that the
    result is \<open>Some\<close>;
  \<^item> the code between a lock and its unlock is one atomic step, so the lock operations
    themselves do not occur in the components (the lock itself is the theory
    \<open>Spinlock\<close>).
\<close>

unbundle bit_operations_syntax

type_synonym u8 = "8 word"
type_synonym u32 = "32 word"
type_synonym u64 = "64 word"

subsection \<open>Error numbers\<close>

abbreviation EPERM :: int where "EPERM \<equiv> 1"
abbreviation ENOENT :: int where "ENOENT \<equiv> 2"
abbreviation EINTR :: int where "EINTR \<equiv> 4"
abbreviation EAGAIN :: int where "EAGAIN \<equiv> 11"
abbreviation ENOMEM :: int where "ENOMEM \<equiv> 12"
abbreviation EFAULT :: int where "EFAULT \<equiv> 14"
abbreviation EBUSY :: int where "EBUSY \<equiv> 16"
abbreviation EINVAL :: int where "EINVAL \<equiv> 22"
abbreviation EMLINK :: int where "EMLINK \<equiv> 31"

subsection \<open>Assertions\<close>

definition kassert :: "bool \<Rightarrow> unit option" where
  "kassert c = (if c then Some () else None)"

lemma kassert_simps [simp]:
  "kassert True = Some ()"
  "kassert False = None"
  by (simp_all add: kassert_def)

lemma kassert_eq_Some [simp]: "kassert c = Some u \<longleftrightarrow> c"
  by (simp add: kassert_def)

lemma kassert_eq_None [simp]: "kassert c = None \<longleftrightarrow> \<not> c"
  by (simp add: kassert_def)

lemma kassert_bind [simp]: "(kassert c \<bind> f) = (if c then f () else None)"
  by (simp add: kassert_def)

subsection \<open>Array access\<close>

definition arr_get :: "'a list \<Rightarrow> nat \<Rightarrow> 'a option" where
  "arr_get xs i = (if i < length xs then Some (xs ! i) else None)"

definition arr_set :: "'a list \<Rightarrow> nat \<Rightarrow> 'a \<Rightarrow> 'a list option" where
  "arr_set xs i v = (if i < length xs then Some (xs[i := v]) else None)"

lemma arr_get_Some [simp]: "i < length xs \<Longrightarrow> arr_get xs i = Some (xs ! i)"
  by (simp add: arr_get_def)

lemma arr_set_Some [simp]: "i < length xs \<Longrightarrow> arr_set xs i v = Some (xs[i := v])"
  by (simp add: arr_set_def)

lemma arr_get_SomeD: "arr_get xs i = Some v \<Longrightarrow> i < length xs \<and> xs ! i = v"
  by (auto simp: arr_get_def split: if_splits)

lemma arr_set_SomeD: "arr_set xs i v = Some ys \<Longrightarrow> i < length xs \<and> ys = xs[i := v]"
  by (auto simp: arr_set_def split: if_splits)

lemma arr_get_None [simp]: "arr_get xs i = None \<longleftrightarrow> length xs \<le> i"
  by (auto simp: arr_get_def)

lemma arr_set_None [simp]: "arr_set xs i v = None \<longleftrightarrow> length xs \<le> i"
  by (auto simp: arr_set_def)


subsection \<open>Bits of words\<close>

text \<open>The simplifier writes \<open>push_bit k 1\<close>, the code's \<^verbatim>\<open>1ULL << k\<close>, as \<open>2 ^ k\<close>.\<close>

lemma bit_or_push:
  fixes w :: u64
  shows "bit (w OR 2 ^ k) j \<longleftrightarrow> bit w j \<or> j = k \<and> k < 64"
  by (auto simp: bit_or_iff bit_push_bit_iff bit_1_iff bit_exp_iff)

lemma bit_and_not_push:
  fixes w :: u64
  shows "bit (w AND NOT (2 ^ k)) j \<longleftrightarrow> bit w j \<and> j \<noteq> k"
  by (auto simp: bit_and_iff bit_not_iff bit_push_bit_iff bit_1_iff bit_exp_iff
      dest: bit_imp_le_length)

lemma bit_and_minus_2:
  fixes w :: u64
  shows "bit (w AND - 2) j \<longleftrightarrow> bit w j \<and> j \<noteq> 0"
  using bit_and_not_push [of w 0 j] by simp

lemma div_mod_inj: "i div k = j div k \<Longrightarrow> i mod k = j mod k \<Longrightarrow> i = (j :: nat)"
  by (metis div_mult_mod_eq)

section \<open>Invariants of step relations\<close>

text \<open>
  A component that several threads drive is a step relation.  Whatever every single step keeps
  holds after any number of steps in any order.
\<close>

locale kept_by_steps =
  fixes step :: "'s \<Rightarrow> 's \<Rightarrow> bool" and I :: "'s \<Rightarrow> bool"
  assumes step_keeps: "I s \<Longrightarrow> step s s' \<Longrightarrow> I s'"
begin

lemma run_keeps:
  assumes "step\<^sup>*\<^sup>* s s'" and "I s"
  shows "I s'"
  using assms by (induction rule: rtranclp_induct) (auto intro: step_keeps)

end

end
