(* ===== verification/Klist.thy ===== *)
theory Klist
  imports Kern_Prelude
begin

text \<open>
  The intrusive doubly linked lists of the kernel: \<^verbatim>\<open>src/klib/list.c\<close>,
  \<^verbatim>\<open>src/klib/queue.c\<close> and the traversal macros of \<^verbatim>\<open>src/include/kern/queue.h\<close>.
  A store maps each node address to its two links.  A queue head has the same two
  fields as a node and the code casts between the two types, so heads live in the
  same store.  The lemmas show that every operation on links implements the operation
  on the sequence of nodes that the queue holds, and leaves every other node alone.
\<close>

type_synonym ptr = nat

record list_node =
  lprev :: ptr
  lnext :: ptr

type_synonym store = "ptr \<Rightarrow> list_node"

subsection \<open>list.c\<close>

definition set_prev :: "store \<Rightarrow> ptr \<Rightarrow> ptr \<Rightarrow> store" where
  "set_prev h p v = h(p := (h p)\<lparr>lprev := v\<rparr>)"

definition set_next :: "store \<Rightarrow> ptr \<Rightarrow> ptr \<Rightarrow> store" where
  "set_next h p v = h(p := (h p)\<lparr>lnext := v\<rparr>)"

definition list_init :: "store \<Rightarrow> ptr \<Rightarrow> store" where
  "list_init h node = set_prev (set_next h node node) node node"

definition list_del :: "store \<Rightarrow> ptr \<Rightarrow> store" where
  "list_del h node =
     (let h1 = set_prev h (lnext (h node)) (lprev (h node));
          h2 = set_next h1 (lprev (h1 node)) (lnext (h1 node))
      in list_init h2 node)"

definition list_not_linked :: "store \<Rightarrow> ptr \<Rightarrow> bool" where
  "list_not_linked h node \<longleftrightarrow> lprev (h node) = node \<and> lnext (h node) = node"

subsection \<open>queue.c\<close>

definition queue_add :: "store \<Rightarrow> ptr \<Rightarrow> ptr \<Rightarrow> store" where
  "queue_add h head node =
     (let h1 = set_next h node head;
          h2 = set_prev h1 node (lprev (h1 head));
          h3 = set_next h2 (lprev (h2 head)) node
      in set_prev h3 head node)"

definition queue_add_top :: "store \<Rightarrow> ptr \<Rightarrow> ptr \<Rightarrow> store" where
  "queue_add_top h head node =
     (let h1 = set_next h node (lnext (h head));
          h2 = set_prev h1 node head;
          h3 = set_prev h2 (lnext (h2 head)) node
      in set_next h3 head node)"

definition queue_ref_top :: "store \<Rightarrow> ptr \<Rightarrow> ptr" where
  "queue_ref_top h head = lnext (h head)"

definition queue_get_top :: "store \<Rightarrow> ptr \<Rightarrow> ptr \<times> store" where
  "queue_get_top h head = (let top = queue_ref_top h head in (top, list_del h top))"

definition queue_ref_last :: "store \<Rightarrow> ptr \<Rightarrow> ptr" where
  "queue_ref_last h head = lprev (h head)"

definition queue_get_last :: "store \<Rightarrow> ptr \<Rightarrow> ptr \<times> store" where
  "queue_get_last h head = (let l = queue_ref_last h head in (l, list_del h l))"

definition queue_is_empty :: "store \<Rightarrow> ptr \<Rightarrow> bool" where
  "queue_is_empty h head \<longleftrightarrow> lprev (h head) = head \<and> lnext (h head) = head"

definition queue_init :: "store \<Rightarrow> ptr \<Rightarrow> store" where
  "queue_init h head = set_prev (set_next h head head) head head"

subsection \<open>The traversal macros of queue.h\<close>

text \<open>
  \<open>queue_for_each\<close> and its reverse, as the list of the nodes they visit.  The loops
  follow links until they are back at the head; in a store that is not a queue they
  need not end, hence \<open>option\<close>.
\<close>

partial_function (option) queue_for_each_from :: "store \<Rightarrow> ptr \<Rightarrow> ptr \<Rightarrow> ptr list option" where
  "queue_for_each_from h que itr =
     (if itr = que then Some []
      else do { r \<leftarrow> queue_for_each_from h que (lnext (h itr)); Some (itr # r) })"

definition queue_for_each :: "store \<Rightarrow> ptr \<Rightarrow> ptr list option" where
  "queue_for_each h que = queue_for_each_from h que (queue_ref_top h que)"

partial_function (option) queue_reverse_for_each_from :: "store \<Rightarrow> ptr \<Rightarrow> ptr \<Rightarrow> ptr list option" where
  "queue_reverse_for_each_from h que itr =
     (if itr = que then Some []
      else do { r \<leftarrow> queue_reverse_for_each_from h que (lprev (h itr)); Some (itr # r) })"

definition queue_reverse_for_each :: "store \<Rightarrow> ptr \<Rightarrow> ptr list option" where
  "queue_reverse_for_each h que = queue_reverse_for_each_from h que (queue_ref_last h que)"

text \<open>
  \<open>queue_for_each_safe\<close>: the successor is read before the body runs, so the body may
  unlink the node.
\<close>

partial_function (option) queue_for_each_safe_from ::
    "(store \<Rightarrow> ptr \<Rightarrow> store) \<Rightarrow> store \<Rightarrow> ptr \<Rightarrow> ptr \<Rightarrow> ptr \<Rightarrow> store option" where
  "queue_for_each_safe_from body h que itr np =
     (if itr = que then Some h
      else let h' = body h itr in queue_for_each_safe_from body h' que np (lnext (h' np)))"

definition queue_for_each_safe :: "(store \<Rightarrow> ptr \<Rightarrow> store) \<Rightarrow> store \<Rightarrow> ptr \<Rightarrow> store option" where
  "queue_for_each_safe body h que =
     queue_for_each_safe_from body h que (queue_ref_top h que) (lnext (h (queue_ref_top h que)))"

partial_function (option) queue_reverse_for_each_safe_from ::
    "(store \<Rightarrow> ptr \<Rightarrow> store) \<Rightarrow> store \<Rightarrow> ptr \<Rightarrow> ptr \<Rightarrow> ptr \<Rightarrow> store option" where
  "queue_reverse_for_each_safe_from body h que itr np =
     (if itr = que then Some h
      else let h' = body h itr in queue_reverse_for_each_safe_from body h' que np (lprev (h' np)))"

definition queue_reverse_for_each_safe :: "(store \<Rightarrow> ptr \<Rightarrow> store) \<Rightarrow> store \<Rightarrow> ptr \<Rightarrow> store option" where
  "queue_reverse_for_each_safe body h que =
     queue_reverse_for_each_safe_from body h que (queue_ref_last h que) (lprev (h (queue_ref_last h que)))"

partial_function (option) queue_find_element_from ::
    "(ptr \<Rightarrow> int) \<Rightarrow> store \<Rightarrow> ptr \<Rightarrow> ptr \<Rightarrow> ptr option option" where
  "queue_find_element_from cmp h que lp =
     (if lp = que then Some None
      else if cmp lp = 0 then Some (Some lp)
      else queue_find_element_from cmp h que (lnext (h lp)))"

definition queue_find_element :: "(ptr \<Rightarrow> int) \<Rightarrow> store \<Rightarrow> ptr \<Rightarrow> ptr option option" where
  "queue_find_element cmp h que = queue_find_element_from cmp h que (queue_ref_top h que)"

partial_function (option) queue_reverse_find_element_from ::
    "(ptr \<Rightarrow> int) \<Rightarrow> store \<Rightarrow> ptr \<Rightarrow> ptr \<Rightarrow> ptr option option" where
  "queue_reverse_find_element_from cmp h que lp =
     (if lp = que then Some None
      else if cmp lp = 0 then Some (Some lp)
      else queue_reverse_find_element_from cmp h que (lprev (h lp)))"

definition queue_reverse_find_element :: "(ptr \<Rightarrow> int) \<Rightarrow> store \<Rightarrow> ptr \<Rightarrow> ptr option option" where
  "queue_reverse_find_element cmp h que =
     queue_reverse_find_element_from cmp h que (queue_ref_last h que)"

subsection \<open>What a store holds: segments and queues\<close>

text \<open>\<open>seg h a xs b\<close>: following links from \<open>a\<close> passes the nodes \<open>xs\<close> and reaches \<open>b\<close>,
  and the back links agree.\<close>

fun seg :: "store \<Rightarrow> ptr \<Rightarrow> ptr list \<Rightarrow> ptr \<Rightarrow> bool" where
  "seg h a [] b \<longleftrightarrow> lnext (h a) = b \<and> lprev (h b) = a"
| "seg h a (x # xs) b \<longleftrightarrow> lnext (h a) = x \<and> lprev (h x) = a \<and> seg h x xs b"

definition is_queue :: "store \<Rightarrow> ptr \<Rightarrow> ptr list \<Rightarrow> bool" where
  "is_queue h q xs \<longleftrightarrow> distinct (q # xs) \<and> seg h q xs q"

named_theorems links "equations that read a link after a store update"

lemma set_prev_links [links]:
  "lnext (set_prev h p v x) = lnext (h x)"
  "lprev (set_prev h p v x) = (if x = p then v else lprev (h x))"
  by (simp_all add: set_prev_def)

lemma set_next_links [links]:
  "lprev (set_next h p v x) = lprev (h x)"
  "lnext (set_next h p v x) = (if x = p then v else lnext (h x))"
  by (simp_all add: set_next_def)

lemma set_other [simp]:
  "x \<noteq> p \<Longrightarrow> set_prev h p v x = h x"
  "x \<noteq> p \<Longrightarrow> set_next h p v x = h x"
  by (simp_all add: set_prev_def set_next_def)

lemma seg_append: "seg h a (xs @ y # ys) b \<longleftrightarrow> seg h a xs y \<and> seg h y ys b"
  by (induction xs arbitrary: a) auto

lemma seg_cong:
  assumes "\<And>x. x = a \<or> x \<in> set xs \<Longrightarrow> lnext (h' x) = lnext (h x)"
    and "\<And>x. x = b \<or> x \<in> set xs \<Longrightarrow> lprev (h' x) = lprev (h x)"
  shows "seg h' a xs b \<longleftrightarrow> seg h a xs b"
  using assms by (induction xs arbitrary: a) auto

lemma seg_next: "seg h a xs b \<Longrightarrow> lnext (h a) = (case xs of [] \<Rightarrow> b | x # _ \<Rightarrow> x)"
  by (cases xs) auto

lemma seg_prev: "seg h a xs b \<Longrightarrow> lprev (h b) = (if xs = [] then a else last xs)"
  by (induction xs arbitrary: a) auto

lemma is_queue_frame:
  assumes "is_queue h q xs" and "\<And>x. x \<in> set (q # xs) \<Longrightarrow> h' x = h x"
  shows "is_queue h' q xs"
  using assms seg_cong [of q xs h' h q] by (auto simp: is_queue_def)


subsection \<open>The operations implement the operations on sequences\<close>

lemmas link_defs = list_init_def list_del_def queue_add_def queue_add_top_def queue_init_def
  queue_ref_top_def queue_ref_last_def queue_get_top_def queue_get_last_def Let_def

lemma queue_ref_top_eq:
  "is_queue h q xs \<Longrightarrow> queue_ref_top h q = (case xs of [] \<Rightarrow> q | x # _ \<Rightarrow> x)"
  by (auto simp: is_queue_def queue_ref_top_def dest: seg_next split: list.splits)

lemma queue_ref_last_eq:
  "is_queue h q xs \<Longrightarrow> queue_ref_last h q = (if xs = [] then q else last xs)"
  by (auto simp: is_queue_def queue_ref_last_def dest: seg_prev)

lemma queue_is_empty_eq: "is_queue h q xs \<Longrightarrow> queue_is_empty h q \<longleftrightarrow> xs = []"
  by (cases xs) (auto simp: is_queue_def queue_is_empty_def)

lemma queue_init_repr: "is_queue (queue_init h q) q []"
  by (simp add: is_queue_def queue_init_def links)

lemma list_init_unlinked: "list_not_linked (list_init h n) n"
  by (simp add: list_not_linked_def list_init_def links)

text \<open>The links of a store after each operation, as seen from any node.\<close>

lemma list_del_links:
  "lnext (list_del h n x) =
     (if x = n then n
      else if x = lprev (h n) then lnext (h n)
      else lnext (h x))"
  "lprev (list_del h n x) =
     (if x = n then n else if x = lnext (h n) then lprev (h n) else lprev (h x))"
  by (auto simp: list_del_def list_init_def Let_def links)

lemma queue_add_links:
  assumes "n \<noteq> q"
  shows "lnext (queue_add h q n x) =
     (if x = lprev (h q) then n else if x = n then q else lnext (h x))"
    and "lprev (queue_add h q n x) =
     (if x = q then n else if x = n then lprev (h q) else lprev (h x))"
  using assms by (auto simp: queue_add_def Let_def links)

lemma queue_add_top_links:
  assumes "n \<noteq> q"
  shows "lnext (queue_add_top h q n x) =
     (if x = q then n else if x = n then lnext (h q) else lnext (h x))"
    and "lprev (queue_add_top h q n x) =
     (if x = lnext (h q) then n else if x = n then q else lprev (h x))"
  using assms by (auto simp: queue_add_top_def Let_def links)

lemma list_node_eqI:
  fixes a b :: list_node
  shows "lnext a = lnext b \<Longrightarrow> lprev a = lprev b \<Longrightarrow> a = b"
  by simp

lemma list_del_repr:
  assumes "is_queue h q (xs @ n # ys)"
  shows "is_queue (list_del h n) q (xs @ ys)"
proof -
  let ?h = "list_del h n" and ?p = "if xs = [] then q else last xs"
  and ?s = "case ys of [] \<Rightarrow> q | y # _ \<Rightarrow> y"
  from assms have d: "distinct (q # xs @ n # ys)" and sx: "seg h q xs n" and sy: "seg h n ys q"
    by (auto simp: is_queue_def seg_append)
  from sx have p: "lprev (h n) = ?p" by (rule seg_prev)
  from sy have s: "lnext (h n) = ?s" by (rule seg_next)
  show ?thesis
  proof (cases ys)
    case Nil
    have "seg ?h q xs q"
    proof (cases xs rule: rev_cases)
      case Nil
      with \<open>ys = []\<close> p s d show ?thesis by (auto simp: list_del_links)
    next
      case (snoc zs z)
      with sx have "seg h q zs z" by (simp add: seg_append)
      then have "seg ?h q zs z"
        using d p s snoc \<open>ys = []\<close> by (subst seg_cong [of _ _ _ h]) (auto simp: list_del_links)
      moreover have "seg ?h z [] q"
        using d p s snoc \<open>ys = []\<close> by (auto simp: list_del_links)
      ultimately show ?thesis using snoc by (simp add: seg_append)
    qed
    with d Nil show ?thesis by (simp add: is_queue_def)
  next
    case (Cons y zs)
    have "seg ?h q xs y"
    proof (cases xs rule: rev_cases)
      case Nil
      with Cons p s d show ?thesis by (auto simp: list_del_links)
    next
      case (snoc ws w)
      with sx have "seg h q ws w" by (simp add: seg_append)
      then have "seg ?h q ws w"
        using d p s snoc Cons by (subst seg_cong [of _ _ _ h]) (auto simp: list_del_links)
      moreover have "seg ?h w [] y"
        using d p s snoc Cons by (auto simp: list_del_links)
      ultimately show ?thesis using snoc by (simp add: seg_append)
    qed
    moreover have "seg ?h y zs q"
      using sy d p s Cons by (subst seg_cong [of _ _ _ h]) (auto simp: list_del_links split: if_splits dest: last_in_set)
    ultimately show ?thesis using d Cons by (auto simp: is_queue_def seg_append)
  qed
qed


lemma list_del_frame:
  assumes "is_queue h q (xs @ n # ys)" and "x \<notin> set (q # xs @ n # ys)"
  shows "list_del h n x = h x"
proof -
  from assms(1) have "lprev (h n) \<in> set (q # xs)" and "lnext (h n) \<in> set (q # ys)"
    by (auto simp: is_queue_def seg_append dest!: seg_next [of h n] seg_prev [of h _ _ n] split: list.splits)
  with assms(2) show ?thesis
    by (intro list_node_eqI) (auto simp: list_del_links)
qed

lemma list_del_unlinked: "list_not_linked (list_del h n) n"
  by (simp add: list_not_linked_def list_del_links)

lemma queue_add_repr:
  assumes "is_queue h q xs" and "n \<notin> set (q # xs)"
  shows "is_queue (queue_add h q n) q (xs @ [n])"
proof -
  from assms have d: "distinct (q # xs)" and s: "seg h q xs q" and n: "n \<noteq> q" "n \<notin> set xs"
    by (auto simp: is_queue_def)
  from s have p: "lprev (h q) = (if xs = [] then q else last xs)" by (rule seg_prev)
  have "seg (queue_add h q n) q xs n"
  proof (cases xs rule: rev_cases)
    case Nil
    with n p show ?thesis by (simp add: queue_add_links)
  next
    case (snoc zs z)
    with s have "seg h q zs z" by (simp add: seg_append)
    then have "seg (queue_add h q n) q zs z"
      using d n p snoc by (subst seg_cong [of _ _ _ h]) (auto simp: queue_add_links)
    with snoc n p d show ?thesis by (auto simp: seg_append queue_add_links)
  qed
  moreover have "seg (queue_add h q n) n [] q"
    using n p d by (auto simp: queue_add_links)
  ultimately show ?thesis using d n by (auto simp: is_queue_def seg_append)
qed

lemma queue_add_top_repr:
  assumes "is_queue h q xs" and "n \<notin> set (q # xs)"
  shows "is_queue (queue_add_top h q n) q (n # xs)"
proof -
  from assms have d: "distinct (q # xs)" and s: "seg h q xs q" and n: "n \<noteq> q" "n \<notin> set xs"
    by (auto simp: is_queue_def)
  have "seg (queue_add_top h q n) n xs q"
  proof (cases xs)
    case Nil
    with s n show ?thesis by (auto simp: queue_add_top_links)
  next
    case (Cons y ys)
    with s have y: "lnext (h q) = y" and ys: "seg h y ys q" by auto
    from ys have "seg (queue_add_top h q n) y ys q"
      using d n y Cons by (subst seg_cong [of _ _ _ h]) (auto simp: queue_add_top_links)
    with Cons y n d show ?thesis by (auto simp: queue_add_top_links)
  qed
  moreover have "lnext (h q) \<noteq> n"
    using s n by (auto dest!: seg_next split: list.splits)
  ultimately show ?thesis using d n by (auto simp: is_queue_def queue_add_top_links)
qed

lemma queue_add_frame:
  assumes "is_queue h q xs" and "n \<notin> set (q # xs)" and "x \<notin> set (q # n # xs)"
  shows "queue_add h q n x = h x"
proof -
  have "lprev (h q) \<in> set (q # xs)"
    using assms(1) by (auto simp: is_queue_def dest!: seg_prev)
  with assms(2,3) show ?thesis
    by (intro list_node_eqI) (auto simp: queue_add_links)
qed

lemma queue_add_top_frame:
  assumes "is_queue h q xs" and "n \<notin> set (q # xs)" and "x \<notin> set (q # n # xs)"
  shows "queue_add_top h q n x = h x"
proof -
  have "lnext (h q) \<in> set (q # xs)"
    using assms(1) by (auto simp: is_queue_def dest!: seg_next split: list.splits)
  with assms(2,3) show ?thesis
    by (intro list_node_eqI) (auto simp: queue_add_top_links)
qed

lemma queue_init_frame: "x \<noteq> q \<Longrightarrow> queue_init h q x = h x"
  by (simp add: queue_init_def)

lemma queue_get_top_repr:
  "is_queue h q (x # xs) \<Longrightarrow> fst (queue_get_top h q) = x \<and> is_queue (snd (queue_get_top h q)) q xs"
  using list_del_repr [of h q "[]" x xs] queue_ref_top_eq [of h q "x # xs"]
  by (simp add: queue_get_top_def Let_def)

lemma queue_get_last_repr:
  "is_queue h q (xs @ [x]) \<Longrightarrow>
    fst (queue_get_last h q) = x \<and> is_queue (snd (queue_get_last h q)) q xs"
  using list_del_repr [of h q xs x "[]"] queue_ref_last_eq [of h q "xs @ [x]"]
  by (simp add: queue_get_last_def Let_def)


subsection \<open>The interface of a queue, and what its clients may rely on\<close>

text \<open>
  \<open>kqueue\<close> is the contract of \<^verbatim>\<open>queue.h\<close>: \<open>repr s q xs\<close> says that the queue headed by
  \<open>q\<close> holds the nodes \<open>xs\<close>.  Nodes are linked to at most one queue, and an operation on
  one queue leaves a disjoint one alone.  The other components keep their queues as
  sequences; both the links of this theory and the sequences satisfy the contract.
\<close>

locale kqueue =
  fixes repr :: "'s \<Rightarrow> ptr \<Rightarrow> ptr list \<Rightarrow> bool"
    and init :: "'s \<Rightarrow> ptr \<Rightarrow> 's"
    and add :: "'s \<Rightarrow> ptr \<Rightarrow> ptr \<Rightarrow> 's"
    and add_top :: "'s \<Rightarrow> ptr \<Rightarrow> ptr \<Rightarrow> 's"
    and get_top :: "'s \<Rightarrow> ptr \<Rightarrow> ptr \<times> 's"
    and get_last :: "'s \<Rightarrow> ptr \<Rightarrow> ptr \<times> 's"
    and del :: "'s \<Rightarrow> ptr \<Rightarrow> 's"
    and is_empty :: "'s \<Rightarrow> ptr \<Rightarrow> bool"
  assumes repr_distinct: "repr s q xs \<Longrightarrow> distinct (q # xs)"
    and repr_init: "repr (init s q) q []"
    and repr_add: "repr s q xs \<Longrightarrow> n \<notin> set (q # xs) \<Longrightarrow> repr (add s q n) q (xs @ [n])"
    and repr_add_top: "repr s q xs \<Longrightarrow> n \<notin> set (q # xs) \<Longrightarrow> repr (add_top s q n) q (n # xs)"
    and repr_get_top: "repr s q (x # xs) \<Longrightarrow>
      fst (get_top s q) = x \<and> repr (snd (get_top s q)) q xs"
    and repr_get_last: "repr s q (xs @ [x]) \<Longrightarrow>
      fst (get_last s q) = x \<and> repr (snd (get_last s q)) q xs"
    and repr_del: "repr s q (xs @ n # ys) \<Longrightarrow> repr (del s n) q (xs @ ys)"
    and repr_is_empty: "repr s q xs \<Longrightarrow> is_empty s q \<longleftrightarrow> xs = []"
    and frame_add: "repr s q xs \<Longrightarrow> n \<notin> set (q # xs) \<Longrightarrow> repr s p ys \<Longrightarrow>
      set (p # ys) \<inter> set (q # n # xs) = {} \<Longrightarrow> repr (add s q n) p ys"
    and frame_del: "repr s q (xs @ n # ys) \<Longrightarrow> repr s p zs \<Longrightarrow>
      set (p # zs) \<inter> set (q # xs @ n # ys) = {} \<Longrightarrow> repr (del s n) p zs"

text \<open>Adding nodes one after the other, and taking a number of nodes from one end.\<close>

primrec fill :: "('s \<Rightarrow> ptr \<Rightarrow> ptr \<Rightarrow> 's) \<Rightarrow> 's \<Rightarrow> ptr \<Rightarrow> ptr list \<Rightarrow> 's" where
  "fill add s q [] = s"
| "fill add s q (n # ns) = fill add (add s q n) q ns"

primrec drain :: "('s \<Rightarrow> ptr \<Rightarrow> ptr \<times> 's) \<Rightarrow> nat \<Rightarrow> 's \<Rightarrow> ptr \<Rightarrow> ptr list \<times> 's" where
  "drain get 0 s q = ([], s)"
| "drain get (Suc k) s q =
     (let (x, s1) = get s q; (xs, s2) = drain get k s1 q in (x # xs, s2))"

context kqueue
begin

lemma fill_repr:
  "repr s q xs \<Longrightarrow> distinct ns \<Longrightarrow> set ns \<inter> set (q # xs) = {} \<Longrightarrow>
    repr (fill add s q ns) q (xs @ ns)"
proof (induction ns arbitrary: s xs)
  case (Cons n ns)
  then have "repr (fill add (add s q n) q ns) q ((xs @ [n]) @ ns)"
    by (intro Cons.IH repr_add) auto
  then show ?case by simp
qed simp

lemma drain_repr:
  "repr s q (xs @ ys) \<Longrightarrow>
    fst (drain get_top (length xs) s q) = xs \<and> repr (snd (drain get_top (length xs) s q)) q ys"
proof (induction xs arbitrary: s)
  case (Cons x xs)
  then have t: "fst (get_top s q) = x" "repr (snd (get_top s q)) q (xs @ ys)"
    using repr_get_top by auto
  with Cons.IH [OF t(2)] show ?case by (auto simp: Let_def split: prod.splits)
qed simp

lemma fifo:
  assumes "repr s q xs" and "distinct ns" and "set ns \<inter> set (q # xs) = {}"
  shows "fst (drain get_top (length (xs @ ns)) (fill add s q ns) q) = xs @ ns"
    and "repr (snd (drain get_top (length (xs @ ns)) (fill add s q ns) q)) q []"
  using drain_repr [of "fill add s q ns" q "xs @ ns" "[]"] fill_repr [OF assms] by auto

lemma move_repr:
  assumes "repr s q (xs @ n # ys)" and "repr s p zs"
    and "set (p # zs) \<inter> set (q # xs @ n # ys) = {}"
  shows "repr (add (del s n) p n) p (zs @ [n]) \<and> repr (add (del s n) p n) q (xs @ ys)"
proof -
  from assms have p: "repr (del s n) p zs" by (rule frame_del)
  from assms(1) have q: "repr (del s n) q (xs @ ys)" by (rule repr_del)
  have d: "distinct (q # xs @ n # ys)" using assms(1) by (rule repr_distinct)
  have n: "n \<notin> set (p # zs)" using assms(3) by auto
  have "set (q # xs @ ys) \<inter> set (p # n # zs) = {}" using d assms(3) by auto
  with p q n show ?thesis by (blast intro: repr_add frame_add)
qed

end

interpretation linked: kqueue is_queue queue_init queue_add queue_add_top queue_get_top
  queue_get_last list_del queue_is_empty
proof unfold_locales
  show "is_queue s q xs \<Longrightarrow> distinct (q # xs)" for s q xs
    by (simp add: is_queue_def)
  show "is_queue (queue_add s q n) p ys"
    if "is_queue s q xs" "n \<notin> set (q # xs)" "is_queue s p ys"
      "set (p # ys) \<inter> set (q # n # xs) = {}" for s q xs n p ys
    using that(3)
  proof (rule is_queue_frame)
    fix x
    assume "x \<in> set (p # ys)"
    with that(4) have "x \<notin> set (q # n # xs)" by blast
    with that(1,2) show "queue_add s q n x = s x" by (rule queue_add_frame)
  qed
  show "is_queue (list_del s n) p zs"
    if "is_queue s q (xs @ n # ys)" "is_queue s p zs"
      "set (p # zs) \<inter> set (q # xs @ n # ys) = {}" for s q xs n ys p zs
    using that(2)
  proof (rule is_queue_frame)
    fix x
    assume "x \<in> set (p # zs)"
    with that(3) have "x \<notin> set (q # xs @ n # ys)" by blast
    with that(1) show "list_del s n x = s x" by (rule list_del_frame)
  qed
qed (fact queue_init_repr queue_add_repr queue_add_top_repr queue_get_top_repr
  queue_get_last_repr list_del_repr queue_is_empty_eq)+


subsection \<open>Queues as sequences\<close>

text \<open>
  The view of a queue that the other components take: the sequence of its nodes.  A
  node is unlinked from whichever sequence holds it.
\<close>

type_synonym squeues = "ptr \<Rightarrow> ptr list"

definition sq_repr :: "squeues \<Rightarrow> ptr \<Rightarrow> ptr list \<Rightarrow> bool" where
  "sq_repr s q xs \<longleftrightarrow> s q = xs \<and> distinct (q # xs)"

definition sq_del :: "squeues \<Rightarrow> ptr \<Rightarrow> squeues" where
  "sq_del s n = (\<lambda>q. removeAll n (s q))"

interpretation sequence: kqueue sq_repr "\<lambda>s q. s(q := [])" "\<lambda>s q n. s(q := s q @ [n])"
  "\<lambda>s q n. s(q := n # s q)" "\<lambda>s q. (hd (s q), s(q := tl (s q)))"
  "\<lambda>s q. (last (s q), s(q := butlast (s q)))" sq_del "\<lambda>s q. s q = []"
  by unfold_locales (auto simp: sq_repr_def sq_del_def)

subsection \<open>Traversals visit exactly the nodes of the queue\<close>

lemma queue_for_each_from_seg:
  "seg h a xs q \<Longrightarrow> q \<notin> set xs \<Longrightarrow> queue_for_each_from h q (lnext (h a)) = Some xs"
proof (induction xs arbitrary: a)
  case Nil
  then show ?case by (simp add: queue_for_each_from.simps)
next
  case (Cons x xs)
  from Cons.prems have "queue_for_each_from h q (lnext (h x)) = Some xs"
    by (intro Cons.IH) auto
  with Cons.prems show ?case by (simp add: queue_for_each_from.simps [of h q x])
qed

lemma queue_reverse_for_each_from_seg:
  "seg h q xs b \<Longrightarrow> q \<notin> set xs \<Longrightarrow> queue_reverse_for_each_from h q (lprev (h b)) = Some (rev xs)"
proof (induction xs arbitrary: b rule: rev_induct)
  case Nil
  then show ?case by (simp add: queue_reverse_for_each_from.simps)
next
  case (snoc x xs)
  from snoc.prems have "queue_reverse_for_each_from h q (lprev (h x)) = Some (rev xs)"
    by (intro snoc.IH) (auto simp: seg_append)
  with snoc.prems show ?case
    by (simp add: seg_append queue_reverse_for_each_from.simps [of h q x])
qed

lemma queue_find_element_from_seg:
  "seg h a xs q \<Longrightarrow> q \<notin> set xs \<Longrightarrow>
    queue_find_element_from cmp h q (lnext (h a)) = Some (find (\<lambda>x. cmp x = 0) xs)"
proof (induction xs arbitrary: a)
  case Nil
  then show ?case by (simp add: queue_find_element_from.simps)
next
  case (Cons x xs)
  from Cons.prems have "queue_find_element_from cmp h q (lnext (h x)) = Some (find (\<lambda>x. cmp x = 0) xs)"
    by (intro Cons.IH) auto
  with Cons.prems show ?case by (simp add: queue_find_element_from.simps [of cmp h q x])
qed

lemma queue_reverse_find_element_from_seg:
  "seg h q xs b \<Longrightarrow> q \<notin> set xs \<Longrightarrow>
    queue_reverse_find_element_from cmp h q (lprev (h b)) = Some (find (\<lambda>x. cmp x = 0) (rev xs))"
proof (induction xs arbitrary: b rule: rev_induct)
  case Nil
  then show ?case by (simp add: queue_reverse_find_element_from.simps)
next
  case (snoc x xs)
  from snoc.prems
  have "queue_reverse_find_element_from cmp h q (lprev (h x)) = Some (find (\<lambda>x. cmp x = 0) (rev xs))"
    by (intro snoc.IH) (auto simp: seg_append)
  with snoc.prems show ?case
    by (simp add: seg_append queue_reverse_find_element_from.simps [of cmp h q x])
qed

lemma queue_for_each_safe_del_frame:
  "is_queue h q xs \<Longrightarrow>
    queue_for_each_safe_from list_del h q (queue_ref_top h q) (lnext (h (queue_ref_top h q))) = Some h' \<Longrightarrow>
    z \<notin> set (q # xs) \<Longrightarrow> h' z = h z"
proof (induction xs arbitrary: h)
  case Nil
  then have "queue_ref_top h q = q" by (simp add: queue_ref_top_eq)
  with Nil show ?case by (simp add: queue_for_each_safe_from.simps)
next
  case (Cons x xs)
  let ?h = "list_del h x"
  from Cons.prems have x: "queue_ref_top h q = x" "x \<noteq> q"
    by (simp add: queue_ref_top_eq, auto simp: is_queue_def)
  from Cons.prems have nx: "lnext (h x) = (case xs of [] \<Rightarrow> q | y # _ \<Rightarrow> y)"
    by (auto simp: is_queue_def dest: seg_next)
  from Cons.prems have q: "is_queue ?h q xs" using list_del_repr [of h q "[]" x xs] by simp
  then have "queue_ref_top ?h q = lnext (h x)" by (simp add: queue_ref_top_eq nx)
  with Cons.prems x have "h' z = ?h z"
    by (intro Cons.IH [OF q]) (auto simp: Let_def queue_for_each_safe_from.simps [of _ _ q x])
  also have "\<dots> = h z" using Cons.prems by (intro list_del_frame [of h q "[]" x xs]) auto
  finally show ?case .
qed

text \<open>Unlinking every node inside \<open>queue_for_each_safe\<close> empties the queue.\<close>

lemma queue_for_each_safe_del:
  "is_queue h q xs \<Longrightarrow>
    \<exists>h'. queue_for_each_safe_from list_del h q (queue_ref_top h q) (lnext (h (queue_ref_top h q)))
           = Some h' \<and> is_queue h' q [] \<and> (\<forall>x \<in> set xs. list_not_linked h' x)"
proof (induction xs arbitrary: h)
  case Nil
  then have "queue_ref_top h q = q" by (simp add: queue_ref_top_eq)
  with Nil show ?case by (simp add: queue_for_each_safe_from.simps)
next
  case (Cons x xs)
  let ?h = "list_del h x"
  from Cons.prems have x: "queue_ref_top h q = x" "x \<noteq> q"
    by (simp add: queue_ref_top_eq, auto simp: is_queue_def)
  from Cons.prems have nx: "lnext (h x) = (case xs of [] \<Rightarrow> q | y # _ \<Rightarrow> y)"
    by (auto simp: is_queue_def dest: seg_next)
  from Cons.prems have q: "is_queue ?h q xs" using list_del_repr [of h q "[]" x xs] by simp
  then have top: "queue_ref_top ?h q = lnext (h x)" by (simp add: queue_ref_top_eq nx)
  from Cons.IH [OF q] obtain h' where
    h': "queue_for_each_safe_from list_del ?h q (lnext (h x)) (lnext (?h (lnext (h x)))) = Some h'"
      "is_queue h' q []" "\<forall>y \<in> set xs. list_not_linked h' y"
    by (auto simp: top)
  have "h' x = ?h x" if "x \<notin> set (q # xs)"
    using queue_for_each_safe_del_frame [OF q _ that] h'(1) top by auto
  with Cons.prems have "list_not_linked h' x"
    using list_del_unlinked [of h x] by (auto simp: is_queue_def list_not_linked_def)
  with h' x show ?case by (auto simp: Let_def queue_for_each_safe_from.simps [of _ _ q x])
qed

text \<open>The same from the last node backwards.\<close>

lemma queue_reverse_for_each_safe_del:
  "is_queue h q xs \<Longrightarrow>
    \<exists>h'. queue_reverse_for_each_safe_from list_del h q (lprev (h q)) (lprev (h (lprev (h q)))) = Some h' \<and>
      is_queue h' q [] \<and> (\<forall>x \<in> set xs. list_not_linked h' x) \<and> (\<forall>z. z \<notin> set (q # xs) \<longrightarrow> h' z = h z)"
proof (induction xs arbitrary: h rule: rev_induct)
  case Nil
  then have "lprev (h q) = q" by (simp add: is_queue_def)
  with Nil show ?case by (simp add: queue_reverse_for_each_safe_from.simps)
next
  case (snoc x xs)
  let ?h = "list_del h x"
  from snoc.prems have x: "lprev (h q) = x" "x \<noteq> q" by (auto simp: is_queue_def seg_append)
  have q: "is_queue ?h q xs" using list_del_repr [of h q xs x "[]"] snoc.prems by simp
  have nx: "lprev (?h q) = lprev (h x)"
    using q snoc.prems by (cases xs rule: rev_cases) (auto simp: is_queue_def seg_append)
  have fr: "?h z = h z" if "z \<notin> set (q # xs @ [x])" for z
    using list_del_frame [of h q xs x "[]" z] snoc.prems that by simp
  from snoc.IH [OF q] obtain h' where
    h': "queue_reverse_for_each_safe_from list_del ?h q (lprev (h x)) (lprev (?h (lprev (h x)))) = Some h'"
      "is_queue h' q []" "\<forall>y \<in> set xs. list_not_linked h' y" "\<forall>z. z \<notin> set (q # xs) \<longrightarrow> h' z = ?h z"
    by (auto simp: nx)
  have "h' x = ?h x" using h'(4) snoc.prems by (auto simp: is_queue_def)
  then have "list_not_linked h' x" using list_del_unlinked [of h x] by (simp add: list_not_linked_def)
  with h' x fr show ?case by (auto simp: Let_def queue_reverse_for_each_safe_from.simps [of _ _ q x])
qed

lemma queue_reverse_for_each_safe_empties:
  assumes "is_queue h q xs"
  shows "\<exists>h'. queue_reverse_for_each_safe list_del h q = Some h' \<and> is_queue h' q [] \<and> (\<forall>x \<in> set xs. list_not_linked h' x)"
  using queue_reverse_for_each_safe_del [OF assms] by (auto simp: queue_reverse_for_each_safe_def queue_ref_last_def)

subsection \<open>Properties\<close>

text \<open>
  Queues are first in, first out: from a store where \<open>q\<close> heads the nodes \<open>xs\<close>,
  adding fresh nodes \<open>ns\<close> with \<open>queue_add\<close> and then calling \<open>queue_get_top\<close> once per node
  returns \<open>xs\<close> and then \<open>ns\<close>, in order, and leaves the queue empty.
\<close>

theorem queue_fifo:
  assumes "is_queue h q xs" and "distinct ns" and "set ns \<inter> set (q # xs) = {}"
  shows "\<exists>h'. drain queue_get_top (length (xs @ ns)) (fill queue_add h q ns) q = (xs @ ns, h') \<and>
    is_queue h' q [] \<and> queue_is_empty h' q"
proof -
  let ?d = "drain queue_get_top (length (xs @ ns)) (fill queue_add h q ns) q"
  from linked.fifo [OF assms] have "fst ?d = xs @ ns" and "is_queue (snd ?d) q []" .
  then show ?thesis
    by (intro exI [of _ "snd ?d"]) (simp add: prod_eq_iff queue_is_empty_eq)
qed

theorem queue_fifo_witness:
  "\<exists>h'. drain queue_get_top (length ([] @ [1, 2 :: ptr])) (fill queue_add (queue_init (\<lambda>p. \<lparr>lprev = p, lnext = p\<rparr>) 0) 0 [1, 2]) 0
      = ([] @ [1, 2], h') \<and> is_queue h' 0 [] \<and> queue_is_empty h' 0"
  by (rule queue_fifo) (simp_all add: queue_init_repr)

text \<open>
  Moving a node between queues, \<open>list_del\<close> followed by \<open>queue_add\<close>, takes the node
  out of the first queue, appends it to the second, keeps the order of all other nodes
  in both, and does not touch the links of any node outside the two queues.
\<close>

theorem queue_move:
  assumes "is_queue h q (xs @ n # ys)" and "is_queue h p zs"
    and "set (p # zs) \<inter> set (q # xs @ n # ys) = {}"
  shows "is_queue (queue_add (list_del h n) p n) p (zs @ [n]) \<and>
    is_queue (queue_add (list_del h n) p n) q (xs @ ys) \<and>
    (\<forall>x. x \<notin> set (q # xs @ n # ys) \<union> set (p # zs) \<longrightarrow> queue_add (list_del h n) p n x = h x)"
proof -
  have "is_queue (list_del h n) p zs" using assms by (rule linked.frame_del)
  moreover have "n \<notin> set (p # zs)" using assms(3) by auto
  ultimately have "queue_add (list_del h n) p n x = h x"
    if "x \<notin> set (q # xs @ n # ys) \<union> set (p # zs)" for x
    using that queue_add_frame [of "list_del h n" p zs n x] list_del_frame [OF assms(1), of x] by auto
  with linked.move_repr [OF assms] show ?thesis by blast
qed

theorem queue_move_witness:
  "\<exists>h. is_queue h 0 ([] @ 1 # [2]) \<and> is_queue h 5 [] \<and>
     is_queue (queue_add (list_del h 1) 5 1) 5 ([] @ [1]) \<and>
     is_queue (queue_add (list_del h 1) 5 1) 0 ([] @ [2])"
proof -
  let ?h0 = "queue_init (queue_init (\<lambda>p. \<lparr>lprev = p, lnext = p\<rparr>) 5) 0"
  let ?h = "queue_add (queue_add ?h0 0 1) 0 2"
  have a: "is_queue ?h 0 ([] @ 1 # [2])"
    by (simp add: is_queue_def queue_add_def queue_init_def links Let_def)
  have b: "is_queue ?h 5 []"
    by (simp add: is_queue_def queue_add_def queue_init_def links Let_def)
  have c: "set [5] \<inter> set (0 # [] @ 1 # [2]) = ({} :: nat set)" by simp
  show ?thesis using a b queue_move [OF a b c] by blast
qed

text \<open>
  Claim C38. The traversal macros end on every well-formed queue and visit exactly its nodes,
  \<open>queue_for_each\<close> from the first to the last and \<open>queue_reverse_for_each\<close> backwards;
  \<open>queue_find_element\<close> and its reverse return the first node in that order for which the
  comparison is 0, or none.
\<close>

theorem queue_traversals:
  assumes "is_queue h q xs"
  shows "queue_for_each h q = Some xs \<and> queue_reverse_for_each h q = Some (rev xs) \<and>
    queue_find_element cmp h q = Some (find (\<lambda>x. cmp x = 0) xs) \<and>
    queue_reverse_find_element cmp h q = Some (find (\<lambda>x. cmp x = 0) (rev xs))"
proof -
  from assms have "seg h q xs q" and "q \<notin> set xs" by (auto simp: is_queue_def)
  then show ?thesis
    by (simp add: queue_for_each_def queue_reverse_for_each_def queue_find_element_def
        queue_reverse_find_element_def queue_ref_top_def queue_ref_last_def
        queue_for_each_from_seg queue_reverse_for_each_from_seg
        queue_find_element_from_seg queue_reverse_find_element_from_seg)
qed

theorem queue_traversals_witness:
  "queue_for_each (queue_init (\<lambda>p. \<lparr>lprev = p, lnext = p\<rparr>) 0) 0 = Some [] \<and>
   queue_for_each (queue_add (queue_init (\<lambda>p. \<lparr>lprev = p, lnext = p\<rparr>) 0) 0 7) 0 = Some [7]"
proof -
  let ?h = "queue_init (\<lambda>p. \<lparr>lprev = p, lnext = p\<rparr>) 0"
  have a: "is_queue ?h 0 []" by (rule queue_init_repr)
  have b: "is_queue (queue_add ?h 0 7) 0 [7]" using queue_add_repr [OF a, of 7] by simp
  show ?thesis using queue_traversals [OF a] queue_traversals [OF b] by blast
qed

text \<open>
  Unlinking every node inside \<open>queue_for_each_safe\<close> (the loop that frees pending
  events and messages) ends, empties the queue and leaves every node unlinked.
\<close>

theorem queue_for_each_safe_empties:
  assumes "is_queue h q xs"
  shows "\<exists>h'. queue_for_each_safe list_del h q = Some h' \<and> is_queue h' q [] \<and>
    (\<forall>x \<in> set xs. list_not_linked h' x)"
  unfolding queue_for_each_safe_def using assms by (rule queue_for_each_safe_del)

theorem queue_for_each_safe_empties_witness:
  "\<exists>h'. queue_for_each_safe list_del
      (queue_add (queue_init (\<lambda>p. \<lparr>lprev = p, lnext = p\<rparr>) 0) 0 7) 0 = Some h' \<and>
     is_queue h' 0 [] \<and> (\<forall>x \<in> set [7]. list_not_linked h' x)"
proof (rule queue_for_each_safe_empties)
  show "is_queue (queue_add (queue_init (\<lambda>p. \<lparr>lprev = p, lnext = p\<rparr>) 0) 0 7) 0 [7]"
    using queue_add_repr [OF queue_init_repr, of 7 0] by simp
qed

end
