(* ===== verification/Page_Buddy.thy ===== *)
theory Page_Buddy
  imports Kern_Prelude
begin

text \<open>
  The buddy page allocator, \<^verbatim>\<open>src/page/page-buddy.c\<close>.

  A buddy manages the page frames of one array.  Pages are named by their index in
  that array (the code's \<^verbatim>\<open>page - base\<close>).  Each of the 11 queues
  \<^verbatim>\<open>page_list[k]\<close> is the sequence of its pages (theory \<open>Klist\<close> shows that the linked
  queues are such sequences): \<open>queue_add\<close> appends, \<open>queue_get_top\<close> takes the first
  element and \<open>list_del\<close> takes a page out of the queue that holds it, and does nothing
  to a page in no queue.

  The model is followed by the well-formedness invariant (the pages are partitioned into
  aligned blocks, and the queues hold exactly the free ones), by the proof that both
  operations preserve it and never get stuck, and by the abstract view of the allocator
  as a set of allocated blocks.
\<close>

section \<open>Page frames and buddies\<close>

abbreviation PAGE_POOL_MAX_ORDER :: nat where "PAGE_POOL_MAX_ORDER \<equiv> 11"

abbreviation PAGE_CSTATE_USED :: u32 where "PAGE_CSTATE_USED \<equiv> 1"
abbreviation PAGE_CSTATE_RESERVED :: u32 where "PAGE_CSTATE_RESERVED \<equiv> 2"

text \<open>
  \<open>page_order\<close> is a signed \<^verbatim>\<open>int\<close> in C.  The field only ever receives loop counters
  between 0 and 10, so it is a natural number here; the request argument of
  \<open>page_buddy_dequeue\<close>, which comes from callers, is kept signed.
  \<open>buddyp\<close> and \<open>slabp\<close> are the names of the buddy and of the slab they point to.
\<close>

record page_frame =
  pf_state :: u32
  arch_state :: u32
  pf_pfn :: u64
  mapcnt :: u64
  pf_order :: nat
  buddyp :: nat
  slabp :: "u64 option"

record page_buddy =
  array :: "page_frame list"
  start_pfn :: u64
  nr_pages :: u64
  free_nr :: "u64 list"
  page_list :: "nat list list"

definition page_cstate_not_freed :: "page_frame \<Rightarrow> bool" where
  "page_cstate_not_freed pg \<longleftrightarrow> pf_state pg AND (PAGE_CSTATE_USED OR PAGE_CSTATE_RESERVED) \<noteq> 0"

text \<open>\<open>queue_add(&buddy->page_list[k], &page->link)\<close> and \<open>list_del(&page->link)\<close>.\<close>

definition plist_add :: "page_buddy \<Rightarrow> nat \<Rightarrow> nat \<Rightarrow> page_buddy" where
  "plist_add b k i = b\<lparr>page_list := (page_list b)[k := page_list b ! k @ [i]]\<rparr>"

definition plist_del :: "page_buddy \<Rightarrow> nat \<Rightarrow> page_buddy" where
  "plist_del b i = b\<lparr>page_list := map (remove1 i) (page_list b)\<rparr>"

definition free_nr_add :: "page_buddy \<Rightarrow> nat \<Rightarrow> u64 \<Rightarrow> page_buddy" where
  "free_nr_add b k d = b\<lparr>free_nr := (free_nr b)[k := free_nr b ! k + d]\<rparr>"

definition upd_page :: "page_buddy \<Rightarrow> nat \<Rightarrow> (page_frame \<Rightarrow> page_frame) \<Rightarrow> page_buddy option" where
  "upd_page b i f = do {
     p \<leftarrow> arr_get (array b) i;
     Some (b\<lparr>array := (array b)[i := f p]\<rparr>)
   }"

section \<open>Operations\<close>

text \<open>
  The loop of \<open>remove_page_from_page_queue\<close>: while the block is larger than requested,
  its lower half goes back to the queue of the next smaller order and the loop goes on
  with the upper half.
\<close>

fun split_loop :: "page_buddy \<Rightarrow> nat \<Rightarrow> nat \<Rightarrow> nat \<Rightarrow> nat \<Rightarrow> (nat \<times> page_buddy) option" where
  "split_loop b rm sz cur_order request_order =
     (if request_order < cur_order then do {
        let cur_order = cur_order - 1;
        let sz = sz div 2;
        b \<leftarrow> upd_page b rm (pf_order_update (\<lambda>_. cur_order));
        p \<leftarrow> arr_get (array b) rm;
        kassert (\<not> page_cstate_not_freed p);
        let b = free_nr_add (plist_add b cur_order rm) cur_order 1;
        let rm = rm + sz;
        b \<leftarrow> upd_page b rm (pf_order_update (\<lambda>_. cur_order));
        split_loop b rm sz cur_order request_order
      } else Some (rm, b))"

declare split_loop.simps [simp del]

definition remove_page_from_page_queue ::
  "page_buddy \<Rightarrow> nat \<Rightarrow> nat \<Rightarrow> nat \<Rightarrow> (nat \<times> page_buddy) option" where
  "remove_page_from_page_queue b rm request_order cur_order = do {
     p \<leftarrow> arr_get (array b) rm;
     kassert (pf_order p = cur_order);
     (rm, b) \<leftarrow> split_loop b rm (2 ^ cur_order) cur_order request_order;
     p \<leftarrow> arr_get (array b) rm;
     kassert (pf_state p AND PAGE_CSTATE_RESERVED = 0);
     Some (rm, b)
   }"

text \<open>
  The loop of \<open>page_buddy_enqueue\<close>: write the order into the block's first page, look at
  the buddy block and merge with it when it is free and of the same order.
\<close>

function merge_loop :: "page_buddy \<Rightarrow> nat \<Rightarrow> u64 \<Rightarrow> u64 \<Rightarrow> (u64 \<times> page_buddy) option" where
  "merge_loop b cur_order msk cur_idx =
     (if cur_order < PAGE_POOL_MAX_ORDER then do {
        kassert (cur_idx < nr_pages b);
        b \<leftarrow> upd_page b (unat cur_idx) (pf_order_update (\<lambda>_. cur_order));
        if PAGE_POOL_MAX_ORDER - 1 \<le> cur_order then Some (cur_idx, b)
        else do {
          let buddy_idx = cur_idx XOR push_bit cur_order 1;
          if nr_pages b \<le> buddy_idx then Some (cur_idx, b)
          else do {
            buddy_page \<leftarrow> arr_get (array b) (unat buddy_idx);
            if cur_order \<noteq> pf_order buddy_page then Some (cur_idx, b)
            else if page_cstate_not_freed buddy_page then Some (cur_idx, b)
            else do {
              let b = free_nr_add (plist_del b (unat buddy_idx)) (pf_order buddy_page) (- 1);
              let msk = push_bit 1 msk;
              merge_loop b (cur_order + 1) msk (cur_idx AND msk)
            }
          }
        }
      } else Some (cur_idx, b))"
  by pat_completeness auto
termination by (relation "measure (\<lambda>(_, cur_order, _, _). PAGE_POOL_MAX_ORDER - cur_order)") auto

declare merge_loop.simps [simp del]

text \<open>
  \<open>req\<close> is what \<open>pfn_to_page_frame(pfn, &req_page)\<close> gives: the index of the page in the
  array, or \<open>None\<close> for an error code, in which case the function returns at once.
\<close>

definition page_buddy_enqueue :: "u64 option \<Rightarrow> page_buddy \<Rightarrow> u64 \<Rightarrow> page_buddy option" where
  "page_buddy_enqueue req b pfn = do {
     kassert (start_pfn b \<le> pfn \<and> pfn < start_pfn b + nr_pages b);
     (case req of
        None \<Rightarrow> Some b
      | Some cur_idx \<Rightarrow> do {
          req_page \<leftarrow> arr_get (array b) (unat cur_idx);
          let order = pf_order req_page;
          kassert (order < PAGE_POOL_MAX_ORDER);
          let msk = push_bit order (NOT 0);
          kassert (cur_idx AND NOT msk = 0);
          b \<leftarrow> upd_page b (unat cur_idx) (pf_state_update (\<lambda>s. s AND NOT PAGE_CSTATE_USED));
          (cur_idx, b) \<leftarrow> merge_loop b order msk cur_idx;
          kassert (cur_idx < nr_pages b);
          cur_page \<leftarrow> arr_get (array b) (unat cur_idx);
          kassert (pf_order cur_page < PAGE_POOL_MAX_ORDER);
          Some (free_nr_add (plist_add b (pf_order cur_page) (unat cur_idx)) (pf_order cur_page) 1)
        })
   }"

text \<open>
  The loop of \<open>page_buddy_dequeue\<close> over the orders: the first queue with a page gives it,
  and the block is cut down to the requested order.  The result is the return code, the
  page frame number when the code is 0, and the new state.
\<close>

function dequeue_loop :: "page_buddy \<Rightarrow> nat \<Rightarrow> nat \<Rightarrow> (int \<times> u64 option \<times> page_buddy) option" where
  "dequeue_loop b order cur_order =
     (if cur_order < PAGE_POOL_MAX_ORDER then
        (case page_list b ! cur_order of
           [] \<Rightarrow> dequeue_loop b order (cur_order + 1)
         | i # q \<Rightarrow> do {
             let b = b\<lparr>page_list := (page_list b)[cur_order := q]\<rparr>;
             let b = free_nr_add b cur_order (- 1);
             (cur, b) \<leftarrow> remove_page_from_page_queue b i order cur_order;
             b \<leftarrow> upd_page b cur (pf_state_update (\<lambda>s. s OR PAGE_CSTATE_USED));
             cur_page \<leftarrow> arr_get (array b) cur;
             kassert (pf_order cur_page = order);
             kassert (start_pfn b \<le> pf_pfn cur_page \<and> pf_pfn cur_page < start_pfn b + nr_pages b);
             Some (0, Some (pf_pfn cur_page), b)
           })
      else Some (- ENOMEM, None, b))"
  by pat_completeness auto
termination by (relation "measure (\<lambda>(_, _, cur_order). PAGE_POOL_MAX_ORDER - cur_order)") auto

declare dequeue_loop.simps [simp del]

text \<open>
  Every caller passes the address of a variable as \<open>pfnp\<close>, so its null check is not a
  branch here.  A negative order would index before the first queue.
\<close>

definition page_buddy_dequeue :: "page_buddy \<Rightarrow> int \<Rightarrow> (int \<times> u64 option \<times> page_buddy) option" where
  "page_buddy_dequeue b order =
     (if int PAGE_POOL_MAX_ORDER \<le> order then Some (- EINVAL, None, b)
      else if order < 0 then None
      else dequeue_loop b (nat order) (nat order))"

definition page_buddy_get_free :: "page_buddy \<Rightarrow> u64" where
  "page_buddy_get_free b = (\<Sum>i \<leftarrow> [0..<PAGE_POOL_MAX_ORDER]. free_nr b ! i * push_bit i 1)"

definition page_buddy_init :: "page_frame list \<Rightarrow> u64 \<Rightarrow> u64 \<Rightarrow> page_buddy" where
  "page_buddy_init arr start nr_pfn =
     \<lparr>array = arr, start_pfn = start, nr_pages = nr_pfn,
      free_nr = replicate PAGE_POOL_MAX_ORDER 0, page_list = replicate PAGE_POOL_MAX_ORDER []\<rparr>"

section \<open>Buddy indices\<close>

definition bud :: "nat \<Rightarrow> nat \<Rightarrow> nat" where
  "bud i k = (if even (i div 2 ^ k) then i + 2 ^ k else i - 2 ^ k)"

lemma unat_exp_64:
  assumes "k < 64"
  shows "unat (2 ^ k :: u64) = 2 ^ k"
proof -
  have "unat (word_of_nat (2 ^ k) :: u64) = 2 ^ k mod 2 ^ 64" by (simp only: unat_of_nat) simp
  moreover have "(2 :: nat) ^ k < 2 ^ 64" using assms by (rule power_strict_increasing) simp
  ultimately show ?thesis by simp
qed

lemma unset_bit_nat_eq:
  fixes n :: nat
  assumes "bit n k"
  shows "unset_bit k n = n - 2 ^ k"
proof -
  have "set_bit k (unset_bit k n) = n"
    using assms by (intro bit_eqI) (auto simp: bit_simps)
  then show ?thesis by (simp add: set_bit_eq bit_unset_bit_iff)
qed

lemma unat_xor_push:
  fixes w :: u64
  assumes "k < 64"
  shows "unat (w XOR push_bit k 1) = bud (unat w) k"
proof -
  have "unat (push_bit k 1 :: u64) = 2 ^ k" using assms by (simp add: unat_exp_64)
  then have "unat (w XOR push_bit k 1) = unat w XOR push_bit k 1" by (simp add: unsigned_xor_eq)
  also have "\<dots> = flip_bit k (unat w)" by (simp add: flip_bit_eq_xor)
  also have "\<dots> = bud (unat w) k"
    by (simp add: flip_bit_eq_if set_bit_eq unset_bit_nat_eq bud_def bit_iff_odd)
  finally show ?thesis .
qed

lemma and_push_not_0:
  fixes w :: u64
  shows "w AND push_bit k (NOT 0) = push_bit k (drop_bit k w)"
  by (rule bit_eqI) (auto simp: bit_and_iff bit_push_bit_iff bit_drop_bit_eq bit_not_iff bit_mask_iff)

lemma unat_and_push:
  fixes w :: u64
  shows "unat (w AND push_bit k (NOT 0)) = unat w div 2 ^ k * 2 ^ k"
proof -
  have "unat w div 2 ^ k * 2 ^ k < 2 ^ 64"
    using unsigned_less [of w, where ?'a = nat] div_times_less_eq_dividend [of "unat w" "2 ^ k"]
    by (simp del: div_times_less_eq_dividend)
  then show ?thesis
    unfolding and_push_not_0 unsigned_push_bit_eq unsigned_drop_bit_eq
    using unsigned_less [of w, where ?'a = nat]
    by (simp add: push_bit_eq_mult drop_bit_eq_div take_bit_eq_mod)
qed

lemma and_not_push_eq_0:
  fixes w :: u64
  shows "w AND NOT (push_bit k (NOT 0)) = 0 \<longleftrightarrow> 2 ^ k dvd unat w"
proof -
  have "w AND NOT (push_bit k (NOT 0)) = take_bit k w"
    by (rule bit_eqI) (auto simp: bit_and_iff bit_push_bit_iff bit_not_iff bit_take_bit_iff bit_mask_iff)
  then show ?thesis
    by (metis take_bit_eq_0_iff unsigned_take_bit_eq unsigned_0 unsigned_word_eqI)
qed

lemma min_bud:
  assumes "2 ^ k dvd i"
  shows "i div 2 ^ Suc k * 2 ^ Suc k = min i (bud i k)"
proof -
  from assms obtain q where i: "i = q * 2 ^ k" by (metis dvd_def mult.commute)
  show ?thesis
  proof (cases "even q")
    case True
    then obtain r where "q = 2 * r" by (elim evenE)
    with i show ?thesis by (simp add: bud_def)
  next
    case False
    then obtain r where "q = Suc (2 * r)" by (elim oddE) simp
    with i show ?thesis by (simp add: bud_def div_mult2_eq [symmetric] algebra_simps)
  qed
qed

lemma bud_cases:
  assumes "2 ^ k dvd i"
  obtains (upper) "bud i k = i + 2 ^ k" "2 ^ Suc k dvd i" | (lower) "i = bud i k + 2 ^ k" "2 ^ Suc k dvd bud i k"
proof -
  from assms obtain q where i: "i = q * 2 ^ k" by (metis dvd_def mult.commute)
  show thesis
  proof (cases "even q")
    case True
    then obtain r where "q = 2 * r" by (elim evenE)
    with i upper show thesis by (simp add: bud_def)
  next
    case False
    then obtain r where "q = Suc (2 * r)" by (elim oddE) simp
    with i lower show thesis by (simp add: bud_def)
  qed
qed

lemma bud_even: "2 ^ Suc k dvd i \<Longrightarrow> bud i k = i + 2 ^ k"
  by (auto simp: bud_def dvd_def)

lemma bud_odd: "2 ^ Suc k dvd i \<Longrightarrow> bud (i + 2 ^ k) k = i"
  by (auto simp: bud_def dvd_def) presburger

lemma bud_bud: "2 ^ k dvd i \<Longrightarrow> bud (bud i k) k = i"
  by (erule bud_cases) (metis bud_odd, metis bud_even)

lemma bud_dvd: "2 ^ k dvd i \<Longrightarrow> 2 ^ k dvd bud i k"
  by (auto simp: bud_def)

lemma bud_neq: "2 ^ k dvd i \<Longrightarrow> bud i k \<noteq> i"
proof (erule bud_cases)
  have pos: "0 < (2 :: nat) ^ k" by simp
  show "bud i k = i + 2 ^ k \<Longrightarrow> bud i k \<noteq> i" using pos by linarith
  show "i = bud i k + 2 ^ k \<Longrightarrow> bud i k \<noteq> i" using pos by linarith
qed


section \<open>Partitions into aligned blocks\<close>

text \<open>
  \<open>M\<close> maps the first page of each block to the order of the block.  \<open>blocks_of M N\<close> says
  that the blocks are aligned to their size, do not overlap and cover the pages below \<open>N\<close>.
\<close>

definition blocks_of :: "(nat \<Rightarrow> nat option) \<Rightarrow> nat \<Rightarrow> bool" where
  "blocks_of M N \<longleftrightarrow>
     (\<forall>i k. M i = Some k \<longrightarrow> k < PAGE_POOL_MAX_ORDER \<and> 2 ^ k dvd i \<and> i + 2 ^ k \<le> N) \<and>
     (\<forall>i k j l. M i = Some k \<longrightarrow> M j = Some l \<longrightarrow> i < j \<longrightarrow> i + 2 ^ k \<le> j) \<and>
     (\<forall>p < N. \<exists>i k. M i = Some k \<and> i \<le> p \<and> p < i + 2 ^ k)"

lemma blocks_ofD:
  assumes "blocks_of M N" and "M i = Some k"
  shows "k < PAGE_POOL_MAX_ORDER" and "2 ^ k dvd i" and "i + 2 ^ k \<le> N" and "i < N"
proof -
  show "k < PAGE_POOL_MAX_ORDER" "2 ^ k dvd i" and le: "i + 2 ^ k \<le> N"
    using assms by (auto simp: blocks_of_def)
  have "0 < (2 :: nat) ^ k" by simp
  with le show "i < N" by linarith
qed

lemma blocks_of_disj:
  assumes "blocks_of M N" and "M i = Some k" and "M j = Some l"
    and "i \<le> p" and "p < i + 2 ^ k" and "j \<le> p" and "p < j + 2 ^ l"
  shows "i = j"
proof (rule ccontr)
  assume "i \<noteq> j"
  then consider "i < j" | "j < i" by linarith
  then show False using assms by cases (auto simp: blocks_of_def, (metis leD le_less_trans not_le)+)
qed

lemma blocks_of_cover:
  assumes "blocks_of M N" and "p < N"
  obtains i k where "M i = Some k" and "i \<le> p" and "p < i + 2 ^ k"
  using assms by (auto simp: blocks_of_def)

lemma aligned_block_eq:
  assumes "2 ^ m dvd h" and "2 ^ m dvd j" and "h \<le> j" and "j < h + 2 ^ m"
  shows "h = (j :: nat)"
proof -
  from assms obtain a b where "h = 2 ^ m * a" "j = 2 ^ m * b" by (auto elim!: dvdE)
  with assms(3,4) show ?thesis
    by simp (metis add_leD2 less_Suc_eq mult_Suc_right mult_less_cancel1 not_less order_le_less add.commute)
qed

text \<open>The buddy of a block is the first page of a block: it cannot lie inside a larger one.\<close>

lemma bud_head:
  assumes B: "blocks_of M N" and i: "M i = Some k" and lt: "bud i k < N"
  obtains m where "M (bud i k) = Some m"
proof -
  let ?j = "bud i k"
  from blocks_ofD [OF B i] have al: "2 ^ k dvd i" by simp
  from blocks_of_cover [OF B lt] obtain h m where h: "M h = Some m" "h \<le> ?j" "?j < h + 2 ^ m" .
  from blocks_ofD [OF B h(1)] have hal: "2 ^ m dvd h" by simp
  have "h = ?j"
  proof (cases "m \<le> k")
    case True
    then have "2 ^ m dvd ?j" using bud_dvd [OF al] power_le_dvd by blast
    with hal h show ?thesis by (intro aligned_block_eq [of m])
  next
    case False
    then have mk: "(2 :: nat) ^ Suc k dvd 2 ^ m" by (intro le_imp_power_dvd) simp
    have "h \<le> i \<and> i < h + 2 ^ m" using al
    proof (cases rule: bud_cases)
      case upper
      have "h \<le> i" 
      proof (rule ccontr)
        assume "\<not> h \<le> i"
        with h upper have "i < h" "h < i + 2 ^ Suc k" by auto
        moreover have "2 ^ Suc k dvd h" using mk hal by (rule dvd_trans)
        ultimately show False using aligned_block_eq [of "Suc k" i h] upper by auto
      qed
      with h upper show ?thesis by auto
    next
      case lower
      have "2 ^ Suc k dvd h + 2 ^ m" using mk hal by (metis dvd_add dvd_trans dvd_refl)
      with lower h have "?j + 2 ^ Suc k \<le> h + 2 ^ m"
        using aligned_block_eq [of "Suc k" ?j "h + 2 ^ m"] by (metis less_or_eq_imp_le not_le order_less_irrefl)
      with lower h show ?thesis by auto
    qed
    with blocks_of_disj [OF B h(1) i] have "h = i" by auto
    with h(1) i False show ?thesis by simp
  qed
  with h(1) that show thesis by simp
qed

lemma blocks_of_split:
  assumes B: "blocks_of M N" and i: "M i = Some (Suc k)"
  shows "blocks_of (M(i \<mapsto> k, i + 2 ^ k \<mapsto> k)) N"
proof -
  let ?M = "M(i \<mapsto> k, i + 2 ^ k \<mapsto> k)"
  note Di = blocks_ofD [OF B i]
  have off: "j = i" if "M j = Some l" "i \<le> j" "j < i + 2 ^ Suc k" for j l
    using blocks_of_disj [OF B that(1) i, of j] that by auto
  have a: "l < PAGE_POOL_MAX_ORDER \<and> 2 ^ l dvd j \<and> j + 2 ^ l \<le> N" if "?M j = Some l" for j l
  proof (cases "j = i \<or> j = i + 2 ^ k")
    case True
    have "2 ^ k dvd i" using Di(2) by (metis dvd_mult_right power_Suc)
    with True that Di show ?thesis by (auto split: if_splits)
  next
    case False
    with that have "M j = Some l" by auto
    then show ?thesis using blocks_ofD [OF B] by blast
  qed
  have b: "j + 2 ^ l \<le> j'" if "?M j = Some l" "?M j' = Some l'" "j < j'" for j l j' l'
  proof -
    have sep: "j + 2 ^ l \<le> j'" if "M j = Some l" "M j' = Some l'" "j < j'" for j l j' l'
      using B that by (auto simp: blocks_of_def)
    show ?thesis
      using that off [of j' l'] sep [of j l j' l'] sep [of i "Suc k" j' l'] sep [of j l i "Suc k"] i
      by (auto split: if_splits) (use off in fastforce)+
  qed
  have c: "\<exists>j l. ?M j = Some l \<and> j \<le> p \<and> p < j + 2 ^ l" if "p < N" for p
  proof -
    from blocks_of_cover [OF B that] obtain j l where j: "M j = Some l" "j \<le> p" "p < j + 2 ^ l" .
    show ?thesis
    proof (cases "j = i")
      case True
      with j i have "p < i + 2 ^ k \<or> i + 2 ^ k \<le> p \<and> p < i + 2 ^ k + 2 ^ k" by auto
      with True j show ?thesis
        by (metis (no_types, lifting) fun_upd_same fun_upd_twist fun_upd_other)
    next
      case False
      with j i off have "j \<noteq> i + 2 ^ k" by fastforce
      with False j show ?thesis by auto
    qed
  qed
  show ?thesis unfolding blocks_of_def using a b c by blast
qed

lemma blocks_of_merge_lower:
  assumes B: "blocks_of M N" and i: "M i = Some k" and j: "M (i + 2 ^ k) = Some k"
    and al: "2 ^ Suc k dvd i" and k: "Suc k < PAGE_POOL_MAX_ORDER"
  shows "blocks_of (M(i + 2 ^ k := None, i \<mapsto> Suc k)) N"
proof -
  let ?M = "M(i + 2 ^ k := None, i \<mapsto> Suc k)"
  have sep: "j + 2 ^ l \<le> j'" if "M j = Some l" "M j' = Some l'" "j < j'" for j l j' l'
    using B that by (auto simp: blocks_of_def)
  have a: "l < PAGE_POOL_MAX_ORDER \<and> 2 ^ l dvd h \<and> h + 2 ^ l \<le> N" if "?M h = Some l" for h l
    using that al k blocks_ofD [OF B j] blocks_ofD [OF B, of h l] by (auto split: if_splits)
  have b: "h + 2 ^ l \<le> h'" if "?M h = Some l" "?M h' = Some l'" "h < h'" for h l h' l'
    using that i j sep [of h l h' l'] sep [of i k h' l'] sep [of "i + 2 ^ k" k h' l']
      sep [of h l i k] by (fastforce split: if_splits)
  have c: "\<exists>h l. ?M h = Some l \<and> h \<le> p \<and> p < h + 2 ^ l" if "p < N" for p
  proof -
    from blocks_of_cover [OF B that] obtain h l where h: "M h = Some l" "h \<le> p" "p < h + 2 ^ l" .
    show ?thesis
    proof (cases "h = i \<or> h = i + 2 ^ k")
      case True
      with h i j have "?M i = Some (Suc k)" "i \<le> p" "p < i + 2 ^ Suc k" by auto
      then show ?thesis by blast
    qed (use h in auto)
  qed
  show ?thesis unfolding blocks_of_def using a b c by blast
qed

lemma blocks_of_merge:
  assumes B: "blocks_of M N" and i: "M i = Some k" and j: "M (bud i k) = Some k"
    and k: "Suc k < PAGE_POOL_MAX_ORDER"
  shows "blocks_of (M(i := None, bud i k := None, min i (bud i k) \<mapsto> Suc k)) N"
  using blocks_ofD(2) [OF B i]
proof (cases rule: bud_cases)
  case upper
  then have eq: "M(i := None, bud i k := None, min i (bud i k) \<mapsto> Suc k) = M(i + 2 ^ k := None, i \<mapsto> Suc k)"
    by auto
  show ?thesis unfolding eq using upper i j k by (intro blocks_of_merge_lower [OF B]) auto
next
  case lower
  define j' where "j' = bud i k"
  from lower have il: "i = j' + 2 ^ k" and al: "2 ^ Suc k dvd j'" unfolding j'_def by blast+
  from il have eq: "M(i := None, j' := None, min i j' \<mapsto> Suc k) = M(j' + 2 ^ k := None, j' \<mapsto> Suc k)"
    by auto
  show ?thesis unfolding j'_def [symmetric] eq
    using il al i j [folded j'_def] k by (intro blocks_of_merge_lower [OF B]) auto
qed

section \<open>The invariant\<close>

text \<open>
  \<open>queues_ok\<close>: queue \<open>k\<close> holds exactly the free blocks \<open>F\<close> of order \<open>k\<close>, once each, and
  \<^verbatim>\<open>free_nr[k]\<close> is its length.  \<open>pages_ok\<close>: the page array carries the blocks \<open>M\<close>; exactly
  the blocks \<open>U\<close> are used or reserved, and no page inside a block is.
\<close>

definition queues_ok :: "nat list list \<Rightarrow> u64 list \<Rightarrow> (nat \<Rightarrow> nat option) \<Rightarrow> nat set \<Rightarrow> bool" where
  "queues_ok qs fs M F \<longleftrightarrow>
     length qs = PAGE_POOL_MAX_ORDER \<and> length fs = PAGE_POOL_MAX_ORDER \<and> F \<subseteq> dom M \<and>
     (\<forall>k < PAGE_POOL_MAX_ORDER. distinct (qs ! k) \<and> set (qs ! k) = {i \<in> F. M i = Some k} \<and>
        fs ! k = of_nat (length (qs ! k)))"

definition pages_ok :: "page_frame list \<Rightarrow> u64 \<Rightarrow> u64 \<Rightarrow> (nat \<Rightarrow> nat option) \<Rightarrow> nat set \<Rightarrow> bool" where
  "pages_ok arr s n M U \<longleftrightarrow>
     unat n = length arr \<and> unat s + length arr < 2 ^ 64 \<and> blocks_of M (length arr) \<and> U \<subseteq> dom M \<and>
     (\<forall>i < length arr. pf_pfn (arr ! i) = s + of_nat i) \<and>
     (\<forall>i k. M i = Some k \<longrightarrow> pf_order (arr ! i) = k) \<and>
     (\<forall>i < length arr. page_cstate_not_freed (arr ! i) \<longleftrightarrow> i \<in> U)"

text \<open>\<open>D\<close> holds the block an operation has taken out of the queues and not yet put back.\<close>

definition buddy_ok :: "page_buddy \<Rightarrow> (nat \<Rightarrow> nat option) \<Rightarrow> nat set \<Rightarrow> nat set \<Rightarrow> bool" where
  "buddy_ok b M F D \<longleftrightarrow> F \<inter> D = {} \<and> D \<subseteq> dom M \<and>
     queues_ok (page_list b) (free_nr b) M F \<and>
     pages_ok (array b) (start_pfn b) (nr_pages b) M (dom M - F - D)"

lemma queues_ok_cong:
  assumes "queues_ok qs fs M F" and "\<And>i. i \<in> F \<Longrightarrow> M' i = M i"
  shows "queues_ok qs fs M' F"
proof -
  have "{i \<in> F. M' i = Some k} = {i \<in> F. M i = Some k}" for k using assms(2) by auto
  then show ?thesis using assms by (auto simp: queues_ok_def dom_def subset_iff)
qed

lemma queues_ok_add:
  assumes "queues_ok qs fs M F" and "i \<notin> F" and "M i = Some k" and "k < PAGE_POOL_MAX_ORDER"
  shows "queues_ok (qs[k := qs ! k @ [i]]) (fs[k := fs ! k + 1]) M (insert i F)"
  using assms by (auto simp: queues_ok_def nth_list_update)

lemma queues_ok_pop:
  assumes "queues_ok qs fs M F" and "qs ! k = i # q" and "k < PAGE_POOL_MAX_ORDER"
  shows "queues_ok (qs[k := q]) (fs[k := fs ! k + - 1]) M (F - {i})" and "i \<in> F" and "M i = Some k"
proof -
  have k: "distinct (i # q)" "set (i # q) = {i \<in> F. M i = Some k}" "fs ! k = of_nat (length (i # q))"
    using assms unfolding queues_ok_def by metis+
  then show i: "i \<in> F" "M i = Some k" by auto
  have "i \<notin> set (qs ! l)" if "l < PAGE_POOL_MAX_ORDER" "l \<noteq> k" for l
    using assms(1) that i by (auto simp: queues_ok_def)
  with assms k i show "queues_ok (qs[k := q]) (fs[k := fs ! k + - 1]) M (F - {i})"
    by (fastforce simp: queues_ok_def nth_list_update)
qed

lemma queues_ok_del:
  assumes "queues_ok qs fs M F" and "i \<in> F" and "M i = Some k" and "k < PAGE_POOL_MAX_ORDER"
  shows "queues_ok (map (remove1 i) qs) (fs[k := fs ! k + - 1]) M (F - {i})"
proof -
  have "i \<in> set (qs ! k)" using assms by (auto simp: queues_ok_def)
  then have "length (qs ! k) = Suc (length (remove1 i (qs ! k)))"
    using length_pos_if_in_set by (force simp: length_remove1)
  then have "fs ! k + - 1 = of_nat (length (remove1 i (qs ! k)))"
    using assms(1,4) by (simp add: queues_ok_def)
  moreover have "i \<notin> set (qs ! l)" if "l < PAGE_POOL_MAX_ORDER" "l \<noteq> k" for l
    using assms(1,3) that by (auto simp: queues_ok_def)
  ultimately show ?thesis
    using assms by (auto simp: queues_ok_def nth_list_update remove1_idem)
qed

lemma not_freed_order [simp]:
  "page_cstate_not_freed (p\<lparr>pf_order := k\<rparr>) = page_cstate_not_freed p"
  by (simp add: page_cstate_not_freed_def)

text \<open>Writing orders changes nothing else in the pages.\<close>

definition same_but_order :: "page_frame list \<Rightarrow> page_frame list \<Rightarrow> bool" where
  "same_but_order a a' \<longleftrightarrow> map (pf_order_update (\<lambda>_. 0)) a' = map (pf_order_update (\<lambda>_. 0)) a"

lemma same_but_order_simps [simp]:
  "same_but_order a a"
  "same_but_order a (a'[i := (a' ! i)\<lparr>pf_order := k\<rparr>]) \<longleftrightarrow> same_but_order a a'"
proof -
  show "same_but_order a a" by (simp add: same_but_order_def)
  have "map (pf_order_update (\<lambda>_. 0)) (a'[i := (a' ! i)\<lparr>pf_order := k\<rparr>]) = map (pf_order_update (\<lambda>_. 0)) a'"
  proof (cases "i < length a'")
    case True
    then have "pf_order_update (\<lambda>_. 0) ((a' ! i)\<lparr>pf_order := k\<rparr>) = map (pf_order_update (\<lambda>_. 0)) a' ! i"
      by simp
    then show ?thesis by (simp only: map_update list_update_id)
  qed (simp add: list_update_beyond)
  then show "same_but_order a (a'[i := (a' ! i)\<lparr>pf_order := k\<rparr>]) \<longleftrightarrow> same_but_order a a'"
    by (simp add: same_but_order_def)
qed

lemma same_but_order_trans: "same_but_order a b \<Longrightarrow> same_but_order b c \<Longrightarrow> same_but_order a c"
  by (simp add: same_but_order_def)

lemma same_but_orderD:
  assumes "same_but_order a a'"
  shows "length a' = length a" and "i < length a \<Longrightarrow> pf_state (a' ! i) = pf_state (a ! i)"
    and "i < length a \<Longrightarrow> (a' ! i)\<lparr>pf_order := 0\<rparr> = (a ! i)\<lparr>pf_order := 0\<rparr>"
proof -
  show len: "length a' = length a" using assms by (metis length_map same_but_order_def)
  show eq: "(a' ! i)\<lparr>pf_order := 0\<rparr> = (a ! i)\<lparr>pf_order := 0\<rparr>" if "i < length a"
    using that len arg_cong [OF assms [unfolded same_but_order_def], of "\<lambda>l. l ! i"] by simp
  show "pf_state (a' ! i) = pf_state (a ! i)" if "i < length a"
    using arg_cong [OF eq [OF that], of pf_state] by simp
qed

lemma same_but_order_buddyp:
  assumes "same_but_order a a'" and "i < length a"
  shows "buddyp (a' ! i) = buddyp (a ! i)" and "mapcnt (a' ! i) = mapcnt (a ! i)"
    and "pf_pfn (a' ! i) = pf_pfn (a ! i)"
  using arg_cong [OF same_but_orderD(3) [OF assms], of buddyp]
    arg_cong [OF same_but_orderD(3) [OF assms], of mapcnt]
    arg_cong [OF same_but_orderD(3) [OF assms], of pf_pfn] by simp_all

lemma same_but_order_state:
  assumes "same_but_order a a'" and "j < length a"
  shows "same_but_order (a[j := (a ! j)\<lparr>pf_state := s\<rparr>]) (a'[j := (a' ! j)\<lparr>pf_state := s\<rparr>])"
proof -
  have "(a' ! j)\<lparr>pf_order := 0\<rparr>\<lparr>pf_state := s\<rparr> = (a ! j)\<lparr>pf_order := 0\<rparr>\<lparr>pf_state := s\<rparr>"
    using same_but_orderD(3) [OF assms] by (rule arg_cong)
  then have "pf_order_update (\<lambda>_. 0) ((a' ! j)\<lparr>pf_state := s\<rparr>) = pf_order_update (\<lambda>_. 0) ((a ! j)\<lparr>pf_state := s\<rparr>)"
    by (cases "a ! j", cases "a' ! j") simp
  then show ?thesis using assms(1) by (simp only: same_but_order_def map_update)
qed

lemma pages_okD:
  assumes "pages_ok arr s n M U"
  shows "unat n = length arr" "unat s + length arr < 2 ^ 64" "blocks_of M (length arr)" "U \<subseteq> dom M"
    and "i < length arr \<Longrightarrow> pf_pfn (arr ! i) = s + of_nat i"
    and "M i = Some k \<Longrightarrow> pf_order (arr ! i) = k" and "M i = Some k \<Longrightarrow> i < length arr"
    and "i < length arr \<Longrightarrow> page_cstate_not_freed (arr ! i) \<longleftrightarrow> i \<in> U"
  using assms blocks_ofD(4) [of M "length arr" i k] by (auto simp: pages_ok_def)

lemma pages_ok_split:
  assumes P: "pages_ok arr s n M U" and i: "M i = Some (Suc k)" "i \<notin> U"
  shows "pages_ok (arr[i := (arr ! i)\<lparr>pf_order := k\<rparr>, i + 2 ^ k := (arr ! (i + 2 ^ k))\<lparr>pf_order := k\<rparr>])
           s n (M(i \<mapsto> k, i + 2 ^ k \<mapsto> k)) U" (is "pages_ok ?a s n ?M U")
proof -
  note D = pages_okD [OF P]
  have le: "i + 2 ^ Suc k \<le> length arr" using blocks_ofD [OF D(3) i(1)] by simp
  have pos: "0 < (2 :: nat) ^ k" by simp
  with le have lt: "i + 2 ^ k < length arr" "i < length arr" unfolding power_Suc by linarith+
  have "pf_order (?a ! j) = l" if "?M j = Some l" for j l
    using that D(6) [of j l] lt by (auto simp: nth_list_update split: if_splits)
  moreover have "pf_pfn (?a ! j) = s + of_nat j" "page_cstate_not_freed (?a ! j) \<longleftrightarrow> j \<in> U"
    if "j < length arr" for j
    using that D(5,8) [of j] lt by (auto simp: nth_list_update)
  ultimately show ?thesis
    using D(1-4) blocks_of_split [OF D(3) i(1)] by (auto simp: pages_ok_def)
qed

lemma pages_ok_merge:
  assumes P: "pages_ok arr s n M U" and i: "M i = Some k" "i \<notin> U" and j: "M (bud i k) = Some k" "bud i k \<notin> U"
    and k: "Suc k < PAGE_POOL_MAX_ORDER"
  defines "m \<equiv> min i (bud i k)"
  shows "pages_ok (arr[m := (arr ! m)\<lparr>pf_order := Suc k\<rparr>])
           s n (M(i := None, bud i k := None, m \<mapsto> Suc k)) U" (is "pages_ok ?a s n ?M U")
proof -
  note D = pages_okD [OF P]
  have m: "m < length arr" using D(7) [OF i(1)] by (simp add: m_def)
  have "pf_order (?a ! h) = l" if "?M h = Some l" for h l
    using that D(6) [of h l] m by (auto simp: nth_list_update split: if_splits)
  moreover have "pf_pfn (?a ! h) = s + of_nat h" "page_cstate_not_freed (?a ! h) \<longleftrightarrow> h \<in> U"
    if "h < length arr" for h
    using that D(5,8) [of h] m by (auto simp: nth_list_update)
  moreover have "U \<subseteq> dom ?M" using D(4) i j by (auto simp: m_def)
  ultimately show ?thesis
    using D(1-4) blocks_of_merge [OF D(3) i(1) j(1) k] by (auto simp: pages_ok_def m_def)
qed

section \<open>Splitting\<close>

text \<open>Free blocks are merged as far as possible: no two free buddies of the same order.\<close>

definition coalesced :: "(nat \<Rightarrow> nat option) \<Rightarrow> nat set \<Rightarrow> bool" where
  "coalesced M F \<longleftrightarrow> (\<forall>i k. i \<in> F \<longrightarrow> M i = Some k \<longrightarrow> Suc k < PAGE_POOL_MAX_ORDER \<longrightarrow>
     M (bud i k) = Some k \<longrightarrow> bud i k \<notin> F)"

lemma coalesced_subset:
  assumes "coalesced M F" and "G \<subseteq> F" and "\<And>i. i \<in> G \<Longrightarrow> M' i = M i"
  shows "coalesced M' G"
  unfolding coalesced_def
proof (intro allI impI notI)
  fix i k assume *: "i \<in> G" "M' i = Some k" "Suc k < PAGE_POOL_MAX_ORDER" "M' (bud i k) = Some k" "bud i k \<in> G"
  with assms have "i \<in> F" "M i = Some k" "M (bud i k) = Some k" "bud i k \<in> F" by auto
  with assms(1) *(3) show False unfolding coalesced_def by blast
qed

text \<open>What an operation keeps: the buddy's range, every other block and every page but its order.\<close>

definition keeps :: "page_buddy \<Rightarrow> page_buddy \<Rightarrow> (nat \<Rightarrow> nat option) \<Rightarrow> (nat \<Rightarrow> nat option) \<Rightarrow> nat set \<Rightarrow> bool" where
  "keeps b b' M M' U \<longleftrightarrow> start_pfn b' = start_pfn b \<and> nr_pages b' = nr_pages b \<and>
     same_but_order (array b) (array b') \<and> (\<forall>i \<in> U. M' i = M i)"

lemma keeps_refl [simp]: "keeps b b M M U"
  by (simp add: keeps_def)

lemma keeps_trans: "keeps b b' M M' U \<Longrightarrow> keeps b' b'' M' M'' U \<Longrightarrow> keeps b b'' M M'' U"
  by (auto simp: keeps_def intro: same_but_order_trans)

definition split_step :: "page_buddy \<Rightarrow> nat \<Rightarrow> nat \<Rightarrow> page_buddy" where
  "split_step b i k = b\<lparr>
     page_list := (page_list b)[k := page_list b ! k @ [i]], free_nr := (free_nr b)[k := free_nr b ! k + 1],
     array := (array b)[i := (array b ! i)\<lparr>pf_order := k\<rparr>, i + 2 ^ k := (array b ! (i + 2 ^ k))\<lparr>pf_order := k\<rparr>]\<rparr>"

lemma split_loop_step:
  assumes "buddy_ok b M F {i}" and "M i = Some (Suc k)" and "r \<le> k"
  shows "split_loop b i (2 ^ Suc k) (Suc k) r = split_loop (split_step b i k) (i + 2 ^ k) (2 ^ k) k r"
proof -
  have P: "pages_ok (array b) (start_pfn b) (nr_pages b) M (dom M - F - {i})"
    using assms(1) by (simp add: buddy_ok_def)
  note D = pages_okD [OF P]
  from blocks_ofD [OF D(3) assms(2)] have le: "i + 2 ^ Suc k \<le> length (array b)" by simp
  have pos: "0 < (2 :: nat) ^ k" by simp
  with le have "i + 2 ^ k < length (array b)" "i < length (array b)" unfolding power_Suc by linarith+
  with assms(3) D(8) [of i] show ?thesis
    by (simp add: split_loop.simps [of b i] upd_page_def split_step_def plist_add_def free_nr_add_def Let_def)
qed

lemma split_step_ok:
  assumes B: "buddy_ok b M F {i}" and i: "M i = Some (Suc k)"
  defines "M' \<equiv> M(i \<mapsto> k, i + 2 ^ k \<mapsto> k)"
  shows "buddy_ok (split_step b i k) M' (insert i F) {i + 2 ^ k}"
    and "keeps b (split_step b i k) M M' (dom M - F - {i})"
    and "dom M' - insert i F - {i + 2 ^ k} = dom M - F - {i}"
    and "coalesced M F \<Longrightarrow> coalesced M' (insert i F)"
proof -
  from B have Q: "queues_ok (page_list b) (free_nr b) M F" and "i \<notin> F"
    and P: "pages_ok (array b) (start_pfn b) (nr_pages b) M (dom M - F - {i})"
    by (auto simp: buddy_ok_def)
  note bl = pages_okD(3) [OF P]
  from blocks_ofD [OF bl i] have al: "2 ^ Suc k dvd i" and k: "Suc k < PAGE_POOL_MAX_ORDER" by auto
  have "M (i + 2 ^ k) = None"
  proof (rule ccontr)
    assume "M (i + 2 ^ k) \<noteq> None"
    then obtain l where "M (i + 2 ^ k) = Some l" by blast
    from blocks_of_disj [OF bl i this, of "i + 2 ^ k"] show False by simp
  qed
  moreover have "F \<subseteq> dom M" using Q by (simp add: queues_ok_def)
  ultimately have nF: "i + 2 ^ k \<notin> F" and eqF: "M' j = M j" if "j \<in> F" for j
    using that \<open>i \<notin> F\<close> by (auto simp: M'_def)
  have nF: "i + 2 ^ k \<notin> F" using nF \<open>F \<subseteq> dom M\<close> \<open>M (i + 2 ^ k) = None\<close> by blast
  show U: "dom M' - insert i F - {i + 2 ^ k} = dom M - F - {i}"
    using \<open>M (i + 2 ^ k) = None\<close> by (auto simp: M'_def)
  have "queues_ok (page_list b) (free_nr b) M' F" using Q eqF by (rule queues_ok_cong)
  then have "queues_ok (page_list (split_step b i k)) (free_nr (split_step b i k)) M' (insert i F)"
    using \<open>i \<notin> F\<close> k by (simp add: split_step_def queues_ok_add M'_def)
  moreover have "pages_ok (array (split_step b i k)) (start_pfn b) (nr_pages b) M' (dom M - F - {i})"
    using pages_ok_split [OF P i] by (simp add: split_step_def M'_def)
  ultimately show "buddy_ok (split_step b i k) M' (insert i F) {i + 2 ^ k}"
    using nF U by (auto simp: buddy_ok_def split_step_def M'_def)
  show "keeps b (split_step b i k) M M' (dom M - F - {i})"
    using \<open>M (i + 2 ^ k) = None\<close>
    by (auto simp: keeps_def split_step_def M'_def)
      (metis (no_types) nth_list_update_neq same_but_order_simps le_add1 add_cancel_right_right power_not_zero zero_neq_numeral)
  show "coalesced M' (insert i F)" if "coalesced M F"
    unfolding coalesced_def
  proof (intro allI impI)
    fix j l assume j: "j \<in> insert i F" "M' j = Some l" "Suc l < PAGE_POOL_MAX_ORDER" "M' (bud j l) = Some l"
    show "bud j l \<notin> insert i F"
    proof (cases "j = i")
      case True
      with j bud_even [OF al] have "bud j l = i + 2 ^ k" by (simp add: M'_def)
      with nF show ?thesis by simp
    next
      case False
      with j have jF: "j \<in> F" by simp
      with j eqF have Mj: "M j = Some l" by simp
      have "bud j l \<noteq> i"
      proof
        assume "bud j l = i"
        with j bud_even [OF al] bud_bud [of l j] blocks_ofD [OF bl Mj] have "j = i + 2 ^ k" by (simp add: M'_def)
        with jF nF show False by simp
      qed
      with that jF Mj j eqF show ?thesis by (auto simp: coalesced_def)
    qed
  qed
qed

lemma split_loop_ok:
  assumes "buddy_ok b M F {i}" and "M i = Some c" and "r \<le> c"
  shows "\<exists>j b' M' F'. split_loop b i (2 ^ c) c r = Some (j, b') \<and> buddy_ok b' M' F' {j} \<and> M' j = Some r \<and>
    keeps b b' M M' (dom M - F - {i}) \<and> dom M' - F' - {j} = dom M - F - {i} \<and>
    (coalesced M F \<longrightarrow> coalesced M' F')"
  using assms
proof (induction "c - r" arbitrary: b M F i c)
  case 0
  then have c: "c = r" by simp
  have "split_loop b i (2 ^ c) c r = Some (i, b)" by (simp add: split_loop.simps c)
  with 0 c show ?case by (intro exI [of _ i] exI [of _ b] exI [of _ M] exI [of _ F]) auto
next
  case (Suc n)
  then obtain k where c: "c = Suc k" "r \<le> k" "n = k - r" by (cases c) auto
  define b1 where "b1 = split_step b i k"
  define M1 where "M1 = M(i \<mapsto> k, i + 2 ^ k \<mapsto> k)"
  from Suc.prems c have i: "M i = Some (Suc k)" by simp
  note S = split_step_ok [OF Suc.prems(1) i, folded b1_def M1_def]
  have M1: "M1 (i + 2 ^ k) = Some k" by (simp add: M1_def)
  from Suc.hyps(1) [OF c(3) S(1) M1 c(2)] obtain j b' M' F' where
    r: "split_loop b1 (i + 2 ^ k) (2 ^ k) k r = Some (j, b')" "buddy_ok b' M' F' {j}" "M' j = Some r"
      "keeps b1 b' M1 M' (dom M - F - {i})" "dom M' - F' - {j} = dom M - F - {i}"
      "coalesced M1 (insert i F) \<longrightarrow> coalesced M' F'"
    unfolding S(3) by (elim exE conjE) (rule that)
  have "split_loop b i (2 ^ c) c r = Some (j, b')"
    unfolding c(1) split_loop_step [OF Suc.prems(1) i c(2)] using r(1) by (simp add: b1_def)
  moreover have "keeps b b' M M' (dom M - F - {i})" using S(2) r(4) by (rule keeps_trans)
  moreover have "coalesced M F \<longrightarrow> coalesced M' F'" using r(6) S(4) by blast
  ultimately show ?case using r(2,3,5)
    by (intro exI [of _ j] exI [of _ b'] exI [of _ M'] exI [of _ F'] conjI)
qed

section \<open>Merging\<close>

definition set_order :: "page_buddy \<Rightarrow> nat \<Rightarrow> nat \<Rightarrow> page_buddy" where
  "set_order b i k = b\<lparr>array := (array b)[i := (array b ! i)\<lparr>pf_order := k\<rparr>]\<rparr>"

lemma set_order_same: "set_order b i (pf_order (array b ! i)) = b"
  by (simp add: set_order_def)

definition merge_step :: "page_buddy \<Rightarrow> nat \<Rightarrow> nat \<Rightarrow> page_buddy" where
  "merge_step b j k = free_nr_add (plist_del b j) k (- 1)"

lemma merge_step_ok:
  assumes B: "buddy_ok b M F {i}" and i: "M i = Some k" and j: "M (bud i k) = Some k" "bud i k \<in> F"
    and k: "Suc k < PAGE_POOL_MAX_ORDER"
  defines "m \<equiv> min i (bud i k)"
  defines "M' \<equiv> M(i := None, bud i k := None, m \<mapsto> Suc k)"
  defines "b' \<equiv> set_order (merge_step b (bud i k) k) m (Suc k)"
  shows "buddy_ok b' M' (F - {bud i k}) {m}"
    and "keeps b b' M M' (dom M - F - {i})"
    and "dom M' - (F - {bud i k}) - {m} = dom M - F - {i}"
    and "coalesced M F \<Longrightarrow> coalesced M' (F - {bud i k})"
proof -
  from B have Q: "queues_ok (page_list b) (free_nr b) M F" and iF: "i \<notin> F"
    and P: "pages_ok (array b) (start_pfn b) (nr_pages b) M (dom M - F - {i})"
    by (auto simp: buddy_ok_def)
  have m: "m = i \<or> m = bud i k" by (auto simp: m_def)
  show U: "dom M' - (F - {bud i k}) - {m} = dom M - F - {i}" using m i j iF by (auto simp: M'_def)
  have eqF: "M' x = M x" if "x \<in> F - {bud i k}" for x using that iF m by (auto simp: M'_def)
  have "queues_ok (map (remove1 (bud i k)) (page_list b)) ((free_nr b)[k := free_nr b ! k + - 1]) M (F - {bud i k})"
    using Q j k by (intro queues_ok_del) auto
  moreover have "page_list b' = map (remove1 (bud i k)) (page_list b)"
    "free_nr b' = (free_nr b)[k := free_nr b ! k + - 1]"
    by (simp_all add: b'_def set_order_def merge_step_def plist_del_def free_nr_add_def)
  ultimately have "queues_ok (page_list b') (free_nr b') M (F - {bud i k})" by (simp only:)
  then have "queues_ok (page_list b') (free_nr b') M' (F - {bud i k})" using eqF by (rule queues_ok_cong)
  moreover have "pages_ok (array b') (start_pfn b') (nr_pages b') M' (dom M - F - {i})"
  proof -
    have e: "array b' = (array b)[m := (array b ! m)\<lparr>pf_order := Suc k\<rparr>]"
      "start_pfn b' = start_pfn b" "nr_pages b' = nr_pages b"
      by (simp_all add: b'_def set_order_def merge_step_def plist_del_def free_nr_add_def)
    show ?thesis unfolding e M'_def m_def
      using j(2) by (intro pages_ok_merge [OF P i _ j(1) _ k]) blast+
  qed
  moreover have "(F - {bud i k}) \<inter> {m} = {}" "{m} \<subseteq> dom M'" using m iF by (auto simp: M'_def)
  ultimately show "buddy_ok b' M' (F - {bud i k}) {m}"
    unfolding buddy_ok_def U by (intro conjI)
  show "keeps b b' M M' (dom M - F - {i})" using j iF m
    by (auto simp: keeps_def b'_def set_order_def merge_step_def plist_del_def free_nr_add_def M'_def)
  show "coalesced M' (F - {bud i k})" if "coalesced M F"
    using that _ eqF by (rule coalesced_subset) blast
qed

text \<open>One turn of the loop, on a state whose order field has been written.\<close>

lemma merge_loop_turn:
  assumes B: "buddy_ok (set_order b i k) M F {i}" and i: "M i = Some k" and w: "unat w = i"
  defines "b1 \<equiv> set_order b i k" and "j \<equiv> bud i k"
  shows "merge_loop b k msk w =
    (if Suc k < PAGE_POOL_MAX_ORDER \<and> M j = Some k \<and> j \<in> F
     then merge_loop (merge_step b1 j k) (Suc k) (push_bit 1 msk) (w AND push_bit 1 msk)
     else Some (w, b1))"
proof -
  have P: "pages_ok (array b1) (start_pfn b1) (nr_pages b1) M (dom M - F - {i})"
    using B by (simp add: buddy_ok_def b1_def)
  note D = pages_okD [OF P]
  from blocks_ofD [OF D(3) i] have k: "k < PAGE_POOL_MAX_ORDER" and al: "2 ^ k dvd i" and
    lt: "i < length (array b1)" by auto
  then have upd: "upd_page b i (pf_order_update (\<lambda>_. k)) = Some b1"
    by (simp add: upd_page_def b1_def set_order_def)
  have wlt: "w < nr_pages b" using D(1) lt w by (simp add: word_less_nat_alt b1_def set_order_def)
  have j: "unat (w XOR push_bit k 1) = j" using unat_xor_push [of k w] k w by (simp add: j_def)
  show ?thesis
  proof (cases "Suc k < PAGE_POOL_MAX_ORDER \<and> j < length (array b1)")
    case True
    then have "\<not> nr_pages b1 \<le> w XOR push_bit k 1"
      using D(1) j by (simp add: word_le_nat_alt del: push_bit_of_1)
    moreover from bud_head [OF D(3) i] True obtain m where m: "M j = Some m" by (auto simp: j_def)
    then have "pf_order (array b1 ! j) = m" using D(6) by blast
    moreover have "page_cstate_not_freed (array b1 ! j) \<longleftrightarrow> j \<notin> F"
      using D(8) [of j] True m bud_neq [OF al] by (auto simp: j_def)
    ultimately show ?thesis
      using True k wlt w upd m j unfolding merge_loop.simps [of b]
      by (simp add: Let_def merge_step_def del: push_bit_of_1)
  next
    case False
    have "nr_pages b1 \<le> w XOR push_bit k 1" if "Suc k < PAGE_POOL_MAX_ORDER"
      using D(1) j that False by (simp add: word_le_nat_alt del: push_bit_of_1)
    moreover have "M j \<noteq> Some k" if "Suc k < PAGE_POOL_MAX_ORDER"
      using D(7) [of j k] that False by auto
    ultimately show ?thesis
      using k wlt w upd j unfolding merge_loop.simps [of b]
      by (auto simp add: Let_def simp del: push_bit_of_1)
  qed
qed

lemma coalesced_insert:
  assumes "coalesced M F" and i: "M i = Some k" and al: "2 ^ k dvd i"
    and al': "\<And>x l. M x = Some l \<Longrightarrow> 2 ^ l dvd x"
    and no: "\<not> (Suc k < PAGE_POOL_MAX_ORDER \<and> M (bud i k) = Some k \<and> bud i k \<in> F)"
  shows "coalesced M (insert i F)"
  unfolding coalesced_def
proof (intro allI impI)
  fix x l assume x: "x \<in> insert i F" "M x = Some l" "Suc l < PAGE_POOL_MAX_ORDER" "M (bud x l) = Some l"
  show "bud x l \<notin> insert i F"
  proof (cases "x = i")
    case True
    with x i no bud_neq [OF al] show ?thesis by auto
  next
    case False
    moreover have "bud x l \<noteq> i"
    proof
      assume e: "bud x l = i"
      with x i have l: "l = k" by simp
      with e bud_bud [OF al' [OF x(2)]] have "bud i k = x" by simp
      with x l no False show False by auto
    qed
    ultimately show ?thesis using assms(1) x by (auto simp: coalesced_def)
  qed
qed

lemma merge_loop_ok:
  assumes "buddy_ok (set_order b i k) M F {i}" and "M i = Some k" and "unat w = i"
    and "msk = push_bit k (NOT 0)"
  shows "\<exists>w' k' b' M' F'. merge_loop b k msk w = Some (w', b') \<and> buddy_ok b' M' F' {unat w'} \<and>
    M' (unat w') = Some k' \<and>
    keeps (set_order b i k) b' M M' (dom M - F - {i}) \<and>
    dom M' - F' - {unat w'} = dom M - F - {i} \<and>
    (coalesced M F \<longrightarrow> coalesced M' (insert (unat w') F'))"
  using assms
proof (induction "PAGE_POOL_MAX_ORDER - k" arbitrary: b M F i k w msk)
  case 0
  from 0(2) have "pages_ok (array (set_order b i k)) (start_pfn (set_order b i k)) (nr_pages (set_order b i k)) M
     (dom M - F - {i})"
    by (simp add: buddy_ok_def)
  from blocks_ofD [OF pages_okD(3) [OF this] 0(3)] 0(1) show ?case by simp
next
  case (Suc n)
  define b1 where "b1 = set_order b i k"
  define j where "j = bud i k"
  note turn = merge_loop_turn [OF Suc.prems(1-3), of msk, folded b1_def j_def]
  have B: "buddy_ok b1 M F {i}" using Suc.prems(1) by (simp add: b1_def)
  then have bl: "blocks_of M (length (array b1))" by (auto simp: buddy_ok_def dest: pages_okD(3))
  from blocks_ofD [OF bl Suc.prems(2)] have al: "2 ^ k dvd i" and k11: "k < PAGE_POOL_MAX_ORDER" by auto
  show ?case
  proof (cases "Suc k < PAGE_POOL_MAX_ORDER \<and> M j = Some k \<and> j \<in> F")
    case False
    have "coalesced M (insert i F)" if "coalesced M F"
      using that Suc.prems(2) al _ False [unfolded j_def]
      by (rule coalesced_insert) (use blocks_ofD [OF bl] in blast)
    moreover have "merge_loop b k msk w = Some (w, b1)" using turn by (simp only: if_not_P [OF False])
    ultimately show ?thesis using B Suc.prems(2,3) unfolding b1_def [symmetric]
      by (intro exI [of _ w] exI [of _ k] exI [of _ b1] exI [of _ M] exI [of _ F]) auto
  next
    case True
    define m where "m = min i j"
    define M1 where "M1 = M(i := None, j := None, m \<mapsto> Suc k)"
    define b2 where "b2 = merge_step b1 j k"
    define w1 where "w1 = (w AND push_bit 1 msk)"
    have msk: "push_bit 1 msk = push_bit (Suc k) (NOT 0)"
      unfolding Suc.prems(4) by (simp only: push_bit_push_bit plus_1_eq_Suc)
    have w1: "unat w1 = m"
      unfolding w1_def msk unat_and_push Suc.prems(3) m_def j_def using al by (rule min_bud)
    have k: "Suc k < PAGE_POOL_MAX_ORDER" and j: "M (bud i k) = Some k" "bud i k \<in> F"
      using True by (simp_all add: j_def)
    note S = merge_step_ok [OF B Suc.prems(2) j k, folded j_def, folded m_def, folded M1_def b2_def]
    have M1: "M1 m = Some (Suc k)" by (simp add: M1_def)
    have n: "n = PAGE_POOL_MAX_ORDER - Suc k" using Suc.hyps(2) by simp
    from Suc.hyps(1) [OF n S(1) M1 w1 msk] obtain w' k' b' M' F' where
      r: "merge_loop b2 (Suc k) (push_bit 1 msk) w1 = Some (w', b')" "buddy_ok b' M' F' {unat w'}"
        "M' (unat w') = Some k'" "keeps (set_order b2 m (Suc k)) b' M1 M' (dom M - F - {i})"
        "dom M' - F' - {unat w'} = dom M - F - {i}"
        "coalesced M1 (F - {j}) \<longrightarrow> coalesced M' (insert (unat w') F')"
      unfolding S(3) by (elim exE conjE) (rule that)
    have "merge_loop b k msk w = Some (w', b')"
      unfolding turn using True r(1) by (simp add: b2_def w1_def)
    moreover have "keeps b1 b' M M' (dom M - F - {i})" using S(2) r(4) by (rule keeps_trans)
    moreover have "coalesced M F \<longrightarrow> coalesced M' (insert (unat w') F')" using r(6) S(4) by blast
    ultimately show ?thesis using r(2,3,5) unfolding b1_def [symmetric]
      by (intro exI [of _ w'] exI [of _ k'] exI [of _ b'] exI [of _ M'] exI [of _ F'] conjI)
  qed
qed

section \<open>The two operations\<close>

text \<open>
  The abstract state of the allocator: the allocated blocks, as pairs of first page and
  order.  A reserved page counts as allocated.
\<close>

definition alloc_blocks :: "page_buddy \<Rightarrow> (nat \<times> nat) set" where
  "alloc_blocks b = {(i, pf_order (array b ! i)) | i. i < length (array b) \<and> page_cstate_not_freed (array b ! i)}"

lemma alloc_blocks_eq:
  assumes "buddy_ok b M F D"
  shows "alloc_blocks b = {(i, k). M i = Some k \<and> i \<notin> F \<and> i \<notin> D}"
proof -
  have "pages_ok (array b) (start_pfn b) (nr_pages b) M (dom M - F - D)"
    using assms by (simp add: buddy_ok_def)
  note D = pages_okD [OF this]
  show ?thesis using D(6,7,8) by (fastforce simp: alloc_blocks_def)
qed

lemma alloc_blocks_keep:
  assumes "buddy_ok b M F D" and "buddy_ok b' M' F' D'" and "keeps b b' M M' (dom M - F - D)"
    and "dom M' - F' - D' = dom M - F - D"
  shows "alloc_blocks b' = alloc_blocks b"
proof -
  have "M' i = Some k \<and> i \<notin> F' \<and> i \<notin> D' \<longleftrightarrow> M i = Some k \<and> i \<notin> F \<and> i \<notin> D" for i k
  proof -
    have "i \<in> dom M - F - D \<Longrightarrow> M' i = M i" using assms(3) by (simp add: keeps_def)
    moreover have "i \<in> dom M' - F' - D' \<longleftrightarrow> i \<in> dom M - F - D" using assms(4) by simp
    ultimately show ?thesis by (cases "i \<in> dom M - F - D") auto
  qed
  then show ?thesis by (simp add: alloc_blocks_eq [OF assms(1)] alloc_blocks_eq [OF assms(2)])
qed

lemma pf_state_update_eq: "pf_state_update f p = p\<lparr>pf_state := f (pf_state p)\<rparr>"
  by (cases p) simp

lemma pages_ok_state:
  assumes "pages_ok arr s n M U" and "i \<in> dom M"
  shows "pages_ok (arr[i := (arr ! i)\<lparr>pf_state := st\<rparr>]) s n M
     (if st AND (PAGE_CSTATE_USED OR PAGE_CSTATE_RESERVED) \<noteq> 0 then insert i U else U - {i})"
proof -
  from assms(2) obtain k where "M i = Some k" by blast
  note D = pages_okD [OF assms(1)]
  then have "i < length arr" using \<open>M i = Some k\<close> by blast
  with D assms show ?thesis
    by (auto simp: pages_ok_def nth_list_update page_cstate_not_freed_def)
qed

lemma state_bits:
  fixes s :: u32
  assumes "s AND (1 OR 2) = 0"
  shows "s AND 2 = 0" and "s AND 1 = 0"
proof -
  have *: "s AND 1 OR (s AND 2) = 0" using assms by (simp only: bit.conj_disj_distrib)
  then show "s AND 2 = 0" "s AND 1 = 0" by (simp_all add: or_eq_0_iff)
qed

text \<open>Putting the detached block into its queue.\<close>

lemma buddy_ok_add:
  assumes "buddy_ok b M F {i}" and "M i = Some k"
  shows "buddy_ok (free_nr_add (plist_add b k i) k 1) M (insert i F) {}"
proof -
  have P: "pages_ok (array b) (start_pfn b) (nr_pages b) M (dom M - F - {i})"
    and Q: "queues_ok (page_list b) (free_nr b) M F" and "i \<notin> F"
    using assms(1) by (auto simp: buddy_ok_def)
  have k: "k < PAGE_POOL_MAX_ORDER" using blocks_ofD [OF pages_okD(3) [OF P] assms(2)] by simp
  have U: "dom M - insert i F - {} = dom M - F - {i}" by blast
  show ?thesis using P queues_ok_add [OF Q \<open>i \<notin> F\<close> assms(2) k]
    unfolding buddy_ok_def U by (simp add: free_nr_add_def plist_add_def)
qed

definition clear_used :: "page_buddy \<Rightarrow> nat \<Rightarrow> page_buddy" where
  "clear_used b i = b\<lparr>array := (array b)[i := (array b ! i)\<lparr>pf_state := pf_state (array b ! i) AND NOT PAGE_CSTATE_USED\<rparr>]\<rparr>"

lemma clear_used_bits:
  fixes w :: u32
  assumes "w AND PAGE_CSTATE_RESERVED = 0"
  shows "(w AND NOT PAGE_CSTATE_USED) AND (PAGE_CSTATE_USED OR PAGE_CSTATE_RESERVED) = 0"
proof (rule bit_eqI)
  fix n
  show "bit ((w AND NOT 1) AND (1 OR 2)) n \<longleftrightarrow> bit (0 :: u32) n"
    using arg_cong [OF assms, of "\<lambda>w. bit w n"] by (simp only: bit_and_iff bit_not_iff bit_or_iff) auto
qed

lemma buddy_ok_clear_used:
  assumes B: "buddy_ok b M F {}" and i: "M i = Some k" "i \<notin> F"
    and nr: "pf_state (array b ! i) AND PAGE_CSTATE_RESERVED = 0"
  shows "buddy_ok (clear_used b i) M F {i}"
proof -
  have P: "pages_ok (array b) (start_pfn b) (nr_pages b) M (dom M - F - {})"
    using B by (simp add: buddy_ok_def)
  note st = clear_used_bits [OF nr]
  have U: "dom M - F - {} - {i} = dom M - F - {i}" by blast
  have "pages_ok ((array b)[i := (array b ! i)\<lparr>pf_state := pf_state (array b ! i) AND NOT PAGE_CSTATE_USED\<rparr>])
     (start_pfn b) (nr_pages b) M (dom M - F - {i})"
    using pages_ok_state [OF P, of i "pf_state (array b ! i) AND NOT PAGE_CSTATE_USED"] i(1)
    by (simp only: st U) auto
  with B i show ?thesis by (auto simp: buddy_ok_def clear_used_def)
qed

lemma enqueue_core:
  assumes C0: "buddy_ok (clear_used b i) M F {i}" and i: "M i = Some k"
  shows "\<exists>b' M' F'. page_buddy_enqueue (Some (of_nat i)) b (start_pfn b + of_nat i) = Some b' \<and>
    buddy_ok b' M' F' {} \<and> alloc_blocks b' = alloc_blocks (clear_used b i) \<and>
    start_pfn b' = start_pfn b \<and> nr_pages b' = nr_pages b \<and>
    same_but_order (array (clear_used b i)) (array b') \<and> (coalesced M F \<longrightarrow> coalesced M' F')"
proof -
  define c where "c = clear_used b i"
  have C: "buddy_ok c M F {i}" using C0 by (simp add: c_def)
  then have P: "pages_ok (array c) (start_pfn c) (nr_pages c) M (dom M - F - {i})" by (simp add: buddy_ok_def)
  note D = pages_okD [OF P] and bD = blocks_ofD [OF pages_okD(3) [OF P] i]
  have cb: "start_pfn c = start_pfn b" "nr_pages c = nr_pages b" "length (array c) = length (array b)"
    by (simp_all add: c_def clear_used_def)
  define w :: u64 where "w = of_nat i"
  have w: "unat w = i" using bD(4) D(2) by (simp add: w_def unat_of_nat)
  have pfn: "start_pfn b \<le> start_pfn b + w" "start_pfn b + w < start_pfn b + nr_pages b"
    using D(1,2) bD(4) w cb by (simp_all add: word_le_nat_alt word_less_nat_alt unat_word_ariths)
  have ord: "pf_order (array c ! i) = k" using D(6) i by blast
  then have ordb: "pf_order (array b ! i) = k" using bD(4) by (simp add: c_def clear_used_def)
  have al: "w AND NOT (push_bit k (NOT 0)) = 0" unfolding and_not_push_eq_0 w using bD(2) .
  have upd: "upd_page b i (pf_state_update (\<lambda>s. s AND NOT PAGE_CSTATE_USED)) = Some c"
    using bD(4) cb
    by (simp add: upd_page_def c_def clear_used_def pf_state_update_eq [of "\<lambda>s. s AND - 2"])
  have so: "set_order c i k = c" using set_order_same [of c i] ord by simp
  with C have C': "buddy_ok (set_order c i k) M F {i}" by simp
  from merge_loop_ok [OF C' i w refl] obtain w' k' b' M' F' where
    r: "merge_loop c k (push_bit k (NOT 0)) w = Some (w', b')" "buddy_ok b' M' F' {unat w'}"
      "M' (unat w') = Some k'" "keeps c b' M M' (dom M - F - {i})"
      "dom M' - F' - {unat w'} = dom M - F - {i}"
      "coalesced M F \<longrightarrow> coalesced M' (insert (unat w') F')"
    unfolding so by (elim exE conjE) (rule that)
  have P': "pages_ok (array b') (start_pfn b') (nr_pages b') M' (dom M' - F' - {unat w'})"
    using r(2) by (simp add: buddy_ok_def)
  note D' = pages_okD [OF P'] and bD' = blocks_ofD [OF pages_okD(3) [OF P'] r(3)]
  have ord': "pf_order (array b' ! unat w') = k'" using D'(6) r(3) by blast
  have lt': "w' < nr_pages b'" using D'(1) bD'(4) by (simp add: word_less_nat_alt)
  define b2 where "b2 = free_nr_add (plist_add b' k' (unat w')) k' 1"
  have enq: "page_buddy_enqueue (Some w) b (start_pfn b + w) = Some b2"
    unfolding page_buddy_enqueue_def
    using pfn w bD cb ordb al upd r(1) lt' bD'(1,4) ord' by (simp add: Let_def b2_def)
  have B2: "buddy_ok b2 M' (insert (unat w') F') {}" unfolding b2_def using r(2,3) by (rule buddy_ok_add)
  have k2: "keeps c b2 M M' (dom M - F - {i})"
    using r(4) by (simp add: keeps_def b2_def free_nr_add_def plist_add_def)
  have "dom M' - insert (unat w') F' - {} = dom M - F - {i}" using r(5) by blast
  with C B2 k2 have "alloc_blocks b2 = alloc_blocks c" by (rule alloc_blocks_keep)
  with enq B2 k2 r(6) cb show ?thesis
    unfolding w_def [symmetric] c_def [symmetric] keeps_def by auto
qed

lemma enqueue_ok:
  assumes B: "buddy_ok b M F {}" and i: "M i = Some k" "i \<notin> F"
    and nr: "pf_state (array b ! i) AND PAGE_CSTATE_RESERVED = 0"
  shows "\<exists>b' M' F'. page_buddy_enqueue (Some (of_nat i)) b (start_pfn b + of_nat i) = Some b' \<and>
    buddy_ok b' M' F' {} \<and> alloc_blocks b' = alloc_blocks b - {(i, k)} \<and>
    start_pfn b' = start_pfn b \<and> nr_pages b' = nr_pages b \<and>
    same_but_order (array (clear_used b i)) (array b') \<and> (coalesced M F \<longrightarrow> coalesced M' F')"
proof -
  have C: "buddy_ok (clear_used b i) M F {i}" using B i nr by (rule buddy_ok_clear_used)
  have "alloc_blocks (clear_used b i) = alloc_blocks b - {(i, k)}"
    unfolding alloc_blocks_eq [OF C] alloc_blocks_eq [OF B] using i by auto
  with enqueue_core [OF C i(1)] show ?thesis by simp
qed

lemma dequeue_loop_skip:
  assumes "\<forall>l. c \<le> l \<and> l < k \<longrightarrow> page_list b ! l = []" and "c \<le> k" and "k \<le> PAGE_POOL_MAX_ORDER"
  shows "dequeue_loop b r c = dequeue_loop b r k"
  using assms
proof (induction "k - c" arbitrary: c)
  case (Suc n)
  from Suc.prems Suc.hyps(2) have "page_list b ! c = []" "c < PAGE_POOL_MAX_ORDER" by auto
  then have "dequeue_loop b r c = dequeue_loop b r (Suc c)"
    by (simp add: dequeue_loop.simps [of b r c])
  also have "\<dots> = dequeue_loop b r k" using Suc by (intro Suc.hyps) auto
  finally show ?case .
qed simp

lemma queue_empty_iff:
  assumes "buddy_ok b M F D" and "k < PAGE_POOL_MAX_ORDER"
  shows "page_list b ! k = [] \<longleftrightarrow> (\<forall>i \<in> F. M i \<noteq> Some k)"
proof -
  have "set (page_list b ! k) = {i \<in> F. M i = Some k}"
    using assms by (simp add: buddy_ok_def queues_ok_def)
  moreover have "page_list b ! k = [] \<longleftrightarrow> set (page_list b ! k) = {}" by simp
  ultimately show ?thesis by auto
qed

text \<open>Taking a block that sits at the head of queue \<open>c\<close> and cutting it down to order \<open>r\<close>.\<close>

lemma dequeue_take_ok:
  assumes B: "buddy_ok b M F {}" and q: "page_list b ! c = i # q" and c: "c < PAGE_POOL_MAX_ORDER" "r \<le> c"
  shows "\<exists>j b' M' F'. dequeue_loop b r c = Some (0, Some (start_pfn b + of_nat j), b') \<and>
    buddy_ok b' M' F' {} \<and> j < length (array b) \<and> \<not> page_cstate_not_freed (array b ! j) \<and>
    M' j = Some r \<and> alloc_blocks b' = insert (j, r) (alloc_blocks b) \<and>
    start_pfn b' = start_pfn b \<and> nr_pages b' = nr_pages b \<and>
    same_but_order ((array b)[j := (array b ! j)\<lparr>pf_state := pf_state (array b ! j) OR PAGE_CSTATE_USED\<rparr>]) (array b') \<and>
    (coalesced M F \<longrightarrow> coalesced M' F')"
proof -
  define b1 where "b1 = free_nr_add (b\<lparr>page_list := (page_list b)[c := q]\<rparr>) c (- 1)"
  have Q: "queues_ok (page_list b) (free_nr b) M F" using B by (simp add: buddy_ok_def)
  note pop = queues_ok_pop [OF Q q c(1)]
  have U: "dom M - (F - {i}) - {i} = dom M - F - {}" using pop(2) by blast
  have B1: "buddy_ok b1 M (F - {i}) {i}"
    using B pop(1,3) unfolding buddy_ok_def U by (auto simp: b1_def free_nr_add_def)
  from split_loop_ok [OF B1 pop(3) c(2)] obtain j b2 M' F' where
    r: "split_loop b1 i (2 ^ c) c r = Some (j, b2)" "buddy_ok b2 M' F' {j}" "M' j = Some r"
      "keeps b1 b2 M M' (dom M - F - {})" "dom M' - F' - {j} = dom M - F - {}"
      "coalesced M (F - {i}) \<longrightarrow> coalesced M' F'"
    unfolding U by (elim exE conjE) (rule that)
  have P1: "pages_ok (array b1) (start_pfn b1) (nr_pages b1) M (dom M - F - {})"
    using B by (simp add: buddy_ok_def b1_def free_nr_add_def)
  have P2: "pages_ok (array b2) (start_pfn b2) (nr_pages b2) M' (dom M' - F' - {j})"
    using r(2) by (simp add: buddy_ok_def)
  note D1 = pages_okD [OF P1] and D2 = pages_okD [OF P2]
  have lt: "i < length (array b1)" "j < length (array b2)" using D1(7) D2(7) pop(3) r(3) by blast+
  have free: "pf_state (array b2 ! j) AND (PAGE_CSTATE_USED OR PAGE_CSTATE_RESERVED) = 0"
    using D2(8) [OF lt(2)] by (simp add: page_cstate_not_freed_def)
  have rm: "remove_page_from_page_queue b1 i r c = Some (j, b2)"
    unfolding remove_page_from_page_queue_def
    using lt D1(6) [OF pop(3)] r(1) state_bits(1) [OF free] by simp
  define st where "st = (pf_state (array b2 ! j) OR PAGE_CSTATE_USED)"
  define b3 where "b3 = b2\<lparr>array := (array b2)[j := (array b2 ! j)\<lparr>pf_state := st\<rparr>]\<rparr>"
  have upd: "upd_page b2 j (pf_state_update (\<lambda>s. s OR PAGE_CSTATE_USED)) = Some b3"
    using lt by (simp add: upd_page_def b3_def st_def pf_state_update_eq [of "\<lambda>s. s OR PAGE_CSTATE_USED"])
  have pg: "array b3 ! j = (array b2 ! j)\<lparr>pf_state := st\<rparr>" "j < length (array b3)" using lt by (simp_all add: b3_def)
  have same: "start_pfn b3 = start_pfn b" "nr_pages b3 = nr_pages b" "same_but_order (array b) (array b2)"
    "start_pfn b2 = start_pfn b"
    using r(4) by (simp_all add: keeps_def b3_def b1_def free_nr_add_def)
  have "unat (of_nat j :: u64) = j" using D2(2) lt by (simp add: unat_of_nat)
  then have pfn: "start_pfn b3 \<le> start_pfn b + of_nat j" "start_pfn b + of_nat j < start_pfn b3 + nr_pages b3"
    using D2(1,2) lt same r(4)
    by (simp_all add: word_le_nat_alt word_less_nat_alt unat_word_ariths keeps_def b1_def free_nr_add_def)
  have "pf_pfn (array b3 ! j) = start_pfn b + of_nat j" "pf_order (array b3 ! j) = r"
    using D2(5) [OF lt(2)] D2(6) [OF r(3)] pg same by simp_all
  then have deq: "dequeue_loop b r c = Some (0, Some (start_pfn b + of_nat j), b3)"
    using c q rm upd pg pfn unfolding dequeue_loop.simps [of b r c] by (simp add: Let_def b1_def)
  have "bit st 0" by (simp add: st_def bit_or_iff)
  then have "bit (st AND (PAGE_CSTATE_USED OR PAGE_CSTATE_RESERVED)) 0" by (simp add: bit_and_iff bit_or_iff)
  then have stn: "st AND (PAGE_CSTATE_USED OR PAGE_CSTATE_RESERVED) \<noteq> 0" by force
  have U3: "insert j (dom M' - F' - {j}) = dom M' - F' - {}" using r(2,3) by (auto simp: buddy_ok_def)
  have "pages_ok (array b3) (start_pfn b3) (nr_pages b3) M' (dom M' - F' - {})"
    using pages_ok_state [OF P2, of j st] stn r(3) unfolding U3 by (simp add: b3_def domI)
  then have B3: "buddy_ok b3 M' F' {}" using r(2) by (simp add: buddy_ok_def b3_def)
  have "alloc_blocks b2 = alloc_blocks b1"
    using r(4,5) U by (intro alloc_blocks_keep [OF B1 r(2)]) simp_all
  moreover have "alloc_blocks b1 = alloc_blocks b" by (simp add: b1_def free_nr_add_def alloc_blocks_def)
  moreover have "alloc_blocks b3 = insert (j, r) (alloc_blocks b2)"
    unfolding alloc_blocks_eq [OF r(2)] alloc_blocks_eq [OF B3] using r(2,3) by (auto simp: buddy_ok_def)
  moreover have "same_but_order ((array b)[j := (array b ! j)\<lparr>pf_state := pf_state (array b ! j) OR PAGE_CSTATE_USED\<rparr>]) (array b3)"
    using same_but_order_state [OF same(3)] lt(2) same_but_orderD [OF same(3)] by (simp add: b3_def st_def)
  moreover have "coalesced M F \<longrightarrow> coalesced M' F'" using r(6) coalesced_subset [of M F "F - {i}" M] by blast
  moreover have jl: "j < length (array b)" using lt(2) same_but_orderD(1) [OF same(3)] by simp
  moreover have "\<not> page_cstate_not_freed (array b ! j)"
    using free same_but_orderD(2) [OF same(3) jl] by (simp add: page_cstate_not_freed_def)
  ultimately show ?thesis using deq B3 same r(3) by blast
qed

section \<open>Completeness: no fragmentation beyond what is in use\<close>

definition buddy_inv :: "page_buddy \<Rightarrow> bool" where
  "buddy_inv b \<longleftrightarrow> (\<exists>M F. buddy_ok b M F {} \<and> coalesced M F)"

text \<open>
  In an aligned range without allocated pages there is a free block at least as large as
  the range: the smallest block in the range would otherwise have a free buddy of its own
  order, with which it had been merged.
\<close>

lemma bud_same_order:
  assumes B: "blocks_of M N" and i: "M i = Some k" and j: "M (bud i k) = Some l" and "k \<le> l"
  shows "l = k"
proof (rule ccontr)
  assume "l \<noteq> k"
  then have d: "(2 :: nat) ^ Suc k dvd 2 ^ l" using assms(4) by (intro le_imp_power_dvd) simp
  have al: "2 ^ k dvd i" "2 ^ l dvd bud i k" using blocks_ofD [OF B] i j by blast+
  from al(1) show False
  proof (cases rule: bud_cases)
    case upper
    have "2 ^ Suc k dvd i + 2 ^ k" using d al(2) upper(1) by (metis dvd_trans)
    with upper(2) have "2 ^ Suc k dvd (2 :: nat) ^ k" using dvd_add_right_iff by blast
    then show False by (simp add: power_dvd_imp_le)
  next
    case lower
    have "(2 :: nat) ^ Suc k \<le> 2 ^ l" using d by (simp add: dvd_imp_le)
    then have "bud i k \<le> i" "i < bud i k + 2 ^ l" using lower(1) zero_less_power [of "2 :: nat" k]
      unfolding power_Suc by linarith+
    with blocks_of_disj [OF B i j, of i] have "i = bud i k" by simp
    with bud_neq [OF al(1)] show False by simp
  qed
qed

lemma bud_in_range:
  assumes "2 ^ r dvd j" and "2 ^ k dvd i" and "k < r" and "j \<le> i" and "i < j + 2 ^ r"
  shows "j \<le> bud i k \<and> bud i k < j + 2 ^ r"
proof -
  have d: "(2 :: nat) ^ Suc k dvd 2 ^ r" using assms(3) by (intro le_imp_power_dvd) simp
  then have dj: "2 ^ Suc k dvd j" "2 ^ Suc k dvd j + 2 ^ r" using assms(1) by (meson dvd_add dvd_trans)+
  from assms(2) show ?thesis
  proof (cases rule: bud_cases)
    case upper
    then have "2 ^ Suc k dvd j + 2 ^ r" "2 ^ Suc k dvd i" using dj by blast+
    with assms(5) aligned_block_eq [of "Suc k" i "j + 2 ^ r"] have "i + 2 ^ Suc k \<le> j + 2 ^ r" by linarith
    with upper(1) assms(4) show ?thesis using zero_less_power [of "2 :: nat" k] unfolding power_Suc by linarith
  next
    case lower
    define b where "b = bud i k"
    have i: "i = b + 2 ^ k" and al: "2 ^ Suc k dvd b" using lower unfolding b_def by blast+
    have "j \<le> b"
    proof (rule ccontr)
      assume "\<not> j \<le> b"
      moreover have "j < b + 2 ^ Suc k" using i assms(4) zero_less_power [of "2 :: nat" k] unfolding power_Suc by linarith
      ultimately show False using aligned_block_eq [of "Suc k" b j] al dj by simp
    qed
    with i assms(5) show ?thesis by (simp add: b_def)
  qed
qed

lemma free_range_has_block:
  assumes B: "blocks_of M N" and co: "coalesced M F" and al: "2 ^ r dvd j" "j + 2 ^ r \<le> N"
    and r: "r < PAGE_POOL_MAX_ORDER"
    and free: "\<And>i k p. M i = Some k \<Longrightarrow> i \<le> p \<Longrightarrow> p < i + 2 ^ k \<Longrightarrow> j \<le> p \<Longrightarrow> p < j + 2 ^ r \<Longrightarrow> i \<in> F"
  shows "\<exists>i \<in> F. \<exists>k \<ge> r. M i = Some k"
proof (rule ccontr)
  assume no: "\<not> ?thesis"
  define S where "S = {(k, i). M i = Some k \<and> j \<le> i \<and> i < j + 2 ^ r}"
  have "j < N" using al(2) zero_less_power [of "2 :: nat" r] by linarith
  from blocks_of_cover [OF B this] obtain h m where h: "M h = Some m" "h \<le> j" "j < h + 2 ^ m" .
  have "h \<in> F" using free [OF h] by simp
  with no h(1) have "m < r" by (metis not_le)
  then have "2 ^ m dvd j" using al(1) by (meson dvd_trans le_imp_power_dvd less_imp_le)
  with h blocks_ofD(2) [OF B h(1)] have "h = j" by (intro aligned_block_eq [of m])
  with h have "(m, j) \<in> S" by (simp add: S_def)
  then obtain k i where ki: "(k, i) \<in> S" and least: "\<And>k' i'. (k', i') \<in> S \<Longrightarrow> k \<le> k'"
    using ex_has_least_nat [of "\<lambda>x. x \<in> S" "(m, j)" fst] by force
  then have i: "M i = Some k" "j \<le> i" "i < j + 2 ^ r" by (simp_all add: S_def)
  have iF: "i \<in> F" using free [OF i(1), of i] i by simp
  with no i have kr: "k < r" by (metis not_le)
  note rng = bud_in_range [OF al(1) blocks_ofD(2) [OF B i(1)] kr i(2,3)]
  with al(2) have "bud i k < N" by linarith
  from bud_head [OF B i(1) this] obtain l where l: "M (bud i k) = Some l" .
  with rng have "(l, bud i k) \<in> S" by (simp add: S_def)
  then have "l = k" using bud_same_order [OF B i(1) l] least by blast
  moreover have "bud i k \<in> F" using free [OF l, of "bud i k"] rng by simp
  moreover have "Suc k < PAGE_POOL_MAX_ORDER" using kr r by linarith
  ultimately show False using co iF i(1) l unfolding coalesced_def by blast
qed

section \<open>Counting\<close>

lemma blocks_of_finite: "blocks_of M N \<Longrightarrow> finite (dom M)"
  by (rule finite_subset [of _ "{..<N}"]) (auto dest: blocks_ofD(4))

lemma blocks_of_sum:
  assumes B: "blocks_of M N"
  shows "(\<Sum>i \<in> dom M. 2 ^ the (M i)) = N"
proof -
  have "{..<N} = (\<Union>i \<in> dom M. {i..<i + 2 ^ the (M i)})"
  proof (intro equalityI subsetI)
    fix p assume "p \<in> {..<N}"
    then obtain i k where "M i = Some k" "i \<le> p" "p < i + 2 ^ k" using blocks_of_cover [OF B] by auto
    then show "p \<in> (\<Union>i \<in> dom M. {i..<i + 2 ^ the (M i)})" by force
  qed (use blocks_ofD(3) [OF B] in fastforce)
  moreover have "{i..<i + 2 ^ the (M i)} \<inter> {j..<j + 2 ^ the (M j)} = {}"
    if "i \<in> dom M" "j \<in> dom M" "i \<noteq> j" for i j
    using that blocks_of_disj [OF B] by fastforce
  ultimately have "card {..<N} = (\<Sum>i \<in> dom M. card {i..<i + 2 ^ the (M i)})"
    using blocks_of_finite [OF B] by (simp only:) (rule card_UN_disjoint, auto)
  then show ?thesis by simp
qed

lemma get_free_eq:
  assumes B: "buddy_ok b M F {}"
  shows "page_buddy_get_free b = of_nat (\<Sum>i \<in> F. 2 ^ the (M i))"
proof -
  have P: "blocks_of M (length (array b))" using B by (auto simp: buddy_ok_def dest: pages_okD(3))
  have Q: "F \<subseteq> dom M" "\<And>k. k < PAGE_POOL_MAX_ORDER \<Longrightarrow>
      free_nr b ! k = of_nat (card {i \<in> F. M i = Some k})"
    using B by (auto simp: buddy_ok_def queues_ok_def) (metis (no_types, lifting) distinct_card)
  have fin: "finite F" using Q(1) blocks_of_finite [OF P] by (rule finite_subset)
  have grp: "{i \<in> F. M i = Some k} = {i \<in> F. the (M i) = k}" for k using Q(1) by force
  have im: "(\<lambda>i. the (M i)) ` F \<subseteq> {..<PAGE_POOL_MAX_ORDER}" using Q(1) blocks_ofD(1) [OF P] by fastforce
  have "page_buddy_get_free b = (\<Sum>k<PAGE_POOL_MAX_ORDER. free_nr b ! k * push_bit k 1)"
    unfolding page_buddy_get_free_def interv_sum_list_conv_sum_set_nat by (simp only: set_upt atLeast0LessThan)
  also have "\<dots> = (\<Sum>k<PAGE_POOL_MAX_ORDER. of_nat (card {i \<in> F. M i = Some k} * 2 ^ k))"
    by (rule sum.cong) (simp_all add: Q(2))
  also have "\<dots> = of_nat (\<Sum>k<PAGE_POOL_MAX_ORDER. \<Sum>i \<in> {i \<in> F. the (M i) = k}. 2 ^ the (M i))"
    unfolding grp by (simp add: sum_distrib_left)
  also have "(\<Sum>k<PAGE_POOL_MAX_ORDER. \<Sum>i \<in> {i \<in> F. the (M i) = k}. 2 ^ the (M i)) = (\<Sum>i \<in> F. 2 ^ the (M i))"
    using fin _ im by (rule sum.group) simp
  finally show ?thesis .
qed

lemma free_and_used_pages:
  assumes B: "buddy_inv b"
  shows "unat (page_buddy_get_free b) + (\<Sum>(i, k) \<in> alloc_blocks b. 2 ^ k) = length (array b)"
proof -
  from B obtain M F where ok: "buddy_ok b M F {}" by (auto simp: buddy_inv_def)
  then have P: "pages_ok (array b) (start_pfn b) (nr_pages b) M (dom M - F - {})" and F: "F \<subseteq> dom M"
    by (auto simp: buddy_ok_def queues_ok_def)
  note bl = pages_okD(3) [OF P]
  note fin = blocks_of_finite [OF bl]
  have "alloc_blocks b = (\<lambda>i. (i, the (M i))) ` (dom M - F)"
    unfolding alloc_blocks_eq [OF ok] by force
  moreover have "inj_on (\<lambda>i. (i, the (M i))) (dom M - F)" by (rule inj_onI) simp
  ultimately have "(\<Sum>(i, k) \<in> alloc_blocks b. 2 ^ k) = (\<Sum>i \<in> dom M - F. (2 :: nat) ^ the (M i))"
    by (simp add: sum.reindex)
  then have *: "(\<Sum>i \<in> F. 2 ^ the (M i)) + (\<Sum>(i, k) \<in> alloc_blocks b. 2 ^ k) = length (array b)"
    using sum.subset_diff [OF F fin, of "\<lambda>i. (2 :: nat) ^ the (M i)"] blocks_of_sum [OF bl] by simp
  then have "(\<Sum>i \<in> F. 2 ^ the (M i)) < (2 :: nat) ^ 64" using pages_okD(2) [OF P] by linarith
  then have "unat (page_buddy_get_free b) = (\<Sum>i \<in> F. 2 ^ the (M i))"
    unfolding get_free_eq [OF ok] by (simp only: unat_of_nat) simp
  with * show ?thesis by simp
qed

section \<open>The allocator interface\<close>

text \<open>
  The contract of a page allocator as its clients see it: \<open>alloc s r\<close> hands out a block of
  \<open>2 ^ r\<close> pages that was not handed out before, or fails with \<^verbatim>\<open>-ENOMEM\<close> and changes
  nothing; \<open>free s a\<close> takes back the block at \<open>a\<close>.  \<open>blocks s\<close> are the blocks handed out.
\<close>

datatype alloc_request = Alloc int | Free u64

inductive alloc_history ::
  "('s \<Rightarrow> int \<Rightarrow> (int \<times> u64 option \<times> 's) option) \<Rightarrow> ('s \<Rightarrow> u64 \<Rightarrow> 's option) \<Rightarrow> ('s \<Rightarrow> (u64 \<times> nat) set) \<Rightarrow>
   's \<Rightarrow> alloc_request list \<Rightarrow> 's \<Rightarrow> bool"
  for alloc free blocks s where
  history_Nil: "alloc_history alloc free blocks s [] s"
| history_Alloc: "alloc_history alloc free blocks s rs s' \<Longrightarrow> 0 \<le> r \<Longrightarrow> r < int PAGE_POOL_MAX_ORDER \<Longrightarrow>
    alloc s' r = Some (rc, a, s'') \<Longrightarrow> alloc_history alloc free blocks s (rs @ [Alloc r]) s''"
| history_Free: "alloc_history alloc free blocks s rs s' \<Longrightarrow> (a, k) \<in> blocks s' \<Longrightarrow>
    free s' a = Some s'' \<Longrightarrow> alloc_history alloc free blocks s (rs @ [Free a]) s''"

locale page_allocator =
  fixes inv :: "'s \<Rightarrow> bool"
    and blocks :: "'s \<Rightarrow> (u64 \<times> nat) set"
    and alloc :: "'s \<Rightarrow> int \<Rightarrow> (int \<times> u64 option \<times> 's) option"
    and free :: "'s \<Rightarrow> u64 \<Rightarrow> 's option"
  assumes alloc_ok: "inv s \<Longrightarrow> 0 \<le> r \<Longrightarrow> r < int PAGE_POOL_MAX_ORDER \<Longrightarrow>
      (\<exists>a s'. alloc s r = Some (0, Some a, s') \<and> inv s' \<and> (a, nat r) \<notin> blocks s \<and>
         blocks s' = insert (a, nat r) (blocks s)) \<or>
      alloc s r = Some (- ENOMEM, None, s)"
    and free_ok: "inv s \<Longrightarrow> (a, k) \<in> blocks s \<Longrightarrow>
      \<exists>s'. free s a = Some s' \<and> inv s' \<and> blocks s' = blocks s - {(a, k)}"
begin

lemma history_inv:
  assumes "alloc_history alloc free blocks s rs s'" and "inv s"
  shows "inv s'"
  using assms
proof induction
  case (history_Alloc rs s' r rc a s'')
  then show ?case using alloc_ok [of s' r] by auto
next
  case (history_Free rs s' a k s'')
  then show ?case using free_ok [of s' a k] by auto
qed simp

lemma history_progress:
  assumes "alloc_history alloc free blocks s rs s'" and "inv s"
  shows "0 \<le> r \<Longrightarrow> r < int PAGE_POOL_MAX_ORDER \<Longrightarrow> alloc s' r \<noteq> None"
    and "(a, k) \<in> blocks s' \<Longrightarrow> free s' a \<noteq> None"
  using alloc_ok [of s' r] free_ok [of s' a k] history_inv [OF assms] by auto

text \<open>Freeing what was just allocated restores the set of blocks in use.\<close>

lemma alloc_free:
  assumes "inv s" and "0 \<le> r" and "r < int PAGE_POOL_MAX_ORDER" and "alloc s r = Some (0, Some a, s')"
  shows "\<exists>s''. free s' a = Some s'' \<and> inv s'' \<and> blocks s'' = blocks s"
proof -
  from alloc_ok [OF assms(1-3)] assms(4) have
    s': "inv s'" "(a, nat r) \<notin> blocks s" "blocks s' = insert (a, nat r) (blocks s)" by auto
  with free_ok [OF s'(1), of a "nat r"] show ?thesis by auto
qed

end

text \<open>Blocks in use by clients, by index and by page frame number; reserved pages are not in use.\<close>

definition used_idx :: "page_buddy \<Rightarrow> (nat \<times> nat) set" where
  "used_idx b = {(i, k) \<in> alloc_blocks b. pf_state (array b ! i) AND PAGE_CSTATE_RESERVED = 0}"

definition used_blocks :: "page_buddy \<Rightarrow> (u64 \<times> nat) set" where
  "used_blocks b = (\<lambda>(i, k). (start_pfn b + of_nat i, k)) ` used_idx b"

text \<open>
  Freeing by page frame number; the lookup \<open>pfn_to_page_frame\<close> gives the page at the
  distance of \<open>pfn\<close> from the first page of the buddy.
\<close>

definition buddy_free :: "page_buddy \<Rightarrow> u64 \<Rightarrow> page_buddy option" where
  "buddy_free b pfn = page_buddy_enqueue (Some (pfn - start_pfn b)) b pfn"

lemma alloc_blocks_lt: "(i, k) \<in> alloc_blocks b \<Longrightarrow> i < length (array b)"
  by (auto simp: alloc_blocks_def)

lemma pfn_inj:
  assumes "unat (s :: u64) + n < 2 ^ 64" and "i < n" and "j < n" and "s + of_nat i = s + of_nat j"
  shows "i = j"
proof -
  have "unat (of_nat i :: u64) = i" "unat (of_nat j :: u64) = j" using assms(1-3) by (simp_all add: unat_of_nat)
  with assms(4) show ?thesis by (metis add_left_cancel)
qed

lemma dequeue_used:
  assumes B: "buddy_inv b" and r: "0 \<le> r" "r < int PAGE_POOL_MAX_ORDER"
  shows "(\<exists>j b'. page_buddy_dequeue b r = Some (0, Some (start_pfn b + of_nat j), b') \<and> buddy_inv b' \<and>
      j < length (array b) \<and> \<not> page_cstate_not_freed (array b ! j) \<and>
      start_pfn b' = start_pfn b \<and> nr_pages b' = nr_pages b \<and>
      same_but_order ((array b)[j := (array b ! j)\<lparr>pf_state := pf_state (array b ! j) OR PAGE_CSTATE_USED\<rparr>]) (array b') \<and>
      alloc_blocks b' = insert (j, nat r) (alloc_blocks b) \<and> used_idx b' = insert (j, nat r) (used_idx b)) \<or>
    page_buddy_dequeue b r = Some (- ENOMEM, None, b) \<and>
      (\<forall>j. 2 ^ nat r dvd j \<longrightarrow> j + 2 ^ nat r \<le> length (array b) \<longrightarrow>
         (\<exists>(i, k) \<in> alloc_blocks b. {i..<i + 2 ^ k} \<inter> {j..<j + 2 ^ nat r} \<noteq> {}))"
proof -
  from B obtain M F where ok: "buddy_ok b M F {}" and co: "coalesced M F" by (auto simp: buddy_inv_def)
  define n where "n = nat r"
  have n: "n < PAGE_POOL_MAX_ORDER" and deq: "page_buddy_dequeue b r = dequeue_loop b n n"
    using r by (auto simp: n_def page_buddy_dequeue_def)
  have P: "pages_ok (array b) (start_pfn b) (nr_pages b) M (dom M - F - {})"
    using ok by (simp add: buddy_ok_def)
  note bl = pages_okD(3) [OF P]
  show ?thesis
  proof (cases "\<exists>c. n \<le> c \<and> c < PAGE_POOL_MAX_ORDER \<and> page_list b ! c \<noteq> []")
    case True
    define c where "c = (LEAST c. n \<le> c \<and> c < PAGE_POOL_MAX_ORDER \<and> page_list b ! c \<noteq> [])"
    have c: "n \<le> c" "c < PAGE_POOL_MAX_ORDER" "page_list b ! c \<noteq> []"
      using LeastI_ex [OF True] unfolding c_def by blast+
    have "\<forall>l. n \<le> l \<and> l < c \<longrightarrow> page_list b ! l = []"
      using not_less_Least [of _ "\<lambda>c. n \<le> c \<and> c < PAGE_POOL_MAX_ORDER \<and> page_list b ! c \<noteq> []", folded c_def] c(2)
      by auto
    then have skip: "dequeue_loop b n n = dequeue_loop b n c" using c by (intro dequeue_loop_skip) auto
    obtain i q where q: "page_list b ! c = i # q" using c(3) by (cases "page_list b ! c") auto
    from dequeue_take_ok [OF ok q c(2,1)] obtain j b' M' F' where
      d: "dequeue_loop b n c = Some (0, Some (start_pfn b + of_nat j), b')" "buddy_ok b' M' F' {}"
        "j < length (array b)" "\<not> page_cstate_not_freed (array b ! j)" "M' j = Some n"
        "alloc_blocks b' = insert (j, n) (alloc_blocks b)" "start_pfn b' = start_pfn b" "nr_pages b' = nr_pages b"
        "same_but_order ((array b)[j := (array b ! j)\<lparr>pf_state := pf_state (array b ! j) OR PAGE_CSTATE_USED\<rparr>]) (array b')"
        "coalesced M F \<longrightarrow> coalesced M' F'"
      by (elim exE conjE) (rule that)
    have st: "pf_state (array b' ! i) = (if i = j then pf_state (array b ! j) OR PAGE_CSTATE_USED else pf_state (array b ! i))"
      if "i < length (array b)" for i
      using same_but_orderD(2) [OF d(9), of i] that by (auto simp: nth_list_update)
    have jr: "pf_state (array b ! j) AND PAGE_CSTATE_RESERVED = 0"
      using d(4) state_bits by (simp add: page_cstate_not_freed_def)
    then have "(pf_state (array b ! j) OR PAGE_CSTATE_USED) AND PAGE_CSTATE_RESERVED = 0"
      by (simp add: bit.conj_disj_distrib2)
    with jr st d(3,6) have "used_idx b' = insert (j, n) (used_idx b)"
      by (auto simp: used_idx_def dest: alloc_blocks_lt split: if_splits)
    moreover have "buddy_inv b'" using d(2,10) co by (auto simp: buddy_inv_def)
    ultimately show ?thesis using d skip deq unfolding n_def [symmetric] by auto
  next
    case False
    then have none: "page_list b ! l = []" if "n \<le> l" "l < PAGE_POOL_MAX_ORDER" for l using that by blast
    have "dequeue_loop b n n = dequeue_loop b n PAGE_POOL_MAX_ORDER"
      using none n by (intro dequeue_loop_skip) auto
    then have "page_buddy_dequeue b r = Some (- ENOMEM, None, b)" using deq by (simp add: dequeue_loop.simps)
    moreover have "\<exists>(i, k) \<in> alloc_blocks b. {i..<i + 2 ^ k} \<inter> {j..<j + 2 ^ n} \<noteq> {}"
      if j: "2 ^ n dvd j" "j + 2 ^ n \<le> length (array b)" for j
    proof (rule ccontr)
      assume no: "\<not> ?thesis"
      have "\<exists>i \<in> F. \<exists>k \<ge> n. M i = Some k"
      proof (rule free_range_has_block [OF bl co j n], rule ccontr)
        fix i k p assume p: "M i = Some k" "i \<le> p" "p < i + 2 ^ k" "j \<le> p" "p < j + 2 ^ n" "i \<notin> F"
        then have "(i, k) \<in> alloc_blocks b" by (simp add: alloc_blocks_eq [OF ok])
        moreover have "p \<in> {i..<i + 2 ^ k} \<inter> {j..<j + 2 ^ n}" using p by simp
        ultimately show False using no by blast
      qed
      then obtain i k where "i \<in> F" "n \<le> k" "M i = Some k" by blast
      with queue_empty_iff [OF ok, of k] none [of k] blocks_ofD(1) [OF bl] show False by blast
    qed
    ultimately show ?thesis unfolding n_def [symmetric] by blast
  qed
qed

lemma enqueue_used:
  assumes B: "buddy_inv b" and i: "(i, k) \<in> used_idx b"
  shows "\<exists>b'. buddy_free b (start_pfn b + of_nat i) = Some b' \<and> buddy_inv b' \<and>
      start_pfn b' = start_pfn b \<and> nr_pages b' = nr_pages b \<and>
      alloc_blocks b' = alloc_blocks b - {(i, k)} \<and> used_idx b' = used_idx b - {(i, k)} \<and>
      same_but_order (array (clear_used b i)) (array b')"
proof -
  from B obtain M F where ok: "buddy_ok b M F {}" and co: "coalesced M F" by (auto simp: buddy_inv_def)
  from i have Mi: "M i = Some k" "i \<notin> F" "pf_state (array b ! i) AND PAGE_CSTATE_RESERVED = 0"
    by (auto simp: used_idx_def alloc_blocks_eq [OF ok])
  from enqueue_ok [OF ok Mi] obtain b' M' F' where
    e: "page_buddy_enqueue (Some (of_nat i)) b (start_pfn b + of_nat i) = Some b'" "buddy_ok b' M' F' {}"
      "alloc_blocks b' = alloc_blocks b - {(i, k)}" "start_pfn b' = start_pfn b" "nr_pages b' = nr_pages b"
      "same_but_order (array (clear_used b i)) (array b')" "coalesced M F \<longrightarrow> coalesced M' F'"
    by (elim exE conjE) (rule that)
  have st: "pf_state (array b' ! j) = pf_state (array b ! j)" if "(j, l) \<in> alloc_blocks b'" for j l
  proof -
    from that e(3) have j: "(j, l) \<in> alloc_blocks b" "(j, l) \<noteq> (i, k)" by auto
    then have "j \<noteq> i" using Mi(1) by (auto simp: alloc_blocks_eq [OF ok])
    with same_but_orderD(2) [OF e(6), of j] alloc_blocks_lt [OF j(1)] show ?thesis
      by (simp add: clear_used_def)
  qed
  have "(j, l) \<in> used_idx b' \<longleftrightarrow> (j, l) \<in> used_idx b - {(i, k)}" for j l
    using st [of j l] e(3) by (cases "(j, l) \<in> alloc_blocks b'") (auto simp: used_idx_def)
  then have "used_idx b' = used_idx b - {(i, k)}" by auto
  then show ?thesis using e co by (auto simp: buddy_free_def buddy_inv_def)
qed

text \<open>Putting a reserved page into the allocator: its reserved bit is cleared before the call.\<close>

definition clear_reserved :: "page_buddy \<Rightarrow> nat \<Rightarrow> page_buddy" where
  "clear_reserved b i = b\<lparr>array := (array b)[i := (array b ! i)\<lparr>pf_state := pf_state (array b ! i) AND NOT PAGE_CSTATE_RESERVED\<rparr>]\<rparr>"

lemma buddy_ok_clear_both:
  assumes B: "buddy_ok b M F {}" and i: "M i = Some k" "i \<notin> F"
  shows "buddy_ok (clear_used (clear_reserved b i) i) M F {i}"
proof -
  have P: "pages_ok (array b) (start_pfn b) (nr_pages b) M (dom M - F - {})"
    using B by (simp add: buddy_ok_def)
  have il: "i < length (array b)" using pages_okD(7) [OF P i(1)] .
  define st where "st = (pf_state (array b ! i) AND NOT PAGE_CSTATE_RESERVED) AND NOT PAGE_CSTATE_USED"
  have st: "st AND (PAGE_CSTATE_USED OR PAGE_CSTATE_RESERVED) = 0"
    unfolding st_def by (rule bit_eqI) (simp only: bit_and_iff bit_not_iff bit_or_iff bit_0_eq bot_apply, auto)
  have U: "dom M - F - {} - {i} = dom M - F - {i}" by blast
  have "pages_ok ((array b)[i := (array b ! i)\<lparr>pf_state := st\<rparr>]) (start_pfn b) (nr_pages b) M (dom M - F - {i})"
    using pages_ok_state [OF P, of i st] i(1) by (simp only: st U) auto
  moreover have "clear_used (clear_reserved b i) i = b\<lparr>array := (array b)[i := (array b ! i)\<lparr>pf_state := st\<rparr>]\<rparr>"
    using il by (simp add: clear_used_def clear_reserved_def st_def)
  ultimately show ?thesis using B i by (auto simp: buddy_ok_def)
qed

lemma release_ok:
  assumes B: "buddy_inv b" and i: "(i, k) \<in> alloc_blocks b"
  shows "\<exists>b'. page_buddy_enqueue (Some (of_nat i)) (clear_reserved b i) (start_pfn b + of_nat i) = Some b' \<and>
    buddy_inv b' \<and> start_pfn b' = start_pfn b \<and> alloc_blocks b' = alloc_blocks b - {(i, k)} \<and>
    same_but_order (array (clear_used (clear_reserved b i) i)) (array b')"
proof -
  from B obtain M F where ok: "buddy_ok b M F {}" and co: "coalesced M F" by (auto simp: buddy_inv_def)
  from i have Mi: "M i = Some k" "i \<notin> F" by (auto simp: alloc_blocks_eq [OF ok])
  have C: "buddy_ok (clear_used (clear_reserved b i) i) M F {i}" using ok Mi by (rule buddy_ok_clear_both)
  have "alloc_blocks (clear_used (clear_reserved b i) i) = alloc_blocks b - {(i, k)}"
    unfolding alloc_blocks_eq [OF C] alloc_blocks_eq [OF ok] using Mi by auto
  moreover have "start_pfn (clear_reserved b i) = start_pfn b" by (simp add: clear_reserved_def)
  ultimately show ?thesis using enqueue_core [OF C Mi(1)] co by (auto simp: buddy_inv_def)
qed

lemma init_ok:
  assumes "unat s + length arr < 2 ^ 64"
    and "\<And>i. i < length arr \<Longrightarrow> pf_order (arr ! i) = 0 \<and> pf_pfn (arr ! i) = s + of_nat i \<and>
       page_cstate_not_freed (arr ! i)"
  shows "buddy_inv (page_buddy_init arr s (of_nat (length arr)))"
proof -
  define M where "M = (\<lambda>i. if i < length arr then Some (0 :: nat) else None)"
  have dom: "dom M = {..<length arr}" by (auto simp: M_def split: if_splits)
  have "blocks_of M (length arr)" by (auto simp: blocks_of_def M_def split: if_splits)
  moreover have "unat (of_nat (length arr) :: u64) = length arr" using assms(1) by (simp add: unat_of_nat)
  ultimately have "buddy_ok (page_buddy_init arr s (of_nat (length arr))) M {} {}"
    using assms dom by (auto simp: buddy_ok_def page_buddy_init_def queues_ok_def pages_ok_def M_def split: if_splits)
  then show ?thesis by (auto simp: buddy_inv_def coalesced_def)
qed

lemma buddy_range:
  assumes "buddy_inv b"
  shows "unat (start_pfn b) + length (array b) < 2 ^ 64" and "unat (nr_pages b) = length (array b)"
  using assms by (auto simp: buddy_inv_def buddy_ok_def pages_ok_def)

lemma alloc_blocks_aligned:
  assumes "buddy_inv b" and "(i, k) \<in> alloc_blocks b"
  shows "k < PAGE_POOL_MAX_ORDER \<and> 2 ^ k dvd i \<and> i + 2 ^ k \<le> length (array b)"
proof -
  from assms(1) obtain M F where ok: "buddy_ok b M F {}" by (auto simp: buddy_inv_def)
  then have "blocks_of M (length (array b))" by (auto simp: buddy_ok_def pages_ok_def)
  with assms(2) show ?thesis using blocks_ofD by (auto simp: alloc_blocks_eq [OF ok])
qed

lemma alloc_blocks_disjoint:
  assumes "buddy_inv b" and "(i, k) \<in> alloc_blocks b" and "(j, l) \<in> alloc_blocks b" and "(i, k) \<noteq> (j, l)"
  shows "{i..<i + 2 ^ k} \<inter> {j..<j + 2 ^ l} = {}"
proof -
  from assms(1) obtain M F where ok: "buddy_ok b M F {}" by (auto simp: buddy_inv_def)
  then have B: "blocks_of M (length (array b))" by (auto simp: buddy_ok_def pages_ok_def)
  from assms(2-4) have "M i = Some k" "M j = Some l" "i \<noteq> j" by (auto simp: alloc_blocks_eq [OF ok])
  with blocks_of_disj [OF B] show ?thesis by fastforce
qed

interpretation buddy: page_allocator buddy_inv used_blocks page_buddy_dequeue buddy_free
proof unfold_locales
  fix b r assume B: "buddy_inv b" and r: "0 \<le> r" "r < int PAGE_POOL_MAX_ORDER"
  show "(\<exists>a b'. page_buddy_dequeue b r = Some (0, Some a, b') \<and> buddy_inv b' \<and> (a, nat r) \<notin> used_blocks b \<and>
         used_blocks b' = insert (a, nat r) (used_blocks b)) \<or>
      page_buddy_dequeue b r = Some (- ENOMEM, None, b)"
    using dequeue_used [OF B r]
  proof (elim disjE exE conjE)
    fix j b' assume d: "page_buddy_dequeue b r = Some (0, Some (start_pfn b + of_nat j), b')" "buddy_inv b'"
      "j < length (array b)" "\<not> page_cstate_not_freed (array b ! j)" "start_pfn b' = start_pfn b"
      "used_idx b' = insert (j, nat r) (used_idx b)"
    have "(start_pfn b + of_nat j, nat r) \<notin> used_blocks b"
    proof
      assume "(start_pfn b + of_nat j, nat r) \<in> used_blocks b"
      then obtain i where i: "(i, nat r) \<in> alloc_blocks b" "start_pfn b + of_nat i = start_pfn b + of_nat j"
        by (auto simp: used_blocks_def used_idx_def)
      from pfn_inj [OF buddy_range(1) [OF B] alloc_blocks_lt [OF i(1)] d(3) i(2)] i(1) d(4) show False
        by (simp add: alloc_blocks_def)
    qed
    moreover have "used_blocks b' = insert (start_pfn b + of_nat j, nat r) (used_blocks b)"
      using d by (auto simp: used_blocks_def)
    ultimately show ?thesis using d by blast
  qed simp
next
  fix b a k assume B: "buddy_inv b" and "(a, k) \<in> used_blocks b"
  then obtain i where i: "(i, k) \<in> used_idx b" "a = start_pfn b + of_nat i" by (auto simp: used_blocks_def)
  from enqueue_used [OF B i(1)] obtain b' where
    e: "buddy_free b a = Some b'" "buddy_inv b'" "start_pfn b' = start_pfn b" "used_idx b' = used_idx b - {(i, k)}"
    using i(2) by auto
  have inj: "inj_on (\<lambda>(i, k). (start_pfn b + of_nat i :: u64, k)) (used_idx b)"
    using pfn_inj [OF buddy_range(1) [OF B]] alloc_blocks_lt
    by (force simp: inj_on_def used_idx_def simp del: add_left_cancel)
  have "used_blocks b' = used_blocks b - {(a, k)}"
    using e(3,4) i inj_on_image_set_diff [OF inj, of "used_idx b" "{(i, k)}"] by (simp add: used_blocks_def)
  with e show "\<exists>b'. buddy_free b a = Some b' \<and> buddy_inv b' \<and> used_blocks b' = used_blocks b - {(a, k)}" by blast
qed

section \<open>Properties\<close>

text \<open>A buddy of two used pages of order 0, numbered 5 and 6, for concrete instances.\<close>

definition two_pages :: page_buddy where
  "two_pages = page_buddy_init
     (map (\<lambda>n. \<lparr>pf_state = PAGE_CSTATE_USED, arch_state = 0, pf_pfn = n, mapcnt = 0, pf_order = 0, buddyp = 0, slabp = None\<rparr>) [5, 6])
     5 (of_nat 2)"

lemma two_pages_inv: "buddy_inv two_pages"
proof -
  define arr where "arr = array two_pages"
  have "buddy_inv (page_buddy_init arr 5 (of_nat (length arr)))"
    by (rule init_ok)
      (auto simp: arr_def two_pages_def page_buddy_init_def page_cstate_not_freed_def less_Suc_eq)
  then show ?thesis by (simp add: arr_def two_pages_def page_buddy_init_def)
qed

lemma two_pages_used: "(0, 0) \<in> used_idx two_pages" "(5, 0) \<in> used_blocks two_pages"
proof -
  show u: "(0, 0) \<in> used_idx two_pages"
    by (auto simp: used_idx_def alloc_blocks_def two_pages_def page_buddy_init_def page_cstate_not_freed_def)
  have "start_pfn two_pages = 5" by (simp add: two_pages_def page_buddy_init_def)
  with u show "(5, 0) \<in> used_blocks two_pages" by (force simp: used_blocks_def)
qed

lemma buddy_dequeue_ok:
  assumes "buddy_inv b" and "0 \<le> r" and "r < int PAGE_POOL_MAX_ORDER"
  shows "(\<exists>j b'. page_buddy_dequeue b r = Some (0, Some (start_pfn b + of_nat j), b') \<and> buddy_inv b' \<and>
      2 ^ nat r dvd j \<and> j + 2 ^ nat r \<le> length (array b) \<and>
      (\<forall>(i, k) \<in> alloc_blocks b. {i..<i + 2 ^ k} \<inter> {j..<j + 2 ^ nat r} = {}) \<and>
      alloc_blocks b' = insert (j, nat r) (alloc_blocks b) \<and>
      unat (page_buddy_get_free b') + 2 ^ nat r = unat (page_buddy_get_free b)) \<or>
    page_buddy_dequeue b r = Some (- ENOMEM, None, b) \<and>
      (\<forall>j. 2 ^ nat r dvd j \<longrightarrow> j + 2 ^ nat r \<le> length (array b) \<longrightarrow>
         (\<exists>(i, k) \<in> alloc_blocks b. {i..<i + 2 ^ k} \<inter> {j..<j + 2 ^ nat r} \<noteq> {}))"
  using dequeue_used [OF assms]
proof (elim disjE exE conjE)
  fix j b' assume d: "page_buddy_dequeue b r = Some (0, Some (start_pfn b + of_nat j), b')" "buddy_inv b'"
    "\<not> page_cstate_not_freed (array b ! j)" "nr_pages b' = nr_pages b"
    "alloc_blocks b' = insert (j, nat r) (alloc_blocks b)"
  have new: "(j, nat r) \<in> alloc_blocks b'" "(j, nat r) \<notin> alloc_blocks b"
    using d(3,5) by (auto simp: alloc_blocks_def)
  have len: "length (array b') = length (array b)"
    using buddy_range(2) assms(1) d(2,4) by metis
  have disj: "{i..<i + 2 ^ k} \<inter> {j..<j + 2 ^ nat r} = {}" if "(i, k) \<in> alloc_blocks b" for i k
    using alloc_blocks_disjoint [OF d(2) _ new(1), of i k] that new(2) d(5) by blast
  have "finite (alloc_blocks b)" by (auto simp: alloc_blocks_def)
  then have "(\<Sum>(i, k) \<in> alloc_blocks b'. 2 ^ k) = 2 ^ nat r + (\<Sum>(i, k) \<in> alloc_blocks b. (2 :: nat) ^ k)"
    using new(2) d(5) by simp
  then have "unat (page_buddy_get_free b') + 2 ^ nat r = unat (page_buddy_get_free b)"
    using free_and_used_pages [OF d(2)] free_and_used_pages [OF assms(1)] len by linarith
  moreover have "2 ^ nat r dvd j" "j + 2 ^ nat r \<le> length (array b)"
    using alloc_blocks_aligned [OF d(2) new(1)] len by simp_all
  moreover have "\<forall>(i, k) \<in> alloc_blocks b. {i..<i + 2 ^ k} \<inter> {j..<j + 2 ^ nat r} = {}"
    using disj by blast
  ultimately show ?thesis using d(1,2,5)
    by (intro disjI1 exI [of _ j] exI [of _ b'] conjI)
qed blast

text \<open>
  Claim C1. A request for \<open>2 ^ r\<close> pages on a well-formed buddy always returns.  Either it hands
  out an aligned block inside the managed range that overlaps no block in use, marks
  exactly this block as allocated, and the count of free pages drops by \<open>2 ^ r\<close>; or it
  returns \<^verbatim>\<open>-ENOMEM\<close> and changes nothing, and then every aligned range of \<open>2 ^ r\<close> pages
  overlaps a block in use: the allocator never fails while it could serve the request.
\<close>

theorem page_buddy_dequeue_spec:
  assumes "buddy_inv b" and "0 \<le> r" and "r < int PAGE_POOL_MAX_ORDER"
  shows "(\<exists>j b'. page_buddy_dequeue b r = Some (0, Some (start_pfn b + of_nat j), b') \<and> buddy_inv b' \<and>
      2 ^ nat r dvd j \<and> j + 2 ^ nat r \<le> length (array b) \<and>
      (\<forall>(i, k) \<in> alloc_blocks b. {i..<i + 2 ^ k} \<inter> {j..<j + 2 ^ nat r} = {}) \<and>
      alloc_blocks b' = insert (j, nat r) (alloc_blocks b) \<and>
      unat (page_buddy_get_free b') + 2 ^ nat r = unat (page_buddy_get_free b)) \<or>
    page_buddy_dequeue b r = Some (- ENOMEM, None, b) \<and>
      (\<forall>j. 2 ^ nat r dvd j \<longrightarrow> j + 2 ^ nat r \<le> length (array b) \<longrightarrow>
         (\<exists>(i, k) \<in> alloc_blocks b. {i..<i + 2 ^ k} \<inter> {j..<j + 2 ^ nat r} \<noteq> {}))"
  using assms by (rule buddy_dequeue_ok)

theorem page_buddy_dequeue_spec_witness:
  "(\<exists>j b'. page_buddy_dequeue two_pages 0 = Some (0, Some (start_pfn two_pages + of_nat j), b') \<and> buddy_inv b' \<and>
      2 ^ nat 0 dvd j \<and> j + 2 ^ nat 0 \<le> length (array two_pages) \<and>
      (\<forall>(i, k) \<in> alloc_blocks two_pages. {i..<i + 2 ^ k} \<inter> {j..<j + 2 ^ nat 0} = {}) \<and>
      alloc_blocks b' = insert (j, nat 0) (alloc_blocks two_pages) \<and>
      unat (page_buddy_get_free b') + 2 ^ nat 0 = unat (page_buddy_get_free two_pages)) \<or>
    page_buddy_dequeue two_pages 0 = Some (- ENOMEM, None, two_pages) \<and>
      (\<forall>j. 2 ^ nat 0 dvd j \<longrightarrow> j + 2 ^ nat 0 \<le> length (array two_pages) \<longrightarrow>
         (\<exists>(i, k) \<in> alloc_blocks two_pages. {i..<i + 2 ^ k} \<inter> {j..<j + 2 ^ nat 0} \<noteq> {}))"
  by (rule page_buddy_dequeue_spec) (simp_all add: two_pages_inv)

text \<open>
  Claim C2. Giving back a block in use always returns.  Exactly this block leaves the
  allocated ones, the count of free pages grows by its size, the free blocks stay merged as
  far as possible, and no page outside the buddy's order fields and the freed block's used
  bit changes.
\<close>

theorem page_buddy_enqueue_spec:
  assumes "buddy_inv b" and "(i, k) \<in> used_idx b"
  shows "\<exists>b'. page_buddy_enqueue (Some (of_nat i)) b (start_pfn b + of_nat i) = Some b' \<and> buddy_inv b' \<and>
      alloc_blocks b' = alloc_blocks b - {(i, k)} \<and> used_idx b' = used_idx b - {(i, k)} \<and>
      unat (page_buddy_get_free b') = unat (page_buddy_get_free b) + 2 ^ k \<and>
      same_but_order (array (clear_used b i)) (array b')"
proof -
  from enqueue_used [OF assms] obtain b' where
    e: "buddy_free b (start_pfn b + of_nat i) = Some b'" "buddy_inv b'" "nr_pages b' = nr_pages b"
      "alloc_blocks b' = alloc_blocks b - {(i, k)}" "used_idx b' = used_idx b - {(i, k)}"
      "same_but_order (array (clear_used b i)) (array b')" by blast
  have "finite (alloc_blocks b)" by (auto simp: alloc_blocks_def)
  moreover have "(i, k) \<in> alloc_blocks b" using assms(2) by (simp add: used_idx_def)
  ultimately have "(\<Sum>(i, k) \<in> alloc_blocks b. 2 ^ k) = 2 ^ k + (\<Sum>(i, k) \<in> alloc_blocks b'. (2 :: nat) ^ k)"
    unfolding e(4) by (simp add: sum.remove)
  moreover have "length (array b') = length (array b)" using buddy_range(2) assms(1) e(2,3) by metis
  ultimately have "unat (page_buddy_get_free b') = unat (page_buddy_get_free b) + 2 ^ k"
    using free_and_used_pages [OF e(2)] free_and_used_pages [OF assms(1)] by linarith
  with e show ?thesis by (auto simp: buddy_free_def)
qed

theorem page_buddy_enqueue_spec_witness:
  "\<exists>b'. page_buddy_enqueue (Some (of_nat 0)) two_pages (start_pfn two_pages + of_nat 0) = Some b' \<and> buddy_inv b' \<and>
      alloc_blocks b' = alloc_blocks two_pages - {(0, 0)} \<and> used_idx b' = used_idx two_pages - {(0, 0)} \<and>
      unat (page_buddy_get_free b') = unat (page_buddy_get_free two_pages) + 2 ^ 0 \<and>
      same_but_order (array (clear_used two_pages 0)) (array b')"
  using two_pages_inv two_pages_used(1) by (rule page_buddy_enqueue_spec)

text \<open>
  Claim C3. Safety over whole histories: whatever sequence of allocations and frees of
  allocated blocks runs on a well-formed buddy, no call ever gets stuck, the blocks in
  use never overlap, and free pages plus pages in use always add up to the managed pages.
\<close>

theorem page_buddy_history:
  assumes "alloc_history page_buddy_dequeue buddy_free used_blocks b rs b'" and "buddy_inv b"
  shows "buddy_inv b' \<and>
    (\<forall>r. 0 \<le> r \<and> r < int PAGE_POOL_MAX_ORDER \<longrightarrow> page_buddy_dequeue b' r \<noteq> None) \<and>
    (\<forall>(a, k) \<in> used_blocks b'. buddy_free b' a \<noteq> None) \<and>
    (\<forall>(i, k) \<in> alloc_blocks b'. \<forall>(j, l) \<in> alloc_blocks b'. (i, k) \<noteq> (j, l) \<longrightarrow>
       {i..<i + 2 ^ k} \<inter> {j..<j + 2 ^ l} = {}) \<and>
    unat (page_buddy_get_free b') + (\<Sum>(i, k) \<in> alloc_blocks b'. 2 ^ k) = length (array b')"
proof -
  have inv: "buddy_inv b'" using assms by (rule buddy.history_inv)
  show ?thesis
    using inv buddy.history_progress [OF assms] alloc_blocks_disjoint [OF inv] free_and_used_pages [OF inv] by blast
qed

theorem page_buddy_history_witness:
  "\<exists>b'. alloc_history page_buddy_dequeue buddy_free used_blocks two_pages [Free 5] b' \<and> buddy_inv b' \<and>
     unat (page_buddy_get_free b') + (\<Sum>(i, k) \<in> alloc_blocks b'. 2 ^ k) = length (array b')"
proof -
  from buddy.free_ok [OF two_pages_inv two_pages_used(2)] obtain b' where b': "buddy_free two_pages 5 = Some b'" by blast
  have h: "alloc_history page_buddy_dequeue buddy_free used_blocks two_pages ([] @ [Free 5]) b'"
    using history_Nil two_pages_used(2) b' by (rule history_Free)
  with page_buddy_history [OF h two_pages_inv] show ?thesis by auto
qed

end
