(* ===== verification/Page_Pool.thy ===== *)
theory Page_Pool
  imports Page_Buddy
begin

text \<open>
  The page pool, \<^verbatim>\<open>src/page/page.c\<close>, and the conversion between page frame numbers and
  kernel addresses of \<^verbatim>\<open>src/hal/x86-64/mm/page-pool.c\<close>.

  The pool is the queue \<^verbatim>\<open>global_pfque\<close> of memory areas, each with its page array and
  its buddy; \<^verbatim>\<open>pfi->array\<close> and \<^verbatim>\<open>pfi->buddy.array\<close> are the same array, so it is kept
  in the buddy only.  A pointer to an area or to its buddy is the position of the area in
  the queue, a pointer to a page frame the area and the index in its array.
  \<open>mem\<close> is the content of memory, which \<open>alloc_buddy_pages\<close> clears.
\<close>

section \<open>State\<close>

record page_frame_info =
  min_pfn :: u64
  max_pfn :: u64
  pfi_nr_pages :: u64
  buddy :: page_buddy

record page_pool =
  pfque :: "page_frame_info list"
  mem :: "u64 \<Rightarrow> u8"

abbreviation PAGE_SHIFT :: nat where "PAGE_SHIFT \<equiv> 12"
abbreviation PAGE_SIZE :: u64 where "PAGE_SIZE \<equiv> 0x1000"
abbreviation KERN_VMA_BASE :: u64 where "KERN_VMA_BASE \<equiv> 0xFFFF800000000000"

definition phy_to_kern_straight :: "u64 \<Rightarrow> u64" where
  "phy_to_kern_straight phy = phy + KERN_VMA_BASE"

definition kern_straight_to_phy :: "u64 \<Rightarrow> u64" where
  "kern_straight_to_phy va = va - KERN_VMA_BASE"

definition memset64 :: "(u64 \<Rightarrow> u8) \<Rightarrow> u64 \<Rightarrow> u8 \<Rightarrow> u64 \<Rightarrow> (u64 \<Rightarrow> u8)" where
  "memset64 m a c n = (\<lambda>x. if x - a < n then c else m x)"

section \<open>Lookup\<close>

text \<open>The search loop over the queue, from its first area; \<open>j\<close> is the position reached.\<close>

fun find_pfi :: "page_frame_info list \<Rightarrow> u64 \<Rightarrow> nat \<Rightarrow> nat option" where
  "find_pfi [] pfn j = None"
| "find_pfi (pfi # pfis) pfn j =
     (if min_pfn pfi \<le> pfn \<and> pfn < max_pfn pfi then Some j else find_pfi pfis pfn (Suc j))"

definition pfn_to_page_frame_info_nolock :: "page_pool \<Rightarrow> u64 \<Rightarrow> int \<times> nat option" where
  "pfn_to_page_frame_info_nolock s pfn =
     (case find_pfi (pfque s) pfn 0 of Some j \<Rightarrow> (0, Some j) | None \<Rightarrow> (- ENOENT, None))"

definition pfn_to_page_frame_info :: "page_pool \<Rightarrow> u64 \<Rightarrow> int \<times> nat option" where
  "pfn_to_page_frame_info s pfn = pfn_to_page_frame_info_nolock s pfn"

definition pfn_to_page_frame :: "page_pool \<Rightarrow> u64 \<Rightarrow> int \<times> (nat \<times> u64) option" where
  "pfn_to_page_frame s pfn =
     (case pfn_to_page_frame_info s pfn of
        (rc, Some j) \<Rightarrow> (0, Some (j, pfn - min_pfn (pfque s ! j)))
      | (rc, None) \<Rightarrow> (rc, None))"

definition kcom_is_pfn_valid_nolock :: "page_pool \<Rightarrow> u64 \<Rightarrow> bool" where
  "kcom_is_pfn_valid_nolock s pfn \<longleftrightarrow> fst (pfn_to_page_frame_info_nolock s pfn) = 0"

definition kcom_is_pfn_valid :: "page_pool \<Rightarrow> u64 \<Rightarrow> bool" where
  "kcom_is_pfn_valid s pfn \<longleftrightarrow> fst (pfn_to_page_frame_info s pfn) = 0"

definition hal_pfn_to_kvaddr :: "page_pool \<Rightarrow> u64 \<Rightarrow> int \<times> u64 option" where
  "hal_pfn_to_kvaddr s pfn =
     (if \<not> kcom_is_pfn_valid_nolock s pfn then (- ENOENT, None)
      else (0, Some (phy_to_kern_straight (push_bit PAGE_SHIFT pfn))))"

definition hal_kvaddr_to_pfn :: "page_pool \<Rightarrow> u64 \<Rightarrow> int \<times> u64 option" where
  "hal_kvaddr_to_pfn s kvaddr =
     (let pfn = drop_bit PAGE_SHIFT (kern_straight_to_phy kvaddr) in
      if \<not> kcom_is_pfn_valid s pfn then (- ENOENT, None) else (0, Some pfn))"

definition kvaddr_to_page_frame :: "page_pool \<Rightarrow> u64 \<Rightarrow> int \<times> (nat \<times> u64) option" where
  "kvaddr_to_page_frame s addr =
     (case hal_kvaddr_to_pfn s addr of
        (rc, None) \<Rightarrow> (rc, None)
      | (rc, Some pfn) \<Rightarrow>
          (case pfn_to_page_frame_info s pfn of
             (rc, None) \<Rightarrow> (rc, None)
           | (rc, Some j) \<Rightarrow> (0, Some (j, pfn - min_pfn (pfque s ! j)))))"

section \<open>Page frame access\<close>

definition page_at :: "page_pool \<Rightarrow> nat \<times> u64 \<Rightarrow> page_frame option" where
  "page_at s p = do {
     pfi \<leftarrow> arr_get (pfque s) (fst p);
     arr_get (array (buddy pfi)) (unat (snd p))
   }"

definition set_buddy :: "page_pool \<Rightarrow> nat \<Rightarrow> page_buddy \<Rightarrow> page_pool" where
  "set_buddy s j b = s\<lparr>pfque := (pfque s)[j := (pfque s ! j)\<lparr>buddy := b\<rparr>]\<rparr>"

definition page_update :: "page_pool \<Rightarrow> nat \<times> u64 \<Rightarrow> (page_frame \<Rightarrow> page_frame) \<Rightarrow> page_pool option" where
  "page_update s p f = do {
     pfi \<leftarrow> arr_get (pfque s) (fst p);
     b \<leftarrow> upd_page (buddy pfi) (unat (snd p)) f;
     Some (set_buddy s (fst p) b)
   }"

text \<open>
  \<open>page_buddy_enqueue(buddyp, pfn)\<close> on the buddy of area \<open>j\<close>.  The function looks the page
  up by itself; a page of another area's array would make \<^verbatim>\<open>req_page - base\<close> undefined.
\<close>

definition pool_enqueue :: "page_pool \<Rightarrow> nat \<Rightarrow> u64 \<Rightarrow> page_pool option" where
  "pool_enqueue s j pfn = do {
     pfi \<leftarrow> arr_get (pfque s) j;
     b \<leftarrow> (case pfn_to_page_frame s pfn of
            (_, None) \<Rightarrow> page_buddy_enqueue None (buddy pfi) pfn
          | (_, Some (j', idx)) \<Rightarrow>
              if j' = j then page_buddy_enqueue (Some idx) (buddy pfi) pfn else None);
     Some (set_buddy s j b)
   }"

section \<open>Adding a memory area\<close>

text \<open>
  \<open>resv\<close> stands for \<open>hal_is_pfn_reserved\<close>, which reads the boot information.
  The first loop fills the page array, the second enqueues every page that is not reserved.
\<close>

definition init_page :: "(u64 \<Rightarrow> bool) \<Rightarrow> nat \<Rightarrow> page_frame_info \<Rightarrow> nat \<Rightarrow> page_frame \<Rightarrow> page_frame" where
  "init_page resv j pfi i p =
     (let pfn = of_nat i + min_pfn pfi in
      p\<lparr>pf_pfn := pfn, mapcnt := 0, pf_order := 0, buddyp := j, slabp := None, arch_state := 0,
        pf_state := (if pfn < max_pfn pfi \<and> \<not> resv pfn then PAGE_CSTATE_USED else PAGE_CSTATE_RESERVED)\<rparr>)"

fun init_pages :: "(u64 \<Rightarrow> bool) \<Rightarrow> nat \<Rightarrow> page_frame_info \<Rightarrow> nat \<Rightarrow> nat \<Rightarrow> page_frame_info option" where
  "init_pages resv j pfi i 0 = Some pfi"
| "init_pages resv j pfi i (Suc n) = do {
     b \<leftarrow> upd_page (buddy pfi) i (init_page resv j pfi i);
     init_pages resv j (pfi\<lparr>buddy := b\<rparr>) (Suc i) n
   }"

fun enqueue_pages :: "page_pool \<Rightarrow> nat \<Rightarrow> nat \<Rightarrow> nat \<Rightarrow> page_pool option" where
  "enqueue_pages s j i 0 = Some s"
| "enqueue_pages s j i (Suc n) = do {
     p \<leftarrow> page_at s (j, of_nat i);
     s \<leftarrow> (if pf_state p AND PAGE_CSTATE_RESERVED = 0 then pool_enqueue s j (pf_pfn p) else Some s);
     enqueue_pages s j (Suc i) n
   }"

definition kcom_add_page_info :: "(u64 \<Rightarrow> bool) \<Rightarrow> page_pool \<Rightarrow> page_frame_info \<Rightarrow> page_pool option" where
  "kcom_add_page_info resv s pfi = do {
     let j = length (pfque s);
     let pfi = pfi\<lparr>buddy := page_buddy_init (array (buddy pfi)) (min_pfn pfi) (min_pfn pfi + pfi_nr_pages pfi)\<rparr>;
     pfi \<leftarrow> init_pages resv j pfi 0 (unat (pfi_nr_pages pfi));
     let s = s\<lparr>pfque := pfque s @ [pfi]\<rparr>;
     enqueue_pages s j 0 (unat (pfi_nr_pages pfi))
   }"

section \<open>Operations\<close>

definition kcom_refer_free_pages :: "page_pool \<Rightarrow> u64 \<times> u64" where
  "kcom_refer_free_pages s =
     (\<Sum>pfi \<leftarrow> pfque s. pfi_nr_pages pfi, \<Sum>pfi \<leftarrow> pfque s. page_buddy_get_free (buddy pfi))"

definition page_release_reservation :: "page_pool \<Rightarrow> u64 \<Rightarrow> (int \<times> page_pool) option" where
  "page_release_reservation s pfn =
     (case pfn_to_page_frame s pfn of
        (rc, None) \<Rightarrow> Some (rc, s)
      | (_, Some p) \<Rightarrow> do {
          page \<leftarrow> page_at s p;
          if pf_state page AND PAGE_CSTATE_RESERVED = 0 then Some (- EINVAL, s)
          else do {
            s \<leftarrow> page_update s p (pf_state_update (\<lambda>st. st AND NOT PAGE_CSTATE_RESERVED));
            s \<leftarrow> pool_enqueue s (buddyp page) (pf_pfn page);
            Some (0, s)
          }
        })"

definition inc_page_map_count :: "page_pool \<Rightarrow> u64 \<Rightarrow> page_pool option" where
  "inc_page_map_count s addr =
     (case kvaddr_to_page_frame s addr of
        (_, None) \<Rightarrow> None
      | (_, Some p) \<Rightarrow> page_update s p (mapcnt_update (\<lambda>n. n + 1)))"

definition dec_page_map_count :: "page_pool \<Rightarrow> u64 \<Rightarrow> page_pool option" where
  "dec_page_map_count s addr =
     (case kvaddr_to_page_frame s addr of
        (_, None) \<Rightarrow> None
      | (_, Some p) \<Rightarrow>
          page_update s p (\<lambda>pg.
            let pg = pg\<lparr>mapcnt := mapcnt pg - 1\<rparr> in
            if mapcnt pg = 0 then pg\<lparr>pf_state := pf_state pg AND NOT PAGE_CSTATE_USED\<rparr> else pg))"

text \<open>
  The loop of \<open>alloc_buddy_pages\<close> over the areas, \<open>j\<close> the position reached and \<open>n\<close> the
  areas left.
\<close>

fun alloc_loop :: "page_pool \<Rightarrow> int \<Rightarrow> nat \<Rightarrow> nat \<Rightarrow> (int \<times> u64 option \<times> page_pool) option" where
  "alloc_loop s order j 0 = Some (- ENOMEM, None, s)"
| "alloc_loop s order j (Suc n) = do {
     (rc, pfn, b) \<leftarrow> page_buddy_dequeue (buddy (pfque s ! j)) order;
     let s = set_buddy s j b;
     if rc = 0 then do {
       pfn \<leftarrow> pfn;
       let (rc, kaddr) = hal_pfn_to_kvaddr s pfn;
       kassert (rc = 0);
       kaddr \<leftarrow> kaddr;
       Some (0, Some kaddr, s\<lparr>mem := memset64 (mem s) kaddr 0 PAGE_SIZE\<rparr>)
     } else alloc_loop s order (Suc j) n
   }"

definition alloc_buddy_pages :: "page_pool \<Rightarrow> int \<Rightarrow> (int \<times> u64 option \<times> page_pool) option" where
  "alloc_buddy_pages s order = alloc_loop s order 0 (length (pfque s))"

definition get_free_page :: "page_pool \<Rightarrow> (int \<times> u64 option \<times> page_pool) option" where
  "get_free_page s = alloc_buddy_pages s 0"

text \<open>\<open>free_page\<close> returns 0 whenever it returns.\<close>

definition free_page :: "page_pool \<Rightarrow> u64 \<Rightarrow> page_pool option" where
  "free_page s addr =
     (case hal_kvaddr_to_pfn s addr of
        (_, None) \<Rightarrow> None
      | (_, Some pfn) \<Rightarrow>
          (case pfn_to_page_frame s pfn of
             (_, None) \<Rightarrow> None
           | (_, Some p) \<Rightarrow> do {
               page \<leftarrow> page_at s p;
               pool_enqueue s (buddyp page) pfn
             }))"

definition free_buddy_pages :: "page_pool \<Rightarrow> u64 \<Rightarrow> page_pool option" where
  "free_buddy_pages s addr = free_page s addr"

section \<open>The pool invariant\<close>

definition in_area :: "page_frame_info \<Rightarrow> u64 \<Rightarrow> bool" where
  "in_area pfi pfn \<longleftrightarrow> min_pfn pfi \<le> pfn \<and> pfn < max_pfn pfi"

text \<open>
  The pages above \<open>max_pfn\<close> hold the page array itself and are reserved; physical addresses
  have at most 64 bits, so page frame numbers stay below \<open>2 ^ 52\<close>.
\<close>

definition area_inv :: "nat \<Rightarrow> page_frame_info \<Rightarrow> bool" where
  "area_inv j pfi \<longleftrightarrow> buddy_inv (buddy pfi) \<and> start_pfn (buddy pfi) = min_pfn pfi \<and>
     unat (max_pfn pfi) \<le> 2 ^ 52 \<and>
     (\<forall>i < length (array (buddy pfi)). buddyp (array (buddy pfi) ! i) = j \<and>
        (unat (max_pfn pfi) \<le> unat (min_pfn pfi) + i \<longrightarrow>
           pf_state (array (buddy pfi) ! i) AND PAGE_CSTATE_RESERVED \<noteq> 0))"

definition areas_disjoint :: "page_frame_info list \<Rightarrow> bool" where
  "areas_disjoint xs \<longleftrightarrow>
     (\<forall>j j' pfn. j < length xs \<longrightarrow> j' < length xs \<longrightarrow> in_area (xs ! j) pfn \<longrightarrow> in_area (xs ! j') pfn \<longrightarrow> j = j')"

definition pool_inv :: "page_pool \<Rightarrow> bool" where
  "pool_inv s \<longleftrightarrow> (\<forall>j < length (pfque s). area_inv j (pfque s ! j)) \<and> areas_disjoint (pfque s)"

definition addr_of :: "u64 \<Rightarrow> u64" where
  "addr_of pfn = phy_to_kern_straight (push_bit PAGE_SHIFT pfn)"

definition pool_blocks :: "page_pool \<Rightarrow> (u64 \<times> nat) set" where
  "pool_blocks s = (\<Union>j < length (pfque s). (\<lambda>(pfn, k). (addr_of pfn, k)) ` used_blocks (buddy (pfque s ! j)))"

subsection \<open>Lookup\<close>

lemma find_pfi_eq:
  assumes "areas_disjoint xs" and "j < length xs" and "in_area (xs ! j) pfn"
  shows "find_pfi xs pfn n = Some (n + j)"
  using assms
proof (induction xs arbitrary: j n)
  case (Cons x xs)
  show ?case
  proof (cases j)
    case 0
    with Cons.prems show ?thesis by (simp add: in_area_def)
  next
    case (Suc j')
    have "\<not> in_area x pfn"
    proof
      assume "in_area x pfn"
      then have "0 = j" using Cons.prems unfolding areas_disjoint_def
        by (metis length_greater_0_conv list.distinct(1) nth_Cons_0)
      with Suc show False by simp
    qed
    moreover have "areas_disjoint xs" using Cons.prems(1) unfolding areas_disjoint_def
      by (metis Suc_inject Suc_less_eq length_Cons nth_Cons_Suc)
    ultimately show ?thesis using Cons.prems Suc Cons.IH [of j' "Suc n"] by (auto simp: in_area_def)
  qed
qed simp

lemma find_pfi_None:
  assumes "\<forall>m < length xs. \<not> in_area (xs ! m) pfn"
  shows "find_pfi xs pfn n = None"
  using assms
proof (induction xs arbitrary: n)
  case (Cons x xs)
  from Cons.prems have "\<not> in_area x pfn" "\<forall>m < length xs. \<not> in_area (xs ! m) pfn" by (force, force)
  with Cons.IH show ?case by (simp add: in_area_def)
qed simp

lemma lookup_eq:
  assumes "areas_disjoint (pfque s)" and "j < length (pfque s)" and "in_area (pfque s ! j) pfn"
  shows "pfn_to_page_frame s pfn = (0, Some (j, pfn - min_pfn (pfque s ! j)))"
    and "kcom_is_pfn_valid s pfn" and "kcom_is_pfn_valid_nolock s pfn"
    and "pfn_to_page_frame_info s pfn = (0, Some j)"
  using find_pfi_eq [OF assms, of 0]
  by (simp_all add: pfn_to_page_frame_def pfn_to_page_frame_info_def pfn_to_page_frame_info_nolock_def
      kcom_is_pfn_valid_def kcom_is_pfn_valid_nolock_def)

lemma pfn_of_addr:
  assumes "unat pfn < 2 ^ 52"
  shows "drop_bit PAGE_SHIFT (kern_straight_to_phy (addr_of pfn)) = pfn"
proof (rule bit_eqI)
  fix n
  have "bit pfn n \<Longrightarrow> n < 52"
  proof (rule ccontr)
    assume b: "bit pfn n" "\<not> n < 52"
    then have "bit (unat pfn) n" by (simp add: bit_unsigned_iff)
    moreover have "(2 :: nat) ^ 52 \<le> 2 ^ n" using b(2) by (intro power_increasing) auto
    then have "unat pfn div 2 ^ n = 0" using assms by (intro div_less) linarith
    ultimately show False by (simp add: bit_iff_odd)
  qed
  then show "bit (drop_bit PAGE_SHIFT (kern_straight_to_phy (addr_of pfn))) n \<longleftrightarrow> bit pfn n"
    by (auto simp: addr_of_def phy_to_kern_straight_def kern_straight_to_phy_def bit_drop_bit_eq bit_push_bit_iff)
qed

lemma addr_lookup:
  assumes "areas_disjoint (pfque s)" and "j < length (pfque s)" and "in_area (pfque s ! j) pfn"
    and "unat (max_pfn (pfque s ! j)) \<le> 2 ^ 52"
  shows "hal_pfn_to_kvaddr s pfn = (0, Some (addr_of pfn))"
    and "hal_kvaddr_to_pfn s (addr_of pfn) = (0, Some pfn)"
    and "kvaddr_to_page_frame s (addr_of pfn) = (0, Some (j, pfn - min_pfn (pfque s ! j)))"
proof -
  have "unat pfn < 2 ^ 52" using assms(3,4) by (simp add: in_area_def word_less_nat_alt)
  note l = lookup_eq [OF assms(1-3)] pfn_of_addr [OF this]
  show "hal_pfn_to_kvaddr s pfn = (0, Some (addr_of pfn))"
    using l by (simp add: hal_pfn_to_kvaddr_def addr_of_def)
  show h: "hal_kvaddr_to_pfn s (addr_of pfn) = (0, Some pfn)"
    using l by (simp add: hal_kvaddr_to_pfn_def)
  show "kvaddr_to_page_frame s (addr_of pfn) = (0, Some (j, pfn - min_pfn (pfque s ! j)))"
    using l h by (simp add: kvaddr_to_page_frame_def)
qed

subsection \<open>Changing the buddy of one area\<close>

definition same_resv :: "page_buddy \<Rightarrow> page_buddy \<Rightarrow> bool" where
  "same_resv b b' \<longleftrightarrow> length (array b') = length (array b) \<and> start_pfn b' = start_pfn b \<and>
     (\<forall>i < length (array b). buddyp (array b' ! i) = buddyp (array b ! i) \<and>
        pf_state (array b' ! i) AND PAGE_CSTATE_RESERVED = pf_state (array b ! i) AND PAGE_CSTATE_RESERVED)"

lemma set_buddy_simps [simp]:
  "length (pfque (set_buddy s j b)) = length (pfque s)"
  "mem (set_buddy s j b) = mem s"
  "j < length (pfque s) \<Longrightarrow> i \<noteq> j \<Longrightarrow> pfque (set_buddy s j b) ! i = pfque s ! i"
  "j < length (pfque s) \<Longrightarrow> pfque (set_buddy s j b) ! j = (pfque s ! j)\<lparr>buddy := b\<rparr>"
  by (simp_all add: set_buddy_def)

lemma set_buddy_same: "j < length (pfque s) \<Longrightarrow> set_buddy s j (buddy (pfque s ! j)) = s"
  by (simp add: set_buddy_def)

lemma in_area_set_buddy [simp]:
  "j < length (pfque s) \<Longrightarrow> in_area (pfque (set_buddy s j b) ! i) pfn = in_area (pfque s ! i) pfn"
  by (cases "i = j") (simp_all add: in_area_def)

lemma pool_inv_set_buddy:
  assumes "pool_inv s" and "j < length (pfque s)" and "buddy_inv b" and "same_resv (buddy (pfque s ! j)) b"
  shows "pool_inv (set_buddy s j b)"
  unfolding pool_inv_def
proof (intro conjI allI impI)
  show "areas_disjoint (pfque (set_buddy s j b))"
    using assms(1,2) by (simp add: pool_inv_def areas_disjoint_def)
  fix i assume "i < length (pfque (set_buddy s j b))"
  then have a: "area_inv i (pfque s ! i)" using assms(1) by (simp add: pool_inv_def)
  show "area_inv i (pfque (set_buddy s j b) ! i)"
  proof (cases "i = j")
    case True
    with a assms(2-4) show ?thesis by (simp add: area_inv_def same_resv_def)
  qed (use a assms(2) in simp)
qed

lemma pool_invD:
  assumes "pool_inv s" and "j < length (pfque s)"
  shows "buddy_inv (buddy (pfque s ! j))" and "start_pfn (buddy (pfque s ! j)) = min_pfn (pfque s ! j)"
    and "unat (max_pfn (pfque s ! j)) \<le> 2 ^ 52" and "areas_disjoint (pfque s)"
    and "i < length (array (buddy (pfque s ! j))) \<Longrightarrow> buddyp (array (buddy (pfque s ! j)) ! i) = j"
  using assms by (simp_all add: pool_inv_def area_inv_def)

text \<open>A page that is not reserved lies in the range its area answers for.\<close>

lemma page_in_area:
  assumes "pool_inv s" and "j < length (pfque s)" and "i < length (array (buddy (pfque s ! j)))"
    and "pf_state (array (buddy (pfque s ! j)) ! i) AND PAGE_CSTATE_RESERVED = 0"
  shows "in_area (pfque s ! j) (min_pfn (pfque s ! j) + of_nat i)"
    and "unat (min_pfn (pfque s ! j) + of_nat i) = unat (min_pfn (pfque s ! j)) + i"
proof -
  let ?m = "min_pfn (pfque s ! j)"
  have "area_inv j (pfque s ! j)" using assms(1,2) by (simp add: pool_inv_def)
  then have lt: "unat ?m + i < unat (max_pfn (pfque s ! j))"
    using assms(3,4) unfolding area_inv_def by (metis not_le)
  have "unat ?m + length (array (buddy (pfque s ! j))) < 2 ^ 64"
    using buddy_range(1) [OF pool_invD(1) [OF assms(1,2)]] pool_invD(2) [OF assms(1,2)] by simp
  then show eq: "unat (?m + of_nat i) = unat ?m + i"
    using assms(3) by (simp add: unat_word_ariths unat_of_nat)
  with lt show "in_area (pfque s ! j) (?m + of_nat i)"
    by (simp add: in_area_def word_le_nat_alt word_less_nat_alt)
qed

lemma used_in_area:
  assumes "pool_inv s" and "j < length (pfque s)" and "(pfn, k) \<in> used_blocks (buddy (pfque s ! j))"
  obtains i where "(i, k) \<in> used_idx (buddy (pfque s ! j))" "i < length (array (buddy (pfque s ! j)))"
    and "pfn = min_pfn (pfque s ! j) + of_nat i" and "in_area (pfque s ! j) pfn"
proof -
  from assms(3) obtain i where i: "(i, k) \<in> used_idx (buddy (pfque s ! j))" "pfn = min_pfn (pfque s ! j) + of_nat i"
    using pool_invD(2) [OF assms(1,2)] by (auto simp: used_blocks_def)
  then have "i < length (array (buddy (pfque s ! j)))" "pf_state (array (buddy (pfque s ! j)) ! i) AND PAGE_CSTATE_RESERVED = 0"
    by (auto simp: used_idx_def dest: alloc_blocks_lt)
  with i that page_in_area(1) [OF assms(1,2)] show thesis by blast
qed

lemma addr_of_inj:
  assumes "pool_inv s" and "j < length (pfque s)" and "j' < length (pfque s)"
    and "in_area (pfque s ! j) pfn" and "in_area (pfque s ! j') pfn'" and "addr_of pfn = addr_of pfn'"
  shows "pfn = pfn'" and "j = j'"
proof -
  have "unat pfn < 2 ^ 52" "unat pfn' < 2 ^ 52"
    using assms(4,5) pool_invD(3) [OF assms(1,2)] pool_invD(3) [OF assms(1,3)]
    by (simp_all add: in_area_def word_less_nat_alt)
  with assms(6) show e: "pfn = pfn'" using pfn_of_addr by metis
  with assms show "j = j'" using pool_invD(4) [OF assms(1,2)] unfolding areas_disjoint_def by blast
qed

lemma pool_blocks_set_buddy:
  assumes "j < length (pfque s)"
  shows "pool_blocks (set_buddy s j b) =
    (\<Union>i \<in> {..<length (pfque s)} - {j}. (\<lambda>(pfn, k). (addr_of pfn, k)) ` used_blocks (buddy (pfque s ! i))) \<union>
    (\<lambda>(pfn, k). (addr_of pfn, k)) ` used_blocks b"
proof -
  define f where "f = (\<lambda>i. (\<lambda>(pfn, k). (addr_of pfn, k)) ` used_blocks (buddy (pfque (set_buddy s j b) ! i)))"
  have "{..<length (pfque s)} = insert j ({..<length (pfque s)} - {j})" using assms by auto
  then have "pool_blocks (set_buddy s j b) = (\<Union>i \<in> insert j ({..<length (pfque s)} - {j}). f i)"
    by (simp only: pool_blocks_def f_def set_buddy_simps(1))
  also have "\<dots> = (\<Union>i \<in> {..<length (pfque s)} - {j}. f i) \<union> f j" by blast
  also have "f j = (\<lambda>(pfn, k). (addr_of pfn, k)) ` used_blocks b" using assms by (simp add: f_def)
  also have "(\<Union>i \<in> {..<length (pfque s)} - {j}. f i) =
      (\<Union>i \<in> {..<length (pfque s)} - {j}. (\<lambda>(pfn, k). (addr_of pfn, k)) ` used_blocks (buddy (pfque s ! i)))"
    using assms by (intro SUP_cong) (simp_all add: f_def)
  finally show ?thesis .
qed

lemma pool_blocks_split:
  assumes "j < length (pfque s)"
  shows "pool_blocks s =
    (\<Union>i \<in> {..<length (pfque s)} - {j}. (\<lambda>(pfn, k). (addr_of pfn, k)) ` used_blocks (buddy (pfque s ! i))) \<union>
    (\<lambda>(pfn, k). (addr_of pfn, k)) ` used_blocks (buddy (pfque s ! j))"
  using pool_blocks_set_buddy [OF assms, of "buddy (pfque s ! j)"] set_buddy_same [OF assms] by simp

lemma pool_blocks_append:
  assumes "pfque s' = pfque s @ [p]" and "used_blocks (buddy p) = {}"
  shows "pool_blocks s' = pool_blocks s"
proof -
  have "(\<Union>j < length (pfque s). (\<lambda>(pfn, k). (addr_of pfn, k)) ` used_blocks (buddy ((pfque s @ [p]) ! j))) = pool_blocks s"
    unfolding pool_blocks_def by (intro SUP_cong) (simp_all add: nth_append)
  then show ?thesis using assms unfolding pool_blocks_def by (simp add: lessThan_Suc)
qed

lemma pool_blocksE:
  assumes "pool_inv s" and "(a, k) \<in> pool_blocks s"
  obtains j pfn where "j < length (pfque s)" and "(pfn, k) \<in> used_blocks (buddy (pfque s ! j))"
    and "a = addr_of pfn" and "in_area (pfque s ! j) pfn"
proof -
  from assms(2) obtain j pfn where j: "j < length (pfque s)" "(pfn, k) \<in> used_blocks (buddy (pfque s ! j))" "a = addr_of pfn"
    by (auto simp: pool_blocks_def)
  from used_in_area [OF assms(1) j(1,2)] j that show thesis by blast
qed

lemma pool_blocks_remove:
  assumes inv: "pool_inv s" and j: "j < length (pfque s)" and used: "(pfn, k) \<in> used_blocks (buddy (pfque s ! j))"
    and b: "used_blocks b = used_blocks (buddy (pfque s ! j)) - {(pfn, k)}"
  shows "pool_blocks (set_buddy s j b) = pool_blocks s - {(addr_of pfn, k)}"
proof -
  have pa: "in_area (pfque s ! j) pfn" using used_in_area [OF inv j used] by blast
  have "pfn' = pfn \<and> i = j" if "i < length (pfque s)" "(pfn', l) \<in> used_blocks (buddy (pfque s ! i))"
    "addr_of pfn' = addr_of pfn" for i pfn' l
  proof -
    have "in_area (pfque s ! i) pfn'" using used_in_area [OF inv that(1,2)] by blast
    from addr_of_inj [OF inv that(1) j this pa that(3)] show ?thesis by simp
  qed
  then show ?thesis
    unfolding pool_blocks_set_buddy [OF j] pool_blocks_split [OF j] b using j by fastforce
qed

lemma pool_blocks_insert:
  assumes "j < length (pfque s)" and "used_blocks b = insert (pfn, k) (used_blocks (buddy (pfque s ! j)))"
  shows "pool_blocks (set_buddy s j b) = insert (addr_of pfn, k) (pool_blocks s)"
  unfolding pool_blocks_set_buddy [OF assms(1)] pool_blocks_split [OF assms(1)] assms(2) by auto

subsection \<open>Freeing\<close>

lemma same_resv_enqueue:
  assumes "same_but_order (array (clear_used b i)) (array b')" and "start_pfn b' = start_pfn b"
  shows "same_resv b b'"
proof -
  have len: "length (array (clear_used b i)) = length (array b)" by (simp add: clear_used_def)
  have "pf_state (array (clear_used b i) ! m) AND 2 = pf_state (array b ! m) AND 2"
    "buddyp (array (clear_used b i) ! m) = buddyp (array b ! m)" if "m < length (array b)" for m
    using that by (cases "m = i"; simp add: clear_used_def and.assoc)+
  then show ?thesis
    using assms same_but_orderD(1,2) [OF assms(1)] same_but_order_buddyp(1) [OF assms(1)] len
    by (simp add: same_resv_def)
qed

lemma pool_enqueue_ok:
  assumes inv: "pool_inv s" and j: "j < length (pfque s)" and i: "(i, k) \<in> used_idx (buddy (pfque s ! j))"
  defines "pfn \<equiv> min_pfn (pfque s ! j) + of_nat i"
  shows "\<exists>s'. pool_enqueue s j pfn = Some s' \<and> pool_inv s' \<and> mem s' = mem s \<and>
    length (pfque s') = length (pfque s) \<and>
    pool_blocks s' = pool_blocks s - {(addr_of pfn, k)} \<and>
    (\<exists>b'. s' = set_buddy s j b' \<and> used_idx b' = used_idx (buddy (pfque s ! j)) - {(i, k)} \<and>
       alloc_blocks b' = alloc_blocks (buddy (pfque s ! j)) - {(i, k)} \<and> same_resv (buddy (pfque s ! j)) b' \<and>
       (\<forall>m < length (array b'). pf_pfn (array b' ! m) = min_pfn (pfque s ! j) + of_nat m))"
proof -
  let ?b = "buddy (pfque s ! j)"
  note I = pool_invD [OF inv j]
  have u: "(pfn, k) \<in> used_blocks ?b" using i I(2) by (force simp: used_blocks_def pfn_def)
  have resv: "pf_state (array ?b ! i) AND PAGE_CSTATE_RESERVED = 0" "i < length (array ?b)"
    using i by (auto simp: used_idx_def dest: alloc_blocks_lt)
  note pa = page_in_area [OF inv j resv(2,1), folded pfn_def]
  from enqueue_used [OF I(1) i] obtain b' where
    e: "buddy_free ?b pfn = Some b'" "buddy_inv b'" "start_pfn b' = start_pfn ?b"
      "used_idx b' = used_idx ?b - {(i, k)}" "same_but_order (array (clear_used ?b i)) (array b')"
      "alloc_blocks b' = alloc_blocks ?b - {(i, k)}"
    using I(2) by (auto simp: pfn_def)
  have sr: "same_resv ?b b'" using e(5,3) by (rule same_resv_enqueue)
  from buddy.free_ok [OF I(1) u] e(1) have ub: "used_blocks b' = used_blocks ?b - {(pfn, k)}" by auto
  have "pool_enqueue s j pfn = Some (set_buddy s j b')"
    using j lookup_eq(1) [OF I(4) j pa(1)] e(1) I(2) by (simp add: pool_enqueue_def buddy_free_def)
  moreover have "pool_inv (set_buddy s j b')" using inv j e(2) sr by (rule pool_inv_set_buddy)
  moreover have "pool_blocks (set_buddy s j b') = pool_blocks s - {(addr_of pfn, k)}"
    using inv j u ub by (rule pool_blocks_remove)
  moreover have "\<forall>m < length (array b'). pf_pfn (array b' ! m) = min_pfn (pfque s ! j) + of_nat m"
    using e(2,3) I(2) by (auto simp: buddy_inv_def buddy_ok_def pages_ok_def)
  ultimately show ?thesis using e(4,6) sr by auto
qed

lemma free_page_ok:
  assumes inv: "pool_inv s" and u: "(a, k) \<in> pool_blocks s"
  shows "\<exists>s'. free_page s a = Some s' \<and> pool_inv s' \<and> mem s' = mem s \<and> pool_blocks s' = pool_blocks s - {(a, k)}"
proof -
  from pool_blocksE [OF inv u] obtain j pfn where
    j: "j < length (pfque s)" "(pfn, k) \<in> used_blocks (buddy (pfque s ! j))" "a = addr_of pfn" .
  from used_in_area [OF inv j(1,2)] obtain i where
    i: "(i, k) \<in> used_idx (buddy (pfque s ! j))" "i < length (array (buddy (pfque s ! j)))"
      "pfn = min_pfn (pfque s ! j) + of_nat i" "in_area (pfque s ! j) pfn" .
  note I = pool_invD [OF inv j(1)]
  note L = addr_lookup(2) [OF I(4) j(1) i(4) I(3)] lookup_eq(1) [OF I(4) j(1) i(4)]
  have "unat (of_nat i :: u64) = i" using i(2) buddy_range(1) [OF I(1)] by (simp add: unat_of_nat)
  then have "page_at s (j, pfn - min_pfn (pfque s ! j)) = Some (array (buddy (pfque s ! j)) ! i)"
    using j(1) i(2,3) by (simp add: page_at_def)
  then have "free_page s a = pool_enqueue s j pfn"
    using L j(3) I(5) [OF i(2)] by (simp add: free_page_def)
  with pool_enqueue_ok [OF inv j(1) i(1)] i(3) j(3) show ?thesis by auto
qed

subsection \<open>Allocating\<close>

lemma same_resv_dequeue:
  assumes "same_but_order ((array b)[i := (array b ! i)\<lparr>pf_state := pf_state (array b ! i) OR PAGE_CSTATE_USED\<rparr>]) (array b')"
    and "start_pfn b' = start_pfn b"
  shows "same_resv b b'"
proof -
  define a where "a = (array b)[i := (array b ! i)\<lparr>pf_state := pf_state (array b ! i) OR PAGE_CSTATE_USED\<rparr>]"
  have S: "same_but_order a (array b')" using assms(1) by (simp add: a_def)
  have len: "length a = length (array b)" by (simp add: a_def)
  have "(w OR 1) AND 2 = w AND 2" for w :: u32 by (simp add: bit.conj_disj_distrib2)
  then have "pf_state (a ! m) AND 2 = pf_state (array b ! m) AND 2" "buddyp (a ! m) = buddyp (array b ! m)"
    if "m < length (array b)" for m
    using that by (cases "m = i"; simp add: a_def)+
  then show ?thesis
    using assms(2) same_but_orderD(1,2) [OF S] same_but_order_buddyp(1) [OF S] len
    by (simp add: same_resv_def)
qed

lemma dequeue_area:
  assumes inv: "pool_inv s" and j: "j < length (pfque s)" and r: "0 \<le> r" "r < int PAGE_POOL_MAX_ORDER"
    and d: "page_buddy_dequeue (buddy (pfque s ! j)) r = Some (rc, p, b)"
  shows "rc = - ENOMEM \<and> p = None \<and> b = buddy (pfque s ! j) \<or>
    (\<exists>pfn. rc = 0 \<and> p = Some pfn \<and> in_area (pfque s ! j) pfn \<and> pool_inv (set_buddy s j b) \<and>
       (addr_of pfn, nat r) \<notin> pool_blocks s \<and>
       pool_blocks (set_buddy s j b) = insert (addr_of pfn, nat r) (pool_blocks s))"
proof -
  note I = pool_invD [OF inv j]
  show ?thesis using dequeue_used [OF I(1) r]
  proof (elim disjE exE conjE)
    fix i b' assume e: "page_buddy_dequeue (buddy (pfque s ! j)) r = Some (0, Some (start_pfn (buddy (pfque s ! j)) + of_nat i), b')"
      "buddy_inv b'" "i < length (array (buddy (pfque s ! j)))" "\<not> page_cstate_not_freed (array (buddy (pfque s ! j)) ! i)"
      "start_pfn b' = start_pfn (buddy (pfque s ! j))"
      "same_but_order ((array (buddy (pfque s ! j)))[i := (array (buddy (pfque s ! j)) ! i)\<lparr>pf_state := pf_state (array (buddy (pfque s ! j)) ! i) OR PAGE_CSTATE_USED\<rparr>]) (array b')"
    define pfn where "pfn = min_pfn (pfque s ! j) + of_nat i"
    have eq: "rc = 0" "p = Some pfn" "b = b'" using d e(1) I(2) by (auto simp: pfn_def)
    have "pf_state (array (buddy (pfque s ! j)) ! i) AND PAGE_CSTATE_RESERVED = 0"
      using e(4) state_bits(1) by (simp add: page_cstate_not_freed_def)
    from page_in_area(1) [OF inv j e(3) this] have pa: "in_area (pfque s ! j) pfn" by (simp add: pfn_def)
    from buddy.alloc_ok [OF I(1) r] d eq have
      new: "(pfn, nat r) \<notin> used_blocks (buddy (pfque s ! j))" "used_blocks b = insert (pfn, nat r) (used_blocks (buddy (pfque s ! j)))"
      by auto
    have "(addr_of pfn, nat r) \<notin> pool_blocks s"
    proof
      assume "(addr_of pfn, nat r) \<in> pool_blocks s"
      from pool_blocksE [OF inv this] obtain j' pfn' where
        j': "j' < length (pfque s)" "(pfn', nat r) \<in> used_blocks (buddy (pfque s ! j'))" "addr_of pfn = addr_of pfn'"
          "in_area (pfque s ! j') pfn'" .
      from addr_of_inj [OF inv j j'(1) pa j'(4,3)] j'(2) new(1) show False by simp
    qed
    moreover have "pool_inv (set_buddy s j b)"
      using inv j e(2) same_resv_dequeue [OF e(6,5)] unfolding eq by (rule pool_inv_set_buddy)
    ultimately show ?thesis using eq pa pool_blocks_insert [OF j new(2)] by blast
  qed (use d in auto)
qed

lemma alloc_loop_ok:
  assumes inv: "pool_inv s" and r: "0 \<le> r" "r < int PAGE_POOL_MAX_ORDER" and "j + n = length (pfque s)"
  shows "(\<exists>a s'. alloc_loop s r j n = Some (0, Some a, s') \<and> pool_inv s' \<and> (a, nat r) \<notin> pool_blocks s \<and>
       pool_blocks s' = insert (a, nat r) (pool_blocks s) \<and> mem s' = memset64 (mem s) a 0 PAGE_SIZE) \<or>
    alloc_loop s r j n = Some (- ENOMEM, None, s) \<and>
      (\<forall>i. j \<le> i \<and> i < length (pfque s) \<longrightarrow>
         page_buddy_dequeue (buddy (pfque s ! i)) r = Some (- ENOMEM, None, buddy (pfque s ! i)))"
  using assms(4)
proof (induction n arbitrary: j)
  case (Suc n)
  then have j: "j < length (pfque s)" by simp
  note I = pool_invD [OF inv j]
  obtain rc p b where d: "page_buddy_dequeue (buddy (pfque s ! j)) r = Some (rc, p, b)"
    using buddy.alloc_ok [OF I(1) r] by blast
  from dequeue_area [OF inv j r d] show ?case
  proof (elim disjE exE conjE)
    assume e: "rc = - ENOMEM" "p = None" "b = buddy (pfque s ! j)"
    have "alloc_loop s r j (Suc n) = alloc_loop s r (Suc j) n" using d e set_buddy_same [OF j] by simp
    moreover have "\<forall>i. j \<le> i \<and> i < length (pfque s) \<longrightarrow> page_buddy_dequeue (buddy (pfque s ! i)) r = Some (- ENOMEM, None, buddy (pfque s ! i))"
      if "\<forall>i. Suc j \<le> i \<and> i < length (pfque s) \<longrightarrow> page_buddy_dequeue (buddy (pfque s ! i)) r = Some (- ENOMEM, None, buddy (pfque s ! i))"
    proof (intro allI impI)
      fix i assume "j \<le> i \<and> i < length (pfque s)"
      then show "page_buddy_dequeue (buddy (pfque s ! i)) r = Some (- ENOMEM, None, buddy (pfque s ! i))"
        using that d e by (cases "i = j") auto
    qed
    ultimately show ?thesis using Suc.IH [of "Suc j"] Suc.prems by auto
  next
    fix pfn assume e: "rc = 0" "p = Some pfn" "in_area (pfque s ! j) pfn" "pool_inv (set_buddy s j b)"
      "(addr_of pfn, nat r) \<notin> pool_blocks s" "pool_blocks (set_buddy s j b) = insert (addr_of pfn, nat r) (pool_blocks s)"
    have jl: "j < length (pfque (set_buddy s j b))" and pa: "in_area (pfque (set_buddy s j b) ! j) pfn"
      using j e(3) by (simp_all add: in_area_def)
    note I' = pool_invD [OF e(4) jl]
    have k: "hal_pfn_to_kvaddr (set_buddy s j b) pfn = (0, Some (addr_of pfn))"
      using addr_lookup(1) [OF I'(4) jl pa I'(3)] .
    define s' where "s' = (set_buddy s j b)\<lparr>mem := memset64 (mem s) (addr_of pfn) 0 PAGE_SIZE\<rparr>"
    have "alloc_loop s r j (Suc n) = Some (0, Some (addr_of pfn), s')"
      using d e(1,2) k by (simp add: s'_def Let_def)
    moreover have "pool_inv s'" using e(4) by (simp add: s'_def pool_inv_def)
    moreover have "pool_blocks s' = insert (addr_of pfn, nat r) (pool_blocks s)"
      using e(6) by (simp add: s'_def pool_blocks_def)
    ultimately show ?thesis using e(5) by (auto simp: s'_def)
  qed
qed auto

interpretation pool: page_allocator pool_inv pool_blocks alloc_buddy_pages free_page
proof unfold_locales
  fix s r assume "pool_inv s" "0 \<le> r" "r < int PAGE_POOL_MAX_ORDER"
  from alloc_loop_ok [OF this, of 0 "length (pfque s)"] show
    "(\<exists>a s'. alloc_buddy_pages s r = Some (0, Some a, s') \<and> pool_inv s' \<and> (a, nat r) \<notin> pool_blocks s \<and>
         pool_blocks s' = insert (a, nat r) (pool_blocks s)) \<or> alloc_buddy_pages s r = Some (- ENOMEM, None, s)"
    unfolding alloc_buddy_pages_def by auto
next
  fix s a k assume "pool_inv s" "(a, k) \<in> pool_blocks s"
  from free_page_ok [OF this] show "\<exists>s'. free_page s a = Some s' \<and> pool_inv s' \<and> pool_blocks s' = pool_blocks s - {(a, k)}"
    by blast
qed

section \<open>Adding an area\<close>

lemma init_page_buddy [simp]: "init_page resv j (pfi\<lparr>buddy := b\<rparr>) = init_page resv j pfi"
  by (intro ext) (simp add: init_page_def)

lemma init_pages_eq:
  assumes "i + n \<le> length (array (buddy pfi))"
  shows "init_pages resv j pfi i n = Some (pfi\<lparr>buddy := (buddy pfi)\<lparr>array :=
     map (\<lambda>m. if i \<le> m \<and> m < i + n then init_page resv j pfi m (array (buddy pfi) ! m) else array (buddy pfi) ! m)
       [0..<length (array (buddy pfi))]\<rparr>\<rparr>)"
  using assms
proof (induction n arbitrary: i pfi)
  case 0
  have e: "(i \<le> m \<and> m < i + 0) = False" for m by auto
  show ?case unfolding e if_False map_nth by simp
next
  case (Suc n)
  define a where "a = array (buddy pfi)"
  define b where "b = (buddy pfi)\<lparr>array := a[i := init_page resv j pfi i (a ! i)]\<rparr>"
  have i: "i < length a" using Suc.prems by (simp add: a_def)
  have st: "init_pages resv j pfi i (Suc n) = init_pages resv j (pfi\<lparr>buddy := b\<rparr>) (Suc i) n"
    using i by (simp add: upd_page_def b_def a_def)
  have le: "Suc i + n \<le> length (array (buddy (pfi\<lparr>buddy := b\<rparr>)))" using Suc.prems by (simp add: b_def a_def)
  define X where "X = map (\<lambda>m. if i \<le> m \<and> m < i + Suc n then init_page resv j pfi m (a ! m) else a ! m) [0..<length a]"
  have X: "map (\<lambda>m. if Suc i \<le> m \<and> m < Suc i + n then init_page resv j pfi m (array b ! m) else array b ! m) [0..<length a] = X"
    unfolding X_def using i by (intro map_cong refl) (auto simp: b_def nth_list_update)
  have "init_pages resv j (pfi\<lparr>buddy := b\<rparr>) (Suc i) n = Some ((pfi\<lparr>buddy := b\<rparr>)\<lparr>buddy := b\<lparr>array := X\<rparr>\<rparr>)"
    unfolding Suc.IH [OF le] init_page_buddy X [symmetric] by (simp add: b_def)
  then show ?case unfolding st X_def [unfolded a_def, symmetric] by (simp add: b_def)
qed

text \<open>
  The second loop on area \<open>j\<close>: it frees the pages that are not reserved one after the
  other; those not yet visited are in use as blocks of one page.
\<close>

lemma enqueue_pages_ok:
  assumes "pool_inv s" and "j < length (pfque s)" and "length (array (buddy (pfque s ! j))) = i + n"
    and "used_idx (buddy (pfque s ! j)) = {(m, 0) | m. i \<le> m \<and> m < i + n \<and>
       pf_state (array (buddy (pfque s ! j)) ! m) AND PAGE_CSTATE_RESERVED = 0}"
    and "\<forall>m < length (array (buddy (pfque s ! j))). pf_pfn (array (buddy (pfque s ! j)) ! m) = min_pfn (pfque s ! j) + of_nat m"
  shows "\<exists>s' b'. enqueue_pages s j i n = Some s' \<and> pool_inv s' \<and> s' = set_buddy s j b' \<and> used_idx b' = {} \<and>
    same_resv (buddy (pfque s ! j)) b' \<and>
    alloc_blocks b' = alloc_blocks (buddy (pfque s ! j)) - used_idx (buddy (pfque s ! j))"
  using assms
proof (induction n arbitrary: s i)
  case 0
  then show ?case
    by (intro exI [of _ s] exI [of _ "buddy (pfque s ! j)"]) (auto simp: set_buddy_same same_resv_def)
next
  case (Suc n)
  let ?b = "buddy (pfque s ! j)"
  note I = pool_invD [OF Suc.prems(1,2)]
  have i: "i < length (array ?b)" using Suc.prems(3) by simp
  have "unat (of_nat i :: u64) = i" using i buddy_range(1) [OF I(1)] by (simp add: unat_of_nat)
  then have pg: "page_at s (j, of_nat i) = Some (array ?b ! i)" using Suc.prems(2) i by (simp add: page_at_def)
  show ?case
  proof (cases "pf_state (array ?b ! i) AND PAGE_CSTATE_RESERVED = 0")
    case True
    then have u: "(i, 0) \<in> used_idx ?b" using Suc.prems(4) by auto
    from pool_enqueue_ok [OF Suc.prems(1,2) u] obtain s1 b1 where
      s1: "pool_enqueue s j (min_pfn (pfque s ! j) + of_nat i) = Some s1" "pool_inv s1" "s1 = set_buddy s j b1"
        "used_idx b1 = used_idx ?b - {(i, 0)}" "same_resv ?b b1"
        "\<forall>m < length (array b1). pf_pfn (array b1 ! m) = min_pfn (pfque s ! j) + of_nat m"
        "alloc_blocks b1 = alloc_blocks ?b - {(i, 0)}"
      by blast
    have b1: "pfque s1 ! j = (pfque s ! j)\<lparr>buddy := b1\<rparr>" "length (pfque s1) = length (pfque s)"
      using s1(3) Suc.prems(2) by simp_all
    have "used_idx b1 = {(m, 0) | m. Suc i \<le> m \<and> m < Suc i + n \<and> pf_state (array b1 ! m) AND PAGE_CSTATE_RESERVED = 0}"
      using s1(4,5) Suc.prems(3,4) by (auto simp: same_resv_def Suc_le_eq le_less)
    then obtain s' b' where r: "enqueue_pages s1 j (Suc i) n = Some s'" "pool_inv s'" "s' = set_buddy s1 j b'"
      "used_idx b' = {}" "same_resv b1 b'" "alloc_blocks b' = alloc_blocks b1 - used_idx b1"
      using Suc.IH [of s1 "Suc i"] s1(2,5,6) b1 Suc.prems(2,3) by (auto simp: same_resv_def)
    have "enqueue_pages s j i (Suc n) = Some s'"
      using pg True s1(1) r(1) Suc.prems(5) i by simp
    moreover have "s' = set_buddy s j b'" using r(3) s1(3) Suc.prems(2) by (simp add: set_buddy_def)
    moreover have "same_resv ?b b'" using s1(5) r(5) by (simp add: same_resv_def)
    moreover have "alloc_blocks b' = alloc_blocks ?b - used_idx ?b" using r(6) s1(4,7) u by auto
    ultimately show ?thesis using r(2,4) by blast
  next
    case False
    then have "used_idx ?b = {(m, 0) | m. Suc i \<le> m \<and> m < Suc i + n \<and> pf_state (array ?b ! m) AND PAGE_CSTATE_RESERVED = 0}"
      using Suc.prems(4) by (auto simp: Suc_le_eq le_less)
    with Suc.IH [of s "Suc i"] Suc.prems obtain s' b' where
      r: "enqueue_pages s j (Suc i) n = Some s'" "pool_inv s'" "s' = set_buddy s j b'" "used_idx b' = {}" "same_resv ?b b'"
        "alloc_blocks b' = alloc_blocks ?b - used_idx ?b"
      by auto
    have "enqueue_pages s j i (Suc n) = Some s'" using pg False r(1) by simp
    with r show ?thesis by blast
  qed
qed

section \<open>Properties\<close>

text \<open>
  Registering a memory area that starts at page frame 0 always returns a
  well-formed pool: exactly the pages that are reserved or lie above \<open>max_pfn\<close> stay out of
  the allocator, every other page becomes free, and the blocks in use elsewhere are unchanged.
\<close>

theorem kcom_add_page_info_ok:
  assumes inv: "pool_inv s" and min: "min_pfn pfi = 0"
    and len: "unat (pfi_nr_pages pfi) = length (array (buddy pfi))"
    and mx: "unat (max_pfn pfi) \<le> 2 ^ 52" "length (array (buddy pfi)) < 2 ^ 64"
    and dis: "\<And>j pfn. j < length (pfque s) \<Longrightarrow> in_area (pfque s ! j) pfn \<Longrightarrow> \<not> in_area pfi pfn"
  shows "\<exists>s' pfi'. kcom_add_page_info resv s pfi = Some s' \<and> pool_inv s' \<and> pfque s' = pfque s @ [pfi'] \<and>
    pool_blocks s' = pool_blocks s \<and> alloc_blocks (buddy pfi') =
      {(i, 0) | i. i < length (array (buddy pfi)) \<and> (unat (max_pfn pfi) \<le> i \<or> resv (of_nat i))}"
proof -
  define j where "j = length (pfque s)"
  define N where "N = length (array (buddy pfi))"
  define a where "a = map (\<lambda>m. init_page resv j pfi m (array (buddy pfi) ! m)) [0..<N]"
  define b where "b = page_buddy_init a 0 (of_nat N)"
  define pfi1 where "pfi1 = pfi\<lparr>buddy := b\<rparr>"
  define s1 where "s1 = s\<lparr>pfque := pfque s @ [pfi1]\<rparr>"
  have nr: "pfi_nr_pages pfi = of_nat N" using len by (metis N_def of_nat_unat ucast_id)
  have a_len: "length a = N" by (simp add: a_def)
  have uN: "unat (of_nat m :: u64) = m" if "m \<le> N" for m using that mx(2) by (simp add: unat_of_nat N_def)
  have pg: "a ! m = init_page resv j pfi m (array (buddy pfi) ! m)" if "m < N" for m using that by (simp add: a_def)
  have a_ok: "pf_order (a ! m) = 0 \<and> pf_pfn (a ! m) = 0 + of_nat m \<and> page_cstate_not_freed (a ! m) \<and> buddyp (a ! m) = j \<and>
      (pf_state (a ! m) AND PAGE_CSTATE_RESERVED = 0 \<longleftrightarrow> m < unat (max_pfn pfi) \<and> \<not> resv (of_nat m))" if "m < N" for m
    using that min uN [of m] by (simp add: pg init_page_def Let_def page_cstate_not_freed_def word_less_nat_alt)
  have bi: "buddy_inv b" unfolding b_def a_len [symmetric] using a_len mx(2) a_ok
    by (intro init_ok) (simp_all add: N_def)
  have ar: "array b = a" "start_pfn b = 0" by (simp_all add: b_def page_buddy_init_def)
  have al: "alloc_blocks b = {(m, 0) | m. m < N}" using a_ok a_len by (auto simp: alloc_blocks_def ar)
  have ui: "used_idx b = {(m, 0) | m. m < N \<and> pf_state (a ! m) AND PAGE_CSTATE_RESERVED = 0}"
    by (auto simp: used_idx_def al ar)
  have ini: "init_pages resv j (pfi\<lparr>buddy := page_buddy_init (array (buddy pfi)) 0 (of_nat N)\<rparr>) 0 N = Some pfi1"
  proof -
    define p0 where "p0 = pfi\<lparr>buddy := page_buddy_init (array (buddy pfi)) 0 (of_nat N)\<rparr>"
    have e: "array (buddy p0) = array (buddy pfi)" "init_page resv j p0 = init_page resv j pfi"
      by (simp_all add: page_buddy_init_def p0_def)
    have "map (\<lambda>m. if 0 \<le> m \<and> m < 0 + N then init_page resv j pfi m (array (buddy pfi) ! m) else array (buddy pfi) ! m) [0..<N] = a"
      unfolding a_def by (intro map_cong refl) auto
    moreover have "p0\<lparr>buddy := (buddy p0)\<lparr>array := a\<rparr>\<rparr> = pfi1" by (simp add: p0_def pfi1_def b_def page_buddy_init_def)
    ultimately show ?thesis
      using init_pages_eq [of 0 N p0 resv j, unfolded e, folded N_def] unfolding p0_def [symmetric] by simp
  qed
  have "area_inv j pfi1" unfolding area_inv_def
    using bi mx a_ok a_len min by (auto simp: pfi1_def ar)
  moreover have "in_area pfi1 = in_area pfi" by (intro ext) (simp add: in_area_def pfi1_def)
  ultimately have i1: "pool_inv s1" using inv dis
    by (auto simp: pool_inv_def s1_def areas_disjoint_def nth_append j_def less_Suc_eq)
  have p1: "pfque s1 ! j = pfi1" "j < length (pfque s1)" "buddy pfi1 = b" "min_pfn pfi1 = 0"
    by (simp_all add: s1_def j_def pfi1_def min)
  from enqueue_pages_ok [OF i1 p1(2), of 0 N] a_len a_ok ui obtain s' b' where
    r: "enqueue_pages s1 j 0 N = Some s'" "pool_inv s'" "s' = set_buddy s1 j b'" "used_idx b' = {}" "same_resv b b'"
      "alloc_blocks b' = alloc_blocks b - used_idx b"
    unfolding p1 ar by auto
  have "kcom_add_page_info resv s pfi = Some s'"
    using ini r(1) min nr uN [of N]
    by (simp add: kcom_add_page_info_def Let_def j_def [symmetric] s1_def) (simp add: pfi1_def)
  moreover have q: "pfque s' = pfque s @ [pfi1\<lparr>buddy := b'\<rparr>]"
    unfolding r(3) set_buddy_def p1 by (simp add: s1_def j_def)
  moreover have "pool_blocks s' = pool_blocks s"
    using r(4) by (intro pool_blocks_append [OF q]) (simp add: used_blocks_def)
  moreover have "alloc_blocks b' = {(i, 0) | i. i < N \<and> (unat (max_pfn pfi) \<le> i \<or> resv (of_nat i))}"
    unfolding r(6) al ui using a_ok by auto
  ultimately show ?thesis using r(2) unfolding N_def
    by (intro exI [of _ s'] exI [of _ "pfi1\<lparr>buddy := b'\<rparr>"]) simp
qed

definition fresh_area :: "u64 \<Rightarrow> nat \<Rightarrow> page_frame_info" where
  "fresh_area m n = \<lparr>min_pfn = m, max_pfn = m + of_nat n, pfi_nr_pages = of_nat n,
     buddy = page_buddy_init
       (replicate n \<lparr>pf_state = 0, arch_state = 0, pf_pfn = 0, mapcnt = 0, pf_order = 0, buddyp = 0, slabp = None\<rparr>) 0 0\<rparr>"

definition empty_pool :: page_pool where
  "empty_pool = \<lparr>pfque = [], mem = (\<lambda>_. 1)\<rparr>"

theorem kcom_add_page_info_ok_witness:
  "\<exists>s' pfi'. kcom_add_page_info (\<lambda>_. False) empty_pool (fresh_area 0 2) = Some s' \<and> pool_inv s' \<and>
     pfque s' = pfque empty_pool @ [pfi'] \<and> pool_blocks s' = pool_blocks empty_pool \<and>
     alloc_blocks (buddy pfi') = {(i, 0) | i. i < length (array (buddy (fresh_area 0 2))) \<and>
        (unat (max_pfn (fresh_area 0 2)) \<le> i \<or> (\<lambda>_. False) (of_nat i :: u64))}"
  by (rule kcom_add_page_info_ok)
    (simp_all add: empty_pool_def fresh_area_def pool_inv_def areas_disjoint_def page_buddy_init_def)

text \<open>
  Registering an area above page frame 0 runs out of its page array: the code passes
  \<^verbatim>\<open>min_pfn + nr_pages\<close> as the number of pages of the buddy, so already the buddy of the last
  page is looked up behind the end of the array.  Shown for an area of one usable page at any
  non-zero page frame number.
\<close>

theorem kcom_add_page_info_overrun:
  assumes "0 < m" and "unat m < 2 ^ 52" and "\<not> resv m"
  shows "kcom_add_page_info resv \<lparr>pfque = [], mem = f\<rparr> (fresh_area m 1) = None"
proof -
  have pos: "0 < unat m" using assms(1) by (simp add: word_less_nat_alt)
  have lt: "m < m + 1" "\<not> m + 1 \<le> 1" using assms(2) pos
    by (simp_all add: word_less_nat_alt word_le_nat_alt unat_word_ariths)
  have "merge_loop b 0 msk 0 = None" if "length (array b) = 1" "nr_pages b = m + 1"
    "pf_order (array b ! 0) = 0" for b msk
    using that lt assms(2) pos
    by (simp add: merge_loop.simps [of b] upd_page_def arr_get_def Let_def word_less_nat_alt word_le_nat_alt unat_word_ariths)
  then have enq: "page_buddy_enqueue (Some 0) b m = None" if "length (array b) = 1" "start_pfn b = m" "nr_pages b = m + 1"
    "pf_order (array b ! 0) = 0" for b
    using that by (simp add: page_buddy_enqueue_def upd_page_def Let_def)
  show ?thesis using lt assms(3) enq
    by (simp add: kcom_add_page_info_def fresh_area_def Let_def upd_page_def init_page_def page_buddy_init_def
        page_at_def pool_enqueue_def pfn_to_page_frame_def pfn_to_page_frame_info_def pfn_to_page_frame_info_nolock_def)
qed

theorem kcom_add_page_info_overrun_witness:
  "kcom_add_page_info (\<lambda>_. False) \<lparr>pfque = [], mem = (\<lambda>_. 0)\<rparr> (fresh_area 0x100000 1) = None"
  by (rule kcom_add_page_info_overrun) simp_all

text \<open>A machine with eight free pages.\<close>

definition eight_pages :: page_pool where
  "eight_pages = \<lparr>pfque = [\<lparr>min_pfn = 0, max_pfn = 8, pfi_nr_pages = 8, buddy =
     \<lparr>array = map (\<lambda>n. \<lparr>pf_state = 0, arch_state = 0, pf_pfn = of_nat n, mapcnt = 0, pf_order = (if n = 0 then 3 else 0), buddyp = 0, slabp = None\<rparr>) [0..<8],
      start_pfn = 0, nr_pages = 8, free_nr = (replicate PAGE_POOL_MAX_ORDER 0)[3 := 1], page_list = (replicate PAGE_POOL_MAX_ORDER [])[3 := [0]]\<rparr>\<rparr>],
     mem = (\<lambda>_. 0)\<rparr>"

lemma eight_pages_ok: "pool_inv eight_pages"
proof -
  define b where "b = buddy (hd (pfque eight_pages))"
  have "buddy_ok b [0 \<mapsto> 3] {0} {}"
  proof -
    have "blocks_of [0 \<mapsto> 3] 8" by (auto simp: blocks_of_def split: if_split_asm)
    moreover have "\<not> page_cstate_not_freed (array b ! i)" if "i < 8" for i using that by (simp add: b_def eight_pages_def page_cstate_not_freed_def)
    ultimately have "pages_ok (array b) 0 8 [0 \<mapsto> 3] (dom [0 \<mapsto> 3 :: nat] - {0} - {})"
      unfolding pages_ok_def by (simp add: b_def eight_pages_def)
    moreover have "queues_ok (page_list b) (free_nr b) [0 \<mapsto> 3] {0}"
      by (auto simp: queues_ok_def b_def eight_pages_def nth_list_update)
    ultimately show ?thesis by (simp add: buddy_ok_def) (simp add: b_def eight_pages_def)
  qed
  moreover have "coalesced [0 \<mapsto> 3] {0}" using bud_neq [of 3 0] by (simp add: coalesced_def)
  ultimately have "buddy_inv b" by (auto simp: buddy_inv_def)
  then show "pool_inv eight_pages"
    by (auto simp: pool_inv_def area_inv_def areas_disjoint_def b_def) (auto simp: eight_pages_def)
qed

text \<open>The same pages, full of ones.\<close>

definition dirty_pages :: page_pool where
  "dirty_pages = eight_pages\<lparr>mem := (\<lambda>_. 1)\<rparr>"

lemma dirty_pages_ok: "pool_inv dirty_pages"
  using eight_pages_ok by (simp add: dirty_pages_def pool_inv_def)

lemma dirty_pages_alloc:
  "map_option (\<lambda>(rc, a, s). (rc, a)) (alloc_buddy_pages dirty_pages 1) = Some (0, Some 0xFFFF800000006000)"
  "pool_blocks dirty_pages = {}"
proof -
  show "map_option (\<lambda>(rc, a, s). (rc, a)) (alloc_buddy_pages dirty_pages 1) = Some (0, Some 0xFFFF800000006000)" by code_simp
  have "used_blocks (buddy (pfque dirty_pages ! 0)) = {}" by (auto simp: used_blocks_def used_idx_def alloc_blocks_def dirty_pages_def eight_pages_def page_cstate_not_freed_def)
  then show "pool_blocks dirty_pages = {}" by (simp add: pool_blocks_def) (simp add: dirty_pages_def eight_pages_def)
qed

text \<open>
  Claim C4. \<open>alloc_buddy_pages\<close> on a well-formed pool always returns: with the kernel address of a
  block that was not in use, its first page cleared and no other memory written; or with
  \<^verbatim>\<open>-ENOMEM\<close>, the pool unchanged, and then no area can serve the request.
\<close>

theorem alloc_buddy_pages_spec:
  assumes "pool_inv s" and "0 \<le> r" and "r < int PAGE_POOL_MAX_ORDER"
  shows "(\<exists>a s'. alloc_buddy_pages s r = Some (0, Some a, s') \<and> pool_inv s' \<and> (a, nat r) \<notin> pool_blocks s \<and>
       pool_blocks s' = insert (a, nat r) (pool_blocks s) \<and>
       (\<forall>x. mem s' x = (if x - a < PAGE_SIZE then 0 else mem s x))) \<or>
    alloc_buddy_pages s r = Some (- ENOMEM, None, s) \<and>
      (\<forall>i < length (pfque s). page_buddy_dequeue (buddy (pfque s ! i)) r = Some (- ENOMEM, None, buddy (pfque s ! i)))"
  using alloc_loop_ok [OF assms, of 0 "length (pfque s)"] unfolding alloc_buddy_pages_def memset64_def by auto

theorem alloc_buddy_pages_spec_witness:
  "\<exists>s'. alloc_buddy_pages dirty_pages 1 = Some (0, Some 0xFFFF800000006000, s') \<and> pool_inv s' \<and>
     pool_blocks s' = {(0xFFFF800000006000, 1)} \<and> (\<forall>x. mem s' x = (if x - 0xFFFF800000006000 < PAGE_SIZE then 0 else 1))"
proof -
  from dirty_pages_alloc(1) obtain s' where s': "alloc_buddy_pages dirty_pages 1 = Some (0, Some 0xFFFF800000006000, s')" by auto
  have "mem dirty_pages = (\<lambda>_. 1)" by (simp add: dirty_pages_def)
  then show ?thesis using alloc_buddy_pages_spec [OF dirty_pages_ok, of 1] s' dirty_pages_alloc(2) by auto
qed

text \<open>
  Claim C5. In every history of page allocations and frees of allocated addresses the pool
  stays well-formed and neither call ever gets stuck; and freeing the block a call has just
  returned gives back exactly the blocks in use before it.
\<close>

theorem page_pool_history:
  assumes "alloc_history alloc_buddy_pages free_page pool_blocks s rs s'" and "pool_inv s"
  shows "pool_inv s' \<and>
    (\<forall>r. 0 \<le> r \<and> r < int PAGE_POOL_MAX_ORDER \<longrightarrow> alloc_buddy_pages s' r \<noteq> None \<and>
       (\<forall>a s1. alloc_buddy_pages s' r = Some (0, Some a, s1) \<longrightarrow>
          (\<exists>s2. free_page s1 a = Some s2 \<and> pool_inv s2 \<and> pool_blocks s2 = pool_blocks s'))) \<and>
    (\<forall>(a, k) \<in> pool_blocks s'. free_page s' a \<noteq> None)"
proof -
  have inv: "pool_inv s'" using assms by (rule pool.history_inv)
  show ?thesis using inv pool.history_progress [OF assms] pool.alloc_free [OF inv] by blast
qed

theorem page_pool_history_witness:
  "\<exists>s1 s2. alloc_history alloc_buddy_pages free_page pool_blocks dirty_pages [Alloc 1] s1 \<and> pool_blocks s1 = {(0xFFFF800000006000, 1)} \<and>
     alloc_history alloc_buddy_pages free_page pool_blocks dirty_pages [Alloc 1, Free 0xFFFF800000006000] s2 \<and> pool_inv s2 \<and> pool_blocks s2 = {}"
proof -
  let ?h = "alloc_history alloc_buddy_pages free_page pool_blocks dirty_pages" and ?a = "0xFFFF800000006000"
  from dirty_pages_alloc(1) obtain s1 where s1: "alloc_buddy_pages dirty_pages 1 = Some (0, Some ?a, s1)" by auto
  have h0: "?h [] dirty_pages" by (rule history_Nil)
  have h1: "?h ([] @ [Alloc 1]) s1" using history_Alloc [OF h0 _ _ s1] by simp
  have b1: "pool_blocks s1 = {(?a, 1)}" using pool.alloc_ok [OF dirty_pages_ok, of 1] s1 dirty_pages_alloc(2) by simp
  have "\<forall>a s1. alloc_buddy_pages dirty_pages 1 = Some (0, Some a, s1) \<longrightarrow> (\<exists>s2. free_page s1 a = Some s2 \<and> pool_inv s2 \<and> pool_blocks s2 = pool_blocks dirty_pages)"
  proof -
    have "0 \<le> (1 :: int) \<and> 1 < int PAGE_POOL_MAX_ORDER" by simp
    then show ?thesis using page_pool_history [OF h0 dirty_pages_ok] by blast
  qed
  then obtain s2 where s2: "free_page s1 ?a = Some s2" "pool_blocks s2 = {}" unfolding dirty_pages_alloc(2) using s1 by blast
  have h2: "?h (([] @ [Alloc 1]) @ [Free ?a]) s2" using history_Free [OF h1 _ s2(1), of 1] b1 by simp
  show ?thesis using h1 h2 b1 s2(2) page_pool_history [OF h2 dirty_pages_ok] by auto
qed

text \<open>
  \<open>page_release_reservation\<close> of a reserved page returns 0 and makes exactly this page's
  block free, in a pool that stays well-formed; a second release of the same page frame
  number returns \<^verbatim>\<open>-EINVAL\<close>, and the release of a number outside every area \<^verbatim>\<open>-ENOENT\<close>,
  both without effect.
\<close>

theorem page_release_reservation_spec:
  assumes inv: "pool_inv s" and j: "j < length (pfque s)" and i: "(i, k) \<in> alloc_blocks (buddy (pfque s ! j))"
    and pfn: "pfn = min_pfn (pfque s ! j) + of_nat i" and area: "in_area (pfque s ! j) pfn"
    and resv: "pf_state (array (buddy (pfque s ! j)) ! i) AND PAGE_CSTATE_RESERVED \<noteq> 0"
  shows "\<exists>s' b'. page_release_reservation s pfn = Some (0, s') \<and> s' = set_buddy s j b' \<and> pool_inv s' \<and>
    alloc_blocks b' = alloc_blocks (buddy (pfque s ! j)) - {(i, k)} \<and>
    page_release_reservation s' pfn = Some (- EINVAL, s') \<and>
    (\<forall>p. (\<forall>m < length (pfque s). \<not> in_area (pfque s ! m) p) \<longrightarrow> page_release_reservation s p = Some (- ENOENT, s))"
proof -
  let ?b = "buddy (pfque s ! j)" and ?m = "min_pfn (pfque s ! j)"
  note I = pool_invD [OF inv j]
  have il: "i < length (array ?b)" using i by (rule alloc_blocks_lt)
  have ui: "unat (of_nat i :: u64) = i" using il buddy_range(1) [OF I(1)] by (simp add: unat_of_nat)
  have um: "unat ?m + i < 2 ^ 64" using il buddy_range(1) [OF I(1)] I(2) by simp
  then have lt: "unat ?m + i < unat (max_pfn (pfque s ! j))"
    using area ui by (simp add: in_area_def pfn word_less_nat_alt unat_word_ariths)
  from release_ok [OF I(1) i] obtain b' where
    e: "page_buddy_enqueue (Some (of_nat i)) (clear_reserved ?b i) pfn = Some b'" "buddy_inv b'" "start_pfn b' = start_pfn ?b"
      "alloc_blocks b' = alloc_blocks ?b - {(i, k)}" "same_but_order (array (clear_used (clear_reserved ?b i) i)) (array b')"
    using I(2) pfn by auto
  define s1 where "s1 = set_buddy s j (clear_reserved ?b i)"
  have s1: "pfque s1 ! j = (pfque s ! j)\<lparr>buddy := clear_reserved ?b i\<rparr>" "length (pfque s1) = length (pfque s)"
    using j by (simp_all add: s1_def)
  have lk: "pfn_to_page_frame s pfn = (0, Some (j, of_nat i))" using lookup_eq(1) [OF I(4) j area] pfn by simp
  have dis1: "areas_disjoint (pfque s1)" using I(4) j by (simp add: areas_disjoint_def s1_def)
  have "in_area (pfque s1 ! j) pfn" using area j s1 by (simp add: in_area_def)
  then have lk1: "pfn_to_page_frame s1 pfn = (0, Some (j, of_nat i))"
    using lookup_eq(1) [OF dis1, of j pfn] j s1 pfn by simp
  have enq: "pool_enqueue s1 j pfn = Some (set_buddy s j b')"
    using j s1 lk1 e(1) by (simp add: pool_enqueue_def) (simp add: s1_def set_buddy_def)
  have upd: "page_update s (j, of_nat i) (pf_state_update (\<lambda>st. st AND NOT PAGE_CSTATE_RESERVED)) = Some s1"
    using j il ui by (simp add: page_update_def upd_page_def s1_def clear_reserved_def pf_state_update_eq [of "\<lambda>st. st AND - 3"])
  have pg: "page_at s (j, of_nat i) = Some (array ?b ! i)" using j il ui by (simp add: page_at_def)
  have pf: "pf_pfn (array ?b ! i) = pfn" using I(1,2) il pfn by (auto simp: buddy_inv_def buddy_ok_def pages_ok_def)
  have rel: "page_release_reservation s pfn = Some (0, set_buddy s j b')"
    using lk pg resv upd enq I(5) [OF il] pf by (simp add: page_release_reservation_def)
  define a where "a = array (clear_used (clear_reserved ?b i) i)"
  have A: "same_but_order a (array b')" using e(5) by (simp add: a_def)
  have al: "length a = length (array ?b)" by (simp add: a_def clear_used_def clear_reserved_def)
  have page: "buddyp (array b' ! m) = buddyp (array ?b ! m)"
    "m \<noteq> i \<Longrightarrow> pf_state (array b' ! m) = pf_state (array ?b ! m)" if "m < length (array ?b)" for m
    using that same_but_orderD(2) [OF A, of m] same_but_order_buddyp(1) [OF A, of m] al
    by (cases "m = i"; simp add: a_def clear_used_def clear_reserved_def)+
  have "pf_state (array b' ! i) = (pf_state (array ?b ! i) AND NOT PAGE_CSTATE_RESERVED) AND NOT PAGE_CSTATE_USED"
    using same_but_orderD(2) [OF A, of i] al il by (simp add: a_def clear_used_def clear_reserved_def)
  then have st: "pf_state (array b' ! i) AND PAGE_CSTATE_RESERVED = 0"
    by (simp add: and.assoc)
  have al': "length (array b') = length (array ?b)" using same_but_orderD(1) [OF A] al by simp
  have inv': "pool_inv (set_buddy s j b')"
    unfolding pool_inv_def
  proof (intro conjI allI impI)
    show "areas_disjoint (pfque (set_buddy s j b'))" using I(4) j by (simp add: areas_disjoint_def)
    fix m assume m: "m < length (pfque (set_buddy s j b'))"
    then have am: "area_inv m (pfque s ! m)" using inv by (simp add: pool_inv_def)
    show "area_inv m (pfque (set_buddy s j b') ! m)"
    proof (cases "m = j")
      case True
      have "pf_state (array b' ! x) AND PAGE_CSTATE_RESERVED \<noteq> 0"
        if "x < length (array ?b)" "unat (max_pfn (pfque s ! j)) \<le> unat ?m + x" for x
      proof -
        have "x \<noteq> i" using that(2) lt by auto
        then show ?thesis using am True that page(2) [of x] by (simp add: area_inv_def)
      qed
      then show ?thesis using am True j e(2,3) al' page(1) by (simp add: area_inv_def)
    qed (use am j in simp)
  qed
  have "page_release_reservation (set_buddy s j b') pfn = Some (- EINVAL, set_buddy s j b')"
  proof -
    have "in_area (pfque (set_buddy s j b') ! j) pfn" using area j by (simp add: in_area_def)
    moreover have "areas_disjoint (pfque (set_buddy s j b'))" using pool_invD(4) [OF inv', of j] j by simp
    ultimately have "pfn_to_page_frame (set_buddy s j b') pfn = (0, Some (j, of_nat i))"
      using lookup_eq(1) [of "set_buddy s j b'" j pfn] j pfn by simp
    then show ?thesis using j il al' ui st by (simp add: page_release_reservation_def page_at_def)
  qed
  moreover have "page_release_reservation s p = Some (- ENOENT, s)" if "\<forall>m < length (pfque s). \<not> in_area (pfque s ! m) p" for p
    using find_pfi_None [OF that]
    by (simp add: page_release_reservation_def pfn_to_page_frame_def pfn_to_page_frame_info_def pfn_to_page_frame_info_nolock_def)
  ultimately show ?thesis using rel inv' e(4) by blast
qed

text \<open>A pool with one area of two pages, page 0 reserved and page 1 in use and mapped once.\<close>

definition small_pool :: page_pool where
  "small_pool = \<lparr>pfque = [\<lparr>min_pfn = 0, max_pfn = 2, pfi_nr_pages = 2, buddy = page_buddy_init
     (map (\<lambda>n. \<lparr>pf_state = (if n = 0 then PAGE_CSTATE_RESERVED else PAGE_CSTATE_USED), arch_state = 0, pf_pfn = n, mapcnt = 1,
        pf_order = 0, buddyp = 0, slabp = None\<rparr>) [0, 1]) 0 2\<rparr>], mem = (\<lambda>_. 0)\<rparr>"

lemma small_pool_inv: "pool_inv small_pool"
proof -
  have "buddy_inv (page_buddy_init (array (buddy (pfque small_pool ! 0))) 0 (of_nat (length (array (buddy (pfque small_pool ! 0))))))"
    by (rule init_ok) (auto simp: small_pool_def page_buddy_init_def page_cstate_not_freed_def less_Suc_eq)
  then show ?thesis
    by (auto simp: pool_inv_def area_inv_def areas_disjoint_def small_pool_def page_buddy_init_def less_Suc_eq)
qed

theorem page_release_reservation_spec_witness:
  "\<exists>s' b'. page_release_reservation small_pool 0 = Some (0, s') \<and> s' = set_buddy small_pool 0 b' \<and> pool_inv s' \<and>
    alloc_blocks b' = alloc_blocks (buddy (pfque small_pool ! 0)) - {(0, 0)} \<and>
    page_release_reservation s' 0 = Some (- EINVAL, s') \<and>
    (\<forall>p. (\<forall>m < length (pfque small_pool). \<not> in_area (pfque small_pool ! m) p) \<longrightarrow>
       page_release_reservation small_pool p = Some (- ENOENT, small_pool))"
  by (rule page_release_reservation_spec [OF small_pool_inv])
    (auto simp: small_pool_def page_buddy_init_def alloc_blocks_def in_area_def page_cstate_not_freed_def)

text \<open>
  Dropping the last mapping of a page loses it: \<open>dec_page_map_count\<close> clears the used bit
  but does not give the page to the allocator, so the page is neither in use nor free, the
  number of free pages does not grow and the pool is no longer well-formed.
\<close>

theorem dec_page_map_count_leaks:
  assumes inv: "pool_inv s" and j: "j < length (pfque s)" and i: "(i, k) \<in> used_idx (buddy (pfque s ! j))"
    and cnt: "mapcnt (array (buddy (pfque s ! j)) ! i) = 1"
  shows "\<exists>s'. dec_page_map_count s (addr_of (min_pfn (pfque s ! j) + of_nat i)) = Some s' \<and>
    (i, k) \<notin> used_idx (buddy (pfque s' ! j)) \<and> kcom_refer_free_pages s' = kcom_refer_free_pages s \<and> \<not> pool_inv s'"
proof -
  let ?b = "buddy (pfque s ! j)"
  note I = pool_invD [OF inv j]
  have ia: "(i, k) \<in> alloc_blocks ?b" and resv: "pf_state (array ?b ! i) AND PAGE_CSTATE_RESERVED = 0"
    using i by (auto simp: used_idx_def)
  have il: "i < length (array ?b)" using ia by (rule alloc_blocks_lt)
  have ui: "unat (of_nat i :: u64) = i" using il buddy_range(1) [OF I(1)] by (simp add: unat_of_nat)
  note area = page_in_area(1) [OF inv j il resv]
  have lk: "kvaddr_to_page_frame s (addr_of (min_pfn (pfque s ! j) + of_nat i)) = (0, Some (j, of_nat i))"
    using addr_lookup(3) [OF I(4) j area I(3)] by simp
  define pg where "pg = (array ?b ! i)\<lparr>mapcnt := 0, pf_state := pf_state (array ?b ! i) AND NOT PAGE_CSTATE_USED\<rparr>"
  define b' where "b' = ?b\<lparr>array := (array ?b)[i := pg]\<rparr>"
  have dec: "dec_page_map_count s (addr_of (min_pfn (pfque s ! j) + of_nat i)) = Some (set_buddy s j b')"
    using lk j il ui cnt by (simp add: dec_page_map_count_def page_update_def upd_page_def b'_def pg_def Let_def)
  have free: "\<not> page_cstate_not_freed pg"
    using clear_used_bits [OF resv] by (simp add: page_cstate_not_freed_def pg_def)
  have al: "alloc_blocks b' = alloc_blocks ?b - {(i, k)}"
    using free ia il by (auto simp: alloc_blocks_def b'_def nth_list_update split: if_splits)
  have gf: "page_buddy_get_free b' = page_buddy_get_free ?b" by (simp add: page_buddy_get_free_def b'_def)
  have "\<not> buddy_inv b'"
  proof
    assume B': "buddy_inv b'"
    have "finite (alloc_blocks ?b)" by (auto simp: alloc_blocks_def)
    then have "(\<Sum>(i, k) \<in> alloc_blocks ?b. 2 ^ k) = 2 ^ k + (\<Sum>(i, k) \<in> alloc_blocks b'. (2 :: nat) ^ k)"
      unfolding al using ia by (simp add: sum.remove)
    moreover have "length (array b') = length (array ?b)" by (simp add: b'_def)
    ultimately have "(2 :: nat) ^ k = 0"
      using free_and_used_pages [OF B'] free_and_used_pages [OF I(1)] unfolding gf by linarith
    then show False by simp
  qed
  then have "\<not> pool_inv (set_buddy s j b')" using pool_invD(1) [of "set_buddy s j b'" j] j by auto
  moreover have "(i, k) \<notin> used_idx (buddy (pfque (set_buddy s j b') ! j))" using al j by (auto simp: used_idx_def)
  moreover have "kcom_refer_free_pages (set_buddy s j b') = kcom_refer_free_pages s"
    using j gf by (simp add: kcom_refer_free_pages_def set_buddy_def map_update)
      (metis (mono_tags, lifting) length_map list_update_id nth_map)
  ultimately show ?thesis using dec by blast
qed

theorem dec_page_map_count_leaks_witness:
  "\<exists>s'. dec_page_map_count small_pool (addr_of (min_pfn (pfque small_pool ! 0) + of_nat 1)) = Some s' \<and>
    (1, 0) \<notin> used_idx (buddy (pfque s' ! 0)) \<and> kcom_refer_free_pages s' = kcom_refer_free_pages small_pool \<and> \<not> pool_inv s'"
  by (rule dec_page_map_count_leaks [OF small_pool_inv])
    (auto simp: small_pool_def page_buddy_init_def used_idx_def alloc_blocks_def page_cstate_not_freed_def)

end
