(* ===== verification/Page_Owner.thy ===== *)
theory Page_Owner
  imports Page_Pool
begin

text \<open>
  The slab a page belongs to: every page frame has a field \<^verbatim>\<open>slabp\<close>, which the slab caches of
  \<^verbatim>\<open>src/page/page-kmcache.c\<close> set for the pages of a slab and look up by the address of an object.
  The buddies never touch it.  This theory relates the field to addresses: the bytes of a block in
  use belong to pages of that block, and marking the pages of a block changes the owner of its bytes
  and of nothing else.
\<close>

section \<open>The buddies keep the owners\<close>

definition slab_col :: "page_buddy \<Rightarrow> u64 option list" where
  "slab_col b = map slabp (array b)"

lemma slab_col_simps [simp]:
  "slab_col (free_nr_add b k d) = slab_col b" "slab_col (plist_add b k i) = slab_col b" "slab_col (plist_del b i) = slab_col b"
  "slab_col (b\<lparr>page_list := pl\<rparr>) = slab_col b"
  by (simp_all add: slab_col_def free_nr_add_def plist_add_def plist_del_def)

lemma upd_page_col:
  assumes "upd_page b i f = Some b'" and "\<And>p. slabp (f p) = slabp p"
  shows "slab_col b' = slab_col b"
proof -
  from assms(1) have i: "i < length (array b)" "b' = b\<lparr>array := (array b)[i := f (array b ! i)]\<rparr>"
    by (auto simp: upd_page_def bind_eq_Some_conv dest: arr_get_SomeD)
  have "(map slabp (array b))[i := slabp (array b ! i)] = map slabp (array b)"
    using i(1) by (metis list_update_id nth_map)
  then show ?thesis by (simp add: i(2) slab_col_def map_update assms(2))
qed

lemma split_loop_col: "split_loop b rm sz c r = Some (i, b') \<Longrightarrow> slab_col b' = slab_col b"
proof (induction b rm sz c r rule: split_loop.induct)
  case (1 b rm sz c r)
  show ?case
  proof (cases "r < c")
    case True
    from 1(2) [unfolded split_loop.simps [of b rm sz c r]] True obtain b1 p b2 where s: "upd_page b rm (pf_order_update (\<lambda>_. c - 1)) = Some b1" "arr_get (array b1) rm = Some p"
      "\<not> page_cstate_not_freed p"
      "upd_page (free_nr_add (plist_add b1 (c - 1) rm) (c - 1) 1) (rm + sz div 2) (pf_order_update (\<lambda>_. c - 1)) = Some b2"
      "split_loop b2 (rm + sz div 2) (sz div 2) (c - 1) r = Some (i, b')"
      by (auto simp: Let_def bind_eq_Some_conv split: if_splits)
    have "slab_col b' = slab_col b2" using 1(1) True s by (auto simp: Let_def)
    also have "\<dots> = slab_col b1" using upd_page_col [OF s(4)] by simp
    also have "\<dots> = slab_col b" using upd_page_col [OF s(1)] by simp
    finally show ?thesis .
  next
    case False
    then show ?thesis using 1(2) by (simp add: split_loop.simps)
  qed
qed

lemma merge_loop_col: "merge_loop b c msk i = Some (i', b') \<Longrightarrow> slab_col b' = slab_col b"
proof (induction b c msk i rule: merge_loop.induct)
  case (1 b c msk i)
  show ?case
  proof (cases "c < PAGE_POOL_MAX_ORDER")
    case False
    then show ?thesis using 1(2) by (simp add: merge_loop.simps)
  next
    case True
    note run = 1(2) [unfolded merge_loop.simps [of b c msk i]]
    from run True obtain b1 where b1: "i < nr_pages b" "upd_page b (unat i) (pf_order_update (\<lambda>_. c)) = Some b1"
      by (auto simp: bind_eq_Some_conv split: if_splits)
    have col: "slab_col b1 = slab_col b" using upd_page_col [OF b1(2)] by simp
    show ?thesis
    proof (cases "b' = b1")
      case False
      define bi where "bi = i XOR push_bit c 1"
      from run True b1 False obtain bp where n: "\<not> PAGE_POOL_MAX_ORDER - 1 \<le> c" "\<not> nr_pages b1 \<le> bi"
        "arr_get (array b1) (unat bi) = Some bp" "c = pf_order bp" "\<not> page_cstate_not_freed bp"
        "merge_loop (free_nr_add (plist_del b1 (unat bi)) (pf_order bp) (- 1)) (c + 1) (push_bit 1 msk) (i AND push_bit 1 msk) = Some (i', b')"
        by (auto simp: bind_eq_Some_conv Let_def bi_def split: if_splits)
      have "slab_col b' = slab_col (free_nr_add (plist_del b1 (unat bi)) (pf_order bp) (- 1))"
        by (rule 1(1) [OF True _ b1(2) n(1) refl, folded bi_def]) (use b1 n in auto)
      then show ?thesis using col by simp
    qed (use col in simp)
  qed
qed



lemma remove_page_col: "remove_page_from_page_queue b rm r c = Some (i, b') \<Longrightarrow> slab_col b' = slab_col b"
  by (auto simp: remove_page_from_page_queue_def bind_eq_Some_conv split: if_splits dest: split_loop_col)

lemma dequeue_loop_col: "dequeue_loop b r c = Some (rc, p, b') \<Longrightarrow> slab_col b' = slab_col b"
proof (induction b r c rule: dequeue_loop.induct)
  case (1 b r c)
  note run = 1(2) [unfolded dequeue_loop.simps [of b r c]]
  show ?case
  proof (cases "c < PAGE_POOL_MAX_ORDER")
    case False
    then show ?thesis using run by simp
  next
    case True
    show ?thesis
    proof (cases "page_list b ! c")
      case Nil
      then show ?thesis using 1(1) [OF True Nil] run True by simp
    next
      case (Cons i q)
      define b0 where "b0 = free_nr_add (b\<lparr>page_list := (page_list b)[c := q]\<rparr>) c (- 1)"
      from run True Cons obtain cur b1 b2 where
        r: "remove_page_from_page_queue b0 i r c = Some (cur, b1)"
          "upd_page b1 cur (pf_state_update (\<lambda>s. s OR PAGE_CSTATE_USED)) = Some b2" "b' = b2"
        unfolding b0_def by (auto simp: bind_eq_Some_conv Let_def split: if_splits)
      have "slab_col b' = slab_col b1" using upd_page_col [OF r(2)] r(3) by simp
      also have "\<dots> = slab_col b" using remove_page_col [OF r(1)] by (simp add: b0_def)
      finally show ?thesis .
    qed
  qed
qed

lemma dequeue_col: "page_buddy_dequeue b r = Some (rc, p, b') \<Longrightarrow> slab_col b' = slab_col b"
  by (auto simp: page_buddy_dequeue_def split: if_splits dest: dequeue_loop_col)

lemma enqueue_col:
  assumes "page_buddy_enqueue req b pfn = Some b'"
  shows "slab_col b' = slab_col b"
proof (cases req)
  case None
  then show ?thesis using assms by (auto simp: page_buddy_enqueue_def bind_eq_Some_conv split: if_splits)
next
  case (Some i)
  define f :: "page_frame \<Rightarrow> page_frame" where "f = pf_state_update (\<lambda>s. s AND NOT PAGE_CSTATE_USED)"
  from assms [unfolded page_buddy_enqueue_def, folded f_def] Some obtain b1 c msk i2 b2 k where e: "upd_page b (unat i) f = Some b1"
    "merge_loop b1 c msk i = Some (i2, b2)" "b' = free_nr_add (plist_add b2 k (unat i2)) k 1"
    by (auto simp: bind_eq_Some_conv Let_def split: if_splits)
  show ?thesis using upd_page_col [OF e(1)] merge_loop_col [OF e(2)] by (simp add: e(3) f_def)
qed

section \<open>Owners in the pool\<close>

definition page_owner :: "page_pool \<Rightarrow> u64 \<Rightarrow> u64 option" where
  "page_owner s addr = (case kvaddr_to_page_frame s addr of
     (_, None) \<Rightarrow> None
   | (_, Some p) \<Rightarrow> (case page_at s p of None \<Rightarrow> None | Some pg \<Rightarrow> slabp pg))"

text \<open>The areas and the owners of all their pages are the same.\<close>

definition same_owners :: "page_pool \<Rightarrow> page_pool \<Rightarrow> bool" where
  "same_owners s s' \<longleftrightarrow> map min_pfn (pfque s') = map min_pfn (pfque s) \<and> map max_pfn (pfque s') = map max_pfn (pfque s) \<and>
     map (slab_col \<circ> buddy) (pfque s') = map (slab_col \<circ> buddy) (pfque s)"

lemma same_owners_refl [simp]: "same_owners s s"
  by (simp add: same_owners_def)

lemma same_owners_trans: "same_owners s s' \<Longrightarrow> same_owners s' s'' \<Longrightarrow> same_owners s s''"
  by (simp add: same_owners_def)

lemma map_update_same: "j < length xs \<Longrightarrow> (map f xs)[j := f (xs ! j)] = map f xs"
  by (metis list_update_id nth_map)

lemma set_buddy_owners:
  assumes "j < length (pfque s)" and "slab_col b = slab_col (buddy (pfque s ! j))"
  shows "same_owners s (set_buddy s j b)"
  using assms map_update_same [OF assms(1), of "slab_col \<circ> buddy"]
  by (simp add: same_owners_def set_buddy_def map_update map_update_same)

lemma alloc_loop_owners:
  "alloc_loop s r j n = Some (rc, p, s') \<Longrightarrow> j + n = length (pfque s) \<Longrightarrow> same_owners s s'"
proof (induction n arbitrary: s j)
  case (Suc n)
  obtain rc1 p1 b where d: "page_buddy_dequeue (buddy (pfque s ! j)) r = Some (rc1, p1, b)"
    using Suc.prems(1) by (auto simp: bind_eq_Some_conv)
  have j: "j < length (pfque s)" using Suc.prems(2) by simp
  have so: "same_owners s (set_buddy s j b)" using set_buddy_owners [OF j dequeue_col [OF d]] .
  show ?case
  proof (cases "rc1 = 0")
    case True
    from Suc.prems(1) d True obtain pfn where p1: "p1 = Some pfn" by (auto simp: bind_eq_Some_conv Let_def)
    obtain rc2 ka where "hal_pfn_to_kvaddr (set_buddy s j b) pfn = (rc2, ka)" by (cases "hal_pfn_to_kvaddr (set_buddy s j b) pfn")
    then obtain m where "s' = (set_buddy s j b)\<lparr>mem := m\<rparr>"
      using Suc.prems(1) d True p1 by (auto simp: bind_eq_Some_conv Let_def split: if_splits)
    then show ?thesis using so by (simp add: same_owners_def)
  next
    case False
    then have "alloc_loop (set_buddy s j b) r (Suc j) n = Some (rc, p, s')" using Suc.prems(1) d by simp
    from Suc.IH [OF this] Suc.prems(2) same_owners_trans [OF so] show ?thesis by simp
  qed
qed simp

lemma alloc_owners: "alloc_buddy_pages s r = Some (rc, p, s') \<Longrightarrow> same_owners s s'"
  unfolding alloc_buddy_pages_def by (erule alloc_loop_owners) simp

lemma free_page_owners:
  assumes "free_page s a = Some s'"
  shows "same_owners s s'"
proof -
  from assms obtain j pfn where "pool_enqueue s j pfn = Some s'"
    by (auto simp: free_page_def bind_eq_Some_conv split: prod.splits option.splits)
  moreover obtain rc q where "pfn_to_page_frame s pfn = (rc, q)" by (cases "pfn_to_page_frame s pfn")
  ultimately obtain req pfi b where e: "arr_get (pfque s) j = Some pfi" "page_buddy_enqueue req (buddy pfi) pfn = Some b" "s' = set_buddy s j b"
    by (cases q) (auto simp: pool_enqueue_def bind_eq_Some_conv split: if_splits)
  have j: "j < length (pfque s)" "pfque s ! j = pfi" using arr_get_SomeD [OF e(1)] by auto
  show ?thesis unfolding e(3) by (rule set_buddy_owners) (use j enqueue_col [OF e(2)] in simp_all)
qed

lemma find_pfi_cong:
  "map min_pfn xs = map min_pfn ys \<Longrightarrow> map max_pfn xs = map max_pfn ys \<Longrightarrow> find_pfi xs pfn n = find_pfi ys pfn n"
proof (induction xs arbitrary: ys n)
  case (Cons x xs)
  then obtain y ys' where "ys = y # ys'" by (cases ys) auto
  then show ?case using Cons by auto
qed simp

lemma find_pfi_Some: "find_pfi xs pfn n = Some j \<Longrightarrow> n \<le> j \<and> j - n < length xs"
  by (induction xs arbitrary: n) (force split: if_splits)+

lemma same_owners_lookup:
  assumes "same_owners s s'"
  shows "kvaddr_to_page_frame s' a = kvaddr_to_page_frame s a" and "page_owner s' a = page_owner s a"
proof -
  have mn: "map min_pfn (pfque s') = map min_pfn (pfque s)" and mx: "map max_pfn (pfque s') = map max_pfn (pfque s)"
    and col: "map (slab_col \<circ> buddy) (pfque s') = map (slab_col \<circ> buddy) (pfque s)" using assms by (auto simp: same_owners_def)
  have len: "length (pfque s') = length (pfque s)" using mn by (metis length_map)
  have f: "find_pfi (pfque s') pfn 0 = find_pfi (pfque s) pfn 0" for pfn using mn mx by (rule find_pfi_cong)
  have m: "min_pfn (pfque s' ! j) = min_pfn (pfque s ! j)" if "j < length (pfque s)" for j
    using mn that len by (metis nth_map)
  show k: "kvaddr_to_page_frame s' a = kvaddr_to_page_frame s a"
    using m find_pfi_Some [of "pfque s" "drop_bit PAGE_SHIFT (kern_straight_to_phy a)" 0]
    by (auto simp: kvaddr_to_page_frame_def hal_kvaddr_to_pfn_def kcom_is_pfn_valid_def pfn_to_page_frame_info_def
        pfn_to_page_frame_info_nolock_def f Let_def split: option.splits)
  have at: "map_option slabp (page_at s' p) = map_option slabp (page_at s p)" for p
  proof (cases "fst p < length (pfque s)")
    case True
    then have c: "slab_col (buddy (pfque s' ! fst p)) = slab_col (buddy (pfque s ! fst p))" using col len by (metis comp_apply nth_map)
    then have l: "length (array (buddy (pfque s' ! fst p))) = length (array (buddy (pfque s ! fst p)))"
      unfolding slab_col_def by (metis length_map)
    show ?thesis
    proof (cases "unat (snd p) < length (array (buddy (pfque s ! fst p)))")
      case u: True
      then have "slabp (array (buddy (pfque s' ! fst p)) ! unat (snd p)) = slabp (array (buddy (pfque s ! fst p)) ! unat (snd p))"
        using c l unfolding slab_col_def by (metis nth_map)
      then show ?thesis using True len l u by (simp add: page_at_def)
    next
      case False
      then show ?thesis using True len l by (simp add: page_at_def arr_get_def)
    qed
  qed (use len in \<open>simp add: page_at_def arr_get_def\<close>)
  show "page_owner s' a = page_owner s a"
    unfolding page_owner_def k using at by (auto split: prod.splits option.splits) (metis option.map(1,2) option.inject option.distinct(1))+
qed


section \<open>The bytes of a block\<close>

text \<open>All pages of the pool lie in the part of the address space that maps physical memory.\<close>

definition straight :: "page_pool \<Rightarrow> bool" where
  "straight s \<longleftrightarrow> (\<forall>m \<in> set (map max_pfn (pfque s)). unat m < 2 ^ 35)"

lemma straight_owners: "same_owners s s' \<Longrightarrow> straight s' = straight s"
  by (simp add: straight_def same_owners_def del: set_map)

definition block_bytes :: "u64 \<Rightarrow> nat \<Rightarrow> u64 set" where
  "block_bytes a k = {x. unat a \<le> unat x \<and> unat x < unat a + 4096 * 2 ^ k}"

lemma pfn_of_byte:
  assumes "unat pfn + x div 4096 < 2 ^ 52"
  shows "drop_bit PAGE_SHIFT (kern_straight_to_phy (addr_of pfn + of_nat x)) = pfn + of_nat (x div 4096)"
proof -
  have k: "kern_straight_to_phy (addr_of pfn + of_nat x) = push_bit PAGE_SHIFT pfn + of_nat x"
    by (simp add: kern_straight_to_phy_def addr_of_def phy_to_kern_straight_def)
  have lt: "unat pfn * 4096 + x < 2 ^ 64" using assms by simp
  have "unat (push_bit PAGE_SHIFT pfn :: u64) = unat pfn * 4096"
    using lt by (simp add: push_bit_eq_mult unat_word_ariths)
  then have u: "unat (push_bit PAGE_SHIFT pfn + of_nat x :: u64) = unat pfn * 4096 + x"
    using lt by (simp add: unat_word_ariths unat_of_nat)
  have "unat (drop_bit PAGE_SHIFT (push_bit PAGE_SHIFT pfn + of_nat x :: u64)) = unat pfn + x div 4096"
    unfolding unat_drop_bit_eq u by (simp add: drop_bit_eq_div)
  moreover have "unat (pfn + of_nat (x div 4096)) = unat pfn + x div 4096"
    using assms by (simp add: unat_word_ariths unat_of_nat)
  ultimately show ?thesis unfolding k by (simp add: word_unat_eq_iff)
qed

lemma addr_of_unat:
  assumes "unat pfn < 2 ^ 35"
  shows "unat (addr_of pfn) = unat pfn * 4096 + unat KERN_VMA_BASE"
proof -
  have "unat (push_bit PAGE_SHIFT pfn :: u64) = unat pfn * 4096"
    using assms by (simp add: push_bit_eq_mult unat_word_ariths)
  then show ?thesis using assms by (simp add: addr_of_def phy_to_kern_straight_def unat_word_ariths)
qed

lemma block_pages:
  assumes inv: "pool_inv s" and j: "j < length (pfque s)" and u: "(i, k) \<in> used_idx (buddy (pfque s ! j))" and m: "m < 2 ^ k"
  shows "i + m < length (array (buddy (pfque s ! j)))" and "k < PAGE_POOL_MAX_ORDER"
    and "in_area (pfque s ! j) (min_pfn (pfque s ! j) + of_nat (i + m))"
    and "unat (min_pfn (pfque s ! j) + of_nat (i + m)) = unat (min_pfn (pfque s ! j)) + (i + m)"
proof -
  let ?b = "buddy (pfque s ! j)"
  have ab: "(i, k) \<in> alloc_blocks ?b" and st: "pf_state (array ?b ! i) AND PAGE_CSTATE_RESERVED = 0" using u by (auto simp: used_idx_def)
  note al = alloc_blocks_aligned [OF pool_invD(1) [OF inv j] ab]
  then show lt: "i + m < length (array ?b)" and "k < PAGE_POOL_MAX_ORDER" using m by auto
  have "pf_state (array ?b ! (i + m)) AND PAGE_CSTATE_RESERVED = 0"
  proof (cases "page_cstate_not_freed (array ?b ! (i + m))")
    case False
    then show ?thesis using state_bits(1) by (simp add: page_cstate_not_freed_def)
  next
    case True
    then have a2: "(i + m, pf_order (array ?b ! (i + m))) \<in> alloc_blocks ?b" using lt by (auto simp: alloc_blocks_def)
    have "i + m \<in> {i..<i + 2 ^ k} \<inter> {i + m..<i + m + 2 ^ pf_order (array ?b ! (i + m))}" using m by simp
    then have "(i + m, pf_order (array ?b ! (i + m))) = (i, k)"
      using alloc_blocks_disjoint [OF pool_invD(1) [OF inv j] ab a2] by (metis empty_iff)
    then show ?thesis using st by simp
  qed
  then show "in_area (pfque s ! j) (min_pfn (pfque s ! j) + of_nat (i + m))"
    and "unat (min_pfn (pfque s ! j) + of_nat (i + m)) = unat (min_pfn (pfque s ! j)) + (i + m)"
    using page_in_area [OF inv j lt] by auto
qed

lemma block_lookup:
  assumes inv: "pool_inv s" and st: "straight s" and b: "(a, k) \<in> pool_blocks s"
  obtains j i where "j < length (pfque s)" "(i, k) \<in> used_idx (buddy (pfque s ! j))" "a = addr_of (min_pfn (pfque s ! j) + of_nat i)"
    "unat a + 4096 * 2 ^ k < 2 ^ 64" "unat KERN_VMA_BASE \<le> unat a" "k < PAGE_POOL_MAX_ORDER"
    "\<And>x. x < 4096 * 2 ^ k \<Longrightarrow> kvaddr_to_page_frame s (a + of_nat x) = (0, Some (j, of_nat (i + x div 4096))) \<and>
      i + x div 4096 < length (array (buddy (pfque s ! j)))"
proof -
  from pool_blocksE [OF inv b] obtain j pfn where
    j: "j < length (pfque s)" "(pfn, k) \<in> used_blocks (buddy (pfque s ! j))" "a = addr_of pfn" .
  from used_in_area [OF inv j(1,2)] obtain i where
    i: "(i, k) \<in> used_idx (buddy (pfque s ! j))" "i < length (array (buddy (pfque s ! j)))" "pfn = min_pfn (pfque s ! j) + of_nat i" .
  note I = pool_invD [OF inv j(1)]
  note pg = block_pages [OF inv j(1) i(1)]
  have mx: "unat (max_pfn (pfque s ! j)) < 2 ^ 35" using st j(1) by (auto simp: straight_def)
  have lim: "unat (min_pfn (pfque s ! j)) + (i + m) < 2 ^ 35 - 1" if "m < 2 ^ k" for m
    using pg(3,4) [OF that] mx by (auto simp: in_area_def word_less_nat_alt)
  have pfn: "unat pfn = unat (min_pfn (pfque s ! j)) + i" using pg(4) [of 0] i(3) by simp
  have top: "unat (min_pfn (pfque s ! j)) + i + 2 ^ k < 2 ^ 35"
    using lim [of "2 ^ k - 1"] by (cases "(2::nat) ^ k") auto
  have ua: "unat a = unat pfn * 4096 + unat KERN_VMA_BASE"
    unfolding j(3) using lim [of 0] pfn by (intro addr_of_unat) simp
  have a1: "unat a + 4096 * 2 ^ k < 2 ^ 64" and a2: "unat KERN_VMA_BASE \<le> unat a"
    using top by (simp_all add: ua pfn)
  have look: "kvaddr_to_page_frame s (a + of_nat x) = (0, Some (j, of_nat (i + x div 4096))) \<and>
      i + x div 4096 < length (array (buddy (pfque s ! j)))" if "x < 4096 * 2 ^ k" for x
  proof -
    have m: "x div 4096 < 2 ^ k" using that by (simp add: less_mult_imp_div_less mult.commute)
    have "unat pfn + x div 4096 < 2 ^ 52" using lim [OF m] pfn by simp
    then have d: "drop_bit PAGE_SHIFT (kern_straight_to_phy (a + of_nat x)) = min_pfn (pfque s ! j) + of_nat (i + x div 4096)"
      unfolding j(3) by (simp add: pfn_of_byte i(3) add.assoc)
    note L = lookup_eq [OF I(4) j(1) pg(3) [OF m]]
    have "kvaddr_to_page_frame s (a + of_nat x) = (0, Some (j, of_nat (i + x div 4096)))"
      using L by (simp add: kvaddr_to_page_frame_def hal_kvaddr_to_pfn_def d Let_def del: of_nat_add)
    then show ?thesis using pg(1) [OF m] by simp
  qed
  show thesis using that [OF j(1) i(1) _ a1 a2 pg(2) [of 0] look] j(3) i(3) by simp
qed

lemma block_bytes_off: "x \<in> block_bytes a k \<Longrightarrow> \<exists>n < 4096 * 2 ^ k. x = a + of_nat n"
  by (intro exI [of _ "unat x - unat a"]) (auto simp: block_bytes_def word_unat_eq_iff unat_word_ariths unat_of_nat)

lemma off_block_bytes: "unat a + 4096 * 2 ^ k < 2 ^ 64 \<Longrightarrow> n < 4096 * 2 ^ k \<Longrightarrow> a + of_nat n \<in> block_bytes a k"
  by (auto simp: block_bytes_def unat_word_ariths unat_of_nat)

text \<open>Blocks in use have no byte in common.\<close>

lemma pool_blocks_disjoint:
  assumes inv: "pool_inv s" and st: "straight s" and b: "(a, k) \<in> pool_blocks s" and b': "(a', k') \<in> pool_blocks s" and ne: "a \<noteq> a'"
  shows "block_bytes a k \<inter> block_bytes a' k' = {}"
proof (rule ccontr)
  assume "block_bytes a k \<inter> block_bytes a' k' \<noteq> {}"
  then obtain x where x: "x \<in> block_bytes a k" "x \<in> block_bytes a' k'" by blast
  from block_lookup [OF inv st b] obtain j i where
    j: "j < length (pfque s)" "(i, k) \<in> used_idx (buddy (pfque s ! j))" "a = addr_of (min_pfn (pfque s ! j) + of_nat i)"
    and l: "\<And>x. x < 4096 * 2 ^ k \<Longrightarrow> kvaddr_to_page_frame s (a + of_nat x) = (0, Some (j, of_nat (i + x div 4096))) \<and>
      i + x div 4096 < length (array (buddy (pfque s ! j)))" by metis
  from block_lookup [OF inv st b'] obtain j' i' where
    j': "j' < length (pfque s)" "(i', k') \<in> used_idx (buddy (pfque s ! j'))" "a' = addr_of (min_pfn (pfque s ! j') + of_nat i')"
    and l': "\<And>x. x < 4096 * 2 ^ k' \<Longrightarrow> kvaddr_to_page_frame s (a' + of_nat x) = (0, Some (j', of_nat (i' + x div 4096))) \<and>
      i' + x div 4096 < length (array (buddy (pfque s ! j')))" by metis
  obtain n where n: "n < 4096 * 2 ^ k" "x = a + of_nat n" using block_bytes_off [OF x(1)] by blast
  obtain n' where n': "n' < 4096 * 2 ^ k'" "x = a' + of_nat n'" using block_bytes_off [OF x(2)] by blast
  have eq: "j = j'" "(of_nat (i + n div 4096) :: u64) = of_nat (i' + n' div 4096)"
    using l [OF n(1)] l' [OF n'(1)] n(2) n'(2) by auto
  have len: "length (array (buddy (pfque s ! j))) < 2 ^ 64" using buddy_range(1) [OF pool_invD(1) [OF inv j(1)]] by simp
  have p: "i + n div 4096 = i' + n' div 4096"
    using arg_cong [OF eq(2), of unat] l [OF n(1)] l' [OF n'(1)] len eq(1) by (simp add: unat_of_nat del: of_nat_add)
  have "n div 4096 < 2 ^ k" "n' div 4096 < 2 ^ k'" using n(1) n'(1) by (simp_all add: less_mult_imp_div_less mult.commute)
  then have "i + n div 4096 \<in> {i..<i + 2 ^ k} \<inter> {i'..<i' + 2 ^ k'}" using p by auto
  moreover have "(i, k) \<in> alloc_blocks (buddy (pfque s ! j))" "(i', k') \<in> alloc_blocks (buddy (pfque s ! j))"
    using j(2) j'(2) eq(1) by (auto simp: used_idx_def)
  ultimately have "(i, k) = (i', k')" using alloc_blocks_disjoint [OF pool_invD(1) [OF inv j(1)]] by blast
  then show False using ne j(3) j'(3) eq(1) by simp
qed


section \<open>Free pages\<close>

definition pool_free :: "page_pool \<Rightarrow> nat" where
  "pool_free s = (\<Sum>pfi \<leftarrow> pfque s. unat (page_buddy_get_free (buddy pfi)))"

lemma pool_free_set_buddy:
  assumes "j < length (pfque s)"
  shows "pool_free (set_buddy s j b) + unat (page_buddy_get_free (buddy (pfque s ! j))) = pool_free s + unat (page_buddy_get_free b)"
proof -
  define f where "f = (\<lambda>pfi :: page_frame_info. unat (page_buddy_get_free (buddy pfi)))"
  have "sum_list (map f ((pfque s)[j := (pfque s ! j)\<lparr>buddy := b\<rparr>])) + f (pfque s ! j) = sum_list (map f (pfque s)) + unat (page_buddy_get_free b)"
  proof -
    have "f (pfque s ! j) \<le> sum_list (map f (pfque s))" using assms by (intro member_le_sum_list) auto
    then show ?thesis using assms by (simp add: map_update sum_list_update) (simp add: f_def)
  qed
  then show ?thesis by (simp add: pool_free_def set_buddy_def f_def)
qed

lemma no_page_fails:
  assumes "buddy_inv b" and "\<forall>j. 2 ^ nat 0 dvd j \<longrightarrow> j + 2 ^ nat 0 \<le> length (array b) \<longrightarrow>
     (\<exists>(i, k) \<in> alloc_blocks b. {i..<i + 2 ^ k} \<inter> {j..<j + 2 ^ nat 0} \<noteq> {})"
  shows "unat (page_buddy_get_free b) = 0"
proof -
  have fin: "finite (alloc_blocks b)" by (auto simp: alloc_blocks_def)
  have "j \<in> (\<Union>(i, k) \<in> alloc_blocks b. {i..<i + 2 ^ k})" if j: "j < length (array b)" for j
  proof -
    from assms(2) [rule_format, of j] j obtain x where "x \<in> alloc_blocks b" "case x of (i, k) \<Rightarrow> {i..<i + 2 ^ k} \<inter> {j..<j + 2 ^ nat 0} \<noteq> {}" by auto
    then show ?thesis by (cases x) (auto simp: less_Suc_eq_le dest: order.antisym intro!: bexI [of _ x])
  qed
  then have "{..<length (array b)} \<subseteq> (\<Union>(i, k) \<in> alloc_blocks b. {i..<i + 2 ^ k})" by blast
  then have "card {..<length (array b)} \<le> card (\<Union>x \<in> alloc_blocks b. case x of (i, k) \<Rightarrow> {i..<i + 2 ^ k})"
    using fin by (intro card_mono) auto
  also have "\<dots> \<le> (\<Sum>x \<in> alloc_blocks b. card (case x of (i, k) \<Rightarrow> {i..<i + 2 ^ k}))" by (rule card_UN_le [OF fin])
  also have "\<dots> = (\<Sum>(i, k) \<in> alloc_blocks b. 2 ^ k)" by (intro sum.cong) auto
  finally show ?thesis using free_and_used_pages [OF assms(1)] by simp
qed

lemma dequeue_free:
  assumes "buddy_inv b" and "0 \<le> r" and "r < int PAGE_POOL_MAX_ORDER" and "page_buddy_dequeue b r = Some (rc, p, b')"
  shows "rc = 0 \<and> unat (page_buddy_get_free b') + 2 ^ nat r = unat (page_buddy_get_free b) \<or>
    rc = - ENOMEM \<and> b' = b \<and> (r = 0 \<longrightarrow> unat (page_buddy_get_free b) = 0)"
  using buddy_dequeue_ok [OF assms(1-3)]
proof (elim disjE conjE)
  assume e: "page_buddy_dequeue b r = Some (- ENOMEM, None, b)"
    "\<forall>j. 2 ^ nat r dvd j \<longrightarrow> j + 2 ^ nat r \<le> length (array b) \<longrightarrow> (\<exists>(i, k) \<in> alloc_blocks b. {i..<i + 2 ^ k} \<inter> {j..<j + 2 ^ nat r} \<noteq> {})"
  have "unat (page_buddy_get_free b) = 0" if "r = 0" using no_page_fails [OF assms(1)] e(2) unfolding that by blast
  then show ?thesis using e(1) assms(4) by auto
qed (use assms(4) in auto)

lemma alloc_loop_free:
  assumes inv: "pool_inv s" and r: "0 \<le> r" "r < int PAGE_POOL_MAX_ORDER" and "j + n = length (pfque s)" and "alloc_loop s r j n = Some (rc, p, s')"
  shows "rc = 0 \<and> pool_free s' + 2 ^ nat r = pool_free s \<or>
    rc = - ENOMEM \<and> (r = 0 \<longrightarrow> (\<Sum>pfi \<leftarrow> drop j (pfque s). unat (page_buddy_get_free (buddy pfi))) = 0)"
  using assms(4,5)
proof (induction n arbitrary: j)
  case (Suc n)
  then have j: "j < length (pfque s)" by simp
  define b where "b = buddy (pfque s ! j)"
  have I: "buddy_inv b" using pool_invD(1) [OF inv j] by (simp add: b_def)
  from Suc.prems(2) obtain rc1 p1 b1 where d: "page_buddy_dequeue b r = Some (rc1, p1, b1)" by (auto simp: bind_eq_Some_conv b_def)
  from dequeue_free [OF I r d] show ?case
  proof (elim disjE conjE)
    assume e: "rc1 = 0" "unat (page_buddy_get_free b1) + 2 ^ nat r = unat (page_buddy_get_free b)"
    obtain pfn rc2 kv where k: "p1 = Some pfn" "hal_pfn_to_kvaddr (set_buddy s j b1) pfn = (rc2, kv)"
    proof (cases p1)
      case None
      then show thesis using Suc.prems(2) d e(1) by (simp add: b_def)
    next
      case (Some pfn)
      then show thesis using that [of pfn] by (cases "hal_pfn_to_kvaddr (set_buddy s j b1) pfn") auto
    qed
    have "rc = 0" "pfque s' = pfque (set_buddy s j b1)"
      using Suc.prems(2) d e(1) k by (auto simp: bind_eq_Some_conv Let_def b_def split: if_split_asm)
    then have "rc = 0" "pool_free s' = pool_free (set_buddy s j b1)" by (simp_all add: pool_free_def)
    then show ?thesis using pool_free_set_buddy [OF j, of b1] e(2) by (simp add: b_def)
  next
    assume e: "rc1 = - ENOMEM" "b1 = b" "r = 0 \<longrightarrow> unat (page_buddy_get_free b) = 0"
    have "alloc_loop s r (Suc j) n = Some (rc, p, s')" using Suc.prems(2) d e(1,2) set_buddy_same [OF j] by (simp add: b_def)
    from Suc.IH [OF _ this] Suc.prems(1) e(3) show ?thesis by (auto simp: Cons_nth_drop_Suc [OF j, symmetric] b_def)
  qed
qed simp

lemma alloc_free_pages:
  assumes "pool_inv s" and "0 \<le> r" and "r < int PAGE_POOL_MAX_ORDER" and "alloc_buddy_pages s r = Some (rc, p, s')"
  shows "rc = 0 \<and> pool_free s' + 2 ^ nat r = pool_free s \<or> rc = - ENOMEM \<and> (r = 0 \<longrightarrow> pool_free s = 0)"
  using alloc_loop_free [of s r 0 "length (pfque s)"] assms by (simp add: alloc_buddy_pages_def pool_free_def)

section \<open>Marking the pages of a block\<close>

text \<open>
  The loops of \<open>kmem_cache_grow_nolock\<close> and \<open>kmem_cache_reap\<close> over the pages of a slab.  A page that
  does not exist leaves the pointer to the page frame undefined.
\<close>

partial_function (option) mark_pages :: "u64 option \<Rightarrow> u64 \<Rightarrow> u64 \<Rightarrow> page_pool \<Rightarrow> page_pool option" where
  "mark_pages v pp lim s =
     (if pp < lim then
        (case kvaddr_to_page_frame s pp of
           (rc, None) \<Rightarrow> None
         | (rc, Some p) \<Rightarrow> do {
             s \<leftarrow> page_update s p (slabp_update (\<lambda>_. v));
             mark_pages v (pp + PAGE_SIZE) lim s
           })
      else Some s)"

text \<open>What the page frame says about the allocator; a change of its other fields is of no concern to the buddies.\<close>

definition same_place :: "page_frame \<Rightarrow> page_frame \<Rightarrow> bool" where
  "same_place p q \<longleftrightarrow> pf_state q = pf_state p \<and> pf_order q = pf_order p \<and> pf_pfn q = pf_pfn p \<and> buddyp q = buddyp p"

lemma buddy_attr:
  assumes "same_place (array b ! i) p"
  shows "buddy_inv b \<Longrightarrow> buddy_inv (b\<lparr>array := (array b)[i := p]\<rparr>)" and "used_idx (b\<lparr>array := (array b)[i := p]\<rparr>) = used_idx b"
    and "same_resv b (b\<lparr>array := (array b)[i := p]\<rparr>)"
proof -
  have "same_place (array b ! m) ((array b)[i := p] ! m)" for m
    using assms by (cases "m = i"; cases "i < length (array b)") (simp_all add: same_place_def list_update_beyond not_less)
  then have eq: "pf_state ((array b)[i := p] ! m) = pf_state (array b ! m)" "pf_order ((array b)[i := p] ! m) = pf_order (array b ! m)"
    "pf_pfn ((array b)[i := p] ! m) = pf_pfn (array b ! m)" "buddyp ((array b)[i := p] ! m) = buddyp (array b ! m)" for m
    by (simp_all add: same_place_def)
  show "buddy_inv (b\<lparr>array := (array b)[i := p]\<rparr>)" if "buddy_inv b"
    using that eq by (auto simp: buddy_inv_def buddy_ok_def pages_ok_def page_cstate_not_freed_def)
  show "used_idx (b\<lparr>array := (array b)[i := p]\<rparr>) = used_idx b"
    using eq by (auto simp: used_idx_def alloc_blocks_def page_cstate_not_freed_def)
  show "same_resv b (b\<lparr>array := (array b)[i := p]\<rparr>)" using eq by (simp add: same_resv_def)
qed

text \<open>The pool with other owners of its pages.\<close>

definition owners_only :: "page_pool \<Rightarrow> page_pool \<Rightarrow> bool" where
  "owners_only s s' \<longleftrightarrow> pool_inv s' \<and> pool_blocks s' = pool_blocks s \<and> mem s' = mem s \<and>
     map max_pfn (pfque s') = map max_pfn (pfque s) \<and> (\<forall>x. kvaddr_to_page_frame s' x = kvaddr_to_page_frame s x)"

lemma page_attr_ok:
  assumes inv: "pool_inv s" and j: "j < length (pfque s)" and w: "unat w < length (array (buddy (pfque s ! j)))"
    and f: "\<And>p. same_place p (f p)"
  shows "\<exists>s'. page_update s (j, w) f = Some s' \<and> owners_only s s' \<and> pool_free s' = pool_free s \<and>
    (\<forall>p. page_at s' p = (if p = (j, w) then map_option f (page_at s p) else page_at s p))"
proof -
  define b where "b = buddy (pfque s ! j)"
  define b' where "b' = b\<lparr>array := (array b)[unat w := f (array b ! unat w)]\<rparr>"
  define s' where "s' = set_buddy s j b'"
  note attr = buddy_attr [where b = b and i = "unat w" and p = "f (array b ! unat w)", OF f, folded b'_def]
  have run: "page_update s (j, w) f = Some s'"
    using j w by (simp add: page_update_def upd_page_def s'_def b'_def b_def)
  have i': "pool_inv s'" unfolding s'_def
    using inv j attr(1) attr(3) pool_invD(1) [OF inv j] unfolding b_def by (intro pool_inv_set_buddy) simp_all
  have "used_blocks b' = used_blocks b" using attr(2) by (simp add: used_blocks_def b'_def)
  then have pb: "pool_blocks s' = pool_blocks s"
    unfolding s'_def pool_blocks_set_buddy [OF j] pool_blocks_split [OF j] by (simp add: b_def)
  have mm: "map min_pfn (pfque s') = map min_pfn (pfque s)" "map max_pfn (pfque s') = map max_pfn (pfque s)"
    using map_update_same [OF j] by (simp_all add: s'_def set_buddy_def map_update)
  have fp: "find_pfi (pfque s') pfn 0 = find_pfi (pfque s) pfn 0" for pfn using mm by (rule find_pfi_cong)
  have mi: "min_pfn (pfque s' ! m) = min_pfn (pfque s ! m)" for m
    using j by (cases "m = j") (simp_all add: s'_def)
  have kv: "kvaddr_to_page_frame s' x = kvaddr_to_page_frame s x" for x
    unfolding kvaddr_to_page_frame_def hal_kvaddr_to_pfn_def kcom_is_pfn_valid_def pfn_to_page_frame_info_def
      pfn_to_page_frame_info_nolock_def fp mi ..
  have at: "page_at s' p = (if p = (j, w) then map_option f (page_at s p) else page_at s p)" for p
  proof (cases "fst p = j")
    case True
    then show ?thesis using j w by (cases p) (auto simp: page_at_def s'_def b'_def b_def arr_get_def word_unat_eq_iff)
  next
    case False
    then show ?thesis using j by (cases p) (auto simp: page_at_def s'_def arr_get_def)
  qed
  have "pool_free s' = pool_free s"
    using pool_free_set_buddy [OF j, of b'] by (simp add: s'_def b'_def b_def page_buddy_get_free_def)
  then show ?thesis using run i' pb mm kv at by (auto simp: owners_only_def s'_def)
qed

lemma set_owner_ok:
  assumes inv: "pool_inv s" and j: "j < length (pfque s)" and w: "unat w < length (array (buddy (pfque s ! j)))"
  shows "\<exists>s'. page_update s (j, w) (slabp_update (\<lambda>_. v)) = Some s' \<and> owners_only s s' \<and>
    (\<forall>x. page_owner s' x = (if kvaddr_to_page_frame s x = (0, Some (j, w)) then v else page_owner s x))"
proof -
  obtain s' where s': "page_update s (j, w) (slabp_update (\<lambda>_. v)) = Some s'" "owners_only s s'"
    "\<forall>p. page_at s' p = (if p = (j, w) then map_option (slabp_update (\<lambda>_. v)) (page_at s p) else page_at s p)"
    using page_attr_ok [OF inv j w, of "slabp_update (\<lambda>_. v)"] by (auto simp: same_place_def)
  have kv: "kvaddr_to_page_frame s' x = kvaddr_to_page_frame s x" for x using s'(2) by (simp add: owners_only_def)
  have pg: "page_at s (j, w) \<noteq> None" using j w by (simp add: page_at_def)
  have rc0: "rc = 0" if "kvaddr_to_page_frame s x = (rc, Some p)" for x rc p
    using that by (auto simp: kvaddr_to_page_frame_def split: prod.splits option.splits)
  have "page_owner s' x = (if kvaddr_to_page_frame s x = (0, Some (j, w)) then v else page_owner s x)" for x
    unfolding page_owner_def kv s'(3) [rule_format] using rc0 [of x] pg by (auto split: prod.splits option.splits)
  then show ?thesis using s' by blast
qed

text \<open>Conversely, only addresses inside a page lead to its page frame.\<close>

lemma addr_of_add: "addr_of (pfn + of_nat m) = addr_of pfn + of_nat (4096 * m)"
  by (simp add: addr_of_def phy_to_kern_straight_def push_bit_eq_mult algebra_simps)

lemma page_frame_byte:
  assumes "kvaddr_to_page_frame s x = (0, Some (j, w))"
  shows "\<exists>n < 4096. x = addr_of (min_pfn (pfque s ! j) + w) + of_nat n"
proof -
  define y where "y = kern_straight_to_phy x"
  have pfn: "min_pfn (pfque s ! j) + w = drop_bit PAGE_SHIFT y"
    using assms by (auto simp: kvaddr_to_page_frame_def hal_kvaddr_to_pfn_def y_def Let_def split: if_splits prod.splits option.splits)
  have "push_bit PAGE_SHIFT (drop_bit PAGE_SHIFT y) + take_bit PAGE_SHIFT y = y" by (rule bits_ident)
  then have x: "x = addr_of (min_pfn (pfque s ! j) + w) + take_bit PAGE_SHIFT y"
    unfolding addr_of_def phy_to_kern_straight_def pfn by (simp add: y_def kern_straight_to_phy_def algebra_simps)
  have "unat (take_bit PAGE_SHIFT y) < 4096" by (simp add: take_bit_eq_mod unat_mod)
  then show ?thesis using x by (intro exI [of _ "unat (take_bit PAGE_SHIFT y)"]) simp
qed

lemma mark_pages_from:
  assumes "pool_inv s" and "straight s" and "(a, k) \<in> pool_blocks s" and "m \<le> 2 ^ k"
  shows "\<exists>s'. mark_pages v (a + of_nat (4096 * m)) (a + of_nat (4096 * 2 ^ k)) s = Some s' \<and> owners_only s s' \<and>
    (\<forall>x. page_owner s' x = (if x \<in> block_bytes a k \<and> unat a + 4096 * m \<le> unat x then v else page_owner s x))"
  using assms
proof (induction "2 ^ k - m" arbitrary: m s)
  case 0
  then have "m = 2 ^ k" by simp
  moreover from this have "page_owner s x = (if x \<in> block_bytes a k \<and> unat a + 4096 * m \<le> unat x then v else page_owner s x)" for x
    by (auto simp: block_bytes_def)
  ultimately show ?case using 0 by (intro exI [of _ s] conjI allI) (simp_all add: mark_pages.simps owners_only_def)
next
  case (Suc d)
  from block_lookup [OF Suc.prems(1-3)] obtain j i where
    j: "j < length (pfque s)" "unat a + 4096 * 2 ^ k < 2 ^ 64" "a = addr_of (min_pfn (pfque s ! j) + of_nat i)"
    and l: "\<And>x. x < 4096 * 2 ^ k \<Longrightarrow> kvaddr_to_page_frame s (a + of_nat x) = (0, Some (j, of_nat (i + x div 4096))) \<and>
      i + x div 4096 < length (array (buddy (pfque s ! j)))" by metis
  have m: "m < 2 ^ k" using Suc.hyps(2) by simp
  then have "4096 * m < 4096 * 2 ^ k" by simp
  from l [OF this] have look: "kvaddr_to_page_frame s (a + of_nat (4096 * m)) = (0, Some (j, of_nat (i + m)))"
    and im: "i + m < length (array (buddy (pfque s ! j)))" by auto
  have len: "length (array (buddy (pfque s ! j))) < 2 ^ 64" using buddy_range(1) [OF pool_invD(1) [OF Suc.prems(1) j(1)]] by simp
  have w: "unat (of_nat (i + m) :: u64) = i + m" using im len by (simp add: unat_of_nat del: of_nat_add)
  obtain s1 where s1: "page_update s (j, of_nat (i + m)) (slabp_update (\<lambda>_. v)) = Some s1" "owners_only s s1"
    "\<forall>x. page_owner s1 x = (if kvaddr_to_page_frame s x = (0, Some (j, of_nat (i + m))) then v else page_owner s x)"
    using set_owner_ok [OF Suc.prems(1) j(1), of "of_nat (i + m)" v] im w by (auto simp del: of_nat_add)
  have st1: "straight s1" using s1(2) Suc.prems(2) by (simp add: owners_only_def straight_def del: set_map)
  obtain s' where s': "mark_pages v (a + of_nat (4096 * Suc m)) (a + of_nat (4096 * 2 ^ k)) s1 = Some s'" "owners_only s1 s'"
    "\<forall>x. page_owner s' x = (if x \<in> block_bytes a k \<and> unat a + 4096 * Suc m \<le> unat x then v else page_owner s1 x)"
  proof -
    have "d = 2 ^ k - Suc m" "Suc m \<le> 2 ^ k" "pool_inv s1" "(a, k) \<in> pool_blocks s1"
      using Suc.hyps(2) m s1(2) Suc.prems(3) by (auto simp: owners_only_def)
    from Suc.hyps(1) [OF this(1,3) st1 this(4,2)] show thesis using that by blast
  qed
  have lt: "a + of_nat (4096 * m) < a + of_nat (4096 * 2 ^ k)"
    using m j(2) by (simp add: word_less_nat_alt unat_word_ariths unat_of_nat del: of_nat_mult)
  have "mark_pages v (a + of_nat (4096 * m)) (a + of_nat (4096 * 2 ^ k)) s = Some s'"
    using s'(1) lt look s1(1) by (subst mark_pages.simps) (simp add: algebra_simps)
  moreover have "owners_only s s'" using s1(2) s'(2) by (simp add: owners_only_def)
  moreover have "page_owner s' x = (if x \<in> block_bytes a k \<and> unat a + 4096 * m \<le> unat x then v else page_owner s x)" for x
  proof (cases "x \<in> block_bytes a k")
    case True
    then obtain n where n: "n < 4096 * 2 ^ k" "x = a + of_nat n" using block_bytes_off by blast
    then have ux: "unat x = unat a + n" using j(2) by (simp add: unat_word_ariths unat_of_nat)
    have "i + n div 4096 < 2 ^ 64" using l [OF n(1)] len by linarith
    then have "(of_nat (i + n div 4096) :: u64) = of_nat (i + m) \<longleftrightarrow> n div 4096 = m"
      using w by (auto simp: word_unat_eq_iff unat_of_nat simp del: of_nat_add)
    then have "kvaddr_to_page_frame s x = (0, Some (j, of_nat (i + m))) \<longleftrightarrow> n div 4096 = m" using l [OF n(1)] n(2) by simp
    moreover have "4096 * m \<le> n \<longleftrightarrow> n div 4096 = m \<or> 4096 * Suc m \<le> n"
      using less_eq_div_iff_mult_less_eq [of 4096 m n] less_eq_div_iff_mult_less_eq [of 4096 "Suc m" n] by (auto simp: mult.commute)
    ultimately show ?thesis unfolding s'(3) [rule_format] s1(3) [rule_format] ux using True by auto
  next
    case False
    have "kvaddr_to_page_frame s x \<noteq> (0, Some (j, of_nat (i + m)))"
    proof
      assume "kvaddr_to_page_frame s x = (0, Some (j, of_nat (i + m)))"
      from page_frame_byte [OF this] obtain n where n: "n < 4096" "x = addr_of (min_pfn (pfque s ! j) + of_nat (i + m)) + of_nat n" by blast
      have "addr_of (min_pfn (pfque s ! j) + of_nat (i + m)) = a + of_nat (4096 * m)"
        using addr_of_add [of "min_pfn (pfque s ! j) + of_nat i" m] by (simp add: j(3) add.assoc)
      then have "x = a + of_nat (4096 * m + n)" by (simp add: n(2) add.assoc)
      moreover have "4096 * m + n < 4096 * 2 ^ k" using n(1) m by (metis Suc_leI add_less_cancel_left less_le_trans mult_Suc_right add.commute mult_le_mono2)
      ultimately show False using False off_block_bytes [OF j(2)] by blast
    qed
    then show ?thesis using s'(3) s1(3) False by simp
  qed
  ultimately show ?case by blast
qed


lemma mark_pages_ok:
  assumes "pool_inv s" and "straight s" and "(a, k) \<in> pool_blocks s"
  shows "\<exists>s'. mark_pages v a (a + of_nat (4096 * 2 ^ k)) s = Some s' \<and> owners_only s s' \<and>
    (\<forall>x. page_owner s' x = (if x \<in> block_bytes a k then v else page_owner s x))"
proof -
  have "x \<in> block_bytes a k \<and> unat a \<le> unat x \<longleftrightarrow> x \<in> block_bytes a k" for x by (auto simp: block_bytes_def)
  then show ?thesis using mark_pages_from [OF assms, of 0 v] by simp
qed


lemma page_update_free:
  assumes "page_update s p f = Some s'"
  shows "pool_free s' = pool_free s"
proof -
  obtain j w where p: "p = (j, w)" by (cases p)
  from assms obtain b where j: "j < length (pfque s)" and b: "s' = set_buddy s j b" "free_nr b = free_nr (buddy (pfque s ! j))"
    by (auto simp: p page_update_def upd_page_def bind_eq_Some_conv dest!: arr_get_SomeD split: if_splits)
  show ?thesis using pool_free_set_buddy [OF j, of b] b by (simp add: page_buddy_get_free_def)
qed

lemma eight_pages_inv: "pool_inv eight_pages" "straight eight_pages" "pool_free eight_pages = 8"
proof -
  show "pool_inv eight_pages" by (rule eight_pages_ok)
  show "straight eight_pages" by (simp add: straight_def eight_pages_def)
  show "pool_free eight_pages = 8" by code_simp
qed

end
