(* ===== verification/Kmcache.thy ===== *)
theory Kmcache
  imports Page_Owner
begin

text \<open>
  The slab allocator: the object caches of \<^verbatim>\<open>src/page/page-kmcache.c\<close> and \<open>kmalloc\<close> of
  \<^verbatim>\<open>src/page/page-kmalloc.c\<close>, on top of the page pool.

  A slab is a block of pages with the descriptor \<^verbatim>\<open>struct _slab\<close> at its start, moved by a colour, and
  the objects behind it, each with a list head in front.  Caches and slab descriptors are kept by their
  address, the queues of a cache and the free objects of a slab as sequences of addresses.  The search
  tree of the caches is a map from names.  The null pointer is \<open>None\<close>.  A call of a constructor or a
  destructor, code outside the allocator, is recorded in \<open>calls\<close> with the address of the function and of
  the object.
\<close>

section \<open>State\<close>

record kmem_cache =
  kc_name :: string
  color_num :: u64
  obj_size :: u64
  slab_size :: u64
  objs_per_slab :: u64
  kc_align :: u64
  color_next :: u64
  sflags :: u32
  limits :: u64
  slab_count :: u64
  usage_count :: u64
  kc_state :: u32
  partial_slabs :: "u64 list"
  full_slabs :: "u64 list"
  free_slabs :: "u64 list"
  kc_constructor :: "u64 option"
  kc_destructor :: "u64 option"

record slab =
  objects :: "u64 list"
  kmcache_ref :: u64
  obj_count :: u64
  color_offset :: u64
  slab_page :: u64

record kmem =
  pages :: page_pool
  caches :: "u64 \<Rightarrow> kmem_cache"
  slabs :: "u64 \<Rightarrow> slab"
  cache_db :: "string \<Rightarrow> u64 option"
  calls :: "(u64 \<times> u64) list"

text \<open>\<^verbatim>\<open>sizeof(slab)\<close>, \<^verbatim>\<open>sizeof(slab_obj_head)\<close> and \<^verbatim>\<open>sizeof(kmem_cache)\<close> on x86-64.\<close>

abbreviation SIZEOF_SLAB :: u64 where "SIZEOF_SLAB \<equiv> 248"
abbreviation SIZEOF_OBJ_HEAD :: u64 where "SIZEOF_OBJ_HEAD \<equiv> 16"
abbreviation SIZEOF_KMEM_CACHE :: u64 where "SIZEOF_KMEM_CACHE \<equiv> 360"

abbreviation DEFAULT_L1_CACHE_BYTE :: u64 where "DEFAULT_L1_CACHE_BYTE \<equiv> 64"
abbreviation KM_SLAB_TYPE_DIVISOR :: u64 where "KM_SLAB_TYPE_DIVISOR \<equiv> 8"
abbreviation (input) KM_ALIGN_HW :: u64 where "KM_ALIGN_HW \<equiv> 0"
abbreviation (input) KM_LIMIT_DEFAULT :: u64 where "KM_LIMIT_DEFAULT \<equiv> 0"
abbreviation KM_DEFAULT_LIMIT :: u64 where "KM_DEFAULT_LIMIT \<equiv> 10"
abbreviation KM_SLAB_ON_SLAB :: u32 where "KM_SLAB_ON_SLAB \<equiv> 0"
abbreviation KM_SLAB_OFF_SLAB :: u32 where "KM_SLAB_OFF_SLAB \<equiv> 1"
abbreviation KM_SLAB_PREDEFINED_CACHE :: u32 where "KM_SLAB_PREDEFINED_CACHE \<equiv> 2"
abbreviation KM_STATE_DELAY_DESTROY :: u32 where "KM_STATE_DELAY_DESTROY \<equiv> 1"

definition upd_cache :: "kmem \<Rightarrow> u64 \<Rightarrow> (kmem_cache \<Rightarrow> kmem_cache) \<Rightarrow> kmem" where
  "upd_cache s k f = s\<lparr>caches := (caches s)(k := f (caches s k))\<rparr>"

definition upd_slab :: "kmem \<Rightarrow> u64 \<Rightarrow> (slab \<Rightarrow> slab) \<Rightarrow> kmem" where
  "upd_slab s a f = s\<lparr>slabs := (slabs s)(a := f (slabs s a))\<rparr>"

text \<open>\<open>list_del\<close> of the link of a slab takes it out of the queue it is in.\<close>

definition unlink_slab :: "u64 \<Rightarrow> kmem_cache \<Rightarrow> kmem_cache" where
  "unlink_slab a kc = kc\<lparr>partial_slabs := remove1 a (partial_slabs kc), full_slabs := remove1 a (full_slabs kc),
     free_slabs := remove1 a (free_slabs kc)\<rparr>"

section \<open>The data base of caches\<close>

fun slab_in_queue :: "u64 list \<Rightarrow> u64 \<Rightarrow> bool" where
  "slab_in_queue [] a = False"
| "slab_in_queue (x # xs) a = (if x = a then True else slab_in_queue xs a)"

definition assert_kmem_cache_valid :: "kmem \<Rightarrow> u64 \<Rightarrow> bool \<Rightarrow> unit option" where
  "assert_kmem_cache_valid s k exists =
     (if exists then kassert (cache_db s (kc_name (caches s k)) \<noteq> None)
      else kassert (cache_db s (kc_name (caches s k)) = None))"

definition assert_slab_valid :: "kmem \<Rightarrow> u64 \<Rightarrow> bool \<Rightarrow> unit option" where
  "assert_slab_valid s a exists = do {
     let k = kmcache_ref (slabs s a);
     assert_kmem_cache_valid s k True;
     if exists then kassert (slab_in_queue (partial_slabs (caches s k)) a \<or> slab_in_queue (full_slabs (caches s k)) a \<or>
       slab_in_queue (free_slabs (caches s k)) a)
     else Some ()
   }"

definition add_kmem_cache_into_db :: "kmem \<Rightarrow> u64 \<Rightarrow> int \<times> kmem" where
  "add_kmem_cache_into_db s k =
     (if cache_db s (kc_name (caches s k)) \<noteq> None then (- EBUSY, s)
      else (0, s\<lparr>cache_db := (cache_db s)(kc_name (caches s k) \<mapsto> k)\<rparr>))"

definition remove_kmem_cache_from_db :: "kmem \<Rightarrow> u64 \<Rightarrow> (int \<times> kmem) option" where
  "remove_kmem_cache_from_db s k = do {
     assert_kmem_cache_valid s k True;
     if cache_db s (kc_name (caches s k)) = None then Some (- ENOENT, s)
     else Some (0, s\<lparr>cache_db := (cache_db s)(kc_name (caches s k) := None)\<rparr>)
   }"

section \<open>The geometry of a slab\<close>

text \<open>The loop looks for the highest bit of the page count; \<open>res\<close> is what the caller has there before.\<close>

fun order_loop :: "u64 \<Rightarrow> nat \<Rightarrow> nat \<Rightarrow> nat" where
  "order_loop npages 0 res = res"
| "order_loop npages (Suc n) res = (if npages AND push_bit n 1 \<noteq> 0 then n else order_loop npages n res)"

definition calc_page_order :: "u64 \<Rightarrow> nat \<Rightarrow> nat" where
  "calc_page_order sz res =
     (if sz = 0 then 0
      else let npages = drop_bit PAGE_SHIFT (if sz AND (PAGE_SIZE - 1) = 0 then sz else (sz AND NOT (PAGE_SIZE - 1)) + PAGE_SIZE)
        in order_loop npages PAGE_POOL_MAX_ORDER res)"

definition kmem_calc_align_offset :: "kmem_cache \<Rightarrow> u64 option" where
  "kmem_calc_align_offset kc = do {
     kassert (0 < obj_size kc);
     kassert (kc_align kc \<noteq> 0);
     Some (if obj_size kc mod kc_align kc \<noteq> 0 then kc_align kc - obj_size kc mod kc_align kc else 0)
   }"

definition kmem_is_off_slab :: "kmem_cache \<Rightarrow> bool" where
  "kmem_is_off_slab kc \<longleftrightarrow> PAGE_SIZE div KM_SLAB_TYPE_DIVISOR \<le> obj_size kc"

definition calc_slab_data_size :: "kmem_cache \<Rightarrow> u64 option" where
  "calc_slab_data_size kc = do {
     kassert (0 < obj_size kc);
     off \<leftarrow> kmem_calc_align_offset kc;
     Some (SIZEOF_OBJ_HEAD + off + obj_size kc)
   }"

definition setup_color_param :: "kmem_cache \<Rightarrow> kmem_cache option" where
  "setup_color_param kc = do {
     d \<leftarrow> calc_slab_data_size kc;
     let color_area_size = slab_size kc - SIZEOF_SLAB - objs_per_slab kc * d;
     Some (kc\<lparr>color_num := (if color_area_size < DEFAULT_L1_CACHE_BYTE then 0 else color_area_size div DEFAULT_L1_CACHE_BYTE + 1),
       color_next := 0\<rparr>)
   }"

definition update_color_offset :: "kmem \<Rightarrow> u64 \<Rightarrow> (u64 \<times> kmem) option" where
  "update_color_offset s k = do {
     assert_kmem_cache_valid s k True;
     let kc = caches s k;
     if color_num kc = 0 then Some (0, s)
     else Some (color_next kc * DEFAULT_L1_CACHE_BYTE,
       upd_cache s k (\<lambda>kc. kc\<lparr>color_next := (color_next kc + 1) mod color_num kc\<rparr>))
   }"

text \<open>The loop over the orders from \<open>order\<close> on, \<open>n\<close> of them; \<open>d\<close> is the size of an object with its head.\<close>

fun off_slab_loop :: "u64 \<Rightarrow> nat \<Rightarrow> nat \<Rightarrow> u64 \<Rightarrow> u64 \<Rightarrow> u64" where
  "off_slab_loop d order 0 last_remains last_size = last_size"
| "off_slab_loop d order (Suc n) last_remains last_size =
     (let cur_size = push_bit order PAGE_SIZE;
          cur_remains = (cur_size - SIZEOF_SLAB) mod d
      in if cur_remains < last_remains then off_slab_loop d (order + 1) n cur_remains cur_size
         else off_slab_loop d (order + 1) n last_remains last_size)"

definition calc_off_slab_size :: "kmem_cache \<Rightarrow> u64 option" where
  "calc_off_slab_size kc = do {
     d \<leftarrow> calc_slab_data_size kc;
     let min_order = calc_page_order (SIZEOF_SLAB + d) 0;
     let last_size = push_bit min_order PAGE_SIZE;
     let last_remains = (last_size - SIZEOF_SLAB) mod d;
     Some (off_slab_loop d min_order (PAGE_POOL_MAX_ORDER - min_order) last_remains last_size)
   }"

definition calc_slab_param :: "kmem_cache \<Rightarrow> kmem_cache option" where
  "calc_slab_param kc = do {
     let kc = kc\<lparr>slab_size := PAGE_SIZE\<rparr>;
     kc \<leftarrow> (if kmem_is_off_slab kc then do { sz \<leftarrow> calc_off_slab_size kc; Some (kc\<lparr>slab_size := sz\<rparr>) } else Some kc);
     d \<leftarrow> calc_slab_data_size kc;
     Some (kc\<lparr>objs_per_slab := (slab_size kc - SIZEOF_SLAB) div d\<rparr>)
   }"

section \<open>Slabs\<close>

definition init_slab :: "kmem \<Rightarrow> u64 \<Rightarrow> u64 \<Rightarrow> u64 \<Rightarrow> u64 \<Rightarrow> kmem option" where
  "init_slab s k a page offset = do {
     assert_kmem_cache_valid s k True;
     Some (upd_slab s a (\<lambda>_. \<lparr>objects = [], kmcache_ref = k, obj_count = 0, color_offset = offset, slab_page = page\<rparr>))
   }"

definition refer_object_head :: "kmem \<Rightarrow> u64 \<Rightarrow> u64 \<Rightarrow> u64 \<Rightarrow> u64 option" where
  "refer_object_head s k a index = do {
     assert_kmem_cache_valid s k True;
     assert_slab_valid s a False;
     d \<leftarrow> calc_slab_data_size (caches s k);
     Some (a + SIZEOF_SLAB + index * d)
   }"

text \<open>The loop of \<open>init_object_heads\<close> from object \<open>i\<close> on, \<open>n\<close> of them.\<close>

fun object_heads_from :: "kmem \<Rightarrow> u64 \<Rightarrow> u64 \<Rightarrow> nat \<Rightarrow> nat \<Rightarrow> kmem option" where
  "object_heads_from s k a i 0 = Some s"
| "object_heads_from s k a i (Suc n) = do {
     hp \<leftarrow> refer_object_head s k a (of_nat i);
     object_heads_from (upd_slab s a (\<lambda>sl. sl\<lparr>objects := objects sl @ [hp]\<rparr>)) k a (i + 1) n
   }"

definition init_object_heads :: "kmem \<Rightarrow> u64 \<Rightarrow> u64 \<Rightarrow> kmem option" where
  "init_object_heads s k a = do {
     assert_kmem_cache_valid s k True;
     object_heads_from s k a 0 (unat (objs_per_slab (caches s k)))
   }"

definition kmem_cache_grow_nolock :: "kmem \<Rightarrow> u64 \<Rightarrow> (int \<times> kmem) option" where
  "kmem_cache_grow_nolock s k = do {
     let sz = slab_size (caches s k);
     kassert (sz AND (PAGE_SIZE - 1) = 0);
     (rc, kvaddr, p) \<leftarrow> alloc_buddy_pages (pages s) (int (calc_page_order sz 0));
     let s = s\<lparr>pages := p\<rparr>;
     if rc \<noteq> 0 then Some (- ENOMEM, s)
     else do {
       kvaddr \<leftarrow> kvaddr;
       (color, s) \<leftarrow> update_color_offset s k;
       let a = kvaddr + color;
       s \<leftarrow> init_slab s k a kvaddr color;
       s \<leftarrow> init_object_heads s k a;
       let s = upd_cache s k (\<lambda>kc. kc\<lparr>free_slabs := free_slabs kc @ [a], slab_count := slab_count kc + 1\<rparr>);
       p \<leftarrow> mark_pages (Some a) kvaddr (kvaddr + sz) (pages s);
       Some (0, s\<lparr>pages := p\<rparr>)
     }
   }"

definition kmem_cache_grow :: "kmem \<Rightarrow> u64 \<Rightarrow> (int \<times> kmem) option" where
  "kmem_cache_grow s k = kmem_cache_grow_nolock s k"

section \<open>Objects\<close>

text \<open>Calling the constructor or the destructor, when the cache has one.\<close>

definition call_hook :: "u64 option \<Rightarrow> u64 \<Rightarrow> kmem \<Rightarrow> kmem" where
  "call_hook f obj s = (case f of None \<Rightarrow> s | Some f \<Rightarrow> s\<lparr>calls := calls s @ [(f, obj)]\<rparr>)"

text \<open>The slab to take an object from: the first partly used one, a free one, or a new one.\<close>

definition choose_slab :: "kmem \<Rightarrow> u64 \<Rightarrow> (u64 option \<times> kmem) option" where
  "choose_slab s k =
     (case partial_slabs (caches s k) of
        a # q \<Rightarrow> Some (Some a, s)
      | [] \<Rightarrow> do {
          (rc, s) \<leftarrow> (if free_slabs (caches s k) = [] then kmem_cache_grow_nolock s k else Some (0, s));
          if rc \<noteq> 0 then Some (None, s)
          else (case free_slabs (caches s k) of
              [] \<Rightarrow> None
            | a # q \<Rightarrow> Some (Some a, upd_cache s k (\<lambda>kc. kc\<lparr>free_slabs := q, partial_slabs := partial_slabs kc @ [a]\<rparr>)))
        })"

text \<open>Taking the first free object of that slab; a slab with no free object left goes to the full ones.\<close>

definition take_object :: "kmem \<Rightarrow> u64 \<Rightarrow> u64 \<Rightarrow> (u64 \<times> kmem) option" where
  "take_object s k a = do {
     kassert (obj_count (slabs s a) < objs_per_slab (caches s k));
     (case objects (slabs s a) of
        [] \<Rightarrow> None
      | hp # hs \<Rightarrow> do {
          let s = upd_slab s a (\<lambda>sl. sl\<lparr>objects := hs, obj_count := obj_count sl + 1\<rparr>);
          let s = (if obj_count (slabs s a) = objs_per_slab (caches s k)
            then upd_cache s k (\<lambda>kc. (unlink_slab a kc)\<lparr>full_slabs := full_slabs (unlink_slab a kc) @ [a]\<rparr>) else s);
          off \<leftarrow> kmem_calc_align_offset (caches s k);
          let obj = hp + SIZEOF_OBJ_HEAD + off;
          Some (obj, call_hook (kc_constructor (caches s k)) obj s)
        })
   }"

definition kmem_cache_alloc :: "kmem \<Rightarrow> u64 \<Rightarrow> (u64 option \<times> kmem) option" where
  "kmem_cache_alloc s k = do {
     (slabp, s) \<leftarrow> choose_slab s k;
     (case slabp of
        None \<Rightarrow> Some (None, s)
      | Some a \<Rightarrow> do { (obj, s) \<leftarrow> take_object s k a; Some (Some obj, s) })
   }"

definition kmem_obj_to_slab :: "kmem \<Rightarrow> u64 \<Rightarrow> u64 option" where
  "kmem_obj_to_slab s obj =
     (case kvaddr_to_page_frame (pages s) obj of
        (rc, None) \<Rightarrow> None
      | (rc, Some p) \<Rightarrow> do { kassert (rc = 0); pgf \<leftarrow> page_at (pages s) p; slabp pgf })"

definition kmem_cache_free :: "kmem \<Rightarrow> u64 \<Rightarrow> u64 \<Rightarrow> kmem option" where
  "kmem_cache_free s k obj = do {
     let s = call_hook (kc_destructor (caches s k)) obj s;
     a \<leftarrow> kmem_obj_to_slab s obj;
     off \<leftarrow> kmem_calc_align_offset (caches s k);
     let hp = obj - off - SIZEOF_OBJ_HEAD;
     let s = upd_slab s a (\<lambda>sl. sl\<lparr>objects := objects sl @ [hp]\<rparr>);
     let s = (if obj_count (slabs s a) = objs_per_slab (caches s k)
       then upd_cache s k (\<lambda>kc. (unlink_slab a kc)\<lparr>partial_slabs := partial_slabs (unlink_slab a kc) @ [a]\<rparr>) else s);
     let s = upd_slab s a (\<lambda>sl. sl\<lparr>obj_count := obj_count sl - 1\<rparr>);
     Some (if obj_count (slabs s a) = 0
       then upd_cache s k (\<lambda>kc. (unlink_slab a kc)\<lparr>free_slabs := free_slabs (unlink_slab a kc) @ [a]\<rparr>) else s)
   }"

section \<open>References to caches\<close>

definition get_kmem_cache :: "kmem \<Rightarrow> string \<Rightarrow> u64 option \<times> kmem" where
  "get_kmem_cache s name =
     (case cache_db s name of
        None \<Rightarrow> (None, s)
      | Some k \<Rightarrow> (Some k, upd_cache s k (\<lambda>kc. kc\<lparr>usage_count := usage_count kc + 1\<rparr>)))"

text \<open>
  \<open>put_kmem_cache\<close> up to the call of \<open>free_kmem_cache\<close>, and whether it makes that call;
  \<open>free_kmem_cache\<close> is \<open>kfree\<close>, which calls \<open>put_kmem_cache\<close> for the cache of the freed object.
\<close>

definition put_release :: "kmem \<Rightarrow> u64 \<Rightarrow> (bool \<times> kmem) option" where
  "put_release s k = do {
     kassert (0 < usage_count (caches s k));
     let s = upd_cache s k (\<lambda>kc. kc\<lparr>usage_count := usage_count kc - 1\<rparr>);
     if sflags (caches s k) AND KM_SLAB_PREDEFINED_CACHE \<noteq> 0 then Some (False, s)
     else Some (usage_count (caches s k) = 0 \<and> kc_state (caches s k) AND KM_STATE_DELAY_DESTROY \<noteq> 0, s)
   }"

partial_function (option) kfree :: "kmem \<Rightarrow> u64 option \<Rightarrow> kmem option" where
  "kfree s obj =
     (case obj of
        None \<Rightarrow> Some s
      | Some obj \<Rightarrow> do {
          a \<leftarrow> kmem_obj_to_slab s obj;
          let k = kmcache_ref (slabs s a);
          let (ref, s) = get_kmem_cache s (kc_name (caches s k));
          kassert (ref = Some k);
          s \<leftarrow> kmem_cache_free s k obj;
          (unused, s) \<leftarrow> put_release s k;
          if unused then kfree s (Some k) else Some s
        })"

definition put_kmem_cache :: "kmem \<Rightarrow> u64 \<Rightarrow> kmem option" where
  "put_kmem_cache s k = do {
     (unused, s) \<leftarrow> put_release s k;
     if unused then kfree s (Some k) else Some s
   }"

section \<open>Caches\<close>

definition kmem_cache_init ::
  "kmem \<Rightarrow> u64 \<Rightarrow> string \<Rightarrow> u64 \<Rightarrow> u32 \<Rightarrow> u64 \<Rightarrow> u64 \<Rightarrow> u64 option \<Rightarrow> u64 option \<Rightarrow> (int \<times> kmem) option" where
  "kmem_cache_init s k name sz flags align lim constructor destructor = do {
     kassert (0 < sz);
     let kc = (caches s k)\<lparr>kc_name := name, obj_size := sz, kc_align := (if align \<noteq> KM_ALIGN_HW then align else 8)\<rparr>;
     kc \<leftarrow> calc_slab_param kc;
     kc \<leftarrow> setup_color_param kc;
     let kc = kc\<lparr>sflags := (if kmem_is_off_slab kc then KM_SLAB_ON_SLAB else KM_SLAB_OFF_SLAB) OR flags,
       partial_slabs := [], full_slabs := [], free_slabs := [], slab_count := 0, usage_count := 0, kc_state := 0,
       limits := (if lim = KM_LIMIT_DEFAULT then KM_DEFAULT_LIMIT else lim)\<rparr>;
     let kc = (case constructor of None \<Rightarrow> kc | Some f \<Rightarrow> kc\<lparr>kc_constructor := Some f\<rparr>);
     let kc = (case destructor of None \<Rightarrow> kc | Some f \<Rightarrow> kc\<lparr>kc_destructor := Some f\<rparr>);
     let (rc, s) = add_kmem_cache_into_db (upd_cache s k (\<lambda>_. kc)) k;
     s \<leftarrow> (if rc \<noteq> 0 \<and> sflags kc AND KM_SLAB_PREDEFINED_CACHE = 0 then kfree s (Some k) else Some s);
     Some (rc, s)
   }"

text \<open>The loop of \<open>kmem_cache_reap\<close> over the free slabs.\<close>

fun reap_loop :: "kmem \<Rightarrow> u64 \<Rightarrow> bool \<Rightarrow> u64 list \<Rightarrow> kmem option" where
  "reap_loop s k force [] = Some s"
| "reap_loop s k force (a # q) =
     (if \<not> force \<and> slab_count (caches s k) < limits (caches s k) then Some s
      else do {
        kassert (0 < slab_count (caches s k));
        let s = upd_cache s k (\<lambda>kc. kc\<lparr>free_slabs := q\<rparr>);
        let page = slab_page (slabs s a);
        p \<leftarrow> mark_pages None page (page + slab_size (caches s k)) (pages s);
        p \<leftarrow> free_buddy_pages p page;
        reap_loop (upd_cache (s\<lparr>pages := p\<rparr>) k (\<lambda>kc. kc\<lparr>slab_count := slab_count kc - 1\<rparr>)) k force q
      })"

definition kmem_cache_reap :: "kmem \<Rightarrow> u64 \<Rightarrow> bool \<Rightarrow> (int \<times> kmem) option" where
  "kmem_cache_reap s k force =
     (if free_slabs (caches s k) = [] then Some (- EBUSY, s)
      else do { s \<leftarrow> reap_loop s k force (free_slabs (caches s k)); Some (0, s) })"

definition kmem_cache_destroy :: "kmem \<Rightarrow> u64 \<Rightarrow> kmem option" where
  "kmem_cache_destroy s k =
     (if sflags (caches s k) AND KM_SLAB_PREDEFINED_CACHE \<noteq> 0 then Some s
      else if partial_slabs (caches s k) \<noteq> [] \<or> full_slabs (caches s k) \<noteq> [] then Some s
      else do {
        (_, s) \<leftarrow> remove_kmem_cache_from_db s k;
        if usage_count (caches s k) = 0 then do {
          (rc, s) \<leftarrow> kmem_cache_reap s k True;
          kassert (rc = 0);
          kfree s (Some k)
        } else Some (upd_cache s k (\<lambda>kc. kc\<lparr>kc_state := kc_state kc OR KM_STATE_DELAY_DESTROY\<rparr>))
      })"

section \<open>Allocation by size\<close>

abbreviation KM_MIN_KMALLOC_SHIFT :: nat where "KM_MIN_KMALLOC_SHIFT \<equiv> 3"
abbreviation KMALLOC_NR :: nat where "KMALLOC_NR \<equiv> 15"

definition kmalloc_dic :: "(u64 \<times> string) list" where
  "kmalloc_dic = [(8, ''kmalloc-8''), (16, ''kmalloc-16''), (32, ''kmalloc-32''), (64, ''kmalloc-64''), (128, ''kmalloc-128''),
     (256, ''kmalloc-256''), (512, ''kmalloc-512''), (1024, ''kmalloc-1024''), (2048, ''kmalloc-2048''), (4096, ''kmalloc-4096''),
     (8192, ''kmalloc-8192''), (16384, ''kmalloc-16384''), (32768, ''kmalloc-32768''), (65536, ''kmalloc-65536''),
     (131072, ''kmalloc-131072'')]"

text \<open>\<open>base\<close> is the address of the array \<^verbatim>\<open>kmalloc_caches\<close>.\<close>

definition kmalloc_cache :: "u64 \<Rightarrow> nat \<Rightarrow> u64" where
  "kmalloc_cache base idx = base + of_nat idx * SIZEOF_KMEM_CACHE"

fun find_kmalloc_from :: "u64 \<Rightarrow> nat \<Rightarrow> nat \<Rightarrow> nat option" where
  "find_kmalloc_from siz idx 0 = None"
| "find_kmalloc_from siz idx (Suc n) =
     (if siz \<le> push_bit (idx + KM_MIN_KMALLOC_SHIFT) 1 then Some idx else find_kmalloc_from siz (idx + 1) n)"

definition find_kmalloc_ent :: "u64 \<Rightarrow> u64 \<Rightarrow> u64 option" where
  "find_kmalloc_ent base siz = map_option (kmalloc_cache base) (find_kmalloc_from siz 0 KMALLOC_NR)"

definition kmalloc :: "u64 \<Rightarrow> kmem \<Rightarrow> u64 \<Rightarrow> (u64 option \<times> kmem) option" where
  "kmalloc base s siz =
     (case find_kmalloc_ent base siz of
        None \<Rightarrow> Some (None, s)
      | Some k \<Rightarrow> do {
          let (ref, s) = get_kmem_cache s (kc_name (caches s k));
          kassert (ref = Some k);
          (obj, s) \<leftarrow> kmem_cache_alloc s k;
          s \<leftarrow> put_kmem_cache s k;
          Some (obj, s)
        })"

fun cache_init_from :: "u64 \<Rightarrow> kmem \<Rightarrow> nat \<Rightarrow> (u64 \<times> string) list \<Rightarrow> kmem option" where
  "cache_init_from base s i [] = Some s"
| "cache_init_from base s i ((siz, name) # dic) = do {
     let k = kmalloc_cache base i;
     (_, s) \<leftarrow> kmem_cache_init s k name siz (KM_SLAB_ON_SLAB OR KM_SLAB_PREDEFINED_CACHE) KM_ALIGN_HW KM_LIMIT_DEFAULT None None;
     s \<leftarrow> (if \<not> kmem_is_off_slab (caches s k) then do { (rc, s) \<leftarrow> kmem_cache_grow s k; kassert (rc = 0); Some s } else Some s);
     cache_init_from base s (i + 1) dic
   }"

definition kmalloc_cache_init :: "u64 \<Rightarrow> kmem \<Rightarrow> kmem option" where
  "kmalloc_cache_init base s = cache_init_from base s 0 kmalloc_dic"

text \<open>
  \<open>kmem_cache_create\<close> passes its arguments to \<open>kmem_cache_init\<close> in the order name, size, alignment, limit, 0, where
  \<open>kmem_cache_init\<close> has name, size, flags, alignment, limit.
\<close>

definition kmem_cache_create ::
  "u64 \<Rightarrow> kmem \<Rightarrow> string \<Rightarrow> u64 \<Rightarrow> u64 \<Rightarrow> u64 \<Rightarrow> u64 option \<Rightarrow> u64 option \<Rightarrow> (int \<times> kmem) option" where
  "kmem_cache_create base s name sz align lim constructor destructor = do {
     (kcp, s) \<leftarrow> kmalloc base s SIZEOF_KMEM_CACHE;
     (case kcp of
        None \<Rightarrow> Some (- ENOMEM, s)
      | Some k \<Rightarrow> kmem_cache_init s k name sz (ucast align) lim 0 constructor destructor)
   }"

section \<open>Geometry\<close>

text \<open>
  \<open>pad\<close> is the space between the list head of an object and the object, \<open>cell\<close> the size of an object
  with both; \<open>head kc a i\<close> is the list head of object \<open>i\<close> of the slab at \<open>a\<close>.
\<close>

definition pad :: "kmem_cache \<Rightarrow> u64" where
  "pad kc = (if obj_size kc mod kc_align kc \<noteq> 0 then kc_align kc - obj_size kc mod kc_align kc else 0)"

definition cell :: "kmem_cache \<Rightarrow> nat" where
  "cell kc = 16 + unat (pad kc) + unat (obj_size kc)"

definition head :: "kmem_cache \<Rightarrow> u64 \<Rightarrow> nat \<Rightarrow> u64" where
  "head kc a i = a + SIZEOF_SLAB + of_nat (i * cell kc)"

text \<open>
  The parameters of a cache fit: a slab of \<open>2 ^ ord\<close> pages has room for the descriptor at any colour and
  all the objects behind it, at least one.
\<close>

definition geom :: "kmem_cache \<Rightarrow> nat \<Rightarrow> bool" where
  "geom kc ord \<longleftrightarrow> 0 < obj_size kc \<and> kc_align kc \<noteq> 0 \<and> ord < PAGE_POOL_MAX_ORDER \<and> slab_size kc = push_bit ord PAGE_SIZE \<and>
     0 < objs_per_slab kc \<and> (color_num kc = 0 \<or> color_next kc < color_num kc) \<and>
     64 * (unat (color_num kc) - 1) + 248 + unat (objs_per_slab kc) * cell kc \<le> 4096 * 2 ^ ord"

lemma pow_ord: "ord < PAGE_POOL_MAX_ORDER \<Longrightarrow> (4096 :: nat) * 2 ^ ord \<le> 2 ^ 22"
  using power_increasing [of ord 10 "2::nat"] by simp

lemma geom_cell:
  assumes "geom kc ord"
  shows "cell kc \<le> 4096 * 2 ^ ord" and "0 < cell kc"
proof -
  have "0 < unat (objs_per_slab kc)" using assms by (simp add: geom_def word_less_nat_alt)
  then have "cell kc \<le> unat (objs_per_slab kc) * cell kc" by simp
  moreover have "unat (objs_per_slab kc) * cell kc \<le> 4096 * 2 ^ ord" using assms by (simp add: geom_def)
  ultimately show "cell kc \<le> 4096 * 2 ^ ord" by linarith
  show "0 < cell kc" by (simp add: cell_def)
qed

lemma geom_sizes:
  assumes "geom kc ord"
  shows "kmem_calc_align_offset kc = Some (pad kc)" and "calc_slab_data_size kc = Some (of_nat (cell kc))"
    and "slab_size kc = of_nat (4096 * 2 ^ ord)"
proof -
  have lt: "cell kc < 2 ^ 64" using geom_cell(1) [OF assms] pow_ord [of ord] assms by (simp add: geom_def)
  show k: "kmem_calc_align_offset kc = Some (pad kc)" using assms by (simp add: kmem_calc_align_offset_def pad_def geom_def)
  have "SIZEOF_OBJ_HEAD + pad kc + obj_size kc = of_nat (cell kc)" by (simp add: cell_def)
  then show "calc_slab_data_size kc = Some (of_nat (cell kc))" using k assms by (simp add: calc_slab_data_size_def geom_def)
  show "slab_size kc = of_nat (4096 * 2 ^ ord)" using assms by (simp add: geom_def push_bit_eq_mult)
qed

lemma order_loop_exact: "ord < n \<Longrightarrow> n \<le> 64 \<Longrightarrow> order_loop (push_bit ord 1) n res = ord"
proof (induction n)
  case (Suc n)
  have "(push_bit ord 1 AND push_bit n 1 :: u64) \<noteq> 0 \<longleftrightarrow> n = ord"
  proof (cases "n = ord")
    case True
    have "bit (push_bit ord 1 :: u64) ord" using Suc.prems by (simp add: bit_push_bit_iff bit_exp_iff)
    then have "(push_bit ord 1 :: u64) \<noteq> 0" by (metis bit_0_eq bot_apply bot_bool_def)
    then show ?thesis using True by simp
  next
    case False
    then have "(push_bit ord 1 AND push_bit n 1 :: u64) = 0"
      by (intro bit_eqI) (auto simp: bit_and_iff bit_push_bit_iff bit_1_iff bit_exp_iff)
    then show ?thesis using False by simp
  qed
  then show ?case using Suc by (cases "n = ord") auto
qed simp

lemma slab_order:
  assumes "geom kc ord"
  shows "calc_page_order (slab_size kc) res = ord" and "slab_size kc AND (PAGE_SIZE - 1) = 0"
proof -
  have o: "ord < 11" and sz: "slab_size kc = push_bit ord PAGE_SIZE" using assms by (auto simp: geom_def)
  have eq: "slab_size kc = push_bit (ord + 12) 1" unfolding sz by (simp add: push_bit_eq_mult power_add)
  have al: "push_bit (ord + 12) 1 AND (PAGE_SIZE - 1) = 0"
  proof -
    have m: "(PAGE_SIZE - 1 :: u64) = mask 12" by (simp add: mask_eq_exp_minus_1)
    show ?thesis unfolding m by (rule bit_eqI) (auto simp: bit_and_iff bit_push_bit_iff bit_1_iff bit_exp_iff bit_mask_iff)
  qed
  then show "slab_size kc AND (PAGE_SIZE - 1) = 0" unfolding eq .
  have dr: "drop_bit 12 (push_bit (ord + 12) 1 :: u64) = push_bit ord 1"
    using o by (intro bit_eqI) (auto simp: bit_drop_bit_eq bit_push_bit_iff bit_1_iff bit_exp_iff)
  have nz: "(push_bit (ord + 12) 1 :: u64) \<noteq> 0" using o by (auto simp: bit_eq_iff bit_push_bit_iff bit_1_iff bit_exp_iff intro!: exI [of _ "ord + 12"])
  show "calc_page_order (slab_size kc) res = ord"
    unfolding eq calc_page_order_def Let_def using al dr nz order_loop_exact [of ord 11 res] o by simp
qed

section \<open>Invariant\<close>

definition slabs_of :: "kmem_cache \<Rightarrow> u64 list" where
  "slabs_of kc = partial_slabs kc @ full_slabs kc @ free_slabs kc"

text \<open>
  A slab at \<open>a\<close> of cache \<open>k\<close>: it lies in a block of pages in use, all of whose bytes lead back to it; its
  free objects are objects of the slab, once each, and the count is the number of the others.
\<close>

definition slab_inv :: "kmem \<Rightarrow> u64 \<Rightarrow> nat \<Rightarrow> u64 \<Rightarrow> bool" where
  "slab_inv s k ord a \<longleftrightarrow> (let kc = caches s k; sl = slabs s a in
     kmcache_ref sl = k \<and> slab_page sl + color_offset sl = a \<and> unat (color_offset sl) \<le> 64 * (unat (color_num kc) - 1) \<and>
     (slab_page sl, ord) \<in> pool_blocks (pages s) \<and> (\<forall>x \<in> block_bytes (slab_page sl) ord. page_owner (pages s) x = Some a) \<and>
     distinct (objects sl) \<and> set (objects sl) \<subseteq> head kc a ` {..<unat (objs_per_slab kc)} \<and>
     unat (obj_count sl) + length (objects sl) = unat (objs_per_slab kc))"

text \<open>
  A cache: its slabs are well-formed and each is in the queue its count says; in \<open>X\<close> are slabs an operation has
  put into the queue of partly used slabs before it takes their first object.
\<close>

definition cache_but :: "u64 set \<Rightarrow> kmem \<Rightarrow> u64 \<Rightarrow> bool" where
  "cache_but X s k \<longleftrightarrow> (let kc = caches s k in \<exists>ord. geom kc ord \<and> distinct (slabs_of kc) \<and> (\<forall>a \<in> set (slabs_of kc). slab_inv s k ord a) \<and>
     (\<forall>a \<in> set (partial_slabs kc). obj_count (slabs s a) < objs_per_slab kc \<and> (a \<notin> X \<longrightarrow> 0 < obj_count (slabs s a))) \<and>
     (\<forall>a \<in> set (full_slabs kc). obj_count (slabs s a) = objs_per_slab kc) \<and>
     (\<forall>a \<in> set (free_slabs kc). obj_count (slabs s a) = 0) \<and>
     slab_count kc = of_nat (length (slabs_of kc)) \<and> cache_db s (kc_name kc) = Some k)"

abbreviation cache_inv :: "kmem \<Rightarrow> u64 \<Rightarrow> bool" where
  "cache_inv \<equiv> cache_but {}"

definition pages_ok_for :: "kmem \<Rightarrow> bool" where
  "pages_ok_for s \<longleftrightarrow> pool_inv (pages s) \<and> straight (pages s)"

definition kmem_inv :: "kmem \<Rightarrow> bool" where
  "kmem_inv s \<longleftrightarrow> pages_ok_for s \<and> (\<forall>name k. cache_db s name = Some k \<longrightarrow> kc_name (caches s k) = name \<and> cache_inv s k)"

text \<open>The objects of a cache that are handed out.\<close>

definition obj_at :: "kmem_cache \<Rightarrow> u64 \<Rightarrow> nat \<Rightarrow> u64" where
  "obj_at kc a i = head kc a i + SIZEOF_OBJ_HEAD + pad kc"

definition live :: "kmem \<Rightarrow> u64 \<Rightarrow> u64 set" where
  "live s k = {obj_at (caches s k) a i | a i. a \<in> set (slabs_of (caches s k)) \<and> i < unat (objs_per_slab (caches s k)) \<and>
     head (caches s k) a i \<notin> set (objects (slabs s a))}"

subsection \<open>Addresses in a slab\<close>

lemma slab_room:
  assumes P: "pages_ok_for s" and g: "geom (caches s k) ord" and sl: "slab_inv s k ord a"
  defines "kc \<equiv> caches s k" and "page \<equiv> slab_page (slabs s a)"
  shows "unat page \<le> unat a" and "unat a + 248 + unat (objs_per_slab kc) * cell kc \<le> unat page + 4096 * 2 ^ ord"
    and "unat page + 4096 * 2 ^ ord < 2 ^ 64" and "a \<noteq> 0"
    and "i \<le> unat (objs_per_slab kc) \<Longrightarrow> unat (head kc a i) = unat a + 248 + i * cell kc"
proof -
  have b: "(page, ord) \<in> pool_blocks (pages s)" and a: "page + color_offset (slabs s a) = a"
    and c: "unat (color_offset (slabs s a)) \<le> 64 * (unat (color_num kc) - 1)"
    using sl by (auto simp: slab_inv_def Let_def kc_def page_def)
  have inv: "pool_inv (pages s)" "straight (pages s)" using P by (auto simp: pages_ok_for_def)
  from block_lookup [OF inv b] have lt: "unat page + 4096 * 2 ^ ord < 2 ^ 64" and base: "unat KERN_VMA_BASE \<le> unat page" by (metis, metis)
  have fit: "64 * (unat (color_num kc) - 1) + 248 + unat (objs_per_slab kc) * cell kc \<le> 4096 * 2 ^ ord" using g by (simp add: geom_def kc_def)
  have ua: "unat a = unat page + unat (color_offset (slabs s a))"
  proof -
    define c0 where "c0 = color_offset (slabs s a)"
    have "unat a = unat (page + c0)" using a by (simp add: c0_def)
    then show ?thesis using c fit lt unfolding c0_def [symmetric] by (simp add: unat_word_ariths)
  qed
  show "unat page \<le> unat a" and "unat page + 4096 * 2 ^ ord < 2 ^ 64" using ua lt by simp_all
  show room: "unat a + 248 + unat (objs_per_slab kc) * cell kc \<le> unat page + 4096 * 2 ^ ord" using ua c fit by linarith
  show "a \<noteq> 0" using ua base by auto
  assume "i \<le> unat (objs_per_slab kc)"
  then have "i * cell kc \<le> unat (objs_per_slab kc) * cell kc" by (rule mult_le_mono1)
  then have lim: "unat a + 248 + i * cell kc < 2 ^ 64" using room lt by linarith
  then show "unat (head kc a i) = unat a + 248 + i * cell kc"
    by (simp add: head_def unat_word_ariths unat_of_nat del: of_nat_mult)
qed

lemma cell_mult: "i < n \<Longrightarrow> i * cell kc + cell kc \<le> n * cell kc"
  by (metis Suc_leI add.commute mult_Suc mult_le_mono1)

lemma head_inj:
  assumes P: "pages_ok_for s" and g: "geom (caches s k) ord" and sl: "slab_inv s k ord a"
    and i: "i < unat (objs_per_slab (caches s k))" "j < unat (objs_per_slab (caches s k))" and eq: "head (caches s k) a i = head (caches s k) a j"
  shows "i = j"
proof -
  have "unat a + 248 + i * cell (caches s k) = unat a + 248 + j * cell (caches s k)"
    using slab_room(5) [OF P g sl] i eq by (metis less_imp_le)
  then show ?thesis using geom_cell(2) [OF g] by simp
qed

text \<open>Object \<open>i\<close> with its head takes the bytes from \<open>i * cell\<close> on behind the descriptor, inside the block.\<close>

lemma obj_bytes:
  assumes P: "pages_ok_for s" and g: "geom (caches s k) ord" and sl: "slab_inv s k ord a" and i: "i < unat (objs_per_slab (caches s k))"
  defines "kc \<equiv> caches s k" and "page \<equiv> slab_page (slabs s a)"
  shows "unat (obj_at kc a i) = unat a + 248 + i * cell kc + 16 + unat (pad kc)"
    and "unat (obj_at kc a i) + unat (obj_size kc) = unat a + 248 + i * cell kc + cell kc"
    and "unat (obj_at kc a i) + unat (obj_size kc) \<le> unat page + 4096 * 2 ^ ord"
    and "obj_at kc a i \<in> block_bytes page ord"
proof -
  note R = slab_room [OF P g sl, folded kc_def page_def]
  have h: "unat (head kc a i) = unat a + 248 + i * cell kc" using R(5) i by (simp add: kc_def)
  have top: "unat a + 248 + i * cell kc + cell kc \<le> unat page + 4096 * 2 ^ ord"
    using cell_mult [OF i, of kc] R(2) by (simp add: kc_def)
  have pos: "0 < unat (obj_size kc)" using g by (simp add: geom_def kc_def word_less_nat_alt)
  show u: "unat (obj_at kc a i) = unat a + 248 + i * cell kc + 16 + unat (pad kc)"
    using h top R(3) pos by (simp add: obj_at_def unat_word_ariths cell_def)
  show t: "unat (obj_at kc a i) + unat (obj_size kc) = unat a + 248 + i * cell kc + cell kc" unfolding u by (simp add: cell_def)
  then show "unat (obj_at kc a i) + unat (obj_size kc) \<le> unat page + 4096 * 2 ^ ord" using top by simp
  then show "obj_at kc a i \<in> block_bytes page ord" using u R(1) pos by (simp add: block_bytes_def)
qed

subsection \<open>What an operation keeps\<close>

definition same_geom :: "kmem_cache \<Rightarrow> kmem_cache \<Rightarrow> bool" where
  "same_geom kc kc' \<longleftrightarrow> obj_size kc' = obj_size kc \<and> kc_align kc' = kc_align kc \<and> slab_size kc' = slab_size kc \<and>
     objs_per_slab kc' = objs_per_slab kc \<and> color_num kc' = color_num kc \<and> kc_name kc' = kc_name kc"

lemma same_geomD:
  assumes "same_geom kc kc'"
  shows "pad kc' = pad kc" and "cell kc' = cell kc" and "head kc' = head kc" and "obj_at kc' = obj_at kc"
    and "objs_per_slab kc' = objs_per_slab kc" and "kc_name kc' = kc_name kc"
    and "color_next kc' = color_next kc \<Longrightarrow> geom kc' ord = geom kc ord"
proof -
  show p: "pad kc' = pad kc" and c: "cell kc' = cell kc" using assms by (simp_all add: same_geom_def pad_def cell_def)
  show h: "head kc' = head kc" by (intro ext) (simp add: head_def c)
  show "obj_at kc' = obj_at kc" by (intro ext) (simp add: obj_at_def h p)
  show "objs_per_slab kc' = objs_per_slab kc" and "kc_name kc' = kc_name kc" using assms by (simp_all add: same_geom_def)
  show "color_next kc' = color_next kc \<Longrightarrow> geom kc' ord = geom kc ord" using assms by (simp add: geom_def c same_geom_def)
qed

definition block_kept :: "page_pool \<Rightarrow> page_pool \<Rightarrow> u64 \<Rightarrow> nat \<Rightarrow> bool" where
  "block_kept p p' page ord \<longleftrightarrow> (page, ord) \<in> pool_blocks p' \<and> (\<forall>x \<in> block_bytes page ord. page_owner p' x = page_owner p x)"

lemma slab_inv_kept:
  assumes "slab_inv s k ord a" and "same_geom (caches s k) (caches s' k)" and "slabs s' a = slabs s a"
    and "block_kept (pages s) (pages s') (slab_page (slabs s a)) ord"
  shows "slab_inv s' k ord a"
  using assms same_geomD [OF assms(2)] by (auto simp: slab_inv_def Let_def block_kept_def same_geom_def)

lemma slab_block: "slab_inv s k ord a \<Longrightarrow> (slab_page (slabs s a), ord) \<in> pool_blocks (pages s)"
  by (simp add: slab_inv_def Let_def)

lemma slab_owner: "slab_inv s k ord a \<Longrightarrow> x \<in> block_bytes (slab_page (slabs s a)) ord \<Longrightarrow> page_owner (pages s) x = Some a"
  unfolding slab_inv_def Let_def by blast

lemma block_kept_refl [simp]: "(page, ord) \<in> pool_blocks p \<Longrightarrow> block_kept p p page ord"
  by (simp add: block_kept_def)

lemma cache_butE:
  assumes "cache_but X s k"
  obtains ord where "geom (caches s k) ord" "distinct (slabs_of (caches s k))" "\<forall>a \<in> set (slabs_of (caches s k)). slab_inv s k ord a"
    "\<forall>a \<in> set (partial_slabs (caches s k)). obj_count (slabs s a) < objs_per_slab (caches s k) \<and> (a \<notin> X \<longrightarrow> 0 < obj_count (slabs s a))"
    "\<forall>a \<in> set (full_slabs (caches s k)). obj_count (slabs s a) = objs_per_slab (caches s k)"
    "\<forall>a \<in> set (free_slabs (caches s k)). obj_count (slabs s a) = 0"
    "slab_count (caches s k) = of_nat (length (slabs_of (caches s k)))" "cache_db s (kc_name (caches s k)) = Some k"
  using assms unfolding cache_but_def Let_def by (elim exE conjE) (rule that)

text \<open>An operation on cache \<open>k\<close> that leaves the slabs of another cache alone keeps that cache.\<close>

lemma other_cache_kept:
  assumes c: "cache_inv s k'" and kc: "caches s' k' = caches s k'" and db: "cache_db s' (kc_name (caches s k')) = cache_db s (kc_name (caches s k'))"
    and sl: "\<And>a. a \<in> set (slabs_of (caches s k')) \<Longrightarrow> slabs s' a = slabs s a"
    and bl: "\<And>a ord. a \<in> set (slabs_of (caches s k')) \<Longrightarrow> slab_inv s k' ord a \<Longrightarrow> block_kept (pages s) (pages s') (slab_page (slabs s a)) ord"
  shows "cache_inv s' k'" and "live s' k' = live s k'"
proof -
  define K where "K = caches s k'"
  from cache_butE [OF c] obtain ord where o: "geom K ord" "distinct (slabs_of K)" "\<forall>a \<in> set (slabs_of K). slab_inv s k' ord a"
    "\<forall>a \<in> set (partial_slabs K). obj_count (slabs s a) < objs_per_slab K \<and> (a \<notin> {} \<longrightarrow> 0 < obj_count (slabs s a))"
    "\<forall>a \<in> set (full_slabs K). obj_count (slabs s a) = objs_per_slab K" "\<forall>a \<in> set (free_slabs K). obj_count (slabs s a) = 0"
    "slab_count K = of_nat (length (slabs_of K))" "cache_db s (kc_name K) = Some k'"
    unfolding K_def [symmetric] .
  have sl': "slabs s' a = slabs s a" if "a \<in> set (partial_slabs K) \<or> a \<in> set (full_slabs K) \<or> a \<in> set (free_slabs K)" for a
    using sl [of a] that by (auto simp: slabs_of_def K_def)
  have inv: "\<forall>a \<in> set (slabs_of K). slab_inv s' k' ord a"
  proof
    fix a assume a: "a \<in> set (slabs_of K)"
    show "slab_inv s' k' ord a"
      by (rule slab_inv_kept [of s]) (use o(3) a sl bl in \<open>auto simp: kc same_geom_def K_def\<close>)
  qed
  show "cache_inv s' k'"
    unfolding cache_but_def Let_def kc K_def [symmetric] using o inv db sl' by (intro exI [of _ ord]) (simp add: K_def [symmetric])
  show "live s' k' = live s k'" using sl by (force simp: live_def kc)
qed

text \<open>The state after an operation on cache \<open>k\<close> that may have changed slab \<open>a\<close>, and no pages.\<close>

definition only_slab :: "u64 \<Rightarrow> u64 \<Rightarrow> kmem \<Rightarrow> kmem \<Rightarrow> bool" where
  "only_slab k a s s' \<longleftrightarrow> pages s' = pages s \<and> cache_db s' = cache_db s \<and> (\<forall>k'. k' \<noteq> k \<longrightarrow> caches s' k' = caches s k') \<and>
     (\<forall>a'. a' \<noteq> a \<longrightarrow> slabs s' a' = slabs s a')"

lemma only_slab_kept:
  assumes "only_slab k a s s'" and "kmcache_ref (slabs s a) = k" and "cache_inv s k'" and "k' \<noteq> k"
  shows "cache_inv s' k'" and "live s' k' = live s k'"
proof -
  have ne: "a' \<noteq> a" if a': "a' \<in> set (slabs_of (caches s k'))" for a'
  proof -
    have "kmcache_ref (slabs s a') = k'" using assms(3) a' by (auto simp: cache_but_def slab_inv_def Let_def)
    then show ?thesis using assms(2,4) by auto
  qed
  have ckd: "caches s' k' = caches s k'" "cache_db s' (kc_name (caches s k')) = cache_db s (kc_name (caches s k'))"
    "\<And>a'. a' \<in> set (slabs_of (caches s k')) \<Longrightarrow> slabs s' a' = slabs s a'"
    using assms(1,4) ne by (auto simp: only_slab_def)
  have bk: "block_kept (pages s) (pages s') (slab_page (slabs s a')) ord" if "slab_inv s k' ord a'" for a' ord
    using assms(1) slab_block [OF that] by (simp add: only_slab_def)
  show "cache_inv s' k'" and "live s' k' = live s k'" using other_cache_kept [OF assms(3) ckd bk] by blast+
qed

text \<open>Different slabs have no byte in common, and objects at the same address are the same object.\<close>

lemma slab_blocks_disjoint:
  assumes P: "pages_ok_for s" and a: "slab_inv s k ord a" and b: "slab_inv s k' ord' b" and ne: "a \<noteq> b"
  shows "block_bytes (slab_page (slabs s a)) ord \<inter> block_bytes (slab_page (slabs s b)) ord' = {}"
proof (cases "slab_page (slabs s a) = slab_page (slabs s b)")
  case True
  have "page_owner (pages s) (slab_page (slabs s a)) = Some a" by (rule slab_owner [OF a]) (simp add: block_bytes_def)
  moreover have "page_owner (pages s) (slab_page (slabs s b)) = Some b" by (rule slab_owner [OF b]) (simp add: block_bytes_def)
  ultimately have "a = b" unfolding True by (metis option.inject)
  then show ?thesis using ne by contradiction
next
  case False
  then show ?thesis using P slab_block [OF a] slab_block [OF b] by (intro pool_blocks_disjoint) (auto simp: pages_ok_for_def)
qed

lemma obj_at_inj:
  assumes P: "pages_ok_for s" and g: "geom (caches s k) ord" "geom (caches s k') ord'" and sl: "slab_inv s k ord a" "slab_inv s k' ord' b"
    and i: "i < unat (objs_per_slab (caches s k))" "j < unat (objs_per_slab (caches s k'))"
    and eq: "obj_at (caches s k) a i = obj_at (caches s k') b j"
  shows "a = b \<and> k = k' \<and> i = j"
proof -
  have "a = b" using slab_blocks_disjoint [OF P sl] obj_bytes(4) [OF P g(1) sl(1) i(1)] obj_bytes(4) [OF P g(2) sl(2) i(2)] eq by auto
  moreover have "k = k'" using sl calculation by (simp add: slab_inv_def Let_def)
  moreover have "i = j" using eq calculation head_inj [OF P g(1) sl(1) i(1), of j] i(2) by (simp add: obj_at_def)
  ultimately show ?thesis by simp
qed

subsection \<open>Taking an object out of a slab\<close>

lemma cache_slabD:
  assumes "cache_but X s k" and "a \<in> set (slabs_of (caches s k))"
  obtains ord where "geom (caches s k) ord" "slab_inv s k ord a"
  using assms by (auto simp: cache_but_def Let_def)

lemma live_other_slabs:
  assumes "same_geom (caches s k) (caches s' k)" and "set (slabs_of (caches s' k)) = set (slabs_of (caches s k))"
    and "\<And>a'. a' \<noteq> a \<Longrightarrow> slabs s' a' = slabs s a'"
  shows "live s' k = {obj_at (caches s k) a' i | a' i. a' \<in> set (slabs_of (caches s k)) - {a} \<and> i < unat (objs_per_slab (caches s k)) \<and>
      head (caches s k) a' i \<notin> set (objects (slabs s a'))} \<union>
    (if a \<in> set (slabs_of (caches s k)) then {obj_at (caches s k) a i | i. i < unat (objs_per_slab (caches s k)) \<and>
      head (caches s k) a i \<notin> set (objects (slabs s' a))} else {})"
  unfolding live_def assms(2) same_geomD [OF assms(1)] using assms(3) by (auto split: if_splits) metis+


lemma call_hook_simps [simp]:
  "pages (call_hook f obj s) = pages s" "caches (call_hook f obj s) = caches s" "slabs (call_hook f obj s) = slabs s"
  "cache_db (call_hook f obj s) = cache_db s"
  by (simp_all add: call_hook_def split: option.splits)

lemma cache_but_hook [simp]: "cache_but X (call_hook f obj s) k = cache_but X s k" "live (call_hook f obj s) k = live s k"
  by (simp_all add: cache_but_def slab_inv_def live_def)

lemma take_object_ok:
  assumes P: "pages_ok_for s" and C: "cache_but {a} s k" and a: "a \<in> set (partial_slabs (caches s k))"
  shows "\<exists>obj s'. take_object s k a = Some (obj, s') \<and> cache_inv s' k \<and> only_slab k a s s' \<and> same_geom (caches s k) (caches s' k) \<and>
    usage_count (caches s' k) = usage_count (caches s k) \<and> sflags (caches s' k) = sflags (caches s k) \<and>
    obj \<notin> live s k \<and> live s' k = insert obj (live s k)"
proof -
  define K where "K = caches s k"
  define sl where "sl = slabs s a"
  from cache_butE [OF C] obtain ord where o: "geom K ord" "distinct (slabs_of K)" "\<forall>a \<in> set (slabs_of K). slab_inv s k ord a"
    "\<forall>b \<in> set (partial_slabs K). obj_count (slabs s b) < objs_per_slab K \<and> (b \<notin> {a} \<longrightarrow> 0 < obj_count (slabs s b))"
    "\<forall>a \<in> set (full_slabs K). obj_count (slabs s a) = objs_per_slab K" "\<forall>a \<in> set (free_slabs K). obj_count (slabs s a) = 0"
    "slab_count K = of_nat (length (slabs_of K))" "cache_db s (kc_name K) = Some k" unfolding K_def [symmetric] .
  have ap: "a \<in> set (partial_slabs K)" and as: "a \<in> set (slabs_of K)" using a by (simp_all add: K_def slabs_of_def)
  have I: "slab_inv s k ord a" using o(3) as by blast
  have cnt: "obj_count sl < objs_per_slab K" using o(4) ap by (simp add: sl_def)
  have S: "distinct (objects sl)" "set (objects sl) \<subseteq> head K a ` {..<unat (objs_per_slab K)}"
    "unat (obj_count sl) + length (objects sl) = unat (objs_per_slab K)"
    using I by (auto simp: slab_inv_def Let_def sl_def K_def)
  obtain hp hs where ob: "objects sl = hp # hs" using S(3) cnt by (cases "objects sl") (auto simp: word_less_nat_alt)
  obtain i where i: "i < unat (objs_per_slab K)" "hp = head K a i" using S(2) ob by auto
  define sl' where "sl' = sl\<lparr>objects := hs, obj_count := obj_count sl + 1\<rparr>"
  have uc: "unat (obj_count sl + 1) = unat (obj_count sl) + 1"
    using cnt unsigned_less [of "objs_per_slab K", where ?'a = nat] by (simp add: word_less_nat_alt unat_word_ariths)
  define K' where "K' = (if obj_count sl + 1 = objs_per_slab K then (unlink_slab a K)\<lparr>full_slabs := full_slabs (unlink_slab a K) @ [a]\<rparr> else K)"
  define s1 where "s1 = s\<lparr>slabs := (slabs s)(a := sl'), caches := (caches s)(k := K')\<rparr>"
  have sg: "same_geom K K'" "color_next K' = color_next K" "usage_count K' = usage_count K" "sflags K' = sflags K" "slab_count K' = slab_count K"
    by (simp_all add: K'_def unlink_slab_def same_geom_def)
  note G = same_geomD [OF sg(1)]
  have disj: "a \<notin> set (full_slabs K)" "a \<notin> set (free_slabs K)" "distinct (partial_slabs K)" using o(2) ap by (auto simp: slabs_of_def)
  have st: "set (slabs_of K') = set (slabs_of K)" "distinct (slabs_of K')" "length (slabs_of K') = length (slabs_of K)"
    using o(2) ap disj length_pos_if_in_set [OF ap]
    by (auto simp: K'_def slabs_of_def unlink_slab_def remove1_idem length_remove1)
  have run: "take_object s k a = Some (obj_at K a i, call_hook (kc_constructor K') (obj_at K a i) s1)"
  proof -
    have off: "kmem_calc_align_offset K' = Some (pad K)"
      using geom_sizes(1) [of K' ord] G(1,7) sg(2) o(1) by simp
    show ?thesis
      using cnt ob off unfolding take_object_def K_def [symmetric] sl_def [symmetric]
      by (auto simp: upd_slab_def upd_cache_def s1_def sl'_def K'_def K_def sl_def obj_at_def i(2) Let_def fun_upd_idem)
  qed
  have sv: "slab_inv s1 k ord b" if b: "b \<in> set (slabs_of K)" for b
  proof (cases "b = a")
    case True
    have "hp \<notin> set hs" "distinct hs" using S(1) ob by auto
    then show ?thesis using True I S ob uc G(3,5) sg(1)
      by (auto simp: slab_inv_def Let_def s1_def sl'_def sl_def [symmetric] K_def [symmetric] same_geom_def)
  next
    case False
    have sb: "slab_inv s k ord b" using o(3) b by blast
    show ?thesis by (rule slab_inv_kept [OF sb]) (use False sg(1) slab_block [OF sb] in \<open>simp_all add: s1_def K_def\<close>)
  qed
  have cn: "obj_count (slabs s1 b) = (if b = a then obj_count sl + 1 else obj_count (slabs s b))" for b by (simp add: s1_def sl'_def)
  have "cache_inv s1 k"
    unfolding cache_but_def Let_def
  proof (intro exI [of _ ord] conjI ballI)
    have k1: "caches s1 k = K'" by (simp add: s1_def)
    show "geom (caches s1 k) ord" "distinct (slabs_of (caches s1 k))" using o(1) G(7) sg(2) st(2) by (simp_all add: k1)
    show "slab_inv s1 k ord b" if "b \<in> set (slabs_of (caches s1 k))" for b using that sv st(1) by (simp add: k1)
    have pos: "0 < obj_count sl + 1" using uc by (simp add: word_less_nat_alt)
    have lt: "obj_count sl + 1 \<noteq> objs_per_slab K \<Longrightarrow> obj_count sl + 1 < objs_per_slab K" using cnt uc by (simp add: word_less_nat_alt word_unat_eq_iff)
    fix b
    show "obj_count (slabs s1 b) < objs_per_slab (caches s1 k)" "b \<notin> {} \<longrightarrow> 0 < obj_count (slabs s1 b)"
      if "b \<in> set (partial_slabs (caches s1 k))"
      using that o(4) lt pos disj(3) unfolding cn k1 G(5) by (auto simp: K'_def unlink_slab_def split: if_splits)
    show "obj_count (slabs s1 b) = objs_per_slab (caches s1 k)" if "b \<in> set (full_slabs (caches s1 k))"
      using that o(5) disj(1) unfolding cn k1 G(5) by (auto simp: K'_def unlink_slab_def remove1_idem split: if_splits)
    show "obj_count (slabs s1 b) = 0" if "b \<in> set (free_slabs (caches s1 k))"
      using that o(6) disj(2) unfolding cn k1 by (auto simp: K'_def unlink_slab_def remove1_idem split: if_splits)
    show "slab_count (caches s1 k) = of_nat (length (slabs_of (caches s1 k)))" "cache_db s1 (kc_name (caches s1 k)) = Some k"
      using o(7,8) sg(5) st(3) G(6) by (simp_all add: k1) (simp add: s1_def)
  qed
  moreover have "only_slab k a s s1" by (simp add: only_slab_def s1_def)
  moreover have "obj_at K a i \<notin> live s k"
  proof
    assume "obj_at K a i \<in> live s k"
    then obtain b j where b: "obj_at K a i = obj_at K b j" "b \<in> set (slabs_of K)" "j < unat (objs_per_slab K)" "head K b j \<notin> set (objects (slabs s b))"
      by (auto simp: live_def K_def)
    have "a = b \<and> i = j" using obj_at_inj [OF P _ _ I, of k ord b i j] o(1,3) b i(1) by (simp add: K_def)
    then show False using b(4) ob i(2) by (simp add: sl_def)
  qed
  moreover have "live s1 k = insert (obj_at K a i) (live s k)"
  proof -
    have hd: "head K a j \<notin> set hs \<longleftrightarrow> j = i \<or> head K a j \<notin> set (objects sl)" if "j < unat (objs_per_slab K)" for j
      using S(1) ob i head_inj [OF P _ I, of j i] o(1) that by (auto simp: K_def)
    have "live s1 k = {obj_at K a' i | a' i. a' \<in> set (slabs_of K) - {a} \<and> i < unat (objs_per_slab K) \<and> head K a' i \<notin> set (objects (slabs s a'))} \<union>
        {obj_at K a j | j. j < unat (objs_per_slab K) \<and> head K a j \<notin> set hs}"
      using live_other_slabs [of s k s1 a] sg(1) st(1) as by (simp add: s1_def K_def sl'_def)
    moreover have "live s k = {obj_at K a' i | a' i. a' \<in> set (slabs_of K) - {a} \<and> i < unat (objs_per_slab K) \<and> head K a' i \<notin> set (objects (slabs s a'))} \<union>
        {obj_at K a j | j. j < unat (objs_per_slab K) \<and> head K a j \<notin> set (objects sl)}"
      using live_other_slabs [of s k s a] as by (simp add: same_geom_def K_def sl_def)
    moreover have "{obj_at K a j | j. j < unat (objs_per_slab K) \<and> head K a j \<notin> set hs} =
        insert (obj_at K a i) {obj_at K a j | j. j < unat (objs_per_slab K) \<and> head K a j \<notin> set (objects sl)}"
      using hd i(1) by auto
    ultimately show ?thesis by simp
  qed
  moreover have "caches s1 k = K'" by (simp add: s1_def)
  ultimately show ?thesis using run sg(1,3,4) unfolding K_def [symmetric]
    by (intro exI [of _ "obj_at K a i"] exI [of _ "call_hook (kc_constructor K') (obj_at K a i) s1"]) (simp add: only_slab_def)
qed

subsection \<open>Growing a cache\<close>

lemma refer_object_head_ok:
  assumes "geom (caches s k) ord" and "cache_db s (kc_name (caches s k)) \<noteq> None" and "kmcache_ref (slabs s a) = k"
  shows "refer_object_head s k a (of_nat i) = Some (head (caches s k) a i)"
  using assms geom_sizes(2) [OF assms(1)]
  by (simp add: refer_object_head_def assert_kmem_cache_valid_def assert_slab_valid_def head_def Let_def)

lemma object_heads_from_ok:
  assumes "geom (caches s k) ord" and "cache_db s (kc_name (caches s k)) \<noteq> None" and "kmcache_ref (slabs s a) = k"
  shows "object_heads_from s k a i n =
    Some (upd_slab s a (\<lambda>sl. sl\<lparr>objects := objects sl @ map (head (caches s k) a) [i..<i + n]\<rparr>))"
  using assms
proof (induction n arbitrary: s i)
  case 0
  have "upd_slab s a (\<lambda>sl. sl\<lparr>objects := objects sl\<rparr>) = s" by (simp add: upd_slab_def)
  then show ?case by simp
next
  case (Suc n)
  define s1 where "s1 = upd_slab s a (\<lambda>sl. sl\<lparr>objects := objects sl @ [head (caches s k) a i]\<rparr>)"
  have s1: "caches s1 = caches s" "cache_db s1 = cache_db s" "kmcache_ref (slabs s1 a) = k"
    using Suc.prems(3) by (simp_all add: s1_def upd_slab_def)
  have "object_heads_from s k a i (Suc n) = object_heads_from s1 k a (i + 1) n"
    using refer_object_head_ok [OF Suc.prems] by (simp add: s1_def)
  also have "\<dots> = Some (upd_slab s1 a (\<lambda>sl. sl\<lparr>objects := objects sl @ map (head (caches s k) a) [i + 1..<i + 1 + n]\<rparr>))"
    using Suc.IH [of s1 "i + 1"] Suc.prems s1 by simp
  also have "\<dots> = Some (upd_slab s a (\<lambda>sl. sl\<lparr>objects := objects sl @ map (head (caches s k) a) [i..<i + Suc n]\<rparr>))"
  proof -
    have "[i..<i + Suc n] = i # [i + 1..<i + 1 + n]" by (simp add: upt_conv_Cons del: upt_Suc)
    then show ?thesis by (simp add: s1_def upd_slab_def)
  qed
  finally show ?case .
qed

lemma color_offset_ok:
  assumes g: "geom (caches s k) ord" and db: "cache_db s (kc_name (caches s k)) \<noteq> None"
  shows "\<exists>c cn. update_color_offset s k = Some (c, s\<lparr>caches := (caches s)(k := (caches s k)\<lparr>color_next := cn\<rparr>)\<rparr>) \<and>
    unat c \<le> 64 * (unat (color_num (caches s k)) - 1) \<and> (color_num (caches s k) = 0 \<or> cn < color_num (caches s k))"
proof (cases "color_num (caches s k) = 0")
  case True
  then show ?thesis using db
    by (intro exI [of _ 0] exI [of _ "color_next (caches s k)"]) (simp add: update_color_offset_def assert_kmem_cache_valid_def Let_def)
next
  case False
  define K where "K = caches s k"
  have lt: "color_next K < color_num K" using g False by (simp add: geom_def K_def)
  have "64 * (unat (color_num K) - 1) + 248 \<le> 4096 * 2 ^ ord" using g by (simp add: geom_def K_def)
  moreover have "(4096 :: nat) * 2 ^ ord \<le> 2 ^ 22" using pow_ord [of ord] g by (simp add: geom_def)
  ultimately have cn: "64 * (unat (color_num K) - 1) < 2 ^ 64" by simp
  have le: "unat (color_next K) \<le> unat (color_num K) - 1" using lt by (simp add: word_less_nat_alt)
  then have "64 * unat (color_next K) \<le> 64 * (unat (color_num K) - 1)" by simp
  then have "unat (color_next K * 64) \<le> 64 * (unat (color_num K) - 1)"
    using cn by (simp add: unat_word_ariths mult.commute)
  moreover have "(color_next K + 1) mod color_num K < color_num K" using False
    by (simp add: word_less_nat_alt unat_mod K_def unat_gt_0)
  ultimately show ?thesis using False db unfolding K_def
    by (intro exI [of _ "color_next (caches s k) * 64"] exI [of _ "(color_next (caches s k) + 1) mod color_num (caches s k)"])
      (simp add: update_color_offset_def assert_kmem_cache_valid_def upd_cache_def Let_def)
qed

lemma pool_blocks_fun:
  assumes "pool_inv p" and "(a, k) \<in> pool_blocks p" and "(a, l) \<in> pool_blocks p"
  shows "k = l"
proof -
  from pool_blocksE [OF assms(1,2)] obtain j pfn where
    j: "j < length (pfque p)" "(pfn, k) \<in> used_blocks (buddy (pfque p ! j))" "a = addr_of pfn" "in_area (pfque p ! j) pfn" .
  from pool_blocksE [OF assms(1,3)] obtain j' pfn' where
    j': "j' < length (pfque p)" "(pfn', l) \<in> used_blocks (buddy (pfque p ! j'))" "a = addr_of pfn'" "in_area (pfque p ! j') pfn'" .
  have ad: "addr_of pfn = addr_of pfn'" using j(3) j'(3) by metis
  note eq = addr_of_inj [OF assms(1) j(1) j'(1) j(4) j'(4) ad]
  from used_in_area [OF assms(1) j(1,2)] obtain i where
    i: "(i, k) \<in> used_idx (buddy (pfque p ! j))" "i < length (array (buddy (pfque p ! j)))" "pfn = min_pfn (pfque p ! j) + of_nat i" .
  from used_in_area [OF assms(1) j'(1,2)] obtain i' where
    i': "(i', l) \<in> used_idx (buddy (pfque p ! j'))" "i' < length (array (buddy (pfque p ! j')))" "pfn' = min_pfn (pfque p ! j') + of_nat i'" .
  have "length (array (buddy (pfque p ! j))) < 2 ^ 64" using buddy_range(1) [OF pool_invD(1) [OF assms(1) j(1)]] by simp
  moreover have "(of_nat i :: u64) = of_nat i'" using i(3) i'(3) eq by simp
  ultimately have "i = i'" using i(2) i'(2) eq(2) by (simp add: word_unat_eq_iff unat_of_nat)
  then show ?thesis using i(1) i'(1) eq(2) by (auto simp: used_idx_def alloc_blocks_def)
qed

lemma slab_in_block:
  assumes "pages_ok_for s" and "geom (caches s k) ord" and "slab_inv s k ord a"
  shows "a \<in> block_bytes (slab_page (slabs s a)) ord"
  using slab_room(1,2) [OF assms] by (simp add: block_bytes_def)


text \<open>The effect of growing on the other caches and on the state that all caches share.\<close>

definition others_kept :: "u64 \<Rightarrow> kmem \<Rightarrow> kmem \<Rightarrow> bool" where
  "others_kept k s s' \<longleftrightarrow> pages_ok_for s' \<and> cache_db s' = cache_db s \<and> same_geom (caches s k) (caches s' k) \<and>
     usage_count (caches s' k) = usage_count (caches s k) \<and> sflags (caches s' k) = sflags (caches s k) \<and>
     (\<forall>k'. k' \<noteq> k \<longrightarrow> caches s' k' = caches s k' \<and> (cache_inv s k' \<longrightarrow> cache_inv s' k' \<and> live s' k' = live s k'))"

lemma others_kept_refl: "pages_ok_for s \<Longrightarrow> others_kept k s s"
  by (simp add: others_kept_def same_geom_def)

lemma others_kept_trans: "others_kept k s s' \<Longrightarrow> others_kept k s' s'' \<Longrightarrow> others_kept k s s''"
  by (auto simp: others_kept_def same_geom_def)

text \<open>A slab made of a block of pages that was not in use before.\<close>

lemma new_slab_ok:
  assumes P: "pages_ok_for s" and C: "cache_inv s k" and g: "geom (caches s k) ord"
    and p1: "pool_inv p1" "same_owners (pages s) p1" "pool_blocks p1 = insert (kv, ord) (pool_blocks (pages s))" "(kv, ord) \<notin> pool_blocks (pages s)"
    and c: "unat c \<le> 64 * (unat (color_num (caches s k)) - 1)" and cn: "color_num (caches s k) = 0 \<or> cn < color_num (caches s k)"
    and p2: "owners_only p1 p2" "\<forall>x. page_owner p2 x = (if x \<in> block_bytes kv ord then Some (kv + c) else page_owner p1 x)"
  defines "K \<equiv> caches s k" and "a \<equiv> kv + c"
  defines "K' \<equiv> K\<lparr>color_next := cn, free_slabs := free_slabs K @ [a], slab_count := slab_count K + 1\<rparr>"
  defines "sl \<equiv> \<lparr>objects = map (head K a) [0..<unat (objs_per_slab K)], kmcache_ref = k, obj_count = 0, color_offset = c, slab_page = kv\<rparr>"
  defines "s' \<equiv> s\<lparr>pages := p2, caches := (caches s)(k := K'), slabs := (slabs s)(a := sl)\<rparr>"
  shows "cache_inv s' k" and "live s' k = live s k" and "others_kept k s s'" and "a \<notin> set (slabs_of K)"
proof -
  from cache_butE [OF C] obtain ord0 where o: "geom K ord0" "distinct (slabs_of K)" "\<forall>a \<in> set (slabs_of K). slab_inv s k ord0 a"
    "\<forall>a \<in> set (partial_slabs K). obj_count (slabs s a) < objs_per_slab K \<and> (a \<notin> {} \<longrightarrow> 0 < obj_count (slabs s a))"
    "\<forall>a \<in> set (full_slabs K). obj_count (slabs s a) = objs_per_slab K" "\<forall>a \<in> set (free_slabs K). obj_count (slabs s a) = 0"
    "slab_count K = of_nat (length (slabs_of K))" "cache_db s (kc_name K) = Some k" unfolding K_def [symmetric] .
  have "ord0 = ord" using slab_order(1) [OF o(1), of 0] slab_order(1) [OF g, of 0] by (simp add: K_def)
  note o = o [unfolded this]
  have inv: "pool_inv (pages s)" "straight (pages s)" using P by (auto simp: pages_ok_for_def)
  have st1: "straight p1" using straight_owners [OF p1(2)] inv(2) by simp
  have kb: "(kv, ord) \<in> pool_blocks p1" using p1(3) by simp
  have I2: "pool_inv p2" "straight p2" "pool_blocks p2 = pool_blocks p1"
    using p2(1) st1 by (auto simp: owners_only_def straight_def simp del: set_map)
  have sg: "same_geom K K'" by (simp add: same_geom_def K'_def)
  have gK: "geom K' ord" using g cn unfolding geom_def same_geomD(2) [OF sg] by (simp add: K'_def K_def)
  have kvt: "unat kv + 4096 * 2 ^ ord < 2 ^ 64" using block_lookup [OF p1(1) st1 kb] by metis
  have fit: "64 * (unat (color_num K) - 1) + 248 + unat (objs_per_slab K) * cell K \<le> 4096 * 2 ^ ord" using g by (simp add: geom_def K_def)
  have ua: "unat a = unat kv + unat c" using c fit kvt by (simp add: a_def K_def unat_word_ariths)
  have ab: "a \<in> block_bytes kv ord" using ua c fit by (simp add: block_bytes_def K_def)
  text \<open>Every slab there was lies in another block.\<close>
  have far: "block_bytes (slab_page (slabs s b)) l \<inter> block_bytes kv ord = {}" "b \<noteq> a" "block_kept (pages s) p2 (slab_page (slabs s b)) l"
    if b: "slab_inv s k' l b" and gb: "geom (caches s k') l" for b k' l
  proof -
    have bb: "(slab_page (slabs s b), l) \<in> pool_blocks (pages s)" using b by (rule slab_block)
    then have bb1: "(slab_page (slabs s b), l) \<in> pool_blocks p1" using p1(3) by simp
    have "slab_page (slabs s b) \<noteq> kv"
    proof
      assume "slab_page (slabs s b) = kv"
      then show False using pool_blocks_fun [OF p1(1), of kv l ord] bb bb1 kb p1(4) by auto
    qed
    then show d: "block_bytes (slab_page (slabs s b)) l \<inter> block_bytes kv ord = {}" by (rule pool_blocks_disjoint [OF p1(1) st1 bb1 kb])
    show "b \<noteq> a" using d ab slab_in_block [OF P gb b] by blast
    show "block_kept (pages s) p2 (slab_page (slabs s b)) l"
      using bb1 I2(3) p2(2) d same_owners_lookup(2) [OF p1(2)] by (auto simp: block_kept_def)
  qed
  have gk: "geom (caches s k) ord" using g .
  have sv: "slab_inv s' k ord b" if "b \<in> set (slabs_of K)" for b
  proof -
    have b: "slab_inv s k ord b" using o(3) that by blast
    show ?thesis by (rule slab_inv_kept [OF b]) (use sg far(2,3) [OF b gk] in \<open>simp_all add: s'_def K_def\<close>)
  qed
  show na: "a \<notin> set (slabs_of K)" using far(2) [OF _ gk] o(3) by blast
  have hu: "unat (head K a i) = unat a + 248 + i * cell K" if "i \<le> unat (objs_per_slab K)" for i
  proof -
    have "i * cell K \<le> unat (objs_per_slab K) * cell K" using that by (rule mult_le_mono1)
    then have "unat a + 248 + i * cell K \<le> unat kv + 4096 * 2 ^ ord" using ua c [folded K_def] fit by linarith
    then have "unat a + 248 + i * cell K < 2 ^ 64" using kvt by (rule le_less_trans)
    then show ?thesis by (simp add: head_def unat_word_ariths unat_of_nat del: of_nat_mult)
  qed
  have inj: "inj_on (head K a) {..<unat (objs_per_slab K)}"
    by (rule inj_onI) (metis hu add_left_cancel geom_cell(2) [OF g [folded K_def]] lessThan_iff less_imp_le mult_cancel2 less_not_refl)
  have new: "slab_inv s' k ord a"
    using inj c kb I2(3) p2(2) same_geomD(3,5) [OF sg]
    by (simp add: slab_inv_def Let_def s'_def sl_def a_def [symmetric] distinct_map atLeast0LessThan K_def [symmetric])
      (simp add: K'_def)
  have so: "slabs_of K' = slabs_of K @ [a]" by (simp add: slabs_of_def K'_def)
  have k': "caches s' k = K'" by (simp add: s'_def)
  have cnt: "obj_count (slabs s' b) = (if b = a then 0 else obj_count (slabs s b))" for b by (simp add: s'_def sl_def)
  have ina: "a \<notin> set (partial_slabs K)" "a \<notin> set (full_slabs K)" using na by (auto simp: slabs_of_def)
  show "cache_inv s' k"
    unfolding cache_but_def Let_def k'
  proof (intro exI [of _ ord] conjI ballI)
    show "geom K' ord" "distinct (slabs_of K')" using gK o(2) na by (simp_all add: so)
    show "slab_inv s' k ord b" if "b \<in> set (slabs_of K')" for b using that sv new by (auto simp: so)
    fix b
    show "obj_count (slabs s' b) < objs_per_slab K'" "b \<notin> {} \<longrightarrow> 0 < obj_count (slabs s' b)" if "b \<in> set (partial_slabs K')"
      using that o(4) ina(1) unfolding cnt by (auto simp: K'_def)
    show "obj_count (slabs s' b) = objs_per_slab K'" if "b \<in> set (full_slabs K')" using that o(5) ina(2) unfolding cnt by (auto simp: K'_def)
    show "obj_count (slabs s' b) = 0" if "b \<in> set (free_slabs K')" using that o(6) unfolding cnt by (auto simp: K'_def)
    show "slab_count K' = of_nat (length (slabs_of K'))" using o(7) by (simp add: so) (simp add: K'_def)
    show "cache_db s' (kc_name K') = Some k" using o(8) by (simp add: s'_def K'_def)
  qed
  show "live s' k = live s k"
  proof -
    have "live s' k = {obj_at K b i | b i. b \<in> set (slabs_of K') \<and> i < unat (objs_per_slab K) \<and> head K b i \<notin> set (objects (slabs s' b))}"
      unfolding live_def k' same_geomD [OF sg] ..
    also have "\<dots> = {obj_at K b i | b i. b \<in> set (slabs_of K) \<and> i < unat (objs_per_slab K) \<and> head K b i \<notin> set (objects (slabs s b))}"
      using na by (auto simp: so s'_def sl_def)
    finally show ?thesis by (simp add: live_def K_def)
  qed
  show "others_kept k s s'"
    unfolding others_kept_def k'
  proof (intro conjI allI impI)
    show "pages_ok_for s'" "cache_db s' = cache_db s" "same_geom (caches s k) K'" "usage_count K' = usage_count (caches s k)"
      "sflags K' = sflags (caches s k)" using I2 sg by (simp_all add: pages_ok_for_def s'_def K_def K'_def)
    fix k' assume ne: "k' \<noteq> k"
    show kk: "caches s' k' = caches s k'" using ne by (simp add: s'_def)
    assume ci: "cache_inv s k'"
    then obtain l where l: "geom (caches s k') l" "\<forall>b \<in> set (slabs_of (caches s k')). slab_inv s k' l b" by (rule cache_butE)
    have ll: "l' = l" if "slab_inv s k' l' b" "b \<in> set (slabs_of (caches s k'))" for b l'
      using pool_blocks_fun [OF inv(1) slab_block [OF that(1)] slab_block] l(2) that(2) by blast
    have "\<And>b. b \<in> set (slabs_of (caches s k')) \<Longrightarrow> slabs s' b = slabs s b" using far(2) [OF _ l(1)] l(2) by (simp add: s'_def)
    moreover have "\<And>b l'. b \<in> set (slabs_of (caches s k')) \<Longrightarrow> slab_inv s k' l' b \<Longrightarrow> block_kept (pages s) (pages s') (slab_page (slabs s b)) l'"
      using far(3) [OF _ l(1)] ll by (simp add: s'_def)
    moreover have "cache_db s' (kc_name (caches s k')) = cache_db s (kc_name (caches s k'))" by (simp add: s'_def)
    ultimately show "cache_inv s' k'" and "live s' k' = live s k'" using other_cache_kept [OF ci kk] by blast+
  qed
qed

lemma grow_ok:
  assumes P: "pages_ok_for s" and C: "cache_inv s k"
  shows "\<exists>rc s'. kmem_cache_grow_nolock s k = Some (rc, s') \<and> others_kept k s s' \<and> live s' k = live s k \<and>
    (rc = - ENOMEM \<and> s' = s \<and> alloc_buddy_pages (pages s) (int (calc_page_order (slab_size (caches s k)) 0)) = Some (- ENOMEM, None, pages s) \<or>
     rc = 0 \<and> cache_inv s' k \<and> (\<exists>a. free_slabs (caches s' k) = free_slabs (caches s k) @ [a] \<and> a \<notin> set (slabs_of (caches s k))) \<and>
       partial_slabs (caches s' k) = partial_slabs (caches s k))"
proof -
  define K where "K = caches s k"
  from cache_butE [OF C] obtain ord where o: "geom K ord" "distinct (slabs_of K)" "\<forall>a \<in> set (slabs_of K). slab_inv s k ord a"
    "\<forall>a \<in> set (partial_slabs K). obj_count (slabs s a) < objs_per_slab K \<and> (a \<notin> {} \<longrightarrow> 0 < obj_count (slabs s a))"
    "\<forall>a \<in> set (full_slabs K). obj_count (slabs s a) = objs_per_slab K" "\<forall>a \<in> set (free_slabs K). obj_count (slabs s a) = 0"
    "slab_count K = of_nat (length (slabs_of K))" "cache_db s (kc_name K) = Some k" unfolding K_def [symmetric] .
  have inv: "pool_inv (pages s)" "straight (pages s)" using P by (auto simp: pages_ok_for_def)
  have ord: "0 \<le> int ord" "int ord < int PAGE_POOL_MAX_ORDER" using o(1) by (simp_all add: geom_def)
  note sz = slab_order [OF o(1)]
  from pool.alloc_ok [OF inv(1) ord] show ?thesis
  proof (elim disjE exE conjE)
    assume "alloc_buddy_pages (pages s) (int ord) = Some (- ENOMEM, None, pages s)"
    then have "kmem_cache_grow_nolock s k = Some (- ENOMEM, s)" "alloc_buddy_pages (pages s) (int (calc_page_order (slab_size K) 0)) = Some (- ENOMEM, None, pages s)"
      using sz by (simp_all add: kmem_cache_grow_nolock_def K_def [symmetric] Let_def)
    then show ?thesis using others_kept_refl [OF P] by (simp add: K_def)
  next
    fix kv p1 assume al: "alloc_buddy_pages (pages s) (int ord) = Some (0, Some kv, p1)" "pool_inv p1" "(kv, nat (int ord)) \<notin> pool_blocks (pages s)"
      "pool_blocks p1 = insert (kv, nat (int ord)) (pool_blocks (pages s))"
    have so: "same_owners (pages s) p1" using al(1) by (rule alloc_owners)
    have st1: "straight p1" using straight_owners [OF so] inv(2) by simp
    have kb: "(kv, ord) \<in> pool_blocks p1" "(kv, ord) \<notin> pool_blocks (pages s)" using al(3,4) by auto
    have db: "cache_db s (kc_name K) \<noteq> None" using o(8) by simp
    define s0 where "s0 = s\<lparr>pages := p1\<rparr>"
    obtain c cn where c: "update_color_offset s0 k = Some (c, s0\<lparr>caches := (caches s)(k := K\<lparr>color_next := cn\<rparr>)\<rparr>)"
      "unat c \<le> 64 * (unat (color_num K) - 1)" "color_num K = 0 \<or> cn < color_num K"
      using color_offset_ok [of s0 k ord] o(1) db by (auto simp: s0_def K_def)
    define a where "a = kv + c"
    obtain p2 where p2: "mark_pages (Some a) kv (kv + slab_size K) p1 = Some p2" "owners_only p1 p2"
      "\<forall>x. page_owner p2 x = (if x \<in> block_bytes kv ord then Some a else page_owner p1 x)"
      using mark_pages_ok [OF al(2) st1 kb(1), of "Some a"] geom_sizes(3) [OF o(1)] by auto
    note N = new_slab_ok [OF P C o(1) [unfolded K_def] al(2) so _ kb(2) c(2,3) [unfolded K_def] p2(2) p2(3) [unfolded a_def], folded K_def a_def]
    define s' where "s' = s\<lparr>pages := p2, caches := (caches s)(k := K\<lparr>color_next := cn, free_slabs := free_slabs K @ [a], slab_count := slab_count K + 1\<rparr>),
      slabs := (slabs s)(a := \<lparr>objects = map (head K a) [0..<unat (objs_per_slab K)], kmcache_ref = k, obj_count = 0, color_offset = c, slab_page = kv\<rparr>)\<rparr>"
    have pb: "pool_blocks p1 = insert (kv, ord) (pool_blocks (pages s))" using al(4) by simp
    have run: "kmem_cache_grow_nolock s k = Some (0, s')"
    proof -
      define K1 where "K1 = K\<lparr>color_next := cn\<rparr>"
      define s1 where "s1 = s0\<lparr>caches := (caches s)(k := K1)\<rparr>"
      define s2 where "s2 = upd_slab s1 a (\<lambda>_. \<lparr>objects = [], kmcache_ref = k, obj_count = 0, color_offset = c, slab_page = kv\<rparr>)"
      define s3 where "s3 = upd_slab s2 a (\<lambda>sl. sl\<lparr>objects := objects sl @ map (head K1 a) [0..<unat (objs_per_slab K1)]\<rparr>)"
      have sg: "same_geom K K1" by (simp add: same_geom_def K1_def)
      have gK: "geom K1 ord" using o(1) c(3) unfolding geom_def same_geomD(2) [OF sg] by (simp add: K1_def)
      have i: "init_slab s1 k a kv c = Some s2"
        using db by (simp add: init_slab_def assert_kmem_cache_valid_def s2_def s1_def s0_def K1_def)
      have h: "init_object_heads s2 k a = Some s3"
        using object_heads_from_ok [of s2 k ord a 0 "unat (objs_per_slab K1)"] gK db
        by (simp add: init_object_heads_def assert_kmem_cache_valid_def s3_def s2_def s1_def s0_def upd_slab_def K1_def)
      have "kmem_cache_grow_nolock s k = do {
          let s = upd_cache s3 k (\<lambda>kc. kc\<lparr>free_slabs := free_slabs kc @ [a], slab_count := slab_count kc + 1\<rparr>);
          p \<leftarrow> mark_pages (Some a) kv (kv + slab_size K) (pages s);
          Some (0, s\<lparr>pages := p\<rparr>) }"
        using sz al(1) c(1) i h
        by (simp add: kmem_cache_grow_nolock_def K_def [symmetric] s0_def [symmetric] s1_def K1_def a_def Let_def)
      also have "\<dots> = Some (0, s')"
        using p2(1) same_geomD(3) [OF sg]
        by (simp add: s3_def s2_def s1_def s0_def upd_slab_def upd_cache_def s'_def K1_def)
      finally show ?thesis .
    qed
    note N = N [OF pb, folded s'_def]
    have "free_slabs (caches s' k) = free_slabs K @ [a]" "partial_slabs (caches s' k) = partial_slabs K" by (simp_all add: s'_def)
    then show ?thesis using run N unfolding K_def [symmetric] by blast
  qed
qed

subsection \<open>Allocating an object\<close>

lemma only_slab_others:
  assumes "only_slab k a s s'" and "pages_ok_for s" and "kmcache_ref (slabs s a) = k" and "same_geom (caches s k) (caches s' k)"
    and "usage_count (caches s' k) = usage_count (caches s k)" and "sflags (caches s' k) = sflags (caches s k)"
  shows "others_kept k s s'"
  using assms only_slab_kept [OF assms(1,3)] by (auto simp: others_kept_def only_slab_def pages_ok_for_def)

lemma cache_slab_ref: "cache_but X s k \<Longrightarrow> a \<in> set (slabs_of (caches s k)) \<Longrightarrow> kmcache_ref (slabs s a) = k"
  by (auto simp: cache_but_def slab_inv_def Let_def)

lemma first_free_ok:
  assumes P: "pages_ok_for s" and C: "cache_inv s k" and f: "free_slabs (caches s k) = a # q"
  defines "s' \<equiv> upd_cache s k (\<lambda>kc. kc\<lparr>free_slabs := q, partial_slabs := partial_slabs kc @ [a]\<rparr>)"
  shows "cache_but {a} s' k" and "live s' k = live s k" and "others_kept k s s'" and "a \<in> set (partial_slabs (caches s' k))"
proof -
  define K where "K = caches s k"
  define K' where "K' = K\<lparr>free_slabs := q, partial_slabs := partial_slabs K @ [a]\<rparr>"
  from cache_butE [OF C] obtain ord where o: "geom K ord" "distinct (slabs_of K)" "\<forall>a \<in> set (slabs_of K). slab_inv s k ord a"
    "\<forall>a \<in> set (partial_slabs K). obj_count (slabs s a) < objs_per_slab K \<and> (a \<notin> {} \<longrightarrow> 0 < obj_count (slabs s a))"
    "\<forall>a \<in> set (full_slabs K). obj_count (slabs s a) = objs_per_slab K" "\<forall>a \<in> set (free_slabs K). obj_count (slabs s a) = 0"
    "slab_count K = of_nat (length (slabs_of K))" "cache_db s (kc_name K) = Some k" unfolding K_def [symmetric] .
  have k': "caches s' k = K'" and sl: "slabs s' = slabs s" and pg: "pages s' = pages s"
    by (simp_all add: s'_def upd_cache_def K'_def K_def)
  have sg: "same_geom K K'" by (simp add: same_geom_def K'_def)
  have st: "set (slabs_of K') = set (slabs_of K)" "distinct (slabs_of K')" "length (slabs_of K') = length (slabs_of K)"
    using o(2) f by (auto simp: slabs_of_def K'_def K_def)
  show "a \<in> set (partial_slabs (caches s' k))" by (simp add: k' K'_def)
  have oc: "0 < objs_per_slab K" using o(1) by (simp add: geom_def)
  show "cache_but {a} s' k"
    unfolding cache_but_def Let_def k' sl
  proof (intro exI [of _ ord] conjI ballI)
    show "geom K' ord" using same_geomD(7) [OF sg] o(1) by (simp add: K'_def)
    show "distinct (slabs_of K')" by (rule st(2))
    show "slab_inv s' k ord b" if "b \<in> set (slabs_of K')" for b
    proof -
      have b: "slab_inv s k ord b" using o(3) that st(1) by blast
      show ?thesis by (rule slab_inv_kept [OF b]) (use sg slab_block [OF b] in \<open>simp_all add: k' sl pg K_def\<close>)
    qed
    fix b
    show "obj_count (slabs s b) < objs_per_slab K'" "b \<notin> {a} \<longrightarrow> 0 < obj_count (slabs s b)" if "b \<in> set (partial_slabs K')"
      using that o(4,6) f oc by (auto simp: K'_def K_def)
    show "obj_count (slabs s b) = objs_per_slab K'" if "b \<in> set (full_slabs K')" using that o(5) by (simp add: K'_def)
    show "obj_count (slabs s b) = 0" if "b \<in> set (free_slabs K')" using that o(6) f by (simp add: K'_def K_def)
    show "slab_count K' = of_nat (length (slabs_of K'))" using o(7) st(3) by (simp add: K'_def)
    show "cache_db s' (kc_name K') = Some k" using o(8) by (simp add: s'_def upd_cache_def K'_def)
  qed
  show "live s' k = live s k"
    unfolding live_def k' sl same_geomD [OF sg] st(1) by (simp add: K_def)
  show "others_kept k s s'"
  proof (rule only_slab_others [OF _ P])
    show "only_slab k a s s'" by (simp add: only_slab_def s'_def upd_cache_def)
    show "kmcache_ref (slabs s a) = k" using cache_slab_ref [OF C] f by (simp add: slabs_of_def)
  qed (use sg in \<open>simp_all add: k' K_def [symmetric], simp_all add: K'_def\<close>)
qed

lemma choose_slab_ok:
  assumes P: "pages_ok_for s" and C: "cache_inv s k"
  shows "\<exists>r s'. choose_slab s k = Some (r, s') \<and> others_kept k s s' \<and> live s' k = live s k \<and>
    (case r of None \<Rightarrow> s' = s \<and> partial_slabs (caches s k) = [] \<and> free_slabs (caches s k) = [] \<and>
         alloc_buddy_pages (pages s) (int (calc_page_order (slab_size (caches s k)) 0)) = Some (- ENOMEM, None, pages s)
     | Some a \<Rightarrow> cache_but {a} s' k \<and> a \<in> set (partial_slabs (caches s' k)))"
proof (cases "partial_slabs (caches s k)")
  case (Cons a q)
  then have "choose_slab s k = Some (Some a, s)" by (simp add: choose_slab_def)
  moreover have "cache_but {a} s k" using C unfolding cache_but_def Let_def by blast
  ultimately show ?thesis using others_kept_refl [OF P] Cons by auto
next
  case Nil
  show ?thesis
  proof (cases "free_slabs (caches s k)")
    case (Cons a q)
    then have "choose_slab s k = Some (Some a, upd_cache s k (\<lambda>kc. kc\<lparr>free_slabs := q, partial_slabs := partial_slabs kc @ [a]\<rparr>))"
      using Nil by (simp add: choose_slab_def)
    then show ?thesis using first_free_ok [OF P C Cons] by auto
  next
    case fr: Nil
    from grow_ok [OF P C] obtain rc s1 where g: "kmem_cache_grow_nolock s k = Some (rc, s1)" "others_kept k s s1" "live s1 k = live s k"
      "rc = - ENOMEM \<and> s1 = s \<and> alloc_buddy_pages (pages s) (int (calc_page_order (slab_size (caches s k)) 0)) = Some (- ENOMEM, None, pages s) \<or>
       rc = 0 \<and> cache_inv s1 k \<and> (\<exists>a. free_slabs (caches s1 k) = free_slabs (caches s k) @ [a] \<and> a \<notin> set (slabs_of (caches s k))) \<and>
       partial_slabs (caches s1 k) = partial_slabs (caches s k)" by (elim exE conjE) (rule that)
    from g(4) show ?thesis
    proof (elim disjE conjE exE)
      assume "rc = - ENOMEM" "s1 = s" "alloc_buddy_pages (pages s) (int (calc_page_order (slab_size (caches s k)) 0)) = Some (- ENOMEM, None, pages s)"
      moreover from this have "choose_slab s k = Some (None, s)" using Nil fr g(1) by (simp add: choose_slab_def)
      ultimately show ?thesis using g Nil fr by auto
    next
      fix a assume e: "rc = 0" "cache_inv s1 k" "free_slabs (caches s1 k) = free_slabs (caches s k) @ [a]"
      have f1: "free_slabs (caches s1 k) = a # []" using e(3) fr by simp
      have P1: "pages_ok_for s1" using g(2) by (simp add: others_kept_def)
      have "choose_slab s k = Some (Some a, upd_cache s1 k (\<lambda>kc. kc\<lparr>free_slabs := [], partial_slabs := partial_slabs kc @ [a]\<rparr>))"
        using Nil fr g(1) e(1) f1 by (simp add: choose_slab_def)
      then show ?thesis using first_free_ok [OF P1 e(2) f1] others_kept_trans [OF g(2)] g(3) by auto
    qed
  qed
qed

lemma kmem_cache_alloc_ok:
  assumes P: "pages_ok_for s" and C: "cache_inv s k"
  shows "\<exists>r s'. kmem_cache_alloc s k = Some (r, s') \<and> others_kept k s s' \<and> cache_inv s' k \<and>
    (case r of None \<Rightarrow> s' = s \<and> partial_slabs (caches s k) = [] \<and> free_slabs (caches s k) = [] \<and>
         alloc_buddy_pages (pages s) (int (calc_page_order (slab_size (caches s k)) 0)) = Some (- ENOMEM, None, pages s)
     | Some obj \<Rightarrow> obj \<notin> live s k \<and> live s' k = insert obj (live s k))"
proof -
  from choose_slab_ok [OF P C] obtain r s1 where c: "choose_slab s k = Some (r, s1)" "others_kept k s s1" "live s1 k = live s k"
    "case r of None \<Rightarrow> s1 = s \<and> partial_slabs (caches s k) = [] \<and> free_slabs (caches s k) = [] \<and>
         alloc_buddy_pages (pages s) (int (calc_page_order (slab_size (caches s k)) 0)) = Some (- ENOMEM, None, pages s)
     | Some a \<Rightarrow> cache_but {a} s1 k \<and> a \<in> set (partial_slabs (caches s1 k))" by (elim exE conjE) (rule that)
  show ?thesis
  proof (cases r)
    case None
    then show ?thesis using c C by (intro exI [of _ None] exI [of _ s]) (simp add: kmem_cache_alloc_def)
  next
    case (Some a)
    have P1: "pages_ok_for s1" using c(2) by (simp add: others_kept_def)
    have C1: "cache_but {a} s1 k" "a \<in> set (partial_slabs (caches s1 k))" using c(4) Some by auto
    from take_object_ok [OF P1 C1] obtain obj s' where t: "take_object s1 k a = Some (obj, s')" "cache_inv s' k" "only_slab k a s1 s'"
      "same_geom (caches s1 k) (caches s' k)" "usage_count (caches s' k) = usage_count (caches s1 k)"
      "sflags (caches s' k) = sflags (caches s1 k)" "obj \<notin> live s1 k" "live s' k = insert obj (live s1 k)" by (elim exE conjE) (rule that)
    have "kmcache_ref (slabs s1 a) = k" using cache_slab_ref [OF C1(1)] C1(2) by (simp add: slabs_of_def)
    from only_slab_others [OF t(3) P1 this t(4-6)] have "others_kept k s s'" using others_kept_trans [OF c(2)] by blast
    moreover have "kmem_cache_alloc s k = Some (Some obj, s')" using c(1) Some t(1) by (simp add: kmem_cache_alloc_def)
    ultimately show ?thesis using t(2,7,8) c(3) by (intro exI [of _ "Some obj"] exI [of _ s']) simp
  qed
qed

subsection \<open>Giving an object back\<close>

lemma obj_to_slab_owner: "page_owner (pages s) x = Some a \<Longrightarrow> kmem_obj_to_slab s x = Some a"
  by (auto simp: page_owner_def kmem_obj_to_slab_def kvaddr_to_page_frame_def split: prod.splits option.splits)

text \<open>Moving a slab to the end of one of the queues of its cache.\<close>

definition to_partial :: "u64 \<Rightarrow> kmem_cache \<Rightarrow> kmem_cache" where
  "to_partial a kc = (unlink_slab a kc)\<lparr>partial_slabs := partial_slabs (unlink_slab a kc) @ [a]\<rparr>"

definition to_free :: "u64 \<Rightarrow> kmem_cache \<Rightarrow> kmem_cache" where
  "to_free a kc = (unlink_slab a kc)\<lparr>free_slabs := free_slabs (unlink_slab a kc) @ [a]\<rparr>"

lemma move_fields:
  "same_geom kc (to_partial a kc)" "color_next (to_partial a kc) = color_next kc" "usage_count (to_partial a kc) = usage_count kc"
  "sflags (to_partial a kc) = sflags kc" "slab_count (to_partial a kc) = slab_count kc" "objs_per_slab (to_partial a kc) = objs_per_slab kc"
  "same_geom kc (to_free a kc)" "color_next (to_free a kc) = color_next kc" "usage_count (to_free a kc) = usage_count kc"
  "sflags (to_free a kc) = sflags kc" "slab_count (to_free a kc) = slab_count kc"
  by (simp_all add: to_partial_def to_free_def unlink_slab_def same_geom_def)

lemma move_queues:
  assumes "distinct (slabs_of kc)" and "a \<in> set (slabs_of kc)"
  shows "distinct (slabs_of (to_partial a kc))" "set (slabs_of (to_partial a kc)) = set (slabs_of kc)"
    "length (slabs_of (to_partial a kc)) = length (slabs_of kc)"
    "set (partial_slabs (to_partial a kc)) = insert a (set (partial_slabs kc))" "set (full_slabs (to_partial a kc)) = set (full_slabs kc) - {a}"
    "set (free_slabs (to_partial a kc)) = set (free_slabs kc) - {a}"
    "distinct (slabs_of (to_free a kc))" "set (slabs_of (to_free a kc)) = set (slabs_of kc)"
    "length (slabs_of (to_free a kc)) = length (slabs_of kc)"
    "set (partial_slabs (to_free a kc)) = set (partial_slabs kc) - {a}" "set (full_slabs (to_free a kc)) = set (full_slabs kc) - {a}"
    "set (free_slabs (to_free a kc)) = insert a (set (free_slabs kc))"
proof -
  have d: "distinct (partial_slabs kc)" "distinct (full_slabs kc)" "distinct (free_slabs kc)" using assms(1) by (auto simp: slabs_of_def)
  show 1: "distinct (slabs_of (to_partial a kc))" "set (slabs_of (to_partial a kc)) = set (slabs_of kc)"
    and 2: "distinct (slabs_of (to_free a kc))" "set (slabs_of (to_free a kc)) = set (slabs_of kc)"
    using assms d by (auto simp: slabs_of_def to_partial_def to_free_def unlink_slab_def)
  show "length (slabs_of (to_partial a kc)) = length (slabs_of kc)" "length (slabs_of (to_free a kc)) = length (slabs_of kc)"
    using 1 2 assms(1) by (metis distinct_card)+
  show "set (partial_slabs (to_partial a kc)) = insert a (set (partial_slabs kc))" "set (full_slabs (to_partial a kc)) = set (full_slabs kc) - {a}"
    "set (free_slabs (to_partial a kc)) = set (free_slabs kc) - {a}" "set (partial_slabs (to_free a kc)) = set (partial_slabs kc) - {a}"
    "set (full_slabs (to_free a kc)) = set (full_slabs kc) - {a}" "set (free_slabs (to_free a kc)) = insert a (set (free_slabs kc))"
    using d by (auto simp: to_partial_def to_free_def unlink_slab_def)
qed

text \<open>Where the slab goes when its count falls to \<open>n\<close>.\<close>

definition refile :: "u64 \<Rightarrow> u64 \<Rightarrow> kmem_cache \<Rightarrow> kmem_cache" where
  "refile a n kc = (let kc = (if n + 1 = objs_per_slab kc then to_partial a kc else kc) in if n = 0 then to_free a kc else kc)"

lemma refile_fields:
  "same_geom kc (refile a n kc)" "color_next (refile a n kc) = color_next kc" "usage_count (refile a n kc) = usage_count kc"
  "sflags (refile a n kc) = sflags kc" "slab_count (refile a n kc) = slab_count kc"
proof -
  have t: "same_geom kc kc'' \<Longrightarrow> same_geom kc'' kc' \<Longrightarrow> same_geom kc kc'" for kc' kc'' by (simp add: same_geom_def)
  show "same_geom kc (refile a n kc)" "color_next (refile a n kc) = color_next kc" "usage_count (refile a n kc) = usage_count kc"
    "sflags (refile a n kc) = sflags kc" "slab_count (refile a n kc) = slab_count kc"
    using t [OF move_fields(1) move_fields(7)] move_fields(1,7) by (simp_all add: refile_def Let_def move_fields same_geom_def)
qed

lemma refile_queues:
  assumes "distinct (slabs_of kc)" and "a \<in> set (slabs_of kc)" and "n + 1 \<noteq> 0"
    and "a \<in> set (full_slabs kc) \<longleftrightarrow> n + 1 = objs_per_slab kc" and "a \<notin> set (free_slabs kc)"
  shows "distinct (slabs_of (refile a n kc))" "set (slabs_of (refile a n kc)) = set (slabs_of kc)"
    "length (slabs_of (refile a n kc)) = length (slabs_of kc)"
    "set (partial_slabs (refile a n kc)) = (set (partial_slabs kc) - {a}) \<union> (if n = 0 then {} else {a})"
    "set (full_slabs (refile a n kc)) = set (full_slabs kc) - {a}"
    "set (free_slabs (refile a n kc)) = set (free_slabs kc) \<union> (if n = 0 then {a} else {})"
proof -
  define kc1 where "kc1 = (if n + 1 = objs_per_slab kc then to_partial a kc else kc)"
  have 1: "distinct (slabs_of kc1)" "set (slabs_of kc1) = set (slabs_of kc)" "length (slabs_of kc1) = length (slabs_of kc)"
    using move_queues(1-3) [OF assms(1,2)] assms(1) by (simp_all add: kc1_def)
  have a1: "a \<in> set (slabs_of kc1)" using 1(2) assms(2) by simp
  have p: "a \<in> set (partial_slabs kc) \<or> a \<in> set (full_slabs kc)" using assms(2,5) by (auto simp: slabs_of_def)
  have q: "set (partial_slabs kc1) = insert a (set (partial_slabs kc))" "set (full_slabs kc1) = set (full_slabs kc) - {a}"
    "set (free_slabs kc1) = set (free_slabs kc)"
    using move_queues(4-6) [OF assms(1,2)] assms(4,5) p by (auto simp: kc1_def)
  have r: "refile a n kc = (if n = 0 then to_free a kc1 else kc1)" by (simp add: refile_def kc1_def Let_def)
  show "distinct (slabs_of (refile a n kc))" "set (slabs_of (refile a n kc)) = set (slabs_of kc)"
    "length (slabs_of (refile a n kc)) = length (slabs_of kc)"
    using 1 move_queues(7-9) [OF 1(1) a1] by (simp_all add: r)
  show "set (partial_slabs (refile a n kc)) = (set (partial_slabs kc) - {a}) \<union> (if n = 0 then {} else {a})"
    "set (full_slabs (refile a n kc)) = set (full_slabs kc) - {a}"
    "set (free_slabs (refile a n kc)) = set (free_slabs kc) \<union> (if n = 0 then {a} else {})"
    using move_queues(10-12) [OF 1(1) a1] q by (auto simp: r)
qed

lemma kmem_cache_free_ok:
  assumes P: "pages_ok_for s" and C: "cache_inv s k" and L: "obj \<in> live s k"
  shows "\<exists>s'. kmem_cache_free s k obj = Some s' \<and> cache_inv s' k \<and> others_kept k s s' \<and> live s' k = live s k - {obj}"
proof -
  define K where "K = caches s k"
  from cache_butE [OF C] obtain ord where o: "geom K ord" "distinct (slabs_of K)" "\<forall>a \<in> set (slabs_of K). slab_inv s k ord a"
    "\<forall>a \<in> set (partial_slabs K). obj_count (slabs s a) < objs_per_slab K \<and> (a \<notin> {} \<longrightarrow> 0 < obj_count (slabs s a))"
    "\<forall>a \<in> set (full_slabs K). obj_count (slabs s a) = objs_per_slab K" "\<forall>a \<in> set (free_slabs K). obj_count (slabs s a) = 0"
    "slab_count K = of_nat (length (slabs_of K))" "cache_db s (kc_name K) = Some k" unfolding K_def [symmetric] .
  from L obtain a i where ai: "obj = obj_at K a i" "a \<in> set (slabs_of K)" "i < unat (objs_per_slab K)" "head K a i \<notin> set (objects (slabs s a))"
    by (auto simp: live_def K_def)
  have I: "slab_inv s k ord a" using o(3) ai(2) by blast
  have gk: "geom (caches s k) ord" using o(1) by (simp add: K_def)
  define sl where "sl = slabs s a"
  define n where "n = obj_count sl - 1"
  have S: "distinct (objects sl)" "set (objects sl) \<subseteq> head K a ` {..<unat (objs_per_slab K)}"
    "unat (obj_count sl) + length (objects sl) = unat (objs_per_slab K)" "kmcache_ref sl = k"
    using I by (auto simp: slab_inv_def Let_def sl_def K_def)
  have "set (objects sl) \<subset> head K a ` {..<unat (objs_per_slab K)}" using S(2) ai(3,4) by (auto simp: sl_def)
  then have "card (set (objects sl)) < card (head K a ` {..<unat (objs_per_slab K)})" by (intro psubset_card_mono) auto
  also have "\<dots> \<le> unat (objs_per_slab K)" using card_image_le [of "{..<unat (objs_per_slab K)}" "head K a"] by simp
  finally have len: "length (objects sl) < unat (objs_per_slab K)" using distinct_card [OF S(1)] by simp
  have c0: "obj_count sl \<noteq> 0" using S(3) len by auto
  have n1: "n + 1 = obj_count sl" and un: "unat (obj_count sl) = unat n + 1"
    using c0 by (simp_all add: n_def unat_minus_one unat_gt_0 Suc_leI)
  have fl: "a \<notin> set (free_slabs K)" using o(6) c0 by (auto simp: sl_def)
  have fu: "a \<in> set (full_slabs K) \<longleftrightarrow> n + 1 = objs_per_slab K"
    using o(4,5) ai(2) fl unfolding n1 by (auto simp: slabs_of_def sl_def)
  define K' where "K' = refile a n K"
  define sl' where "sl' = sl\<lparr>objects := objects sl @ [head K a i], obj_count := n\<rparr>"
  define s0 where "s0 = call_hook (kc_destructor K) obj s"
  define s' where "s' = s0\<lparr>slabs := (slabs s)(a := sl'), caches := (caches s)(k := K')\<rparr>"
  have s0: "pages s0 = pages s" "caches s0 = caches s" "slabs s0 = slabs s" "cache_db s0 = cache_db s" by (simp_all add: s0_def)
  note F = refile_fields [where kc = K and a = a and n = n, folded K'_def]
  note Q = refile_queues [OF o(2) ai(2) _ fu fl, folded K'_def, OF c0 [folded n1]]
  note G = same_geomD [OF F(1)]
  have "page_owner (pages s) obj = Some a" using slab_owner [OF I] obj_bytes(4) [OF P gk I] ai(1,3) by (simp add: K_def)
  then have ow: "kmem_obj_to_slab s0 obj = Some a" using obj_to_slab_owner [of s0] s0(1) by simp
  have hp: "obj - pad K - SIZEOF_OBJ_HEAD = head K a i" by (simp add: ai(1) obj_at_def)
  have run: "kmem_cache_free s k obj = Some s'"
  proof -
    have eq: "s0\<lparr>slabs := (slabs s)(a := sl'), caches := caches s\<rparr> = s0\<lparr>slabs := (slabs s)(a := sl')\<rparr>" using s0(2) by (cases s0) simp
    show ?thesis
      unfolding kmem_cache_free_def K_def [symmetric] s0_def [symmetric] Let_def
      using ow geom_sizes(1) [OF o(1)] n1
      by (auto simp: s0 upd_slab_def upd_cache_def K_def [symmetric] sl_def [symmetric] hp s'_def K'_def refile_def to_partial_def to_free_def
          Let_def sl'_def n_def eq fun_upd_idem)
  qed
  have k': "caches s' k = K'" and cn: "obj_count (slabs s' b) = (if b = a then n else obj_count (slabs s b))" for b
    by (simp_all add: s'_def sl'_def)
  have sv: "slab_inv s' k ord b" if b: "b \<in> set (slabs_of K)" for b
  proof (cases "b = a")
    case True
    have "slab_page sl + color_offset sl = a" "unat (color_offset sl) \<le> 64 * (unat (color_num K') - 1)" "(slab_page sl, ord) \<in> pool_blocks (pages s)"
      using I F(1) by (auto simp: slab_inv_def Let_def sl_def K_def same_geom_def)
    then show ?thesis using True S ai(3,4) un slab_owner [OF I]
      unfolding slab_inv_def Let_def k' G(3,5) by (auto simp: s'_def s0 sl'_def sl_def [symmetric])
  next
    case False
    have sb: "slab_inv s k ord b" using o(3) b by blast
    show ?thesis by (rule slab_inv_kept [OF sb]) (use False F(1) slab_block [OF sb] in \<open>simp_all add: s'_def s0 K_def\<close>)
  qed
  have nlt: "n < objs_per_slab K" using un S(3) by (simp add: word_less_nat_alt)
  have "cache_inv s' k"
    unfolding cache_but_def Let_def k' cn G(5,6)
  proof (intro exI [of _ ord] conjI ballI)
    show "geom K' ord" using G(7) F(2) o(1) by simp
    show "distinct (slabs_of K')" by (rule Q(1))
    show "slab_inv s' k ord b" if "b \<in> set (slabs_of K')" for b using that sv Q(2) by simp
    fix b
    show "(if b = a then n else obj_count (slabs s b)) < objs_per_slab K" "b \<notin> {} \<longrightarrow> 0 < (if b = a then n else obj_count (slabs s b))"
      if "b \<in> set (partial_slabs K')"
      using that o(4) nlt unfolding Q(4) by (auto simp: word_neq_0_conv split: if_splits)
    show "(if b = a then n else obj_count (slabs s b)) = objs_per_slab K" if "b \<in> set (full_slabs K')"
      using that o(5) unfolding Q(5) by auto
    show "(if b = a then n else obj_count (slabs s b)) = 0" if "b \<in> set (free_slabs K')"
      using that o(6) fl unfolding Q(6) by (auto split: if_splits)
    show "slab_count K' = of_nat (length (slabs_of K'))" using o(7) F(5) Q(3) by simp
    show "cache_db s' (kc_name K) = Some k" using o(8) by (simp add: s'_def s0)
  qed
  moreover have "others_kept k s s'"
  proof (rule only_slab_others [OF _ P])
    show "only_slab k a s s'" by (simp add: only_slab_def s'_def s0)
    show "kmcache_ref (slabs s a) = k" using S(4) by (simp add: sl_def)
  qed (use F in \<open>simp_all add: k' K_def [symmetric]\<close>)
  moreover have "live s' k = live s k - {obj}"
  proof -
    define A where "A = {obj_at K b j | b j. b \<in> set (slabs_of K) - {a} \<and> j < unat (objs_per_slab K) \<and> head K b j \<notin> set (objects (slabs s b))}"
    define B where "B = {obj_at K a j | j. j < unat (objs_per_slab K) \<and> head K a j \<notin> set (objects sl)}"
    have 1: "live s' k = A \<union> {obj_at K a j | j. j < unat (objs_per_slab K) \<and> head K a j \<notin> set (objects sl')}"
      using live_other_slabs [of s k s' a] F(1) Q(2) ai(2) by (simp add: s'_def K_def A_def)
    have 2: "live s k = A \<union> B"
      using live_other_slabs [of s k s a] ai(2) by (simp add: same_geom_def K_def sl_def A_def B_def)
    have inj: "j = i" if "obj_at K a j = obj_at K a i" "j < unat (objs_per_slab K)" for j
      using obj_at_inj [OF P gk gk I I, of j i] that ai(3) by (simp add: K_def)
    have hi: "head K a j = head K a i \<longleftrightarrow> j = i" if "j < unat (objs_per_slab K)" for j
      using head_inj [OF P gk I, of j i] that ai(3) by (auto simp: K_def)
    have "obj \<notin> A"
    proof
      assume "obj \<in> A"
      then obtain b j where b: "obj_at K a i = obj_at K b j" "b \<in> set (slabs_of K)" "b \<noteq> a" "j < unat (objs_per_slab K)" by (auto simp: A_def ai(1))
      have "slab_inv s k ord b" using o(3) b(2) by blast
      then have "a = b" using obj_at_inj [OF P gk gk I, of b i j] ai(3) b(1,4) by (simp add: K_def)
      then show False using b(3) by simp
    qed
    moreover have "{obj_at K a j | j. j < unat (objs_per_slab K) \<and> head K a j \<notin> set (objects sl')} = B - {obj}"
      unfolding B_def ai(1) using inj hi by (auto simp: sl'_def)
    ultimately show ?thesis using 1 2 by auto
  qed
  ultimately show ?thesis using run by blast
qed

subsection \<open>Giving free slabs back to the page pool\<close>

lemma free_slab_no_objects:
  assumes P: "pages_ok_for s" and g: "geom (caches s k) ord" and I: "slab_inv s k ord a" and c: "obj_count (slabs s a) = 0"
    and i: "i < unat (objs_per_slab (caches s k))"
  shows "head (caches s k) a i \<in> set (objects (slabs s a))"
proof -
  define N where "N = unat (objs_per_slab (caches s k))"
  have S: "distinct (objects (slabs s a))" "set (objects (slabs s a)) \<subseteq> head (caches s k) a ` {..<N}" "length (objects (slabs s a)) = N"
    using I c by (auto simp: slab_inv_def Let_def N_def)
  have "inj_on (head (caches s k) a) {..<N}" using head_inj [OF P g I] by (auto simp: inj_on_def N_def)
  then have "card (head (caches s k) a ` {..<N}) = N" by (simp add: card_image)
  then have "set (objects (slabs s a)) = head (caches s k) a ` {..<N}" using S by (intro card_subset_eq) (auto simp: distinct_card)
  then show ?thesis using i by (simp add: N_def)
qed

lemma slab_count_pos:
  assumes P: "pages_ok_for s" and C: "cache_inv s k" and ne: "slabs_of (caches s k) \<noteq> []"
  shows "0 < slab_count (caches s k)"
proof -
  from cache_butE [OF C] obtain ord where o: "geom (caches s k) ord" "distinct (slabs_of (caches s k))"
    "\<forall>a \<in> set (slabs_of (caches s k)). slab_inv s k ord a" "slab_count (caches s k) = of_nat (length (slabs_of (caches s k)))" by metis
  have "set (slabs_of (caches s k)) \<subset> UNIV" using slab_room(4) [OF P o(1)] o(3) by blast
  then have "card (set (slabs_of (caches s k))) < card (UNIV :: u64 set)" by (intro psubset_card_mono) auto
  then have "length (slabs_of (caches s k)) < 2 ^ 64" using distinct_card [OF o(2)] by (simp add: card_word)
  then show ?thesis using ne o(4) by (simp add: word_less_nat_alt unat_of_nat)
qed

lemma reap_step:
  assumes P: "pages_ok_for s" and C: "cache_inv s k" and f: "free_slabs (caches s k) = a # q"
  defines "page \<equiv> slab_page (slabs s a)"
  shows "\<exists>p1 p2 ord. mark_pages None page (page + slab_size (caches s k)) (pages s) = Some p1 \<and> free_buddy_pages p1 page = Some p2 \<and>
    0 < slab_count (caches s k) \<and> geom (caches s k) ord \<and> (page, ord) \<in> pool_blocks (pages s) \<and>
    pool_blocks p2 = pool_blocks (pages s) - {(page, ord)} \<and>
    (let s' = s\<lparr>pages := p2, caches := (caches s)(k := (caches s k)\<lparr>free_slabs := q, slab_count := slab_count (caches s k) - 1\<rparr>)\<rparr>
     in cache_inv s' k \<and> others_kept k s s' \<and> live s' k = live s k)"
proof -
  define K where "K = caches s k"
  from cache_butE [OF C] obtain ord where o: "geom K ord" "distinct (slabs_of K)" "\<forall>a \<in> set (slabs_of K). slab_inv s k ord a"
    "\<forall>a \<in> set (partial_slabs K). obj_count (slabs s a) < objs_per_slab K \<and> (a \<notin> {} \<longrightarrow> 0 < obj_count (slabs s a))"
    "\<forall>a \<in> set (full_slabs K). obj_count (slabs s a) = objs_per_slab K" "\<forall>a \<in> set (free_slabs K). obj_count (slabs s a) = 0"
    "slab_count K = of_nat (length (slabs_of K))" "cache_db s (kc_name K) = Some k" unfolding K_def [symmetric] .
  have gk: "geom (caches s k) ord" using o(1) by (simp add: K_def)
  have as: "a \<in> set (slabs_of K)" using f by (simp add: slabs_of_def K_def)
  have I: "slab_inv s k ord a" using o(3) as by blast
  have inv: "pool_inv (pages s)" "straight (pages s)" using P by (auto simp: pages_ok_for_def)
  have pb: "(page, ord) \<in> pool_blocks (pages s)" using slab_block [OF I] by (simp add: page_def)
  obtain p1 where p1: "mark_pages None page (page + slab_size K) (pages s) = Some p1" "owners_only (pages s) p1"
    "\<forall>x. page_owner p1 x = (if x \<in> block_bytes page ord then None else page_owner (pages s) x)"
    using mark_pages_ok [OF inv pb, of None] geom_sizes(3) [OF o(1)] by auto
  have i1: "pool_inv p1" "(page, ord) \<in> pool_blocks p1" "pool_blocks p1 = pool_blocks (pages s)" "straight p1"
    using p1(2) pb inv(2) by (auto simp: owners_only_def straight_def simp del: set_map)
  obtain p2 where p2: "free_buddy_pages p1 page = Some p2" "pool_inv p2" "pool_blocks p2 = pool_blocks p1 - {(page, ord)}"
    using free_page_ok [OF i1(1,2)] by (auto simp: free_buddy_pages_def)
  have so: "same_owners p1 p2" using p2(1) free_page_owners by (simp add: free_buddy_pages_def)
  define K' where "K' = K\<lparr>free_slabs := q, slab_count := slab_count K - 1\<rparr>"
  define s' where "s' = s\<lparr>pages := p2, caches := (caches s)(k := K')\<rparr>"
  have sg: "same_geom K K'" by (simp add: same_geom_def K'_def)
  note G = same_geomD [OF sg]
  have k': "caches s' k = K'" and sl: "slabs s' = slabs s" by (simp_all add: s'_def)
  have kept: "block_kept (pages s) p2 (slab_page (slabs s b)) l" if b: "slab_inv s k1 l b" and ne: "b \<noteq> a" for b k1 l
  proof -
    have d: "block_bytes (slab_page (slabs s b)) l \<inter> block_bytes page ord = {}"
      using slab_blocks_disjoint [OF P b I ne] by (simp add: page_def)
    have "slab_page (slabs s b) \<noteq> page"
    proof
      assume "slab_page (slabs s b) = page"
      then have "page \<in> block_bytes (slab_page (slabs s b)) l" "page \<in> block_bytes page ord" by (simp_all add: block_bytes_def)
      then show False using d by blast
    qed
    then have "(slab_page (slabs s b), l) \<in> pool_blocks p2" using slab_block [OF b] p2(3) i1(3) by simp
    then show ?thesis using d p1(3) same_owners_lookup(2) [OF so] by (auto simp: block_kept_def)
  qed
  have st: "set (slabs_of K') = set (slabs_of K) - {a}" "distinct (slabs_of K')" "length (slabs_of K) = length (slabs_of K') + 1"
    using o(2) f by (auto simp: slabs_of_def K'_def K_def)
  have "cache_inv s' k"
    unfolding cache_but_def Let_def k' sl G(5,6)
  proof (intro exI [of _ ord] conjI ballI)
    show "geom K' ord" using G(7) o(1) by (simp add: K'_def)
    show "distinct (slabs_of K')" by (rule st(2))
    show "slab_inv s' k ord b" if "b \<in> set (slabs_of K')" for b
    proof -
      have b: "slab_inv s k ord b" "b \<noteq> a" using o(3) that st(1) by auto
      show ?thesis by (rule slab_inv_kept [OF b(1)]) (use sg kept [OF b] in \<open>simp_all add: s'_def K_def\<close>)
    qed
    fix b
    show "obj_count (slabs s b) < objs_per_slab K" "b \<notin> {} \<longrightarrow> 0 < obj_count (slabs s b)" if "b \<in> set (partial_slabs K')"
      using that o(4) by (auto simp: K'_def)
    show "obj_count (slabs s b) = objs_per_slab K" if "b \<in> set (full_slabs K')" using that o(5) by (simp add: K'_def)
    show "obj_count (slabs s b) = 0" if "b \<in> set (free_slabs K')" using that o(6) f by (simp add: K'_def K_def)
    have "slab_count K' = slab_count K - 1" by (simp add: K'_def)
    then show "slab_count K' = of_nat (length (slabs_of K'))" using o(7) st(3) by simp
    show "cache_db s' (kc_name K) = Some k" using o(8) by (simp add: s'_def)
  qed
  moreover have "live s' k = live s k"
  proof -
    have "a \<in> set (free_slabs K)" using f by (simp add: K_def)
    then have "head K a i \<in> set (objects (slabs s a))" if "i < unat (objs_per_slab K)" for i
      using free_slab_no_objects [OF P gk I] o(6) that by (simp add: K_def)
    then show ?thesis unfolding live_def k' sl G st(1) K_def [symmetric] by blast
  qed
  moreover have "others_kept k s s'"
    unfolding others_kept_def k'
  proof (intro conjI allI impI)
    show "pages_ok_for s'" using p2(2) straight_owners [OF so] i1(4) by (simp add: pages_ok_for_def s'_def)
    show "cache_db s' = cache_db s" "same_geom (caches s k) K'" "usage_count K' = usage_count (caches s k)" "sflags K' = sflags (caches s k)"
      using sg by (simp_all add: s'_def K_def K'_def)
    fix k1 assume ne: "k1 \<noteq> k"
    show kk: "caches s' k1 = caches s k1" using ne by (simp add: s'_def)
    assume ci: "cache_inv s k1"
    have na: "b \<noteq> a" if "b \<in> set (slabs_of (caches s k1))" for b
      using cache_slab_ref [OF ci that] cache_slab_ref [OF C as [unfolded K_def]] ne by auto
    have "\<And>b l. b \<in> set (slabs_of (caches s k1)) \<Longrightarrow> slab_inv s k1 l b \<Longrightarrow> block_kept (pages s) (pages s') (slab_page (slabs s b)) l"
      using kept na by (simp add: s'_def)
    moreover have "cache_db s' (kc_name (caches s k1)) = cache_db s (kc_name (caches s k1))" by (simp add: s'_def)
    ultimately show "cache_inv s' k1" and "live s' k1 = live s k1" using other_cache_kept [OF ci kk] sl by auto
  qed
  moreover have "0 < slab_count K" using slab_count_pos [OF P C] as unfolding K_def by (metis empty_iff list.set(1))
  ultimately show ?thesis using p1(1) p2(1,3) o(1) pb i1(3) unfolding s'_def K'_def K_def Let_def by blast
qed

lemma reap_loop_ok:
  assumes "pages_ok_for s" and "cache_inv s k"
  shows "\<exists>s'. reap_loop s k force (free_slabs (caches s k)) = Some s' \<and> cache_inv s' k \<and> others_kept k s s' \<and> live s' k = live s k \<and>
    (force \<longrightarrow> free_slabs (caches s' k) = []) \<and>
    (\<exists>n. free_slabs (caches s' k) = drop n (free_slabs (caches s k)) \<and>
       (\<exists>ord. geom (caches s k) ord \<and> pool_blocks (pages s') = pool_blocks (pages s) - (\<lambda>a. (slab_page (slabs s a), ord)) ` set (take n (free_slabs (caches s k)))))"
  using assms
proof (induction "free_slabs (caches s k)" arbitrary: s)
  case Nil
  then have "\<exists>ord. geom (caches s k) ord" by (auto elim: cache_butE)
  then show ?case using Nil others_kept_refl [of s k] by (auto simp: Nil(1) [symmetric])
next
  case (Cons a q)
  note f = Cons(2) [symmetric]
  show ?case
  proof (cases "\<not> force \<and> slab_count (caches s k) < limits (caches s k)")
    case True
    obtain ord where "geom (caches s k) ord" using Cons.prems(2) by (auto elim: cache_butE)
    then have "\<exists>n. a # q = drop n (a # q) \<and> (\<exists>ord. geom (caches s k) ord \<and>
        pool_blocks (pages s) = pool_blocks (pages s) - (\<lambda>a. (slab_page (slabs s a), ord)) ` set (take n (a # q)))"
      by (intro exI [of _ 0]) auto
    then show ?thesis using True Cons.prems(2) others_kept_refl [OF Cons.prems(1)] unfolding f by (intro exI [of _ s]) (simp add: f)
  next
    case False
    define page where "page = slab_page (slabs s a)"
    from reap_step [OF Cons.prems f, folded page_def] obtain p1 p2 ord where r:
      "mark_pages None page (page + slab_size (caches s k)) (pages s) = Some p1" "free_buddy_pages p1 page = Some p2"
      "0 < slab_count (caches s k)" "geom (caches s k) ord" "pool_blocks p2 = pool_blocks (pages s) - {(page, ord)}"
      "let s' = s\<lparr>pages := p2, caches := (caches s)(k := (caches s k)\<lparr>free_slabs := q, slab_count := slab_count (caches s k) - 1\<rparr>)\<rparr>
       in cache_inv s' k \<and> others_kept k s s' \<and> live s' k = live s k" by (elim exE conjE) (rule that)
    define s1 where "s1 = s\<lparr>pages := p2, caches := (caches s)(k := (caches s k)\<lparr>free_slabs := q, slab_count := slab_count (caches s k) - 1\<rparr>)\<rparr>"
    have s1: "cache_inv s1 k" "others_kept k s s1" "live s1 k = live s k" "pages_ok_for s1" "free_slabs (caches s1 k) = q" "slabs s1 = slabs s" "pages s1 = p2"
      using r(6) by (simp_all add: s1_def Let_def others_kept_def)
    have run: "reap_loop s k force (a # q) = reap_loop s1 k force q"
      using False r(1-3) by (auto simp: upd_cache_def page_def s1_def Let_def)
    from Cons(1) [OF s1(5) [symmetric] s1(4,1), unfolded s1(5,6,7)] obtain s' n ord' where h: "reap_loop s1 k force q = Some s'" "cache_inv s' k" "others_kept k s1 s'" "live s' k = live s1 k"
      "force \<longrightarrow> free_slabs (caches s' k) = []" "free_slabs (caches s' k) = drop n q" "geom (caches s1 k) ord'"
      "pool_blocks (pages s') = pool_blocks p2 - (\<lambda>a. (slab_page (slabs s a), ord')) ` set (take n q)" by (elim exE conjE) (rule that)
    have "slab_size (caches s1 k) = slab_size (caches s k)" using s1(2) by (simp add: others_kept_def same_geom_def)
    then have "ord' = ord" using slab_order(1) [OF h(7), of 0] slab_order(1) [OF r(4), of 0] by simp
    then have "pool_blocks (pages s') = pool_blocks (pages s) - (\<lambda>a. (slab_page (slabs s a), ord)) ` set (take (Suc n) (a # q))"
      using h(8) r(5) by (auto simp: page_def)
    moreover have "free_slabs (caches s' k) = drop (Suc n) (a # q)" using h(6) by simp
    moreover have "reap_loop s k force (a # q) = Some s'" "live s' k = live s k" using run h(1,4) s1(3) by simp_all
    ultimately show ?thesis using h(2,5) others_kept_trans [OF s1(2) h(3)] r(4) unfolding f
      by (intro exI [of _ s'] conjI exI [of _ "Suc n"] exI [of _ ord])
  qed
qed

end
