(* ===== verification/Kmalloc.thy ===== *)
theory Kmalloc
  imports Kmcache
begin

text \<open>
  Properties of the slab allocator of theory \<open>Kmcache\<close>: the parameters \<open>kmem_cache_init\<close> computes, references to
  caches, \<open>kmalloc\<close> and \<open>kfree\<close>.
\<close>

section \<open>The parameters of a cache\<close>

lemma order_loop_lt: "order_loop x n res < n \<or> order_loop x n res = res"
  by (induction n) auto

lemma calc_page_order_lt: "calc_page_order sz 0 < PAGE_POOL_MAX_ORDER"
proof -
  have "order_loop x PAGE_POOL_MAX_ORDER 0 < PAGE_POOL_MAX_ORDER" for x using order_loop_lt [of x PAGE_POOL_MAX_ORDER 0] by auto
  then show ?thesis unfolding calc_page_order_def Let_def by simp
qed

lemma off_slab_loop_pow:
  "order + n \<le> PAGE_POOL_MAX_ORDER \<Longrightarrow> l < PAGE_POOL_MAX_ORDER \<Longrightarrow> \<exists>l' < PAGE_POOL_MAX_ORDER. off_slab_loop d order n r (push_bit l PAGE_SIZE) = push_bit l' PAGE_SIZE"
proof (induction n arbitrary: order r l)
  case (Suc n)
  then show ?case using Suc.IH [where order = "order + 1" and l = l] Suc.IH [where order = "order + 1" and l = order] by (simp add: Let_def)
qed auto

text \<open>
  Whatever its size, a cache gets slabs of a power of two of pages in which the descriptor at any colour and all
  its objects have room.
\<close>

lemma param_fit:
  assumes "0 < obj_size kc" and "kc_align kc \<noteq> 0" and "cell kc < 2 ^ 64"
  shows "\<exists>l cn. l < PAGE_POOL_MAX_ORDER \<and> do { kc \<leftarrow> calc_slab_param kc; setup_color_param kc } =
      Some (kc\<lparr>slab_size := push_bit l PAGE_SIZE, objs_per_slab := (push_bit l PAGE_SIZE - SIZEOF_SLAB) div of_nat (cell kc), color_num := cn, color_next := 0\<rparr>) \<and>
    64 * (unat cn - 1) + 248 + unat ((push_bit l PAGE_SIZE - SIZEOF_SLAB) div of_nat (cell kc)) * cell kc \<le> 4096 * 2 ^ l"
proof -
  have d: "calc_slab_data_size kc = Some (of_nat (cell kc))"
    using assms(1,2) by (simp add: calc_slab_data_size_def kmem_calc_align_offset_def pad_def cell_def)
  have ds: "calc_slab_data_size (kc\<lparr>slab_size := x\<rparr>) = calc_slab_data_size kc" "calc_slab_data_size (kc\<lparr>slab_size := x, objs_per_slab := y\<rparr>) = calc_slab_data_size kc" for x y
    by (simp_all add: calc_slab_data_size_def kmem_calc_align_offset_def)
  obtain l where l: "l < PAGE_POOL_MAX_ORDER" "calc_slab_param kc =
      Some (kc\<lparr>slab_size := push_bit l PAGE_SIZE, objs_per_slab := (push_bit l PAGE_SIZE - SIZEOF_SLAB) div of_nat (cell kc)\<rparr>)"
  proof (cases "kmem_is_off_slab kc")
    case False
    then show thesis using that [of 0] d by (simp add: calc_slab_param_def kmem_is_off_slab_def ds)
  next
    case True
    define m where "m = calc_page_order (SIZEOF_SLAB + of_nat (cell kc)) 0"
    have m: "m < PAGE_POOL_MAX_ORDER" using calc_page_order_lt by (simp add: m_def)
    obtain l where "l < PAGE_POOL_MAX_ORDER" "off_slab_loop (of_nat (cell kc)) m (PAGE_POOL_MAX_ORDER - m)
        ((push_bit m PAGE_SIZE - SIZEOF_SLAB) mod of_nat (cell kc)) (push_bit m PAGE_SIZE) = push_bit l PAGE_SIZE"
      using off_slab_loop_pow [of m "PAGE_POOL_MAX_ORDER - m" m] m by auto
    then show thesis using that [of l] True d
      by (simp add: calc_slab_param_def calc_off_slab_size_def kmem_is_off_slab_def ds m_def [symmetric] Let_def)
  qed
  define n where "n = (push_bit l PAGE_SIZE - SIZEOF_SLAB) div (of_nat (cell kc) :: u64)"
  define area where "area = push_bit l PAGE_SIZE - SIZEOF_SLAB - n * of_nat (cell kc)"
  define cn where "cn = (if area < 64 then 0 else area div 64 + 1)"
  have sz: "unat (push_bit l PAGE_SIZE :: u64) = 4096 * 2 ^ l"
  proof -
    have "(4096 :: nat) * 2 ^ l < 2 ^ 64" using pow_ord [OF l(1)] by simp
    moreover have "unat (2 ^ l :: u64) = 2 ^ l" using unat_exp_64 [of l] l(1) by simp
    ultimately show ?thesis by (simp add: push_bit_eq_mult unat_word_ariths)
  qed
  have big: "(4096 :: nat) \<le> 4096 * 2 ^ l" by simp
  have room: "unat (push_bit l PAGE_SIZE - SIZEOF_SLAB :: u64) = 4096 * 2 ^ l - 248"
  proof -
    have "248 \<le> (4096 :: nat) * 2 ^ l" using big by linarith
    then show ?thesis using sz by (subst unat_sub) (simp_all add: word_le_nat_alt)
  qed
  have uc: "unat (of_nat (cell kc) :: u64) = cell kc" using assms(3) by (simp add: unat_of_nat)
  have un: "unat n = (4096 * 2 ^ l - 248) div cell kc" by (simp add: n_def unat_div uc room)
  then have nd: "unat n * cell kc \<le> 4096 * 2 ^ l - 248" by (simp add: div_times_less_eq_dividend)
  have unc: "unat (n * of_nat (cell kc)) = unat n * cell kc"
  proof -
    have "unat n * cell kc < 2 ^ 64" using nd pow_ord [OF l(1)] by simp
    then show ?thesis by (simp add: unat_word_ariths uc)
  qed
  have ar: "unat area = 4096 * 2 ^ l - 248 - unat n * cell kc"
    unfolding area_def using room unc nd by (subst unat_sub) (simp_all add: word_le_nat_alt)
  have "64 * (unat cn - 1) \<le> unat area"
  proof (cases "area < 64")
    case False
    have ud: "unat (area div 64) = unat area div 64" by (simp add: unat_div)
    have "unat (area div 64) + unat (1 :: u64) < 2 ^ 64" using unsigned_less [of "area", where ?'a = nat] unfolding ud by simp
    then have "unat (area div 64 + 1) = unat (area div 64) + unat (1 :: u64)" by (intro unat_add_lem [THEN iffD1]) simp
    then have "unat cn = unat area div 64 + 1" using False ud by (simp add: cn_def)
    then show ?thesis by simp
  qed (simp add: cn_def)
  then have "64 * (unat cn - 1) + 248 + unat n * cell kc \<le> 4096 * 2 ^ l" using ar nd big by linarith
  moreover have "do { kc \<leftarrow> calc_slab_param kc; setup_color_param kc } =
      Some (kc\<lparr>slab_size := push_bit l PAGE_SIZE, objs_per_slab := n, color_num := cn, color_next := 0\<rparr>)"
    using l(2) d by (simp add: setup_color_param_def ds n_def [symmetric] area_def [symmetric] cn_def Let_def)
  ultimately show ?thesis using l(1) unfolding n_def by blast
qed

section \<open>Registering a cache\<close>

lemma kmem_inv_kept:
  assumes "kmem_inv s" and "cache_db s (kc_name (caches s k)) = Some k" and "others_kept k s s'" and "cache_inv s' k"
  shows "kmem_inv s'"
  unfolding kmem_inv_def
proof (intro conjI allI impI)
  show "pages_ok_for s'" using assms(3) by (simp add: others_kept_def)
  fix name k' assume "cache_db s' name = Some k'"
  then have db: "cache_db s name = Some k'" using assms(3) by (simp add: others_kept_def)
  then have k': "kc_name (caches s k') = name" "cache_inv s k'" using assms(1) by (auto simp: kmem_inv_def)
  show "kc_name (caches s' k') = name" "cache_inv s' k'"
    using k' assms(3,4) by (cases "k' = k"; auto simp: others_kept_def same_geom_def)+
qed

lemma cache_but_same:
  assumes "caches s' k = caches s k" and "slabs s' = slabs s" and "pages s' = pages s" and "cache_db s' (kc_name (caches s k)) = cache_db s (kc_name (caches s k))"
  shows "cache_but X s' k = cache_but X s k" and "live s' k = live s k"
  using assms by (simp_all add: cache_but_def slab_inv_def live_def)

lemma kmem_cache_init_ok:
  assumes inv: "kmem_inv s" and name: "cache_db s name = None" and new: "\<And>n. cache_db s n \<noteq> Some k"
    and pos: "0 < sz" and fits: "cell ((caches s k)\<lparr>kc_name := name, obj_size := sz, kc_align := (if align \<noteq> KM_ALIGN_HW then align else 8)\<rparr>) < 2 ^ 64"
    and some_obj: "\<And>kc. calc_slab_param ((caches s k)\<lparr>kc_name := name, obj_size := sz, kc_align := (if align \<noteq> KM_ALIGN_HW then align else 8)\<rparr>) = Some kc \<Longrightarrow>
      0 < objs_per_slab kc"
  shows "\<exists>s'. kmem_cache_init s k name sz flags align lim constructor destructor = Some (0, s') \<and> kmem_inv s' \<and>
    cache_db s' = (cache_db s)(name \<mapsto> k) \<and> pages s' = pages s \<and> slabs s' = slabs s \<and> (\<forall>k'. k' \<noteq> k \<longrightarrow> caches s' k' = caches s k') \<and>
    kc_name (caches s' k) = name \<and> obj_size (caches s' k) = sz \<and> live s' k = {} \<and> usage_count (caches s' k) = 0 \<and>
    sflags (caches s' k) = (if kmem_is_off_slab (caches s' k) then KM_SLAB_ON_SLAB else KM_SLAB_OFF_SLAB) OR flags \<and>
    s' = s\<lparr>caches := (caches s)(k := caches s' k), cache_db := (cache_db s)(name \<mapsto> k)\<rparr>"
proof -
  define kc0 where "kc0 = (caches s k)\<lparr>kc_name := name, obj_size := sz, kc_align := (if align \<noteq> KM_ALIGN_HW then align else 8)\<rparr>"
  have "0 < obj_size kc0" "kc_align kc0 \<noteq> 0" "cell kc0 < 2 ^ 64" using pos fits by (simp_all add: kc0_def)
  from param_fit [OF this] obtain l cn where l: "l < PAGE_POOL_MAX_ORDER" "do { kc \<leftarrow> calc_slab_param kc0; setup_color_param kc } =
      Some (kc0\<lparr>slab_size := push_bit l PAGE_SIZE, objs_per_slab := (push_bit l PAGE_SIZE - SIZEOF_SLAB) div of_nat (cell kc0), color_num := cn, color_next := 0\<rparr>)"
    "64 * (unat cn - 1) + 248 + unat ((push_bit l PAGE_SIZE - SIZEOF_SLAB) div of_nat (cell kc0)) * cell kc0 \<le> 4096 * 2 ^ l" by blast
  define n where "n = (push_bit l PAGE_SIZE - SIZEOF_SLAB) div (of_nat (cell kc0) :: u64)"
  define kc1 where "kc1 = kc0\<lparr>slab_size := push_bit l PAGE_SIZE, objs_per_slab := n, color_num := cn, color_next := 0\<rparr>"
  have par: "do { kc \<leftarrow> calc_slab_param kc0; setup_color_param kc } = Some kc1" using l(2) by (simp add: kc1_def n_def)
  have n0: "0 < n"
  proof -
    from par obtain kc where kc: "calc_slab_param kc0 = Some kc" "setup_color_param kc = Some kc1" by (auto simp: bind_eq_Some_conv)
    have "0 < objs_per_slab kc" using some_obj kc(1) by (simp add: kc0_def)
    moreover have "objs_per_slab kc1 = objs_per_slab kc" using kc(2) by (auto simp: setup_color_param_def bind_eq_Some_conv Let_def)
    ultimately show ?thesis by (simp add: kc1_def)
  qed
  define kc2 where "kc2 = kc1\<lparr>sflags := (if kmem_is_off_slab kc1 then KM_SLAB_ON_SLAB else KM_SLAB_OFF_SLAB) OR flags,
     partial_slabs := [], full_slabs := [], free_slabs := [], slab_count := 0, usage_count := 0, kc_state := 0,
     limits := (if lim = KM_LIMIT_DEFAULT then KM_DEFAULT_LIMIT else lim)\<rparr>"
  define kc3 where "kc3 = (case constructor of None \<Rightarrow> kc2 | Some f \<Rightarrow> kc2\<lparr>kc_constructor := Some f\<rparr>)"
  define kc where "kc = (case destructor of None \<Rightarrow> kc3 | Some f \<Rightarrow> kc3\<lparr>kc_destructor := Some f\<rparr>)"
  have kc: "obj_size kc = sz" "kc_align kc = kc_align kc0" "slab_size kc = push_bit l PAGE_SIZE" "objs_per_slab kc = n" "color_num kc = cn"
    "color_next kc = 0" "partial_slabs kc = []" "full_slabs kc = []" "free_slabs kc = []" "slab_count kc = 0" "usage_count kc = 0" "kc_name kc = name"
    "sflags kc = (if kmem_is_off_slab kc then KM_SLAB_ON_SLAB else KM_SLAB_OFF_SLAB) OR flags"
    by (simp_all add: kc_def kc3_def kc2_def kc1_def kc0_def kmem_is_off_slab_def split: option.splits)
  have ce: "cell kc = cell kc0" by (simp add: cell_def pad_def kc(1,2)) (simp add: kc0_def)
  have geo: "geom kc l"
    using pos l(1,3) n0 unfolding geom_def ce kc n_def [symmetric] by (auto simp: kc0_def word_gt_0)
  define s' where "s' = s\<lparr>caches := (caches s)(k := kc), cache_db := (cache_db s)(name \<mapsto> k)\<rparr>"
  have run: "kmem_cache_init s k name sz flags align lim constructor destructor = Some (0, s')"
  proof -
    have b: "(do { kc \<leftarrow> calc_slab_param kc0; kc \<leftarrow> setup_color_param kc; f kc }) = f kc1" for f :: "kmem_cache \<Rightarrow> (int \<times> kmem) option"
      using par by (auto simp: bind_eq_Some_conv)
    show ?thesis
      unfolding kmem_cache_init_def Let_def kc0_def [symmetric] b kc2_def [symmetric] kc3_def [symmetric] kc_def [symmetric]
      using pos name by (simp add: add_kmem_cache_into_db_def upd_cache_def s'_def kc(12))
  qed
  have cur: "cache_inv s' k"
    using geo by (auto simp: cache_but_def Let_def s'_def slabs_of_def kc intro!: exI [of _ l])
  have "kmem_inv s'"
    unfolding kmem_inv_def
  proof (intro conjI allI impI)
    show "pages_ok_for s'" using inv by (simp add: kmem_inv_def pages_ok_for_def s'_def)
    fix n' k' assume d: "cache_db s' n' = Some k'"
    show "kc_name (caches s' k') = n'"
    proof (cases "n' = name")
      case False
      then have "cache_db s n' = Some k'" using d by (simp add: s'_def)
      then show ?thesis using inv new by (auto simp: kmem_inv_def s'_def)
    qed (use d kc(12) in \<open>simp add: s'_def\<close>)
    show "cache_inv s' k'"
    proof (cases "n' = name")
      case True
      then show ?thesis using d cur by (simp add: s'_def)
    next
      case False
      then have db: "cache_db s n' = Some k'" using d by (simp add: s'_def)
      then have k': "k' \<noteq> k" "kc_name (caches s k') = n'" "cache_inv s k'" using new inv by (auto simp: kmem_inv_def)
      have "cache_but {} s' k' = cache_but {} s k'" by (rule cache_but_same) (use k' False in \<open>simp_all add: s'_def\<close>)
      then show ?thesis using k'(3) by simp
    qed
  qed
  moreover have "live s' k = {}" by (simp add: live_def s'_def slabs_of_def kc)
  ultimately show ?thesis using run kc by (intro exI [of _ s']) (simp add: s'_def)
qed

section \<open>References\<close>

lemma usage_irrelevant:
  "cache_but X (upd_cache s k (\<lambda>kc. kc\<lparr>usage_count := f kc\<rparr>)) k' = cache_but X s k'"
  "live (upd_cache s k (\<lambda>kc. kc\<lparr>usage_count := f kc\<rparr>)) k' = live s k'"
proof -
  define s' where "s' = upd_cache s k (\<lambda>kc. kc\<lparr>usage_count := f kc\<rparr>)"
  have sg: "same_geom (caches s k') (caches s' k')" by (simp add: s'_def upd_cache_def same_geom_def)
  note G = same_geomD [OF sg]
  have q: "partial_slabs (caches s' k') = partial_slabs (caches s k')" "full_slabs (caches s' k') = full_slabs (caches s k')"
    "free_slabs (caches s' k') = free_slabs (caches s k')" "slab_count (caches s' k') = slab_count (caches s k')"
    "color_next (caches s' k') = color_next (caches s k')" "color_num (caches s' k') = color_num (caches s k')"
    "slabs s' = slabs s" "pages s' = pages s" "cache_db s' = cache_db s" by (simp_all add: s'_def upd_cache_def)
  have so: "slabs_of (caches s' k') = slabs_of (caches s k')" by (simp add: slabs_of_def q)
  have sl: "slab_inv s' k' ord a = slab_inv s k' ord a" for ord a unfolding slab_inv_def Let_def q G ..
  show "cache_but X s' k' = cache_but X s k'" unfolding cache_but_def Let_def sl so G(7) [OF q(5)] G(5,6) q ..
  show "live s' k' = live s k'" unfolding live_def so G q ..
qed

text \<open>
  \<open>kmalloc\<close> and \<open>kfree\<close> hold a reference to the cache while they work on it; a predefined cache is never
  freed when the reference goes.
\<close>

abbreviation get_ref :: "kmem \<Rightarrow> u64 \<Rightarrow> kmem" where
  "get_ref s k \<equiv> upd_cache s k (\<lambda>kc. kc\<lparr>usage_count := usage_count kc + 1\<rparr>)"

abbreviation put_ref :: "kmem \<Rightarrow> u64 \<Rightarrow> kmem" where
  "put_ref s k \<equiv> upd_cache s k (\<lambda>kc. kc\<lparr>usage_count := usage_count kc - 1\<rparr>)"

lemma ref_fields [simp]:
  "pages (get_ref s k) = pages s" "cache_db (get_ref s k) = cache_db s" "slabs (get_ref s k) = slabs s" "kc_name (caches (get_ref s k) k') = kc_name (caches s k')"
  "sflags (caches (get_ref s k) k') = sflags (caches s k')" "slab_size (caches (get_ref s k) k') = slab_size (caches s k')"
  "k' \<noteq> k \<Longrightarrow> caches (get_ref s k) k' = caches s k'"
  by (simp_all add: upd_cache_def)

lemma get_put_ref: "put_ref (get_ref s k) k = s"
  by (simp add: upd_cache_def)

lemma with_ref:
  assumes o: "others_kept k (get_ref s k) s2" and pre: "sflags (caches s k) AND KM_SLAB_PREDEFINED_CACHE \<noteq> 0"
    and us: "usage_count (caches s k) + 1 \<noteq> 0"
  shows "put_release s2 k = Some (False, put_ref s2 k)" and "others_kept k s (put_ref s2 k)"
proof -
  have u: "usage_count (caches s2 k) = usage_count (caches s k) + 1" "sflags (caches s2 k) = sflags (caches s k)"
    using o by (auto simp: others_kept_def upd_cache_def)
  show "put_release s2 k = Some (False, put_ref s2 k)"
    using us pre u by (simp add: put_release_def upd_cache_def Let_def word_gt_0)
  show "others_kept k s (put_ref s2 k)"
    using o u unfolding others_kept_def usage_irrelevant by (simp add: pages_ok_for_def upd_cache_def same_geom_def)
qed

lemma kmem_invD:
  assumes "kmem_inv s" and "cache_db s n = Some k"
  shows "pages_ok_for s" and "cache_inv s k" and "kc_name (caches s k) = n"
  using assms by (auto simp: kmem_inv_def)

lemma pages_ok_get_ref [simp]: "pages_ok_for (get_ref s k) = pages_ok_for s"
  by (simp add: pages_ok_for_def)

lemma get_kmem_cache_eq: "cache_db s n = Some k \<Longrightarrow> get_kmem_cache s n = (Some k, get_ref s k)"
  by (simp add: get_kmem_cache_def)

lemma live_owner:
  assumes "pages_ok_for s" and "cache_inv s k" and "obj \<in> live s k"
  obtains a where "kmem_obj_to_slab s obj = Some a" "kmcache_ref (slabs s a) = k"
proof -
  from assms(2) obtain ord where o: "geom (caches s k) ord" "\<forall>a \<in> set (slabs_of (caches s k)). slab_inv s k ord a" by (rule cache_butE)
  from assms(3) obtain a i where a: "obj = obj_at (caches s k) a i" "a \<in> set (slabs_of (caches s k))" "i < unat (objs_per_slab (caches s k))"
    by (auto simp: live_def)
  have I: "slab_inv s k ord a" using o(2) a(2) by blast
  have "page_owner (pages s) obj = Some a" using slab_owner [OF I] obj_bytes(4) [OF assms(1) o(1) I a(3)] a(1) by simp
  then show thesis using that obj_to_slab_owner cache_slab_ref [OF assms(2) a(2)] by blast
qed

lemma kfree_ok:
  assumes inv: "kmem_inv s" and db: "cache_db s (kc_name (caches s k)) = Some k" and pre: "sflags (caches s k) AND KM_SLAB_PREDEFINED_CACHE \<noteq> 0"
    and us: "usage_count (caches s k) + 1 \<noteq> 0" and L: "obj \<in> live s k"
  shows "\<exists>s'. kfree s (Some obj) = Some s' \<and> kmem_inv s' \<and> others_kept k s s' \<and> live s' k = live s k - {obj}"
proof -
  note I = kmem_invD [OF inv db]
  from live_owner [OF I(1,2) L] obtain a where a: "kmem_obj_to_slab s obj = Some a" "kmcache_ref (slabs s a) = k" .
  obtain s2 where s2: "kmem_cache_free (get_ref s k) k obj = Some s2" "cache_inv s2 k" "others_kept k (get_ref s k) s2" "live s2 k = live s k - {obj}"
    using kmem_cache_free_ok [of "get_ref s k" k obj] I L by (auto simp: usage_irrelevant)
  note R = with_ref [OF s2(3) pre us]
  have "kfree s (Some obj) = Some (put_ref s2 k)"
    using a s2(1) R(1) get_kmem_cache_eq [OF db] by (simp add: kfree.simps [of s])
  moreover have "kmem_inv (put_ref s2 k)" using kmem_inv_kept [OF inv db R(2)] s2(2) by (simp add: usage_irrelevant)
  ultimately show ?thesis using R(2) s2(4) by (auto simp: usage_irrelevant)
qed

section \<open>Allocation by size\<close>

definition kmalloc_inv :: "u64 \<Rightarrow> kmem \<Rightarrow> bool" where
  "kmalloc_inv base s \<longleftrightarrow> kmem_inv s \<and> (\<forall>i < KMALLOC_NR. let k = kmalloc_cache base i in
     cache_db s (kc_name (caches s k)) = Some k \<and> usage_count (caches s k) = 0 \<and>
     sflags (caches s k) AND KM_SLAB_PREDEFINED_CACHE \<noteq> 0 \<and> obj_size (caches s k) = push_bit (i + KM_MIN_KMALLOC_SHIFT) 1)"

text \<open>What \<open>kmalloc\<close> has handed out: the addresses and the sizes of the objects.\<close>

definition kmalloc_objs :: "u64 \<Rightarrow> kmem \<Rightarrow> (u64 \<times> nat) set" where
  "kmalloc_objs base s = {(obj, unat (obj_size (caches s (kmalloc_cache base i)))) | i obj. i < KMALLOC_NR \<and> obj \<in> live s (kmalloc_cache base i)}"

lemma find_kmalloc_from_ok:
  "case find_kmalloc_from siz idx n of
     None \<Rightarrow> \<forall>i < n. push_bit (idx + i + KM_MIN_KMALLOC_SHIFT) 1 < siz
   | Some i \<Rightarrow> idx \<le> i \<and> i < idx + n \<and> siz \<le> push_bit (i + KM_MIN_KMALLOC_SHIFT) 1"
proof (induction n arbitrary: idx)
  case (Suc n)
  show ?case
  proof (cases "siz \<le> push_bit (idx + KM_MIN_KMALLOC_SHIFT) 1")
    case False
    have e: "find_kmalloc_from siz idx (Suc n) = find_kmalloc_from siz (idx + 1) n" using False by simp
    show ?thesis
    proof (cases "find_kmalloc_from siz (idx + 1) n")
      case None
      have "push_bit (idx + i + KM_MIN_KMALLOC_SHIFT) 1 < siz" if "i < Suc n" for i
        using Suc.IH [of "idx + 1"] None that False by (cases i) (auto simp: not_le)
      then show ?thesis unfolding e None by simp
    next
      case (Some i)
      then show ?thesis unfolding e Some using Suc.IH [of "idx + 1"] Some by auto
    qed
  qed auto
qed simp

lemma kmalloc_inv_kept:
  assumes "kmalloc_inv base s" and "kmem_inv s'" and "others_kept k s s'"
  shows "kmalloc_inv base s'"
  unfolding kmalloc_inv_def Let_def
proof (intro conjI allI impI)
  fix i assume i: "i < KMALLOC_NR"
  define j where "j = kmalloc_cache base i"
  have "kc_name (caches s' j) = kc_name (caches s j)" "usage_count (caches s' j) = usage_count (caches s j)" "sflags (caches s' j) = sflags (caches s j)"
    "obj_size (caches s' j) = obj_size (caches s j)" "cache_db s' = cache_db s"
    using assms(3) by (cases "j = k"; simp add: others_kept_def same_geom_def)+
  then show "cache_db s' (kc_name (caches s' (kmalloc_cache base i))) = Some (kmalloc_cache base i)" "usage_count (caches s' (kmalloc_cache base i)) = 0"
    "sflags (caches s' (kmalloc_cache base i)) AND KM_SLAB_PREDEFINED_CACHE \<noteq> 0"
    "obj_size (caches s' (kmalloc_cache base i)) = push_bit (i + KM_MIN_KMALLOC_SHIFT) 1"
    using assms(1) i unfolding kmalloc_inv_def Let_def j_def by simp_all
qed (fact assms(2))

lemma kmalloc_invD:
  assumes "kmalloc_inv base s" and "i < KMALLOC_NR"
  shows "cache_db s (kc_name (caches s (kmalloc_cache base i))) = Some (kmalloc_cache base i)" and "usage_count (caches s (kmalloc_cache base i)) = 0"
    and "sflags (caches s (kmalloc_cache base i)) AND KM_SLAB_PREDEFINED_CACHE \<noteq> 0"
    and "obj_size (caches s (kmalloc_cache base i)) = push_bit (i + KM_MIN_KMALLOC_SHIFT) 1" and "kmem_inv s"
    and "cache_inv s (kmalloc_cache base i)"
proof -
  show "cache_db s (kc_name (caches s (kmalloc_cache base i))) = Some (kmalloc_cache base i)" "usage_count (caches s (kmalloc_cache base i)) = 0"
    "sflags (caches s (kmalloc_cache base i)) AND KM_SLAB_PREDEFINED_CACHE \<noteq> 0"
    "obj_size (caches s (kmalloc_cache base i)) = push_bit (i + KM_MIN_KMALLOC_SHIFT) 1" "kmem_inv s"
    using assms by (simp_all add: kmalloc_inv_def Let_def)
  then show "cache_inv s (kmalloc_cache base i)" using kmem_invD(2) by blast
qed

lemma kmalloc_size:
  assumes "kmalloc_inv base s" and "i < KMALLOC_NR"
  shows "unat (obj_size (caches s (kmalloc_cache base i))) = 2 ^ (i + KM_MIN_KMALLOC_SHIFT)"
  using unat_exp_64 [of "i + 3"] assms(2) by (simp add: kmalloc_invD(4) [OF assms])

lemma kmalloc_objs_eq:
  assumes inv: "kmalloc_inv base s" and i: "i < KMALLOC_NR" and o: "others_kept (kmalloc_cache base i) s s'"
  shows "kmalloc_objs base s' = {(obj, z) \<in> kmalloc_objs base s. z \<noteq> 2 ^ (i + KM_MIN_KMALLOC_SHIFT)} \<union>
    (\<lambda>obj. (obj, 2 ^ (i + KM_MIN_KMALLOC_SHIFT))) ` live s' (kmalloc_cache base i)"
proof -
  define k where "k = kmalloc_cache base i"
  have inj: "j = i" if "j < KMALLOC_NR" "kmalloc_cache base j = k" for j
  proof -
    have "(2 :: nat) ^ (j + 3) = 2 ^ (i + 3)"
      unfolding kmalloc_size [OF inv that(1), symmetric] kmalloc_size [OF inv i, symmetric] that(2) k_def ..
    then show ?thesis by simp
  qed
  have sz: "unat (obj_size (caches s' (kmalloc_cache base j))) = 2 ^ (j + 3)" "unat (obj_size (caches s (kmalloc_cache base j))) = 2 ^ (j + 3)"
    if "j < KMALLOC_NR" for j
    using kmalloc_size [OF inv that] o by (cases "kmalloc_cache base j = k"; simp add: others_kept_def same_geom_def k_def)+
  have lv: "live s' (kmalloc_cache base j) = live s (kmalloc_cache base j)" if "j < KMALLOC_NR" "j \<noteq> i" for j
    using o inj [OF that(1)] that(2) kmalloc_invD(6) [OF inv that(1)] by (auto simp: others_kept_def k_def)
  have "kmalloc_objs base s' = (\<Union>j < KMALLOC_NR. (\<lambda>obj. (obj, 2 ^ (j + 3))) ` live s' (kmalloc_cache base j))"
    unfolding kmalloc_objs_def using sz(1) by (auto simp: image_iff) metis+
  moreover have "kmalloc_objs base s = (\<Union>j < KMALLOC_NR. (\<lambda>obj. (obj, 2 ^ (j + 3))) ` live s (kmalloc_cache base j))"
    unfolding kmalloc_objs_def using sz(2) by (auto simp: image_iff) metis+
  ultimately show ?thesis using lv i by (auto simp: image_iff) blast+
qed

lemma kmalloc_ok:
  assumes inv: "kmalloc_inv base s"
  shows "\<exists>r s'. kmalloc base s siz = Some (r, s') \<and> kmalloc_inv base s' \<and>
    (case r of
       None \<Rightarrow> s' = s \<and> (2 ^ 17 < unat siz \<or> (\<exists>ord. alloc_buddy_pages (pages s) (int ord) = Some (- ENOMEM, None, pages s)))
     | Some obj \<Rightarrow> \<exists>z. unat siz \<le> z \<and> (obj, z) \<notin> kmalloc_objs base s \<and> kmalloc_objs base s' = insert (obj, z) (kmalloc_objs base s))"
proof (cases "find_kmalloc_from siz 0 KMALLOC_NR")
  case None
  have "\<forall>i < KMALLOC_NR. push_bit (0 + i + KM_MIN_KMALLOC_SHIFT) 1 < siz"
    using find_kmalloc_from_ok [where siz = siz and idx = 0 and n = KMALLOC_NR] unfolding None option.case(1) .
  from this [rule_format, of 14] have "2 ^ 17 < unat siz" by (simp add: word_less_nat_alt)
  then show ?thesis using None inv by (intro exI [of _ None] exI [of _ s]) (simp add: kmalloc_def find_kmalloc_ent_def)
next
  case (Some i)
  then have i: "i < KMALLOC_NR" "siz \<le> push_bit (i + KM_MIN_KMALLOC_SHIFT) 1" using find_kmalloc_from_ok [where siz = siz and idx = 0 and n = KMALLOC_NR] by auto
  define k where "k = kmalloc_cache base i"
  note D = kmalloc_invD [OF inv i(1), folded k_def]
  have us: "usage_count (caches s k) + 1 \<noteq> 0" using D(2) by simp
  have P: "pages_ok_for (get_ref s k)" using kmem_invD(1) [OF D(5,1)] by simp
  have C: "cache_inv (get_ref s k) k" using D(6) by (simp add: usage_irrelevant)
  from kmem_cache_alloc_ok [OF P C] obtain r s2 where a: "kmem_cache_alloc (get_ref s k) k = Some (r, s2)" "others_kept k (get_ref s k) s2" "cache_inv s2 k"
    "case r of None \<Rightarrow> s2 = get_ref s k \<and> partial_slabs (caches (get_ref s k) k) = [] \<and> free_slabs (caches (get_ref s k) k) = [] \<and>
         alloc_buddy_pages (pages (get_ref s k)) (int (calc_page_order (slab_size (caches (get_ref s k) k)) 0)) = Some (- ENOMEM, None, pages (get_ref s k))
     | Some obj \<Rightarrow> obj \<notin> live (get_ref s k) k \<and> live s2 k = insert obj (live (get_ref s k) k)" by (elim exE conjE) (rule that)
  note R = with_ref [OF a(2) D(3) us]
  define s3 where "s3 = put_ref s2 k"
  have run: "kmalloc base s siz = Some (r, s3)"
    using Some a(1) R(1) get_kmem_cache_eq [OF D(1)] by (simp add: kmalloc_def find_kmalloc_ent_def k_def [symmetric] put_kmem_cache_def s3_def)
  have o3: "others_kept k s s3" using R(2) by (simp add: s3_def)
  have "kmem_inv s3" using kmem_inv_kept [OF D(5,1) o3] a(3) by (simp add: s3_def usage_irrelevant)
  then have inv3: "kmalloc_inv base s3" using kmalloc_inv_kept [OF inv] o3 by blast
  show ?thesis
  proof (cases r)
    case None
    then have "s3 = s" using a(4) get_put_ref [of s k] by (simp add: s3_def)
    moreover have "alloc_buddy_pages (pages s) (int (calc_page_order (slab_size (caches s k)) 0)) = Some (- ENOMEM, None, pages s)" using a(4) None by simp
    ultimately show ?thesis using run inv None by (intro exI [of _ None] exI [of _ s]) auto
  next
    case r: (Some obj)
    have l: "obj \<notin> live s k" "live s3 k = insert obj (live s k)" using a(4) r by (simp_all add: s3_def usage_irrelevant)
    define z :: nat where "z = 2 ^ (i + KM_MIN_KMALLOC_SHIFT)"
    define A where "A = {(obj, z') \<in> kmalloc_objs base s. z' \<noteq> z}"
    note E = kmalloc_objs_eq [OF inv i(1), folded k_def z_def, folded A_def]
    have e: "kmalloc_objs base s = A \<union> (\<lambda>obj. (obj, z)) ` live s k"
      using E [of s] others_kept_refl [of s k] kmem_invD(1) [OF D(5,1)] by simp
    have A: "\<forall>x \<in> A. snd x \<noteq> z" by (auto simp: A_def)
    have "kmalloc_objs base s3 = insert (obj, z) (kmalloc_objs base s)" unfolding E [OF o3] e l(2) by auto
    moreover have "(obj, z) \<notin> kmalloc_objs base s" unfolding e using l(1) A by auto
    moreover have "unat siz \<le> z" using i kmalloc_size [OF inv i(1)] D(4) by (simp add: z_def word_le_nat_alt k_def)
    ultimately show ?thesis using run inv3 r by (intro exI [of _ "Some obj"] exI [of _ s3]) auto
  qed
qed

lemma kfree_kmalloc_ok:
  assumes inv: "kmalloc_inv base s" and L: "(obj, z) \<in> kmalloc_objs base s"
  shows "\<exists>s'. kfree s (Some obj) = Some s' \<and> kmalloc_inv base s' \<and> kmalloc_objs base s' = kmalloc_objs base s - {(obj, z)}"
proof -
  from L obtain i where i: "i < KMALLOC_NR" "obj \<in> live s (kmalloc_cache base i)" "z = unat (obj_size (caches s (kmalloc_cache base i)))"
    by (auto simp: kmalloc_objs_def)
  define k where "k = kmalloc_cache base i"
  note D = kmalloc_invD [OF inv i(1), folded k_def]
  have us: "usage_count (caches s k) + 1 \<noteq> 0" using D(2) by simp
  obtain s' where s': "kfree s (Some obj) = Some s'" "kmem_inv s'" "others_kept k s s'" "live s' k = live s k - {obj}"
    using kfree_ok [OF D(5,1,3) us] i(2) by (auto simp: k_def)
  have z: "z = 2 ^ (i + KM_MIN_KMALLOC_SHIFT)" using i(3) kmalloc_size [OF inv i(1)] by simp
  define A where "A = {(obj, z') \<in> kmalloc_objs base s. z' \<noteq> z}"
  note E = kmalloc_objs_eq [OF inv i(1), folded k_def z, folded A_def]
  have e: "kmalloc_objs base s = A \<union> (\<lambda>obj. (obj, z)) ` live s k"
    using E [of s] others_kept_refl [of s k] kmem_invD(1) [OF D(5,1)] by simp
  have A: "\<forall>x \<in> A. snd x \<noteq> z" by (auto simp: A_def)
  have "kmalloc_objs base s' = kmalloc_objs base s - {(obj, z)}" unfolding E [OF s'(3)] e s'(4) using A by auto
  then show ?thesis using s' kmalloc_inv_kept [OF inv s'(2,3)] by blast
qed

text \<open>Objects that are handed out have no byte in common, of whichever caches they are.\<close>

lemma live_disjoint:
  assumes P: "pages_ok_for s" and C: "cache_inv s k" "cache_inv s k'" and L: "p \<in> live s k" "q \<in> live s k'" and ne: "(k, p) \<noteq> (k', q)"
  shows "{unat p..<unat p + unat (obj_size (caches s k))} \<inter> {unat q..<unat q + unat (obj_size (caches s k'))} = {}"
proof -
  from C(1) obtain o1 where 1: "geom (caches s k) o1" "\<forall>a \<in> set (slabs_of (caches s k)). slab_inv s k o1 a" by (rule cache_butE)
  from C(2) obtain o2 where 2: "geom (caches s k') o2" "\<forall>a \<in> set (slabs_of (caches s k')). slab_inv s k' o2 a" by (rule cache_butE)
  from L(1) obtain a i where a: "p = obj_at (caches s k) a i" "slab_inv s k o1 a" "i < unat (objs_per_slab (caches s k))" using 1(2) by (auto simp: live_def)
  from L(2) obtain b j where b: "q = obj_at (caches s k') b j" "slab_inv s k' o2 b" "j < unat (objs_per_slab (caches s k'))" using 2(2) by (auto simp: live_def)
  note p = obj_bytes [OF P 1(1) a(2,3), folded a(1)] and q = obj_bytes [OF P 2(1) b(2,3), folded b(1)]
  note rp = slab_room [OF P 1(1) a(2)] and rq = slab_room [OF P 2(1) b(2)]
  show ?thesis
  proof (cases "a = b")
    case True
    then have k: "k = k'" using a(2) b(2) by (simp add: slab_inv_def Let_def)
    then have "i \<noteq> j" using ne a(1) b(1) True by auto
    then consider "i < j" | "j < i" by linarith
    then show ?thesis
    proof cases
      case 1
      have "unat p + unat (obj_size (caches s k)) \<le> unat q" using p(2) q(1) cell_mult [OF 1, of "caches s k"] k True by simp
      then show ?thesis by auto
    next
      case 2
      have "unat q + unat (obj_size (caches s k)) \<le> unat p" using q(2) p(1) cell_mult [OF 2, of "caches s k"] k True by simp
      then show ?thesis using k by auto
    qed
  next
    case False
    have "False" if x: "x \<in> {unat p..<unat p + unat (obj_size (caches s k))}" "x \<in> {unat q..<unat q + unat (obj_size (caches s k'))}" for x
    proof -
      have px: "unat (slab_page (slabs s a)) \<le> x" "x < unat (slab_page (slabs s a)) + 4096 * 2 ^ o1" using x(1) p(1,3) rp(1) by auto
      have qx: "unat (slab_page (slabs s b)) \<le> x" "x < unat (slab_page (slabs s b)) + 4096 * 2 ^ o2" using x(2) q(1,3) rq(1) by auto
      have "x < 2 ^ 64" using px(2) rp(3) by linarith
      then have "unat (of_nat x :: u64) = x" by (simp add: unat_of_nat)
      then have "of_nat x \<in> block_bytes (slab_page (slabs s a)) o1 \<inter> block_bytes (slab_page (slabs s b)) o2" using px qx by (simp add: block_bytes_def)
      then show False using slab_blocks_disjoint [OF P a(2) b(2) False] by blast
    qed
    then show ?thesis by blast
  qed
qed

end
