(* ===== verification/Slab_Alloc.thy ===== *)
theory Slab_Alloc
  imports Kmalloc
begin

text \<open>
  The slab allocator as its clients see it: the contract of an object allocator, kept by \<open>kmalloc\<close> and \<open>kfree\<close>,
  the state \<open>kmalloc_cache_init\<close> sets up, and the properties of \<^verbatim>\<open>src/page/page-kmcache.c\<close> and
  \<^verbatim>\<open>src/page/page-kmalloc.c\<close>.
\<close>

section \<open>Pages left by the caches\<close>

lemma mark_pages_free: "mark_pages v pp lim s = Some s' \<Longrightarrow> pool_free s' = pool_free s"
proof (erule mark_pages.raw_induct [rotated])
  fix f v pp lim s y
  assume "\<And>v pp lim s y. f v pp lim s = Some y \<Longrightarrow> pool_free y = pool_free s"
    and "(if pp < lim then case kvaddr_to_page_frame s pp of (rc, None) \<Rightarrow> None
        | (rc, Some p) \<Rightarrow> page_update s p (slabp_update (\<lambda>_. v)) \<bind> f v (pp + PAGE_SIZE) lim else Some s) = Some y"
  then show "pool_free y = pool_free s"
    by (auto simp: bind_eq_Some_conv page_update_free split: if_split_asm prod.split_asm option.split_asm)
qed

lemma object_heads_pages: "object_heads_from s k a i n = Some s' \<Longrightarrow> pages s' = pages s"
  by (induction n arbitrary: s i) (auto simp: bind_eq_Some_conv upd_slab_def)

lemma grow_free_pages:
  assumes "kmem_cache_grow_nolock s k = Some (0, s')" and "pool_inv (pages s)" and "geom (caches s k) ord"
  shows "pool_free (pages s') + 2 ^ ord = pool_free (pages s)"
proof -
  have ord: "0 \<le> int ord" "int ord < int PAGE_POOL_MAX_ORDER" using assms(3) by (simp_all add: geom_def)
  from assms(1) slab_order [OF assms(3)] obtain kv p1 v lim where
    "alloc_buddy_pages (pages s) (int ord) = Some (0, Some kv, p1)" "mark_pages v kv lim p1 = Some (pages s')"
    by (auto simp: kmem_cache_grow_nolock_def bind_eq_Some_conv Let_def update_color_offset_def init_slab_def init_object_heads_def upd_cache_def upd_slab_def
        dest!: object_heads_pages split: if_splits)
  then show ?thesis using alloc_free_pages [OF assms(2) ord] mark_pages_free by fastforce
qed

section \<open>The caches of \<open>kmalloc\<close>\<close>

definition blank_cache :: "u64 \<Rightarrow> kmem_cache" where
  "blank_cache siz = \<lparr>kc_name = [], color_num = 0, obj_size = siz, slab_size = 0, objs_per_slab = 0, kc_align = 8, color_next = 0,
     sflags = 0, limits = 0, slab_count = 0, usage_count = 0, kc_state = 0, partial_slabs = [], full_slabs = [], free_slabs = [],
     kc_constructor = None, kc_destructor = None\<rparr>"

lemma calc_slab_param_cong:
  assumes "obj_size kc = obj_size kc'" and "kc_align kc = kc_align kc'"
  shows "map_option objs_per_slab (calc_slab_param kc) = map_option objs_per_slab (calc_slab_param kc')"
  using assms
  by (auto simp: calc_slab_param_def calc_off_slab_size_def calc_slab_data_size_def kmem_calc_align_offset_def kmem_is_off_slab_def Let_def
      split: bind_splits)

lemma kmalloc_dic_objs: "list_all (\<lambda>(siz, name). map_option (\<lambda>kc. 0 < objs_per_slab kc) (calc_slab_param (blank_cache siz)) = Some True) kmalloc_dic"
  by code_simp

lemma kmalloc_dic_nth:
  assumes "i < KMALLOC_NR"
  shows "fst (kmalloc_dic ! i) = push_bit (i + KM_MIN_KMALLOC_SHIFT) 1" and "length kmalloc_dic = KMALLOC_NR" and "distinct (map snd kmalloc_dic)"
proof -
  have "\<forall>i \<in> set [0..<15]. fst (kmalloc_dic ! i) = push_bit (i + KM_MIN_KMALLOC_SHIFT) 1" by code_simp
  then show "fst (kmalloc_dic ! i) = push_bit (i + KM_MIN_KMALLOC_SHIFT) 1" using assms by simp
  show "length kmalloc_dic = KMALLOC_NR" by code_simp
  show "distinct (map snd kmalloc_dic)" by code_simp
qed

lemma kmalloc_size_objs:
  assumes i: "i < KMALLOC_NR" and sz: "obj_size kc = fst (kmalloc_dic ! i)" and al: "kc_align kc = 8"
  shows "0 < obj_size kc" and "cell kc < 2 ^ 64" and "calc_slab_param kc = Some kc' \<Longrightarrow> 0 < objs_per_slab kc'"
    and "kmem_is_off_slab kc \<longleftrightarrow> 6 \<le> i"
proof -
  have len: "i < length kmalloc_dic" using i kmalloc_dic_nth(2) [OF i] by simp
  have us: "unat (obj_size kc) = 2 ^ (i + 3)" using unat_exp_64 [of "i + 3"] i by (simp add: sz kmalloc_dic_nth(1) [OF i])
  show "0 < obj_size kc" using us by (simp add: word_gt_0 unat_eq_0 [symmetric])
  show "kmem_is_off_slab kc \<longleftrightarrow> 6 \<le> i"
  proof -
    have "kmem_is_off_slab kc \<longleftrightarrow> (2 :: nat) ^ 9 \<le> 2 ^ (i + 3)" by (simp add: kmem_is_off_slab_def word_le_nat_alt us)
    also have "\<dots> \<longleftrightarrow> 6 \<le> i" by (subst power_increasing_iff) auto
    finally show ?thesis .
  qed
  have pd: "unat (pad kc) \<le> 8"
  proof -
    have "pad kc \<le> 8" by (simp add: pad_def al word_le_nat_alt unat_sub unat_mod)
    then show ?thesis by (simp add: word_le_nat_alt)
  qed
  have "(2 :: nat) ^ (i + 3) \<le> 2 ^ 17" using i by (intro power_increasing) auto
  then show "cell kc < 2 ^ 64" using pd us by (simp add: cell_def)
  show "0 < objs_per_slab kc'" if "calc_slab_param kc = Some kc'"
  proof -
    have "map_option (\<lambda>kc. 0 < objs_per_slab kc) (calc_slab_param (blank_cache (obj_size kc))) = Some True"
      using kmalloc_dic_objs len unfolding list_all_length sz by (auto simp: case_prod_beta)
    moreover have "map_option objs_per_slab (calc_slab_param (blank_cache (obj_size kc))) = Some (objs_per_slab kc')"
      using calc_slab_param_cong [of kc "blank_cache (obj_size kc)"] that al by (simp add: blank_cache_def)
    ultimately show ?thesis by auto
  qed
qed

lemma kmalloc_cache_inj: "i < KMALLOC_NR \<Longrightarrow> j < KMALLOC_NR \<Longrightarrow> kmalloc_cache base i = kmalloc_cache base j \<Longrightarrow> i = j"
proof -
  assume a: "i < KMALLOC_NR" "j < KMALLOC_NR" "kmalloc_cache base i = kmalloc_cache base j"
  have u: "unat (of_nat n * SIZEOF_KMEM_CACHE :: u64) = n * 360" if "n < KMALLOC_NR" for n
    using that by (simp add: unat_word_ariths unat_of_nat)
  have "(of_nat i * SIZEOF_KMEM_CACHE :: u64) = of_nat j * SIZEOF_KMEM_CACHE" using a(3) by (simp add: kmalloc_cache_def)
  then have "i * 360 = j * 360" using u a(1,2) by metis
  then show "i = j" by simp
qed

text \<open>The state after the first \<open>n\<close> caches have been registered.\<close>

definition booted :: "u64 \<Rightarrow> nat \<Rightarrow> kmem \<Rightarrow> bool" where
  "booted base n s \<longleftrightarrow> kmem_inv s \<and> (\<forall>name k. cache_db s name = Some k \<longrightarrow> (\<exists>i < n. name = snd (kmalloc_dic ! i) \<and> k = kmalloc_cache base i)) \<and>
     (\<forall>i < n. let k = kmalloc_cache base i in cache_db s (snd (kmalloc_dic ! i)) = Some k \<and> usage_count (caches s k) = 0 \<and>
        sflags (caches s k) AND KM_SLAB_PREDEFINED_CACHE \<noteq> 0 \<and> obj_size (caches s k) = fst (kmalloc_dic ! i) \<and> live s k = {})"

lemma on_slab_size:
  assumes "kmem_cache_init s k name sz flags align lim c d = Some (0, s')" and "\<not> kmem_is_off_slab (caches s' k)"
  shows "slab_size (caches s' k) = PAGE_SIZE"
  using assms
  by (auto simp: kmem_cache_init_def calc_slab_param_def setup_color_param_def kmem_is_off_slab_def add_kmem_cache_into_db_def upd_cache_def Let_def bind_eq_Some_conv
      split: if_split_asm option.split_asm)

lemma geom_one_page: "geom kc ord \<Longrightarrow> slab_size kc = PAGE_SIZE \<Longrightarrow> ord = 0"
proof -
  assume a: "geom kc ord" "slab_size kc = PAGE_SIZE"
  have "calc_page_order PAGE_SIZE 0 = 0" by code_simp
  then show "ord = 0" using slab_order(1) [OF a(1), of 0] a(2) by simp
qed

lemma booted_kept:
  assumes b: "booted base n s" and o: "others_kept k s s'" and k: "cache_inv s' k" "live s' k = live s k" "k = kmalloc_cache base i" "i < n" "n \<le> KMALLOC_NR"
  shows "booted base n s'"
proof -
  have db: "cache_db s' = cache_db s" using o by (simp add: others_kept_def)
  have inv: "kmem_inv s" using b by (simp add: booted_def)
  have nm: "cache_db s (kc_name (caches s (kmalloc_cache base j))) = Some (kmalloc_cache base j)" if "j < n" for j
  proof -
    have "cache_db s (snd (kmalloc_dic ! j)) = Some (kmalloc_cache base j)" using b that by (simp add: booted_def Let_def)
    then show ?thesis using kmem_invD(3) [OF inv] by simp
  qed
  have "kmem_inv s'" using kmem_inv_kept [OF inv _ o k(1)] nm [OF k(4)] k(3) by simp
  moreover have "usage_count (caches s' j) = usage_count (caches s j) \<and> sflags (caches s' j) = sflags (caches s j) \<and>
      obj_size (caches s' j) = obj_size (caches s j) \<and> live s' j = live s j" if "j = kmalloc_cache base m" "m < n" for j m
    using o k(2) kmem_invD(2) [OF inv nm [OF that(2)]] that(1) by (cases "j = k") (auto simp: others_kept_def same_geom_def)
  ultimately show ?thesis using b by (simp add: booted_def db Let_def)
qed

lemma boot_register:
  assumes b: "booted base n s" and n: "n < KMALLOC_NR"
  defines "k \<equiv> kmalloc_cache base n"
  shows "\<exists>s'. kmem_cache_init s k (snd (kmalloc_dic ! n)) (fst (kmalloc_dic ! n)) (KM_SLAB_ON_SLAB OR KM_SLAB_PREDEFINED_CACHE) KM_ALIGN_HW KM_LIMIT_DEFAULT None None = Some (0, s') \<and>
    booted base (Suc n) s' \<and> pages s' = pages s \<and> (kmem_is_off_slab (caches s' k) \<longleftrightarrow> 6 \<le> n)"
proof -
  define kc where "kc = (caches s k)\<lparr>kc_name := snd (kmalloc_dic ! n), obj_size := fst (kmalloc_dic ! n), kc_align := 8\<rparr>"
  have kc: "obj_size kc = fst (kmalloc_dic ! n)" "kc_align kc = 8" by (simp_all add: kc_def)
  note Z = kmalloc_size_objs [OF n kc]
  have inv: "kmem_inv s" and db: "\<And>name k. cache_db s name = Some k \<Longrightarrow> \<exists>i < n. name = snd (kmalloc_dic ! i) \<and> k = kmalloc_cache base i"
    using b by (auto simp: booted_def)
  have new: "snd (kmalloc_dic ! i) \<noteq> snd (kmalloc_dic ! n)" "kmalloc_cache base i \<noteq> k" if "i < n" for i
  proof -
    show "snd (kmalloc_dic ! i) \<noteq> snd (kmalloc_dic ! n)"
      using that n kmalloc_dic_nth(2,3) [OF n] nth_eq_iff_index_eq [of "map snd kmalloc_dic" i n] by simp
    show "kmalloc_cache base i \<noteq> k" using kmalloc_cache_inj [of i n] that n by (auto simp: k_def)
  qed
  have fresh: "cache_db s (snd (kmalloc_dic ! n)) = None" "\<And>m. cache_db s m \<noteq> Some k"
    using db new by (metis not_None_eq, metis)
  from kmem_cache_init_ok [OF inv fresh, of "fst (kmalloc_dic ! n)" KM_ALIGN_HW "KM_SLAB_ON_SLAB OR KM_SLAB_PREDEFINED_CACHE" KM_LIMIT_DEFAULT None None] Z(1-3)
  obtain s' where s': "kmem_cache_init s k (snd (kmalloc_dic ! n)) (fst (kmalloc_dic ! n)) (KM_SLAB_ON_SLAB OR KM_SLAB_PREDEFINED_CACHE) KM_ALIGN_HW KM_LIMIT_DEFAULT None None = Some (0, s')"
    "kmem_inv s'" "cache_db s' = (cache_db s)(snd (kmalloc_dic ! n) \<mapsto> k)" "pages s' = pages s" "slabs s' = slabs s"
    "\<forall>k'. k' \<noteq> k \<longrightarrow> caches s' k' = caches s k'" "obj_size (caches s' k) = fst (kmalloc_dic ! n)" "live s' k = {}" "usage_count (caches s' k) = 0"
    "sflags (caches s' k) = (if kmem_is_off_slab (caches s' k) then KM_SLAB_ON_SLAB else KM_SLAB_OFF_SLAB) OR (KM_SLAB_ON_SLAB OR KM_SLAB_PREDEFINED_CACHE)"
    unfolding kc(1) by (auto simp: kc_def)
  have off: "kmem_is_off_slab (caches s' k) \<longleftrightarrow> 6 \<le> n" using Z(4) s'(7) kc(1) by (simp add: kmem_is_off_slab_def)
  have fl: "sflags (caches s' k) AND KM_SLAB_PREDEFINED_CACHE \<noteq> 0" using s'(10) by (cases "kmem_is_off_slab (caches s' k)") simp_all
  have old: "caches s' (kmalloc_cache base i) = caches s (kmalloc_cache base i)" "live s' (kmalloc_cache base i) = live s (kmalloc_cache base i)" if "i < n" for i
    using s'(5,6) new(2) [OF that] by (simp_all add: live_def)
  have "booted base (Suc n) s'"
    unfolding booted_def
  proof (intro conjI allI impI)
    fix name k' assume "cache_db s' name = Some k'"
    then show "\<exists>i < Suc n. name = snd (kmalloc_dic ! i) \<and> k' = kmalloc_cache base i"
      using db [of name k'] s'(3) by (cases "name = snd (kmalloc_dic ! n)") (auto simp: k_def intro: less_SucI)
  next
    fix i assume i: "i < Suc n"
    show "let k = kmalloc_cache base i in cache_db s' (snd (kmalloc_dic ! i)) = Some k \<and> usage_count (caches s' k) = 0 \<and>
        sflags (caches s' k) AND KM_SLAB_PREDEFINED_CACHE \<noteq> 0 \<and> obj_size (caches s' k) = fst (kmalloc_dic ! i) \<and> live s' k = {}"
    proof (cases "i = n")
      case True
      then show ?thesis using s'(3,7-9) fl by (simp add: k_def Let_def)
    next
      case False
      then have "i < n" using i by simp
      then show ?thesis using b old new(1) s'(3) by (simp add: booted_def Let_def)
    qed
  qed (fact s'(2))
  then show ?thesis using s'(1,4) off by blast
qed

lemma boot_step:
  assumes b: "booted base n s" and n: "n < KMALLOC_NR" and fr: "n < 6 \<longrightarrow> 0 < pool_free (pages s)"
  shows "\<exists>s'. (\<forall>dic. cache_init_from base s n (kmalloc_dic ! n # dic) = cache_init_from base s' (n + 1) dic) \<and> booted base (Suc n) s' \<and>
    pool_free (pages s') + (if n < 6 then 1 else 0) = pool_free (pages s)"
proof -
  define k where "k = kmalloc_cache base n"
  from boot_register [OF b n] obtain s1 where
    s1: "kmem_cache_init s k (snd (kmalloc_dic ! n)) (fst (kmalloc_dic ! n)) (KM_SLAB_ON_SLAB OR KM_SLAB_PREDEFINED_CACHE) KM_ALIGN_HW KM_LIMIT_DEFAULT None None = Some (0, s1)"
    "booted base (Suc n) s1" "pages s1 = pages s" "kmem_is_off_slab (caches s1 k) \<longleftrightarrow> 6 \<le> n" unfolding k_def by blast
  have e: "cache_init_from base s n (kmalloc_dic ! n # dic) =
      (do { s' \<leftarrow> (if \<not> kmem_is_off_slab (caches s1 k) then do { (rc, s) \<leftarrow> kmem_cache_grow s1 k; kassert (rc = 0); Some s } else Some s1);
        cache_init_from base s' (n + 1) dic })" for dic
    using s1(1) by (cases "kmalloc_dic ! n") (simp add: k_def [symmetric] Let_def)
  show ?thesis
  proof (cases "n < 6")
    case False
    then show ?thesis using e s1(2-4) by (intro exI [of _ s1]) simp
  next
    case True
    have inv: "kmem_inv s1" and db: "cache_db s1 (snd (kmalloc_dic ! n)) = Some k" using s1(2) by (auto simp: booted_def k_def Let_def)
    note I = kmem_invD [OF inv db]
    from I(2) obtain ord where g: "geom (caches s1 k) ord" by (rule cache_butE)
    have "slab_size (caches s1 k) = PAGE_SIZE" using on_slab_size [OF s1(1)] s1(4) True by simp
    then have g0: "geom (caches s1 k) 0" using geom_one_page [OF g] g by simp
    have pi: "pool_inv (pages s1)" using I(1) by (simp add: pages_ok_for_def)
    from grow_ok [OF I(1,2)] obtain rc s2 where s2: "kmem_cache_grow_nolock s1 k = Some (rc, s2)" "others_kept k s1 s2" "live s2 k = live s1 k"
      "rc = - ENOMEM \<and> alloc_buddy_pages (pages s1) (int (calc_page_order (slab_size (caches s1 k)) 0)) = Some (- ENOMEM, None, pages s1) \<or> rc = 0 \<and> cache_inv s2 k"
      by blast
    have "rc = 0 \<and> cache_inv s2 k"
    proof (rule ccontr)
      assume "\<not> (rc = 0 \<and> cache_inv s2 k)"
      then have "alloc_buddy_pages (pages s1) (int 0) = Some (- ENOMEM, None, pages s1)" using s2(4) slab_order(1) [OF g0, of 0] by auto
      from alloc_free_pages [OF pi _ _ this] show False using fr True s1(3) by simp
    qed
    then have r: "kmem_cache_grow_nolock s1 k = Some (0, s2)" "cache_inv s2 k" using s2(1) by auto
    have "booted base (Suc n) s2" using booted_kept [OF s1(2) s2(2) r(2) s2(3), of n] n by (simp add: k_def)
    moreover have "pool_free (pages s2) + 1 = pool_free (pages s)" using grow_free_pages [OF r(1) pi g0] s1(3) by simp
    ultimately show ?thesis using e r(1) s1(4) True by (intro exI [of _ s2]) (simp add: kmem_cache_grow_def)
  qed
qed

lemma boot_from:
  assumes "booted base n s" and "n + m = KMALLOC_NR" and "6 - n \<le> pool_free (pages s)"
  shows "\<exists>s'. cache_init_from base s n (drop n kmalloc_dic) = Some s' \<and> booted base KMALLOC_NR s'"
  using assms
proof (induction m arbitrary: n s)
  case 0
  then show ?case using kmalloc_dic_nth(2) [of 0] by simp
next
  case (Suc m)
  have n: "n < KMALLOC_NR" using Suc.prems(2) by simp
  have d: "drop n kmalloc_dic = kmalloc_dic ! n # drop (Suc n) kmalloc_dic" using Cons_nth_drop_Suc [of n kmalloc_dic] n kmalloc_dic_nth(2) [OF n] by simp
  have "n < 6 \<longrightarrow> 0 < pool_free (pages s)" using Suc.prems(3) by linarith
  from boot_step [OF Suc.prems(1) n this] obtain s1 where
    s1: "cache_init_from base s n (kmalloc_dic ! n # drop (Suc n) kmalloc_dic) = cache_init_from base s1 (n + 1) (drop (Suc n) kmalloc_dic)"
    "booted base (Suc n) s1" "pool_free (pages s1) + (if n < 6 then 1 else 0) = pool_free (pages s)" by auto
  have "6 - Suc n \<le> pool_free (pages s1)" using s1(3) Suc.prems(3) by (simp split: if_split_asm)
  from Suc.IH [OF s1(2) _ this] Suc.prems(2) s1(1) d show ?case by simp
qed

lemma booted_kmalloc:
  assumes "booted base KMALLOC_NR s"
  shows "kmalloc_inv base s" and "kmalloc_objs base s = {}"
proof -
  have inv: "kmem_inv s" and C: "let k = kmalloc_cache base i in cache_db s (snd (kmalloc_dic ! i)) = Some k \<and> usage_count (caches s k) = 0 \<and>
        sflags (caches s k) AND KM_SLAB_PREDEFINED_CACHE \<noteq> 0 \<and> obj_size (caches s k) = fst (kmalloc_dic ! i) \<and> live s k = {}" if "i < KMALLOC_NR" for i
    using assms that by (simp_all add: booted_def)
  show "kmalloc_inv base s"
    unfolding kmalloc_inv_def
  proof (intro conjI allI impI)
    fix i assume i: "i < KMALLOC_NR"
    then show "let k = kmalloc_cache base i in cache_db s (kc_name (caches s k)) = Some k \<and> usage_count (caches s k) = 0 \<and>
        sflags (caches s k) AND KM_SLAB_PREDEFINED_CACHE \<noteq> 0 \<and> obj_size (caches s k) = push_bit (i + KM_MIN_KMALLOC_SHIFT) 1"
      using C [OF i] kmem_invD(3) [OF inv [OF i], of "snd (kmalloc_dic ! i)" "kmalloc_cache base i"] kmalloc_dic_nth(1) [OF i] by (simp add: Let_def)
  qed (use inv [of 0] in simp)
  show "kmalloc_objs base s = {}" using C by (auto simp: kmalloc_objs_def Let_def)
qed

lemma kmalloc_boot:
  assumes "pool_inv (pages s)" and "straight (pages s)" and "cache_db s = Map.empty" and "6 \<le> pool_free (pages s)"
  shows "\<exists>s'. kmalloc_cache_init base s = Some s' \<and> kmalloc_inv base s' \<and> kmalloc_objs base s' = {}"
proof -
  have "booted base 0 s" using assms(1-3) by (simp add: booted_def kmem_inv_def pages_ok_for_def)
  from boot_from [OF this, of 15] assms(4) show ?thesis using booted_kmalloc by (auto simp: kmalloc_cache_init_def)
qed

section \<open>The object allocator interface\<close>

text \<open>
  What a client of an allocator of objects by size relies on.  \<open>objs s\<close> are the address and the size of every object handed out:
  \<open>alloc s n\<close> adds one of at least \<open>n\<close> bytes or returns the null pointer and changes nothing, \<open>free s a\<close> removes one, and
  no two objects have a byte in common.
\<close>

datatype object_request = Kmalloc u64 | Kfree u64

inductive object_history ::
  "('s \<Rightarrow> u64 \<Rightarrow> (u64 option \<times> 's) option) \<Rightarrow> ('s \<Rightarrow> u64 \<Rightarrow> 's option) \<Rightarrow> ('s \<Rightarrow> (u64 \<times> nat) set) \<Rightarrow> 's \<Rightarrow> object_request list \<Rightarrow> 's \<Rightarrow> bool"
  for alloc free objs s where
  objects_Nil: "object_history alloc free objs s [] s"
| objects_Kmalloc: "object_history alloc free objs s rs s' \<Longrightarrow> alloc s' n = Some (p, s'') \<Longrightarrow>
    object_history alloc free objs s (rs @ [Kmalloc n]) s''"
| objects_Kfree: "object_history alloc free objs s rs s' \<Longrightarrow> (a, z) \<in> objs s' \<Longrightarrow> free s' a = Some s'' \<Longrightarrow>
    object_history alloc free objs s (rs @ [Kfree a]) s''"

definition obj_range :: "u64 \<times> nat \<Rightarrow> nat set" where
  "obj_range x = {unat (fst x)..<unat (fst x) + snd x}"

locale object_allocator =
  fixes inv :: "'s \<Rightarrow> bool"
    and objs :: "'s \<Rightarrow> (u64 \<times> nat) set"
    and alloc :: "'s \<Rightarrow> u64 \<Rightarrow> (u64 option \<times> 's) option"
    and free :: "'s \<Rightarrow> u64 \<Rightarrow> 's option"
  assumes alloc_law: "inv s \<Longrightarrow> \<exists>r s'. alloc s n = Some (r, s') \<and> inv s' \<and>
      (case r of None \<Rightarrow> s' = s | Some a \<Rightarrow> \<exists>z. unat n \<le> z \<and> (a, z) \<notin> objs s \<and> objs s' = insert (a, z) (objs s))"
    and free_law: "inv s \<Longrightarrow> (a, z) \<in> objs s \<Longrightarrow> \<exists>s'. free s a = Some s' \<and> inv s' \<and> objs s' = objs s - {(a, z)}"
    and disjoint_law: "inv s \<Longrightarrow> x \<in> objs s \<Longrightarrow> y \<in> objs s \<Longrightarrow> x \<noteq> y \<Longrightarrow> obj_range x \<inter> obj_range y = {}"
begin

lemma objects_inv:
  assumes "object_history alloc free objs s rs s'" and "inv s"
  shows "inv s'"
  using assms
proof induction
  case (objects_Kmalloc rs s' n p s'')
  then show ?case using alloc_law [of s' n] by auto
next
  case (objects_Kfree rs s' a z s'')
  then show ?case using free_law [of s' a z] by auto
qed

lemma objects_progress:
  assumes "object_history alloc free objs s rs s'" and "inv s"
  shows "alloc s' n \<noteq> None" and "(a, z) \<in> objs s' \<Longrightarrow> free s' a \<noteq> None"
  using alloc_law [of s' n] free_law [of s' a z] objects_inv [OF assms] by auto

text \<open>A new object lies apart from all others, and releasing it restores what was handed out.\<close>

lemma alloc_fresh:
  assumes "inv s" and "alloc s n = Some (Some a, s')"
  shows "\<exists>z s''. unat n \<le> z \<and> objs s' = insert (a, z) (objs s) \<and> (\<forall>x \<in> objs s. obj_range x \<inter> obj_range (a, z) = {}) \<and>
    free s' a = Some s'' \<and> inv s'' \<and> objs s'' = objs s"
proof -
  from alloc_law [OF assms(1), of n] assms(2) obtain z where
    z: "inv s'" "unat n \<le> z" "(a, z) \<notin> objs s" "objs s' = insert (a, z) (objs s)" by auto
  have "obj_range x \<inter> obj_range (a, z) = {}" if "x \<in> objs s" for x using disjoint_law [OF z(1), of x "(a, z)"] that z(3,4) by auto
  moreover obtain s'' where "free s' a = Some s''" "inv s''" "objs s'' = objs s" using free_law [OF z(1), of a z] z(3,4) by auto
  ultimately show ?thesis using z(2,4) by blast
qed

end

interpretation kheap: object_allocator "kmalloc_inv base" "kmalloc_objs base" "kmalloc base" "\<lambda>s a. kfree s (Some a)"
proof unfold_locales
  fix s n assume "kmalloc_inv base s"
  from kmalloc_ok [OF this, of n] obtain r s' where s': "kmalloc base s n = Some (r, s')" "kmalloc_inv base s'"
    "case r of None \<Rightarrow> s' = s \<and> (2 ^ 17 < unat n \<or> (\<exists>ord. alloc_buddy_pages (pages s) (int ord) = Some (- ENOMEM, None, pages s)))
     | Some obj \<Rightarrow> \<exists>z. unat n \<le> z \<and> (obj, z) \<notin> kmalloc_objs base s \<and> kmalloc_objs base s' = insert (obj, z) (kmalloc_objs base s)"
    by (elim exE conjE) (rule that)
  then show "\<exists>r s'. kmalloc base s n = Some (r, s') \<and> kmalloc_inv base s' \<and>
      (case r of None \<Rightarrow> s' = s | Some a \<Rightarrow> \<exists>z. unat n \<le> z \<and> (a, z) \<notin> kmalloc_objs base s \<and> kmalloc_objs base s' = insert (a, z) (kmalloc_objs base s))"
    by (cases r) auto
next
  fix s a z assume "kmalloc_inv base s" "(a, z) \<in> kmalloc_objs base s"
  then show "\<exists>s'. kfree s (Some a) = Some s' \<and> kmalloc_inv base s' \<and> kmalloc_objs base s' = kmalloc_objs base s - {(a, z)}"
    by (rule kfree_kmalloc_ok)
next
  fix s x y assume a: "kmalloc_inv base s" "x \<in> kmalloc_objs base s" "y \<in> kmalloc_objs base s" "x \<noteq> y"
  from a(2) obtain i p where x: "x = (p, unat (obj_size (caches s (kmalloc_cache base i))))" "i < KMALLOC_NR" "p \<in> live s (kmalloc_cache base i)" by (auto simp: kmalloc_objs_def)
  from a(3) obtain j q where y: "y = (q, unat (obj_size (caches s (kmalloc_cache base j))))" "j < KMALLOC_NR" "q \<in> live s (kmalloc_cache base j)" by (auto simp: kmalloc_objs_def)
  note X = kmalloc_invD [OF a(1) x(2)] and Y = kmalloc_invD [OF a(1) y(2)]
  have ne: "(kmalloc_cache base i, p) \<noteq> (kmalloc_cache base j, q)" using a(4) x(1) y(1) by auto
  show "obj_range x \<inter> obj_range y = {}"
    using live_disjoint [OF kmem_invD(1) [OF X(5,1)] X(6) Y(6) x(3) y(3) ne] by (simp add: obj_range_def x(1) y(1))
qed

section \<open>Properties\<close>

definition boot_kmem :: kmem where
  "boot_kmem = \<lparr>pages = eight_pages, caches = (\<lambda>_. blank_cache 0),
     slabs = (\<lambda>_. \<lparr>objects = [], kmcache_ref = 0, obj_count = 0, color_offset = 0, slab_page = 0\<rparr>), cache_db = Map.empty, calls = []\<rparr>"

definition ready_kmem :: kmem where
  "ready_kmem = the (kmalloc_cache_init 0x200000 boot_kmem)"

lemma ready_kmem_inv: "kmalloc_inv 0x200000 ready_kmem"
proof -
  have "\<exists>s'. kmalloc_cache_init 0x200000 boot_kmem = Some s' \<and> kmalloc_inv 0x200000 s' \<and> kmalloc_objs 0x200000 s' = {}"
    by (rule kmalloc_boot) (simp_all add: boot_kmem_def eight_pages_inv)
  then show ?thesis by (auto simp: ready_kmem_def)
qed

lemma ready_cache_inv: "pages_ok_for ready_kmem" "cache_inv ready_kmem 0x200000"
proof -
  have k: "kmalloc_cache 0x200000 0 = 0x200000" by (simp add: kmalloc_cache_def)
  note D = kmalloc_invD [OF ready_kmem_inv, of 0, simplified, unfolded k]
  show "pages_ok_for ready_kmem" using D(5) by (simp add: kmem_inv_def)
  show "cache_inv ready_kmem 0x200000" by (fact D(6))
qed

text \<open>How many slabs a reap takes: all of them, or as many as are above the limit, one more included.\<close>

definition reaped :: "kmem_cache \<Rightarrow> bool \<Rightarrow> nat" where
  "reaped kc force = (if force then length (free_slabs kc) else min (length (free_slabs kc)) (unat (slab_count kc) + 1 - unat (limits kc)))"

lemma reap_loop_exact:
  "reap_loop s k force q = Some s' \<Longrightarrow> free_slabs (caches s k) = q \<Longrightarrow>
    free_slabs (caches s' k) = drop (reaped (caches s k) force) q \<and> unat (slab_count (caches s' k)) + reaped (caches s k) force = unat (slab_count (caches s k)) \<and>
    limits (caches s' k) = limits (caches s k)"
proof (induction q arbitrary: s)
  case (Cons a q)
  show ?case
  proof (cases "\<not> force \<and> slab_count (caches s k) < limits (caches s k)")
    case True
    then show ?thesis using Cons.prems by (simp add: reaped_def word_less_nat_alt)
  next
    case False
    define s0 where "s0 = upd_cache s k (\<lambda>kc. kc\<lparr>free_slabs := q\<rparr>)"
    from Cons.prems(1) False obtain p where p: "0 < slab_count (caches s k)" "reap_loop (upd_cache (s0\<lparr>pages := p\<rparr>) k (\<lambda>kc. kc\<lparr>slab_count := slab_count kc - 1\<rparr>)) k force q = Some s'"
      by (auto simp: bind_eq_Some_conv Let_def s0_def split: if_split_asm)
    define s1 where "s1 = upd_cache (s0\<lparr>pages := p\<rparr>) k (\<lambda>kc. kc\<lparr>slab_count := slab_count kc - 1\<rparr>)"
    have k: "caches s1 k = (caches s k)\<lparr>free_slabs := q, slab_count := slab_count (caches s k) - 1\<rparr>" by (simp add: s1_def s0_def upd_cache_def)
    have u: "unat (slab_count (caches s k) - 1) + 1 = unat (slab_count (caches s k))" using p(1) by (simp add: unat_minus_one word_gt_0 unat_gt_0 del: unat_eq_0)
    have "reaped (caches s k) force = Suc (reaped (caches s1 k) force)"
      using False u Cons.prems(2) by (auto simp: reaped_def k word_less_nat_alt min_def)
    then show ?thesis using Cons.IH [OF p(2) [folded s1_def]] u Cons.prems(2) by (simp add: k)
  qed
qed (simp add: reaped_def)

text \<open>
  Claim C6. Allocating from a well-formed cache always returns.  The object returned was not handed out before and is the only
  one added; giving it back restores what was handed out.  The null pointer comes back only when the cache has no
  free object and the page pool no block for a new slab, and then nothing has changed.  Neither operation changes another cache or the
  objects handed out of it.
\<close>

theorem kmem_cache_alloc_free_spec:
  assumes "pages_ok_for s" and "cache_inv s k"
  shows "\<exists>r s'. kmem_cache_alloc s k = Some (r, s') \<and> cache_inv s' k \<and> others_kept k s s' \<and>
    (case r of
       None \<Rightarrow> s' = s \<and> partial_slabs (caches s k) = [] \<and> free_slabs (caches s k) = [] \<and>
         alloc_buddy_pages (pages s) (int (calc_page_order (slab_size (caches s k)) 0)) = Some (- ENOMEM, None, pages s)
     | Some obj \<Rightarrow> obj \<notin> live s k \<and> live s' k = insert obj (live s k) \<and>
         (\<exists>s''. kmem_cache_free s' k obj = Some s'' \<and> cache_inv s'' k \<and> others_kept k s s'' \<and> live s'' k = live s k))"
proof -
  from kmem_cache_alloc_ok [OF assms] obtain r s' where a: "kmem_cache_alloc s k = Some (r, s')" "others_kept k s s'" "cache_inv s' k"
    "case r of None \<Rightarrow> s' = s \<and> partial_slabs (caches s k) = [] \<and> free_slabs (caches s k) = [] \<and>
         alloc_buddy_pages (pages s) (int (calc_page_order (slab_size (caches s k)) 0)) = Some (- ENOMEM, None, pages s)
     | Some obj \<Rightarrow> obj \<notin> live s k \<and> live s' k = insert obj (live s k)" by (elim exE conjE) (rule that)
  show ?thesis
  proof (cases r)
    case None
    then show ?thesis using a by (intro exI [of _ None] exI [of _ s']) simp
  next
    case (Some obj)
    have P: "pages_ok_for s'" using a(2) by (simp add: others_kept_def)
    obtain s'' where f: "kmem_cache_free s' k obj = Some s''" "cache_inv s'' k" "others_kept k s' s''" "live s'' k = live s k"
      using kmem_cache_free_ok [OF P a(3), of obj] a(4) Some by auto
    note others_kept_trans [OF a(2) f(3)]
    then show ?thesis using a f Some by (intro exI [of _ "Some obj"] exI [of _ s']) auto
  qed
qed

theorem kmem_cache_alloc_free_spec_witness:
  "\<exists>r s'. kmem_cache_alloc ready_kmem 0x200000 = Some (r, s') \<and> cache_inv s' 0x200000 \<and> others_kept 0x200000 ready_kmem s' \<and>
    (case r of
       None \<Rightarrow> s' = ready_kmem \<and> partial_slabs (caches ready_kmem 0x200000) = [] \<and> free_slabs (caches ready_kmem 0x200000) = [] \<and>
         alloc_buddy_pages (pages ready_kmem) (int (calc_page_order (slab_size (caches ready_kmem 0x200000)) 0)) = Some (- ENOMEM, None, pages ready_kmem)
     | Some obj \<Rightarrow> obj \<notin> live ready_kmem 0x200000 \<and> live s' 0x200000 = insert obj (live ready_kmem 0x200000) \<and>
         (\<exists>s''. kmem_cache_free s' 0x200000 obj = Some s'' \<and> cache_inv s'' 0x200000 \<and> others_kept 0x200000 ready_kmem s'' \<and>
            live s'' 0x200000 = live ready_kmem 0x200000))"
  by (rule kmem_cache_alloc_free_spec [OF ready_cache_inv])

text \<open>
  Claim C7. In every history of \<open>kmalloc\<close> and of \<open>kfree\<close> of objects handed out, neither call gets stuck, objects handed out have no byte in
  common, and an object just allocated has the room asked for, lies apart from all others, and can be given back, which restores
  what was handed out.
\<close>

theorem kmalloc_history:
  assumes "object_history (kmalloc base) (\<lambda>s a. kfree s (Some a)) (kmalloc_objs base) s rs s'" and "kmalloc_inv base s"
  shows "kmalloc_inv base s' \<and> (\<forall>n. kmalloc base s' n \<noteq> None) \<and> (\<forall>(a, z) \<in> kmalloc_objs base s'. kfree s' (Some a) \<noteq> None) \<and>
    (\<forall>x \<in> kmalloc_objs base s'. \<forall>y \<in> kmalloc_objs base s'. x \<noteq> y \<longrightarrow> obj_range x \<inter> obj_range y = {}) \<and>
    (\<forall>n a s1. kmalloc base s' n = Some (Some a, s1) \<longrightarrow>
       (\<exists>z s2. unat n \<le> z \<and> kmalloc_objs base s1 = insert (a, z) (kmalloc_objs base s') \<and>
          (\<forall>x \<in> kmalloc_objs base s'. obj_range x \<inter> obj_range (a, z) = {}) \<and>
          kfree s1 (Some a) = Some s2 \<and> kmalloc_inv base s2 \<and> kmalloc_objs base s2 = kmalloc_objs base s'))"
proof (intro conjI)
  show inv: "kmalloc_inv base s'" using assms by (rule kheap.objects_inv)
  show "\<forall>x \<in> kmalloc_objs base s'. \<forall>y \<in> kmalloc_objs base s'. x \<noteq> y \<longrightarrow> obj_range x \<inter> obj_range y = {}" using kheap.disjoint_law [OF inv] by blast
  show "\<forall>n. kmalloc base s' n \<noteq> None" using kheap.objects_progress(1) [OF assms] by blast
  show "\<forall>(a, z) \<in> kmalloc_objs base s'. kfree s' (Some a) \<noteq> None" using kheap.objects_progress(2) [OF assms] by blast
qed (use kheap.alloc_fresh [OF kheap.objects_inv [OF assms]] in blast)

theorem kmalloc_history_witness:
  "\<exists>s'. object_history (kmalloc 0x200000) (\<lambda>s a. kfree s (Some a)) (kmalloc_objs 0x200000) ready_kmem [Kmalloc 8] s' \<and>
    kmalloc_inv 0x200000 s' \<and> (\<forall>n. kmalloc 0x200000 s' n \<noteq> None)"
proof -
  define f where "f = (\<lambda>s a. kfree s (Some a))"
  obtain p s' where "kmalloc 0x200000 ready_kmem 8 = Some (p, s')" using kheap.alloc_law [OF ready_kmem_inv, of 8] by blast
  from objects_Kmalloc [where alloc = "kmalloc 0x200000", OF objects_Nil this, of f "kmalloc_objs 0x200000"]
  have h: "object_history (kmalloc 0x200000) f (kmalloc_objs 0x200000) ready_kmem [Kmalloc 8] s'" by simp
  note kmalloc_history [OF h [unfolded f_def] ready_kmem_inv, THEN conjunct1] kmalloc_history [OF h [unfolded f_def] ready_kmem_inv, THEN conjunct2, THEN conjunct1]
  with h show ?thesis unfolding f_def by (intro exI [of _ s'] conjI)
qed

text \<open>
  Claim C8. Six free pages are enough for \<open>kmalloc_cache_init\<close> to register the fifteen caches of \<open>kmalloc\<close>, a slab in each of the first
  six; afterwards the allocator is well-formed and nothing is handed out.
\<close>

theorem kmalloc_cache_init_spec:
  assumes "pool_inv (pages s)" and "straight (pages s)" and "cache_db s = Map.empty" and "6 \<le> pool_free (pages s)"
  shows "\<exists>s'. kmalloc_cache_init base s = Some s' \<and> kmalloc_inv base s' \<and> kmalloc_objs base s' = {}"
  using assms by (rule kmalloc_boot)

theorem kmalloc_cache_init_spec_witness:
  "\<exists>s'. kmalloc_cache_init 0x200000 boot_kmem = Some s' \<and> kmalloc_inv 0x200000 s' \<and> kmalloc_objs 0x200000 s' = {}"
  by (rule kmalloc_cache_init_spec) (simp_all add: boot_kmem_def eight_pages_inv)

text \<open>
  Claim C9. \<open>kmem_cache_reap\<close> on a well-formed cache answers \<^verbatim>\<open>-EBUSY\<close> when it has no free slab.  Otherwise it gives the pages of
  the first free slabs back to the page pool: all of them when forced, and else exactly as many as bring the number of slabs below the limit, as far
  as there are free ones.  It changes no other block in use, no other cache and no object handed out.
\<close>

theorem kmem_cache_reap_spec:
  assumes "pages_ok_for s" and "cache_inv s k"
    and "n = (if force then length (free_slabs (caches s k)) else min (length (free_slabs (caches s k))) (unat (slab_count (caches s k)) + 1 - unat (limits (caches s k))))"
  shows "if free_slabs (caches s k) = [] then kmem_cache_reap s k force = Some (- EBUSY, s)
    else \<exists>s' ord. kmem_cache_reap s k force = Some (0, s') \<and> cache_inv s' k \<and> others_kept k s s' \<and> live s' k = live s k \<and>
      free_slabs (caches s' k) = drop n (free_slabs (caches s k)) \<and> unat (slab_count (caches s' k)) + n = unat (slab_count (caches s k)) \<and> geom (caches s k) ord \<and>
      pool_blocks (pages s') = pool_blocks (pages s) - (\<lambda>a. (slab_page (slabs s a), ord)) ` set (take n (free_slabs (caches s k)))"
proof (cases "free_slabs (caches s k) = []")
  case False
  have n: "n = reaped (caches s k) force" using assms(3) by (simp add: reaped_def)
  from reap_loop_ok [OF assms(1,2), of force] obtain s' m ord where r: "reap_loop s k force (free_slabs (caches s k)) = Some s'" "cache_inv s' k" "others_kept k s s'"
    "live s' k = live s k" "free_slabs (caches s' k) = drop m (free_slabs (caches s k))" "geom (caches s k) ord"
    "pool_blocks (pages s') = pool_blocks (pages s) - (\<lambda>a. (slab_page (slabs s a), ord)) ` set (take m (free_slabs (caches s k)))"
    by (elim exE conjE) (rule that)
  note E = reap_loop_exact [OF r(1) refl, folded n]
  have "drop m (free_slabs (caches s k)) = drop n (free_slabs (caches s k))" using r(5) E by simp
  then have t: "take m (free_slabs (caches s k)) = take n (free_slabs (caches s k))" by (metis append_take_drop_id append_same_eq)
  have "kmem_cache_reap s k force = Some (0, s')" using False r(1) by (simp add: kmem_cache_reap_def)
  then have "\<exists>s' ord. kmem_cache_reap s k force = Some (0, s') \<and> cache_inv s' k \<and> others_kept k s s' \<and> live s' k = live s k \<and>
      free_slabs (caches s' k) = drop n (free_slabs (caches s k)) \<and> unat (slab_count (caches s' k)) + n = unat (slab_count (caches s k)) \<and> geom (caches s k) ord \<and>
      pool_blocks (pages s') = pool_blocks (pages s) - (\<lambda>a. (slab_page (slabs s a), ord)) ` set (take n (free_slabs (caches s k)))"
    using r(2-4,6,7) E t by (intro exI [of _ s'] exI [of _ ord]) simp
  then show ?thesis using False by simp
qed (simp add: kmem_cache_reap_def)

text \<open>A cache for objects of 24 bytes with one slab, which is free.\<close>

definition slab_kmem :: kmem where
  "slab_kmem = (case kmem_cache_init boot_kmem 0x300000 ''node'' 24 0 16 4 None None of
      Some (_, s) \<Rightarrow> (case kmem_cache_grow_nolock s 0x300000 of Some (_, s) \<Rightarrow> s | None \<Rightarrow> s)
    | None \<Rightarrow> boot_kmem)"

lemma slab_kmem_ok: "pages_ok_for slab_kmem" "cache_inv slab_kmem 0x300000" "\<exists>a. free_slabs (caches slab_kmem 0x300000) = [a]"
proof -
  let ?i = "kmem_cache_init boot_kmem 0x300000 ''node'' 24 0 16 4 None None"
  have "\<exists>s'. ?i = Some (0, s') \<and> kmem_inv s' \<and> cache_db s' = (cache_db boot_kmem)(''node'' \<mapsto> 0x300000) \<and> pages s' = pages boot_kmem"
    using kmem_cache_init_ok [of boot_kmem "''node''" "0x300000" 24 16 0 4 None None]
    by (auto simp: boot_kmem_def blank_cache_def kmem_inv_def pages_ok_for_def eight_pages_inv cell_def pad_def calc_slab_param_def kmem_is_off_slab_def
      calc_slab_data_size_def kmem_calc_align_offset_def Let_def)
  then obtain s where s: "?i = Some (0, s)" "kmem_inv s" "cache_db s ''node'' = Some 0x300000" "pages s = eight_pages" by (auto simp: boot_kmem_def)
  have C: "pages_ok_for s" "cache_inv s 0x300000" using s(2,3) by (auto simp: kmem_inv_def)
  have "map_option (\<lambda>(rc, s). (slab_size (caches s 0x300000), free_slabs (caches s 0x300000))) ?i = Some (4096, [])" by code_simp
  then have z: "slab_size (caches s 0x300000) = 4096" "free_slabs (caches s 0x300000) = []" using s(1) by simp_all
  have "calc_page_order 4096 0 = 0" "map_option fst (alloc_buddy_pages eight_pages 0) = Some 0" by code_simp+
  then have "alloc_buddy_pages (pages s) (int (calc_page_order (slab_size (caches s 0x300000)) 0)) \<noteq> Some (- ENOMEM, None, pages s)" by (auto simp: s(4) z(1))
  with grow_ok [OF C] obtain s' a where g: "kmem_cache_grow_nolock s 0x300000 = Some (0, s')" "others_kept 0x300000 s s'" "cache_inv s' 0x300000" "free_slabs (caches s' 0x300000) = [a]"
    by (auto simp: z(2))
  have "slab_kmem = s'" by (simp add: slab_kmem_def s(1) g(1))
  then show "pages_ok_for slab_kmem" "cache_inv slab_kmem 0x300000" "\<exists>a. free_slabs (caches slab_kmem 0x300000) = [a]"
    using g(2-4) by (simp_all add: others_kept_def)
qed

theorem kmem_cache_reap_spec_witness:
  "\<exists>a s' ord. free_slabs (caches slab_kmem 0x300000) = [a] \<and> kmem_cache_reap slab_kmem 0x300000 True = Some (0, s') \<and> cache_inv s' 0x300000 \<and>
     free_slabs (caches s' 0x300000) = [] \<and> unat (slab_count (caches s' 0x300000)) + 1 = unat (slab_count (caches slab_kmem 0x300000)) \<and>
     pool_blocks (pages s') = pool_blocks (pages slab_kmem) - {(slab_page (slabs slab_kmem a), ord)}"
proof -
  obtain a where a: "free_slabs (caches slab_kmem 0x300000) = [a]" using slab_kmem_ok(3) by blast
  have "1 = (if True then length (free_slabs (caches slab_kmem 0x300000)) else min (length (free_slabs (caches slab_kmem 0x300000)))
      (unat (slab_count (caches slab_kmem 0x300000)) + 1 - unat (limits (caches slab_kmem 0x300000))))" by (simp add: a)
  from kmem_cache_reap_spec [OF slab_kmem_ok(1,2) this] show ?thesis by (auto simp: a)
qed

text \<open>
  Registering a cache under a new name always succeeds when its slabs hold at least one object: the new cache is found under its name, nothing of
  it is handed out, its slabs are a power of two of pages with room for the descriptor at every colour and all objects behind it.
  Exactly this cache and its entry in the data base are written: every other cache, the slabs, the pages and the
  calls of constructors stay as they are.
\<close>

theorem kmem_cache_init_spec:
  assumes "kmem_inv s" and "cache_db s name = None" and "\<And>n. cache_db s n \<noteq> Some k" and "0 < sz"
    and "cell ((caches s k)\<lparr>kc_name := name, obj_size := sz, kc_align := (if align \<noteq> KM_ALIGN_HW then align else 8)\<rparr>) < 2 ^ 64"
    and "\<And>kc. calc_slab_param ((caches s k)\<lparr>kc_name := name, obj_size := sz, kc_align := (if align \<noteq> KM_ALIGN_HW then align else 8)\<rparr>) = Some kc \<Longrightarrow>
      0 < objs_per_slab kc"
  shows "\<exists>s' kc ord. kmem_cache_init s k name sz flags align lim constructor destructor = Some (0, s') \<and>
    s' = s\<lparr>caches := (caches s)(k := kc), cache_db := (cache_db s)(name \<mapsto> k)\<rparr> \<and> kmem_inv s' \<and> live s' k = {} \<and>
    kc_name kc = name \<and> obj_size kc = sz \<and> usage_count kc = 0 \<and>
    slab_size kc = push_bit ord PAGE_SIZE \<and> ord < PAGE_POOL_MAX_ORDER \<and> 0 < objs_per_slab kc \<and>
    64 * (unat (color_num kc) - 1) + 248 + unat (objs_per_slab kc) * cell kc \<le> 4096 * 2 ^ ord"
proof -
  from kmem_cache_init_ok [OF assms, of flags lim constructor destructor] obtain s' where
    s': "kmem_cache_init s k name sz flags align lim constructor destructor = Some (0, s')" "kmem_inv s'" "cache_db s' = (cache_db s)(name \<mapsto> k)"
      "live s' k = {}" "kc_name (caches s' k) = name" "obj_size (caches s' k) = sz" "usage_count (caches s' k) = 0"
      "s' = s\<lparr>caches := (caches s)(k := caches s' k), cache_db := (cache_db s)(name \<mapsto> k)\<rparr>" by blast
  have "cache_inv s' k" using kmem_invD(2) [OF s'(2), of name k] s'(3) by simp
  then obtain ord where "geom (caches s' k) ord" by (rule cache_butE)
  then show ?thesis using s'(1,2,4-8) unfolding geom_def by blast
qed

theorem kmem_cache_init_spec_witness:
  "\<exists>s' kc ord. kmem_cache_init boot_kmem 0x300000 ''node'' 24 0 16 4 None None = Some (0, s') \<and>
    s' = boot_kmem\<lparr>caches := (caches boot_kmem)(0x300000 := kc), cache_db := (cache_db boot_kmem)(''node'' \<mapsto> 0x300000)\<rparr> \<and> kmem_inv s' \<and> live s' 0x300000 = {} \<and>
    kc_name kc = ''node'' \<and> obj_size kc = 24 \<and> usage_count kc = 0 \<and>
    slab_size kc = push_bit ord PAGE_SIZE \<and> ord < PAGE_POOL_MAX_ORDER \<and> 0 < objs_per_slab kc \<and>
    64 * (unat (color_num kc) - 1) + 248 + unat (objs_per_slab kc) * cell kc \<le> 4096 * 2 ^ ord"
  by (rule kmem_cache_init_spec)
    (simp_all add: boot_kmem_def blank_cache_def kmem_inv_def pages_ok_for_def eight_pages_inv cell_def pad_def calc_slab_param_def kmem_is_off_slab_def
      calc_slab_data_size_def kmem_calc_align_offset_def Let_def)

section \<open>Where the code falls short\<close>

text \<open>
  The order of the smallest slab is the logarithm of its pages rounded down, so for some sizes the slab has no room for an object: a
  cache for objects of 8176 bytes is registered, but every allocation from it fails an assertion or finds no pages.
\<close>

lemma large_objects_do_not_fit:
  "calc_slab_param (kc\<lparr>obj_size := 8176, kc_align := 8\<rparr>) = Some kc' \<Longrightarrow> objs_per_slab kc' = 0"
proof -
  assume a: "calc_slab_param (kc\<lparr>obj_size := 8176, kc_align := 8\<rparr>) = Some kc'"
  have "map_option objs_per_slab (calc_slab_param (blank_cache 8176)) = Some 0" by code_simp
  moreover have "map_option objs_per_slab (calc_slab_param (blank_cache 8176)) = Some (objs_per_slab kc')"
    using calc_slab_param_cong [of "kc\<lparr>obj_size := 8176, kc_align := 8\<rparr>" "blank_cache 8176"] a by (simp add: blank_cache_def)
  ultimately show "objs_per_slab kc' = 0" by simp
qed

lemma object_heads_caches: "object_heads_from s k a i n = Some s' \<Longrightarrow> caches s' = caches s"
  by (induction n arbitrary: s i) (auto simp: bind_eq_Some_conv upd_slab_def)

lemma grow_objs_per_slab: "kmem_cache_grow_nolock s k = Some (rc, s') \<Longrightarrow> objs_per_slab (caches s' k) = objs_per_slab (caches s k)"
  by (auto simp: kmem_cache_grow_nolock_def bind_eq_Some_conv Let_def update_color_offset_def init_slab_def init_object_heads_def upd_cache_def upd_slab_def
      dest!: object_heads_caches split: if_split_asm)

lemma no_objects_no_alloc:
  assumes "objs_per_slab (caches s k) = 0"
  shows "kmem_cache_alloc s k \<noteq> Some (Some obj, s')"
proof -
  have "objs_per_slab (caches s1 k) = 0" if c: "choose_slab s k = Some (r, s1)" for r s1
  proof (cases "partial_slabs (caches s k)")
    case Nil
    obtain rc s2 where s2: "(if free_slabs (caches s k) = [] then kmem_cache_grow_nolock s k else Some (0, s)) = Some (rc, s2)"
      using c Nil by (cases "if free_slabs (caches s k) = [] then kmem_cache_grow_nolock s k else Some (0, s)") (auto simp: choose_slab_def)
    have r: "(if rc \<noteq> 0 then Some (None, s2) else case free_slabs (caches s2 k) of [] \<Rightarrow> None
        | a # q \<Rightarrow> Some (Some a, upd_cache s2 k (\<lambda>kc. kc\<lparr>free_slabs := q, partial_slabs := partial_slabs kc @ [a]\<rparr>))) = Some (r, s1)"
      using c unfolding choose_slab_def Nil list.case(1) s2 by simp
    have "objs_per_slab (caches s2 k) = objs_per_slab (caches s k)" using s2 by (auto split: if_split_asm dest: grow_objs_per_slab)
    then show ?thesis using assms r by (cases "free_slabs (caches s2 k)") (auto simp: upd_cache_def split: if_split_asm)
  qed (use c assms in \<open>simp add: choose_slab_def\<close>)
  moreover have "take_object s1 k a = None" if "objs_per_slab (caches s1 k) = 0" for s1 a
    using that by (simp add: take_object_def)
  ultimately show ?thesis by (auto simp: kmem_cache_alloc_def bind_eq_Some_conv split: option.split_asm)
qed

text \<open>
  The space in front of an object is computed from its size, not from its address: an object of 12 bytes in a cache for alignment 8
  is at an odd multiple of 4.
\<close>

lemma padded_object_misaligned: "obj_at ((blank_cache 12)\<lparr>kc_align := 8\<rparr>) 0xFFFF800000001000 0 mod 8 = 4"
  by code_simp

text \<open>Destroying a cache that has no slab fails the assertion on the result of \<open>kmem_cache_reap\<close>, which is \<^verbatim>\<open>-EBUSY\<close>.\<close>

lemma destroy_unused_cache_panics:
  assumes "cache_inv s k" and "sflags (caches s k) AND KM_SLAB_PREDEFINED_CACHE = 0" and "slabs_of (caches s k) = []" and "usage_count (caches s k) = 0"
  shows "kmem_cache_destroy s k = None"
proof -
  have "cache_db s (kc_name (caches s k)) = Some k" using assms(1) by (rule cache_butE)
  then show ?thesis
    using assms(2-4) by (simp add: kmem_cache_destroy_def remove_kmem_cache_from_db_def assert_kmem_cache_valid_def slabs_of_def kmem_cache_reap_def)
qed

end
