(* ===== verification/Thread_Info.thy ===== *)
theory Thread_Info
  imports Kern_Prelude
begin

text \<open>
  Per-thread dispatch control, \<^verbatim>\<open>src/thr/thread-info.c\<close>, and the spinlock built on it,
  \<^verbatim>\<open>src/kern/spinlock.c\<close> with the uniprocessor part of
  \<^verbatim>\<open>src/hal/x86-64/cpu/x86_64-spinlock.c\<close>.

  Every thread has a \<open>thread_info\<close> below its kernel stack.  \<open>preempt\<close> counts nested dispatch
  inhibitions in its low 31 bits; the top bit \<^verbatim>\<open>THR_PREEMPT_ACTIVE\<close> says that a delayed
  dispatch is in progress.  The operations act on the record of the current thread.
\<close>

section \<open>Thread information\<close>

record thread_info =
  ti_magic :: u32
  intrcnt :: u32
  preempt :: u32
  ti_flags :: u32
  arch_flags :: u32
  ti_thr :: nat
  ti_cpu :: u32

abbreviation THR_THREAD_INFO_MAGIC :: u32 where "THR_THREAD_INFO_MAGIC \<equiv> 0xdeadbeef"
abbreviation THR_PREEMPT_ACTIVE :: u32 where "THR_PREEMPT_ACTIVE \<equiv> 0x80000000"
abbreviation THR_DISPATCH_DELAYED :: u32 where "THR_DISPATCH_DELAYED \<equiv> 0x1"
abbreviation THR_EVENT_PENDING :: u32 where "THR_EVENT_PENDING \<equiv> 0x2"
abbreviation KSTACK_SIZE :: u64 where "KSTACK_SIZE \<equiv> 0x2000"

text \<open>\<open>hal_ti_init\<close> clears the architecture flags; \<open>cpu\<close> is the current processor.\<close>

definition ti_set_ti_with_thread :: "u32 \<Rightarrow> thread_info \<Rightarrow> nat \<Rightarrow> thread_info" where
  "ti_set_ti_with_thread cpu ti t = ti\<lparr>ti_magic := THR_THREAD_INFO_MAGIC, intrcnt := 0, preempt := 0,
     ti_flags := 0, ti_thr := t, ti_cpu := cpu, arch_flags := 0\<rparr>"

definition ti_dispatch_disabled :: "thread_info \<Rightarrow> bool" where
  "ti_dispatch_disabled ti \<longleftrightarrow> NOT THR_PREEMPT_ACTIVE AND preempt ti \<noteq> 0 \<or> 0 < intrcnt ti"

text \<open>
  \<open>ti_enable_dispatch\<close> up to the point where it calls \<open>sched_schedule\<close>; the Boolean says
  whether that call follows.
\<close>

definition ti_enable_dispatch :: "thread_info \<Rightarrow> (bool \<times> thread_info) option" where
  "ti_enable_dispatch ti = do {
     kassert (0 < preempt ti);
     let ti = ti\<lparr>preempt := preempt ti - 1\<rparr>;
     if THR_PREEMPT_ACTIVE AND preempt ti \<noteq> 0 then Some (False, ti)
     else if ti_flags ti AND THR_DISPATCH_DELAYED = 0 then Some (False, ti)
     else if preempt ti \<noteq> 0 \<or> intrcnt ti \<noteq> 0 then Some (False, ti)
     else Some (True, ti\<lparr>preempt := preempt ti OR THR_PREEMPT_ACTIVE\<rparr>)
   }"

definition ti_disable_dispatch :: "thread_info \<Rightarrow> thread_info option" where
  "ti_disable_dispatch ti = do {
     kassert (preempt ti AND NOT THR_PREEMPT_ACTIVE \<le> THR_PREEMPT_ACTIVE - 1);
     Some (ti\<lparr>preempt := preempt ti + 1\<rparr>)
   }"

definition ti_set_delay_dispatch :: "thread_info \<Rightarrow> thread_info" where
  "ti_set_delay_dispatch ti = ti\<lparr>ti_flags := ti_flags ti OR THR_DISPATCH_DELAYED\<rparr>"

definition ti_clr_delay_dispatch :: "thread_info \<Rightarrow> thread_info" where
  "ti_clr_delay_dispatch ti = ti\<lparr>ti_flags := ti_flags ti AND NOT THR_DISPATCH_DELAYED\<rparr>"

definition ti_dispatch_delayed :: "thread_info \<Rightarrow> bool" where
  "ti_dispatch_delayed ti \<longleftrightarrow> ti_flags ti AND THR_DISPATCH_DELAYED \<noteq> 0"

definition ti_set_event :: "thread_info \<Rightarrow> thread_info" where
  "ti_set_event ti = ti\<lparr>ti_flags := ti_flags ti OR THR_EVENT_PENDING\<rparr>"

definition ti_clr_event :: "thread_info \<Rightarrow> thread_info" where
  "ti_clr_event ti = ti\<lparr>ti_flags := ti_flags ti AND NOT THR_EVENT_PENDING\<rparr>"

definition ti_event_pending :: "thread_info \<Rightarrow> bool" where
  "ti_event_pending ti \<longleftrightarrow> ti_flags ti AND THR_EVENT_PENDING \<noteq> 0"

definition ti_clr_thread_info :: "thread_info \<Rightarrow> thread_info" where
  "ti_clr_thread_info ti = ti_clr_delay_dispatch (ti\<lparr>preempt := 0\<rparr>)"

definition ti_inc_intr :: "thread_info \<Rightarrow> thread_info" where
  "ti_inc_intr ti = ti\<lparr>intrcnt := intrcnt ti + 1\<rparr>"

definition ti_dec_intr :: "thread_info \<Rightarrow> thread_info option" where
  "ti_dec_intr ti = do {
     kassert (0 < intrcnt ti);
     Some (ti\<lparr>intrcnt := intrcnt ti - 1\<rparr>)
   }"

definition ti_in_intr :: "thread_info \<Rightarrow> bool" where
  "ti_in_intr ti \<longleftrightarrow> intrcnt ti \<noteq> 0"

text \<open>Addresses: the top of the stack a pointer lies in, and the \<open>thread_info\<close> at its far end.\<close>

definition ti_get_current_kstack_top :: "u64 \<Rightarrow> u64" where
  "ti_get_current_kstack_top sp = sp AND NOT (KSTACK_SIZE - 1)"

definition ti_kstack_to_tinfo :: "u64 \<Rightarrow> u64 \<Rightarrow> u64" where
  "ti_kstack_to_tinfo ti_size kstack_top = kstack_top + KSTACK_SIZE - ti_size"

definition ti_get_current_tinfo :: "u64 \<Rightarrow> u64 \<Rightarrow> u64" where
  "ti_get_current_tinfo ti_size sp = ti_kstack_to_tinfo ti_size (ti_get_current_kstack_top sp)"

section \<open>Spinlocks\<close>

text \<open>
  \<open>owner\<close> points to the \<open>thread_info\<close> of the holder, here named by its thread.  The kernel
  is built for one processor (\<^verbatim>\<open>CONFIG_SMP\<close> is not a configuration option), so
  \<open>hal_spinlock_lock\<close> is the store of 1.  \<open>chk\<close> is \<^verbatim>\<open>CONFIG_CHECK_SPINLOCKS\<close>.  The
  backtrace the lock records for debugging is left out.
\<close>

record spinlock =
  locked :: u32
  lock_type :: u32
  lock_cpu :: u32
  depth :: u32
  lock_owner :: "nat option"

abbreviation SPINLOCK_TYPE_NORMAL :: u32 where "SPINLOCK_TYPE_NORMAL \<equiv> 0"
abbreviation SPINLOCK_TYPE_RECURSIVE :: u32 where "SPINLOCK_TYPE_RECURSIVE \<equiv> 1"

definition spinlock_init :: spinlock where
  "spinlock_init = \<lparr>locked = 0, lock_type = SPINLOCK_TYPE_NORMAL, lock_cpu = 0, depth = 0, lock_owner = None\<rparr>"

definition spinlock_locked_by_self :: "nat \<Rightarrow> spinlock \<Rightarrow> bool" where
  "spinlock_locked_by_self me lk \<longleftrightarrow> locked lk \<noteq> 0 \<and> lock_owner lk = Some me"

definition check_recursive_locked :: "nat \<Rightarrow> spinlock \<Rightarrow> bool" where
  "check_recursive_locked me lk \<longleftrightarrow> spinlock_locked_by_self me lk \<and> 0 < depth lk"

definition hal_spinlock_lock :: "spinlock \<Rightarrow> spinlock" where
  "hal_spinlock_lock lk = lk\<lparr>locked := 1\<rparr>"

definition hal_spinlock_unlock :: "spinlock \<Rightarrow> spinlock" where
  "hal_spinlock_unlock lk = lk\<lparr>locked := 0\<rparr>"

definition spinlock_lock :: "bool \<Rightarrow> spinlock \<Rightarrow> thread_info \<Rightarrow> (spinlock \<times> thread_info) option" where
  "spinlock_lock chk lk ti = do {
     ti \<leftarrow> ti_disable_dispatch ti;
     kassert (chk \<longrightarrow> lock_type lk AND SPINLOCK_TYPE_RECURSIVE \<noteq> 0 \<or> \<not> check_recursive_locked (ti_thr ti) lk);
     let lk = hal_spinlock_lock lk;
     Some (lk\<lparr>depth := depth lk + 1, lock_owner := Some (ti_thr ti)\<rparr>, ti)
   }"

text \<open>The Boolean says whether \<open>ti_enable_dispatch\<close> goes on to call the scheduler.\<close>

definition spinlock_unlock :: "bool \<Rightarrow> spinlock \<Rightarrow> thread_info \<Rightarrow> (bool \<times> spinlock \<times> thread_info) option" where
  "spinlock_unlock chk lk ti = do {
     kassert (chk \<longrightarrow> lock_type lk AND SPINLOCK_TYPE_RECURSIVE \<noteq> 0 \<or> depth lk = 1);
     let lk = lk\<lparr>depth := depth lk - 1, lock_owner := None\<rparr>;
     let lk = hal_spinlock_unlock lk;
     (sched, ti) \<leftarrow> ti_enable_dispatch ti;
     Some (sched, lk, ti)
   }"

text \<open>
  The variants that also save and restore the processor's interrupt flag \<open>intr\<close>: the state is
  the flag, and the value saved by the caller.
\<close>

definition spinlock_lock_disable_intr ::
  "bool \<Rightarrow> bool \<Rightarrow> spinlock \<Rightarrow> thread_info \<Rightarrow> (bool \<times> bool \<times> spinlock \<times> thread_info) option" where
  "spinlock_lock_disable_intr chk intr lk ti = do {
     (lk, ti) \<leftarrow> spinlock_lock chk lk ti;
     Some (intr, False, lk, ti)
   }"

definition spinlock_unlock_restore_intr ::
  "bool \<Rightarrow> bool \<Rightarrow> spinlock \<Rightarrow> thread_info \<Rightarrow> (bool \<times> bool \<times> spinlock \<times> thread_info) option" where
  "spinlock_unlock_restore_intr chk saved lk ti = do {
     (sched, lk, ti) \<leftarrow> spinlock_unlock chk lk ti;
     Some (sched, saved, lk, ti)
   }"

text \<open>The raw variants touch neither the owner nor the dispatch count.\<close>

definition raw_spinlock_lock_disable_intr :: "bool \<Rightarrow> spinlock \<Rightarrow> bool \<times> bool \<times> spinlock" where
  "raw_spinlock_lock_disable_intr intr lk = (intr, False, hal_spinlock_lock lk)"

definition raw_spinlock_unlock_restore_intr :: "bool \<Rightarrow> spinlock \<Rightarrow> bool \<times> spinlock" where
  "raw_spinlock_unlock_restore_intr saved lk = (saved, hal_spinlock_unlock lk)"

section \<open>Lemmas\<close>

lemma preempt_low_bits:
  fixes p :: u32
  shows "unat (p AND NOT THR_PREEMPT_ACTIVE) = unat p mod 2 ^ 31"
proof -
  have "p AND NOT THR_PREEMPT_ACTIVE = take_bit 31 p"
  proof (rule bit_eqI)
    fix n
    have e: "THR_PREEMPT_ACTIVE = 2 ^ 31" by simp
    show "bit (p AND NOT THR_PREEMPT_ACTIVE) n \<longleftrightarrow> bit (take_bit 31 p) n"
      unfolding e bit_and_iff bit_not_iff bit_take_bit_iff bit_exp_iff
      using bit_imp_le_length [of p n] by auto
  qed
  then have "unat (p AND NOT THR_PREEMPT_ACTIVE) = take_bit 31 (unat p)" by (simp only: unsigned_take_bit_eq)
  then show ?thesis unfolding take_bit_eq_mod .
qed

lemma preempt_small:
  fixes p :: u32
  assumes "unat p < 2 ^ 31"
  shows "THR_PREEMPT_ACTIVE AND p = 0"
proof -
  have "unat (p AND NOT THR_PREEMPT_ACTIVE) = unat p" unfolding preempt_low_bits using assms by simp
  then have eq: "p AND NOT THR_PREEMPT_ACTIVE = p" by (metis unsigned_word_eqI)
  have "THR_PREEMPT_ACTIVE AND (p AND NOT THR_PREEMPT_ACTIVE) = 0"
    by (rule bit_eqI) (simp only: bit_and_iff bit_not_iff bit_0_eq bot_apply, auto)
  then show ?thesis unfolding eq .
qed

lemma dispatch_disabled_iff:
  "unat (preempt ti) < 2 ^ 31 \<Longrightarrow> ti_dispatch_disabled ti \<longleftrightarrow> preempt ti \<noteq> 0 \<or> intrcnt ti \<noteq> 0"
proof -
  assume a: "unat (preempt ti) < 2 ^ 31"
  have "NOT THR_PREEMPT_ACTIVE AND preempt ti = 0 \<longleftrightarrow> unat (NOT THR_PREEMPT_ACTIVE AND preempt ti) = 0"
    by (simp only: unat_eq_0)
  also have "\<dots> \<longleftrightarrow> unat (preempt ti) = 0"
    unfolding and.commute [of "NOT THR_PREEMPT_ACTIVE"] preempt_low_bits using a by simp
  also have "\<dots> \<longleftrightarrow> preempt ti = 0" by (simp only: unat_eq_0)
  finally show ?thesis by (simp add: ti_dispatch_disabled_def word_neq_0_conv)
qed

text \<open>The assertion in \<open>ti_disable_dispatch\<close> holds for every value of the counter.\<close>

lemma ti_disable_dispatch_eq: "ti_disable_dispatch ti = Some (ti\<lparr>preempt := preempt ti + 1\<rparr>)"
proof -
  have "unat (preempt ti) mod 2 ^ 31 \<le> unat (THR_PREEMPT_ACTIVE - 1)"
    using mod_less_divisor [of "2 ^ 31" "unat (preempt ti)"] by simp
  then have "preempt ti AND NOT THR_PREEMPT_ACTIVE \<le> THR_PREEMPT_ACTIVE - 1"
    unfolding word_le_nat_alt preempt_low_bits .
  then show ?thesis by (simp add: ti_disable_dispatch_def)
qed

text \<open>Nested inhibitions: \<open>n\<close> calls of \<open>ti_disable_dispatch\<close>, \<open>n\<close> calls of \<open>ti_enable_dispatch\<close>.\<close>

fun disable_times :: "nat \<Rightarrow> thread_info \<Rightarrow> thread_info option" where
  "disable_times 0 ti = Some ti"
| "disable_times (Suc n) ti = ti_disable_dispatch ti \<bind> disable_times n"

fun enable_times :: "nat \<Rightarrow> thread_info \<Rightarrow> (bool list \<times> thread_info) option" where
  "enable_times 0 ti = Some ([], ti)"
| "enable_times (Suc n) ti = do {
     (s, ti) \<leftarrow> ti_enable_dispatch ti;
     (ss, ti) \<leftarrow> enable_times n ti;
     Some (s # ss, ti)
   }"

lemma disable_times_eq: "disable_times n ti = Some (ti\<lparr>preempt := preempt ti + of_nat n\<rparr>)"
proof (induction n arbitrary: ti)
  case (Suc n)
  have "preempt ti + 1 + of_nat n = preempt ti + of_nat (Suc n)" by (simp add: ac_simps)
  then show ?case by (simp add: ti_disable_dispatch_eq Suc.IH del: of_nat_Suc)
qed simp

lemma ti_enable_dispatch_inner:
  assumes "1 < unat (preempt ti)" and "unat (preempt ti) \<le> 2 ^ 31"
  shows "ti_enable_dispatch ti = Some (False, ti\<lparr>preempt := preempt ti - 1\<rparr>)"
proof -
  have u: "unat (preempt ti - 1) = unat (preempt ti) - 1" using assms(1) by (simp add: unat_sub_if')
  then have "THR_PREEMPT_ACTIVE AND (preempt ti - 1) = 0" using assms by (intro preempt_small) simp
  moreover have "preempt ti - 1 \<noteq> 0" using u assms(1) unat_eq_0 [of "preempt ti - 1"] by simp
  moreover have "0 < preempt ti" using assms(1) by (simp add: word_less_nat_alt)
  ultimately show ?thesis by (simp add: ti_enable_dispatch_def Let_def)
qed

lemma enable_times_inner:
  assumes "n < unat (preempt ti)" and "unat (preempt ti) \<le> 2 ^ 31"
  shows "enable_times n ti = Some (replicate n False, ti\<lparr>preempt := preempt ti - of_nat n\<rparr>)"
  using assms
proof (induction n arbitrary: ti)
  case (Suc n)
  have u: "unat (preempt ti - 1) = unat (preempt ti) - 1" using Suc.prems(1) by (simp add: unat_sub_if')
  have "preempt ti - 1 - of_nat n = preempt ti - of_nat (Suc n)" by simp
  then show ?case
    using Suc.prems Suc.IH [of "ti\<lparr>preempt := preempt ti - 1\<rparr>"] ti_enable_dispatch_inner [of ti] u
    by (simp del: of_nat_Suc)
qed simp

section \<open>Properties\<close>

text \<open>
  Inhibitions of the dispatcher nest: after \<open>n\<close> calls of \<open>ti_disable_dispatch\<close>, for any
  \<open>n\<close> between 1 and \<open>2 ^ 31 - 1\<close>, dispatching is disabled, the first \<open>n - 1\<close> calls of
  \<open>ti_enable_dispatch\<close> never schedule and leave it disabled, and the last one restores the
  counter and calls the scheduler exactly when a dispatch was delayed and no interrupt is
  being handled.
\<close>

theorem ti_dispatch_nesting:
  assumes "preempt ti = 0" and "0 < n" and "n < 2 ^ 31"
  shows "\<exists>ti1 ti2. disable_times n ti = Some ti1 \<and> ti_dispatch_disabled ti1 \<and>
    enable_times (n - 1) ti1 = Some (replicate (n - 1) False, ti2) \<and> ti_dispatch_disabled ti2 \<and>
    ti_enable_dispatch ti2 =
      (if ti_dispatch_delayed ti \<and> intrcnt ti = 0 then Some (True, ti\<lparr>preempt := THR_PREEMPT_ACTIVE\<rparr>)
       else Some (False, ti))"
proof -
  define ti1 where "ti1 = ti\<lparr>preempt := of_nat n\<rparr>"
  define ti2 where "ti2 = ti\<lparr>preempt := 1\<rparr>"
  have u: "unat (of_nat n :: u32) = n" using assms(3) by (simp add: unat_of_nat)
  have "disable_times n ti = Some ti1" using disable_times_eq [of n ti] assms(1) by (simp add: ti1_def)
  moreover have "ti_dispatch_disabled ti1"
    using dispatch_disabled_iff [of ti1] u assms(2,3) unat_eq_0 [of "of_nat n :: u32"] by (simp add: ti1_def)
  moreover have "enable_times (n - 1) ti1 = Some (replicate (n - 1) False, ti2)"
  proof -
    have "of_nat n - of_nat (n - 1) = (1 :: u32)" using assms(2) by (simp add: of_nat_diff)
    then show ?thesis using enable_times_inner [of "n - 1" ti1] u assms(2,3) by (simp add: ti1_def ti2_def)
  qed
  moreover have "ti_dispatch_disabled ti2" using dispatch_disabled_iff [of ti2] by (simp add: ti2_def)
  moreover have "ti_enable_dispatch ti2 =
      (if ti_dispatch_delayed ti \<and> intrcnt ti = 0 then Some (True, ti\<lparr>preempt := THR_PREEMPT_ACTIVE\<rparr>)
       else Some (False, ti))"
    using assms(1) by (auto simp: ti_enable_dispatch_def ti2_def ti_dispatch_delayed_def Let_def)
  ultimately show ?thesis by blast
qed

definition some_ti :: thread_info where
  "some_ti = \<lparr>ti_magic = THR_THREAD_INFO_MAGIC, intrcnt = 0, preempt = 0, ti_flags = THR_DISPATCH_DELAYED,
     arch_flags = 0, ti_thr = 7, ti_cpu = 0\<rparr>"

theorem ti_dispatch_nesting_witness:
  "\<exists>ti1 ti2. disable_times 3 some_ti = Some ti1 \<and> ti_dispatch_disabled ti1 \<and>
    enable_times (3 - 1) ti1 = Some (replicate (3 - 1) False, ti2) \<and> ti_dispatch_disabled ti2 \<and>
    ti_enable_dispatch ti2 =
      (if ti_dispatch_delayed some_ti \<and> intrcnt some_ti = 0 then Some (True, some_ti\<lparr>preempt := THR_PREEMPT_ACTIVE\<rparr>)
       else Some (False, some_ti))"
  by (rule ti_dispatch_nesting) (simp_all add: some_ti_def)

text \<open>
  The overflow assertion of \<open>ti_disable_dispatch\<close> masks the counter to 31 bits before
  comparing it with the 31-bit maximum, so it never fails: one more inhibition than the
  counter can hold sets \<^verbatim>\<open>THR_PREEMPT_ACTIVE\<close> and leaves the dispatcher enabled.
\<close>

theorem ti_disable_dispatch_overflow:
  assumes "preempt ti = THR_PREEMPT_ACTIVE - 1" and "intrcnt ti = 0"
  shows "\<exists>ti'. ti_disable_dispatch ti = Some ti' \<and> preempt ti' = THR_PREEMPT_ACTIVE \<and> \<not> ti_dispatch_disabled ti'"
  using assms by (simp add: ti_disable_dispatch_eq ti_dispatch_disabled_def)

theorem ti_disable_dispatch_overflow_witness:
  "\<exists>ti'. ti_disable_dispatch (some_ti\<lparr>preempt := THR_PREEMPT_ACTIVE - 1\<rparr>) = Some ti' \<and>
     preempt ti' = THR_PREEMPT_ACTIVE \<and> \<not> ti_dispatch_disabled ti'"
  by (rule ti_disable_dispatch_overflow) (simp_all add: some_ti_def)

text \<open>
  Claim C33. A free spinlock taken and released by a thread, with interrupts saved and restored:
  while it is held the thread owns it, cannot be dispatched and interrupts are off, a second
  attempt by the same thread stops in the recursion check when that check is built in, and
  the release gives back the lock, the counter and the interrupt flag as they were,
  scheduling only if a dispatch was delayed outside every critical section.
\<close>

theorem spinlock_critical_section:
  assumes "locked lk = 0" and "depth lk = 0" and "lock_owner lk = None" and "lock_type lk = SPINLOCK_TYPE_NORMAL"
    and "unat (preempt ti) < 2 ^ 31 - 1"
  shows "\<exists>lk1 ti1 sched ti2. spinlock_lock_disable_intr chk intr lk ti = Some (intr, False, lk1, ti1) \<and>
    spinlock_locked_by_self (ti_thr ti) lk1 \<and> ti_dispatch_disabled ti1 \<and>
    (spinlock_lock chk lk1 ti1 = None \<longleftrightarrow> chk) \<and>
    spinlock_unlock_restore_intr chk intr lk1 ti1 = Some (sched, intr, lk, ti2) \<and>
    (if sched then preempt ti = 0 \<and> intrcnt ti = 0 \<and> ti_dispatch_delayed ti \<and> ti2 = ti\<lparr>preempt := THR_PREEMPT_ACTIVE\<rparr>
     else ti2 = ti)"
proof -
  define ti1 where "ti1 = ti\<lparr>preempt := preempt ti + 1\<rparr>"
  define lk1 where "lk1 = lk\<lparr>locked := 1, depth := 1, lock_owner := Some (ti_thr ti)\<rparr>"
  have u: "unat (preempt ti + 1) = unat (preempt ti) + 1" using assms(5) by (simp add: unat_word_ariths)
  have "preempt ti + 1 \<noteq> 0" using u unat_eq_0 [of "preempt ti + 1"] by simp
  then have dd: "ti_dispatch_disabled ti1" using dispatch_disabled_iff [of ti1] u assms(5) by (simp add: ti1_def)
  have lock: "spinlock_lock_disable_intr chk intr lk ti = Some (intr, False, lk1, ti1)"
    using assms(1-3)
    by (simp add: spinlock_lock_disable_intr_def spinlock_lock_def ti_disable_dispatch_eq check_recursive_locked_def
        spinlock_locked_by_self_def hal_spinlock_lock_def Let_def ti1_def lk1_def)
  have self: "spinlock_locked_by_self (ti_thr ti) lk1" by (simp add: spinlock_locked_by_self_def lk1_def)
  have recl: "spinlock_lock chk lk1 ti1 = None \<longleftrightarrow> chk"
    using self assms(4)
    by (simp add: spinlock_lock_def ti_disable_dispatch_eq check_recursive_locked_def Let_def ti1_def)
      (simp add: lk1_def)
  have restored: "lk1\<lparr>depth := 0, lock_owner := None, locked := 0\<rparr> = lk" using assms(1-3) by (simp add: lk1_def)
  have pos: "0 < preempt ti + 1" using \<open>preempt ti + 1 \<noteq> 0\<close> by (simp add: word_neq_0_conv)
  have small: "THR_PREEMPT_ACTIVE AND preempt ti = 0" using assms(5) by (intro preempt_small) simp
  have en: "ti_enable_dispatch ti1 = (if preempt ti = 0 \<and> intrcnt ti = 0 \<and> ti_dispatch_delayed ti
     then Some (True, ti\<lparr>preempt := THR_PREEMPT_ACTIVE\<rparr>) else Some (False, ti))"
    using pos small by (auto simp: ti_enable_dispatch_def ti1_def Let_def ti_dispatch_delayed_def)
  obtain sched ti2 where e: "ti_enable_dispatch ti1 = Some (sched, ti2)"
    and e2: "(if sched then preempt ti = 0 \<and> intrcnt ti = 0 \<and> ti_dispatch_delayed ti \<and> ti2 = ti\<lparr>preempt := THR_PREEMPT_ACTIVE\<rparr> else ti2 = ti)"
    using en by (auto split: if_splits)
  have "spinlock_unlock_restore_intr chk intr lk1 ti1 = Some (sched, intr, lk, ti2)"
    using e restored by (simp add: spinlock_unlock_restore_intr_def spinlock_unlock_def hal_spinlock_unlock_def Let_def)
      (simp add: lk1_def)
  with lock self dd recl e2 show ?thesis
    by (intro exI [of _ lk1] exI [of _ ti1] exI [of _ sched] exI [of _ ti2] conjI)
qed

theorem spinlock_critical_section_witness:
  "\<exists>lk1 ti1 sched ti2. spinlock_lock_disable_intr True True spinlock_init some_ti = Some (True, False, lk1, ti1) \<and>
    spinlock_locked_by_self (ti_thr some_ti) lk1 \<and> ti_dispatch_disabled ti1 \<and>
    (spinlock_lock True lk1 ti1 = None \<longleftrightarrow> True) \<and>
    spinlock_unlock_restore_intr True True lk1 ti1 = Some (sched, True, spinlock_init, ti2) \<and>
    (if sched then preempt some_ti = 0 \<and> intrcnt some_ti = 0 \<and> ti_dispatch_delayed some_ti \<and>
       ti2 = some_ti\<lparr>preempt := THR_PREEMPT_ACTIVE\<rparr> else ti2 = some_ti)"
  by (rule spinlock_critical_section) (simp_all add: some_ti_def spinlock_init_def)

text \<open>
  The raw variants restore a free lock and the interrupt flag too, but record no owner: whether the lock counts as
  held by a thread depends on what its owner field held before.
\<close>

lemma raw_spinlock_section:
  assumes "locked lk = 0" and "raw_spinlock_lock_disable_intr intr lk = (saved, intr1, lk1)"
  shows "\<not> intr1 \<and> locked lk1 = 1 \<and> raw_spinlock_unlock_restore_intr saved lk1 = (intr, lk) \<and>
    (spinlock_locked_by_self me lk1 \<longleftrightarrow> lock_owner lk = Some me)"
  using assms by (cases lk) (auto simp: raw_spinlock_lock_disable_intr_def raw_spinlock_unlock_restore_intr_def
      hal_spinlock_lock_def hal_spinlock_unlock_def spinlock_locked_by_self_def)

text \<open>
  A recursive spinlock is free after the first of two releases: the inner
  \<open>spinlock_unlock\<close> stores 0 into \<open>locked\<close> and drops the owner although the depth is still 1.
\<close>

theorem spinlock_recursive_released_early:
  assumes "lock_type lk AND SPINLOCK_TYPE_RECURSIVE \<noteq> 0" and "depth lk = 2" and "spinlock_locked_by_self (ti_thr ti) lk"
    and "0 < preempt ti"
  shows "\<exists>sched lk' ti'. spinlock_unlock chk lk ti = Some (sched, lk', ti') \<and> depth lk' = 1 \<and>
    locked lk' = 0 \<and> \<not> spinlock_locked_by_self (ti_thr ti) lk'"
proof -
  have "ti_enable_dispatch ti \<noteq> None"
    using assms(4) by (auto simp: ti_enable_dispatch_def Let_def)
  then obtain sched ti' where "ti_enable_dispatch ti = Some (sched, ti')" by auto
  then show ?thesis using assms
    by (simp add: spinlock_unlock_def hal_spinlock_unlock_def spinlock_locked_by_self_def Let_def)
qed

theorem spinlock_recursive_released_early_witness:
  "\<exists>sched lk' ti'. spinlock_unlock True \<lparr>locked = 1, lock_type = SPINLOCK_TYPE_RECURSIVE, lock_cpu = 0, depth = 2, lock_owner = Some 7\<rparr>
      (some_ti\<lparr>preempt := 2\<rparr>) = Some (sched, lk', ti') \<and> depth lk' = 1 \<and>
    locked lk' = 0 \<and> \<not> spinlock_locked_by_self (ti_thr (some_ti\<lparr>preempt := 2\<rparr>)) lk'"
  by (rule spinlock_recursive_released_early) (simp_all add: some_ti_def spinlock_locked_by_self_def)

end
