(* ===== verification/Event_Mask.thy ===== *)
theory Event_Mask
  imports Kern_Prelude
begin

text \<open>
  Bit maps of event numbers, \<^verbatim>\<open>src/event/event-mask.c\<close>.  A map is the array
  \<^verbatim>\<open>events_map map[EV_MAP_LEN]\<close> of two 64-bit words.
\<close>

section \<open>Model\<close>

abbreviation EV_NR_EVENT :: nat where "EV_NR_EVENT \<equiv> 128"
abbreviation EV_MAP_LEN :: nat where "EV_MAP_LEN \<equiv> 2"
abbreviation EV_SIG_KILL :: u64 where "EV_SIG_KILL \<equiv> 9"

record event_mask =
  map_words :: "u64 list"

definition event_map_clr_impl :: "u64 list \<Rightarrow> u64 list" where
  "event_map_clr_impl m = map (\<lambda>_. 0) m"

definition event_map_fill_impl :: "u64 list \<Rightarrow> u64 list" where
  "event_map_fill_impl m = map (\<lambda>_. NOT 0) m"

definition ev_mask_test_impl :: "u64 list \<Rightarrow> u64 \<Rightarrow> bool option" where
  "ev_mask_test_impl m no = do {
     kassert (unat no < EV_NR_EVENT);
     let pos = unat (no div 64);
     let idx = unat (no mod 64);
     kassert (pos < EV_MAP_LEN);
     w \<leftarrow> arr_get m pos;
     Some (w AND push_bit idx 1 \<noteq> 0)
   }"

fun ev_mask_empty_impl :: "u64 list \<Rightarrow> bool" where
  "ev_mask_empty_impl [] = True"
| "ev_mask_empty_impl (w # ws) = (if w \<noteq> 0 then False else ev_mask_empty_impl ws)"

definition ev_mask_set_impl :: "u64 list \<Rightarrow> u64 \<Rightarrow> u64 list option" where
  "ev_mask_set_impl m no = do {
     kassert (unat no < EV_NR_EVENT);
     let pos = unat (no div 64);
     let idx = unat (no mod 64);
     kassert (pos < EV_MAP_LEN);
     w \<leftarrow> arr_get m pos;
     arr_set m pos (w OR push_bit idx 1)
   }"

definition ev_mask_unset_impl :: "u64 list \<Rightarrow> u64 \<Rightarrow> u64 list option" where
  "ev_mask_unset_impl m no = do {
     kassert (unat no < EV_NR_EVENT);
     let pos = unat (no div 64);
     let idx = unat (no mod 64);
     kassert (pos < EV_MAP_LEN);
     w \<leftarrow> arr_get m pos;
     arr_set m pos (w AND NOT (push_bit idx 1))
   }"

definition ev_mask_clr :: "event_mask \<Rightarrow> event_mask" where
  "ev_mask_clr mk = mk\<lparr>map_words := event_map_clr_impl (map_words mk)\<rparr>"

definition ev_mask_fill :: "event_mask \<Rightarrow> event_mask option" where
  "ev_mask_fill mk = do {
     m \<leftarrow> ev_mask_unset_impl (event_map_fill_impl (map_words mk)) EV_SIG_KILL;
     Some (mk\<lparr>map_words := m\<rparr>)
   }"

definition ev_mask_test :: "event_mask \<Rightarrow> u64 \<Rightarrow> bool option" where
  "ev_mask_test mk no = do {
     kassert (unat no < EV_NR_EVENT);
     ev_mask_test_impl (map_words mk) no
   }"

definition ev_mask_empty :: "event_mask \<Rightarrow> bool" where
  "ev_mask_empty mk = ev_mask_empty_impl (map_words mk)"

definition ev_mask_set :: "event_mask \<Rightarrow> u64 \<Rightarrow> event_mask option" where
  "ev_mask_set mk no = do {
     kassert (unat no < EV_NR_EVENT);
     if no = EV_SIG_KILL then Some mk
     else do {
       m \<leftarrow> ev_mask_set_impl (map_words mk) no;
       Some (mk\<lparr>map_words := m\<rparr>)
     }
   }"

definition ev_mask_unset :: "event_mask \<Rightarrow> u64 \<Rightarrow> event_mask option" where
  "ev_mask_unset mk no = do {
     kassert (unat no < EV_NR_EVENT);
     m \<leftarrow> ev_mask_unset_impl (map_words mk) no;
     Some (mk\<lparr>map_words := m\<rparr>)
   }"

text \<open>The two nested loops of \<open>ev_mask_find_first_bit\<close>: bits \<open>j\<close>, \<open>j + 1\<close>, \<dots> of one word, then the words.\<close>

function find_bit_from :: "u64 \<Rightarrow> nat \<Rightarrow> nat option" where
  "find_bit_from w j = (if j < 64 then (if w AND push_bit j 1 \<noteq> 0 then Some j else find_bit_from w (Suc j)) else None)"
  by pat_completeness auto
termination by (relation "measure (\<lambda>(_, j). 64 - j)") auto

declare find_bit_from.simps [simp del]

fun find_word_from :: "u64 list \<Rightarrow> nat \<Rightarrow> nat option" where
  "find_word_from [] i = None"
| "find_word_from (w # ws) i =
     (case find_bit_from w 0 of Some j \<Rightarrow> Some (i * 64 + j) | None \<Rightarrow> find_word_from ws (Suc i))"

definition ev_mask_find_first_bit :: "event_mask \<Rightarrow> int \<times> u64 option" where
  "ev_mask_find_first_bit mk =
     (case find_word_from (map_words mk) 0 of
        Some n \<Rightarrow> (0, Some (of_nat n))
      | None \<Rightarrow> (- ENOENT, None))"

definition ev_mask_xor :: "event_mask \<Rightarrow> event_mask \<Rightarrow> event_mask" where
  "ev_mask_xor m1 m2 = \<lparr>map_words = map2 (XOR) (map_words m1) (map_words m2)\<rparr>"

definition ev_mask_and :: "event_mask \<Rightarrow> event_mask \<Rightarrow> event_mask" where
  "ev_mask_and m1 m2 = \<lparr>map_words = map2 (AND) (map_words m1) (map_words m2)\<rparr>"

section \<open>Masks as sets of event numbers\<close>

definition mask_ok :: "event_mask \<Rightarrow> bool" where
  "mask_ok mk \<longleftrightarrow> length (map_words mk) = EV_MAP_LEN"

definition ev_set :: "event_mask \<Rightarrow> nat set" where
  "ev_set mk = {n. n < EV_NR_EVENT \<and> bit (map_words mk ! (n div 64)) (n mod 64)}"

lemma and_push_ne_0:
  fixes w :: u64
  assumes "k < 64"
  shows "w AND push_bit k 1 \<noteq> 0 \<longleftrightarrow> bit w k"
proof -
  have *: "w AND push_bit k 1 = (if bit w k then push_bit k 1 else 0)"
    by (rule bit_eqI) (auto simp: bit_and_iff bit_exp_iff)
  have "bit (push_bit k (1 :: u64)) k" using assms by (simp add: bit_exp_iff)
  moreover have "\<not> bit (0 :: u64) k" by simp
  ultimately have "push_bit k (1 :: u64) \<noteq> 0" by metis
  with * show ?thesis by auto
qed

lemma pos_idx:
  fixes no :: u64
  shows "unat (no div 64) = unat no div 64" "unat (no mod 64) = unat no mod 64"
  by (simp_all add: unat_div unat_mod)

lemma nth_lt: "mask_ok mk \<Longrightarrow> n < EV_NR_EVENT \<Longrightarrow> n div 64 < length (map_words mk)"
  by (simp add: mask_ok_def)

lemma ev_mask_test_eq:
  assumes "mask_ok mk" and "unat no < EV_NR_EVENT"
  shows "ev_mask_test mk no = Some (unat no \<in> ev_set mk)"
  using assms nth_lt [OF assms]
  by (simp add: ev_mask_test_def ev_mask_test_impl_def ev_set_def pos_idx mask_ok_def
      and_push_ne_0 del: push_bit_of_1)

lemma ev_mask_set_eq:
  assumes "mask_ok mk" and "unat no < EV_NR_EVENT"
  shows "\<exists>mk'. ev_mask_set mk no = Some mk' \<and> mask_ok mk' \<and>
    ev_set mk' = (if no = EV_SIG_KILL then ev_set mk else insert (unat no) (ev_set mk))"
proof (cases "no = EV_SIG_KILL")
  case False
  let ?n = "unat no"
  define mk' where "mk' = mk\<lparr>map_words := (map_words mk)[?n div 64 := map_words mk ! (?n div 64) OR push_bit (?n mod 64) 1]\<rparr>"
  have "ev_mask_set mk no = Some mk'"
    using False assms nth_lt [OF assms]
    by (simp add: ev_mask_set_def ev_mask_set_impl_def pos_idx mask_ok_def mk'_def Let_def)
  moreover have "ev_set mk' = insert ?n (ev_set mk)"
    using assms nth_lt [OF assms]
    by (auto simp: ev_set_def mk'_def nth_list_update bit_or_push split: if_splits intro: div_mod_inj)
      (metis div_mod_inj)
  ultimately show ?thesis using False assms(1) by (auto simp: mask_ok_def mk'_def)
qed (use assms in \<open>simp add: ev_mask_set_def\<close>)

lemma ev_mask_unset_impl_eq:
  assumes "mask_ok mk" and "unat no < EV_NR_EVENT"
  shows "\<exists>m. ev_mask_unset_impl (map_words mk) no = Some m \<and> mask_ok (mk\<lparr>map_words := m\<rparr>) \<and>
    ev_set (mk\<lparr>map_words := m\<rparr>) = ev_set mk - {unat no}"
proof -
  let ?n = "unat no"
  define m where "m = (map_words mk)[?n div 64 := map_words mk ! (?n div 64) AND NOT (push_bit (?n mod 64) 1)]"
  have "ev_mask_unset_impl (map_words mk) no = Some m"
    using assms nth_lt [OF assms] by (simp add: ev_mask_unset_impl_def pos_idx mask_ok_def m_def Let_def)
  moreover have "ev_set (mk\<lparr>map_words := m\<rparr>) = ev_set mk - {?n}"
    using assms nth_lt [OF assms]
    by (auto simp: ev_set_def m_def nth_list_update bit_and_not_push split: if_splits)
      (metis div_mod_inj)
  ultimately show ?thesis using assms(1) by (auto simp: mask_ok_def m_def)
qed

lemma ev_mask_unset_eq:
  assumes "mask_ok mk" and "unat no < EV_NR_EVENT"
  shows "\<exists>mk'. ev_mask_unset mk no = Some mk' \<and> mask_ok mk' \<and> ev_set mk' = ev_set mk - {unat no}"
  using ev_mask_unset_impl_eq [OF assms] assms(2) by (auto simp: ev_mask_unset_def)

lemma ev_mask_clr_eq: "mask_ok mk \<Longrightarrow> mask_ok (ev_mask_clr mk) \<and> ev_set (ev_mask_clr mk) = {}"
  by (auto simp: mask_ok_def ev_mask_clr_def event_map_clr_impl_def ev_set_def)

lemma ev_mask_fill_eq:
  assumes "mask_ok mk"
  shows "\<exists>mk'. ev_mask_fill mk = Some mk' \<and> mask_ok mk' \<and> ev_set mk' = {..<EV_NR_EVENT} - {unat EV_SIG_KILL}"
proof -
  define mf where "mf = mk\<lparr>map_words := event_map_fill_impl (map_words mk)\<rparr>"
  have "mask_ok mf" using assms by (simp add: mask_ok_def mf_def event_map_fill_impl_def)
  moreover have "ev_set mf = {..<EV_NR_EVENT}"
    using assms by (auto simp: ev_set_def mf_def event_map_fill_impl_def mask_ok_def)
  ultimately show ?thesis
    using ev_mask_unset_impl_eq [of mf EV_SIG_KILL] by (auto simp: ev_mask_fill_def mf_def)
qed

lemma ev_mask_empty_impl_iff: "ev_mask_empty_impl ws \<longleftrightarrow> (\<forall>w \<in> set ws. w = 0)"
  by (induction ws) auto

lemma word_0_iff: "w = 0 \<longleftrightarrow> (\<forall>j < 64. \<not> bit w j)" for w :: u64
  by (auto intro: bit_word_eqI)

lemma ev_mask_empty_eq:
  assumes "mask_ok mk"
  shows "ev_mask_empty mk \<longleftrightarrow> ev_set mk = {}"
proof -
  have "(\<forall>w \<in> set (map_words mk). w = 0) \<longleftrightarrow> (\<forall>i < EV_MAP_LEN. \<forall>j < 64. \<not> bit (map_words mk ! i) j)"
    using assms by (simp add: mask_ok_def all_set_conv_all_nth word_0_iff)
  also have "\<dots> \<longleftrightarrow> (\<forall>n < EV_NR_EVENT. \<not> bit (map_words mk ! (n div 64)) (n mod 64))"
  proof (intro iffI allI impI)
    fix i j :: nat assume *: "\<forall>n < EV_NR_EVENT. \<not> bit (map_words mk ! (n div 64)) (n mod 64)" and "i < EV_MAP_LEN" "j < 64"
    then have "i * 64 + j < EV_NR_EVENT" by simp
    with * \<open>j < 64\<close> show "\<not> bit (map_words mk ! i) j" by fastforce
  qed auto
  finally show ?thesis by (simp add: ev_mask_empty_def ev_mask_empty_impl_iff ev_set_def)
qed

lemma find_bit_from_eq:
  "find_bit_from w j = (if \<exists>k. j \<le> k \<and> k < 64 \<and> bit w k then Some (LEAST k. j \<le> k \<and> bit w k) else None)"
proof (induction w j rule: find_bit_from.induct)
  case (1 w j)
  show ?case
  proof (cases "j < 64 \<and> \<not> bit w j")
    case True
    then have "find_bit_from w j = find_bit_from w (Suc j)"
      by (simp add: find_bit_from.simps [of w j] and_push_ne_0 del: push_bit_of_1)
    moreover have "(\<lambda>k. j \<le> k \<and> bit w k) = (\<lambda>k. Suc j \<le> k \<and> bit w k)"
      using True by (metis Suc_le_eq le_neq_implies_less less_imp_le)
    moreover have "(\<exists>k. j \<le> k \<and> k < 64 \<and> bit w k) \<longleftrightarrow> (\<exists>k. Suc j \<le> k \<and> k < 64 \<and> bit w k)"
      using True by (metis Suc_le_eq le_neq_implies_less less_imp_le)
    moreover have "find_bit_from w (Suc j) =
        (if \<exists>k. Suc j \<le> k \<and> k < 64 \<and> bit w k then Some (LEAST k. Suc j \<le> k \<and> bit w k) else None)"
      by (rule 1) (use True in \<open>simp_all add: and_push_ne_0 del: push_bit_of_1\<close>)
    ultimately show ?thesis by (simp only:)
  next
    case False
    show ?thesis
    proof (cases "j < 64")
      case True
      with False have b: "bit w j" by simp
      then have "(LEAST k. j \<le> k \<and> bit w k) = j" by (intro Least_equality) auto
      moreover have "\<exists>k. j \<le> k \<and> k < 64 \<and> bit w k" using True b by blast
      ultimately show ?thesis
        using True b by (simp add: find_bit_from.simps [of w j] and_push_ne_0 del: push_bit_of_1)
    qed (simp add: find_bit_from.simps [of w j])
  qed
qed

lemma find_word_from_eq:
  "find_word_from ws i =
     (if \<exists>n < 64 * length ws. bit (ws ! (n div 64)) (n mod 64)
      then Some (i * 64 + (LEAST n. n < 64 * length ws \<and> bit (ws ! (n div 64)) (n mod 64))) else None)"
proof (induction ws arbitrary: i)
  case (Cons w ws)
  let ?P = "\<lambda>n. n < 64 * length (w # ws) \<and> bit ((w # ws) ! (n div 64)) (n mod 64)"
  let ?Q = "\<lambda>n. n < 64 * length ws \<and> bit (ws ! (n div 64)) (n mod 64)"
  have low: "?P n \<longleftrightarrow> bit w n" if "n < 64" for n using that by simp
  have high: "?P (n + 64) \<longleftrightarrow> ?Q n" for n by (simp add: div_add_self2)
  show ?case
  proof (cases "\<exists>k. 0 \<le> k \<and> k < 64 \<and> bit w k")
    case True
    then have ex: "\<exists>k. bit w k" and lt: "(LEAST k. bit w k) < 64"
      by (blast, metis Least_le le_less_trans)
    have "(LEAST n. ?P n) = (LEAST k. bit w k)"
    proof (rule Least_equality)
      show "?P (LEAST k. bit w k)" using low [OF lt] LeastI_ex [OF ex] by blast
      fix n assume "?P n"
      then show "(LEAST k. bit w k) \<le> n" using lt low [of n] Least_le [of "bit w" n] by (cases "n < 64") auto
    qed
    moreover have "\<exists>n. ?P n" using True low by blast
    ultimately show ?thesis using True find_bit_from_eq [of w 0] by simp
  next
    case False
    then have "find_bit_from w 0 = None" using find_bit_from_eq [of w 0] by auto
    then have step: "find_word_from (w # ws) i = find_word_from ws (Suc i)" by simp
    have geq: "64 \<le> n" if "?P n" for n using that low [of n] False by (metis not_le le0)
    have ex: "(\<exists>n. ?P n) \<longleftrightarrow> (\<exists>n. ?Q n)" using high geq by (metis le_add_diff_inverse2)
    show ?thesis
    proof (cases "\<exists>n. ?Q n")
      case True
      have "(LEAST n. ?P n) = (LEAST n. ?Q n) + 64"
      proof (rule Least_equality)
        show "?P ((LEAST n. ?Q n) + 64)" unfolding high by (rule LeastI_ex [OF True])
        fix n assume p: "?P n"
        then have "?Q (n - 64)" using high [of "n - 64"] geq [OF p] by simp
        then show "(LEAST n. ?Q n) + 64 \<le> n" using Least_le [of ?Q "n - 64"] geq [OF p] by linarith
      qed
      moreover have "find_word_from ws (Suc i) = Some (Suc i * 64 + (LEAST n. ?Q n))"
        using Cons.IH [of "Suc i"] True by (simp only: if_True)
      ultimately show ?thesis using step ex True by simp
    next
      case False
      then have "find_word_from ws (Suc i) = None" using Cons.IH [of "Suc i"] by (simp only: if_False)
      then show ?thesis using step ex False by (simp only: if_False)
    qed
  qed
qed simp

lemma ev_mask_find_first_bit_eq:
  assumes "mask_ok mk"
  shows "ev_mask_find_first_bit mk =
    (if ev_set mk = {} then (- ENOENT, None) else (0, Some (of_nat (LEAST n. n \<in> ev_set mk))))"
proof -
  have "64 * length (map_words mk) = EV_NR_EVENT" using assms by (simp add: mask_ok_def)
  then show ?thesis
    using find_word_from_eq [of "map_words mk" 0]
    by (auto simp: ev_mask_find_first_bit_def ev_set_def)
qed

lemma ev_mask_xor_ok: "mask_ok m1 \<Longrightarrow> mask_ok m2 \<Longrightarrow> mask_ok (ev_mask_xor m1 m2)"
  by (simp add: mask_ok_def ev_mask_xor_def)

lemma ev_mask_and_ok: "mask_ok m1 \<Longrightarrow> mask_ok m2 \<Longrightarrow> mask_ok (ev_mask_and m1 m2)"
  by (simp add: mask_ok_def ev_mask_and_def)

lemma ev_mask_xor_eq:
  assumes "mask_ok m1" and "mask_ok m2"
  shows "ev_set (ev_mask_xor m1 m2) = (ev_set m1 - ev_set m2) \<union> (ev_set m2 - ev_set m1)"
  using assms by (auto simp: ev_set_def ev_mask_xor_def mask_ok_def bit_xor_iff)

lemma ev_mask_and_eq:
  assumes "mask_ok m1" and "mask_ok m2"
  shows "ev_set (ev_mask_and m1 m2) = ev_set m1 \<inter> ev_set m2"
  using assms by (auto simp: ev_set_def ev_mask_and_def mask_ok_def bit_and_iff)

text \<open>Events and-ed with events xor-ed with masks: the pending events that are not masked.\<close>

lemma ev_mask_deliver:
  assumes "mask_ok ev" and "mask_ok ms"
  shows "ev_set (ev_mask_and ev (ev_mask_xor ev ms)) = ev_set ev - ev_set ms"
  using ev_mask_and_eq [OF assms(1) ev_mask_xor_ok [OF assms]] ev_mask_xor_eq [OF assms] by auto

section \<open>Properties\<close>

text \<open>
  Claim C32. Masks are sets of event numbers: \<open>ev_mask_test\<close> is membership, \<open>ev_mask_empty\<close>
  emptiness, \<open>ev_mask_unset\<close> removal, \<open>ev_mask_clr\<close> the empty set, the search for the first bit
  returns the least element or \<^verbatim>\<open>-ENOENT\<close>, \<open>ev_mask_and\<close> is the intersection, \<open>ev_mask_xor\<close> the
  symmetric difference, and
  \<open>events AND (events XOR masks)\<close>, with which the delivery of events is decided, is the set
  difference.  Adding is insertion for every event but \<^verbatim>\<open>EV_SIG_KILL\<close>, which can neither be
  added nor be in a filled mask.  No operation leaves its two words.
\<close>

theorem event_mask_refines_sets:
  assumes "mask_ok mk" and "mask_ok ms" and "unat no < EV_NR_EVENT"
  shows "ev_mask_test mk no = Some (unat no \<in> ev_set mk) \<and>
    (ev_mask_empty mk \<longleftrightarrow> ev_set mk = {}) \<and>
    (\<exists>mk'. ev_mask_set mk no = Some mk' \<and> mask_ok mk' \<and>
       ev_set mk' = (if no = EV_SIG_KILL then ev_set mk else insert (unat no) (ev_set mk))) \<and>
    (\<exists>mk'. ev_mask_unset mk no = Some mk' \<and> mask_ok mk' \<and> ev_set mk' = ev_set mk - {unat no}) \<and>
    (\<exists>mk'. ev_mask_fill mk = Some mk' \<and> mask_ok mk' \<and> ev_set mk' = {..<EV_NR_EVENT} - {unat EV_SIG_KILL}) \<and>
    mask_ok (ev_mask_clr mk) \<and> ev_set (ev_mask_clr mk) = {} \<and>
    ev_mask_find_first_bit mk =
      (if ev_set mk = {} then (- ENOENT, None) else (0, Some (of_nat (LEAST n. n \<in> ev_set mk)))) \<and>
    mask_ok (ev_mask_and mk ms) \<and> ev_set (ev_mask_and mk ms) = ev_set mk \<inter> ev_set ms \<and>
    mask_ok (ev_mask_xor mk ms) \<and> ev_set (ev_mask_xor mk ms) = (ev_set mk - ev_set ms) \<union> (ev_set ms - ev_set mk) \<and>
    mask_ok (ev_mask_and mk (ev_mask_xor mk ms)) \<and> ev_set (ev_mask_and mk (ev_mask_xor mk ms)) = ev_set mk - ev_set ms"
  using ev_mask_test_eq [OF assms(1,3)] ev_mask_empty_eq [OF assms(1)] ev_mask_set_eq [OF assms(1,3)]
    ev_mask_unset_eq [OF assms(1,3)] ev_mask_fill_eq [OF assms(1)] ev_mask_clr_eq [OF assms(1)]
    ev_mask_find_first_bit_eq [OF assms(1)] ev_mask_deliver [OF assms(1,2)]
    ev_mask_and_ok [OF assms(1) ev_mask_xor_ok [OF assms(1,2)]] ev_mask_and_ok [OF assms(1,2)] ev_mask_xor_ok [OF assms(1,2)]
    ev_mask_and_eq [OF assms(1,2)] ev_mask_xor_eq [OF assms(1,2)]
  by (intro conjI) simp_all

theorem event_mask_refines_sets_witness:
  "ev_mask_xor \<lparr>map_words = [5, 1]\<rparr> \<lparr>map_words = [6, 1]\<rparr> = \<lparr>map_words = [3, 0]\<rparr> \<and>
    ev_set (ev_mask_xor \<lparr>map_words = [5, 1]\<rparr> \<lparr>map_words = [6, 1]\<rparr>) =
      (ev_set \<lparr>map_words = [5, 1]\<rparr> - ev_set \<lparr>map_words = [6, 1]\<rparr>) \<union> (ev_set \<lparr>map_words = [6, 1]\<rparr> - ev_set \<lparr>map_words = [5, 1]\<rparr>) \<and>
    ev_mask_test \<lparr>map_words = [5, 1]\<rparr> 2 = Some (unat (2 :: u64) \<in> ev_set \<lparr>map_words = [5, 1]\<rparr>)"
proof -
  have "mask_ok \<lparr>map_words = [5, 1]\<rparr>" "mask_ok \<lparr>map_words = [6, 1]\<rparr>" by (simp_all add: mask_ok_def)
  then show ?thesis using event_mask_refines_sets [of "\<lparr>map_words = [5, 1]\<rparr>" "\<lparr>map_words = [6, 1]\<rparr>" 2]
    by (simp add: ev_mask_xor_def)
qed

end
