(* ===== verification/Event_Queue.thy ===== *)
theory Event_Queue
  imports Event_Mask
begin

text \<open>
  Event queues, the part of \<^verbatim>\<open>src/event/async-event.c\<close> that works on one queue, and the
  allocation of event nodes, \<^verbatim>\<open>src/event/event-alloc.c\<close>.  A queue keeps the pending
  numbers in the mask \<open>events\<close> and one list of nodes per number.  A node is its address and
  its content; \<open>kfree\<close> of a node shows in the list of addresses a function releases.
\<close>

section \<open>Data\<close>

record evinfo =
  ev_flags :: u32
  ev_no :: u64
  ev_err :: int
  ev_code :: int
  ev_trap :: int
  sender_id :: u64
  ev_status :: u64
  ev_utime :: u64
  ev_stime :: u64
  ev_addr :: u64
  ev_data :: u64
  data_siz :: u64

record event_node =
  node_addr :: nat
  info :: evinfo

record event_queue =
  events :: event_mask
  masks :: event_mask
  que :: "event_node list list"

abbreviation EV_FLAGS_THREAD_SPECIFIC :: u32 where "EV_FLAGS_THREAD_SPECIFIC \<equiv> 1"
abbreviation EV_SIG_SI_USER :: int where "EV_SIG_SI_USER \<equiv> 0"
abbreviation EV_SIG_SI_KERNEL :: int where "EV_SIG_SI_KERNEL \<equiv> 1"

definition zero_evinfo :: evinfo where
  "zero_evinfo = \<lparr>ev_flags = 0, ev_no = 0, ev_err = 0, ev_code = 0, ev_trap = 0, sender_id = 0, ev_status = 0,
     ev_utime = 0, ev_stime = 0, ev_addr = 0, ev_data = 0, data_siz = 0\<rparr>"

section \<open>Operations\<close>

text \<open>\<open>addr\<close> is what \<open>kmalloc\<close> returns, \<open>None\<close> for its null pointer.\<close>

definition ev_alloc_node :: "nat option \<Rightarrow> bool \<Rightarrow> u64 \<Rightarrow> int \<times> event_node option" where
  "ev_alloc_node addr in_kernel no =
     (case addr of
        None \<Rightarrow> (- ENOMEM, None)
      | Some a \<Rightarrow> (0, Some \<lparr>node_addr = a, info = zero_evinfo\<lparr>ev_no := no,
          ev_code := (if in_kernel then EV_SIG_SI_KERNEL else EV_SIG_SI_USER)\<rparr>\<rparr>))"

definition ev_queue_init :: event_queue where
  "ev_queue_init = \<lparr>events = \<lparr>map_words = replicate EV_MAP_LEN 0\<rparr>, masks = \<lparr>map_words = replicate EV_MAP_LEN 0\<rparr>,
     que = replicate EV_NR_EVENT []\<rparr>"

text \<open>Every node of every list is unlinked and freed; the masks are not touched.\<close>

definition ev_free_pending_events :: "event_queue \<Rightarrow> nat list \<times> event_queue" where
  "ev_free_pending_events q = (map node_addr (concat (que q)), q\<lparr>que := map (\<lambda>_. []) (que q)\<rparr>)"

text \<open>\<open>queue_add\<close> of a node to the list of its number.\<close>

definition ev_que_add :: "event_queue \<Rightarrow> event_node \<Rightarrow> event_queue option" where
  "ev_que_add q node = do {
     let no = unat (ev_no (info node));
     ns \<leftarrow> arr_get (que q) no;
     Some (q\<lparr>que := (que q)[no := ns @ [node]]\<rparr>)
   }"

text \<open>
  \<open>cur_masks\<close> are the masks of the current thread, which decide for the queue of its process too.
\<close>

definition dequeue_from_evque_nolock ::
  "event_mask \<Rightarrow> event_queue \<Rightarrow> (int \<times> event_node option \<times> event_queue) option" where
  "dequeue_from_evque_nolock cur_masks q = do {
     let tmp = ev_mask_xor (events q) cur_masks;
     let deliver = ev_mask_and (events q) tmp;
     let (rc, no) = ev_mask_find_first_bit deliver;
     if rc \<noteq> 0 then Some (rc, None, q)
     else do {
       no \<leftarrow> no;
       kassert (unat no < EV_NR_EVENT);
       ns \<leftarrow> arr_get (que q) (unat no);
       kassert (ns \<noteq> []);
       let q = q\<lparr>que := (que q)[unat no := tl ns]\<rparr>;
       if tl ns = [] then do {
         ev \<leftarrow> ev_mask_unset (events q) no;
         Some (0, Some (hd ns), q\<lparr>events := ev\<rparr>)
       } else Some (0, Some (hd ns), q)
     }
   }"

section \<open>Well-formed queues\<close>

text \<open>
  Each list holds only nodes of its own number, and every number marked pending has a node.
  Only an event that cannot be marked, \<^verbatim>\<open>EV_SIG_KILL\<close>, may have nodes without being marked.
\<close>

definition evq_ok :: "event_queue \<Rightarrow> bool" where
  "evq_ok q \<longleftrightarrow> mask_ok (events q) \<and> mask_ok (masks q) \<and> length (que q) = EV_NR_EVENT \<and>
     (\<forall>n < EV_NR_EVENT. (\<forall>x \<in> set (que q ! n). unat (ev_no (info x)) = n) \<and>
        (n \<in> ev_set (events q) \<longrightarrow> que q ! n \<noteq> []) \<and>
        (que q ! n \<noteq> [] \<longrightarrow> n \<in> ev_set (events q) \<or> n = unat EV_SIG_KILL))"

lemma ev_queue_init_ok: "evq_ok ev_queue_init"
  by (auto simp: evq_ok_def ev_queue_init_def mask_ok_def ev_set_def less_Suc_eq)

lemma ev_set_lt: "n \<in> ev_set mk \<Longrightarrow> n < EV_NR_EVENT"
  by (simp add: ev_set_def)

text \<open>The common part of posting an event: mark it pending and append the node.\<close>

lemma post_ok:
  assumes Q: "evq_ok q" and no: "unat (ev_no (info node)) < EV_NR_EVENT"
  shows "\<exists>ev q'. ev_mask_set (events q) (ev_no (info node)) = Some ev \<and> ev_que_add (q\<lparr>events := ev\<rparr>) node = Some q' \<and>
    evq_ok q' \<and> masks q' = masks q \<and>
    que q' = (que q)[unat (ev_no (info node)) := que q ! unat (ev_no (info node)) @ [node]] \<and>
    ev_set (events q') = (if ev_no (info node) = EV_SIG_KILL then ev_set (events q)
      else insert (unat (ev_no (info node))) (ev_set (events q)))"
proof -
  let ?no = "ev_no (info node)" and ?n = "unat (ev_no (info node))"
  from Q have ok: "mask_ok (events q)" "length (que q) = EV_NR_EVENT" by (auto simp: evq_ok_def)
  from ev_mask_set_eq [OF ok(1) no] obtain ev where
    ev: "ev_mask_set (events q) ?no = Some ev" "mask_ok ev"
      "ev_set ev = (if ?no = EV_SIG_KILL then ev_set (events q) else insert ?n (ev_set (events q)))" by blast
  define q' where "q' = q\<lparr>events := ev, que := (que q)[?n := que q ! ?n @ [node]]\<rparr>"
  have "ev_que_add (q\<lparr>events := ev\<rparr>) node = Some q'"
    using no ok(2) by (simp add: ev_que_add_def q'_def Let_def)
  moreover have "evq_ok q'"
    unfolding evq_ok_def
  proof (intro conjI allI impI)
    fix n assume n: "n < EV_NR_EVENT"
    have kill: "?no = EV_SIG_KILL \<Longrightarrow> ?n = unat EV_SIG_KILL" by simp
    from Q n have q: "\<forall>x \<in> set (que q ! n). unat (ev_no (info x)) = n" "n \<in> ev_set (events q) \<longrightarrow> que q ! n \<noteq> []"
      "que q ! n \<noteq> [] \<longrightarrow> n \<in> ev_set (events q) \<or> n = unat EV_SIG_KILL" by (auto simp: evq_ok_def)
    show "\<forall>x \<in> set (que q' ! n). unat (ev_no (info x)) = n" 
      using q(1) no ok(2) by (cases "n = ?n") (auto simp: q'_def)
    show "que q' ! n \<noteq> []" if "n \<in> ev_set (events q')"
      using that q(2) no ok(2) ev(3) by (cases "n = ?n") (auto simp: q'_def split: if_splits)
    show "n \<in> ev_set (events q') \<or> n = unat EV_SIG_KILL" if "que q' ! n \<noteq> []"
      using that q(3) no ok(2) ev(3) kill by (cases "n = ?n") (auto simp: q'_def)
  qed (use Q ev in \<open>auto simp: evq_ok_def q'_def\<close>)
  ultimately show ?thesis using ev by (auto simp: q'_def)
qed

text \<open>
  What \<open>dequeue_from_evque_nolock\<close> returns: the oldest node of the lowest pending number that
  the masks let through, or \<^verbatim>\<open>-ENOENT\<close> when every pending event is masked.
\<close>

lemma dequeue_ok:
  assumes Q: "evq_ok q" and ms: "mask_ok ms"
  defines "D \<equiv> ev_set (events q) - ev_set ms"
  shows "(D = {} \<and> dequeue_from_evque_nolock ms q = Some (- ENOENT, None, q)) \<or>
    (\<exists>n x xs q'. n \<in> D \<and> (\<forall>m \<in> D. n \<le> m) \<and> que q ! n = x # xs \<and>
       dequeue_from_evque_nolock ms q = Some (0, Some x, q') \<and> evq_ok q' \<and> que q' = (que q)[n := xs] \<and>
       masks q' = masks q \<and> ev_set (events q') = (if xs = [] then ev_set (events q) - {n} else ev_set (events q)))"
proof -
  from Q have ok: "mask_ok (events q)" "length (que q) = EV_NR_EVENT" by (auto simp: evq_ok_def)
  define dl where "dl = ev_mask_and (events q) (ev_mask_xor (events q) ms)"
  have dl: "mask_ok dl" "ev_set dl = D"
    using ev_mask_deliver [OF ok(1) ms] ev_mask_and_ok [OF ok(1) ev_mask_xor_ok [OF ok(1) ms]]
    by (simp_all add: dl_def D_def)
  note ff = ev_mask_find_first_bit_eq [OF dl(1), unfolded dl(2)]
  show ?thesis
  proof (cases "D = {}")
    case True
    then have "dequeue_from_evque_nolock ms q = Some (- ENOENT, None, q)"
      using ff by (simp add: dequeue_from_evque_nolock_def dl_def [symmetric] Let_def)
    with True show ?thesis by blast
  next
    case False
    define n where "n = (LEAST n. n \<in> D)"
    have nD: "n \<in> D" using False LeastI_ex [of "\<lambda>n. n \<in> D"] by (auto simp: n_def)
    have least: "\<forall>m \<in> D. n \<le> m" by (simp add: n_def Least_le)
    have n: "n < EV_NR_EVENT" "n \<in> ev_set (events q)" using nD ev_set_lt by (auto simp: D_def)
    then have un: "unat (of_nat n :: u64) = n" by (simp add: unat_of_nat)
    from Q n have "que q ! n \<noteq> []" by (auto simp: evq_ok_def)
    then obtain x xs where xs: "que q ! n = x # xs" by (cases "que q ! n") auto
    define q1 where "q1 = q\<lparr>que := (que q)[n := xs]\<rparr>"
    have Qn: "\<forall>y \<in> set (que q ! m). unat (ev_no (info y)) = m" "m \<in> ev_set (events q) \<longrightarrow> que q ! m \<noteq> []"
      "que q ! m \<noteq> [] \<longrightarrow> m \<in> ev_set (events q) \<or> m = unat EV_SIG_KILL" if "m < EV_NR_EVENT" for m
      using Q that by (auto simp: evq_ok_def)
    have lists: "\<forall>y \<in> set ((que q)[n := xs] ! m). unat (ev_no (info y)) = m" if "m < EV_NR_EVENT" for m
      using Qn(1) [OF that] n(1) ok(2) xs by (cases "m = n") auto
    obtain ev where ev: "ev_mask_unset (events q) (of_nat n) = Some ev" "mask_ok ev" "ev_set ev = ev_set (events q) - {n}"
      using ev_mask_unset_eq [OF ok(1), of "of_nat n"] n(1) un by auto
    define q' where "q' = (if xs = [] then q1\<lparr>events := ev\<rparr> else q1)"
    have "dequeue_from_evque_nolock ms q = Some (0, Some x, q')"
      using ff False un n(1) ok(2) xs ev(1)
      by (simp add: dequeue_from_evque_nolock_def dl_def [symmetric] Let_def n_def [symmetric] q1_def q'_def)
    moreover have "evq_ok q'"
      unfolding evq_ok_def
    proof (intro conjI allI impI)
      fix m assume m: "m < EV_NR_EVENT"
      show "\<forall>y \<in> set (que q' ! m). unat (ev_no (info y)) = m" using lists [OF m] by (simp add: q'_def q1_def)
      show "que q' ! m \<noteq> []" if "m \<in> ev_set (events q')"
        using that Qn(2) [OF m] n ok(2) ev(3) by (cases "m = n") (auto simp: q'_def q1_def split: if_splits)
      show "m \<in> ev_set (events q') \<or> m = unat EV_SIG_KILL" if "que q' ! m \<noteq> []"
        using that Qn(3) [OF m] n ok(2) ev(3) by (cases "m = n") (auto simp: q'_def q1_def split: if_splits)
    qed (use Q ev in \<open>auto simp: evq_ok_def q'_def q1_def\<close>)
    moreover have "que q' = (que q)[n := xs]" "masks q' = masks q"
      "ev_set (events q') = (if xs = [] then ev_set (events q) - {n} else ev_set (events q))"
      using ev(3) by (simp_all add: q'_def q1_def)
    ultimately show ?thesis using nD least xs by blast
  qed
qed

section \<open>Properties\<close>

text \<open>
  Taking an event from a well-formed queue always returns.  If some pending event is
  not masked, the oldest node of the lowest such number is returned, exactly this node
  leaves the queue, and the number stays marked pending as long as nodes are left; else
  the result is \<^verbatim>\<open>-ENOENT\<close> and nothing changes.
\<close>

theorem evque_dequeue_spec:
  assumes "evq_ok q" and "mask_ok ms"
  shows "(ev_set (events q) - ev_set ms = {} \<and> dequeue_from_evque_nolock ms q = Some (- ENOENT, None, q)) \<or>
    (\<exists>n x xs q'. n \<in> ev_set (events q) - ev_set ms \<and> (\<forall>m \<in> ev_set (events q) - ev_set ms. n \<le> m) \<and>
       que q ! n = x # xs \<and> dequeue_from_evque_nolock ms q = Some (0, Some x, q') \<and> evq_ok q' \<and>
       que q' = (que q)[n := xs] \<and> masks q' = masks q \<and>
       ev_set (events q') = (if xs = [] then ev_set (events q) - {n} else ev_set (events q)))"
  using dequeue_ok [OF assms] .

theorem evque_dequeue_spec_witness:
  "dequeue_from_evque_nolock \<lparr>map_words = [0, 0]\<rparr> ev_queue_init = Some (- ENOENT, None, ev_queue_init)"
proof -
  have e: "ev_set (events ev_queue_init) = {}" by (auto simp: ev_queue_init_def ev_set_def less_Suc_eq)
  have m: "mask_ok \<lparr>map_words = [0, 0]\<rparr>" by (simp add: mask_ok_def)
  show ?thesis using evque_dequeue_spec [OF ev_queue_init_ok m] e by simp
qed

text \<open>
  A kill event that is posted to a queue is never delivered: \<open>ev_mask_set\<close> ignores
  \<^verbatim>\<open>EV_SIG_KILL\<close>, so the node is appended to its list but not marked pending, and no
  \<open>dequeue_from_evque_nolock\<close>, whatever the masks, returns it.
\<close>

theorem kill_event_never_delivered:
  assumes "evq_ok q" and "unat EV_SIG_KILL \<notin> ev_set (events q)" and "ev_no (info node) = EV_SIG_KILL" and "mask_ok ms"
  shows "\<exists>ev q'. ev_mask_set (events q) (ev_no (info node)) = Some ev \<and> ev_que_add (q\<lparr>events := ev\<rparr>) node = Some q' \<and>
    node \<in> set (que q' ! unat EV_SIG_KILL) \<and> ev_set (events q') = ev_set (events q) \<and>
    (\<forall>rc x q''. dequeue_from_evque_nolock ms q' = Some (rc, Some x, q'') \<longrightarrow> ev_no (info x) \<noteq> EV_SIG_KILL)"
proof -
  have no: "unat (ev_no (info node)) < EV_NR_EVENT" using assms(3) by simp
  from post_ok [OF assms(1) no] assms(3) obtain ev q' where
    p: "ev_mask_set (events q) (ev_no (info node)) = Some ev" "ev_que_add (q\<lparr>events := ev\<rparr>) node = Some q'" "evq_ok q'"
      "que q' = (que q)[unat EV_SIG_KILL := que q ! unat EV_SIG_KILL @ [node]]" "ev_set (events q') = ev_set (events q)"
    by auto
  have "length (que q) = EV_NR_EVENT" using assms(1) by (simp add: evq_ok_def)
  then have "node \<in> set (que q' ! unat EV_SIG_KILL)" using p(4) by simp
  moreover have "ev_no (info x) \<noteq> EV_SIG_KILL" if d: "dequeue_from_evque_nolock ms q' = Some (rc, Some x, q'')" for rc x q''
  proof -
    from dequeue_ok [OF p(3) assms(4)] d obtain n xs where
      n: "n \<in> ev_set (events q') - ev_set ms" "que q' ! n = x # xs" by auto
    then have "unat (ev_no (info x)) = n" using p(3) ev_set_lt [of n] by (auto simp: evq_ok_def)
    then show ?thesis using n(1) p(5) assms(2) by auto
  qed
  ultimately show ?thesis using p by blast
qed

theorem kill_event_never_delivered_witness:
  "\<exists>ev q'. ev_mask_set (events ev_queue_init) (ev_no (info \<lparr>node_addr = 1, info = zero_evinfo\<lparr>ev_no := 9\<rparr>\<rparr>)) = Some ev \<and>
    ev_que_add (ev_queue_init\<lparr>events := ev\<rparr>) \<lparr>node_addr = 1, info = zero_evinfo\<lparr>ev_no := 9\<rparr>\<rparr> = Some q' \<and>
    \<lparr>node_addr = 1, info = zero_evinfo\<lparr>ev_no := 9\<rparr>\<rparr> \<in> set (que q' ! unat EV_SIG_KILL) \<and>
    ev_set (events q') = ev_set (events ev_queue_init) \<and>
    (\<forall>rc x q''. dequeue_from_evque_nolock \<lparr>map_words = [0, 0]\<rparr> q' = Some (rc, Some x, q'') \<longrightarrow> ev_no (info x) \<noteq> EV_SIG_KILL)"
  by (rule kill_event_never_delivered)
    (simp_all add: ev_queue_init_ok mask_ok_def, simp add: ev_queue_init_def ev_set_def)

end
