(* ===== verification/Sched.thy ===== *)
theory Sched
  imports Thread_Info Event_Queue
begin

text \<open>
  Threads and the scheduler: \<^verbatim>\<open>src/thr/thread-que.c\<close>, \<^verbatim>\<open>src/thr/thread-schedule.c\<close>,
  \<open>thr_yield\<close> of \<^verbatim>\<open>src/thr/thread.c\<close>, and the types of
  \<^verbatim>\<open>src/include/kern/thread.h\<close>, \<^verbatim>\<open>thread-state.h\<close> and \<^verbatim>\<open>proc.h\<close> they share with the
  event and synchronisation code.

  A thread is named by its address.  \<open>threads\<close> gives the content of every address; the
  field \<open>current\<close> stands for the macro of that name, so a context switch changes it.  The
  register and address space switch of the HAL is not modelled.
\<close>

section \<open>Threads\<close>

datatype thr_state =
  THR_TSTATE_FREE | THR_TSTATE_DORMANT | THR_TSTATE_READY | THR_TSTATE_RUN | THR_TSTATE_WAIT |
  THR_TSTATE_WAIT_KILLABLE | THR_TSTATE_WAIT_INTR | THR_TSTATE_EXIT

datatype thread_type = THR_TYPE_NONE | THR_TYPE_KERNEL | THR_TYPE_USER

record thread =
  status :: thr_state
  tid :: u64
  prio :: u32
  slice :: u32
  cur_slice :: u32
  thr_type :: thread_type
  thr_ti :: thread_info
  thr_p :: nat
  evque :: event_queue

record proc =
  p_evque :: event_queue
  p_threads :: "nat list"
  p_master :: nat

record thread_queue =
  tq_que :: "nat list"
  tq_cnt :: u64

record kernel =
  threads :: "nat \<Rightarrow> thread"
  procs :: "nat \<Rightarrow> proc"
  thr_created_tree :: "u64 \<Rightarrow> nat option"
  ready_queues :: "thread_queue list"
  running_thread :: "nat option"
  current :: nat
  idle_thread :: nat

abbreviation THR_MAX_PRIO :: nat where "THR_MAX_PRIO \<equiv> 32"

definition valid_wait_status :: "thr_state \<Rightarrow> bool" where
  "valid_wait_status st \<longleftrightarrow> st = THR_TSTATE_WAIT \<or> st = THR_TSTATE_WAIT_KILLABLE \<or> st = THR_TSTATE_WAIT_INTR"

definition thr_wait_killable :: "thread \<Rightarrow> bool" where
  "thr_wait_killable t \<longleftrightarrow> status t = THR_TSTATE_WAIT_KILLABLE"

definition thr_wait_intr :: "thread \<Rightarrow> bool" where
  "thr_wait_intr t \<longleftrightarrow> thr_wait_killable t \<or> status t = THR_TSTATE_WAIT_INTR"

definition thr_in_wait :: "thread \<Rightarrow> bool" where
  "thr_in_wait t \<longleftrightarrow> status t = THR_TSTATE_WAIT \<or> thr_wait_intr t"

definition upd_thread :: "'a kernel_scheme \<Rightarrow> nat \<Rightarrow> (thread \<Rightarrow> thread) \<Rightarrow> 'a kernel_scheme" where
  "upd_thread s t f = s\<lparr>threads := (threads s)(t := f (threads s t))\<rparr>"

section \<open>Thread queues\<close>

text \<open>Each function returns the new count as well, as the code does.\<close>

definition tq_init :: thread_queue where
  "tq_init = \<lparr>tq_que = [], tq_cnt = 0\<rparr>"

definition tq_add :: "thread_queue \<Rightarrow> nat \<Rightarrow> u64 \<times> thread_queue" where
  "tq_add q t = (let q = q\<lparr>tq_que := tq_que q @ [t], tq_cnt := tq_cnt q + 1\<rparr> in (tq_cnt q, q))"

definition tq_del :: "thread_queue \<Rightarrow> nat \<Rightarrow> u64 \<times> thread_queue" where
  "tq_del q t = (let q = q\<lparr>tq_que := remove1 t (tq_que q), tq_cnt := tq_cnt q - 1\<rparr> in (tq_cnt q, q))"

definition tq_get_top :: "thread_queue \<Rightarrow> (u64 \<times> nat \<times> thread_queue) option" where
  "tq_get_top q = do {
     kassert (tq_que q \<noteq> []);
     let t = hd (tq_que q);
     let q = q\<lparr>tq_que := tl (tq_que q), tq_cnt := tq_cnt q - 1\<rparr>;
     Some (tq_cnt q, t, q)
   }"

definition tq_is_empty :: "thread_queue \<Rightarrow> bool" where
  "tq_is_empty q \<longleftrightarrow> tq_que q = []"

section \<open>The scheduler\<close>

definition ready_queue_get_top_nolock :: "'a kernel_scheme \<Rightarrow> nat \<Rightarrow> (nat \<times> 'a kernel_scheme) option" where
  "ready_queue_get_top_nolock s p = do {
     kassert (p < THR_MAX_PRIO);
     q \<leftarrow> arr_get (ready_queues s) p;
     (_, t, q) \<leftarrow> tq_get_top q;
     Some (t, s\<lparr>ready_queues := (ready_queues s)[p := q]\<rparr>)
   }"

definition ready_queue_add_nolock :: "'a kernel_scheme \<Rightarrow> nat \<Rightarrow> 'a kernel_scheme option" where
  "ready_queue_add_nolock s t = do {
     let p = unat (prio (threads s t));
     kassert (p < THR_MAX_PRIO);
     q \<leftarrow> arr_get (ready_queues s) p;
     Some (s\<lparr>ready_queues := (ready_queues s)[p := snd (tq_add q t)]\<rparr>)
   }"

definition ready_queue_is_empty_nolock :: "'a kernel_scheme \<Rightarrow> nat \<Rightarrow> bool option" where
  "ready_queue_is_empty_nolock s p = do {
     kassert (p < THR_MAX_PRIO);
     q \<leftarrow> arr_get (ready_queues s) p;
     Some (tq_is_empty q)
   }"

text \<open>The loop over the priorities, from \<open>n - 1\<close> down to 0.\<close>

fun next_thread_loop :: "'a kernel_scheme \<Rightarrow> nat \<Rightarrow> (nat \<times> 'a kernel_scheme) option" where
  "next_thread_loop s 0 = Some (idle_thread s, s)"
| "next_thread_loop s (Suc i) = do {
     e \<leftarrow> ready_queue_is_empty_nolock s i;
     if \<not> e then ready_queue_get_top_nolock s i else next_thread_loop s i
   }"

definition ready_queue_get_next_thread :: "'a kernel_scheme \<Rightarrow> (nat \<times> 'a kernel_scheme) option" where
  "ready_queue_get_next_thread s = next_thread_loop s THR_MAX_PRIO"

definition sched_switch_threads :: "'a kernel_scheme \<Rightarrow> nat \<Rightarrow> 'a kernel_scheme" where
  "sched_switch_threads s thr_next = (upd_thread s thr_next (status_update (\<lambda>_. THR_TSTATE_RUN)))\<lparr>current := thr_next\<rparr>"

definition sched_wakeup :: "'a kernel_scheme \<Rightarrow> nat \<Rightarrow> 'a kernel_scheme option" where
  "sched_wakeup s t = do {
     let thr = threads s t;
     kassert (thr_in_wait thr \<or> status thr = THR_TSTATE_READY \<or> status thr = THR_TSTATE_RUN \<or> status thr = THR_TSTATE_DORMANT);
     s \<leftarrow> (if thr_in_wait thr \<or> status thr = THR_TSTATE_DORMANT
           then ready_queue_add_nolock (upd_thread s t (status_update (\<lambda>_. THR_TSTATE_READY))) t
           else Some s);
     Some (upd_thread s (current s) (thr_ti_update ti_set_delay_dispatch))
   }"

definition sched_schedule :: "'a kernel_scheme \<Rightarrow> 'a kernel_scheme option" where
  "sched_schedule s = do {
     kassert (\<not> ti_dispatch_disabled (thr_ti (threads s (current s))));
     let s = upd_thread s (current s) (thr_ti_update (\<lambda>ti.
        let ti = ti_clr_thread_info ti in ti\<lparr>preempt := preempt ti AND NOT THR_PREEMPT_ACTIVE\<rparr>));
     if status (threads s (current s)) = THR_TSTATE_RUN then Some s
     else do {
       (thr_next, s) \<leftarrow> ready_queue_get_next_thread s;
       if thr_next = current s then Some s
       else do {
         s \<leftarrow> (if current s \<noteq> idle_thread s \<and>
                (status (threads s (current s)) = THR_TSTATE_RUN \<or> status (threads s (current s)) = THR_TSTATE_READY)
              then ready_queue_add_nolock (upd_thread s (current s) (status_update (\<lambda>_. THR_TSTATE_READY))) (current s)
              else Some s);
         let s = sched_switch_threads s thr_next;
         kassert (status (threads s (current s)) = THR_TSTATE_RUN);
         Some (s\<lparr>running_thread := Some (current s)\<rparr>)
       }
     }
   }"

definition sched_init_subsys :: "'a kernel_scheme \<Rightarrow> 'a kernel_scheme" where
  "sched_init_subsys s = s\<lparr>ready_queues := replicate THR_MAX_PRIO tq_init, running_thread := None\<rparr>"

definition thr_yield :: "'a kernel_scheme \<Rightarrow> 'a kernel_scheme option" where
  "thr_yield s = do {
     let s = upd_thread s (current s) (status_update (\<lambda>_. THR_TSTATE_READY));
     if ti_dispatch_disabled (thr_ti (threads s (current s)))
     then Some (upd_thread s (current s) (thr_ti_update ti_set_delay_dispatch))
     else sched_schedule s
   }"

section \<open>The scheduler invariant\<close>

definition rq :: "'a kernel_scheme \<Rightarrow> nat \<Rightarrow> nat list" where
  "rq s p = tq_que (ready_queues s ! p)"

text \<open>
  Ready queue \<open>p\<close> holds exactly the ready threads of priority \<open>p\<close>, once each, apart from the
  idle thread and the threads in \<open>X\<close>, which an operation has in hand.
\<close>

definition queues_hold :: "'a kernel_scheme \<Rightarrow> nat set \<Rightarrow> bool" where
  "queues_hold s X \<longleftrightarrow> length (ready_queues s) = THR_MAX_PRIO \<and> (\<forall>t. unat (prio (threads s t)) < THR_MAX_PRIO) \<and>
     (\<forall>p < THR_MAX_PRIO. distinct (rq s p) \<and> tq_cnt (ready_queues s ! p) = of_nat (length (rq s p)) \<and>
        set (rq s p) = {t. status (threads s t) = THR_TSTATE_READY \<and> unat (prio (threads s t)) = p \<and> t \<notin> X \<and> t \<noteq> idle_thread s})"

definition sched_inv :: "'a kernel_scheme \<Rightarrow> bool" where
  "sched_inv s \<longleftrightarrow> queues_hold s {current s} \<and>
     (status (threads s (idle_thread s)) = THR_TSTATE_READY \<or> status (threads s (idle_thread s)) = THR_TSTATE_RUN)"

lemma upd_thread_simps [simp]:
  "ready_queues (upd_thread s t f) = ready_queues s"
  "current (upd_thread s t f) = current s"
  "idle_thread (upd_thread s t f) = idle_thread s"
  "threads (upd_thread s t f) = (threads s)(t := f (threads s t))"
  "procs (upd_thread s t f) = procs s"
  "thr_created_tree (upd_thread s t f) = thr_created_tree s"
  "rq (upd_thread s t f) p = rq s p"
  by (simp_all add: upd_thread_def rq_def)

text \<open>Only statuses, priorities and queues matter; a change of a thread in hand does not.\<close>

lemma queues_hold_cong:
  assumes "queues_hold s X" and "ready_queues s' = ready_queues s" and "idle_thread s' = idle_thread s"
    and "\<And>t. prio (threads s' t) = prio (threads s t)"
    and "\<And>t. t \<notin> X \<Longrightarrow> t \<noteq> idle_thread s \<Longrightarrow> status (threads s' t) = status (threads s t)"
  shows "queues_hold s' X"
proof -
  have "{t. status (threads s' t) = THR_TSTATE_READY \<and> unat (prio (threads s' t)) = p \<and> t \<notin> X \<and> t \<noteq> idle_thread s'} =
    {t. status (threads s t) = THR_TSTATE_READY \<and> unat (prio (threads s t)) = p \<and> t \<notin> X \<and> t \<noteq> idle_thread s}" for p
    using assms(3-5) by auto
  then show ?thesis using assms(1,2,4) by (simp add: queues_hold_def rq_def)
qed

lemma queues_hold_subset:
  assumes "queues_hold s X" and "Y \<subseteq> X"
    and "\<And>t. t \<in> X - Y \<Longrightarrow> t = idle_thread s \<or> status (threads s t) \<noteq> THR_TSTATE_READY"
  shows "queues_hold s Y"
proof -
  have "t \<notin> X \<longleftrightarrow> t \<notin> Y" if "t \<noteq> idle_thread s" "status (threads s t) = THR_TSTATE_READY" for t
    using assms(2,3) that by blast
  then have "{t. status (threads s t) = THR_TSTATE_READY \<and> unat (prio (threads s t)) = p \<and> t \<notin> X \<and> t \<noteq> idle_thread s} =
    {t. status (threads s t) = THR_TSTATE_READY \<and> unat (prio (threads s t)) = p \<and> t \<notin> Y \<and> t \<noteq> idle_thread s}" for p
    by blast
  then show ?thesis using assms(1) by (simp add: queues_hold_def)
qed

lemma queues_hold_insert:
  assumes "queues_hold s X" and "\<And>t. t \<in> Y \<Longrightarrow> t = idle_thread s \<or> status (threads s t) \<noteq> THR_TSTATE_READY"
  shows "queues_hold s (X \<union> Y)"
proof -
  have "{t. status (threads s t) = THR_TSTATE_READY \<and> unat (prio (threads s t)) = p \<and> t \<notin> X \<and> t \<noteq> idle_thread s} =
    {t. status (threads s t) = THR_TSTATE_READY \<and> unat (prio (threads s t)) = p \<and> t \<notin> X \<union> Y \<and> t \<noteq> idle_thread s}" for p
    using assms(2) by blast
  then show ?thesis using assms(1) by (simp add: queues_hold_def)
qed

lemma ready_queue_add_ok:
  assumes Q: "queues_hold s X" and t: "t \<in> X" "status (threads s t) = THR_TSTATE_READY" "t \<noteq> idle_thread s"
  defines "p \<equiv> unat (prio (threads s t))"
  shows "\<exists>q. ready_queue_add_nolock s t = Some (s\<lparr>ready_queues := (ready_queues s)[p := q]\<rparr>) \<and> tq_que q = rq s p @ [t] \<and>
    queues_hold (s\<lparr>ready_queues := (ready_queues s)[p := q]\<rparr>) (X - {t})"
proof -
  have p: "p < THR_MAX_PRIO" "length (ready_queues s) = THR_MAX_PRIO" using Q by (simp_all add: queues_hold_def p_def)
  define q where "q = (ready_queues s ! p)\<lparr>tq_que := rq s p @ [t], tq_cnt := tq_cnt (ready_queues s ! p) + 1\<rparr>"
  have add: "ready_queue_add_nolock s t = Some (s\<lparr>ready_queues := (ready_queues s)[p := q]\<rparr>)"
    using p by (simp add: ready_queue_add_nolock_def tq_add_def Let_def p_def [symmetric] q_def rq_def)
  have set: "set (rq s p') = {t. status (threads s t) = THR_TSTATE_READY \<and> unat (prio (threads s t)) = p' \<and> t \<notin> X \<and> t \<noteq> idle_thread s}"
    "distinct (rq s p')" "tq_cnt (ready_queues s ! p') = of_nat (length (rq s p'))" if "p' < THR_MAX_PRIO" for p'
    using Q that by (simp_all add: queues_hold_def)
  have "queues_hold (s\<lparr>ready_queues := (ready_queues s)[p := q]\<rparr>) (X - {t})"
    unfolding queues_hold_def
  proof (intro conjI allI impI)
    fix p' assume p': "p' < THR_MAX_PRIO"
    let ?s = "s\<lparr>ready_queues := (ready_queues s)[p := q]\<rparr>"
    have r: "rq ?s p' = (if p' = p then rq s p @ [t] else rq s p')" using p by (simp add: rq_def q_def)
    show "distinct (rq ?s p')" unfolding r using set(1,2) [OF p'] t(1) by auto
    show "tq_cnt (ready_queues ?s ! p') = of_nat (length (rq ?s p'))"
      unfolding r using set(3) [OF p'] p by (cases "p' = p") (simp_all add: q_def rq_def)
    show "set (rq ?s p') = {u. status (threads ?s u) = THR_TSTATE_READY \<and> unat (prio (threads ?s u)) = p' \<and> u \<notin> X - {t} \<and> u \<noteq> idle_thread ?s}"
      unfolding r using set(1) [OF p'] t by (auto simp: p_def)
  qed (use Q in \<open>simp_all add: queues_hold_def\<close>)
  then show ?thesis using add by (intro exI [of _ q]) (simp add: q_def)
qed

lemma ready_queue_pop_ok:
  assumes Q: "queues_hold s X" and p: "p < THR_MAX_PRIO" and r: "rq s p = t # ts"
  shows "\<exists>q. ready_queue_get_top_nolock s p = Some (t, s\<lparr>ready_queues := (ready_queues s)[p := q]\<rparr>) \<and> tq_que q = ts \<and>
    queues_hold (s\<lparr>ready_queues := (ready_queues s)[p := q]\<rparr>) (insert t X)"
proof -
  define q where "q = (ready_queues s ! p)\<lparr>tq_que := ts, tq_cnt := tq_cnt (ready_queues s ! p) - 1\<rparr>"
  have len: "length (ready_queues s) = THR_MAX_PRIO" using Q by (simp add: queues_hold_def)
  have pop: "ready_queue_get_top_nolock s p = Some (t, s\<lparr>ready_queues := (ready_queues s)[p := q]\<rparr>)"
    using p len r by (simp add: ready_queue_get_top_nolock_def tq_get_top_def rq_def q_def)
  have set: "set (rq s p') = {t. status (threads s t) = THR_TSTATE_READY \<and> unat (prio (threads s t)) = p' \<and> t \<notin> X \<and> t \<noteq> idle_thread s}"
    "distinct (rq s p')" "tq_cnt (ready_queues s ! p') = of_nat (length (rq s p'))" if "p' < THR_MAX_PRIO" for p'
    using Q that by (simp_all add: queues_hold_def)
  have tp: "unat (prio (threads s t)) = p" using set(1) [OF p] r by auto
  have "queues_hold (s\<lparr>ready_queues := (ready_queues s)[p := q]\<rparr>) (insert t X)"
    unfolding queues_hold_def
  proof (intro conjI allI impI)
    fix p' assume p': "p' < THR_MAX_PRIO"
    let ?s = "s\<lparr>ready_queues := (ready_queues s)[p := q]\<rparr>"
    have r': "rq ?s p' = (if p' = p then ts else rq s p')" using p len by (simp add: rq_def q_def)
    show "distinct (rq ?s p')" unfolding r' using set(2) [OF p'] r by auto
    show "tq_cnt (ready_queues ?s ! p') = of_nat (length (rq ?s p'))"
      unfolding r' using set(3) [OF p'] p len r by (cases "p' = p") (simp_all add: q_def rq_def)
    show "set (rq ?s p') = {u. status (threads ?s u) = THR_TSTATE_READY \<and> unat (prio (threads ?s u)) = p' \<and> u \<notin> insert t X \<and> u \<noteq> idle_thread ?s}"
    proof (cases "p' = p")
      case True
      have "set ts = set (rq s p) - {t}" using set(2) [OF p] r by auto
      then show ?thesis unfolding r' using True set(1) [OF p] by auto
    qed (use set(1) [OF p'] tp in \<open>auto simp: r'\<close>)
  qed (use Q in \<open>simp_all add: queues_hold_def\<close>)
  then show ?thesis using pop by (intro exI [of _ q]) (simp add: q_def)
qed

section \<open>Choosing and switching\<close>

lemma next_thread_loop_some:
  assumes "length (ready_queues s) = THR_MAX_PRIO" and "p < n" and "n \<le> THR_MAX_PRIO" and "rq s p \<noteq> []"
    and "\<forall>q. p < q \<and> q < n \<longrightarrow> rq s q = []"
  shows "next_thread_loop s n = ready_queue_get_top_nolock s p"
  using assms
proof (induction n)
  case (Suc n)
  then show ?case
    by (cases "p = n") (auto simp: ready_queue_is_empty_nolock_def tq_is_empty_def rq_def)
qed simp

lemma next_thread_loop_none:
  assumes "length (ready_queues s) = THR_MAX_PRIO" and "n \<le> THR_MAX_PRIO" and "\<forall>q < n. rq s q = []"
  shows "next_thread_loop s n = Some (idle_thread s, s)"
  using assms by (induction n) (auto simp: ready_queue_is_empty_nolock_def tq_is_empty_def rq_def)

text \<open>The thread information that \<open>sched_schedule\<close> writes first.\<close>

definition sched_clr :: "'a kernel_scheme \<Rightarrow> 'a kernel_scheme" where
  "sched_clr s = upd_thread s (current s) (thr_ti_update (\<lambda>ti.
     let ti = ti_clr_thread_info ti in ti\<lparr>preempt := preempt ti AND NOT THR_PREEMPT_ACTIVE\<rparr>))"

definition requeues :: "'a kernel_scheme \<Rightarrow> bool" where
  "requeues s \<longleftrightarrow> current s \<noteq> idle_thread s \<and> status (threads s (current s)) = THR_TSTATE_READY"

text \<open>Putting the current thread back, if it is ready, and switching to \<open>t\<close>.\<close>

definition sched_switch :: "'a kernel_scheme \<Rightarrow> nat \<Rightarrow> 'a kernel_scheme option" where
  "sched_switch s t = do {
     s \<leftarrow> (if requeues s
          then ready_queue_add_nolock (upd_thread s (current s) (status_update (\<lambda>_. THR_TSTATE_READY))) (current s)
          else Some s);
     let s = sched_switch_threads s t;
     kassert (status (threads s (current s)) = THR_TSTATE_RUN);
     Some (s\<lparr>running_thread := Some (current s)\<rparr>)
   }"

lemma sched_schedule_eq:
  assumes "\<not> ti_dispatch_disabled (thr_ti (threads s (current s)))" and "status (threads s (current s)) \<noteq> THR_TSTATE_RUN"
    and "ready_queue_get_next_thread (sched_clr s) = Some (t, s1)" and "current s1 = current s" and "t \<noteq> current s"
    and "status (threads s1 (current s)) \<noteq> THR_TSTATE_RUN"
  shows "sched_schedule s = sched_switch s1 t"
proof -
  have "status (threads (sched_clr s) (current (sched_clr s))) \<noteq> THR_TSTATE_RUN"
    using assms(2) by (simp add: sched_clr_def)
  then show ?thesis using assms
    unfolding sched_schedule_def sched_clr_def [symmetric]
    by (simp add: sched_switch_def requeues_def)
qed

lemma upd_status_same: "status (threads s t) = st \<Longrightarrow> upd_thread s t (status_update (\<lambda>_. st)) = s"
  by (auto simp: upd_thread_def)

lemma sched_switch_ok:
  assumes Q: "queues_hold s {current s, t}" and ne: "t \<noteq> current s" and idle: "status (threads s (idle_thread s)) = THR_TSTATE_READY \<or> status (threads s (idle_thread s)) = THR_TSTATE_RUN"
    and nr: "status (threads s (current s)) \<noteq> THR_TSTATE_RUN"
  shows "\<exists>s'. sched_switch s t = Some s' \<and> sched_inv s' \<and> current s' = t \<and> idle_thread s' = idle_thread s \<and>
    running_thread s' = Some t \<and> status (threads s' t) = THR_TSTATE_RUN \<and>
    (\<forall>u. u \<noteq> t \<longrightarrow> threads s' u = threads s u) \<and>
    (\<forall>q < THR_MAX_PRIO. rq s' q = rq s q @ (if requeues s \<and> q = unat (prio (threads s (current s))) then [current s] else []))"
proof -
  obtain s1 where s1: "(if requeues s then ready_queue_add_nolock (upd_thread s (current s) (status_update (\<lambda>_. THR_TSTATE_READY))) (current s)
       else Some s) = Some s1" "queues_hold s1 {t}" "current s1 = current s" "idle_thread s1 = idle_thread s"
    "threads s1 = threads s"
    "\<forall>q < THR_MAX_PRIO. rq s1 q = rq s q @ (if requeues s \<and> q = unat (prio (threads s (current s))) then [current s] else [])"
  proof (cases "requeues s")
    case True
    then have r: "status (threads s (current s)) = THR_TSTATE_READY" "current s \<noteq> idle_thread s"
      by (simp_all add: requeues_def)
    have "{current s, t} - {current s} = {t}" using ne by blast
    with ready_queue_add_ok [OF Q _ r] obtain q where
      q: "ready_queue_add_nolock s (current s) = Some (s\<lparr>ready_queues := (ready_queues s)[unat (prio (threads s (current s))) := q]\<rparr>)"
        "tq_que q = rq s (unat (prio (threads s (current s)))) @ [current s]"
        "queues_hold (s\<lparr>ready_queues := (ready_queues s)[unat (prio (threads s (current s))) := q]\<rparr>) {t}" by auto
    have "length (ready_queues s) = THR_MAX_PRIO" using Q by (simp add: queues_hold_def)
    with q True r upd_status_same [OF r(1)] that show thesis by (auto simp: rq_def nth_list_update)
  next
    case False
    have "queues_hold s {t}"
      using Q by (rule queues_hold_subset) (use False in \<open>auto simp: requeues_def\<close>)
    with False that show thesis by auto
  qed
  define s' where "s' = (sched_switch_threads s1 t)\<lparr>running_thread := Some t\<rparr>"
  have "sched_switch s t = Some s'"
    unfolding sched_switch_def s1(1) by (simp add: s'_def sched_switch_threads_def Let_def)
  moreover have "queues_hold s' {t}"
    using s1(2) by (rule queues_hold_cong) (simp_all add: s'_def sched_switch_threads_def)
  then have "sched_inv s'"
    using idle s1(4,5) by (auto simp: sched_inv_def s'_def sched_switch_threads_def)
  ultimately show ?thesis using s1(4-6) by (auto simp: s'_def sched_switch_threads_def rq_def)
qed

lemma sched_clr_simps [simp]:
  "current (sched_clr s) = current s" "idle_thread (sched_clr s) = idle_thread s" "ready_queues (sched_clr s) = ready_queues s"
  "rq (sched_clr s) p = rq s p" "status (threads (sched_clr s) t) = status (threads s t)" "prio (threads (sched_clr s) t) = prio (threads s t)"
  "requeues (sched_clr s) = requeues s"
  by (auto simp: sched_clr_def rq_def requeues_def)

lemma sched_clr_holds: "queues_hold s X \<Longrightarrow> queues_hold (sched_clr s) X"
  by (rule queues_hold_cong) simp_all

lemma schedule_from_queue:
  assumes inv: "sched_inv s" and en: "\<not> ti_dispatch_disabled (thr_ti (threads s (current s)))"
    and nr: "status (threads s (current s)) \<noteq> THR_TSTATE_RUN"
    and p: "p < THR_MAX_PRIO" "rq s p = t # ts" "\<forall>q. p < q \<and> q < THR_MAX_PRIO \<longrightarrow> rq s q = []"
  shows "\<exists>s'. sched_schedule s = Some s' \<and> sched_inv s' \<and> current s' = t \<and> status (threads s' t) = THR_TSTATE_RUN \<and>
    (\<forall>q < THR_MAX_PRIO. rq s' q = (if q = p then ts else rq s q) @
       (if requeues s \<and> q = unat (prio (threads s (current s))) then [current s] else []))"
proof -
  have Q: "queues_hold (sched_clr s) {current s}" using inv by (auto simp: sched_inv_def intro: sched_clr_holds)
  then have len: "length (ready_queues s) = THR_MAX_PRIO" by (simp add: queues_hold_def)
  have "t \<in> set (rq s p)" using p(2) by simp
  then have tne: "t \<noteq> current s" using Q p(1) by (simp add: queues_hold_def)
  have r: "rq (sched_clr s) p = t # ts" using p(2) by simp
  from ready_queue_pop_ok [OF Q p(1) r] obtain q where
    q: "ready_queue_get_top_nolock (sched_clr s) p = Some (t, (sched_clr s)\<lparr>ready_queues := (ready_queues s)[p := q]\<rparr>)"
      "tq_que q = ts" "queues_hold ((sched_clr s)\<lparr>ready_queues := (ready_queues s)[p := q]\<rparr>) {t, current s}" by auto
  define s1 where "s1 = (sched_clr s)\<lparr>ready_queues := (ready_queues s)[p := q]\<rparr>"
  have s1: "current s1 = current s" "idle_thread s1 = idle_thread s" "threads s1 = threads (sched_clr s)"
    "requeues s1 = requeues s" by (simp_all add: s1_def requeues_def)
  have rq1: "rq s1 x = (if x = p then ts else rq s x)" if "x < THR_MAX_PRIO" for x
    using that p(1) len q(2) by (simp add: s1_def rq_def)
  have "next_thread_loop (sched_clr s) THR_MAX_PRIO = ready_queue_get_top_nolock (sched_clr s) p"
    using len p r by (intro next_thread_loop_some) auto
  then have nt: "ready_queue_get_next_thread (sched_clr s) = Some (t, s1)"
    using q(1) by (simp add: ready_queue_get_next_thread_def s1_def)
  have "sched_schedule s = sched_switch s1 t"
    using en nr nt s1(1) tne _ by (rule sched_schedule_eq) (use s1 nr in simp)
  moreover have "queues_hold s1 {current s1, t}" using q(3) s1(1) by (simp add: s1_def insert_commute)
  from sched_switch_ok [OF this] inv nr tne s1 obtain s' where
    s': "sched_switch s1 t = Some s'" "sched_inv s'" "current s' = t" "status (threads s' t) = THR_TSTATE_RUN"
      "\<forall>q < THR_MAX_PRIO. rq s' q = rq s1 q @ (if requeues s1 \<and> q = unat (prio (threads s1 (current s1))) then [current s1] else [])"
    by (auto simp: sched_inv_def)
  ultimately show ?thesis using s1 rq1 by auto
qed

lemma schedule_idle:
  assumes inv: "sched_inv s" and en: "\<not> ti_dispatch_disabled (thr_ti (threads s (current s)))"
    and nr: "status (threads s (current s)) \<noteq> THR_TSTATE_RUN" and e: "\<forall>q < THR_MAX_PRIO. rq s q = []"
  shows "\<exists>s'. sched_schedule s = Some s' \<and> sched_inv s' \<and> current s' = idle_thread s \<and>
    (\<forall>q < THR_MAX_PRIO. rq s' q =
       (if requeues s \<and> q = unat (prio (threads s (current s))) then [current s] else []))"
proof -
  have Q: "queues_hold (sched_clr s) {current s}" using inv by (auto simp: sched_inv_def intro: sched_clr_holds)
  then have len: "length (ready_queues s) = THR_MAX_PRIO" by (simp add: queues_hold_def)
  have nt: "ready_queue_get_next_thread (sched_clr s) = Some (idle_thread s, sched_clr s)"
    using next_thread_loop_none [of "sched_clr s" THR_MAX_PRIO] len e by (simp add: ready_queue_get_next_thread_def)
  show ?thesis
  proof (cases "idle_thread s = current s")
    case True
    have "sched_schedule s = Some (sched_clr s)"
      using en nr nt True unfolding sched_schedule_def sched_clr_def [symmetric] by simp
    moreover have "sched_inv (sched_clr s)" using inv Q by (simp add: sched_inv_def)
    ultimately show ?thesis using True e by (auto simp: requeues_def)
  next
    case False
    have "sched_schedule s = sched_switch (sched_clr s) (idle_thread s)"
      using en nr nt sched_clr_simps(1) False _ by (rule sched_schedule_eq) (use nr in simp)
    moreover have "queues_hold (sched_clr s) ({current s} \<union> {idle_thread s})"
      using Q by (rule queues_hold_insert) simp
    then have "queues_hold (sched_clr s) {current (sched_clr s), idle_thread s}" by (simp add: insert_commute)
    from sched_switch_ok [OF this] inv nr False obtain s' where
      "sched_switch (sched_clr s) (idle_thread s) = Some s'" "sched_inv s'" "current s' = idle_thread s"
        "\<forall>q < THR_MAX_PRIO. rq s' q = rq s q @ (if requeues s \<and> q = unat (prio (threads s (current s))) then [current s] else [])"
      by (auto simp: sched_inv_def)
    ultimately show ?thesis using e by auto
  qed
qed

lemma sched_wakeup_ok:
  assumes inv: "sched_inv s" and t: "t \<noteq> current s" and w: "thr_in_wait (threads s t) \<or> status (threads s t) = THR_TSTATE_DORMANT"
  shows "\<exists>s'. sched_wakeup s t = Some s' \<and> sched_inv s' \<and> current s' = current s \<and> idle_thread s' = idle_thread s \<and>
    procs s' = procs s \<and> thr_created_tree s' = thr_created_tree s \<and> kernel.more s' = kernel.more s \<and>
    status (threads s' t) = THR_TSTATE_READY \<and> (\<forall>u. u \<noteq> t \<longrightarrow> status (threads s' u) = status (threads s u)) \<and>
    (\<forall>u. evque (threads s' u) = evque (threads s u) \<and> thr_p (threads s' u) = thr_p (threads s u) \<and>
       thr_type (threads s' u) = thr_type (threads s u) \<and> prio (threads s' u) = prio (threads s u) \<and>
       tid (threads s' u) = tid (threads s u)) \<and>
    (\<forall>q < THR_MAX_PRIO. rq s' q = rq s q @ (if q = unat (prio (threads s t)) then [t] else []))"
proof -
  have Q: "queues_hold s {current s}" using inv by (simp add: sched_inv_def)
  have ns: "status (threads s t) \<noteq> THR_TSTATE_READY" "status (threads s t) \<noteq> THR_TSTATE_RUN"
    using w by (auto simp: thr_in_wait_def thr_wait_intr_def thr_wait_killable_def)
  then have ti: "t \<noteq> idle_thread s" using inv by (auto simp: sched_inv_def)
  define s1 where "s1 = upd_thread s t (status_update (\<lambda>_. THR_TSTATE_READY))"
  have "queues_hold s ({current s} \<union> {t})" using Q by (rule queues_hold_insert) (use ns in auto)
  then have "queues_hold s {current s, t}" by (simp add: insert_commute)
  then have Q1: "queues_hold s1 {current s, t}"
    by (rule queues_hold_cong) (simp_all add: s1_def)
  have s1: "status (threads s1 t) = THR_TSTATE_READY" "t \<noteq> idle_thread s1" "t \<in> {current s, t}"
    using ti by (simp_all add: s1_def)
  have diff: "{current s, t} - {t} = {current s}" using t by blast
  from ready_queue_add_ok [OF Q1 s1(3,1,2)] obtain q where
    q: "ready_queue_add_nolock s1 t = Some (s1\<lparr>ready_queues := (ready_queues s)[unat (prio (threads s t)) := q]\<rparr>)"
      "tq_que q = rq s (unat (prio (threads s t))) @ [t]"
      "queues_hold (s1\<lparr>ready_queues := (ready_queues s)[unat (prio (threads s t)) := q]\<rparr>) {current s}"
    unfolding diff by (auto simp: s1_def)
  define s2 where "s2 = s1\<lparr>ready_queues := (ready_queues s)[unat (prio (threads s t)) := q]\<rparr>"
  define s' where "s' = upd_thread s2 (current s) (thr_ti_update ti_set_delay_dispatch)"
  have wk: "sched_wakeup s t = Some s'"
    using w q(1) by (simp add: sched_wakeup_def s1_def [symmetric] s2_def s'_def Let_def) (auto simp: s1_def)
  have "queues_hold s2 {current s}" using q(3) by (simp add: s2_def)
  then have "queues_hold s' {current s}" by (rule queues_hold_cong) (simp_all add: s'_def)
  moreover have st: "status (threads s' u) = (if u = t then THR_TSTATE_READY else status (threads s u))" for u
    by (simp add: s'_def s2_def s1_def)
  moreover have cur: "current s' = current s" "idle_thread s' = idle_thread s" by (simp_all add: s'_def s2_def s1_def)
  ultimately have "sched_inv s'" using inv ti by (auto simp: sched_inv_def)
  moreover have "length (ready_queues s) = THR_MAX_PRIO" using Q by (simp add: queues_hold_def)
  then have "\<forall>x < THR_MAX_PRIO. rq s' x = rq s x @ (if x = unat (prio (threads s t)) then [t] else [])"
    using q(2) by (auto simp: s'_def s2_def rq_def upd_thread_def nth_list_update)
  ultimately show ?thesis using wk st cur by (auto simp: s'_def s2_def s1_def upd_thread_def)
qed

lemma rq_add:
  assumes "length (ready_queues s) = THR_MAX_PRIO" and "unat (prio (threads s t)) < THR_MAX_PRIO"
  shows "\<exists>s'. ready_queue_add_nolock s t = Some s' \<and> threads s' = threads s \<and> current s' = current s \<and>
    idle_thread s' = idle_thread s \<and> length (ready_queues s') = THR_MAX_PRIO \<and>
    (\<forall>q < THR_MAX_PRIO. rq s' q = rq s q @ (if q = unat (prio (threads s t)) then [t] else []))"
  using assms by (auto simp: ready_queue_add_nolock_def tq_add_def rq_def Let_def nth_list_update)

lemma rq_pop:
  assumes "length (ready_queues s) = THR_MAX_PRIO" and "p < THR_MAX_PRIO" and "rq s p = t # ts"
  shows "\<exists>s'. ready_queue_get_top_nolock s p = Some (t, s') \<and> threads s' = threads s \<and> current s' = current s \<and>
    idle_thread s' = idle_thread s \<and> length (ready_queues s') = THR_MAX_PRIO \<and>
    (\<forall>q < THR_MAX_PRIO. rq s' q = (if q = p then ts else rq s q))"
  using assms by (auto simp: ready_queue_get_top_nolock_def tq_get_top_def rq_def Let_def nth_list_update)

section \<open>Properties\<close>

text \<open>Thread 0 is idle, thread 1 is current and ready, thread 2 is queued with priority 5.\<close>

definition small_kernel :: kernel where
  "small_kernel = \<lparr>
     threads = (\<lambda>t. \<lparr>status = (if t = 0 then THR_TSTATE_RUN else if t = 1 \<or> t = 2 then THR_TSTATE_READY else
           if t = 3 then THR_TSTATE_WAIT else THR_TSTATE_FREE),
        tid = of_nat t, prio = (if t = 2 then 5 else 1), slice = 4, cur_slice = 4, thr_type = THR_TYPE_USER,
        thr_ti = some_ti\<lparr>ti_thr := t\<rparr>, thr_p = 0, evque = ev_queue_init\<rparr>),
     procs = (\<lambda>_. \<lparr>p_evque = ev_queue_init, p_threads = [1, 2, 3], p_master = 1\<rparr>),
     thr_created_tree = (\<lambda>k. if k = 1 then Some 1 else if k = 2 then Some 2 else if k = 3 then Some 3 else None),
     ready_queues = (replicate THR_MAX_PRIO tq_init)[5 := \<lparr>tq_que = [2], tq_cnt = 1\<rparr>],
     running_thread = Some 1, current = 1, idle_thread = 0\<rparr>"

lemma small_kernel_inv: "sched_inv small_kernel"
proof -
  have "queues_hold small_kernel {1}"
    unfolding queues_hold_def
  proof (intro conjI allI impI)
    fix p assume p: "p < THR_MAX_PRIO"
    have r: "rq small_kernel p = (if p = 5 then [2] else [])"
      using p by (simp add: rq_def small_kernel_def nth_list_update tq_init_def)
    show "set (rq small_kernel p) = {t. status (threads small_kernel t) = THR_TSTATE_READY \<and>
        unat (prio (threads small_kernel t)) = p \<and> t \<notin> {1} \<and> t \<noteq> idle_thread small_kernel}"
      unfolding r by (auto simp: small_kernel_def)
    show "distinct (rq small_kernel p)" unfolding r by simp
    show "tq_cnt (ready_queues small_kernel ! p) = of_nat (length (rq small_kernel p))"
      unfolding r using p by (simp add: small_kernel_def nth_list_update tq_init_def)
  qed (simp_all add: small_kernel_def)
  then show ?thesis by (simp add: sched_inv_def) (simp add: small_kernel_def)
qed

lemma small_kernel_enabled: "\<not> ti_dispatch_disabled (thr_ti (threads small_kernel (current small_kernel)))"
  by (simp add: small_kernel_def some_ti_def ti_dispatch_disabled_def)

text \<open>
  Claim C26. \<open>sched_schedule\<close>, called by a thread that is not running any more with dispatching
  enabled, always returns, gives the processor to the first thread of the highest priority
  that has a ready one, to the idle thread if none has, puts the calling thread behind the
  others of its priority when it is still ready, changes no other queue, and keeps every
  ready thread in exactly one queue.
\<close>

theorem sched_schedule_spec:
  assumes "sched_inv s" and "\<not> ti_dispatch_disabled (thr_ti (threads s (current s)))"
    and "status (threads s (current s)) \<noteq> THR_TSTATE_RUN"
  shows "(\<forall>p t ts. p < THR_MAX_PRIO \<and> rq s p = t # ts \<and> (\<forall>q. p < q \<and> q < THR_MAX_PRIO \<longrightarrow> rq s q = []) \<longrightarrow>
      (\<exists>s'. sched_schedule s = Some s' \<and> sched_inv s' \<and> current s' = t \<and> status (threads s' t) = THR_TSTATE_RUN \<and>
         (\<forall>q < THR_MAX_PRIO. rq s' q = (if q = p then ts else rq s q) @
            (if requeues s \<and> q = unat (prio (threads s (current s))) then [current s] else [])))) \<and>
    ((\<forall>q < THR_MAX_PRIO. rq s q = []) \<longrightarrow>
      (\<exists>s'. sched_schedule s = Some s' \<and> sched_inv s' \<and> current s' = idle_thread s \<and>
         (\<forall>q < THR_MAX_PRIO. rq s' q =
            (if requeues s \<and> q = unat (prio (threads s (current s))) then [current s] else []))))"
  using schedule_from_queue [OF assms] schedule_idle [OF assms] by blast

theorem sched_schedule_spec_witness:
  "\<exists>s'. sched_schedule small_kernel = Some s' \<and> sched_inv s' \<and> current s' = 2 \<and> rq s' 1 = [1]"
proof -
  have nr: "status (threads small_kernel (current small_kernel)) \<noteq> THR_TSTATE_RUN" by (simp add: small_kernel_def)
  have "\<exists>s'. sched_schedule small_kernel = Some s' \<and> sched_inv s' \<and> current s' = 2 \<and> status (threads s' 2) = THR_TSTATE_RUN \<and>
      (\<forall>q < THR_MAX_PRIO. rq s' q = (if q = 5 then [] else rq small_kernel q) @
        (if requeues small_kernel \<and> q = unat (prio (threads small_kernel (current small_kernel))) then [current small_kernel] else []))"
    by (rule sched_schedule_spec [OF small_kernel_inv small_kernel_enabled nr, THEN conjunct1, rule_format])
      (auto simp: small_kernel_def rq_def nth_list_update tq_init_def)
  then show ?thesis
    by (elim exE conjE) (rule exI, auto simp: small_kernel_def requeues_def rq_def tq_init_def nth_list_update)
qed

text \<open>
  \<open>_sched_wakeup\<close> of a waiting or dormant thread other than the current one makes it
  ready and appends it to the queue of its priority; no other thread changes state, no
  other queue changes, and every ready thread stays in exactly one queue.
\<close>

theorem sched_wakeup_spec:
  assumes "sched_inv s" and "t \<noteq> current s" and "thr_in_wait (threads s t) \<or> status (threads s t) = THR_TSTATE_DORMANT"
  shows "\<exists>s'. sched_wakeup s t = Some s' \<and> sched_inv s' \<and> status (threads s' t) = THR_TSTATE_READY \<and>
    (\<forall>u. u \<noteq> t \<longrightarrow> status (threads s' u) = status (threads s u)) \<and>
    (\<forall>q < THR_MAX_PRIO. rq s' q = rq s q @ (if q = unat (prio (threads s t)) then [t] else []))"
  using sched_wakeup_ok [OF assms] by blast

theorem sched_wakeup_spec_witness:
  "\<exists>s'. sched_wakeup small_kernel 3 = Some s' \<and> sched_inv s' \<and> status (threads s' 3) = THR_TSTATE_READY \<and>
    (\<forall>u. u \<noteq> 3 \<longrightarrow> status (threads s' u) = status (threads small_kernel u)) \<and>
    (\<forall>q < THR_MAX_PRIO. rq s' q = rq small_kernel q @ (if q = unat (prio (threads small_kernel 3)) then [3] else []))"
  by (rule sched_wakeup_spec [OF small_kernel_inv])
    (simp_all add: small_kernel_def thr_in_wait_def)

text \<open>
  A wakeup that hits a thread between setting its wait state and calling the scheduler
  breaks the queues: the thread is put into its ready queue although it still runs, and
  \<open>sched_schedule\<close>, which sees it ready, puts it in a second time when another thread goes first.
\<close>

theorem wakeup_of_current_enqueues_twice:
  assumes inv: "sched_inv s" and cur: "current s \<noteq> idle_thread s" "thr_in_wait (threads s (current s))"
    and en: "\<not> ti_dispatch_disabled (thr_ti (threads s (current s)))"
    and p: "p < THR_MAX_PRIO" "rq s p = t # ts" "\<forall>q. p < q \<and> q < THR_MAX_PRIO \<longrightarrow> rq s q = []"
    and le: "unat (prio (threads s (current s))) \<le> p"
  shows "\<exists>s1 s2. sched_wakeup s (current s) = Some s1 \<and> sched_schedule s1 = Some s2 \<and>
    \<not> distinct (rq s2 (unat (prio (threads s (current s))))) \<and> \<not> sched_inv s2"
proof -
  define c where "c = current s"
  define k where "k = unat (prio (threads s c))"
  have Q: "queues_hold s {c}" using inv by (simp add: sched_inv_def c_def)
  have k: "k < THR_MAX_PRIO" "length (ready_queues s) = THR_MAX_PRIO" using Q by (simp_all add: queues_hold_def k_def)
  have "t \<in> set (rq s p)" using p(2) by simp
  then have tc: "t \<noteq> c" using Q p(1) by (simp add: queues_hold_def)
  define s0 where "s0 = upd_thread s c (status_update (\<lambda>_. THR_TSTATE_READY))"
  from rq_add [of s0 c] k obtain s1 where
    a: "ready_queue_add_nolock s0 c = Some s1" "threads s1 = threads s0" "current s1 = c" "idle_thread s1 = idle_thread s"
      "length (ready_queues s1) = THR_MAX_PRIO" "\<forall>q < THR_MAX_PRIO. rq s1 q = rq s q @ (if q = k then [c] else [])"
    by (auto simp: s0_def k_def c_def)
  define s2 where "s2 = upd_thread s1 c (thr_ti_update ti_set_delay_dispatch)"
  have wk: "sched_wakeup s c = Some s2"
    using cur(2) a(1,3) by (simp add: sched_wakeup_def Let_def c_def [symmetric] s0_def [symmetric] s2_def)
  define s3 where "s3 = sched_clr s2"
  have s3: "current s3 = c" "idle_thread s3 = idle_thread s" "length (ready_queues s3) = THR_MAX_PRIO"
    "status (threads s3 c) = THR_TSTATE_READY" "unat (prio (threads s3 c)) = k" "\<forall>q < THR_MAX_PRIO. rq s3 q = rq s q @ (if q = k then [c] else [])"
    using a by (simp_all add: s3_def s2_def s0_def k_def)
  obtain ts' where top: "rq s3 p = t # ts'" using s3(6) p(1,2) by auto
  have "\<forall>q. p < q \<and> q < THR_MAX_PRIO \<longrightarrow> rq s3 q = []" using s3(6) p(3) le by (auto simp: k_def c_def)
  then have "next_thread_loop s3 THR_MAX_PRIO = ready_queue_get_top_nolock s3 p"
    using s3(3) p(1) top by (intro next_thread_loop_some) auto
  with rq_pop [OF s3(3) p(1) top] obtain s4 where
    s4: "ready_queue_get_next_thread s3 = Some (t, s4)" "threads s4 = threads s3" "current s4 = c" "idle_thread s4 = idle_thread s"
      "length (ready_queues s4) = THR_MAX_PRIO" "\<forall>q < THR_MAX_PRIO. rq s4 q = (if q = p then ts' else rq s3 q)"
    using s3 by (auto simp: ready_queue_get_next_thread_def)
  have en2: "\<not> ti_dispatch_disabled (thr_ti (threads s2 (current s2)))"
    using en a by (simp add: s2_def s0_def ti_set_delay_dispatch_def ti_dispatch_disabled_def c_def)
  have "c \<in> set (rq s4 k)" using s4(6) s3(6) k(1) top tc p(1,2) by (cases "k = p") auto
  have rq4: "requeues s4" using cur(1) s4 s3(4) by (simp add: requeues_def c_def)
  have st4: "upd_thread s4 c (status_update (\<lambda>_. THR_TSTATE_READY)) = s4" using s4(2) s3(4) by (intro upd_status_same) simp
  from rq_add [of s4 c] s4 s3(5) k(1) obtain s5 where
    s5: "ready_queue_add_nolock s4 c = Some s5" "current s5 = c" "\<forall>q < THR_MAX_PRIO. rq s5 q = rq s4 q @ (if q = k then [c] else [])"
    by auto
  define s6 where "s6 = (sched_switch_threads s5 t)\<lparr>running_thread := Some t\<rparr>"
  have "sched_schedule s2 = sched_switch s4 t"
    using en2 _ s4(1) [unfolded s3_def] _ _ by (rule sched_schedule_eq)
      (use s3(1,4) s4(2,3) tc in \<open>simp_all add: s3_def\<close>)
  also have "\<dots> = Some s6"
    using rq4 s4(3) st4 s5(1) by (simp add: sched_switch_def s6_def sched_switch_threads_def Let_def)
  finally have sch: "sched_schedule s2 = Some s6" .
  have "rq s6 k = rq s4 k @ [c]" using s5(3) k(1) by (simp add: s6_def sched_switch_threads_def rq_def)
  then have nd: "\<not> distinct (rq s6 k)" using \<open>c \<in> set (rq s4 k)\<close> by simp
  then have "\<not> sched_inv s6" using k(1) by (auto simp: sched_inv_def queues_hold_def)
  with wk sch nd show ?thesis by (auto simp: c_def k_def)
qed

theorem wakeup_of_current_enqueues_twice_witness:
  "\<exists>s1 s2. sched_wakeup (upd_thread small_kernel 1 (status_update (\<lambda>_. THR_TSTATE_WAIT))) 1 = Some s1 \<and> sched_schedule s1 = Some s2 \<and>
    \<not> distinct (rq s2 1) \<and> \<not> sched_inv s2"
proof -
  let ?s = "upd_thread small_kernel 1 (status_update (\<lambda>_. THR_TSTATE_WAIT))"
  have "queues_hold small_kernel {1}" using small_kernel_inv by (simp add: sched_inv_def) (simp add: small_kernel_def)
  then have "queues_hold ?s {1}" by (rule queues_hold_cong) simp_all
  then have inv: "sched_inv ?s" by (simp add: sched_inv_def) (simp add: small_kernel_def)
  have c: "current ?s = 1" "unat (prio (threads ?s 1)) = 1" by (simp_all add: small_kernel_def)
  have "\<exists>s1 s2. sched_wakeup ?s (current ?s) = Some s1 \<and> sched_schedule s1 = Some s2 \<and>
      \<not> distinct (rq s2 (unat (prio (threads ?s (current ?s))))) \<and> \<not> sched_inv s2"
    by (rule wakeup_of_current_enqueues_twice [OF inv, of 5 2 "[]"])
      (use small_kernel_enabled in \<open>auto simp: small_kernel_def thr_in_wait_def rq_def nth_list_update tq_init_def\<close>)
  then show ?thesis unfolding c .
qed

end
