(* ===== verification/Async_Event.thy ===== *)
theory Async_Event
  imports Sched
begin

text \<open>
  Asynchronous events between threads, \<^verbatim>\<open>src/event/async-event.c\<close>, with the search by thread
  id of \<^verbatim>\<open>src/thr/thread.c\<close>: sending to a thread, to every thread of a process and to a
  process as a whole, the hand-over of what an exiting thread did not receive, the masks of a
  thread and the delivery of the next event.

  The locks the functions take are those of \<open>Thread_Info\<close>; the operations here run between
  taking and releasing them, so they are single steps of the kernel state.
\<close>

section \<open>Operations\<close>

abbreviation THR_IDLE_TID :: u64 where "THR_IDLE_TID \<equiv> 0"
abbreviation THR_INVALID_TID :: u64 where "THR_INVALID_TID \<equiv> - 1"

definition thr_find_thread_by_tid_nolock :: "'a kernel_scheme \<Rightarrow> u64 \<Rightarrow> nat option" where
  "thr_find_thread_by_tid_nolock s key =
     (if key = THR_IDLE_TID \<or> key = THR_INVALID_TID then None
      else case thr_created_tree s key of
          None \<Rightarrow> None
        | Some t \<Rightarrow> if status (threads s t) = THR_TSTATE_EXIT then None else Some t)"

text \<open>
  The end of both sending functions: a thread that does not mask the event and waits
  interruptibly is woken.
\<close>

definition wake_if_deliverable :: "'a kernel_scheme \<Rightarrow> nat \<Rightarrow> u64 \<Rightarrow> 'a kernel_scheme option" where
  "wake_if_deliverable s t no = do {
     let thr = threads s t;
     masked \<leftarrow> ev_mask_test (masks (evque thr)) no;
     if \<not> masked then
       (if (no = EV_SIG_KILL \<and> thr_wait_killable thr) \<or> thr_wait_intr thr then sched_wakeup s t else Some s)
     else Some s
   }"

definition ev_send :: "'a kernel_scheme \<Rightarrow> u64 \<Rightarrow> event_node \<Rightarrow> (int \<times> 'a kernel_scheme) option" where
  "ev_send s dest node =
     (case thr_find_thread_by_tid_nolock s dest of
        None \<Rightarrow> Some (- ENOENT, s)
      | Some t \<Rightarrow>
          if thr_type (threads s t) = THR_TYPE_KERNEL then Some (- EPERM, s)
          else do {
            let q = evque (threads s t);
            kassert (unat (ev_no (info node)) < EV_NR_EVENT);
            ev \<leftarrow> ev_mask_set (events q) (ev_no (info node));
            q \<leftarrow> ev_que_add (q\<lparr>events := ev\<rparr>) node;
            s \<leftarrow> wake_if_deliverable (upd_thread s t (evque_update (\<lambda>_. q))) t (ev_no (info node));
            Some (0, s)
          })"

text \<open>
  The loop over the threads of a process.  \<open>kmalloc i\<close> is the address the \<open>i\<close>-th
  allocation returns, \<open>None\<close> for the null pointer; the second component of the result are the
  nodes freed again.
\<close>

fun send_all_loop :: "(nat \<Rightarrow> nat option) \<Rightarrow> bool \<Rightarrow> nat \<Rightarrow> 'a kernel_scheme \<Rightarrow> event_node \<Rightarrow> nat list \<Rightarrow>
    (int \<times> nat list \<times> 'a kernel_scheme) option" where
  "send_all_loop kmalloc ik i s node [] = Some (0, [], s)"
| "send_all_loop kmalloc ik i s node (t # ts) =
     (case ev_alloc_node (kmalloc i) ik (ev_no (info node)) of
        (rc, None) \<Rightarrow> Some (rc, [], s)
      | (_, Some new) \<Rightarrow> do {
          let new = new\<lparr>info := info node\<rparr>;
          (rc, s) \<leftarrow> ev_send s (tid (threads s t)) new;
          if rc \<noteq> 0 then Some (rc, [node_addr new], s)
          else send_all_loop kmalloc ik (Suc i) s node ts
        })"

definition ev_send_to_all_threads_in_process ::
  "(nat \<Rightarrow> nat option) \<Rightarrow> bool \<Rightarrow> 'a kernel_scheme \<Rightarrow> nat \<Rightarrow> event_node \<Rightarrow> (int \<times> nat list \<times> 'a kernel_scheme) option" where
  "ev_send_to_all_threads_in_process kmalloc in_kernel s p node =
     send_all_loop kmalloc in_kernel 0 s node (p_threads (procs s p))"

fun wake_loop :: "'a kernel_scheme \<Rightarrow> u64 \<Rightarrow> nat list \<Rightarrow> 'a kernel_scheme option" where
  "wake_loop s no [] = Some s"
| "wake_loop s no (t # ts) = do {
     s \<leftarrow> wake_if_deliverable s t no;
     wake_loop s no ts
   }"

definition upd_proc :: "'a kernel_scheme \<Rightarrow> nat \<Rightarrow> (proc \<Rightarrow> proc) \<Rightarrow> 'a kernel_scheme" where
  "upd_proc s p f = s\<lparr>procs := (procs s)(p := f (procs s p))\<rparr>"

definition ev_send_to_process :: "'a kernel_scheme \<Rightarrow> nat \<Rightarrow> event_node \<Rightarrow> 'a kernel_scheme option" where
  "ev_send_to_process s p node = do {
     q \<leftarrow> ev_que_add (p_evque (procs s p)) node;
     ev \<leftarrow> ev_mask_set (events q) (ev_no (info node));
     let s = upd_proc s p (p_evque_update (\<lambda>_. q\<lparr>events := ev\<rparr>));
     wake_loop s (ev_no (info node)) (p_threads (procs s p))
   }"

text \<open>
  One list of the exiting thread: each node is unlinked, and freed or handed to the process.
  The first component of the result are the freed nodes.
\<close>

fun exit_nodes :: "'a kernel_scheme \<Rightarrow> nat \<Rightarrow> event_node list \<Rightarrow> (event_node list \<times> 'a kernel_scheme) option" where
  "exit_nodes s i [] = Some ([], s)"
| "exit_nodes s i (node # ns) = do {
     let s = upd_thread s (current s) (evque_update (\<lambda>q. q\<lparr>que := (que q)[i := ns]\<rparr>));
     let p = thr_p (threads s (current s));
     if current s = p_master (procs s p) \<or> ev_flags (info node) AND EV_FLAGS_THREAD_SPECIFIC \<noteq> 0 then do {
       (fr, s) \<leftarrow> exit_nodes s i ns;
       Some (node # fr, s)
     } else do {
       s \<leftarrow> ev_send_to_process s p node;
       exit_nodes s i ns
     }
   }"

text \<open>The loop over the event numbers, \<open>k\<close> of them from \<open>i\<close>.\<close>

fun exit_events :: "'a kernel_scheme \<Rightarrow> nat \<Rightarrow> nat \<Rightarrow> (event_node list \<times> 'a kernel_scheme) option" where
  "exit_events s i 0 = Some ([], s)"
| "exit_events s i (Suc k) = do {
     ns \<leftarrow> arr_get (que (evque (threads s (current s)))) i;
     (fr, s) \<leftarrow> exit_nodes s i ns;
     let q = evque (threads s (current s));
     ns \<leftarrow> arr_get (que q) i;
     kassert (ns = []);
     ev \<leftarrow> ev_mask_unset (events q) (of_nat i);
     (fr', s) \<leftarrow> exit_events (upd_thread s (current s) (evque_update (\<lambda>q. q\<lparr>events := ev\<rparr>))) (Suc i) k;
     Some (fr @ fr', s)
   }"

definition ev_handle_exit_thread_events :: "'a kernel_scheme \<Rightarrow> (event_node list \<times> 'a kernel_scheme) option" where
  "ev_handle_exit_thread_events s = do {
     kassert (status (threads s (current s)) = THR_TSTATE_EXIT);
     exit_events s 0 EV_NR_EVENT
   }"

definition ev_get_mask :: "'a kernel_scheme \<Rightarrow> event_mask" where
  "ev_get_mask s = masks (evque (threads s (current s)))"

definition ev_update_mask :: "'a kernel_scheme \<Rightarrow> nat \<Rightarrow> event_mask \<Rightarrow> 'a kernel_scheme" where
  "ev_update_mask s t mk = upd_thread s t (evque_update (\<lambda>q. q\<lparr>masks := mk\<rparr>))"

definition ev_has_pending_events :: "'a kernel_scheme \<Rightarrow> nat \<Rightarrow> bool" where
  "ev_has_pending_events s t =
     (let rc = ev_mask_empty (events (p_evque (procs s (thr_p (threads s t)))));
          rc = (if rc then ev_mask_empty (events (evque (threads s t))) else rc)
      in \<not> rc)"

definition ev_dequeue :: "'a kernel_scheme \<Rightarrow> (int \<times> event_node option \<times> 'a kernel_scheme) option" where
  "ev_dequeue s = do {
     let cur = threads s (current s);
     (rc, node, q) \<leftarrow> dequeue_from_evque_nolock (masks (evque cur)) (p_evque (procs s (thr_p cur)));
     let s = upd_proc s (thr_p cur) (p_evque_update (\<lambda>_. q));
     if rc = 0 then Some (0, node, s)
     else do {
       (rc, node, q) \<leftarrow> dequeue_from_evque_nolock (masks (evque cur)) (evque cur);
       Some (rc, node, upd_thread s (current s) (evque_update (\<lambda>_. q)))
     }
   }"

section \<open>Invariant and frame\<close>

text \<open>
  The queues of all processes and of all threads outside \<open>X\<close> are well-formed, and the current
  thread does not wait.  \<open>X\<close> is empty between operations.
\<close>

definition events_but :: "nat set \<Rightarrow> 'a kernel_scheme \<Rightarrow> bool" where
  "events_but X s \<longleftrightarrow> sched_inv s \<and> \<not> thr_wait_intr (threads s (current s)) \<and>
     (\<forall>t. mask_ok (masks (evque (threads s t)))) \<and> (\<forall>t. t \<notin> X \<longrightarrow> evq_ok (evque (threads s t))) \<and>
     (\<forall>p. evq_ok (p_evque (procs s p)))"

abbreviation events_inv :: "'a kernel_scheme \<Rightarrow> bool" where
  "events_inv \<equiv> events_but {}"

text \<open>What a wake-up leaves alone.\<close>

definition ev_keeps :: "'a kernel_scheme \<Rightarrow> 'a kernel_scheme \<Rightarrow> bool" where
  "ev_keeps s s' \<longleftrightarrow> current s' = current s \<and> idle_thread s' = idle_thread s \<and> procs s' = procs s \<and>
     thr_created_tree s' = thr_created_tree s \<and> kernel.more s' = kernel.more s \<and>
     (\<forall>u. evque (threads s' u) = evque (threads s u) \<and> thr_p (threads s' u) = thr_p (threads s u) \<and>
        thr_type (threads s' u) = thr_type (threads s u) \<and> prio (threads s' u) = prio (threads s u) \<and>
        tid (threads s' u) = tid (threads s u))"

lemma ev_keeps_refl [simp]: "ev_keeps s s"
  by (simp add: ev_keeps_def)

lemma ev_keeps_trans: "ev_keeps s s' \<Longrightarrow> ev_keeps s' s'' \<Longrightarrow> ev_keeps s s''"
  by (simp add: ev_keeps_def)

text \<open>An event of number \<open>no\<close> interrupts the wait of thread \<open>t\<close>.\<close>

definition interrupts :: "'a kernel_scheme \<Rightarrow> nat \<Rightarrow> u64 \<Rightarrow> bool" where
  "interrupts s t no \<longleftrightarrow> unat no \<notin> ev_set (masks (evque (threads s t))) \<and> thr_wait_intr (threads s t)"

lemma wake_if_deliverable_ok:
  assumes inv: "events_but X s" and no: "unat no < EV_NR_EVENT"
  shows "\<exists>s'. wake_if_deliverable s t no = Some s' \<and> events_but X s' \<and> ev_keeps s s' \<and>
    (\<forall>u. status (threads s' u) = (if u = t \<and> interrupts s t no then THR_TSTATE_READY else status (threads s u)))"
proof -
  have "mask_ok (masks (evque (threads s t)))" using inv by (simp add: events_but_def)
  from ev_mask_test_eq [OF this no]
  have test: "ev_mask_test (masks (evque (threads s t))) no = Some (unat no \<in> ev_set (masks (evque (threads s t))))" .
  show ?thesis
  proof (cases "interrupts s t no")
    case True
    then have w: "thr_wait_intr (threads s t)" and d: "wake_if_deliverable s t no = sched_wakeup s t"
      using test by (auto simp: interrupts_def wake_if_deliverable_def Let_def)
    have ne: "t \<noteq> current s" using inv w by (auto simp: events_but_def)
    have "sched_inv s" using inv by (simp add: events_but_def)
    from sched_wakeup_ok [OF this ne] w obtain s' where
      s': "sched_wakeup s t = Some s'" "sched_inv s'" "ev_keeps s s'" "status (threads s' t) = THR_TSTATE_READY"
        "\<forall>u. u \<noteq> t \<longrightarrow> status (threads s' u) = status (threads s u)"
      by (auto simp: ev_keeps_def thr_in_wait_def)
    have "events_but X s'" using inv s'(2,3,5) ne
      by (simp add: events_but_def ev_keeps_def thr_wait_intr_def thr_wait_killable_def)
    then show ?thesis using s' d True by auto
  next
    case False
    then have "wake_if_deliverable s t no = Some s"
      using test by (auto simp: interrupts_def wake_if_deliverable_def Let_def thr_wait_intr_def)
    then show ?thesis using inv False by auto
  qed
qed

lemma interrupts_ev_keeps:
  "ev_keeps s s' \<Longrightarrow> status (threads s' t) = status (threads s t) \<Longrightarrow> interrupts s' t no = interrupts s t no"
  by (simp add: interrupts_def ev_keeps_def thr_wait_intr_def thr_wait_killable_def)

lemma interrupts_ready: "status (threads s t) = THR_TSTATE_READY \<Longrightarrow> \<not> interrupts s t no"
  by (simp add: interrupts_def thr_wait_intr_def thr_wait_killable_def)

lemma wake_loop_ok:
  assumes "events_but X s" and "unat no < EV_NR_EVENT"
  shows "\<exists>s'. wake_loop s no ts = Some s' \<and> events_but X s' \<and> ev_keeps s s' \<and>
    (\<forall>u. status (threads s' u) = (if u \<in> set ts \<and> interrupts s u no then THR_TSTATE_READY else status (threads s u)))"
  using assms(1)
proof (induction ts arbitrary: s)
  case Nil
  then show ?case by simp
next
  case (Cons t ts)
  from wake_if_deliverable_ok [OF Cons.prems assms(2), of t] obtain s1 where
    s1: "wake_if_deliverable s t no = Some s1" "events_but X s1" "ev_keeps s s1"
      "\<forall>u. status (threads s1 u) = (if u = t \<and> interrupts s t no then THR_TSTATE_READY else status (threads s u))" by blast
  from Cons.IH [OF s1(2)] obtain s2 where
    s2: "wake_loop s1 no ts = Some s2" "events_but X s2" "ev_keeps s1 s2"
      "\<forall>u. status (threads s2 u) = (if u \<in> set ts \<and> interrupts s1 u no then THR_TSTATE_READY else status (threads s1 u))" by blast
  have "status (threads s2 u) = (if u \<in> set (t # ts) \<and> interrupts s u no then THR_TSTATE_READY else status (threads s u))" for u
  proof (cases "u = t \<and> interrupts s t no")
    case True
    then show ?thesis using s1(4) s2(4) by simp
  next
    case False
    then have st: "status (threads s1 u) = status (threads s u)" using s1(4) by auto
    then show ?thesis using s2(4) interrupts_ev_keeps [OF s1(3) st] False by auto
  qed
  then show ?case using s1 s2 ev_keeps_trans by (auto simp del: set_simps)
qed

section \<open>Sending\<close>

text \<open>\<open>q'\<close> is \<open>q\<close> with \<open>node\<close> posted.\<close>

definition posted :: "event_queue \<Rightarrow> event_node \<Rightarrow> event_queue \<Rightarrow> bool" where
  "posted q node q' \<longleftrightarrow> masks q' = masks q \<and>
     que q' = (que q)[unat (ev_no (info node)) := que q ! unat (ev_no (info node)) @ [node]] \<and>
     ev_set (events q') = (if ev_no (info node) = EV_SIG_KILL then ev_set (events q)
       else insert (unat (ev_no (info node))) (ev_set (events q)))"

lemma ev_que_add_events: "ev_que_add (q\<lparr>events := ev\<rparr>) node = map_option (\<lambda>q. q\<lparr>events := ev\<rparr>) (ev_que_add q node)"
  by (simp add: ev_que_add_def arr_get_def Let_def)

lemma ev_que_add_same_events: "ev_que_add q node = Some q' \<Longrightarrow> events q' = events q"
  by (auto simp: ev_que_add_def arr_get_def Let_def split: if_splits)

lemma events_but_upd_evque:
  assumes "events_but X s" and "t \<in> X \<or> evq_ok q" and "masks q = masks (evque (threads s t))"
  shows "events_but X (upd_thread s t (evque_update (\<lambda>_. q)))"
proof -
  have "queues_hold s {current s}" using assms(1) by (simp add: events_but_def sched_inv_def)
  then have "queues_hold (upd_thread s t (evque_update (\<lambda>_. q))) {current s}"
    by (rule queues_hold_cong) simp_all
  then have "sched_inv (upd_thread s t (evque_update (\<lambda>_. q)))"
    using assms(1) by (auto simp: events_but_def sched_inv_def)
  then show ?thesis using assms by (auto simp: events_but_def thr_wait_intr_def thr_wait_killable_def)
qed

lemma upd_proc_simps [simp]:
  "threads (upd_proc s p f) = threads s" "current (upd_proc s p f) = current s"
  "idle_thread (upd_proc s p f) = idle_thread s" "procs (upd_proc s p f) = (procs s)(p := f (procs s p))"
  "thr_created_tree (upd_proc s p f) = thr_created_tree s" "ready_queues (upd_proc s p f) = ready_queues s"
  "kernel.more (upd_proc s p f) = kernel.more s" "interrupts (upd_proc s p f) = interrupts s"
  by (simp_all add: upd_proc_def interrupts_def fun_eq_iff)

lemma events_but_upd_proc:
  assumes "events_but X s" and "evq_ok q"
  shows "events_but X (upd_proc s p (p_evque_update (\<lambda>_. q)))"
proof -
  have "queues_hold s {current s}" using assms(1) by (simp add: events_but_def sched_inv_def)
  then have "queues_hold (upd_proc s p (p_evque_update (\<lambda>_. q))) {current s}"
    by (rule queues_hold_cong) simp_all
  then have "sched_inv (upd_proc s p (p_evque_update (\<lambda>_. q)))"
    using assms(1) by (simp add: events_but_def sched_inv_def)
  then show ?thesis using assms by (simp add: events_but_def)
qed

lemma ev_send_to_process_ok:
  assumes inv: "events_but X s" and no: "unat (ev_no (info node)) < EV_NR_EVENT"
  shows "\<exists>q s'. ev_send_to_process s p node = Some s' \<and> posted (p_evque (procs s p)) node q \<and> evq_ok q \<and> events_but X s' \<and>
    ev_keeps (upd_proc s p (p_evque_update (\<lambda>_. q))) s' \<and>
    (\<forall>u. status (threads s' u) = (if u \<in> set (p_threads (procs s p)) \<and> interrupts s u (ev_no (info node))
      then THR_TSTATE_READY else status (threads s u)))"
proof -
  have Q: "evq_ok (p_evque (procs s p))" using inv by (simp add: events_but_def)
  from post_ok [OF Q no] obtain ev q where
    q: "ev_mask_set (events (p_evque (procs s p))) (ev_no (info node)) = Some ev"
      "ev_que_add ((p_evque (procs s p))\<lparr>events := ev\<rparr>) node = Some q" "evq_ok q" "posted (p_evque (procs s p)) node q"
    by (auto simp: posted_def)
  then obtain q0 where q0: "ev_que_add (p_evque (procs s p)) node = Some q0" "q = q0\<lparr>events := ev\<rparr>"
    by (auto simp: ev_que_add_events)
  define s1 where "s1 = upd_proc s p (p_evque_update (\<lambda>_. q))"
  have "events_but X s1" unfolding s1_def using inv q(3) by (rule events_but_upd_proc)
  from wake_loop_ok [OF this no, of "p_threads (procs s p)"] obtain s' where
    s': "wake_loop s1 (ev_no (info node)) (p_threads (procs s p)) = Some s'" "events_but X s'" "ev_keeps s1 s'"
      "\<forall>u. status (threads s' u) = (if u \<in> set (p_threads (procs s p)) \<and> interrupts s1 u (ev_no (info node))
        then THR_TSTATE_READY else status (threads s1 u))" by blast
  have "ev_send_to_process s p node = Some s'"
    using q0 q(1) s'(1) ev_que_add_same_events [OF q0(1)] by (simp add: ev_send_to_process_def s1_def)
  moreover have "interrupts s1 = interrupts s" "threads s1 = threads s" by (simp_all add: s1_def)
  ultimately show ?thesis using q(3,4) s' unfolding s1_def by (intro exI [of _ q] exI [of _ s']) simp
qed

lemma ev_send_ok:
  assumes inv: "events_inv s" and no: "unat (ev_no (info node)) < EV_NR_EVENT"
    and t: "thr_find_thread_by_tid_nolock s dest = Some t" "thr_type (threads s t) \<noteq> THR_TYPE_KERNEL"
  shows "\<exists>q s'. ev_send s dest node = Some (0, s') \<and> posted (evque (threads s t)) node q \<and> events_inv s' \<and>
    ev_keeps (upd_thread s t (evque_update (\<lambda>_. q))) s' \<and>
    (\<forall>u. status (threads s' u) = (if u = t \<and> interrupts s t (ev_no (info node)) then THR_TSTATE_READY else status (threads s u)))"
proof -
  have Q: "evq_ok (evque (threads s t))" using inv by (simp add: events_but_def)
  from post_ok [OF Q no] obtain ev q where
    q: "ev_mask_set (events (evque (threads s t))) (ev_no (info node)) = Some ev"
      "ev_que_add ((evque (threads s t))\<lparr>events := ev\<rparr>) node = Some q" "evq_ok q" "posted (evque (threads s t)) node q"
    by (auto simp: posted_def)
  define s1 where "s1 = upd_thread s t (evque_update (\<lambda>_. q))"
  have "events_inv s1" unfolding s1_def
    by (rule events_but_upd_evque) (use inv q in \<open>auto simp: posted_def\<close>)
  from wake_if_deliverable_ok [OF this no, of t] obtain s' where
    s': "wake_if_deliverable s1 t (ev_no (info node)) = Some s'" "events_inv s'" "ev_keeps s1 s'"
      "\<forall>u. status (threads s' u) = (if u = t \<and> interrupts s1 t (ev_no (info node)) then THR_TSTATE_READY else status (threads s1 u))"
    by blast
  have "ev_send s dest node = Some (0, s')"
    using t q(1,2) s'(1) no by (simp add: ev_send_def s1_def Let_def)
  moreover have "interrupts s1 t = interrupts s t" "\<forall>u. status (threads s1 u) = status (threads s u)"
    using q(4) by (auto simp: s1_def interrupts_def posted_def thr_wait_intr_def thr_wait_killable_def)
  ultimately show ?thesis using q(4) s' unfolding s1_def by (intro exI [of _ q] exI [of _ s']) simp
qed

section \<open>Exit of a thread\<close>

abbreviation cur_p :: "'a kernel_scheme \<Rightarrow> nat" where
  "cur_p s \<equiv> thr_p (threads s (current s))"

abbreviation cur_evque :: "'a kernel_scheme \<Rightarrow> event_queue" where
  "cur_evque s \<equiv> evque (threads s (current s))"

abbreviation proc_que :: "'a kernel_scheme \<Rightarrow> nat \<Rightarrow> event_node list list" where
  "proc_que s p \<equiv> que (p_evque (procs s p))"

text \<open>A node the exiting thread does not hand over.\<close>

definition drops :: "'a kernel_scheme \<Rightarrow> event_node \<Rightarrow> bool" where
  "drops s x \<longleftrightarrow> current s = p_master (procs s (cur_p s)) \<or> ev_flags (info x) AND EV_FLAGS_THREAD_SPECIFIC \<noteq> 0"

text \<open>What the hand-over leaves alone.\<close>

definition exit_frame :: "'a kernel_scheme \<Rightarrow> 'a kernel_scheme \<Rightarrow> bool" where
  "exit_frame s s' \<longleftrightarrow> current s' = current s \<and> idle_thread s' = idle_thread s \<and>
     thr_created_tree s' = thr_created_tree s \<and> kernel.more s' = kernel.more s \<and>
     (\<forall>u. thr_p (threads s' u) = thr_p (threads s u) \<and> thr_type (threads s' u) = thr_type (threads s u) \<and>
        prio (threads s' u) = prio (threads s u) \<and> tid (threads s' u) = tid (threads s u) \<and>
        masks (evque (threads s' u)) = masks (evque (threads s u)) \<and>
        (u \<noteq> current s \<longrightarrow> evque (threads s' u) = evque (threads s u))) \<and>
     (\<forall>p. p_threads (procs s' p) = p_threads (procs s p) \<and> p_master (procs s' p) = p_master (procs s p) \<and>
        (p \<noteq> cur_p s \<longrightarrow> procs s' p = procs s p))"

lemma exit_frame_refl [simp]: "exit_frame s s"
  by (simp add: exit_frame_def)

lemma exit_frame_trans: "exit_frame s s' \<Longrightarrow> exit_frame s' s'' \<Longrightarrow> exit_frame s s''"
  unfolding exit_frame_def by metis

lemma drops_frame: "exit_frame s s' \<Longrightarrow> drops s' = drops s"
  by (simp add: exit_frame_def drops_def fun_eq_iff)

text \<open>The threads a list of events wakes.\<close>

definition woken :: "'a kernel_scheme \<Rightarrow> event_node list \<Rightarrow> nat \<Rightarrow> bool" where
  "woken s ns u \<longleftrightarrow> u \<in> set (p_threads (procs s (cur_p s))) \<and> (\<exists>x \<in> set ns. \<not> drops s x \<and> interrupts s u (ev_no (info x)))"

definition wakes :: "'a kernel_scheme \<Rightarrow> event_node list \<Rightarrow> 'a kernel_scheme \<Rightarrow> bool" where
  "wakes s ns s' \<longleftrightarrow> (\<forall>u. status (threads s' u) = (if woken s ns u then THR_TSTATE_READY else status (threads s u)))"

lemma wakes_nil [simp]: "wakes s [] s"
  by (simp add: wakes_def woken_def)

lemma interrupts_frame:
  "exit_frame s s' \<Longrightarrow> status (threads s' u) = status (threads s u) \<Longrightarrow> interrupts s' u no = interrupts s u no"
  by (simp add: interrupts_def exit_frame_def thr_wait_intr_def thr_wait_killable_def)

lemma wakes_append:
  assumes "wakes s ms s'" and "wakes s' ns s''" and "exit_frame s s'"
  shows "wakes s (ms @ ns) s''"
  unfolding wakes_def
proof
  fix u
  have p: "p_threads (procs s' (cur_p s')) = p_threads (procs s (cur_p s))" using assms(3) by (simp add: exit_frame_def)
  show "status (threads s'' u) = (if woken s (ms @ ns) u then THR_TSTATE_READY else status (threads s u))"
  proof (cases "woken s ms u")
    case True
    then show ?thesis using assms(1,2) by (auto simp: wakes_def woken_def)
  next
    case False
    then have st: "status (threads s' u) = status (threads s u)" using assms(1) by (simp add: wakes_def)
    have "woken s' ns u = woken s ns u"
      using interrupts_frame [OF assms(3) st] p by (simp add: woken_def drops_frame [OF assms(3)])
    moreover have "woken s (ms @ ns) u = woken s ns u" using False by (auto simp: woken_def)
    ultimately show ?thesis using assms(2) st by (simp add: wakes_def)
  qed
qed

lemma evque_update_const: "evque_update f t = evque_update (\<lambda>_. f (evque t)) t"
  by (cases t) simp

lemma que_update_same: "que q ! i = ns \<Longrightarrow> q\<lparr>que := (que q)[i := ns]\<rparr> = q"
  by (cases q) (auto simp: list_update_same_conv)

lemma exit_drop_ok:
  fixes s :: "'a kernel_scheme" and ns :: "event_node list"
  assumes inv: "events_but {current s} s" and i: "i < length (que (cur_evque s))"
  defines "s1 \<equiv> upd_thread s (current s) (evque_update (\<lambda>q. q\<lparr>que := (que q)[i := ns]\<rparr>))"
  shows "events_but {current s1} s1" and "exit_frame s s1" and "wakes s [] s1" and "procs s1 = procs s"
    and "cur_evque s1 = (cur_evque s)\<lparr>que := (que (cur_evque s))[i := ns]\<rparr>"
proof -
  have "s1 = upd_thread s (current s) (evque_update (\<lambda>_. (cur_evque s)\<lparr>que := (que (cur_evque s))[i := ns]\<rparr>))"
    unfolding s1_def upd_thread_def evque_update_const [of "\<lambda>q. q\<lparr>que := (que q)[i := ns]\<rparr>"] ..
  then have "events_but {current s} s1" using events_but_upd_evque [OF inv] by auto
  then show "events_but {current s1} s1" by (simp add: s1_def)
qed (auto simp: s1_def exit_frame_def wakes_def woken_def upd_thread_def)

lemma exit_hand_over_ok:
  assumes inv: "events_but {current s} s" and no: "unat (ev_no (info x)) < EV_NR_EVENT" and d: "\<not> drops s x"
  shows "\<exists>s'. ev_send_to_process s (cur_p s) x = Some s' \<and> events_but {current s'} s' \<and> exit_frame s s' \<and> wakes s [x] s' \<and>
    cur_evque s' = cur_evque s \<and> proc_que s' (cur_p s) = (proc_que s (cur_p s))
      [unat (ev_no (info x)) := proc_que s (cur_p s) ! unat (ev_no (info x)) @ [x]]"
proof -
  from ev_send_to_process_ok [OF inv no, of "cur_p s"] obtain q s' where
    s': "ev_send_to_process s (cur_p s) x = Some s'" "posted (p_evque (procs s (cur_p s))) x q" "events_but {current s} s'"
      "ev_keeps (upd_proc s (cur_p s) (p_evque_update (\<lambda>_. q))) s'"
      "\<forall>u. status (threads s' u) = (if u \<in> set (p_threads (procs s (cur_p s))) \<and> interrupts s u (ev_no (info x))
        then THR_TSTATE_READY else status (threads s u))" by blast
  then show ?thesis using d
    by (intro exI [of _ s']) (simp add: ev_keeps_def exit_frame_def posted_def wakes_def woken_def)
qed

lemma exit_nodes_ok:
  assumes "events_but {current s} s" and "length (que (cur_evque s)) = EV_NR_EVENT" and "i < EV_NR_EVENT"
    and "que (cur_evque s) ! i = ns" and "\<forall>x \<in> set ns. unat (ev_no (info x)) = i"
  shows "\<exists>s'. exit_nodes s i ns = Some (filter (drops s) ns, s') \<and> events_but {current s'} s' \<and> exit_frame s s' \<and>
    wakes s ns s' \<and> cur_evque s' = (cur_evque s)\<lparr>que := (que (cur_evque s))[i := []]\<rparr> \<and>
    proc_que s' (cur_p s) = (proc_que s (cur_p s))[i := proc_que s (cur_p s) ! i @ filter (\<lambda>x. \<not> drops s x) ns]"
  using assms
proof (induction ns arbitrary: s)
  case Nil
  then show ?case by (simp add: que_update_same)
next
  case (Cons x ns)
  have il: "i < length (que (cur_evque s))" using Cons.prems(2,3) by simp
  define s1 where "s1 = upd_thread s (current s) (evque_update (\<lambda>q. q\<lparr>que := (que q)[i := ns]\<rparr>))"
  note s1 = exit_drop_ok [OF Cons.prems(1) il, of ns, folded s1_def]
  have d1: "drops s1 = drops s" using drops_frame [OF s1(2)] .
  have c1: "current s1 = current s" "cur_p s1 = cur_p s" using s1(2) by (simp_all add: exit_frame_def)
  have x: "unat (ev_no (info x)) = i" using Cons.prems(5) by simp
  have plen: "length (proc_que s (cur_p s)) = EV_NR_EVENT" using Cons.prems(1) by (simp add: events_but_def evq_ok_def)
  have step: "exit_nodes s i (x # ns) = (if drops s x then do { (fr, s') \<leftarrow> exit_nodes s1 i ns; Some (x # fr, s') }
    else do { s' \<leftarrow> ev_send_to_process s1 (cur_p s1) x; exit_nodes s' i ns })"
    unfolding d1 [symmetric] by (simp add: s1_def [symmetric] drops_def Let_def)
  show ?case
  proof (cases "drops s x")
    case True
    have "\<exists>s'. exit_nodes s1 i ns = Some (filter (drops s1) ns, s') \<and> events_but {current s'} s' \<and> exit_frame s1 s' \<and>
      wakes s1 ns s' \<and> cur_evque s' = (cur_evque s1)\<lparr>que := (que (cur_evque s1))[i := []]\<rparr> \<and>
      proc_que s' (cur_p s1) = (proc_que s1 (cur_p s1))[i := proc_que s1 (cur_p s1) ! i @ filter (\<lambda>x. \<not> drops s1 x) ns]"
      using s1 Cons.prems c1 by (intro Cons.IH) auto
    then obtain s' where
      s': "exit_nodes s1 i ns = Some (filter (drops s) ns, s')" "events_but {current s'} s'" "exit_frame s1 s'"
        "wakes s1 ns s'" "cur_evque s' = (cur_evque s1)\<lparr>que := (que (cur_evque s1))[i := []]\<rparr>"
        "proc_que s' (cur_p s) = (proc_que s (cur_p s))[i := proc_que s (cur_p s) ! i @ filter (\<lambda>x. \<not> drops s x) ns]"
      unfolding d1 c1(2) s1(4) by blast
    have "wakes s ([x] @ ns) s'"
    proof (rule wakes_append [OF _ s'(4) s1(2)])
      show "wakes s [x] s1" using s1(3) True by (simp add: wakes_def woken_def)
    qed
    then show ?thesis using s' s1 True exit_frame_trans [OF s1(2) s'(3)] by (intro exI [of _ s']) (simp add: step del: exit_nodes.simps)
  next
    case False
    have no: "unat (ev_no (info x)) < EV_NR_EVENT" using x Cons.prems(3) by simp
    have nd: "\<not> drops s1 x" using False by (simp add: d1)
    from exit_hand_over_ok [OF s1(1) no nd] obtain s2 where
      s2: "ev_send_to_process s1 (cur_p s) x = Some s2" "events_but {current s2} s2" "exit_frame s1 s2" "wakes s1 [x] s2"
        "cur_evque s2 = cur_evque s1" "proc_que s2 (cur_p s) = (proc_que s (cur_p s))[i := proc_que s (cur_p s) ! i @ [x]]"
      unfolding x c1(2) s1(4) by (elim exE conjE) (rule that)
    have f2: "exit_frame s s2" using exit_frame_trans [OF s1(2) s2(3)] .
    have c2: "current s2 = current s" "cur_p s2 = cur_p s" using f2 by (simp_all add: exit_frame_def)
    have d2: "drops s2 = drops s" using drops_frame [OF f2] .
    have w2: "wakes s ([] @ [x]) s2" using s1(3) s2(4) s1(2) by (rule wakes_append)
    have "\<exists>s'. exit_nodes s2 i ns = Some (filter (drops s2) ns, s') \<and> events_but {current s'} s' \<and> exit_frame s2 s' \<and>
      wakes s2 ns s' \<and> cur_evque s' = (cur_evque s2)\<lparr>que := (que (cur_evque s2))[i := []]\<rparr> \<and>
      proc_que s' (cur_p s2) = (proc_que s2 (cur_p s2))[i := proc_que s2 (cur_p s2) ! i @ filter (\<lambda>x. \<not> drops s2 x) ns]"
      using s2 s1 Cons.prems by (intro Cons.IH) auto
    then obtain s' where
      s': "exit_nodes s2 i ns = Some (filter (drops s) ns, s')" "events_but {current s'} s'" "exit_frame s2 s'"
        "wakes s2 ns s'" "cur_evque s' = (cur_evque s1)\<lparr>que := (que (cur_evque s1))[i := []]\<rparr>"
        "proc_que s' (cur_p s) = (proc_que s (cur_p s))[i := (proc_que s (cur_p s) ! i @ [x]) @ filter (\<lambda>x. \<not> drops s x) ns]"
      unfolding d2 c2(2) s2(5,6) using plen Cons.prems(3) by auto
    have "wakes s ([x] @ ns) s'" using w2 s'(4) f2 by (intro wakes_append) simp_all
    then show ?thesis using s' s1 s2(1) False exit_frame_trans [OF f2 s'(3)] by (intro exI [of _ s']) (simp add: step c1(2) del: exit_nodes.simps)
  qed
qed

text \<open>Every list of the queue holds nodes of its own number.\<close>

definition numbered :: "event_node list list \<Rightarrow> bool" where
  "numbered qs \<longleftrightarrow> length qs = EV_NR_EVENT \<and> (\<forall>n < EV_NR_EVENT. \<forall>x \<in> set (qs ! n). unat (ev_no (info x)) = n)"

lemma evq_ok_numbered: "evq_ok q \<Longrightarrow> numbered (que q)"
  by (simp add: evq_ok_def numbered_def)

lemma numbered_clear: "numbered qs \<Longrightarrow> numbered (qs[i := []])"
  by (cases "i < length qs") (auto simp: numbered_def nth_list_update)

lemma events_unset_ok:
  assumes inv: "events_but {current s} s" and ev: "mask_ok ev"
  defines "s1 \<equiv> upd_thread s (current s) (evque_update (\<lambda>q. q\<lparr>events := ev\<rparr>))"
  shows "events_but {current s1} s1" and "exit_frame s s1" and "wakes s [] s1" and "procs s1 = procs s"
    and "cur_evque s1 = (cur_evque s)\<lparr>events := ev\<rparr>"
proof -
  have "s1 = upd_thread s (current s) (evque_update (\<lambda>_. (cur_evque s)\<lparr>events := ev\<rparr>))"
    unfolding s1_def upd_thread_def evque_update_const [of "\<lambda>q. q\<lparr>events := ev\<rparr>"] ..
  then have "events_but {current s} s1" using events_but_upd_evque [OF inv] by auto
  then show "events_but {current s1} s1" by (simp add: s1_def)
qed (auto simp: s1_def exit_frame_def wakes_def woken_def upd_thread_def)

text \<open>One round of the loop over the event numbers.\<close>

lemma exit_round_ok:
  assumes inv: "events_but {current s} s" and num: "numbered (que (cur_evque s))" and i: "i < EV_NR_EVENT"
    and mk: "mask_ok (events (cur_evque s))"
  defines "ns \<equiv> que (cur_evque s) ! i"
  shows "\<exists>s'. (\<forall>k. exit_events s i (Suc k) =
        do { (fr', s'') \<leftarrow> exit_events s' (Suc i) k; Some (filter (drops s) ns @ fr', s'') }) \<and>
    events_but {current s'} s' \<and> exit_frame s s' \<and> wakes s ns s' \<and> que (cur_evque s') = (que (cur_evque s))[i := []] \<and>
    mask_ok (events (cur_evque s')) \<and> ev_set (events (cur_evque s')) = ev_set (events (cur_evque s)) - {i} \<and>
    proc_que s' (cur_p s) = (proc_que s (cur_p s))[i := proc_que s (cur_p s) ! i @ filter (\<lambda>x. \<not> drops s x) ns]"
proof -
  have len: "length (que (cur_evque s)) = EV_NR_EVENT" and n: "\<forall>x \<in> set ns. unat (ev_no (info x)) = i"
    using num i by (simp_all add: numbered_def ns_def)
  from exit_nodes_ok [OF inv len i ns_def [symmetric, THEN meta_eq_to_obj_eq] n] obtain s1 where
    s1: "exit_nodes s i ns = Some (filter (drops s) ns, s1)" "events_but {current s1} s1" "exit_frame s s1" "wakes s ns s1"
      "cur_evque s1 = (cur_evque s)\<lparr>que := (que (cur_evque s))[i := []]\<rparr>"
      "proc_que s1 (cur_p s) = (proc_que s (cur_p s))[i := proc_que s (cur_p s) ! i @ filter (\<lambda>x. \<not> drops s x) ns]"
    by (elim exE conjE) (rule that)
  have un: "unat (of_nat i :: u64) = i" using i by (simp add: unat_of_nat)
  from ev_mask_unset_eq [OF mk, of "of_nat i"] un i obtain ev where
    ev: "ev_mask_unset (events (cur_evque s)) (of_nat i) = Some ev" "mask_ok ev" "ev_set ev = ev_set (events (cur_evque s)) - {i}"
    by auto
  define s' where "s' = upd_thread s1 (current s1) (evque_update (\<lambda>q. q\<lparr>events := ev\<rparr>))"
  note s' = events_unset_ok [OF s1(2) ev(2), folded s'_def]
  have e1: "que (cur_evque s1) = (que (cur_evque s))[i := []]" "events (cur_evque s1) = events (cur_evque s)" using s1(5) by simp_all
  have run: "exit_events s i (Suc k) = do { (fr', s'') \<leftarrow> exit_events s' (Suc i) k; Some (filter (drops s) ns @ fr', s'') }" for k
    using len i s1(1) ev(1) by (simp add: ns_def e1 s'_def)
  have "wakes s (ns @ []) s'" using s1(4) s'(3) s1(3) by (rule wakes_append)
  moreover have "exit_frame s s'" using s1(3) s'(2) by (rule exit_frame_trans)
  ultimately show ?thesis using run s' s1(6) ev(2,3) e1 by (intro exI [of _ s']) simp
qed

lemma exit_events_ok:
  assumes "events_but {current s} s" and "numbered (que (cur_evque s))" and "i + k = EV_NR_EVENT"
    and "mask_ok (events (cur_evque s))"
  shows "\<exists>s'. exit_events s i k = Some (filter (drops s) (concat (drop i (que (cur_evque s)))), s') \<and>
    events_but {current s'} s' \<and> exit_frame s s' \<and> wakes s (concat (drop i (que (cur_evque s)))) s' \<and>
    que (cur_evque s') = take i (que (cur_evque s)) @ replicate k [] \<and>
    mask_ok (events (cur_evque s')) \<and> ev_set (events (cur_evque s')) = {n \<in> ev_set (events (cur_evque s)). n < i} \<and>
    (\<forall>n < EV_NR_EVENT. proc_que s' (cur_p s) ! n = proc_que s (cur_p s) ! n @
       (if i \<le> n then filter (\<lambda>x. \<not> drops s x) (que (cur_evque s) ! n) else []))"
  using assms
proof (induction k arbitrary: s i)
  case 0
  then have "i = EV_NR_EVENT" "length (que (cur_evque s)) = EV_NR_EVENT" by (simp_all add: numbered_def)
  then show ?case using 0 ev_set_lt by auto
next
  case (Suc k)
  define ns where "ns = que (cur_evque s) ! i"
  have i: "i < EV_NR_EVENT" and len: "length (que (cur_evque s)) = EV_NR_EVENT"
    using Suc.prems by (simp_all add: numbered_def)
  from exit_round_ok [OF Suc.prems(1,2) i Suc.prems(4), folded ns_def] obtain s1 where
    s1: "\<forall>k. exit_events s i (Suc k) = do { (fr', s'') \<leftarrow> exit_events s1 (Suc i) k; Some (filter (drops s) ns @ fr', s'') }"
      "events_but {current s1} s1" "exit_frame s s1" "wakes s ns s1" "que (cur_evque s1) = (que (cur_evque s))[i := []]"
      "mask_ok (events (cur_evque s1))" "ev_set (events (cur_evque s1)) = ev_set (events (cur_evque s)) - {i}"
      "proc_que s1 (cur_p s) = (proc_que s (cur_p s))[i := proc_que s (cur_p s) ! i @ filter (\<lambda>x. \<not> drops s x) ns]"
    by (elim exE conjE) (rule that)
  have d: "drops s1 = drops s" and p: "cur_p s1 = cur_p s"
    using drops_frame [OF s1(3)] s1(3) by (simp_all add: exit_frame_def)
  have plen: "length (proc_que s (cur_p s)) = EV_NR_EVENT" using Suc.prems(1) by (simp add: events_but_def evq_ok_def)
  have num: "numbered (que (cur_evque s1))" using Suc.prems(2) by (simp add: s1(5) numbered_clear)
  have "Suc i + k = EV_NR_EVENT" using Suc.prems(3) by simp
  from Suc.IH [OF s1(2) num this s1(6), unfolded d p s1(5)] obtain s' where
    s': "exit_events s1 (Suc i) k = Some (filter (drops s) (concat (drop (Suc i) ((que (cur_evque s))[i := []]))), s')"
      "events_but {current s'} s'" "exit_frame s1 s'" "wakes s1 (concat (drop (Suc i) ((que (cur_evque s))[i := []]))) s'"
      "que (cur_evque s') = take (Suc i) ((que (cur_evque s))[i := []]) @ replicate k []" "mask_ok (events (cur_evque s'))"
      "ev_set (events (cur_evque s')) = {n \<in> ev_set (events (cur_evque s1)). n < Suc i}"
      "\<forall>n < EV_NR_EVENT. proc_que s' (cur_p s) ! n = proc_que s1 (cur_p s) ! n @
         (if Suc i \<le> n then filter (\<lambda>x. \<not> drops s x) ((que (cur_evque s))[i := []] ! n) else [])"
    by (elim exE conjE) (rule that)
  have dr: "drop i (que (cur_evque s)) = ns # drop (Suc i) (que (cur_evque s))"
    using i len by (simp add: ns_def Cons_nth_drop_Suc)
  have "wakes s (ns @ concat (drop (Suc i) (que (cur_evque s)))) s'"
    using s1(4) s'(4) s1(3) by (intro wakes_append) simp_all
  moreover have "que (cur_evque s') = take i (que (cur_evque s)) @ replicate (Suc k) []"
    using i len by (simp add: s'(5) take_Suc_conv_app_nth take_update_cancel replicate_append_same)
  moreover have "proc_que s' (cur_p s) ! n = proc_que s (cur_p s) ! n @
      (if i \<le> n then filter (\<lambda>x. \<not> drops s x) (que (cur_evque s) ! n) else [])" if "n < EV_NR_EVENT" for n
    using s'(8) that s1(8) plen i by (cases "n = i") (auto simp: ns_def not_less_eq_eq)
  moreover have "ev_set (events (cur_evque s')) = {n \<in> ev_set (events (cur_evque s)). n < i}"
    using s'(7) s1(7) by (auto simp: less_Suc_eq)
  ultimately show ?case
    using s' s1(1) exit_frame_trans [OF s1(3) s'(3)] by (intro exI [of _ s']) (simp add: dr del: exit_events.simps)
qed

section \<open>Properties\<close>

text \<open>
  Claim C30. \<open>ev_send\<close> fails with \<^verbatim>\<open>-ENOENT\<close> for an unknown or exiting thread and with
  \<^verbatim>\<open>-EPERM\<close> for a kernel thread, without effect.  Otherwise the node is appended to the
  list of its number in the queue of exactly that thread and marked pending, and the thread is
  made ready if and only if it waits interruptibly and does not mask the event; the ready
  queues and all event queues stay well-formed and nothing else changes.
\<close>

theorem ev_send_spec:
  assumes "events_inv s" and "unat (ev_no (info node)) < EV_NR_EVENT"
  shows "case thr_find_thread_by_tid_nolock s dest of
      None \<Rightarrow> ev_send s dest node = Some (- ENOENT, s)
    | Some t \<Rightarrow>
        if thr_type (threads s t) = THR_TYPE_KERNEL then ev_send s dest node = Some (- EPERM, s)
        else \<exists>q s'. ev_send s dest node = Some (0, s') \<and> posted (evque (threads s t)) node q \<and> events_inv s' \<and>
          ev_keeps (upd_thread s t (evque_update (\<lambda>_. q))) s' \<and>
          (\<forall>u. status (threads s' u) =
             (if u = t \<and> interrupts s t (ev_no (info node)) then THR_TSTATE_READY else status (threads s u)))"
proof (cases "thr_find_thread_by_tid_nolock s dest")
  case None
  then show ?thesis by (simp add: ev_send_def)
next
  case (Some t)
  show ?thesis
  proof (cases "thr_type (threads s t) = THR_TYPE_KERNEL")
    case True
    then show ?thesis using Some by (simp add: ev_send_def)
  next
    case False
    then show ?thesis using ev_send_ok [OF assms Some False] by (simp add: Some)
  qed
qed

lemma small_kernel_events: "events_inv small_kernel"
proof -
  have "evque (threads small_kernel t) = ev_queue_init" "p_evque (procs small_kernel p) = ev_queue_init"
    "status (threads small_kernel (current small_kernel)) = THR_TSTATE_READY" for t p
    by (simp_all add: small_kernel_def)
  moreover have "mask_ok (masks ev_queue_init)" using ev_queue_init_ok by (simp add: evq_ok_def)
  ultimately show ?thesis
    by (simp add: events_but_def small_kernel_inv ev_queue_init_ok thr_wait_intr_def thr_wait_killable_def)
qed

text \<open>An event of number 5 that any thread of the process may take.\<close>

definition some_node :: event_node where
  "some_node = \<lparr>node_addr = 1, info = zero_evinfo\<lparr>ev_no := 5\<rparr>\<rparr>"

theorem ev_send_spec_witness:
  "case thr_find_thread_by_tid_nolock small_kernel 3 of
      None \<Rightarrow> ev_send small_kernel 3 some_node = Some (- ENOENT, small_kernel)
    | Some t \<Rightarrow>
        if thr_type (threads small_kernel t) = THR_TYPE_KERNEL then ev_send small_kernel 3 some_node = Some (- EPERM, small_kernel)
        else \<exists>q s'. ev_send small_kernel 3 some_node = Some (0, s') \<and> posted (evque (threads small_kernel t)) some_node q \<and>
          events_inv s' \<and> ev_keeps (upd_thread small_kernel t (evque_update (\<lambda>_. q))) s' \<and>
          (\<forall>u. status (threads s' u) =
             (if u = t \<and> interrupts small_kernel t (ev_no (info some_node)) then THR_TSTATE_READY else status (threads small_kernel u)))"
  by (rule ev_send_spec [OF small_kernel_events]) (simp add: some_node_def)

text \<open>
  When a thread exits, every node still in its event queue is disposed of once: the
  thread-specific ones, or all of them when the thread is the master of its process, are freed
  in the order of their numbers; the others are appended in order to the lists of the process,
  which stays well-formed, and exactly the threads of the process whose interruptible wait such
  an event ends are made ready.  The queue of the exiting thread ends empty with no number
  marked pending.
\<close>

theorem ev_handle_exit_thread_events_spec:
  assumes inv: "events_inv s" and "status (threads s (current s)) = THR_TSTATE_EXIT"
  shows "\<exists>s'. ev_handle_exit_thread_events s = Some (filter (drops s) (concat (que (cur_evque s))), s') \<and>
    events_inv s' \<and> exit_frame s s' \<and> wakes s (concat (que (cur_evque s))) s' \<and>
    que (cur_evque s') = replicate EV_NR_EVENT [] \<and> ev_set (events (cur_evque s')) = {} \<and>
    (\<forall>n < EV_NR_EVENT. proc_que s' (cur_p s) ! n = proc_que s (cur_p s) ! n @ filter (\<lambda>x. \<not> drops s x) (que (cur_evque s) ! n))"
proof -
  have Q: "evq_ok (cur_evque s)" using inv by (simp add: events_but_def)
  have "events_but {current s} s" using inv by (simp add: events_but_def)
  moreover have "numbered (que (cur_evque s))" using Q by (rule evq_ok_numbered)
  moreover have "mask_ok (events (cur_evque s))" using Q by (simp add: evq_ok_def)
  ultimately obtain s' where
    s': "exit_events s 0 EV_NR_EVENT = Some (filter (drops s) (concat (drop 0 (que (cur_evque s)))), s')"
      "events_but {current s'} s'" "exit_frame s s'" "wakes s (concat (drop 0 (que (cur_evque s)))) s'"
      "que (cur_evque s') = take 0 (que (cur_evque s)) @ replicate EV_NR_EVENT []"
      "mask_ok (events (cur_evque s'))" "ev_set (events (cur_evque s')) = {n \<in> ev_set (events (cur_evque s)). n < 0}"
      "\<forall>n < EV_NR_EVENT. proc_que s' (cur_p s) ! n = proc_que s (cur_p s) ! n @
         (if 0 \<le> n then filter (\<lambda>x. \<not> drops s x) (que (cur_evque s) ! n) else [])"
    using exit_events_ok [of s 0 EV_NR_EVENT] by auto
  have "mask_ok (masks (cur_evque s'))" using s'(2) by (simp add: events_but_def)
  then have "evq_ok (cur_evque s')" using s'(5,6,7) by (simp add: evq_ok_def)
  then have "events_inv s'" using s'(2) unfolding events_but_def by (metis empty_iff insert_iff)
  moreover have "ev_handle_exit_thread_events s = exit_events s 0 EV_NR_EVENT"
    using assms(2) by (simp add: ev_handle_exit_thread_events_def)
  ultimately show ?thesis using s' by (intro exI [of _ s']) simp
qed

text \<open>The current thread exits with an event pending that its process gets.\<close>

definition some_evque :: event_queue where
  "some_evque = \<lparr>events = \<lparr>map_words = [32, 0]\<rparr>, masks = \<lparr>map_words = [0, 0]\<rparr>, que = (replicate EV_NR_EVENT [])[5 := [some_node]]\<rparr>"

definition exit_kernel :: kernel where
  "exit_kernel = upd_thread (small_kernel\<lparr>procs := (\<lambda>_. \<lparr>p_evque = ev_queue_init, p_threads = [1, 2, 3], p_master = 2\<rparr>)\<rparr>) 1
     (\<lambda>t. t\<lparr>status := THR_TSTATE_EXIT, evque := some_evque\<rparr>)"

lemma some_evque_ok: "evq_ok some_evque"
proof -
  have r: "replicate 2 (0::u64) = [0, 0]" by (simp add: numeral_2_eq_2)
  have "\<exists>ev q'. ev_mask_set (events ev_queue_init) (ev_no (info some_node)) = Some ev \<and>
    ev_que_add (ev_queue_init\<lparr>events := ev\<rparr>) some_node = Some q' \<and> evq_ok q'"
    using post_ok [OF ev_queue_init_ok, of some_node] by (auto simp: some_node_def)
  moreover have "ev_mask_set (events ev_queue_init) 5 = Some \<lparr>map_words = [32, 0]\<rparr>"
    by (simp add: ev_mask_set_def ev_mask_set_impl_def ev_queue_init_def Let_def r arr_set_def)
  ultimately show ?thesis
    by (simp add: some_node_def ev_que_add_def some_evque_def ev_queue_init_def Let_def r)
qed

lemma exit_kernel_events: "events_inv exit_kernel"
proof -
  have "queues_hold small_kernel {1}" using small_kernel_inv by (simp add: sched_inv_def) (simp add: small_kernel_def)
  then have "queues_hold exit_kernel {1}"
    by (rule queues_hold_cong) (simp_all add: exit_kernel_def)
  then have "sched_inv exit_kernel" by (simp add: sched_inv_def) (simp add: exit_kernel_def small_kernel_def)
  moreover have "evque (threads exit_kernel t) = (if t = 1 then some_evque else ev_queue_init)"
    "p_evque (procs exit_kernel p) = ev_queue_init" "status (threads exit_kernel (current exit_kernel)) = THR_TSTATE_EXIT" for t p
    by (simp_all add: exit_kernel_def small_kernel_def)
  moreover have "mask_ok (masks ev_queue_init)" "mask_ok (masks some_evque)"
    using ev_queue_init_ok some_evque_ok by (simp_all add: evq_ok_def)
  ultimately show ?thesis
    by (simp add: events_but_def ev_queue_init_ok some_evque_ok thr_wait_intr_def thr_wait_killable_def)
qed

theorem ev_handle_exit_thread_events_spec_witness:
  "\<exists>s'. ev_handle_exit_thread_events exit_kernel = Some (filter (drops exit_kernel) (concat (que (cur_evque exit_kernel))), s') \<and>
    events_inv s' \<and> exit_frame exit_kernel s' \<and> wakes exit_kernel (concat (que (cur_evque exit_kernel))) s' \<and>
    que (cur_evque s') = replicate EV_NR_EVENT [] \<and> ev_set (events (cur_evque s')) = {} \<and>
    (\<forall>n < EV_NR_EVENT. proc_que s' (cur_p exit_kernel) ! n = proc_que exit_kernel (cur_p exit_kernel) ! n @
       filter (\<lambda>x. \<not> drops exit_kernel x) (que (cur_evque exit_kernel) ! n))"
  by (rule ev_handle_exit_thread_events_spec [OF exit_kernel_events]) (simp add: exit_kernel_def small_kernel_def)

text \<open>The lowest number of a set of events, and the node taken from the list of that number.\<close>

definition takes :: "nat set \<Rightarrow> event_queue \<Rightarrow> event_node \<Rightarrow> event_queue \<Rightarrow> bool" where
  "takes D q x q' \<longleftrightarrow> (\<exists>n xs. n \<in> D \<and> (\<forall>m \<in> D. n \<le> m) \<and> que q ! n = x # xs \<and> que q' = (que q)[n := xs] \<and>
     masks q' = masks q \<and> ev_set (events q') = (if xs = [] then ev_set (events q) - {n} else ev_set (events q)))"

lemma dequeue_cases:
  assumes "evq_ok q" and "mask_ok ms"
  defines "D \<equiv> ev_set (events q) - ev_set ms"
  obtains (empty) "D = {}" "dequeue_from_evque_nolock ms q = Some (- ENOENT, None, q)"
    | (node) x q' where "D \<noteq> {}" "dequeue_from_evque_nolock ms q = Some (0, Some x, q')" "evq_ok q'" "takes D q x q'"
  using dequeue_ok [OF assms(1,2), folded D_def]
proof (elim disjE exE conjE)
  fix n x xs q'
  assume *: "n \<in> D" "\<forall>m \<in> D. n \<le> m" "que q ! n = x # xs" "dequeue_from_evque_nolock ms q = Some (0, Some x, q')"
    "evq_ok q'" "que q' = (que q)[n := xs]" "masks q' = masks q"
    "ev_set (events q') = (if xs = [] then ev_set (events q) - {n} else ev_set (events q))"
  have "takes D q x q'" unfolding takes_def using *(1-3,6-8) by (intro exI [of _ n] exI [of _ xs] conjI)
  then show thesis using node * by blast
qed (rule empty)

lemma upd_proc_same: "p_evque (procs s p) = q \<Longrightarrow> upd_proc s p (p_evque_update (\<lambda>_. q)) = s"
  by (cases s, cases "procs s p") (auto simp: upd_proc_def fun_upd_idem_iff)

lemma upd_evque_same: "evque (threads s t) = q \<Longrightarrow> upd_thread s t (evque_update (\<lambda>_. q)) = s"
  by (cases s, cases "threads s t") (auto simp: upd_thread_def fun_upd_idem_iff)

text \<open>
  Claim C31. \<open>ev_dequeue\<close> always returns.  It takes an event of the process before one of the
  thread: the oldest node of the lowest pending number that the masks of the current thread let
  through, removing exactly that node; with nothing deliverable in either queue it returns
  \<^verbatim>\<open>-ENOENT\<close> and changes nothing.
\<close>

theorem ev_dequeue_spec:
  assumes inv: "events_inv s"
  defines "q \<equiv> p_evque (procs s (cur_p s))"
  defines "P \<equiv> ev_set (events q) - ev_set (ev_get_mask s)"
  defines "T \<equiv> ev_set (events (cur_evque s)) - ev_set (ev_get_mask s)"
  shows "\<exists>rc node s'. ev_dequeue s = Some (rc, node, s') \<and> events_inv s' \<and>
    (if P \<noteq> {} then \<exists>x q'. rc = 0 \<and> node = Some x \<and> takes P q x q' \<and> s' = upd_proc s (cur_p s) (p_evque_update (\<lambda>_. q'))
     else if T \<noteq> {} then \<exists>x q'. rc = 0 \<and> node = Some x \<and> takes T (cur_evque s) x q' \<and>
       s' = upd_thread s (current s) (evque_update (\<lambda>_. q'))
     else rc = - ENOENT \<and> node = None \<and> s' = s)"
proof -
  have ok: "evq_ok q" "evq_ok (cur_evque s)" "mask_ok (ev_get_mask s)"
    using inv by (simp_all add: events_but_def q_def ev_get_mask_def)
  show ?thesis
  proof (cases rule: dequeue_cases [OF ok(1,3), folded P_def, case_names empty node])
    case (node x q')
    then have "ev_dequeue s = Some (0, Some x, upd_proc s (cur_p s) (p_evque_update (\<lambda>_. q')))"
      by (simp add: ev_dequeue_def q_def ev_get_mask_def Let_def)
    moreover have "events_inv (upd_proc s (cur_p s) (p_evque_update (\<lambda>_. q')))"
      using inv node(3) by (rule events_but_upd_proc)
    ultimately show ?thesis using node by auto
  next
    case empty
    then have run: "ev_dequeue s = do { (rc, node, q') \<leftarrow> dequeue_from_evque_nolock (ev_get_mask s) (cur_evque s);
        Some (rc, node, upd_thread s (current s) (evque_update (\<lambda>_. q'))) }"
      by (simp add: ev_dequeue_def q_def ev_get_mask_def Let_def upd_proc_same)
    show ?thesis
    proof (cases rule: dequeue_cases [OF ok(2,3), folded T_def, case_names none node])
      case none
      then show ?thesis using empty(1) run inv by (simp add: upd_evque_same)
    next
      case (node x q')
      have "masks q' = masks (cur_evque s)" using node(4) by (auto simp: takes_def)
      then have "events_inv (upd_thread s (current s) (evque_update (\<lambda>_. q')))"
        using inv node(3) by (intro events_but_upd_evque) simp_all
      then show ?thesis using node empty(1) run by auto
    qed
  qed
qed

theorem ev_dequeue_spec_witness:
  "\<exists>rc node s'. ev_dequeue exit_kernel = Some (rc, node, s') \<and> events_inv s' \<and>
    (if ev_set (events (p_evque (procs exit_kernel (cur_p exit_kernel)))) - ev_set (ev_get_mask exit_kernel) \<noteq> {}
     then \<exists>x q'. rc = 0 \<and> node = Some x \<and>
       takes (ev_set (events (p_evque (procs exit_kernel (cur_p exit_kernel)))) - ev_set (ev_get_mask exit_kernel))
         (p_evque (procs exit_kernel (cur_p exit_kernel))) x q' \<and>
       s' = upd_proc exit_kernel (cur_p exit_kernel) (p_evque_update (\<lambda>_. q'))
     else if ev_set (events (cur_evque exit_kernel)) - ev_set (ev_get_mask exit_kernel) \<noteq> {} then \<exists>x q'. rc = 0 \<and> node = Some x \<and>
       takes (ev_set (events (cur_evque exit_kernel)) - ev_set (ev_get_mask exit_kernel)) (cur_evque exit_kernel) x q' \<and>
       s' = upd_thread exit_kernel (current exit_kernel) (evque_update (\<lambda>_. q'))
     else rc = - ENOENT \<and> node = None \<and> s' = exit_kernel)"
  by (rule ev_dequeue_spec [OF exit_kernel_events])

end
