(* ===== verification/Thread_Sync.thy ===== *)
theory Thread_Sync
  imports Async_Event
begin

text \<open>
  Waiting for and waking on synchronisation objects, \<^verbatim>\<open>src/thr/thread-sync.c\<close>.

  A thread that waits puts a block, which lives on its own stack, into the queue of the object
  and gives up the processor; \<open>sync_wake\<close> takes blocks out of the queue, notes the reason
  in them and makes their threads ready.  Since \<open>sync_wait\<close> spans a context switch it is two
  operations here: \<open>sync_wait_block\<close> is everything up to the switch and \<open>sync_wait_resume\<close>
  everything from the moment the thread has the processor again.

  Taking and releasing a spinlock with interrupts disabled is, for the threads, the nesting of
  the dispatch inhibition: \<open>lock_enter\<close> and \<open>lock_leave\<close> are the effect of
  \<open>spinlock_lock\<close> and \<open>spinlock_unlock\<close> (theory \<open>Thread_Info\<close>) on the current thread,
  including the dispatch that the outermost release may perform.
\<close>

section \<open>Data\<close>

datatype sync_pol = SYNC_WAKE_FLAG_ALL | SYNC_WAKE_FLAG_ONE

datatype sync_reason =
  SYNC_WAI_WAIT | SYNC_WAI_RELEASED | SYNC_OBJ_DESTROYED | SYNC_WAI_TIMEOUT | SYNC_WAI_DELIVEV

record sync_block =
  blk_thr :: nat
  blk_reason :: sync_reason

record sync_obj =
  wait_kind :: thr_state
  so_policy :: sync_pol
  so_que :: "nat list"

text \<open>The blocks and the objects by address.\<close>

record sync_kernel = kernel +
  blocks :: "nat \<Rightarrow> sync_block"
  sync_objs :: "nat \<Rightarrow> sync_obj"

section \<open>Operations\<close>

definition lock_enter :: "'a kernel_scheme \<Rightarrow> 'a kernel_scheme option" where
  "lock_enter s = do {
     ti \<leftarrow> ti_disable_dispatch (thr_ti (threads s (current s)));
     Some (upd_thread s (current s) (thr_ti_update (\<lambda>_. ti)))
   }"

definition lock_leave :: "'a kernel_scheme \<Rightarrow> 'a kernel_scheme option" where
  "lock_leave s = do {
     (sched, ti) \<leftarrow> ti_enable_dispatch (thr_ti (threads s (current s)));
     let s = upd_thread s (current s) (thr_ti_update (\<lambda>_. ti));
     if sched then sched_schedule s else Some s
   }"

definition sync_init_block :: "'a sync_kernel_scheme \<Rightarrow> nat \<Rightarrow> 'a sync_kernel_scheme" where
  "sync_init_block s b = s\<lparr>blocks := (blocks s)(b := \<lparr>blk_thr = current s, blk_reason = SYNC_WAI_WAIT\<rparr>)\<rparr>"

definition sync_init_object :: "sync_pol \<Rightarrow> thr_state \<Rightarrow> sync_obj option" where
  "sync_init_object pol kind = do {
     kassert (valid_wait_status kind);
     Some \<lparr>wait_kind = kind, so_policy = pol, so_que = []\<rparr>
   }"

definition upd_obj :: "'a sync_kernel_scheme \<Rightarrow> nat \<Rightarrow> (sync_obj \<Rightarrow> sync_obj) \<Rightarrow> 'a sync_kernel_scheme" where
  "upd_obj s obj f = s\<lparr>sync_objs := (sync_objs s)(obj := f (sync_objs s obj))\<rparr>"

definition wait_sync_obj_no_schedule :: "'a sync_kernel_scheme \<Rightarrow> nat \<Rightarrow> nat \<Rightarrow> 'a sync_kernel_scheme option" where
  "wait_sync_obj_no_schedule s obj b = do {
     kassert (valid_wait_status (wait_kind (sync_objs s obj)));
     let s = sync_init_block s b;
     s \<leftarrow> lock_enter s;
     let s = upd_thread s (current s) (status_update (\<lambda>_. wait_kind (sync_objs s obj)));
     let s = upd_obj s obj (so_que_update (\<lambda>q. q @ [b]));
     lock_leave s
   }"

definition finish_wait :: "'a sync_kernel_scheme \<Rightarrow> nat \<Rightarrow> nat \<Rightarrow> (sync_reason \<times> 'a sync_kernel_scheme) option" where
  "finish_wait s obj b = do {
     let res = blk_reason (blocks s b);
     s \<leftarrow> lock_enter s;
     let (res, s) =
       (if ev_has_pending_events s (current s) \<and> b \<in> set (so_que (sync_objs s obj))
        then (SYNC_WAI_DELIVEV, upd_obj s obj (so_que_update (remove1 b)))
        else (res, s));
     s \<leftarrow> lock_leave s;
     Some (res, s)
   }"

text \<open>
  \<open>sync_wait\<close> with the callback \<open>sync_spinlocked_callback\<close>, the only one the kernel passes:
  before the switch it releases the lock the caller holds, after it it takes the lock again.
  The release may itself give the processor away when a dispatch was delayed; \<open>Suspended\<close>
  tells whether it did, so that the explicit \<open>sched_schedule\<close> is still to come when the thread
  is back.
\<close>

datatype wait_outcome = Suspended bool | Returned sync_reason

definition sync_wait_block :: "'a sync_kernel_scheme \<Rightarrow> nat \<Rightarrow> nat \<Rightarrow> (wait_outcome \<times> 'a sync_kernel_scheme) option" where
  "sync_wait_block s obj b = do {
     kassert (ti_dispatch_disabled (thr_ti (threads s (current s))));
     kassert (valid_wait_status (wait_kind (sync_objs s obj)));
     let thr = current s;
     s \<leftarrow> wait_sync_obj_no_schedule s obj b;
     if thr_in_wait (threads s thr) then do {
       s \<leftarrow> lock_leave s;
       if current s \<noteq> thr then Some (Suspended True, s)
       else do {
         s \<leftarrow> sched_schedule s;
         Some (Suspended False, s)
       }
     } else do {
       (res, s) \<leftarrow> finish_wait s obj b;
       Some (Returned res, s)
     }
   }"

definition sync_wait_resume :: "bool \<Rightarrow> 'a sync_kernel_scheme \<Rightarrow> nat \<Rightarrow> nat \<Rightarrow> (sync_reason \<times> 'a sync_kernel_scheme) option" where
  "sync_wait_resume in_unlock s obj b = do {
     s \<leftarrow> (if in_unlock then sched_schedule s else Some s);
     s \<leftarrow> lock_enter s;
     finish_wait s obj b
   }"

text \<open>The loop of \<open>sync_wake\<close>; the last argument is the queue it works on.\<close>

fun sync_wake_loop :: "'a sync_kernel_scheme \<Rightarrow> nat \<Rightarrow> sync_reason \<Rightarrow> nat list \<Rightarrow> 'a sync_kernel_scheme option" where
  "sync_wake_loop s obj reason [] = Some s"
| "sync_wake_loop s obj reason (b # bs) = do {
     let s = upd_obj s obj (so_que_update (\<lambda>_. bs));
     let s = s\<lparr>blocks := (blocks s)(b := (blocks s b)\<lparr>blk_reason := reason\<rparr>)\<rparr>;
     s \<leftarrow> sched_wakeup s (blk_thr (blocks s b));
     if so_policy (sync_objs s obj) = SYNC_WAKE_FLAG_ONE then Some s
     else sync_wake_loop s obj reason bs
   }"

definition sync_wake :: "'a sync_kernel_scheme \<Rightarrow> nat \<Rightarrow> sync_reason \<Rightarrow> 'a sync_kernel_scheme option" where
  "sync_wake s obj reason = do {
     s \<leftarrow> lock_enter s;
     if so_que (sync_objs s obj) = [] then lock_leave s
     else do {
       s \<leftarrow> sync_wake_loop s obj reason (so_que (sync_objs s obj));
       s \<leftarrow> lock_leave s;
       if \<not> ti_dispatch_disabled (thr_ti (threads s (current s))) then sched_schedule s else Some s
     }
   }"

section \<open>Dispatch nesting\<close>

abbreviation cur_ti :: "'a kernel_scheme \<Rightarrow> thread_info" where
  "cur_ti s \<equiv> thr_ti (threads s (current s))"

abbreviation cur_status :: "'a kernel_scheme \<Rightarrow> thr_state" where
  "cur_status s \<equiv> status (threads s (current s))"

definition with_ti :: "'a kernel_scheme \<Rightarrow> thread_info \<Rightarrow> 'a kernel_scheme" where
  "with_ti s ti = upd_thread s (current s) (thr_ti_update (\<lambda>_. ti))"

definition quiet :: "thread_info \<Rightarrow> bool" where
  "quiet ti \<longleftrightarrow> preempt ti = 0 \<and> intrcnt ti = 0"

text \<open>Between operations no thread inhibits the dispatcher.\<close>

definition calm :: "'a kernel_scheme \<Rightarrow> bool" where
  "calm s \<longleftrightarrow> (\<forall>t. quiet (thr_ti (threads s t)))"

lemma with_ti_simps [simp]:
  "current (with_ti s ti) = current s" "idle_thread (with_ti s ti) = idle_thread s"
  "cur_ti (with_ti s ti) = ti" "with_ti (with_ti s ti) ti' = with_ti s ti'"
  "threads (with_ti s ti) = (threads s)(current s := (threads s (current s))\<lparr>thr_ti := ti\<rparr>)"
  "procs (with_ti s ti) = procs s" "thr_created_tree (with_ti s ti) = thr_created_tree s"
  "ready_queues (with_ti s ti) = ready_queues s" "rq (with_ti s ti) = rq s" "kernel.more (with_ti s ti) = kernel.more s"
  by (simp_all add: with_ti_def upd_thread_def rq_def fun_eq_iff)

lemma with_ti_inv [simp]: "sched_inv (with_ti s ti) = sched_inv s"
proof -
  have "queues_hold (with_ti s ti) X = queues_hold s X" for X
    by (auto intro: queues_hold_cong [of s X "with_ti s ti"] queues_hold_cong [of "with_ti s ti" X s])
  then show ?thesis by (auto simp: sched_inv_def)
qed

lemma calm_with_ti: "calm s \<Longrightarrow> quiet ti \<Longrightarrow> calm (with_ti s ti)"
  by (simp add: calm_def)

text \<open>What \<open>sched_schedule\<close> leaves in the thread information.\<close>

definition clr_ti :: "thread_info \<Rightarrow> thread_info" where
  "clr_ti ti = (let ti = ti_clr_thread_info ti in ti\<lparr>preempt := preempt ti AND NOT THR_PREEMPT_ACTIVE\<rparr>)"

lemma clr_ti_simps [simp]: "preempt (clr_ti ti) = 0" "intrcnt (clr_ti ti) = intrcnt ti"
  by (simp_all add: clr_ti_def ti_clr_thread_info_def ti_clr_delay_dispatch_def Let_def)

lemma thr_ti_update_const: "thr_ti_update f t = t\<lparr>thr_ti := f (thr_ti t)\<rparr>"
  by (cases t) simp

lemma sched_clr_eq: "sched_clr s = with_ti s (clr_ti (cur_ti s))"
  unfolding sched_clr_def clr_ti_def [symmetric] with_ti_def upd_thread_def
  by (subst thr_ti_update_const [of clr_ti]) (rule refl)

lemma sched_schedule_run:
  assumes "\<not> ti_dispatch_disabled (cur_ti s)" and "cur_status s = THR_TSTATE_RUN"
  shows "sched_schedule s = Some (with_ti s (clr_ti (cur_ti s)))"
  using assms unfolding sched_schedule_def sched_clr_def [symmetric] sched_clr_eq by simp

lemma lock_enter_eq: "lock_enter s = Some (with_ti s ((cur_ti s)\<lparr>preempt := preempt (cur_ti s) + 1\<rparr>))"
  by (simp add: lock_enter_def ti_disable_dispatch_eq with_ti_def)

lemma lock_leave_inner:
  "preempt (cur_ti s) = 2 \<Longrightarrow> lock_leave s = Some (with_ti s ((cur_ti s)\<lparr>preempt := 1\<rparr>))"
  by (simp add: lock_leave_def ti_enable_dispatch_inner with_ti_def)

lemma lock_leave_outer:
  assumes "preempt (cur_ti s) = 1" and "intrcnt (cur_ti s) = 0"
  shows "lock_leave s = (if ti_dispatch_delayed (cur_ti s)
    then sched_schedule (with_ti s ((cur_ti s)\<lparr>preempt := THR_PREEMPT_ACTIVE\<rparr>)) else Some (with_ti s ((cur_ti s)\<lparr>preempt := 0\<rparr>)))"
  using assms by (simp add: lock_leave_def ti_enable_dispatch_def with_ti_def ti_dispatch_delayed_def Let_def)

lemma active_enabled: "intrcnt ti = 0 \<Longrightarrow> \<not> ti_dispatch_disabled (ti\<lparr>preempt := THR_PREEMPT_ACTIVE\<rparr>)"
  by (simp add: ti_dispatch_disabled_def)

lemma quiet_enabled: "quiet ti \<Longrightarrow> \<not> ti_dispatch_disabled ti"
  by (simp add: ti_dispatch_disabled_def quiet_def)

lemma lock_leave_run:
  assumes "preempt (cur_ti s) = 1" and "intrcnt (cur_ti s) = 0" and "cur_status s = THR_TSTATE_RUN"
  shows "\<exists>ti. lock_leave s = Some (with_ti s ti) \<and> quiet ti"
proof (cases "ti_dispatch_delayed (cur_ti s)")
  case True
  define s1 where "s1 = with_ti s ((cur_ti s)\<lparr>preempt := THR_PREEMPT_ACTIVE\<rparr>)"
  have "\<not> ti_dispatch_disabled (cur_ti s1)" using active_enabled [OF assms(2)] by (simp add: s1_def)
  from sched_schedule_run [OF this] assms(3)
  have "sched_schedule s1 = Some (with_ti s (clr_ti (cur_ti s1)))" by (simp add: s1_def)
  then show ?thesis using lock_leave_outer [OF assms(1,2)] assms(2) True
    by (intro exI [of _ "clr_ti (cur_ti s1)"]) (simp add: s1_def quiet_def)
next
  case False
  then show ?thesis using lock_leave_outer [OF assms(1,2)] assms by (auto simp: quiet_def)
qed

section \<open>Frames\<close>

text \<open>Everything about the threads but their statuses and thread information blocks.\<close>

definition same_but_run :: "'a kernel_scheme \<Rightarrow> 'a kernel_scheme \<Rightarrow> bool" where
  "same_but_run s s' \<longleftrightarrow> idle_thread s' = idle_thread s \<and> procs s' = procs s \<and> thr_created_tree s' = thr_created_tree s \<and>
     kernel.more s' = kernel.more s \<and>
     (\<forall>u. evque (threads s' u) = evque (threads s u) \<and> thr_p (threads s' u) = thr_p (threads s u) \<and>
        thr_type (threads s' u) = thr_type (threads s u) \<and> prio (threads s' u) = prio (threads s u) \<and>
        tid (threads s' u) = tid (threads s u))"

lemma same_but_run_refl [simp]: "same_but_run s s"
  by (simp add: same_but_run_def)

lemma same_but_run_trans: "same_but_run s s' \<Longrightarrow> same_but_run s' s'' \<Longrightarrow> same_but_run s s''"
  by (simp add: same_but_run_def)

lemma same_but_run_with_ti [simp]: "same_but_run s (with_ti s ti)"
  by (simp add: same_but_run_def)

text \<open>The extension fields of the state are part of the frame.\<close>

lemma same_but_run_sync:
  fixes s s' :: "'a sync_kernel_scheme"
  assumes "same_but_run s s'"
  shows "blocks s' = blocks s" and "sync_objs s' = sync_objs s" and "sync_kernel.more s' = sync_kernel.more s"
proof -
  from assms have "kernel.more s' = kernel.more s" by (simp add: same_but_run_def)
  then show "blocks s' = blocks s" "sync_objs s' = sync_objs s" "sync_kernel.more s' = sync_kernel.more s"
    by (cases s, cases s', simp)+
qed

lemma ready_queue_add_frame:
  "ready_queue_add_nolock s t = Some s' \<Longrightarrow> same_but_run s s' \<and> current s' = current s \<and> threads s' = threads s"
  by (auto simp: ready_queue_add_nolock_def same_but_run_def Let_def arr_get_def kassert_def split: if_splits)

lemma next_thread_loop_frame:
  "next_thread_loop s n = Some (t, s') \<Longrightarrow> same_but_run s s' \<and> current s' = current s \<and> threads s' = threads s"
proof (induction n)
  case (Suc n)
  then show ?case
    by (cases "ready_queue_is_empty_nolock s n")
      (auto simp: ready_queue_get_top_nolock_def tq_get_top_def same_but_run_def arr_get_def kassert_def Let_def split: if_splits)
qed (simp add: same_but_run_def)

lemma upd_thread_more [simp]: "kernel.more (upd_thread s t f) = kernel.more s"
  by (simp add: upd_thread_def)

lemma requeue_frame:
  assumes "(if c then ready_queue_add_nolock (upd_thread s (current s) (status_update (\<lambda>_. THR_TSTATE_READY))) (current s)
      else Some s) = Some s'" and "c \<Longrightarrow> cur_status s = THR_TSTATE_READY"
  shows "same_but_run s s' \<and> current s' = current s \<and> threads s' = threads s"
proof (cases c)
  case True
  then have "upd_thread s (current s) (status_update (\<lambda>_. THR_TSTATE_READY)) = s" using assms(2) by (intro upd_status_same)
  then show ?thesis using assms(1) True ready_queue_add_frame by auto
qed (use assms(1) in simp)

lemma sched_schedule_frame:
  assumes "sched_schedule s = Some s'"
  shows "same_but_run s s' \<and> (\<forall>u. u \<noteq> current s' \<longrightarrow> status (threads s' u) = status (threads s u)) \<and>
    (current s' \<noteq> current s \<longrightarrow> cur_status s' = THR_TSTATE_RUN) \<and>
    (current s' = current s \<longrightarrow> cur_status s' = cur_status s) \<and>
    (\<forall>u. thr_ti (threads s' u) = (if u = current s then clr_ti (cur_ti s) else thr_ti (threads s u)))"
proof -
  define s0 where "s0 = sched_clr s"
  have s0: "same_but_run s s0" "current s0 = current s" "\<forall>u. status (threads s0 u) = status (threads s u)"
    "\<forall>u. thr_ti (threads s0 u) = (if u = current s then clr_ti (cur_ti s) else thr_ti (threads s u))"
    by (simp_all add: s0_def sched_clr_eq)
  show ?thesis
  proof (cases "cur_status s0 = THR_TSTATE_RUN")
    case True
    then have "s' = s0" using assms unfolding sched_schedule_def sched_clr_def [symmetric] s0_def by (auto split: if_splits)
    then show ?thesis using s0 by simp
  next
    case False
    with assms obtain t s1 where nt: "ready_queue_get_next_thread s0 = Some (t, s1)"
      and rest: "(if t = current s1 then Some s1 else do {
         s2 \<leftarrow> (if current s1 \<noteq> idle_thread s1 \<and> (cur_status s1 = THR_TSTATE_RUN \<or> cur_status s1 = THR_TSTATE_READY)
              then ready_queue_add_nolock (upd_thread s1 (current s1) (status_update (\<lambda>_. THR_TSTATE_READY))) (current s1)
              else Some s1);
         let s3 = sched_switch_threads s2 t;
         kassert (cur_status s3 = THR_TSTATE_RUN);
         Some (s3\<lparr>running_thread := Some (current s3)\<rparr>) }) = Some s'"
      unfolding sched_schedule_def sched_clr_def [symmetric] s0_def by (auto split: if_splits simp: Option.bind_eq_Some_conv)
    have s1: "same_but_run s0 s1" "current s1 = current s0" "threads s1 = threads s0"
      using next_thread_loop_frame [of s0 THR_MAX_PRIO t s1] nt by (simp_all add: ready_queue_get_next_thread_def)
    have nr1: "cur_status s1 \<noteq> THR_TSTATE_RUN" using False s1 by simp
    show ?thesis
    proof (cases "t = current s1")
      case True
      then show ?thesis using rest s1 s0 same_but_run_trans [OF s0(1) s1(1)] by simp
    next
      case ne: False
      then obtain s2 where s2: "(if current s1 \<noteq> idle_thread s1 \<and> (cur_status s1 = THR_TSTATE_RUN \<or> cur_status s1 = THR_TSTATE_READY)
              then ready_queue_add_nolock (upd_thread s1 (current s1) (status_update (\<lambda>_. THR_TSTATE_READY))) (current s1)
              else Some s1) = Some s2" "s' = (sched_switch_threads s2 t)\<lparr>running_thread := Some t\<rparr>"
        using rest by (auto simp: Option.bind_eq_Some_conv sched_switch_threads_def Let_def)
      have f2: "same_but_run s1 s2" "current s2 = current s1" "threads s2 = threads s1"
        using requeue_frame [OF s2(1)] nr1 by auto
      have "same_but_run s s2" using same_but_run_trans s0(1) s1(1) f2(1) by blast
      then have "same_but_run s s'" by (simp add: s2(2) sched_switch_threads_def same_but_run_def upd_thread_more)
      then show ?thesis using s0 s1 f2 ne by (auto simp: s2(2) sched_switch_threads_def)
    qed
  qed
qed

lemma highest_queue:
  assumes "\<exists>p < THR_MAX_PRIO. rq s p \<noteq> []"
  obtains p t ts where "p < THR_MAX_PRIO" "rq s p = t # ts" "\<forall>q. p < q \<and> q < THR_MAX_PRIO \<longrightarrow> rq s q = []"
proof -
  define P where "P = {p. p < THR_MAX_PRIO \<and> rq s p \<noteq> []}"
  have P: "finite P" "P \<noteq> {}" using assms by (auto simp: P_def)
  define m where "m = Max P"
  have "m \<in> P" using Max_in [OF P] by (simp add: m_def)
  then have m: "m < THR_MAX_PRIO" "rq s m \<noteq> []" by (simp_all add: P_def)
  have h: "rq s q = []" if "m < q" "q < THR_MAX_PRIO" for q
  proof (rule ccontr)
    assume "rq s q \<noteq> []"
    then have "q \<le> Max P" using that P(1) by (intro Max_ge) (auto simp: P_def)
    then show False using that by (simp add: m_def)
  qed
  obtain t ts where "rq s m = t # ts" using m(2) by (cases "rq s m") auto
  then show thesis using m(1) h that by blast
qed

text \<open>Giving up the processor, by any thread and by one that waits.\<close>

lemma sched_give_up:
  assumes inv: "sched_inv s" and en: "\<not> ti_dispatch_disabled (cur_ti s)" and nr: "cur_status s \<noteq> THR_TSTATE_RUN"
  shows "\<exists>s'. sched_schedule s = Some s' \<and> sched_inv s' \<and> same_but_run s s' \<and>
    (current s' = current s \<longrightarrow> current s = idle_thread s) \<and> (current s' \<noteq> current s \<longrightarrow> cur_status s' = THR_TSTATE_RUN) \<and>
    (current s' = idle_thread s \<or> status (threads s (current s')) = THR_TSTATE_READY) \<and>
    (\<forall>u. u \<noteq> current s' \<longrightarrow> status (threads s' u) = status (threads s u)) \<and>
    (\<forall>u. thr_ti (threads s' u) = (if u = current s then clr_ti (cur_ti s) else thr_ti (threads s u)))"
proof -
  obtain s' where s': "sched_schedule s = Some s'" "sched_inv s'" "current s' = current s \<longrightarrow> current s = idle_thread s"
    "current s' = idle_thread s \<or> status (threads s (current s')) = THR_TSTATE_READY"
  proof (cases "\<exists>p < THR_MAX_PRIO. rq s p \<noteq> []")
    case True
    then obtain p t ts where p: "p < THR_MAX_PRIO" "rq s p = t # ts" "\<forall>q. p < q \<and> q < THR_MAX_PRIO \<longrightarrow> rq s q = []"
      by (rule highest_queue)
    have "t \<in> set (rq s p)" using p(2) by simp
    then have "t \<noteq> current s" "status (threads s t) = THR_TSTATE_READY"
      using inv p(1) by (simp_all add: sched_inv_def queues_hold_def)
    then show thesis using schedule_from_queue [OF inv en nr p] that by blast
  next
    case False
    then show thesis using schedule_idle [OF inv en nr] that by auto
  qed
  then show ?thesis using sched_schedule_frame [OF s'(1)] by (intro exI [of _ s']) simp
qed

lemma sched_block:
  assumes inv: "sched_inv s" and en: "\<not> ti_dispatch_disabled (cur_ti s)" and w: "thr_in_wait (threads s (current s))"
  shows "\<exists>s'. sched_schedule s = Some s' \<and> sched_inv s' \<and> same_but_run s s' \<and> current s' \<noteq> current s \<and>
    cur_status s' = THR_TSTATE_RUN \<and> (current s' = idle_thread s \<or> status (threads s (current s')) = THR_TSTATE_READY) \<and>
    (\<forall>u. u \<noteq> current s' \<longrightarrow> status (threads s' u) = status (threads s u)) \<and>
    (\<forall>u. thr_ti (threads s' u) = (if u = current s then clr_ti (cur_ti s) else thr_ti (threads s u)))"
proof -
  have nr: "cur_status s \<noteq> THR_TSTATE_RUN" "cur_status s \<noteq> THR_TSTATE_READY"
    using w by (auto simp: thr_in_wait_def thr_wait_intr_def thr_wait_killable_def)
  then have "current s \<noteq> idle_thread s" using inv by (auto simp: sched_inv_def)
  then show ?thesis using sched_give_up [OF inv en nr(1)] by blast
qed

section \<open>Waking\<close>

text \<open>
  The blocks \<open>bs\<close> are queued by distinct threads, none of them the current one, that wait and
  have not been given a reason.
\<close>

definition waiting :: "'a sync_kernel_scheme \<Rightarrow> nat list \<Rightarrow> bool" where
  "waiting s bs \<longleftrightarrow> distinct bs \<and> inj_on (\<lambda>b. blk_thr (blocks s b)) (set bs) \<and>
     (\<forall>b \<in> set bs. blk_reason (blocks s b) = SYNC_WAI_WAIT \<and> thr_in_wait (threads s (blk_thr (blocks s b))) \<and>
        blk_thr (blocks s b) \<noteq> current s)"

text \<open>The effect of waking the blocks \<open>W\<close> at the head of the queue of \<open>obj\<close>.\<close>

definition woke :: "'a sync_kernel_scheme \<Rightarrow> nat \<Rightarrow> sync_reason \<Rightarrow> nat list \<Rightarrow> 'a sync_kernel_scheme \<Rightarrow> bool" where
  "woke s obj reason W s' \<longleftrightarrow> current s' = current s \<and> idle_thread s' = idle_thread s \<and> procs s' = procs s \<and>
     thr_created_tree s' = thr_created_tree s \<and> sync_kernel.more s' = sync_kernel.more s \<and>
     blocks s' = (\<lambda>b. if b \<in> set W then (blocks s b)\<lparr>blk_reason := reason\<rparr> else blocks s b) \<and>
     sync_objs s' = (sync_objs s)(obj := (sync_objs s obj)\<lparr>so_que := drop (length W) (so_que (sync_objs s obj))\<rparr>) \<and>
     (\<forall>u. status (threads s' u) = (if u \<in> (\<lambda>b. blk_thr (blocks s b)) ` set W then THR_TSTATE_READY else status (threads s u)) \<and>
        evque (threads s' u) = evque (threads s u) \<and> thr_p (threads s' u) = thr_p (threads s u) \<and>
        thr_type (threads s' u) = thr_type (threads s u) \<and> prio (threads s' u) = prio (threads s u) \<and>
        tid (threads s' u) = tid (threads s u) \<and>
        preempt (thr_ti (threads s' u)) = preempt (thr_ti (threads s u)) \<and>
        intrcnt (thr_ti (threads s' u)) = intrcnt (thr_ti (threads s u))) \<and>
     (\<forall>p < THR_MAX_PRIO. rq s' p = rq s p @ filter (\<lambda>t. unat (prio (threads s t)) = p) (map (\<lambda>b. blk_thr (blocks s b)) W))"

lemma sched_wakeup_counts:
  assumes "sched_wakeup s t = Some s'"
  shows "preempt (thr_ti (threads s' u)) = preempt (thr_ti (threads s u)) \<and>
    intrcnt (thr_ti (threads s' u)) = intrcnt (thr_ti (threads s u))"
proof -
  from assms obtain s1 where s1: "(if thr_in_wait (threads s t) \<or> status (threads s t) = THR_TSTATE_DORMANT
       then ready_queue_add_nolock (upd_thread s t (status_update (\<lambda>_. THR_TSTATE_READY))) t else Some s) = Some s1"
    and s': "s' = upd_thread s1 (current s1) (thr_ti_update ti_set_delay_dispatch)"
    by (auto simp: sched_wakeup_def Let_def Option.bind_eq_Some_conv split: if_splits)
  have "thr_ti (threads s1 u) = thr_ti (threads s u)"
    using s1 ready_queue_add_frame [of "upd_thread s t (status_update (\<lambda>_. THR_TSTATE_READY))" t s1] by (auto split: if_splits)
  then show ?thesis by (cases "u = current s1") (simp_all add: s' ti_set_delay_dispatch_def)
qed

lemma sched_inv_cong:
  assumes "sched_inv s" and "ready_queues s' = ready_queues s" and "idle_thread s' = idle_thread s" and "current s' = current s"
    and "\<And>t. prio (threads s' t) = prio (threads s t)" and "\<And>t. status (threads s' t) = status (threads s t)"
  shows "sched_inv s'"
proof -
  have "queues_hold s {current s}" using assms(1) by (simp add: sched_inv_def)
  then have "queues_hold s' {current s}" by (rule queues_hold_cong) (simp_all add: assms(2-6))
  then show ?thesis using assms(1,3,4,6) by (simp add: sched_inv_def)
qed

lemma filter_key_single: "filter (\<lambda>t. f t = p) [t] = (if p = f t then [t] else [])"
  by simp

text \<open>One round of the loop.\<close>

lemma sync_wake_one:
  assumes inv: "sched_inv s" and wt: "waiting s (b # bs)" and q: "so_que (sync_objs s obj) = b # bs"
  shows "\<exists>s1. sched_inv s1 \<and> woke s obj reason [b] s1 \<and> waiting s1 bs \<and>
    sync_wake_loop s obj reason (b # bs) = (if so_policy (sync_objs s obj) = SYNC_WAKE_FLAG_ONE then Some s1
       else sync_wake_loop s1 obj reason bs)"
proof -
  let ?t = "blk_thr (blocks s b)"
  define s0 where "s0 = (upd_obj s obj (so_que_update (\<lambda>_. bs)))\<lparr>blocks := (blocks s)(b := (blocks s b)\<lparr>blk_reason := reason\<rparr>)\<rparr>"
  have s0: "threads s0 = threads s" "current s0 = current s" "rq s0 = rq s" "idle_thread s0 = idle_thread s"
    "procs s0 = procs s" "thr_created_tree s0 = thr_created_tree s" "sync_kernel.more s0 = sync_kernel.more s"
    "ready_queues s0 = ready_queues s"
    by (simp_all add: s0_def upd_obj_def rq_def fun_eq_iff)
  have inv0: "sched_inv s0" using inv by (rule sched_inv_cong) (simp_all add: s0)
  have t: "?t \<noteq> current s0" "thr_in_wait (threads s0 ?t)" using wt by (simp_all add: waiting_def s0)
  from sched_wakeup_ok [OF inv0 t(1)] t(2) obtain s1 where
    w: "sched_wakeup s0 ?t = Some s1" "sched_inv s1" "ev_keeps s0 s1" "status (threads s1 ?t) = THR_TSTATE_READY"
      "\<forall>u. u \<noteq> ?t \<longrightarrow> status (threads s1 u) = status (threads s0 u)"
      "\<forall>q < THR_MAX_PRIO. rq s1 q = rq s0 q @ (if q = unat (prio (threads s0 ?t)) then [?t] else [])"
    by (auto simp: ev_keeps_def)
  have more: "same_but_run s0 s1" using w(3) by (simp add: ev_keeps_def same_but_run_def)
  note ext = same_but_run_sync [OF more]
  have blk: "blocks s1 = (blocks s)(b := (blocks s b)\<lparr>blk_reason := reason\<rparr>)"
    "sync_objs s1 = (sync_objs s)(obj := (sync_objs s obj)\<lparr>so_que := bs\<rparr>)"
    using ext(1,2) by (simp_all add: s0_def upd_obj_def q)
  have kp: "current s1 = current s" "idle_thread s1 = idle_thread s" "procs s1 = procs s"
    "thr_created_tree s1 = thr_created_tree s" "evque (threads s1 u) = evque (threads s u)" "thr_p (threads s1 u) = thr_p (threads s u)"
    "thr_type (threads s1 u) = thr_type (threads s u)" "prio (threads s1 u) = prio (threads s u)" "tid (threads s1 u) = tid (threads s u)" for u
    using w(3) by (simp_all add: ev_keeps_def s0)
  have st: "status (threads s1 u) = (if u = ?t then THR_TSTATE_READY else status (threads s u))" for u
    using w(4,5) s0(1) by simp
  have cnt: "preempt (thr_ti (threads s1 u)) = preempt (thr_ti (threads s u))" "intrcnt (thr_ti (threads s1 u)) = intrcnt (thr_ti (threads s u))" for u
    using sched_wakeup_counts [OF w(1)] s0(1) by simp_all
  have wk: "woke s obj reason [b] s1"
    unfolding woke_def
  proof (intro conjI allI impI)
    show "blocks s1 = (\<lambda>c. if c \<in> set [b] then (blocks s c)\<lparr>blk_reason := reason\<rparr> else blocks s c)" by (auto simp: blk)
    show "sync_objs s1 = (sync_objs s)(obj := (sync_objs s obj)\<lparr>so_que := drop (length [b]) (so_que (sync_objs s obj))\<rparr>)"
      by (simp add: blk q)
    show "rq s1 p = rq s p @ filter (\<lambda>t. unat (prio (threads s t)) = p) (map (\<lambda>b. blk_thr (blocks s b)) [b])"
      if "p < THR_MAX_PRIO" for p
      using w(6) [rule_format, OF that] by (simp only: s0(1,3) list.map filter_key_single)
    show "sync_kernel.more s1 = sync_kernel.more s" using ext(3) s0(7) by simp
  qed (simp_all add: kp st cnt)
  have bt: "blk_thr (blocks s1 c) = blk_thr (blocks s c)" for c by (simp add: blk)
  have wt1: "waiting s1 bs"
    unfolding waiting_def bt
  proof (intro conjI ballI)
    show "distinct bs" using wt by (simp add: waiting_def)
    show "inj_on (\<lambda>b. blk_thr (blocks s b)) (set bs)"
      using wt by (simp add: waiting_def)
    fix c assume c: "c \<in> set bs"
    have "c \<noteq> b" using wt c by (auto simp: waiting_def)
    moreover have "inj_on (\<lambda>b. blk_thr (blocks s b)) (set (b # bs))" using wt unfolding waiting_def by blast
    ultimately have cb: "c \<noteq> b" "blk_thr (blocks s c) \<noteq> ?t"
      using c by (auto simp del: inj_on_insert simp: inj_on_def)
    show "blk_reason (blocks s1 c) = SYNC_WAI_WAIT" using wt c cb(1) by (simp add: waiting_def blk)
    show "blk_thr (blocks s c) \<noteq> current s1" using wt c by (simp add: waiting_def kp)
    have "status (threads s1 (blk_thr (blocks s c))) = status (threads s (blk_thr (blocks s c)))" using w(5) cb(2) s0 by simp
    then show "thr_in_wait (threads s1 (blk_thr (blocks s c)))"
      using wt c cb(1) by (simp add: waiting_def blk thr_in_wait_def thr_wait_intr_def thr_wait_killable_def)
  qed
  have "sync_wake_loop s obj reason (b # bs) = (if so_policy (sync_objs s obj) = SYNC_WAKE_FLAG_ONE then Some s1
       else sync_wake_loop s1 obj reason bs)"
    using w(1) by (simp add: Let_def s0_def [symmetric] upd_obj_def blk) (simp add: s0_def upd_obj_def blk)
  then show ?thesis using w(2) wk wt1 by blast
qed

lemma woke_append:
  assumes a: "woke s obj reason V s1" and b: "woke s1 obj reason W s2" and d: "\<forall>b \<in> set V. b \<notin> set W"
  shows "woke s obj reason (V @ W) s2"
proof -
  have th: "blk_thr (blocks s1 c) = blk_thr (blocks s c)" for c using a by (simp add: woke_def)
  have pr: "prio (threads s1 u) = prio (threads s u)" for u using a by (simp add: woke_def)
  have st: "status (threads s1 u) = (if u \<in> (\<lambda>b. blk_thr (blocks s b)) ` set V then THR_TSTATE_READY else status (threads s u))"
    "status (threads s2 u) = (if u \<in> (\<lambda>b. blk_thr (blocks s b)) ` set W then THR_TSTATE_READY else status (threads s1 u))" for u
    using a b unfolding woke_def th by blast+
  have rq2: "rq s2 p = rq s p @ filter (\<lambda>t. unat (prio (threads s t)) = p) (map (\<lambda>b. blk_thr (blocks s b)) (V @ W))"
    if "p < THR_MAX_PRIO" for p
  proof -
    have "rq s1 p = rq s p @ filter (\<lambda>t. unat (prio (threads s t)) = p) (map (\<lambda>b. blk_thr (blocks s b)) V)"
      using a that unfolding woke_def by blast
    moreover have "rq s2 p = rq s1 p @ filter (\<lambda>t. unat (prio (threads s t)) = p) (map (\<lambda>b. blk_thr (blocks s b)) W)"
      using b that unfolding woke_def th pr by blast
    ultimately show ?thesis by (simp only: map_append filter_append append_assoc)
  qed
  have "blocks s2 = (\<lambda>c. if c \<in> set (V @ W) then (blocks s c)\<lparr>blk_reason := reason\<rparr> else blocks s c)"
  proof
    fix c
    show "blocks s2 c = (if c \<in> set (V @ W) then (blocks s c)\<lparr>blk_reason := reason\<rparr> else blocks s c)"
      using a b d by (simp add: woke_def)
  qed
  moreover have "sync_objs s2 = (sync_objs s)(obj := (sync_objs s obj)\<lparr>so_que := drop (length (V @ W)) (so_que (sync_objs s obj))\<rparr>)"
    using a b by (simp add: woke_def add.commute)
  moreover have "status (threads s2 u) = (if u \<in> (\<lambda>b. blk_thr (blocks s b)) ` set (V @ W) then THR_TSTATE_READY
      else status (threads s u))" for u
    unfolding st by (simp add: image_Un)
  ultimately show ?thesis using a b rq2 unfolding woke_def by simp
qed

lemma sync_wake_loop_ok:
  assumes "sched_inv s" and "waiting s bs" and "so_que (sync_objs s obj) = bs"
  shows "\<exists>s'. sync_wake_loop s obj reason bs = Some s' \<and> sched_inv s' \<and>
    woke s obj reason (if so_policy (sync_objs s obj) = SYNC_WAKE_FLAG_ONE then take 1 bs else bs) s'"
  using assms
proof (induction bs arbitrary: s)
  case Nil
  then have "(sync_objs s)(obj := (sync_objs s obj)\<lparr>so_que := []\<rparr>) = sync_objs s"
    by (intro ext, cases "sync_objs s obj") simp
  then show ?case using Nil by (auto simp: woke_def)
next
  case (Cons b bs)
  from sync_wake_one [OF Cons.prems] obtain s1 where
    s1: "sched_inv s1" "woke s obj reason [b] s1" "waiting s1 bs"
      "sync_wake_loop s obj reason (b # bs) = (if so_policy (sync_objs s obj) = SYNC_WAKE_FLAG_ONE then Some s1
         else sync_wake_loop s1 obj reason bs)" by blast
  show ?case
  proof (cases "so_policy (sync_objs s obj) = SYNC_WAKE_FLAG_ONE")
    case True
    then show ?thesis using s1 by (intro exI [of _ s1]) (simp del: sync_wake_loop.simps)
  next
    case False
    have ob: "so_que (sync_objs s1 obj) = bs" "so_policy (sync_objs s1 obj) = so_policy (sync_objs s obj)"
      using s1(2) Cons.prems(3) by (simp_all add: woke_def)
    from Cons.IH [OF s1(1,3) ob(1)] False obtain s' where
      s': "sync_wake_loop s1 obj reason bs = Some s'" "sched_inv s'" "woke s1 obj reason bs s'" by (auto simp: ob(2))
    have "\<forall>c \<in> set [b]. c \<notin> set bs" using Cons.prems(2) by (simp add: waiting_def)
    then have "woke s obj reason ([b] @ bs) s'" using woke_append [OF s1(2) s'(3)] by blast
    then show ?thesis using s' s1(4) False by (intro exI [of _ s']) (simp del: sync_wake_loop.simps)
  qed
qed

lemma with_ti_sync [simp]:
  fixes s :: "'a sync_kernel_scheme"
  shows "blocks (with_ti s ti) = blocks s" "sync_objs (with_ti s ti) = sync_objs s"
    "sync_kernel.more (with_ti s ti) = sync_kernel.more s"
  by (simp_all add: with_ti_def upd_thread_def)

lemma waiting_with_ti [simp]: "waiting (with_ti s ti) bs = waiting s bs"
  by (auto simp: waiting_def thr_in_wait_def thr_wait_intr_def thr_wait_killable_def)

lemma with_ti_fields:
  "status (threads (with_ti s ti) u) = status (threads s u)" "evque (threads (with_ti s ti) u) = evque (threads s u)"
  "thr_p (threads (with_ti s ti) u) = thr_p (threads s u)" "thr_type (threads (with_ti s ti) u) = thr_type (threads s u)"
  "prio (threads (with_ti s ti) u) = prio (threads s u)" "tid (threads (with_ti s ti) u) = tid (threads s u)"
  by simp_all

lemma woke_with_ti:
  assumes "woke (with_ti s a) obj reason W s1" and "preempt c = preempt (cur_ti s)" and "intrcnt c = intrcnt (cur_ti s)"
  shows "woke s obj reason W (with_ti s1 c)"
proof -
  note f = with_ti_fields [of s a] with_ti_fields [of s1 c]
  have a: "woke (with_ti s a) obj reason W s1" by fact
  have cur: "current s1 = current s" using a by (simp add: woke_def)
  have "preempt (thr_ti (threads s1 u)) = preempt (thr_ti (threads s u)) \<and>
      intrcnt (thr_ti (threads s1 u)) = intrcnt (thr_ti (threads s u))" if "u \<noteq> current s" for u
    using a that by (simp add: woke_def)
  then have cnt: "preempt (thr_ti (threads (with_ti s1 c) u)) = preempt (thr_ti (threads s u)) \<and>
      intrcnt (thr_ti (threads (with_ti s1 c) u)) = intrcnt (thr_ti (threads s u))" for u
    using assms(2,3) cur by (cases "u = current s") simp_all
  show ?thesis using a cnt unfolding woke_def f with_ti_sync by (simp del: with_ti_simps(5) add: with_ti_fields)
qed

lemma waiting_not_current: "waiting s bs \<Longrightarrow> current s \<notin> (\<lambda>b. blk_thr (blocks s b)) ` set bs"
  by (auto simp: waiting_def)

lemma woke_nil: "so_que (sync_objs s obj) = [] \<Longrightarrow> preempt c = preempt (cur_ti s) \<Longrightarrow> intrcnt c = intrcnt (cur_ti s) \<Longrightarrow>
  woke s obj reason [] (with_ti s c)"
proof -
  assume *: "so_que (sync_objs s obj) = []" "preempt c = preempt (cur_ti s)" "intrcnt c = intrcnt (cur_ti s)"
  then have "(sync_objs s)(obj := (sync_objs s obj)\<lparr>so_que := []\<rparr>) = sync_objs s"
    by (intro ext, cases "sync_objs s obj") simp
  with * show ?thesis by (auto simp: woke_def)
qed

text \<open>\<open>sync_wake\<close> by a running thread, with or without a lock held.\<close>

lemma sync_wake_ok:
  assumes inv: "sched_inv s" and wt: "waiting s (so_que (sync_objs s obj))" and run: "cur_status s = THR_TSTATE_RUN"
    and ti: "preempt (cur_ti s) = 0 \<or> preempt (cur_ti s) = 1" "intrcnt (cur_ti s) = 0"
  defines "W \<equiv> (if so_policy (sync_objs s obj) = SYNC_WAKE_FLAG_ONE then take 1 (so_que (sync_objs s obj)) else so_que (sync_objs s obj))"
  shows "\<exists>s'. sync_wake s obj reason = Some s' \<and> sched_inv s' \<and> woke s obj reason W s'"
proof -
  define s1 where "s1 = with_ti s ((cur_ti s)\<lparr>preempt := preempt (cur_ti s) + 1\<rparr>)"
  have enter: "lock_enter s = Some s1" by (simp add: lock_enter_eq s1_def)
  have leave: "\<exists>c. lock_leave s2 = Some (with_ti s2 c) \<and> preempt c = preempt (cur_ti s) \<and> intrcnt c = 0"
    if "cur_status s2 = THR_TSTATE_RUN" "preempt (cur_ti s2) = preempt (cur_ti s) + 1" "intrcnt (cur_ti s2) = 0"
    for s2 :: "'a sync_kernel_scheme"
  proof (cases "preempt (cur_ti s) = 0")
    case True
    then show ?thesis using lock_leave_run [of s2] that by (auto simp: quiet_def)
  next
    case False
    then show ?thesis using lock_leave_inner [of s2] that ti(1) by auto
  qed
  show ?thesis
  proof (cases "so_que (sync_objs s obj) = []")
    case True
    obtain c where c: "lock_leave s1 = Some (with_ti s1 c)" "preempt c = preempt (cur_ti s)" "intrcnt c = 0"
      using leave [of s1] run ti(2) by (auto simp: s1_def)
    have "sync_wake s obj reason = Some (with_ti s c)"
      using enter c(1) True by (simp add: sync_wake_def s1_def)
    moreover have "woke s obj reason [] (with_ti s c)" using True c ti(2) by (intro woke_nil) simp_all
    ultimately show ?thesis using True inv by (auto simp: W_def)
  next
    case False
    have "sched_inv s1" "waiting s1 (so_que (sync_objs s obj))" "so_que (sync_objs s1 obj) = so_que (sync_objs s obj)"
      using inv wt by (simp_all add: s1_def)
    from sync_wake_loop_ok [OF this, of reason] obtain s2 where
      s2: "sync_wake_loop s1 obj reason (so_que (sync_objs s obj)) = Some s2" "sched_inv s2" "woke s1 obj reason W s2"
      by (auto simp: s1_def W_def split: if_splits)
    have "set W \<subseteq> set (so_que (sync_objs s obj))" by (auto simp: W_def dest: in_set_takeD)
    then have nc: "current s \<notin> (\<lambda>b. blk_thr (blocks s b)) ` set W" using waiting_not_current [OF wt] by blast
    have cur2: "current s2 = current s" "cur_status s2 = THR_TSTATE_RUN" "preempt (cur_ti s2) = preempt (cur_ti s) + 1"
      "intrcnt (cur_ti s2) = 0"
      using s2(3) run ti(2) nc by (simp_all add: woke_def s1_def)
    from leave [OF cur2(2-4)] obtain c where
      c: "lock_leave s2 = Some (with_ti s2 c)" "preempt c = preempt (cur_ti s)" "intrcnt c = 0" by blast
    have w: "woke s obj reason W (with_ti s2 d)" if "preempt d = preempt (cur_ti s)" "intrcnt d = 0" for d
      using s2(3) that ti(2) unfolding s1_def by (intro woke_with_ti) simp_all
    have run': "sync_wake s obj reason =
      (if \<not> ti_dispatch_disabled c then sched_schedule (with_ti s2 c) else Some (with_ti s2 c))"
      using enter False s2(1) c(1) by (simp add: sync_wake_def s1_def)
    show ?thesis
    proof (cases "ti_dispatch_disabled c")
      case True
      then show ?thesis using run' w [OF c(2,3)] s2(2) by auto
    next
      case en: False
      then have z: "preempt (cur_ti s) = 0" using ti(1) c(2) by (auto simp: ti_dispatch_disabled_def)
      have "sched_schedule (with_ti s2 c) = Some (with_ti s2 (clr_ti c))"
        using sched_schedule_run [of "with_ti s2 c"] en cur2(2) by simp
      then show ?thesis using run' en w [of "clr_ti c"] c z s2(2) by auto
    qed
  qed
qed

lemma ev_has_pending_iff:
  "ev_has_pending_events s t \<longleftrightarrow>
     \<not> (ev_mask_empty (events (p_evque (procs s (thr_p (threads s t))))) \<and> ev_mask_empty (events (evque (threads s t))))"
  by (simp add: ev_has_pending_events_def Let_def)

section \<open>Waiting\<close>

lemma wait_in_wait: "valid_wait_status st \<Longrightarrow> status thr = st \<Longrightarrow> thr_in_wait thr"
  by (auto simp: valid_wait_status_def thr_in_wait_def thr_wait_intr_def thr_wait_killable_def)

text \<open>The current thread has queued its block and is in the wait state, with the caller's lock held.\<close>

definition queued :: "'a sync_kernel_scheme \<Rightarrow> nat \<Rightarrow> nat \<Rightarrow> 'a sync_kernel_scheme" where
  "queued s obj b = upd_obj (upd_thread (sync_init_block s b) (current s) (status_update (\<lambda>_. wait_kind (sync_objs s obj))))
     obj (so_que_update (\<lambda>q. q @ [b]))"

lemma queued_simps [simp]:
  "current (queued s obj b) = current s" "idle_thread (queued s obj b) = idle_thread s" "procs (queued s obj b) = procs s"
  "thr_created_tree (queued s obj b) = thr_created_tree s" "ready_queues (queued s obj b) = ready_queues s"
  "rq (queued s obj b) = rq s" "sync_kernel.more (queued s obj b) = sync_kernel.more s"
  "threads (queued s obj b) = (threads s)(current s := (threads s (current s))\<lparr>status := wait_kind (sync_objs s obj)\<rparr>)"
  "blocks (queued s obj b) = (blocks s)(b := \<lparr>blk_thr = current s, blk_reason = SYNC_WAI_WAIT\<rparr>)"
  "sync_objs (queued s obj b) = (sync_objs s)(obj := so_que_update (\<lambda>q. q @ [b]) (sync_objs s obj))"
  by (simp_all add: queued_def upd_obj_def sync_init_block_def upd_thread_def rq_def fun_eq_iff)

lemma thread_update_commute: "t\<lparr>thr_ti := ti, status := st\<rparr> = t\<lparr>status := st, thr_ti := ti\<rparr>"
  by (cases t) simp

lemma queued_with_ti: "queued (with_ti s ti) obj b = with_ti (queued s obj b) ti"
  by (cases s) (simp add: queued_def with_ti_def upd_thread_def upd_obj_def sync_init_block_def thread_update_commute)

lemma with_ti_cur: "with_ti s (cur_ti s) = s"
proof -
  have "(threads s (current s))\<lparr>thr_ti := cur_ti s\<rparr> = threads s (current s)" by (cases "threads s (current s)") simp
  then show ?thesis by (simp add: with_ti_def upd_thread_def)
qed

lemma wait_no_schedule_ok:
  assumes "valid_wait_status (wait_kind (sync_objs s obj))" and "preempt (cur_ti s) = 1"
  shows "wait_sync_obj_no_schedule s obj b = Some (queued s obj b)"
proof -
  define s1 where "s1 = queued (with_ti s ((cur_ti s)\<lparr>preempt := 2\<rparr>)) obj b"
  have i: "with_ti (sync_init_block s b) ti = sync_init_block (with_ti s ti) b" for ti
    by (cases s) (simp add: with_ti_def upd_thread_def sync_init_block_def)
  have c: "cur_ti (sync_init_block s b) = cur_ti s" by (simp add: sync_init_block_def)
  have "wait_sync_obj_no_schedule s obj b = lock_leave s1"
    using assms unfolding wait_sync_obj_no_schedule_def Let_def lock_enter_eq c i
    by (simp add: s1_def queued_def) (simp add: sync_init_block_def)
  moreover have "lock_leave s1 = Some (with_ti s1 ((cur_ti s1)\<lparr>preempt := 1\<rparr>))"
    by (rule lock_leave_inner) (simp add: s1_def)
  moreover have "(cur_ti s)\<lparr>preempt := 1\<rparr> = cur_ti s" using assms(2) by (cases "cur_ti s") simp
  then have "with_ti s1 ((cur_ti s1)\<lparr>preempt := 1\<rparr>) = queued s obj b"
    by (simp add: s1_def queued_with_ti del: queued_simps) (simp add: queued_with_ti [symmetric] with_ti_cur)
  ultimately show ?thesis by simp
qed

text \<open>The current thread of \<open>s\<close> has given the processor away after queueing its block.\<close>

definition blocked :: "'a sync_kernel_scheme \<Rightarrow> nat \<Rightarrow> nat \<Rightarrow> 'a sync_kernel_scheme \<Rightarrow> bool" where
  "blocked s obj b s' \<longleftrightarrow> same_but_run (queued s obj b) s' \<and> current s' \<noteq> current s \<and> cur_status s' = THR_TSTATE_RUN \<and>
     (current s' = idle_thread s \<or> status (threads s (current s')) = THR_TSTATE_READY) \<and>
     (\<forall>u. u \<noteq> current s' \<longrightarrow> status (threads s' u) = (if u = current s then wait_kind (sync_objs s obj) else status (threads s u))) \<and>
     quiet (thr_ti (threads s' (current s))) \<and> (\<forall>u. u \<noteq> current s \<longrightarrow> thr_ti (threads s' u) = thr_ti (threads s u))"

lemma queued_inv:
  assumes "sched_inv s" and "current s \<noteq> idle_thread s"
  shows "sched_inv (queued s obj b)"
proof -
  have "queues_hold s {current s}" using assms(1) by (simp add: sched_inv_def)
  then have "queues_hold (queued s obj b) {current s}" by (rule queues_hold_cong) simp_all
  then show ?thesis using assms by (simp add: sched_inv_def)
qed

lemma block_from_queued:
  assumes inv: "sched_inv s" and ni: "current s \<noteq> idle_thread s" and v: "valid_wait_status (wait_kind (sync_objs s obj))"
    and en: "\<not> ti_dispatch_disabled ti" "intrcnt ti = 0"
  shows "\<exists>s'. sched_schedule (with_ti (queued s obj b) ti) = Some s' \<and> sched_inv s' \<and> blocked s obj b s'"
proof -
  define q where "q = with_ti (queued s obj b) ti"
  have "sched_inv q" using queued_inv [OF inv ni] by (simp add: q_def)
  moreover have "\<not> ti_dispatch_disabled (cur_ti q)" using en(1) by (simp add: q_def)
  moreover have "thr_in_wait (threads q (current q))" using v by (intro wait_in_wait) (auto simp: q_def)
  ultimately obtain s' where
    s': "sched_schedule q = Some s'" "sched_inv s'" "same_but_run q s'" "current s' \<noteq> current q" "cur_status s' = THR_TSTATE_RUN"
      "current s' = idle_thread q \<or> status (threads q (current s')) = THR_TSTATE_READY"
      "\<forall>u. u \<noteq> current s' \<longrightarrow> status (threads s' u) = status (threads q u)"
      "\<forall>u. thr_ti (threads s' u) = (if u = current q then clr_ti (cur_ti q) else thr_ti (threads q u))"
    using sched_block [of q] by blast
  have "same_but_run (queued s obj b) s'"
    unfolding q_def by (rule same_but_run_trans [OF _ s'(3) [unfolded q_def]]) simp
  moreover have "quiet (thr_ti (threads s' (current s)))" using s'(8) en(2) by (simp add: q_def quiet_def)
  ultimately have "blocked s obj b s'" using s'(4-8) by (simp add: blocked_def q_def)
  then show ?thesis using s'(1,2) by (auto simp: q_def)
qed

lemma sync_wait_block_ok:
  assumes inv: "sched_inv s" and ni: "current s \<noteq> idle_thread s" and v: "valid_wait_status (wait_kind (sync_objs s obj))"
    and ti: "preempt (cur_ti s) = 1" "intrcnt (cur_ti s) = 0"
  shows "\<exists>u s'. sync_wait_block s obj b = Some (Suspended u, s') \<and> sched_inv s' \<and> blocked s obj b s'"
proof -
  define q where "q = queued s obj b"
  have dis: "ti_dispatch_disabled (cur_ti s)" using ti(1) by (simp add: dispatch_disabled_iff)
  have q: "current q = current s" "cur_ti q = cur_ti s" by (simp_all add: q_def)
  have w: "thr_in_wait (threads q (current s))" using v by (intro wait_in_wait) (auto simp: q_def)
  have run: "sync_wait_block s obj b = do {
       s' \<leftarrow> lock_leave q;
       if current s' \<noteq> current s then Some (Suspended True, s') else do { s' \<leftarrow> sched_schedule s'; Some (Suspended False, s') } }"
    using dis v wait_no_schedule_ok [OF v ti(1)] w by (simp add: sync_wait_block_def q_def)
  have lv: "lock_leave q = (if ti_dispatch_delayed (cur_ti s) then sched_schedule (with_ti q ((cur_ti s)\<lparr>preempt := THR_PREEMPT_ACTIVE\<rparr>))
      else Some (with_ti q ((cur_ti s)\<lparr>preempt := 0\<rparr>)))"
    using lock_leave_outer [of q] ti q by simp
  have e0: "\<not> ti_dispatch_disabled ((cur_ti s)\<lparr>preempt := 0\<rparr>)" using ti(2) by (intro quiet_enabled) (simp add: quiet_def)
  show ?thesis
  proof (cases "ti_dispatch_delayed (cur_ti s)")
    case True
    from block_from_queued [OF inv ni v active_enabled [OF ti(2)], of b] ti(2) obtain s' where
      s': "sched_schedule (with_ti q ((cur_ti s)\<lparr>preempt := THR_PREEMPT_ACTIVE\<rparr>)) = Some s'" "sched_inv s'" "blocked s obj b s'"
      by (auto simp: q_def)
    have "current s' \<noteq> current s" using s'(3) by (simp add: blocked_def)
    then show ?thesis using run lv True s' by auto
  next
    case False
    from block_from_queued [OF inv ni v e0, of b] ti(2) obtain s' where
      s': "sched_schedule (with_ti q ((cur_ti s)\<lparr>preempt := 0\<rparr>)) = Some s'" "sched_inv s'" "blocked s obj b s'"
      by (auto simp: q_def)
    then show ?thesis using run lv False q by auto
  qed
qed

text \<open>
  The way back: the thread has the processor again, its block is out of the queue, and the reason
  noted there is the result.  The lock is held again.
\<close>

lemma finish_wait_keeps:
  assumes p: "preempt (cur_ti s) = 1" and c: "\<not> (ev_has_pending_events s (current s) \<and> b \<in> set (so_que (sync_objs s obj)))"
  shows "finish_wait s obj b = Some (blk_reason (blocks s b), s)"
proof -
  have t: "(cur_ti s)\<lparr>preempt := 1\<rparr> = cur_ti s" using p by (cases "cur_ti s") simp
  define s1 where "s1 = with_ti s ((cur_ti s)\<lparr>preempt := 2\<rparr>)"
  have "lock_leave s1 = Some (with_ti s1 ((cur_ti s1)\<lparr>preempt := 1\<rparr>))" by (rule lock_leave_inner) (simp add: s1_def)
  also have "with_ti s1 ((cur_ti s1)\<lparr>preempt := 1\<rparr>) = s" by (simp add: s1_def t with_ti_cur)
  finally have l: "lock_leave s1 = Some s" .
  have "ev_has_pending_events s1 (current s) = ev_has_pending_events s (current s)"
    by (simp add: s1_def ev_has_pending_events_def)
  then have "\<not> (ev_has_pending_events s1 (current s1) \<and> b \<in> set (so_que (sync_objs s1 obj)))" using c by (simp add: s1_def)
  then show ?thesis using l p by (simp add: finish_wait_def lock_enter_eq s1_def [symmetric] del: de_Morgan_conj)
qed

lemma sync_wait_resume_ok:
  assumes q: "quiet (cur_ti s)" and run: "cur_status s = THR_TSTATE_RUN" and b: "b \<notin> set (so_que (sync_objs s obj))"
  shows "\<exists>ti. sync_wait_resume u s obj b = Some (blk_reason (blocks s b), with_ti s ti) \<and> preempt ti = 1 \<and> intrcnt ti = 0"
proof -
  have fin: "\<exists>ti'. do { s' \<leftarrow> lock_enter (with_ti s ti); finish_wait s' obj b } = Some (blk_reason (blocks s b), with_ti s ti') \<and>
      preempt ti' = 1 \<and> intrcnt ti' = 0" if "quiet ti" for ti
    using finish_wait_keeps [of "with_ti s (ti\<lparr>preempt := 1\<rparr>)" b obj] b that
    by (intro exI [of _ "ti\<lparr>preempt := 1\<rparr>"]) (simp add: lock_enter_eq quiet_def)
  show ?thesis
  proof (cases u)
    case True
    have "sched_schedule s = Some (with_ti s (clr_ti (cur_ti s)))" using quiet_enabled [OF q] run by (rule sched_schedule_run)
    then show ?thesis using fin [of "clr_ti (cur_ti s)"] q True by (simp add: sync_wait_resume_def quiet_def)
  next
    case False
    then show ?thesis using fin [OF q] by (simp add: sync_wait_resume_def with_ti_cur)
  qed
qed

section \<open>Properties\<close>

text \<open>
  \<open>sync_wake\<close> by a running thread always returns.  It takes the first block of the
  queue, or all of them, according to the policy, notes the reason in exactly these blocks,
  makes their threads ready in the order of the queue, each at the end of the ready queue of its
  priority, and leaves everything else alone, the processor included.
\<close>

theorem sync_wake_spec:
  assumes "sched_inv s" and "waiting s (so_que (sync_objs s obj))" and "cur_status s = THR_TSTATE_RUN" and "quiet (cur_ti s)"
  shows "\<exists>s'. sync_wake s obj reason = Some s' \<and> sched_inv s' \<and>
    woke s obj reason (if so_policy (sync_objs s obj) = SYNC_WAKE_FLAG_ONE then take 1 (so_que (sync_objs s obj))
      else so_que (sync_objs s obj)) s'"
  using sync_wake_ok [OF assms(1-3)] assms(4) by (simp add: quiet_def)

lemma blocked_waiting:
  assumes wt: "waiting s (so_que (sync_objs s obj))" and bl: "blocked s obj b s'" and b: "b \<notin> set (so_que (sync_objs s obj))"
    and v: "valid_wait_status (wait_kind (sync_objs s obj))" and inv: "sched_inv s"
  shows "so_que (sync_objs s' obj) = so_que (sync_objs s obj) @ [b]" and "waiting s' (so_que (sync_objs s' obj))"
    and "blk_thr (blocks s' b) = current s" and "so_policy (sync_objs s' obj) = so_policy (sync_objs s obj)"
proof -
  note ext = same_but_run_sync [of "queued s obj b" s']
  have sb: "same_but_run (queued s obj b) s'" using bl by (simp add: blocked_def)
  have bk: "blocks s' = (blocks s)(b := \<lparr>blk_thr = current s, blk_reason = SYNC_WAI_WAIT\<rparr>)" using ext(1) [OF sb] by simp
  show que: "so_que (sync_objs s' obj) = so_que (sync_objs s obj) @ [b]" using ext(2) [OF sb] by simp
  show "blk_thr (blocks s' b) = current s" "so_policy (sync_objs s' obj) = so_policy (sync_objs s obj)"
    using ext(2) [OF sb] by (simp_all add: bk)
  have nw: "\<not> thr_in_wait (threads s (current s'))"
    using bl inv by (auto simp: blocked_def sched_inv_def thr_in_wait_def thr_wait_intr_def thr_wait_killable_def)
  have other: "blk_thr (blocks s c) \<noteq> current s" "blk_thr (blocks s c) \<noteq> current s'" "thr_in_wait (threads s' (blk_thr (blocks s c)))"
    if "c \<in> set (so_que (sync_objs s obj))" for c
  proof -
    have w: "thr_in_wait (threads s (blk_thr (blocks s c)))" "blk_thr (blocks s c) \<noteq> current s" using wt that by (auto simp: waiting_def)
    then show "blk_thr (blocks s c) \<noteq> current s" "blk_thr (blocks s c) \<noteq> current s'" using nw by auto
    then have "status (threads s' (blk_thr (blocks s c))) = status (threads s (blk_thr (blocks s c)))" using bl by (simp add: blocked_def)
    then show "thr_in_wait (threads s' (blk_thr (blocks s c)))"
      using w(1) by (simp add: thr_in_wait_def thr_wait_intr_def thr_wait_killable_def)
  qed
  have self: "thr_in_wait (threads s' (current s))" using bl v by (intro wait_in_wait) (auto simp: blocked_def)
  have "inj_on (\<lambda>c. blk_thr (blocks s' c)) (set (so_que (sync_objs s obj)))"
    using wt b by (auto simp: waiting_def bk inj_on_def)
  then have inj: "inj_on (\<lambda>c. blk_thr (blocks s' c)) (set (so_que (sync_objs s obj) @ [b]))"
    using other(1) b by (fastforce simp: bk split: if_splits)
  have nb: "c \<noteq> b" if "c \<in> set (so_que (sync_objs s obj))" for c using that b by auto
  show "waiting s' (so_que (sync_objs s' obj))"
    unfolding waiting_def que
  proof (intro conjI ballI)
    fix c assume c: "c \<in> set (so_que (sync_objs s obj) @ [b])"
    show "blk_reason (blocks s' c) = SYNC_WAI_WAIT" "thr_in_wait (threads s' (blk_thr (blocks s' c)))"
      "blk_thr (blocks s' c) \<noteq> current s'"
      using c wt other self nb bl by (auto simp: waiting_def bk blocked_def)
  qed (use wt b inj in \<open>auto simp: waiting_def\<close>)
qed

text \<open>
  Waiting and waking on an object whose policy is to wake all.  A thread that holds the lock of the
  object and calls \<open>sync_wait\<close> gives the processor away with its block in the queue.  When the thread
  that runs next calls \<open>sync_wake\<close> on the object, before any other operation, the queue becomes empty and the waiting
  thread ready; and when that thread has the processor again, with its block untouched since, its \<open>sync_wait\<close> returns the
  reason the waker gave.  (Under the other policy \<open>sync_wake\<close> wakes only the head of the queue.)
\<close>

theorem sync_wait_wake_roundtrip:
  assumes inv: "sched_inv s" and ni: "current s \<noteq> idle_thread s" and v: "valid_wait_status (wait_kind (sync_objs s obj))"
    and wt: "waiting s (so_que (sync_objs s obj))" and b: "b \<notin> set (so_que (sync_objs s obj))"
    and pol: "so_policy (sync_objs s obj) = SYNC_WAKE_FLAG_ALL"
    and ti: "preempt (cur_ti s) = 1" "intrcnt (cur_ti s) = 0" and calm: "\<forall>u. u \<noteq> current s \<longrightarrow> quiet (thr_ti (threads s u))"
  shows "\<exists>u s1 s2. sync_wait_block s obj b = Some (Suspended u, s1) \<and> current s1 \<noteq> current s \<and>
    sync_wake s1 obj reason = Some s2 \<and> sched_inv s2 \<and> so_que (sync_objs s2 obj) = [] \<and>
    status (threads s2 (current s)) = THR_TSTATE_READY \<and>
    (\<forall>s3. blocks s3 b = blocks s2 b \<and> b \<notin> set (so_que (sync_objs s3 obj)) \<and> current s3 = current s \<and>
       cur_status s3 = THR_TSTATE_RUN \<and> quiet (cur_ti s3) \<longrightarrow>
       (\<exists>s4. sync_wait_resume u s3 obj b = Some (reason, s4)))"
proof -
  from sync_wait_block_ok [OF inv ni v ti, of b] obtain u s1 where
    s1: "sync_wait_block s obj b = Some (Suspended u, s1)" "sched_inv s1" "blocked s obj b s1" by blast
  note w = blocked_waiting [OF wt s1(3) b v inv]
  have cur: "cur_status s1 = THR_TSTATE_RUN" "current s1 \<noteq> current s" using s1(3) by (simp_all add: blocked_def)
  have "quiet (cur_ti s1)" using s1(3) calm cur(2) by (simp add: blocked_def)
  then have q: "preempt (cur_ti s1) = 0 \<or> preempt (cur_ti s1) = 1" "intrcnt (cur_ti s1) = 0" by (auto simp: quiet_def)
  from sync_wake_ok [OF s1(2) w(2) cur(1) q, of reason] obtain s2 where
    s2: "sync_wake s1 obj reason = Some s2" "sched_inv s2" "woke s1 obj reason (so_que (sync_objs s1 obj)) s2"
    by (auto simp: w(4) pol)
  have "so_que (sync_objs s2 obj) = []" using s2(3) by (simp add: woke_def)
  moreover have "blk_reason (blocks s2 b) = reason" using s2(3) w(1) by (simp add: woke_def)
  moreover have "status (threads s2 (current s)) = THR_TSTATE_READY"
    using s2(3) w(1,3) unfolding woke_def by (auto intro!: image_eqI [of _ _ b])
  ultimately show ?thesis
    using s1(1) s2(1,2) cur(2) sync_wait_resume_ok by (intro exI [of _ u] exI [of _ s1] exI [of _ s2]) fastforce
qed

text \<open>
  A kill event ends an interruptible wait without ending the wait on the object: the
  thread is made ready, but since the event is not marked as pending \<open>finish_wait\<close> neither takes
  the block out of the queue nor reports an event.  \<open>sync_wait\<close> returns \<^verbatim>\<open>SYNC_WAI_WAIT\<close> and
  leaves a block of its own stack frame linked in the queue of the object.
\<close>

theorem kill_leaves_block_linked:
  assumes inv: "events_inv s" and t: "thr_find_thread_by_tid_nolock s dest = Some t" "thr_type (threads s t) \<noteq> THR_TYPE_KERNEL"
    and node: "ev_no (info node) = EV_SIG_KILL" and w: "thr_wait_intr (threads s t)"
    and mk: "unat EV_SIG_KILL \<notin> ev_set (masks (evque (threads s t)))" and ne: "\<not> ev_has_pending_events s t"
    and b: "b \<in> set (so_que (sync_objs s obj))" "blk_reason (blocks s b) = SYNC_WAI_WAIT"
  shows "\<exists>s'. ev_send s dest node = Some (0, s') \<and> status (threads s' t) = THR_TSTATE_READY \<and>
    (\<forall>s3. sync_objs s3 = sync_objs s' \<and> blocks s3 = blocks s' \<and> procs s3 = procs s' \<and> current s3 = t \<and>
       cur_status s3 = THR_TSTATE_RUN \<and> preempt (cur_ti s3) = 1 \<and> evque (threads s3 t) = evque (threads s' t) \<and>
       thr_p (threads s3 t) = thr_p (threads s' t) \<longrightarrow>
       (\<exists>s4. finish_wait s3 obj b = Some (SYNC_WAI_WAIT, s4) \<and> b \<in> set (so_que (sync_objs s4 obj))))"
proof -
  have no: "unat (ev_no (info node)) < EV_NR_EVENT" using node by simp
  from ev_send_ok [OF inv no t] obtain q s' where
    s': "ev_send s dest node = Some (0, s')" "posted (evque (threads s t)) node q" "events_inv s'"
      "ev_keeps (upd_thread s t (evque_update (\<lambda>_. q))) s'"
      "\<forall>u. status (threads s' u) = (if u = t \<and> interrupts s t (ev_no (info node)) then THR_TSTATE_READY else status (threads s u))"
    by blast
  have sb: "same_but_run (upd_thread s t (evque_update (\<lambda>_. q))) s'" using s'(4) by (simp add: ev_keeps_def same_but_run_def)
  have ext: "blocks s' = blocks s" "sync_objs s' = sync_objs s" using same_but_run_sync [OF sb] by (simp_all add: upd_thread_def)
  have kp: "procs s' = procs s" "evque (threads s' t) = q" "thr_p (threads s' t) = thr_p (threads s t)"
    using s'(4) by (simp_all add: ev_keeps_def)
  have "ev_mask_empty (events q)"
  proof -
    have "mask_ok (events q)" "mask_ok (events (evque (threads s t)))"
      using s'(3) inv kp(2) by (auto simp: events_but_def evq_ok_def)
    moreover have "ev_set (events q) = ev_set (events (evque (threads s t)))" using s'(2) node by (simp add: posted_def)
    moreover have "ev_mask_empty (events (evque (threads s t)))" using ne by (simp add: ev_has_pending_events_def Let_def split: if_splits)
    ultimately show ?thesis using ev_mask_empty_eq by metis
  qed
  moreover have "ev_mask_empty (events (p_evque (procs s (thr_p (threads s t)))))"
    using ne by (simp add: ev_has_pending_events_def Let_def split: if_splits)
  ultimately have np: "\<not> ev_has_pending_events s' t" by (simp add: ev_has_pending_events_def kp)
  have fw: "finish_wait s3 obj b = Some (SYNC_WAI_WAIT, s3)"
    if a: "sync_objs s3 = sync_objs s'" "blocks s3 = blocks s'" "procs s3 = procs s'" "current s3 = t" "preempt (cur_ti s3) = 1"
      "evque (threads s3 t) = evque (threads s' t)" "thr_p (threads s3 t) = thr_p (threads s' t)" for s3
  proof -
    have "\<not> ev_has_pending_events s3 (current s3)" using np a by (simp add: ev_has_pending_iff)
    moreover have "blk_reason (blocks s3 b) = SYNC_WAI_WAIT" using a(2) ext(1) b(2) by simp
    ultimately show ?thesis using finish_wait_keeps [OF a(5), of b obj] by simp
  qed
  have st: "status (threads s' t) = THR_TSTATE_READY" using s'(5) w mk node by (simp add: interrupts_def)
  show ?thesis
  proof (intro exI [of _ s'] conjI allI impI)
    fix s3
    assume a: "sync_objs s3 = sync_objs s' \<and> blocks s3 = blocks s' \<and> procs s3 = procs s' \<and> current s3 = t \<and>
       cur_status s3 = THR_TSTATE_RUN \<and> preempt (cur_ti s3) = 1 \<and> evque (threads s3 t) = evque (threads s' t) \<and>
       thr_p (threads s3 t) = thr_p (threads s' t)"
    then show "\<exists>s4. finish_wait s3 obj b = Some (SYNC_WAI_WAIT, s4) \<and> b \<in> set (so_que (sync_objs s4 obj))"
      using fw [of s3] b(1) ext(2) by auto
  qed (rule s'(1) st)+
qed

text \<open>
  A state for the witnesses: thread 1 runs, thread 3 waits on object 0 with its block 3, thread 2 is
  ready.
\<close>

definition small_sync :: sync_kernel where
  "small_sync = kernel.extend (upd_thread (upd_thread small_kernel 1 (status_update (\<lambda>_. THR_TSTATE_RUN)))
       3 (status_update (\<lambda>_. THR_TSTATE_WAIT_INTR)))
     (sync_kernel.fields (\<lambda>b. \<lparr>blk_thr = b, blk_reason = SYNC_WAI_WAIT\<rparr>)
       (\<lambda>_. \<lparr>wait_kind = THR_TSTATE_WAIT_INTR, so_policy = SYNC_WAKE_FLAG_ALL, so_que = [3]\<rparr>))"

lemma small_sync_simps:
  "threads small_sync = (threads small_kernel)(1 := (threads small_kernel 1)\<lparr>status := THR_TSTATE_RUN\<rparr>,
     3 := (threads small_kernel 3)\<lparr>status := THR_TSTATE_WAIT_INTR\<rparr>)"
  "current small_sync = 1" "idle_thread small_sync = 0" "ready_queues small_sync = ready_queues small_kernel"
  "procs small_sync = procs small_kernel" "thr_created_tree small_sync = thr_created_tree small_kernel"
  "blocks small_sync = (\<lambda>b. \<lparr>blk_thr = b, blk_reason = SYNC_WAI_WAIT\<rparr>)"
  "sync_objs small_sync = (\<lambda>_. \<lparr>wait_kind = THR_TSTATE_WAIT_INTR, so_policy = SYNC_WAKE_FLAG_ALL, so_que = [3]\<rparr>)"
  by (simp_all add: small_sync_def kernel.defs sync_kernel.defs) (simp_all add: small_kernel_def)

lemma small_kernel_cur: "current small_kernel = 1" "idle_thread small_kernel = 0"
  "status (threads small_kernel t) = (if t = 0 then THR_TSTATE_RUN else if t = 1 \<or> t = 2 then THR_TSTATE_READY else
     if t = 3 then THR_TSTATE_WAIT else THR_TSTATE_FREE)"
  "evque (threads small_kernel t) = ev_queue_init" "p_evque (procs small_kernel p) = ev_queue_init"
  "quiet (thr_ti (threads small_kernel t))"
  by (simp_all add: small_kernel_def quiet_def some_ti_def)

lemma small_sync_inv: "sched_inv small_sync"
proof -
  have "queues_hold small_kernel {1}" using small_kernel_inv by (simp add: sched_inv_def small_kernel_cur)
  then have Q: "length (ready_queues small_kernel) = THR_MAX_PRIO" "\<forall>t. unat (prio (threads small_kernel t)) < THR_MAX_PRIO"
    "\<forall>p < THR_MAX_PRIO. distinct (rq small_kernel p) \<and> tq_cnt (ready_queues small_kernel ! p) = of_nat (length (rq small_kernel p)) \<and>
       set (rq small_kernel p) = {t. status (threads small_kernel t) = THR_TSTATE_READY \<and> unat (prio (threads small_kernel t)) = p \<and>
         t \<notin> {1} \<and> t \<noteq> idle_thread small_kernel}"
    by (simp_all add: queues_hold_def)
  have r: "rq small_sync p = rq small_kernel p" for p by (simp add: rq_def small_sync_simps)
  have "{t. status (threads small_sync t) = THR_TSTATE_READY \<and> unat (prio (threads small_sync t)) = p \<and> t \<notin> {1} \<and> t \<noteq> idle_thread small_sync} =
    {t. status (threads small_kernel t) = THR_TSTATE_READY \<and> unat (prio (threads small_kernel t)) = p \<and>
         t \<notin> {1} \<and> t \<noteq> idle_thread small_kernel}" for p
    by (auto simp: small_sync_simps small_kernel_cur)
  then have "queues_hold small_sync {1}"
    unfolding queues_hold_def r using Q by (auto simp: small_sync_simps)
  then show ?thesis by (simp add: sched_inv_def small_sync_simps small_kernel_cur)
qed

lemma small_sync_waiting: "waiting small_sync (so_que (sync_objs small_sync 0))"
  by (simp add: waiting_def small_sync_simps thr_in_wait_def thr_wait_intr_def)

lemma small_sync_events: "events_inv small_sync"
proof -
  have "evque (threads small_sync t) = ev_queue_init" "p_evque (procs small_sync p) = ev_queue_init" for t p
    by (simp_all add: small_sync_simps small_kernel_cur)
  moreover have "\<not> thr_wait_intr (threads small_sync (current small_sync))"
    by (simp add: small_sync_simps thr_wait_intr_def thr_wait_killable_def)
  moreover have "mask_ok (masks ev_queue_init)" using ev_queue_init_ok by (simp add: evq_ok_def)
  ultimately show ?thesis by (simp add: events_but_def small_sync_inv ev_queue_init_ok)
qed

theorem sync_wake_spec_witness:
  "\<exists>s'. sync_wake small_sync 0 SYNC_WAI_RELEASED = Some s' \<and> sched_inv s' \<and>
    woke small_sync 0 SYNC_WAI_RELEASED (if so_policy (sync_objs small_sync 0) = SYNC_WAKE_FLAG_ONE
      then take 1 (so_que (sync_objs small_sync 0)) else so_que (sync_objs small_sync 0)) s'"
  by (rule sync_wake_spec [OF small_sync_inv small_sync_waiting])
    (simp_all add: small_sync_simps, simp add: small_kernel_def quiet_def some_ti_def)

definition locked_sync :: sync_kernel where
  "locked_sync = with_ti small_sync ((cur_ti small_sync)\<lparr>preempt := 1\<rparr>)"

theorem sync_wait_wake_roundtrip_witness:
  "\<exists>u s1 s2. sync_wait_block locked_sync 0 7 = Some (Suspended u, s1) \<and> current s1 \<noteq> current locked_sync \<and>
    sync_wake s1 0 SYNC_WAI_RELEASED = Some s2 \<and> sched_inv s2 \<and> so_que (sync_objs s2 0) = [] \<and>
    status (threads s2 (current locked_sync)) = THR_TSTATE_READY \<and>
    (\<forall>s3. blocks s3 7 = blocks s2 7 \<and> 7 \<notin> set (so_que (sync_objs s3 0)) \<and> current s3 = current locked_sync \<and>
       cur_status s3 = THR_TSTATE_RUN \<and> quiet (cur_ti s3) \<longrightarrow>
       (\<exists>s4. sync_wait_resume u s3 0 7 = Some (SYNC_WAI_RELEASED, s4)))"
  by (rule sync_wait_wake_roundtrip)
    (simp_all add: locked_sync_def small_sync_inv small_sync_waiting,
      simp_all add: small_sync_simps small_kernel_cur valid_wait_status_def, simp add: small_kernel_def some_ti_def)

theorem kill_leaves_block_linked_witness:
  "\<exists>s'. ev_send small_sync 3 \<lparr>node_addr = 1, info = zero_evinfo\<lparr>ev_no := 9\<rparr>\<rparr> = Some (0, s') \<and> status (threads s' 3) = THR_TSTATE_READY \<and>
    (\<forall>s3. sync_objs s3 = sync_objs s' \<and> blocks s3 = blocks s' \<and> procs s3 = procs s' \<and> current s3 = 3 \<and>
       cur_status s3 = THR_TSTATE_RUN \<and> preempt (cur_ti s3) = 1 \<and> evque (threads s3 3) = evque (threads s' 3) \<and>
       thr_p (threads s3 3) = thr_p (threads s' 3) \<longrightarrow>
       (\<exists>s4. finish_wait s3 0 3 = Some (SYNC_WAI_WAIT, s4) \<and> 3 \<in> set (so_que (sync_objs s4 0))))"
proof (rule kill_leaves_block_linked [OF small_sync_events])
  have "ev_mask_empty (events ev_queue_init)" by (simp add: ev_queue_init_def ev_mask_empty_def numeral_2_eq_2)
  then show "\<not> ev_has_pending_events small_sync 3" by (simp add: ev_has_pending_iff small_sync_simps small_kernel_cur)
  show "thr_find_thread_by_tid_nolock small_sync 3 = Some 3"
    by (simp add: thr_find_thread_by_tid_nolock_def small_sync_simps) (simp add: small_kernel_def small_sync_simps)
  show "thr_type (threads small_sync 3) \<noteq> THR_TYPE_KERNEL" by (simp add: small_sync_simps) (simp add: small_kernel_def)
  show "unat EV_SIG_KILL \<notin> ev_set (masks (evque (threads small_sync 3)))"
    by (simp add: small_sync_simps small_kernel_cur) (simp add: ev_queue_init_def ev_set_def)
qed (simp_all add: small_sync_simps thr_wait_intr_def)

end
