(* ===== verification/Mutex.thy ===== *)
theory Mutex
  imports Thread_Sync
begin

text \<open>
  Mutexes, \<^verbatim>\<open>src/kern/mutex.c\<close>.  A thread that finds the mutex taken waits on its
  synchronisation object; the release wakes all waiters, which then try again.  \<open>mutex_lock\<close> spans
  the context switches of \<open>sync_wait\<close>, so it is the operation \<open>mutex_lock\<close>, up to the return or
  to the first switch, and \<open>mutex_lock_resume\<close>, from the moment the thread has the processor
  again up to the return or to the next switch.
\<close>

section \<open>Data and operations\<close>

record mutex =
  mutex_waiter :: nat
  mtx_flags :: u32
  counter :: u64
  owner :: "nat option"

record mutex_kernel = sync_kernel +
  mutexes :: "nat \<Rightarrow> mutex"

abbreviation MTX_FLAG_EXCLUSIVE :: u32 where "MTX_FLAG_EXCLUSIVE \<equiv> 0"
abbreviation MTX_FLAG_RECURSIVE :: u32 where "MTX_FLAG_RECURSIVE \<equiv> 1"

definition upd_mutex :: "mutex_kernel \<Rightarrow> nat \<Rightarrow> (mutex \<Rightarrow> mutex) \<Rightarrow> mutex_kernel" where
  "upd_mutex s m f = s\<lparr>mutexes := (mutexes s)(m := f (mutexes s m))\<rparr>"

text \<open>The synchronisation object is the one \<open>mutex_waiter\<close> names.\<close>

definition mutex_init :: "mutex_kernel \<Rightarrow> nat \<Rightarrow> u32 \<Rightarrow> mutex_kernel option" where
  "mutex_init s m flags = do {
     obj \<leftarrow> sync_init_object SYNC_WAKE_FLAG_ALL THR_TSTATE_WAIT;
     let s = upd_obj s (mutex_waiter (mutexes s m)) (\<lambda>_. obj);
     Some (upd_mutex s m (\<lambda>mtx. mtx\<lparr>counter := 0, owner := None, mtx_flags := flags\<rparr>))
   }"

definition mutex_destroy :: "mutex_kernel \<Rightarrow> nat \<Rightarrow> mutex_kernel option" where
  "mutex_destroy s m = do {
     s \<leftarrow> sync_wake s (mutex_waiter (mutexes s m)) SYNC_OBJ_DESTROYED;
     Some (upd_mutex s m (\<lambda>mtx. mtx\<lparr>counter := 0, owner := None\<rparr>))
   }"

definition mutex_locked_by_self :: "mutex_kernel \<Rightarrow> nat \<Rightarrow> (bool \<times> mutex_kernel) option" where
  "mutex_locked_by_self s m = do {
     s \<leftarrow> lock_enter s;
     let rc = (owner (mutexes s m) = Some (current s));
     s \<leftarrow> lock_leave s;
     Some (rc, s)
   }"

text \<open>
  The loop of \<open>mutex_lock\<close> with the lock held.  \<open>Acquired\<close> and \<open>Refused\<close> are the results true and
  false; \<open>Waits\<close> means that the thread has given the processor away.
\<close>

datatype lock_outcome = Acquired | Refused | Waits bool

partial_function (option) mutex_lock_loop :: "nat \<Rightarrow> nat \<Rightarrow> mutex_kernel \<Rightarrow> (lock_outcome \<times> mutex_kernel) option" where
  "mutex_lock_loop m b s =
     (if counter (mutexes s m) = 0 then do {
        s \<leftarrow> lock_leave (upd_mutex s m (\<lambda>mtx. mtx\<lparr>counter := counter mtx + 1, owner := Some (current s)\<rparr>));
        Some (Acquired, s)
      } else if owner (mutexes s m) = Some (current s) \<and> mtx_flags (mutexes s m) AND MTX_FLAG_RECURSIVE \<noteq> 0 then do {
        s \<leftarrow> lock_leave (upd_mutex s m (\<lambda>mtx. mtx\<lparr>counter := counter mtx + 1\<rparr>));
        Some (Acquired, s)
      } else do {
        (out, s) \<leftarrow> sync_wait_block s (mutex_waiter (mutexes s m)) b;
        (case out of
           Suspended u \<Rightarrow> Some (Waits u, s)
         | Returned rc \<Rightarrow>
             if rc = SYNC_OBJ_DESTROYED then do { s \<leftarrow> lock_leave s; Some (Refused, s) }
             else mutex_lock_loop m b s)
      })"

definition mutex_lock :: "mutex_kernel \<Rightarrow> nat \<Rightarrow> nat \<Rightarrow> (lock_outcome \<times> mutex_kernel) option" where
  "mutex_lock s m b = do {
     s \<leftarrow> lock_enter s;
     mutex_lock_loop m b s
   }"

definition mutex_lock_resume :: "bool \<Rightarrow> mutex_kernel \<Rightarrow> nat \<Rightarrow> nat \<Rightarrow> (lock_outcome \<times> mutex_kernel) option" where
  "mutex_lock_resume u s m b = do {
     (rc, s) \<leftarrow> sync_wait_resume u s (mutex_waiter (mutexes s m)) b;
     if rc = SYNC_OBJ_DESTROYED then do { s \<leftarrow> lock_leave s; Some (Refused, s) }
     else mutex_lock_loop m b s
   }"

definition mutex_unlock :: "mutex_kernel \<Rightarrow> nat \<Rightarrow> mutex_kernel option" where
  "mutex_unlock s m = do {
     s \<leftarrow> lock_enter s;
     kassert (0 < counter (mutexes s m));
     kassert (owner (mutexes s m) = Some (current s));
     let s = upd_mutex s m (\<lambda>mtx. mtx\<lparr>counter := counter mtx - 1\<rparr>);
     s \<leftarrow> (if counter (mutexes s m) = 0
          then sync_wake (upd_mutex s m (\<lambda>mtx. mtx\<lparr>owner := None\<rparr>)) (mutex_waiter (mutexes s m)) SYNC_WAI_RELEASED
          else Some s);
     lock_leave s
   }"

section \<open>Threads using a mutex\<close>

text \<open>
  The client threads of one mutex \<open>m\<close>: \<open>held\<close> counts how often each thread has acquired it, and
  \<open>waits\<close> says which threads are inside \<open>mutex_lock\<close> without the processor.  The block a
  thread waits with has the address of the thread.  A thread asks for a mutex it already has only
  if the mutex is recursive, and releases only what it has; apart from the operations a thread
  may give up the processor at any time.
\<close>

record clients =
  held :: "nat \<Rightarrow> nat"
  waits :: "nat \<Rightarrow> bool option"
  kern :: mutex_kernel

fun after_lock :: "clients \<Rightarrow> lock_outcome \<times> mutex_kernel \<Rightarrow> clients" where
  "after_lock c (Acquired, s) = \<lparr>held = (held c)(current (kern c) := held c (current (kern c)) + 1),
     waits = (waits c)(current (kern c) := None), kern = s\<rparr>"
| "after_lock c (Refused, s) = \<lparr>held = held c, waits = (waits c)(current (kern c) := None), kern = s\<rparr>"
| "after_lock c (Waits u, s) = \<lparr>held = held c, waits = (waits c)(current (kern c) := Some u), kern = s\<rparr>"

inductive client_step :: "nat \<Rightarrow> clients \<Rightarrow> clients \<Rightarrow> bool" for m where
  lock: "waits c (current (kern c)) = None \<Longrightarrow> current (kern c) \<noteq> idle_thread (kern c) \<Longrightarrow>
    held c (current (kern c)) = 0 \<or> mtx_flags (mutexes (kern c) m) AND MTX_FLAG_RECURSIVE \<noteq> 0 \<Longrightarrow>
    held c (current (kern c)) + 1 < 2 ^ 64 \<Longrightarrow>
    mutex_lock (kern c) m (current (kern c)) = Some r \<Longrightarrow> client_step m c (after_lock c r)"
| resume: "waits c (current (kern c)) = Some u \<Longrightarrow>
    mutex_lock_resume u (kern c) m (current (kern c)) = Some r \<Longrightarrow> client_step m c (after_lock c r)"
| unlock: "waits c (current (kern c)) = None \<Longrightarrow> current (kern c) \<noteq> idle_thread (kern c) \<Longrightarrow> 0 < held c (current (kern c)) \<Longrightarrow>
    mutex_unlock (kern c) m = Some s \<Longrightarrow>
    client_step m c \<lparr>held = (held c)(current (kern c) := held c (current (kern c)) - 1), waits = waits c, kern = s\<rparr>"
| yield: "waits c (current (kern c)) = None \<Longrightarrow> thr_yield (kern c) = Some s \<Longrightarrow>
    client_step m c (c\<lparr>kern := s\<rparr>)"

section \<open>Invariant\<close>

definition mq :: "nat \<Rightarrow> mutex_kernel \<Rightarrow> nat list" where
  "mq m s = so_que (sync_objs s (mutex_waiter (mutexes s m)))"

text \<open>
  The mutex is free, and then nobody waits for it, or its owner is the one thread that has acquired
  it, as often as the counter says.
\<close>

definition taken :: "nat \<Rightarrow> (nat \<Rightarrow> nat) \<Rightarrow> mutex_kernel \<Rightarrow> bool" where
  "taken m h s \<longleftrightarrow>
     (case owner (mutexes s m) of
        None \<Rightarrow> counter (mutexes s m) = 0 \<and> (\<forall>t. h t = 0) \<and> mq m s = []
      | Some t \<Rightarrow> 0 < h t \<and> h t < 2 ^ 64 \<and> counter (mutexes s m) = of_nat (h t) \<and> (\<forall>u. u \<noteq> t \<longrightarrow> h u = 0))"

text \<open>
  Every thread inside \<open>mutex_lock\<close> is in the queue of the mutex, waiting, or has been released and is
  ready or already running again.
\<close>

definition core :: "nat \<Rightarrow> (nat \<Rightarrow> nat) \<Rightarrow> (nat \<Rightarrow> bool option) \<Rightarrow> mutex_kernel \<Rightarrow> bool" where
  "core m h w s \<longleftrightarrow> sched_inv s \<and> (current s \<noteq> idle_thread s \<longrightarrow> cur_status s = THR_TSTATE_RUN) \<and>
     wait_kind (sync_objs s (mutex_waiter (mutexes s m))) = THR_TSTATE_WAIT \<and>
     so_policy (sync_objs s (mutex_waiter (mutexes s m))) = SYNC_WAKE_FLAG_ALL \<and>
     waiting s (mq m s) \<and> (\<forall>t \<in> set (mq m s). blk_thr (blocks s t) = t \<and> w t \<noteq> None) \<and>
     (\<forall>t. w t \<noteq> None \<longrightarrow> t \<noteq> idle_thread s \<and> h t = 0 \<and>
        (t \<in> set (mq m s) \<or> blk_reason (blocks s t) = SYNC_WAI_RELEASED \<and> (t = current s \<or> status (threads s t) = THR_TSTATE_READY))) \<and>
     taken m h s"

definition clients_ok :: "nat \<Rightarrow> clients \<Rightarrow> bool" where
  "clients_ok m c \<longleftrightarrow> core m (held c) (waits c) (kern c) \<and> calm (kern c)"

lemma with_ti_mutex [simp]: "mutexes (with_ti s ti) = mutexes s" "mq m (with_ti s ti) = mq m s"
  by (simp_all add: with_ti_def upd_thread_def mq_def)

lemma core_with_ti [simp]: "core m h w (with_ti s ti) = core m h w s"
proof -
  have "taken m h (with_ti s ti) = taken m h s" by (simp add: taken_def split: option.split)
  then show ?thesis by (simp add: core_def with_ti_fields del: with_ti_simps(5))
qed

lemma upd_mutex_simps [simp]:
  "current (upd_mutex s m f) = current s" "idle_thread (upd_mutex s m f) = idle_thread s" "threads (upd_mutex s m f) = threads s"
  "blocks (upd_mutex s m f) = blocks s" "sync_objs (upd_mutex s m f) = sync_objs s" "ready_queues (upd_mutex s m f) = ready_queues s"
  "mutexes (upd_mutex s m f) = (mutexes s)(m := f (mutexes s m))"
  by (simp_all add: upd_mutex_def)

lemma upd_mutex_inv [simp]: "sched_inv (upd_mutex s m f) = sched_inv s" "waiting (upd_mutex s m f) bs = waiting s bs"
proof -
  show "sched_inv (upd_mutex s m f) = sched_inv s"
    by (auto intro: sched_inv_cong [of s "upd_mutex s m f"] sched_inv_cong [of "upd_mutex s m f" s])
  show "waiting (upd_mutex s m f) bs = waiting s bs" by (simp add: waiting_def)
qed

text \<open>A change of counter and owner keeps the rest of the invariant.\<close>

lemma core_upd_mutex:
  assumes "core m h w s" and "mutex_waiter (f (mutexes s m)) = mutex_waiter (mutexes s m)" and "taken m h' (upd_mutex s m f)"
    and "\<forall>t. w t \<noteq> None \<longrightarrow> h' t = 0"
  shows "core m h' w (upd_mutex s m f)"
proof -
  have q: "mq m (upd_mutex s m f) = mq m s" using assms(2) by (simp add: mq_def)
  show ?thesis using assms unfolding core_def q by simp
qed

lemma core_no_wait:
  assumes "core m h w s" and "t \<notin> set (mq m s)"
  shows "core m h (w(t := None)) s"
  using assms unfolding core_def by (simp split: if_splits) (metis option.distinct(1))

lemma current_not_queued: "core m h w s \<Longrightarrow> current s \<notin> set (mq m s)"
  by (auto simp: core_def waiting_def)

lemma mutexes_same:
  fixes s s' :: mutex_kernel
  shows "sync_kernel.more s' = sync_kernel.more s \<Longrightarrow> mutexes s' = mutexes s"
  by (cases s, cases s') simp

lemma taken_owner:
  assumes "taken m h s" and "0 < h t"
  shows "owner (mutexes s m) = Some t" and "h t < 2 ^ 64" and "counter (mutexes s m) = of_nat (h t)" and "\<forall>u. u \<noteq> t \<longrightarrow> h u = 0"
proof -
  from assms obtain t' where t': "owner (mutexes s m) = Some t'" "h t' < 2 ^ 64" "counter (mutexes s m) = of_nat (h t')"
    "\<forall>u. u \<noteq> t' \<longrightarrow> h u = 0" by (auto simp: taken_def split: option.splits)
  then have "t' = t" using assms(2) by (metis less_irrefl)
  with t' show "owner (mutexes s m) = Some t" "h t < 2 ^ 64" "counter (mutexes s m) = of_nat (h t)" "\<forall>u. u \<noteq> t \<longrightarrow> h u = 0" by simp_all
qed

section \<open>The operations keep the invariant\<close>

lemma calm_with_ti_others: "\<forall>u. u \<noteq> current s \<longrightarrow> quiet (thr_ti (threads s u)) \<Longrightarrow> quiet ti \<Longrightarrow> calm (with_ti s ti)"
  by (simp add: calm_def)

lemma blocked_core:
  assumes core: "core m h w s" and cur: "w (current s) = None" "current s \<noteq> idle_thread s" "h (current s) = 0"
    and ow: "owner (mutexes s m) \<noteq> None" and oth: "\<forall>t. t \<noteq> current s \<longrightarrow> quiet (thr_ti (threads s t))"
    and inv': "sched_inv s'" and bl: "blocked s (mutex_waiter (mutexes s m)) (current s) s'"
  shows "core m h (w(current s := Some u)) s'" and "calm s'"
proof -
  let ?o = "mutex_waiter (mutexes s m)" and ?t = "current s"
  have c: "sched_inv s" "waiting s (so_que (sync_objs s ?o))" "wait_kind (sync_objs s ?o) = THR_TSTATE_WAIT"
    "so_policy (sync_objs s ?o) = SYNC_WAKE_FLAG_ALL" "\<forall>t \<in> set (mq m s). blk_thr (blocks s t) = t \<and> w t \<noteq> None" "taken m h s"
    using core by (simp_all add: core_def mq_def)
  have nq: "?t \<notin> set (so_que (sync_objs s ?o))" using current_not_queued [OF core] by (simp add: mq_def)
  have v: "valid_wait_status (wait_kind (sync_objs s ?o))" using c(3) by (simp add: valid_wait_status_def)
  note bw = blocked_waiting [OF c(2) bl nq v c(1)]
  have sb: "same_but_run (queued s ?o ?t) s'" using bl by (simp add: blocked_def)
  note ext = same_but_run_sync [OF sb]
  have mx: "mutexes s' = mutexes s" using ext(3) by (intro mutexes_same) simp
  have q': "mq m s' = mq m s @ [?t]" using bw(1) by (simp add: mq_def mx)
  have bk: "blocks s' t = (if t = ?t then \<lparr>blk_thr = ?t, blk_reason = SYNC_WAI_WAIT\<rparr> else blocks s t)" for t using ext(1) by simp
  have idle: "idle_thread s' = idle_thread s" using sb by (simp add: same_but_run_def)
  have st: "status (threads s' u) = status (threads s u)" if "u \<noteq> current s'" "u \<noteq> ?t" for u using bl that by (simp add: blocked_def)
  have w': "(w(?t := Some u)) t \<noteq> None \<Longrightarrow> t \<noteq> idle_thread s' \<and> h t = 0 \<and> (t \<in> set (mq m s') \<or>
      blk_reason (blocks s' t) = SYNC_WAI_RELEASED \<and> (t = current s' \<or> status (threads s' t) = THR_TSTATE_READY))" for t
  proof (cases "t = ?t")
    case True
    then show ?thesis using cur q' idle by simp
  next
    case False
    assume "(w(?t := Some u)) t \<noteq> None"
    then have "w t \<noteq> None" using False by simp
    then have "t \<noteq> idle_thread s \<and> h t = 0 \<and> (t \<in> set (mq m s) \<or>
        blk_reason (blocks s t) = SYNC_WAI_RELEASED \<and> (t = ?t \<or> status (threads s t) = THR_TSTATE_READY))"
      using core unfolding core_def by blast
    then show ?thesis using False q' idle bk st by (cases "t = current s'") auto
  qed
  have "taken m h s'" using c(6) ow by (auto simp: taken_def mx)
  moreover have "cur_status s' = THR_TSTATE_RUN" using bl by (simp add: blocked_def)
  moreover have "wait_kind (sync_objs s' ?o) = THR_TSTATE_WAIT" "so_policy (sync_objs s' ?o) = SYNC_WAKE_FLAG_ALL"
    using ext(2) c(3,4) by simp_all
  moreover have "waiting s' (mq m s')" using bw(2) by (simp add: mq_def mx)
  moreover have "blk_thr (blocks s' t) = t \<and> (w(?t := Some u)) t \<noteq> None" if "t \<in> set (mq m s')" for t
    using that q' c(5) by (auto simp: bk)
  ultimately show "core m h (w(?t := Some u)) s'" using inv' w' unfolding core_def mx by blast
  show "calm s'" using bl oth unfolding calm_def blocked_def by metis
qed

lemma lock_loop_ok:
  assumes core: "core m h w s" and cur: "w (current s) = None" "current s \<noteq> idle_thread s"
    and may: "h (current s) = 0 \<or> mtx_flags (mutexes s m) AND MTX_FLAG_RECURSIVE \<noteq> 0" "h (current s) + 1 < 2 ^ 64"
    and ti: "preempt (cur_ti s) = 1" "intrcnt (cur_ti s) = 0" and oth: "\<forall>t. t \<noteq> current s \<longrightarrow> quiet (thr_ti (threads s t))"
  shows "\<exists>r. mutex_lock_loop m (current s) s = Some r \<and> clients_ok m (after_lock \<lparr>held = h, waits = w, kern = s\<rparr> r)"
proof -
  have run: "cur_status s = THR_TSTATE_RUN" using core cur(2) by (simp add: core_def)
  have tk: "taken m h s" using core by (simp add: core_def)
  have win: "\<exists>r. do { s' \<leftarrow> lock_leave (upd_mutex s m f); Some (Acquired, s') } = Some r \<and>
      clients_ok m (after_lock \<lparr>held = h, waits = w, kern = s\<rparr> r)"
    if f: "mutex_waiter (f (mutexes s m)) = mutex_waiter (mutexes s m)"
      "taken m (h(current s := h (current s) + 1)) (upd_mutex s m f)" for f
  proof -
    from lock_leave_run [of "upd_mutex s m f"] ti run obtain ti' where
      l: "lock_leave (upd_mutex s m f) = Some (with_ti (upd_mutex s m f) ti')" "quiet ti'" by auto
    have "\<forall>t. w t \<noteq> None \<longrightarrow> (h(current s := h (current s) + 1)) t = 0" using core cur(1) by (auto simp: core_def)
    then have "core m (h(current s := h (current s) + 1)) w (upd_mutex s m f)" using core f by (intro core_upd_mutex)
    moreover have "w(current s := None) = w" using cur(1) by auto
    moreover have "calm (with_ti (upd_mutex s m f) ti')" using oth l(2) by (intro calm_with_ti_others) simp_all
    ultimately show ?thesis using l(1) by (simp add: clients_ok_def)
  qed
  show ?thesis
  proof (cases "counter (mutexes s m) = 0")
    case True
    have z: "owner (mutexes s m) = None" "\<forall>t. h t = 0"
      using tk True by (auto simp: taken_def unat_of_nat dest: arg_cong [of _ _ unat] split: option.splits)
    have "mutex_lock_loop m (current s) s = do {
        s' \<leftarrow> lock_leave (upd_mutex s m (\<lambda>mtx. mtx\<lparr>counter := counter mtx + 1, owner := Some (current s)\<rparr>)); Some (Acquired, s') }"
      by (subst mutex_lock_loop.simps) (simp add: True)
    moreover have "taken m (h(current s := h (current s) + 1)) (upd_mutex s m (\<lambda>mtx. mtx\<lparr>counter := counter mtx + 1, owner := Some (current s)\<rparr>))"
      using z True by (simp add: taken_def)
    ultimately show ?thesis using win by simp
  next
    case nz: False
    then obtain t where t: "owner (mutexes s m) = Some t" "0 < h t" "counter (mutexes s m) = of_nat (h t)" "\<forall>u. u \<noteq> t \<longrightarrow> h u = 0"
      using tk by (auto simp: taken_def split: option.splits)
    show ?thesis
    proof (cases "t = current s \<and> mtx_flags (mutexes s m) AND MTX_FLAG_RECURSIVE \<noteq> 0")
      case True
      have "mutex_lock_loop m (current s) s = do {
          s' \<leftarrow> lock_leave (upd_mutex s m (\<lambda>mtx. mtx\<lparr>counter := counter mtx + 1\<rparr>)); Some (Acquired, s') }"
        by (subst mutex_lock_loop.simps) (simp add: nz True t(1))
      moreover have "taken m (h(current s := h (current s) + 1)) (upd_mutex s m (\<lambda>mtx. mtx\<lparr>counter := counter mtx + 1\<rparr>))"
        using t True may(2) by (simp add: taken_def)
      ultimately show ?thesis using win by simp
    next
      case False
      then have ne: "t \<noteq> current s" "h (current s) = 0" using may(1) t(2,4) by auto
      have v: "valid_wait_status (wait_kind (sync_objs s (mutex_waiter (mutexes s m))))"
        using core by (simp add: core_def valid_wait_status_def)
      have inv: "sched_inv s" using core by (simp add: core_def)
      from sync_wait_block_ok [OF inv cur(2) v ti, of "current s"] obtain u s' where
        s': "sync_wait_block s (mutex_waiter (mutexes s m)) (current s) = Some (Suspended u, s')" "sched_inv s'"
          "blocked s (mutex_waiter (mutexes s m)) (current s) s'" by blast
      have "mutex_lock_loop m (current s) s = Some (Waits u, s')"
        by (subst mutex_lock_loop.simps) (simp add: nz t(1) ne(1) s'(1))
      moreover have "owner (mutexes s m) \<noteq> None" using t(1) by simp
      from blocked_core [OF core cur ne(2) this oth s'(2,3)]
      have "core m h (w(current s := Some u)) s'" "calm s'" by blast+
      ultimately show ?thesis by (simp add: clients_ok_def)
    qed
  qed
qed

lemma after_lock_cong:
  "held c' = held c \<Longrightarrow> waits c' = (waits c)(current (kern c) := None) \<Longrightarrow> current (kern c') = current (kern c) \<Longrightarrow>
    after_lock c' r = after_lock c r"
  by (cases r, rename_tac out s, case_tac out) simp_all

lemma mutex_lock_ok:
  assumes ok: "clients_ok m c" and cur: "waits c (current (kern c)) = None" "current (kern c) \<noteq> idle_thread (kern c)"
    and may: "held c (current (kern c)) = 0 \<or> mtx_flags (mutexes (kern c) m) AND MTX_FLAG_RECURSIVE \<noteq> 0"
      "held c (current (kern c)) + 1 < 2 ^ 64"
  shows "\<exists>r. mutex_lock (kern c) m (current (kern c)) = Some r \<and> clients_ok m (after_lock c r)"
proof -
  let ?s = "kern c"
  have q: "quiet (thr_ti (threads ?s t))" for t using ok by (simp add: clients_ok_def calm_def)
  define s1 where "s1 = with_ti ?s ((cur_ti ?s)\<lparr>preempt := preempt (cur_ti ?s) + 1\<rparr>)"
  have s1: "current s1 = current ?s" "idle_thread s1 = idle_thread ?s" "mutexes s1 = mutexes ?s" by (simp_all add: s1_def)
  have "\<exists>r. mutex_lock_loop m (current s1) s1 = Some r \<and> clients_ok m (after_lock \<lparr>held = held c, waits = waits c, kern = s1\<rparr> r)"
    using ok cur may q [of "current ?s"] q by (intro lock_loop_ok) (simp_all add: s1_def clients_ok_def quiet_def)
  moreover have "after_lock \<lparr>held = held c, waits = waits c, kern = s1\<rparr> r = after_lock c r" for r
    using cur(1) by (intro after_lock_cong) (auto simp: s1)
  moreover have "mutex_lock ?s m (current ?s) = mutex_lock_loop m (current s1) s1"
    by (simp add: mutex_lock_def lock_enter_eq s1_def)
  ultimately show ?thesis by simp
qed

lemma mutex_lock_resume_ok:
  assumes ok: "clients_ok m c" and w: "waits c (current (kern c)) = Some u"
  shows "\<exists>r. mutex_lock_resume u (kern c) m (current (kern c)) = Some r \<and> clients_ok m (after_lock c r)"
proof -
  let ?s = "kern c" and ?t = "current (kern c)"
  have core: "core m (held c) (waits c) ?s" and q: "quiet (thr_ti (threads ?s t))" for t
    using ok by (simp_all add: clients_ok_def calm_def)
  have nq: "?t \<notin> set (mq m ?s)" using core by (rule current_not_queued)
  have t: "?t \<noteq> idle_thread ?s" "held c ?t = 0" "blk_reason (blocks ?s ?t) = SYNC_WAI_RELEASED"
    using core w nq by (auto simp: core_def)
  have run: "cur_status ?s = THR_TSTATE_RUN" using core t(1) by (simp add: core_def)
  from sync_wait_resume_ok [OF q run, of ?t "mutex_waiter (mutexes ?s m)" u] nq obtain ti where
    ti: "sync_wait_resume u ?s (mutex_waiter (mutexes ?s m)) ?t = Some (SYNC_WAI_RELEASED, with_ti ?s ti)" "preempt ti = 1" "intrcnt ti = 0"
    by (auto simp: mq_def t(3))
  define s1 where "s1 = with_ti ?s ti"
  have s1: "current s1 = ?t" "idle_thread s1 = idle_thread ?s" "mutexes s1 = mutexes ?s" by (simp_all add: s1_def)
  have "core m (held c) ((waits c)(?t := None)) s1" using core_no_wait [OF core nq] by (simp add: s1_def)
  then have "\<exists>r. mutex_lock_loop m (current s1) s1 = Some r \<and>
      clients_ok m (after_lock \<lparr>held = held c, waits = (waits c)(?t := None), kern = s1\<rparr> r)"
    using t ti q by (intro lock_loop_ok) (simp_all add: s1_def)
  moreover have "after_lock \<lparr>held = held c, waits = (waits c)(?t := None), kern = s1\<rparr> r = after_lock c r" for r
    by (intro after_lock_cong) (simp_all add: s1)
  moreover have "mutex_lock_resume u ?s m ?t = mutex_lock_loop m (current s1) s1"
    by (simp add: mutex_lock_resume_def ti(1) s1_def)
  ultimately show ?thesis by simp
qed

lemma thr_yield_ok:
  assumes ok: "clients_ok m c" and w: "waits c (current (kern c)) = None"
  shows "\<exists>s. thr_yield (kern c) = Some s \<and> clients_ok m (c\<lparr>kern := s\<rparr>)"
proof -
  let ?s = "kern c" and ?t = "current (kern c)"
  have core: "core m (held c) (waits c) ?s" and q: "quiet (thr_ti (threads ?s t))" for t
    using ok by (simp_all add: clients_ok_def calm_def)
  define s1 where "s1 = upd_thread ?s ?t (status_update (\<lambda>_. THR_TSTATE_READY))"
  have inv1: "sched_inv s1"
  proof -
    have "queues_hold ?s {?t}" using core by (simp add: core_def sched_inv_def)
    then have "queues_hold s1 {?t}" by (rule queues_hold_cong) (simp_all add: s1_def)
    then show ?thesis using core by (simp add: core_def sched_inv_def s1_def)
  qed
  have en: "\<not> ti_dispatch_disabled (cur_ti s1)" using quiet_enabled [OF q] by (simp add: s1_def)
  have run: "thr_yield ?s = sched_schedule s1" using en by (simp add: thr_yield_def s1_def Let_def)
  have "cur_status s1 \<noteq> THR_TSTATE_RUN" by (simp add: s1_def)
  from sched_give_up [OF inv1 en this] obtain s' where
    s': "sched_schedule s1 = Some s'" "sched_inv s'" "same_but_run s1 s'" "current s' = current s1 \<longrightarrow> current s1 = idle_thread s1"
      "current s' \<noteq> current s1 \<longrightarrow> cur_status s' = THR_TSTATE_RUN"
      "current s' = idle_thread s1 \<or> status (threads s1 (current s')) = THR_TSTATE_READY"
      "\<forall>u. u \<noteq> current s' \<longrightarrow> status (threads s' u) = status (threads s1 u)"
      "\<forall>u. thr_ti (threads s' u) = (if u = current s1 then clr_ti (cur_ti s1) else thr_ti (threads s1 u))" by blast
  note ext = same_but_run_sync [OF s'(3)]
  have s1: "current s1 = ?t" "idle_thread s1 = idle_thread ?s" "blocks s1 = blocks ?s" "sync_objs s1 = sync_objs ?s"
    "sync_kernel.more s1 = sync_kernel.more ?s" by (simp_all add: s1_def upd_thread_def)
  have mx: "mutexes s' = mutexes ?s" using ext(3) s1(5) by (intro mutexes_same) simp
  have q': "mq m s' = mq m ?s" by (simp add: mq_def mx ext(2) s1(4))
  have idle: "idle_thread s' = idle_thread ?s" using s'(3) s1(2) by (simp add: same_but_run_def)
  have st: "status (threads s' u) = status (threads ?s u)" if "u \<noteq> current s'" "u \<noteq> ?t" for u
    using s'(7) that by (simp add: s1_def)
  have wt: "waiting s' (mq m ?s)"
    unfolding waiting_def ext(1) s1(3)
  proof (intro conjI ballI)
    have wo: "waiting ?s (mq m ?s)" using core by (simp add: core_def)
    then show "distinct (mq m ?s)" "inj_on (\<lambda>b. blk_thr (blocks ?s b)) (set (mq m ?s))" by (simp_all add: waiting_def)
    fix b assume b: "b \<in> set (mq m ?s)"
    then have x: "blk_reason (blocks ?s b) = SYNC_WAI_WAIT" "thr_in_wait (threads ?s (blk_thr (blocks ?s b)))"
      "blk_thr (blocks ?s b) \<noteq> ?t" using wo by (simp_all add: waiting_def)
    then show "blk_reason (blocks ?s b) = SYNC_WAI_WAIT" by simp
    show nc: "blk_thr (blocks ?s b) \<noteq> current s'"
    proof
      assume e: "blk_thr (blocks ?s b) = current s'"
      then have "status (threads ?s (current s')) = THR_TSTATE_READY \<or> current s' = idle_thread ?s"
        using s'(6) x(3) by (auto simp: s1_def)
      then show False using x(2) core unfolding e core_def sched_inv_def
        by (auto simp: thr_in_wait_def thr_wait_intr_def thr_wait_killable_def)
    qed
    then show "thr_in_wait (threads s' (blk_thr (blocks ?s b)))"
      using x st [OF nc x(3)] by (simp add: thr_in_wait_def thr_wait_intr_def thr_wait_killable_def)
  qed
  have w': "t \<noteq> idle_thread s' \<and> held c t = 0 \<and> (t \<in> set (mq m s') \<or> blk_reason (blocks s' t) = SYNC_WAI_RELEASED \<and>
      (t = current s' \<or> status (threads s' t) = THR_TSTATE_READY))" if "waits c t \<noteq> None" for t
  proof -
    have ne: "t \<noteq> ?t" using that w by auto
    have "t \<noteq> idle_thread ?s \<and> held c t = 0 \<and> (t \<in> set (mq m ?s) \<or> blk_reason (blocks ?s t) = SYNC_WAI_RELEASED \<and>
      (t = ?t \<or> status (threads ?s t) = THR_TSTATE_READY))" using core that unfolding core_def by blast
    then show ?thesis using ne st [of t] by (cases "t = current s'") (auto simp: idle q' ext(1) s1(3))
  qed
  have "taken m (held c) s'" using core by (simp add: core_def taken_def mx q' split: option.splits)
  moreover have "current s' \<noteq> idle_thread s' \<longrightarrow> cur_status s' = THR_TSTATE_RUN" using s'(4,5) idle s1(2) by auto
  ultimately have "core m (held c) (waits c) s'"
    using core s'(2) wt w' unfolding core_def mx q' ext(1,2) s1(3,4) by blast
  moreover have "calm s'" using s'(8) q by (simp add: calm_def s1_def quiet_def)
  ultimately show ?thesis using run s'(1) by (simp add: clients_ok_def)
qed

text \<open>The release of the last acquisition, with the lock held, wakes everybody who waits.\<close>

lemma release_core:
  assumes core: "core m h w s" and own: "owner (mutexes s m) = Some (current s)" "counter (mutexes s m) = 1"
    and cur: "w (current s) = None" "cur_status s = THR_TSTATE_RUN"
    and wk: "woke (upd_mutex s m (\<lambda>mtx. mtx\<lparr>counter := 0, owner := None\<rparr>)) (mutex_waiter (mutexes s m)) SYNC_WAI_RELEASED (mq m s) s'"
    and inv': "sched_inv s'"
  shows "core m (h(current s := 0)) w s'"
proof -
  let ?o = "mutex_waiter (mutexes s m)"
  have "sync_kernel.more s' = sync_kernel.more (upd_mutex s m (\<lambda>mtx. mtx\<lparr>counter := 0, owner := None\<rparr>))" using wk by (simp add: woke_def)
  then have mx: "mutexes s' = mutexes (upd_mutex s m (\<lambda>mtx. mtx\<lparr>counter := 0, owner := None\<rparr>))" by (rule mutexes_same)
  have k: "current s' = current s" "idle_thread s' = idle_thread s"
    "sync_objs s' = (sync_objs s)(?o := (sync_objs s ?o)\<lparr>so_que := []\<rparr>)"
    "\<And>b. blocks s' b = (if b \<in> set (mq m s) then (blocks s b)\<lparr>blk_reason := SYNC_WAI_RELEASED\<rparr> else blocks s b)"
    "\<And>u. status (threads s' u) = (if u \<in> (\<lambda>b. blk_thr (blocks s b)) ` set (mq m s) then THR_TSTATE_READY else status (threads s u))"
    using wk by (simp_all add: woke_def mq_def)
  have q': "mq m s' = []" by (simp add: mq_def mx k(3))
  have thr: "\<forall>t \<in> set (mq m s). blk_thr (blocks s t) = t \<and> w t \<noteq> None" using core by (simp add: core_def)
  then have im: "(\<lambda>b. blk_thr (blocks s b)) ` set (mq m s) = set (mq m s)" by force
  have nq: "current s \<notin> set (mq m s)" using core by (rule current_not_queued)
  have others: "\<forall>u. u \<noteq> current s \<longrightarrow> h u = 0" using core own(1) by (simp add: core_def taken_def)
  have w': "t \<noteq> idle_thread s' \<and> (h(current s := 0)) t = 0 \<and> (t \<in> set (mq m s') \<or> blk_reason (blocks s' t) = SYNC_WAI_RELEASED \<and>
      (t = current s' \<or> status (threads s' t) = THR_TSTATE_READY))" if "w t \<noteq> None" for t
  proof -
    have "t \<noteq> idle_thread s \<and> h t = 0 \<and> (t \<in> set (mq m s) \<or> blk_reason (blocks s t) = SYNC_WAI_RELEASED \<and>
      (t = current s \<or> status (threads s t) = THR_TSTATE_READY))" using core that unfolding core_def by blast
    then show ?thesis using others by (auto simp: k im)
  qed
  have "taken m (h(current s := 0)) s'" using others by (simp add: taken_def mx q')
  moreover have "wait_kind (sync_objs s' (mutex_waiter (mutexes s' m))) = THR_TSTATE_WAIT"
    "so_policy (sync_objs s' (mutex_waiter (mutexes s' m))) = SYNC_WAKE_FLAG_ALL" using core by (simp_all add: core_def mx k(3))
  moreover have "cur_status s' = THR_TSTATE_RUN" using cur(2) nq by (simp add: k im)
  moreover have "waiting s' (mq m s')" by (simp add: q' waiting_def)
  ultimately show ?thesis using inv' w' unfolding core_def by (simp add: q')
qed

lemma mutex_unlock_ok:
  assumes ok: "clients_ok m c" and w: "waits c (current (kern c)) = None" and h: "0 < held c (current (kern c))"
    and ni: "current (kern c) \<noteq> idle_thread (kern c)"
  shows "\<exists>s. mutex_unlock (kern c) m = Some s \<and>
    clients_ok m \<lparr>held = (held c)(current (kern c) := held c (current (kern c)) - 1), waits = waits c, kern = s\<rparr>"
proof -
  let ?s = "kern c" and ?t = "current (kern c)"
  have core: "core m (held c) (waits c) ?s" and q: "quiet (thr_ti (threads ?s t))" for t
    using ok by (simp_all add: clients_ok_def calm_def)
  have run: "cur_status ?s = THR_TSTATE_RUN" using core ni by (simp add: core_def)
  have "taken m (held c) ?s" using core by (simp add: core_def)
  note tk = taken_owner [where h = "held c" and t = ?t, OF this h]
  have pos: "0 < counter (mutexes ?s m)" using tk(2,3) h by (simp add: word_less_nat_alt unat_of_nat)
  define s1 where "s1 = with_ti ?s ((cur_ti ?s)\<lparr>preempt := 1\<rparr>)"
  have core1: "core m (held c) (waits c) s1" using core by (simp add: s1_def)
  have s1: "current s1 = ?t" "mutexes s1 = mutexes ?s" "cur_status s1 = THR_TSTATE_RUN" "preempt (cur_ti s1) = 1" "intrcnt (cur_ti s1) = 0"
    "\<forall>u. u \<noteq> ?t \<longrightarrow> quiet (thr_ti (threads s1 u))"
    using run q by (auto simp: s1_def quiet_def)
  have en: "lock_enter ?s = Some s1" using q [of ?t] by (simp add: lock_enter_eq s1_def quiet_def)
  have leave: "\<exists>s. lock_leave s2 = Some s \<and> clients_ok m \<lparr>held = h', waits = waits c, kern = s\<rparr>"
    if "core m h' (waits c) s2" "cur_status s2 = THR_TSTATE_RUN" "preempt (cur_ti s2) = 1" "intrcnt (cur_ti s2) = 0"
      "\<forall>u. u \<noteq> current s2 \<longrightarrow> quiet (thr_ti (threads s2 u))" for s2 h'
  proof -
    from lock_leave_run [OF that(3,4,2)] obtain ti where "lock_leave s2 = Some (with_ti s2 ti)" "quiet ti" by blast
    then show ?thesis using that(1) calm_with_ti_others [OF that(5)] by (simp add: clients_ok_def)
  qed
  show ?thesis
  proof (cases "held c ?t = 1")
    case True
    define s2 where "s2 = upd_mutex s1 m (\<lambda>mtx. mtx\<lparr>counter := 0, owner := None\<rparr>)"
    have c1: "counter (mutexes ?s m) = 1" using tk(3) True by simp
    have "upd_mutex (upd_mutex s1 m (\<lambda>mtx. mtx\<lparr>counter := counter mtx - 1\<rparr>)) m (\<lambda>mtx. mtx\<lparr>owner := None\<rparr>) = s2"
      using c1 by (simp add: s2_def upd_mutex_def s1(2))
    then have un: "mutex_unlock ?s m = do { s' \<leftarrow> sync_wake s2 (mutex_waiter (mutexes ?s m)) SYNC_WAI_RELEASED; lock_leave s' }"
      using en pos tk(1) c1 by (simp add: mutex_unlock_def s1)
    have "waiting s2 (so_que (sync_objs s2 (mutex_waiter (mutexes ?s m))))" "sched_inv s2"
      using core1 by (simp_all add: core_def s2_def mq_def s1(2))
    moreover have "cur_status s2 = THR_TSTATE_RUN" "preempt (cur_ti s2) = 0 \<or> preempt (cur_ti s2) = 1" "intrcnt (cur_ti s2) = 0"
      using s1 by (simp_all add: s2_def)
    moreover have "so_policy (sync_objs s2 (mutex_waiter (mutexes ?s m))) = SYNC_WAKE_FLAG_ALL"
      "so_que (sync_objs s2 (mutex_waiter (mutexes ?s m))) = mq m s1"
      using core1 by (simp_all add: core_def s2_def mq_def s1(2))
    ultimately obtain s3 where
      s3: "sync_wake s2 (mutex_waiter (mutexes ?s m)) SYNC_WAI_RELEASED = Some s3" "sched_inv s3"
        "woke s2 (mutex_waiter (mutexes ?s m)) SYNC_WAI_RELEASED (mq m s1) s3"
      using sync_wake_ok [of s2 "mutex_waiter (mutexes ?s m)" SYNC_WAI_RELEASED] by auto
    have core3: "core m ((held c)(current s1 := 0)) (waits c) s3"
      by (rule release_core [OF core1]) (use s1 tk(1) c1 w s3 in \<open>simp_all add: s2_def\<close>)
    have cnt: "current s3 = ?t" "preempt (thr_ti (threads s3 u)) = preempt (thr_ti (threads s1 u))"
      "intrcnt (thr_ti (threads s3 u)) = intrcnt (thr_ti (threads s1 u))" for u
      using s3(3) by (simp_all add: woke_def s2_def s1(1))
    have "cur_status s3 = THR_TSTATE_RUN" "idle_thread s3 = idle_thread ?s"
    proof -
      show i: "idle_thread s3 = idle_thread ?s" using s3(3) by (simp add: woke_def s2_def s1_def)
      show "cur_status s3 = THR_TSTATE_RUN" using core3 ni cnt(1) i by (simp add: core_def)
    qed
    then have "\<exists>s. lock_leave s3 = Some s \<and> clients_ok m \<lparr>held = (held c)(current s1 := 0), waits = waits c, kern = s\<rparr>"
      using core3 cnt s1 by (intro leave) (simp_all add: quiet_def)
    then show ?thesis using un s3(1) True by (simp add: s1(1))
  next
    case False
    then have h2: "1 < held c ?t" using h by simp
    have cn: "counter (mutexes ?s m) - 1 = of_nat (held c ?t - 1)" using tk(3) h by simp
    have nz: "counter (mutexes ?s m) - 1 \<noteq> 0"
      unfolding cn using h2 tk(2) by (auto simp: unat_of_nat dest: arg_cong [of _ _ unat])
    define s2 where "s2 = upd_mutex s1 m (\<lambda>mtx. mtx\<lparr>counter := counter mtx - 1\<rparr>)"
    have un: "mutex_unlock ?s m = lock_leave s2"
      using en pos tk(1) nz by (simp add: mutex_unlock_def s1 s2_def)
    have "core m ((held c)(?t := held c ?t - 1)) (waits c) s2"
      unfolding s2_def
    proof (rule core_upd_mutex [OF core1])
      show "taken m ((held c)(?t := held c ?t - 1)) (upd_mutex s1 m (\<lambda>mtx. mtx\<lparr>counter := counter mtx - 1\<rparr>))"
        using tk h2 cn by (simp add: taken_def s1(2))
      show "\<forall>t. waits c t \<noteq> None \<longrightarrow> ((held c)(?t := held c ?t - 1)) t = 0" using core w by (auto simp: core_def)
    qed simp
    then have "\<exists>s. lock_leave s2 = Some s \<and> clients_ok m \<lparr>held = (held c)(?t := held c ?t - 1), waits = waits c, kern = s\<rparr>"
      using s1 by (intro leave) (simp_all add: s2_def)
    then show ?thesis using un by simp
  qed
qed

interpretation mutex_clients: kept_by_steps "client_step m" "clients_ok m" for m
proof
  fix c c' assume ok: "clients_ok m c" and st: "client_step m c c'"
  show "clients_ok m c'" using st
  proof cases
    case (lock r)
    then show ?thesis using mutex_lock_ok [OF ok lock(2-5)] by simp
  next
    case (resume u r)
    then show ?thesis using mutex_lock_resume_ok [OF ok resume(2)] by simp
  next
    case (unlock s)
    then show ?thesis using mutex_unlock_ok [OF ok unlock(2,4,3)] by simp
  next
    case (yield s)
    then show ?thesis using thr_yield_ok [OF ok yield(2)] by simp
  qed
qed

text \<open>A fresh mutex that no thread has touched.\<close>

definition fresh :: "mutex_kernel \<Rightarrow> clients" where
  "fresh s = \<lparr>held = (\<lambda>_. 0), waits = (\<lambda>_. None), kern = s\<rparr>"

lemma mutex_init_ok:
  assumes "mutex_init s m flags = Some s0" and "sched_inv s" and "calm s"
    and "current s \<noteq> idle_thread s \<longrightarrow> cur_status s = THR_TSTATE_RUN"
  shows "clients_ok m (fresh s0)"
proof -
  have s0: "current s0 = current s" "idle_thread s0 = idle_thread s" "threads s0 = threads s" "ready_queues s0 = ready_queues s"
    "sync_objs s0 (mutex_waiter (mutexes s0 m)) = \<lparr>wait_kind = THR_TSTATE_WAIT, so_policy = SYNC_WAKE_FLAG_ALL, so_que = []\<rparr>"
    "counter (mutexes s0 m) = 0" "owner (mutexes s0 m) = None"
    using assms(1) by (auto simp: mutex_init_def sync_init_object_def valid_wait_status_def Let_def upd_obj_def)
  have q: "mq m s0 = []" by (simp add: mq_def s0)
  have "sched_inv s0" using assms(2) by (rule sched_inv_cong) (simp_all add: s0)
  then have "core m (\<lambda>_. 0) (\<lambda>_. None) s0"
    using assms(4) s0 by (simp add: core_def q taken_def waiting_def)
  then show ?thesis using assms(3) by (simp add: clients_ok_def fresh_def calm_def s0)
qed

section \<open>Properties\<close>

text \<open>
  Claim C27. Mutual exclusion: from a freshly initialised mutex, in every interleaving of
  acquisitions, releases and context switches of any number of threads, at most one thread has
  the mutex; the owner field names it and the counter says how often it has acquired it.
\<close>

theorem mutex_mutual_exclusion:
  assumes "mutex_init s m flags = Some s0" and "sched_inv s" and "calm s"
    and "current s \<noteq> idle_thread s \<longrightarrow> cur_status s = THR_TSTATE_RUN"
    and "(client_step m)\<^sup>*\<^sup>* (fresh s0) c"
  shows "(\<forall>t u. 0 < held c t \<longrightarrow> 0 < held c u \<longrightarrow> t = u) \<and>
    (\<forall>t. 0 < held c t \<longleftrightarrow> owner (mutexes (kern c) m) = Some t) \<and>
    counter (mutexes (kern c) m) = (case owner (mutexes (kern c) m) of None \<Rightarrow> 0 | Some t \<Rightarrow> of_nat (held c t))"
proof -
  have "clients_ok m c" using assms(5) mutex_init_ok [OF assms(1-4)] by (rule mutex_clients.run_keeps)
  then have tk: "taken m (held c) (kern c)" by (simp add: clients_ok_def core_def)
  have own: "0 < held c t \<longleftrightarrow> owner (mutexes (kern c) m) = Some t" for t
    using tk taken_owner(1) [OF tk] by (auto simp: taken_def)
  moreover have "counter (mutexes (kern c) m) = (case owner (mutexes (kern c) m) of None \<Rightarrow> 0 | Some t \<Rightarrow> of_nat (held c t))"
    using tk by (auto simp: taken_def split: option.splits)
  ultimately show ?thesis by (metis option.inject)
qed

text \<open>
  Claim C28. No lost wake-up and no stuck operation: in every reachable state a thread inside
  \<open>mutex_lock\<close> sleeps only while another thread has the mutex, otherwise it is ready or running.
  Every operation that a step of the clients may make gets through, either returning or giving the processor away, with no
  assertion failing: the resumption of a \<open>mutex_lock\<close>, a \<open>mutex_lock\<close> of a thread that does not have the mutex or of any thread
  when the mutex is recursive and its counter does not run over, a \<open>mutex_unlock\<close> of the owner, and \<open>thr_yield\<close>.
\<close>

theorem mutex_no_lost_wakeup:
  assumes "mutex_init s m flags = Some s0" and "sched_inv s" and "calm s"
    and "current s \<noteq> idle_thread s \<longrightarrow> cur_status s = THR_TSTATE_RUN"
    and "(client_step m)\<^sup>*\<^sup>* (fresh s0) c"
  shows "(\<forall>t. waits c t \<noteq> None \<longrightarrow> t = current (kern c) \<or> status (threads (kern c) t) = THR_TSTATE_READY \<or>
      (\<exists>u. u \<noteq> t \<and> 0 < held c u)) \<and>
    (\<forall>u. waits c (current (kern c)) = Some u \<longrightarrow> mutex_lock_resume u (kern c) m (current (kern c)) \<noteq> None) \<and>
    (waits c (current (kern c)) = None \<and> current (kern c) \<noteq> idle_thread (kern c) \<longrightarrow>
      ((held c (current (kern c)) = 0 \<or> mtx_flags (mutexes (kern c) m) AND MTX_FLAG_RECURSIVE \<noteq> 0) \<and> held c (current (kern c)) + 1 < 2 ^ 64 \<longrightarrow>
        mutex_lock (kern c) m (current (kern c)) \<noteq> None) \<and>
      (0 < held c (current (kern c)) \<longrightarrow> mutex_unlock (kern c) m \<noteq> None)) \<and>
    (waits c (current (kern c)) = None \<longrightarrow> thr_yield (kern c) \<noteq> None)"
proof -
  have ok: "clients_ok m c" using assms(5) mutex_init_ok [OF assms(1-4)] by (rule mutex_clients.run_keeps)
  then have core: "core m (held c) (waits c) (kern c)" by (simp add: clients_ok_def)
  have "t = current (kern c) \<or> status (threads (kern c) t) = THR_TSTATE_READY \<or> (\<exists>u. u \<noteq> t \<and> 0 < held c u)"
    if w: "waits c t \<noteq> None" for t
  proof (cases "t \<in> set (mq m (kern c))")
    case True
    moreover have "taken m (held c) (kern c)" using core by (simp add: core_def)
    ultimately obtain u where u: "0 < held c u" by (cases "owner (mutexes (kern c) m)") (auto simp: taken_def)
    moreover have "held c t = 0" using core w unfolding core_def by blast
    ultimately have "u \<noteq> t" by auto
    then show ?thesis using u by blast
  next
    case False
    then show ?thesis using core w unfolding core_def by blast
  qed
  moreover have "mutex_lock_resume u (kern c) m (current (kern c)) \<noteq> None" if "waits c (current (kern c)) = Some u" for u
    using mutex_lock_resume_ok [OF ok that] by auto
  moreover have "mutex_lock (kern c) m (current (kern c)) \<noteq> None"
    if "waits c (current (kern c)) = None" "current (kern c) \<noteq> idle_thread (kern c)"
      "held c (current (kern c)) = 0 \<or> mtx_flags (mutexes (kern c) m) AND MTX_FLAG_RECURSIVE \<noteq> 0" "held c (current (kern c)) + 1 < 2 ^ 64"
    using mutex_lock_ok [OF ok that] by auto
  moreover have "thr_yield (kern c) \<noteq> None" if "waits c (current (kern c)) = None" using thr_yield_ok [OF ok that] by auto
  moreover have "mutex_unlock (kern c) m \<noteq> None"
    if "waits c (current (kern c)) = None" "current (kern c) \<noteq> idle_thread (kern c)" "0 < held c (current (kern c))"
    using mutex_unlock_ok [OF ok that(1,3,2)] by auto
  ultimately show ?thesis by blast
qed

text \<open>A state for the witnesses: thread 1 runs and initialises an exclusive mutex.\<close>

definition raw_mutex :: mutex_kernel where
  "raw_mutex = sync_kernel.extend small_sync
     (mutex_kernel.fields (\<lambda>_. \<lparr>mutex_waiter = 0, mtx_flags = 0, counter = 0, owner = None\<rparr>))"

definition some_mutex :: mutex_kernel where
  "some_mutex = the (mutex_init raw_mutex 0 MTX_FLAG_EXCLUSIVE)"

lemma raw_mutex_simps:
  "current raw_mutex = 1" "idle_thread raw_mutex = 0" "threads raw_mutex = threads small_sync" "ready_queues raw_mutex = ready_queues small_sync"
  by (simp_all add: raw_mutex_def sync_kernel.defs mutex_kernel.defs small_sync_simps)

lemma some_mutex_init: "mutex_init raw_mutex 0 MTX_FLAG_EXCLUSIVE = Some some_mutex"
  by (simp add: some_mutex_def mutex_init_def sync_init_object_def valid_wait_status_def)

lemma raw_mutex_ok: "sched_inv raw_mutex" "calm raw_mutex" "cur_status raw_mutex = THR_TSTATE_RUN"
proof -
  show "sched_inv raw_mutex"
    using small_sync_inv by (rule sched_inv_cong) (simp_all add: raw_mutex_simps small_sync_simps)
  have "quiet (thr_ti (threads raw_mutex t))" for t by (simp add: raw_mutex_simps small_sync_simps small_kernel_cur)
  then show "calm raw_mutex" by (simp add: calm_def)
  show "cur_status raw_mutex = THR_TSTATE_RUN" by (simp add: raw_mutex_simps small_sync_simps)
qed

lemma some_mutex_ok: "clients_ok 0 (fresh some_mutex)" "current some_mutex = 1" "idle_thread some_mutex = 0"
proof -
  show "clients_ok 0 (fresh some_mutex)" using mutex_init_ok [OF some_mutex_init] raw_mutex_ok by simp
  show "current some_mutex = 1" "idle_thread some_mutex = 0"
    by (simp_all add: some_mutex_def mutex_init_def sync_init_object_def valid_wait_status_def upd_obj_def raw_mutex_simps)
qed

lemma some_mutex_step:
  "\<exists>r. mutex_lock some_mutex 0 1 = Some r \<and> (client_step 0)\<^sup>*\<^sup>* (fresh some_mutex) (after_lock (fresh some_mutex) r)"
proof -
  have f: "held (fresh some_mutex) t = 0" "waits (fresh some_mutex) t = None" "kern (fresh some_mutex) = some_mutex" for t
    by (simp_all add: fresh_def)
  from mutex_lock_ok [OF some_mutex_ok(1)] obtain r where r: "mutex_lock some_mutex 0 1 = Some r"
    by (auto simp: f some_mutex_ok)
  then have "client_step 0 (fresh some_mutex) (after_lock (fresh some_mutex) r)"
    by (intro client_step.lock) (simp_all add: f some_mutex_ok)
  then show ?thesis using r by blast
qed

theorem mutex_mutual_exclusion_witness:
  "\<exists>c. (client_step 0)\<^sup>*\<^sup>* (fresh some_mutex) c \<and> mutex_lock some_mutex 0 1 \<noteq> None \<and> (\<forall>t u. 0 < held c t \<longrightarrow> 0 < held c u \<longrightarrow> t = u) \<and>
    (\<forall>t. 0 < held c t \<longleftrightarrow> owner (mutexes (kern c) 0) = Some t) \<and>
    counter (mutexes (kern c) 0) = (case owner (mutexes (kern c) 0) of None \<Rightarrow> 0 | Some t \<Rightarrow> of_nat (held c t))"
proof -
  obtain r where r: "mutex_lock some_mutex 0 1 = Some r" "(client_step 0)\<^sup>*\<^sup>* (fresh some_mutex) (after_lock (fresh some_mutex) r)"
    using some_mutex_step by blast
  then show ?thesis
    using mutex_mutual_exclusion [OF some_mutex_init raw_mutex_ok(1,2) _ r(2)] raw_mutex_ok(3) by blast
qed

text \<open>Thread 1 takes the mutex and gives up the processor; thread 2 asks for it and sleeps.\<close>

declare mutex_lock_loop.simps [code]

lemma some_mutex_waiter:
  "\<exists>c. (client_step 0)\<^sup>*\<^sup>* (fresh some_mutex) c \<and> waits c 2 = Some True \<and> held c 1 = 1 \<and> held c 2 = 0 \<and> current (kern c) = 1 \<and> idle_thread (kern c) = 0"
proof -
  let ?c = "fresh some_mutex"
  have "map_option (\<lambda>(r, s). (r, current s, idle_thread s)) (mutex_lock some_mutex 0 1) = Some (Acquired, 1, 0)" by code_simp
  then obtain s1 where s1: "mutex_lock some_mutex 0 1 = Some (Acquired, s1)" "current s1 = 1" "idle_thread s1 = 0" by auto
  have "map_option (\<lambda>s. (current s, idle_thread s)) (do { (r, s) \<leftarrow> mutex_lock some_mutex 0 1; thr_yield s }) = Some (2, 0)" by code_simp
  then obtain s2 where s2: "thr_yield s1 = Some s2" "current s2 = 2" "idle_thread s2 = 0" by (auto simp: s1(1) simp del: One_nat_def)
  have "map_option (\<lambda>(r, s). (r, current s, idle_thread s)) (do { (r, s) \<leftarrow> mutex_lock some_mutex 0 1; s \<leftarrow> thr_yield s; mutex_lock s 0 (current s) }) = Some (Waits True, 1, 0)" by code_simp
  then obtain s3 where s3: "mutex_lock s2 0 2 = Some (Waits True, s3)" "current s3 = 1" "idle_thread s3 = 0" by (auto simp: s1(1) s2(1,2) simp del: One_nat_def)
  have f: "held ?c t = 0" "waits ?c t = None" "kern ?c = some_mutex" for t by (simp_all add: fresh_def)
  define c1 where "c1 = after_lock ?c (Acquired, s1)"
  have 1: "client_step 0 ?c c1" unfolding c1_def by (rule client_step.lock) (simp_all add: f some_mutex_ok s1 del: One_nat_def)
  have c1: "kern c1 = s1" "waits c1 = (\<lambda>_. None)" "held c1 = (\<lambda>_. 0)(1 := 1)" by (simp_all add: c1_def f some_mutex_ok fun_eq_iff)
  have 2: "client_step 0 c1 (c1\<lparr>kern := s2\<rparr>)" by (rule client_step.yield) (simp_all add: c1 s2)
  have 3: "client_step 0 (c1\<lparr>kern := s2\<rparr>) (after_lock (c1\<lparr>kern := s2\<rparr>) (Waits True, s3))"
    by (rule client_step.lock) (simp_all add: c1 s2 s3)
  show ?thesis using 1 2 3 by (intro exI [of _ "after_lock (c1\<lparr>kern := s2\<rparr>) (Waits True, s3)"]) (simp add: c1 s2 s3)
qed

theorem mutex_no_lost_wakeup_witness:
  "\<exists>c. (client_step 0)\<^sup>*\<^sup>* (fresh some_mutex) c \<and> waits c 2 = Some True \<and> current (kern c) = 1 \<and>
     (status (threads (kern c) 2) = THR_TSTATE_READY \<or> (\<exists>u. u \<noteq> 2 \<and> 0 < held c u)) \<and> mutex_unlock (kern c) 0 \<noteq> None"
proof -
  obtain c where c: "(client_step 0)\<^sup>*\<^sup>* (fresh some_mutex) c" "waits c 2 = Some True" "held c 1 = 1" "held c 2 = 0" "current (kern c) = 1" "idle_thread (kern c) = 0"
    using some_mutex_waiter by blast
  have n: "waits c 1 = None" "current (kern c) \<noteq> idle_thread (kern c)"
  proof -
    have ok: "clients_ok 0 c" using c(1) some_mutex_ok(1) by (rule mutex_clients.run_keeps)
    then show "waits c 1 = None" using c(3) unfolding clients_ok_def core_def by (metis one_neq_zero)
    show "current (kern c) \<noteq> idle_thread (kern c)" using c(5,6) by simp
  qed
  show ?thesis using mutex_no_lost_wakeup [OF some_mutex_init raw_mutex_ok(1,2) _ c(1)] raw_mutex_ok(3) c n by fastforce
qed

end
