(* ===== verification/Kstring.thy ===== *)
theory Kstring
  imports Kern_Prelude
begin

text \<open>
  The memory and string functions of the kernel library, one file each under
  \<^verbatim>\<open>src/klib\<close>.  Memory gives a byte for every address; addresses are natural numbers, so no
  object wraps around the end of the address space.  A \<open>char\<close> is a byte read as signed, as on
  x86-64.  The functions that look for a terminating zero do not return when there is none, which is
  the value \<open>None\<close> of their loops.
\<close>

type_synonym memory = "nat \<Rightarrow> u8"

section \<open>Memory\<close>

fun memset_loop :: "memory \<Rightarrow> nat \<Rightarrow> u8 \<Rightarrow> nat \<Rightarrow> memory" where
  "memset_loop mem d c 0 = mem"
| "memset_loop mem d c (Suc len) = memset_loop (mem(d := c)) (d + 1) c len"

definition memset :: "memory \<Rightarrow> nat \<Rightarrow> int \<Rightarrow> nat \<Rightarrow> nat \<times> memory" where
  "memset mem s c n = (s, memset_loop mem s (of_int c) n)"

fun memcpy_loop :: "memory \<Rightarrow> nat \<Rightarrow> nat \<Rightarrow> nat \<Rightarrow> memory" where
  "memcpy_loop mem d s 0 = mem"
| "memcpy_loop mem d s (Suc len) = memcpy_loop (mem(d := mem s)) (d + 1) (s + 1) len"

definition memcpy :: "memory \<Rightarrow> nat \<Rightarrow> nat \<Rightarrow> nat \<Rightarrow> nat \<times> memory" where
  "memcpy mem dest src count = (dest, memcpy_loop mem dest src count)"

text \<open>The loop of \<open>memmove\<close> that runs downwards; \<open>d\<close> and \<open>s\<close> are decremented before use.\<close>

fun memmove_down :: "memory \<Rightarrow> nat \<Rightarrow> nat \<Rightarrow> nat \<Rightarrow> memory" where
  "memmove_down mem d s 0 = mem"
| "memmove_down mem d s (Suc len) = memmove_down (mem(d - 1 := mem (s - 1))) (d - 1) (s - 1) len"

definition memmove :: "memory \<Rightarrow> nat \<Rightarrow> nat \<Rightarrow> nat \<Rightarrow> nat \<times> memory" where
  "memmove mem dest src count =
     (if dest = src then (dest, mem)
      else if src < dest \<and> dest < src + count then (dest, memmove_down mem (dest + count) (src + count) count)
      else (dest, memcpy_loop mem dest src count))"

fun memchr :: "memory \<Rightarrow> nat \<Rightarrow> int \<Rightarrow> nat \<Rightarrow> nat option" where
  "memchr mem s c 0 = None"
| "memchr mem s c (Suc count) = (if mem s = of_int c then Some s else memchr mem (s + 1) c count)"

text \<open>The difference of two unsigned bytes is kept in a \<open>signed char\<close>.\<close>

fun memcmp_loop :: "memory \<Rightarrow> nat \<Rightarrow> nat \<Rightarrow> nat \<Rightarrow> u8 \<Rightarrow> u8" where
  "memcmp_loop mem s1 s2 0 rc = rc"
| "memcmp_loop mem s1 s2 (Suc count) rc =
     (let rc = mem s1 - mem s2 in if rc \<noteq> 0 then rc else memcmp_loop mem (s1 + 1) (s2 + 1) count rc)"

definition memcmp :: "memory \<Rightarrow> nat \<Rightarrow> nat \<Rightarrow> nat \<Rightarrow> int" where
  "memcmp mem m1 m2 count = sint (memcmp_loop mem m1 m2 count 0)"

section \<open>Strings\<close>

partial_function (option) strlen_loop :: "memory \<Rightarrow> nat \<Rightarrow> nat option" where
  "strlen_loop mem sp = (if mem sp \<noteq> 0 then strlen_loop mem (sp + 1) else Some sp)"

definition strlen :: "memory \<Rightarrow> nat \<Rightarrow> nat option" where
  "strlen mem s = do { sp \<leftarrow> strlen_loop mem s; Some (sp - s) }"

fun strnlen_loop :: "memory \<Rightarrow> nat \<Rightarrow> nat \<Rightarrow> nat" where
  "strnlen_loop mem sp 0 = sp"
| "strnlen_loop mem sp (Suc count) = (if mem sp \<noteq> 0 then strnlen_loop mem (sp + 1) count else sp)"

definition strnlen :: "memory \<Rightarrow> nat \<Rightarrow> nat \<Rightarrow> nat" where
  "strnlen mem s count = strnlen_loop mem s count - s"

partial_function (option) strchr :: "memory \<Rightarrow> nat \<Rightarrow> int \<Rightarrow> nat option option" where
  "strchr mem s c = (if mem s \<noteq> of_int c then (if mem s = 0 then Some None else strchr mem (s + 1) c) else Some (Some s))"

text \<open>The comparison with \<open>c\<close> is one of an \<open>int\<close> with a sign-extended \<open>char\<close>.\<close>

partial_function (option) strrchr_loop :: "memory \<Rightarrow> nat \<Rightarrow> int \<Rightarrow> nat option \<Rightarrow> nat option option" where
  "strrchr_loop mem sp c res =
     (if mem sp \<noteq> 0 then strrchr_loop mem (sp + 1) c (if sint (mem sp) = c then Some sp else res) else Some res)"

definition strrchr :: "memory \<Rightarrow> nat \<Rightarrow> int \<Rightarrow> nat option option" where
  "strrchr mem s c = strrchr_loop mem s c (if c \<noteq> 0 then None else Some s)"

partial_function (option) strcmp :: "memory \<Rightarrow> nat \<Rightarrow> nat \<Rightarrow> int option" where
  "strcmp mem s1 s2 =
     (if mem s1 \<noteq> 0 \<and> mem s1 = mem s2 then strcmp mem (s1 + 1) (s2 + 1) else Some (sint (mem s1) - sint (mem s2)))"

text \<open>\<open>n\<close> is a \<open>size_t\<close> and wraps around below 0; \<open>rc\<close> is a \<open>signed char\<close>.\<close>

partial_function (option) strncmp_loop :: "memory \<Rightarrow> nat \<Rightarrow> nat \<Rightarrow> u64 \<Rightarrow> u8 \<Rightarrow> u8 option" where
  "strncmp_loop mem s1 s2 n rc =
     (if mem s1 \<noteq> 0 then
        (let rc = mem s1 - mem s2 in
         if rc \<noteq> 0 \<or> n = 0 then Some rc else strncmp_loop mem (s1 + 1) (s2 + 1) (n - 1) rc)
      else Some rc)"

definition strncmp :: "memory \<Rightarrow> nat \<Rightarrow> nat \<Rightarrow> u64 \<Rightarrow> int option" where
  "strncmp mem s1 s2 n = do {
     rc \<leftarrow> strncmp_loop mem s1 s2 n (if mem s2 = 0 then 0 else - 1);
     Some (sint rc)
   }"

partial_function (option) strcpy_loop :: "memory \<Rightarrow> nat \<Rightarrow> nat \<Rightarrow> memory option" where
  "strcpy_loop mem dest src =
     (let mem = mem(dest := mem src) in
      if mem src = 0 then Some mem else strcpy_loop mem (dest + 1) (src + 1))"

definition strcpy :: "memory \<Rightarrow> nat \<Rightarrow> nat \<Rightarrow> (nat \<times> memory) option" where
  "strcpy mem dest src = do { mem \<leftarrow> strcpy_loop mem dest src; Some (dest, mem) }"

partial_function (option) strncpy_loop :: "memory \<Rightarrow> nat \<Rightarrow> nat \<Rightarrow> u64 \<Rightarrow> memory option" where
  "strncpy_loop mem dest src count =
     (let mem = mem(dest := mem src) in
      if count = 0 \<or> mem src = 0 then Some mem else strncpy_loop mem (dest + 1) (src + 1) (count - 1))"

definition strncpy :: "memory \<Rightarrow> nat \<Rightarrow> nat \<Rightarrow> u64 \<Rightarrow> (nat \<times> memory) option" where
  "strncpy mem dest src count =
     (if count = 0 then Some (dest, mem) else do { mem \<leftarrow> strncpy_loop mem dest src count; Some (dest, mem) })"

partial_function (option) strncat_loop :: "memory \<Rightarrow> nat \<Rightarrow> nat \<Rightarrow> u64 \<Rightarrow> (nat \<times> memory) option" where
  "strncat_loop mem dest src n =
     (let mem = mem(dest := mem src) in
      if mem src = 0 \<or> n = 0 then Some (dest, mem(dest := 0)) else strncat_loop mem (dest + 1) (src + 1) (n - 1))"

text \<open>The first loop leaves \<open>dest\<close> behind the terminating zero and steps back once.\<close>

definition strncat :: "memory \<Rightarrow> nat \<Rightarrow> nat \<Rightarrow> u64 \<Rightarrow> (nat \<times> memory) option" where
  "strncat mem dest src n = do { dest \<leftarrow> strlen_loop mem dest; strncat_loop mem dest src n }"

text \<open>\<open>strdup\<close> with the address \<open>kmalloc\<close> returns for a length.\<close>

definition strdup :: "(nat \<Rightarrow> nat option) \<Rightarrow> memory \<Rightarrow> nat \<Rightarrow> (nat option \<times> memory) option" where
  "strdup kmalloc mem src = do {
     len \<leftarrow> strlen mem src;
     (case kmalloc (len + 1) of
        None \<Rightarrow> Some (None, mem)
      | Some r \<Rightarrow> do { (_, mem) \<leftarrow> strcpy mem r src; Some (Some r, mem) })
   }"

text \<open>The inner loop of \<open>strstr\<close>: whether the needle ends before a difference or the end of the haystack.\<close>

partial_function (option) strstr_match :: "memory \<Rightarrow> nat \<Rightarrow> nat \<Rightarrow> bool option" where
  "strstr_match mem cq cr =
     (if mem cq \<noteq> 0 \<and> mem cr \<noteq> 0 then (if mem cq \<noteq> mem cr then Some (mem cr = 0) else strstr_match mem (cq + 1) (cr + 1))
      else Some (mem cr = 0))"

partial_function (option) strstr :: "memory \<Rightarrow> nat \<Rightarrow> nat \<Rightarrow> nat option option" where
  "strstr mem haystack needle =
     (if mem haystack \<noteq> 0 then do {
        found \<leftarrow> (if mem haystack = mem needle then strstr_match mem haystack needle else Some False);
        if found then Some (Some haystack) else strstr mem (haystack + 1) needle
      } else Some None)"

section \<open>Memory functions against their specification\<close>

text \<open>The memory in which \<open>n\<close> bytes from \<open>src\<close> have been copied to \<open>dest\<close>.\<close>

definition copied :: "memory \<Rightarrow> nat \<Rightarrow> nat \<Rightarrow> nat \<Rightarrow> memory" where
  "copied mem dest src n = (\<lambda>a. if dest \<le> a \<and> a < dest + n then mem (src + (a - dest)) else mem a)"

lemma memcpy_loop_eq:
  assumes "d \<le> s \<or> s + n \<le> d"
  shows "memcpy_loop mem d s n = copied mem d s n"
  using assms
proof (induction n arbitrary: mem d s)
  case (Suc n)
  then have "memcpy_loop mem d s (Suc n) = copied (mem(d := mem s)) (d + 1) (s + 1) n"
    by (simp only: memcpy_loop.simps) (intro Suc.IH, auto)
  also have "\<dots> = copied mem d s (Suc n)"
  proof
    fix a
    have "(mem(d := mem s)) (s + 1 + (a - (d + 1))) = mem (s + (a - d))" if "d < a" "a < d + Suc n"
    proof -
      have "s + 1 + (a - (d + 1)) = s + (a - d)" "s + (a - d) \<noteq> d" using that Suc.prems by auto
      then show ?thesis by (metis fun_upd_other)
    qed
    then show "copied (mem(d := mem s)) (d + 1) (s + 1) n a = copied mem d s (Suc n) a"
      by (cases "a = d") (auto simp: copied_def)
  qed
  finally show ?case .
qed (auto simp: copied_def fun_eq_iff)

lemma memmove_down_eq:
  assumes "s < d"
  shows "memmove_down mem (d + n) (s + n) n = copied mem d s n"
proof (induction n arbitrary: mem)
  case (Suc n)
  have "memmove_down mem (d + Suc n) (s + Suc n) (Suc n) = copied (mem(d + n := mem (s + n))) d s n"
    by (simp only: memmove_down.simps add_Suc_right diff_Suc_1 Suc.IH)
  also have "\<dots> = copied mem d s (Suc n)"
  proof
    fix a
    show "copied (mem(d + n := mem (s + n))) d s n a = copied mem d s (Suc n) a"
      using assms by (cases "a = d + n") (auto simp: copied_def)
  qed
  finally show ?case .
qed (auto simp: copied_def fun_eq_iff)

section \<open>Strings in memory\<close>

text \<open>The characters \<open>xs\<close>, none of them zero, followed by a zero, from address \<open>a\<close>.\<close>

fun str_at :: "memory \<Rightarrow> nat \<Rightarrow> u8 list \<Rightarrow> bool" where
  "str_at mem a [] \<longleftrightarrow> mem a = 0"
| "str_at mem a (x # xs) \<longleftrightarrow> mem a = x \<and> x \<noteq> 0 \<and> str_at mem (a + 1) xs"

lemma str_at_cong:
  assumes "str_at mem a xs" and "\<And>i. i \<le> length xs \<Longrightarrow> mem' (a + i) = mem (a + i)"
  shows "str_at mem' a xs"
  using assms
proof (induction xs arbitrary: a)
  case Nil
  then show ?case using Nil.prems(2) [of 0] by simp
next
  case (Cons x xs)
  have "mem' (a + 1 + i) = mem (a + 1 + i)" if "i \<le> length xs" for i
    using Cons.prems(2) [of "Suc i"] that by simp
  then have "str_at mem' (a + 1) xs" using Cons.IH [of "a + 1"] Cons.prems(1) by simp
  then show ?case using Cons.prems(1) Cons.prems(2) [of 0] by simp
qed

lemma strlen_loop_eq: "str_at mem a xs \<Longrightarrow> strlen_loop mem a = Some (a + length xs)"
proof (induction xs arbitrary: a)
  case Nil
  then show ?case by (subst strlen_loop.simps) simp
next
  case (Cons x xs)
  then show ?case by (subst strlen_loop.simps) simp
qed

lemma strlen_eq: "str_at mem a xs \<Longrightarrow> strlen mem a = Some (length xs)"
  by (simp add: strlen_def strlen_loop_eq)

lemma strnlen_loop_eq: "str_at mem a xs \<Longrightarrow> strnlen_loop mem a n = a + min n (length xs)"
proof (induction n arbitrary: a xs)
  case (Suc n)
  then show ?case by (cases xs) auto
qed simp

text \<open>What \<open>strcpy\<close> does when the two strings do not overlap.\<close>

lemma strcpy_loop_eq:
  assumes "str_at mem s xs" and "s + length xs < d \<or> d + length xs < s"
  shows "\<exists>mem'. strcpy_loop mem d s = Some mem' \<and> str_at mem' d xs \<and> (\<forall>a. a < d \<or> d + length xs < a \<longrightarrow> mem' a = mem a)"
  using assms
proof (induction xs arbitrary: mem d s)
  case Nil
  then show ?case by (subst strcpy_loop.simps) (auto simp: Let_def)
next
  case (Cons x xs)
  define mem1 where "mem1 = mem(d := mem s)"
  have "str_at mem (s + 1) xs" using Cons.prems(1) by simp
  then have "str_at mem1 (s + 1) xs" by (rule str_at_cong) (use Cons.prems(2) in \<open>auto simp: mem1_def\<close>)
  from Cons.IH [OF this, of "d + 1"] Cons.prems(2) obtain mem' where
    m: "strcpy_loop mem1 (d + 1) (s + 1) = Some mem'" "str_at mem' (d + 1) xs"
      "\<forall>a. a < d + 1 \<or> d + 1 + length xs < a \<longrightarrow> mem' a = mem1 a" by auto
  have "mem1 s = x" "x \<noteq> 0" using Cons.prems by (auto simp: mem1_def)
  then have "strcpy_loop mem d s = Some mem'"
    using m(1) by (subst strcpy_loop.simps) (simp add: Let_def mem1_def [symmetric])
  moreover have "mem' d = x" using m(3) Cons.prems(1) by (simp add: mem1_def)
  moreover have "mem' a = mem a" if "a < d \<or> d + length (x # xs) < a" for a using m(3) that by (auto simp: mem1_def)
  ultimately show ?case using m(2) \<open>x \<noteq> 0\<close> by auto
qed

text \<open>The difference of the first characters that differ, the end counting as zero.\<close>

fun str_diff :: "u8 list \<Rightarrow> u8 list \<Rightarrow> int" where
  "str_diff [] [] = 0"
| "str_diff [] (y # ys) = - sint y"
| "str_diff (x # xs) [] = sint x"
| "str_diff (x # xs) (y # ys) = (if x = y then str_diff xs ys else sint x - sint y)"

lemma strcmp_eq: "str_at mem a xs \<Longrightarrow> str_at mem b ys \<Longrightarrow> strcmp mem a b = Some (str_diff xs ys)"
proof (induction xs ys arbitrary: a b rule: str_diff.induct)
  case (4 x xs y ys)
  then show ?case by (subst strcmp.simps) auto
qed (subst strcmp.simps, simp)+

lemma str_diff_0: "0 \<notin> set xs \<Longrightarrow> 0 \<notin> set ys \<Longrightarrow> str_diff xs ys = 0 \<longleftrightarrow> xs = ys"
  by (induction xs ys rule: str_diff.induct) (auto simp: signed_eq_0_iff word_eq_iff_signed [symmetric])

lemma str_at_nonzero: "str_at mem a xs \<Longrightarrow> 0 \<notin> set xs"
  by (induction xs arbitrary: a) auto

text \<open>The first position of a character.\<close>

fun pos_of :: "u8 \<Rightarrow> u8 list \<Rightarrow> nat option" where
  "pos_of c [] = (if c = 0 then Some 0 else None)"
| "pos_of c (x # xs) = (if x = c then Some 0 else map_option Suc (pos_of c xs))"

lemma strchr_eq: "str_at mem a xs \<Longrightarrow> strchr mem a c = Some (map_option ((+) a) (pos_of (of_int c) xs))"
proof (induction xs arbitrary: a)
  case Nil
  then show ?case by (subst strchr.simps) auto
next
  case (Cons x xs)
  have "strchr mem (a + 1) c = Some (map_option ((+) (a + 1)) (pos_of (of_int c) xs))"
    using Cons.prems by (intro Cons.IH) simp
  then show ?case using Cons.prems
    by (subst strchr.simps) (cases "pos_of (of_int c) xs", auto)
qed

fun prefix_at :: "u8 list \<Rightarrow> u8 list \<Rightarrow> bool" where
  "prefix_at [] xs \<longleftrightarrow> True"
| "prefix_at (y # ys) [] \<longleftrightarrow> False"
| "prefix_at (y # ys) (x # xs) \<longleftrightarrow> x = y \<and> prefix_at ys xs"

fun find_sub :: "u8 list \<Rightarrow> u8 list \<Rightarrow> nat option" where
  "find_sub ys [] = None"
| "find_sub ys (x # xs) = (if prefix_at ys (x # xs) then Some 0 else map_option Suc (find_sub ys xs))"

lemma strstr_match_eq: "str_at mem a xs \<Longrightarrow> str_at mem b ys \<Longrightarrow> strstr_match mem a b = Some (prefix_at ys xs)"
proof (induction ys xs arbitrary: a b rule: prefix_at.induct)
  case (3 y ys x xs)
  then show ?case by (subst strstr_match.simps) auto
qed (subst strstr_match.simps, simp)+

lemma strstr_eq:
  assumes "str_at mem b (y # ys)" and "str_at mem a xs"
  shows "strstr mem a b = Some (map_option ((+) a) (find_sub (y # ys) xs))"
  using assms(2)
proof (induction xs arbitrary: a)
  case Nil
  then show ?case by (subst strstr.simps) simp
next
  case (Cons x xs)
  have "strstr mem (a + 1) b = Some (map_option ((+) (a + 1)) (find_sub (y # ys) xs))"
    using Cons.prems by (intro Cons.IH) simp
  then show ?case using Cons.prems assms(1) strstr_match_eq [OF Cons.prems assms(1)]
    by (subst strstr.simps) (cases "find_sub (y # ys) xs", auto)
qed

section \<open>Properties\<close>

text \<open>
  Claim C37. \<open>memmove\<close> copies exactly the \<open>count\<close> bytes as they were before the call, however the two
  regions overlap, and changes no other byte; \<open>memcpy\<close> is equivalent to it whenever the
  destination does not start inside the source.
\<close>

theorem memmove_spec:
  "memmove mem dest src count = (dest, copied mem dest src count) \<and>
   (dest \<le> src \<or> src + count \<le> dest \<longrightarrow> memcpy mem dest src count = memmove mem dest src count)"
proof -
  have eq: "memmove mem dest src count = (dest, copied mem dest src count)"
  proof (cases "dest = src")
    case True
    then have "copied mem dest src count = mem" by (auto simp: copied_def fun_eq_iff)
    then show ?thesis using True by (simp add: memmove_def)
  next
    case False
    then show ?thesis
      using memmove_down_eq [of src dest mem count] memcpy_loop_eq [of dest src count mem] by (auto simp: memmove_def)
  qed
  then show ?thesis using memcpy_loop_eq [of dest src count mem] by (simp add: memcpy_def)
qed

theorem memmove_spec_witness:
  "memcpy (\<lambda>a. of_nat a) 2 7 3 = memmove (\<lambda>a. of_nat a) 2 7 3 \<and> snd (memmove (\<lambda>a. of_nat a) 2 1 3) 4 = 3"
proof -
  have "memcpy (\<lambda>a. of_nat a) 2 7 3 = memmove (\<lambda>a. of_nat a) 2 7 3"
    using memmove_spec [of "\<lambda>a. of_nat a" 2 7 3] by simp
  moreover have "memmove (\<lambda>a. of_nat a) 2 1 3 = (2, copied (\<lambda>a. of_nat a) 2 1 3)"
    using memmove_spec [of "\<lambda>a. of_nat a" 2 1 3] by simp
  ultimately show ?thesis by (simp add: copied_def)
qed

text \<open>
  On terminated strings the search and comparison functions return, and return what they
  are named for: the length, the length up to a bound, the difference of the first characters that
  differ (zero exactly for equal strings), the first occurrence of a character (the terminator
  included), and the first occurrence of a string that is not empty.
\<close>

theorem string_functions_spec:
  assumes "str_at mem a xs" and "str_at mem b ys"
  shows "strlen mem a = Some (length xs) \<and> strnlen mem a n = min n (length xs) \<and>
    strcmp mem a b = Some (str_diff xs ys) \<and> (str_diff xs ys = 0 \<longleftrightarrow> xs = ys) \<and>
    strchr mem a c = Some (map_option ((+) a) (pos_of (of_int c) xs)) \<and>
    (ys \<noteq> [] \<longrightarrow> strstr mem a b = Some (map_option ((+) a) (find_sub ys xs)))"
  using assms strlen_eq [OF assms(1)] strnlen_loop_eq [OF assms(1), of n] strcmp_eq [OF assms] strchr_eq [OF assms(1), of c]
    str_diff_0 [OF str_at_nonzero [OF assms(1)] str_at_nonzero [OF assms(2)]] strstr_eq [OF _ assms(1), of b]
  by (cases ys) (simp_all add: strnlen_def)

text \<open>The string ``ab'' at address 10 and the string ``b'' at address 11.\<close>

definition some_memory :: memory where
  "some_memory = (\<lambda>_. 0)(10 := 97, 11 := 98)"

theorem string_functions_spec_witness:
  "strlen some_memory 10 = Some 2 \<and> strnlen some_memory 10 1 = 1 \<and> strcmp some_memory 10 11 = Some (- 1) \<and>
    strchr some_memory 10 98 = Some (Some 11) \<and> strstr some_memory 10 11 = Some (Some 11)"
proof -
  have "str_at some_memory 10 [97, 98]" "str_at some_memory 11 [98]" by (simp_all add: some_memory_def)
  from string_functions_spec [OF this, of 1 98] show ?thesis by simp
qed

text \<open>
  Duplicating a string: when \<open>kmalloc\<close> gives a block that does not overlap the string,
  \<open>strdup\<close> returns it, the block holds an equal string, and no other byte of memory has changed;
  without memory it returns the null pointer and changes nothing.
\<close>

theorem strdup_roundtrip:
  assumes "str_at mem src xs" and "\<forall>r. kmalloc (length xs + 1) = Some r \<longrightarrow> src + length xs < r \<or> r + length xs < src"
  shows "case kmalloc (length xs + 1) of
      None \<Rightarrow> strdup kmalloc mem src = Some (None, mem)
    | Some r \<Rightarrow> \<exists>mem'. strdup kmalloc mem src = Some (Some r, mem') \<and> str_at mem' r xs \<and> strcmp mem' r src = Some 0 \<and>
        (\<forall>a. a < r \<or> r + length xs < a \<longrightarrow> mem' a = mem a)"
proof (cases "kmalloc (length xs + 1)")
  case None
  then show ?thesis using strlen_eq [OF assms(1)] by (simp add: strdup_def)
next
  case (Some r)
  from strcpy_loop_eq [OF assms(1)] assms(2) Some obtain mem' where
    m: "strcpy_loop mem r src = Some mem'" "str_at mem' r xs" "\<forall>a. a < r \<or> r + length xs < a \<longrightarrow> mem' a = mem a" by blast
  have "str_at mem' src xs"
    using assms(1) by (rule str_at_cong) (use m(3) assms(2) Some in auto)
  from strcmp_eq [OF m(2) this] have "strcmp mem' r src = Some 0"
    using str_diff_0 [of xs xs] str_at_nonzero [OF assms(1)] by simp
  then show ?thesis using Some m strlen_eq [OF assms(1)] by (auto simp: strdup_def strcpy_def)
qed

theorem strdup_roundtrip_witness:
  "case (\<lambda>_. Some 50) (length [97, 98 :: u8] + 1) of
      None \<Rightarrow> strdup (\<lambda>_. Some 50) some_memory 10 = Some (None, some_memory)
    | Some r \<Rightarrow> \<exists>mem'. strdup (\<lambda>_. Some 50) some_memory 10 = Some (Some r, mem') \<and> str_at mem' r [97, 98] \<and> strcmp mem' r 10 = Some 0 \<and>
        (\<forall>a. a < r \<or> r + length [97, 98 :: u8] < a \<longrightarrow> mem' a = some_memory a)"
  by (rule strdup_roundtrip) (simp_all add: some_memory_def)

text \<open>
  \<open>strncpy\<close> writes one byte more than \<open>count\<close>: from a source with no zero among its first
  \<open>count\<close> characters it overwrites the byte behind the destination of \<open>count\<close> bytes with the next
  character of the source.
\<close>

theorem strncpy_overruns:
  assumes "count \<noteq> 0" and "\<forall>i < unat count. mem (src + i) \<noteq> 0" and "src + unat count < dest \<or> dest + unat count < src"
  shows "\<exists>mem'. strncpy mem dest src count = Some (dest, mem') \<and> mem' (dest + unat count) = mem (src + unat count)"
proof -
  have "\<exists>mem'. strncpy_loop mem d s n = Some mem' \<and> mem' (d + unat n) = mem (s + unat n) \<and> (\<forall>a < d. mem' a = mem a)"
    if "\<forall>i < unat n. mem (s + i) \<noteq> 0" "s + unat n < d \<or> d + unat n < s" for mem d s n
    using that
  proof (induction "unat n" arbitrary: n mem d s)
    case 0
    then have "n = 0" by (simp add: unat_eq_0)
    then show ?case by (subst strncpy_loop.simps) (auto simp: Let_def)
  next
    case (Suc k)
    define mem1 where "mem1 = mem(d := mem s)"
    have n: "n \<noteq> 0" using Suc.hyps(2) by auto
    then have k: "unat (n - 1) = k" using Suc.hyps(2) by (simp add: unat_minus_one)
    have "mem s \<noteq> 0" using Suc.prems(1) Suc.hyps(2) by (metis add.right_neutral zero_less_Suc)
    moreover have "s \<noteq> d" using Suc.prems(2) by auto
    ultimately have run: "strncpy_loop mem d s n = strncpy_loop mem1 (d + 1) (s + 1) (n - 1)"
      using n by (subst strncpy_loop.simps) (simp add: Let_def mem1_def)
    have "\<forall>i < unat (n - 1). mem1 (s + 1 + i) \<noteq> 0"
    proof (intro allI impI)
      fix i assume "i < unat (n - 1)"
      then have l: "Suc i < unat n" using Suc.hyps(2) k by simp
      then have "mem (s + Suc i) \<noteq> 0" using Suc.prems(1) by blast
      moreover have "s + Suc i \<noteq> d" using Suc.prems(2) l by auto
      ultimately show "mem1 (s + 1 + i) \<noteq> 0" by (simp add: mem1_def)
    qed
    from Suc.hyps(1) [OF k [symmetric] this, of "d + 1"] Suc.prems(2) Suc.hyps(2) k obtain mem' where
      m: "strncpy_loop mem1 (d + 1) (s + 1) (n - 1) = Some mem'" "mem' (d + 1 + k) = mem1 (s + 1 + k)" "\<forall>a < d + 1. mem' a = mem1 a"
      by auto
    have "s + Suc k \<noteq> d" using Suc.prems(2) Suc.hyps(2) by auto
    then have "mem1 (s + 1 + k) = mem (s + Suc k)" by (simp add: mem1_def)
    moreover have "\<forall>a < d. mem' a = mem a" using m(3) by (simp add: mem1_def)
    ultimately show ?case using run m(1,2) Suc.hyps(2) [symmetric] by simp
  qed
  from this [OF assms(2,3)] show ?thesis using assms(1) by (auto simp: strncpy_def)
qed

theorem strncpy_overruns_witness:
  "\<exists>mem'. strncpy some_memory 50 10 1 = Some (50, mem') \<and> mem' (50 + unat (1 :: u64)) = some_memory (10 + unat (1 :: u64))"
  by (rule strncpy_overruns) (simp_all add: some_memory_def)

text \<open>
  The comparison functions that keep a difference in a \<open>signed char\<close>: \<open>memcmp\<close> orders the byte 200
  before the byte 50, and \<open>strncmp\<close> finds a string equal to one it is a prefix of.
\<close>

lemma memcmp_wrong_sign: "memcmp ((\<lambda>_. 0)(0 := 200, 1 := 50)) 0 1 1 = - 106"
  by (simp add: memcmp_def Let_def)

lemma strncmp_prefix_equal: "strncmp ((\<lambda>_. 0)(0 := 97, 2 := 97, 3 := 98)) 0 2 5 = Some 0"
  by (simp add: strncmp_def, subst strncmp_loop.simps, simp add: Let_def, subst strncmp_loop.simps, simp)

text \<open>Looking for the terminator from behind returns the start of the string.\<close>

lemma strrchr_terminator_start:
  assumes "str_at mem s xs" and "0 \<notin> sint ` set xs"
  shows "strrchr mem s 0 = Some (Some s)"
proof -
  have "strrchr_loop mem a 0 r = Some r" if "str_at mem a xs" "0 \<notin> sint ` set xs" for a r
    using that
  proof (induction xs arbitrary: a)
    case Nil
    then show ?case by (subst strrchr_loop.simps) simp
  next
    case (Cons x xs)
    then show ?case by (subst strrchr_loop.simps) (auto simp: image_iff)
  qed
  then show ?thesis using assms by (simp add: strrchr_def)
qed

end
