(* ===== verification/Kprintf.thy ===== *)
theory Kprintf
  imports Kstring
begin

text \<open>
  Formatted output: \<^verbatim>\<open>src/klib/doprintf.c\<close>, the string stream of \<^verbatim>\<open>src/klib/vsnprintf.c\<close> and the
  kernel log of \<^verbatim>\<open>src/klib/printf.c\<close>.

  The output goes through a function \<open>putc\<close> that takes a character and the state of the stream and
  gives back the number of characters it accepted.  The format is the list of its bytes before the
  terminating zero, a pointer into it the rest that is still to be read, and reading at its end gives
  zero.  The variable arguments are a list of tagged values; fetching one with a type it does not have,
  fetching one that is not there and the overflow of an \<open>int\<close> while a number is read from the format
  are undefined and the value \<open>None\<close>.  The other \<open>int\<close> variables stay far from their limits as long as
  the widths and precisions do, and are unbounded here.  String arguments are read from the memory as it
  was at the call: they do not overlap the buffer of the result.
\<close>

section \<open>Flags and characters\<close>

abbreviation (input) ZEROPAD :: u32 where "ZEROPAD \<equiv> 1"
abbreviation (input) SIGN :: u32 where "SIGN \<equiv> 2"
abbreviation (input) PLUS :: u32 where "PLUS \<equiv> 4"
abbreviation (input) SPACE :: u32 where "SPACE \<equiv> 8"
abbreviation (input) LEFT :: u32 where "LEFT \<equiv> 16"
abbreviation (input) SPECIAL :: u32 where "SPECIAL \<equiv> 32"
abbreviation (input) LARGE :: u32 where "LARGE \<equiv> 64"

abbreviation flag_set :: "u32 \<Rightarrow> u32 \<Rightarrow> bool" where
  "flag_set flags f \<equiv> flags AND f \<noteq> 0"

definition asc :: "char \<Rightarrow> u8" where
  "asc c = of_char c"

definition chars :: "string \<Rightarrow> u8 list" where
  "chars s = map asc s"

definition isdigit :: "u8 \<Rightarrow> bool" where
  "isdigit c \<longleftrightarrow> asc CHR ''0'' \<le> c \<and> c \<le> asc CHR ''9''"

definition INT_MAX :: int where
  "INT_MAX = 2147483647"

section \<open>Reading the format\<close>

definition is_field_qualifiers :: "u8 \<Rightarrow> u32 \<Rightarrow> bool \<times> u32" where
  "is_field_qualifiers c flags =
     (if c = asc CHR ''-'' then (True, flags OR LEFT)
      else if c = asc CHR ''+'' then (True, flags OR PLUS)
      else if c = asc CHR '' '' then (True, flags OR SPACE)
      else if c = asc CHR ''#'' then (True, flags OR SPECIAL)
      else if c = asc CHR ''0'' then (True, flags OR ZEROPAD)
      else (False, flags))"

fun flags_loop :: "u8 list \<Rightarrow> u32 \<Rightarrow> u32 \<times> u8 list" where
  "flags_loop [] flags = (flags, [])"
| "flags_loop (c # fmt) flags =
     (let (q, flags') = is_field_qualifiers c flags in if q then flags_loop fmt flags' else (flags', c # fmt))"

fun simple_atoi :: "u8 list \<Rightarrow> int \<Rightarrow> (int \<times> u8 list) option" where
  "simple_atoi [] i = Some (i, [])"
| "simple_atoi (c # s) i =
     (if isdigit c then do {
        kassert (i * 10 + int (unat c) \<le> INT_MAX);
        simple_atoi s (i * 10 + int (unat c) - 48)
      } else Some (i, c # s))"

datatype va_value = VInt u32 | VLong u64 | VLongLong u64 | VPtr u64 | VStr "nat option"

fun va_int :: "va_value list \<Rightarrow> (u32 \<times> va_value list) option" where
  "va_int (VInt w # args) = Some (w, args)"
| "va_int _ = None"

fun va_long :: "va_value list \<Rightarrow> (u64 \<times> va_value list) option" where
  "va_long (VLong w # args) = Some (w, args)"
| "va_long _ = None"

fun va_longlong :: "va_value list \<Rightarrow> (u64 \<times> va_value list) option" where
  "va_longlong (VLongLong w # args) = Some (w, args)"
| "va_longlong _ = None"

fun va_ptr :: "va_value list \<Rightarrow> (u64 \<times> va_value list) option" where
  "va_ptr (VPtr w # args) = Some (w, args)"
| "va_ptr _ = None"

fun va_str :: "va_value list \<Rightarrow> (nat option \<times> va_value list) option" where
  "va_str (VStr s # args) = Some (s, args)"
| "va_str _ = None"

record directive =
  d_flags :: u32
  d_width :: int
  d_precision :: int
  d_qualifier :: "u8 option"

text \<open>The field width; the negation of the least \<open>int\<close> overflows.\<close>

definition read_width :: "u8 list \<Rightarrow> u32 \<Rightarrow> va_value list \<Rightarrow> (int \<times> u32 \<times> u8 list \<times> va_value list) option" where
  "read_width fmt flags args = (case fmt of
      [] \<Rightarrow> Some (- 1, flags, fmt, args)
    | c # rest \<Rightarrow>
        if isdigit c then do { (w, fmt) \<leftarrow> simple_atoi fmt 0; Some (w, flags, fmt, args) }
        else if c = asc CHR ''*'' then do {
          (w, args) \<leftarrow> va_int args;
          if sint w < 0 then do {
            kassert (- sint w \<le> INT_MAX);
            Some (- sint w, flags OR LEFT, rest, args)
          } else Some (sint w, flags, rest, args)
        } else Some (- 1, flags, fmt, args))"

definition read_precision :: "u8 list \<Rightarrow> va_value list \<Rightarrow> (int \<times> u8 list \<times> va_value list) option" where
  "read_precision fmt args = (case fmt of
      [] \<Rightarrow> Some (- 1, fmt, args)
    | c # rest \<Rightarrow>
        if c = asc CHR ''.'' then do {
          (p, fmt, args) \<leftarrow> (case rest of
              [] \<Rightarrow> Some (- 1, rest, args)
            | d # rest' \<Rightarrow>
                if isdigit d then do { (p, fmt) \<leftarrow> simple_atoi rest 0; Some (p, fmt, args) }
                else if d = asc CHR ''*'' then do { (w, args) \<leftarrow> va_int args; Some (sint w, rest', args) }
                else Some (- 1, rest, args));
          Some (if p < 0 then 0 else p, fmt, args)
        } else Some (- 1, fmt, args))"

definition read_qualifier :: "u8 list \<Rightarrow> u8 option \<times> u8 list" where
  "read_qualifier fmt = (case fmt of
      [] \<Rightarrow> (None, fmt)
    | c # rest \<Rightarrow> if c = asc CHR ''h'' \<or> c = asc CHR ''l'' \<or> c = asc CHR ''L'' then (Some c, rest) else (None, fmt))"

definition read_directive :: "u8 list \<Rightarrow> va_value list \<Rightarrow> (directive \<times> u8 list \<times> va_value list) option" where
  "read_directive fmt args = do {
     let (flags, fmt) = flags_loop fmt 0;
     (width, flags, fmt, args) \<leftarrow> read_width fmt flags args;
     (precision, fmt, args) \<leftarrow> read_precision fmt args;
     let (qualifier, fmt) = read_qualifier fmt;
     Some (\<lparr>d_flags = flags, d_width = width, d_precision = precision, d_qualifier = qualifier\<rparr>, fmt, args)
   }"

section \<open>Writing\<close>

type_synonym 'o putc = "u8 \<Rightarrow> 'o \<Rightarrow> int \<times> 'o"

text \<open>One call of \<open>putc\<close>, its result added to the count of characters.\<close>

definition put :: "'o putc \<Rightarrow> u8 \<Rightarrow> int \<times> 'o \<Rightarrow> int \<times> 'o" where
  "put putc c st = (let (r, out) = putc c (snd st) in (fst st + r, out))"

text \<open>The loops \<^verbatim>\<open>while (lo < n--)\<close> and \<^verbatim>\<open>while (--n > 0)\<close>, with the value of \<open>n\<close> they leave.\<close>

function post_loop :: "'o putc \<Rightarrow> u8 \<Rightarrow> int \<Rightarrow> int \<Rightarrow> int \<times> 'o \<Rightarrow> int \<times> (int \<times> 'o)" where
  "post_loop putc c lo n st = (if lo < n then post_loop putc c lo (n - 1) (put putc c st) else (n - 1, st))"
  by auto
termination by (relation "measure (\<lambda>(putc, c, lo, n, st). nat (n - lo))") auto

declare post_loop.simps [simp del]

function pre_loop :: "'o putc \<Rightarrow> u8 \<Rightarrow> int \<Rightarrow> int \<times> 'o \<Rightarrow> int \<times> (int \<times> 'o)" where
  "pre_loop putc c n st = (let n = n - 1 in if 0 < n then pre_loop putc c n (put putc c st) else (n, st))"
  by auto
termination by (relation "measure (\<lambda>(putc, c, n, st). nat n)") auto

declare pre_loop.simps [simp del]

fun puts :: "'o putc \<Rightarrow> u8 list \<Rightarrow> int \<times> 'o \<Rightarrow> int \<times> 'o" where
  "puts putc [] st = st"
| "puts putc (c # cs) st = puts putc cs (put putc c st)"

definition do_div :: "u64 \<Rightarrow> u32 \<Rightarrow> u64 \<times> u64" where
  "do_div n base = (n mod ucast base, n div ucast base)"

definition digits_of :: "u32 \<Rightarrow> u8 list" where
  "digits_of type = (if flag_set type LARGE then chars ''0123456789ABCDEFGHIJKLMNOPQRSTUVWXYZ''
     else chars ''0123456789abcdefghijklmnopqrstuvwxyz'')"

text \<open>The digits of a number, the least significant first, in the array \<^verbatim>\<open>tmp\<close> of 66 bytes.\<close>

partial_function (option) digits_loop :: "u8 list \<Rightarrow> u32 \<Rightarrow> u64 \<Rightarrow> u8 list \<Rightarrow> u8 list option" where
  "digits_loop digits base num tmp =
     (if num = 0 then Some tmp else do {
        let (d, num) = do_div num base;
        c \<leftarrow> arr_get digits (unat d);
        kassert (length tmp < 66);
        digits_loop digits base num (tmp @ [c])
      })"

declare digits_loop.simps [code]

text \<open>The sign character of a number, its magnitude and the width that is left for it.\<close>

definition take_sign :: "u32 \<Rightarrow> u64 \<Rightarrow> int \<Rightarrow> u8 \<times> u64 \<times> int" where
  "take_sign type num size' =
     (if flag_set type SIGN then
        if sint num < 0 then (asc CHR ''-'', - num, size' - 1)
        else if flag_set type PLUS then (asc CHR ''+'', num, size' - 1)
        else if flag_set type SPACE then (asc CHR '' '', num, size' - 1)
        else (0, num, size')
      else (0, num, size'))"

definition number :: "u64 \<Rightarrow> u32 \<Rightarrow> int \<Rightarrow> int \<Rightarrow> u32 \<Rightarrow> 'o putc \<Rightarrow> 'o \<Rightarrow> (int \<times> 'o) option" where
  "number num base size' precision type putc out = do {
     let digits = digits_of type;
     let type = (if flag_set type LEFT then type AND NOT ZEROPAD else type);
     if base < 2 \<or> 36 < base then Some (0, out) else do {
       let c = (if flag_set type ZEROPAD then asc CHR ''0'' else asc CHR '' '');
       let (sign, num, size') = take_sign type num size';
       let size' = (if flag_set type SPECIAL then if base = 16 then size' - 2 else if base = 8 then size' - 1 else size' else size');
       tmp \<leftarrow> (if num = 0 then Some [asc CHR ''0''] else digits_loop digits base num []);
       let i = int (length tmp);
       let precision = (if precision < i then i else precision);
       let size' = size' - precision;
       let st = (0, out);
       let (size', st) = (if \<not> flag_set type (ZEROPAD + LEFT) then post_loop putc (asc CHR '' '') 0 size' st else (size', st));
       let st = (if sign \<noteq> 0 then put putc sign st else st);
       st \<leftarrow> (if flag_set type SPECIAL then
                if base = 8 then Some (put putc (asc CHR ''0'') st)
                else if base = 16 then do { x \<leftarrow> arr_get digits 33; Some (put putc x (put putc (asc CHR ''0'') st)) }
                else Some st
              else Some st);
       let (size', st) = (if \<not> flag_set type LEFT then post_loop putc c 0 size' st else (size', st));
       let (precision, st) = post_loop putc (asc CHR ''0'') i precision st;
       let st = puts putc (rev tmp) st;
       let (size', st) = post_loop putc (asc CHR '' '') 0 size' st;
       Some st
     }
   }"

section \<open>Conversions\<close>

text \<open>A call whose result is added to the count.\<close>

definition counted :: "(int \<times> 'o) option \<Rightarrow> int \<Rightarrow> (int \<times> 'o) option" where
  "counted r outlen = do { (len, out) \<leftarrow> r; Some (outlen + len, out) }"

definition conv_c :: "'o putc \<Rightarrow> directive \<Rightarrow> va_value list \<Rightarrow> int \<times> 'o \<Rightarrow> ((int \<times> 'o) \<times> va_value list) option" where
  "conv_c putc d args st = do {
     let (width, st) = (if \<not> flag_set (d_flags d) LEFT then pre_loop putc (asc CHR '' '') (d_width d) st else (d_width d, st));
     (w, args) \<leftarrow> va_int args;
     let st = put putc (ucast w) st;
     let (width, st) = pre_loop putc (asc CHR '' '') width st;
     Some (st, args)
   }"

text \<open>The bytes a string argument contributes: \<^verbatim>\<open>strnlen\<close> takes a precision of \<open>-1\<close> as the largest \<^verbatim>\<open>size_t\<close>.\<close>

definition str_bytes :: "memory \<Rightarrow> nat option \<Rightarrow> int \<Rightarrow> u8 list" where
  "str_bytes mem s precision =
     (let count = unat (of_int precision :: u64)
      in case s of None \<Rightarrow> take count (chars ''<NULL>'') | Some a \<Rightarrow> map (\<lambda>i. mem (a + i)) [0..<strnlen mem a count])"

definition conv_s :: "memory \<Rightarrow> 'o putc \<Rightarrow> directive \<Rightarrow> va_value list \<Rightarrow> int \<times> 'o \<Rightarrow> ((int \<times> 'o) \<times> va_value list) option" where
  "conv_s mem putc d args st = do {
     (s, args) \<leftarrow> va_str args;
     let bs = str_bytes mem s (d_precision d);
     let slen = int (length bs);
     let (width, st) = (if \<not> flag_set (d_flags d) LEFT then post_loop putc (asc CHR '' '') slen (d_width d) st else (d_width d, st));
     let st = puts putc bs st;
     let (width, st) = post_loop putc (asc CHR '' '') slen width st;
     Some (st, args)
   }"

definition conv_p :: "'o putc \<Rightarrow> directive \<Rightarrow> va_value list \<Rightarrow> int \<times> 'o \<Rightarrow> ((int \<times> 'o) \<times> va_value list) option" where
  "conv_p putc d args st = do {
     let (width, flags) = (if d_width d = - 1 then (16, d_flags d OR ZEROPAD) else (d_width d, d_flags d));
     let st = put putc (asc CHR ''0'') st;
     let st = put putc (asc CHR ''x'') st;
     (p, args) \<leftarrow> va_ptr args;
     st \<leftarrow> counted (number p 16 width (d_precision d) flags putc (snd st)) (fst st);
     Some (st, args)
   }"

definition fetch_num :: "u8 option \<Rightarrow> u32 \<Rightarrow> va_value list \<Rightarrow> (u64 \<times> va_value list) option" where
  "fetch_num qualifier flags args =
     (if qualifier = Some (asc CHR ''L'') then va_longlong args
      else if qualifier = Some (asc CHR ''l'') then va_long args
      else if qualifier = Some (asc CHR ''h'') then do {
        (w, args) \<leftarrow> va_int args;
        let h = (ucast w :: 16 word);
        Some (if flag_set flags SIGN then scast h else ucast h, args)
      }
      else do {
        (w, args) \<leftarrow> va_int args;
        Some (if flag_set flags SIGN then scast w else ucast w, args)
      })"

definition conv_num :: "'o putc \<Rightarrow> directive \<Rightarrow> u32 \<Rightarrow> u32 \<Rightarrow> va_value list \<Rightarrow> int \<times> 'o \<Rightarrow> ((int \<times> 'o) \<times> va_value list) option" where
  "conv_num putc d flags base args st = do {
     (num, args) \<leftarrow> fetch_num (d_qualifier d) flags args;
     st \<leftarrow> counted (number num base (d_width d) (d_precision d) flags putc (snd st)) (fst st);
     Some (st, args)
   }"

text \<open>The conversion character \<open>c\<close>; zero when the format ends there.\<close>

definition convert :: "memory \<Rightarrow> 'o putc \<Rightarrow> directive \<Rightarrow> u8 \<Rightarrow> va_value list \<Rightarrow> int \<times> 'o \<Rightarrow> ((int \<times> 'o) \<times> va_value list) option" where
  "convert mem putc d c args st =
     (if c = asc CHR ''c'' then conv_c putc d args st
      else if c = asc CHR ''s'' then conv_s mem putc d args st
      else if c = asc CHR ''p'' then conv_p putc d args st
      else if c = asc CHR ''o'' then conv_num putc d (d_flags d) 8 args st
      else if c = asc CHR ''X'' then conv_num putc d (d_flags d OR LARGE) 16 args st
      else if c = asc CHR ''x'' then conv_num putc d (d_flags d) 16 args st
      else if c = asc CHR ''d'' \<or> c = asc CHR ''i'' then conv_num putc d (d_flags d OR SIGN) 10 args st
      else if c = asc CHR ''u'' then conv_num putc d (d_flags d) 10 args st
      else (let st = (if c \<noteq> asc CHR ''%'' then put putc (asc CHR ''%'') st else st);
                st = (if c \<noteq> 0 then put putc c st else st)
            in Some (st, args)))"

lemma flags_loop_shorter: "flags_loop fmt flags = (flags', rest) \<Longrightarrow> length rest \<le> length fmt"
proof (induction fmt arbitrary: flags)
  case (Cons c fmt)
  then show ?case by (cases "is_field_qualifiers c flags") (auto split: if_splits dest!: Cons.IH)
qed simp

lemma simple_atoi_shorter: "simple_atoi fmt i = Some (n, rest) \<Longrightarrow> length rest \<le> length fmt"
  by (induction fmt i rule: simple_atoi.induct) (auto split: if_splits)

lemma read_width_shorter: "read_width fmt flags args = Some (w, flags', rest, args') \<Longrightarrow> length rest \<le> length fmt"
  by (auto simp: read_width_def Option.bind_eq_Some_conv dest: simple_atoi_shorter split: list.splits if_splits)

lemma read_precision_shorter: "read_precision fmt args = Some (p, rest, args') \<Longrightarrow> length rest \<le> length fmt"
  by (fastforce simp: read_precision_def Option.bind_eq_Some_conv dest: simple_atoi_shorter split: list.splits if_splits)

lemma read_qualifier_shorter: "length (snd (read_qualifier fmt)) \<le> length fmt"
  by (simp add: read_qualifier_def split: list.splits)

lemma read_directive_shorter:
  assumes "read_directive fmt args = Some (d, rest, args')"
  shows "length rest \<le> length fmt"
proof -
  obtain flags f1 where f1: "flags_loop fmt 0 = (flags, f1)" by fastforce
  from assms f1 obtain w flags' f2 args2 p f3 args3 where
    "read_width f1 flags args = Some (w, flags', f2, args2)" "read_precision f2 args2 = Some (p, f3, args3)" "rest = snd (read_qualifier f3)"
    by (auto simp: read_directive_def Option.bind_eq_Some_conv case_prod_beta)
  then show ?thesis using flags_loop_shorter [OF f1] read_width_shorter read_precision_shorter read_qualifier_shorter [of f3] by fastforce
qed

function doprintf_loop :: "memory \<Rightarrow> 'o putc \<Rightarrow> u8 list \<Rightarrow> va_value list \<Rightarrow> int \<times> 'o \<Rightarrow> (int \<times> 'o) option" where
  "doprintf_loop mem putc [] args st = Some st"
| "doprintf_loop mem putc (c # fmt) args st =
     (if c \<noteq> asc CHR ''%'' then doprintf_loop mem putc fmt args (put putc c st)
      else case read_directive fmt args of
          None \<Rightarrow> None
        | Some (d, rest, args) \<Rightarrow> do {
            (st, args) \<leftarrow> convert mem putc d (case rest of [] \<Rightarrow> 0 | c # _ \<Rightarrow> c) args st;
            doprintf_loop mem putc (tl rest) args st
          })"
  by pat_completeness auto
termination
  by (relation "measure (\<lambda>(mem, putc, fmt, args, st). length fmt)") (auto dest: read_directive_shorter)

definition doprintf :: "memory \<Rightarrow> 'o putc \<Rightarrow> 'o \<Rightarrow> u8 list \<Rightarrow> va_value list \<Rightarrow> (int \<times> 'o) option" where
  "doprintf mem putc out fmt args = do {
     st \<leftarrow> doprintf_loop mem putc fmt args (0, out);
     Some (put putc 0 st)
   }"

section \<open>The streams\<close>

record string_stream =
  pos :: nat
  ss_max :: nat
  buff :: nat
  ss_mem :: memory

definition init_string_stream :: "memory \<Rightarrow> nat \<Rightarrow> nat \<Rightarrow> string_stream" where
  "init_string_stream mem buf m = \<lparr>pos = 0, ss_max = m, buff = buf, ss_mem = mem\<rparr>"

definition string_stream_putc :: "string_stream putc" where
  "string_stream_putc c sbuf =
     (if pos sbuf = ss_max sbuf then (0, sbuf)
      else (1, sbuf\<lparr>ss_mem := (ss_mem sbuf)(buff sbuf + pos sbuf := c), pos := pos sbuf + 1\<rparr>))"

definition ksnprintf :: "memory \<Rightarrow> nat \<Rightarrow> nat \<Rightarrow> u8 list \<Rightarrow> va_value list \<Rightarrow> (int \<times> memory) option" where
  "ksnprintf mem buf n fmt args = do {
     (rc, sbuf) \<leftarrow> doprintf mem string_stream_putc (init_string_stream mem buf n) fmt args;
     Some (rc, ss_mem sbuf)
   }"

definition ksprintf :: "memory \<Rightarrow> nat \<Rightarrow> u8 list \<Rightarrow> va_value list \<Rightarrow> (int \<times> memory) option" where
  "ksprintf mem buf fmt args = do {
     (rc, sbuf) \<leftarrow> doprintf mem string_stream_putc (init_string_stream mem buf (nat INT_MAX)) fmt args;
     Some (rc, ss_mem sbuf)
   }"

text \<open>The console is the sequence of the characters \<open>kconsole_putc\<close> was given.\<close>

definition kernel_putc :: "u8 list putc" where
  "kernel_putc c out = (1, if c \<noteq> 0 then out @ [c] else out)"

definition kprintf :: "memory \<Rightarrow> int \<Rightarrow> u8 list \<Rightarrow> int \<Rightarrow> u8 list \<Rightarrow> va_value list \<Rightarrow> (int \<times> u8 list) option" where
  "kprintf mem debug_level console lvl fmt args =
     (if debug_level < lvl then Some (0, console) else doprintf mem kernel_putc console fmt args)"

section \<open>The text of a number\<close>

text \<open>The digits of a number, the least significant first, and the number they stand for.\<close>

fun to_digits :: "nat \<Rightarrow> nat \<Rightarrow> nat list" where
  "to_digits b n = (if n = 0 \<or> b < 2 then [] else n mod b # to_digits b (n div b))"

declare to_digits.simps [simp del]

fun of_digits :: "nat \<Rightarrow> nat list \<Rightarrow> nat" where
  "of_digits b [] = 0"
| "of_digits b (d # ds) = d + b * of_digits b ds"

lemma of_to_digits:
  assumes "2 \<le> b"
  shows "of_digits b (to_digits b n) = n"
  using assms
proof (induction b n rule: to_digits.induct)
  case (1 b n)
  then show ?case by (cases "n = 0") (simp_all add: to_digits.simps [of b])
qed

lemma to_digits_less: "d \<in> set (to_digits b n) \<Longrightarrow> d < b"
proof (induction b n rule: to_digits.induct)
  case (1 b n)
  then show ?case by (subst (asm) (2) to_digits.simps) (auto split: if_splits)
qed

lemma to_digits_length: "n < 2 ^ k \<Longrightarrow> length (to_digits b n) \<le> k"
proof (induction k arbitrary: n)
  case (Suc k)
  show ?case
  proof (cases "n = 0 \<or> b < 2")
    case False
    then have "n div b \<le> n div 2" using div_le_mono2 [of 2 b n] by simp
    then have "n div b < 2 ^ k" using Suc.prems by simp
    then show ?thesis using Suc.IH [of "n div b"] by (simp add: to_digits.simps [of b n])
  qed (simp add: to_digits.simps)
qed (simp add: to_digits.simps)

lemma digits_loop_eq:
  assumes "2 \<le> base" and "unat base \<le> length digits" and "length tmp + length (to_digits (unat base) (unat num)) \<le> 66"
  shows "digits_loop digits base num tmp = Some (tmp @ map ((!) digits) (to_digits (unat base) (unat num)))"
  using assms(3)
proof (induction "unat num" arbitrary: num tmp rule: less_induct)
  case less
  have b: "2 \<le> unat base" using assms(1) by (simp add: word_le_nat_alt)
  have ub: "unat (ucast base :: u64) = unat base" by (simp add: unsigned_ucast_eq take_bit_nat_eq_self less_trans [OF unsigned_less])
  show ?case
  proof (cases "num = 0")
    case True
    then show ?thesis by (subst digits_loop.simps) (simp add: to_digits.simps)
  next
    case False
    then have n: "0 < unat num" by (simp add: word_gt_0 unat_gt_0)
    define q where "q = num div (ucast base :: u64)"
    have q: "unat q = unat num div unat base" by (simp add: q_def unat_div ub)
    have d: "unat (num mod (ucast base :: u64)) = unat num mod unat base" by (simp add: unat_mod ub)
    have td: "to_digits (unat base) (unat num) = unat num mod unat base # to_digits (unat base) (unat q)"
      using n b by (subst to_digits.simps) (simp add: q)
    have lt: "unat num mod unat base < length digits" using b assms(2) by (intro less_le_trans [OF mod_less_divisor]) simp_all
    have "digits_loop digits base q (tmp @ [digits ! (unat num mod unat base)]) =
      Some ((tmp @ [digits ! (unat num mod unat base)]) @ map ((!) digits) (to_digits (unat base) (unat q)))"
      using less.hyps [of q "tmp @ [digits ! (unat num mod unat base)]"] less.prems n b by (simp add: td q)
    moreover have "digits_loop digits base num tmp = digits_loop digits base q (tmp @ [digits ! (unat num mod unat base)])"
      using False lt less.prems by (subst digits_loop.simps) (simp add: do_div_def d td q_def)
    ultimately show ?thesis by (simp add: td)
  qed
qed

text \<open>The parts of the text and how flags and width lay them out.\<close>

definition num_sign :: "u32 \<Rightarrow> u64 \<Rightarrow> u8 list" where
  "num_sign type num =
     (if \<not> flag_set type SIGN then [] else if sint num < 0 then chars ''-''
      else if flag_set type PLUS then chars ''+'' else if flag_set type SPACE then chars '' '' else [])"

definition num_magnitude :: "u32 \<Rightarrow> u64 \<Rightarrow> nat" where
  "num_magnitude type num = (if flag_set type SIGN then nat \<bar>sint num\<bar> else unat num)"

definition num_prefix :: "u32 \<Rightarrow> u32 \<Rightarrow> u8 list" where
  "num_prefix type base = (if \<not> flag_set type SPECIAL then [] else if base = 8 then chars ''0''
     else if base = 16 then (if flag_set type LARGE then chars ''0X'' else chars ''0x'') else [])"

definition num_digits :: "u32 \<Rightarrow> u32 \<Rightarrow> nat \<Rightarrow> u8 list" where
  "num_digits type base n = (if n = 0 then chars ''0'' else rev (map ((!) (digits_of type)) (to_digits (unat base) n)))"

definition zero_extend :: "int \<Rightarrow> u8 list \<Rightarrow> u8 list" where
  "zero_extend precision ds = replicate (nat (precision - int (length ds))) (asc CHR ''0'') @ ds"

definition justify :: "u32 \<Rightarrow> int \<Rightarrow> u8 list \<Rightarrow> u8 list \<Rightarrow> u8 list" where
  "justify type width pre body =
     (let n = nat (width - int (length (pre @ body)))
      in if flag_set type LEFT then pre @ body @ replicate n (asc CHR '' '')
         else if flag_set type ZEROPAD then pre @ replicate n (asc CHR ''0'') @ body
         else replicate n (asc CHR '' '') @ pre @ body)"

definition num_text :: "u64 \<Rightarrow> u32 \<Rightarrow> int \<Rightarrow> int \<Rightarrow> u32 \<Rightarrow> u8 list" where
  "num_text num base width precision type =
     (if base < 2 \<or> 36 < base then []
      else justify type width (num_sign type num @ num_prefix type base)
        (zero_extend precision (num_digits type base (num_magnitude type num))))"

lemma puts_append [simp]: "puts putc (xs @ ys) st = puts putc ys (puts putc xs st)"
  by (induction xs arbitrary: st) simp_all

lemma post_loop_eq:
  "post_loop putc c lo n st = (if lo < n then lo - 1 else n - 1, puts putc (replicate (nat (n - lo)) c) st)"
proof (induction putc c lo n st rule: post_loop.induct)
  case (1 putc c lo n st)
  have "lo < n \<Longrightarrow> nat (n - lo) = Suc (nat (n - 1 - lo))" by simp
  then show ?case using 1 by (subst post_loop.simps) auto
qed

lemma pre_loop_eq:
  "pre_loop putc c n st = (if 0 < n - 1 then 0 else n - 1, puts putc (replicate (nat (n - 1)) c) st)"
proof (induction putc c n st rule: pre_loop.induct)
  case (1 putc c n st)
  have "0 < n - 1 \<Longrightarrow> nat (n - 1) = Suc (nat (n - 1 - 1))" by simp
  then show ?case using 1 by (subst pre_loop.simps) (auto simp: Let_def)
qed

lemma asc_simps:
  "asc CHR ''0'' = 48" "asc CHR ''9'' = 57" "asc CHR '' '' = 32" "asc CHR ''-'' = 45" "asc CHR ''+'' = 43" "asc CHR ''#'' = 35"
  "asc CHR ''x'' = 120" "asc CHR ''X'' = 88" "asc CHR ''%'' = 37"
  by (simp_all add: asc_def)

lemma digits_of_length: "length (digits_of type) = 36"
  by (simp add: digits_of_def chars_def)

lemma digits_of_33: "digits_of type ! 33 = (if flag_set type LARGE then asc CHR ''X'' else asc CHR ''x'')"
  by (simp add: digits_of_def chars_def)

lemma num_magnitude_less: "num_magnitude type num < 2 ^ 64"
proof -
  have "\<bar>sint num\<bar> < 2 ^ 64" using sint_ge [of num] sint_lt [of num] by simp
  then have "nat \<bar>sint num\<bar> < nat (2 ^ 64)" by (subst nat_less_eq_zless) simp_all
  then show ?thesis using unsigned_less [of num, where ?'a = nat] by (simp add: num_magnitude_def)
qed

lemma take_sign_eq:
  "take_sign type num width = (case num_sign type num of [] \<Rightarrow> 0 | c # _ \<Rightarrow> c,
     of_nat (num_magnitude type num), width - int (length (num_sign type num)))"
  by (auto simp: take_sign_def num_sign_def num_magnitude_def chars_def)

text \<open>With the flag to justify to the left the flag to fill with zeros has no effect.\<close>

lemma zeropad_off:
  "flag_set (type AND NOT ZEROPAD) ZEROPAD = False" "flag_set (type AND NOT ZEROPAD) SIGN = flag_set type SIGN"
  "flag_set (type AND NOT ZEROPAD) PLUS = flag_set type PLUS" "flag_set (type AND NOT ZEROPAD) SPACE = flag_set type SPACE"
  "flag_set (type AND NOT ZEROPAD) LEFT = flag_set type LEFT" "flag_set (type AND NOT ZEROPAD) SPECIAL = flag_set type SPECIAL"
  "flag_set (type AND NOT ZEROPAD) LARGE = flag_set type LARGE"
  by (simp_all add: and.assoc)

lemma flag_set_or: "flag_set type (ZEROPAD + LEFT) \<longleftrightarrow> flag_set type ZEROPAD \<or> flag_set type LEFT"
proof -
  have "ZEROPAD + LEFT = ZEROPAD OR LEFT" by simp
  then show ?thesis by (simp only: bit.conj_disj_distrib or_eq_0_iff) blast
qed

lemma zeropad_parts:
  "num_sign (type AND NOT ZEROPAD) num = num_sign type num" "num_magnitude (type AND NOT ZEROPAD) num = num_magnitude type num"
  "num_prefix (type AND NOT ZEROPAD) base = num_prefix type base"
  unfolding num_sign_def num_magnitude_def num_prefix_def zeropad_off by (rule refl)+

lemma num_sign_cases: "num_sign type num = [] \<or> (\<exists>c. num_sign type num = [c] \<and> c \<noteq> 0)"
  by (simp add: num_sign_def chars_def asc_simps)

lemma number_digits:
  assumes "\<not> (base < 2 \<or> 36 < base)" and "n < 2 ^ 64"
  shows "(if (of_nat n :: u64) = 0 then Some [asc CHR ''0''] else digits_loop (digits_of type) base (of_nat n) []) =
    Some (rev (num_digits type base n))"
proof -
  have n: "unat (of_nat n :: u64) = n" using assms(2) by (simp add: unat_of_nat)
  have z: "(of_nat n :: u64) = 0 \<longleftrightarrow> n = 0" unfolding word_unat_eq_iff n by simp
  have "unat base \<le> 36" using assms(1) by (simp add: word_less_nat_alt)
  then have "unat base \<le> length (digits_of type)" by (simp add: digits_of_length)
  moreover have "length (to_digits (unat base) n) \<le> 64" using to_digits_length [OF assms(2)] .
  moreover have "2 \<le> base" using assms(1) by (simp add: not_less)
  ultimately show ?thesis using digits_loop_eq [of base "digits_of type" "[]" "of_nat n"]
    by (simp add: z n num_digits_def chars_def)
qed

lemma sign_put: "(if (case num_sign type num of [] \<Rightarrow> 0 | c # _ \<Rightarrow> c) \<noteq> 0
    then put putc (case num_sign type num of [] \<Rightarrow> 0 | c # _ \<Rightarrow> c) st else st) = puts putc (num_sign type num) st"
  using num_sign_cases [of type num] by auto

lemma prefix_put: "(if flag_set type SPECIAL then
      if base = 8 then Some (put putc (asc CHR ''0'') st)
      else if base = 16 then do { x \<leftarrow> arr_get (digits_of type) 33; Some (put putc x (put putc (asc CHR ''0'') st)) }
      else Some st
    else Some st) = Some (puts putc (num_prefix type base) st)"
  by (simp add: num_prefix_def chars_def digits_of_length digits_of_33)

lemma prefix_width: "(if flag_set type SPECIAL then if base = 16 then w - 2 else if base = 8 then w - 1 else w else w) =
    w - int (length (num_prefix type base))"
  by (simp add: num_prefix_def chars_def)

theorem number_eq: "number num base width precision type putc out = Some (puts putc (num_text num base width precision type) (0, out))"
proof (cases "base < 2 \<or> 36 < base")
  case False
  define t where "t = (if flag_set type LEFT then type AND NOT ZEROPAD else type)"
  have t: "num_sign t num = num_sign type num" "num_magnitude t num = num_magnitude type num" "num_prefix t base = num_prefix type base"
    "digits_of type = digits_of t" "flag_set t LEFT = flag_set type LEFT" "flag_set t ZEROPAD \<longleftrightarrow> flag_set type ZEROPAD \<and> \<not> flag_set type LEFT"
    using zeropad_off zeropad_parts unfolding t_def digits_of_def by auto
  define ds where "ds = num_digits t base (num_magnitude t num)"
  have ds: "(if (of_nat (num_magnitude t num) :: u64) = 0 then Some [asc CHR ''0''] else digits_loop (digits_of t) base (of_nat (num_magnitude t num)) []) =
    Some (rev ds)" unfolding ds_def by (rule number_digits [OF False num_magnitude_less])
  have ds': "num_digits type base (num_magnitude type num) = ds" by (simp add: ds_def num_digits_def t)
  show ?thesis
    unfolding number_def Let_def t_def [symmetric] t(4) if_not_P [OF False] take_sign_eq prod.case prefix_width ds
      Option.bind.simps sign_put post_loop_eq flag_set_or
    using False prefix_put [of t base putc]
    by (auto simp: num_text_def justify_def zero_extend_def t ds' Let_def diff_diff_eq add.assoc)
qed (simp add: number_def num_text_def)

section \<open>The text of a format\<close>

text \<open>
  What a format stands for, without any stream: the text of each directive and their concatenation.
\<close>

definition pad_text :: "u32 \<Rightarrow> int \<Rightarrow> u8 list \<Rightarrow> u8 list" where
  "pad_text flags width bs =
     (let n = nat (width - int (length bs))
      in if flag_set flags LEFT then bs @ replicate n (asc CHR '' '') else replicate n (asc CHR '' '') @ bs)"

definition radix :: "u8 \<Rightarrow> u32" where
  "radix c = (if c = asc CHR ''o'' then 8 else if c = asc CHR ''x'' \<or> c = asc CHR ''X'' then 16 else 10)"

definition radix_flags :: "u8 \<Rightarrow> u32" where
  "radix_flags c = (if c = asc CHR ''X'' then LARGE else if c = asc CHR ''d'' \<or> c = asc CHR ''i'' then SIGN else 0)"

definition conv_text :: "memory \<Rightarrow> directive \<Rightarrow> u8 \<Rightarrow> va_value list \<Rightarrow> (u8 list \<times> va_value list) option" where
  "conv_text mem d c args =
     (if c = asc CHR ''c'' then do { (w, args) \<leftarrow> va_int args; Some (pad_text (d_flags d) (d_width d) [ucast w], args) }
      else if c = asc CHR ''s'' then do {
        (s, args) \<leftarrow> va_str args; Some (pad_text (d_flags d) (d_width d) (str_bytes mem s (d_precision d)), args) }
      else if c = asc CHR ''p'' then do {
        (p, args) \<leftarrow> va_ptr args;
        Some (chars ''0x'' @ (if d_width d = - 1 then num_text p 16 16 (d_precision d) (d_flags d OR ZEROPAD)
          else num_text p 16 (d_width d) (d_precision d) (d_flags d)), args) }
      else if c \<in> set (chars ''oxXdiu'') then do {
        (num, args) \<leftarrow> fetch_num (d_qualifier d) (d_flags d OR radix_flags c) args;
        Some (num_text num (radix c) (d_width d) (d_precision d) (d_flags d OR radix_flags c), args) }
      else Some (if c = asc CHR ''%'' then [c] else asc CHR ''%'' # (if c \<noteq> 0 then [c] else []), args))"

function format_text :: "memory \<Rightarrow> u8 list \<Rightarrow> va_value list \<Rightarrow> u8 list option" where
  "format_text mem [] args = Some []"
| "format_text mem (c # fmt) args =
     (if c \<noteq> asc CHR ''%'' then do { bs \<leftarrow> format_text mem fmt args; Some (c # bs) }
      else case read_directive fmt args of
          None \<Rightarrow> None
        | Some (d, rest, args) \<Rightarrow> do {
            (bs, args) \<leftarrow> conv_text mem d (case rest of [] \<Rightarrow> 0 | c # _ \<Rightarrow> c) args;
            bs' \<leftarrow> format_text mem (tl rest) args;
            Some (bs @ bs')
          })"
  by pat_completeness auto
termination
  by (relation "measure (\<lambda>(mem, fmt, args). length fmt)") (auto dest: read_directive_shorter)

lemma puts_shift: "puts putc bs (k + n, out) = (let (m, out') = puts putc bs (n, out) in (k + m, out'))"
proof (induction bs arbitrary: n out)
  case (Cons c bs)
  obtain r out1 where "putc c out = (r, out1)" by fastforce
  then show ?case using Cons [of "n + r" out1] by (simp add: put_def add.assoc)
qed simp

lemma counted_puts: "counted (Some (puts putc bs (0, snd st))) (fst st) = Some (puts putc bs st)"
  using puts_shift [of putc bs "fst st" 0 "snd st"] by (simp add: counted_def Let_def split: prod.splits)

lemma conv_num_eq: "conv_num putc d flags base args st =
    map_option (\<lambda>(num, args). (puts putc (num_text num base (d_width d) (d_precision d) flags) st, args)) (fetch_num (d_qualifier d) flags args)"
  by (cases "fetch_num (d_qualifier d) flags args") (auto simp: conv_num_def number_eq counted_puts)

lemma conv_c_eq: "conv_c putc d args st =
    map_option (\<lambda>(w, args). (puts putc (pad_text (d_flags d) (d_width d) [ucast w]) st, args)) (va_int args)"
  by (cases "va_int args") (auto simp: conv_c_def pre_loop_eq pad_text_def Let_def)

lemma conv_s_eq: "conv_s mem putc d args st =
    map_option (\<lambda>(s, args). (puts putc (pad_text (d_flags d) (d_width d) (str_bytes mem s (d_precision d))) st, args)) (va_str args)"
  by (cases "va_str args") (auto simp: conv_s_def post_loop_eq pad_text_def Let_def)

lemma convert_eq: "convert mem putc d c args st = map_option (\<lambda>(bs, args). (puts putc bs st, args)) (conv_text mem d c args)"
proof -
  consider "c = asc CHR ''c''" | "c = asc CHR ''s''" | "c = asc CHR ''p''" | "c \<in> set (chars ''oxXdiu'')"
    | "c \<notin> set (chars ''cspoxXdiu'')" by (auto simp: chars_def)
  then show ?thesis
  proof cases
    case 1
    then show ?thesis by (cases "va_int args") (auto simp: convert_def conv_text_def conv_c_eq)
  next
    case 2
    then show ?thesis by (cases "va_str args") (auto simp: convert_def conv_text_def conv_s_eq asc_def)
  next
    case 3
    then show ?thesis by (cases "va_ptr args") (auto simp: convert_def conv_text_def conv_p_def number_eq counted_puts asc_def chars_def)
  next
    case 4
    then show ?thesis
      by (cases "fetch_num (d_qualifier d) (d_flags d OR radix_flags c) args")
        (auto simp: convert_def conv_text_def conv_num_eq asc_def chars_def radix_def radix_flags_def)
  next
    case 5
    then show ?thesis by (auto simp: convert_def conv_text_def chars_def asc_simps)
  qed
qed

lemma doprintf_loop_eq: "doprintf_loop mem putc fmt args st = map_option (\<lambda>bs. puts putc bs st) (format_text mem fmt args)"
proof (induction mem fmt args arbitrary: st rule: format_text.induct)
  case (2 mem c fmt args)
  show ?case
  proof (cases "c = asc CHR ''%''")
    case False
    then show ?thesis using 2(1) by (cases "format_text mem fmt args") simp_all
  next
    case c: True
    show ?thesis
    proof (cases "read_directive fmt args")
      case (Some r)
      obtain d rest args1 where r: "r = (d, rest, args1)" by (cases r) auto
      show ?thesis
      proof (cases "conv_text mem d (case rest of [] \<Rightarrow> 0 | c # _ \<Rightarrow> c) args1")
        case None
        then show ?thesis using Some r c by (simp add: convert_eq)
      next
        case t: (Some t)
        obtain bs args2 where b: "t = (bs, args2)" by fastforce
        have "doprintf_loop mem putc (tl rest) args2 st' = map_option (\<lambda>bs. puts putc bs st') (format_text mem (tl rest) args2)" for st'
          using 2(2) [OF _ Some r [symmetric] refl t b [symmetric]] c by simp
        then show ?thesis using Some r c t b by (cases "format_text mem (tl rest) args2") (simp_all add: convert_eq)
      qed
    qed (use c in simp)
  qed
qed simp

lemma doprintf_eq: "doprintf mem putc out fmt args = map_option (\<lambda>bs. puts putc (bs @ [0]) (0, out)) (format_text mem fmt args)"
  by (cases "format_text mem fmt args") (simp_all add: doprintf_def doprintf_loop_eq)

section \<open>Numbers are printed as they are read\<close>

text \<open>The value of a text in base \<open>b\<close> whose digits are written with the characters \<open>ds\<close>.\<close>

fun digit_index :: "u8 \<Rightarrow> u8 list \<Rightarrow> nat" where
  "digit_index c [] = 0"
| "digit_index c (d # ds) = (if c = d then 0 else Suc (digit_index c ds))"

definition text_value :: "nat \<Rightarrow> u8 list \<Rightarrow> u8 list \<Rightarrow> nat" where
  "text_value b ds bs = foldl (\<lambda>n c. n * b + digit_index c ds) 0 bs"

lemma digit_index_nth: "distinct ds \<Longrightarrow> i < length ds \<Longrightarrow> digit_index (ds ! i) ds = i"
proof (induction ds arbitrary: i)
  case (Cons d ds)
  then show ?case by (cases i) auto
qed simp

lemma digits_of_distinct: "distinct (digits_of type)"
  by (simp add: digits_of_def chars_def asc_def)

lemma text_value_rev:
  assumes "distinct ds" and "\<forall>d \<in> set xs. d < length ds"
  shows "text_value b ds (rev (map ((!) ds) xs)) = of_digits b xs"
  using assms(2) digit_index_nth [OF assms(1)] by (induction xs) (simp_all add: text_value_def)

lemma text_value_zeros: "text_value b (digits_of type) (replicate n (asc CHR ''0'') @ bs) = text_value b (digits_of type) bs"
proof -
  have "digit_index (asc CHR ''0'') (digits_of type) = 0" by (simp add: digits_of_def chars_def)
  then have "foldl (\<lambda>n c. n * b + digit_index c (digits_of type)) 0 (replicate n (asc CHR ''0'')) = 0" by (induction n) simp_all
  then show ?thesis by (simp add: text_value_def)
qed

lemma num_digits_value:
  assumes "2 \<le> base" and "base \<le> 36"
  shows "text_value (unat base) (digits_of type) (num_digits type base n) = n"
proof -
  have b: "2 \<le> unat base" "unat base \<le> 36" using assms by (simp_all add: word_le_nat_alt)
  have "\<forall>d \<in> set (to_digits (unat base) n). d < length (digits_of type)"
    using to_digits_less b(2) by (fastforce simp: digits_of_length)
  from text_value_rev [OF digits_of_distinct this] of_to_digits [OF b(1)] show ?thesis
    using text_value_zeros [of "unat base" type 1 "[]"] by (simp add: num_digits_def chars_def text_value_def)
qed

text \<open>
  Claim C36. \<open>number\<close> writes, whatever the stream, a text that consists of the padding, the sign, the prefix of the base and
  the digits: the digits read in the base give the magnitude of the number, there are at least as many as the
  precision asks for, the whole is at least as wide as the field, padded with blanks on the left, with blanks on the right
  when the flag for the left is set or with zeros behind the sign; and never are more than the 66 characters
  of its buffer needed.
\<close>

theorem number_spec:
  assumes "2 \<le> base" and "base \<le> 36"
  shows "\<exists>ds n. number num base width precision type putc out =
      Some (puts putc (if flag_set type LEFT then num_sign type num @ num_prefix type base @ ds @ replicate n (asc CHR '' '')
        else if flag_set type ZEROPAD then num_sign type num @ num_prefix type base @ replicate n (asc CHR ''0'') @ ds
        else replicate n (asc CHR '' '') @ num_sign type num @ num_prefix type base @ ds) (0, out)) \<and>
    text_value (unat base) (digits_of type) ds = num_magnitude type num \<and> precision \<le> int (length ds) \<and> ds \<noteq> [] \<and>
    int (n + length (num_sign type num @ num_prefix type base @ ds)) =
      max width (int (length (num_sign type num @ num_prefix type base @ ds)))"
proof -
  have nb: "\<not> (base < 2 \<or> 36 < base)" using assms by (simp add: not_less)
  define ds where "ds = zero_extend precision (num_digits type base (num_magnitude type num))"
  define n where "n = nat (width - int (length (num_sign type num @ num_prefix type base @ ds)))"
  have "text_value (unat base) (digits_of type) ds = num_magnitude type num"
    using num_digits_value [OF assms] text_value_zeros by (simp add: ds_def zero_extend_def)
  moreover have "num_digits type base (num_magnitude type num) \<noteq> []"
    using assms by (auto simp: num_digits_def chars_def to_digits.simps [of "unat base"] word_le_nat_alt)
  then have "ds \<noteq> []" by (simp add: ds_def zero_extend_def)
  moreover have "precision \<le> int (length ds)" by (simp add: ds_def zero_extend_def)
  moreover have "int (n + length (num_sign type num @ num_prefix type base @ ds)) =
      max width (int (length (num_sign type num @ num_prefix type base @ ds)))" by (simp add: n_def)
  ultimately show ?thesis using nb
    by (intro exI [of _ ds] exI [of _ n]) (simp add: number_eq num_text_def justify_def Let_def ds_def [symmetric] n_def)
qed

theorem number_spec_witness:
  "\<exists>ds n. number (- 77) 10 6 0 SIGN (\<lambda>c out. (1, out @ [c])) [] =
      Some (puts (\<lambda>c out. (1, out @ [c])) (replicate n (asc CHR '' '') @ chars ''-'' @ ds) (0, [])) \<and>
    text_value 10 (digits_of SIGN) ds = 77 \<and> ds \<noteq> [] \<and> int (n + length (chars ''-'' @ ds)) = max 6 (int (length (chars ''-'' @ ds)))"
  using number_spec [of 10 "- 77" 6 0 SIGN "\<lambda>c out. (1, out @ [c])" "[]"]
  by (simp add: num_sign_def num_prefix_def num_magnitude_def)

text \<open>A width or precision that was printed in decimal is read back from a format as the same number.\<close>

lemma simple_atoi_digits:
  assumes "\<forall>d \<in> set xs. d < 10" and "i * 10 ^ length xs + int (of_digits 10 (rev xs)) + 57 \<le> INT_MAX" and "0 \<le> i" and "\<not> (\<exists>c cs. rest = c # cs \<and> isdigit c)"
  shows "simple_atoi (map (\<lambda>d. of_nat (48 + d)) xs @ rest) i = Some (i * 10 ^ length xs + int (of_digits 10 (rev xs)), rest)"
  using assms
proof (induction xs arbitrary: i)
  case Nil
  then show ?case by (cases rest) auto
next
  case (Cons x xs)
  have od: "of_digits 10 (ys @ [y]) = of_digits 10 ys + y * 10 ^ length ys" for ys y by (induction ys) (simp_all add: algebra_simps)
  define c where "c = (of_nat (48 + x) :: u8)"
  have x: "x < 10" using Cons.prems(1) by simp
  have uc: "unat c = 48 + x" using x by (simp add: c_def unat_of_nat del: of_nat_add of_nat_numeral)
  have dc: "isdigit c" using x uc by (simp add: isdigit_def asc_simps word_le_nat_alt)
  have p: "1 \<le> (10 :: int) ^ length xs" by simp
  have val: "i * 10 ^ length (x # xs) + int (of_digits 10 (rev (x # xs))) =
      (i * 10 + int x) * 10 ^ length xs + int (of_digits 10 (rev xs))" by (simp add: od algebra_simps)
  have "i * 10 + int x \<le> (i * 10 + int x) * 10 ^ length xs" using p Cons.prems(3) by (simp add: mult_le_cancel_left1)
  then have le: "i * 10 + int (unat c) \<le> INT_MAX" using Cons.prems(2) val x by (simp add: uc)
  have "simple_atoi (map (\<lambda>d. of_nat (48 + d)) xs @ rest) (i * 10 + int x) =
      Some ((i * 10 + int x) * 10 ^ length xs + int (of_digits 10 (rev xs)), rest)"
    by (rule Cons.IH) (use Cons.prems val in auto)
  moreover have "i * 10 + int (unat c) - 48 = i * 10 + int x" by (simp add: uc)
  moreover have "simple_atoi (c # map (\<lambda>d. of_nat (48 + d)) xs @ rest) i = simple_atoi (map (\<lambda>d. of_nat (48 + d)) xs @ rest) (i * 10 + int (unat c) - 48)"
    using dc le by simp
  moreover have "map (\<lambda>d. of_nat (48 + d)) (x # xs) @ rest = c # map (\<lambda>d. of_nat (48 + d)) xs @ rest" by (simp add: c_def)
  ultimately show ?case unfolding val by (simp only:)
qed

lemma decimal_digits: "d < 10 \<Longrightarrow> digits_of 0 ! d = of_nat (48 + d)"
proof -
  assume "d < 10"
  then have "d \<in> {0, 1, 2, 3, 4, 5, 6, 7, 8, 9}" by auto
  then show ?thesis by (auto simp: digits_of_def chars_def asc_def)
qed

text \<open>
  Printing and reading of a plain number: what \<open>number\<close> writes in base ten, without a flag, a width or a precision, for a
  number from 0 to the largest \<open>int\<close> less 57, is read back by \<open>simple_atoi\<close> as that number, and the reader
  stops at the first character behind it that is no digit.  (Larger numbers overflow the intermediate sums of the reader, and it
  takes neither a sign nor blanks.)
\<close>

theorem number_atoi_roundtrip:
  assumes "int n + 57 \<le> INT_MAX" and "\<not> (\<exists>c cs. rest = c # cs \<and> isdigit c)"
  shows "\<exists>bs. number (of_nat n) 10 (- 1) (- 1) 0 putc out = Some (puts putc bs (0, out)) \<and>
    simple_atoi (bs @ rest) 0 = Some (int n, rest)"
proof -
  have n: "n < 2 ^ 64" "unat (of_nat n :: u64) = n" using assms(1) by (simp_all add: INT_MAX_def unat_of_nat)
  define bs where "bs = num_digits 0 10 n"
  have t: "num_text (of_nat n) 10 (- 1) (- 1) 0 = bs"
    by (simp add: num_text_def num_sign_def num_prefix_def num_magnitude_def n justify_def zero_extend_def bs_def)
  define xs where "xs = (if n = 0 then [0] else rev (to_digits 10 n))"
  have xs: "\<forall>d \<in> set xs. d < 10" "of_digits 10 (rev xs) = n"
    using to_digits_less [of _ 10 n] of_to_digits [of 10 n] by (auto simp: xs_def)
  have "bs = map (\<lambda>d. of_nat (48 + d)) xs"
  proof (cases "n = 0")
    case False
    have "map ((!) (digits_of 0)) xs = map (\<lambda>d. of_nat (48 + d)) xs" using xs(1) decimal_digits by (intro map_cong refl) blast
    then show ?thesis using False by (simp add: bs_def num_digits_def xs_def rev_map)
  qed (simp add: bs_def num_digits_def xs_def chars_def asc_simps)
  then show ?thesis using simple_atoi_digits [OF xs(1), of 0 rest] assms xs(2) t by (intro exI [of _ bs]) (simp add: number_eq)
qed

theorem number_atoi_roundtrip_witness:
  "\<exists>bs. number (of_nat 4096) 10 (- 1) (- 1) 0 (\<lambda>c out. (1, out @ [c])) [] = Some (puts (\<lambda>c out. (1, out @ [c])) bs (0, [])) \<and>
    simple_atoi (bs @ chars ''d'') 0 = Some (int 4096, chars ''d'')"
  by (rule number_atoi_roundtrip) (simp_all add: INT_MAX_def chars_def isdigit_def asc_def)

section \<open>Output into a buffer\<close>

definition mem_write :: "memory \<Rightarrow> nat \<Rightarrow> u8 list \<Rightarrow> memory" where
  "mem_write mem a bs = (\<lambda>x. if a \<le> x \<and> x < a + length bs then bs ! (x - a) else mem x)"

lemma mem_write_Nil [simp]: "mem_write mem a [] = mem"
  by (auto simp: mem_write_def fun_eq_iff)

lemma mem_write_Cons: "mem_write (mem(a := c)) (Suc a) bs = mem_write mem a (c # bs)"
proof
  fix x
  show "mem_write (mem(a := c)) (Suc a) bs x = mem_write mem a (c # bs) x"
  proof (cases "Suc a \<le> x")
    case True
    then have "x - a = Suc (x - Suc a)" by simp
    then show ?thesis using True by (simp add: mem_write_def)
  qed (auto simp: mem_write_def)
qed

lemma puts_string_stream:
  "pos sb \<le> ss_max sb \<Longrightarrow> puts string_stream_putc bs (k, sb) =
     (k + int (min (ss_max sb - pos sb) (length bs)),
      sb\<lparr>ss_mem := mem_write (ss_mem sb) (buff sb + pos sb) (take (ss_max sb - pos sb) bs),
         pos := pos sb + min (ss_max sb - pos sb) (length bs)\<rparr>)"
proof (induction bs arbitrary: k sb)
  case (Cons c bs)
  show ?case
  proof (cases "pos sb = ss_max sb")
    case True
    have "puts string_stream_putc cs (k, sb) = (k, sb)" for cs
      by (induction cs) (use True in \<open>simp_all add: put_def string_stream_putc_def\<close>)
    then show ?thesis using True by (simp del: puts.simps)
  next
    case False
    then obtain m where m: "ss_max sb - pos sb = Suc m" using Cons.prems by (metis Suc_diff_Suc le_neq_implies_less)
    then have "ss_max sb - Suc (pos sb) = m" "Suc (pos sb) \<le> ss_max sb" by simp_all
    moreover have "put string_stream_putc c (k, sb) = (k + 1, sb\<lparr>ss_mem := (ss_mem sb)(buff sb + pos sb := c), pos := Suc (pos sb)\<rparr>)"
      using False by (simp add: put_def string_stream_putc_def)
    ultimately show ?thesis using m by (simp add: Cons.IH mem_write_Cons [unfolded fun_upd_def] fun_upd_def)
  qed
qed simp

lemma ksnprintf_eq:
  "ksnprintf mem buf n fmt args =
     map_option (\<lambda>bs. (int (min n (length bs + 1)), mem_write mem buf (take n (bs @ [0])))) (format_text mem fmt args)"
proof (cases "format_text mem fmt args")
  case (Some bs)
  then show ?thesis using puts_string_stream [of "init_string_stream mem buf n" "bs @ [0]" 0]
    by (simp add: ksnprintf_def doprintf_eq init_string_stream_def)
qed (simp add: ksnprintf_def doprintf_eq)

text \<open>
  \<open>ksnprintf\<close> writes the text of the format with its terminating zero, as far as it fits: the buffer
  holds the first \<open>n\<close> characters of it, no byte outside the buffer changes, and the result is the number of characters written.
  It fails exactly when the format and its arguments do not agree.  The text of the format is that of the directives as the code
  reads them, with the strings of the arguments as the memory holds them before the call.
\<close>

theorem ksnprintf_spec:
  "ksnprintf mem buf n fmt args =
     (case format_text mem fmt args of
        None \<Rightarrow> None
      | Some bs \<Rightarrow> Some (int (min n (length bs + 1)),
          \<lambda>a. if buf \<le> a \<and> a < buf + min n (length bs + 1) then (bs @ [0]) ! (a - buf) else mem a))"
proof (cases "format_text mem fmt args")
  case (Some bs)
  have "mem_write mem buf (take n (bs @ [0])) a =
      (if buf \<le> a \<and> a < buf + min n (length bs + 1) then (bs @ [0]) ! (a - buf) else mem a)" for a
    unfolding mem_write_def by (auto simp: nth_append)
  then show ?thesis using Some by (simp add: ksnprintf_eq fun_eq_iff)
qed (simp add: ksnprintf_eq)

text \<open>
  A text that does not fit is left without a terminating zero, so whoever reads the buffer as a string, as
  \<open>yatos_printf\<close> does with \<^verbatim>\<open>strlen\<close>, runs past its end.
\<close>

lemma ksnprintf_unterminated:
  assumes "format_text mem fmt args = Some bs" and "n \<le> length bs" and "0 \<notin> set bs"
  shows "\<exists>mem'. ksnprintf mem buf n fmt args = Some (int n, mem') \<and> (\<forall>a. buf \<le> a \<and> a < buf + n \<longrightarrow> mem' a \<noteq> 0)"
proof -
  have "mem_write mem buf (take n (bs @ [0])) a \<noteq> 0" if "buf \<le> a" "a < buf + n" for a
  proof -
    have "mem_write mem buf (take n (bs @ [0])) a = bs ! (a - buf)" "a - buf < length bs" using that assms(2) by (auto simp: mem_write_def nth_append)
    then show ?thesis using assms(3) nth_mem by metis
  qed
  then show ?thesis using assms(1,2) by (simp add: ksnprintf_eq)
qed

lemma ksnprintf_unterminated_example:
  "map_option (\<lambda>(rc, mem). (rc, map mem [100..<104])) (ksnprintf (\<lambda>_. 7) 100 3 (chars ''a%d'') [VInt 42]) = Some (3, [97, 52, 50, 7])"
  by code_simp

text \<open>The kernel log drops what is above its level and shows the text of the format otherwise.\<close>

lemma puts_kernel: "puts kernel_putc bs (k, out) = (k + int (length bs), out @ filter (\<lambda>c. c \<noteq> 0) bs)"
  by (induction bs arbitrary: k out) (simp_all add: put_def kernel_putc_def)

lemma kprintf_eq:
  "kprintf mem level console lvl fmt args =
     (if level < lvl then Some (0, console)
      else map_option (\<lambda>bs. (int (length bs) + 1, console @ filter (\<lambda>c. c \<noteq> 0) bs)) (format_text mem fmt args))"
  by (cases "format_text mem fmt args") (simp_all add: kprintf_def doprintf_eq puts_kernel kernel_putc_def put_def)

end
