(* ===== verification/Cmdline.thy ===== *)
theory Cmdline
  imports Kstring
begin

text \<open>
  The arguments of a new process, \<^verbatim>\<open>src/proc/proc.c\<close>: the parser of the command line, a state machine that calls a
  function at every character, and \<open>setup_process_stack\<close>, which uses it twice to lay out the strings and the
  pointer arrays of \<open>main\<close> on the stack of the process.

  The address space of the process is switched in while the stack is written, so user and kernel addresses are addresses of
  one memory, that of theory \<open>Kstring\<close>.  A pointer in memory is eight bytes, least significant first.
\<close>

section \<open>Pointers in memory\<close>

definition store_ptr :: "memory \<Rightarrow> nat \<Rightarrow> nat \<Rightarrow> memory" where
  "store_ptr mem a v = (\<lambda>x. if a \<le> x \<and> x < a + 8 then of_nat (v div 256 ^ (x - a)) else mem x)"

definition load_ptr :: "memory \<Rightarrow> nat \<Rightarrow> nat" where
  "load_ptr mem a = (\<Sum>i<8. unat (mem (a + i)) * 256 ^ i)"

section \<open>The parser\<close>

datatype cmdline_parser_state = CMD_START | CMD_PRINTABLE | CMD_SPACE | CMD_TERM

record cmdline_parser_arg =
  a_cnt :: nat
  a_start :: nat
  a_cp :: nat
  a_arg :: nat

type_synonym parser_cb =
  "cmdline_parser_state \<Rightarrow> cmdline_parser_state \<Rightarrow> cmdline_parser_arg \<Rightarrow> memory \<Rightarrow> cmdline_parser_arg \<times> memory"

definition isspace :: "u8 \<Rightarrow> bool" where
  "isspace c \<longleftrightarrow> c = 32 \<or> c = 12 \<or> c = 10 \<or> c = 13 \<or> c = 9 \<or> c = 11"

definition count_args_cb :: parser_cb where
  "count_args_cb old new a mem =
     (if old = CMD_START then a\<lparr>a_cnt := 1\<rparr>
      else if old = CMD_SPACE \<and> new = CMD_PRINTABLE then a\<lparr>a_cnt := a_cnt a + 1\<rparr>
      else a, mem)"

definition split_args_cb :: parser_cb where
  "split_args_cb old new a mem =
     (let (a, mem) =
        (if old = CMD_START then (a\<lparr>a_cnt := 1\<rparr>, mem)
         else if old = CMD_SPACE \<and> new = CMD_PRINTABLE
         then (a\<lparr>a_cnt := a_cnt a + 1\<rparr>, store_ptr mem (a_arg a + 8 * a_cnt a) (a_cp a))
         else (a, mem))
      in (a, if new = CMD_SPACE then mem(a_cp a := 0) else mem))"

definition call_cb :: "parser_cb option \<Rightarrow> parser_cb" where
  "call_cb cb old new a mem = (case cb of None \<Rightarrow> (a, mem) | Some f \<Rightarrow> f old new a mem)"

partial_function (option) skip_spaces :: "memory \<Rightarrow> nat \<Rightarrow> nat option" where
  "skip_spaces mem p = (if isspace (mem p) then skip_spaces mem (p + 1) else Some p)"

definition parse_step :: "parser_cb option \<Rightarrow> cmdline_parser_state \<Rightarrow> cmdline_parser_arg \<Rightarrow> memory \<Rightarrow>
    cmdline_parser_state \<times> cmdline_parser_arg \<times> memory" where
  "parse_step cb st a mem = (case st of
      CMD_PRINTABLE \<Rightarrow>
        if isspace (mem (a_cp a)) then (CMD_SPACE, call_cb cb CMD_PRINTABLE CMD_SPACE a mem)
        else (CMD_PRINTABLE, call_cb cb CMD_PRINTABLE CMD_PRINTABLE a mem)
    | CMD_SPACE \<Rightarrow>
        if \<not> isspace (mem (a_cp a)) \<and> mem (a_cp a) \<noteq> 0 then (CMD_PRINTABLE, call_cb cb CMD_SPACE CMD_PRINTABLE a mem)
        else (CMD_SPACE, call_cb cb CMD_SPACE CMD_SPACE a mem)
    | _ \<Rightarrow> (st, a, mem))"

partial_function (option) parse_loop :: "parser_cb option \<Rightarrow> cmdline_parser_state \<Rightarrow> cmdline_parser_arg \<Rightarrow> memory \<Rightarrow>
    (cmdline_parser_state \<times> cmdline_parser_arg \<times> memory) option" where
  "parse_loop cb st a mem =
     (if mem (a_cp a) \<noteq> 0 then
        (let (st, a, mem) = parse_step cb st a mem in parse_loop cb st (a\<lparr>a_cp := a_cp a + 1\<rparr>) mem)
      else Some (st, a, mem))"

definition parse_arg_string :: "nat \<Rightarrow> parser_cb option \<Rightarrow> cmdline_parser_arg \<Rightarrow> memory \<Rightarrow>
    (int \<times> cmdline_parser_arg \<times> memory) option" where
  "parse_arg_string str cb a mem = do {
     p \<leftarrow> skip_spaces mem str;
     let a = a\<lparr>a_cnt := 0, a_cp := p\<rparr>;
     if mem p = 0 then Some (- ENOENT, a, mem)
     else do {
       let a = a\<lparr>a_start := p\<rparr>;
       let (a, mem) = call_cb cb CMD_START CMD_PRINTABLE a mem;
       (st, a, mem) \<leftarrow> parse_loop cb CMD_PRINTABLE (a\<lparr>a_cp := a_start a\<rparr>) mem;
       let (a, mem) = call_cb cb st CMD_TERM a mem;
       Some (0, a, mem)
     }
   }"

section \<open>The stack of a new process\<close>

text \<open>\<open>env\<close> is the array of the environment up to its end; a missing array has no entries.\<close>

fun env_size :: "memory \<Rightarrow> nat list \<Rightarrow> nat option" where
  "env_size mem [] = Some 0"
| "env_size mem (e # es) = do { l \<leftarrow> strlen mem e; r \<leftarrow> env_size mem es; Some (l + 1 + r) }"

fun copy_envs :: "memory \<Rightarrow> nat \<Rightarrow> nat \<Rightarrow> nat list \<Rightarrow> memory option" where
  "copy_envs mem envp slot [] = Some mem"
| "copy_envs mem envp slot (e # es) = do {
     l \<leftarrow> strlen mem e;
     let envlen = l + 1;
     let mem = snd (memcpy mem envp e envlen);
     let mem = mem(envp + (envlen - 1) := 0);
     let mem = store_ptr mem slot envp;
     copy_envs mem (envp + envlen) (slot + 8) es
   }"

definition page_next :: "nat \<Rightarrow> nat" where
  "page_next n = (n div 4096 + 1) * 4096"

text \<open>
  \<open>alloc\<close> is what \<open>alloc_process_stack\<close> does for a size: its result and the start of the region.  That function maps the
  first page of the region only, so a larger region faults in the kernel when it is cleared, which does not return.  The result holds the
  number of arguments and the addresses of the two arrays.  The branch that gives the region back after the second
  parse is left out: that parse cannot fail, as the copied line starts with a word.
\<close>

definition setup_process_stack :: "(nat \<Rightarrow> int \<times> nat) \<Rightarrow> memory \<Rightarrow> nat \<Rightarrow> nat list \<Rightarrow>
    (int \<times> (nat \<times> nat \<times> nat) option \<times> memory) option" where
  "setup_process_stack alloc mem paramp env = do {
     (rc, a, mem) \<leftarrow> parse_arg_string paramp (Some count_args_cb) \<lparr>a_cnt = 0, a_start = 0, a_cp = 0, a_arg = 0\<rparr> mem;
     if rc \<noteq> 0 then Some (rc, None, mem)
     else do {
       let nr_args = a_cnt a + 1;
       envsiz \<leftarrow> env_size mem env;
       let nr_envs = length env + 1;
       len \<leftarrow> strlen mem (a_start a);
       let size = page_next (len + 1 + 8 * nr_args + envsiz + 8 * nr_envs);
       let (rc, ustack) = alloc size;
       kassert (rc = 0);
       if size > 4096 then None else do {
       let mem = snd (memset mem ustack 0 size);
       let env_array = ustack + size - envsiz - (len + 1) - 8 * nr_envs;
       mem \<leftarrow> copy_envs mem (ustack + size - envsiz) env_array env;
       let mem = store_ptr mem (env_array + 8 * (nr_envs - 1)) 0;
       let bufp = ustack + size - (envsiz + len + 1);
       let mem = snd (memcpy mem bufp (a_start a) (len + 1));
       let argv = ustack + size - envsiz - (len + 1) - 8 * nr_envs - 8 * nr_args;
       let mem = store_ptr mem argv bufp;
       (rc, a, mem) \<leftarrow> parse_arg_string bufp (Some split_args_cb) (a\<lparr>a_arg := argv\<rparr>) mem;
       if rc \<noteq> 0 then Some (rc, None, mem)
       else do {
         let mem = store_ptr mem (argv + 8 * (nr_args - 1)) 0;
         Some (0, Some (a_cnt a, argv, env_array), mem)
       }
       }
     }
   }"

section \<open>Specification\<close>

text \<open>The words of a command line: its longest runs of characters that are no white space.\<close>

function cmd_words :: "u8 list \<Rightarrow> u8 list list" where
  "cmd_words [] = []"
| "cmd_words (x # xs) =
     (if isspace x then cmd_words xs
      else (x # takeWhile (\<lambda>c. \<not> isspace c) xs) # cmd_words (dropWhile (\<lambda>c. \<not> isspace c) xs))"
  by pat_completeness auto

termination cmd_words
  by (relation "measure length") (auto simp: less_Suc_eq_le length_dropWhile_le)

lemma cmd_words_chars: "concat (cmd_words xs) = filter (\<lambda>c. \<not> isspace c) xs"
proof (induction xs rule: cmd_words.induct)
  case (2 x xs)
  have "filter (\<lambda>c. \<not> isspace c) xs = takeWhile (\<lambda>c. \<not> isspace c) xs @ filter (\<lambda>c. \<not> isspace c) (dropWhile (\<lambda>c. \<not> isspace c) xs)"
    by (induction xs) auto
  then show ?case using 2 by simp
qed simp

lemma cmd_words_empty: "cmd_words xs = [] \<longleftrightarrow> dropWhile isspace xs = []"
  by (induction xs rule: cmd_words.induct) auto

lemma cmd_words_leading: "cmd_words (dropWhile isspace xs) = cmd_words xs"
  by (induction xs) auto

text \<open>An array of pointers to strings, the strings between \<open>lo\<close> and \<open>hi\<close>.\<close>

fun strs_in :: "memory \<Rightarrow> nat \<Rightarrow> nat \<Rightarrow> nat \<Rightarrow> u8 list list \<Rightarrow> bool" where
  "strs_in mem q lo hi [] \<longleftrightarrow> True"
| "strs_in mem q lo hi (w # ws) \<longleftrightarrow>
     str_at mem (load_ptr mem q) w \<and> lo \<le> load_ptr mem q \<and> load_ptr mem q + length w < hi \<and> strs_in mem (q + 8) lo hi ws"

section \<open>Lemmas on pointers\<close>

lemma digits_sum: "(\<Sum>i<n. (v div 256 ^ i mod 256) * 256 ^ i) = v mod 256 ^ n" for v :: nat
proof (induction n)
  case (Suc n)
  have "v mod 256 ^ Suc n = 256 ^ n * (v div 256 ^ n mod 256) + v mod 256 ^ n"
    using mod_mult2_eq [of v "256 ^ n" 256] by (simp add: mult.commute)
  with Suc show ?case by (simp add: mult.commute)
qed simp

lemma load_store_ptr [simp]: "v < 2 ^ 64 \<Longrightarrow> load_ptr (store_ptr mem a v) a = v"
proof -
  assume v: "v < 2 ^ 64"
  have "load_ptr (store_ptr mem a v) a = (\<Sum>i<8. (v div 256 ^ i mod 256) * 256 ^ i)"
    by (simp add: load_ptr_def store_ptr_def unat_of_nat)
  then show ?thesis using v by (simp add: digits_sum)
qed

lemma load_ptr_cong: "(\<And>x. a \<le> x \<Longrightarrow> x < a + 8 \<Longrightarrow> mem' x = mem x) \<Longrightarrow> load_ptr mem' a = load_ptr mem a"
  unfolding load_ptr_def by (rule sum.cong) auto

lemma store_ptr_other: "x < a \<or> a + 8 \<le> x \<Longrightarrow> store_ptr mem a v x = mem x"
  by (auto simp: store_ptr_def)

lemma strs_in_cong:
  assumes "strs_in mem q lo hi ws"
    and "\<And>x. q \<le> x \<Longrightarrow> x < q + 8 * length ws \<Longrightarrow> mem' x = mem x" and "\<And>x. lo \<le> x \<Longrightarrow> x < hi \<Longrightarrow> mem' x = mem x"
  shows "strs_in mem' q lo hi ws"
  using assms(1,2)
proof (induction ws arbitrary: q)
  case (Cons w ws)
  have p: "load_ptr mem' q = load_ptr mem q" using Cons.prems(2) by (intro load_ptr_cong) simp
  have "str_at mem' (load_ptr mem q) w"
    by (rule str_at_cong) (use Cons.prems(1) assms(3) in auto)
  moreover have "strs_in mem' (q + 8) lo hi ws" using Cons by auto
  ultimately show ?case using Cons.prems(1) p by simp
qed simp

lemma strs_in_mono: "strs_in mem q lo hi ws \<Longrightarrow> lo' \<le> lo \<Longrightarrow> hi \<le> hi' \<Longrightarrow> strs_in mem q lo' hi' ws"
  by (induction ws arbitrary: q) auto

section \<open>The parser meets the specification\<close>

lemma not_space_0 [simp]: "\<not> isspace 0"
  by (simp add: isspace_def)

lemma skip_spaces_eq:
  "str_at mem p xs \<Longrightarrow> skip_spaces mem p = Some (p + length (takeWhile isspace xs)) \<and>
     str_at mem (p + length (takeWhile isspace xs)) (dropWhile isspace xs)"
proof (induction xs arbitrary: p)
  case Nil
  then show ?case by (subst skip_spaces.simps) simp
next
  case (Cons x xs)
  then show ?case using Cons.IH [of "p + 1"] by (subst skip_spaces.simps) auto
qed

text \<open>The words that begin in the rest \<open>xs\<close> of the line, after a space or inside a word.\<close>

definition new_words :: "cmdline_parser_state \<Rightarrow> u8 list \<Rightarrow> u8 list list" where
  "new_words st xs = cmd_words (if st = CMD_SPACE then xs else dropWhile (\<lambda>c. \<not> isspace c) xs)"

lemma new_words_simps [simp]:
  "new_words st [] = []"
  "isspace x \<Longrightarrow> new_words st (x # xs) = new_words CMD_SPACE xs"
  "\<not> isspace x \<Longrightarrow> new_words CMD_SPACE (x # xs) = (x # takeWhile (\<lambda>c. \<not> isspace c) xs) # new_words CMD_PRINTABLE xs"
  "\<not> isspace x \<Longrightarrow> new_words CMD_PRINTABLE (x # xs) = new_words CMD_PRINTABLE xs"
  by (simp_all add: new_words_def)

lemma cmdline_arg_swap [simp]: "a\<lparr>a_cp := p, a_cnt := n\<rparr> = a\<lparr>a_cnt := n, a_cp := p\<rparr>"
  by simp

lemma count_loop:
  assumes "str_at mem (a_cp a) xs" "st = CMD_PRINTABLE \<or> st = CMD_SPACE"
  shows "\<exists>st'. parse_loop (Some count_args_cb) st a mem =
       Some (st', a\<lparr>a_cp := a_cp a + length xs, a_cnt := a_cnt a + length (new_words st xs)\<rparr>, mem) \<and>
     (st' = CMD_PRINTABLE \<or> st' = CMD_SPACE)"
  using assms
proof (induction xs arbitrary: a st)
  case Nil
  then show ?case by (subst parse_loop.simps) auto
next
  case (Cons x xs)
  have x: "mem (a_cp a) = x" "x \<noteq> 0" and tl: "str_at mem (a_cp a + 1) xs" using Cons.prems(1) by auto
  define st1 where "st1 = (if isspace x then CMD_SPACE else CMD_PRINTABLE)"
  define a1 where "a1 = a\<lparr>a_cp := a_cp a + 1, a_cnt := a_cnt a + (if st = CMD_SPACE \<and> \<not> isspace x then 1 else 0)\<rparr>"
  have "parse_loop (Some count_args_cb) st a mem = parse_loop (Some count_args_cb) st1 a1 mem"
    using x Cons.prems(2)
    by (subst parse_loop.simps) (auto simp: parse_step_def call_cb_def count_args_cb_def st1_def a1_def)
  moreover have "new_words st (x # xs) = (if st = CMD_SPACE \<and> \<not> isspace x then [x # takeWhile (\<lambda>c. \<not> isspace c) xs] else []) @ new_words st1 xs"
    using Cons.prems(2) by (auto simp: st1_def)
  moreover have "str_at mem (a_cp a1) xs" "st1 = CMD_PRINTABLE \<or> st1 = CMD_SPACE" using tl by (auto simp: a1_def st1_def)
  ultimately show ?case using Cons.IH [of a1 st1] by (auto simp: a1_def)
qed

lemma split_loop:
  assumes "str_at mem (a_cp a) xs" "st = CMD_PRINTABLE \<or> st = CMD_SPACE"
    and "a_arg a + 8 * (a_cnt a + length (new_words st xs)) \<le> a_cp a" "a_cp a + length xs < 2 ^ 64"
  shows "\<exists>st' mem'. parse_loop (Some split_args_cb) st a mem =
       Some (st', a\<lparr>a_cp := a_cp a + length xs, a_cnt := a_cnt a + length (new_words st xs)\<rparr>, mem') \<and>
     (st' = CMD_PRINTABLE \<or> st' = CMD_SPACE) \<and> str_at mem' (a_cp a) (takeWhile (\<lambda>c. \<not> isspace c) xs) \<and>
     strs_in mem' (a_arg a + 8 * a_cnt a) (a_cp a) (a_cp a + length xs + 1) (new_words st xs) \<and>
     (\<forall>x. (x < a_arg a + 8 * a_cnt a \<or> a_arg a + 8 * (a_cnt a + length (new_words st xs)) \<le> x) \<and> (x < a_cp a \<or> a_cp a + length xs \<le> x) \<longrightarrow>
        mem' x = mem x)"
  using assms
proof (induction xs arbitrary: a st mem)
  case Nil
  then show ?case by (subst parse_loop.simps) auto
next
  case (Cons x xs)
  have x: "mem (a_cp a) = x" "x \<noteq> 0" and tl: "str_at mem (a_cp a + 1) xs" using Cons.prems(1) by auto
  define w where "w \<longleftrightarrow> st = CMD_SPACE \<and> \<not> isspace x"
  define st1 where "st1 = (if isspace x then CMD_SPACE else CMD_PRINTABLE)"
  define a1 where "a1 = a\<lparr>a_cp := a_cp a + 1, a_cnt := a_cnt a + (if w then 1 else 0)\<rparr>"
  define mem1 where "mem1 = (if w then store_ptr mem (a_arg a + 8 * a_cnt a) (a_cp a) else if isspace x then mem(a_cp a := 0) else mem)"
  have run: "parse_loop (Some split_args_cb) st a mem = parse_loop (Some split_args_cb) st1 a1 mem1"
    using x Cons.prems(2)
    by (subst parse_loop.simps) (auto simp: parse_step_def call_cb_def split_args_cb_def st1_def a1_def mem1_def w_def)
  have nw: "new_words st (x # xs) = (if w then [x # takeWhile (\<lambda>c. \<not> isspace c) xs] else []) @ new_words st1 xs"
    using Cons.prems(2) by (auto simp: st1_def w_def)
  have "str_at mem1 (a_cp a1) xs"
    by (rule str_at_cong [of mem]) (use tl Cons.prems(3) nw in \<open>auto simp: a1_def mem1_def store_ptr_def\<close>)
  moreover have "a_arg a1 + 8 * (a_cnt a1 + length (new_words st1 xs)) \<le> a_cp a1" "a_cp a1 + length xs < 2 ^ 64"
    using Cons.prems(3,4) nw by (auto simp: a1_def)
  moreover have "st1 = CMD_PRINTABLE \<or> st1 = CMD_SPACE" by (auto simp: st1_def)
  ultimately obtain st' mem' where r: "parse_loop (Some split_args_cb) st1 a1 mem1 =
       Some (st', a1\<lparr>a_cp := a_cp a1 + length xs, a_cnt := a_cnt a1 + length (new_words st1 xs)\<rparr>, mem')"
     "st' = CMD_PRINTABLE \<or> st' = CMD_SPACE" "str_at mem' (a_cp a1) (takeWhile (\<lambda>c. \<not> isspace c) xs)"
     "strs_in mem' (a_arg a1 + 8 * a_cnt a1) (a_cp a1) (a_cp a1 + length xs + 1) (new_words st1 xs)"
     "\<And>x. (x < a_arg a1 + 8 * a_cnt a1 \<or> a_arg a1 + 8 * (a_cnt a1 + length (new_words st1 xs)) \<le> x) \<Longrightarrow> (x < a_cp a1 \<or> a_cp a1 + length xs \<le> x) \<Longrightarrow>
        mem' x = mem1 x"
    using Cons.IH [of mem1 a1 st1] by blast
  have here: "mem' (a_cp a) = (if isspace x then 0 else x)"
    using r(5) [of "a_cp a"] Cons.prems(3) nw x(1) by (cases w) (auto simp: a1_def mem1_def store_ptr_def w_def)
  have word: "str_at mem' (a_cp a) (takeWhile (\<lambda>c. \<not> isspace c) (x # xs))"
    using here r(3) x(2) by (auto simp: a1_def)
  have slot: "load_ptr mem' (a_arg a + 8 * a_cnt a) = a_cp a" if w
  proof -
    have "load_ptr mem' (a_arg a + 8 * a_cnt a) = load_ptr mem1 (a_arg a + 8 * a_cnt a)"
      by (rule load_ptr_cong, rule r(5)) (use that Cons.prems(3) nw in \<open>auto simp: a1_def\<close>)
    then show ?thesis using that Cons.prems(4) by (simp add: mem1_def)
  qed
  have "length (takeWhile (\<lambda>c. \<not> isspace c) xs) \<le> length xs" by (rule length_takeWhile_le)
  moreover have rest: "strs_in mem' (a_arg a1 + 8 * a_cnt a1) (a_cp a) (a_cp a + length (x # xs) + 1) (new_words st1 xs)"
    by (rule strs_in_mono [OF r(4)]) (simp_all add: a1_def)
  ultimately have strs: "strs_in mem' (a_arg a + 8 * a_cnt a) (a_cp a) (a_cp a + length (x # xs) + 1) (new_words st (x # xs))"
    using nw slot word by (cases w) (auto simp: a1_def w_def add.assoc)
  have "mem' y = mem y" if "y < a_arg a + 8 * a_cnt a \<or> a_arg a + 8 * (a_cnt a + length (new_words st (x # xs))) \<le> y"
    "y < a_cp a \<or> a_cp a + length (x # xs) \<le> y" for y
  proof -
    have "mem' y = mem1 y" by (rule r(5)) (use that nw in \<open>auto simp: a1_def\<close>)
    also have "\<dots> = mem y" using that nw by (auto simp: mem1_def store_ptr_def)
    finally show ?thesis .
  qed
  with run r(1,2) word strs nw show ?case by (auto simp: a1_def)
qed

lemma count_args:
  assumes "str_at mem p ln"
  shows "cmd_words ln = [] \<Longrightarrow> \<exists>a'. parse_arg_string p (Some count_args_cb) a mem = Some (- ENOENT, a', mem)"
    and "cmd_words ln \<noteq> [] \<Longrightarrow> \<exists>a'. parse_arg_string p (Some count_args_cb) a mem = Some (0, a', mem) \<and>
      a_cnt a' = length (cmd_words ln) \<and> a_start a' = p + length (takeWhile isspace ln)"
proof -
  let ?q = "p + length (takeWhile isspace ln)" and ?ys = "dropWhile isspace ln"
  have sk: "skip_spaces mem p = Some ?q" and ys: "str_at mem ?q ?ys" using skip_spaces_eq [OF assms] by auto
  { assume "cmd_words ln = []"
    then have "?ys = []" by (simp add: cmd_words_empty)
    then have "mem ?q = 0" using ys by (metis str_at.simps(1))
    then show "\<exists>a'. parse_arg_string p (Some count_args_cb) a mem = Some (- ENOENT, a', mem)"
      by (simp add: parse_arg_string_def sk) }
  { assume "cmd_words ln \<noteq> []"
    then obtain y zs where yz: "?ys = y # zs" by (cases ?ys) (auto simp: cmd_words_empty)
    then have y: "\<not> isspace y" "mem ?q = y" "y \<noteq> 0" using ys hd_dropWhile [of isspace ln] by auto
    define a1 where "a1 = a\<lparr>a_start := ?q, a_cnt := 1, a_cp := ?q\<rparr>"
    have "str_at mem (a_cp a1) ?ys" using ys by (simp add: a1_def)
    then obtain st where st: "parse_loop (Some count_args_cb) CMD_PRINTABLE a1 mem =
        Some (st, a1\<lparr>a_cp := a_cp a1 + length ?ys, a_cnt := a_cnt a1 + length (new_words CMD_PRINTABLE ?ys)\<rparr>, mem)"
      "st = CMD_PRINTABLE \<or> st = CMD_SPACE" using count_loop by blast
    have "cmd_words ln = cmd_words ?ys" by (simp only: cmd_words_leading)
    also have "\<dots> = (y # takeWhile (\<lambda>c. \<not> isspace c) zs) # new_words CMD_PRINTABLE ?ys" using y(1) by (simp add: yz new_words_def)
    finally have "length (cmd_words ln) = 1 + length (new_words CMD_PRINTABLE ?ys)" by simp
    moreover have "parse_arg_string p (Some count_args_cb) a mem =
        Some (0, a1\<lparr>a_cp := a_cp a1 + length ?ys, a_cnt := a_cnt a1 + length (new_words CMD_PRINTABLE ?ys)\<rparr>, mem)"
      using st y by (auto simp: parse_arg_string_def sk call_cb_def count_args_cb_def a1_def)
    ultimately show "\<exists>a'. parse_arg_string p (Some count_args_cb) a mem = Some (0, a', mem) \<and>
      a_cnt a' = length (cmd_words ln) \<and> a_start a' = ?q" by (simp add: a1_def) }
qed

text \<open>The line begins with a word, whose address is in the first place of the array.\<close>

lemma split_args:
  assumes "str_at mem p (y # ys)" "\<not> isspace y" and "a_arg a + 8 * length (cmd_words (y # ys)) \<le> p" "p + length (y # ys) < 2 ^ 64"
    and "load_ptr mem (a_arg a) = p"
  shows "\<exists>a' mem'. parse_arg_string p (Some split_args_cb) a mem = Some (0, a', mem') \<and> a_cnt a' = length (cmd_words (y # ys)) \<and>
     strs_in mem' (a_arg a) p (p + length (y # ys) + 1) (cmd_words (y # ys)) \<and>
     (\<forall>x. (x < a_arg a \<or> a_arg a + 8 * length (cmd_words (y # ys)) \<le> x) \<and> (x < p \<or> p + length (y # ys) \<le> x) \<longrightarrow> mem' x = mem x)"
proof -
  let ?nw = "new_words CMD_PRINTABLE (y # ys)" and ?w = "y # takeWhile (\<lambda>c. \<not> isspace c) ys"
  define a1 where "a1 = a\<lparr>a_start := p, a_cnt := 1, a_cp := p\<rparr>"
  have ws: "cmd_words (y # ys) = ?w # ?nw" using assms(2) by (simp add: new_words_def)
  have sk: "skip_spaces mem p = Some p" using assms(1,2) by (subst skip_spaces.simps) simp
  have "str_at mem (a_cp a1) (y # ys)" "a_arg a1 + 8 * (a_cnt a1 + length ?nw) \<le> a_cp a1" "a_cp a1 + length (y # ys) < 2 ^ 64"
    using assms(1,3,4) ws by (auto simp: a1_def)
  from split_loop [OF this(1) disjI1 [OF refl] this(2,3)] obtain st mem' where r: "parse_loop (Some split_args_cb) CMD_PRINTABLE a1 mem =
       Some (st, a1\<lparr>a_cp := a_cp a1 + length (y # ys), a_cnt := a_cnt a1 + length ?nw\<rparr>, mem')"
     "st = CMD_PRINTABLE \<or> st = CMD_SPACE" "str_at mem' p (takeWhile (\<lambda>c. \<not> isspace c) (y # ys))"
     "strs_in mem' (a_arg a + 8) p (p + length (y # ys) + 1) ?nw"
     "\<And>x. (x < a_arg a + 8 \<or> a_arg a + 8 * (1 + length ?nw) \<le> x) \<Longrightarrow> (x < p \<or> p + length (y # ys) \<le> x) \<Longrightarrow> mem' x = mem x"
    by (auto simp: a1_def)
  have "load_ptr mem' (a_arg a) = load_ptr mem (a_arg a)"
    by (rule load_ptr_cong, rule r(5)) (use assms(3) ws in auto)
  then have "strs_in mem' (a_arg a) p (p + length (y # ys) + 1) (cmd_words (y # ys))"
    using ws r(3,4) assms(2,5) length_takeWhile_le [of "\<lambda>c. \<not> isspace c" ys] by auto
  moreover have "parse_arg_string p (Some split_args_cb) a mem =
      Some (0, a1\<lparr>a_cp := a_cp a1 + length (y # ys), a_cnt := a_cnt a1 + length ?nw\<rparr>, mem')"
    using r(1,2) assms(1,2) by (auto simp: parse_arg_string_def sk call_cb_def split_args_cb_def a1_def)
  moreover have "mem' x = mem x" if "x < a_arg a \<or> a_arg a + 8 * length (cmd_words (y # ys)) \<le> x" "x < p \<or> p + length (y # ys) \<le> x" for x
    by (rule r(5)) (use that ws in auto)
  ultimately show ?thesis using ws by (auto simp: a1_def)
qed

section \<open>The layout of the stack\<close>

lemma memset_loop_other: "x < d \<or> d + n \<le> x \<Longrightarrow> memset_loop mem d c n x = mem x"
  by (induction n arbitrary: mem d) auto

lemma str_at_end: "str_at mem a xs \<Longrightarrow> mem (a + length xs) = 0"
proof (induction xs arbitrary: a)
  case (Cons x xs)
  then show ?case using Cons.IH [of "a + 1"] by simp
qed simp

lemma env_size_eq:
  "list_all2 (str_at mem) env es \<Longrightarrow> env_size mem env = Some (length (concat es) + length es)"
  by (induction rule: list_all2_induct) (auto simp: strlen_eq)

lemma str_kept:
  "str_at mem a xs \<Longrightarrow> a + length xs < lo \<or> hi \<le> a \<Longrightarrow> (\<And>x. x < lo \<or> hi \<le> x \<Longrightarrow> mem' x = mem x) \<Longrightarrow> str_at mem' a xs"
  by (erule str_at_cong) auto

lemma strs_kept:
  assumes "list_all2 (str_at mem) env es" and "\<And>e x. (e, x) \<in> set (zip env es) \<Longrightarrow> e + length x < lo \<or> hi \<le> e"
    and "\<And>x. x < lo \<or> hi \<le> x \<Longrightarrow> mem' x = mem x"
  shows "list_all2 (str_at mem') env es"
proof -
  have "str_at mem' e x" if "(e, x) \<in> set (zip env es)" "str_at mem e x" for e x
    using that(2) assms(2) [OF that(1)] assms(3) by (rule str_kept)
  then show ?thesis using assms(1) by (auto simp: list_all2_iff)
qed

lemma copied_str:
  assumes "str_at mem src xs" "src + length xs < dest \<or> dest + length xs < src"
  shows "str_at (copied mem dest src (length xs + 1)) dest xs"
proof -
  have "str_at (\<lambda>x. mem (src + (x - dest))) dest xs"
    using assms(1)
  proof (induction xs arbitrary: src dest)
    case (Cons y ys)
    have "str_at (\<lambda>x. mem (src + 1 + (x - (dest + 1)))) (dest + 1) ys" using Cons.IH [of "Suc src" "Suc dest"] Cons.prems by simp
    then have "str_at (\<lambda>x. mem (src + (x - dest))) (dest + 1) ys" by (rule str_at_cong) simp
    then show ?case using Cons.prems by simp
  qed simp
  then show ?thesis by (rule str_at_cong) (simp add: copied_def)
qed

lemma memcpy_copied: "d \<le> s \<or> s + n \<le> d \<Longrightarrow> snd (memcpy mem d s n) = copied mem d s n"
  by (simp add: memcpy_def memcpy_loop_eq)

text \<open>
  The strings of the environment lie outside the part of the stack that is written, \<open>slot\<close> and the strings behind it.
\<close>

lemma copy_envs_ok:
  assumes "list_all2 (str_at mem) env es" and "\<And>e x. (e, x) \<in> set (zip env es) \<Longrightarrow> e + length x < lo \<or> hi \<le> e"
    and "lo \<le> slot" "slot + 8 * length es \<le> envp" "envp + length (concat es) + length es \<le> hi" "hi < 2 ^ 64"
  shows "\<exists>mem'. copy_envs mem envp slot env = Some mem' \<and>
     strs_in mem' slot envp (envp + length (concat es) + length es) es \<and>
     (\<forall>x. (x < slot \<or> slot + 8 * length es \<le> x) \<and> (x < envp \<or> envp + length (concat es) + length es \<le> x) \<longrightarrow> mem' x = mem x)"
  using assms
proof (induction env arbitrary: mem es envp slot)
  case (Cons e env)
  then obtain w ws where es: "es = w # ws" and e: "str_at mem e w" and env: "list_all2 (str_at mem) env ws"
    by (auto simp: list_all2_Cons1)
  have out: "e + length w < lo \<or> hi \<le> e" "\<And>e x. (e, x) \<in> set (zip env ws) \<Longrightarrow> e + length x < lo \<or> hi \<le> e"
    using Cons.prems(2) es by auto
  define m1 where "m1 = copied mem envp e (length w + 1)"
  define m2 where "m2 = store_ptr (m1(envp + length w := 0)) slot envp"
  have far: "envp \<le> e \<or> e + (length w + 1) \<le> envp" "e + length w < envp \<or> envp + length w < e"
    using out(1) Cons.prems(3,4,5) es by auto
  have w1: "str_at m1 envp w" unfolding m1_def by (rule copied_str [OF e far(2)])
  have m2: "m2 x = m1 x" if "x < slot \<or> slot + 8 \<le> x" for x
  proof -
    have "m1 (envp + length w) = 0" using w1 by (rule str_at_end)
    then show ?thesis using that by (auto simp: m2_def store_ptr_def)
  qed
  have m1: "m1 x = mem x" if "x < envp \<or> envp + length w + 1 \<le> x" for x using that by (auto simp: m1_def copied_def)
  have step: "copy_envs mem envp slot (e # env) = copy_envs m2 (envp + (length w + 1)) (slot + 8) env"
    using memcpy_copied [OF far(1), of mem] by (simp add: strlen_eq [OF e] Let_def m2_def m1_def)
  have kept: "m2 x = mem x" if "x < lo \<or> hi \<le> x" for x
    using that m1 [of x] m2 [of x] Cons.prems(3,4,5) es by auto
  have "list_all2 (str_at m2) env ws"
    using env out(2) kept by (rule strs_kept)
  then obtain mem' where r: "copy_envs m2 (envp + (length w + 1)) (slot + 8) env = Some mem'"
    "strs_in mem' (slot + 8) (envp + (length w + 1)) (envp + length (concat es) + length es) ws"
    "\<And>x. (x < slot + 8 \<or> slot + 8 * length es \<le> x) \<Longrightarrow> (x < envp + (length w + 1) \<or> envp + length (concat es) + length es \<le> x) \<Longrightarrow> mem' x = m2 x"
    using Cons.IH [of m2 ws "slot + 8" "envp + (length w + 1)"] out(2) Cons.prems(3-6) es by (auto simp: algebra_simps)
  have ptr: "load_ptr mem' slot = envp"
  proof -
    have "load_ptr mem' slot = load_ptr m2 slot" by (rule load_ptr_cong, rule r(3)) (use Cons.prems(4) es in auto)
    then show ?thesis using Cons.prems(5,6) by (simp add: m2_def)
  qed
  have "str_at mem' envp w" by (rule str_at_cong [OF w1]) (use r(3) m2 Cons.prems(4) es in auto)
  then have "strs_in mem' slot envp (envp + length (concat es) + length es) es"
    using ptr strs_in_mono [OF r(2), of envp] es by auto
  moreover have "mem' x = mem x" if "x < slot \<or> slot + 8 * length es \<le> x" "x < envp \<or> envp + length (concat es) + length es \<le> x" for x
    using that r(3) [of x] m1 [of x] m2 [of x] es by auto
  ultimately show ?case using step r(1) by auto
qed simp

definition stack_need :: "u8 list \<Rightarrow> u8 list list \<Rightarrow> nat" where
  "stack_need ln es = (let l = dropWhile isspace ln in
     length l + 1 + 8 * (length (cmd_words ln) + 1) + (length (concat es) + length es) + 8 * (length es + 1))"

lemma page_next_gt: "n < page_next n" "page_next n \<le> n + 4096"
  using div_mult_mod_eq [of n 4096] mod_less_divisor [of 4096 n] by (auto simp: page_next_def)

text \<open>
  The writes after the stack has been cleared, from the lowest address up: the array of arguments, the array of the
  environment, the line and the strings of the environment.
\<close>

lemma stack_written:
  assumes q: "str_at mem q (y # ys)" "q + length (y # ys) < lo \<or> hi \<le> q" "\<not> isspace y" "ws = cmd_words (y # ys)"
    and env: "list_all2 (str_at mem) env es" "\<And>e x. (e, x) \<in> set (zip env es) \<Longrightarrow> e + length x < lo \<or> hi \<le> e"
    and lay: "lo \<le> argv" "envp = argv + 8 * (length (ws) + 1)" "bufp = envp + 8 * (length es + 1)"
      "strp = bufp + length (y # ys) + 1" "strp + length (concat es) + length es = hi" "hi < 2 ^ 64"
  shows "\<exists>m2. copy_envs mem strp envp env = Some m2 \<and>
     (let m3 = snd (memcpy (store_ptr m2 (envp + 8 * length es) 0) bufp q (length (y # ys) + 1)) in
      \<exists>a' m4. parse_arg_string bufp (Some split_args_cb) (a\<lparr>a_arg := argv\<rparr>) (store_ptr m3 argv bufp) = Some (0, a', m4) \<and>
        a_cnt a' = length (ws) \<and>
        (let m5 = store_ptr m4 (argv + 8 * length (ws)) 0 in
         strs_in m5 argv lo hi (ws) \<and> load_ptr m5 (argv + 8 * length (ws)) = 0 \<and>
         strs_in m5 envp lo hi es \<and> load_ptr m5 (envp + 8 * length es) = 0 \<and> (\<forall>x. x < lo \<or> hi \<le> x \<longrightarrow> m5 x = mem x)))"
proof -
  let ?l = "length (y # ys)" and ?n = "length (ws)" and ?e = "envp + 8 * length es"
  from copy_envs_ok [OF env, of envp strp] lay
  obtain m2 where m2: "copy_envs mem strp envp env = Some m2" "strs_in m2 envp strp hi es"
    "\<And>x. (x < envp \<or> ?e \<le> x) \<Longrightarrow> (x < strp \<or> hi \<le> x) \<Longrightarrow> m2 x = mem x"
    by (auto simp: add.assoc)
  define m2e where "m2e = store_ptr m2 ?e 0"
  have m2e: "m2e x = m2 x" if "x < ?e \<or> ?e + 8 \<le> x" for x using that by (simp add: m2e_def store_ptr_other)
  define m3 where "m3 = snd (memcpy m2e bufp q (?l + 1))"
  have "bufp \<le> q \<or> q + (?l + 1) \<le> bufp" and far: "q + ?l < bufp \<or> bufp + ?l < q" using q(2) lay by auto
  then have m3c: "m3 = copied m2e bufp q (?l + 1)" unfolding m3_def by (intro memcpy_copied)
  have "str_at m2e q (y # ys)"
    by (rule str_kept [OF q(1,2)]) (use m2(3) m2e lay in auto)
  then have line: "str_at m3 bufp (y # ys)" unfolding m3c using far by (rule copied_str)
  have m3: "m3 x = m2e x" if "x < bufp \<or> strp \<le> x" for x using that lay(4) by (auto simp: m3c copied_def)
  define m3a where "m3a = store_ptr m3 argv bufp"
  have m3a: "m3a x = m3 x" if "x < argv \<or> argv + 8 \<le> x" for x using that by (simp add: m3a_def store_ptr_other)
  have "0 < ?n" using q(3,4) by simp
  then have room: "argv + 8 * ?n \<le> bufp" "bufp + ?l < 2 ^ 64" "argv + 8 \<le> envp" using lay by auto
  have "str_at m3a bufp (y # ys)" by (rule str_at_cong [OF line]) (use m3a room lay in auto)
  moreover have "load_ptr m3a argv = bufp" using room(2) by (simp add: m3a_def)
  ultimately obtain a' m4 where m4: "parse_arg_string bufp (Some split_args_cb) (a\<lparr>a_arg := argv\<rparr>) m3a = Some (0, a', m4)"
    "a_cnt a' = ?n" "strs_in m4 argv bufp strp (ws)"
    "\<And>x. (x < argv \<or> argv + 8 * ?n \<le> x) \<Longrightarrow> (x < bufp \<or> bufp + ?l \<le> x) \<Longrightarrow> m4 x = m3a x"
    using split_args [of m3a bufp y ys "a\<lparr>a_arg := argv\<rparr>"] q(3) room lay(4) unfolding q(4) [symmetric] by auto
  define m5 where "m5 = store_ptr m4 (argv + 8 * ?n) 0"
  have m5: "m5 x = m4 x" if "x < argv + 8 * ?n \<or> envp \<le> x" for x using that lay(2) by (auto simp: m5_def store_ptr_def)
  have up: "m5 x = m2e x" if "x < argv \<or> envp \<le> x" "x < bufp \<or> strp \<le> x" for x
    using that m5 [of x] m4(4) [of x] m3a [of x] m3 [of x] lay by auto
  have "strs_in m5 argv bufp strp (ws)" by (rule strs_in_cong [OF m4(3)]) (use m5 lay in auto)
  then have "strs_in m5 argv lo hi (ws)" by (rule strs_in_mono) (use lay in auto)
  moreover have "strs_in m5 envp strp hi es" by (rule strs_in_cong [OF m2(2)]) (use up m2e lay in auto)
  then have "strs_in m5 envp lo hi es" by (rule strs_in_mono) (use lay in auto)
  moreover have "load_ptr m5 ?e = load_ptr m2e ?e" by (rule load_ptr_cong, rule up) (use lay in auto)
  moreover have "m5 x = mem x" if "x < lo \<or> hi \<le> x" for x
    using that up [of x] m2e [of x] m2(3) [of x] lay by auto
  moreover have "load_ptr m5 (argv + 8 * ?n) = 0" "load_ptr m2e ?e = 0" by (simp_all add: m5_def m2e_def)
  ultimately show ?thesis
    unfolding Let_def
    by (intro exI [of _ m2] conjI m2(1), fold m2e_def m3_def m3a_def, intro exI [of _ a'] exI [of _ m4], fold m5_def)
      (simp_all add: m4(1,2))
qed

lemma first_word:
  assumes "str_at mem p ln" "cmd_words ln \<noteq> []"
  obtains y ys where "dropWhile isspace ln = y # ys" "\<not> isspace y" "cmd_words ln = cmd_words (y # ys)"
    "str_at mem (p + length (takeWhile isspace ln)) (y # ys)" "length ln = length (takeWhile isspace ln) + length (y # ys)"
proof -
  obtain y ys where l: "dropWhile isspace ln = y # ys" using assms(2) by (cases "dropWhile isspace ln") (auto simp: cmd_words_empty)
  moreover have "\<not> isspace y" using l hd_dropWhile [of isspace ln] by auto
  moreover have "cmd_words ln = cmd_words (y # ys)" using l by (metis cmd_words_leading)
  moreover have "length ln = length (takeWhile isspace ln) + length (y # ys)" by (metis l length_append takeWhile_dropWhile_id)
  ultimately show thesis using skip_spaces_eq [OF assms(1)] by (metis that)
qed

lemma setup_no_words:
  assumes "str_at mem paramp ln" "cmd_words ln = []"
  shows "setup_process_stack alloc mem paramp env = Some (- ENOENT, None, mem)"
  using count_args(1) [OF assms, of "\<lparr>a_cnt = 0, a_start = 0, a_cp = 0, a_arg = 0\<rparr>"] by (auto simp: setup_process_stack_def)

text \<open>Claim C25. 
  The stack of a new process: when the command line has a word and the strings and arrays fit into one page, \<open>setup_process_stack\<close> returns the number of its words and
  two arrays, of pointers to the words and to the strings of the environment, each string ended by a zero and each array by
  a null pointer, all inside the region of the stack; memory outside of it is not changed.  (The strings it is given lie
  outside the region, as kernel memory does.)
\<close>

theorem setup_process_stack_spec:
  assumes "str_at mem paramp ln" "cmd_words ln \<noteq> []" "list_all2 (str_at mem) env es"
    and "alloc siz = (0, ustack)" "siz = page_next (stack_need ln es)" "ustack + siz < 2 ^ 64" "siz \<le> 4096"
    and "paramp + length ln < ustack \<or> ustack + siz \<le> paramp"
    and "\<And>e x. (e, x) \<in> set (zip env es) \<Longrightarrow> e + length x < ustack \<or> ustack + siz \<le> e"
  shows "\<exists>argv envp mem'. setup_process_stack alloc mem paramp env = Some (0, Some (length (cmd_words ln), argv, envp), mem') \<and>
     ustack \<le> argv \<and> argv + 8 * (length (cmd_words ln) + 1) = envp \<and> envp + 8 * (length es + 1) \<le> ustack + siz \<and>
     strs_in mem' argv ustack (ustack + siz) (cmd_words ln) \<and> load_ptr mem' (argv + 8 * length (cmd_words ln)) = 0 \<and>
     strs_in mem' envp ustack (ustack + siz) es \<and> load_ptr mem' (envp + 8 * length es) = 0 \<and>
     (\<forall>x. x < ustack \<or> ustack + siz \<le> x \<longrightarrow> mem' x = mem x)"
proof -
  let ?ws = "cmd_words ln" and ?q = "paramp + length (takeWhile isspace ln)"
  let ?ne = "length (concat es) + length es" and ?top = "ustack + siz"
  from count_args(2) [OF assms(1,2)] obtain a where a: "parse_arg_string paramp (Some count_args_cb) \<lparr>a_cnt = 0, a_start = 0, a_cp = 0, a_arg = 0\<rparr> mem = Some (0, a, mem)"
    "a_cnt a = length ?ws" "a_start a = ?q" by blast
  obtain y ys where l: "dropWhile isspace ln = y # ys" and y: "\<not> isspace y" and ws: "?ws = cmd_words (y # ys)"
    and q1: "str_at mem ?q (y # ys)" "length ln = length (takeWhile isspace ln) + length (y # ys)" by (rule first_word [OF assms(1,2)])
  then have q: "str_at mem ?q (y # ys)" "?q + length (y # ys) < ustack \<or> ?top \<le> ?q" using assms(8) by auto
  define need where "need = length (y # ys) + 1 + 8 * (length ?ws + 1) + ?ne + 8 * (length es + 1)"
  have sz: "need < siz" "siz = page_next need"
    using page_next_gt(1) assms(5) l by (auto simp: need_def stack_need_def Let_def)
  define envp where "envp = ?top - ?ne - (length (y # ys) + 1) - 8 * (length es + 1)"
  define bufp where "bufp = ?top - (?ne + length (y # ys) + 1)"
  define argv where "argv = ?top - ?ne - (length (y # ys) + 1) - 8 * (length es + 1) - 8 * (length ?ws + 1)"
  have lay: "ustack \<le> argv" "envp = argv + 8 * (length ?ws + 1)" "bufp = envp + 8 * (length es + 1)" "?top - ?ne = bufp + length (y # ys) + 1"
      "?top - ?ne + length (concat es) + length es = ?top"
    using sz(1) by (auto simp: envp_def bufp_def argv_def need_def)
  define m1 where "m1 = snd (memset mem ustack 0 siz)"
  have m1: "m1 x = mem x" if "x < ustack \<or> ?top \<le> x" for x
    using that by (simp add: m1_def memset_def memset_loop_other)
  have "list_all2 (str_at m1) env es"
    using assms(3,9) m1 by (rule strs_kept)
  from stack_written [OF str_kept [OF q m1] q(2) y ws this assms(9) lay(1) lay(2,3,4,5) assms(6), of a]
  obtain m2 a' m4 where w: "copy_envs m1 (?top - ?ne) envp env = Some m2"
    "parse_arg_string bufp (Some split_args_cb) (a\<lparr>a_arg := argv\<rparr>) (store_ptr (snd (memcpy (store_ptr m2 (envp + 8 * length es) 0) bufp ?q (length (y # ys) + 1))) argv bufp) = Some (0, a', m4)"
    "a_cnt a' = length ?ws"
    and fin: "strs_in (store_ptr m4 (argv + 8 * length ?ws) 0) argv ustack ?top ?ws" "load_ptr (store_ptr m4 (argv + 8 * length ?ws) 0) (argv + 8 * length ?ws) = 0"
      "strs_in (store_ptr m4 (argv + 8 * length ?ws) 0) envp ustack ?top es" "load_ptr (store_ptr m4 (argv + 8 * length ?ws) 0) (envp + 8 * length es) = 0"
      "\<forall>x. x < ustack \<or> ?top \<le> x \<longrightarrow> store_ptr m4 (argv + 8 * length ?ws) 0 x = m1 x"
    unfolding Let_def by blast
  have st: "strlen mem ?q = Some (length (y # ys))" "env_size mem env = Some ?ne" "length env = length es"
    using strlen_eq [OF q(1)] env_size_eq [OF assms(3)] list_all2_lengthD [OF assms(3)] by auto
  have pn: "page_next (length (y # ys) + 1 + 8 * (length ?ws + 1) + ?ne + 8 * (length es + 1)) = siz"
    using sz(2) by (simp only: need_def)
  have one: "(4096 < siz) = False" using assms(7) by simp
  have argv: "envp - 8 * (length ?ws + 1) = argv" by (simp add: envp_def argv_def)
  have "setup_process_stack alloc mem paramp env = Some (0, Some (length ?ws, argv, envp), store_ptr m4 (argv + 8 * length ?ws) 0)"
    by (simp only: setup_process_stack_def a st pn one assms(4) bind.bind_lunit Let_def prod.case kassert_simps argv w refl if_False if_True
      not_True_eq_False add_diff_cancel_right' simp_thms flip: m1_def envp_def bufp_def)
  moreover have "envp + 8 * (length es + 1) \<le> ?top" using lay by simp
  ultimately show ?thesis using lay(1,2) fin m1 by (intro exI conjI) (assumption | simp)+
qed

text \<open>A command line and an environment that need more than a page stop the kernel.\<close>

lemma large_command_line:
  assumes "str_at mem paramp ln" "cmd_words ln \<noteq> []" "list_all2 (str_at mem) env es" and "4096 \<le> stack_need ln es"
  shows "setup_process_stack alloc mem paramp env = None"
proof -
  let ?q = "paramp + length (takeWhile isspace ln)"
  from count_args(2) [OF assms(1,2)] obtain a where a: "parse_arg_string paramp (Some count_args_cb) \<lparr>a_cnt = 0, a_start = 0, a_cp = 0, a_arg = 0\<rparr> mem = Some (0, a, mem)"
    "a_cnt a = length (cmd_words ln)" "a_start a = ?q" by blast
  obtain y ys where l: "dropWhile isspace ln = y # ys" "str_at mem ?q (y # ys)" by (rule first_word [OF assms(1,2)])
  have "strlen mem ?q = Some (length (y # ys))" "env_size mem env = Some (length (concat es) + length es)" "length env = length es"
    using strlen_eq [OF l(2)] env_size_eq [OF assms(3)] list_all2_lengthD [OF assms(3)] by auto
  moreover define need where "need = length (y # ys) + 1 + 8 * (length (cmd_words ln) + 1) + (length (concat es) + length es) + 8 * (length es + 1)"
  moreover have "4096 < page_next need" using page_next_gt(1) [of need] assms(4) l(1) by (simp add: stack_need_def need_def)
  ultimately show ?thesis
    by (cases "alloc (page_next need)") (simp only: setup_process_stack_def a Let_def bind.bind_lunit prod.case if_False if_True refl not_True_eq_False simp_thms
      kassert_bind if_cancel flip: need_def)
qed

text \<open>The line ``a b'' and the environment ``E''.\<close>

definition some_line :: memory where
  "some_line = (\<lambda>_. 0)(0 := 97, 1 := 32, 2 := 98, 10 := 69)"

theorem setup_process_stack_spec_witness:
  "\<exists>argv envp mem'. setup_process_stack (\<lambda>_. (0, 4096)) some_line 0 [10] = Some (0, Some (2, argv, envp), mem') \<and>
     strs_in mem' argv 4096 8192 [[97], [98]] \<and> strs_in mem' envp 4096 8192 [[69]] \<and> mem' 0 = 97"
proof -
  have ws: "cmd_words [97, 32, 98] = [[97], [98]]" by (simp add: isspace_def)
  have pn: "page_next (stack_need [97, 32, 98] [[69]]) = 4096" unfolding stack_need_def ws by (simp add: isspace_def page_next_def)
  have l: "str_at some_line 0 [97, 32, 98]" "list_all2 (str_at some_line) [10] [[69]]" "cmd_words [97, 32, 98] \<noteq> []" "length [[97], [98]] = 2"
    by (simp_all add: some_line_def isspace_def)
  have e: "e + length x < 4096 \<or> 4096 + 4096 \<le> e" if "(e, x) \<in> set (zip [10] [[69 :: u8]])" for e x using that by simp
  have "(4096 :: nat) + 4096 < 2 ^ 64" "4096 \<le> (4096 :: nat)" "0 + length [97 :: u8, 32, 98] < 4096 \<or> 4096 + 4096 \<le> (0 :: nat)" by simp_all
  from setup_process_stack_spec [where alloc = "\<lambda>_. (0, 4096)", OF l(1,3,2) refl pn [symmetric] this e] obtain argv envp mem' where
    "setup_process_stack (\<lambda>_. (0, 4096)) some_line 0 [10] = Some (0, Some (2, argv, envp), mem')"
    "strs_in mem' argv 4096 (4096 + 4096) [[97], [98]]" "strs_in mem' envp 4096 (4096 + 4096) [[69]]"
    "\<forall>x. x < 4096 \<or> 4096 + 4096 \<le> x \<longrightarrow> mem' x = some_line x"
    unfolding ws l(4) by blast
  then show ?thesis by (intro exI [of _ argv] exI [of _ envp] exI [of _ mem']) (simp add: some_line_def)
qed

end
