(* ===== verification/Name_Service.thy ===== *)
theory Name_Service
  imports Kstring
begin

text \<open>
  The kernel name service, \<^verbatim>\<open>src/kern/kname-service.c\<close>: a thread that keeps a database of services by name and answers
  the messages of other threads, and the functions by which kernel threads ask it.

  A name in the database is its characters without the closing null; \<open>strcmp\<close> of two such strings is \<open>str_diff\<close>, as
  theory \<open>Kstring\<close> shows.  The red-black tree of services is the sequence of its nodes in order.  The receiving and
  sending of messages is in theory \<open>Lpc\<close>: here a request is what the server has received, and its reply is what it sends.
  The thread lock and the lock of the database are held by the server throughout a request.  The copy of the name out of
  the client's address space is an argument, \<open>copy_in\<close>, which gives the result of \<open>vm_copy_in\<close> and the bytes it has written.
\<close>

section \<open>State\<close>

abbreviation (input) KSERV_NAME_LEN :: nat where "KSERV_NAME_LEN \<equiv> 128"
abbreviation (input) KSERV_REG_SERVICE :: int where "KSERV_REG_SERVICE \<equiv> 0"
abbreviation (input) KSERV_UNREG_SERVICE :: int where "KSERV_UNREG_SERVICE \<equiv> 1"
abbreviation (input) KSERV_LOOKUP :: int where "KSERV_LOOKUP \<equiv> 2"
abbreviation (input) ID_RESV_IDLE :: u64 where "ID_RESV_IDLE \<equiv> 0"
abbreviation (input) ID_RESV_INVALID :: u64 where "ID_RESV_INVALID \<equiv> - 1"
abbreviation (input) SIZEOF_KERN_SERVICE :: u64 where "SIZEOF_KERN_SERVICE \<equiv> 168"

record kern_service =
  serv_name :: "u8 list"
  serv_id :: u64

record kname_service_msg =
  kn_req :: int
  kn_id :: u64
  kn_name :: nat
  kn_len :: u64
  kn_rc :: int

text \<open>The database and the buffer \<open>name\<close> of the server, which keeps its bytes from one request to the next.\<close>

record name_server =
  services :: "kern_service list"
  name_buf :: "u8 list"

section \<open>The database\<close>

definition kserv_cmp :: "kern_service \<Rightarrow> kern_service \<Rightarrow> int" where
  "kserv_cmp a b = str_diff (serv_name a) (serv_name b)"

fun kserv_find :: "kern_service \<Rightarrow> kern_service list \<Rightarrow> kern_service option" where
  "kserv_find e [] = None"
| "kserv_find e (x # xs) = (if kserv_cmp e x = 0 then Some x else kserv_find e xs)"

fun kserv_insert :: "kern_service \<Rightarrow> kern_service list \<Rightarrow> kern_service option \<times> kern_service list" where
  "kserv_insert e [] = (None, [e])"
| "kserv_insert e (x # xs) =
     (let c = kserv_cmp e x in
      if c < 0 then (None, e # x # xs)
      else if c = 0 then (Some x, x # xs)
      else let (res, ys) = kserv_insert e xs in (res, x # ys))"

text \<open>The characters of a string in a buffer; a name for the search is cut to the size of the field.\<close>

definition c_string :: "u8 list \<Rightarrow> u8 list" where
  "c_string xs = takeWhile (\<lambda>c. c \<noteq> 0) xs"

definition lookup_endpoint_by_name :: "kern_service list \<Rightarrow> u8 list \<Rightarrow> u64" where
  "lookup_endpoint_by_name db nm =
     (case kserv_find \<lparr>serv_name = take (KSERV_NAME_LEN - 1) nm, serv_id = 0\<rparr> db of
        None \<Rightarrow> ID_RESV_INVALID
      | Some res \<Rightarrow> serv_id res)"

section \<open>Requests\<close>

text \<open>Each handler gives the message it sends back.\<close>

definition handle_lookup_msg :: "kern_service list \<Rightarrow> u64 \<Rightarrow> kname_service_msg \<Rightarrow> u8 list \<Rightarrow> kname_service_msg option" where
  "handle_lookup_msg db src knmsg key =
     (if src = ID_RESV_IDLE then None
      else let serv_id = lookup_endpoint_by_name db key in
      if serv_id = ID_RESV_INVALID then Some (knmsg\<lparr>kn_rc := - ENOENT\<rparr>)
      else Some (knmsg\<lparr>kn_rc := 0, kn_id := serv_id\<rparr>))"

definition handle_register_msg :: "(u64 \<Rightarrow> bool) \<Rightarrow> kern_service list \<Rightarrow> u64 \<Rightarrow> kname_service_msg \<Rightarrow> u8 list \<Rightarrow> u64 \<Rightarrow>
    (kname_service_msg \<times> kern_service list) option" where
  "handle_register_msg kmalloc db src knmsg key i =
     (if src = ID_RESV_IDLE \<or> i = ID_RESV_IDLE then None
      else if i = ID_RESV_INVALID then Some (knmsg\<lparr>kn_rc := - EINVAL\<rparr>, db)
      else if \<not> kmalloc SIZEOF_KERN_SERVICE then Some (knmsg\<lparr>kn_rc := - ENOMEM\<rparr>, db)
      else case kserv_insert \<lparr>serv_name = key, serv_id = i\<rparr> db of
          (Some _, db) \<Rightarrow> Some (knmsg\<lparr>kn_rc := - EBUSY\<rparr>, db)
        | (None, db) \<Rightarrow> Some (knmsg, db))"

definition handle_unregister_msg :: "kern_service list \<Rightarrow> u64 \<Rightarrow> kname_service_msg \<Rightarrow> u8 list \<Rightarrow>
    (kname_service_msg \<times> kern_service list) option" where
  "handle_unregister_msg db src knmsg key =
     (if src = ID_RESV_IDLE then None
      else case kserv_find \<lparr>serv_name = key, serv_id = 0\<rparr> db of
          None \<Rightarrow> Some (knmsg\<lparr>kn_rc := - ENOENT\<rparr>, db)
        | Some res \<Rightarrow> Some (knmsg, remove1 res db))"

text \<open>
  One request of \<open>src\<close>; \<open>found\<close> says whether the sender still exists.  No reply is sent to a thread that is gone.  The
  result of the copy is compared with \<open>-EFAULT\<close> only.
\<close>

definition name_len :: "kname_service_msg \<Rightarrow> nat" where
  "name_len knmsg = (if of_nat KSERV_NAME_LEN > kn_len knmsg then unat (kn_len knmsg) else KSERV_NAME_LEN - 1)"

definition kname_service :: "(u64 \<Rightarrow> bool) \<Rightarrow> (nat \<Rightarrow> nat \<Rightarrow> int \<times> u8 list) \<Rightarrow> bool \<Rightarrow> name_server \<Rightarrow> u64 \<Rightarrow> kname_service_msg \<Rightarrow>
    (kname_service_msg option \<times> name_server) option" where
  "kname_service kmalloc copy_in found s src knmsg =
     (if \<not> found then Some (None, s)
      else
        let len = name_len knmsg;
            (rc, bytes) = copy_in (kn_name knmsg) len;
            buf = bytes @ drop (length bytes) (name_buf s)
        in
        if rc = - EFAULT then Some (Some (knmsg\<lparr>kn_rc := rc\<rparr>), s\<lparr>name_buf := buf\<rparr>)
        else
          let buf = buf[len := 0];
              s = s\<lparr>name_buf := buf\<rparr>;
              key = c_string buf
          in
          if kn_req knmsg = KSERV_REG_SERVICE then do {
            let knmsg = (if kn_id knmsg = ID_RESV_IDLE then knmsg\<lparr>kn_id := src\<rparr> else knmsg);
            (m, db) \<leftarrow> handle_register_msg kmalloc (services s) src knmsg key (kn_id knmsg);
            Some (Some m, s\<lparr>services := db\<rparr>)
          } else if kn_req knmsg = KSERV_UNREG_SERVICE then do {
            (m, db) \<leftarrow> handle_unregister_msg (services s) src knmsg key;
            Some (Some m, s\<lparr>services := db\<rparr>)
          } else if kn_req knmsg = KSERV_LOOKUP then do {
            m \<leftarrow> handle_lookup_msg (services s) src knmsg key;
            Some (Some m, s)
          } else Some (Some (knmsg\<lparr>kn_rc := - EINVAL\<rparr>), s))"

section \<open>Clients\<close>

text \<open>
  \<open>call\<close> is \<open>lpc_send_and_reply\<close> to the name server: its result, the reply and the state behind it.  The name is the
  address of a string in \<open>mem\<close>, \<open>None\<close> the null pointer, and \<open>tid\<close> the running thread.
\<close>

definition kns_message :: "memory \<Rightarrow> int \<Rightarrow> nat \<Rightarrow> u64 \<Rightarrow> kname_service_msg option" where
  "kns_message mem req name i = do {
     len \<leftarrow> strlen mem name;
     Some \<lparr>kn_req = req, kn_id = i, kn_name = name, kn_len = of_nat len, kn_rc = 0\<rparr>
   }"

definition kns_register_kernel_service :: "('s \<Rightarrow> kname_service_msg \<Rightarrow> (int \<times> kname_service_msg \<times> 's) option) \<Rightarrow> memory \<Rightarrow> u64 \<Rightarrow> 's \<Rightarrow> nat option \<Rightarrow>
    (int \<times> 's) option" where
  "kns_register_kernel_service call mem tid s name = (case name of
      None \<Rightarrow> Some (- EFAULT, s)
    | Some name \<Rightarrow> do {
        msg \<leftarrow> kns_message mem KSERV_REG_SERVICE name tid;
        (rc, msg, s) \<leftarrow> call s msg;
        kassert (rc = 0);
        Some (kn_rc msg, s)
      })"

definition kns_unregister_kernel_service :: "('s \<Rightarrow> kname_service_msg \<Rightarrow> (int \<times> kname_service_msg \<times> 's) option) \<Rightarrow> memory \<Rightarrow> u64 \<Rightarrow> 's \<Rightarrow> nat option \<Rightarrow>
    (int \<times> 's) option" where
  "kns_unregister_kernel_service call mem tid s name = (case name of
      None \<Rightarrow> Some (- EFAULT, s)
    | Some name \<Rightarrow> do {
        msg \<leftarrow> kns_message mem KSERV_UNREG_SERVICE name tid;
        (rc, msg, s) \<leftarrow> call s msg;
        kassert (rc = 0);
        Some (kn_rc msg, s)
      })"

text \<open>The second component is what is stored through \<open>ep\<close>.\<close>

definition kns_lookup_service_by_name :: "('s \<Rightarrow> kname_service_msg \<Rightarrow> (int \<times> kname_service_msg \<times> 's) option) \<Rightarrow> memory \<Rightarrow> 's \<Rightarrow> nat option \<Rightarrow>
    (int \<times> u64 option \<times> 's) option" where
  "kns_lookup_service_by_name call mem s name = (case name of
      None \<Rightarrow> Some (- EFAULT, None, s)
    | Some name \<Rightarrow> do {
        msg \<leftarrow> kns_message mem KSERV_LOOKUP name 0;
        (rc, msg, s) \<leftarrow> call s msg;
        kassert (rc = 0);
        if kn_rc msg \<noteq> 0 then Some (kn_rc msg, None, s) else Some (0, Some (kn_id msg), s)
      })"

section \<open>The order of names\<close>

lemma str_diff_anti: "str_diff ys xs = - str_diff xs ys"
  by (induction xs ys rule: str_diff.induct) auto

lemma str_diff_trans:
  "0 \<notin> set xs \<Longrightarrow> 0 \<notin> set ys \<Longrightarrow> 0 \<notin> set zs \<Longrightarrow> str_diff xs ys < 0 \<Longrightarrow> str_diff ys zs < 0 \<Longrightarrow> str_diff xs zs < 0"
proof (induction xs ys arbitrary: zs rule: str_diff.induct)
  case (2 y ys)
  then show ?case by (cases zs) (auto split: if_splits)
next
  case (3 x xs)
  then show ?case by (cases zs) (auto split: if_splits)
next
  case (4 x xs y ys)
  then show ?case by (cases zs) (auto split: if_splits)
qed simp

section \<open>The database is a map\<close>

definition db_ok :: "kern_service list \<Rightarrow> bool" where
  "db_ok db \<longleftrightarrow> sorted_wrt (\<lambda>a b. kserv_cmp a b < 0) db \<and> (\<forall>e \<in> set db. 0 \<notin> set (serv_name e) \<and> serv_id e \<noteq> ID_RESV_INVALID)"

definition service_map :: "kern_service list \<Rightarrow> u8 list \<Rightarrow> u64 option" where
  "service_map db = map_of (map (\<lambda>e. (serv_name e, serv_id e)) db)"

lemma service_map_simps [simp]:
  "service_map [] = Map.empty" "service_map (x # xs) = (service_map xs)(serv_name x \<mapsto> serv_id x)"
  by (simp_all add: service_map_def)

lemma db_okD:
  assumes "db_ok (x # xs)"
  shows "db_ok xs" "0 \<notin> set (serv_name x)" "serv_id x \<noteq> ID_RESV_INVALID" "\<And>y. y \<in> set xs \<Longrightarrow> kserv_cmp x y < 0 \<and> serv_name y \<noteq> serv_name x"
proof -
  show "db_ok xs" "0 \<notin> set (serv_name x)" "serv_id x \<noteq> ID_RESV_INVALID" using assms by (simp_all add: db_ok_def)
  fix y assume "y \<in> set xs"
  then have "kserv_cmp x y < 0" using assms by (simp add: db_ok_def)
  moreover from this have "serv_name y \<noteq> serv_name x" using str_diff_anti [of "serv_name x" "serv_name x"] by (auto simp: kserv_cmp_def)
  ultimately show "kserv_cmp x y < 0 \<and> serv_name y \<noteq> serv_name x" by simp
qed

lemma kserv_cmp_0: "0 \<notin> set (serv_name a) \<Longrightarrow> 0 \<notin> set (serv_name b) \<Longrightarrow> kserv_cmp a b = 0 \<longleftrightarrow> serv_name a = serv_name b"
  unfolding kserv_cmp_def by (rule str_diff_0)

lemma kserv_find_spec:
  assumes "db_ok db" "0 \<notin> set (serv_name e)"
  shows "case kserv_find e db of
      None \<Rightarrow> service_map db (serv_name e) = None
    | Some x \<Rightarrow> x \<in> set db \<and> serv_name x = serv_name e \<and> service_map db (serv_name e) = Some (serv_id x)"
  using assms
proof (induction db)
  case (Cons x xs)
  then show ?case using db_okD [OF Cons.prems(1)] kserv_cmp_0 [of e x] by (auto split: option.splits)
qed simp

lemma kserv_insert_spec:
  assumes "db_ok db" "0 \<notin> set (serv_name e)" "serv_id e \<noteq> ID_RESV_INVALID"
  shows "case kserv_insert e db of
      (Some x, db') \<Rightarrow> db' = db \<and> service_map db (serv_name e) = Some (serv_id x)
    | (None, db') \<Rightarrow> db_ok db' \<and> set db' = insert e (set db) \<and> service_map db (serv_name e) = None \<and> service_map db' = (service_map db)(serv_name e \<mapsto> serv_id e)"
  using assms
proof (induction db)
  case Nil
  then show ?case by (simp add: db_ok_def)
next
  case (Cons x xs)
  note D = db_okD [OF Cons.prems(1)]
  have eq: "kserv_cmp e x = 0 \<longleftrightarrow> serv_name e = serv_name x" by (rule kserv_cmp_0 [OF Cons.prems(2) D(2)])
  consider "kserv_cmp e x < 0" | "kserv_cmp e x = 0" | "kserv_cmp e x > 0" by linarith
  then show ?case
  proof cases
    case 1
    have lt: "kserv_cmp e y < 0" if "y \<in> set (x # xs)" for y
      using that 1 D(4) str_diff_trans [OF Cons.prems(2) D(2), of "serv_name y"] db_okD(1) [OF Cons.prems(1)] by (auto simp: kserv_cmp_def db_ok_def)
    have "service_map (x # xs) (serv_name e) = None"
    proof -
      have "serv_name e \<noteq> serv_name y" if "y \<in> set (x # xs)" for y using lt [OF that] str_diff_anti [of "serv_name e" "serv_name e"] by (auto simp: kserv_cmp_def)
      then have "serv_name e \<notin> serv_name ` set (x # xs)" by blast
      then show ?thesis by (simp add: service_map_def map_of_eq_None_iff image_image)
    qed
    moreover have "db_ok (e # x # xs)" using Cons.prems lt by (simp add: db_ok_def)
    ultimately show ?thesis using 1 by simp
  next
    case 2
    then show ?thesis using eq by simp
  next
    case 3
    have gt: "kserv_cmp x e < 0" using 3 str_diff_anti [of "serv_name x" "serv_name e"] by (simp add: kserv_cmp_def)
    have ne: "serv_name e \<noteq> serv_name x" using 3 eq by auto
    obtain r ys where i: "kserv_insert e xs = (r, ys)" by (cases "kserv_insert e xs")
    show ?thesis
    proof (cases r)
      case None
      then have y: "db_ok ys" "set ys = insert e (set xs)" "service_map xs (serv_name e) = None" "service_map ys = (service_map xs)(serv_name e \<mapsto> serv_id e)"
        using Cons.IH [OF D(1) Cons.prems(2,3)] i by simp_all
      have "db_ok (x # ys)" using y(1,2) D(2-4) gt by (auto simp: db_ok_def)
      then show ?thesis using 3 i None y ne by (auto simp: Let_def fun_upd_twist)
    next
      case (Some z)
      then show ?thesis using Cons.IH [OF D(1) Cons.prems(2,3)] 3 i ne by (simp add: Let_def)
    qed
  qed
qed

lemma kserv_remove_spec:
  assumes "db_ok db" "x \<in> set db"
  shows "db_ok (remove1 x db) \<and> service_map (remove1 x db) = (service_map db)(serv_name x := None)"
  using assms
proof (induction db)
  case (Cons y ys)
  note D = db_okD [OF Cons.prems(1)]
  show ?case
  proof (cases "x = y")
    case True
    have "service_map ys (serv_name y) = None" using D(4) by (fastforce simp: service_map_def map_of_eq_None_iff)
    then show ?thesis using True D(1) by (auto simp: fun_eq_iff)
  next
    case False
    then have x: "x \<in> set ys" "serv_name x \<noteq> serv_name y" using Cons.prems(2) D(4) by auto
    have "db_ok (y # remove1 x ys)" using Cons.IH [OF D(1) x(1)] D set_remove1_subset [of x ys] by (auto simp: db_ok_def)
    then show ?thesis using Cons.IH [OF D(1) x(1)] x False by (auto simp: fun_eq_iff)
  qed
qed simp

section \<open>What a request does\<close>

text \<open>
  The name service as a map from names to endpoints: the reply and the new map.  A successful registration or removal
  leaves the result in the message as the client has sent it.
\<close>

definition serve :: "bool \<Rightarrow> (u8 list \<Rightarrow> u64 option) \<Rightarrow> u64 \<Rightarrow> kname_service_msg \<Rightarrow> u8 list \<Rightarrow> kname_service_msg \<times> (u8 list \<Rightarrow> u64 option)" where
  "serve room m src msg nm =
     (if kn_req msg = KSERV_REG_SERVICE then
        let msg = (if kn_id msg = ID_RESV_IDLE then msg\<lparr>kn_id := src\<rparr> else msg) in
        if kn_id msg = ID_RESV_INVALID then (msg\<lparr>kn_rc := - EINVAL\<rparr>, m)
        else if \<not> room then (msg\<lparr>kn_rc := - ENOMEM\<rparr>, m)
        else if m nm \<noteq> None then (msg\<lparr>kn_rc := - EBUSY\<rparr>, m)
        else (msg, m(nm \<mapsto> kn_id msg))
      else if kn_req msg = KSERV_UNREG_SERVICE then
        (if m nm = None then (msg\<lparr>kn_rc := - ENOENT\<rparr>, m) else (msg, m(nm := None)))
      else if kn_req msg = KSERV_LOOKUP then
        (case m nm of None \<Rightarrow> (msg\<lparr>kn_rc := - ENOENT\<rparr>, m) | Some i \<Rightarrow> (msg\<lparr>kn_rc := 0, kn_id := i\<rparr>, m))
      else (msg\<lparr>kn_rc := - EINVAL\<rparr>, m))"

definition server_ok :: "name_server \<Rightarrow> bool" where
  "server_ok s \<longleftrightarrow> db_ok (services s) \<and> length (name_buf s) = KSERV_NAME_LEN"

lemma name_len_lt: "name_len msg < KSERV_NAME_LEN"
  by (simp add: name_len_def word_less_nat_alt)

lemma c_string_short:
  assumes "length bytes = n" "n < length buf"
  shows "c_string ((bytes @ drop n buf)[n := 0]) = c_string bytes"
proof -
  obtain b bs where "drop n buf = b # bs" using assms(2) by (cases "drop n buf") auto
  then have "(bytes @ drop n buf)[n := 0] = bytes @ 0 # bs" using assms(1) by (simp add: list_update_append)
  moreover have "takeWhile (\<lambda>c. c \<noteq> 0) (bytes @ 0 # bs) = takeWhile (\<lambda>c. c \<noteq> 0) bytes" by (rule takeWhile_tail) simp
  ultimately show ?thesis by (simp add: c_string_def)
qed

lemma c_string_nonzero: "0 \<notin> set (c_string xs)"
  by (auto simp: c_string_def dest: set_takeWhileD)

lemma name_service_step:
  assumes s: "server_ok s" and src: "src \<noteq> ID_RESV_IDLE" and copy: "copy_in (kn_name msg) (name_len msg) = (int (name_len msg), bytes)" "length bytes = name_len msg"
  shows "\<exists>s'. kname_service kmalloc copy_in True s src msg = Some (Some (fst (serve (kmalloc SIZEOF_KERN_SERVICE) (service_map (services s)) src msg (c_string bytes))), s') \<and>
    server_ok s' \<and> service_map (services s') = snd (serve (kmalloc SIZEOF_KERN_SERVICE) (service_map (services s)) src msg (c_string bytes))"
proof -
  define key where "key = c_string bytes"
  define buf where "buf = (bytes @ drop (name_len msg) (name_buf s))[name_len msg := 0]"
  have db: "db_ok (services s)" "length (name_buf s) = 128" using s by (simp_all add: server_ok_def)
  have n: "name_len msg < 128" by (rule name_len_lt)
  have k: "c_string buf = key" unfolding buf_def key_def using c_string_short [OF copy(2), of "name_buf s"] n db(2) by simp
  have lb: "length buf = 128" using n db(2) copy(2) by (simp add: buf_def)
  have z: "0 \<notin> set key" unfolding key_def by (rule c_string_nonzero)
  have kl: "take 127 key = key" using length_takeWhile_le [of "\<lambda>c. c \<noteq> 0" bytes] n unfolding copy(2) by (simp add: key_def c_string_def)
  note F = kserv_find_spec [OF db(1), of "\<lparr>serv_name = key, serv_id = 0\<rparr>", simplified, OF z]
  have step: "kname_service kmalloc copy_in True s src msg =
    (if kn_req msg = KSERV_REG_SERVICE then do {
       let m = (if kn_id msg = ID_RESV_IDLE then msg\<lparr>kn_id := src\<rparr> else msg);
       (m, db) \<leftarrow> handle_register_msg kmalloc (services s) src m key (kn_id m);
       Some (Some m, s\<lparr>name_buf := buf, services := db\<rparr>)
     } else if kn_req msg = KSERV_UNREG_SERVICE then do {
       (m, db) \<leftarrow> handle_unregister_msg (services s) src msg key;
       Some (Some m, s\<lparr>name_buf := buf, services := db\<rparr>)
     } else if kn_req msg = KSERV_LOOKUP then do {
       m \<leftarrow> handle_lookup_msg (services s) src msg key;
       Some (Some m, s\<lparr>name_buf := buf\<rparr>)
     } else Some (Some (msg\<lparr>kn_rc := - EINVAL\<rparr>), s\<lparr>name_buf := buf\<rparr>))"
    by (simp add: kname_service_def copy Let_def buf_def [symmetric] k)
  consider "kn_req msg = KSERV_REG_SERVICE" | "kn_req msg = KSERV_UNREG_SERVICE" | "kn_req msg = KSERV_LOOKUP" |
    "kn_req msg \<noteq> KSERV_REG_SERVICE" "kn_req msg \<noteq> KSERV_UNREG_SERVICE" "kn_req msg \<noteq> KSERV_LOOKUP" by blast
  then show ?thesis
  proof cases
    case 1
    define m where "m = (if kn_id msg = ID_RESV_IDLE then msg\<lparr>kn_id := src\<rparr> else msg)"
    have nz: "kn_id m \<noteq> ID_RESV_IDLE" using src by (simp add: m_def)
    obtain r db' where i: "kserv_insert \<lparr>serv_name = key, serv_id = kn_id m\<rparr> (services s) = (r, db')" by (cases "kserv_insert \<lparr>serv_name = key, serv_id = kn_id m\<rparr> (services s)")
    have I: "kn_id m \<noteq> ID_RESV_INVALID \<Longrightarrow> (case r of Some x \<Rightarrow> db' = services s \<and> service_map (services s) key = Some (serv_id x)
        | None \<Rightarrow> db_ok db' \<and> service_map (services s) key = None \<and> service_map db' = (service_map (services s))(key \<mapsto> kn_id m))"
      using kserv_insert_spec [OF db(1), of "\<lparr>serv_name = key, serv_id = kn_id m\<rparr>"] z i by (auto split: option.splits)
    show ?thesis unfolding step serve_def key_def [symmetric] using 1 I i src nz db(1) lb
      by (auto simp: Let_def m_def [symmetric] handle_register_msg_def server_ok_def split: option.splits)
  next
    case 2
    then show ?thesis using F src db(1) lb kserv_remove_spec [OF db(1)] unfolding step serve_def key_def [symmetric]
      by (auto simp: handle_unregister_msg_def server_ok_def split: option.splits)
  next
    case 3
    have "i \<noteq> ID_RESV_INVALID" if "service_map (services s) key = Some i" for i
      using that db(1) unfolding service_map_def db_ok_def by (fastforce dest: map_of_SomeD)
    then show ?thesis using 3 F src db(1) lb kl unfolding step serve_def key_def [symmetric]
      by (auto simp: handle_lookup_msg_def lookup_endpoint_by_name_def server_ok_def Let_def split: option.splits)
  next
    case 4
    then show ?thesis unfolding step serve_def using db(1) lb by (auto simp: server_ok_def)
  qed
qed

section \<open>Sequences of requests\<close>

text \<open>A request as the server sees it: what the allocator answers, what the copy of the name gives, the sender and the message.\<close>

record kns_request =
  rq_kmalloc :: "u64 \<Rightarrow> bool"
  rq_copy_in :: "nat \<Rightarrow> nat \<Rightarrow> int \<times> u8 list"
  rq_src :: u64
  rq_msg :: kname_service_msg

fun run_server :: "name_server \<Rightarrow> kns_request list \<Rightarrow> (kname_service_msg option list \<times> name_server) option" where
  "run_server s [] = Some ([], s)"
| "run_server s (r # rs) = do {
     (m, s) \<leftarrow> kname_service (rq_kmalloc r) (rq_copy_in r) True s (rq_src r) (rq_msg r);
     (ms, s) \<leftarrow> run_server s rs;
     Some (m # ms, s)
   }"

fun serve_all :: "(u8 list \<Rightarrow> u64 option) \<Rightarrow> kns_request list \<Rightarrow> kname_service_msg list \<times> (u8 list \<Rightarrow> u64 option)" where
  "serve_all m [] = ([], m)"
| "serve_all m (r # rs) =
     (let (msg, m) = serve (rq_kmalloc r SIZEOF_KERN_SERVICE) m (rq_src r) (rq_msg r) (c_string (snd (rq_copy_in r (kn_name (rq_msg r)) (name_len (rq_msg r)))));
          (ms, m) = serve_all m rs
      in (msg # ms, m))"

text \<open>The sender is a thread, not the idle one, and its name has been copied.\<close>

definition request_ok :: "kns_request \<Rightarrow> bool" where
  "request_ok r \<longleftrightarrow> rq_src r \<noteq> ID_RESV_IDLE \<and>
     (let n = name_len (rq_msg r); (rc, bytes) = rq_copy_in r (kn_name (rq_msg r)) n in rc = int n \<and> length bytes = n)"

section \<open>A kernel thread and the server\<close>

text \<open>What \<open>lpc_send_and_reply\<close> to the server does when it works on this request next: the thread \<open>tid\<close> is in the kernel, and \<open>mem\<close> is its memory.\<close>

definition kns_call :: "memory \<Rightarrow> u64 \<Rightarrow> name_server \<Rightarrow> kname_service_msg \<Rightarrow> (int \<times> kname_service_msg \<times> name_server) option" where
  "kns_call mem tid s msg = do {
     (m, s) \<leftarrow> kname_service (\<lambda>_. True) (\<lambda>a n. (int n, map mem [a..<a + n])) True s tid msg;
     m \<leftarrow> m;
     Some (0, m, s)
   }"

lemma str_at_bytes: "str_at mem a xs \<Longrightarrow> n \<le> length xs \<Longrightarrow> map mem [a..<a + n] = take n xs"
proof (induction xs arbitrary: a n)
  case (Cons x xs)
  show ?case
  proof (cases n)
    case (Suc k)
    then have "[a..<a + n] = a # [Suc a..<Suc a + k]" by (simp add: upt_conv_Cons)
    moreover have "map mem [Suc a..<Suc a + k] = take k xs" using Cons.IH [of "Suc a" k] Cons.prems Suc by (simp del: upt_Suc)
    ultimately show ?thesis using Cons.prems Suc by (simp del: upt_Suc)
  qed simp
qed simp

lemma kns_call_ok:
  assumes "server_ok s" "tid \<noteq> ID_RESV_IDLE" "str_at mem name xs" "length xs < 2 ^ 64" "kns_message mem req name i = Some msg"
  shows "\<exists>s'. kns_call mem tid s msg = Some (0, fst (serve True (service_map (services s)) tid msg (take 127 xs)), s') \<and>
    server_ok s' \<and> service_map (services s') = snd (serve True (service_map (services s)) tid msg (take 127 xs))"
proof -
  have m: "msg = \<lparr>kn_req = req, kn_id = i, kn_name = name, kn_len = of_nat (length xs), kn_rc = 0\<rparr>"
    using assms(5) strlen_eq [OF assms(3)] by (simp add: kns_message_def)
  have n: "name_len msg = min 127 (length xs)" using assms(4) by (auto simp: m name_len_def word_less_nat_alt unat_of_nat)
  have b: "map mem [name..<name + name_len msg] = take 127 xs" unfolding n using str_at_bytes [OF assms(3), of "min 127 (length xs)"] by (simp add: min_def)
  have c: "c_string (take 127 xs) = take 127 xs"
    using str_at_nonzero [OF assms(3)] by (auto simp: c_string_def takeWhile_eq_all_conv dest: in_set_takeD)
  have nm: "kn_name msg = name" "length (take 127 xs) = name_len msg" using n by (simp_all add: m)
  have "\<exists>s'. kname_service (\<lambda>_. True) (\<lambda>a n. (int n, map mem [a..<a + n])) True s tid msg =
      Some (Some (fst (serve True (service_map (services s)) tid msg (c_string (take 127 xs)))), s') \<and>
    server_ok s' \<and> service_map (services s') = snd (serve True (service_map (services s)) tid msg (c_string (take 127 xs)))"
    by (rule name_service_step [OF assms(1,2) _ nm(2)]) (simp only: nm(1) b)
  then obtain s' where s': "kname_service (\<lambda>_. True) (\<lambda>a n. (int n, map mem [a..<a + n])) True s tid msg =
      Some (Some (fst (serve True (service_map (services s)) tid msg (take 127 xs))), s')"
    "server_ok s'" "service_map (services s') = snd (serve True (service_map (services s)) tid msg (take 127 xs))" unfolding c by blast
  then show ?thesis by (intro exI [of _ s']) (simp add: kns_call_def)
qed

section \<open>Properties\<close>

text \<open>
  Claim C21. The name service refines a map from names to endpoints.  For every sequence of requests of existing threads whose names could be copied the server
  answers each request, with the reply that the map gives: registering a name that is taken is
  \<open>-EBUSY\<close>, looking up or removing one that is not there \<open>-ENOENT\<close>, the reserved id \<open>-EINVAL\<close>, no memory
  \<open>-ENOMEM\<close>, an unknown request \<open>-EINVAL\<close>, and a successful registration or removal leaves the result as the client has sent it; the tree stays ordered by \<open>strcmp\<close> and holds exactly
  the map.
\<close>

theorem kname_service_refines:
  assumes "server_ok s" and "\<forall>r \<in> set rs. request_ok r"
  shows "\<exists>s'. run_server s rs = Some (map Some (fst (serve_all (service_map (services s)) rs)), s') \<and> server_ok s' \<and>
    service_map (services s') = snd (serve_all (service_map (services s)) rs)"
  using assms
proof (induction rs arbitrary: s)
  case (Cons r rs)
  obtain rc bytes where c: "rq_copy_in r (kn_name (rq_msg r)) (name_len (rq_msg r)) = (rc, bytes)" by (cases "rq_copy_in r (kn_name (rq_msg r)) (name_len (rq_msg r))")
  have r: "rq_src r \<noteq> ID_RESV_IDLE" "rc = int (name_len (rq_msg r))" "length bytes = name_len (rq_msg r)"
    using Cons.prems(2) c by (simp_all add: request_ok_def Let_def)
  from name_service_step [where copy_in = "rq_copy_in r" and msg = "rq_msg r" and kmalloc = "rq_kmalloc r", OF Cons.prems(1) r(1) c [unfolded r(2)] r(3)] obtain s1 where
    s1: "kname_service (rq_kmalloc r) (rq_copy_in r) True s (rq_src r) (rq_msg r) =
        Some (Some (fst (serve (rq_kmalloc r SIZEOF_KERN_SERVICE) (service_map (services s)) (rq_src r) (rq_msg r) (c_string bytes))), s1)" "server_ok s1"
      "service_map (services s1) = snd (serve (rq_kmalloc r SIZEOF_KERN_SERVICE) (service_map (services s)) (rq_src r) (rq_msg r) (c_string bytes))" by blast
  from Cons.IH [OF s1(2)] Cons.prems(2) s1(1,3) show ?case by (auto simp: c Let_def split: prod.splits)
qed simp

definition some_kns_request :: kns_request where
  "some_kns_request = \<lparr>rq_kmalloc = (\<lambda>_. True), rq_copy_in = (\<lambda>_ _. (2, [97, 98])), rq_src = 9,
     rq_msg = \<lparr>kn_req = KSERV_REG_SERVICE, kn_id = 0, kn_name = 10, kn_len = 2, kn_rc = 0\<rparr>\<rparr>"

definition empty_server :: name_server where
  "empty_server = \<lparr>services = [], name_buf = replicate 128 0\<rparr>"

lemma empty_server_ok: "server_ok empty_server"
  by (simp add: server_ok_def empty_server_def db_ok_def)

theorem kname_service_refines_witness:
  "\<exists>s'. run_server empty_server [some_kns_request, some_kns_request] =
      Some (map Some [\<lparr>kn_req = 0, kn_id = 9, kn_name = 10, kn_len = 2, kn_rc = 0\<rparr>, \<lparr>kn_req = 0, kn_id = 9, kn_name = 10, kn_len = 2, kn_rc = - EBUSY\<rparr>], s') \<and>
    service_map (services s') = [[97, 98] \<mapsto> 9]"
proof -
  have r: "\<forall>r \<in> set [some_kns_request, some_kns_request]. request_ok r" by (simp add: request_ok_def some_kns_request_def name_len_def)
  have "serve_all (service_map (services empty_server)) [some_kns_request, some_kns_request] =
      ([\<lparr>kn_req = 0, kn_id = 9, kn_name = 10, kn_len = 2, kn_rc = 0\<rparr>, \<lparr>kn_req = 0, kn_id = 9, kn_name = 10, kn_len = 2, kn_rc = - EBUSY\<rparr>], [[97, 98] \<mapsto> 9])"
    by (simp add: some_kns_request_def empty_server_def serve_def c_string_def Let_def)
  then show ?thesis using kname_service_refines [OF empty_server_ok r] by auto
qed

text \<open>
  Registering, looking up and removing a service.  A kernel thread registers a name that is not in the database:
  the call returns 0, the look-up of the same name then gives the thread's id, a second registration is \<open>-EBUSY\<close>,
  and after the removal, which returns 0, the look-up is \<open>-ENOENT\<close> and the database is what it was.  Of a name only the
  first 127 characters count.
\<close>

theorem kns_register_lookup_roundtrip:
  assumes "server_ok s" and "tid \<noteq> ID_RESV_IDLE" and "tid \<noteq> ID_RESV_INVALID" and "str_at mem name xs" and "length xs < 2 ^ 64"
    and "service_map (services s) (take 127 xs) = None"
  shows "\<exists>s1 s2 s3 s4 s5. kns_register_kernel_service (kns_call mem tid) mem tid s (Some name) = Some (0, s1) \<and>
    kns_lookup_service_by_name (kns_call mem tid) mem s1 (Some name) = Some (0, Some tid, s2) \<and>
    kns_register_kernel_service (kns_call mem tid) mem tid s2 (Some name) = Some (- EBUSY, s3) \<and>
    kns_unregister_kernel_service (kns_call mem tid) mem tid s3 (Some name) = Some (0, s4) \<and>
    kns_lookup_service_by_name (kns_call mem tid) mem s4 (Some name) = Some (- ENOENT, None, s5) \<and>
    service_map (services s1) = (service_map (services s))(take 127 xs \<mapsto> tid) \<and> service_map (services s5) = service_map (services s) \<and> server_ok s5"
proof -
  define msg where "msg req i = \<lparr>kn_req = req, kn_id = i, kn_name = name, kn_len = of_nat (length xs), kn_rc = 0\<rparr>" for req i
  have M: "kns_message mem req name i = Some (msg req i)" for req i using strlen_eq [OF assms(4)] by (simp add: kns_message_def msg_def)
  note C = kns_call_ok [OF _ assms(2,4,5) M]
  let ?m = "service_map (services s)" and ?n = "take 127 xs"
  from C [OF assms(1), of 0 tid] assms(2,3,6) obtain s1 where 1: "kns_call mem tid s (msg 0 tid) = Some (0, msg 0 tid, s1)" "server_ok s1"
    "service_map (services s1) = ?m(?n \<mapsto> tid)" by (auto simp: serve_def msg_def)
  from C [OF 1(2), of 2 0] obtain s2 where 2: "kns_call mem tid s1 (msg 2 0) = Some (0, (msg 2 0)\<lparr>kn_rc := 0, kn_id := tid\<rparr>, s2)" "server_ok s2"
    "service_map (services s2) = ?m(?n \<mapsto> tid)" by (auto simp: serve_def msg_def 1(3))
  from C [OF 2(2), of 0 tid] assms(2,3) obtain s3 where 3: "kns_call mem tid s2 (msg 0 tid) = Some (0, (msg 0 tid)\<lparr>kn_rc := - EBUSY\<rparr>, s3)" "server_ok s3"
    "service_map (services s3) = ?m(?n \<mapsto> tid)" by (auto simp: serve_def msg_def 2(3))
  from C [OF 3(2), of 1 tid] obtain s4 where 4: "kns_call mem tid s3 (msg 1 tid) = Some (0, msg 1 tid, s4)" "server_ok s4"
    "service_map (services s4) = ?m(?n := None)" by (auto simp: serve_def msg_def 3(3))
  from C [OF 4(2), of 2 0] obtain s5 where 5: "kns_call mem tid s4 (msg 2 0) = Some (0, (msg 2 0)\<lparr>kn_rc := - ENOENT\<rparr>, s5)" "server_ok s5"
    "service_map (services s5) = ?m(?n := None)" by (auto simp: serve_def msg_def 4(3))
  have "?m(?n := None) = ?m" using assms(6) by (simp add: fun_upd_idem)
  then show ?thesis
    by (intro exI [of _ s1] exI [of _ s2] exI [of _ s3] exI [of _ s4] exI [of _ s5])
      (simp add: kns_register_kernel_service_def kns_lookup_service_by_name_def kns_unregister_kernel_service_def M 1 2 3 4 5, simp add: msg_def)
qed

theorem kns_register_lookup_roundtrip_witness:
  "\<exists>s1 s2. kns_register_kernel_service (kns_call some_memory 9) some_memory 9 empty_server (Some 10) = Some (0, s1) \<and>
    kns_lookup_service_by_name (kns_call some_memory 9) some_memory s1 (Some 10) = Some (0, Some 9, s2) \<and>
    service_map (services s1) = [[97, 98] \<mapsto> 9]"
proof -
  have m: "str_at some_memory 10 [97, 98]" by (simp add: some_memory_def)
  have e: "service_map (services empty_server) = Map.empty" by (simp add: empty_server_def)
  from kns_register_lookup_roundtrip [OF empty_server_ok _ _ m, of 9] show ?thesis by (auto simp: e)
qed

text \<open>A null name is refused before the server is asked.\<close>

lemma kns_null_name:
  "kns_register_kernel_service call mem tid s None = Some (- EFAULT, s)"
  "kns_unregister_kernel_service call mem tid s None = Some (- EFAULT, s)"
  "kns_lookup_service_by_name call mem s None = Some (- EFAULT, None, s)"
  by (simp_all add: kns_register_kernel_service_def kns_unregister_kernel_service_def kns_lookup_service_by_name_def)

text \<open>
  The server looks at the result of the copy for \<open>-EFAULT\<close> only.  A copy that ends early leaves the bytes of the previous
  request in the buffer: a client whose name could not be read at all registers the name of the client before it.
\<close>

lemma short_copy_keeps_old_name:
  assumes "rc \<noteq> - EFAULT" "copy_in (kn_name msg) (name_len msg) = (rc, [])"
    "kn_req msg = KSERV_REG_SERVICE" "kn_id msg = 0" "src \<noteq> 0" "src \<noteq> ID_RESV_INVALID" "kmalloc SIZEOF_KERN_SERVICE"
  shows "kname_service kmalloc copy_in True \<lparr>services = [], name_buf = buf\<rparr> src msg =
    Some (Some (msg\<lparr>kn_id := src\<rparr>), \<lparr>services = [\<lparr>serv_name = c_string (buf[name_len msg := 0]), serv_id = src\<rparr>], name_buf = buf[name_len msg := 0]\<rparr>)"
  using assms by (simp add: kname_service_def handle_register_msg_def Let_def)

text \<open>A successful registration does not write the result: a client that did not clear it reads its own value as the outcome.\<close>

lemma register_keeps_rc:
  assumes "src \<noteq> 0" "i \<noteq> 0" "i \<noteq> ID_RESV_INVALID" "kmalloc SIZEOF_KERN_SERVICE"
  shows "handle_register_msg kmalloc [] src msg key i = Some (msg, [\<lparr>serv_name = key, serv_id = i\<rparr>])"
  using assms by (simp add: handle_register_msg_def)

end
