(* ===== verification/Irq.thy ===== *)
theory Irq
  imports Thread_Info
begin

text \<open>
  Interrupt lines: the table of handlers, \<^verbatim>\<open>src/irq/irq.c\<close>, and the i8259 interrupt
  controller it drives, \<^verbatim>\<open>src/hal/x86-64/pic/i8259.c\<close>.

  A port of the controller keeps the last byte written to it, which is what reading the mask
  register gives back; all writes are logged in order.  A handler is the address of its function, and
  \<open>handle\<close> says for each whether it takes the interrupt.  A null function pointer of a controller
  is \<open>None\<close>.
\<close>

section \<open>The i8259\<close>

record pic =
  port_value :: "nat \<Rightarrow> u8"
  port_writes :: "(nat \<times> u8) list"

definition in_port_byte :: "pic \<Rightarrow> nat \<Rightarrow> u8" where
  "in_port_byte p port = port_value p port"

definition out_port_byte :: "pic \<Rightarrow> nat \<Rightarrow> u8 \<Rightarrow> pic" where
  "out_port_byte p port v = p\<lparr>port_value := (port_value p)(port := v), port_writes := port_writes p @ [(port, v)]\<rparr>"

abbreviation I8259_MAX_IRQ_NR :: nat where "I8259_MAX_IRQ_NR \<equiv> 16"
abbreviation I8259_PIC1_BASE_ADDR1 :: nat where "I8259_PIC1_BASE_ADDR1 \<equiv> 0x20"
abbreviation I8259_PIC1_BASE_ADDR2 :: nat where "I8259_PIC1_BASE_ADDR2 \<equiv> 0x21"
abbreviation I8259_PIC2_BASE_ADDR1 :: nat where "I8259_PIC2_BASE_ADDR1 \<equiv> 0xA0"
abbreviation I8259_PIC2_BASE_ADDR2 :: nat where "I8259_PIC2_BASE_ADDR2 \<equiv> 0xA1"
abbreviation I8259_PIC1_ICW3_CODE :: nat where "I8259_PIC1_ICW3_CODE \<equiv> 2"
abbreviation I8259_OCW2_EOI_SPEC :: u8 where "I8259_OCW2_EOI_SPEC \<equiv> 0x60"

definition pic_mk_spec_eoi :: "u8 \<Rightarrow> u8" where
  "pic_mk_spec_eoi irq = (irq AND 7) OR I8259_OCW2_EOI_SPEC"

definition i8259_enable_irq :: "u32 \<Rightarrow> pic \<Rightarrow> (int \<times> pic) option" where
  "i8259_enable_irq no p = do {
     kassert (unat no < I8259_MAX_IRQ_NR);
     let irq = unat no mod 256;
     if irq < 8 then
       Some (0, out_port_byte p I8259_PIC1_BASE_ADDR2 (in_port_byte p I8259_PIC1_BASE_ADDR2 AND NOT (push_bit irq 1)))
     else
       Some (0, out_port_byte p I8259_PIC2_BASE_ADDR2 (in_port_byte p I8259_PIC2_BASE_ADDR2 AND NOT (push_bit (irq - 8) 1)))
   }"

definition i8259_disable_irq :: "u32 \<Rightarrow> pic \<Rightarrow> (int \<times> pic) option" where
  "i8259_disable_irq no p = do {
     let irq = unat no mod 256;
     kassert (irq < I8259_MAX_IRQ_NR);
     if irq < 8 then
       Some (0, out_port_byte p I8259_PIC1_BASE_ADDR2 (in_port_byte p I8259_PIC1_BASE_ADDR2 OR push_bit irq 1))
     else
       Some (0, out_port_byte p I8259_PIC2_BASE_ADDR2 (in_port_byte p I8259_PIC2_BASE_ADDR2 OR push_bit (irq - 8) 1))
   }"

definition i8259_eoi_irq :: "u32 \<Rightarrow> pic \<Rightarrow> (int \<times> pic) option" where
  "i8259_eoi_irq no p = do {
     let irq = unat no mod 256;
     kassert (irq < I8259_MAX_IRQ_NR);
     (_, p) \<leftarrow> i8259_disable_irq no p;
     if irq < 8 then Some (0, out_port_byte p I8259_PIC1_BASE_ADDR1 (pic_mk_spec_eoi (of_nat irq)))
     else do {
       let p = out_port_byte p I8259_PIC2_BASE_ADDR1 (pic_mk_spec_eoi (of_nat irq));
       Some (0, out_port_byte p I8259_PIC1_BASE_ADDR1 (pic_mk_spec_eoi (of_nat I8259_PIC1_ICW3_CODE)))
     }
   }"

definition i8259_update_irq_mask :: "u64 \<Rightarrow> pic \<Rightarrow> pic" where
  "i8259_update_irq_mask msk p =
     (let i8259_mask = msk AND 0xffff;
          i8259_mask = i8259_mask AND NOT (push_bit I8259_PIC1_ICW3_CODE 1);
          p = out_port_byte p I8259_PIC1_BASE_ADDR2 (ucast i8259_mask)
      in out_port_byte p I8259_PIC2_BASE_ADDR2 (ucast (drop_bit 8 i8259_mask)))"

section \<open>The table of handlers\<close>

record irq_cntlr =
  cntl_enable :: "(u32 \<Rightarrow> pic \<Rightarrow> (int \<times> pic) option) option"
  cntl_disable :: "(u32 \<Rightarrow> pic \<Rightarrow> (int \<times> pic) option) option"
  cntl_send_eoi :: "(u32 \<Rightarrow> pic \<Rightarrow> (int \<times> pic) option) option"

definition i8259_ctlr :: irq_cntlr where
  "i8259_ctlr = \<lparr>cntl_enable = Some i8259_enable_irq, cntl_disable = Some i8259_disable_irq, cntl_send_eoi = Some i8259_eoi_irq\<rparr>"

datatype ihandler_res = IRQHDL_RES_HANDLED | IRQHDL_RES_NEXT

record irq_handler =
  h_iflags :: u32
  h_private :: u64
  h_handler :: nat

record irq_entry =
  e_iflags :: u32
  spurious_cnt :: u64
  hdlr_que :: "irq_handler list"
  controller :: "irq_cntlr option"

record irq_manager =
  irq_mask :: u64
  spurious_mask :: u64
  irq_entries :: "irq_entry list"
  irq_pic :: pic

abbreviation NR_IRQS :: nat where "NR_IRQS \<equiv> 16"
abbreviation IRQHDL_FLAG_MULTI :: u32 where "IRQHDL_FLAG_MULTI \<equiv> 0"
abbreviation IRQHDL_FLAG_EXCLUSIVE :: u32 where "IRQHDL_FLAG_EXCLUSIVE \<equiv> 1"
abbreviation SPURIOUS_INTR_THRESHOLD :: u64 where "SPURIOUS_INTR_THRESHOLD \<equiv> 64"

definition upd_entry :: "irq_manager \<Rightarrow> nat \<Rightarrow> (irq_entry \<Rightarrow> irq_entry) \<Rightarrow> irq_manager" where
  "upd_entry db no f = db\<lparr>irq_entries := (irq_entries db)[no := f (irq_entries db ! no)]\<rparr>"

definition irq_set_mask :: "nat \<Rightarrow> irq_manager \<Rightarrow> irq_manager option" where
  "irq_set_mask no db = do {
     kassert (no < NR_IRQS);
     let new_mask = irq_mask db OR push_bit no 1;
     Some (db\<lparr>irq_pic := i8259_update_irq_mask (new_mask OR spurious_mask db) (irq_pic db), irq_mask := new_mask\<rparr>)
   }"

definition irq_unset_mask :: "nat \<Rightarrow> irq_manager \<Rightarrow> irq_manager option" where
  "irq_unset_mask no db = do {
     kassert (no < NR_IRQS);
     let new_mask = irq_mask db AND NOT (push_bit no 1);
     Some (db\<lparr>irq_pic := i8259_update_irq_mask (new_mask OR spurious_mask db) (irq_pic db), irq_mask := new_mask\<rparr>)
   }"

fun is_installed :: "irq_handler list \<Rightarrow> nat \<Rightarrow> bool" where
  "is_installed [] handler = False"
| "is_installed (h # hs) handler = (if h_handler h = handler then True else is_installed hs handler)"

definition is_irq_handler_installed_nolock :: "irq_manager \<Rightarrow> nat \<Rightarrow> nat \<Rightarrow> bool option" where
  "is_irq_handler_installed_nolock db no handler = do {
     kassert (no < NR_IRQS);
     ent \<leftarrow> arr_get (irq_entries db) no;
     Some (is_installed (hdlr_que ent) handler)
   }"

text \<open>\<open>mem\<close> says whether the allocation of the handler record succeeds.\<close>

definition irq_register_irq_handler ::
  "bool \<Rightarrow> irq_manager \<Rightarrow> nat \<Rightarrow> nat \<Rightarrow> u32 \<Rightarrow> u64 \<Rightarrow> (int \<times> irq_manager) option" where
  "irq_register_irq_handler mem db no handler iflags data = do {
     kassert (no < NR_IRQS);
     if \<not> mem then Some (- ENOMEM, db)
     else do {
       let hdlr = \<lparr>h_iflags = iflags, h_private = data, h_handler = handler\<rparr>;
       ent \<leftarrow> arr_get (irq_entries db) no;
       installed \<leftarrow> is_irq_handler_installed_nolock db no handler;
       if installed then Some (- EBUSY, db)
       else if iflags AND IRQHDL_FLAG_EXCLUSIVE = 0 \<and> e_iflags ent AND IRQHDL_FLAG_EXCLUSIVE \<noteq> 0 then Some (- EPERM, db)
       else do {
         let db = (if iflags AND IRQHDL_FLAG_EXCLUSIVE \<noteq> 0
            then upd_entry db no (\<lambda>e. e\<lparr>e_iflags := e_iflags e OR IRQHDL_FLAG_EXCLUSIVE\<rparr>) else db);
         let db = upd_entry db no (\<lambda>e. e\<lparr>hdlr_que := hdlr_que e @ [hdlr]\<rparr>);
         db \<leftarrow> irq_unset_mask no db;
         Some (0, db)
       }
     }
   }"

text \<open>The loop that looks for the handler, the handlers before it in reverse.\<close>

fun remove_handler :: "irq_handler list \<Rightarrow> nat \<Rightarrow> irq_handler list option" where
  "remove_handler [] handler = None"
| "remove_handler (h # hs) handler =
     (if h_handler h = handler then Some hs
      else (case remove_handler hs handler of None \<Rightarrow> None | Some hs' \<Rightarrow> Some (h # hs')))"

definition irq_unregister_irq_handler :: "irq_manager \<Rightarrow> nat \<Rightarrow> nat \<Rightarrow> (int \<times> irq_manager) option" where
  "irq_unregister_irq_handler db no handler = do {
     kassert (no < NR_IRQS);
     ent \<leftarrow> arr_get (irq_entries db) no;
     (case remove_handler (hdlr_que ent) handler of
        None \<Rightarrow> Some (- ENOENT, db)
      | Some hs \<Rightarrow> do {
          let db = upd_entry db no (\<lambda>e. e\<lparr>hdlr_que := hs\<rparr>);
          db \<leftarrow> (if hs = [] then irq_set_mask no db else Some db);
          Some (0, db)
        })
   }"

text \<open>Calling a function of the controller and asserting that it returns 0.\<close>

definition cntl_call :: "(u32 \<Rightarrow> pic \<Rightarrow> (int \<times> pic) option) option \<Rightarrow> nat \<Rightarrow> irq_manager \<Rightarrow> irq_manager option" where
  "cntl_call fn no db = do {
     fn \<leftarrow> fn;
     (rc, p) \<leftarrow> fn (of_nat no) (irq_pic db);
     kassert (rc = 0);
     Some (db\<lparr>irq_pic := p\<rparr>)
   }"

text \<open>The handlers that are called, and whether one of them took the interrupt.\<close>

fun call_handlers :: "(nat \<Rightarrow> ihandler_res) \<Rightarrow> irq_handler list \<Rightarrow> nat list \<times> bool" where
  "call_handlers handle [] = ([], False)"
| "call_handlers handle (h # hs) =
     (if handle (h_handler h) = IRQHDL_RES_HANDLED then ([h_handler h], True)
      else (let (called, done) = call_handlers handle hs in (h_handler h # called, done)))"

definition kcom_handle_irqs ::
  "(nat \<Rightarrow> ihandler_res) \<Rightarrow> irq_manager \<Rightarrow> nat \<Rightarrow> thread_info \<Rightarrow> (nat list \<times> irq_manager \<times> thread_info) option" where
  "kcom_handle_irqs handle db no ti = do {
     kassert (no < NR_IRQS);
     ent \<leftarrow> arr_get (irq_entries db) no;
     ctl \<leftarrow> controller ent;
     kassert (cntl_disable ctl \<noteq> None);
     kassert (cntl_enable ctl \<noteq> None);
     kassert (cntl_send_eoi ctl \<noteq> None);
     let ti = ti_inc_intr ti;
     db \<leftarrow> cntl_call (cntl_disable ctl) no db;
     db \<leftarrow> cntl_call (cntl_send_eoi ctl) no db;
     let (called, done) = call_handlers handle (hdlr_que ent);
     db \<leftarrow> (if done then cntl_call (cntl_enable ctl) no db
           else do {
             let db = upd_entry db no (\<lambda>e. e\<lparr>spurious_cnt := spurious_cnt e + 1\<rparr>);
             ent \<leftarrow> arr_get (irq_entries db) no;
             if spurious_cnt ent = SPURIOUS_INTR_THRESHOLD then do {
               db \<leftarrow> cntl_call (cntl_disable ctl) no db;
               Some (db\<lparr>spurious_mask := spurious_mask db OR push_bit no 1\<rparr>)
             } else cntl_call (cntl_enable ctl) no db
           });
     ti \<leftarrow> ti_dec_intr ti;
     Some (called, db, ti)
   }"

definition kcom_irq_register_controller :: "irq_manager \<Rightarrow> nat \<Rightarrow> irq_cntlr \<Rightarrow> (int \<times> irq_manager) option" where
  "kcom_irq_register_controller db no ctl = do {
     kassert (no < NR_IRQS);
     ent \<leftarrow> arr_get (irq_entries db) no;
     if controller ent \<noteq> None then Some (- EBUSY, db)
     else Some (0, upd_entry db no (\<lambda>e. e\<lparr>controller := Some ctl\<rparr>))
   }"

definition kcom_irq_unregister_controller :: "irq_manager \<Rightarrow> nat \<Rightarrow> (int \<times> irq_manager) option" where
  "kcom_irq_unregister_controller db no = do {
     kassert (no < NR_IRQS);
     ent \<leftarrow> arr_get (irq_entries db) no;
     if controller ent = None then Some (- ENOENT, db)
     else Some (0, upd_entry db no (\<lambda>e. e\<lparr>controller := None\<rparr>))
   }"

definition irq_init_subsys :: "pic \<Rightarrow> irq_manager" where
  "irq_init_subsys p = \<lparr>irq_mask = NOT 0, spurious_mask = 0,
     irq_entries = replicate NR_IRQS \<lparr>e_iflags = IRQHDL_FLAG_MULTI, spurious_cnt = 0, hdlr_que = [], controller = None\<rparr>, irq_pic = p\<rparr>"

text \<open>
  \<open>init_i8259_pic\<close>: the initialisation words, then every line but the cascade is masked, the cascade
  is unmasked, and the controller is installed on every line.
\<close>

fun pic_disable_from :: "nat \<Rightarrow> nat \<Rightarrow> pic \<Rightarrow> pic option" where
  "pic_disable_from i 0 p = Some p"
| "pic_disable_from i (Suc k) p =
     (if i = I8259_PIC1_ICW3_CODE then pic_disable_from (i + 1) k p
      else do {
        (rc, p) \<leftarrow> i8259_disable_irq (of_nat i) p;
        kassert (rc = 0);
        pic_disable_from (i + 1) k p
      })"

fun register_from :: "nat \<Rightarrow> nat \<Rightarrow> irq_manager \<Rightarrow> irq_manager option" where
  "register_from i 0 db = Some db"
| "register_from i (Suc k) db = do {
     (_, db) \<leftarrow> kcom_irq_register_controller db i i8259_ctlr;
     register_from (i + 1) k db
   }"

definition init_i8259_pic :: "irq_manager \<Rightarrow> irq_manager option" where
  "init_i8259_pic db = do {
     let p = irq_pic db;
     let p = out_port_byte p I8259_PIC1_BASE_ADDR1 0x11;
     let p = out_port_byte p I8259_PIC1_BASE_ADDR2 0x20;
     let p = out_port_byte p I8259_PIC1_BASE_ADDR2 0x02;
     let p = out_port_byte p I8259_PIC1_BASE_ADDR2 0x11;
     let p = out_port_byte p I8259_PIC2_BASE_ADDR1 0x11;
     let p = out_port_byte p I8259_PIC2_BASE_ADDR2 0x28;
     let p = out_port_byte p I8259_PIC2_BASE_ADDR2 0x02;
     let p = out_port_byte p I8259_PIC2_BASE_ADDR2 0x01;
     p \<leftarrow> pic_disable_from 0 I8259_MAX_IRQ_NR p;
     (rc, p) \<leftarrow> i8259_enable_irq (of_nat I8259_PIC1_ICW3_CODE) p;
     kassert (rc = 0);
     register_from 0 I8259_MAX_IRQ_NR (db\<lparr>irq_pic := p\<rparr>)
   }"

section \<open>The lines of the controller\<close>

text \<open>Line \<open>no\<close> is masked in the mask register that is responsible for it.\<close>

definition line_masked :: "pic \<Rightarrow> nat \<Rightarrow> bool" where
  "line_masked p no = (if no < 8 then bit (port_value p I8259_PIC1_BASE_ADDR2) no
     else bit (port_value p I8259_PIC2_BASE_ADDR2) (no - 8))"

lemma out_port_simps [simp]:
  "port_value (out_port_byte p a v) = (port_value p)(a := v)" "port_writes (out_port_byte p a v) = port_writes p @ [(a, v)]"
  by (simp_all add: out_port_byte_def)

lemma bit_or_line:
  fixes w :: u8
  shows "bit (w OR push_bit k 1) j \<longleftrightarrow> bit w j \<or> j = k \<and> k < 8"
  by (auto simp: bit_or_iff bit_push_bit_iff bit_1_iff bit_exp_iff)

lemma bit_and_not_line:
  fixes w :: u8
  shows "bit (w AND NOT (push_bit k 1)) j \<longleftrightarrow> bit w j \<and> j \<noteq> k"
  by (auto simp: bit_and_iff bit_not_iff bit_push_bit_iff bit_1_iff bit_exp_iff dest: bit_imp_le_length)

lemma line_no: "no < I8259_MAX_IRQ_NR \<Longrightarrow> unat (of_nat no :: u32) = no"
  by (simp add: unat_of_nat)

lemma i8259_enable_ok:
  assumes "no < I8259_MAX_IRQ_NR"
  shows "\<exists>p'. i8259_enable_irq (of_nat no) p = Some (0, p') \<and>
    (\<forall>m < I8259_MAX_IRQ_NR. line_masked p' m \<longleftrightarrow> line_masked p m \<and> m \<noteq> no)"
  using assms line_no [OF assms]
  by (cases "no < 8") (auto simp: i8259_enable_irq_def in_port_byte_def line_masked_def bit_and_not_line Let_def
      simp del: push_bit_of_1)

lemma i8259_disable_ok:
  assumes "no < I8259_MAX_IRQ_NR"
  shows "\<exists>p'. i8259_disable_irq (of_nat no) p = Some (0, p') \<and>
    (\<forall>m < I8259_MAX_IRQ_NR. line_masked p' m \<longleftrightarrow> line_masked p m \<or> m = no)"
  using assms line_no [OF assms]
  by (cases "no < 8") (auto simp: i8259_disable_irq_def in_port_byte_def line_masked_def bit_or_line Let_def
      simp del: push_bit_of_1)

lemma i8259_eoi_ok:
  assumes "no < I8259_MAX_IRQ_NR"
  shows "\<exists>p'. i8259_eoi_irq (of_nat no) p = Some (0, p') \<and>
    (\<forall>m < I8259_MAX_IRQ_NR. line_masked p' m \<longleftrightarrow> line_masked p m \<or> m = no)"
proof -
  obtain p1 where p1: "i8259_disable_irq (of_nat no) p = Some (0, p1)"
    "\<forall>m < I8259_MAX_IRQ_NR. line_masked p1 m \<longleftrightarrow> line_masked p m \<or> m = no" using i8259_disable_ok [OF assms] by blast
  have keep: "line_masked (out_port_byte q a v) m = line_masked q m" if "a = I8259_PIC1_BASE_ADDR1 \<or> a = I8259_PIC2_BASE_ADDR1" for q a v m
    using that by (auto simp: line_masked_def)
  show ?thesis using p1 assms line_no [OF assms] by (cases "no < 8") (auto simp: i8259_eoi_irq_def keep Let_def)
qed

lemma update_mask_lines:
  assumes "m < I8259_MAX_IRQ_NR"
  shows "line_masked (i8259_update_irq_mask msk p) m \<longleftrightarrow> bit msk m \<and> m \<noteq> I8259_PIC1_ICW3_CODE"
proof -
  have ffff: "bit (0xffff :: u64) k \<longleftrightarrow> k < 16" for k
  proof -
    have m: "(0xffff :: u64) = mask 16" by (simp add: mask_eq_exp_minus_1)
    show ?thesis unfolding m by (simp only: bit_mask_iff) auto
  qed
  define w where "w = (msk AND 0xffff) AND NOT (push_bit I8259_PIC1_ICW3_CODE 1)"
  have w: "bit w k \<longleftrightarrow> bit msk k \<and> k < 16 \<and> k \<noteq> 2" for k
    unfolding w_def bit_and_iff ffff bit_not_iff bit_push_bit_iff bit_1_iff by (auto dest: bit_imp_le_length)
  have "i8259_update_irq_mask msk p = out_port_byte (out_port_byte p I8259_PIC1_BASE_ADDR2 (ucast w)) I8259_PIC2_BASE_ADDR2 (ucast (drop_bit 8 w))"
    by (simp only: i8259_update_irq_mask_def Let_def w_def)
  then show ?thesis using assms
    by (cases "m < 8") (auto simp: line_masked_def bit_ucast_iff bit_drop_bit_eq w)
qed

section \<open>Invariant of the table\<close>

text \<open>
  A line is masked in the table exactly when it has no handler; the handlers of a line are distinct;
  a line with a handler that excludes others is marked so; and every line has the i8259.
\<close>

definition irq_ok :: "irq_manager \<Rightarrow> bool" where
  "irq_ok db \<longleftrightarrow> length (irq_entries db) = NR_IRQS \<and>
     (\<forall>no < NR_IRQS. let e = irq_entries db ! no in
        (bit (irq_mask db) no \<longleftrightarrow> hdlr_que e = []) \<and> distinct (map h_handler (hdlr_que e)) \<and>
        (\<forall>h \<in> set (hdlr_que e). h_iflags h AND IRQHDL_FLAG_EXCLUSIVE \<noteq> 0 \<longrightarrow> e_iflags e AND IRQHDL_FLAG_EXCLUSIVE \<noteq> 0) \<and>
        controller e = Some i8259_ctlr)"

text \<open>The registers of the controller show the mask of the table and the lines given up as spurious.\<close>

definition lines_ok :: "irq_manager \<Rightarrow> bool" where
  "lines_ok db \<longleftrightarrow> (\<forall>no < NR_IRQS. no \<noteq> I8259_PIC1_ICW3_CODE \<longrightarrow>
     (line_masked (irq_pic db) no \<longleftrightarrow> bit (irq_mask db) no \<or> bit (spurious_mask db) no))"

lemma irq_set_mask_ok:
  assumes "no < NR_IRQS"
  shows "\<exists>p. irq_set_mask no db = Some (db\<lparr>irq_pic := p, irq_mask := irq_mask db OR push_bit no 1\<rparr>) \<and>
    lines_ok (db\<lparr>irq_pic := p, irq_mask := irq_mask db OR push_bit no 1\<rparr>)"
  using assms by (intro exI [of _ "i8259_update_irq_mask ((irq_mask db OR push_bit no 1) OR spurious_mask db) (irq_pic db)"])
    (simp add: irq_set_mask_def lines_ok_def update_mask_lines bit_or_iff Let_def del: push_bit_of_1)

lemma irq_unset_mask_ok:
  assumes "no < NR_IRQS"
  shows "\<exists>p. irq_unset_mask no db = Some (db\<lparr>irq_pic := p, irq_mask := irq_mask db AND NOT (push_bit no 1)\<rparr>) \<and>
    lines_ok (db\<lparr>irq_pic := p, irq_mask := irq_mask db AND NOT (push_bit no 1)\<rparr>)"
  using assms by (intro exI [of _ "i8259_update_irq_mask ((irq_mask db AND NOT (push_bit no 1)) OR spurious_mask db) (irq_pic db)"])
    (simp add: irq_unset_mask_def lines_ok_def update_mask_lines bit_or_iff Let_def del: push_bit_of_1)

lemma mask_bits:
  fixes w :: u64
  assumes "no < NR_IRQS"
  shows "bit (w OR push_bit no 1) m \<longleftrightarrow> bit w m \<or> m = no" and "bit (w AND NOT (push_bit no 1)) m \<longleftrightarrow> bit w m \<and> m \<noteq> no"
  using bit_or_push [of w no m] bit_and_not_push [of w no m] assms by simp_all

lemma is_installed_iff: "is_installed hs f \<longleftrightarrow> f \<in> h_handler ` set hs"
  by (induction hs) auto

lemma remove_handler_None: "remove_handler hs f = None \<longleftrightarrow> f \<notin> h_handler ` set hs"
  by (induction hs) (auto split: option.splits)

lemma remove_handler_Some:
  "remove_handler hs f = Some hs' \<Longrightarrow> distinct (map h_handler hs) \<Longrightarrow> hs' = filter (\<lambda>h. h_handler h \<noteq> f) hs"
proof (induction hs arbitrary: hs')
  case (Cons h hs)
  show ?case
  proof (cases "h_handler h = f")
    case True
    then have "hs' = hs" "f \<notin> h_handler ` set hs" using Cons.prems by auto
    moreover from this have "filter (\<lambda>h. h_handler h \<noteq> f) hs = hs" by (intro filter_True) auto
    ultimately show ?thesis using True by simp
  next
    case False
    then show ?thesis using Cons by (auto split: option.splits)
  qed
qed simp

lemma upd_entry_nth:
  "length (irq_entries db) = NR_IRQS \<Longrightarrow> no < NR_IRQS \<Longrightarrow>
    irq_entries (upd_entry db no f) ! m = (if m = no then f (irq_entries db ! no) else irq_entries db ! m)"
  by (auto simp: upd_entry_def)

text \<open>Registration, on every branch.\<close>

lemma register_ok:
  assumes ok: "irq_ok db" and ln: "lines_ok db" and no: "no < NR_IRQS"
  defines "e \<equiv> irq_entries db ! no"
  shows "\<exists>rc db'. irq_register_irq_handler mem db no f fl d = Some (rc, db') \<and> irq_ok db' \<and> lines_ok db' \<and>
    (if \<not> mem then rc = - ENOMEM \<and> db' = db
     else if f \<in> h_handler ` set (hdlr_que e) then rc = - EBUSY \<and> db' = db
     else if fl AND IRQHDL_FLAG_EXCLUSIVE = 0 \<and> e_iflags e AND IRQHDL_FLAG_EXCLUSIVE \<noteq> 0 then rc = - EPERM \<and> db' = db
     else rc = 0 \<and> hdlr_que (irq_entries db' ! no) = hdlr_que e @ [\<lparr>h_iflags = fl, h_private = d, h_handler = f\<rparr>] \<and>
       (\<forall>m < NR_IRQS. m \<noteq> no \<longrightarrow> irq_entries db' ! m = irq_entries db ! m))"
proof -
  have len: "length (irq_entries db) = NR_IRQS" using ok by (simp add: irq_ok_def)
  have inst: "is_irq_handler_installed_nolock db no f = Some (f \<in> h_handler ` set (hdlr_que e))"
    using no len by (simp add: is_irq_handler_installed_nolock_def e_def is_installed_iff)
  define go where "go \<longleftrightarrow> mem \<and> f \<notin> h_handler ` set (hdlr_que e) \<and> \<not> (fl AND IRQHDL_FLAG_EXCLUSIVE = 0 \<and> e_iflags e AND IRQHDL_FLAG_EXCLUSIVE \<noteq> 0)"
  show ?thesis
  proof (cases go)
    case False
    then show ?thesis using no len inst ok ln
      by (auto simp: irq_register_irq_handler_def go_def e_def Let_def)
  next
    case True
    define h where "h = \<lparr>h_iflags = fl, h_private = d, h_handler = f\<rparr>"
    define db1 where "db1 = (if fl AND IRQHDL_FLAG_EXCLUSIVE \<noteq> 0
      then upd_entry db no (\<lambda>e. e\<lparr>e_iflags := e_iflags e OR IRQHDL_FLAG_EXCLUSIVE\<rparr>) else db)"
    define db2 where "db2 = upd_entry db1 no (\<lambda>e. e\<lparr>hdlr_que := hdlr_que e @ [h]\<rparr>)"
    from irq_unset_mask_ok [OF no, of db2] obtain p where
      p: "irq_unset_mask no db2 = Some (db2\<lparr>irq_pic := p, irq_mask := irq_mask db2 AND NOT (push_bit no 1)\<rparr>)"
        "lines_ok (db2\<lparr>irq_pic := p, irq_mask := irq_mask db2 AND NOT (push_bit no 1)\<rparr>)" by blast
    define db' where "db' = db2\<lparr>irq_pic := p, irq_mask := irq_mask db2 AND NOT (push_bit no 1)\<rparr>"
    have run: "irq_register_irq_handler mem db no f fl d = Some (0, db')"
      using True no len inst p(1)
      by (simp add: irq_register_irq_handler_def go_def e_def [symmetric] h_def [symmetric] db1_def [symmetric] db2_def [symmetric] db'_def
          Let_def del: push_bit_of_1)
    have l1: "length (irq_entries db1) = NR_IRQS" using len by (simp add: db1_def upd_entry_def)
    have mk: "irq_mask db2 = irq_mask db" by (simp add: db2_def db1_def upd_entry_def)
    have ent: "irq_entries db' ! m = (if m = no then e\<lparr>e_iflags := (if fl AND IRQHDL_FLAG_EXCLUSIVE \<noteq> 0
        then e_iflags e OR IRQHDL_FLAG_EXCLUSIVE else e_iflags e), hdlr_que := hdlr_que e @ [h]\<rparr> else irq_entries db ! m)" for m
      using len l1 no by (simp add: db'_def db2_def upd_entry_nth) (simp add: db1_def upd_entry_nth e_def)
    have ex: "(x OR 1) AND 1 \<noteq> 0" for x :: u32 by (simp add: bit.conj_disj_distrib2)
    have e: "(bit (irq_mask db) no \<longleftrightarrow> hdlr_que e = [])" "distinct (map h_handler (hdlr_que e))" "controller e = Some i8259_ctlr"
      "\<forall>h \<in> set (hdlr_que e). h_iflags h AND IRQHDL_FLAG_EXCLUSIVE \<noteq> 0 \<longrightarrow> e_iflags e AND IRQHDL_FLAG_EXCLUSIVE \<noteq> 0"
      using ok no by (auto simp: irq_ok_def Let_def e_def)
    have "irq_ok db'"
      unfolding irq_ok_def Let_def
    proof (intro conjI allI impI)
      show "length (irq_entries db') = NR_IRQS" using l1 by (simp add: db'_def db2_def upd_entry_def)
      fix m assume m: "m < NR_IRQS"
      show "bit (irq_mask db') m = (hdlr_que (irq_entries db' ! m) = [])"
        using ok m no unfolding ent by (simp add: db'_def mk mask_bits irq_ok_def Let_def del: push_bit_of_1)
      show "distinct (map h_handler (hdlr_que (irq_entries db' ! m)))"
        using ok m True e(2) unfolding ent by (auto simp: irq_ok_def Let_def go_def h_def)
      show "controller (irq_entries db' ! m) = Some i8259_ctlr" using ok m e(3) unfolding ent by (simp add: irq_ok_def Let_def)
      show "\<forall>h \<in> set (hdlr_que (irq_entries db' ! m)). h_iflags h AND IRQHDL_FLAG_EXCLUSIVE \<noteq> 0 \<longrightarrow>
          e_iflags (irq_entries db' ! m) AND IRQHDL_FLAG_EXCLUSIVE \<noteq> 0"
        using ok m e(4) ex unfolding ent by (auto simp: irq_ok_def Let_def h_def)
    qed
    moreover have "lines_ok db'" using p(2) by (simp add: db'_def)
    ultimately show ?thesis using run True ent by (auto simp: go_def h_def)
  qed
qed

lemma unregister_ok:
  assumes ok: "irq_ok db" and ln: "lines_ok db" and no: "no < NR_IRQS"
  defines "e \<equiv> irq_entries db ! no"
  shows "\<exists>rc db'. irq_unregister_irq_handler db no f = Some (rc, db') \<and> irq_ok db' \<and> lines_ok db' \<and>
    (if f \<notin> h_handler ` set (hdlr_que e) then rc = - ENOENT \<and> db' = db
     else rc = 0 \<and> hdlr_que (irq_entries db' ! no) = filter (\<lambda>h. h_handler h \<noteq> f) (hdlr_que e) \<and>
       (\<forall>m < NR_IRQS. m \<noteq> no \<longrightarrow> irq_entries db' ! m = irq_entries db ! m))"
proof -
  have len: "length (irq_entries db) = NR_IRQS" using ok by (simp add: irq_ok_def)
  have e: "(bit (irq_mask db) no \<longleftrightarrow> hdlr_que e = [])" "distinct (map h_handler (hdlr_que e))" "controller e = Some i8259_ctlr"
    "\<forall>h \<in> set (hdlr_que e). h_iflags h AND IRQHDL_FLAG_EXCLUSIVE \<noteq> 0 \<longrightarrow> e_iflags e AND IRQHDL_FLAG_EXCLUSIVE \<noteq> 0"
    using ok no by (auto simp: irq_ok_def Let_def e_def)
  show ?thesis
  proof (cases "f \<in> h_handler ` set (hdlr_que e)")
    case False
    then have "remove_handler (hdlr_que e) f = None" by (simp add: remove_handler_None)
    then show ?thesis using no len ok ln False by (simp add: irq_unregister_irq_handler_def e_def)
  next
    case True
    define hs where "hs = filter (\<lambda>h. h_handler h \<noteq> f) (hdlr_que e)"
    have rm: "remove_handler (hdlr_que e) f = Some hs"
      using True remove_handler_None [of "hdlr_que e" f] remove_handler_Some [OF _ e(2), of f] by (auto simp: hs_def)
    define db1 where "db1 = upd_entry db no (\<lambda>e. e\<lparr>hdlr_que := hs\<rparr>)"
    obtain p where p: "irq_set_mask no db1 = Some (db1\<lparr>irq_pic := p, irq_mask := irq_mask db1 OR push_bit no 1\<rparr>)"
      "lines_ok (db1\<lparr>irq_pic := p, irq_mask := irq_mask db1 OR push_bit no 1\<rparr>)" using irq_set_mask_ok [OF no] by blast
    define db' where "db' = (if hs = [] then db1\<lparr>irq_pic := p, irq_mask := irq_mask db1 OR push_bit no 1\<rparr> else db1)"
    have run: "irq_unregister_irq_handler db no f = Some (0, db')"
      using no len rm p(1) by (simp add: irq_unregister_irq_handler_def e_def [symmetric] db1_def [symmetric] db'_def Let_def del: push_bit_of_1)
    have ent: "irq_entries db' ! m = (if m = no then e\<lparr>hdlr_que := hs\<rparr> else irq_entries db ! m)" for m
      using len no by (simp add: db'_def db1_def upd_entry_nth e_def)
    have mk: "irq_mask db1 = irq_mask db" "spurious_mask db1 = spurious_mask db" "irq_pic db1 = irq_pic db"
      by (simp_all add: db1_def upd_entry_def)
    have "irq_ok db'"
      unfolding irq_ok_def Let_def
    proof (intro conjI allI impI)
      show "length (irq_entries db') = NR_IRQS" using len by (simp add: db'_def db1_def upd_entry_def)
      fix m assume m: "m < NR_IRQS"
      have om: "bit (irq_mask db) m \<longleftrightarrow> hdlr_que (irq_entries db ! m) = []" using ok m by (simp add: irq_ok_def Let_def)
      have "hdlr_que e \<noteq> []" using True by auto
      then show "bit (irq_mask db') m = (hdlr_que (irq_entries db' ! m) = [])"
        using om e(1) no unfolding ent by (auto simp: db'_def mk mask_bits e_def simp del: push_bit_of_1)
      show "distinct (map h_handler (hdlr_que (irq_entries db' ! m)))"
        using ok m e(2) unfolding ent by (auto simp: irq_ok_def Let_def hs_def distinct_map_filter)
      show "controller (irq_entries db' ! m) = Some i8259_ctlr" using ok m e(3) unfolding ent by (simp add: irq_ok_def Let_def)
      show "\<forall>h \<in> set (hdlr_que (irq_entries db' ! m)). h_iflags h AND IRQHDL_FLAG_EXCLUSIVE \<noteq> 0 \<longrightarrow>
          e_iflags (irq_entries db' ! m) AND IRQHDL_FLAG_EXCLUSIVE \<noteq> 0"
        using ok m e(4) unfolding ent by (auto simp: irq_ok_def Let_def hs_def)
    qed
    moreover have "lines_ok db'" using p(2) ln by (simp add: db'_def lines_ok_def mk)
    ultimately show ?thesis using run True ent by (auto simp: hs_def)
  qed
qed

section \<open>Handling an interrupt\<close>

text \<open>The handlers up to and including the first that takes the interrupt.\<close>

lemma call_handlers_eq:
  "call_handlers handle hs = (let fs = map h_handler hs; n = length (takeWhile (\<lambda>f. handle f \<noteq> IRQHDL_RES_HANDLED) fs)
     in (take (n + 1) fs, n < length fs))"
  by (induction hs) (auto simp: Let_def)

lemma cntl_call_ok:
  "fn (of_nat no) (irq_pic db) = Some (0, p) \<Longrightarrow> cntl_call (Some fn) no db = Some (db\<lparr>irq_pic := p\<rparr>)"
  by (simp add: cntl_call_def)

text \<open>The entry as it is after the interrupt: a spurious one is counted.\<close>

lemma handle_irqs_ok:
  fixes handle :: "nat \<Rightarrow> ihandler_res" and db :: irq_manager
  assumes ok: "irq_ok db" and no: "no < NR_IRQS" and ti: "ti_dec_intr (ti_inc_intr ti) = Some ti"
  defines "e \<equiv> irq_entries db ! no"
  defines "fs \<equiv> map h_handler (hdlr_que e)"
  defines "n \<equiv> length (takeWhile (\<lambda>f. handle f \<noteq> IRQHDL_RES_HANDLED) fs)"
  defines "off \<equiv> n = length fs \<and> spurious_cnt e + 1 = SPURIOUS_INTR_THRESHOLD"
  shows "\<exists>p. kcom_handle_irqs handle db no ti = Some (take (n + 1) fs,
      db\<lparr>irq_entries := (irq_entries db)[no := (if n < length fs then e else e\<lparr>spurious_cnt := spurious_cnt e + 1\<rparr>)],
         spurious_mask := (if off then spurious_mask db OR push_bit no 1 else spurious_mask db), irq_pic := p\<rparr>, ti) \<and>
    (\<forall>m < NR_IRQS. line_masked p m \<longleftrightarrow> (if m = no then off else line_masked (irq_pic db) m))"
proof -
  have len: "length (irq_entries db) = NR_IRQS" and ctl: "controller e = Some i8259_ctlr"
    using ok no by (auto simp: irq_ok_def Let_def e_def)
  obtain p1 where p1: "i8259_disable_irq (of_nat no) (irq_pic db) = Some (0, p1)"
    "\<forall>m < NR_IRQS. line_masked p1 m \<longleftrightarrow> line_masked (irq_pic db) m \<or> m = no" using i8259_disable_ok [OF no] by blast
  obtain p2 where p2: "i8259_eoi_irq (of_nat no) p1 = Some (0, p2)"
    "\<forall>m < NR_IRQS. line_masked p2 m \<longleftrightarrow> line_masked p1 m \<or> m = no" using i8259_eoi_ok [OF no] by blast
  obtain p3 where p3: "i8259_enable_irq (of_nat no) p2 = Some (0, p3)"
    "\<forall>m < NR_IRQS. line_masked p3 m \<longleftrightarrow> line_masked p2 m \<and> m \<noteq> no" using i8259_enable_ok [OF no] by blast
  obtain p4 where p4: "i8259_disable_irq (of_nat no) p2 = Some (0, p4)"
    "\<forall>m < NR_IRQS. line_masked p4 m \<longleftrightarrow> line_masked p2 m \<or> m = no" using i8259_disable_ok [OF no] by blast
  have nl: "n \<le> length fs" by (simp add: n_def length_takeWhile_le)
  have ch: "call_handlers handle (hdlr_que e) = (take (n + 1) fs, n < length fs)"
    by (simp add: call_handlers_eq fs_def n_def Let_def)
  note calls = cntl_call_ok p1(1) p2(1) p3(1) p4(1)
  show ?thesis
  proof (cases "n < length fs")
    case True
    then have offF: "\<not> off" by (simp add: off_def)
    have es: "(irq_entries db)[no := e] = irq_entries db" by (simp add: e_def)
    show ?thesis
      using no len ctl ch True ti p1(2) p2(2) p3(2) offF
      by (intro exI [of _ p3]) (simp add: kcom_handle_irqs_def e_def [symmetric] i8259_ctlr_def calls es Let_def)
  next
    case False
    define e' where "e' = e\<lparr>spurious_cnt := spurious_cnt e + 1\<rparr>"
    have nfs: "n = length fs" using False nl by simp
    have up: "upd_entry (db\<lparr>irq_pic := p2\<rparr>) no (\<lambda>e. e\<lparr>spurious_cnt := spurious_cnt e + 1\<rparr>) =
        db\<lparr>irq_entries := (irq_entries db)[no := e'], irq_pic := p2\<rparr>" by (simp add: upd_entry_def e'_def e_def)
    have base: "kcom_handle_irqs handle db no ti = do {
        db' \<leftarrow> (if spurious_cnt e' = SPURIOUS_INTR_THRESHOLD then do {
            db' \<leftarrow> cntl_call (Some i8259_disable_irq) no (db\<lparr>irq_entries := (irq_entries db)[no := e'], irq_pic := p2\<rparr>);
            Some (db'\<lparr>spurious_mask := spurious_mask db' OR push_bit no 1\<rparr>) }
          else cntl_call (Some i8259_enable_irq) no (db\<lparr>irq_entries := (irq_entries db)[no := e'], irq_pic := p2\<rparr>));
        Some (take (n + 1) fs, db', ti) }"
      using no len ctl ch False ti
      by (simp add: kcom_handle_irqs_def e_def [symmetric] i8259_ctlr_def calls up Let_def del: push_bit_of_1)
    show ?thesis
    proof (cases off)
      case True
      then have "spurious_cnt e' = SPURIOUS_INTR_THRESHOLD" by (simp add: off_def e'_def)
      then show ?thesis unfolding base using False True nfs p1(2) p2(2) p4(2)
        by (intro exI [of _ p4]) (simp add: calls e'_def del: push_bit_of_1)
    next
      case no_off: False
      then have "spurious_cnt e' \<noteq> SPURIOUS_INTR_THRESHOLD" using nfs by (simp add: off_def e'_def)
      then show ?thesis unfolding base using False no_off nfs p1(2) p2(2) p3(2)
        by (intro exI [of _ p3]) (simp add: calls e'_def)
    qed
  qed
qed

section \<open>Bringing the controller up\<close>

lemma pic_disable_from_ok:
  "i + k \<le> I8259_MAX_IRQ_NR \<Longrightarrow> \<exists>p'. pic_disable_from i k p = Some p' \<and>
    (\<forall>m < I8259_MAX_IRQ_NR. line_masked p' m \<longleftrightarrow> line_masked p m \<or> i \<le> m \<and> m < i + k \<and> m \<noteq> I8259_PIC1_ICW3_CODE)"
proof (induction k arbitrary: i p)
  case (Suc k)
  obtain q where q: "(if i = I8259_PIC1_ICW3_CODE then Some p else map_option snd (i8259_disable_irq (of_nat i) p)) = Some q"
    "pic_disable_from i (Suc k) p = pic_disable_from (i + 1) k q"
    "\<forall>m < I8259_MAX_IRQ_NR. line_masked q m \<longleftrightarrow> line_masked p m \<or> m = i \<and> i \<noteq> I8259_PIC1_ICW3_CODE"
    using i8259_disable_ok [of i p] Suc.prems by (cases "i = I8259_PIC1_ICW3_CODE") auto
  obtain p' where p': "pic_disable_from (i + 1) k q = Some p'"
    "\<forall>m < I8259_MAX_IRQ_NR. line_masked p' m \<longleftrightarrow> line_masked q m \<or> i + 1 \<le> m \<and> m < i + 1 + k \<and> m \<noteq> I8259_PIC1_ICW3_CODE"
    using Suc.IH [of "i + 1" q] Suc.prems by auto
  have "line_masked p' m \<longleftrightarrow> line_masked p m \<or> i \<le> m \<and> m < i + Suc k \<and> m \<noteq> I8259_PIC1_ICW3_CODE"
    if "m < I8259_MAX_IRQ_NR" for m
    using q(3) [rule_format, OF that] p'(2) [rule_format, OF that] by auto
  then show ?case using q(2) p'(1) by auto
qed auto

lemma register_from_ok:
  "i + k = NR_IRQS \<Longrightarrow> length (irq_entries db) = NR_IRQS \<Longrightarrow> \<forall>m < NR_IRQS. i \<le> m \<longrightarrow> controller (irq_entries db ! m) = None \<Longrightarrow>
    register_from i k db = Some (db\<lparr>irq_entries := take i (irq_entries db) @
      map (\<lambda>e. e\<lparr>controller := Some i8259_ctlr\<rparr>) (drop i (irq_entries db))\<rparr>)"
proof (induction k arbitrary: i db)
  case (Suc k)
  define db1 where "db1 = upd_entry db i (\<lambda>e. e\<lparr>controller := Some i8259_ctlr\<rparr>)"
  have i: "i < NR_IRQS" using Suc.prems(1) by simp
  have "register_from i (Suc k) db = register_from (i + 1) k db1"
    using i Suc.prems(2,3) by (simp add: kcom_irq_register_controller_def db1_def)
  also have "\<dots> = Some (db1\<lparr>irq_entries := take (i + 1) (irq_entries db1) @
      map (\<lambda>e. e\<lparr>controller := Some i8259_ctlr\<rparr>) (drop (i + 1) (irq_entries db1))\<rparr>)"
    using Suc.prems i by (intro Suc.IH) (simp_all add: db1_def upd_entry_nth, simp_all add: upd_entry_def)
  also have "\<dots> = Some (db\<lparr>irq_entries := take i (irq_entries db) @
      map (\<lambda>e. e\<lparr>controller := Some i8259_ctlr\<rparr>) (drop i (irq_entries db))\<rparr>)"
    using i Suc.prems(2)
    by (simp add: db1_def upd_entry_def take_Suc_conv_app_nth take_update_cancel drop_update_cancel flip: Cons_nth_drop_Suc)
  finally show ?case .
qed simp

lemma i8259_init_ok: "\<exists>db. init_i8259_pic (irq_init_subsys p) = Some db \<and> irq_ok db \<and> lines_ok db \<and>
    irq_entries db = replicate NR_IRQS \<lparr>e_iflags = IRQHDL_FLAG_MULTI, spurious_cnt = 0, hdlr_que = [], controller = Some i8259_ctlr\<rparr>"
proof -
  define db0 where "db0 = irq_init_subsys p"
  have db0: "length (irq_entries db0) = NR_IRQS" "\<forall>m < NR_IRQS. controller (irq_entries db0 ! m) = None"
    "\<forall>m < NR_IRQS. hdlr_que (irq_entries db0 ! m) = []" "irq_mask db0 = NOT 0"
    by (simp_all add: db0_def irq_init_subsys_def)
  obtain q where q: "\<And>m. m < I8259_MAX_IRQ_NR \<Longrightarrow> m \<noteq> I8259_PIC1_ICW3_CODE \<Longrightarrow> line_masked q m"
    "init_i8259_pic db0 = register_from 0 I8259_MAX_IRQ_NR (db0\<lparr>irq_pic := q\<rparr>)"
  proof -
    define p8 where "p8 = fold (\<lambda>(a, v) p. out_port_byte p a v) [(I8259_PIC1_BASE_ADDR1, 0x11), (I8259_PIC1_BASE_ADDR2, 0x20),
      (I8259_PIC1_BASE_ADDR2, 0x02), (I8259_PIC1_BASE_ADDR2, 0x11), (I8259_PIC2_BASE_ADDR1, 0x11), (I8259_PIC2_BASE_ADDR2, 0x28),
      (I8259_PIC2_BASE_ADDR2, 0x02), (I8259_PIC2_BASE_ADDR2, 0x01)] (irq_pic db0)"
    obtain p9 where p9: "pic_disable_from 0 I8259_MAX_IRQ_NR p8 = Some p9"
      "\<forall>m < I8259_MAX_IRQ_NR. line_masked p9 m \<longleftrightarrow> line_masked p8 m \<or> m \<noteq> I8259_PIC1_ICW3_CODE"
      using pic_disable_from_ok [of 0 I8259_MAX_IRQ_NR p8] by auto
    obtain q where q: "i8259_enable_irq (of_nat I8259_PIC1_ICW3_CODE) p9 = Some (0, q)"
      "\<forall>m < I8259_MAX_IRQ_NR. line_masked q m \<longleftrightarrow> line_masked p9 m \<and> m \<noteq> I8259_PIC1_ICW3_CODE"
      using i8259_enable_ok [of I8259_PIC1_ICW3_CODE p9] by auto
    have "init_i8259_pic db0 = do {
      p \<leftarrow> pic_disable_from 0 I8259_MAX_IRQ_NR p8;
      (rc, p) \<leftarrow> i8259_enable_irq (of_nat I8259_PIC1_ICW3_CODE) p;
      kassert (rc = 0);
      register_from 0 I8259_MAX_IRQ_NR (db0\<lparr>irq_pic := p\<rparr>) }"
      unfolding init_i8259_pic_def p8_def Let_def by (simp only: fold_simps prod.case)
    then have "init_i8259_pic db0 = register_from 0 I8259_MAX_IRQ_NR (db0\<lparr>irq_pic := q\<rparr>)"
      unfolding p9(1) q(1) using q(1) by simp
    then show ?thesis using p9(2) q(2) that [of q] by blast
  qed
  define db where "db = db0\<lparr>irq_pic := q, irq_entries := map (\<lambda>e. e\<lparr>controller := Some i8259_ctlr\<rparr>) (irq_entries db0)\<rparr>"
  have "init_i8259_pic db0 = Some db"
    unfolding q(2) by (subst register_from_ok) (simp_all add: db0 db_def)
  moreover have "irq_ok db" by (simp add: irq_ok_def db_def db0 bit_not_iff Let_def)
  moreover have "lines_ok db" using q(1) by (auto simp: lines_ok_def db_def db0 bit_not_iff)
  moreover have "irq_entries db = replicate NR_IRQS \<lparr>e_iflags = IRQHDL_FLAG_MULTI, spurious_cnt = 0, hdlr_que = [], controller = Some i8259_ctlr\<rparr>"
    by (simp add: db_def db0_def irq_init_subsys_def)
  ultimately show ?thesis unfolding db0_def by blast
qed

section \<open>Histories\<close>

text \<open>
  Handlers come and go and interrupts arrive, in any order.  An interrupt arrives on a line the
  controller does not mask, and the interrupt nesting counter is not about to wrap.
\<close>

inductive irq_step :: "irq_manager \<Rightarrow> irq_manager \<Rightarrow> bool" where
  register: "no < NR_IRQS \<Longrightarrow> irq_register_irq_handler mem db no f fl d = Some (rc, db') \<Longrightarrow> irq_step db db'"
| unregister: "no < NR_IRQS \<Longrightarrow> irq_unregister_irq_handler db no f = Some (rc, db') \<Longrightarrow> irq_step db db'"
| interrupt: "no < NR_IRQS \<Longrightarrow> \<not> line_masked (irq_pic db) no \<Longrightarrow> intrcnt ti + 1 \<noteq> 0 \<Longrightarrow>
    kcom_handle_irqs handle db no ti = Some (called, db', ti') \<Longrightarrow> irq_step db db'"

inductive_cases irq_stepE: "irq_step db db'"

lemma intr_nesting:
  "intrcnt ti + 1 \<noteq> 0 \<Longrightarrow> ti_dec_intr (ti_inc_intr ti) = Some ti"
  by (simp add: ti_dec_intr_def ti_inc_intr_def word_neq_0_conv [symmetric])

lemma irq_ok_spurious:
  assumes "irq_ok db" and "no < NR_IRQS"
  shows "irq_ok (db\<lparr>irq_entries := (irq_entries db)[no := (irq_entries db ! no)\<lparr>spurious_cnt := c\<rparr>], spurious_mask := sm, irq_pic := p\<rparr>)"
  using assms by (auto simp: irq_ok_def Let_def nth_list_update)

lemma interrupt_keeps:
  assumes ok: "irq_ok db" and ln: "lines_ok db" and no: "no < NR_IRQS" and open_line: "\<not> line_masked (irq_pic db) no"
    and ti: "intrcnt ti + 1 \<noteq> 0" and run: "kcom_handle_irqs handle db no ti = Some (called, db', ti')"
  shows "irq_ok db' \<and> lines_ok db'"
proof -
  define e where "e = irq_entries db ! no"
  define fs where "fs = map h_handler (hdlr_que e)"
  define n where "n = length (takeWhile (\<lambda>f. handle f \<noteq> IRQHDL_RES_HANDLED) fs)"
  define off where "off \<longleftrightarrow> n = length fs \<and> spurious_cnt e + 1 = SPURIOUS_INTR_THRESHOLD"
  define c where "c = (if n < length fs then spurious_cnt e else spurious_cnt e + 1)"
  define sm where "sm = (if off then spurious_mask db OR push_bit no 1 else spurious_mask db)"
  have c: "(if n < length fs then e else e\<lparr>spurious_cnt := spurious_cnt e + 1\<rparr>) = e\<lparr>spurious_cnt := c\<rparr>" by (simp add: c_def)
  obtain p where p: "db' = db\<lparr>irq_entries := (irq_entries db)[no := e\<lparr>spurious_cnt := c\<rparr>], spurious_mask := sm, irq_pic := p\<rparr>"
    "\<forall>m < NR_IRQS. line_masked p m \<longleftrightarrow> (if m = no then off else line_masked (irq_pic db) m)"
    using handle_irqs_ok [OF ok no intr_nesting [OF ti], of handle] run
    unfolding e_def [symmetric] fs_def [symmetric] n_def [symmetric] off_def [symmetric] sm_def [symmetric] c by auto
  have "irq_ok db'" unfolding p(1) e_def by (rule irq_ok_spurious [OF ok no])
  moreover have "lines_ok db'"
    unfolding lines_ok_def
  proof (intro allI impI)
    fix m assume m: "m < NR_IRQS" "m \<noteq> I8259_PIC1_ICW3_CODE"
    have "line_masked (irq_pic db) m \<longleftrightarrow> bit (irq_mask db) m \<or> bit (spurious_mask db) m" using ln m by (simp add: lines_ok_def)
    moreover have "bit sm m \<longleftrightarrow> bit (spurious_mask db) m \<or> off \<and> m = no"
      using no by (simp add: sm_def mask_bits del: push_bit_of_1)
    ultimately show "line_masked (irq_pic db') m \<longleftrightarrow> bit (irq_mask db') m \<or> bit (spurious_mask db') m"
      using p(2) [rule_format, OF m(1)] open_line by (auto simp: p(1))
  qed
  ultimately show ?thesis ..
qed

interpretation irq_history: kept_by_steps irq_step "\<lambda>db. irq_ok db \<and> lines_ok db"
proof
  fix db db' assume ok: "irq_ok db \<and> lines_ok db" and st: "irq_step db db'"
  from st show "irq_ok db' \<and> lines_ok db'"
  proof cases
    case (register no mem f fl d rc)
    then show ?thesis using register_ok [of db no mem f fl d] ok by auto
  next
    case (unregister no f rc)
    then show ?thesis using unregister_ok [of db no f] ok by auto
  next
    case (interrupt no ti handle called ti')
    then show ?thesis using interrupt_keeps ok by blast
  qed
qed

lemma history_ok:
  "init_i8259_pic (irq_init_subsys p) = Some db0 \<Longrightarrow> irq_step\<^sup>*\<^sup>* db0 db \<Longrightarrow> irq_ok db \<and> lines_ok db"
  using i8259_init_ok [of p] irq_history.run_keeps by auto

section \<open>Properties\<close>

text \<open>
  Claim C34. Interrupt masking.  After the initialisation of the table and of the i8259, and any
  sequence of registrations, removals and interrupts that arrive on lines the controller does not mask, an interrupt line
  other than line 2, the cascade of the second controller, is
  masked in the controller's registers exactly when it has no handler or has been given up as
  spurious, and no function is installed twice on a line.  (The cascade stays open without a handler; an
  interrupt on a masked line, which the controller never raises, would open the line.)
\<close>

theorem irq_masking:
  assumes "init_i8259_pic (irq_init_subsys p) = Some db0" and "irq_step\<^sup>*\<^sup>* db0 db" and "no < NR_IRQS"
  shows "(no \<noteq> I8259_PIC1_ICW3_CODE \<longrightarrow>
      (line_masked (irq_pic db) no \<longleftrightarrow> hdlr_que (irq_entries db ! no) = [] \<or> bit (spurious_mask db) no)) \<and>
    distinct (map h_handler (hdlr_que (irq_entries db ! no)))"
  using history_ok [OF assms(1,2)] assms(3) by (auto simp: irq_ok_def lines_ok_def Let_def)

text \<open>
  Registration and removal of interrupt handlers in any reachable state: a registration
  fails with \<open>ENOMEM\<close>, \<open>EBUSY\<close> (the function is installed already) or \<open>EPERM\<close> (the line excludes
  shared handlers) and changes nothing, or appends the handler and touches no other line; removing
  it afterwards gives the line its old handlers back, and removing it once more is \<open>ENOENT\<close>.
\<close>

theorem irq_register_roundtrip:
  assumes "init_i8259_pic (irq_init_subsys p) = Some db0" and "irq_step\<^sup>*\<^sup>* db0 db" and "no < NR_IRQS"
  shows "\<exists>rc db1. irq_register_irq_handler mem db no f fl d = Some (rc, db1) \<and>
    (rc = - ENOMEM \<and> \<not> mem \<and> db1 = db \<or>
     rc = - EBUSY \<and> mem \<and> f \<in> h_handler ` set (hdlr_que (irq_entries db ! no)) \<and> db1 = db \<or>
     rc = - EPERM \<and> fl AND IRQHDL_FLAG_EXCLUSIVE = 0 \<and> e_iflags (irq_entries db ! no) AND IRQHDL_FLAG_EXCLUSIVE \<noteq> 0 \<and> db1 = db \<or>
     rc = 0 \<and> hdlr_que (irq_entries db1 ! no) = hdlr_que (irq_entries db ! no) @ [\<lparr>h_iflags = fl, h_private = d, h_handler = f\<rparr>] \<and>
       (\<forall>m < NR_IRQS. m \<noteq> no \<longrightarrow> irq_entries db1 ! m = irq_entries db ! m) \<and>
       (\<exists>db2. irq_unregister_irq_handler db1 no f = Some (0, db2) \<and>
          map hdlr_que (irq_entries db2) = map hdlr_que (irq_entries db) \<and>
          irq_unregister_irq_handler db2 no f = Some (- ENOENT, db2)))"
proof -
  define e where "e = irq_entries db ! no"
  have ok: "irq_ok db" "lines_ok db" using history_ok [OF assms(1,2)] by auto
  from register_ok [OF ok assms(3), of mem f fl d, folded e_def] obtain rc db1
    where r: "irq_register_irq_handler mem db no f fl d = Some (rc, db1)" "irq_ok db1" "lines_ok db1"
      and b: "if \<not> mem then rc = - ENOMEM \<and> db1 = db
       else if f \<in> h_handler ` set (hdlr_que e) then rc = - EBUSY \<and> db1 = db
       else if fl AND IRQHDL_FLAG_EXCLUSIVE = 0 \<and> e_iflags e AND IRQHDL_FLAG_EXCLUSIVE \<noteq> 0 then rc = - EPERM \<and> db1 = db
       else rc = 0 \<and> hdlr_que (irq_entries db1 ! no) = hdlr_que e @ [\<lparr>h_iflags = fl, h_private = d, h_handler = f\<rparr>] \<and>
         (\<forall>m < NR_IRQS. m \<noteq> no \<longrightarrow> irq_entries db1 ! m = irq_entries db ! m)"
    by (elim exE conjE) (rule that)
  define go where "go \<longleftrightarrow> mem \<and> f \<notin> h_handler ` set (hdlr_que e) \<and> \<not> (fl AND IRQHDL_FLAG_EXCLUSIVE = 0 \<and> e_iflags e AND IRQHDL_FLAG_EXCLUSIVE \<noteq> 0)"
  show ?thesis
  proof (cases go)
    case False
    then show ?thesis using r(1) b unfolding go_def e_def by (intro exI [of _ rc] exI [of _ db1]) (auto split: if_splits)
  next
    case True
    have new: "rc = 0" "hdlr_que (irq_entries db1 ! no) = hdlr_que e @ [\<lparr>h_iflags = fl, h_private = d, h_handler = f\<rparr>]"
      "\<forall>m < NR_IRQS. m \<noteq> no \<longrightarrow> irq_entries db1 ! m = irq_entries db ! m" using b True by (auto simp: go_def split: if_splits)
    have old: "f \<notin> h_handler ` set (hdlr_que e)" using True by (simp add: go_def)
    then have flt: "filter (\<lambda>h. h_handler h \<noteq> f) (hdlr_que (irq_entries db1 ! no)) = hdlr_que e"
      unfolding new(2) by (auto intro!: filter_True)
    have inst: "f \<in> h_handler ` set (hdlr_que (irq_entries db1 ! no))" by (simp add: new(2))
    from unregister_ok [OF r(2,3) assms(3), of f] inst obtain db2
      where u: "irq_unregister_irq_handler db1 no f = Some (0, db2)" "irq_ok db2" "lines_ok db2" "hdlr_que (irq_entries db2 ! no) = hdlr_que e"
        "\<forall>m < NR_IRQS. m \<noteq> no \<longrightarrow> irq_entries db2 ! m = irq_entries db1 ! m" unfolding flt by auto
    have que: "hdlr_que (irq_entries db2 ! m) = hdlr_que (irq_entries db ! m)" if "m < NR_IRQS" for m
      using u(4,5) new(3) that by (cases "m = no") (auto simp: e_def)
    have "map hdlr_que (irq_entries db2) = map hdlr_que (irq_entries db)"
      using ok(1) u(2) que by (intro nth_equalityI) (auto simp: irq_ok_def)
    moreover have "irq_unregister_irq_handler db2 no f = Some (- ENOENT, db2)"
      using unregister_ok [OF u(2,3) assms(3), of f] old by (simp add: u(4))
    ultimately show ?thesis using r(1) new u(1) unfolding e_def by auto
  qed
qed

text \<open>
  Claim C35. Handling an interrupt in any reachable state: the handlers of the line are called in the
  order of registration up to and including the first that takes the interrupt; then the line is open
  again.  If none takes it, it is counted as spurious, and the sixty-fourth spurious interrupt closes
  the line and records it; no other line changes and the nesting count is restored.
\<close>

theorem irq_handle_spec:
  fixes handle :: "nat \<Rightarrow> ihandler_res" and db :: irq_manager
  assumes "init_i8259_pic (irq_init_subsys p) = Some db0" and "irq_step\<^sup>*\<^sup>* db0 db" and "no < NR_IRQS" and "intrcnt ti + 1 \<noteq> 0"
  defines "e \<equiv> irq_entries db ! no"
  defines "fs \<equiv> map h_handler (hdlr_que e)"
  defines "n \<equiv> length (takeWhile (\<lambda>f. handle f \<noteq> IRQHDL_RES_HANDLED) fs)"
  defines "off \<equiv> n = length fs \<and> spurious_cnt e + 1 = SPURIOUS_INTR_THRESHOLD"
  shows "\<exists>p. kcom_handle_irqs handle db no ti = Some (take (n + 1) fs,
      db\<lparr>irq_entries := (irq_entries db)[no := (if n < length fs then e else e\<lparr>spurious_cnt := spurious_cnt e + 1\<rparr>)],
         spurious_mask := (if off then spurious_mask db OR push_bit no 1 else spurious_mask db), irq_pic := p\<rparr>, ti) \<and>
    (\<forall>m < NR_IRQS. line_masked p m \<longleftrightarrow> (if m = no then off else line_masked (irq_pic db) m))"
  unfolding off_def n_def fs_def e_def
  using history_ok [OF assms(1,2)] by (intro handle_irqs_ok assms(3) intr_nesting assms(4)) simp

section \<open>What the code does not mean to do\<close>

text \<open>
  Removing a handler never clears the exclusive mark of its line: after an exclusive handler has
  come and gone the line has no handler, and still refuses every shared one.
\<close>

lemma exclusive_mark_stays:
  assumes "no < NR_IRQS" and "length (irq_entries db) = NR_IRQS" and "hdlr_que (irq_entries db ! no) = []"
    and "irq_register_irq_handler True db no f IRQHDL_FLAG_EXCLUSIVE d = Some (rc1, db1)"
    and "irq_unregister_irq_handler db1 no f = Some (rc2, db2)"
  shows "hdlr_que (irq_entries db2 ! no) = [] \<and> irq_register_irq_handler True db2 no g IRQHDL_FLAG_MULTI d' = Some (- EPERM, db2)"
proof -
  have ex: "(x OR 1) AND 1 \<noteq> 0" for x :: u32 by (simp add: bit.conj_disj_distrib2)
  have 1: "irq_entries db1 = (irq_entries db)[no := (irq_entries db ! no)\<lparr>e_iflags := e_iflags (irq_entries db ! no) OR 1,
      hdlr_que := [\<lparr>h_iflags = 1, h_private = d, h_handler = f\<rparr>]\<rparr>]"
    using assms(1-4) by (auto simp: irq_register_irq_handler_def is_irq_handler_installed_nolock_def irq_unset_mask_def upd_entry_def Let_def)
  have 2: "irq_entries db2 = (irq_entries db1)[no := (irq_entries db1 ! no)\<lparr>hdlr_que := []\<rparr>]"
    using assms(1,2,5) by (auto simp: 1 irq_unregister_irq_handler_def irq_set_mask_def upd_entry_def Let_def)
  show ?thesis using assms(1,2) ex
    by (simp add: 1 2 irq_register_irq_handler_def is_irq_handler_installed_nolock_def Let_def)
qed

text \<open>A line without a controller is dereferenced before the test that would report it.\<close>

lemma no_controller_faults:
  "no < NR_IRQS \<Longrightarrow> length (irq_entries db) = NR_IRQS \<Longrightarrow> controller (irq_entries db ! no) = None \<Longrightarrow> kcom_handle_irqs handle db no ti = None"
  by (simp add: kcom_handle_irqs_def)

section \<open>Witnesses\<close>

definition cold_pic :: pic where
  "cold_pic = \<lparr>port_value = (\<lambda>_. 0), port_writes = []\<rparr>"

definition cold_ti :: thread_info where
  "cold_ti = \<lparr>ti_magic = THR_THREAD_INFO_MAGIC, intrcnt = 0, preempt = 0, ti_flags = 0, arch_flags = 0, ti_thr = 0, ti_cpu = 0\<rparr>"

lemma cold_line:
  "\<exists>db0 db. init_i8259_pic (irq_init_subsys cold_pic) = Some db0 \<and> irq_step\<^sup>*\<^sup>* db0 db \<and>
    irq_entries db ! 4 = \<lparr>e_iflags = 0, spurious_cnt = 0, hdlr_que = [\<lparr>h_iflags = 0, h_private = 0, h_handler = 7\<rparr>], controller = Some i8259_ctlr\<rparr> \<and>
    spurious_mask db = spurious_mask db0"
proof -
  obtain db0 where 0: "init_i8259_pic (irq_init_subsys cold_pic) = Some db0"
    "irq_entries db0 = replicate NR_IRQS \<lparr>e_iflags = IRQHDL_FLAG_MULTI, spurious_cnt = 0, hdlr_que = [], controller = Some i8259_ctlr\<rparr>"
    using i8259_init_ok by blast
  obtain db where db: "irq_register_irq_handler True db0 4 7 0 0 = Some (0, db)"
    "irq_entries db ! 4 = \<lparr>e_iflags = 0, spurious_cnt = 0, hdlr_que = [\<lparr>h_iflags = 0, h_private = 0, h_handler = 7\<rparr>], controller = Some i8259_ctlr\<rparr>"
    "spurious_mask db = spurious_mask db0"
    by (simp add: irq_register_irq_handler_def is_irq_handler_installed_nolock_def irq_unset_mask_def upd_entry_def 0(2) Let_def)
  have "irq_step db0 db" using db(1) by (rule irq_step.register [rotated]) simp
  then show ?thesis using 0(1) db(2,3) by blast
qed

theorem irq_masking_witness:
  "\<exists>db0 db. init_i8259_pic (irq_init_subsys cold_pic) = Some db0 \<and> irq_step\<^sup>*\<^sup>* db0 db \<and> hdlr_que (irq_entries db ! 4) \<noteq> [] \<and>
    (line_masked (irq_pic db) 4 \<longleftrightarrow> bit (spurious_mask db) 4)"
proof -
  obtain db0 db where d: "init_i8259_pic (irq_init_subsys cold_pic) = Some db0" "irq_step\<^sup>*\<^sup>* db0 db" "hdlr_que (irq_entries db ! 4) \<noteq> []"
    using cold_line by fastforce
  then show ?thesis using irq_masking [OF d(1,2), of 4] by auto
qed

theorem irq_register_roundtrip_witness:
  "\<exists>db0 db db1. init_i8259_pic (irq_init_subsys cold_pic) = Some db0 \<and> irq_step\<^sup>*\<^sup>* db0 db \<and>
    irq_register_irq_handler True db 4 8 0 0 = Some (0, db1) \<and> map h_handler (hdlr_que (irq_entries db1 ! 4)) = [7, 8] \<and>
    (\<exists>db2. irq_unregister_irq_handler db1 4 8 = Some (0, db2) \<and> irq_unregister_irq_handler db2 4 8 = Some (- ENOENT, db2))"
proof -
  obtain db0 db where d: "init_i8259_pic (irq_init_subsys cold_pic) = Some db0" "irq_step\<^sup>*\<^sup>* db0 db"
    "hdlr_que (irq_entries db ! 4) = [\<lparr>h_iflags = 0, h_private = 0, h_handler = 7\<rparr>]" "e_iflags (irq_entries db ! 4) = 0"
    using cold_line by fastforce
  show ?thesis using irq_register_roundtrip [OF d(1,2), of 4 True 8 0 0] d by (fastforce simp: d(3,4))
qed

theorem irq_handle_spec_witness:
  "\<exists>db0 db db'. init_i8259_pic (irq_init_subsys cold_pic) = Some db0 \<and> irq_step\<^sup>*\<^sup>* db0 db \<and>
    kcom_handle_irqs (\<lambda>_. IRQHDL_RES_HANDLED) db 4 cold_ti = Some ([7], db', cold_ti) \<and> \<not> line_masked (irq_pic db') 4"
proof -
  obtain db0 db where d: "init_i8259_pic (irq_init_subsys cold_pic) = Some db0" "irq_step\<^sup>*\<^sup>* db0 db"
    "hdlr_que (irq_entries db ! 4) = [\<lparr>h_iflags = 0, h_private = 0, h_handler = 7\<rparr>]" using cold_line by fastforce
  have "intrcnt cold_ti + 1 \<noteq> 0" by (simp add: cold_ti_def)
  from irq_handle_spec [OF d(1,2) _ this, of 4 "\<lambda>_. IRQHDL_RES_HANDLED"] show ?thesis using d by (auto simp: d(3))
qed

end
