(* ===== verification/Timer.thy ===== *)
theory Timer
  imports Thread_Sync Irq "HOL-Library.Multiset"
begin

text \<open>
  Timers: the call-out queue and the timed waits of \<^verbatim>\<open>src/tim/timer.c\<close> and the tick handler of
  \<^verbatim>\<open>src/tim/timer-handler.c\<close>.

  The red-black tree of call-outs, ordered by the tick they expire at, is kept as its sequence in order.  \<open>timeout_handler\<close> is the
  only function the kernel installs as a call-out.  A timed wait is split at the context switch like \<open>sync_wait\<close> in theory
  \<open>Thread_Sync\<close>; its call-out, synchronisation object and blocks live on the stack of the waiting thread and are named by their
  addresses.
\<close>

section \<open>State\<close>

datatype callout_fn = Timeout_handler

record timer_callout =
  co_addr :: nat
  tmout :: u32
  expire :: u64
  co_fn :: "callout_fn option"
  co_data :: nat

record thread_resource =
  gen :: u64
  sys_time :: u64
  user_time :: u64
  children_sys_time :: u64
  children_user_time :: u64

record timer_kernel = sync_kernel +
  tick_cnt :: u64
  callout_que :: "timer_callout list"
  thr_resource :: "nat \<Rightarrow> thread_resource"
  kernel_proc :: nat

abbreviation HZ :: u32 where "HZ \<equiv> 100"
abbreviation (input) THR_RR_PRIO :: u32 where "THR_RR_PRIO \<equiv> 0"

section \<open>The call-out tree\<close>

definition timer_handler_cmp :: "timer_callout \<Rightarrow> timer_callout \<Rightarrow> int" where
  "timer_handler_cmp a b = (if expire a < expire b then - 1 else if expire b < expire a then 1 else 0)"

text \<open>\<^verbatim>\<open>RB_INSERT\<close> gives back the element that already has the key, if there is one.\<close>

fun rb_insert :: "timer_callout \<Rightarrow> timer_callout list \<Rightarrow> timer_callout option \<times> timer_callout list" where
  "rb_insert c [] = (None, [c])"
| "rb_insert c (x # xs) =
     (let comp = timer_handler_cmp c x in
      if comp < 0 then (None, c # x # xs)
      else if comp > 0 then (let (r, ys) = rb_insert c xs in (r, x # ys))
      else (Some x, x # xs))"

text \<open>\<^verbatim>\<open>RB_REMOVE\<close> unlinks the node at the given address, which has to be in the tree.\<close>

definition rb_remove :: "nat \<Rightarrow> timer_callout list \<Rightarrow> timer_callout list option" where
  "rb_remove a xs = (if a \<in> co_addr ` set xs then Some (filter (\<lambda>x. co_addr x \<noteq> a) xs) else None)"

section \<open>Time\<close>

definition ms_to_ticks :: "u32 \<Rightarrow> u64" where
  "ms_to_ticks ms = ucast (ms div (1000 div HZ) + 1)"

definition init_timer_callout :: "timer_callout \<Rightarrow> timer_callout" where
  "init_timer_callout c = c\<lparr>tmout := 0, expire := 0\<rparr>"

text \<open>On one processor the two reads of the count are equal unless a tick comes between them, after which the loop reads again.\<close>

definition tim_refer_uptime_lockfree :: "'a timer_kernel_scheme \<Rightarrow> u64" where
  "tim_refer_uptime_lockfree s = tick_cnt s"

definition tim_setup_uptime_clock :: "'a timer_kernel_scheme \<Rightarrow> 'a timer_kernel_scheme" where
  "tim_setup_uptime_clock s = s\<lparr>tick_cnt := 0\<rparr>"

definition timeout_handler :: "'a timer_kernel_scheme \<Rightarrow> nat \<Rightarrow> 'a timer_kernel_scheme option" where
  "timeout_handler s obj = sync_wake s obj SYNC_WAI_TIMEOUT"

definition timer_cb :: "'a timer_kernel_scheme \<Rightarrow> timer_callout \<Rightarrow> u32 \<Rightarrow> nat \<Rightarrow> timer_callout" where
  "timer_cb s cb outms tobj = (init_timer_callout cb)\<lparr>tmout := outms, expire := ms_to_ticks outms + tim_refer_uptime_lockfree s,
     co_fn := Some Timeout_handler, co_data := tobj\<rparr>"

section \<open>Expiry\<close>

text \<open>The walk over the tree: the successor is taken before the call-out is removed and called, which does not change the rest.\<close>

fun invoke_loop :: "'a timer_kernel_scheme \<Rightarrow> u64 \<Rightarrow> timer_callout list \<Rightarrow> 'a timer_kernel_scheme option" where
  "invoke_loop s cur_tick [] = Some s"
| "invoke_loop s cur_tick (c # cs) =
     (if expire c \<le> cur_tick then do {
        q \<leftarrow> rb_remove (co_addr c) (callout_que s);
        let s = s\<lparr>callout_que := q\<rparr>;
        kassert (co_fn c \<noteq> None);
        s \<leftarrow> timeout_handler s (co_data c);
        invoke_loop s cur_tick cs
      } else invoke_loop s cur_tick cs)"

definition tim_invoke_callout :: "'a timer_kernel_scheme \<Rightarrow> u64 \<Rightarrow> 'a timer_kernel_scheme option" where
  "tim_invoke_callout s cur_tick = do {
     s \<leftarrow> lock_enter s;
     s \<leftarrow> invoke_loop s cur_tick (callout_que s);
     lock_leave s
   }"

text \<open>The tick interrupt; \<open>from_user\<close> is what \<open>hal_is_intr_from_user\<close> says of the interrupted context.\<close>

definition charge_slice :: "'a timer_kernel_scheme \<Rightarrow> 'a timer_kernel_scheme option" where
  "charge_slice s =
     (if prio (threads s (current s)) = THR_RR_PRIO \<and> tid (threads s (current s)) \<noteq> THR_IDLE_TID then do {
        kassert (0 < cur_slice (threads s (current s)));
        let s = upd_thread s (current s) (cur_slice_update (\<lambda>n. n - 1));
        if cur_slice (threads s (current s)) = 0
        then thr_yield (upd_thread s (current s) (\<lambda>t. t\<lparr>cur_slice := slice t\<rparr>))
        else Some s
      } else Some s)"

definition charge_time :: "bool \<Rightarrow> 'a timer_kernel_scheme \<Rightarrow> 'a timer_kernel_scheme" where
  "charge_time from_user s =
     (if thr_p (threads s (current s)) \<noteq> kernel_proc s then
        (let r = thr_resource s (current s);
             r = r\<lparr>gen := gen r + 1\<rparr>;
             r = (if from_user then r\<lparr>user_time := user_time r + 1\<rparr> else r\<lparr>sys_time := sys_time r + 1\<rparr>)
         in s\<lparr>thr_resource := (thr_resource s)(current s := r)\<rparr>)
      else s)"

definition timer_handler :: "bool \<Rightarrow> 'a timer_kernel_scheme \<Rightarrow> 'a timer_kernel_scheme option" where
  "timer_handler from_user s = do {
     s \<leftarrow> lock_enter s;
     let s = s\<lparr>tick_cnt := tick_cnt s + 1\<rparr>;
     let cur_tick = tick_cnt s;
     s \<leftarrow> lock_leave s;
     s \<leftarrow> charge_slice s;
     let s = charge_time from_user s;
     tim_invoke_callout s cur_tick
   }"

text \<open>The handler is registered on its interrupt line under its address \<open>hdlr\<close>; \<open>mem\<close> says whether the memory for the entry is there.\<close>

definition kcom_tim_register_timer_irq :: "nat \<Rightarrow> bool \<Rightarrow> irq_manager \<Rightarrow> nat \<Rightarrow> u64 \<Rightarrow> (int \<times> irq_manager) option" where
  "kcom_tim_register_timer_irq hdlr mem db no data = do {
     kassert (no < NR_IRQS);
     (rc, db) \<leftarrow> irq_register_irq_handler mem db no hdlr IRQHDL_FLAG_EXCLUSIVE data;
     db \<leftarrow> (if rc = 0 then irq_unset_mask no db else Some db);
     Some (rc, db)
   }"

definition kcom_tim_unregister_timer_irq :: "nat \<Rightarrow> irq_manager \<Rightarrow> nat \<Rightarrow> (int \<times> irq_manager) option" where
  "kcom_tim_unregister_timer_irq hdlr db no = irq_unregister_irq_handler db no hdlr"

section \<open>Timed waits\<close>

definition tim_wait_block :: "'a timer_kernel_scheme \<Rightarrow> nat \<Rightarrow> nat \<Rightarrow> timer_callout \<Rightarrow> u32 \<Rightarrow> (wait_outcome \<times> 'a timer_kernel_scheme) option" where
  "tim_wait_block s tobj b cb outms = do {
     tob \<leftarrow> sync_init_object SYNC_WAKE_FLAG_ALL THR_TSTATE_WAIT;
     let s = s\<lparr>sync_objs := (sync_objs s)(tobj := tob)\<rparr>;
     let c = timer_cb s cb outms tobj;
     s \<leftarrow> lock_enter s;
     let (res, q) = rb_insert c (callout_que s);
     kassert (res = None);
     sync_wait_block (s\<lparr>callout_que := q\<rparr>) tobj b
   }"

definition tim_wait_resume :: "bool \<Rightarrow> 'a timer_kernel_scheme \<Rightarrow> nat \<Rightarrow> nat \<Rightarrow> (sync_reason \<times> 'a timer_kernel_scheme) option" where
  "tim_wait_resume in_unlock s tobj b = do {
     (res, s) \<leftarrow> sync_wait_resume in_unlock s tobj b;
     s \<leftarrow> lock_enter s;
     kassert (so_que (sync_objs s tobj) = []);
     s \<leftarrow> lock_leave s;
     s \<leftarrow> lock_leave s;
     Some (res, s)
   }"

definition wait_time_obj_no_schedule ::
  "'a timer_kernel_scheme \<Rightarrow> nat \<Rightarrow> nat \<Rightarrow> nat \<Rightarrow> nat \<Rightarrow> timer_callout \<Rightarrow> u32 \<Rightarrow> 'a timer_kernel_scheme option" where
  "wait_time_obj_no_schedule s obj timer_obj obj_sb timer_sb cb outms = do {
     kassert (valid_wait_status (wait_kind (sync_objs s obj)));
     tob \<leftarrow> sync_init_object SYNC_WAKE_FLAG_ALL THR_TSTATE_WAIT;
     let s = s\<lparr>sync_objs := (sync_objs s)(timer_obj := tob)\<rparr>;
     let s = sync_init_block s timer_sb;
     let s = sync_init_block s obj_sb;
     let c = timer_cb s cb outms timer_obj;
     let s = upd_thread s (current s) (status_update (\<lambda>_. wait_kind (sync_objs s obj)));
     s \<leftarrow> lock_enter s;
     let s = upd_obj s timer_obj (so_que_update (\<lambda>q. q @ [timer_sb]));
     let (res, q) = rb_insert c (callout_que s);
     kassert (res = None);
     s \<leftarrow> lock_leave (s\<lparr>callout_que := q\<rparr>);
     s \<leftarrow> lock_enter s;
     let s = upd_obj s obj (so_que_update (\<lambda>q. q @ [obj_sb]));
     lock_leave s
   }"

text \<open>
  The result is not initialised in the code: \<open>None\<close> stands for a value that was never set.  Unlinking a block that has already
  been taken out of its queue has no effect.
\<close>

definition finish_wait_time_obj ::
  "'a timer_kernel_scheme \<Rightarrow> nat \<Rightarrow> nat \<Rightarrow> nat \<Rightarrow> nat \<Rightarrow> nat \<Rightarrow> (sync_reason option \<times> 'a timer_kernel_scheme) option" where
  "finish_wait_time_obj s obj timer_obj obj_sb timer_sb cbp = do {
     let res = (if ev_has_pending_events s (current s) then Some SYNC_WAI_DELIVEV else None);
     s \<leftarrow> lock_enter s;
     let res = (if blk_reason (blocks s obj_sb) \<noteq> SYNC_WAI_WAIT then Some (blk_reason (blocks s obj_sb)) else res);
     let s = upd_obj s obj (so_que_update (remove1 obj_sb));
     s \<leftarrow> lock_leave s;
     s \<leftarrow> lock_enter s;
     let s = upd_obj s timer_obj (so_que_update (remove1 timer_sb));
     s \<leftarrow> lock_leave s;
     s \<leftarrow> lock_enter s;
     (res, s) \<leftarrow> (if blk_reason (blocks s timer_sb) = SYNC_WAI_WAIT then do {
            q \<leftarrow> rb_remove cbp (callout_que s);
            Some (res, s\<lparr>callout_que := q\<rparr>)
          } else if blk_reason (blocks s obj_sb) = SYNC_WAI_WAIT then Some (Some (blk_reason (blocks s timer_sb)), s)
          else Some (res, s));
     s \<leftarrow> lock_leave s;
     s \<leftarrow> lock_enter s;
     kassert (so_que (sync_objs s timer_obj) = []);
     s \<leftarrow> lock_leave s;
     Some (res, s)
   }"

text \<open>\<open>tim_wait_obj\<close>, that is \<open>tim_wait_with_callback\<close> with the callback for the lock the caller holds, up to the switch and after it.\<close>

datatype timed_outcome = TSuspended bool | TReturned "sync_reason option"

definition tim_wait_obj_block ::
  "'a timer_kernel_scheme \<Rightarrow> nat \<Rightarrow> nat \<Rightarrow> nat \<Rightarrow> nat \<Rightarrow> timer_callout \<Rightarrow> u32 \<Rightarrow> (timed_outcome \<times> 'a timer_kernel_scheme) option" where
  "tim_wait_obj_block s obj timer_obj obj_sb timer_sb cb outms = do {
     kassert (ti_dispatch_disabled (thr_ti (threads s (current s))));
     let thr = current s;
     s \<leftarrow> wait_time_obj_no_schedule s obj timer_obj obj_sb timer_sb cb outms;
     if thr_in_wait (threads s thr) then do {
       s \<leftarrow> lock_leave s;
       if current s \<noteq> thr then Some (TSuspended True, s)
       else do {
         s \<leftarrow> sched_schedule s;
         Some (TSuspended False, s)
       }
     } else do {
       (res, s) \<leftarrow> finish_wait_time_obj s obj timer_obj obj_sb timer_sb (co_addr cb);
       Some (TReturned res, s)
     }
   }"

definition tim_wait_obj_resume ::
  "bool \<Rightarrow> 'a timer_kernel_scheme \<Rightarrow> nat \<Rightarrow> nat \<Rightarrow> nat \<Rightarrow> nat \<Rightarrow> nat \<Rightarrow> (sync_reason option \<times> 'a timer_kernel_scheme) option" where
  "tim_wait_obj_resume in_unlock s obj timer_obj obj_sb timer_sb cbp = do {
     s \<leftarrow> (if in_unlock then sched_schedule s else Some s);
     s \<leftarrow> lock_enter s;
     finish_wait_time_obj s obj timer_obj obj_sb timer_sb cbp
   }"

section \<open>The order of the call-outs\<close>

definition by_expiry :: "timer_callout list \<Rightarrow> bool" where
  "by_expiry q \<longleftrightarrow> sorted_wrt (\<lambda>a b. expire a < expire b) q"

lemma rb_insert_cases:
  assumes "by_expiry q"
  shows "rb_insert c q = (if \<exists>x \<in> set q. expire x = expire c then (find (\<lambda>x. expire x = expire c) q, q)
    else (None, filter (\<lambda>x. expire x < expire c) q @ c # filter (\<lambda>x. expire c < expire x) q))"
  using assms
proof (induction q)
  case (Cons x q)
  have lt: "\<forall>y \<in> set q. expire x < expire y" and sq: "by_expiry q" using Cons.prems by (auto simp: by_expiry_def)
  consider "expire c < expire x" | "expire c = expire x" | "expire x < expire c" by fastforce
  then show ?case
  proof cases
    case 1
    then have "filter (\<lambda>y. expire y < expire c) q = []" "filter (\<lambda>y. expire c < expire y) q = q" "\<forall>y \<in> set q. expire y \<noteq> expire c"
      using lt by (auto simp: filter_empty_conv filter_id_conv)
    then show ?thesis using 1 by (auto simp: timer_handler_cmp_def Let_def)
  next
    case 2
    then show ?thesis by (auto simp: timer_handler_cmp_def Let_def)
  next
    case 3
    then show ?thesis using Cons.IH [OF sq] by (auto simp: timer_handler_cmp_def Let_def)
  qed
qed (simp add: by_expiry_def)

lemma rb_insert_new:
  assumes "by_expiry q" and "\<forall>x \<in> set q. expire x \<noteq> expire c"
  obtains q' where "rb_insert c q = (None, q')" "by_expiry q'" "set q' = insert c (set q)" "mset q' = add_mset c (mset q)"
proof -
  define q' where "q' = filter (\<lambda>x. expire x < expire c) q @ c # filter (\<lambda>x. expire c < expire x) q"
  have "rb_insert c q = (None, q')" using rb_insert_cases [OF assms(1), of c] assms(2) by (simp add: q'_def)
  moreover have "by_expiry q'" using assms(1) unfolding by_expiry_def q'_def
    by (auto simp: sorted_wrt_append sorted_wrt_filter)
  moreover have m: "mset q' = add_mset c (mset q)"
  proof -
    have e: "expire c < expire x \<longleftrightarrow> \<not> expire x < expire c" if "x \<in> set q" for x using assms(2) that by fastforce
    then have "filter (\<lambda>x. expire c < expire x) q = filter (\<lambda>x. \<not> expire x < expire c) q" by (intro filter_cong) auto
    then show ?thesis using multiset_partition [of "mset q" "\<lambda>x. expire x < expire c"] by (simp add: q'_def)
  qed
  moreover have "set q' = insert c (set q)" using arg_cong [OF m, of set_mset] by simp
  ultimately show thesis using that by blast
qed

section \<open>Waking in an interrupt\<close>

lemma lock_leave_intr:
  assumes "0 < preempt (cur_ti s)" and "0 < intrcnt (cur_ti s)"
  shows "lock_leave s = Some (with_ti s ((cur_ti s)\<lparr>preempt := preempt (cur_ti s) - 1\<rparr>))"
  using assms by (auto simp: lock_leave_def ti_enable_dispatch_def with_ti_def Let_def word_gt_0)

lemma intr_disabled: "0 < intrcnt ti \<Longrightarrow> ti_dispatch_disabled ti"
  by (simp add: ti_dispatch_disabled_def)

lemma sync_wake_intr:
  assumes inv: "sched_inv s" and wt: "waiting s (so_que (sync_objs s obj))" and pol: "so_policy (sync_objs s obj) = SYNC_WAKE_FLAG_ALL"
    and ti: "0 < intrcnt (cur_ti s)" "preempt (cur_ti s) + 1 \<noteq> 0"
  shows "\<exists>s'. sync_wake s obj reason = Some s' \<and> sched_inv s' \<and> woke s obj reason (so_que (sync_objs s obj)) s'"
proof -
  define s1 where "s1 = with_ti s ((cur_ti s)\<lparr>preempt := preempt (cur_ti s) + 1\<rparr>)"
  have enter: "lock_enter s = Some s1" by (simp add: lock_enter_eq s1_def)
  have w1: "waiting s1 (so_que (sync_objs s1 obj))" and i1: "sched_inv s1" using wt inv by (simp_all add: s1_def)
  from sync_wake_loop_ok [OF i1 w1 refl, of reason] pol obtain s2 where
    s2: "sync_wake_loop s1 obj reason (so_que (sync_objs s1 obj)) = Some s2" "sched_inv s2" "woke s1 obj reason (so_que (sync_objs s obj)) s2"
    by (auto simp: s1_def)
  have t2: "preempt (cur_ti s2) = preempt (cur_ti s) + 1" "intrcnt (cur_ti s2) = intrcnt (cur_ti s)" "current s2 = current s"
    using s2(3) by (simp_all add: woke_def s1_def)
  define c where "c = (cur_ti s2)\<lparr>preempt := preempt (cur_ti s2) - 1\<rparr>"
  have leave: "lock_leave s2 = Some (with_ti s2 c)" using lock_leave_intr [of s2] t2 ti by (simp add: c_def word_gt_0)
  have wk: "woke s obj reason (so_que (sync_objs s obj)) (with_ti s2 c)"
    using woke_with_ti [of s "(cur_ti s)\<lparr>preempt := preempt (cur_ti s) + 1\<rparr>" obj reason _ s2 c] s2(3) t2 by (simp add: s1_def c_def)
  show ?thesis
  proof (cases "so_que (sync_objs s obj) = []")
    case True
    define c1 where "c1 = (cur_ti s1)\<lparr>preempt := preempt (cur_ti s)\<rparr>"
    have "lock_leave s1 = Some (with_ti s1 c1)" using lock_leave_intr [of s1] ti by (simp add: s1_def c1_def word_gt_0)
    moreover have "with_ti s1 c1 = s" using with_ti_cur [of s] by (simp add: s1_def c1_def)
    ultimately have "sync_wake s obj reason = Some s" using enter True by (simp add: sync_wake_def s1_def)
    moreover have "woke s obj reason [] s" using woke_nil [OF True, of "cur_ti s" reason] with_ti_cur [of s] by simp
    ultimately show ?thesis using inv True by simp
  next
    case False
    have "sync_wake s obj reason = Some (with_ti s2 c)"
      using enter s2(1) leave False t2 ti(1) by (simp add: sync_wake_def s1_def [symmetric] intr_disabled c_def) (simp add: s1_def)
    then show ?thesis using s2(2) wk by simp
  qed
qed

text \<open>The effect of waking all blocks of the objects \<open>obs\<close>.\<close>

definition blocks_on :: "'a sync_kernel_scheme \<Rightarrow> nat list \<Rightarrow> nat list" where
  "blocks_on s obs = concat (map (\<lambda>ob. so_que (sync_objs s ob)) obs)"

definition woke_all :: "'a sync_kernel_scheme \<Rightarrow> sync_reason \<Rightarrow> nat list \<Rightarrow> 'a sync_kernel_scheme \<Rightarrow> bool" where
  "woke_all s reason obs s' \<longleftrightarrow> current s' = current s \<and> idle_thread s' = idle_thread s \<and> procs s' = procs s \<and> thr_created_tree s' = thr_created_tree s \<and>
     blocks s' = (\<lambda>b. if b \<in> set (blocks_on s obs) then (blocks s b)\<lparr>blk_reason := reason\<rparr> else blocks s b) \<and>
     sync_objs s' = (\<lambda>ob. if ob \<in> set obs then (sync_objs s ob)\<lparr>so_que := []\<rparr> else sync_objs s ob) \<and>
     (\<forall>u. status (threads s' u) = (if u \<in> (\<lambda>b. blk_thr (blocks s b)) ` set (blocks_on s obs) then THR_TSTATE_READY else status (threads s u)) \<and>
        evque (threads s' u) = evque (threads s u) \<and> thr_p (threads s' u) = thr_p (threads s u) \<and>
        prio (threads s' u) = prio (threads s u) \<and> tid (threads s' u) = tid (threads s u) \<and>
        preempt (thr_ti (threads s' u)) = preempt (thr_ti (threads s u)) \<and> intrcnt (thr_ti (threads s' u)) = intrcnt (thr_ti (threads s u)))"

lemma woke_all_Nil: "woke_all s reason [] s"
  by (simp add: woke_all_def blocks_on_def)

lemma woke_all_Cons:
  assumes a: "woke s ob reason (so_que (sync_objs s ob)) s1" and b: "woke_all s1 reason obs s2" and n: "ob \<notin> set obs"
  shows "woke_all s reason (ob # obs) s2"
proof -
  define B where "B = set (blocks_on s obs)"
  have th: "blk_thr (blocks s1 c) = blk_thr (blocks s c)" for c using a by (simp add: woke_def)
  have ob1: "sync_objs s1 = (sync_objs s)(ob := (sync_objs s ob)\<lparr>so_que := []\<rparr>)" using a by (simp add: woke_def)
  have on: "blocks_on s1 obs = blocks_on s obs"
    unfolding blocks_on_def using n ob1 by (intro arg_cong [of _ _ concat] map_cong) auto
  have ons: "set (blocks_on s (ob # obs)) = set (so_que (sync_objs s ob)) \<union> B" by (simp add: blocks_on_def B_def)
  have st: "status (threads s1 u) = (if u \<in> (\<lambda>b. blk_thr (blocks s b)) ` set (so_que (sync_objs s ob)) then THR_TSTATE_READY else status (threads s u))"
    "status (threads s2 u) = (if u \<in> (\<lambda>b. blk_thr (blocks s b)) ` B then THR_TSTATE_READY else status (threads s1 u))" for u
    using a b unfolding woke_def woke_all_def th on B_def by blast+
  have "status (threads s2 u) = (if u \<in> (\<lambda>b. blk_thr (blocks s b)) ` set (blocks_on s (ob # obs)) then THR_TSTATE_READY else status (threads s u))" for u
    unfolding st ons by (simp add: image_Un)
  moreover have "blocks s2 = (\<lambda>b. if b \<in> set (blocks_on s (ob # obs)) then (blocks s b)\<lparr>blk_reason := reason\<rparr> else blocks s b)"
  proof
    fix c
    have "blocks s2 c = (if c \<in> B then (blocks s1 c)\<lparr>blk_reason := reason\<rparr> else blocks s1 c)" using b by (simp add: woke_all_def on B_def)
    moreover have "blocks s1 c = (if c \<in> set (so_que (sync_objs s ob)) then (blocks s c)\<lparr>blk_reason := reason\<rparr> else blocks s c)" using a by (simp add: woke_def)
    ultimately show "blocks s2 c = (if c \<in> set (blocks_on s (ob # obs)) then (blocks s c)\<lparr>blk_reason := reason\<rparr> else blocks s c)" unfolding ons by auto
  qed
  moreover have "sync_objs s2 = (\<lambda>o'. if o' \<in> set (ob # obs) then (sync_objs s o')\<lparr>so_que := []\<rparr> else sync_objs s o')"
    using b ob1 n by (auto simp: woke_all_def fun_eq_iff)
  ultimately show ?thesis using a b unfolding woke_def woke_all_def by simp
qed

lemma waiting_rest:
  assumes wt: "waiting s (W @ bs)" and cur: "current s1 = current s"
    and bk: "blocks s1 = (\<lambda>b. if b \<in> set W then (blocks s b)\<lparr>blk_reason := reason\<rparr> else blocks s b)"
    and st: "\<And>u. status (threads s1 u) = (if u \<in> (\<lambda>b. blk_thr (blocks s b)) ` set W then THR_TSTATE_READY else status (threads s u))"
  shows "waiting s1 bs"
  unfolding waiting_def
proof (intro conjI ballI)
  have th: "blk_thr (blocks s1 c) = blk_thr (blocks s c)" for c by (simp add: bk)
  have inj: "inj_on (\<lambda>b. blk_thr (blocks s b)) (set W \<union> set bs)" and dis: "set W \<inter> set bs = {}" using wt by (auto simp: waiting_def)
  show "distinct bs" using wt by (simp add: waiting_def)
  show "inj_on (\<lambda>b. blk_thr (blocks s1 b)) (set bs)" unfolding th using inj by (rule inj_on_subset) simp
  fix c assume c: "c \<in> set bs"
  have cW: "c \<notin> set W" using c dis by auto
  have nt: "blk_thr (blocks s c) \<notin> (\<lambda>b. blk_thr (blocks s b)) ` set W"
  proof
    assume "blk_thr (blocks s c) \<in> (\<lambda>b. blk_thr (blocks s b)) ` set W"
    then obtain w where "w \<in> set W" "blk_thr (blocks s c) = blk_thr (blocks s w)" by auto
    then show False using inj_onD [OF inj, of c w] c cW by auto
  qed
  have w: "blk_reason (blocks s c) = SYNC_WAI_WAIT" "thr_in_wait (threads s (blk_thr (blocks s c)))" "blk_thr (blocks s c) \<noteq> current s"
    using wt c by (auto simp: waiting_def)
  show "blk_reason (blocks s1 c) = SYNC_WAI_WAIT" using w(1) cW by (simp add: bk)
  show "blk_thr (blocks s1 c) \<noteq> current s1" using w(3) by (simp add: th cur)
  have "status (threads s1 (blk_thr (blocks s c))) = status (threads s (blk_thr (blocks s c)))" using nt by (simp add: st)
  then show "thr_in_wait (threads s1 (blk_thr (blocks s1 c)))" using w(2) unfolding th by (simp add: thr_in_wait_def thr_wait_intr_def thr_wait_killable_def)
qed

lemma waiting_after_woke: "waiting s (W @ bs) \<Longrightarrow> woke s ob reason W s1 \<Longrightarrow> waiting s1 bs"
  by (erule waiting_rest [where reason = reason]) (simp_all add: woke_def)

lemma waiting_after_woke_all: "waiting s (blocks_on s obs @ bs) \<Longrightarrow> woke_all s reason obs s1 \<Longrightarrow> waiting s1 bs"
  by (erule waiting_rest [where reason = reason]) (simp_all add: woke_all_def)

lemma waiting_mset: "mset xs = mset ys \<Longrightarrow> waiting s xs = waiting s ys"
  unfolding waiting_def using mset_eq_setD [of xs ys] mset_eq_imp_distinct_iff [of xs ys] by simp

lemma blocks_on_split: "mset (blocks_on s (map f q)) = mset (blocks_on s (map f (filter P q)) @ blocks_on s (map f (filter (\<lambda>x. \<not> P x) q)))"
  by (induction q) (auto simp: blocks_on_def)

lemma woke_all_with_ti:
  assumes a: "woke_all (with_ti s a) reason obs s1" and c: "preempt c = preempt (cur_ti s)" "intrcnt c = intrcnt (cur_ti s)"
  shows "woke_all s reason obs (with_ti s1 c)"
proof -
  note f = with_ti_fields [of s a] with_ti_fields [of s1 c]
  have cur: "current s1 = current s" using a by (simp add: woke_all_def)
  have on: "blocks_on (with_ti s a) obs = blocks_on s obs" by (simp add: blocks_on_def)
  have "preempt (thr_ti (threads s1 u)) = preempt (thr_ti (threads s u)) \<and>
      intrcnt (thr_ti (threads s1 u)) = intrcnt (thr_ti (threads s u))" if "u \<noteq> current s" for u
    using a that by (simp add: woke_all_def)
  then have cnt: "preempt (thr_ti (threads (with_ti s1 c) u)) = preempt (thr_ti (threads s u)) \<and>
      intrcnt (thr_ti (threads (with_ti s1 c) u)) = intrcnt (thr_ti (threads s u))" for u
    using c cur by (cases "u = current s") simp_all
  show ?thesis using a cnt unfolding woke_all_def f with_ti_sync on by (simp del: with_ti_simps(5) add: with_ti_fields)
qed

section \<open>Expiry\<close>

lemma callout_frame [simp]:
  fixes s :: "'a timer_kernel_scheme"
  shows "waiting (s\<lparr>callout_que := q\<rparr>) bs = waiting s bs" "blocks_on (s\<lparr>callout_que := q\<rparr>) obs = blocks_on s obs"
    "woke_all (s\<lparr>callout_que := q\<rparr>) reason obs s' = woke_all s reason obs s'" "sched_inv (s\<lparr>callout_que := q\<rparr>) = sched_inv s"
proof -
  show "waiting (s\<lparr>callout_que := q\<rparr>) bs = waiting s bs" by (simp add: waiting_def)
  show e: "blocks_on (s\<lparr>callout_que := q\<rparr>) obs = blocks_on s obs" by (simp add: blocks_on_def)
  have f: "current (s\<lparr>callout_que := q\<rparr>) = current s" "idle_thread (s\<lparr>callout_que := q\<rparr>) = idle_thread s" "procs (s\<lparr>callout_que := q\<rparr>) = procs s"
    "thr_created_tree (s\<lparr>callout_que := q\<rparr>) = thr_created_tree s" "blocks (s\<lparr>callout_que := q\<rparr>) = blocks s" "sync_objs (s\<lparr>callout_que := q\<rparr>) = sync_objs s"
    "threads (s\<lparr>callout_que := q\<rparr>) = threads s" by simp_all
  show "woke_all (s\<lparr>callout_que := q\<rparr>) reason obs s' = woke_all s reason obs s'" unfolding woke_all_def e f ..
  show "sched_inv (s\<lparr>callout_que := q\<rparr>) = sched_inv s"
    using sched_inv_cong [of s "s\<lparr>callout_que := q\<rparr>"] sched_inv_cong [of "s\<lparr>callout_que := q\<rparr>" s] by auto
qed

definition same_clock :: "'a timer_kernel_scheme \<Rightarrow> 'a timer_kernel_scheme \<Rightarrow> bool" where
  "same_clock s s' \<longleftrightarrow> tick_cnt s' = tick_cnt s \<and> thr_resource s' = thr_resource s \<and> kernel_proc s' = kernel_proc s \<and> timer_kernel.more s' = timer_kernel.more s"

lemma more_same:
  fixes s s' :: "'a timer_kernel_scheme"
  assumes "sync_kernel.more s' = sync_kernel.more s"
  shows "same_clock s s'" and "callout_que s' = callout_que s"
  using assms by (cases s, cases s', simp add: same_clock_def)+

lemma invoke_loop_ok:
  fixes s :: "'a timer_kernel_scheme"
  assumes "sched_inv s" and "waiting s (blocks_on s (map co_data (filter (\<lambda>c. expire c \<le> t) cs)))" and "distinct (map co_data cs)" and "distinct (map co_addr cs)"
    and "\<forall>c \<in> set cs. co_fn c \<noteq> None \<and> so_policy (sync_objs s (co_data c)) = SYNC_WAKE_FLAG_ALL \<and> co_addr c \<in> co_addr ` set (callout_que s)"
    and "0 < intrcnt (cur_ti s)" and "preempt (cur_ti s) + 1 \<noteq> 0"
  shows "\<exists>s'. invoke_loop s t cs = Some s' \<and> sched_inv s' \<and> woke_all s SYNC_WAI_TIMEOUT (map co_data (filter (\<lambda>c. expire c \<le> t) cs)) s' \<and> same_clock s s' \<and>
    callout_que s' = filter (\<lambda>x. co_addr x \<notin> co_addr ` set (filter (\<lambda>c. expire c \<le> t) cs)) (callout_que s)"
  using assms
proof (induction cs arbitrary: s)
  case Nil
  then show ?case by (auto simp: woke_all_Nil same_clock_def)
next
  case (Cons c cs)
  show ?case
  proof (cases "expire c \<le> t")
    case False
    then show ?thesis using Cons.IH [of s] Cons.prems by simp
  next
    case True
    define E where "E = filter (\<lambda>c. expire c \<le> t) cs"
    define q where "q = filter (\<lambda>x. co_addr x \<noteq> co_addr c) (callout_que s)"
    define s0 where "s0 = s\<lparr>callout_que := q\<rparr>"
    define W where "W = so_que (sync_objs s (co_data c))"
    have s0: "sched_inv s0" "waiting s0 (W @ blocks_on s (map co_data E))" "sync_objs s0 = sync_objs s" "cur_ti s0 = cur_ti s" "current s0 = current s"
      using Cons.prems(1,2) True by (simp_all add: s0_def W_def E_def blocks_on_def)
    have wW: "waiting s0 W" using s0(2) by (auto simp: waiting_def intro: inj_on_subset)
    have wW: "waiting s0 (so_que (sync_objs s0 (co_data c)))" using wW s0(3) by (simp add: W_def)
    have pl: "so_policy (sync_objs s0 (co_data c)) = SYNC_WAKE_FLAG_ALL" using Cons.prems(5) s0(3) by simp
    obtain s1 where s1: "sync_wake s0 (co_data c) SYNC_WAI_TIMEOUT = Some s1" "sched_inv s1" "woke s0 (co_data c) SYNC_WAI_TIMEOUT W s1"
      using sync_wake_intr [OF s0(1) wW pl] Cons.prems(6,7) s0(3,4) by (auto simp: W_def)
    have m: "same_clock s0 s1" "callout_que s1 = q" using more_same [of s1 s0] s1(3) by (simp_all add: woke_def s0_def)
    have nc: "co_data c \<notin> set (map co_data cs)" "co_addr c \<notin> co_addr ` set cs" using Cons.prems(3,4) by auto
    have ob: "sync_objs s1 = (sync_objs s)(co_data c := (sync_objs s (co_data c))\<lparr>so_que := []\<rparr>)"
      using s1(3) s0(3) by (simp add: woke_def W_def)
    have on: "blocks_on s1 (map co_data E) = blocks_on s (map co_data E)"
    proof -
      have "\<forall>d \<in> set (map co_data E). d \<noteq> co_data c" using nc(1) by (auto simp: E_def image_iff)
      then show ?thesis unfolding blocks_on_def ob by (intro arg_cong [of _ _ concat] map_cong) auto
    qed
    have w1: "waiting s1 (blocks_on s1 (map co_data E))" unfolding on by (rule waiting_after_woke [OF s0(2) s1(3)])
    have c1: "\<forall>c \<in> set cs. co_fn c \<noteq> None \<and> so_policy (sync_objs s1 (co_data c)) = SYNC_WAKE_FLAG_ALL \<and> co_addr c \<in> co_addr ` set (callout_que s1)"
    proof
      fix d assume d: "d \<in> set cs"
      have "co_addr d \<noteq> co_addr c" "co_data d \<noteq> co_data c" using nc d by (auto simp: image_iff)
      note ne = this
      have p: "co_fn d \<noteq> None" "so_policy (sync_objs s (co_data d)) = SYNC_WAKE_FLAG_ALL" "co_addr d \<in> co_addr ` set (callout_que s)"
        using Cons.prems(5) d by simp_all
      from p(3) obtain x where "x \<in> set (callout_que s)" "co_addr d = co_addr x" by auto
      then have "co_addr d \<in> co_addr ` set q" using ne(1) by (auto simp: q_def)
      then show "co_fn d \<noteq> None \<and> so_policy (sync_objs s1 (co_data d)) = SYNC_WAKE_FLAG_ALL \<and> co_addr d \<in> co_addr ` set (callout_que s1)"
        using p(1,2) ne(2) unfolding m(2) ob by simp
    qed
    have t1: "0 < intrcnt (cur_ti s1)" "preempt (cur_ti s1) + 1 \<noteq> 0" using s1(3) s0(4,5) Cons.prems(6,7) by (simp_all add: woke_def)
    from Cons.IH [OF s1(2) w1 [unfolded E_def] _ _ c1 t1] Cons.prems(3,4) obtain s' where
      s': "invoke_loop s1 t cs = Some s'" "sched_inv s'" "woke_all s1 SYNC_WAI_TIMEOUT (map co_data E) s'" "same_clock s1 s'"
        "callout_que s' = filter (\<lambda>x. co_addr x \<notin> co_addr ` set E) (callout_que s1)" by (auto simp: E_def)
    have run: "invoke_loop s t (c # cs) = Some s'"
    proof -
      have "rb_remove (co_addr c) (callout_que s) = Some q" using Cons.prems(5) by (simp add: rb_remove_def q_def)
      moreover have "co_fn c \<noteq> None" using Cons.prems(5) by simp
      ultimately show ?thesis using s1(1) s'(1) True by (simp add: timeout_handler_def s0_def [symmetric])
    qed
    have "woke_all s0 SYNC_WAI_TIMEOUT (co_data c # map co_data E) s'"
    proof (rule woke_all_Cons [OF _ s'(3)])
      show "woke s0 (co_data c) SYNC_WAI_TIMEOUT (so_que (sync_objs s0 (co_data c))) s1" using s1(3) s0(3) by (simp add: W_def)
      show "co_data c \<notin> set (map co_data E)" using nc(1) by (auto simp: E_def)
    qed
    then have "woke_all s SYNC_WAI_TIMEOUT (map co_data (filter (\<lambda>c. expire c \<le> t) (c # cs))) s'" using True by (simp add: s0_def E_def)
    moreover have "callout_que s' = filter (\<lambda>x. co_addr x \<notin> co_addr ` set (filter (\<lambda>c. expire c \<le> t) (c # cs))) (callout_que s)"
      unfolding s'(5) m(2) q_def filter_filter using True by (intro filter_cong) (auto simp: E_def)
    moreover have "same_clock s s'" using m(1) s'(4) by (simp add: same_clock_def s0_def)
    ultimately show ?thesis using run s'(2) by blast
  qed
qed

text \<open>
  Every call-out belongs to a wait of its own: its address and its object are its own, the object wakes everybody, and the threads queued
  there wait.
\<close>

definition timer_ok :: "'a timer_kernel_scheme \<Rightarrow> bool" where
  "timer_ok s \<longleftrightarrow> by_expiry (callout_que s) \<and> distinct (map co_addr (callout_que s)) \<and> distinct (map co_data (callout_que s)) \<and>
     (\<forall>c \<in> set (callout_que s). co_fn c \<noteq> None \<and> so_policy (sync_objs s (co_data c)) = SYNC_WAKE_FLAG_ALL) \<and>
     waiting s (blocks_on s (map co_data (callout_que s)))"

lemma timer_ok_with_ti [simp]: "timer_ok (with_ti s ti) = timer_ok s"
proof -
  have "callout_que (with_ti s ti) = callout_que s" by (simp add: with_ti_def upd_thread_def)
  moreover have "blocks_on (with_ti s ti) = blocks_on s" by (simp add: blocks_on_def fun_eq_iff)
  ultimately show ?thesis by (simp add: timer_ok_def)
qed

lemma with_ti_clock [simp]:
  "callout_que (with_ti s ti) = callout_que s" "same_clock s (with_ti s' ti) = same_clock s s'" "same_clock (with_ti s ti) s' = same_clock s s'"
  by (simp_all add: with_ti_def upd_thread_def same_clock_def)

lemma invoke_ok:
  assumes inv: "sched_inv s" and ok: "timer_ok s" and ti: "0 < intrcnt (cur_ti s)" "unat (preempt (cur_ti s)) < 2 ^ 31"
  shows "\<exists>s'. tim_invoke_callout s t = Some s' \<and> sched_inv s' \<and> timer_ok s' \<and> same_clock s s' \<and>
    callout_que s' = filter (\<lambda>c. t < expire c) (callout_que s) \<and>
    woke_all s SYNC_WAI_TIMEOUT (map co_data (filter (\<lambda>c. expire c \<le> t) (callout_que s))) s'"
proof -
  define q where "q = callout_que s"
  define E where "E = filter (\<lambda>c. expire c \<le> t) q"
  define a where "a = (cur_ti s)\<lparr>preempt := preempt (cur_ti s) + 1\<rparr>"
  define s0 where "s0 = with_ti s a"
  have en: "lock_enter s = Some s0" by (simp add: lock_enter_eq s0_def a_def)
  have nz: "preempt (cur_ti s) + 1 \<noteq> 0" "preempt (cur_ti s) + 1 + 1 \<noteq> 0"
  proof -
    have u: "unat (preempt (cur_ti s) + 1) = unat (preempt (cur_ti s)) + 1" using ti(2) by (simp add: unat_word_ariths)
    then have "unat (preempt (cur_ti s) + 1 + 1) = unat (preempt (cur_ti s)) + 2" using ti(2) by (simp add: unat_word_ariths)
    then show "preempt (cur_ti s) + 1 \<noteq> 0" "preempt (cur_ti s) + 1 + 1 \<noteq> 0" using u by (metis add_is_0 one_neq_zero unat_0, metis add_is_0 unat_0 zero_neq_numeral)
  qed
  have q: "by_expiry q" "distinct (map co_addr q)" "distinct (map co_data q)" "\<forall>c \<in> set q. co_fn c \<noteq> None \<and> so_policy (sync_objs s (co_data c)) = SYNC_WAKE_FLAG_ALL"
    "waiting s (blocks_on s (map co_data q))" using ok by (simp_all add: timer_ok_def q_def)
  have on: "blocks_on s0 = blocks_on s" by (simp add: s0_def blocks_on_def fun_eq_iff)
  define R where "R = filter (\<lambda>c. \<not> expire c \<le> t) q"
  have wER: "waiting s (blocks_on s (map co_data E) @ blocks_on s (map co_data R))"
    using q(5) waiting_mset [OF blocks_on_split [of s co_data q "\<lambda>c. expire c \<le> t"], of s] by (simp add: E_def R_def)
  have wE: "waiting s0 (blocks_on s0 (map co_data E))" unfolding on using wER by (auto simp: s0_def waiting_def intro: inj_on_subset)
  have i0: "sched_inv s0" "0 < intrcnt (cur_ti s0)" "preempt (cur_ti s0) + 1 \<noteq> 0" "callout_que s0 = q"
    using inv ti(1) nz(2) by (simp_all add: s0_def a_def q_def)
  have c0: "\<forall>c \<in> set q. co_fn c \<noteq> None \<and> so_policy (sync_objs s0 (co_data c)) = SYNC_WAKE_FLAG_ALL \<and> co_addr c \<in> co_addr ` set (callout_que s0)"
    using q(4) i0(4) by (simp add: s0_def)
  from invoke_loop_ok [OF i0(1) wE [unfolded E_def] q(3,2) c0 i0(2,3)] obtain s1 where
    s1: "invoke_loop s0 t q = Some s1" "sched_inv s1" "woke_all s0 SYNC_WAI_TIMEOUT (map co_data E) s1" "same_clock s0 s1"
      "callout_que s1 = filter (\<lambda>x. co_addr x \<notin> co_addr ` set E) q" unfolding E_def i0(4) by blast
  have que: "callout_que s1 = R"
    unfolding s1(5) R_def
  proof (rule filter_cong [OF refl])
    fix x assume x: "x \<in> set q"
    have "x = y" if "y \<in> set q" "co_addr x = co_addr y" for y using q(2) x that by (auto simp: distinct_map inj_on_def)
    then show "co_addr x \<notin> co_addr ` set E \<longleftrightarrow> \<not> expire x \<le> t" using x by (auto simp: E_def)
  qed
  have t1: "preempt (cur_ti s1) = preempt (cur_ti s) + 1" "intrcnt (cur_ti s1) = intrcnt (cur_ti s)"
    using s1(3) by (simp_all add: woke_all_def s0_def a_def)
  define c where "c = (cur_ti s1)\<lparr>preempt := preempt (cur_ti s)\<rparr>"
  have lv: "lock_leave s1 = Some (with_ti s1 c)" using lock_leave_intr [of s1] t1 ti(1) nz(1) by (simp add: c_def word_gt_0)
  have wk: "woke_all s SYNC_WAI_TIMEOUT (map co_data E) (with_ti s1 c)"
    using woke_all_with_ti [of s a _ _ s1 c] s1(3) t1 by (simp add: s0_def c_def)
  have run: "tim_invoke_callout s t = Some (with_ti s1 c)" using en s1(1) lv i0(4) by (simp add: tim_invoke_callout_def)
  have "timer_ok s1"
  proof -
    have R: "by_expiry R" "distinct (map co_addr R)" "distinct (map co_data R)"
      using q(1-3) unfolding R_def by_expiry_def by (simp_all add: sorted_wrt_filter distinct_map_filter)
    have dj: "co_data d \<notin> set (map co_data E)" if d: "d \<in> set R" for d
    proof
      assume "co_data d \<in> set (map co_data E)"
      then obtain e where e: "e \<in> set E" "co_data d = co_data e" by auto
      then have "d = e" using q(3) d unfolding distinct_map by (auto simp: E_def R_def inj_on_def)
      then show False using d e(1) by (auto simp: E_def R_def)
    qed
    have ob: "sync_objs s1 (co_data d) = sync_objs s (co_data d)" if "d \<in> set R" for d
      using s1(3) dj [OF that] by (simp add: woke_all_def s0_def)
    have "blocks_on s1 (map co_data R) = blocks_on s (map co_data R)"
      unfolding blocks_on_def using ob by (intro arg_cong [of _ _ concat] map_cong) auto
    moreover have "waiting s1 (blocks_on s (map co_data R))"
      using waiting_after_woke_all [of s0 "map co_data E" "blocks_on s (map co_data R)" SYNC_WAI_TIMEOUT s1] wER s1(3) on by (simp add: s0_def)
    moreover have "\<forall>d \<in> set R. co_fn d \<noteq> None \<and> so_policy (sync_objs s1 (co_data d)) = SYNC_WAKE_FLAG_ALL" using q(4) ob by (auto simp: R_def)
    ultimately show ?thesis using R que by (simp add: timer_ok_def)
  qed
  moreover have "R = filter (\<lambda>c. t < expire c) q" by (simp add: R_def not_le)
  ultimately show ?thesis using run s1(2,4) wk que unfolding E_def q_def [symmetric]
    by (intro exI [of _ "with_ti s1 c"] conjI) (simp_all add: s0_def)
qed

section \<open>Time slices\<close>

text \<open>Waking and dispatching leave the time slices alone.\<close>

definition slices_kept :: "'a kernel_scheme \<Rightarrow> 'a kernel_scheme \<Rightarrow> bool" where
  "slices_kept s s' \<longleftrightarrow> (\<forall>u. slice (threads s' u) = slice (threads s u) \<and> cur_slice (threads s' u) = cur_slice (threads s u))"

lemma slices_kept_refl [simp]: "slices_kept s s"
  by (simp add: slices_kept_def)

lemma slices_kept_trans: "slices_kept s s' \<Longrightarrow> slices_kept s' s'' \<Longrightarrow> slices_kept s s''"
  by (simp add: slices_kept_def)

lemma slices_upd:
  assumes "\<And>t. slice (f t) = slice t" and "\<And>t. cur_slice (f t) = cur_slice t"
  shows "slices_kept (upd_thread s t f) s' = slices_kept s s'" and "slices_kept s (upd_thread s' t f) = slices_kept s s'"
  using assms by (auto simp: slices_kept_def)

lemma ready_queue_add_slices: "ready_queue_add_nolock s t = Some s' \<Longrightarrow> slices_kept s s'"
  using ready_queue_add_frame [of s t s'] by (simp add: slices_kept_def)

lemma sched_schedule_slices:
  assumes "sched_schedule s = Some s'"
  shows "slices_kept s s'"
proof -
  define s0 where "s0 = sched_clr s"
  have k0: "slices_kept s s0" by (simp add: s0_def sched_clr_eq slices_kept_def)
  have e: "(if cur_status s0 = THR_TSTATE_RUN then Some s0 else do {
       (t, s1) \<leftarrow> ready_queue_get_next_thread s0;
       if t = current s1 then Some s1 else do {
         s2 \<leftarrow> (if current s1 \<noteq> idle_thread s1 \<and> (cur_status s1 = THR_TSTATE_RUN \<or> cur_status s1 = THR_TSTATE_READY)
              then ready_queue_add_nolock (upd_thread s1 (current s1) (status_update (\<lambda>_. THR_TSTATE_READY))) (current s1)
              else Some s1);
         let s3 = sched_switch_threads s2 t;
         kassert (cur_status s3 = THR_TSTATE_RUN);
         Some (s3\<lparr>running_thread := Some (current s3)\<rparr>) } }) = Some s'"
    using assms unfolding sched_schedule_def sched_clr_def [symmetric] s0_def by (auto simp: kassert_bind Let_def split: if_split_asm)
  show ?thesis
  proof (cases "cur_status s0 = THR_TSTATE_RUN")
    case False
    with e obtain t s1 where nt: "ready_queue_get_next_thread s0 = Some (t, s1)" by (cases "ready_queue_get_next_thread s0") auto
    have k1: "slices_kept s0 s1"
      using next_thread_loop_frame [of s0 THR_MAX_PRIO t s1] nt by (simp add: ready_queue_get_next_thread_def slices_kept_def)
    show ?thesis
    proof (cases "t = current s1")
      case True
      then show ?thesis using e False nt k0 k1 slices_kept_trans by auto
    next
      case ne: False
      define r where "r = (if current s1 \<noteq> idle_thread s1 \<and> (cur_status s1 = THR_TSTATE_RUN \<or> cur_status s1 = THR_TSTATE_READY)
              then ready_queue_add_nolock (upd_thread s1 (current s1) (status_update (\<lambda>_. THR_TSTATE_READY))) (current s1) else Some s1)"
      have e2: "do { s2 \<leftarrow> r; let s3 = sched_switch_threads s2 t; kassert (cur_status s3 = THR_TSTATE_RUN);
           Some (s3\<lparr>running_thread := Some (current s3)\<rparr>) } = Some s'"
        using e False nt ne unfolding r_def by simp
      then obtain s2 where s2: "r = Some s2" "s' = (sched_switch_threads s2 t)\<lparr>running_thread := Some (current (sched_switch_threads s2 t))\<rparr>"
        by (cases r) (auto simp: Let_def split: if_split_asm)
      have "slices_kept s1 s2" using s2(1) unfolding r_def by (auto simp: slices_upd split: if_split_asm dest!: ready_queue_add_slices)
      moreover have "slices_kept s2 s'" unfolding s2(2) by (simp add: sched_switch_threads_def slices_kept_def)
      ultimately show ?thesis using k0 k1 slices_kept_trans by blast
    qed
  qed (use e k0 in simp)
qed

lemma sched_wakeup_slices: "sched_wakeup s t = Some s' \<Longrightarrow> slices_kept s s'"
  by (auto simp: sched_wakeup_def bind_eq_Some_conv Let_def slices_upd split: if_split_asm dest!: ready_queue_add_slices)

lemma lock_slices: "lock_enter s = Some s' \<Longrightarrow> slices_kept s s'" "lock_leave s = Some s' \<Longrightarrow> slices_kept s s'"
  by (auto simp: lock_enter_def lock_leave_def bind_eq_Some_conv Let_def slices_upd split: if_split_asm dest!: sched_schedule_slices)

lemma sync_wake_loop_slices: "sync_wake_loop s obj reason bs = Some s' \<Longrightarrow> slices_kept s s'"
proof (induction bs arbitrary: s)
  case (Cons b bs)
  define s0 where "s0 = (upd_obj s obj (so_que_update (\<lambda>_. bs)))\<lparr>blocks := (blocks s)(b := (blocks s b)\<lparr>blk_reason := reason\<rparr>)\<rparr>"
  have e: "do { s1 \<leftarrow> sched_wakeup s0 (blk_thr (blocks s0 b)); if so_policy (sync_objs s1 obj) = SYNC_WAKE_FLAG_ONE then Some s1 else sync_wake_loop s1 obj reason bs } = Some s'"
    using Cons.prems by (simp add: s0_def upd_obj_def Let_def)
  then obtain s1 where s1: "sched_wakeup s0 (blk_thr (blocks s0 b)) = Some s1" by (cases "sched_wakeup s0 (blk_thr (blocks s0 b))") auto
  have k: "slices_kept s s1" using sched_wakeup_slices [OF s1] by (simp add: slices_kept_def s0_def upd_obj_def)
  show ?case
  proof (cases "so_policy (sync_objs s1 obj) = SYNC_WAKE_FLAG_ONE")
    case True
    then show ?thesis using e s1 k by simp
  next
    case False
    then have "sync_wake_loop s1 obj reason bs = Some s'" using e s1 by simp
    then show ?thesis using Cons.IH k slices_kept_trans by blast
  qed
qed simp

lemma sync_wake_slices:
  assumes "sync_wake s obj reason = Some s'"
  shows "slices_kept s s'"
proof -
  obtain s1 where s1: "lock_enter s = Some s1" using lock_enter_eq by blast
  note l1 = lock_slices(1) [OF s1]
  show ?thesis
  proof (cases "so_que (sync_objs s1 obj) = []")
    case True
    then have "lock_leave s1 = Some s'" using assms s1 by (simp add: sync_wake_def)
    then show ?thesis using l1 lock_slices(2) slices_kept_trans by blast
  next
    case False
    from assms s1 False obtain s2 s3 where s: "sync_wake_loop s1 obj reason (so_que (sync_objs s1 obj)) = Some s2" "lock_leave s2 = Some s3"
      "s' = s3 \<or> sched_schedule s3 = Some s'"
      by (auto simp: sync_wake_def bind_eq_Some_conv split: if_split_asm)
    then show ?thesis using l1 sync_wake_loop_slices lock_slices(2) sched_schedule_slices slices_kept_trans by metis
  qed
qed

lemma invoke_slices: "tim_invoke_callout s t = Some s' \<Longrightarrow> slices_kept s s'"
proof -
  have loop: "slices_kept s s'" if "invoke_loop s t cs = Some s'" for cs s s'
    using that
  proof (induction cs arbitrary: s)
    case (Cons c cs)
    show ?case
    proof (cases "expire c \<le> t")
      case True
      then obtain q s1 where s1: "sync_wake (s\<lparr>callout_que := q\<rparr>) (co_data c) SYNC_WAI_TIMEOUT = Some s1" "invoke_loop s1 t cs = Some s'"
        using Cons.prems by (auto simp: bind_eq_Some_conv timeout_handler_def Let_def split: if_split_asm)
      have "slices_kept s s1" using sync_wake_slices [OF s1(1)] by (simp add: slices_kept_def)
      then show ?thesis using Cons.IH [OF s1(2)] slices_kept_trans by blast
    qed (use Cons in simp)
  qed simp
  assume a: "tim_invoke_callout s t = Some s'"
  then obtain s1 s2 where "lock_enter s = Some s1" "invoke_loop s1 t (callout_que s1) = Some s2" "lock_leave s2 = Some s'"
    by (auto simp: tim_invoke_callout_def bind_eq_Some_conv)
  then show "slices_kept s s'" using loop lock_slices slices_kept_trans by metis
qed

section \<open>The tick handler\<close>

text \<open>An update of the running thread that keeps what the others depend on.\<close>

lemma upd_current:
  assumes f: "\<And>t. prio (f t) = prio t" and st: "\<And>t. status (f t) = status t \<or> status (f t) = THR_TSTATE_READY"
  shows "sched_inv s \<Longrightarrow> sched_inv (upd_thread s (current s) f)" and "waiting (upd_thread s (current s) f) bs = waiting s bs"
    and "timer_ok t \<Longrightarrow> timer_ok (upd_thread t (current t) f)"
proof -
  show w: "waiting (upd_thread s (current s) f) bs = waiting s bs" for s :: "'a sync_kernel_scheme" and bs
    by (auto simp: waiting_def upd_thread_def)
  show "sched_inv (upd_thread s (current s) f)" if "sched_inv s"
  proof -
    have "queues_hold s {current s}" using that by (simp add: sched_inv_def)
    then have "queues_hold (upd_thread s (current s) f) {current s}" by (rule queues_hold_cong) (auto simp: f)
    then show ?thesis using that st [of "threads s (current s)"] by (auto simp: sched_inv_def)
  qed
  show "timer_ok (upd_thread t (current t) f)" if "timer_ok t"
  proof -
    have e: "callout_que (upd_thread t (current t) f) = callout_que t" "sync_objs (upd_thread t (current t) f) = sync_objs t"
      "blocks_on (upd_thread t (current t) f) = blocks_on t" by (simp_all add: upd_thread_def blocks_on_def fun_eq_iff)
    have "waiting t (blocks_on t (map co_data (callout_que t)))" using that by (simp add: timer_ok_def)
    then have "waiting (upd_thread t (current t) f) (blocks_on t (map co_data (callout_que t)))" by (auto simp: waiting_def upd_thread_def)
    then show ?thesis using that unfolding timer_ok_def e by simp
  qed
qed

definition takes_slice :: "'a kernel_scheme \<Rightarrow> bool" where
  "takes_slice s \<longleftrightarrow> prio (threads s (current s)) = THR_RR_PRIO \<and> tid (threads s (current s)) \<noteq> THR_IDLE_TID"

text \<open>What a tick does to the running thread.\<close>

definition sliced :: "bool \<Rightarrow> thread \<Rightarrow> thread" where
  "sliced rr t =
     (if \<not> rr then t
      else if cur_slice t = 1 then t\<lparr>cur_slice := slice t, status := THR_TSTATE_READY, thr_ti := ti_set_delay_dispatch (thr_ti t)\<rparr>
      else t\<lparr>cur_slice := cur_slice t - 1\<rparr>)"

lemma charge_slice_eq:
  assumes "takes_slice s \<Longrightarrow> 0 < cur_slice (threads s (current s))" and "0 < intrcnt (cur_ti s)"
  shows "charge_slice s = Some (upd_thread s (current s) (sliced (takes_slice s)))"
proof -
  have up: "upd_thread (upd_thread s u g) u h = upd_thread s u (\<lambda>t. h (g t))" for u g h by (simp add: upd_thread_def)
  have eq: "upd_thread s u g = upd_thread s u h" if "g (threads s u) = h (threads s u)" for u g h using that by (simp add: upd_thread_def)
  define t where "t = threads s (current s)"
  show ?thesis
  proof (cases "takes_slice s")
    case False
    then have "charge_slice s = Some s" by (auto simp: charge_slice_def takes_slice_def)
    moreover have "upd_thread s (current s) (sliced False) = s" by (simp add: sliced_def upd_thread_def)
    ultimately show ?thesis using False by simp
  next
    case True
    have pos: "0 < cur_slice t" using assms(1) True by (simp add: t_def)
    show ?thesis
    proof (cases "cur_slice t = 1")
      case True1: True
      have "charge_slice s = thr_yield (upd_thread (upd_thread s (current s) (cur_slice_update (\<lambda>n. n - 1))) (current s) (\<lambda>t. t\<lparr>cur_slice := slice t\<rparr>))"
        using True pos True1 by (simp add: charge_slice_def takes_slice_def t_def)
      also have "\<dots> = Some (upd_thread s (current s) (sliced True))"
        using assms(2) True1 by (simp add: thr_yield_def up intr_disabled) (intro eq, simp add: sliced_def t_def)
      finally show ?thesis using True by simp
    next
      case False
      then have "cur_slice t - 1 \<noteq> 0" by simp
      then have "charge_slice s = Some (upd_thread s (current s) (cur_slice_update (\<lambda>n. n - 1)))"
        using True pos by (simp add: charge_slice_def takes_slice_def t_def)
      also have "upd_thread s (current s) (cur_slice_update (\<lambda>n. n - 1)) = upd_thread s (current s) (sliced True)"
        using False by (intro eq) (simp add: sliced_def t_def)
      finally show ?thesis using True by simp
    qed
  qed
qed

lemma sliced_fields [simp]:
  "prio (sliced rr t) = prio t" "tid (sliced rr t) = tid t" "thr_p (sliced rr t) = thr_p t" "slice (sliced rr t) = slice t"
  "preempt (thr_ti (sliced rr t)) = preempt (thr_ti t)" "intrcnt (thr_ti (sliced rr t)) = intrcnt (thr_ti t)" "evque (sliced rr t) = evque t"
  by (simp_all add: sliced_def ti_set_delay_dispatch_def)

lemma sliced_status: "status (sliced rr t) = status t \<or> status (sliced rr t) = THR_TSTATE_READY"
  by (simp add: sliced_def)

text \<open>The parts of the clock the other operations do not touch.\<close>

lemma charge_time_frame [simp]:
  fixes s :: "'a timer_kernel_scheme"
  shows "sched_inv (charge_time fu s) = sched_inv s" "timer_ok (charge_time fu s) = timer_ok s" "current (charge_time fu s) = current s"
    "threads (charge_time fu s) = threads s" "callout_que (charge_time fu s) = callout_que s" "sync_objs (charge_time fu s) = sync_objs s"
    "blocks (charge_time fu s) = blocks s" "tick_cnt (charge_time fu s) = tick_cnt s"
proof -
  have *: "sched_inv (s\<lparr>thr_resource := r\<rparr>) = sched_inv s" "timer_ok (s\<lparr>thr_resource := r\<rparr>) = timer_ok s" for r
  proof -
    show "sched_inv (s\<lparr>thr_resource := r\<rparr>) = sched_inv s"
      using sched_inv_cong [of s "s\<lparr>thr_resource := r\<rparr>"] sched_inv_cong [of "s\<lparr>thr_resource := r\<rparr>" s] by auto
    show "timer_ok (s\<lparr>thr_resource := r\<rparr>) = timer_ok s" by (simp add: timer_ok_def waiting_def blocks_on_def)
  qed
  show "sched_inv (charge_time fu s) = sched_inv s" "timer_ok (charge_time fu s) = timer_ok s" by (simp_all add: charge_time_def Let_def *)
qed (simp_all add: charge_time_def Let_def)

lemma tick_frame [simp]:
  fixes s :: "'a timer_kernel_scheme"
  shows "sched_inv (s\<lparr>tick_cnt := n\<rparr>) = sched_inv s" "timer_ok (s\<lparr>tick_cnt := n\<rparr>) = timer_ok s"
  using sched_inv_cong [of s "s\<lparr>tick_cnt := n\<rparr>"] sched_inv_cong [of "s\<lparr>tick_cnt := n\<rparr>" s]
  by (auto simp: timer_ok_def waiting_def blocks_on_def)

text \<open>The state in which the tick handler walks the call-outs.\<close>

definition ticked :: "bool \<Rightarrow> 'a timer_kernel_scheme \<Rightarrow> 'a timer_kernel_scheme" where
  "ticked fu s = charge_time fu (upd_thread (s\<lparr>tick_cnt := tick_cnt s + 1\<rparr>) (current s) (sliced (takes_slice s)))"

lemma timer_handler_eq:
  assumes "takes_slice s \<Longrightarrow> 0 < cur_slice (threads s (current s))" and "0 < intrcnt (cur_ti s)" and "unat (preempt (cur_ti s)) < 2 ^ 31"
  shows "timer_handler fu s = tim_invoke_callout (ticked fu s) (tick_cnt s + 1)"
proof -
  define a where "a = (cur_ti s)\<lparr>preempt := preempt (cur_ti s) + 1\<rparr>"
  have t: "tick_cnt (with_ti s a) = tick_cnt s" by (simp add: with_ti_def upd_thread_def)
  have c: "(with_ti s a)\<lparr>tick_cnt := n\<rparr> = with_ti (s\<lparr>tick_cnt := n\<rparr>) a" for n by (simp add: with_ti_def upd_thread_def)
  have "preempt (cur_ti s) + 1 \<noteq> 0"
  proof -
    have "unat (preempt (cur_ti s) + 1) = unat (preempt (cur_ti s)) + 1" using assms(3) by (simp add: unat_word_ariths)
    then show ?thesis by (metis add_is_0 one_neq_zero unat_0)
  qed
  then have l: "lock_leave (with_ti (s\<lparr>tick_cnt := n\<rparr>) a) = Some (s\<lparr>tick_cnt := n\<rparr>)" for n
    using lock_leave_intr [of "with_ti (s\<lparr>tick_cnt := n\<rparr>) a"] assms(2) with_ti_cur [of "s\<lparr>tick_cnt := n\<rparr>"] by (simp add: a_def word_gt_0)
  have ts: "takes_slice (s\<lparr>tick_cnt := n\<rparr>) = takes_slice s" for n by (simp add: takes_slice_def)
  have cs: "charge_slice (s\<lparr>tick_cnt := n\<rparr>) = Some (upd_thread (s\<lparr>tick_cnt := n\<rparr>) (current s) (sliced (takes_slice s)))" for n
    using charge_slice_eq [of "s\<lparr>tick_cnt := n\<rparr>"] assms(1,2) by (simp add: ts)
  show ?thesis
    unfolding timer_handler_def lock_enter_eq a_def [symmetric] by (simp add: t c l cs ticked_def Let_def)
qed

lemma ticked_simps:
  "current (ticked fu s) = current s" "callout_que (ticked fu s) = callout_que s" "sync_objs (ticked fu s) = sync_objs s" "blocks (ticked fu s) = blocks s"
  "tick_cnt (ticked fu s) = tick_cnt s + 1" "threads (ticked fu s) = (threads s)(current s := sliced (takes_slice s) (threads s (current s)))"
  by (simp_all add: ticked_def upd_thread_def)

lemma ticked_ok:
  fixes s :: "'a timer_kernel_scheme"
  shows "sched_inv s \<Longrightarrow> sched_inv (ticked fu s)" "timer_ok s \<Longrightarrow> timer_ok (ticked fu s)"
  using upd_current [of "sliced (takes_slice s)", OF sliced_fields(1) sliced_status, of "s\<lparr>tick_cnt := tick_cnt s + 1\<rparr>"]
    upd_current(3) [of "sliced (takes_slice s)", OF sliced_fields(1) sliced_status, of "s\<lparr>tick_cnt := tick_cnt s + 1\<rparr>"]
  by (simp_all add: ticked_def)

text \<open>
  Claim C29. The tick interrupt always returns to a well-formed state one tick later.  Exactly the call-outs whose time has come leave the
  queue: every thread queued on one of them becomes ready, with the reason that its time is over, and no other wait is touched.  A thread
  that shares the processor by turns loses one tick of its slice; with the last one it gets a new slice and goes back to the ready
  threads at the next dispatch.
\<close>

theorem timer_handler_spec:
  assumes inv: "sched_inv s" and ok: "timer_ok s" and ti: "0 < intrcnt (cur_ti s)" "unat (preempt (cur_ti s)) < 2 ^ 31"
    and sl: "takes_slice s \<longrightarrow> 0 < cur_slice (threads s (current s))"
  shows "\<exists>s'. timer_handler from_user s = Some s' \<and> sched_inv s' \<and> timer_ok s' \<and> current s' = current s \<and> tick_cnt s' = tick_cnt s + 1 \<and>
    callout_que s' = filter (\<lambda>c. tick_cnt s + 1 < expire c) (callout_que s) \<and>
    (\<forall>c \<in> set (callout_que s). \<forall>b \<in> set (so_que (sync_objs s (co_data c))).
       if expire c \<le> tick_cnt s + 1
       then blk_reason (blocks s' b) = SYNC_WAI_TIMEOUT \<and> status (threads s' (blk_thr (blocks s b))) = THR_TSTATE_READY
       else blocks s' b = blocks s b \<and> status (threads s' (blk_thr (blocks s b))) = status (threads s (blk_thr (blocks s b)))) \<and>
    cur_slice (threads s' (current s)) = cur_slice (sliced (takes_slice s) (threads s (current s))) \<and>
    status (threads s' (current s)) = status (sliced (takes_slice s) (threads s (current s)))"
proof -
  define t where "t = tick_cnt s + 1"
  define s0 where "s0 = ticked from_user s"
  define E where "E = map co_data (filter (\<lambda>c. expire c \<le> t) (callout_que s))"
  define R where "R = map co_data (filter (\<lambda>c. \<not> expire c \<le> t) (callout_que s))"
  note T = ticked_simps [of from_user s, folded s0_def]
  have "0 < intrcnt (cur_ti s0)" "unat (preempt (cur_ti s0)) < 2 ^ 31" using ti by (simp_all add: T)
  from invoke_ok [OF _ _ this, of t] ticked_ok [of s from_user] inv ok obtain s' where
    s': "tim_invoke_callout s0 t = Some s'" "sched_inv s'" "timer_ok s'" "same_clock s0 s'" "callout_que s' = filter (\<lambda>c. t < expire c) (callout_que s)"
      "woke_all s0 SYNC_WAI_TIMEOUT E s'" by (auto simp: s0_def [symmetric] T E_def)
  have run: "timer_handler from_user s = Some s'" using timer_handler_eq [of s from_user] sl ti s'(1) by (simp add: t_def s0_def)
  have on: "blocks_on s0 = blocks_on s" by (simp add: blocks_on_def T fun_eq_iff)
  have wt: "waiting s (blocks_on s E @ blocks_on s R)"
    using ok waiting_mset [OF blocks_on_split [of s co_data "callout_que s" "\<lambda>c. expire c \<le> t"], of s] by (simp add: timer_ok_def E_def R_def)
  have nc: "blk_thr (blocks s b) \<noteq> current s" if "b \<in> set (blocks_on s E) \<union> set (blocks_on s R)" for b using wt that by (auto simp: waiting_def)
  have st: "status (threads s' u) = (if u \<in> (\<lambda>b. blk_thr (blocks s b)) ` set (blocks_on s E) then THR_TSTATE_READY else status (threads s0 u))" for u
    using s'(6) by (simp add: woke_all_def on T)
  have bk: "blocks s' b = (if b \<in> set (blocks_on s E) then (blocks s b)\<lparr>blk_reason := SYNC_WAI_TIMEOUT\<rparr> else blocks s b)" for b
    using s'(6) by (simp add: woke_all_def on T)
  have "if expire c \<le> t then blk_reason (blocks s' b) = SYNC_WAI_TIMEOUT \<and> status (threads s' (blk_thr (blocks s b))) = THR_TSTATE_READY
       else blocks s' b = blocks s b \<and> status (threads s' (blk_thr (blocks s b))) = status (threads s (blk_thr (blocks s b)))"
    if c: "c \<in> set (callout_que s)" and b: "b \<in> set (so_que (sync_objs s (co_data c)))" for c b
  proof (cases "expire c \<le> t")
    case True
    then have "b \<in> set (blocks_on s E)" using c b by (auto simp: blocks_on_def E_def)
    then show ?thesis using True by (simp add: bk st)
  next
    case False
    then have bR: "b \<in> set (blocks_on s R)" using c b by (auto simp: blocks_on_def R_def)
    then have nE: "b \<notin> set (blocks_on s E)" using wt by (auto simp: waiting_def)
    have inj: "inj_on (\<lambda>b. blk_thr (blocks s b)) (set (blocks_on s E) \<union> set (blocks_on s R))" using wt by (simp add: waiting_def)
    have "blk_thr (blocks s b) \<notin> (\<lambda>b. blk_thr (blocks s b)) ` set (blocks_on s E)"
    proof
      assume "blk_thr (blocks s b) \<in> (\<lambda>b. blk_thr (blocks s b)) ` set (blocks_on s E)"
      then obtain e where "e \<in> set (blocks_on s E)" "blk_thr (blocks s b) = blk_thr (blocks s e)" by auto
      then show False using inj_onD [OF inj, of b e] bR nE by auto
    qed
    then show ?thesis using False nE nc [of b] bR by (simp add: bk st T)
  qed
  moreover have "status (threads s' (current s)) = status (sliced (takes_slice s) (threads s (current s)))"
  proof -
    have "current s \<notin> (\<lambda>b. blk_thr (blocks s b)) ` set (blocks_on s E)" using nc by fastforce
    then show ?thesis by (simp add: st T)
  qed
  moreover have "cur_slice (threads s' (current s)) = cur_slice (sliced (takes_slice s) (threads s (current s)))"
    using invoke_slices [OF s'(1)] by (simp add: slices_kept_def T)
  moreover have "current s' = current s" "tick_cnt s' = t" using s'(4,6) by (simp_all add: woke_all_def same_clock_def T t_def)
  ultimately show ?thesis using run s'(2,3,5) unfolding t_def [symmetric] by (intro exI [of _ s']) simp
qed

section \<open>Waiting for a time\<close>

lemma blocks_on_mset: "mset q = mset q' \<Longrightarrow> mset (blocks_on s (map f q)) = mset (blocks_on s (map f q'))"
proof -
  assume "mset q = mset q'"
  then have "image_mset (\<lambda>x. mset (so_que (sync_objs s (f x)))) (mset q) = image_mset (\<lambda>x. mset (so_que (sync_objs s (f x)))) (mset q')" by simp
  then have "sum_mset (mset (map (\<lambda>x. mset (so_que (sync_objs s (f x)))) q)) = sum_mset (mset (map (\<lambda>x. mset (so_que (sync_objs s (f x)))) q'))" by simp
  then show ?thesis unfolding sum_mset_sum_list by (simp add: blocks_on_def mset_concat comp_def)
qed

lemma ms_to_ticks_unat: "unat (ms_to_ticks ms) = unat ms div 10 + 1"
proof -
  have "unat (ms div 10 + 1) = unat ms div 10 + 1"
    using unsigned_less [of ms, where ?'a = nat] by (simp add: unat_word_ariths unat_div)
  moreover have "unat (ucast x :: u64) = unat x" for x :: u32
    using unsigned_less [of x, where ?'a = nat] by (simp add: unsigned_ucast_eq take_bit_nat_eq_self)
  ultimately show ?thesis by (simp add: ms_to_ticks_def)
qed

text \<open>A thread that has just queued its block beside the waits \<open>B\<close> and given up the processor.\<close>

lemma blocked_joins:
  assumes bl: "blocked s obj b s'" and inv: "sched_inv s" and wt: "waiting s B" and b: "b \<notin> set B" and v: "valid_wait_status (wait_kind (sync_objs s obj))"
  shows "waiting s' (b # B)"
proof -
  have sb: "same_but_run (queued s obj b) s'" using bl by (simp add: blocked_def)
  have bk: "blocks s' = (blocks s)(b := \<lparr>blk_thr = current s, blk_reason = SYNC_WAI_WAIT\<rparr>)" using same_but_run_sync(1) [OF sb] by simp
  have st: "status (threads s' u) = (if u = current s then wait_kind (sync_objs s obj) else status (threads s u))" if "u \<noteq> current s'" for u
    using bl that by (simp add: blocked_def)
  have cur: "current s' \<noteq> current s" using bl by (simp add: blocked_def)
  have nw: "\<not> thr_in_wait (threads s (current s'))"
    using bl inv by (auto simp: blocked_def sched_inv_def thr_in_wait_def thr_wait_intr_def thr_wait_killable_def)
  have me: "thr_in_wait (threads s' (current s))" using st [of "current s"] cur v by (intro wait_in_wait) simp_all
  have B: "blk_thr (blocks s c) \<noteq> current s" "blk_thr (blocks s c) \<noteq> current s'" "blk_reason (blocks s c) = SYNC_WAI_WAIT"
    "thr_in_wait (threads s' (blk_thr (blocks s c)))" "c \<noteq> b" if c: "c \<in> set B" for c
  proof -
    have w: "thr_in_wait (threads s (blk_thr (blocks s c)))" "blk_thr (blocks s c) \<noteq> current s" "blk_reason (blocks s c) = SYNC_WAI_WAIT"
      using wt c by (auto simp: waiting_def)
    show ne: "blk_thr (blocks s c) \<noteq> current s'" using w(1) nw by auto
    show "blk_thr (blocks s c) \<noteq> current s" "blk_reason (blocks s c) = SYNC_WAI_WAIT" by fact+
    have "status (threads s' (blk_thr (blocks s c))) = status (threads s (blk_thr (blocks s c)))" using st [OF ne] w(2) by simp
    then show "thr_in_wait (threads s' (blk_thr (blocks s c)))" using w(1) by (simp add: thr_in_wait_def thr_wait_intr_def thr_wait_killable_def)
    show "c \<noteq> b" using b c by auto
  qed
  have "inj_on (\<lambda>b. blk_thr (blocks s b)) (set B)" "distinct B" using wt by (simp_all add: waiting_def)
  then have "inj_on (\<lambda>b. blk_thr (blocks s' b)) (set (b # B))" using B(1) [THEN not_sym] B(1,5) by (auto simp: inj_on_def bk)
  then show ?thesis using \<open>distinct B\<close> b B me cur by (simp add: waiting_def bk)
qed

text \<open>
  \<open>tim_wait\<close> when no other call-out is due at its tick: the caller blocks and another thread runs.
  The call-out it leaves is due \<open>ms div 10 + 1\<close> ticks after the present one, the caller is the only one queued on it, and the call-outs
  stay well-formed.
\<close>

lemma tim_wait_blocks:
  fixes s :: "'a timer_kernel_scheme"
  assumes inv: "sched_inv s" and ok: "timer_ok s" and ni: "current s \<noteq> idle_thread s" and quiet: "quiet (cur_ti s)"
    and free: "\<forall>c \<in> set (callout_que s). expire c \<noteq> ms_to_ticks ms + tick_cnt s"
    and fresh: "co_addr cb \<notin> co_addr ` set (callout_que s)" "tobj \<notin> co_data ` set (callout_que s)" "b \<notin> set (blocks_on s (map co_data (callout_que s)))"
  shows "\<exists>u s' c. tim_wait_block s tobj b cb ms = Some (Suspended u, s') \<and> sched_inv s' \<and> timer_ok s' \<and> current s' \<noteq> current s \<and>
    status (threads s' (current s)) = THR_TSTATE_WAIT \<and> set (callout_que s') = insert c (set (callout_que s)) \<and> co_data c = tobj \<and>
    expire c = tick_cnt s + of_nat (unat ms div 10 + 1) \<and> so_que (sync_objs s' tobj) = [b] \<and> blocks s' b = \<lparr>blk_thr = current s, blk_reason = SYNC_WAI_WAIT\<rparr>"
proof -
  define q where "q = callout_que s"
  define tob where "tob = \<lparr>wait_kind = THR_TSTATE_WAIT, so_policy = SYNC_WAKE_FLAG_ALL, so_que = []\<rparr>"
  define s0 where "s0 = s\<lparr>sync_objs := (sync_objs s)(tobj := tob)\<rparr>"
  define c where "c = timer_cb s0 cb ms tobj"
  have c: "expire c = ms_to_ticks ms + tick_cnt s" "co_addr c = co_addr cb" "co_data c = tobj" "co_fn c = Some Timeout_handler"
    by (simp_all add: c_def timer_cb_def init_timer_callout_def tim_refer_uptime_lockfree_def s0_def)
  have q: "by_expiry q" "distinct (map co_addr q)" "distinct (map co_data q)" "\<forall>c \<in> set q. co_fn c \<noteq> None \<and> so_policy (sync_objs s (co_data c)) = SYNC_WAKE_FLAG_ALL"
    "waiting s (blocks_on s (map co_data q))" using ok by (simp_all add: timer_ok_def q_def)
  obtain q' where q': "rb_insert c q = (None, q')" "by_expiry q'" "set q' = insert c (set q)" "mset q' = add_mset c (mset q)"
    using rb_insert_new [OF q(1), of c] free c(1) by (auto simp: q_def)
  define s2 where "s2 = (with_ti s0 ((cur_ti s)\<lparr>preempt := 1\<rparr>))\<lparr>callout_que := q'\<rparr>"
  have v: "sync_init_object SYNC_WAKE_FLAG_ALL THR_TSTATE_WAIT = Some tob" "valid_wait_status (wait_kind (sync_objs s2 tobj))"
    by (simp_all add: sync_init_object_def valid_wait_status_def tob_def s2_def s0_def)
  have en: "lock_enter s0 = Some (with_ti s0 ((cur_ti s)\<lparr>preempt := 1\<rparr>))" using quiet by (simp add: lock_enter_eq s0_def quiet_def)
  have cq: "callout_que (with_ti s0 ti) = q" for ti by (simp add: s0_def q_def)
  have run: "tim_wait_block s tobj b cb ms = sync_wait_block s2 tobj b"
    unfolding tim_wait_block_def using en v(1) q'(1) cq by (simp add: s0_def [symmetric] c_def [symmetric] s2_def)
  have i2: "sched_inv s2" "current s2 = current s" "idle_thread s2 = idle_thread s" "preempt (cur_ti s2) = 1" "intrcnt (cur_ti s2) = 0"
  proof -
    have "sched_inv s0" using inv by (rule sched_inv_cong) (simp_all add: s0_def)
    then show "sched_inv s2" by (simp add: s2_def)
    show "current s2 = current s" "idle_thread s2 = idle_thread s" "preempt (cur_ti s2) = 1" "intrcnt (cur_ti s2) = 0"
      using quiet by (simp_all add: s2_def s0_def quiet_def)
  qed
  from sync_wait_block_ok [OF i2(1) _ v(2) i2(4,5), of b] ni i2 obtain u s' where
    s': "sync_wait_block s2 tobj b = Some (Suspended u, s')" "sched_inv s'" "blocked s2 tobj b s'" by auto
  have sb: "same_but_run (queued s2 tobj b) s'" using s'(3) by (simp add: blocked_def)
  note ext = same_but_run_sync [OF sb]
  have ob: "sync_objs s' = (sync_objs s)(tobj := tob\<lparr>so_que := [b]\<rparr>)" using ext(2) by (simp add: s2_def s0_def tob_def)
  have bk: "blocks s' = (blocks s)(b := \<lparr>blk_thr = current s, blk_reason = SYNC_WAI_WAIT\<rparr>)" using ext(1) i2(2) by (simp add: s2_def s0_def)
  have cq': "callout_que s' = q'" using more_same(2) [of s' s2] ext(3) by (simp add: s2_def)
  have wt2: "waiting s2 (blocks_on s (map co_data q))" using q(5) by (simp add: s2_def) (simp add: s0_def waiting_def)
  have w: "waiting s' (b # blocks_on s (map co_data q))" using blocked_joins [OF s'(3) i2(1) wt2 _ v(2)] fresh(3) by (simp add: q_def)
  have old: "sync_objs s' (co_data d) = sync_objs s (co_data d)" if "d \<in> set q" for d using fresh(2) that ob by (auto simp: q_def)
  have on: "blocks_on s' (map co_data (c # q)) = b # blocks_on s (map co_data q)"
  proof -
    have "map (\<lambda>ob. so_que (sync_objs s' ob)) (map co_data q) = map (\<lambda>ob. so_que (sync_objs s ob)) (map co_data q)" using old by simp
    moreover have "so_que (sync_objs s' (co_data c)) = [b]" using ob c(3) by simp
    ultimately show ?thesis by (simp only: blocks_on_def list.map concat.simps append_Cons append_Nil)
  qed
  have m: "mset q' = mset (c # q)" using q'(4) by simp
  have "timer_ok s'"
    unfolding timer_ok_def cq'
  proof (intro conjI)
    show "distinct (map co_addr q')" using mset_eq_imp_distinct_iff [of "map co_addr q'" "map co_addr (c # q)"] m q(2) fresh(1) c(2) by (simp add: q_def)
    show "distinct (map co_data q')" using mset_eq_imp_distinct_iff [of "map co_data q'" "map co_data (c # q)"] m q(3) fresh(2) c(3) by (simp add: q_def)
    show "waiting s' (blocks_on s' (map co_data q'))" using w waiting_mset [OF blocks_on_mset [OF m, of s' co_data], of s'] on by simp
    show "\<forall>d \<in> set q'. co_fn d \<noteq> None \<and> so_policy (sync_objs s' (co_data d)) = SYNC_WAKE_FLAG_ALL" using q'(3) q(4) old c ob by (auto simp: tob_def)
  qed (fact q'(2))
  moreover have "current s' \<noteq> current s" "status (threads s' (current s)) = THR_TSTATE_WAIT"
    using s'(3) i2(2) by (auto simp: blocked_def s2_def s0_def tob_def)
  moreover have "expire c = tick_cnt s + of_nat (unat ms div 10 + 1)"
    using c(1) ms_to_ticks_unat [of ms] by (metis add.commute of_nat_unat ucast_id)
  ultimately show ?thesis using run s'(1,2) cq' q'(3) c(3) ob bk unfolding q_def
    by (intro exI [of _ u] exI [of _ s'] exI [of _ c]) (simp add: tob_def)
qed

section \<open>Waiting for an object or a time\<close>

lemma inner_lock:
  fixes s :: "'a kernel_scheme"
  assumes "preempt (cur_ti s) = 1"
  shows "lock_enter s = Some (with_ti s ((cur_ti s)\<lparr>preempt := 2\<rparr>))"
    and "current t = current s \<Longrightarrow> cur_ti t = cur_ti s \<Longrightarrow> lock_leave (with_ti t ((cur_ti s)\<lparr>preempt := 2\<rparr>)) = Some t"
proof -
  show "lock_enter s = Some (with_ti s ((cur_ti s)\<lparr>preempt := 2\<rparr>))" using assms by (simp add: lock_enter_eq)
  assume a: "current t = current s" "cur_ti t = cur_ti s"
  have e: "(cur_ti s)\<lparr>preempt := 1\<rparr> = cur_ti t" using assms a by (cases "cur_ti s") simp
  have "lock_leave (with_ti t ((cur_ti s)\<lparr>preempt := 2\<rparr>)) = Some (with_ti t ((cur_ti s)\<lparr>preempt := 1\<rparr>))"
    using lock_leave_inner [of "with_ti t ((cur_ti s)\<lparr>preempt := 2\<rparr>)"] by simp
  then show "lock_leave (with_ti t ((cur_ti s)\<lparr>preempt := 2\<rparr>)) = Some t" unfolding e using with_ti_cur [of t] by simp
qed

lemma with_ti_commute:
  fixes s :: "'a timer_kernel_scheme"
  shows "upd_obj (with_ti s ti) ob f = with_ti (upd_obj s ob f) ti" and "(with_ti s ti)\<lparr>callout_que := q\<rparr> = with_ti (s\<lparr>callout_que := q\<rparr>) ti"
  by (simp_all add: upd_obj_def with_ti_def upd_thread_def)

text \<open>
  At the end of a timed wait on an object the call-out and both blocks are out of the queues and the result says what ended the
  wait: the object if it was woken, else the time if it is over, else an event; when none of these happened the code returns a
  value it never set.
\<close>

theorem finish_wait_time_obj_spec:
  fixes s :: "'a timer_kernel_scheme"
  assumes pre: "preempt (cur_ti s) = 1" and ne: "timer_obj \<noteq> obj" and d: "distinct (so_que (sync_objs s obj))"
    and tq: "so_que (sync_objs s timer_obj) = (if blk_reason (blocks s timer_sb) = SYNC_WAI_WAIT then [timer_sb] else [])"
    and cq: "cbp \<in> co_addr ` set (callout_que s) \<longleftrightarrow> blk_reason (blocks s timer_sb) = SYNC_WAI_WAIT"
  shows "\<exists>s'. finish_wait_time_obj s obj timer_obj obj_sb timer_sb cbp =
      Some (if blk_reason (blocks s obj_sb) \<noteq> SYNC_WAI_WAIT then Some (blk_reason (blocks s obj_sb))
        else if blk_reason (blocks s timer_sb) \<noteq> SYNC_WAI_WAIT then Some (blk_reason (blocks s timer_sb))
        else if ev_has_pending_events s (current s) then Some SYNC_WAI_DELIVEV else None, s') \<and>
    threads s' = threads s \<and> current s' = current s \<and> so_que (sync_objs s' timer_obj) = [] \<and>
    so_que (sync_objs s' obj) = filter (\<lambda>b. b \<noteq> obj_sb) (so_que (sync_objs s obj)) \<and>
    callout_que s' = filter (\<lambda>c. co_addr c \<noteq> cbp) (callout_que s)"
proof -
  define a where "a = (cur_ti s)\<lparr>preempt := 2\<rparr>"
  define s1 where "s1 = upd_obj s obj (so_que_update (remove1 obj_sb))"
  define s2 where "s2 = upd_obj s1 timer_obj (so_que_update (remove1 timer_sb))"
  define q where "q = (if blk_reason (blocks s timer_sb) = SYNC_WAI_WAIT then filter (\<lambda>c. co_addr c \<noteq> cbp) (callout_que s) else callout_que s)"
  define s3 where "s3 = s2\<lparr>callout_que := q\<rparr>"
  have f: "threads s1 = threads s" "current s1 = current s" "threads s2 = threads s" "current s2 = current s" "threads s3 = threads s" "current s3 = current s"
    "blocks s1 = blocks s" "blocks s2 = blocks s" "callout_que s2 = callout_que s" "sync_objs s3 = sync_objs s2" "callout_que s3 = q"
    by (simp_all add: s1_def s2_def s3_def upd_obj_def)
  have en: "lock_enter t = Some (with_ti t a)" if "current t = current s" "threads t = threads s" for t :: "'a timer_kernel_scheme"
    using inner_lock(1) [of t] pre that by (simp add: a_def)
  have lv: "lock_leave (with_ti t a) = Some t" if "current t = current s" "threads t = threads s" for t :: "'a timer_kernel_scheme"
    using inner_lock(2) [OF pre, of t] that by (simp add: a_def)
  have sq: "so_que (sync_objs s2 timer_obj) = []" using tq ne by (simp add: s2_def s1_def upd_obj_def)
  have s23: "s2\<lparr>callout_que := callout_que s\<rparr> = s2" using f(9) by (metis timer_kernel.surjective timer_kernel.update_convs(2))
  have "finish_wait_time_obj s obj timer_obj obj_sb timer_sb cbp =
      Some (if blk_reason (blocks s obj_sb) \<noteq> SYNC_WAI_WAIT then Some (blk_reason (blocks s obj_sb))
        else if blk_reason (blocks s timer_sb) \<noteq> SYNC_WAI_WAIT then Some (blk_reason (blocks s timer_sb))
        else if ev_has_pending_events s (current s) then Some SYNC_WAI_DELIVEV else None, s3)"
  proof (cases "blk_reason (blocks s timer_sb) = SYNC_WAI_WAIT")
    case True
    then have "rb_remove cbp (callout_que s) = Some q" using cq by (simp add: rb_remove_def q_def)
    then show ?thesis using True unfolding finish_wait_time_obj_def
      by (simp add: en lv with_ti_commute f s1_def [symmetric] s2_def [symmetric] s3_def [symmetric] sq)
  next
    case False
    then have "s3 = s2" using s23 by (simp add: s3_def q_def)
    then show ?thesis using False unfolding finish_wait_time_obj_def
      by (simp add: en lv with_ti_commute f s1_def [symmetric] s2_def [symmetric] sq)
  qed
  moreover have "so_que (sync_objs s3 obj) = filter (\<lambda>b. b \<noteq> obj_sb) (so_que (sync_objs s obj))"
    using ne d by (simp add: f s2_def s1_def upd_obj_def distinct_remove1_removeAll removeAll_filter_not_eq) (metis (mono_tags, lifting))
  moreover have "q = filter (\<lambda>c. co_addr c \<noteq> cbp) (callout_que s)"
  proof (cases "blk_reason (blocks s timer_sb) = SYNC_WAI_WAIT")
    case False
    then have "filter (\<lambda>c. co_addr c \<noteq> cbp) (callout_que s) = callout_que s" using cq by (auto simp: filter_id_conv)
    then show ?thesis using False by (simp add: q_def)
  qed (simp add: q_def)
  ultimately show ?thesis using f sq by (intro exI [of _ s3]) simp
qed

text \<open>A second call-out for the same tick fails the assertion behind \<^verbatim>\<open>RB_INSERT\<close>: two threads that start equal waits in the same tick stop the kernel.\<close>

lemma same_tick_timers_panic:
  assumes "by_expiry (callout_que s)" and "x \<in> set (callout_que s)" and "expire x = ms_to_ticks ms + tick_cnt s"
  shows "tim_wait_block s tobj b cb ms = None"
proof -
  define tob where "tob = \<lparr>wait_kind = THR_TSTATE_WAIT, so_policy = SYNC_WAKE_FLAG_ALL, so_que = []\<rparr>"
  define s0 where "s0 = s\<lparr>sync_objs := (sync_objs s)(tobj := tob)\<rparr>"
  define c where "c = timer_cb s0 cb ms tobj"
  have "expire x = expire c" using assms(3) by (simp add: c_def timer_cb_def tim_refer_uptime_lockfree_def s0_def)
  moreover have "callout_que (with_ti s0 ti) = callout_que s" for ti by (simp add: s0_def)
  moreover have "find (\<lambda>y. expire y = expire c) (callout_que s) \<noteq> None" using \<open>expire x = expire c\<close> assms(2) by (auto simp: find_None_iff)
  ultimately show ?thesis using rb_insert_cases [OF assms(1), of c] assms(2)
    unfolding tim_wait_block_def by (auto simp: sync_init_object_def valid_wait_status_def tob_def [symmetric] s0_def [symmetric] c_def [symmetric] lock_enter_eq)
qed

text \<open>
  \<open>tim_wait\<close> for \<open>ms\<close> milliseconds, up to the point where the caller blocks.  When a call-out is queued already that is due at the
  same tick, an assertion fails.  Otherwise the caller blocks and another thread runs.
  The call-out it leaves is due \<open>ms div 10 + 1\<close> ticks after the present one, the caller is the only one queued on it, and the call-outs
  stay well-formed.
\<close>

theorem tim_wait_spec:
  fixes s :: "'a timer_kernel_scheme"
  assumes "sched_inv s" and "timer_ok s" and "current s \<noteq> idle_thread s" and "quiet (cur_ti s)"
    and "co_addr cb \<notin> co_addr ` set (callout_que s)" and "tobj \<notin> co_data ` set (callout_que s)" and "b \<notin> set (blocks_on s (map co_data (callout_que s)))"
  shows "if ms_to_ticks ms + tick_cnt s \<in> expire ` set (callout_que s) then tim_wait_block s tobj b cb ms = None
    else \<exists>u s' c. tim_wait_block s tobj b cb ms = Some (Suspended u, s') \<and> sched_inv s' \<and> timer_ok s' \<and> current s' \<noteq> current s \<and>
    status (threads s' (current s)) = THR_TSTATE_WAIT \<and> set (callout_que s') = insert c (set (callout_que s)) \<and> co_data c = tobj \<and>
    expire c = tick_cnt s + of_nat (unat ms div 10 + 1) \<and> so_que (sync_objs s' tobj) = [b] \<and> blocks s' b = \<lparr>blk_thr = current s, blk_reason = SYNC_WAI_WAIT\<rparr>"
proof (cases "ms_to_ticks ms + tick_cnt s \<in> expire ` set (callout_que s)")
  case True
  then obtain x where "x \<in> set (callout_que s)" "expire x = ms_to_ticks ms + tick_cnt s" by auto
  with same_tick_timers_panic [of s x ms tobj b cb] assms(2) True show ?thesis by (simp add: timer_ok_def)
next
  case False
  then have "\<forall>c \<in> set (callout_que s). expire c \<noteq> ms_to_ticks ms + tick_cnt s" by force
  then show ?thesis using tim_wait_blocks [OF assms(1-4) _ assms(5-7)] False by simp
qed

section \<open>A small machine\<close>

definition small_timer :: timer_kernel where
  "small_timer = sync_kernel.extend small_sync
     (timer_kernel.fields 41 [\<lparr>co_addr = 9, tmout = 10, expire = 42, co_fn = Some Timeout_handler, co_data = 0\<rparr>]
       (\<lambda>_. \<lparr>gen = 0, sys_time = 0, user_time = 0, children_sys_time = 0, children_user_time = 0\<rparr>) 7)"

lemma small_timer_simps:
  "threads small_timer = threads small_sync" "current small_timer = 1" "idle_thread small_timer = 0" "ready_queues small_timer = ready_queues small_sync"
  "procs small_timer = procs small_sync" "blocks small_timer = blocks small_sync" "sync_objs small_timer = sync_objs small_sync" "tick_cnt small_timer = 41"
  "callout_que small_timer = [\<lparr>co_addr = 9, tmout = 10, expire = 42, co_fn = Some Timeout_handler, co_data = 0\<rparr>]"
  by (simp_all add: small_timer_def sync_kernel.defs timer_kernel.defs) (simp_all add: small_sync_simps)

lemma small_timer_ok: "sched_inv small_timer" "timer_ok small_timer" "quiet (cur_ti small_timer)"
proof -
  show "sched_inv small_timer" using small_sync_inv by (rule sched_inv_cong) (simp_all add: small_timer_simps small_sync_simps)
  show "timer_ok small_timer"
    by (simp add: timer_ok_def by_expiry_def blocks_on_def waiting_def small_timer_simps small_sync_simps thr_in_wait_def thr_wait_intr_def)
  show "quiet (cur_ti small_timer)" using small_kernel_cur(6) [of 1] by (simp add: small_timer_simps small_sync_simps)
qed

definition intr_timer :: timer_kernel where
  "intr_timer = with_ti small_timer ((cur_ti small_timer)\<lparr>intrcnt := 1\<rparr>)"

theorem timer_handler_spec_witness:
  "\<exists>s'. timer_handler False intr_timer = Some s' \<and> sched_inv s' \<and> timer_ok s' \<and> current s' = current intr_timer \<and> tick_cnt s' = tick_cnt intr_timer + 1 \<and>
    callout_que s' = filter (\<lambda>c. tick_cnt intr_timer + 1 < expire c) (callout_que intr_timer) \<and>
    (\<forall>c \<in> set (callout_que intr_timer). \<forall>b \<in> set (so_que (sync_objs intr_timer (co_data c))).
       if expire c \<le> tick_cnt intr_timer + 1
       then blk_reason (blocks s' b) = SYNC_WAI_TIMEOUT \<and> status (threads s' (blk_thr (blocks intr_timer b))) = THR_TSTATE_READY
       else blocks s' b = blocks intr_timer b \<and> status (threads s' (blk_thr (blocks intr_timer b))) = status (threads intr_timer (blk_thr (blocks intr_timer b)))) \<and>
    cur_slice (threads s' (current intr_timer)) = cur_slice (sliced (takes_slice intr_timer) (threads intr_timer (current intr_timer))) \<and>
    status (threads s' (current intr_timer)) = status (sliced (takes_slice intr_timer) (threads intr_timer (current intr_timer)))"
proof (rule timer_handler_spec)
  show "takes_slice intr_timer \<longrightarrow> 0 < cur_slice (threads intr_timer (current intr_timer))"
    by (simp add: intr_timer_def takes_slice_def small_timer_simps small_sync_simps) (simp add: small_kernel_def)
  show "unat (preempt (cur_ti intr_timer)) < 2 ^ 31" using small_timer_ok(3) by (simp add: intr_timer_def quiet_def)
qed (simp_all add: intr_timer_def small_timer_ok)

theorem tim_wait_spec_witness:
  "\<exists>u s' c. tim_wait_block small_timer 5 8 \<lparr>co_addr = 10, tmout = 0, expire = 0, co_fn = None, co_data = 0\<rparr> 100 = Some (Suspended u, s') \<and> sched_inv s' \<and>
    timer_ok s' \<and> current s' \<noteq> current small_timer \<and> status (threads s' (current small_timer)) = THR_TSTATE_WAIT \<and>
    set (callout_que s') = insert c (set (callout_que small_timer)) \<and> co_data c = 5 \<and> expire c = tick_cnt small_timer + of_nat (unat (100 :: u32) div 10 + 1) \<and>
    so_que (sync_objs s' 5) = [8] \<and> blocks s' 8 = \<lparr>blk_thr = current small_timer, blk_reason = SYNC_WAI_WAIT\<rparr>"
  using tim_wait_spec [OF small_timer_ok(1,2) _ small_timer_ok(3), of "\<lparr>co_addr = 10, tmout = 0, expire = 0, co_fn = None, co_data = 0\<rparr>" 5 8 100]
  by (simp add: small_timer_simps small_sync_simps ms_to_ticks_def blocks_on_def)

theorem finish_wait_time_obj_spec_witness:
  "\<exists>s'. finish_wait_time_obj (with_ti small_timer ((cur_ti small_timer)\<lparr>preempt := 1\<rparr>)) 1 0 4 3 9 =
      Some (if blk_reason (blocks (with_ti small_timer ((cur_ti small_timer)\<lparr>preempt := 1\<rparr>)) 4) \<noteq> SYNC_WAI_WAIT
        then Some (blk_reason (blocks (with_ti small_timer ((cur_ti small_timer)\<lparr>preempt := 1\<rparr>)) 4))
        else if blk_reason (blocks (with_ti small_timer ((cur_ti small_timer)\<lparr>preempt := 1\<rparr>)) 3) \<noteq> SYNC_WAI_WAIT
        then Some (blk_reason (blocks (with_ti small_timer ((cur_ti small_timer)\<lparr>preempt := 1\<rparr>)) 3))
        else if ev_has_pending_events (with_ti small_timer ((cur_ti small_timer)\<lparr>preempt := 1\<rparr>)) (current (with_ti small_timer ((cur_ti small_timer)\<lparr>preempt := 1\<rparr>)))
        then Some SYNC_WAI_DELIVEV else None, s') \<and>
    threads s' = threads (with_ti small_timer ((cur_ti small_timer)\<lparr>preempt := 1\<rparr>)) \<and> current s' = current (with_ti small_timer ((cur_ti small_timer)\<lparr>preempt := 1\<rparr>)) \<and>
    so_que (sync_objs s' 0) = [] \<and>
    so_que (sync_objs s' 1) = filter (\<lambda>b. b \<noteq> 4) (so_que (sync_objs (with_ti small_timer ((cur_ti small_timer)\<lparr>preempt := 1\<rparr>)) 1)) \<and>
    callout_que s' = filter (\<lambda>c. co_addr c \<noteq> 9) (callout_que (with_ti small_timer ((cur_ti small_timer)\<lparr>preempt := 1\<rparr>)))"
  by (rule finish_wait_time_obj_spec) (simp_all add: small_timer_simps small_sync_simps)

end
