(* ===== verification/Lpc.thy ===== *)
theory Lpc
  imports Timer
begin

text \<open>
  Local procedure calls, \<^verbatim>\<open>src/lpc/lpc.c\<close>: messages between threads.

  Every thread has a queue of messages that have been sent to it and two objects to wait on:
  \<open>wait_sender\<close>, where the thread itself waits for a message, and \<open>wait_reciever\<close>, where senders
  wait until it listens.  Every message has an object \<open>completion\<close> on which its sender waits until the message
  has been taken.  The queues and messages live inside the structures of threads and messages, so the state has a function
  from the address of the structure to the address of each of these objects.

  \<open>lpc_send\<close> and \<open>lpc_recv\<close> wait and are split where they give up the processor, like \<open>sync_wait\<close>: a first stage up
  to the first wait, and a stage from the return of a wait to the next one.  What a call keeps on its stack between two stages is
  its frame.  A lock is released in the middle of a call as well; the thread keeps the processor there unless its time slice has
  ended, which the theorems exclude by the status of the thread.

  The memory of a process is seen through \<open>vm_copy_in\<close> and \<open>vm_copy_out\<close>: \<open>umem p a\<close> is the message body at
  address \<open>a\<close>, and \<open>None\<close> where the access is refused with \<^verbatim>\<open>-EFAULT\<close>; \<open>umem_src\<close> likewise for the variable of a caller that
  asks who sent the message.
\<close>

section \<open>State\<close>

type_synonym msg_body = "u8 list"

record msg =
  m_qp :: "nat option"
  m_src :: u64
  m_body :: msg_body

record lpc_kernel = timer_kernel +
  mque :: "nat \<Rightarrow> nat list"
  msgs :: "nat \<Rightarrow> msg"
  live_msgs :: "nat set"
  wait_sender :: "nat \<Rightarrow> nat"
  wait_reciever :: "nat \<Rightarrow> nat"
  completion :: "nat \<Rightarrow> nat"
  umem :: "nat \<Rightarrow> u64 \<Rightarrow> msg_body option"
  umem_src :: "nat \<Rightarrow> u64 \<Rightarrow> u64 option"

abbreviation (input) LPC_RECV_ANY :: u64 where "LPC_RECV_ANY \<equiv> 0"
abbreviation (input) LPC_INFINITE :: int where "LPC_INFINITE \<equiv> - 1"

text \<open>What the waits of a call keep on the stack of the thread: the blocks, the object and the call-out of a timed wait.\<close>

record wait_frame =
  w_sb :: nat
  w_tobj :: nat
  w_tsb :: nat
  w_cb :: timer_callout

record send_frame =
  f_dest :: u64
  f_tmout :: int
  f_m :: u64
  f_q :: nat
  f_msg :: nat
  f_wait :: wait_frame

record recv_frame =
  r_src :: u64
  r_tmout :: int
  r_m :: u64
  r_msg_src :: "u64 option"
  r_wait :: wait_frame

section \<open>Messages and queues\<close>

definition is_msg_queue_empty_nolock :: "'a lpc_kernel_scheme \<Rightarrow> nat \<Rightarrow> bool" where
  "is_msg_queue_empty_nolock s q \<longleftrightarrow> mque s q = []"

definition lpc_msg_add_nolock :: "'a lpc_kernel_scheme \<Rightarrow> nat \<Rightarrow> nat \<Rightarrow> 'a lpc_kernel_scheme" where
  "lpc_msg_add_nolock s q m = s\<lparr>mque := (mque s)(q := mque s q @ [m]), msgs := (msgs s)(m := (msgs s m)\<lparr>m_qp := Some q\<rparr>)\<rparr>"

text \<open>The argument \<open>mp\<close> is what \<open>kmalloc\<close> returns; a failure is the error number on the left.\<close>

definition lpc_msg_alloc :: "'a lpc_kernel_scheme \<Rightarrow> nat option \<Rightarrow> ((int + nat) \<times> 'a lpc_kernel_scheme) option" where
  "lpc_msg_alloc s mp = (case mp of
      None \<Rightarrow> Some (Inl (- ENOMEM), s)
    | Some m \<Rightarrow> do {
        ob \<leftarrow> sync_init_object SYNC_WAKE_FLAG_ALL THR_TSTATE_WAIT;
        Some (Inr m, s\<lparr>live_msgs := insert m (live_msgs s), sync_objs := (sync_objs s)(completion s m := ob),
          msgs := (msgs s)(m := (msgs s m)\<lparr>m_qp := None, m_src := tid (threads s (current s))\<rparr>)\<rparr>)
      })"

definition lpc_msg_free :: "'a lpc_kernel_scheme \<Rightarrow> nat \<Rightarrow> 'a lpc_kernel_scheme option" where
  "lpc_msg_free s m = do {
     s \<leftarrow> lock_enter s;
     s \<leftarrow> sync_wake s (completion s m) SYNC_OBJ_DESTROYED;
     s \<leftarrow> lock_leave s;
     Some (s\<lparr>live_msgs := live_msgs s - {m}\<rparr>)
   }"

text \<open>The first message of the queue from \<open>src\<close> or from anyone, and the queue without it.\<close>

fun dequeue_msg_loop :: "(nat \<Rightarrow> msg) \<Rightarrow> u64 \<Rightarrow> nat list \<Rightarrow> nat option \<times> nat list" where
  "dequeue_msg_loop ms src [] = (None, [])"
| "dequeue_msg_loop ms src (m # q) =
     (if src = LPC_RECV_ANY \<or> m_src (ms m) = src then (Some m, q)
      else (let (r, q') = dequeue_msg_loop ms src q in (r, m # q')))"

definition dequeue_message_nolock :: "'a lpc_kernel_scheme \<Rightarrow> u64 \<Rightarrow> nat \<Rightarrow> nat option \<times> 'a lpc_kernel_scheme" where
  "dequeue_message_nolock s src q =
     (let (r, q') = dequeue_msg_loop (msgs s) src (mque s q) in (r, s\<lparr>mque := (mque s)(q := q')\<rparr>))"

definition lpc_msg_queue_init :: "'a lpc_kernel_scheme \<Rightarrow> nat \<Rightarrow> 'a lpc_kernel_scheme option" where
  "lpc_msg_queue_init s q = do {
     o1 \<leftarrow> sync_init_object SYNC_WAKE_FLAG_ALL THR_TSTATE_WAIT;
     o2 \<leftarrow> sync_init_object SYNC_WAKE_FLAG_ALL THR_TSTATE_WAIT;
     Some (s\<lparr>mque := (mque s)(q := []), sync_objs := (sync_objs s)(wait_sender s q := o1, wait_reciever s q := o2)\<rparr>)
   }"

fun destroy_msgs_loop :: "'a lpc_kernel_scheme \<Rightarrow> nat \<Rightarrow> nat list \<Rightarrow> 'a lpc_kernel_scheme option" where
  "destroy_msgs_loop s q [] = Some s"
| "destroy_msgs_loop s q (m # ms) = do {
     let s = s\<lparr>mque := (mque s)(q := ms)\<rparr>;
     s \<leftarrow> lpc_msg_free s m;
     destroy_msgs_loop s q ms
   }"

definition lpc_destroy_msg_queue :: "'a lpc_kernel_scheme \<Rightarrow> nat \<Rightarrow> 'a lpc_kernel_scheme option" where
  "lpc_destroy_msg_queue s q = do {
     s \<leftarrow> lock_enter s;
     s \<leftarrow> destroy_msgs_loop s q (mque s q);
     s \<leftarrow> sync_wake s (wait_reciever s q) SYNC_OBJ_DESTROYED;
     s \<leftarrow> sync_wake s (wait_sender s q) SYNC_OBJ_DESTROYED;
     lock_leave s
   }"

section \<open>Sending\<close>

text \<open>
  Where a call of \<open>lpc_send\<close> stands: it has returned, it waits for the receiver without or with a time limit, it
  waits for the message to be taken, or one of these waits ended at once.
\<close>

datatype send_stage =
  Send_done int | Send_wait bool | Send_twait bool | Send_woken bool "sync_reason option" | Send_sent bool

definition lpc_send_result :: "sync_reason \<Rightarrow> int" where
  "lpc_send_result res = (if res = SYNC_OBJ_DESTROYED then - ENOENT else if res = SYNC_WAI_DELIVEV then - EINTR else 0)"

text \<open>The label \<^verbatim>\<open>msg_free_out\<close>.\<close>

definition send_fail :: "int \<Rightarrow> send_frame \<Rightarrow> 'a lpc_kernel_scheme \<Rightarrow> (send_stage \<times> 'a lpc_kernel_scheme) option" where
  "send_fail rc f s = do {
     s \<leftarrow> lpc_msg_free s (f_msg f);
     s \<leftarrow> lock_leave s;
     Some (Send_done rc, s)
   }"

text \<open>From the end of the loop that waits for the receiver.\<close>

definition lpc_send_deliver :: "send_frame \<Rightarrow> 'a lpc_kernel_scheme \<Rightarrow> (send_stage \<times> 'a lpc_kernel_scheme) option" where
  "lpc_send_deliver f s = (case umem s (thr_p (threads s (current s))) (f_m f) of
      None \<Rightarrow> do {
        s \<leftarrow> lock_leave s;
        Some (Send_done (- EFAULT), s)
      }
    | Some body \<Rightarrow> do {
        let s = s\<lparr>msgs := (msgs s)(f_msg f := (msgs s (f_msg f))\<lparr>m_body := body\<rparr>)\<rparr>;
        let s = lpc_msg_add_nolock s (f_q f) (f_msg f);
        s \<leftarrow> lock_leave s;
        s \<leftarrow> lock_enter s;
        s \<leftarrow> sync_wake s (wait_sender s (f_q f)) SYNC_WAI_RELEASED;
        (r, s) \<leftarrow> sync_wait_block s (completion s (f_msg f)) (w_sb (f_wait f));
        case r of
          Suspended u \<Rightarrow> Some (Send_sent u, s)
        | Returned res \<Rightarrow> do {
            s \<leftarrow> lock_leave s;
            Some (Send_done (lpc_send_result res), s)
          }
      })"

text \<open>One evaluation of the condition of the loop.\<close>

definition lpc_send_loop :: "send_frame \<Rightarrow> 'a lpc_kernel_scheme \<Rightarrow> (send_stage \<times> 'a lpc_kernel_scheme) option" where
  "lpc_send_loop f s =
     (if so_que (sync_objs s (wait_sender s (f_q f))) = [] then
        if f_tmout f = 0 then send_fail (- EAGAIN) f s
        else if f_tmout f < 0 then do {
          (r, s) \<leftarrow> sync_wait_block s (wait_reciever s (f_q f)) (w_sb (f_wait f));
          Some (case r of Suspended u \<Rightarrow> Send_wait u | Returned res \<Rightarrow> Send_woken False (Some res), s)
        } else do {
          (r, s) \<leftarrow> tim_wait_obj_block s (wait_reciever s (f_q f)) (w_tobj (f_wait f)) (w_sb (f_wait f)) (w_tsb (f_wait f))
             (w_cb (f_wait f)) (of_int (f_tmout f));
          Some (case r of TSuspended u \<Rightarrow> Send_twait u | TReturned res \<Rightarrow> Send_woken True res, s)
        }
      else lpc_send_deliver f s)"

text \<open>
  What follows the wait, with its result; the search for the receiver is in the branch with a time limit only.  A result
  that was never set is undefined.
\<close>

definition lpc_send_check :: "bool \<Rightarrow> sync_reason option \<Rightarrow> send_frame \<Rightarrow> 'a lpc_kernel_scheme \<Rightarrow> (send_stage \<times> 'a lpc_kernel_scheme) option" where
  "lpc_send_check timed r f s = do {
     res \<leftarrow> r;
     if res = SYNC_OBJ_DESTROYED then send_fail (- ENOENT) f s
     else if timed \<and> res = SYNC_WAI_TIMEOUT then send_fail (- EAGAIN) f s
     else if res = SYNC_WAI_DELIVEV then send_fail (- EINTR) f s
     else do {
       s \<leftarrow> (if timed then do {
              s \<leftarrow> lock_enter s;
              let thr = thr_find_thread_by_tid_nolock s (f_dest f);
              s \<leftarrow> lock_leave s;
              kassert (thr \<noteq> None);
              Some s
            } else Some s);
       lpc_send_loop f s
     }
   }"

definition lpc_send :: "'a lpc_kernel_scheme \<Rightarrow> u64 \<Rightarrow> int \<Rightarrow> u64 \<Rightarrow> nat option \<Rightarrow> wait_frame \<Rightarrow>
    ((send_stage \<times> send_frame option) \<times> 'a lpc_kernel_scheme) option" where
  "lpc_send s dest tmout' m mp w = do {
     s \<leftarrow> lock_enter s;
     case thr_find_thread_by_tid_nolock s dest of
       None \<Rightarrow> do { s \<leftarrow> lock_leave s; Some ((Send_done (- ENOENT), None), s) }
     | Some thr \<Rightarrow> do {
         (r, s) \<leftarrow> lpc_msg_alloc s mp;
         case r of
           Inl rc \<Rightarrow> do { s \<leftarrow> lock_leave s; Some ((Send_done rc, None), s) }
         | Inr new_msg \<Rightarrow> do {
             s \<leftarrow> lock_enter s;
             s \<leftarrow> lock_leave s;
             let f = \<lparr>f_dest = dest, f_tmout = tmout', f_m = m, f_q = thr, f_msg = new_msg, f_wait = w\<rparr>;
             (st, s) \<leftarrow> lpc_send_loop f s;
             Some ((st, Some f), s)
           }
       }
   }"

text \<open>The thread has the processor again.\<close>

fun lpc_send_resume :: "send_stage \<Rightarrow> send_frame \<Rightarrow> 'a lpc_kernel_scheme \<Rightarrow> (send_stage \<times> 'a lpc_kernel_scheme) option" where
  "lpc_send_resume (Send_wait u) f s = do {
     (res, s) \<leftarrow> sync_wait_resume u s (wait_reciever s (f_q f)) (w_sb (f_wait f));
     lpc_send_check False (Some res) f s
   }"
| "lpc_send_resume (Send_twait u) f s = do {
     (res, s) \<leftarrow> tim_wait_obj_resume u s (wait_reciever s (f_q f)) (w_tobj (f_wait f)) (w_sb (f_wait f)) (w_tsb (f_wait f))
        (co_addr (w_cb (f_wait f)));
     lpc_send_check True res f s
   }"
| "lpc_send_resume (Send_woken timed res) f s = lpc_send_check timed res f s"
| "lpc_send_resume (Send_sent u) f s = do {
     (res, s) \<leftarrow> sync_wait_resume u s (completion s (f_msg f)) (w_sb (f_wait f));
     s \<leftarrow> lock_leave s;
     Some (Send_done (lpc_send_result res), s)
   }"
| "lpc_send_resume (Send_done rc) f s = None"

section \<open>Receiving\<close>

datatype recv_stage = Recv_done int | Recv_wait bool | Recv_twait bool | Recv_woken bool "sync_reason option"

text \<open>The message is given to the caller and its sender woken, whether the copies succeed or not.\<close>

definition copy_to_user :: "recv_frame \<Rightarrow> nat \<Rightarrow> 'a lpc_kernel_scheme \<Rightarrow> int \<times> 'a lpc_kernel_scheme" where
  "copy_to_user f m s = (let p = thr_p (threads s (current s)) in
     case umem s p (r_m f) of
       None \<Rightarrow> (- EFAULT, s)
     | Some _ \<Rightarrow>
         (let s = s\<lparr>umem := (umem s)(p := (umem s p)(r_m f := Some (m_body (msgs s m))))\<rparr>
          in case r_msg_src f of
               None \<Rightarrow> (0, s)
             | Some a \<Rightarrow>
                 (case umem_src s p a of
                    None \<Rightarrow> (- EFAULT, s)
                  | Some _ \<Rightarrow> (0, s\<lparr>umem_src := (umem_src s)(p := (umem_src s p)(a := Some (m_src (msgs s m))))\<rparr>))))"

definition lpc_recv_take :: "recv_frame \<Rightarrow> nat \<Rightarrow> 'a lpc_kernel_scheme \<Rightarrow> (recv_stage \<times> 'a lpc_kernel_scheme) option" where
  "lpc_recv_take f m s = do {
     let (rc, s) = copy_to_user f m s;
     s \<leftarrow> lock_enter s;
     s \<leftarrow> sync_wake s (completion s m) SYNC_WAI_RELEASED;
     s \<leftarrow> lock_leave s;
     s \<leftarrow> lock_leave s;
     Some (Recv_done rc, s)
   }"

definition lpc_recv_loop :: "recv_frame \<Rightarrow> 'a lpc_kernel_scheme \<Rightarrow> (recv_stage \<times> 'a lpc_kernel_scheme) option" where
  "lpc_recv_loop f s = do {
     s \<leftarrow> sync_wake s (wait_reciever s (current s)) SYNC_WAI_RELEASED;
     let (r, s) = dequeue_message_nolock s (r_src f) (current s);
     case r of
       Some m \<Rightarrow> lpc_recv_take f m s
     | None \<Rightarrow>
         if r_tmout f = 0 then do {
           s \<leftarrow> lock_leave s;
           Some (Recv_done (- EAGAIN), s)
         } else if r_tmout f < 0 then do {
           (r, s) \<leftarrow> sync_wait_block s (wait_sender s (current s)) (w_sb (r_wait f));
           Some (case r of Suspended u \<Rightarrow> Recv_wait u | Returned res \<Rightarrow> Recv_woken False (Some res), s)
         } else do {
           (r, s) \<leftarrow> tim_wait_obj_block s (wait_sender s (current s)) (w_tobj (r_wait f)) (w_sb (r_wait f)) (w_tsb (r_wait f))
              (w_cb (r_wait f)) (of_int (r_tmout f));
           Some (case r of TSuspended u \<Rightarrow> Recv_twait u | TReturned res \<Rightarrow> Recv_woken True res, s)
         }
   }"

definition lpc_recv_check :: "bool \<Rightarrow> sync_reason option \<Rightarrow> recv_frame \<Rightarrow> 'a lpc_kernel_scheme \<Rightarrow> (recv_stage \<times> 'a lpc_kernel_scheme) option" where
  "lpc_recv_check timed r f s = do {
     res \<leftarrow> r;
     kassert (res \<noteq> SYNC_OBJ_DESTROYED);
     if timed \<and> res = SYNC_WAI_TIMEOUT then do { s \<leftarrow> lock_leave s; Some (Recv_done (- EAGAIN), s) }
     else if res = SYNC_WAI_DELIVEV then do { s \<leftarrow> lock_leave s; Some (Recv_done (- EINTR), s) }
     else lpc_recv_loop f s
   }"

definition lpc_recv :: "'a lpc_kernel_scheme \<Rightarrow> recv_frame \<Rightarrow> (recv_stage \<times> 'a lpc_kernel_scheme) option" where
  "lpc_recv s f = do {
     s \<leftarrow> lock_enter s;
     lpc_recv_loop f s
   }"

fun lpc_recv_resume :: "recv_stage \<Rightarrow> recv_frame \<Rightarrow> 'a lpc_kernel_scheme \<Rightarrow> (recv_stage \<times> 'a lpc_kernel_scheme) option" where
  "lpc_recv_resume (Recv_wait u) f s = do {
     (res, s) \<leftarrow> sync_wait_resume u s (wait_sender s (current s)) (w_sb (r_wait f));
     lpc_recv_check False (Some res) f s
   }"
| "lpc_recv_resume (Recv_twait u) f s = do {
     (res, s) \<leftarrow> tim_wait_obj_resume u s (wait_sender s (current s)) (w_tobj (r_wait f)) (w_sb (r_wait f)) (w_tsb (r_wait f))
        (co_addr (w_cb (r_wait f)));
     lpc_recv_check True res f s
   }"
| "lpc_recv_resume (Recv_woken timed res) f s = lpc_recv_check timed res f s"
| "lpc_recv_resume (Recv_done rc) f s = None"

section \<open>Sending and waiting for the reply\<close>

datatype reply_stage = Reply_done int | In_send send_stage send_frame | In_recv recv_stage recv_frame

text \<open>When the message has been taken the call goes on with \<open>lpc_recv\<close>.\<close>

definition after_send :: "u64 \<Rightarrow> u64 \<Rightarrow> wait_frame \<Rightarrow> send_stage \<Rightarrow> send_frame option \<Rightarrow> 'a lpc_kernel_scheme \<Rightarrow> (reply_stage \<times> 'a lpc_kernel_scheme) option" where
  "after_send dest m w st fo s = (case st of
      Send_done rc \<Rightarrow>
        if rc \<noteq> 0 then Some (Reply_done rc, s)
        else do {
          let f = \<lparr>r_src = dest, r_tmout = LPC_INFINITE, r_m = m, r_msg_src = None, r_wait = w\<rparr>;
          (r, s) \<leftarrow> lpc_recv s f;
          Some (case r of Recv_done rc \<Rightarrow> Reply_done (if rc \<noteq> 0 then rc else 0) | _ \<Rightarrow> In_recv r f, s)
        }
    | _ \<Rightarrow> do { f \<leftarrow> fo; Some (In_send st f, s) })"

definition lpc_send_and_reply :: "'a lpc_kernel_scheme \<Rightarrow> u64 \<Rightarrow> u64 \<Rightarrow> nat option \<Rightarrow> wait_frame \<Rightarrow> (reply_stage \<times> 'a lpc_kernel_scheme) option" where
  "lpc_send_and_reply s dest m mp w = do {
     ((st, fo), s) \<leftarrow> lpc_send s dest LPC_INFINITE m mp w;
     after_send dest m w st fo s
   }"

fun lpc_send_and_reply_resume :: "reply_stage \<Rightarrow> 'a lpc_kernel_scheme \<Rightarrow> (reply_stage \<times> 'a lpc_kernel_scheme) option" where
  "lpc_send_and_reply_resume (In_send st f) s = do {
     (st, s) \<leftarrow> lpc_send_resume st f s;
     after_send (f_dest f) (f_m f) (f_wait f) st (Some f) s
   }"
| "lpc_send_and_reply_resume (In_recv r f) s = do {
     (r, s) \<leftarrow> lpc_recv_resume r f s;
     Some (case r of Recv_done rc \<Rightarrow> Reply_done (if rc \<noteq> 0 then rc else 0) | _ \<Rightarrow> In_recv r f, s)
   }"
| "lpc_send_and_reply_resume (Reply_done rc) s = None"

section \<open>Waking with locks held\<close>

lemma lock_leave_nested:
  assumes "preempt (cur_ti s) = 2 \<or> preempt (cur_ti s) = 3"
  shows "lock_leave s = Some (with_ti s ((cur_ti s)\<lparr>preempt := preempt (cur_ti s) - 1\<rparr>))"
  using assms by (auto simp: lock_leave_def ti_enable_dispatch_def with_ti_def Let_def)

lemma sync_wake_nested:
  assumes inv: "sched_inv s" and wt: "waiting s (so_que (sync_objs s obj) @ B)" and pol: "so_policy (sync_objs s obj) = SYNC_WAKE_FLAG_ALL"
    and ti: "preempt (cur_ti s) = 1 \<or> preempt (cur_ti s) = 2"
  shows "\<exists>s'. sync_wake s obj reason = Some s' \<and> sched_inv s' \<and> woke s obj reason (so_que (sync_objs s obj)) s' \<and> waiting s' B"
proof -
  define s1 where "s1 = with_ti s ((cur_ti s)\<lparr>preempt := preempt (cur_ti s) + 1\<rparr>)"
  have enter: "lock_enter s = Some s1" by (simp add: lock_enter_eq s1_def)
  have "waiting s (so_que (sync_objs s obj))" using wt by (auto simp: waiting_def inj_on_Un)
  then have w1: "waiting s1 (so_que (sync_objs s1 obj))" and i1: "sched_inv s1" using inv by (simp_all add: s1_def)
  from sync_wake_loop_ok [OF i1 w1 refl, of reason] pol obtain s2 where
    s2: "sync_wake_loop s1 obj reason (so_que (sync_objs s1 obj)) = Some s2" "sched_inv s2" "woke s1 obj reason (so_que (sync_objs s obj)) s2"
    by (auto simp: s1_def)
  have t2: "preempt (cur_ti s2) = preempt (cur_ti s) + 1" "intrcnt (cur_ti s2) = intrcnt (cur_ti s)" "current s2 = current s"
    using s2(3) by (simp_all add: woke_def s1_def)
  define c where "c = (cur_ti s2)\<lparr>preempt := preempt (cur_ti s)\<rparr>"
  have leave: "lock_leave s2 = Some (with_ti s2 c)" using lock_leave_nested [of s2] t2 ti by (auto simp: c_def)
  have wk: "woke s obj reason (so_que (sync_objs s obj)) (with_ti s2 c)"
    using woke_with_ti [of s "(cur_ti s)\<lparr>preempt := preempt (cur_ti s) + 1\<rparr>" obj reason _ s2 c] s2(3) t2 by (simp add: s1_def c_def)
  have dis: "ti_dispatch_disabled c" using ti dispatch_disabled_iff [of c] by (auto simp: c_def)
  show ?thesis
  proof (cases "so_que (sync_objs s obj) = []")
    case True
    have "lock_leave s1 = Some s" using lock_leave_nested [of s1] ti with_ti_cur [of s] by (auto simp: s1_def)
    then have "sync_wake s obj reason = Some s" using enter True by (simp add: sync_wake_def s1_def)
    moreover have "woke s obj reason [] s" using woke_nil [OF True, of "cur_ti s" reason] with_ti_cur [of s] by simp
    ultimately show ?thesis using inv True wt by auto
  next
    case False
    then have "sync_wake s obj reason = Some (with_ti s2 c)" using enter s2(1) leave t2 dis by (simp add: sync_wake_def s1_def)
    then show ?thesis using s2(2) wk waiting_after_woke [OF wt wk] by simp
  qed
qed

text \<open>The part of the state that the scheduler and the waits do not touch.\<close>

lemma lpc_frame:
  fixes s s' :: "'a lpc_kernel_scheme"
  assumes "sync_kernel.more s' = sync_kernel.more s"
  shows "mque s' = mque s" "msgs s' = msgs s" "live_msgs s' = live_msgs s" "wait_sender s' = wait_sender s" "wait_reciever s' = wait_reciever s"
    "completion s' = completion s" "umem s' = umem s" "umem_src s' = umem_src s"
  using assms by (cases s, cases s', simp)+

lemma lpc_with_ti [simp]:
  fixes s :: "'a lpc_kernel_scheme"
  shows "mque (with_ti s ti) = mque s" "msgs (with_ti s ti) = msgs s" "live_msgs (with_ti s ti) = live_msgs s" "wait_sender (with_ti s ti) = wait_sender s"
    "wait_reciever (with_ti s ti) = wait_reciever s" "completion (with_ti s ti) = completion s" "umem (with_ti s ti) = umem s" "umem_src (with_ti s ti) = umem_src s"
  by (simp_all add: with_ti_def upd_thread_def)

lemma waiting_cong:
  assumes "waiting s B" and "blocks s' = blocks s" and "current s' = current s" and "\<And>u. status (threads s' u) = status (threads s u)"
  shows "waiting s' B"
  using assms by (simp add: waiting_def thr_in_wait_def thr_wait_intr_def thr_wait_killable_def)

section \<open>The queue of messages\<close>

definition wanted :: "u64 \<Rightarrow> msg \<Rightarrow> bool" where
  "wanted src m \<longleftrightarrow> src = LPC_RECV_ANY \<or> m_src m = src"

lemma dequeue_msg_loop_found:
  "\<forall>x \<in> set xs. \<not> wanted src (ms x) \<Longrightarrow> wanted src (ms m) \<Longrightarrow> dequeue_msg_loop ms src (xs @ m # ys) = (Some m, xs @ ys)"
  by (induction xs) (auto simp: wanted_def)

lemma dequeue_msg_loop_none: "\<forall>x \<in> set xs. \<not> wanted src (ms x) \<Longrightarrow> dequeue_msg_loop ms src xs = (None, xs)"
  by (induction xs) (auto simp: wanted_def)

section \<open>Receiving a message\<close>

definition copies_ok :: "'a lpc_kernel_scheme \<Rightarrow> recv_frame \<Rightarrow> bool" where
  "copies_ok s f \<longleftrightarrow> umem s (thr_p (threads s (current s))) (r_m f) \<noteq> None \<and>
     (\<forall>a. r_msg_src f = Some a \<longrightarrow> umem_src s (thr_p (threads s (current s))) a \<noteq> None)"

text \<open>What the caller of \<open>lpc_recv\<close> finds in its memory when the copies succeed.\<close>

definition received :: "'a lpc_kernel_scheme \<Rightarrow> recv_frame \<Rightarrow> msg \<Rightarrow> 'a lpc_kernel_scheme \<Rightarrow> bool" where
  "received s f m s' \<longleftrightarrow> (let p = thr_p (threads s (current s)) in
     umem s' = (umem s)(p := (umem s p)(r_m f := Some (m_body m))) \<and>
     umem_src s' = (case r_msg_src f of None \<Rightarrow> umem_src s | Some a \<Rightarrow> (umem_src s)(p := (umem_src s p)(a := Some (m_src m)))))"

definition same_but_memory :: "'a lpc_kernel_scheme \<Rightarrow> 'a lpc_kernel_scheme \<Rightarrow> bool" where
  "same_but_memory s s' \<longleftrightarrow> threads s' = threads s \<and> current s' = current s \<and> idle_thread s' = idle_thread s \<and> ready_queues s' = ready_queues s \<and>
     procs s' = procs s \<and> thr_created_tree s' = thr_created_tree s \<and>
     blocks s' = blocks s \<and> sync_objs s' = sync_objs s \<and> mque s' = mque s \<and> msgs s' = msgs s \<and> live_msgs s' = live_msgs s \<and>
     wait_sender s' = wait_sender s \<and> wait_reciever s' = wait_reciever s \<and> completion s' = completion s"

lemma copy_to_user_ok:
  obtains s' where "copy_to_user f m s = (if copies_ok s f then 0 else - EFAULT, s')" "same_but_memory s s'"
    "copies_ok s f \<longrightarrow> received s f (msgs s m) s'"
proof -
  define p where "p = thr_p (threads s (current s))"
  have c: "copies_ok s f \<longleftrightarrow> umem s p (r_m f) \<noteq> None \<and> (\<forall>a. r_msg_src f = Some a \<longrightarrow> umem_src s p a \<noteq> None)"
    by (simp add: copies_ok_def p_def)
  show thesis
  proof (rule that [of "snd (copy_to_user f m s)"])
    show "copy_to_user f m s = (if copies_ok s f then 0 else - EFAULT, snd (copy_to_user f m s))"
      unfolding copy_to_user_def p_def [symmetric] Let_def c by (auto split: option.splits)
    show "same_but_memory s (snd (copy_to_user f m s))"
      unfolding copy_to_user_def p_def [symmetric] Let_def same_but_memory_def by (auto split: option.splits)
    show "copies_ok s f \<longrightarrow> received s f (msgs s m) (snd (copy_to_user f m s))"
      unfolding copy_to_user_def received_def p_def [symmetric] Let_def c by (auto split: option.splits)
  qed
qed

text \<open>
  The state after the current thread has taken the message \<open>m\<close> and left the messages \<open>q\<close>: the senders that
  wait for it to listen and the sender of the message are ready.
\<close>

definition took :: "'a lpc_kernel_scheme \<Rightarrow> recv_frame \<Rightarrow> nat \<Rightarrow> nat list \<Rightarrow> 'a lpc_kernel_scheme \<Rightarrow> bool" where
  "took s f m q s' \<longleftrightarrow> (let r = wait_reciever s (current s); c = completion s m; W = so_que (sync_objs s r) @ so_que (sync_objs s c) in
     sched_inv s' \<and> current s' = current s \<and> mque s' = (mque s)(current s := q) \<and> msgs s' = msgs s \<and> live_msgs s' = live_msgs s \<and>
     completion s' = completion s \<and> wait_sender s' = wait_sender s \<and> wait_reciever s' = wait_reciever s \<and>
     blocks s' = (\<lambda>b. if b \<in> set W then (blocks s b)\<lparr>blk_reason := SYNC_WAI_RELEASED\<rparr> else blocks s b) \<and>
     sync_objs s' = (sync_objs s)(r := (sync_objs s r)\<lparr>so_que := []\<rparr>, c := (sync_objs s c)\<lparr>so_que := []\<rparr>) \<and>
     (\<forall>u. status (threads s' u) = (if u \<in> (\<lambda>b. blk_thr (blocks s b)) ` set W then THR_TSTATE_READY else status (threads s u)) \<and>
        thr_p (threads s' u) = thr_p (threads s u) \<and> tid (threads s' u) = tid (threads s u)) \<and>
     quiet (cur_ti s') \<and> (copies_ok s f \<longrightarrow> received s f (msgs s m) s'))"

lemma lpc_recv_take_ok:
  assumes inv: "sched_inv s" and run: "cur_status s = THR_TSTATE_RUN" and ti: "preempt (cur_ti s) = 1" "intrcnt (cur_ti s) = 0"
    and pol: "so_policy (sync_objs s (completion s m)) = SYNC_WAKE_FLAG_ALL" and wt: "waiting s (so_que (sync_objs s (completion s m)))"
  shows "\<exists>s' s0. lpc_recv_take f m s = Some (Recv_done (if copies_ok s f then 0 else - EFAULT), s') \<and> sched_inv s' \<and> quiet (cur_ti s') \<and>
    (copies_ok s f \<longrightarrow> received s f (msgs s m) s') \<and> mque s' = mque s \<and> msgs s' = msgs s \<and> live_msgs s' = live_msgs s \<and> completion s' = completion s \<and>
    wait_sender s' = wait_sender s \<and> wait_reciever s' = wait_reciever s \<and> same_but_memory s s0 \<and>
    woke s0 (completion s m) SYNC_WAI_RELEASED (so_que (sync_objs s (completion s m))) (with_ti s' (cur_ti s))"
proof -
  define Q where "Q = so_que (sync_objs s (completion s m))"
  obtain s1 where s1: "copy_to_user f m s = (if copies_ok s f then 0 else - EFAULT, s1)" "same_but_memory s s1"
    "copies_ok s f \<longrightarrow> received s f (msgs s m) s1" by (rule copy_to_user_ok)
  have f1: "threads s1 = threads s" "current s1 = current s" "idle_thread s1 = idle_thread s" "ready_queues s1 = ready_queues s" "blocks s1 = blocks s"
    "sync_objs s1 = sync_objs s" "completion s1 = completion s" "mque s1 = mque s" "msgs s1 = msgs s" "live_msgs s1 = live_msgs s"
    "wait_sender s1 = wait_sender s" "wait_reciever s1 = wait_reciever s"
    using s1(2) by (simp_all add: same_but_memory_def)
  define s2 where "s2 = with_ti s1 ((cur_ti s)\<lparr>preempt := 2\<rparr>)"
  have e: "lock_enter s1 = Some s2" using ti(1) by (simp add: lock_enter_eq f1 s2_def)
  have "sched_inv s1" using inv by (rule sched_inv_cong) (simp_all add: f1)
  then have i2: "sched_inv s2" by (simp add: s2_def)
  have "waiting s1 Q" using wt unfolding Q_def by (rule waiting_cong) (simp_all add: f1)
  then have w2: "waiting s2 (so_que (sync_objs s2 (completion s m)) @ [])" by (simp add: s2_def f1 Q_def)
  obtain s3 where s3: "sync_wake s2 (completion s m) SYNC_WAI_RELEASED = Some s3" "sched_inv s3" "woke s2 (completion s m) SYNC_WAI_RELEASED Q s3"
    using sync_wake_nested [OF i2 w2, of SYNC_WAI_RELEASED] pol ti by (auto simp: s2_def f1 Q_def)
  have c3: "current s3 = current s" "preempt (cur_ti s3) = 2" "intrcnt (cur_ti s3) = 0" "sync_kernel.more s3 = sync_kernel.more s1"
    using s3(3) ti by (simp_all add: woke_def s2_def f1)
  have "current s \<notin> (\<lambda>b. blk_thr (blocks s b)) ` set Q" using waiting_not_current [OF wt] by (simp add: Q_def)
  then have st3: "cur_status s3 = THR_TSTATE_RUN" using s3(3) run by (simp add: woke_def s2_def f1)
  define s4 where "s4 = with_ti s3 ((cur_ti s3)\<lparr>preempt := 1\<rparr>)"
  have l3: "lock_leave s3 = Some s4" using lock_leave_nested [of s3] c3 by (simp add: s4_def)
  obtain ti' where l4: "lock_leave s4 = Some (with_ti s4 ti')" "quiet ti'" using lock_leave_run [of s4] c3 st3 by (auto simp: s4_def)
  define s5 where "s5 = with_ti s3 ti'"
  have "lpc_recv_take f m s = Some (Recv_done (if copies_ok s f then 0 else - EFAULT), s5)"
    unfolding lpc_recv_take_def s1(1) using e s3(1) l3 l4(1) by (simp add: s2_def f1 s4_def s5_def)
  moreover have "woke s1 (completion s m) SYNC_WAI_RELEASED Q (with_ti s5 (cur_ti s))"
    using woke_with_ti [of s1 "(cur_ti s)\<lparr>preempt := 2\<rparr>" _ _ Q s3 "cur_ti s"] s3(3) by (simp add: s2_def s5_def f1)
  moreover have "sync_kernel.more s5 = sync_kernel.more s1" using c3(4) by (simp add: s5_def)
  from lpc_frame [OF this] have "mque s5 = mque s" "msgs s5 = msgs s" "live_msgs s5 = live_msgs s" "completion s5 = completion s"
    "umem s5 = umem s1" "umem_src s5 = umem_src s1" "wait_sender s5 = wait_sender s" "wait_reciever s5 = wait_reciever s" by (simp_all add: f1)
  moreover have "copies_ok s f \<longrightarrow> received s f (msgs s m) s5" using s1(3) \<open>umem s5 = umem s1\<close> \<open>umem_src s5 = umem_src s1\<close> by (simp add: received_def)
  ultimately show ?thesis using s3(2) l4(2) s1(2) by (intro exI [of _ s5] exI [of _ s1]) (simp add: s5_def Q_def)
qed

lemma lpc_recv_loop_takes:
  assumes inv: "sched_inv s" and run: "cur_status s = THR_TSTATE_RUN" and ti: "preempt (cur_ti s) = 1" "intrcnt (cur_ti s) = 0"
    and q: "mque s (current s) = xs @ m # ys" "\<forall>x \<in> set xs. \<not> wanted (r_src f) (msgs s x)" "wanted (r_src f) (msgs s m)"
    and pol: "so_policy (sync_objs s (completion s m)) = SYNC_WAKE_FLAG_ALL" "so_policy (sync_objs s (wait_reciever s (current s))) = SYNC_WAKE_FLAG_ALL"
    and ne: "completion s m \<noteq> wait_reciever s (current s)"
    and wt: "waiting s (so_que (sync_objs s (wait_reciever s (current s))) @ so_que (sync_objs s (completion s m)))"
  shows "\<exists>s'. lpc_recv_loop f s = Some (Recv_done (if copies_ok s f then 0 else - EFAULT), s') \<and> took s f m (xs @ ys) s'"
proof -
  define r where "r = wait_reciever s (current s)"
  define c where "c = completion s m"
  define A where "A = so_que (sync_objs s r)"
  define B where "B = so_que (sync_objs s c)"
  obtain s1 where s1: "sync_wake s r SYNC_WAI_RELEASED = Some s1" "sched_inv s1" "woke s r SYNC_WAI_RELEASED A s1" "waiting s1 B"
    using sync_wake_nested [OF inv wt pol(2), of SYNC_WAI_RELEASED] ti(1) by (auto simp: r_def A_def B_def c_def)
  have m1: "sync_kernel.more s1 = sync_kernel.more s" and c1: "current s1 = current s" using s1(3) by (simp_all add: woke_def)
  note fr = lpc_frame [OF m1]
  have th1: "thr_p (threads s1 u) = thr_p (threads s u)" "tid (threads s1 u) = tid (threads s u)" for u using s1(3) by (simp_all add: woke_def)
  have ob1: "sync_objs s1 = (sync_objs s)(r := (sync_objs s r)\<lparr>so_que := []\<rparr>)" using s1(3) by (simp add: woke_def A_def)
  have bk1: "blocks s1 = (\<lambda>b. if b \<in> set A then (blocks s b)\<lparr>blk_reason := SYNC_WAI_RELEASED\<rparr> else blocks s b)" using s1(3) by (simp add: woke_def)
  have st1: "status (threads s1 u) = (if u \<in> (\<lambda>b. blk_thr (blocks s b)) ` set A then THR_TSTATE_READY else status (threads s u))" for u
    using s1(3) unfolding woke_def by blast
  have nc: "current s \<notin> (\<lambda>b. blk_thr (blocks s b)) ` set A" using waiting_not_current [OF wt] by (auto simp: A_def r_def)
  define s2 where "s2 = s1\<lparr>mque := (mque s)(current s := xs @ ys)\<rparr>"
  have f2: "threads s2 = threads s1" "current s2 = current s" "idle_thread s2 = idle_thread s1" "ready_queues s2 = ready_queues s1" "blocks s2 = blocks s1"
    "sync_objs s2 = sync_objs s1" "completion s2 = completion s" "msgs s2 = msgs s" "live_msgs s2 = live_msgs s" "umem s2 = umem s" "umem_src s2 = umem_src s"
    "mque s2 = (mque s)(current s := xs @ ys)" "wait_sender s2 = wait_sender s" "wait_reciever s2 = wait_reciever s"
    by (simp_all add: s2_def fr c1)
  have dq: "dequeue_message_nolock s1 (r_src f) (current s1) = (Some m, s2)"
    using dequeue_msg_loop_found [OF q(2,3), of ys] q(1) by (simp add: dequeue_message_nolock_def fr c1 s2_def)
  have i2: "sched_inv s2" using s1(2) by (rule sched_inv_cong) (simp_all add: f2 c1)
  have ti2: "preempt (cur_ti s2) = 1" "intrcnt (cur_ti s2) = 0" using s1(3) ti by (simp_all add: woke_def f2)
  have run2: "cur_status s2 = THR_TSTATE_RUN" using st1 [of "current s"] nc run by (simp add: f2)
  have oc: "sync_objs s2 (completion s2 m) = sync_objs s c" using ne by (simp add: f2 ob1 c_def r_def)
  have w2: "waiting s2 (so_que (sync_objs s2 (completion s2 m)))" unfolding oc B_def [symmetric]
    using s1(4) by (rule waiting_cong) (simp_all add: f2 c1)
  have pol2: "so_policy (sync_objs s2 (completion s2 m)) = SYNC_WAKE_FLAG_ALL" using pol(1) oc by (simp add: c_def)
  have cp: "copies_ok s2 f = copies_ok s f" "received s2 f (msgs s2 m) s' = received s f (msgs s m) s'" for s'
    unfolding copies_ok_def received_def Let_def f2 th1 by (rule refl)+
  from lpc_recv_take_ok [OF i2 run2 ti2 pol2 w2, of f, unfolded cp] obtain s' s0 where
    s': "lpc_recv_take f m s2 = Some (Recv_done (if copies_ok s f then 0 else - EFAULT), s')" "sched_inv s'" "quiet (cur_ti s')"
      "copies_ok s f \<longrightarrow> received s f (msgs s m) s'" "mque s' = mque s2" "msgs s' = msgs s2" "live_msgs s' = live_msgs s2" "completion s' = completion s2"
      "wait_sender s' = wait_sender s2" "wait_reciever s' = wait_reciever s2" "same_but_memory s2 s0"
      "woke s0 (completion s2 m) SYNC_WAI_RELEASED (so_que (sync_objs s2 (completion s2 m))) (with_ti s' (cur_ti s2))"
    by (elim exE conjE) (rule that)
  have wk: "woke s0 c SYNC_WAI_RELEASED B (with_ti s' (cur_ti s2))" using s'(12) oc by (simp add: f2 c_def B_def)
  have f0: "threads s0 = threads s1" "blocks s0 = blocks s1" "sync_objs s0 = sync_objs s1" "current s0 = current s"
    using s'(11) by (simp_all add: same_but_memory_def f2)
  have "lpc_recv_loop f s = Some (Recv_done (if copies_ok s f then 0 else - EFAULT), s')"
    using s1(1) dq s'(1) by (simp add: lpc_recv_loop_def r_def)
  moreover have "took s f m (xs @ ys) s'"
    unfolding took_def Let_def r_def [symmetric] c_def [symmetric] A_def [symmetric] B_def [symmetric]
  proof (intro conjI allI)
    show "blocks s' = (\<lambda>b. if b \<in> set (A @ B) then (blocks s b)\<lparr>blk_reason := SYNC_WAI_RELEASED\<rparr> else blocks s b)"
      using wk by (auto simp: woke_def f0 bk1)
    show "sync_objs s' = (sync_objs s)(r := (sync_objs s r)\<lparr>so_que := []\<rparr>, c := (sync_objs s c)\<lparr>so_que := []\<rparr>)"
      using wk ne by (simp add: woke_def f0 ob1 B_def r_def c_def)
    show "current s' = current s" using wk by (simp add: woke_def f0)
    fix u
    have bt: "blk_thr (blocks s1 b) = blk_thr (blocks s b)" for b by (simp add: bk1)
    have "status (threads s' u) = (if u \<in> (\<lambda>b. blk_thr (blocks s b)) ` set B then THR_TSTATE_READY else status (threads s1 u))"
      using wk unfolding woke_def with_ti_fields f0 bt by blast
    then show "status (threads s' u) = (if u \<in> (\<lambda>b. blk_thr (blocks s b)) ` set (A @ B) then THR_TSTATE_READY else status (threads s u))"
      unfolding st1 by (simp add: image_Un)
    show "thr_p (threads s' u) = thr_p (threads s u)" "tid (threads s' u) = tid (threads s u)"
      using wk unfolding woke_def with_ti_fields f0 th1 by blast+
  qed (use s' in \<open>simp_all add: f2\<close>)
  ultimately show ?thesis by blast
qed

lemma took_with_ti: "took (with_ti s ti) f m q s' = took s f m q s'"
proof -
  have th: "thr_p (threads (with_ti s ti) u) = thr_p (threads s u)" "tid (threads (with_ti s ti) u) = tid (threads s u)"
    "status (threads (with_ti s ti) u) = status (threads s u)" for u by simp_all
  show ?thesis unfolding took_def copies_ok_def received_def Let_def th with_ti_sync lpc_with_ti with_ti_simps(1) by (rule refl)
qed

lemma copies_ok_with_ti: "copies_ok (with_ti s ti) f = copies_ok s f"
  by (simp add: copies_ok_def)

text \<open>
  Claim C20. \<open>lpc_recv\<close> takes the first message of the queue that comes from the sender the caller asks for, whatever the time limit, and
  returns without waiting: the other messages keep their order, the body and, if asked for, the identity of the sender
  are in the memory of the caller when it may write there and the result is \<^verbatim>\<open>-EFAULT\<close> otherwise; the sender of
  this message and the senders that waited for the caller to listen are made ready, nobody else is.
\<close>

theorem lpc_recv_spec:
  assumes "sched_inv s" and "cur_status s = THR_TSTATE_RUN" and "quiet (cur_ti s)"
    and "mque s (current s) = xs @ m # ys" "\<forall>x \<in> set xs. \<not> wanted (r_src f) (msgs s x)" "wanted (r_src f) (msgs s m)"
    and "so_policy (sync_objs s (completion s m)) = SYNC_WAKE_FLAG_ALL" "so_policy (sync_objs s (wait_reciever s (current s))) = SYNC_WAKE_FLAG_ALL"
    and "completion s m \<noteq> wait_reciever s (current s)"
    and "waiting s (so_que (sync_objs s (wait_reciever s (current s))) @ so_que (sync_objs s (completion s m)))"
  shows "\<exists>s'. lpc_recv s f = Some (Recv_done (if copies_ok s f then 0 else - EFAULT), s') \<and> took s f m (xs @ ys) s'"
proof -
  define s0 where "s0 = with_ti s ((cur_ti s)\<lparr>preempt := 1\<rparr>)"
  have "lock_enter s = Some s0" using assms(3) by (simp add: lock_enter_eq s0_def quiet_def)
  then have r: "lpc_recv s f = lpc_recv_loop f s0" by (simp add: lpc_recv_def)
  have "\<exists>s'. lpc_recv_loop f s0 = Some (Recv_done (if copies_ok s0 f then 0 else - EFAULT), s') \<and> took s0 f m (xs @ ys) s'"
    by (rule lpc_recv_loop_takes) (use assms in \<open>simp_all add: s0_def quiet_def\<close>)
  then show ?thesis unfolding r unfolding s0_def took_with_ti copies_ok_with_ti .
qed

text \<open>Without such a message a caller that does not want to wait gets \<^verbatim>\<open>-EAGAIN\<close> and the messages stay where they are.\<close>

lemma lpc_recv_nonblock:
  assumes inv: "sched_inv s" and run: "cur_status s = THR_TSTATE_RUN" and qt: "quiet (cur_ti s)"
    and q: "\<forall>x \<in> set (mque s (current s)). \<not> wanted (r_src f) (msgs s x)" and nb: "r_tmout f = 0"
    and pol: "so_policy (sync_objs s (wait_reciever s (current s))) = SYNC_WAKE_FLAG_ALL"
    and wt: "waiting s (so_que (sync_objs s (wait_reciever s (current s))))"
  shows "\<exists>s'. lpc_recv s f = Some (Recv_done (- EAGAIN), s') \<and> sched_inv s' \<and> mque s' = mque s \<and> quiet (cur_ti s') \<and>
    (\<forall>b \<in> set (so_que (sync_objs s (wait_reciever s (current s)))). status (threads s' (blk_thr (blocks s b))) = THR_TSTATE_READY)"
proof -
  define r where "r = wait_reciever s (current s)"
  define s0 where "s0 = with_ti s ((cur_ti s)\<lparr>preempt := 1\<rparr>)"
  have e: "lock_enter s = Some s0" using qt by (simp add: lock_enter_eq s0_def quiet_def)
  have "sched_inv s0" "waiting s0 (so_que (sync_objs s0 r) @ [])" using inv wt by (simp_all add: s0_def r_def)
  from sync_wake_nested [OF this, of SYNC_WAI_RELEASED] pol obtain s1 where
    s1: "sync_wake s0 r SYNC_WAI_RELEASED = Some s1" "sched_inv s1" "woke s0 r SYNC_WAI_RELEASED (so_que (sync_objs s r)) s1"
    by (auto simp: s0_def r_def)
  have m1: "sync_kernel.more s1 = sync_kernel.more s" "current s1 = current s" "preempt (cur_ti s1) = 1" "intrcnt (cur_ti s1) = 0"
    using s1(3) qt by (simp_all add: woke_def s0_def quiet_def)
  have st: "status (threads s1 u) = (if u \<in> (\<lambda>b. blk_thr (blocks s b)) ` set (so_que (sync_objs s r)) then THR_TSTATE_READY else status (threads s u))" for u
    using s1(3) unfolding woke_def s0_def with_ti_fields with_ti_sync by blast
  have "cur_status s1 = THR_TSTATE_RUN" using st waiting_not_current [OF wt] run m1(2) by (simp add: r_def)
  from lock_leave_run [OF m1(3,4) this] obtain ti where l: "lock_leave s1 = Some (with_ti s1 ti)" "quiet ti" by blast
  have "dequeue_message_nolock s1 (r_src f) (current s1) = (None, s1)"
    using dequeue_msg_loop_none [OF q] m1(2) by (simp add: dequeue_message_nolock_def lpc_frame [OF m1(1)])
  then have "lpc_recv s f = Some (Recv_done (- EAGAIN), with_ti s1 ti)" using e s1(1) l(1) nb by (simp add: lpc_recv_def lpc_recv_loop_def s0_def r_def)
  moreover have "status (threads (with_ti s1 ti) (blk_thr (blocks s b))) = THR_TSTATE_READY" if "b \<in> set (so_que (sync_objs s r))" for b
    unfolding with_ti_fields st using that by simp
  moreover have "quiet (cur_ti (with_ti s1 ti))" using l(2) by simp
  ultimately show ?thesis using s1(2) lpc_frame(1) [OF m1(1)] unfolding r_def by (intro exI [of _ "with_ti s1 ti"]) (simp del: with_ti_simps(5))
qed

section \<open>Sending a message\<close>

text \<open>
  The state after the current thread has put its message into the queue of the thread \<open>q\<close>, has made the waiting receiver ready and waits, with
  the block \<open>sb\<close>, for the message to be taken.
\<close>

definition sent :: "'a lpc_kernel_scheme \<Rightarrow> nat \<Rightarrow> nat \<Rightarrow> nat \<Rightarrow> msg \<Rightarrow> 'a lpc_kernel_scheme \<Rightarrow> bool" where
  "sent s q m sb ms s' \<longleftrightarrow> (let w = wait_sender s q; A = so_que (sync_objs s w) in
     sched_inv s' \<and> current s' \<noteq> current s \<and> mque s' = (mque s)(q := mque s q @ [m]) \<and> msgs s' = (msgs s)(m := ms) \<and>
     completion s' = completion s \<and> wait_sender s' = wait_sender s \<and> wait_reciever s' = wait_reciever s \<and> umem s' = umem s \<and> umem_src s' = umem_src s \<and>
     live_msgs s' = live_msgs s \<and>
     blocks s' = (\<lambda>b. if b \<in> set A then (blocks s b)\<lparr>blk_reason := SYNC_WAI_RELEASED\<rparr> else blocks s b)
       (sb := \<lparr>blk_thr = current s, blk_reason = SYNC_WAI_WAIT\<rparr>) \<and>
     sync_objs s' = (sync_objs s)(w := (sync_objs s w)\<lparr>so_que := []\<rparr>,
       completion s m := (sync_objs s (completion s m))\<lparr>so_que := so_que (sync_objs s (completion s m)) @ [sb]\<rparr>) \<and>
     (\<forall>b \<in> set A. \<not> thr_in_wait (threads s' (blk_thr (blocks s b)))) \<and>
     (\<forall>u. thr_p (threads s' u) = thr_p (threads s u) \<and> tid (threads s' u) = tid (threads s u)))"

lemma sent_with_ti: "sent (with_ti s ti) q m sb ms s' = sent s q m sb ms s'"
proof -
  have th: "thr_p (threads (with_ti s ti) u) = thr_p (threads s u)" "tid (threads (with_ti s ti) u) = tid (threads s u)" for u by simp_all
  show ?thesis unfolding sent_def Let_def th with_ti_sync lpc_with_ti with_ti_simps(1) by (rule refl)
qed

text \<open>The pattern of a hand-over: the current thread wakes everyone on the object \<open>w\<close> and then waits on the object \<open>c\<close> with its block \<open>b\<close>.\<close>

definition handed_over :: "'a sync_kernel_scheme \<Rightarrow> nat \<Rightarrow> nat \<Rightarrow> nat \<Rightarrow> 'a sync_kernel_scheme \<Rightarrow> bool" where
  "handed_over s w c b s' \<longleftrightarrow> sched_inv s' \<and> current s' \<noteq> current s \<and> sync_kernel.more s' = sync_kernel.more s \<and> thr_created_tree s' = thr_created_tree s \<and>
     blocks s' = (\<lambda>x. if x \<in> set (so_que (sync_objs s w)) then (blocks s x)\<lparr>blk_reason := SYNC_WAI_RELEASED\<rparr> else blocks s x)
       (b := \<lparr>blk_thr = current s, blk_reason = SYNC_WAI_WAIT\<rparr>) \<and>
     sync_objs s' = (sync_objs s)(w := (sync_objs s w)\<lparr>so_que := []\<rparr>, c := (sync_objs s c)\<lparr>so_que := so_que (sync_objs s c) @ [b]\<rparr>) \<and>
     (\<forall>x \<in> set (so_que (sync_objs s w)). \<not> thr_in_wait (threads s' (blk_thr (blocks s x)))) \<and>
     (\<forall>u. thr_p (threads s' u) = thr_p (threads s u) \<and> tid (threads s' u) = tid (threads s u))"

lemma handed_over_with_ti: "handed_over (with_ti s ti) w c b s' = handed_over s w c b s'"
proof -
  have th: "thr_p (threads (with_ti s ti) u) = thr_p (threads s u)" "tid (threads (with_ti s ti) u) = tid (threads s u)" for u by simp_all
  show ?thesis unfolding handed_over_def th with_ti_sync with_ti_simps(1,7) by (rule refl)
qed

lemma hand_over:
  assumes inv: "sched_inv s" and ni: "current s \<noteq> idle_thread s" and ti: "preempt (cur_ti s) = 1" "intrcnt (cur_ti s) = 0"
    and pol: "so_policy (sync_objs s w) = SYNC_WAKE_FLAG_ALL" and wt: "waiting s (so_que (sync_objs s w) @ B)"
    and b: "b \<notin> set (so_que (sync_objs s w) @ B)" and ne: "c \<noteq> w" and v: "valid_wait_status (wait_kind (sync_objs s c))"
  shows "\<exists>s2 u s'. sync_wake s w SYNC_WAI_RELEASED = Some s2 \<and> sync_kernel.more s2 = sync_kernel.more s \<and>
    sync_wait_block s2 c b = Some (Suspended u, s') \<and> waiting s' (b # B) \<and> handed_over s w c b s'"
proof -
  define A where "A = so_que (sync_objs s w)"
  obtain s3 where s3: "sync_wake s w SYNC_WAI_RELEASED = Some s3" "sched_inv s3" "woke s w SYNC_WAI_RELEASED A s3" "waiting s3 B"
    using sync_wake_nested [OF inv wt pol, of SYNC_WAI_RELEASED] ti(1) by (auto simp: A_def)
  have m3: "sync_kernel.more s3 = sync_kernel.more s" "current s3 = current s" "idle_thread s3 = idle_thread s" "preempt (cur_ti s3) = 1" "intrcnt (cur_ti s3) = 0"
    "thr_created_tree s3 = thr_created_tree s"
    using s3(3) ti by (simp_all add: woke_def)
  have ob3: "sync_objs s3 = (sync_objs s)(w := (sync_objs s w)\<lparr>so_que := []\<rparr>)" using s3(3) by (simp add: woke_def A_def)
  have oc: "sync_objs s3 c = sync_objs s c" using ne by (simp add: ob3)
  have v3: "valid_wait_status (wait_kind (sync_objs s3 c))" using v oc by simp
  from sync_wait_block_ok [OF s3(2) _ v3 m3(4,5), of b] ni m3 obtain u s' where
    s': "sync_wait_block s3 c b = Some (Suspended u, s')" "sched_inv s'" "blocked s3 c b s'" by auto
  have sb3: "same_but_run (queued s3 c b) s'" using s'(3) by (simp add: blocked_def)
  have "waiting s' (b # B)" using blocked_joins [OF s'(3) s3(2,4) _ v3] b by simp
  moreover have "handed_over s w c b s'"
    unfolding handed_over_def A_def [symmetric]
  proof (intro conjI allI ballI)
    show "current s' \<noteq> current s" using s'(3) m3(2) by (simp add: blocked_def)
    show "sync_kernel.more s' = sync_kernel.more s" using same_but_run_sync(3) [OF sb3] m3(1) by simp
    show "thr_created_tree s' = thr_created_tree s" using sb3 m3(6) by (simp add: same_but_run_def)
    have "blocks s3 = (\<lambda>x. if x \<in> set A then (blocks s x)\<lparr>blk_reason := SYNC_WAI_RELEASED\<rparr> else blocks s x)"
      using s3(3) unfolding woke_def by blast
    then show "blocks s' = (\<lambda>x. if x \<in> set A then (blocks s x)\<lparr>blk_reason := SYNC_WAI_RELEASED\<rparr> else blocks s x)
       (b := \<lparr>blk_thr = current s, blk_reason = SYNC_WAI_WAIT\<rparr>)"
      using same_but_run_sync(1) [OF sb3] m3(2) by simp
    show "sync_objs s' = (sync_objs s)(w := (sync_objs s w)\<lparr>so_que := []\<rparr>, c := (sync_objs s c)\<lparr>so_que := so_que (sync_objs s c) @ [b]\<rparr>)"
      using same_but_run_sync(2) [OF sb3] oc ob3 by (cases "sync_objs s c") simp
    fix x assume x: "x \<in> set A"
    have "status (threads s3 (blk_thr (blocks s x))) = THR_TSTATE_READY" using s3(3) x unfolding woke_def by auto
    moreover have "blk_thr (blocks s x) \<noteq> current s" using wt x by (auto simp: waiting_def A_def)
    ultimately have "status (threads s' (blk_thr (blocks s x))) = THR_TSTATE_READY \<or> status (threads s' (blk_thr (blocks s x))) = THR_TSTATE_RUN"
      using s'(3) m3(2) by (cases "blk_thr (blocks s x) = current s'") (auto simp: blocked_def)
    then show "\<not> thr_in_wait (threads s' (blk_thr (blocks s x)))" by (auto simp: thr_in_wait_def thr_wait_intr_def thr_wait_killable_def)
  next
    fix u
    have "thr_p (threads s' u) = thr_p (threads s3 u)" "tid (threads s' u) = tid (threads s3 u)" using sb3 by (simp_all add: same_but_run_def)
    moreover have "thr_p (threads s3 u) = thr_p (threads s u)" "tid (threads s3 u) = tid (threads s u)" using s3(3) unfolding woke_def by auto
    ultimately show "thr_p (threads s' u) = thr_p (threads s u)" "tid (threads s' u) = tid (threads s u)" by simp_all
  qed (rule s'(2))
  ultimately show ?thesis using s3(1) m3(1) s'(1) by blast
qed

lemma lpc_send_deliver_ok:
  assumes inv: "sched_inv s" and ni: "current s \<noteq> idle_thread s" and run: "cur_status s = THR_TSTATE_RUN" and ti: "preempt (cur_ti s) = 1" "intrcnt (cur_ti s) = 0"
    and body: "umem s (thr_p (threads s (current s))) (f_m f) = Some body"
    and pol: "so_policy (sync_objs s (wait_sender s (f_q f))) = SYNC_WAKE_FLAG_ALL"
    and wt: "waiting s (so_que (sync_objs s (wait_sender s (f_q f))) @ B)" and sb: "w_sb (f_wait f) \<notin> set (so_que (sync_objs s (wait_sender s (f_q f))) @ B)"
    and ne: "completion s (f_msg f) \<noteq> wait_sender s (f_q f)" and v: "valid_wait_status (wait_kind (sync_objs s (completion s (f_msg f))))"
  shows "\<exists>u s'. lpc_send_deliver f s = Some (Send_sent u, s') \<and> waiting s' (w_sb (f_wait f) # B) \<and>
    sent s (f_q f) (f_msg f) (w_sb (f_wait f)) ((msgs s (f_msg f))\<lparr>m_body := body, m_qp := Some (f_q f)\<rparr>) s'"
proof -
  define w where "w = wait_sender s (f_q f)"
  define c where "c = completion s (f_msg f)"
  define A where "A = so_que (sync_objs s w)"
  define b where "b = w_sb (f_wait f)"
  define ms where "ms = (msgs s (f_msg f))\<lparr>m_body := body, m_qp := Some (f_q f)\<rparr>"
  define s1 where "s1 = lpc_msg_add_nolock (s\<lparr>msgs := (msgs s)(f_msg f := (msgs s (f_msg f))\<lparr>m_body := body\<rparr>)\<rparr>) (f_q f) (f_msg f)"
  have f1: "threads s1 = threads s" "current s1 = current s" "idle_thread s1 = idle_thread s" "ready_queues s1 = ready_queues s" "blocks s1 = blocks s"
    "sync_objs s1 = sync_objs s" "completion s1 = completion s" "live_msgs s1 = live_msgs s" "umem s1 = umem s" "umem_src s1 = umem_src s"
    "wait_sender s1 = wait_sender s" "wait_reciever s1 = wait_reciever s" "mque s1 = (mque s)(f_q f := mque s (f_q f) @ [f_msg f])"
    "msgs s1 = (msgs s)(f_msg f := ms)"
    by (simp_all add: s1_def lpc_msg_add_nolock_def ms_def)
  obtain t1 where t1: "lock_leave s1 = Some (with_ti s1 t1)" "quiet t1" using lock_leave_run [of s1] run ti by (auto simp: f1)
  define s2 where "s2 = with_ti s1 (t1\<lparr>preempt := 1\<rparr>)"
  have e2: "lock_enter (with_ti s1 t1) = Some s2" using t1(2) by (simp add: lock_enter_eq quiet_def s2_def)
  have "sched_inv s1" using inv by (rule sched_inv_cong) (simp_all add: f1)
  then have i2: "sched_inv s2" by (simp add: s2_def)
  have "waiting s1 (A @ B)" using wt unfolding A_def w_def by (rule waiting_cong) (simp_all add: f1)
  then have w2: "waiting s2 (so_que (sync_objs s2 w) @ B)" by (simp add: s2_def f1 A_def)
  have "\<exists>s3 u s'. sync_wake s2 w SYNC_WAI_RELEASED = Some s3 \<and> sync_kernel.more s3 = sync_kernel.more s2 \<and>
    sync_wait_block s3 c b = Some (Suspended u, s') \<and> waiting s' (b # B) \<and> handed_over s2 w c b s'"
    by (rule hand_over [OF i2 _ _ _ _ w2])
      (use ni t1(2) pol sb ne v in \<open>simp_all add: s2_def f1 quiet_def w_def c_def b_def\<close>)
  then obtain s3 u s' where s3: "sync_wake s2 w SYNC_WAI_RELEASED = Some s3" "sync_kernel.more s3 = sync_kernel.more s1"
    "sync_wait_block s3 c b = Some (Suspended u, s')" "waiting s' (b # B)" "handed_over s2 w c b s'" by (auto simp: s2_def)
  have ho: "handed_over s1 w c b s'" using s3(5) unfolding s2_def handed_over_with_ti .
  have more: "sync_kernel.more s' = sync_kernel.more s1" using ho by (simp add: handed_over_def)
  note fr = lpc_frame [OF more]
  have "lpc_send_deliver f s = Some (Send_sent u, s')"
    unfolding lpc_send_deliver_def body using t1(1) e2 s3(1,3) lpc_frame(4,6) [OF s3(2)]
    by (simp add: s1_def [symmetric] f1 s2_def w_def c_def b_def Let_def)
  moreover have "sent s (f_q f) (f_msg f) b ms s'"
    using ho unfolding sent_def Let_def handed_over_def w_def [symmetric] c_def [symmetric] fr f1 by blast
  ultimately show ?thesis using s3(4) unfolding b_def ms_def by blast
qed

text \<open>The call up to the wait for the receiver, when the memory for the message is there.\<close>

definition fresh_msg :: "'a lpc_kernel_scheme \<Rightarrow> nat \<Rightarrow> 'a lpc_kernel_scheme" where
  "fresh_msg s m = s\<lparr>live_msgs := insert m (live_msgs s),
     sync_objs := (sync_objs s)(completion s m := \<lparr>wait_kind = THR_TSTATE_WAIT, so_policy = SYNC_WAKE_FLAG_ALL, so_que = []\<rparr>),
     msgs := (msgs s)(m := (msgs s m)\<lparr>m_qp := None, m_src := tid (threads s (current s))\<rparr>)\<rparr>"

lemma fresh_msg_simps [simp]:
  "threads (fresh_msg s m) = threads s" "current (fresh_msg s m) = current s" "idle_thread (fresh_msg s m) = idle_thread s"
  "ready_queues (fresh_msg s m) = ready_queues s" "blocks (fresh_msg s m) = blocks s" "mque (fresh_msg s m) = mque s"
  "live_msgs (fresh_msg s m) = insert m (live_msgs s)" "wait_sender (fresh_msg s m) = wait_sender s" "wait_reciever (fresh_msg s m) = wait_reciever s"
  "completion (fresh_msg s m) = completion s" "umem (fresh_msg s m) = umem s" "umem_src (fresh_msg s m) = umem_src s"
  "msgs (fresh_msg s m) = (msgs s)(m := (msgs s m)\<lparr>m_qp := None, m_src := tid (threads s (current s))\<rparr>)"
  "sync_objs (fresh_msg s m) = (sync_objs s)(completion s m := \<lparr>wait_kind = THR_TSTATE_WAIT, so_policy = SYNC_WAKE_FLAG_ALL, so_que = []\<rparr>)"
  by (simp_all add: fresh_msg_def)

lemma fresh_msg_with_ti: "fresh_msg (with_ti s ti) m = with_ti (fresh_msg s m) ti"
  by (cases s) (simp add: fresh_msg_def with_ti_def upd_thread_def)

lemma lpc_send_start:
  assumes "quiet (cur_ti s)" and "thr_find_thread_by_tid_nolock s dest = Some q"
  shows "lpc_send s dest t a (Some m) w = do {
     (st, s') \<leftarrow> lpc_send_loop \<lparr>f_dest = dest, f_tmout = t, f_m = a, f_q = q, f_msg = m, f_wait = w\<rparr> (with_ti (fresh_msg s m) ((cur_ti s)\<lparr>preempt := 1\<rparr>));
     Some ((st, Some \<lparr>f_dest = dest, f_tmout = t, f_m = a, f_q = q, f_msg = m, f_wait = w\<rparr>), s') }"
proof -
  define s0 where "s0 = with_ti s ((cur_ti s)\<lparr>preempt := 1\<rparr>)"
  define s1 where "s1 = fresh_msg s0 m"
  have e: "lock_enter s = Some s0" using assms(1) by (simp add: lock_enter_eq s0_def quiet_def)
  have fd: "thr_find_thread_by_tid_nolock s0 dest = Some q"
    using assms(2) by (auto simp: thr_find_thread_by_tid_nolock_def s0_def split: option.splits if_splits)
  have al: "lpc_msg_alloc s0 (Some m) = Some (Inr m, s1)"
    by (simp add: lpc_msg_alloc_def sync_init_object_def valid_wait_status_def s1_def fresh_msg_def)
  have p: "preempt (cur_ti s1) = 1" by (simp add: s1_def s0_def)
  have l: "lock_enter s1 = Some (with_ti s1 ((cur_ti s1)\<lparr>preempt := 2\<rparr>))" "lock_leave (with_ti s1 ((cur_ti s1)\<lparr>preempt := 2\<rparr>)) = Some s1"
    using inner_lock(1) [OF p] inner_lock(2) [OF p refl refl] by simp_all
  show ?thesis unfolding lpc_send_def
    by (simp add: e fd al l Let_def) (simp add: s1_def s0_def fresh_msg_with_ti)
qed

text \<open>A receiver that does not listen, and a caller that does not want to wait: the message is freed again.\<close>

lemma lpc_send_nonblock:
  assumes inv: "sched_inv s" and run: "cur_status s = THR_TSTATE_RUN" and qt: "quiet (cur_ti s)"
    and dest: "thr_find_thread_by_tid_nolock s dest = Some q" and nl: "so_que (sync_objs s (wait_sender s q)) = []" and fr: "m \<notin> live_msgs s"
  shows "\<exists>f s'. lpc_send s dest 0 a (Some m) w = Some ((Send_done (- EAGAIN), Some f), s') \<and> sched_inv s' \<and> quiet (cur_ti s') \<and>
    mque s' = mque s \<and> live_msgs s' = live_msgs s \<and> current s' = current s"
proof -
  define f where "f = \<lparr>f_dest = dest, f_tmout = 0, f_m = a, f_q = q, f_msg = m, f_wait = w\<rparr>"
  define s0 where "s0 = with_ti (fresh_msg s m) ((cur_ti s)\<lparr>preempt := 1\<rparr>)"
  define s1 where "s1 = with_ti (fresh_msg s m) ((cur_ti s)\<lparr>preempt := 2\<rparr>)"
  have ff: "f_tmout f = 0" "f_q f = q" "f_msg f = m" by (simp_all add: f_def)
  have "sched_inv (fresh_msg s m)" using inv by (rule sched_inv_cong) simp_all
  then have i1: "sched_inv s1" by (simp add: s1_def)
  have c1: "so_que (sync_objs s1 (completion s1 m)) = []" by (simp add: s1_def)
  have e: "lock_enter s0 = Some s1" by (simp add: lock_enter_eq s0_def s1_def)
  have "waiting s1 (so_que (sync_objs s1 (completion s1 m)) @ [])" using c1 by (simp add: waiting_def)
  from sync_wake_nested [OF i1 this, of SYNC_OBJ_DESTROYED] obtain s2 where
    s2: "sync_wake s1 (completion s1 m) SYNC_OBJ_DESTROYED = Some s2" "sched_inv s2" "woke s1 (completion s1 m) SYNC_OBJ_DESTROYED [] s2"
    unfolding c1 by (auto simp: s1_def)
  have m2: "sync_kernel.more s2 = sync_kernel.more s1" "current s2 = current s" "preempt (cur_ti s2) = 2" "intrcnt (cur_ti s2) = 0" "cur_status s2 = THR_TSTATE_RUN"
    using s2(3) run qt by (simp_all add: woke_def s1_def quiet_def)
  define s3 where "s3 = with_ti s2 ((cur_ti s2)\<lparr>preempt := 1\<rparr>)"
  have l2: "lock_leave s2 = Some s3" using lock_leave_nested [of s2] m2 by (simp add: s3_def)
  define s4 where "s4 = s3\<lparr>live_msgs := live_msgs s3 - {m}\<rparr>"
  have f4: "threads s4 = threads s3" "current s4 = current s" "idle_thread s4 = idle_thread s3" "ready_queues s4 = ready_queues s3" "mque s4 = mque s3"
    "live_msgs s4 = live_msgs s3 - {m}" by (simp_all add: s4_def s3_def m2)
  obtain ti where l4: "lock_leave s4 = Some (with_ti s4 ti)" "quiet ti" using lock_leave_run [of s4] m2 by (auto simp: f4 s3_def)
  have fm: "lpc_msg_free s0 m = Some s4" using e s2(1) l2 by (simp add: lpc_msg_free_def s4_def)
  have "lpc_send_loop f s0 = Some (Send_done (- EAGAIN), with_ti s4 ti)"
  proof -
    have "wait_sender s0 q = wait_sender s q" by (simp add: s0_def)
    moreover have "so_que (sync_objs s0 (wait_sender s q)) = []" using nl by (simp add: s0_def)
    ultimately show ?thesis using fm l4(1) by (simp add: lpc_send_loop_def send_fail_def ff)
  qed
  then have "lpc_send s dest 0 a (Some m) w = Some ((Send_done (- EAGAIN), Some f), with_ti s4 ti)"
    unfolding lpc_send_start [OF qt dest] f_def [symmetric] s0_def by simp
  moreover have "sched_inv s4"
  proof -
    have "sched_inv s3" "current s4 = current s3" using s2(2) m2(2) by (simp_all add: s3_def f4(2))
    then show ?thesis by (elim sched_inv_cong) (simp_all add: f4(1,3,4))
  qed
  moreover have "mque s4 = mque s" "live_msgs s4 = live_msgs s" using lpc_frame(1,3) [OF m2(1)] fr by (simp_all add: f4 s3_def s1_def)
  ultimately show ?thesis using l4(2) m2(2) f4 by (intro exI [of _ f] exI [of _ "with_ti s4 ti"]) simp
qed

text \<open>A message that cannot be read from the memory of the caller is an error, and the memory allocated for it is lost.\<close>

lemma lpc_send_efault_leaks:
  assumes run: "cur_status s = THR_TSTATE_RUN" and qt: "quiet (cur_ti s)"
    and dest: "thr_find_thread_by_tid_nolock s dest = Some q" and lis: "so_que (sync_objs s (wait_sender s q)) \<noteq> []"
    and ne: "completion s m \<noteq> wait_sender s q" and body: "umem s (thr_p (threads s (current s))) a = None"
  shows "\<exists>f s'. lpc_send s dest t a (Some m) w = Some ((Send_done (- EFAULT), Some f), s') \<and> m \<in> live_msgs s' \<and> mque s' = mque s"
proof -
  define f where "f = \<lparr>f_dest = dest, f_tmout = t, f_m = a, f_q = q, f_msg = m, f_wait = w\<rparr>"
  define s0 where "s0 = with_ti (fresh_msg s m) ((cur_ti s)\<lparr>preempt := 1\<rparr>)"
  obtain ti where l: "lock_leave s0 = Some (with_ti s0 ti)" using lock_leave_run [of s0] run qt by (auto simp: s0_def quiet_def)
  have "wait_sender s0 q = wait_sender s q" "so_que (sync_objs s0 (wait_sender s q)) \<noteq> []" "umem s0 (thr_p (threads s0 (current s0))) a = None"
    using lis ne body by (auto simp: s0_def)
  then have "lpc_send_loop f s0 = Some (Send_done (- EFAULT), with_ti s0 ti)" using l by (simp add: lpc_send_loop_def lpc_send_deliver_def f_def)
  then have "lpc_send s dest t a (Some m) w = Some ((Send_done (- EFAULT), Some f), with_ti s0 ti)"
    unfolding lpc_send_start [OF qt dest] f_def [symmetric] s0_def by simp
  then show ?thesis by (intro exI [of _ f] exI [of _ "with_ti s0 ti"]) (simp add: s0_def)
qed

text \<open>
  Other threads have run between \<open>s\<close> and \<open>s'\<close>, but they have used neither these messages nor these objects, and
  the threads that wait still do.
\<close>

definition undisturbed :: "'a lpc_kernel_scheme \<Rightarrow> 'a lpc_kernel_scheme \<Rightarrow> bool" where
  "undisturbed s s' \<longleftrightarrow> sync_kernel.more s' = sync_kernel.more s \<and> blocks s' = blocks s \<and> sync_objs s' = sync_objs s \<and>
     (\<forall>t. thr_p (threads s' t) = thr_p (threads s t) \<and> tid (threads s' t) = tid (threads s t) \<and>
        (thr_in_wait (threads s t) \<longrightarrow> status (threads s' t) = status (threads s t)))"

lemma undisturbed_waiting:
  assumes "waiting s B" and "undisturbed s s'" and "\<not> thr_in_wait (threads s (current s'))"
  shows "waiting s' B"
proof -
  have "thr_in_wait (threads s' t)" if "thr_in_wait (threads s t)" for t
    using assms(2) that by (auto simp: undisturbed_def thr_in_wait_def thr_wait_intr_def thr_wait_killable_def)
  moreover have "blk_thr (blocks s b) \<noteq> current s'" if "b \<in> set B" for b using assms(1,3) that by (auto simp: waiting_def)
  moreover have "blocks s' = blocks s" using assms(2) by (simp add: undisturbed_def)
  ultimately show ?thesis using assms(1) by (simp add: waiting_def)
qed

lemma lpc_send_listening:
  assumes inv: "sched_inv s" and ni: "current s \<noteq> idle_thread s" and run: "cur_status s = THR_TSTATE_RUN" and qt: "quiet (cur_ti s)"
    and dest: "thr_find_thread_by_tid_nolock s dest = Some q" and lis: "so_que (sync_objs s (wait_sender s q)) \<noteq> []"
    and pol: "so_policy (sync_objs s (wait_sender s q)) = SYNC_WAKE_FLAG_ALL"
    and wt: "waiting s (so_que (sync_objs s (wait_sender s q)) @ B)" and sb: "w_sb w \<notin> set (so_que (sync_objs s (wait_sender s q)) @ B)"
    and ne: "completion s m \<noteq> wait_sender s q" and body: "umem s (thr_p (threads s (current s))) a = Some body"
  shows "\<exists>u s' ms. lpc_send s dest t a (Some m) w =
      Some ((Send_sent u, Some \<lparr>f_dest = dest, f_tmout = t, f_m = a, f_q = q, f_msg = m, f_wait = w\<rparr>), s') \<and>
    waiting s' (w_sb w # B) \<and> sent (fresh_msg s m) q m (w_sb w) ms s' \<and> m_src ms = tid (threads s (current s)) \<and> m_body ms = body"
proof -
  define f where "f = \<lparr>f_dest = dest, f_tmout = t, f_m = a, f_q = q, f_msg = m, f_wait = w\<rparr>"
  define s0 where "s0 = with_ti (fresh_msg s m) ((cur_ti s)\<lparr>preempt := 1\<rparr>)"
  define ms where "ms = (msgs s0 m)\<lparr>m_body := body, m_qp := Some q\<rparr>"
  have ff: "f_q f = q" "f_msg f = m" "f_wait f = w" "f_m f = a" by (simp_all add: f_def)
  have ob: "sync_objs s0 (wait_sender s0 q) = sync_objs s (wait_sender s q)" using ne by (simp add: s0_def)
  have "sched_inv (fresh_msg s m)" using inv by (rule sched_inv_cong) simp_all
  then have i0: "sched_inv s0" by (simp add: s0_def)
  have "waiting (fresh_msg s m) (so_que (sync_objs s (wait_sender s q)) @ B)" using wt by (rule waiting_cong) simp_all
  then have w0: "waiting s0 (so_que (sync_objs s (wait_sender s q)) @ B)" by (simp add: s0_def)
  have "\<exists>u s'. lpc_send_deliver f s0 = Some (Send_sent u, s') \<and> waiting s' (w_sb (f_wait f) # B) \<and>
    sent s0 (f_q f) (f_msg f) (w_sb (f_wait f)) ((msgs s0 (f_msg f))\<lparr>m_body := body, m_qp := Some (f_q f)\<rparr>) s'"
    by (rule lpc_send_deliver_ok [OF i0]; (unfold ff ob)?)
      (use ni run qt pol w0 sb ne body in \<open>simp_all add: s0_def quiet_def valid_wait_status_def\<close>)
  then obtain u s' where d: "lpc_send_deliver f s0 = Some (Send_sent u, s')" "waiting s' (w_sb w # B)" "sent s0 q m (w_sb w) ms s'"
    unfolding ff ms_def by blast
  have "lpc_send_loop f s0 = Some (Send_sent u, s')" using d(1) lis ob by (simp add: lpc_send_loop_def ff)
  then have "lpc_send s dest t a (Some m) w = Some ((Send_sent u, Some f), s')"
    unfolding lpc_send_start [OF qt dest] f_def [symmetric] s0_def by simp
  moreover have "sent (fresh_msg s m) q m (w_sb w) ms s'" using d(3) unfolding s0_def sent_with_ti .
  moreover have "m_src ms = tid (threads s (current s))" "m_body ms = body" by (simp_all add: ms_def s0_def)
  ultimately show ?thesis using d(2) unfolding f_def by blast
qed

text \<open>
  Claim C19. A message arrives: when a thread sends to a thread that waits for messages from it or from anyone, whatever the
  time limit, the message is put into the queue of the receiver and the sender gives up the processor; when the receiver has the
  processor its \<open>lpc_recv\<close> returns 0 with the body and the identity of the sender in its memory and makes the
  sender ready; and when the sender has the processor again its \<open>lpc_send\<close> returns 0.  The memory of the
  message stays allocated.
\<close>

theorem lpc_send_recv_roundtrip:
  fixes s :: "'a lpc_kernel_scheme"
  assumes inv: "sched_inv s" and ni: "current s \<noteq> idle_thread s" and run: "cur_status s = THR_TSTATE_RUN" and qt: "quiet (cur_ti s)"
    and dest: "thr_find_thread_by_tid_nolock s dest = Some R" and emp: "mque s R = []"
    and lis: "so_que (sync_objs s (wait_sender s R)) = [rb]" "blk_thr (blocks s rb) = R" "w_sb (r_wait rf) = rb"
    and wt: "waiting s (rb # so_que (sync_objs s (wait_reciever s R)))"
    and pol: "so_policy (sync_objs s (wait_sender s R)) = SYNC_WAKE_FLAG_ALL" "so_policy (sync_objs s (wait_reciever s R)) = SYNC_WAKE_FLAG_ALL"
    and ne: "completion s m \<noteq> wait_sender s R" "completion s m \<noteq> wait_reciever s R" "wait_sender s R \<noteq> wait_reciever s R"
    and sb: "w_sb w \<notin> set (rb # so_que (sync_objs s (wait_reciever s R)))"
    and body: "umem s (thr_p (threads s (current s))) a = Some body"
    and src: "r_src rf = LPC_RECV_ANY \<or> r_src rf = tid (threads s (current s))"
    and cp: "umem s (thr_p (threads s R)) (r_m rf) \<noteq> None" "\<forall>x. r_msg_src rf = Some x \<longrightarrow> umem_src s (thr_p (threads s R)) x \<noteq> None"
  shows "\<exists>u f s1. lpc_send s dest t a (Some m) w = Some ((Send_sent u, Some f), s1) \<and> sched_inv s1 \<and> current s1 \<noteq> current s \<and> mque s1 R = [m] \<and>
    (\<forall>s2 v. sched_inv s2 \<and> current s2 = R \<and> cur_status s2 = THR_TSTATE_RUN \<and> quiet (cur_ti s2) \<and> undisturbed s1 s2 \<longrightarrow>
      (\<exists>s3. lpc_recv_resume (Recv_wait v) rf s2 = Some (Recv_done 0, s3) \<and> sched_inv s3 \<and> mque s3 R = [] \<and>
        umem s3 (thr_p (threads s R)) (r_m rf) = Some body \<and>
        (\<forall>x. r_msg_src rf = Some x \<longrightarrow> umem_src s3 (thr_p (threads s R)) x = Some (tid (threads s (current s)))) \<and>
        status (threads s3 (current s)) = THR_TSTATE_READY \<and>
        (\<forall>s4. current s4 = current s \<and> cur_status s4 = THR_TSTATE_RUN \<and> quiet (cur_ti s4) \<and> undisturbed s3 s4 \<longrightarrow>
          (\<exists>s5. lpc_send_resume (Send_sent u) f s4 = Some (Send_done 0, s5) \<and> live_msgs s5 = insert m (live_msgs s)))))"
proof -
  define L where "L = so_que (sync_objs s (wait_reciever s R))"
  define f where "f = \<lparr>f_dest = dest, f_tmout = t, f_m = a, f_q = R, f_msg = m, f_wait = w\<rparr>"
  have "\<exists>u s' ms. lpc_send s dest t a (Some m) w = Some ((Send_sent u, Some f), s') \<and>
    waiting s' (w_sb w # L) \<and> sent (fresh_msg s m) R m (w_sb w) ms s' \<and> m_src ms = tid (threads s (current s)) \<and> m_body ms = body"
    unfolding f_def by (rule lpc_send_listening) (use inv ni run qt dest lis(1) pol(1) wt sb ne(1) body in \<open>simp_all add: L_def\<close>)
  then obtain u s1 ms where s1: "lpc_send s dest t a (Some m) w = Some ((Send_sent u, Some f), s1)" "waiting s1 (w_sb w # L)"
    "sent (fresh_msg s m) R m (w_sb w) ms s1" "m_src ms = tid (threads s (current s))" "m_body ms = body" by (elim exE conjE) (rule that)
  have f1: "sched_inv s1" "current s1 \<noteq> current s" "mque s1 R = [m]" "msgs s1 m = ms" "completion s1 = completion s" "wait_sender s1 = wait_sender s"
    "wait_reciever s1 = wait_reciever s" "umem s1 = umem s" "umem_src s1 = umem_src s" "live_msgs s1 = insert m (live_msgs s)"
    "thr_p (threads s1 x) = thr_p (threads s x)" "tid (threads s1 x) = tid (threads s x)" "\<not> thr_in_wait (threads s1 R)" for x
    using s1(3) emp ne(1) lis by (simp_all add: sent_def Let_def)
  have b1: "blk_reason (blocks s1 rb) = SYNC_WAI_RELEASED" "blk_thr (blocks s1 (w_sb w)) = current s"
    using s1(3) ne(1) lis(1) sb by (auto simp: sent_def Let_def)
  have o1: "so_que (sync_objs s1 (wait_sender s R)) = []" "so_que (sync_objs s1 (completion s m)) = [w_sb w]"
    "so_policy (sync_objs s1 (completion s m)) = SYNC_WAKE_FLAG_ALL" "sync_objs s1 (wait_reciever s R) = sync_objs s (wait_reciever s R)"
    using s1(3) ne by (simp_all add: sent_def Let_def)
  have recv: "\<exists>s3. lpc_recv_resume (Recv_wait v) rf s2 = Some (Recv_done 0, s3) \<and> took s2 rf m [] s3"
    if a2: "sched_inv s2" "current s2 = R" "cur_status s2 = THR_TSTATE_RUN" "quiet (cur_ti s2)" "undisturbed s1 s2" for s2 v
  proof -
    have "sync_kernel.more s2 = sync_kernel.more s1" using a2(5) by (simp add: undisturbed_def)
    note fr = lpc_frame [OF this]
    have u2: "blocks s2 = blocks s1" "sync_objs s2 = sync_objs s1" "thr_p (threads s2 x) = thr_p (threads s x)" for x
      using a2(5) f1(11) by (simp_all add: undisturbed_def)
    have "rb \<notin> set (so_que (sync_objs s2 (wait_sender s2 R)))" using o1(1) by (simp add: u2 fr f1)
    from sync_wait_resume_ok [OF a2(4,3) this, of v] obtain ti where
      ti: "sync_wait_resume v s2 (wait_sender s2 R) rb = Some (SYNC_WAI_RELEASED, with_ti s2 ti)" "preempt ti = 1" "intrcnt ti = 0"
      using b1(1) by (auto simp: u2)
    have w2: "waiting s2 (L @ [w_sb w])"
      using undisturbed_waiting [OF _ a2(5)] s1(2) waiting_mset [of "w_sb w # L" "L @ [w_sb w]" s1] f1(13) a2(2) by simp
    have ok: "copies_ok s2 rf" using cp by (simp add: copies_ok_def a2(2) u2 fr f1)
    have want: "wanted (r_src rf) ms" using src s1(4) by (auto simp: wanted_def)
    have "\<exists>s'. lpc_recv_loop rf (with_ti s2 ti) = Some (Recv_done (if copies_ok (with_ti s2 ti) rf then 0 else - EFAULT), s') \<and>
        took (with_ti s2 ti) rf m ([] @ []) s'"
      by (rule lpc_recv_loop_takes)
        (use a2 ti(2,3) o1 ne pol(2) want w2 in \<open>simp_all add: fr f1 u2 L_def\<close>)
    then obtain s3 where s3: "lpc_recv_loop rf (with_ti s2 ti) = Some (Recv_done 0, s3)" "took s2 rf m [] s3"
      using ok unfolding took_with_ti copies_ok_with_ti by auto
    have "lpc_recv_resume (Recv_wait v) rf s2 = Some (Recv_done 0, s3)"
      using ti(1) s3(1) a2(2) lis(3) by (simp add: lpc_recv_check_def)
    then show ?thesis using s3(2) by blast
  qed
  have fin: "\<exists>s5. lpc_send_resume (Send_sent u) f s4 = Some (Send_done 0, s5) \<and> live_msgs s5 = insert m (live_msgs s)"
    if a4: "current s4 = current s" "cur_status s4 = THR_TSTATE_RUN" "quiet (cur_ti s4)" "undisturbed s3 s4"
      and s3: "live_msgs s3 = insert m (live_msgs s)" "completion s3 = completion s" "so_que (sync_objs s3 (completion s m)) = []"
        "blk_reason (blocks s3 (w_sb w)) = SYNC_WAI_RELEASED" for s3 s4
  proof -
    have "sync_kernel.more s4 = sync_kernel.more s3" using a4(4) by (simp add: undisturbed_def)
    note fr = lpc_frame [OF this]
    have u4: "blocks s4 = blocks s3" "sync_objs s4 = sync_objs s3" using a4(4) by (simp_all add: undisturbed_def)
    have "w_sb w \<notin> set (so_que (sync_objs s4 (completion s m)))" using s3(3) by (simp add: u4)
    from sync_wait_resume_ok [OF a4(3,2) this, of u] obtain ti where
      ti: "sync_wait_resume u s4 (completion s m) (w_sb w) = Some (SYNC_WAI_RELEASED, with_ti s4 ti)" "preempt ti = 1" "intrcnt ti = 0"
      using s3(4) by (auto simp: u4)
    from lock_leave_run [of "with_ti s4 ti"] a4(2) ti obtain ti' where "lock_leave (with_ti s4 ti) = Some (with_ti s4 ti')" by auto
    then show ?thesis using ti(1) s3 fr by (simp add: f_def lpc_send_result_def)
  qed
  show ?thesis
  proof (rule exI [of _ u], rule exI [of _ f], rule exI [of _ s1], intro conjI allI impI)
    fix s2 v
    assume a2: "sched_inv s2 \<and> current s2 = R \<and> cur_status s2 = THR_TSTATE_RUN \<and> quiet (cur_ti s2) \<and> undisturbed s1 s2"
    then have "sync_kernel.more s2 = sync_kernel.more s1" by (simp add: undisturbed_def)
    note fr = lpc_frame [OF this]
    have u2: "blocks s2 = blocks s1" "sync_objs s2 = sync_objs s1" "thr_p (threads s2 x) = thr_p (threads s x)" "current s2 = R" for x
      using a2 f1(11) by (simp_all add: undisturbed_def)
    from recv [of s2 v] a2 obtain s3 where s3: "lpc_recv_resume (Recv_wait v) rf s2 = Some (Recv_done 0, s3)" "took s2 rf m [] s3" by blast
    have ok: "copies_ok s2 rf" using cp by (simp add: copies_ok_def u2 fr f1)
    have f3: "sched_inv s3" "mque s3 R = []" "live_msgs s3 = insert m (live_msgs s)" "completion s3 = completion s" "so_que (sync_objs s3 (completion s m)) = []"
      "blk_reason (blocks s3 (w_sb w)) = SYNC_WAI_RELEASED" "received s2 rf ms s3"
      using s3(2) ok o1 by (simp_all add: took_def Let_def fr f1 u2)
    have "status (threads s3 (current s)) = THR_TSTATE_READY"
      using s3(2) o1(2) b1(2) unfolding took_def Let_def by (auto simp: fr f1 u2)
    then show "\<exists>s3. lpc_recv_resume (Recv_wait v) rf s2 = Some (Recv_done 0, s3) \<and> sched_inv s3 \<and> mque s3 R = [] \<and>
        umem s3 (thr_p (threads s R)) (r_m rf) = Some body \<and>
        (\<forall>x. r_msg_src rf = Some x \<longrightarrow> umem_src s3 (thr_p (threads s R)) x = Some (tid (threads s (current s)))) \<and>
        status (threads s3 (current s)) = THR_TSTATE_READY \<and>
        (\<forall>s4. current s4 = current s \<and> cur_status s4 = THR_TSTATE_RUN \<and> quiet (cur_ti s4) \<and> undisturbed s3 s4 \<longrightarrow>
          (\<exists>s5. lpc_send_resume (Send_sent u) f s4 = Some (Send_done 0, s5) \<and> live_msgs s5 = insert m (live_msgs s)))"
      using s3(1) f3 fin [OF _ _ _ _ f3(3-6)] s1(4,5) by (intro exI [of _ s3]) (auto simp: received_def Let_def u2)
  qed (use s1(1) f1 in simp_all)
qed

section \<open>A small machine\<close>

text \<open>Thread 1 runs and has the messages \<open>q\<close>; thread 3 waits on the object \<open>ob\<close>.\<close>

definition small_lpc :: "nat \<Rightarrow> nat list \<Rightarrow> lpc_kernel" where
  "small_lpc ob q = timer_kernel.extend
     (small_timer\<lparr>sync_objs := \<lambda>x. \<lparr>wait_kind = THR_TSTATE_WAIT_INTR, so_policy = SYNC_WAKE_FLAG_ALL, so_que = if x = ob then [3] else []\<rparr>\<rparr>)
     (lpc_kernel.fields ((\<lambda>_. [])(1 := q)) (\<lambda>_. \<lparr>m_qp = None, m_src = 3, m_body = [7]\<rparr>) (set q) (\<lambda>t. 10 * t) (\<lambda>t. 10 * t + 1) (\<lambda>m. 1000 + m)
       (\<lambda>_ _. Some [5]) (\<lambda>_ _. Some 0))"

lemma small_lpc_simps:
  "threads (small_lpc ob q) = threads small_sync" "current (small_lpc ob q) = 1" "idle_thread (small_lpc ob q) = 0"
  "ready_queues (small_lpc ob q) = ready_queues small_sync" "thr_created_tree (small_lpc ob q) = thr_created_tree small_sync" "blocks (small_lpc ob q) = blocks small_sync"
  "sync_objs (small_lpc ob q) = (\<lambda>x. \<lparr>wait_kind = THR_TSTATE_WAIT_INTR, so_policy = SYNC_WAKE_FLAG_ALL, so_que = if x = ob then [3] else []\<rparr>)"
  "mque (small_lpc ob q) = (\<lambda>_. [])(1 := q)" "msgs (small_lpc ob q) = (\<lambda>_. \<lparr>m_qp = None, m_src = 3, m_body = [7]\<rparr>)"
  "wait_sender (small_lpc ob q) = (\<lambda>t. 10 * t)" "wait_reciever (small_lpc ob q) = (\<lambda>t. 10 * t + 1)" "completion (small_lpc ob q) = (\<lambda>m. 1000 + m)"
  "umem (small_lpc ob q) = (\<lambda>_ _. Some [5])" "umem_src (small_lpc ob q) = (\<lambda>_ _. Some 0)" "live_msgs (small_lpc ob q) = set q"
  by (simp_all add: small_lpc_def timer_kernel.defs lpc_kernel.defs) (simp_all add: small_timer_def sync_kernel.defs timer_kernel.defs small_sync_simps)

lemma small_lpc_ok: "sched_inv (small_lpc ob q)" "waiting (small_lpc ob q) [3]" "quiet (cur_ti (small_lpc ob q))" "cur_status (small_lpc ob q) = THR_TSTATE_RUN"
proof -
  show "sched_inv (small_lpc ob q)" using small_sync_inv by (rule sched_inv_cong) (simp_all add: small_lpc_simps small_sync_simps)
  show "waiting (small_lpc ob q) [3]" by (simp add: waiting_def small_lpc_simps small_sync_simps thr_in_wait_def thr_wait_intr_def)
  show "quiet (cur_ti (small_lpc ob q))" using small_kernel_cur(6) [of 1] by (simp add: small_lpc_simps small_sync_simps)
  show "cur_status (small_lpc ob q) = THR_TSTATE_RUN" by (simp add: small_lpc_simps small_sync_simps)
qed

definition some_wait :: "nat \<Rightarrow> wait_frame" where
  "some_wait b = \<lparr>w_sb = b, w_tobj = 60, w_tsb = 61, w_cb = \<lparr>co_addr = 62, tmout = 0, expire = 0, co_fn = None, co_data = 0\<rparr>\<rparr>"

definition some_recv :: recv_frame where
  "some_recv = \<lparr>r_src = 0, r_tmout = - 1, r_m = 0x400000, r_msg_src = Some 0x400800, r_wait = some_wait 3\<rparr>"

theorem lpc_recv_spec_witness:
  "\<exists>s'. lpc_recv (small_lpc 1100 [100]) some_recv =
      Some (Recv_done (if copies_ok (small_lpc 1100 [100]) some_recv then 0 else - EFAULT), s') \<and>
    took (small_lpc 1100 [100]) some_recv 100 ([] @ []) s'"
  by (rule lpc_recv_spec [OF small_lpc_ok(1,4,3)])
    (simp_all add: small_lpc_simps wanted_def some_recv_def, rule small_lpc_ok)

theorem lpc_send_recv_roundtrip_witness:
  "\<exists>u f s1. lpc_send (small_lpc 30 []) 3 0 0x400000 (Some 100) (some_wait 8) = Some ((Send_sent u, Some f), s1) \<and> sched_inv s1 \<and>
    current s1 \<noteq> current (small_lpc 30 []) \<and> mque s1 3 = [100] \<and>
    (\<forall>s2 v. sched_inv s2 \<and> current s2 = 3 \<and> cur_status s2 = THR_TSTATE_RUN \<and> quiet (cur_ti s2) \<and> undisturbed s1 s2 \<longrightarrow>
      (\<exists>s3. lpc_recv_resume (Recv_wait v) some_recv s2 = Some (Recv_done 0, s3) \<and> sched_inv s3 \<and> mque s3 3 = [] \<and>
        umem s3 (thr_p (threads (small_lpc 30 []) 3)) (r_m some_recv) = Some [5] \<and>
        (\<forall>x. r_msg_src some_recv = Some x \<longrightarrow> umem_src s3 (thr_p (threads (small_lpc 30 []) 3)) x =
           Some (tid (threads (small_lpc 30 []) (current (small_lpc 30 []))))) \<and>
        status (threads s3 (current (small_lpc 30 []))) = THR_TSTATE_READY \<and>
        (\<forall>s4. current s4 = current (small_lpc 30 []) \<and> cur_status s4 = THR_TSTATE_RUN \<and> quiet (cur_ti s4) \<and> undisturbed s3 s4 \<longrightarrow>
          (\<exists>s5. lpc_send_resume (Send_sent u) f s4 = Some (Send_done 0, s5) \<and> live_msgs s5 = insert 100 (live_msgs (small_lpc 30 []))))))"
proof (rule lpc_send_recv_roundtrip [OF small_lpc_ok(1) _ small_lpc_ok(4,3)])
  show "thr_find_thread_by_tid_nolock (small_lpc 30 []) 3 = Some 3"
    by (simp add: thr_find_thread_by_tid_nolock_def small_lpc_simps small_sync_simps) (simp add: small_kernel_def small_sync_simps small_lpc_simps)
  show "waiting (small_lpc 30 []) (3 # so_que (sync_objs (small_lpc 30 []) (wait_reciever (small_lpc 30 []) 3)))"
    using small_lpc_ok(2) [of 30 "[]"] by (simp add: small_lpc_simps)
qed (simp_all add: small_lpc_simps small_sync_simps some_recv_def some_wait_def)

end
