(* ===== verification/Refcount.thy ===== *)
theory Refcount
  imports Kern_Prelude
begin

text \<open>
  Reference counters, \<^verbatim>\<open>src/kern/refcount.c\<close> and \<^verbatim>\<open>src/include/kern/refcount.h\<close>: a signed
  64-bit count and a flag that the object is to be deleted.  The properties say when the
  caller of \<open>refcnt_put\<close> is told to free the object: when the last reference of a
  deleted object goes, and at most once in any history.
\<close>

record refcnt =
  counter :: u64
  deleted :: bool

abbreviation REFCNT_INITIAL_VAL :: u64 where "REFCNT_INITIAL_VAL \<equiv> 1"

definition refcnt_init :: refcnt where
  "refcnt_init = \<lparr>counter = REFCNT_INITIAL_VAL, deleted = False\<rparr>"

text \<open>Each operation returns its code, the previous count (\<^verbatim>\<open>*valp\<close>) and the new counter.\<close>

definition refcnt_get :: "refcnt \<Rightarrow> int \<times> u64 \<times> refcnt" where
  "refcnt_get r =
     (let old_cnt = counter r in
      if deleted r then (- ENOENT, old_cnt, r)
      else (0, old_cnt, r\<lparr>counter := counter r + 1\<rparr>))"

definition refcnt_put :: "refcnt \<Rightarrow> (int \<times> u64 \<times> refcnt) option" where
  "refcnt_put r = do {
     kassert (0 < sint (counter r));
     let old_cnt = counter r;
     let r' = r\<lparr>counter := counter r - 1\<rparr>;
     let rc = (if old_cnt = REFCNT_INITIAL_VAL \<and> deleted r' then 0 else - EBUSY);
     Some (rc, old_cnt, r')
   }"

definition refcnt_mark_deleted :: "refcnt \<Rightarrow> refcnt" where
  "refcnt_mark_deleted r = r\<lparr>deleted := True\<rparr>"

lemmas refcnt_defs = refcnt_init_def refcnt_get_def refcnt_put_def refcnt_mark_deleted_def

lemma refcnt_put_eq:
  "0 < sint (counter r) \<Longrightarrow>
    refcnt_put r = Some (if counter r = 1 \<and> deleted r then 0 else - EBUSY, counter r,
                         r\<lparr>counter := counter r - 1\<rparr>)"
  by (simp add: refcnt_put_def Let_def)

subsection \<open>Histories\<close>

datatype refop = Get | Put | Mark_deleted

fun refcnt_step :: "refcnt \<Rightarrow> refop \<Rightarrow> (int \<times> refcnt) option" where
  "refcnt_step r Get = (case refcnt_get r of (rc, _, r') \<Rightarrow> Some (rc, r'))"
| "refcnt_step r Put = (case refcnt_put r of None \<Rightarrow> None | Some (rc, _, r') \<Rightarrow> Some (rc, r'))"
| "refcnt_step r Mark_deleted = Some (0, refcnt_mark_deleted r)"

text \<open>The codes a history of operations returns, up to the first one that does not return.\<close>

fun refcnt_run :: "refcnt \<Rightarrow> refop list \<Rightarrow> (refop \<times> int) list" where
  "refcnt_run r [] = []"
| "refcnt_run r (x # xs) =
     (case refcnt_step r x of None \<Rightarrow> [] | Some (rc, r') \<Rightarrow> (x, rc) # refcnt_run r' xs)"

lemma refcnt_dead_run:
  assumes "deleted r" and "counter r = 0"
  shows "(Put, rc) \<notin> set (refcnt_run r xs) \<and> (Get, 0) \<notin> set (refcnt_run r xs)"
  using assms
proof (induction xs arbitrary: r)
  case (Cons x xs)
  then show ?case by (cases x) (auto simp: refcnt_defs)
qed simp

lemma refcnt_run_free_once:
  "refcnt_run r xs = ys @ (Put, 0) # zs \<Longrightarrow>
    (Put, rc) \<notin> set zs \<and> (Get, 0) \<notin> set zs"
proof (induction xs arbitrary: r ys)
  case (Cons x xs)
  from Cons.prems obtain c r' where step: "refcnt_step r x = Some (c, r')"
    by (cases "refcnt_step r x") auto
  show ?case
  proof (cases ys)
    case Nil
    with Cons.prems step have x: "x = Put" "c = 0" "zs = refcnt_run r' xs" by auto
    with step have "deleted r' \<and> counter r' = 0"
      by (auto simp: refcnt_put_def Let_def split: option.splits if_splits)
    with x show ?thesis using refcnt_dead_run by blast
  next
    case (Cons y ys')
    with Cons.prems step have "refcnt_run r' xs = ys' @ (Put, 0) # zs" by auto
    then show ?thesis by (rule Cons.IH)
  qed
qed simp

subsection \<open>Properties\<close>

text \<open>
  Claim C40. In any history of a reference counter, whatever its state, once \<open>refcnt_put\<close> has
  told a caller to free the object (code 0), no later \<open>refcnt_put\<close> returns at all and
  no later \<open>refcnt_get\<close> succeeds: an object is freed at most once and is not
  referenced after that.
\<close>

theorem refcnt_free_once:
  assumes "refcnt_run r xs = ys @ (Put, 0) # zs"
  shows "(Put, rc) \<notin> set zs \<and> (Get, 0) \<notin> set zs"
  using assms by (rule refcnt_run_free_once)

theorem refcnt_free_once_witness:
  "refcnt_run refcnt_init [Get, Mark_deleted, Put, Put, Get, Put]
     = [(Get, 0), (Mark_deleted, 0), (Put, - EBUSY)] @ (Put, 0) # [(Get, - ENOENT)] \<and>
   (Put, - EBUSY) \<notin> set [(Get, - ENOENT)] \<and> (Get, 0) \<notin> set [(Get, - ENOENT)]"
proof -
  have h: "refcnt_run refcnt_init [Get, Mark_deleted, Put, Put, Get, Put]
     = [(Get, 0), (Mark_deleted, 0), (Put, - EBUSY)] @ (Put, 0) # [(Get, - ENOENT)]"
    by (simp add: refcnt_defs)
  show ?thesis using h refcnt_free_once [OF h, of "- EBUSY"] by simp
qed

end
