(* ===== verification/Id_Bitmap.thy ===== *)
theory Id_Bitmap
  imports Refcount
begin

text \<open>
  The allocator of thread and process ids, \<^verbatim>\<open>src/kern/id-bitmap.c\<close> and
  \<^verbatim>\<open>src/include/kern/id-bitmap.h\<close>: a growable bitmap with a reserved range for system
  ids and a reference count that every allocated id holds.

  \<^verbatim>\<open>kmalloc\<close> is a parameter: \<open>km n\<close> says whether an allocation of \<open>n\<close> bytes succeeds.  The
  sizes asked for in one call grow strictly, so a function of the size covers every
  pattern of successes and failures.
\<close>

subsection \<open>Data\<close>

record id_bitmap =
  ref_count :: refcnt
  reserved_ids :: u64
  nr_ids :: u64
  max_array_idx :: u64
  bmap :: "u64 list option"

text \<open>An object that \<open>put_idbmap_ref\<close> may have released.\<close>

datatype 'a life = Alive 'a | Freed

abbreviation ID_BITMAP_USER :: u32 where "ID_BITMAP_USER \<equiv> 0"
abbreviation ID_BITMAP_SYSTEM :: u32 where "ID_BITMAP_SYSTEM \<equiv> 1"
abbreviation ID_BITMAP_INVALID_ID_MASK :: u64 where "ID_BITMAP_INVALID_ID_MASK \<equiv> 1"
abbreviation ID_BITMAP_FIRST_VALID_ID :: u64 where "ID_BITMAP_FIRST_VALID_ID \<equiv> 1"
abbreviation ID_BITMAP_IDS_PER_ENT :: u64 where "ID_BITMAP_IDS_PER_ENT \<equiv> 64"
abbreviation ID_BITMAP_DEFAULT_RESV_IDS :: u64 where "ID_BITMAP_DEFAULT_RESV_IDS \<equiv> 255"
abbreviation ID_BITMAP_DEFAULT_MAP_SIZE :: u64 where "ID_BITMAP_DEFAULT_MAP_SIZE \<equiv> 1024"

type_synonym kmalloc = "u64 \<Rightarrow> bool"

subsection \<open>Internal operations\<close>

definition reserve_invalid_ids :: "id_bitmap \<Rightarrow> id_bitmap option" where
  "reserve_invalid_ids m =
     (case bmap m of
        None \<Rightarrow> Some m
      | Some b \<Rightarrow> do {
          w \<leftarrow> arr_get b 0;
          b' \<leftarrow> arr_set b 0 (w OR ID_BITMAP_INVALID_ID_MASK);
          Some (m\<lparr>bmap := Some b'\<rparr>) })"

definition release_invalid_ids :: "id_bitmap \<Rightarrow> id_bitmap option" where
  "release_invalid_ids m =
     (case bmap m of
        None \<Rightarrow> Some m
      | Some b \<Rightarrow> do {
          w \<leftarrow> arr_get b 0;
          b' \<leftarrow> arr_set b 0 (w AND NOT ID_BITMAP_INVALID_ID_MASK);
          Some (m\<lparr>bmap := Some b'\<rparr>) })"

definition init_idbmap_common :: "u64 \<Rightarrow> id_bitmap" where
  "init_idbmap_common resv =
     \<lparr>ref_count = refcnt_init, reserved_ids = resv, nr_ids = 0, max_array_idx = 0, bmap = None\<rparr>"

text \<open>\<^verbatim>\<open>memmove\<close> of \<open>n\<close> entries between two arrays.\<close>

definition copy_entries :: "u64 list \<Rightarrow> u64 list \<Rightarrow> nat \<Rightarrow> u64 list option" where
  "copy_entries dst src n =
     (if n \<le> length dst \<and> n \<le> length src then Some (take n src @ drop n dst) else None)"

text \<open>The loop that looks for an entry in use from index \<open>i\<close> up to \<open>n\<close>.\<close>

function ids_in_use :: "u64 list \<Rightarrow> nat \<Rightarrow> nat \<Rightarrow> bool option" where
  "ids_in_use b i n =
     (if i < n then do {
        w \<leftarrow> arr_get b i;
        if w \<noteq> 0 then Some True else ids_in_use b (Suc i) n }
      else Some False)"
  by pat_completeness auto
termination by (relation "measure (\<lambda>(b, i, n). n - i)") auto

declare ids_in_use.simps [simp del]

definition resize_bitmap :: "kmalloc \<Rightarrow> id_bitmap \<Rightarrow> u64 \<Rightarrow> (int \<times> id_bitmap) option" where
  "resize_bitmap km m new_ids =
     (if new_ids = 0 then Some (- EINVAL, m)
      else if new_ids \<le> reserved_ids m then Some (- EINVAL, m)
      else
        let new_idx = (new_ids + (ID_BITMAP_IDS_PER_ENT - 1)) div ID_BITMAP_IDS_PER_ENT in
        if \<not> km (8 * new_idx) then Some (- ENOMEM, m)
        else
          let new_map = replicate (unat new_idx) 0;
              commit = (\<lambda>nm. do {
                m' \<leftarrow> reserve_invalid_ids
                        (m\<lparr>bmap := Some nm, max_array_idx := new_idx, nr_ids := new_ids\<rparr>);
                Some (0, m') })
          in
          if max_array_idx m < new_idx then
            (case bmap m of
               Some b \<Rightarrow>
                 if 0 < max_array_idx m then do {
                   nm \<leftarrow> copy_entries new_map b (unat (max_array_idx m));
                   commit nm }
                 else commit new_map
             | None \<Rightarrow> commit new_map)
          else if new_idx < max_array_idx m then
            (case bmap m of
               None \<Rightarrow> None
             | Some b \<Rightarrow> do {
                 busy \<leftarrow> ids_in_use b (unat new_idx) (unat (max_array_idx m));
                 if busy then Some (- EBUSY, m)
                 else do {
                   nm \<leftarrow> copy_entries new_map b (unat new_idx);
                   commit nm } })
          else commit new_map)"

text \<open>The search loop of \<open>find_free_id\<close>: the first id from \<open>i\<close> up to \<open>n\<close> whose bit is clear.\<close>

function find_free_from :: "u64 list option \<Rightarrow> nat \<Rightarrow> nat \<Rightarrow> nat option option" where
  "find_free_from mp i n =
     (if i < n then do {
        b \<leftarrow> mp;
        w \<leftarrow> arr_get b (i div 64);
        if bit w (i mod 64) then find_free_from mp (Suc i) n
        else Some (Some i) }
      else Some None)"
  by pat_completeness auto
termination by (relation "measure (\<lambda>(b, i, n). n - i)") auto

declare find_free_from.simps [simp del]

definition find_free_id :: "id_bitmap \<Rightarrow> u32 \<Rightarrow> (int \<times> u64 \<times> id_bitmap) option" where
  "find_free_id m idflags =
     (let (min_id, max_id) =
        (if idflags AND ID_BITMAP_SYSTEM \<noteq> 0
         then (ID_BITMAP_FIRST_VALID_ID, reserved_ids m)
         else (reserved_ids m, nr_ids m)) in
      if nr_ids m < max_id then Some (- ENOENT, 0, m)
      else do {
        r \<leftarrow> find_free_from (bmap m) (unat min_id) (unat max_id);
        case r of
          None \<Rightarrow> Some (- ENOENT, 0, m)
        | Some i \<Rightarrow> do {
            b \<leftarrow> bmap m;
            w \<leftarrow> arr_get b (i div 64);
            b' \<leftarrow> arr_set b (i div 64) (w OR push_bit (i mod 64) 1);
            Some (0, of_nat i, m\<lparr>bmap := Some b'\<rparr>) } })"

definition free_map_in_idmap :: "id_bitmap \<Rightarrow> (int \<times> id_bitmap) option" where
  "free_map_in_idmap m = do {
     m1 \<leftarrow> release_invalid_ids m;
     busy \<leftarrow> (case bmap m1 of
               None \<Rightarrow> if 0 < max_array_idx m1 then None else Some False
             | Some b \<Rightarrow> ids_in_use b 0 (unat (max_array_idx m1)));
     if busy then do {
       m2 \<leftarrow> reserve_invalid_ids m1;
       Some (- EBUSY, m2) }
     else Some (0, m1\<lparr>nr_ids := 0, max_array_idx := 0, bmap := None\<rparr>) }"

definition get_idbmap_ref :: "id_bitmap \<Rightarrow> int \<times> id_bitmap" where
  "get_idbmap_ref m =
     (case refcnt_get (ref_count m) of
        (rc, _, r) \<Rightarrow> if rc \<noteq> 0 then (- ENOENT, m\<lparr>ref_count := r\<rparr>) else (0, m\<lparr>ref_count := r\<rparr>))"

definition put_idbmap_ref :: "id_bitmap \<Rightarrow> id_bitmap life option" where
  "put_idbmap_ref m = do {
     (rc, oldcnt, r) \<leftarrow> refcnt_put (ref_count m);
     let m1 = m\<lparr>ref_count := r\<rparr>;
     if rc = 0 then do {
       kassert (oldcnt = 1);
       (rc2, m2) \<leftarrow> free_map_in_idmap m1;
       kassert (rc2 = 0);
       Some Freed }
     else Some (Alive m1) }"

subsection \<open>The interface\<close>

definition idbmap_get_specified_id ::
    "kmalloc \<Rightarrow> id_bitmap \<Rightarrow> u64 \<Rightarrow> u32 \<Rightarrow> (int \<times> id_bitmap life) option" where
  "idbmap_get_specified_id km m oid idflags =
     (if idflags AND ID_BITMAP_SYSTEM \<noteq> 0 \<and> reserved_ids m \<le> oid then Some (- EINVAL, Alive m)
      else
        let (rc, m1) = get_idbmap_ref m in
        if rc \<noteq> 0 then Some (- ENOENT, Alive m1)
        else do {
          let idx = oid div 64;
          let pos = oid mod 64;
          (rc, m2) \<leftarrow> (if max_array_idx m1 \<le> idx
                      then resize_bitmap km m1 (nr_ids m1 + ID_BITMAP_DEFAULT_MAP_SIZE)
                      else Some (0, m1));
          if rc \<noteq> 0 then do { l \<leftarrow> put_idbmap_ref m2; Some (rc, l) }
          else do {
            b \<leftarrow> bmap m2;
            w \<leftarrow> arr_get b (unat idx);
            if bit w (unat pos) then do { l \<leftarrow> put_idbmap_ref m2; Some (- EBUSY, l) }
            else do {
              b' \<leftarrow> arr_set b (unat idx) (w OR push_bit (unat pos) 1);
              Some (0, Alive (m2\<lparr>bmap := Some b'\<rparr>)) } } })"

text \<open>The retry loop of \<open>idbmap_get_id\<close>: it ends when a free id is found or the map cannot grow.\<close>

partial_function (option) get_id_loop ::
    "kmalloc \<Rightarrow> id_bitmap \<Rightarrow> u32 \<Rightarrow> (int \<times> u64 \<times> id_bitmap) option" where
  "get_id_loop km m idflags = do {
     (find_id_rc, newid, m1) \<leftarrow> find_free_id m idflags;
     if find_id_rc = - ENOENT then do {
       (rc, m2) \<leftarrow> resize_bitmap km m1 (nr_ids m1 + ID_BITMAP_DEFAULT_MAP_SIZE);
       if rc \<noteq> 0 then Some (rc, 0, m2) else get_id_loop km m2 idflags }
     else if find_id_rc \<noteq> 0 then get_id_loop km m1 idflags
     else Some (0, newid, m1) }"

definition idbmap_get_id ::
    "kmalloc \<Rightarrow> id_bitmap \<Rightarrow> u32 \<Rightarrow> (int \<times> u64 \<times> id_bitmap life) option" where
  "idbmap_get_id km m idflags =
     (let (rc, m1) = get_idbmap_ref m in
      if rc \<noteq> 0 then Some (- ENOENT, 0, Alive m1)
      else do {
        (rc, newid, m2) \<leftarrow> get_id_loop km m1 idflags;
        if rc \<noteq> 0 then do { l \<leftarrow> put_idbmap_ref m2; Some (rc, 0, l) }
        else Some (0, newid, Alive m2) })"

definition idbmap_put_id :: "id_bitmap \<Rightarrow> u64 \<Rightarrow> id_bitmap life option" where
  "idbmap_put_id m oid = do {
     let idx = oid div 64;
     let pos = oid mod 64;
     b \<leftarrow> bmap m;
     w \<leftarrow> arr_get b (unat idx);
     kassert (bit w (unat pos));
     b' \<leftarrow> arr_set b (unat idx) (w AND NOT (push_bit (unat pos) 1));
     put_idbmap_ref (m\<lparr>bmap := Some b'\<rparr>) }"

definition idbmap_resize :: "kmalloc \<Rightarrow> id_bitmap \<Rightarrow> u64 \<Rightarrow> (int \<times> id_bitmap life) option" where
  "idbmap_resize km m new_ids =
     (let (rc, m1) = get_idbmap_ref m in
      if rc \<noteq> 0 then Some (- ENOENT, Alive m1)
      else do {
        (rc, m2) \<leftarrow> resize_bitmap km m1 new_ids;
        l \<leftarrow> put_idbmap_ref m2;
        Some (rc, l) })"

definition idbmap_init :: "u64 \<Rightarrow> id_bitmap" where
  "idbmap_init resv = init_idbmap_common resv"

definition idbmap_free :: "id_bitmap \<Rightarrow> (int \<times> id_bitmap life) option" where
  "idbmap_free m =
     (let (rc, m1) = get_idbmap_ref m in
      if rc \<noteq> 0 then Some (- EINVAL, Alive m1)
      else do {
        (rc, m2) \<leftarrow> free_map_in_idmap m1;
        l \<leftarrow> put_idbmap_ref m2;
        Some (rc, l) })"

definition idbmap_destroy :: "id_bitmap \<Rightarrow> id_bitmap life option" where
  "idbmap_destroy m = put_idbmap_ref (m\<lparr>ref_count := refcnt_mark_deleted (ref_count m)\<rparr>)"

text \<open>\<open>idbmap_create\<close> allocates the object itself; \<open>sz\<close> is \<^verbatim>\<open>sizeof(id_bitmap)\<close>.\<close>

definition idbmap_create :: "kmalloc \<Rightarrow> u64 \<Rightarrow> u64 \<Rightarrow> int \<times> id_bitmap option" where
  "idbmap_create km sz resv =
     (if \<not> km sz then (- ENOMEM, None) else (0, Some (init_idbmap_common resv)))"


subsection \<open>The set of ids in use\<close>

definition used :: "id_bitmap \<Rightarrow> nat set" where
  "used m = (case bmap m of
     None \<Rightarrow> {}
   | Some b \<Rightarrow> {i. i div 64 < length b \<and> bit (b ! (i div 64)) (i mod 64)})"

text \<open>
  Well-formedness: the map has exactly the entries that \<open>nr_ids\<close> ids need, the invalid id 0
  is always taken, and there is room for more than the reserved ids.
\<close>

definition idmap_ok :: "id_bitmap \<Rightarrow> bool" where
  "idmap_ok m = (case bmap m of
     None \<Rightarrow> nr_ids m = 0 \<and> max_array_idx m = 0
   | Some b \<Rightarrow> length b = unat (max_array_idx m) \<and> b \<noteq> [] \<and>
       unat (nr_ids m) \<le> 64 * length b \<and> 64 * length b < unat (nr_ids m) + 64 \<and>
       bit (b ! 0) 0 \<and> reserved_ids m < nr_ids m)"

text \<open>Every id in use holds one reference, and the creator one more until the map is destroyed.\<close>

definition idmap_refs :: "id_bitmap \<Rightarrow> nat" where
  "idmap_refs m = (if deleted (ref_count m) then 0 else 1) + card (used m - {0})"

definition idmap_ref_ok :: "id_bitmap \<Rightarrow> bool" where
  "idmap_ref_ok m \<longleftrightarrow> counter (ref_count m) = of_nat (idmap_refs m) \<and> idmap_refs m < 2 ^ 63"

lemma sint_of_nat_64: "n < 2 ^ 63 \<Longrightarrow> sint (of_nat n :: u64) = int n"
  by (simp add: signed_of_nat signed_take_bit_int_eq_self)

lemma used_Some: "bmap m = Some b \<Longrightarrow>
    used m = {i. i div 64 < length b \<and> bit (b ! (i div 64)) (i mod 64)}"
  by (simp add: used_def)

lemma used_set:
  assumes "bmap m = Some b" and "i div 64 < length b"
  shows "used (m\<lparr>bmap := Some (b[i div 64 := b ! (i div 64) OR push_bit (i mod 64) 1])\<rparr>)
    = insert i (used m)"
  using assms
  by (auto simp: used_def nth_list_update bit_or_push split: if_splits) (metis div_mod_inj)

lemma used_clear:
  assumes "bmap m = Some b" and "i div 64 < length b"
  shows "used (m\<lparr>bmap := Some (b[i div 64 := b ! (i div 64) AND NOT (push_bit (i mod 64) 1)])\<rparr>)
    = used m - {i}"
  using assms
  by (auto simp: used_def nth_list_update bit_and_not_push split: if_splits dest: div_mod_inj)

lemma finite_used [simp]: "finite (used m)"
proof -
  have "{i. i div 64 < n \<and> P i} \<subseteq> {..<64 * n}" for n :: nat and P
    by (auto simp: div_less_iff_less_mult mult.commute)
  then show ?thesis
    by (auto simp: used_def split: option.splits intro: finite_subset)
qed


subsection \<open>Searching and growing\<close>

lemma find_free_from_eq:
  "n \<le> 64 * length b \<Longrightarrow>
    find_free_from (Some b) i n = Some (find (\<lambda>j. \<not> bit (b ! (j div 64)) (j mod 64)) [i..<n])"
proof (induction "Some b" i n rule: find_free_from.induct)
  case (1 i n)
  show ?case
  proof (cases "i < n")
    case True
    with "1.prems" have "i div 64 < length b" by (simp add: div_less_iff_less_mult mult.commute)
    with True "1" show ?thesis
      by (simp add: find_free_from.simps [of _ i n] upt_conv_Cons)
  qed (simp add: find_free_from.simps [of _ i n])
qed

lemma ids_in_use_eq:
  "n \<le> length b \<Longrightarrow> ids_in_use b i n = Some (\<exists>j \<in> {i..<n}. b ! j \<noteq> 0)"
proof (induction b i n rule: ids_in_use.induct)
  case (1 b i n)
  show ?case
  proof (cases "i < n")
    case True
    then have "{i..<n} = insert i {Suc i..<n}" by auto
    with True "1" show ?thesis by (simp add: ids_in_use.simps [of b i n])
  qed (simp add: ids_in_use.simps [of b i n])
qed

text \<open>The ids an allocation may return: the two search ranges of \<open>find_free_id\<close>.\<close>

definition id_range :: "id_bitmap \<Rightarrow> u32 \<Rightarrow> nat set" where
  "id_range m idflags = (if idflags AND ID_BITMAP_SYSTEM \<noteq> 0
     then {1..<unat (reserved_ids m)} else {unat (reserved_ids m)..<unat (nr_ids m)})"

lemma idmap_ok_nr: "idmap_ok m \<Longrightarrow> bmap m = Some b \<Longrightarrow> unat (nr_ids m) \<le> 64 * length b"
  by (simp add: idmap_ok_def)

lemma used_bound: "i \<in> used m \<Longrightarrow> bmap m = Some b \<Longrightarrow> i < 64 * length b"
  by (simp add: used_Some div_less_iff_less_mult mult.commute)

lemma zero_used: "idmap_ok m \<Longrightarrow> bmap m = Some b \<Longrightarrow> 0 \<in> used m"
  by (cases b) (auto simp: idmap_ok_def used_def)

lemma find_upt_eq_Some:
  "find P [i..<n] = Some j \<longleftrightarrow> i \<le> j \<and> j < n \<and> P j \<and> (\<forall>k. i \<le> k \<and> k < j \<longrightarrow> \<not> P k)"
proof (induction "n - i" arbitrary: i)
  case 0
  then show ?case by auto
next
  case (Suc d)
  then have "i < n" and IH: "find P [Suc i..<n] = Some j \<longleftrightarrow>
      Suc i \<le> j \<and> j < n \<and> P j \<and> (\<forall>k. Suc i \<le> k \<and> k < j \<longrightarrow> \<not> P k)" by auto
  then show ?case
    by (auto simp: upt_conv_Cons Suc_le_eq) (metis le_neq_implies_less not_less)+
qed

lemma find_free_id_found:
  assumes "idmap_ok m" and "i \<in> id_range m fl" and "i < unat (nr_ids m)" and "i \<notin> used m"
    and "\<And>j. j \<in> id_range m fl \<Longrightarrow> j < i \<Longrightarrow> j \<in> used m"
    and "fl AND ID_BITMAP_SYSTEM \<noteq> 0 \<Longrightarrow> reserved_ids m \<le> nr_ids m"
  obtains b where "find_free_id m fl = Some (0, of_nat i, m\<lparr>bmap := Some b\<rparr>)"
    and "used (m\<lparr>bmap := Some b\<rparr>) = insert i (used m)" and "idmap_ok (m\<lparr>bmap := Some b\<rparr>)"
proof -
  from assms(1,3) obtain b where b: "bmap m = Some b" by (auto simp: idmap_ok_def split: option.splits)
  with assms(1) have len: "unat (nr_ids m) \<le> 64 * length b" by (rule idmap_ok_nr)
  with assms(3) have i: "i div 64 < length b" by (simp add: div_less_iff_less_mult mult.commute)
  let ?b = "b[i div 64 := b ! (i div 64) OR push_bit (i mod 64) 1]"
  let ?lo = "if fl AND ID_BITMAP_SYSTEM \<noteq> 0 then 1 else unat (reserved_ids m)"
  let ?hi = "unat (if fl AND ID_BITMAP_SYSTEM \<noteq> 0 then reserved_ids m else nr_ids m)"
  have hi: "?hi \<le> unat (nr_ids m)" using assms(6) by (auto simp: word_le_nat_alt)
  have "find (\<lambda>j. \<not> bit (b ! (j div 64)) (j mod 64)) [?lo..<?hi] = Some i"
    using assms(2,4,5) i hi len
    by (auto simp: find_upt_eq_Some id_range_def used_Some [OF b] split: if_splits)
  then have "find_free_id m fl = Some (0, of_nat i, m\<lparr>bmap := Some ?b\<rparr>)"
    using hi len b i by (auto simp: find_free_id_def find_free_from_eq word_less_nat_alt split: if_splits)
  moreover have "used (m\<lparr>bmap := Some ?b\<rparr>) = insert i (used m)" using b i by (rule used_set)
  moreover from this have "idmap_ok (m\<lparr>bmap := Some ?b\<rparr>)"
    using assms(1) b i by (auto simp: idmap_ok_def nth_list_update bit_or_push)
  ultimately show thesis by (rule that)
qed

lemma find_free_id_none:
  assumes "idmap_ok m"
    and "nr_ids m < (if fl AND ID_BITMAP_SYSTEM \<noteq> 0 then reserved_ids m else nr_ids m) \<or>
      id_range m fl \<subseteq> used m"
  shows "find_free_id m fl = Some (- ENOENT, 0, m)"
proof (cases "nr_ids m < (if fl AND ID_BITMAP_SYSTEM \<noteq> 0 then reserved_ids m else nr_ids m)")
  case True
  then show ?thesis by (auto simp: find_free_id_def split: if_splits)
next
  case False
  with assms(2) have all: "id_range m fl \<subseteq> used m" by blast
  show ?thesis
  proof (cases "bmap m")
    case None
    with assms(1) False show ?thesis
      by (auto simp: find_free_id_def idmap_ok_def find_free_from.simps word_less_nat_alt split: if_splits)
  next
    case (Some b)
    with assms(1) have len: "unat (nr_ids m) \<le> 64 * length b" by (rule idmap_ok_nr)
    let ?lo = "if fl AND ID_BITMAP_SYSTEM \<noteq> 0 then 1 else unat (reserved_ids m)"
    let ?hi = "unat (if fl AND ID_BITMAP_SYSTEM \<noteq> 0 then reserved_ids m else nr_ids m)"
    have hi: "?hi \<le> unat (nr_ids m)" using False by (auto simp: not_less word_le_nat_alt)
    have "find (\<lambda>j. \<not> bit (b ! (j div 64)) (j mod 64)) [?lo..<?hi] = None"
      using all by (auto simp: find_None_iff id_range_def used_Some [OF Some] split: if_splits)
    with False hi len Some show ?thesis by (auto simp: find_free_id_def find_free_from_eq)
  qed
qed

lemma new_idx_unat:
  assumes "unat (n :: u64) + 63 < 2 ^ 64"
  shows "unat ((n + (64 - 1)) div 64) = (unat n + 63) div 64"
proof -
  have "unat (n + 63) = unat n + 63" using assms by (simp add: unat_word_ariths)
  then show ?thesis by (simp add: unat_div)
qed


lemma resize_grow:
  assumes ok: "idmap_ok m" and km: "\<And>n. km n" and "reserved_ids m < new_ids"
    and nw: "unat new_ids + 63 < 2 ^ 64"
    and grow: "unat (max_array_idx m) < (unat new_ids + 63) div 64"
  obtains b where "resize_bitmap km m new_ids =
      Some (0, m\<lparr>bmap := Some b, max_array_idx := (new_ids + 63) div 64, nr_ids := new_ids\<rparr>)"
    and "used (m\<lparr>bmap := Some b, max_array_idx := (new_ids + 63) div 64, nr_ids := new_ids\<rparr>)
      = insert 0 (used m)"
    and "idmap_ok (m\<lparr>bmap := Some b, max_array_idx := (new_ids + 63) div 64, nr_ids := new_ids\<rparr>)"
proof -
  define n where "n = (unat new_ids + 63) div 64"
  define old where "old = (case bmap m of None \<Rightarrow> [] | Some b \<Rightarrow> b)"
  define c where "c = old @ replicate (n - length old) 0"
  define b where "b = c[0 := c ! 0 OR 1]"
  let ?x = "(new_ids + 63) div 64"
  let ?m = "m\<lparr>bmap := Some b, max_array_idx := ?x, nr_ids := new_ids\<rparr>"
  have x: "unat ?x = n" using new_idx_unat [OF nw] by (simp add: n_def)
  have pos: "0 < new_ids" using assms(3) by (simp add: word_less_nat_alt)
  have old: "length old = unat (max_array_idx m)" and grow': "unat (max_array_idx m) < n"
    using ok grow by (auto simp: idmap_ok_def old_def n_def split: option.splits)
  then have len: "length c = n" by (simp add: c_def)
  have lt: "max_array_idx m < ?x" using grow' x by (simp add: word_less_nat_alt)
  have "resize_bitmap km m new_ids = Some (0, ?m)"
    using km assms(3) pos lt x ok grow'
    by (auto simp: resize_bitmap_def copy_entries_def reserve_invalid_ids_def idmap_ok_def Let_def
        b_def c_def old_def word_less_nat_alt not_le split: option.splits)
  moreover have c: "c ! k = (if k < length old then old ! k else 0)" if "k < n" for k
    using that len by (simp add: c_def nth_append)
  have mem: "i \<in> used ?m \<longleftrightarrow> i div 64 < n \<and> (bit (c ! (i div 64)) (i mod 64) \<or> i = 0)" for i
  proof -
    have "i div 64 = 0 \<and> i mod 64 = 0 \<longleftrightarrow> i = 0" by (auto dest: div_mod_inj [of i 64 0])
    then show ?thesis
      using grow' len by (auto simp: used_def b_def nth_list_update bit_or_iff bit_1_iff)
  qed
  have "i \<in> used m \<longleftrightarrow> i div 64 < length old \<and> bit (old ! (i div 64)) (i mod 64)" for i
    by (simp add: used_def old_def split: option.splits)
  then have "used ?m = insert 0 (used m)"
    using old grow' by (auto simp: mem c split: if_splits)
  moreover have "idmap_ok ?m"
    using assms(3) len x grow' nw by (auto simp: idmap_ok_def b_def n_def bit_or_iff)
  ultimately show thesis by (rule that)
qed


subsection \<open>Allocation\<close>

lemma ref_count_irrelevant [simp]:
  "used (m\<lparr>ref_count := r\<rparr>) = used m"
  "idmap_ok (m\<lparr>ref_count := r\<rparr>) = idmap_ok m"
  "id_range (m\<lparr>ref_count := r\<rparr>) fl = id_range m fl"
  by (simp_all add: used_def idmap_ok_def id_range_def split: option.split)

lemma get_idbmap_ref_live:
  "\<not> deleted (ref_count m) \<Longrightarrow>
    get_idbmap_ref m = (0, m\<lparr>ref_count := (ref_count m)\<lparr>counter := counter (ref_count m) + 1\<rparr>\<rparr>)"
  by (simp add: get_idbmap_ref_def refcnt_get_def)

text \<open>The ids of the requested kind, however far the map has to grow.\<close>

definition id_kind :: "id_bitmap \<Rightarrow> u32 \<Rightarrow> nat set" where
  "id_kind m idflags = (if idflags AND ID_BITMAP_SYSTEM \<noteq> 0
     then {1..<unat (reserved_ids m)} else {unat (reserved_ids m)..})"

text \<open>\<open>i\<close> is the id an allocation must return, and \<open>m'\<close> the map after it.\<close>

definition id_allocated :: "id_bitmap \<Rightarrow> u32 \<Rightarrow> nat \<Rightarrow> id_bitmap \<Rightarrow> bool" where
  "id_allocated m fl i m' \<longleftrightarrow> i \<in> id_kind m fl \<and> i \<noteq> 0 \<and> i < 2 ^ 63 \<and> i \<notin> used m \<and>
     {j \<in> id_kind m fl. j < i} \<subseteq> insert 0 (used m) \<and>
     used m' = insert 0 (insert i (used m)) \<and> idmap_ok m' \<and>
     reserved_ids m' = reserved_ids m"

lemma get_id_loop_found:
  assumes "idmap_ok m" and "unat (nr_ids m) < 2 ^ 63"
    and "fl AND ID_BITMAP_SYSTEM \<noteq> 0 \<Longrightarrow> reserved_ids m \<le> nr_ids m"
    and "\<exists>i \<in> id_range m fl. i \<notin> used m"
  shows "\<exists>i m'. get_id_loop km m fl = Some (0, of_nat i, m') \<and> id_allocated m fl i m' \<and>
    ref_count m' = ref_count m"
proof -
  from assms(4) obtain i where i: "i \<in> id_range m fl" "i \<notin> used m"
    and least: "\<And>j. j < i \<Longrightarrow> j \<in> id_range m fl \<Longrightarrow> j \<in> used m"
    using exists_least_iff [of "\<lambda>i. i \<in> id_range m fl \<and> i \<notin> used m"] by blast
  have lt: "i < unat (nr_ids m)"
    using i(1) assms(3) by (auto simp: id_range_def word_le_nat_alt split: if_splits)
  obtain b where b: "find_free_id m fl = Some (0, of_nat i, m\<lparr>bmap := Some b\<rparr>)"
    "used (m\<lparr>bmap := Some b\<rparr>) = insert i (used m)" "idmap_ok (m\<lparr>bmap := Some b\<rparr>)"
    using find_free_id_found [OF assms(1) i(1) lt i(2)] least assms(3) by blast
  from lt assms(1) have z: "0 \<in> used m"
    using zero_used by (auto simp: idmap_ok_def split: option.splits)
  have "id_allocated m fl i (m\<lparr>bmap := Some b\<rparr>)"
    using i least b z lt assms(2)
    by (cases "i = 0") (auto simp: id_allocated_def id_kind_def id_range_def split: if_splits)
  with b show ?thesis by (subst get_id_loop.simps) auto
qed

lemma get_id_loop_ok:
  assumes ok: "idmap_ok m" and km: "\<And>n. km n" and nr: "unat (nr_ids m) < 2 ^ 62"
    and resv: "unat (reserved_ids m) < unat (nr_ids m) + 1024"
    and free: "\<exists>i \<in> id_kind m fl. i \<notin> insert 0 (used m)"
  shows "\<exists>i m'. get_id_loop km m fl = Some (0, of_nat i, m') \<and> id_allocated m fl i m' \<and>
    ref_count m' = ref_count m"
proof (cases "(fl AND ID_BITMAP_SYSTEM \<noteq> 0 \<longrightarrow> reserved_ids m \<le> nr_ids m) \<and>
    (\<exists>i \<in> id_range m fl. i \<notin> used m)")
  case True
  with ok nr show ?thesis by (intro get_id_loop_found) auto
next
  case False
  let ?new = "nr_ids m + 1024"
  have new: "unat ?new = unat (nr_ids m) + 1024" using nr by (simp add: unat_word_ariths)
  have none: "find_free_id m fl = Some (- ENOENT, 0, m)"
    using False ok by (intro find_free_id_none) (auto simp: not_le)
  have entries: "64 * unat (max_array_idx m) < unat (nr_ids m) + 64"
    using ok by (auto simp: idmap_ok_def split: option.splits)
  let ?grown = "\<lambda>b. m\<lparr>bmap := Some b, max_array_idx := (?new + 63) div 64, nr_ids := ?new\<rparr>"
  obtain b where r: "resize_bitmap km m ?new = Some (0, ?grown b)"
    and u: "used (?grown b) = insert 0 (used m)" and ok': "idmap_ok (?grown b)"
  proof (rule resize_grow [of m km ?new])
    show "reserved_ids m < ?new" using new resv by (simp add: word_less_nat_alt)
    show "unat ?new + 63 < 2 ^ 64" using new nr by simp
    show "unat (max_array_idx m) < (unat ?new + 63) div 64" using new entries by simp
  qed (use ok km in auto)
  define m2 where "m2 = ?grown b"
  note r = r [folded m2_def] and u = u [folded m2_def] and ok' = ok' [folded m2_def]
  have m2: "reserved_ids m2 = reserved_ids m" "nr_ids m2 = ?new" "ref_count m2 = ref_count m"
    by (simp_all add: m2_def)
  have kind: "id_kind m2 fl = id_kind m fl" by (simp add: id_kind_def m2)
  have "\<exists>i \<in> id_range m2 fl. i \<notin> used m2"
  proof (cases "fl AND ID_BITMAP_SYSTEM \<noteq> 0")
    case True
    with free show ?thesis by (simp add: u id_range_def id_kind_def m2)
  next
    case False
    let ?i = "max 1 (max (unat (reserved_ids m)) (64 * unat (max_array_idx m)))"
    have "?i \<notin> used m"
      using ok used_bound [of ?i m] by (auto simp: idmap_ok_def used_def split: option.splits)
    then have "?i \<notin> used m2" by (auto simp: u)
    moreover have "?i \<in> id_range m2 fl"
      using False new resv entries by (auto simp: id_range_def m2)
    ultimately show ?thesis by blast
  qed
  then obtain i m' where "get_id_loop km m2 fl = Some (0, of_nat i, m')" "id_allocated m2 fl i m'"
    "ref_count m' = ref_count m2"
    using get_id_loop_found [OF ok', of fl km] new nr resv by (auto simp: word_le_nat_alt m2)
  moreover from this(2) have "id_allocated m fl i m'"
    using kind by (simp add: id_allocated_def u m2 insert_commute)
  ultimately show ?thesis using none r m2 by (subst get_id_loop.simps) auto
qed


subsection \<open>References\<close>

lemma used_card_bound:
  assumes "idmap_ok m"
  shows "card (used m) < unat (nr_ids m) + 64"
proof (cases "bmap m")
  case None
  then show ?thesis by (simp add: used_def)
next
  case (Some b)
  have "used m \<subseteq> {..<64 * length b}" using used_bound [OF _ Some] by auto
  then have "card (used m) \<le> 64 * length b" using card_mono [of "{..<64 * length b}"] by simp
  with assms Some show ?thesis by (simp add: idmap_ok_def)
qed

lemma idmap_refs_get:
  assumes "idmap_ref_ok m" and "\<not> deleted (ref_count m)"
    and "used m' = insert 0 (insert i (used m))" and "i \<notin> used m" and "i \<noteq> 0"
    and "ref_count m' = (ref_count m)\<lparr>counter := counter (ref_count m) + 1\<rparr>"
    and "idmap_refs m + 1 < 2 ^ 63"
  shows "idmap_ref_ok m'"
proof -
  have "used m' - {0} = insert i (used m - {0})" using assms(3,5) by auto
  then have "idmap_refs m' = idmap_refs m + 1" using assms(2,4,6) by (simp add: idmap_refs_def)
  with assms(1,6,7) show ?thesis by (simp add: idmap_ref_ok_def)
qed

lemma put_idbmap_ref_alive:
  assumes "counter (ref_count m) = of_nat n" and "0 < n" and "n < 2 ^ 63"
    and "n \<noteq> 1 \<or> \<not> deleted (ref_count m)"
  shows "put_idbmap_ref m =
    Some (Alive (m\<lparr>ref_count := (ref_count m)\<lparr>counter := of_nat (n - 1)\<rparr>\<rparr>))"
proof -
  have "counter (ref_count m) = 1 \<longleftrightarrow> n = 1"
  proof
    assume "counter (ref_count m) = 1"
    then have "unat (of_nat n :: u64) = 1" using assms(1) by simp
    then show "n = 1" using assms(3) by (simp add: unat_of_nat)
  qed (use assms(1) in simp)
  with assms show ?thesis
    by (auto simp: put_idbmap_ref_def refcnt_put_eq sint_of_nat_64 of_nat_diff)
qed

lemma put_idbmap_ref_last:
  assumes "counter (ref_count m) = 1" and "deleted (ref_count m)" and "idmap_ok m"
    and "used m \<subseteq> {0}"
  shows "put_idbmap_ref m = Some Freed"
proof -
  let ?m = "m\<lparr>ref_count := (ref_count m)\<lparr>counter := 0\<rparr>\<rparr>"
  have "\<exists>m2. free_map_in_idmap ?m = Some (0, m2)"
  proof (cases "bmap m")
    case None
    with assms(3) show ?thesis
      by (simp add: free_map_in_idmap_def release_invalid_ids_def idmap_ok_def)
  next
    case (Some b)
    let ?b = "b[0 := b ! 0 AND NOT 1]"
    have len: "length b = unat (max_array_idx m)" "b \<noteq> []"
      using assms(3) Some by (auto simp: idmap_ok_def)
    then have get0: "0 < unat (max_array_idx m)" by (metis length_greater_0_conv)
    have "?b ! j = 0" if "j < length b" for j
    proof (rule bit_eqI)
      fix k
      assume "possible_bit TYPE(64 word) k"
      then have "64 * j + k \<in> used m \<longleftrightarrow> bit (b ! j) k" using that by (simp add: used_Some [OF Some])
      with assms(4) that len(2) show "bit (?b ! j) k = bit 0 k"
        by (auto simp: nth_list_update bit_and_minus_2)
    qed
    then have "ids_in_use ?b 0 (unat (max_array_idx m)) = Some False"
      using len by (simp add: ids_in_use_eq)
    with Some len get0 show ?thesis by (simp add: free_map_in_idmap_def release_invalid_ids_def)
  qed
  with assms(1,2) show ?thesis by (auto simp: put_idbmap_ref_def refcnt_put_eq)
qed

lemma put_id_bits:
  assumes "idmap_ok m" and "unat i \<in> used m" and "i \<noteq> 0"
  obtains b where "idbmap_put_id m i = put_idbmap_ref (m\<lparr>bmap := Some b\<rparr>)"
    and "used (m\<lparr>bmap := Some b\<rparr>) = used m - {unat i}" and "idmap_ok (m\<lparr>bmap := Some b\<rparr>)"
proof -
  from assms(2) obtain b where b: "bmap m = Some b" by (auto simp: used_def split: option.splits)
  let ?k = "unat i div 64" and ?p = "unat i mod 64"
  have k: "?k < length b" "bit (b ! ?k) ?p" using assms(2) by (auto simp: used_Some [OF b])
  let ?b = "b[?k := b ! ?k AND NOT (push_bit ?p 1)]"
  have nz: "unat i \<noteq> 0" using assms(3) by (simp add: unat_eq_zero)
  have "idbmap_put_id m i = put_idbmap_ref (m\<lparr>bmap := Some ?b\<rparr>)"
    using b k by (simp add: idbmap_put_id_def unat_div unat_mod)
  moreover have "used (m\<lparr>bmap := Some ?b\<rparr>) = used m - {unat i}" using b k(1) by (rule used_clear)
  moreover have "idmap_ok (m\<lparr>bmap := Some ?b\<rparr>)"
    using assms(1) b k nz div_mod_inj [of "unat i" 64 0]
    by (auto simp: idmap_ok_def nth_list_update bit_and_not_push)
  ultimately show thesis by (rule that)
qed


subsection \<open>Properties\<close>

lemma idbmap_get_id_ok:
  assumes "idmap_ok m" and "idmap_ref_ok m" and "\<not> deleted (ref_count m)"
    and "\<And>n. km n" and "unat (nr_ids m) < 2 ^ 62"
    and "unat (reserved_ids m) < unat (nr_ids m) + 1024"
    and "\<exists>i \<in> id_kind m fl. i \<notin> insert 0 (used m)"
  shows "\<exists>i m'. idbmap_get_id km m fl = Some (0, of_nat i, Alive m') \<and>
    id_allocated m fl i m' \<and> idmap_ref_ok m' \<and> \<not> deleted (ref_count m')"
proof -
  let ?r = "(ref_count m)\<lparr>counter := counter (ref_count m) + 1\<rparr>"
  let ?m = "m\<lparr>ref_count := ?r\<rparr>"
  have k: "id_kind ?m fl = id_kind m fl" by (simp add: id_kind_def)
  obtain i m' where l: "get_id_loop km ?m fl = Some (0, of_nat i, m')"
    and a: "id_allocated ?m fl i m'" and r: "ref_count m' = ?r"
    using get_id_loop_ok [of ?m km fl] assms k by auto
  from a have a': "id_allocated m fl i m'" by (simp add: id_allocated_def k)
  have "card (used m - {0}) \<le> card (used m)" by (simp add: card_mono)
  then have "idmap_refs m + 1 < 2 ^ 63"
    using used_card_bound [OF assms(1)] assms(5) by (simp add: idmap_refs_def split: if_splits)
  with a' r assms(2,3) have "idmap_ref_ok m'"
    by (intro idmap_refs_get [of m m' i]) (auto simp: id_allocated_def)
  with l a' r assms(3) show ?thesis
    by (auto simp: idbmap_get_id_def get_idbmap_ref_live)
qed

text \<open>
  Claim C39. \<open>idbmap_get_id\<close> on a well-formed map that is not being destroyed, with memory
  available, returns the lowest free id of the requested kind (growing the map when its
  range is full): an id that nobody holds, never the invalid id 0, a system id below
  \<open>reserved_ids\<close> or a user id from there on.  Exactly that id (and the invalid id 0) is
  added to the ids in use, and the count of references stays the number of holders.
\<close>

theorem idbmap_get_id_lowest_free:
  assumes "idmap_ok m" and "idmap_ref_ok m" and "\<not> deleted (ref_count m)"
    and "\<And>n. km n" and "unat (nr_ids m) < 2 ^ 62"
    and "unat (reserved_ids m) < unat (nr_ids m) + 1024"
    and "\<exists>i \<in> id_kind m fl. i \<notin> insert 0 (used m)"
  shows "\<exists>i m'. idbmap_get_id km m fl = Some (0, of_nat i, Alive m') \<and>
    id_allocated m fl i m' \<and> idmap_ref_ok m'"
  using idbmap_get_id_ok [of m km fl] assms by blast

theorem idbmap_get_id_lowest_free_witness:
  "\<exists>i m'. idbmap_get_id (\<lambda>n. True) (idbmap_init ID_BITMAP_DEFAULT_RESV_IDS) ID_BITMAP_USER
       = Some (0, of_nat i, Alive m') \<and>
     id_allocated (idbmap_init ID_BITMAP_DEFAULT_RESV_IDS) ID_BITMAP_USER i m' \<and> idmap_ref_ok m'"
proof (rule idbmap_get_id_lowest_free)
  show "\<exists>i \<in> id_kind (idbmap_init ID_BITMAP_DEFAULT_RESV_IDS) ID_BITMAP_USER.
      i \<notin> insert 0 (used (idbmap_init ID_BITMAP_DEFAULT_RESV_IDS))"
    by (rule bexI [of _ 255])
      (simp_all add: id_kind_def used_def idbmap_init_def init_idbmap_common_def)
qed (simp_all add: idbmap_init_def init_idbmap_common_def idmap_ok_def idmap_ref_ok_def
    idmap_refs_def used_def refcnt_init_def)

text \<open>
  Returning an id that is in use releases exactly that id.  The bitmap object is
  freed by this call if and only if it was destroyed earlier and this was the last id in
  use; otherwise it stays well formed and the reference count is again the number of
  holders.
\<close>

theorem idbmap_put_id_releases:
  assumes "idmap_ok m" and "idmap_ref_ok m" and "unat i \<in> used m" and "i \<noteq> 0"
  shows "if deleted (ref_count m) \<and> used m \<subseteq> {0, unat i}
    then idbmap_put_id m i = Some Freed
    else \<exists>m'. idbmap_put_id m i = Some (Alive m') \<and> used m' = used m - {unat i} \<and>
      idmap_ok m' \<and> idmap_ref_ok m' \<and> deleted (ref_count m') = deleted (ref_count m)"
proof -
  obtain b where p: "idbmap_put_id m i = put_idbmap_ref (m\<lparr>bmap := Some b\<rparr>)"
    and u: "used (m\<lparr>bmap := Some b\<rparr>) = used m - {unat i}" and ok: "idmap_ok (m\<lparr>bmap := Some b\<rparr>)"
    using put_id_bits [OF assms(1,3,4)] .
  define m1 where "m1 = m\<lparr>bmap := Some b\<rparr>"
  note u = u [folded m1_def] and ok = ok [folded m1_def] and p = p [folded m1_def]
  have rc: "ref_count m1 = ref_count m" by (simp add: m1_def)
  let ?n = "idmap_refs m"
  have nz: "unat i \<noteq> 0" using assms(4) by (simp add: unat_eq_zero)
  then have "used m - {0} = insert (unat i) (used m1 - {0})" unfolding u using assms(3) by auto
  moreover have "unat i \<notin> used m1 - {0}" by (simp add: u)
  ultimately have n: "?n = idmap_refs m1 + 1" using rc by (simp add: idmap_refs_def)
  have cnt: "counter (ref_count m1) = of_nat ?n" "?n < 2 ^ 63"
    using assms(2) rc by (simp_all add: idmap_ref_ok_def)
  show ?thesis
  proof (cases "deleted (ref_count m) \<and> used m \<subseteq> {0, unat i}")
    case True
    then have e: "used m1 \<subseteq> {0}" using u by auto
    then have "used m1 - {0} = {}" by blast
    with n True rc have "?n = 1" by (simp add: idmap_refs_def)
    with True e cnt(1) have "put_idbmap_ref m1 = Some Freed"
      by (intro put_idbmap_ref_last) (simp_all add: rc ok)
    with True p show ?thesis by simp
  next
    case False
    have "?n \<noteq> 1 \<or> \<not> deleted (ref_count m1)"
    proof (rule disjCI)
      assume d: "\<not> \<not> deleted (ref_count m1)"
      with False u rc have "used m1 - {0} \<noteq> {}" by auto
      then have "card (used m1 - {0}) \<noteq> 0" by simp
      with d n show "?n \<noteq> 1" by (simp add: idmap_refs_def)
    qed
    with cnt n have "put_idbmap_ref m1 =
        Some (Alive (m1\<lparr>ref_count := (ref_count m1)\<lparr>counter := of_nat (?n - 1)\<rparr>\<rparr>))"
      by (intro put_idbmap_ref_alive) auto
    moreover have "idmap_ref_ok (m1\<lparr>ref_count := (ref_count m1)\<lparr>counter := of_nat (?n - 1)\<rparr>\<rparr>)"
      using n cnt(2) by (simp add: idmap_ref_ok_def idmap_refs_def)
    ultimately show ?thesis using False p u ok rc by auto
  qed
qed

theorem idbmap_put_id_releases_witness:
  "idbmap_put_id \<lparr>ref_count = \<lparr>counter = 1, deleted = True\<rparr>, reserved_ids = 4, nr_ids = 64,
      max_array_idx = 1, bmap = Some [0x21]\<rparr> 5 = Some Freed"
proof -
  let ?m = "\<lparr>ref_count = \<lparr>counter = 1, deleted = True\<rparr>, reserved_ids = 4, nr_ids = 64,
      max_array_idx = 1, bmap = Some [0x21]\<rparr>"
  have "i \<in> used ?m \<longleftrightarrow> i = 0 \<or> i = 5" for i
  proof -
    have "bit (0x21 :: u64) j = bit (2 ^ 5 OR 1 :: u64) j" for j by simp
    also have "bit (2 ^ 5 OR 1 :: u64) j \<longleftrightarrow> j = 5 \<or> j = 0" for j
      by (simp only: bit_or_iff bit_exp_iff bit_1_iff) auto
    finally have bit: "bit (0x21 :: u64) j \<longleftrightarrow> j = 5 \<or> j = 0" for j .
    have "i \<in> used ?m \<longleftrightarrow> i < 64 \<and> bit (0x21 :: u64) i"
      by (cases "i < 64") (simp_all add: used_def div_greater_zero_iff)
    then show ?thesis by (simp only: bit) linarith
  qed
  then have u: "used ?m = {0, 5}" by auto
  have "idmap_ok ?m" by (simp add: idmap_ok_def)
  moreover have "idmap_ref_ok ?m" using u by (simp add: idmap_ref_ok_def idmap_refs_def)
  ultimately show ?thesis
    using idbmap_put_id_releases [of ?m 5] u by simp
qed

text \<open>
  \<open>resize_bitmap\<close> copies the old map only when the number of map entries
  changes.  Resizing a well-formed map to a size with the same number of entries installs
  a zeroed map: every id in use except the invalid id 0 is forgotten, although its holder
  still has it.
\<close>

theorem resize_same_entries_forgets:
  assumes "idmap_ok m" and "bmap m = Some b" and "\<And>n. km n"
    and "reserved_ids m < new_ids" and "unat new_ids + 63 < 2 ^ 64"
    and "(unat new_ids + 63) div 64 = length b"
  shows "\<exists>m'. resize_bitmap km m new_ids = Some (0, m') \<and> used m' = {0}"
proof -
  let ?b = "(replicate (length b) 0)[0 := (1 :: u64)]"
  let ?m = "m\<lparr>bmap := Some ?b, max_array_idx := (new_ids + 63) div 64, nr_ids := new_ids\<rparr>"
  have len: "length b = unat (max_array_idx m)" "b \<noteq> []" using assms(1,2) by (auto simp: idmap_ok_def)
  then have get0: "0 < unat (max_array_idx m)" by (metis length_greater_0_conv)
  have x: "unat ((new_ids + 63) div 64) = length b" using new_idx_unat [OF assms(5)] assms(6) by simp
  then have eq: "(new_ids + 63) div 64 = max_array_idx m" using len(1) by (metis word_unat_eq_iff)
  have pos: "new_ids \<noteq> 0" using assms(4) by auto
  have "resize_bitmap km m new_ids = Some (0, ?m)"
    using assms(3,4) pos x eq len get0
    by (simp add: resize_bitmap_def Let_def not_le reserve_invalid_ids_def)
  moreover have "used ?m = {0}"
    using len(2) by (auto simp: used_def nth_list_update bit_1_iff split: if_splits dest: div_mod_inj [of _ 64 0])
  ultimately show ?thesis by blast
qed

theorem resize_same_entries_forgets_witness:
  "\<exists>m'. resize_bitmap (\<lambda>n. True) \<lparr>ref_count = refcnt_init, reserved_ids = 4, nr_ids = 64,
      max_array_idx = 1, bmap = Some [0x21]\<rparr> 60 = Some (0, m') \<and> used m' = {0}"
  by (rule resize_same_entries_forgets [where b = "[0x21]"]) (simp_all add: idmap_ok_def)

end
