(* ===== verification/Thread.thy ===== *)
theory Thread
  imports Lpc Id_Bitmap
begin

text \<open>
  The life of threads, \<^verbatim>\<open>src/thr/thread.c\<close> and \<^verbatim>\<open>src/thr/thread-reaper.c\<close>, and the start and end of
  processes, \<open>proc_start\<close> and \<open>proc_destroy\<close> of \<^verbatim>\<open>src/proc/proc.c\<close>.

  A thread is allocated and free, then created and dormant, then started; it ends by \<open>thr_exit\<close>, waits there for its parent if
  it is joinable, leaves the tables of the kernel and is destroyed by the reaper thread.  The tree of created threads maps an id to
  its thread; the list node by which a thread hangs on its parent is in at most one list, so unlinking it takes the thread
  out of every list of children.  The address space of a process is released by \<open>vm_destroy\<close> of theory \<open>Vm\<close>, which works
  on memory that the threads do not share: here the process is noted in \<open>dead_vms\<close>.  \<open>kmalloc\<close> and the allocation of
  the kernel stack are parameters; the entry point and the register context of a thread, which only the
  assembly code reads, are left out.

  As before, an operation that waits is split at its context switch.  The locks of the creation functions, under which no
  thread is woken, are left out.
\<close>

section \<open>State\<close>

datatype proc_state = PROC_PSTATE_DORMANT | PROC_PSTATE_ACTIVE | PROC_PSTATE_EXIT

record thread_ext =
  ptid :: u64
  thr_flags :: u32
  exit_code :: int
  children :: "nat list"
  exit_waiters :: "nat list"
  ksp :: nat

record thread_kernel = lpc_kernel +
  thr_ext :: "nat \<Rightarrow> thread_ext"
  thr_free_queue :: thread_queue
  thr_dormant_queue :: thread_queue
  thr_idpool :: id_bitmap
  children_wait :: "nat \<Rightarrow> nat"
  parent_wait :: "nat \<Rightarrow> nat"
  reaper_tq :: thread_queue
  reaper_wai :: nat
  live_threads :: "nat set"
  live_stacks :: "nat set"
  p_status :: "nat \<Rightarrow> proc_state"
  p_pid :: "nat \<Rightarrow> u64"
  proc_active_dic :: "u64 \<Rightarrow> nat option"
  proc_dormant_dic :: "u64 \<Rightarrow> nat option"
  dead_vms :: "nat list"

abbreviation (input) THR_FLAG_JOINABLE :: u32 where "THR_FLAG_JOINABLE \<equiv> 1"
abbreviation (input) THR_WAIT_PROC :: u32 where "THR_WAIT_PROC \<equiv> 1"
abbreviation (input) THR_WAIT_ID :: u32 where "THR_WAIT_ID \<equiv> 4"
abbreviation (input) THR_WAIT_NONBLOCK :: u32 where "THR_WAIT_NONBLOCK \<equiv> 16"
abbreviation (input) THR_DEFAULT_SLICE :: u32 where "THR_DEFAULT_SLICE \<equiv> 21"
abbreviation (input) THR_NIN_SLICE :: u32 where "THR_NIN_SLICE \<equiv> 1"
abbreviation (input) THR_MAX_USER_PRIO :: nat where "THR_MAX_USER_PRIO \<equiv> 16"

definition joinable :: "'a thread_kernel_scheme \<Rightarrow> nat \<Rightarrow> bool" where
  "joinable s t \<longleftrightarrow> thr_flags (thr_ext s t) AND THR_FLAG_JOINABLE \<noteq> 0"

definition upd_ext :: "'a thread_kernel_scheme \<Rightarrow> nat \<Rightarrow> (thread_ext \<Rightarrow> thread_ext) \<Rightarrow> 'a thread_kernel_scheme" where
  "upd_ext s t f = s\<lparr>thr_ext := (thr_ext s)(t := f (thr_ext s t))\<rparr>"

definition clr_joinable :: "'a thread_kernel_scheme \<Rightarrow> nat \<Rightarrow> 'a thread_kernel_scheme" where
  "clr_joinable s t = upd_ext s t (thr_flags_update (\<lambda>fl. fl AND NOT THR_FLAG_JOINABLE))"

text \<open>\<^verbatim>\<open>list_del( &thr->parent_link )\<close>.\<close>

definition unlink_child :: "'a thread_kernel_scheme \<Rightarrow> nat \<Rightarrow> 'a thread_kernel_scheme" where
  "unlink_child s t = s\<lparr>thr_ext := \<lambda>p. (thr_ext s p)\<lparr>children := remove1 t (children (thr_ext s p)),
     exit_waiters := remove1 t (exit_waiters (thr_ext s p))\<rparr>\<rparr>"

text \<open>The node \<^verbatim>\<open>link\<close> of a thread is in one of the queues of threads or in none.\<close>

definition thr_linked :: "'a thread_kernel_scheme \<Rightarrow> nat \<Rightarrow> bool" where
  "thr_linked s t \<longleftrightarrow> t \<in> set (tq_que (thr_free_queue s)) \<or> t \<in> set (tq_que (thr_dormant_queue s)) \<or> t \<in> set (tq_que (reaper_tq s)) \<or>
     list_ex (\<lambda>q. t \<in> set (tq_que q)) (ready_queues s)"

section \<open>Creation\<close>

definition zero_ti :: thread_info where
  "zero_ti = \<lparr>ti_magic = 0, intrcnt = 0, preempt = 0, ti_flags = 0, arch_flags = 0, ti_thr = 0, ti_cpu = 0\<rparr>"

definition thread_resource_init :: thread_resource where
  "thread_resource_init = \<lparr>gen = 0, sys_time = 0, user_time = 0, children_sys_time = 0, children_user_time = 0\<rparr>"

definition thr_init_kthread_params :: "'a thread_kernel_scheme \<Rightarrow> nat \<Rightarrow> 'a thread_kernel_scheme option" where
  "thr_init_kthread_params s t = do {
     let s = upd_thread s t (tid_update (\<lambda>_. THR_INVALID_TID));
     o1 \<leftarrow> sync_init_object SYNC_WAKE_FLAG_ALL THR_TSTATE_WAIT;
     o2 \<leftarrow> sync_init_object SYNC_WAKE_FLAG_ALL THR_TSTATE_WAIT;
     let s = s\<lparr>sync_objs := (sync_objs s)(children_wait s t := o1, parent_wait s t := o2)\<rparr>;
     let s = upd_ext s t (\<lambda>e. e\<lparr>children := [], exit_waiters := []\<rparr>);
     let s = s\<lparr>thr_resource := (thr_resource s)(t := thread_resource_init)\<rparr>;
     s \<leftarrow> lpc_msg_queue_init s t;
     let s = upd_thread s t (\<lambda>r. r\<lparr>evque := ev_queue_init, thr_p := kernel_proc s\<rparr>);
     let s = upd_proc s (kernel_proc s) (p_threads_update (\<lambda>ts. ts @ [t]));
     let s = upd_thread s t (\<lambda>r. r\<lparr>slice := THR_DEFAULT_SLICE, cur_slice := THR_DEFAULT_SLICE\<rparr>);
     kassert (THR_NIN_SLICE \<le> slice (threads s t));
     Some (upd_ext s t (exit_code_update (\<lambda>_. 0)))
   }"

text \<open>
  The arguments \<open>thrp\<close> and \<open>sp\<close> are what \<open>kmalloc\<close> and \<open>alloc_buddy_pages\<close> give for the thread and its
  stack, the latter with the error number when there is none.
\<close>

definition thr_new_thread :: "'a thread_kernel_scheme \<Rightarrow> nat option \<Rightarrow> int + nat \<Rightarrow> ((int + nat) \<times> 'a thread_kernel_scheme) option" where
  "thr_new_thread s thrp sp = (case thrp of
      None \<Rightarrow> Some (Inl (- ENOMEM), s)
    | Some t \<Rightarrow> do {
        let s = s\<lparr>live_threads := insert t (live_threads s)\<rparr>;
        let s = upd_thread s t (\<lambda>r. r\<lparr>status := THR_TSTATE_FREE, prio := 0, thr_type := THR_TYPE_NONE\<rparr>);
        let s = upd_ext s t (\<lambda>e. e\<lparr>ptid := 0, thr_flags := 0\<rparr>);
        s \<leftarrow> thr_init_kthread_params s t;
        case sp of
          Inl rc \<Rightarrow> Some (Inl rc, s\<lparr>live_threads := live_threads s - {t}\<rparr>)
        | Inr stk \<Rightarrow> do {
            let s = (upd_ext s t (ksp_update (\<lambda>_. stk)))\<lparr>live_stacks := insert stk (live_stacks s)\<rparr>;
            let s = upd_thread s t (thr_ti_update (\<lambda>_. ti_set_ti_with_thread 0 zero_ti t));
            let s = upd_thread s t (\<lambda>r. r\<lparr>thr_type := THR_TYPE_NONE, status := THR_TSTATE_FREE\<rparr>);
            let s = s\<lparr>thr_free_queue := snd (tq_add (thr_free_queue s) t)\<rparr>;
            Some (Inr t, s)
          }
      })"

text \<open>The node is unlinked from the free queue without \<open>tq_del\<close>, so the count of the queue stays as it was.\<close>

definition create_thread_common :: "'a thread_kernel_scheme \<Rightarrow> nat \<Rightarrow> u32 \<Rightarrow> 'a thread_kernel_scheme option" where
  "create_thread_common s t pr = do {
     kassert (unat (prio (threads s t)) < THR_MAX_PRIO);
     kassert (thr_type (threads s t) = THR_TYPE_NONE);
     kassert (status (threads s t) = THR_TSTATE_FREE);
     let s = s\<lparr>thr_free_queue := (thr_free_queue s)\<lparr>tq_que := remove1 t (tq_que (thr_free_queue s))\<rparr>\<rparr>;
     let s = upd_thread s t (prio_update (\<lambda>_. pr));
     let s = s\<lparr>thr_dormant_queue := snd (tq_add (thr_dormant_queue s) t)\<rparr>;
     Some (upd_thread s t (status_update (\<lambda>_. THR_TSTATE_DORMANT)))
   }"

text \<open>\<^verbatim>\<open>RB_INSERT\<close> into the tree of created threads, which has to succeed.\<close>

definition insert_thread :: "'a thread_kernel_scheme \<Rightarrow> nat \<Rightarrow> 'a thread_kernel_scheme option" where
  "insert_thread s t = do {
     kassert (thr_created_tree s (tid (threads s t)) = None);
     Some (s\<lparr>thr_created_tree := (thr_created_tree s)(tid (threads s t) \<mapsto> t)\<rparr>)
   }"

text \<open>\<^verbatim>\<open>RB_REMOVE\<close> of a thread that is in the tree.\<close>

definition remove_thread :: "'a thread_kernel_scheme \<Rightarrow> nat \<Rightarrow> 'a thread_kernel_scheme option" where
  "remove_thread s t = do {
     kassert (thr_created_tree s (tid (threads s t)) = Some t);
     Some (s\<lparr>thr_created_tree := (thr_created_tree s)(tid (threads s t) := None)\<rparr>)
   }"

fun alive :: "'b life \<Rightarrow> 'b option" where
  "alive (Alive m) = Some m"
| "alive Freed = None"

definition thr_create_kthread :: "kmalloc \<Rightarrow> 'a thread_kernel_scheme \<Rightarrow> nat \<Rightarrow> u32 \<Rightarrow> u32 \<Rightarrow> u64 \<Rightarrow> (int \<times> 'a thread_kernel_scheme) option" where
  "thr_create_kthread km s t pr fl newid = do {
     kassert (unat (prio (threads s t)) < THR_MAX_PRIO);
     s \<leftarrow> create_thread_common s t pr;
     (rc, i, l) \<leftarrow> (if newid = THR_INVALID_TID then idbmap_get_id km (thr_idpool s) ID_BITMAP_SYSTEM
        else do { (rc, l) \<leftarrow> idbmap_get_specified_id km (thr_idpool s) newid ID_BITMAP_SYSTEM; Some (rc, newid, l) });
     m \<leftarrow> alive l;
     let s = upd_thread (s\<lparr>thr_idpool := m\<rparr>) t (tid_update (\<lambda>_. i));
     kassert (rc = 0);
     let s = upd_ext s t (thr_flags_update (\<lambda>_. fl));
     s \<leftarrow> insert_thread s t;
     let s = upd_thread s t (thr_type_update (\<lambda>_. THR_TYPE_KERNEL));
     mk \<leftarrow> ev_mask_fill (masks (evque (threads s t)));
     Some (0, upd_thread s t (evque_update (\<lambda>q. q\<lparr>masks := mk\<rparr>)))
   }"

definition thr_create_uthread :: "kmalloc \<Rightarrow> 'a thread_kernel_scheme \<Rightarrow> nat \<Rightarrow> u32 \<Rightarrow> u32 \<Rightarrow> nat \<Rightarrow> (int \<times> 'a thread_kernel_scheme) option" where
  "thr_create_uthread km s t pr fl p = do {
     kassert (unat (prio (threads s t)) < THR_MAX_USER_PRIO);
     kassert (p \<noteq> kernel_proc s);
     if p_status s p = PROC_PSTATE_EXIT then Some (- ENOENT, s)
     else do {
       s \<leftarrow> create_thread_common s t pr;
       (rc, i, l) \<leftarrow> idbmap_get_id km (thr_idpool s) ID_BITMAP_USER;
       m \<leftarrow> alive l;
       let s = upd_thread (s\<lparr>thr_idpool := m\<rparr>) t (tid_update (\<lambda>_. i));
       kassert (rc = 0);
       let s = upd_ext s t (thr_flags_update (\<lambda>_. fl));
       s \<leftarrow> insert_thread s t;
       let s = upd_thread s t (thr_type_update (\<lambda>_. THR_TYPE_USER));
       let s = upd_proc s (thr_p (threads s t)) (p_threads_update (remove1 t));
       let s = upd_proc s p (p_threads_update (\<lambda>ts. ts @ [t]));
       Some (0, upd_thread s t (thr_p_update (\<lambda>_. p)))
     }
   }"

section \<open>Starting\<close>

definition thr_start :: "'a thread_kernel_scheme \<Rightarrow> nat \<Rightarrow> u64 \<Rightarrow> (int \<times> 'a thread_kernel_scheme) option" where
  "thr_start s t par =
     (if status (threads s t) \<noteq> THR_TSTATE_DORMANT then Some (- EINVAL, s)
      else do {
        s \<leftarrow> lock_enter s;
        s \<leftarrow> (case thr_find_thread_by_tid_nolock s par of
                None \<Rightarrow> Some (clr_joinable s t)
              | Some pthr \<Rightarrow>
                  if thr_p (threads s pthr) = kernel_proc s then Some (clr_joinable s t)
                  else do {
                    s \<leftarrow> lock_enter s;
                    let s = upd_ext s pthr (children_update (\<lambda>c. c @ [t]));
                    let s = upd_ext s t (ptid_update (\<lambda>_. par));
                    let s = upd_thread s t (evque_update (\<lambda>q. q\<lparr>masks := masks (evque (threads s pthr))\<rparr>));
                    lock_leave s
                  });
        s \<leftarrow> lock_leave s;
        s \<leftarrow> lock_enter s;
        let s = s\<lparr>thr_dormant_queue := snd (tq_del (thr_dormant_queue s) t)\<rparr>;
        s \<leftarrow> lock_leave s;
        s \<leftarrow> sched_wakeup s t;
        s \<leftarrow> (if \<not> ti_dispatch_disabled (thr_ti (threads s (current s))) then sched_schedule s else Some s);
        Some (0, s)
      })"

section \<open>Processes\<close>

definition proc_start :: "'a thread_kernel_scheme \<Rightarrow> nat \<Rightarrow> (int \<times> 'a thread_kernel_scheme) option" where
  "proc_start s p =
     (if p_status s p \<noteq> PROC_PSTATE_DORMANT then Some (- EBUSY, s)
      else do {
        s \<leftarrow> lock_enter s;
        kassert (proc_dormant_dic s (p_pid s p) = Some p);
        let s = s\<lparr>proc_dormant_dic := (proc_dormant_dic s)(p_pid s p := None)\<rparr>;
        s \<leftarrow> lock_leave s;
        s \<leftarrow> lock_enter s;
        kassert (proc_active_dic s (p_pid s p) = None);
        let s = s\<lparr>proc_active_dic := (proc_active_dic s)(p_pid s p \<mapsto> p)\<rparr>;
        s \<leftarrow> lock_leave s;
        let s = s\<lparr>p_status := (p_status s)(p := PROC_PSTATE_ACTIVE)\<rparr>;
        thr_start s (p_master (procs s p)) (tid (threads s (current s)))
      })"

definition proc_destroy :: "'a thread_kernel_scheme \<Rightarrow> nat \<Rightarrow> (int \<times> 'a thread_kernel_scheme) option" where
  "proc_destroy s p = do {
     s \<leftarrow> lock_enter s;
     if p_threads (procs s p) \<noteq> [] then do {
       s \<leftarrow> lock_leave s;
       Some (- EBUSY, s)
     } else do {
       s \<leftarrow> (if p_status s p = PROC_PSTATE_ACTIVE then do {
              s \<leftarrow> lock_enter s;
              kassert (proc_active_dic s (p_pid s p) = Some p);
              lock_leave (s\<lparr>proc_active_dic := (proc_active_dic s)(p_pid s p := None)\<rparr>)
            } else if p_status s p = PROC_PSTATE_DORMANT then do {
              s \<leftarrow> lock_enter s;
              kassert (proc_dormant_dic s (p_pid s p) = Some p);
              lock_leave (s\<lparr>proc_dormant_dic := (proc_dormant_dic s)(p_pid s p := None)\<rparr>)
            } else Some s);
       let s = s\<lparr>p_status := (p_status s)(p := PROC_PSTATE_EXIT)\<rparr>;
       let s = upd_proc s p (p_evque_update (\<lambda>q. snd (ev_free_pending_events q)));
       let s = s\<lparr>dead_vms := dead_vms s @ [p]\<rparr>;
       s \<leftarrow> lock_leave s;
       Some (0, s)
     }
   }"

section \<open>The end of a thread\<close>

text \<open>
  \<open>sync_wake\<close> as a thread that has exited performs it: when the release of its lock dispatches, it does not come back.
\<close>

definition sync_wake_exited :: "'a sync_kernel_scheme \<Rightarrow> nat \<Rightarrow> sync_reason \<Rightarrow> 'a sync_kernel_scheme option" where
  "sync_wake_exited s obj reason = do {
     let thr = current s;
     s \<leftarrow> lock_enter s;
     if so_que (sync_objs s obj) = [] then lock_leave s
     else do {
       s \<leftarrow> sync_wake_loop s obj reason (so_que (sync_objs s obj));
       s \<leftarrow> lock_leave s;
       if current s = thr \<and> \<not> ti_dispatch_disabled (thr_ti (threads s (current s))) then sched_schedule s else Some s
     }
   }"

definition thr_enter_dead :: "'a thread_kernel_scheme \<Rightarrow> 'a thread_kernel_scheme option" where
  "thr_enter_dead s = do {
     kassert (status (threads s (current s)) = THR_TSTATE_EXIT);
     s \<leftarrow> lock_enter s;
     let thr = current s;
     let s = s\<lparr>reaper_tq := snd (tq_add (reaper_tq s) (current s))\<rparr>;
     s \<leftarrow> lock_leave s;
     if current s = thr then sync_wake_exited s (reaper_wai s) SYNC_WAI_RELEASED else Some s
   }"

text \<open>The children that have ended and wait for this thread.\<close>

fun release_waiters :: "'a thread_kernel_scheme \<Rightarrow> nat list \<Rightarrow> 'a thread_kernel_scheme option" where
  "release_waiters s [] = Some s"
| "release_waiters s (c # cs) = do {
     let s = clr_joinable s c;
     let s = unlink_child s c;
     s \<leftarrow> sync_wake s (parent_wait s c) SYNC_OBJ_DESTROYED;
     release_waiters s cs
   }"

text \<open>
  The label \<^verbatim>\<open>enter_dead\<close>.  Giving back the processor in \<open>ti_enable_dispatch\<close> ends the call: the thread is no longer
  runnable.  The result says how far it came: \<open>Exit_left\<close> before it was queued for the reaper, \<open>Exit_dead\<close> after.
\<close>

datatype exit_stage = Exit_wait bool nat | Exit_left | Exit_dead

definition leave_process :: "'a thread_kernel_scheme \<Rightarrow> 'a thread_kernel_scheme option" where
  "leave_process s = do {
     let thr = current s;
     let p = thr_p (threads s thr);
     s \<leftarrow> lock_enter s;
     let s = upd_proc s p (p_threads_update (remove1 thr));
     let s = (if thr = p_master (procs s p) \<and> p_threads (procs s p) \<noteq> []
              then upd_proc s p (p_master_update (\<lambda>_. hd (p_threads (procs s p)))) else s);
     (fr, s) \<leftarrow> ev_handle_exit_thread_events s;
     s \<leftarrow> lock_leave s;
     s \<leftarrow> lock_enter s;
     kassert (ev_mask_empty (events (evque (threads s thr))));
     lock_leave s
   }"

definition enter_dead :: "'a thread_kernel_scheme \<Rightarrow> (exit_stage \<times> 'a thread_kernel_scheme) option" where
  "enter_dead s = do {
     let thr = current s;
     let s = upd_thread s thr (status_update (\<lambda>_. THR_TSTATE_EXIT));
     s \<leftarrow> lock_enter s;
     s \<leftarrow> lock_enter s;
     s \<leftarrow> remove_thread s thr;
     s \<leftarrow> lock_leave s;
     s \<leftarrow> leave_process s;
     s \<leftarrow> lpc_destroy_msg_queue s thr;
     (rc, s) \<leftarrow> proc_destroy s (thr_p (threads s thr));
     kassert (ti_dispatch_disabled (thr_ti (threads s (current s))));
     let s = upd_thread s thr (thr_p_update (\<lambda>_. kernel_proc s));
     s \<leftarrow> lock_enter s;
     s \<leftarrow> release_waiters s (exit_waiters (thr_ext s thr));
     s \<leftarrow> lock_leave s;
     s \<leftarrow> lock_leave s;
     if current s \<noteq> thr then Some (Exit_left, s)
     else do {
       s \<leftarrow> thr_enter_dead s;
       s \<leftarrow> (if current s = thr then sched_schedule s else Some s);
       Some (Exit_dead, s)
     }
   }"

fun orphan_loop :: "'a thread_kernel_scheme \<Rightarrow> nat \<Rightarrow> nat list \<Rightarrow> 'a thread_kernel_scheme" where
  "orphan_loop s t [] = s"
| "orphan_loop s t (c # cs) =
     (let s = upd_ext s t (children_update (\<lambda>_. cs));
          s = unlink_child s c;
          s = clr_joinable s c
      in orphan_loop s t cs)"

definition exit_check :: "sync_reason \<Rightarrow> 'a thread_kernel_scheme \<Rightarrow> (exit_stage \<times> 'a thread_kernel_scheme) option" where
  "exit_check res s = do {
     s \<leftarrow> lock_leave s;
     kassert (res \<noteq> SYNC_WAI_WAIT \<and> res \<noteq> SYNC_WAI_TIMEOUT \<and> res \<noteq> SYNC_WAI_DELIVEV);
     kassert (\<not> joinable s (current s));
     enter_dead s
   }"

text \<open>\<open>thr_exit\<close> up to the wait for the parent, with the block \<open>b\<close> on the stack, and from there.\<close>

definition thr_exit :: "'a thread_kernel_scheme \<Rightarrow> int \<Rightarrow> nat \<Rightarrow> (exit_stage \<times> 'a thread_kernel_scheme) option" where
  "thr_exit s rc b = do {
     let thr = current s;
     kassert (status (threads s thr) = THR_TSTATE_RUN);
     kassert (\<not> thr_linked s thr);
     kassert (\<not> ti_dispatch_disabled (thr_ti (threads s thr)));
     let s = upd_ext s thr (exit_code_update (\<lambda>_. rc));
     s \<leftarrow> lock_enter s;
     let s = orphan_loop s thr (children (thr_ext s thr));
     s \<leftarrow> lock_leave s;
     s \<leftarrow> lock_enter s;
     let par = thr_find_thread_by_tid_nolock s (ptid (thr_ext s thr));
     s \<leftarrow> (case par of
             Some pthr \<Rightarrow> do {
               s \<leftarrow> lock_enter s;
               lock_leave (unlink_child s thr)
             }
           | None \<Rightarrow> do {
               kassert (\<not> joinable s thr);
               Some (clr_joinable s thr)
             });
     s \<leftarrow> lock_leave s;
     if \<not> joinable s thr then enter_dead s
     else do {
       pthr \<leftarrow> par;
       s \<leftarrow> lock_enter s;
       let s = upd_ext s pthr (exit_waiters_update (\<lambda>w. w @ [thr]));
       s \<leftarrow> sync_wake s (children_wait s pthr) SYNC_WAI_RELEASED;
       (r, s) \<leftarrow> sync_wait_block s (parent_wait s thr) b;
       case r of
         Suspended u \<Rightarrow> Some (Exit_wait u pthr, s)
       | Returned res \<Rightarrow> exit_check res s
     }
   }"

fun thr_exit_resume :: "exit_stage \<Rightarrow> nat \<Rightarrow> 'a thread_kernel_scheme \<Rightarrow> (exit_stage \<times> 'a thread_kernel_scheme) option" where
  "thr_exit_resume (Exit_wait u pthr) b s = do {
     (res, s) \<leftarrow> sync_wait_resume u s (parent_wait s (current s)) b;
     exit_check res s
   }"
| "thr_exit_resume Exit_left b s = None"
| "thr_exit_resume Exit_dead b s = None"

definition thr_destroy :: "'a thread_kernel_scheme \<Rightarrow> nat \<Rightarrow> (int \<times> 'a thread_kernel_scheme) option" where
  "thr_destroy s t = do {
     kassert (t \<noteq> current s);
     if status (threads s t) \<noteq> THR_TSTATE_EXIT \<and> status (threads s t) \<noteq> THR_TSTATE_DORMANT \<and> status (threads s t) \<noteq> THR_TSTATE_FREE
     then Some (- EBUSY, s)
     else do {
       s \<leftarrow> (if status (threads s t) = THR_TSTATE_DORMANT then remove_thread s (current s) else Some s);
       if thr_linked s t then Some (- EMLINK, s)
       else if thr_find_thread_by_tid_nolock s (tid (threads s t)) \<noteq> None then Some (- EMLINK, s)
       else do {
         kassert (tid (threads s t) \<noteq> THR_IDLE_TID);
         l \<leftarrow> idbmap_put_id (thr_idpool s) (tid (threads s t));
         m \<leftarrow> alive l;
         Some (0, s\<lparr>thr_idpool := m, live_stacks := live_stacks s - {ksp (thr_ext s t)}, live_threads := live_threads s - {t}\<rparr>)
       }
     }
   }"

section \<open>The reaper\<close>

fun reaper_loop :: "'a thread_kernel_scheme \<Rightarrow> nat list \<Rightarrow> 'a thread_kernel_scheme option" where
  "reaper_loop s [] = Some s"
| "reaper_loop s (t # ts) = do {
     (_, t', q) \<leftarrow> tq_get_top (reaper_tq s);
     let s = s\<lparr>reaper_tq := q\<rparr>;
     kassert (status (threads s t') = THR_TSTATE_EXIT);
     (rc, s) \<leftarrow> thr_destroy s t';
     kassert (rc = 0);
     reaper_loop s ts
   }"

text \<open>One round of \<open>reaper_thread\<close>, up to its wait and from there.\<close>

definition reaper_block :: "'a thread_kernel_scheme \<Rightarrow> nat \<Rightarrow> (wait_outcome \<times> 'a thread_kernel_scheme) option" where
  "reaper_block s b = do {
     s \<leftarrow> lock_enter s;
     sync_wait_block s (reaper_wai s) b
   }"

definition reaper_resume :: "bool \<Rightarrow> 'a thread_kernel_scheme \<Rightarrow> nat \<Rightarrow> 'a thread_kernel_scheme option" where
  "reaper_resume u s b = do {
     (res, s) \<leftarrow> sync_wait_resume u s (reaper_wai s) b;
     kassert (res = SYNC_WAI_RELEASED);
     s \<leftarrow> reaper_loop s (tq_que (reaper_tq s));
     lock_leave s
   }"

text \<open>The set-up of the reaper; the arguments are those of \<open>thr_new_thread\<close>.\<close>

definition thr_init_reaper :: "kmalloc \<Rightarrow> 'a thread_kernel_scheme \<Rightarrow> nat option \<Rightarrow> int + nat \<Rightarrow> 'a thread_kernel_scheme option" where
  "thr_init_reaper km s thrp sp = do {
     (r, s) \<leftarrow> thr_new_thread s thrp sp;
     case r of
       Inl rc \<Rightarrow> None
     | Inr t \<Rightarrow> do {
         (rc, s) \<leftarrow> thr_create_kthread km s t (of_nat THR_MAX_PRIO - 1) 0 1;
         kassert (rc = 0);
         kassert (tid (threads s t) = 1);
         ob \<leftarrow> sync_init_object SYNC_WAKE_FLAG_ALL THR_TSTATE_WAIT;
         let s = s\<lparr>sync_objs := (sync_objs s)(reaper_wai s := ob), reaper_tq := tq_init\<rparr>;
         (rc, s) \<leftarrow> thr_start s t (tid (threads s (current s)));
         kassert (rc = 0);
         Some s
       }
   }"

section \<open>Waiting for a child\<close>

text \<open>
  The search of the children that have ended; \<open>Inl\<close> is the error for a child that nobody may wait for.  When none
  matches, the loop around it starts again with the lock held and nothing changed: the call never returns,
  which is \<open>None\<close>.
\<close>

fun find_child :: "'a thread_kernel_scheme \<Rightarrow> u64 \<Rightarrow> u32 \<Rightarrow> nat list \<Rightarrow> (int + nat) option" where
  "find_child s wtid wflags [] = None"
| "find_child s wtid wflags (c # cs) =
     (if wflags AND THR_WAIT_ID \<noteq> 0 then
        if tid (threads s c) \<noteq> wtid then find_child s wtid wflags cs
        else if \<not> joinable s c then Some (Inl (- ENOENT))
        else Some (Inr c)
      else if wflags AND THR_WAIT_PROC \<noteq> 0 \<and> thr_p (threads s c) \<noteq> thr_p (threads s (current s)) then find_child s wtid wflags cs
      else Some (Inr c))"

text \<open>The outcome: the result, with the id and the exit code of the child when it is 0, or the wait.\<close>

datatype child_stage = Child_done int "(u64 \<times> int) option" | Child_wait bool | Child_woken sync_reason

definition take_child :: "'a thread_kernel_scheme \<Rightarrow> nat \<Rightarrow> (child_stage \<times> 'a thread_kernel_scheme) option" where
  "take_child s c = do {
     s \<leftarrow> lock_leave s;
     let s = unlink_child s c;
     let s = clr_joinable s c;
     let r = thr_resource s (current s);
     let s = s\<lparr>thr_resource := (thr_resource s)(current s := r\<lparr>children_sys_time := children_sys_time r + sys_time (thr_resource s c),
        children_user_time := children_user_time r + user_time (thr_resource s c)\<rparr>)\<rparr>;
     let res = (tid (threads s c), exit_code (thr_ext s c));
     s \<leftarrow> sync_wake s (parent_wait s c) SYNC_WAI_RELEASED;
     Some (Child_done 0 (Some res), s)
   }"

definition thr_wait_loop :: "u64 \<Rightarrow> u32 \<Rightarrow> nat \<Rightarrow> 'a thread_kernel_scheme \<Rightarrow> (child_stage \<times> 'a thread_kernel_scheme) option" where
  "thr_wait_loop wtid wflags b s =
     (if exit_waiters (thr_ext s (current s)) = [] then
        if wflags AND THR_WAIT_NONBLOCK \<noteq> 0 then do {
          s \<leftarrow> lock_leave s;
          Some (Child_done (- ENOENT) None, s)
        } else do {
          (r, s) \<leftarrow> sync_wait_block s (children_wait s (current s)) b;
          Some (case r of Suspended u \<Rightarrow> Child_wait u | Returned res \<Rightarrow> Child_woken res, s)
        }
      else do {
        r \<leftarrow> find_child s wtid wflags (exit_waiters (thr_ext s (current s)));
        case r of
          Inl rc \<Rightarrow> do { s \<leftarrow> lock_leave s; Some (Child_done rc None, s) }
        | Inr c \<Rightarrow> take_child s c
      })"

definition thr_wait :: "'a thread_kernel_scheme \<Rightarrow> u64 \<Rightarrow> u32 \<Rightarrow> nat \<Rightarrow> (child_stage \<times> 'a thread_kernel_scheme) option" where
  "thr_wait s wtid wflags b = do {
     s \<leftarrow> lock_enter s;
     thr_wait_loop wtid wflags b s
   }"

text \<open>The test for an event behind the one for any other reason never succeeds.\<close>

definition thr_wait_check :: "sync_reason \<Rightarrow> u64 \<Rightarrow> u32 \<Rightarrow> nat \<Rightarrow> 'a thread_kernel_scheme \<Rightarrow> (child_stage \<times> 'a thread_kernel_scheme) option" where
  "thr_wait_check res wtid wflags b s =
     (if res \<noteq> SYNC_WAI_RELEASED then do { s \<leftarrow> lock_leave s; Some (Child_done (- EAGAIN) None, s) }
      else if res = SYNC_WAI_DELIVEV then do { s \<leftarrow> lock_leave s; Some (Child_done (- EINTR) None, s) }
      else thr_wait_loop wtid wflags b s)"

fun thr_wait_resume :: "child_stage \<Rightarrow> u64 \<Rightarrow> u32 \<Rightarrow> nat \<Rightarrow> 'a thread_kernel_scheme \<Rightarrow> (child_stage \<times> 'a thread_kernel_scheme) option" where
  "thr_wait_resume (Child_wait u) wtid wflags b s = do {
     (res, s) \<leftarrow> sync_wait_resume u s (children_wait s (current s)) b;
     thr_wait_check res wtid wflags b s
   }"
| "thr_wait_resume (Child_woken res) wtid wflags b s = thr_wait_check res wtid wflags b s"
| "thr_wait_resume (Child_done rc v) wtid wflags b s = None"

section \<open>Frames\<close>

lemma thread_frame:
  fixes s s' :: "'a thread_kernel_scheme"
  assumes "sync_kernel.more s' = sync_kernel.more s"
  shows "thr_ext s' = thr_ext s" "children_wait s' = children_wait s" "parent_wait s' = parent_wait s" "thr_resource s' = thr_resource s"
    "thr_idpool s' = thr_idpool s" "thr_dormant_queue s' = thr_dormant_queue s" "thr_free_queue s' = thr_free_queue s"
    "live_threads s' = live_threads s" "kernel_proc s' = kernel_proc s" "live_stacks s' = live_stacks s" "reaper_tq s' = reaper_tq s" "reaper_wai s' = reaper_wai s"
  using assms by (cases s, cases s', simp)+

lemma thread_with_ti [simp]:
  fixes s :: "'a thread_kernel_scheme"
  shows "thr_ext (with_ti s ti) = thr_ext s" "children_wait (with_ti s ti) = children_wait s" "parent_wait (with_ti s ti) = parent_wait s"
    "thr_resource (with_ti s ti) = thr_resource s" "thr_idpool (with_ti s ti) = thr_idpool s" "thr_dormant_queue (with_ti s ti) = thr_dormant_queue s"
    "thr_free_queue (with_ti s ti) = thr_free_queue s" "live_threads (with_ti s ti) = live_threads s" "kernel_proc (with_ti s ti) = kernel_proc s"
  by (simp_all add: with_ti_def upd_thread_def)

text \<open>The operations on the relations between threads change nothing but \<open>thr_ext\<close>.\<close>

definition with_ext :: "'a thread_kernel_scheme \<Rightarrow> (nat \<Rightarrow> thread_ext) \<Rightarrow> 'a thread_kernel_scheme" where
  "with_ext s e = s\<lparr>thr_ext := e\<rparr>"

lemma with_ext_simps [simp]:
  "threads (with_ext s e) = threads s" "current (with_ext s e) = current s" "idle_thread (with_ext s e) = idle_thread s"
  "ready_queues (with_ext s e) = ready_queues s" "procs (with_ext s e) = procs s" "thr_created_tree (with_ext s e) = thr_created_tree s"
  "blocks (with_ext s e) = blocks s" "sync_objs (with_ext s e) = sync_objs s" "thr_ext (with_ext s e) = e"
  "children_wait (with_ext s e) = children_wait s" "parent_wait (with_ext s e) = parent_wait s" "thr_resource (with_ext s e) = thr_resource s"
  "with_ext (with_ext s e) e' = with_ext s e'" "with_ext s (thr_ext s) = s"
  by (simp_all add: with_ext_def)

lemma with_ext_ti: "with_ext (with_ti s ti) e = with_ti (with_ext s e) ti"
  by (cases s) (simp add: with_ext_def with_ti_def upd_thread_def)

lemma upd_ext_eq: "upd_ext s t f = with_ext s ((thr_ext s)(t := f (thr_ext s t)))"
  by (simp add: upd_ext_def with_ext_def)

lemma with_ext_inv [simp]: "sched_inv (with_ext s e) = sched_inv s"
  using sched_inv_cong [of s "with_ext s e"] sched_inv_cong [of "with_ext s e" s] by auto

lemma with_ext_waiting [simp]: "waiting (with_ext s e) B = waiting s B"
  using waiting_cong [of s B "with_ext s e"] waiting_cong [of "with_ext s e" B s] by auto

definition no_join :: "thread_ext \<Rightarrow> thread_ext" where
  "no_join e = thr_flags_update (\<lambda>fl. fl AND NOT THR_FLAG_JOINABLE) e"

definition unlinked :: "nat \<Rightarrow> (nat \<Rightarrow> thread_ext) \<Rightarrow> nat \<Rightarrow> thread_ext" where
  "unlinked t e = (\<lambda>p. (e p)\<lparr>children := remove1 t (children (e p)), exit_waiters := remove1 t (exit_waiters (e p))\<rparr>)"

lemma unlink_child_eq: "unlink_child s t = with_ext s (unlinked t (thr_ext s))"
  by (simp add: unlink_child_def with_ext_def unlinked_def)

lemma clr_joinable_eq: "clr_joinable s t = with_ext s ((thr_ext s)(t := no_join (thr_ext s t)))"
  by (simp add: clr_joinable_def upd_ext_eq no_join_def)

lemma no_join_simps [simp]: "ptid (no_join e) = ptid e" "exit_code (no_join e) = exit_code e" "children (no_join e) = children e"
  "exit_waiters (no_join e) = exit_waiters e" "thr_flags (no_join e) AND THR_FLAG_JOINABLE = 0" "ksp (no_join e) = ksp e"
  by (simp_all add: no_join_def and.assoc)

lemma unlinked_simps [simp]: "ptid (unlinked t e x) = ptid (e x)" "exit_code (unlinked t e x) = exit_code (e x)" "thr_flags (unlinked t e x) = thr_flags (e x)"
  "children (unlinked t e x) = remove1 t (children (e x))" "exit_waiters (unlinked t e x) = remove1 t (exit_waiters (e x))" "ksp (unlinked t e x) = ksp (e x)"
  by (simp_all add: unlinked_def)

lemma orphan_loop_ok:
  "\<exists>e. orphan_loop s t cs = with_ext s e \<and> (\<forall>x. ptid (e x) = ptid (thr_ext s x) \<and> exit_code (e x) = exit_code (thr_ext s x) \<and>
     (x \<notin> set cs \<longrightarrow> thr_flags (e x) = thr_flags (thr_ext s x)) \<and>
     (set cs \<inter> set (exit_waiters (thr_ext s x)) = {} \<longrightarrow> exit_waiters (e x) = exit_waiters (thr_ext s x)))"
proof (induction cs arbitrary: s)
  case Nil
  show ?case by (rule exI [of _ "thr_ext s"]) simp
next
  case (Cons c cs)
  define s1 where "s1 = clr_joinable (unlink_child (upd_ext s t (children_update (\<lambda>_. cs))) c) c"
  have s1: "s1 = with_ext s (thr_ext s1)" by (simp add: s1_def clr_joinable_eq unlink_child_eq upd_ext_eq)
  have e1: "ptid (thr_ext s1 x) = ptid (thr_ext s x)" "exit_code (thr_ext s1 x) = exit_code (thr_ext s x)"
    "x \<noteq> c \<Longrightarrow> thr_flags (thr_ext s1 x) = thr_flags (thr_ext s x)" "exit_waiters (thr_ext s1 x) = remove1 c (exit_waiters (thr_ext s x))" for x
    by (simp_all add: s1_def clr_joinable_eq unlink_child_eq upd_ext_eq)
  have o1: "orphan_loop s t (c # cs) = orphan_loop s1 t cs" by (simp add: s1_def Let_def)
  from Cons.IH [of s1] obtain e where e: "orphan_loop s1 t cs = with_ext s1 e"
    "\<forall>x. ptid (e x) = ptid (thr_ext s1 x) \<and> exit_code (e x) = exit_code (thr_ext s1 x) \<and>
     (x \<notin> set cs \<longrightarrow> thr_flags (e x) = thr_flags (thr_ext s1 x)) \<and>
     (set cs \<inter> set (exit_waiters (thr_ext s1 x)) = {} \<longrightarrow> exit_waiters (e x) = exit_waiters (thr_ext s1 x))" by blast
  have "with_ext s1 e = with_ext s e" using s1 by (metis with_ext_simps(13))
  moreover have "set cs \<inter> set (exit_waiters (thr_ext s1 x)) = {}" "exit_waiters (thr_ext s1 x) = exit_waiters (thr_ext s x)"
    if "set (c # cs) \<inter> set (exit_waiters (thr_ext s x)) = {}" for x
    using that e1(4) [of x] by (auto simp: remove1_idem)
  ultimately show ?case using e e1 unfolding o1 by (intro exI [of _ e]) auto
qed

section \<open>A parent learns how its child ended\<close>

lemma joinable_with [simp]: "joinable (with_ext s e) t \<longleftrightarrow> thr_flags (e t) AND THR_FLAG_JOINABLE \<noteq> 0" "joinable (with_ti s ti) t = joinable s t"
  by (simp_all add: joinable_def)

lemma find_thread_with [simp]:
  "thr_find_thread_by_tid_nolock (with_ext s e) i = thr_find_thread_by_tid_nolock s i"
  "thr_find_thread_by_tid_nolock (with_ti s ti) i = thr_find_thread_by_tid_nolock s i"
proof -
  show "thr_find_thread_by_tid_nolock (with_ext s e) i = thr_find_thread_by_tid_nolock s i"
    unfolding thr_find_thread_by_tid_nolock_def with_ext_simps ..
  have "status (threads (with_ti s ti) t) = status (threads s t)" for t by simp
  then show "thr_find_thread_by_tid_nolock (with_ti s ti) i = thr_find_thread_by_tid_nolock s i"
    unfolding thr_find_thread_by_tid_nolock_def with_ti_simps(7) by (simp only:)
qed

lemma thr_exit_joinable:
  fixes s :: "'a thread_kernel_scheme"
  assumes inv: "sched_inv s" and ni: "current s \<noteq> idle_thread s" and run: "cur_status s = THR_TSTATE_RUN" and qt: "quiet (cur_ti s)" and nl: "\<not> thr_linked s (current s)"
    and par: "thr_find_thread_by_tid_nolock s (ptid (thr_ext s (current s))) = Some P" and jn: "joinable s (current s)"
    and ch: "current s \<notin> set (children (thr_ext s (current s)))" and pc: "P \<noteq> current s" and ew: "exit_waiters (thr_ext s P) = []"
    and pol: "so_policy (sync_objs s (children_wait s P)) = SYNC_WAKE_FLAG_ALL" and wt: "waiting s (so_que (sync_objs s (children_wait s P)))"
    and b: "b \<notin> set (so_que (sync_objs s (children_wait s P)))" and ne: "parent_wait s (current s) \<noteq> children_wait s P"
    and v: "valid_wait_status (wait_kind (sync_objs s (parent_wait s (current s))))"
  shows "\<exists>u s' e. thr_exit s rc b = Some (Exit_wait u P, s') \<and> waiting s' [b] \<and> handed_over (with_ext s e) (children_wait s P) (parent_wait s (current s)) b s' \<and>
    exit_waiters (e P) = [current s] \<and> exit_code (e (current s)) = rc \<and> thr_flags (e (current s)) AND THR_FLAG_JOINABLE \<noteq> 0"
proof -
  define C where "C = current s"
  define e0 where "e0 = (thr_ext s)(C := (thr_ext s C)\<lparr>exit_code := rc\<rparr>)"
  define s0 where "s0 = with_ext s e0"
  have u0: "upd_ext s C (exit_code_update (\<lambda>_. rc)) = s0" by (simp add: upd_ext_eq s0_def e0_def)
  have dis: "\<not> ti_dispatch_disabled (cur_ti s)" using quiet_enabled [OF qt] .
  define s1 where "s1 = with_ti s0 ((cur_ti s)\<lparr>preempt := 1\<rparr>)"
  have l1: "lock_enter s0 = Some s1" using qt by (simp add: lock_enter_eq s0_def s1_def quiet_def)
  obtain e1 where e1: "orphan_loop s1 C (children (thr_ext s1 C)) = with_ext s1 e1"
    "\<forall>x. ptid (e1 x) = ptid (thr_ext s1 x) \<and> exit_code (e1 x) = exit_code (thr_ext s1 x) \<and>
     (x \<notin> set (children (thr_ext s1 C)) \<longrightarrow> thr_flags (e1 x) = thr_flags (thr_ext s1 x)) \<and>
     (set (children (thr_ext s1 C)) \<inter> set (exit_waiters (thr_ext s1 x)) = {} \<longrightarrow> exit_waiters (e1 x) = exit_waiters (thr_ext s1 x))"
    using orphan_loop_ok [of s1 C] by blast
  have t1: "thr_ext s1 = e0" by (simp add: s1_def s0_def)
  have f1: "ptid (e1 C) = ptid (thr_ext s C)" "exit_code (e1 C) = rc" "thr_flags (e1 C) = thr_flags (thr_ext s C)" "exit_waiters (e1 P) = []"
    using e1(2) ch ew pc by (auto simp: t1 e0_def C_def)
  define s2 where "s2 = with_ext s1 e1"
  have s2: "s2 = with_ti (with_ext s e1) ((cur_ti s)\<lparr>preempt := 1\<rparr>)" by (simp add: s2_def s1_def s0_def with_ext_ti)
  obtain t2 where l2: "lock_leave s2 = Some (with_ti (with_ext s e1) t2)" "quiet t2"
    using lock_leave_run [of s2] run qt by (auto simp: s2 quiet_def)
  define s3 where "s3 = with_ti (with_ext s e1) (t2\<lparr>preempt := 1\<rparr>)"
  have l3: "lock_enter (with_ti (with_ext s e1) t2) = Some s3" using l2(2) by (simp add: lock_enter_eq s3_def quiet_def)
  have p3: "preempt (cur_ti s3) = 1" by (simp add: s3_def)
  define e2 where "e2 = unlinked C e1"
  define s4 where "s4 = with_ext s3 e2"
  have l4: "lock_enter s3 = Some (with_ti s3 ((cur_ti s3)\<lparr>preempt := 2\<rparr>))" "lock_leave (unlink_child (with_ti s3 ((cur_ti s3)\<lparr>preempt := 2\<rparr>)) C) = Some s4"
    using inner_lock(1) [OF p3] inner_lock(2) [OF p3, of s4] by (simp_all add: unlink_child_eq with_ext_ti s4_def e2_def s3_def)
  have s4: "s4 = with_ti (with_ext s e2) (t2\<lparr>preempt := 1\<rparr>)" by (simp add: s4_def s3_def with_ext_ti)
  obtain t5 where l5: "lock_leave s4 = Some (with_ti (with_ext s e2) t5)" "quiet t5"
    using lock_leave_run [of s4] run l2(2) by (auto simp: s4 quiet_def)
  define s6 where "s6 = with_ti (with_ext s e2) (t5\<lparr>preempt := 1\<rparr>)"
  have l6: "lock_enter (with_ti (with_ext s e2) t5) = Some s6" using l5(2) by (simp add: lock_enter_eq s6_def quiet_def)
  define e where "e = e2(P := (e2 P)\<lparr>exit_waiters := [C]\<rparr>)"
  define s7 where "s7 = with_ti (with_ext s e) (t5\<lparr>preempt := 1\<rparr>)"
  have u7: "upd_ext s6 P (exit_waiters_update (\<lambda>w. w @ [C])) = s7"
  proof -
    have "exit_waiters (e2 P) = []" using f1(4) by (simp add: e2_def)
    then have "exit_waiters_update (\<lambda>w. w @ [C]) (e2 P) = (e2 P)\<lparr>exit_waiters := [C]\<rparr>" by (cases "e2 P") simp
    then show ?thesis by (simp add: upd_ext_eq s6_def s7_def with_ext_ti e_def)
  qed
  have fe: "exit_waiters (e P) = [C]" "exit_code (e C) = rc" "thr_flags (e C) = thr_flags (thr_ext s C)" "thr_flags (e2 C) = thr_flags (thr_ext s C)"
    using f1 pc by (simp_all add: e_def e2_def C_def)
  have cw: "children_wait s7 = children_wait s" "parent_wait s7 = parent_wait s" by (simp_all add: s7_def)
  have "\<exists>s8 u s'. sync_wake s7 (children_wait s P) SYNC_WAI_RELEASED = Some s8 \<and> sync_kernel.more s8 = sync_kernel.more s7 \<and>
    sync_wait_block s8 (parent_wait s C) b = Some (Suspended u, s') \<and> waiting s' (b # []) \<and> handed_over s7 (children_wait s P) (parent_wait s C) b s'"
    by (rule hand_over) (use inv ni l5(2) pol wt b ne v in \<open>simp_all add: s7_def C_def quiet_def\<close>)
  then obtain s8 u s' where s8: "sync_wake s7 (children_wait s P) SYNC_WAI_RELEASED = Some s8" "sync_kernel.more s8 = sync_kernel.more s7"
    "sync_wait_block s8 (parent_wait s C) b = Some (Suspended u, s')" "waiting s' [b]" "handed_over s7 (children_wait s P) (parent_wait s C) b s'" by blast
  have ho: "handed_over (with_ext s e) (children_wait s P) (parent_wait s C) b s'" using s8(5) unfolding s7_def handed_over_with_ti .
  have j: "thr_flags (e2 C) AND THR_FLAG_JOINABLE \<noteq> 0" using jn fe(4) by (simp add: joinable_def C_def)
  have par3: "thr_find_thread_by_tid_nolock s3 (ptid (thr_ext s3 C)) = Some P" using par f1(1) by (simp add: s3_def C_def)
  have "thr_exit s rc b = Some (Exit_wait u P, s')"
    unfolding thr_exit_def Let_def C_def [symmetric] u0
    using run nl dis by (simp add: C_def [symmetric] l1 e1(1) s2_def [symmetric] l2(1) l3 par3 l4 l5(1) j l6 u7 cw s8(1,3) thread_frame(2,3) [OF s8(2)])
  then show ?thesis using s8(4) ho fe jn unfolding C_def joinable_def by (intro exI [of _ u] exI [of _ s'] exI [of _ e]) simp
qed

text \<open>The wait of a parent: which children it asks for.\<close>

definition asks_for :: "'a thread_kernel_scheme \<Rightarrow> nat \<Rightarrow> u64 \<Rightarrow> u32 \<Rightarrow> nat \<Rightarrow> bool" where
  "asks_for s par wtid wflags c \<longleftrightarrow> (if wflags AND THR_WAIT_ID \<noteq> 0 then tid (threads s c) = wtid \<and> joinable s c
     else wflags AND THR_WAIT_PROC \<noteq> 0 \<longrightarrow> thr_p (threads s c) = thr_p (threads s par))"

lemma find_child_first: "asks_for s (current s) wtid wflags c \<Longrightarrow> find_child s wtid wflags (c # cs) = Some (Inr c)"
  by (auto simp: asks_for_def)

text \<open>When no child that has ended is asked for, the search is repeated for ever with the lock held: the call does not return.\<close>

lemma thr_wait_spins:
  assumes "exit_waiters (thr_ext s (current s)) \<noteq> []" and "wflags AND THR_WAIT_ID \<noteq> 0"
    and "\<forall>c \<in> set (exit_waiters (thr_ext s (current s))). tid (threads s c) \<noteq> wtid"
  shows "thr_wait s wtid wflags b = None"
proof -
  have "find_child s' wtid wflags cs = None" if "\<forall>c \<in> set cs. tid (threads s' c) \<noteq> wtid" for cs and s' :: "'a thread_kernel_scheme"
    using that assms(2) by (induction cs) auto
  moreover have "\<forall>c \<in> set (exit_waiters (thr_ext s (current s))). tid (threads (with_ti s ti) c) \<noteq> wtid" for ti
    using assms(3) by simp
  ultimately show ?thesis using assms(1) by (simp add: thr_wait_def lock_enter_eq thr_wait_loop_def)
qed

lemma take_child_ok:
  fixes s :: "'a thread_kernel_scheme"
  assumes inv: "sched_inv s" and run: "cur_status s = THR_TSTATE_RUN" and ti: "preempt (cur_ti s) = 1" "intrcnt (cur_ti s) = 0"
    and pol: "so_policy (sync_objs s (parent_wait s c)) = SYNC_WAKE_FLAG_ALL" and wt: "waiting s (so_que (sync_objs s (parent_wait s c)))"
  shows "\<exists>s'. take_child s c = Some (Child_done 0 (Some (tid (threads s c), exit_code (thr_ext s c))), s') \<and> sched_inv s' \<and>
    \<not> joinable s' c \<and> (\<forall>p. exit_waiters (thr_ext s' p) = remove1 c (exit_waiters (thr_ext s p))) \<and>
    so_que (sync_objs s' (parent_wait s c)) = [] \<and>
    (\<forall>b \<in> set (so_que (sync_objs s (parent_wait s c))). blk_reason (blocks s' b) = SYNC_WAI_RELEASED \<and>
       status (threads s' (blk_thr (blocks s b))) = THR_TSTATE_READY)"
proof -
  obtain t1 where l1: "lock_leave s = Some (with_ti s t1)" "quiet t1" using lock_leave_run [of s] run ti by auto
  define e where "e = (unlinked c (thr_ext s))(c := no_join (unlinked c (thr_ext s) c))"
  define s2 where "s2 = with_ti (with_ext s e) t1"
  have s2: "clr_joinable (unlink_child (with_ti s t1) c) c = s2" by (simp add: clr_joinable_eq unlink_child_eq s2_def e_def with_ext_ti)
  define r where "r = thr_resource s2 (current s2)"
  define s3 where "s3 = s2\<lparr>thr_resource := (thr_resource s2)(current s2 := r\<lparr>children_sys_time := children_sys_time r + sys_time (thr_resource s2 c),
        children_user_time := children_user_time r + user_time (thr_resource s2 c)\<rparr>)\<rparr>"
  have f3: "current s3 = current s" "current s3 = current s" "idle_thread s3 = idle_thread s" "ready_queues s3 = ready_queues s" "blocks s3 = blocks s"
    "sync_objs s3 = sync_objs s" "parent_wait s3 = parent_wait s" "thr_ext s3 = e" by (simp_all add: s3_def s2_def)
  have st3: "status (threads s3 u) = status (threads s u)" "tid (threads s3 u) = tid (threads s u)" "prio (threads s3 u) = prio (threads s u)" for u
    by (simp_all add: s3_def s2_def)
  have i3: "sched_inv s3" using inv by (rule sched_inv_cong) (simp_all add: f3 st3)
  have w3: "waiting s3 (so_que (sync_objs s3 (parent_wait s c)))" using wt unfolding f3 by (rule waiting_cong) (simp_all add: f3 st3)
  have q3: "preempt (cur_ti s3) = 0 \<or> preempt (cur_ti s3) = 1" "intrcnt (cur_ti s3) = 0" using l1(2) by (simp_all add: s3_def s2_def quiet_def)
  have r3: "cur_status s3 = THR_TSTATE_RUN" using run by (simp add: f3(2) st3)
  from sync_wake_ok [OF i3 w3 r3 q3, of SYNC_WAI_RELEASED] pol obtain s' where
    s': "sync_wake s3 (parent_wait s c) SYNC_WAI_RELEASED = Some s'" "sched_inv s'" "woke s3 (parent_wait s c) SYNC_WAI_RELEASED (so_que (sync_objs s (parent_wait s c))) s'"
    by (auto simp: f3)
  have "sync_kernel.more s' = sync_kernel.more s3" using s'(3) by (simp add: woke_def)
  note fr = thread_frame [OF this]
  have ex: "exit_code (e c) = exit_code (thr_ext s c)" "thr_flags (e c) AND THR_FLAG_JOINABLE = 0" "exit_waiters (e p) = remove1 c (exit_waiters (thr_ext s p))" for p
    by (simp_all add: e_def)
  have "take_child s c = Some (Child_done 0 (Some (tid (threads s c), exit_code (thr_ext s c))), s')"
  proof -
    have "parent_wait s2 = parent_wait s" "thr_ext s2 = e" "tid (threads s2 c) = tid (threads s c)" by (simp_all add: s2_def)
    then show ?thesis unfolding take_child_def Let_def using l1(1) s'(1) ex(1) by (simp add: s2 r_def [symmetric] s3_def [symmetric])
  qed
  moreover have "\<not> joinable s' c" using ex(2) by (simp add: joinable_def fr f3)
  moreover have "so_que (sync_objs s' (parent_wait s c)) = []" using s'(3) by (simp add: woke_def f3)
  moreover have "blk_reason (blocks s' b) = SYNC_WAI_RELEASED \<and> status (threads s' (blk_thr (blocks s b))) = THR_TSTATE_READY"
    if "b \<in> set (so_que (sync_objs s (parent_wait s c)))" for b
    using s'(3) that unfolding woke_def f3 by auto
  ultimately show ?thesis using s'(2) ex(3) by (intro exI [of _ s']) (simp add: fr f3)
qed

text \<open>
  Claim C22. A joinable thread that exits while its parent waits for it hands over its result: it gives up the processor and waits;
  when the parent has the processor its \<open>thr_wait\<close> returns 0 with the id and the exit code of the child, which is out
  of the parent's list, no longer joinable and ready to go on with its end.
\<close>

theorem thr_exit_wait_roundtrip:
  fixes s :: "'a thread_kernel_scheme"
  assumes inv: "sched_inv s" and ni: "current s \<noteq> idle_thread s" and run: "cur_status s = THR_TSTATE_RUN" and qt: "quiet (cur_ti s)" and nl: "\<not> thr_linked s (current s)"
    and par: "thr_find_thread_by_tid_nolock s (ptid (thr_ext s (current s))) = Some P" and jn: "joinable s (current s)"
    and ch: "current s \<notin> set (children (thr_ext s (current s)))" and pc: "P \<noteq> current s" and ew: "exit_waiters (thr_ext s P) = []"
    and lis: "so_que (sync_objs s (children_wait s P)) = [pb]" "blk_thr (blocks s pb) = P" and wt: "waiting s [pb]"
    and pol: "so_policy (sync_objs s (children_wait s P)) = SYNC_WAKE_FLAG_ALL" "so_policy (sync_objs s (parent_wait s (current s))) = SYNC_WAKE_FLAG_ALL"
    and b: "b \<noteq> pb" and ne: "parent_wait s (current s) \<noteq> children_wait s P" and emp: "so_que (sync_objs s (parent_wait s (current s))) = []"
    and v: "valid_wait_status (wait_kind (sync_objs s (parent_wait s (current s))))"
    and ask: "asks_for s P wtid wflags (current s)"
  shows "\<exists>u s1. thr_exit s rc b = Some (Exit_wait u P, s1) \<and> sched_inv s1 \<and> current s1 \<noteq> current s \<and> exit_waiters (thr_ext s1 P) = [current s] \<and>
    (\<forall>s2 w. sched_inv s2 \<and> current s2 = P \<and> cur_status s2 = THR_TSTATE_RUN \<and> quiet (cur_ti s2) \<and> undisturbed s1 s2 \<longrightarrow>
      (\<exists>s3. thr_wait_resume (Child_wait w) wtid wflags pb s2 = Some (Child_done 0 (Some (tid (threads s (current s)), rc)), s3) \<and> sched_inv s3 \<and>
        exit_waiters (thr_ext s3 P) = [] \<and> \<not> joinable s3 (current s) \<and> status (threads s3 (current s)) = THR_TSTATE_READY \<and>
        blk_reason (blocks s3 b) = SYNC_WAI_RELEASED))"
proof -
  define C where "C = current s"
  have "\<exists>u s' e. thr_exit s rc b = Some (Exit_wait u P, s') \<and> waiting s' [b] \<and> handed_over (with_ext s e) (children_wait s P) (parent_wait s (current s)) b s' \<and>
    exit_waiters (e P) = [current s] \<and> exit_code (e (current s)) = rc \<and> thr_flags (e (current s)) AND THR_FLAG_JOINABLE \<noteq> 0"
    by (rule thr_exit_joinable) (use assms in simp_all)
  then obtain u s1 e where s1: "thr_exit s rc b = Some (Exit_wait u P, s1)" "waiting s1 [b]" "handed_over (with_ext s e) (children_wait s P) (parent_wait s C) b s1"
    "exit_waiters (e P) = [C]" "exit_code (e C) = rc" "thr_flags (e C) AND THR_FLAG_JOINABLE \<noteq> 0" unfolding C_def by blast
  have "sync_kernel.more s1 = sync_kernel.more (with_ext s e)" using s1(3) by (simp add: handed_over_def)
  note fr1 = thread_frame [OF this]
  have f1: "sched_inv s1" "current s1 \<noteq> C" "thr_ext s1 = e" "children_wait s1 = children_wait s" "parent_wait s1 = parent_wait s"
    "tid (threads s1 x) = tid (threads s x)" "thr_p (threads s1 x) = thr_p (threads s x)" "\<not> thr_in_wait (threads s1 P)" for x
    using s1(3) lis fr1 by (simp_all add: handed_over_def C_def)
  have b1: "blk_reason (blocks s1 pb) = SYNC_WAI_RELEASED" "blk_thr (blocks s1 b) = C" "so_que (sync_objs s1 (children_wait s P)) = []"
    "so_que (sync_objs s1 (parent_wait s C)) = [b]" "so_policy (sync_objs s1 (parent_wait s C)) = SYNC_WAKE_FLAG_ALL"
    using s1(3) lis b ne emp pol(2) by (simp_all add: handed_over_def C_def)
  have wait: "\<exists>s3. thr_wait_resume (Child_wait w) wtid wflags pb s2 = Some (Child_done 0 (Some (tid (threads s C), rc)), s3) \<and> sched_inv s3 \<and>
        exit_waiters (thr_ext s3 P) = [] \<and> \<not> joinable s3 C \<and> status (threads s3 C) = THR_TSTATE_READY \<and> blk_reason (blocks s3 b) = SYNC_WAI_RELEASED"
    if a2: "sched_inv s2" "current s2 = P" "cur_status s2 = THR_TSTATE_RUN" "quiet (cur_ti s2)" "undisturbed s1 s2" for s2 w
  proof -
    have "sync_kernel.more s2 = sync_kernel.more s1" using a2(5) by (simp add: undisturbed_def)
    note fr = thread_frame [OF this]
    have u2: "blocks s2 = blocks s1" "sync_objs s2 = sync_objs s1" "tid (threads s2 x) = tid (threads s x)" "thr_p (threads s2 x) = thr_p (threads s x)" for x
      using a2(5) f1(6,7) by (simp_all add: undisturbed_def)
    have "pb \<notin> set (so_que (sync_objs s2 (children_wait s P)))" using b1(3) by (simp add: u2)
    from sync_wait_resume_ok [OF a2(4,3) this, of w] obtain ti where
      ti: "sync_wait_resume w s2 (children_wait s P) pb = Some (SYNC_WAI_RELEASED, with_ti s2 ti)" "preempt ti = 1" "intrcnt ti = 0"
      using b1(1) by (auto simp: u2)
    define s2' where "s2' = with_ti s2 ti"
    have w2: "waiting s2 [b]" using undisturbed_waiting [OF s1(2) a2(5)] f1(8) a2(2) by simp
    have e2: "thr_ext s2' = e" "current s2' = P" "parent_wait s2' = parent_wait s" "sync_objs s2' = sync_objs s1" "blocks s2' = blocks s1"
      by (simp_all add: s2'_def fr f1 a2(2) u2)
    have ths: "tid (threads s2' x) = tid (threads s x)" "thr_p (threads s2' x) = thr_p (threads s x)" for x by (simp_all add: s2'_def u2)
    have "asks_for s2' (current s2') wtid wflags C" using ask s1(6) unfolding asks_for_def joinable_def ths e2 C_def by auto
    then have fc: "find_child s2' wtid wflags [C] = Some (Inr C)" by (rule find_child_first)
    have "\<exists>s'. take_child s2' C = Some (Child_done 0 (Some (tid (threads s2' C), exit_code (thr_ext s2' C))), s') \<and> sched_inv s' \<and>
      \<not> joinable s' C \<and> (\<forall>p. exit_waiters (thr_ext s' p) = remove1 C (exit_waiters (thr_ext s2' p))) \<and>
      so_que (sync_objs s' (parent_wait s2' C)) = [] \<and>
      (\<forall>b \<in> set (so_que (sync_objs s2' (parent_wait s2' C))). blk_reason (blocks s' b) = SYNC_WAI_RELEASED \<and>
         status (threads s' (blk_thr (blocks s2' b))) = THR_TSTATE_READY)"
      by (rule take_child_ok) (use a2 ti w2 b1 in \<open>simp_all add: s2'_def fr f1 u2\<close>)
    then obtain s3 where s3: "take_child s2' C = Some (Child_done 0 (Some (tid (threads s C), rc)), s3)" "sched_inv s3" "\<not> joinable s3 C"
      "exit_waiters (thr_ext s3 P) = []" "blk_reason (blocks s3 b) = SYNC_WAI_RELEASED" "status (threads s3 C) = THR_TSTATE_READY"
      unfolding e2 ths s1(5) b1(4) by (auto simp: s1(4) b1(2))
    have "thr_wait_resume (Child_wait w) wtid wflags pb s2 = Some (Child_done 0 (Some (tid (threads s C), rc)), s3)"
      using ti(1) fc s3(1) s1(4) e2 by (simp add: fr f1 a2(2) thr_wait_check_def thr_wait_loop_def s2'_def)
    then show ?thesis using s3 by blast
  qed
  show ?thesis unfolding C_def [symmetric]
  proof (rule exI [of _ u], rule exI [of _ s1], intro conjI allI impI)
    fix s2 w
    assume "sched_inv s2 \<and> current s2 = P \<and> cur_status s2 = THR_TSTATE_RUN \<and> quiet (cur_ti s2) \<and> undisturbed s1 s2"
    then show "\<exists>s3. thr_wait_resume (Child_wait w) wtid wflags pb s2 = Some (Child_done 0 (Some (tid (threads s C), rc)), s3) \<and> sched_inv s3 \<and>
        exit_waiters (thr_ext s3 P) = [] \<and> \<not> joinable s3 C \<and> status (threads s3 C) = THR_TSTATE_READY \<and> blk_reason (blocks s3 b) = SYNC_WAI_RELEASED"
      using wait by blast
  qed (use s1(1,4) f1 in simp_all)
qed

section \<open>Ids of threads\<close>

text \<open>Every created thread is in the tree under its own id, and the ids in the tree are in use.\<close>

definition ids_ok :: "'a thread_kernel_scheme \<Rightarrow> bool" where
  "ids_ok s \<longleftrightarrow> idmap_ok (thr_idpool s) \<and> idmap_ref_ok (thr_idpool s) \<and> \<not> deleted (ref_count (thr_idpool s)) \<and>
     (\<forall>i t. thr_created_tree s i = Some t \<longrightarrow> i \<noteq> 0 \<and> tid (threads s t) = i \<and> unat i \<in> used (thr_idpool s))"

lemma ids_ok_unique: "ids_ok s \<Longrightarrow> thr_created_tree s i = Some t \<Longrightarrow> thr_created_tree s j = Some t \<Longrightarrow> i = j"
  unfolding ids_ok_def by metis

text \<open>There is memory to grow the bitmap and an id of the kind \<open>fl\<close> left.\<close>

definition id_left :: "kmalloc \<Rightarrow> id_bitmap \<Rightarrow> u32 \<Rightarrow> bool" where
  "id_left km m fl \<longleftrightarrow> (\<forall>n. km n) \<and> unat (nr_ids m) < 2 ^ 62 \<and> unat (reserved_ids m) < unat (nr_ids m) + 1024 \<and>
     (\<exists>i \<in> id_kind m fl. i \<notin> insert 0 (used m))"

lemma get_thread_id:
  assumes "ids_ok s" and "id_left km (thr_idpool s) fl"
  obtains i m where "idbmap_get_id km (thr_idpool s) fl = Some (0, of_nat i, Alive m)" "id_allocated (thr_idpool s) fl i m" "idmap_ref_ok m" "\<not> deleted (ref_count m)"
    "thr_created_tree s (of_nat i) = None" "(of_nat i :: u64) \<noteq> 0" "(of_nat i :: u64) \<noteq> - 1" "unat (of_nat i :: u64) = i"
proof -
  have "\<exists>i m. idbmap_get_id km (thr_idpool s) fl = Some (0, of_nat i, Alive m) \<and> id_allocated (thr_idpool s) fl i m \<and> idmap_ref_ok m \<and> \<not> deleted (ref_count m)"
    by (rule idbmap_get_id_ok) (use assms in \<open>simp_all add: ids_ok_def id_left_def\<close>)
  then obtain i m where a: "idbmap_get_id km (thr_idpool s) fl = Some (0, of_nat i, Alive m)" "id_allocated (thr_idpool s) fl i m" "idmap_ref_ok m" "\<not> deleted (ref_count m)"
    by blast
  have i: "i \<noteq> 0" "i < 2 ^ 63" "i \<notin> used (thr_idpool s)" using a(2) by (simp_all add: id_allocated_def)
  have u: "unat (of_nat i :: u64) = i" using i(2) by (simp add: unat_of_nat)
  have "thr_created_tree s (of_nat i) = None"
  proof (rule ccontr)
    assume "thr_created_tree s (of_nat i) \<noteq> None"
    then obtain t where "thr_created_tree s (of_nat i) = Some t" by blast
    then have "unat (of_nat i :: u64) \<in> used (thr_idpool s)" using assms(1) unfolding ids_ok_def by blast
    then show False using i(3) u by simp
  qed
  moreover have "(of_nat i :: u64) \<noteq> 0" using u i(1) by (metis unsigned_0)
  moreover have "(of_nat i :: u64) \<noteq> - 1"
  proof
    assume "(of_nat i :: u64) = - 1"
    then have "i = unat (- 1 :: u64)" using u by simp
    then show False using i(2) by (simp add: unsigned_minus_1_eq_mask mask_eq_exp_minus_1)
  qed
  ultimately show thesis using that a u by blast
qed

lemma ids_ok_insert:
  assumes ok: "ids_ok s" and al: "id_allocated (thr_idpool s) fl i m" "idmap_ref_ok m" "\<not> deleted (ref_count m)" and u: "unat (of_nat i :: u64) = i" "(of_nat i :: u64) \<noteq> 0"
    and nt: "\<forall>j. thr_created_tree s j \<noteq> Some t"
    and s': "thr_created_tree s' = (thr_created_tree s)(of_nat i \<mapsto> t)" "thr_idpool s' = m" "tid (threads s' t) = of_nat i"
      "\<And>x. x \<noteq> t \<Longrightarrow> tid (threads s' x) = tid (threads s x)"
  shows "ids_ok s'"
proof -
  have us: "used m = insert 0 (insert i (used (thr_idpool s)))" "idmap_ok m" using al(1) by (simp_all add: id_allocated_def)
  have "j \<noteq> 0 \<and> tid (threads s' x) = j \<and> unat j \<in> used m" if "thr_created_tree s' j = Some x" for j x
  proof (cases "j = of_nat i")
    case True
    then show ?thesis using that s' u us by simp
  next
    case False
    then have o: "thr_created_tree s j = Some x" using that s'(1) by simp
    then have "x \<noteq> t" using nt by blast
    then show ?thesis using ok o s'(4) us(1) unfolding ids_ok_def by auto
  qed
  then show ?thesis using us(2) al(2,3) s'(2) by (auto simp: ids_ok_def)
qed

lemma create_thread_common_ok:
  assumes "unat (prio (threads s t)) < THR_MAX_PRIO" and "thr_type (threads s t) = THR_TYPE_NONE" and "status (threads s t) = THR_TSTATE_FREE"
  shows "create_thread_common s t pr = Some (upd_thread (s\<lparr>thr_free_queue := (thr_free_queue s)\<lparr>tq_que := remove1 t (tq_que (thr_free_queue s))\<rparr>,
     thr_dormant_queue := snd (tq_add (thr_dormant_queue s) t)\<rparr>) t (\<lambda>r. r\<lparr>status := THR_TSTATE_DORMANT, prio := pr\<rparr>))"
  using assms by (cases s, cases "threads s t") (simp add: create_thread_common_def upd_thread_def)

text \<open>
  Claim C23. Creating a user thread always succeeds when there is an id and memory: the thread gets the lowest user id that nobody has, is found
  under it, belongs to its process and is dormant; every other thread keeps its id and its place, and all created threads still have
  different ids.
\<close>

theorem thr_create_uthread_spec:
  fixes s :: "'a thread_kernel_scheme"
  assumes ok: "ids_ok s" and left: "id_left km (thr_idpool s) ID_BITMAP_USER" and t: "status (threads s t) = THR_TSTATE_FREE" "thr_type (threads s t) = THR_TYPE_NONE"
    and pr: "unat (prio (threads s t)) < THR_MAX_USER_PRIO" and nt: "\<forall>j. thr_created_tree s j \<noteq> Some t" and p: "p \<noteq> kernel_proc s" "p_status s p \<noteq> PROC_PSTATE_EXIT"
    and plk: "t \<notin> set (p_threads (procs s p))" "thr_p (threads s t) \<noteq> p"
  shows "\<exists>i s'. thr_create_uthread km s t pr' fl p = Some (0, s') \<and> ids_ok s' \<and> id_allocated (thr_idpool s) ID_BITMAP_USER i (thr_idpool s') \<and>
    thr_created_tree s' = (thr_created_tree s)(of_nat i \<mapsto> t) \<and> thr_created_tree s (of_nat i) = None \<and>
    thr_find_thread_by_tid_nolock s' (of_nat i) = Some t \<and>
    threads s' = (threads s)(t := (threads s t)\<lparr>status := THR_TSTATE_DORMANT, prio := pr', tid := of_nat i, thr_type := THR_TYPE_USER, thr_p := p\<rparr>) \<and>
    p_threads (procs s' p) = p_threads (procs s p) @ [t] \<and>
    p_threads (procs s' (thr_p (threads s t))) = remove1 t (p_threads (procs s (thr_p (threads s t)))) \<and>
    tq_que (thr_dormant_queue s') = tq_que (thr_dormant_queue s) @ [t] \<and> tq_que (thr_free_queue s') = remove1 t (tq_que (thr_free_queue s))"
proof -
  obtain i m where i: "idbmap_get_id km (thr_idpool s) ID_BITMAP_USER = Some (0, of_nat i, Alive m)" "id_allocated (thr_idpool s) ID_BITMAP_USER i m" "idmap_ref_ok m"
    "\<not> deleted (ref_count m)" "thr_created_tree s (of_nat i) = None" "(of_nat i :: u64) \<noteq> 0" "(of_nat i :: u64) \<noteq> - 1" "unat (of_nat i :: u64) = i"
    by (rule get_thread_id [OF ok left])
  define s1 where "s1 = upd_thread (s\<lparr>thr_free_queue := (thr_free_queue s)\<lparr>tq_que := remove1 t (tq_que (thr_free_queue s))\<rparr>,
     thr_dormant_queue := snd (tq_add (thr_dormant_queue s) t)\<rparr>) t (\<lambda>r. r\<lparr>status := THR_TSTATE_DORMANT, prio := pr'\<rparr>)"
  have c: "create_thread_common s t pr' = Some s1" unfolding s1_def by (rule create_thread_common_ok) (use pr t in simp_all)
  have ip: "thr_idpool s1 = thr_idpool s" "thr_created_tree s1 = thr_created_tree s" "procs s1 = procs s" by (simp_all add: s1_def upd_thread_def)
  obtain s' where s': "thr_create_uthread km s t pr' fl p = Some (0, s')"
    "threads s' = (threads s)(t := (threads s t)\<lparr>status := THR_TSTATE_DORMANT, prio := pr', tid := of_nat i, thr_type := THR_TYPE_USER, thr_p := p\<rparr>)"
    "thr_created_tree s' = (thr_created_tree s)(of_nat i \<mapsto> t)" "thr_idpool s' = m" "thr_dormant_queue s' = snd (tq_add (thr_dormant_queue s) t)"
    "thr_free_queue s' = (thr_free_queue s)\<lparr>tq_que := remove1 t (tq_que (thr_free_queue s))\<rparr>"
    "p_threads (procs s' p) = p_threads (procs s p) @ [t]" "p_threads (procs s' (thr_p (threads s t))) = remove1 t (p_threads (procs s (thr_p (threads s t))))"
  proof -
    define s2 where "s2 = upd_ext (upd_thread (s1\<lparr>thr_idpool := m\<rparr>) t (tid_update (\<lambda>_. of_nat i))) t (thr_flags_update (\<lambda>_. fl))"
    define s3 where "s3 = upd_thread (s2\<lparr>thr_created_tree := (thr_created_tree s2)(of_nat i \<mapsto> t)\<rparr>) t (thr_type_update (\<lambda>_. THR_TYPE_USER))"
    define s4 where "s4 = upd_thread (upd_proc (upd_proc s3 (thr_p (threads s3 t)) (p_threads_update (remove1 t))) p (p_threads_update (\<lambda>ts. ts @ [t]))) t (thr_p_update (\<lambda>_. p))"
    have f2: "threads s2 = (threads s)(t := (threads s t)\<lparr>status := THR_TSTATE_DORMANT, prio := pr', tid := of_nat i\<rparr>)" "thr_created_tree s2 = thr_created_tree s"
      "procs s2 = procs s" "thr_idpool s2 = m" "thr_dormant_queue s2 = snd (tq_add (thr_dormant_queue s) t)"
      "thr_free_queue s2 = (thr_free_queue s)\<lparr>tq_que := remove1 t (tq_que (thr_free_queue s))\<rparr>"
      by (cases "threads s t", simp_all add: s2_def s1_def upd_ext_def upd_thread_def)+
    have "insert_thread s2 t = Some (s2\<lparr>thr_created_tree := (thr_created_tree s2)(of_nat i \<mapsto> t)\<rparr>)" using i(5) by (simp add: insert_thread_def f2)
    moreover have p3: "thr_p (threads s2 t) = thr_p (threads s3 t)" by (simp add: s3_def)
    ultimately have "thr_create_uthread km s t pr' fl p = Some (0, s4)"
      using c p pr i(1) unfolding thr_create_uthread_def Let_def by (simp add: ip s2_def [symmetric] s3_def [symmetric]) (simp add: s4_def)
    moreover have "thr_p (threads s3 t) = thr_p (threads s t)" by (simp add: s3_def f2)
    then have "threads s4 = (threads s)(t := (threads s t)\<lparr>status := THR_TSTATE_DORMANT, prio := pr', tid := of_nat i, thr_type := THR_TYPE_USER, thr_p := p\<rparr>)"
      "p_threads (procs s4 p) = p_threads (procs s p) @ [t]" "p_threads (procs s4 (thr_p (threads s t))) = remove1 t (p_threads (procs s (thr_p (threads s t))))"
      "thr_created_tree s4 = (thr_created_tree s)(of_nat i \<mapsto> t)" "thr_idpool s4 = m" "thr_dormant_queue s4 = snd (tq_add (thr_dormant_queue s) t)"
      "thr_free_queue s4 = (thr_free_queue s)\<lparr>tq_que := remove1 t (tq_que (thr_free_queue s))\<rparr>"
      using plk(2) by (cases "threads s t", simp_all add: s4_def s3_def f2 upd_thread_def upd_proc_def)+
    ultimately show thesis using that by blast
  qed
  have "ids_ok s'" by (rule ids_ok_insert [OF ok i(2-4,8,6) nt]) (simp_all add: s')
  moreover have "thr_find_thread_by_tid_nolock s' (of_nat i) = Some t" using i(6,7) by (simp add: thr_find_thread_by_tid_nolock_def s')
  ultimately show ?thesis using s' i(2,5) by (intro exI [of _ i] exI [of _ s']) (simp add: tq_add_def)
qed

section \<open>Destruction\<close>


text \<open>
  A thread that was created but never started is in the queue of dormant threads, so destroying it always fails; and
  before it fails, it is the caller that is taken out of the tree of threads: from then on nobody finds the caller under its id.
\<close>

lemma thr_destroy_dormant:
  assumes t: "t \<noteq> current s" "status (threads s t) = THR_TSTATE_DORMANT" "t \<in> set (tq_que (thr_dormant_queue s))"
    and c: "thr_created_tree s (tid (threads s (current s))) = Some (current s)"
  shows "\<exists>s'. thr_destroy s t = Some (- EMLINK, s') \<and> thr_find_thread_by_tid_nolock s' (tid (threads s' (current s'))) = None \<and>
    t \<in> set (tq_que (thr_dormant_queue s'))"
  using assms by (simp add: thr_destroy_def remove_thread_def thr_linked_def thr_find_thread_by_tid_nolock_def)

text \<open>When there is no memory for the stack the thread is freed, but stays in the list of the threads of the kernel process.\<close>

lemma thr_new_thread_dangling:
  "\<exists>s'. thr_new_thread s (Some t) (Inl rc) = Some (Inl rc, s') \<and> t \<notin> live_threads s' \<and> t \<in> set (p_threads (procs s' (kernel_proc s')))"
  by (simp add: thr_new_thread_def thr_init_kthread_params_def sync_init_object_def valid_wait_status_def lpc_msg_queue_init_def upd_thread_def upd_ext_def upd_proc_def)

section \<open>A small machine\<close>

text \<open>Thread 3, the parent of thread 1, waits on the object \<open>ob\<close>.\<close>

definition small_id_pool :: id_bitmap where
  "small_id_pool = \<lparr>ref_count = \<lparr>counter = 4, deleted = False\<rparr>, reserved_ids = 4, nr_ids = 64, max_array_idx = 1, bmap = Some [0xF]\<rparr>"

definition small_thread :: "nat \<Rightarrow> thread_kernel" where
  "small_thread ob = lpc_kernel.extend (small_lpc ob [])
     (thread_kernel.fields
       (\<lambda>t. \<lparr>ptid = (if t = 1 then 3 else 0), thr_flags = 1, exit_code = 0, children = [], exit_waiters = [], ksp = 500 + t\<rparr>)
       \<lparr>tq_que = [4], tq_cnt = 1\<rparr> tq_init small_id_pool (\<lambda>t. 200 + t) (\<lambda>t. 300 + t) tq_init 400 {1, 2, 3, 4} {501, 502, 503, 504}
       (\<lambda>_. PROC_PSTATE_ACTIVE) (\<lambda>_. 1) [1 \<mapsto> 0] Map.empty [])"

lemma small_thread_simps:
  "threads (small_thread ob) = threads small_sync" "current (small_thread ob) = 1" "idle_thread (small_thread ob) = 0"
  "ready_queues (small_thread ob) = ready_queues small_sync" "thr_created_tree (small_thread ob) = thr_created_tree small_sync" "blocks (small_thread ob) = blocks small_sync"
  "sync_objs (small_thread ob) = (\<lambda>x. \<lparr>wait_kind = THR_TSTATE_WAIT_INTR, so_policy = SYNC_WAKE_FLAG_ALL, so_que = if x = ob then [3] else []\<rparr>)"
  "thr_ext (small_thread ob) = (\<lambda>t. \<lparr>ptid = (if t = 1 then 3 else 0), thr_flags = 1, exit_code = 0, children = [], exit_waiters = [], ksp = 500 + t\<rparr>)"
  "thr_free_queue (small_thread ob) = \<lparr>tq_que = [4], tq_cnt = 1\<rparr>" "thr_dormant_queue (small_thread ob) = tq_init" "reaper_tq (small_thread ob) = tq_init"
  "thr_idpool (small_thread ob) = small_id_pool" "children_wait (small_thread ob) = (\<lambda>t. 200 + t)" "parent_wait (small_thread ob) = (\<lambda>t. 300 + t)"
  "kernel_proc (small_thread ob) = 7" "p_status (small_thread ob) = (\<lambda>_. PROC_PSTATE_ACTIVE)" "procs (small_thread ob) = procs small_sync"
  by (simp_all add: small_thread_def lpc_kernel.defs thread_kernel.defs)
    (simp_all add: small_lpc_def timer_kernel.defs lpc_kernel.defs small_timer_def sync_kernel.defs small_sync_simps)

lemma small_thread_ok: "sched_inv (small_thread ob)" "waiting (small_thread ob) [3]" "quiet (cur_ti (small_thread ob))" "cur_status (small_thread ob) = THR_TSTATE_RUN"
proof -
  show "sched_inv (small_thread ob)" using small_sync_inv by (rule sched_inv_cong) (simp_all add: small_thread_simps small_sync_simps)
  show "waiting (small_thread ob) [3]" by (simp add: waiting_def small_thread_simps small_sync_simps thr_in_wait_def thr_wait_intr_def)
  show "quiet (cur_ti (small_thread ob))" using small_kernel_cur(6) [of 1] by (simp add: small_thread_simps small_sync_simps)
  show "cur_status (small_thread ob) = THR_TSTATE_RUN" by (simp add: small_thread_simps small_sync_simps)
qed

lemma small_pool_used: "used small_id_pool = {0, 1, 2, 3}"
proof -
  have b: "bit (0xF :: u64) j \<longleftrightarrow> j < 4" for j
  proof -
    have "(0xF :: u64) = mask 4" by (simp add: mask_eq_exp_minus_1)
    then show ?thesis by (simp only: bit_mask_iff) auto
  qed
  have "i \<in> used small_id_pool \<longleftrightarrow> i < 4" for i
    using b [of i] by (cases "i < 64") (simp_all add: used_def small_id_pool_def div_greater_zero_iff)
  then have "used small_id_pool = {..<4}" by blast
  also have "\<dots> = {0, 1, 2, 3}" by auto
  finally show ?thesis .
qed

lemma small_ids: "ids_ok (small_thread ob)" "id_left (\<lambda>_. True) small_id_pool ID_BITMAP_USER"
proof -
  have "idmap_ok small_id_pool"
  proof -
    have "bit (0xF :: u64) 0" by simp
    then show ?thesis by (simp add: idmap_ok_def small_id_pool_def)
  qed
  moreover have "idmap_ref_ok small_id_pool" using small_pool_used by (simp add: idmap_ref_ok_def idmap_refs_def) (simp add: small_id_pool_def)
  moreover have "thr_created_tree small_sync = thr_created_tree small_kernel" "tid (threads small_sync t) = of_nat t" for t
    by (simp_all add: small_sync_simps) (simp_all add: small_kernel_def)
  moreover have "thr_created_tree small_kernel = (\<lambda>k. if k = 1 then Some 1 else if k = 2 then Some 2 else if k = 3 then Some 3 else None)"
    by (simp add: small_kernel_def)
  moreover have "\<not> deleted (ref_count small_id_pool)" by (simp add: small_id_pool_def)
  ultimately show "ids_ok (small_thread ob)" by (simp add: ids_ok_def small_thread_simps small_pool_used split: if_splits)
  show "id_left (\<lambda>_. True) small_id_pool ID_BITMAP_USER"
    unfolding id_left_def small_pool_used
  proof (intro conjI)
    show "\<exists>i \<in> id_kind small_id_pool ID_BITMAP_USER. i \<notin> insert 0 {0, 1, 2, 3}" by (rule bexI [of _ 5]) (simp_all add: id_kind_def small_id_pool_def)
  qed (simp_all add: small_id_pool_def)
qed

lemma small_not_linked: "\<not> thr_linked (small_thread ob) 1"
proof -
  have "ready_queues (small_thread ob) = ready_queues small_kernel" by (simp add: small_thread_simps small_sync_simps)
  moreover have "\<not> list_ex (\<lambda>q. 1 \<in> set (tq_que q)) (ready_queues small_kernel)" by code_simp
  ultimately show ?thesis by (simp add: thr_linked_def small_thread_simps tq_init_def)
qed

lemma small_find: "thr_find_thread_by_tid_nolock (small_thread ob) 3 = Some 3"
  by (simp add: thr_find_thread_by_tid_nolock_def small_thread_simps small_sync_simps) (simp add: small_kernel_def small_sync_simps small_thread_simps)

theorem thr_exit_wait_roundtrip_witness:
  "\<exists>u s1. thr_exit (small_thread 203) 9 8 = Some (Exit_wait u 3, s1) \<and> sched_inv s1 \<and> current s1 \<noteq> current (small_thread 203) \<and>
    exit_waiters (thr_ext s1 3) = [current (small_thread 203)] \<and>
    (\<forall>s2 w. sched_inv s2 \<and> current s2 = 3 \<and> cur_status s2 = THR_TSTATE_RUN \<and> quiet (cur_ti s2) \<and> undisturbed s1 s2 \<longrightarrow>
      (\<exists>s3. thr_wait_resume (Child_wait w) 1 THR_WAIT_ID 3 s2 =
          Some (Child_done 0 (Some (tid (threads (small_thread 203) (current (small_thread 203))), 9)), s3) \<and> sched_inv s3 \<and>
        exit_waiters (thr_ext s3 3) = [] \<and> \<not> joinable s3 (current (small_thread 203)) \<and> status (threads s3 (current (small_thread 203))) = THR_TSTATE_READY \<and>
        blk_reason (blocks s3 8) = SYNC_WAI_RELEASED))"
proof (rule thr_exit_wait_roundtrip [OF small_thread_ok(1) _ small_thread_ok(4,3)])
  show "thr_find_thread_by_tid_nolock (small_thread 203) (ptid (thr_ext (small_thread 203) (current (small_thread 203)))) = Some 3"
    using small_find by (simp add: small_thread_simps)
  show "\<not> thr_linked (small_thread 203) (current (small_thread 203))" using small_not_linked by (simp add: small_thread_simps)
  show "waiting (small_thread 203) [3]" by (rule small_thread_ok(2))
  show "asks_for (small_thread 203) 3 1 THR_WAIT_ID (current (small_thread 203))"
    by (simp add: asks_for_def joinable_def small_thread_simps small_sync_simps) (simp add: small_kernel_def)
qed (simp_all add: small_thread_simps small_sync_simps joinable_def valid_wait_status_def)

text \<open>Thread 4 is allocated and free.\<close>

definition free_thread :: thread_kernel where
  "free_thread = upd_thread (small_thread 203) 4 (\<lambda>r. r\<lparr>thr_type := THR_TYPE_NONE, thr_p := 7\<rparr>)"

lemma free_thread_ids: "ids_ok free_thread"
proof -
  have "tid (threads free_thread t) = tid (threads (small_thread 203) t)" for t by (simp add: free_thread_def)
  moreover have "thr_created_tree free_thread = thr_created_tree (small_thread 203)" "thr_idpool free_thread = thr_idpool (small_thread 203)"
    by (simp_all add: free_thread_def upd_thread_def)
  ultimately show ?thesis using small_ids(1) [of 203] by (simp add: ids_ok_def)
qed

theorem thr_create_uthread_spec_witness:
  "\<exists>i s'. thr_create_uthread (\<lambda>_. True) free_thread 4 2 1 0 = Some (0, s') \<and> ids_ok s' \<and> id_allocated (thr_idpool free_thread) ID_BITMAP_USER i (thr_idpool s') \<and>
    thr_created_tree s' = (thr_created_tree free_thread)(of_nat i \<mapsto> 4) \<and> thr_created_tree free_thread (of_nat i) = None \<and>
    thr_find_thread_by_tid_nolock s' (of_nat i) = Some 4 \<and>
    threads s' = (threads free_thread)(4 := (threads free_thread 4)\<lparr>status := THR_TSTATE_DORMANT, prio := 2, tid := of_nat i, thr_type := THR_TYPE_USER, thr_p := 0\<rparr>) \<and>
    p_threads (procs s' 0) = p_threads (procs free_thread 0) @ [4] \<and>
    p_threads (procs s' (thr_p (threads free_thread 4))) = remove1 4 (p_threads (procs free_thread (thr_p (threads free_thread 4)))) \<and>
    tq_que (thr_dormant_queue s') = tq_que (thr_dormant_queue free_thread) @ [4] \<and> tq_que (thr_free_queue s') = remove1 4 (tq_que (thr_free_queue free_thread))"
proof (rule thr_create_uthread_spec [OF free_thread_ids])
  have pool: "thr_idpool free_thread = small_id_pool" by (simp add: free_thread_def upd_thread_def small_thread_simps)
  show "id_left (\<lambda>_. True) (thr_idpool free_thread) ID_BITMAP_USER" unfolding pool by (rule small_ids(2))
  have "kernel_proc free_thread = 7" "p_status free_thread = (\<lambda>_. PROC_PSTATE_ACTIVE)" by (simp_all add: free_thread_def upd_thread_def small_thread_simps)
  then show "0 \<noteq> kernel_proc free_thread" "p_status free_thread 0 \<noteq> PROC_PSTATE_EXIT" by simp_all
qed (simp_all add: free_thread_def small_thread_simps small_sync_simps, simp_all add: small_kernel_def)



text \<open>
  A thread that wakes another one while it ends, a sender that waits for it to listen or a child, has a delayed dispatch pending when \<open>thr_exit\<close> enables
  the dispatcher again.  It gives up the processor there for good, before it has entered the queue of the reaper: its memory
  and its id are never released.
\<close>

lemma exit_before_reaper:
  fixes s :: "'a thread_kernel_scheme"
  assumes inv: "sched_inv s" and st: "cur_status s = THR_TSTATE_EXIT" and ti: "preempt (cur_ti s) = 1" "intrcnt (cur_ti s) = 0" "ti_dispatch_delayed (cur_ti s)"
  shows "\<exists>s'. lock_leave s = Some s' \<and> current s' \<noteq> current s \<and> reaper_tq s' = reaper_tq s \<and> status (threads s' (current s)) = THR_TSTATE_EXIT"
proof -
  define q where "q = with_ti s ((cur_ti s)\<lparr>preempt := THR_PREEMPT_ACTIVE\<rparr>)"
  have ni: "current s \<noteq> idle_thread s" using inv st by (auto simp: sched_inv_def)
  have l: "lock_leave s = sched_schedule q" using lock_leave_outer [OF ti(1,2)] ti(3) by (simp add: q_def)
  have "sched_inv q" "\<not> ti_dispatch_disabled (cur_ti q)" "cur_status q \<noteq> THR_TSTATE_RUN" using inv active_enabled [OF ti(2)] st by (simp_all add: q_def)
  from sched_give_up [OF this] obtain s' where s': "sched_schedule q = Some s'" "same_but_run q s'" "current s' = current q \<longrightarrow> current q = idle_thread q"
    "\<forall>u. u \<noteq> current s' \<longrightarrow> status (threads s' u) = status (threads q u)" by blast
  have "current s' \<noteq> current s" using s'(3) ni by (auto simp: q_def)
  moreover have "reaper_tq s' = reaper_tq s" using thread_frame(11) [of s' q] same_but_run_sync(3) [OF s'(2)] by (simp add: q_def) (simp add: with_ti_def upd_thread_def)
  ultimately show ?thesis using l s'(1,4) st by (auto simp: q_def)
qed

end
