(* ===== verification/Servers.thy ===== *)
theory Servers
  imports Thread
begin

text \<open>
  What the system servers and the system calls do for a client: the event masks of \<^verbatim>\<open>src/kern/thr-server.c\<close>, the sending of
  events and the resources of a thread of \<^verbatim>\<open>src/kern/proc-server.c\<close>, and the wait of \<^verbatim>\<open>src/kern/svc.c\<close>.

  A handler gets the request and the sender and gives the result that goes into the reply; the messages themselves are those of
  theory \<open>Lpc\<close>.  The lock of the thread table is held throughout a handler, and the lock of the process where it is taken.
  \<open>kmalloc i\<close> is the address that the \<open>i\<close>-th allocation gives, \<open>None\<close> for the null pointer.
\<close>

section \<open>The thread server\<close>

abbreviation ENOSYS :: int where "ENOSYS \<equiv> 38"

abbreviation (input) THR_SERV_REQ_GET_EVMSK :: int where "THR_SERV_REQ_GET_EVMSK \<equiv> 0"
abbreviation (input) THR_SERV_REQ_SET_EVMSK :: int where "THR_SERV_REQ_SET_EVMSK \<equiv> 1"

record thr_service =
  ts_req :: int
  ts_rc :: int
  ts_mask :: event_mask

definition handle_get_evmask :: "'a kernel_scheme \<Rightarrow> event_mask \<Rightarrow> u64 \<Rightarrow> int \<times> event_mask" where
  "handle_get_evmask s mk src = (case thr_find_thread_by_tid_nolock s src of
      None \<Rightarrow> (- ENOENT, mk)
    | Some t \<Rightarrow> (0, masks (evque (threads s t))))"

definition handle_set_evmask :: "'a kernel_scheme \<Rightarrow> event_mask \<Rightarrow> u64 \<Rightarrow> (int \<times> event_mask \<times> 'a kernel_scheme) option" where
  "handle_set_evmask s mk src = (case thr_find_thread_by_tid_nolock s src of
      None \<Rightarrow> Some (- ENOENT, mk, s)
    | Some t \<Rightarrow> do {
        mk \<leftarrow> ev_mask_unset mk EV_SIG_KILL;
        Some (0, mk, ev_update_mask s t mk)
      })"

text \<open>One round of the server: the reply and the state.\<close>

definition handle_thr_service :: "'a kernel_scheme \<Rightarrow> u64 \<Rightarrow> thr_service \<Rightarrow> (thr_service \<times> 'a kernel_scheme) option" where
  "handle_thr_service s src m =
     (if ts_req m = THR_SERV_REQ_GET_EVMSK then
        let (rc, mk) = handle_get_evmask s (ts_mask m) src in Some (m\<lparr>ts_mask := mk, ts_rc := rc\<rparr>, s)
      else if ts_req m = THR_SERV_REQ_SET_EVMSK then do {
        (rc, mk, s) \<leftarrow> handle_set_evmask s (ts_mask m) src;
        Some (m\<lparr>ts_mask := mk, ts_rc := rc\<rparr>, s)
      } else Some (m\<lparr>ts_rc := - ENOSYS\<rparr>, s))"

section \<open>The process server\<close>

abbreviation (input) PROC_SERV_SNDEV_THR :: int where "PROC_SERV_SNDEV_THR \<equiv> 0"
abbreviation (input) PROC_SERV_SNDEV_PROC :: int where "PROC_SERV_SNDEV_PROC \<equiv> 1"
abbreviation (input) PROC_SERV_SNDEV_ALLTHR :: int where "PROC_SERV_SNDEV_ALLTHR \<equiv> 2"

record proc_sys_send_event =
  se_dest :: u64
  se_type :: int
  se_id :: u64
  se_data :: u64

text \<open>The node that the server makes of a request.\<close>

definition event_of :: "proc_sys_send_event \<Rightarrow> u64 \<Rightarrow> nat \<Rightarrow> event_node" where
  "event_of sndev src_tid a = \<lparr>node_addr = a, info = zero_evinfo\<lparr>ev_no := se_id sndev, ev_code := EV_SIG_SI_USER, sender_id := src_tid,
     ev_data := se_data sndev, ev_flags := (if se_type sndev = PROC_SERV_SNDEV_THR then EV_FLAGS_THREAD_SPECIFIC else 0)\<rparr>\<rparr>"

text \<open>The second component of the result are the nodes that have been freed.\<close>

definition handle_send_event :: "(nat \<Rightarrow> nat option) \<Rightarrow> 'a kernel_scheme \<Rightarrow> proc_sys_send_event \<Rightarrow> u64 \<Rightarrow> (int \<times> nat list \<times> 'a kernel_scheme) option" where
  "handle_send_event kmalloc s sndev src = (case thr_find_thread_by_tid_nolock s src of
      None \<Rightarrow> Some (- ENOENT, [], s)
    | Some t \<Rightarrow> (case ev_alloc_node (kmalloc 0) True (se_id sndev) of
        (rc, None) \<Rightarrow> Some (rc, [], s)
      | (_, Some node) \<Rightarrow>
          let info' = (info node)\<lparr>sender_id := tid (threads s t), ev_code := EV_SIG_SI_USER, ev_data := se_data sndev\<rparr> in
          if se_type sndev = PROC_SERV_SNDEV_THR then do {
            (rc, s) \<leftarrow> ev_send s (se_dest sndev) (node\<lparr>info := info'\<lparr>ev_flags := EV_FLAGS_THREAD_SPECIFIC\<rparr>\<rparr>);
            if rc \<noteq> 0 then Some (rc, [node_addr node], s) else Some (0, [], s)
          } else if se_type sndev = PROC_SERV_SNDEV_PROC then
            (case thr_find_thread_by_tid_nolock s (se_dest sndev) of
               None \<Rightarrow> Some (- ENOENT, [node_addr node], s)
             | Some d \<Rightarrow> do {
                 s \<leftarrow> ev_send_to_process s (thr_p (threads s d)) (node\<lparr>info := info'\<lparr>ev_flags := 0\<rparr>\<rparr>);
                 Some (0, [], s)
               })
          else if se_type sndev = PROC_SERV_SNDEV_ALLTHR then
            (case thr_find_thread_by_tid_nolock s (se_dest sndev) of
               None \<Rightarrow> Some (- ENOENT, [node_addr node], s)
             | Some d \<Rightarrow> do {
                 (rc, fr, s) \<leftarrow> ev_send_to_all_threads_in_process (\<lambda>i. kmalloc (Suc i)) True s (thr_p (threads s d)) (node\<lparr>info := info'\<lparr>ev_flags := 0\<rparr>\<rparr>);
                 Some (rc, fr @ [node_addr node], s)
               })
          else Some (0, [], s)))"

text \<open>The loop that reads the resources again when they have changed in between ends at once, as the lock is held.\<close>

definition handle_get_thread_resource :: "'a timer_kernel_scheme \<Rightarrow> u64 \<Rightarrow> thread_resource \<Rightarrow> int \<times> thread_resource" where
  "handle_get_thread_resource s i res = (case thr_find_thread_by_tid_nolock s i of
      None \<Rightarrow> (- ENOENT, res)
    | Some t \<Rightarrow> (0, thr_resource s t))"

section \<open>The wait for a child\<close>

text \<open>
  The system call up to the wait itself; \<open>None\<close> also stands for the use of the null pointer that the search of the thread
  gives.  What is copied to the caller is the pair in \<open>Child_done\<close>.
\<close>

definition svc_thr_wait :: "'a thread_kernel_scheme \<Rightarrow> u64 \<Rightarrow> u32 \<Rightarrow> nat \<Rightarrow> (child_stage \<times> 'a thread_kernel_scheme) option" where
  "svc_thr_wait s wait_tid user_wflags b =
     (let wflags = user_wflags AND 0x17 in
      case thr_find_thread_by_tid_nolock s wait_tid of
        None \<Rightarrow> if wflags AND THR_WAIT_ID \<noteq> 0 then Some (Child_done (- ENOENT) None, s) else None
      | Some t \<Rightarrow>
          if thr_type (threads s t) = THR_TYPE_KERNEL \<and> wflags AND THR_WAIT_ID \<noteq> 0 then Some (Child_done (- EPERM) None, s)
          else thr_wait s wait_tid wflags b)"

section \<open>Lemmas\<close>

lemma find_upd_mask: "thr_find_thread_by_tid_nolock (ev_update_mask s t mk) i = thr_find_thread_by_tid_nolock s i"
  by (auto simp: thr_find_thread_by_tid_nolock_def ev_update_mask_def upd_thread_def split: option.splits)

lemma events_inv_update_mask:
  assumes "events_inv s" "mask_ok mk"
  shows "events_inv (ev_update_mask s t mk)"
proof -
  have "queues_hold s {current s}" using assms(1) by (simp add: events_but_def sched_inv_def)
  then have "queues_hold (ev_update_mask s t mk) {current s}" unfolding ev_update_mask_def by (rule queues_hold_cong) simp_all
  then have "sched_inv (ev_update_mask s t mk)" using assms(1) by (auto simp: events_but_def sched_inv_def ev_update_mask_def)
  moreover have "evq_ok (q\<lparr>masks := mk\<rparr>)" if "evq_ok q" for q using that assms(2) by (simp add: evq_ok_def)
  ultimately show ?thesis using assms by (auto simp: events_but_def ev_update_mask_def thr_wait_intr_def thr_wait_killable_def)
qed

lemma handle_send_event_node:
  assumes "thr_find_thread_by_tid_nolock s src = Some t" "kmalloc 0 = Some a"
  shows "handle_send_event kmalloc s sndev src =
    (let n = event_of sndev (tid (threads s t)) a in
     if se_type sndev = PROC_SERV_SNDEV_THR then do {
       (rc, s) \<leftarrow> ev_send s (se_dest sndev) n;
       if rc \<noteq> 0 then Some (rc, [a], s) else Some (0, [], s)
     } else if se_type sndev = PROC_SERV_SNDEV_PROC then
       (case thr_find_thread_by_tid_nolock s (se_dest sndev) of
          None \<Rightarrow> Some (- ENOENT, [a], s)
        | Some d \<Rightarrow> do { s \<leftarrow> ev_send_to_process s (thr_p (threads s d)) n; Some (0, [], s) })
     else if se_type sndev = PROC_SERV_SNDEV_ALLTHR then
       (case thr_find_thread_by_tid_nolock s (se_dest sndev) of
          None \<Rightarrow> Some (- ENOENT, [a], s)
        | Some d \<Rightarrow> do { (rc, fr, s) \<leftarrow> ev_send_to_all_threads_in_process (\<lambda>i. kmalloc (Suc i)) True s (thr_p (threads s d)) n; Some (rc, fr @ [a], s) })
     else Some (0, [], s))"
  by (cases "thr_find_thread_by_tid_nolock s (se_dest sndev)")
    (use assms in \<open>simp_all add: handle_send_event_def ev_alloc_node_def event_of_def zero_evinfo_def Let_def cong: if_cong\<close>)

section \<open>Properties\<close>

text \<open>
  The event mask of a thread through the thread server.  A request of a thread that is not known or is exiting gives
  \<open>-ENOENT\<close> and changes nothing.  Otherwise setting a mask returns 0, the next request for the mask gives
  back what was set without the kill event, which can therefore not be masked, and the reply of the first request holds the same mask;
  every other thread keeps its own, and the queues stay well-formed.
\<close>

theorem thr_evmask_roundtrip:
  assumes inv: "events_inv s" and mk: "mask_ok mk"
  shows "case thr_find_thread_by_tid_nolock s src of
      None \<Rightarrow> handle_thr_service s src \<lparr>ts_req = THR_SERV_REQ_SET_EVMSK, ts_rc = 0, ts_mask = mk\<rparr> = Some (\<lparr>ts_req = THR_SERV_REQ_SET_EVMSK, ts_rc = - ENOENT, ts_mask = mk\<rparr>, s)
    | Some t \<Rightarrow> \<exists>mk' s'. handle_thr_service s src \<lparr>ts_req = THR_SERV_REQ_SET_EVMSK, ts_rc = 0, ts_mask = mk\<rparr> = Some (\<lparr>ts_req = THR_SERV_REQ_SET_EVMSK, ts_rc = 0, ts_mask = mk'\<rparr>, s') \<and>
        (\<forall>mk0. handle_thr_service s' src \<lparr>ts_req = THR_SERV_REQ_GET_EVMSK, ts_rc = 0, ts_mask = mk0\<rparr> = Some (\<lparr>ts_req = THR_SERV_REQ_GET_EVMSK, ts_rc = 0, ts_mask = mk'\<rparr>, s')) \<and>
        ev_set mk' = ev_set mk - {unat EV_SIG_KILL} \<and> ev_mask_test (masks (evque (threads s' t))) EV_SIG_KILL = Some False \<and>
        (\<forall>u. u \<noteq> t \<longrightarrow> threads s' u = threads s u) \<and> events_inv s'"
proof (cases "thr_find_thread_by_tid_nolock s src")
  case None
  then show ?thesis by (simp add: handle_thr_service_def handle_set_evmask_def)
next
  case (Some t)
  from ev_mask_unset_eq [OF mk, of EV_SIG_KILL] obtain mk' where
    m: "ev_mask_unset mk EV_SIG_KILL = Some mk'" "mask_ok mk'" "ev_set mk' = ev_set mk - {unat EV_SIG_KILL}" by auto
  define s' where "s' = ev_update_mask s t mk'"
  have f: "thr_find_thread_by_tid_nolock s' src = Some t" using Some by (simp add: s'_def find_upd_mask)
  have e: "masks (evque (threads s' t)) = mk'" "u \<noteq> t \<Longrightarrow> threads s' u = threads s u" for u by (simp_all add: s'_def ev_update_mask_def upd_thread_def)
  have "events_inv s'" unfolding s'_def by (rule events_inv_update_mask [OF inv m(2)])
  then show ?thesis using Some f m e ev_mask_test_eq [OF m(2), of EV_SIG_KILL]
    by (auto simp: handle_thr_service_def handle_set_evmask_def handle_get_evmask_def s'_def [symmetric] intro!: exI [of _ mk'] exI [of _ s'])
qed

text \<open>
  Sending an event through the process server.  The event number is in range.  A sender that is not known gives \<open>-ENOENT\<close>, no memory
  \<open>-ENOMEM\<close>, both without effect.  Otherwise one node is made of the request, with the id of the sender, and it is either queued once or freed
  once: a destination that is not known gives \<open>-ENOENT\<close>, an event for a single kernel thread \<open>-EPERM\<close>, and the
  node is freed; else the result is 0 and the node is posted to the thread or, for the second type, to the process of
  the destination, exactly the threads whose interruptible wait it ends are made ready, and nothing else changes.
\<close>

theorem handle_send_event_spec:
  assumes inv: "events_inv s" and no: "unat (se_id ev) < EV_NR_EVENT" and ty: "se_type ev = PROC_SERV_SNDEV_THR \<or> se_type ev = PROC_SERV_SNDEV_PROC"
  shows "case thr_find_thread_by_tid_nolock s src of
      None \<Rightarrow> handle_send_event kmalloc s ev src = Some (- ENOENT, [], s)
    | Some t \<Rightarrow> (case kmalloc 0 of
        None \<Rightarrow> handle_send_event kmalloc s ev src = Some (- ENOMEM, [], s)
      | Some a \<Rightarrow> (case thr_find_thread_by_tid_nolock s (se_dest ev) of
          None \<Rightarrow> handle_send_event kmalloc s ev src = Some (- ENOENT, [a], s)
        | Some d \<Rightarrow>
            if se_type ev = PROC_SERV_SNDEV_PROC then
              \<exists>q s'. handle_send_event kmalloc s ev src = Some (0, [], s') \<and> posted (p_evque (procs s (thr_p (threads s d)))) (event_of ev (tid (threads s t)) a) q \<and>
                ev_keeps (upd_proc s (thr_p (threads s d)) (p_evque_update (\<lambda>_. q))) s' \<and> events_inv s' \<and>
                (\<forall>u. status (threads s' u) = (if u \<in> set (p_threads (procs s (thr_p (threads s d)))) \<and> interrupts s u (se_id ev) then THR_TSTATE_READY else status (threads s u)))
            else if thr_type (threads s d) = THR_TYPE_KERNEL then handle_send_event kmalloc s ev src = Some (- EPERM, [a], s)
            else
              \<exists>q s'. handle_send_event kmalloc s ev src = Some (0, [], s') \<and> posted (evque (threads s d)) (event_of ev (tid (threads s t)) a) q \<and>
                ev_keeps (upd_thread s d (evque_update (\<lambda>_. q))) s' \<and> events_inv s' \<and>
                (\<forall>u. status (threads s' u) = (if u = d \<and> interrupts s d (se_id ev) then THR_TSTATE_READY else status (threads s u)))))"
proof (cases "thr_find_thread_by_tid_nolock s src")
  case None
  then show ?thesis by (simp add: handle_send_event_def)
next
  case t: (Some t)
  show ?thesis
  proof (cases "kmalloc 0")
    case None
    then show ?thesis using t by (simp add: handle_send_event_def ev_alloc_node_def)
  next
    case a: (Some a)
    define n where "n = event_of ev (tid (threads s t)) a"
    have ne: "ev_no (info n) = se_id ev" by (simp add: n_def event_of_def)
    have nn: "unat (ev_no (info n)) < EV_NR_EVENT" using no ne by simp
    note H = handle_send_event_node [OF t, of kmalloc a ev, OF a, unfolded n_def [symmetric] Let_def]
    show ?thesis
    proof (cases "thr_find_thread_by_tid_nolock s (se_dest ev)")
      case None
      then show ?thesis using t a ty by (auto simp: H ev_send_def)
    next
      case d: (Some d)
      show ?thesis
      proof (cases "se_type ev = PROC_SERV_SNDEV_PROC")
        case True
        from ev_send_to_process_ok [OF inv nn, of "thr_p (threads s d)"] show ?thesis using True t a d by (auto simp: H n_def [symmetric] ne)
      next
        case False
        then have z: "se_type ev = 0" using ty by simp
        show ?thesis
        proof (cases "thr_type (threads s d) = THR_TYPE_KERNEL")
          case True
          then show ?thesis using z t a d by (simp add: H ev_send_def)
        next
          case user: False
          from ev_send_ok [OF inv nn d user] show ?thesis using z t a d user by (auto simp: H n_def [symmetric] ne)
        qed
      qed
    qed
  qed
qed

theorem thr_evmask_roundtrip_witness:
  "\<exists>mk' s'. handle_thr_service small_kernel 3 \<lparr>ts_req = THR_SERV_REQ_SET_EVMSK, ts_rc = 0, ts_mask = \<lparr>map_words = [- 1, - 1]\<rparr>\<rparr> =
        Some (\<lparr>ts_req = THR_SERV_REQ_SET_EVMSK, ts_rc = 0, ts_mask = mk'\<rparr>, s') \<and>
      handle_thr_service s' 3 \<lparr>ts_req = THR_SERV_REQ_GET_EVMSK, ts_rc = 0, ts_mask = \<lparr>map_words = [0, 0]\<rparr>\<rparr> =
        Some (\<lparr>ts_req = THR_SERV_REQ_GET_EVMSK, ts_rc = 0, ts_mask = mk'\<rparr>, s') \<and>
      ev_set mk' = ev_set \<lparr>map_words = [- 1, - 1]\<rparr> - {unat EV_SIG_KILL} \<and> events_inv s'"
proof -
  have "mask_ok \<lparr>map_words = [- 1, - 1]\<rparr>" by (simp add: mask_ok_def)
  moreover have "thr_find_thread_by_tid_nolock small_kernel 3 = Some 3" by (simp add: small_kernel_def thr_find_thread_by_tid_nolock_def)
  ultimately show ?thesis using thr_evmask_roundtrip [OF small_kernel_events, of "\<lparr>map_words = [- 1, - 1]\<rparr>" 3] by fastforce
qed

text \<open>An event of number 5 from thread 3 to itself.\<close>

definition some_send :: proc_sys_send_event where
  "some_send = \<lparr>se_dest = 3, se_type = PROC_SERV_SNDEV_THR, se_id = 5, se_data = 0\<rparr>"

theorem handle_send_event_spec_witness:
  "\<exists>q s'. handle_send_event (\<lambda>_. Some 100) small_kernel some_send 3 = Some (0, [], s') \<and>
    posted (evque (threads small_kernel 3)) (event_of some_send 3 100) q \<and> evque (threads s' 3) = q \<and> events_inv s'"
proof -
  have f: "thr_find_thread_by_tid_nolock small_kernel 3 = Some 3" by (simp add: small_kernel_def thr_find_thread_by_tid_nolock_def)
  have t: "tid (threads small_kernel 3) = 3" "thr_type (threads small_kernel 3) \<noteq> THR_TYPE_KERNEL" by (simp_all add: small_kernel_def)
  show ?thesis using handle_send_event_spec [OF small_kernel_events, of some_send "\<lambda>_. Some 100" 3] f t
    by (auto simp: some_send_def ev_keeps_def upd_thread_def)
qed

text \<open>
  What the checks leave out.  A wait for any child, which need not name a thread, uses the null pointer when the
  number it passes is that of no thread.  A type of event that is not known is reported as sent while its node
  is neither queued nor freed, and an event number out of range stops the kernel.
\<close>

lemma svc_thr_wait_null_pointer:
  assumes "thr_find_thread_by_tid_nolock s i = None" and "wflags AND THR_WAIT_ID = 0"
  shows "svc_thr_wait s i wflags b = None"
proof -
  have "(0x17 :: u32) AND 4 = 4" by simp
  then have "(wflags AND 0x17) AND THR_WAIT_ID = wflags AND THR_WAIT_ID" by (metis and.assoc)
  then show ?thesis using assms by (simp add: svc_thr_wait_def Let_def)
qed

lemma unknown_send_type_leaks:
  assumes "thr_find_thread_by_tid_nolock s src = Some t" and "kmalloc 0 = Some a" and "se_type ev \<notin> {0, 1, 2}"
  shows "handle_send_event kmalloc s ev src = Some (0, [], s)"
  using handle_send_event_node [OF assms(1), of kmalloc a ev, OF assms(2)] assms(3) by (simp add: Let_def)

lemma send_event_out_of_range:
  "handle_send_event (\<lambda>_. Some 100) small_kernel (some_send\<lparr>se_id := 200\<rparr>) 3 = None"
proof -
  have "thr_find_thread_by_tid_nolock small_kernel 3 = Some 3" "thr_type (threads small_kernel 3) \<noteq> THR_TYPE_KERNEL"
    by (simp_all add: small_kernel_def thr_find_thread_by_tid_nolock_def)
  then show ?thesis
    by (simp add: handle_send_event_node [of _ _ 3 _ 100] some_send_def event_of_def ev_send_def Let_def)
qed

end
