(* ===== verification/Pgtbl.thy ===== *)
theory Pgtbl
  imports Page_Owner
begin

text \<open>
  The user page tables of \<^verbatim>\<open>src/hal/x86-64/mm/pgtbl.c\<close> and \<^verbatim>\<open>src/include/x86-64/pgtbl.h\<close>.

  A page table is a page of memory: the four levels are read and written as 64-bit words of the
  memory \<open>mem\<close> of the page pool, at the addresses the code computes, and the pages come from and
  go back to that pool.  A page table is named by its kernel address, an address space by the
  address of its top table \<^verbatim>\<open>as->pgtbl\<close>, which is 0 for \<^verbatim>\<open>NULL\<close>.  The translation cache is not
  modelled: \<open>invalidate_tlb\<close> empties it after every change of an entry.
\<close>

section \<open>Words in memory\<close>

definition read64 :: "(u64 \<Rightarrow> u8) \<Rightarrow> u64 \<Rightarrow> u64" where
  "read64 m a = word_rcat (rev (map (\<lambda>i. m (a + of_nat i)) [0..<8]))"

definition write64 :: "(u64 \<Rightarrow> u8) \<Rightarrow> u64 \<Rightarrow> u64 \<Rightarrow> (u64 \<Rightarrow> u8)" where
  "write64 m a v = (\<lambda>x. if x - a < 8 then ucast (drop_bit (8 * unat (x - a)) v) else m x)"

lemma bit_read64: "bit (read64 m a) n \<longleftrightarrow> n < 64 \<and> bit (m (a + of_nat (n div 8))) (n mod 8)"
proof -
  define ws where "ws = map (\<lambda>i. m (a + of_nat i)) [0..<8]"
  have "bit (read64 m a) n \<longleftrightarrow> n < 64 \<and> n div 8 < length ws \<and> bit (ws ! (n div 8)) (n mod 8)"
    using bit_horner_sum_uint_exp_iff [of ws n] by (simp add: read64_def word_rcat_def ws_def [symmetric] bit_word_of_int_iff)
  moreover have "length ws = 8" "n < 64 \<Longrightarrow> ws ! (n div 8) = m (a + of_nat (n div 8))" by (simp_all add: ws_def less_mult_imp_div_less del: upt_Suc)
  ultimately show ?thesis by auto
qed

lemma read64_cong: "(\<And>i. i < 8 \<Longrightarrow> m (a + of_nat i) = m' (a + of_nat i)) \<Longrightarrow> read64 m a = read64 m' a"
  by (rule bit_eqI) (simp add: bit_read64 less_mult_imp_div_less)

lemma read64_write64_same: "read64 (write64 m a v) a = v"
proof (rule bit_word_eqI)
  fix n assume "n < LENGTH(64)"
  then have n: "n < 64" by simp
  then have k: "n div 8 < 8" by simp
  have u: "unat (of_nat (n div 8) :: u64) = n div 8" using k by (simp add: unat_of_nat)
  have lt: "(of_nat (n div 8) :: u64) < 8" using k u by (simp add: word_less_nat_alt)
  have "n mod 8 < Suc (Suc (Suc (Suc (Suc (Suc (Suc (Suc 0)))))))" using mod_less_divisor [of 8 n] by linarith
  then show "bit (read64 (write64 m a v) a) n = bit v n"
    using n lt u unfolding bit_read64 write64_def by (simp add: bit_ucast_iff bit_drop_bit_eq add.commute)
qed

text \<open>Two aligned ranges of the same size are equal or have no byte in common.\<close>

lemma aligned_range:
  fixes a x :: u64
  assumes "2 ^ k dvd unat a" and "k < 64"
  shows "x - a < 2 ^ k \<longleftrightarrow> unat x div 2 ^ k = unat a div 2 ^ k"
proof -
  define n :: nat where "n = 2 ^ k"
  have "n < 2 ^ 64" using assms(2) unfolding n_def by (intro power_strict_increasing) simp_all
  then have n: "unat (2 ^ k :: u64) = n" using unat_of_nat [of n, where 'a = 64] by (simp add: n_def)
  obtain q where q: "unat a = n * q" using assms(1) by (auto simp: n_def dvd_def)
  have n0: "0 < n" by (simp add: n_def)
  obtain r where r: "2 ^ 64 = n * r" using assms(2) by (metis le_imp_power_dvd dvdE less_imp_le n_def)
  have "n * q < n * r" using q r unsigned_less [of a, where ?'a = nat] by simp
  then have "Suc q \<le> r" using n0 by simp
  then have top: "n * q + n \<le> 2 ^ 64" unfolding r by (metis mult_Suc_right add.commute mult_le_mono2)
  have "unat (x - a) < n \<longleftrightarrow> unat x div n = q"
  proof (cases "n * q \<le> unat x")
    case True
    then have y: "unat x = n * q + unat (x - a)" by (simp add: unat_sub_if' q)
    show ?thesis using n0 by (subst y) (simp add: div_eq_0_iff)
  next
    case False
    then have "unat x div n < q" using n0 by (simp add: div_less_iff_less_mult mult.commute)
    then show ?thesis using False top by (simp add: unat_sub_if' q)
  qed
  then show ?thesis using n0 by (simp add: word_less_nat_alt n q n_def [symmetric])
qed


lemma read64_write64_other:
  assumes "8 dvd unat a" and "8 dvd unat b" and "a \<noteq> b"
  shows "read64 (write64 m a v) b = read64 m b"
proof (rule read64_cong)
  fix i :: nat assume i: "i < 8"
  have "unat (of_nat i :: u64) < 8" using i by (simp add: unat_of_nat)
  then have "b + of_nat i - b < 2 ^ 3" by (simp add: word_less_nat_alt)
  then have "unat (b + of_nat i) div 8 = unat b div 8" using aligned_range [of 3 b "b + of_nat i"] assms(2) by simp
  moreover have "unat b div 8 \<noteq> unat a div 8" using assms by (metis dvd_div_eq_cancel word_unat_eq_iff)
  ultimately have "\<not> b + of_nat i - a < 8" using aligned_range [of 3 a "b + of_nat i"] assms(1) by simp
  then show "write64 m a v (b + of_nat i) = m (b + of_nat i)" by (simp add: write64_def)
qed

section \<open>Entries\<close>

abbreviation PGTBL_ENTRY_MAX :: nat where "PGTBL_ENTRY_MAX \<equiv> 512"

abbreviation PAGE_PRESENT :: u64 where "PAGE_PRESENT \<equiv> 1"
abbreviation PAGE_WRITABLE :: u64 where "PAGE_WRITABLE \<equiv> 2"
abbreviation PAGE_USER :: u64 where "PAGE_USER \<equiv> 4"
abbreviation PAGE_PGTBLBITS :: u64 where "PAGE_PGTBLBITS \<equiv> PAGE_PRESENT OR PAGE_WRITABLE"
abbreviation PAGE_EXECUTE_DISABLE :: u64 where "PAGE_EXECUTE_DISABLE \<equiv> 0x8000000000000000"

definition PT_INDEX :: "u64 \<Rightarrow> u64" where "PT_INDEX vaddr = drop_bit 12 vaddr AND 0x1ff"
definition PD_INDEX :: "u64 \<Rightarrow> u64" where "PD_INDEX vaddr = drop_bit 21 vaddr AND 0x1ff"
definition PDPT_INDEX :: "u64 \<Rightarrow> u64" where "PDPT_INDEX vaddr = drop_bit 30 vaddr AND 0x1ff"
definition PML4_INDEX :: "u64 \<Rightarrow> u64" where "PML4_INDEX vaddr = drop_bit 39 vaddr AND 0x1ff"

definition PAGE_START :: "u64 \<Rightarrow> u64" where "PAGE_START addr = addr AND NOT (PAGE_SIZE - 1)"
definition PAGE_NEXT :: "u64 \<Rightarrow> u64" where "PAGE_NEXT addr = PAGE_START addr + PAGE_SIZE"
definition PAGE_ALIGNED :: "u64 \<Rightarrow> bool" where "PAGE_ALIGNED addr \<longleftrightarrow> addr AND (PAGE_SIZE - 1) = 0"

text \<open>Entry \<open>i\<close> of the table at \<open>tbl\<close>.\<close>

definition get_ent :: "page_pool \<Rightarrow> u64 \<Rightarrow> u64 \<Rightarrow> u64" where
  "get_ent s tbl i = read64 (mem s) (tbl + 8 * i)"

definition set_ent :: "page_pool \<Rightarrow> u64 \<Rightarrow> u64 \<Rightarrow> u64 \<Rightarrow> page_pool" where
  "set_ent s tbl i v = s\<lparr>mem := write64 (mem s) (tbl + 8 * i) v\<rparr>"

definition get_pml4_ent :: "page_pool \<Rightarrow> u64 \<Rightarrow> u64 \<Rightarrow> u64" where
  "get_pml4_ent s kpgtbl vaddr = get_ent s kpgtbl (PML4_INDEX vaddr)"

definition get_pdp_ent :: "page_pool \<Rightarrow> u64 \<Rightarrow> u64 \<Rightarrow> u64" where
  "get_pdp_ent s pdptbl vaddr = get_ent s pdptbl (PDPT_INDEX vaddr)"

definition get_pdir_ent :: "page_pool \<Rightarrow> u64 \<Rightarrow> u64 \<Rightarrow> u64" where
  "get_pdir_ent s pdirtbl vaddr = get_ent s pdirtbl (PD_INDEX vaddr)"

definition get_pte_ent :: "page_pool \<Rightarrow> u64 \<Rightarrow> u64 \<Rightarrow> u64" where
  "get_pte_ent s ptetbl vaddr = get_ent s ptetbl (PT_INDEX vaddr)"

definition set_pml4_ent :: "page_pool \<Rightarrow> u64 \<Rightarrow> u64 \<Rightarrow> u64 \<Rightarrow> page_pool" where
  "set_pml4_ent s kpgtbl vaddr val = set_ent s kpgtbl (PML4_INDEX vaddr) val"

definition set_pdp_ent :: "page_pool \<Rightarrow> u64 \<Rightarrow> u64 \<Rightarrow> u64 \<Rightarrow> page_pool" where
  "set_pdp_ent s pdptbl vaddr val = set_ent s pdptbl (PDPT_INDEX vaddr) val"

definition set_pdir_ent :: "page_pool \<Rightarrow> u64 \<Rightarrow> u64 \<Rightarrow> u64 \<Rightarrow> page_pool" where
  "set_pdir_ent s pdirtbl vaddr val = set_ent s pdirtbl (PD_INDEX vaddr) val"

definition set_pte_ent :: "page_pool \<Rightarrow> u64 \<Rightarrow> u64 \<Rightarrow> u64 \<Rightarrow> page_pool" where
  "set_pte_ent s ptetbl vaddr val = set_ent s ptetbl (PT_INDEX vaddr) val"

definition get_ent_addr :: "u64 \<Rightarrow> u64" where "get_ent_addr ent = PAGE_START ent"
definition get_ent_attr :: "u64 \<Rightarrow> u64" where "get_ent_attr ent = ent AND (PAGE_SIZE - 1)"

text \<open>\<open>pdp_present\<close>, \<open>pdir_present\<close>, \<open>pte_present\<close> and \<open>page_present\<close> are one macro under four names.\<close>

definition present :: "u64 \<Rightarrow> bool" where "present ent \<longleftrightarrow> ent AND PAGE_PRESENT \<noteq> 0"

section \<open>Protection\<close>

abbreviation VMA_PROT_NONE :: u32 where "VMA_PROT_NONE \<equiv> 0"
abbreviation VMA_PROT_R :: u32 where "VMA_PROT_R \<equiv> 1"
abbreviation VMA_PROT_W :: u32 where "VMA_PROT_W \<equiv> 2"
abbreviation VMA_PROT_X :: u32 where "VMA_PROT_X \<equiv> 4"

definition vma_prot_to_page_flags :: "u32 \<Rightarrow> u64" where
  "vma_prot_to_page_flags prot =
     (let v = PAGE_PRESENT OR PAGE_USER in
      if prot = VMA_PROT_NONE then 0
      else
        let v = (if prot AND VMA_PROT_W \<noteq> 0 then v OR PAGE_WRITABLE else v) in
        if prot AND VMA_PROT_X = 0 then v OR PAGE_EXECUTE_DISABLE else v)"

definition page_flags_to_vma_prot :: "u64 \<Rightarrow> u32" where
  "page_flags_to_vma_prot prot_bits =
     (if prot_bits AND PAGE_PRESENT = 0 then VMA_PROT_NONE
      else
        let v = VMA_PROT_R;
            v = (if prot_bits AND PAGE_WRITABLE \<noteq> 0 then v OR VMA_PROT_W else v) in
        if prot_bits AND PAGE_EXECUTE_DISABLE = 0 then v OR VMA_PROT_X else v)"

section \<open>Tables\<close>

text \<open>
  \<open>alloc_pdp_tbl\<close>, \<open>alloc_pdir_tbl\<close> and \<open>alloc_pte_tbl\<close> differ in the entry they read and write, \<open>get_e\<close> and
  \<open>set_e\<close> below.
\<close>

definition alloc_tbl ::
  "(page_pool \<Rightarrow> u64 \<Rightarrow> u64 \<Rightarrow> u64) \<Rightarrow> (page_pool \<Rightarrow> u64 \<Rightarrow> u64 \<Rightarrow> u64 \<Rightarrow> page_pool) \<Rightarrow>
   page_pool \<Rightarrow> u64 \<Rightarrow> u64 \<Rightarrow> (int \<times> u64 option \<times> page_pool) option" where
  "alloc_tbl get_e set_e s tbl vaddr = do {
     let ent = get_e s tbl vaddr;
     if \<not> present ent then do {
       (rc, new_tbl, s) \<leftarrow> get_free_page s;
       if rc \<noteq> 0 then Some (rc, None, s)
       else do {
         new_tbl \<leftarrow> new_tbl;
         let s = s\<lparr>mem := memset64 (mem s) new_tbl 0 PAGE_SIZE\<rparr>;
         let paddr = kern_straight_to_phy new_tbl;
         let s = set_e s tbl vaddr (paddr OR PAGE_PGTBLBITS OR PAGE_USER);
         let ent = get_e s tbl vaddr;
         Some (0, Some (phy_to_kern_straight (get_ent_addr ent)), s)
       }
     } else Some (0, Some (phy_to_kern_straight (get_ent_addr ent)), s)
   }"

definition alloc_pdp_tbl :: "page_pool \<Rightarrow> u64 \<Rightarrow> u64 \<Rightarrow> (int \<times> u64 option \<times> page_pool) option" where
  "alloc_pdp_tbl = alloc_tbl get_pml4_ent set_pml4_ent"

definition alloc_pdir_tbl :: "page_pool \<Rightarrow> u64 \<Rightarrow> u64 \<Rightarrow> (int \<times> u64 option \<times> page_pool) option" where
  "alloc_pdir_tbl = alloc_tbl get_pdp_ent set_pdp_ent"

definition alloc_pte_tbl :: "page_pool \<Rightarrow> u64 \<Rightarrow> u64 \<Rightarrow> (int \<times> u64 option \<times> page_pool) option" where
  "alloc_pte_tbl = alloc_tbl get_pdir_ent set_pdir_ent"

text \<open>
  \<open>as\<close> is the top table of the address space; every operation below asserts that the caller holds the mutex
  of the address space, which is checked in theory \<open>Vm\<close>.
\<close>

definition hal_map_user_page :: "page_pool \<Rightarrow> u64 \<Rightarrow> u64 \<Rightarrow> u64 \<Rightarrow> u32 \<Rightarrow> (int \<times> page_pool) option" where
  "hal_map_user_page s as vaddr kpaddr prot = do {
     kassert (as \<noteq> 0);
     let page_attr = vma_prot_to_page_flags prot;
     if page_attr = 0 then Some (0, s)
     else do {
       (rc, pdp_addr, s) \<leftarrow> alloc_pdp_tbl s as vaddr;
       kassert (rc = 0);
       pdp_addr \<leftarrow> pdp_addr;
       (rc, pdir_addr, s) \<leftarrow> alloc_pdir_tbl s pdp_addr vaddr;
       kassert (rc = 0);
       pdir_addr \<leftarrow> pdir_addr;
       (rc, pte_addr, s) \<leftarrow> alloc_pte_tbl s pdir_addr vaddr;
       kassert (rc = 0);
       pte_addr \<leftarrow> pte_addr;
       let kpaddr = PAGE_START kpaddr;
       let page_attr = page_attr AND (PAGE_SIZE - 1);
       let s = set_pte_ent s pte_addr vaddr (kern_straight_to_phy kpaddr OR page_attr);
       s \<leftarrow> inc_page_map_count s kpaddr;
       Some (0, s)
     }
   }"

text \<open>The walk that \<open>hal_translate_user_page\<close> and \<open>hal_unmap_user_page\<close> start with: the last table and its entry.\<close>

definition find_pte :: "page_pool \<Rightarrow> u64 \<Rightarrow> u64 \<Rightarrow> (u64 \<times> u64) option" where
  "find_pte s as vaddr =
     (let pml4_ent = get_pml4_ent s as vaddr in
      if \<not> present pml4_ent then None
      else let pdp_ent = get_pdp_ent s (phy_to_kern_straight (get_ent_addr pml4_ent)) vaddr in
      if \<not> present pdp_ent then None
      else let pdir_ent = get_pdir_ent s (phy_to_kern_straight (get_ent_addr pdp_ent)) vaddr in
      if \<not> present pdir_ent then None
      else let pte_ent = get_pte_ent s (phy_to_kern_straight (get_ent_addr pdir_ent)) vaddr in
      if \<not> present pte_ent then None
      else Some (phy_to_kern_straight (get_ent_addr pdir_ent), pte_ent))"

definition hal_translate_user_page :: "page_pool \<Rightarrow> u64 \<Rightarrow> u64 \<Rightarrow> (int \<times> (u64 \<times> u32) option) option" where
  "hal_translate_user_page s as vaddr = do {
     kassert (as \<noteq> 0);
     case find_pte s as vaddr of
       None \<Rightarrow> Some (- ENOENT, None)
     | Some (_, pte_ent) \<Rightarrow>
         Some (0, Some (phy_to_kern_straight (get_ent_addr pte_ent), page_flags_to_vma_prot (get_ent_attr pte_ent)))
   }"

definition hal_unmap_user_page :: "page_pool \<Rightarrow> u64 \<Rightarrow> u64 \<Rightarrow> (int \<times> page_pool) option" where
  "hal_unmap_user_page s as vaddr = do {
     kassert (as \<noteq> 0);
     case find_pte s as vaddr of
       None \<Rightarrow> Some (- ENOENT, s)
     | Some (pte_tbl, pte_ent) \<Rightarrow> do {
         let paddr = get_ent_addr pte_ent;
         let s = set_pte_ent s pte_tbl vaddr 0;
         s \<leftarrow> dec_page_map_count s (phy_to_kern_straight paddr);
         Some (0, s)
       }
   }"

text \<open>
  The loops over the entries of a table that is freed: entries \<open>i\<close> up to \<open>i + n - 1\<close>, \<open>act\<close> what is done with the
  address in a present entry.
\<close>

fun free_entries :: "(page_pool \<Rightarrow> u64 \<Rightarrow> page_pool option) \<Rightarrow> u64 \<Rightarrow> nat \<Rightarrow> nat \<Rightarrow> page_pool \<Rightarrow> page_pool option" where
  "free_entries act tbl i 0 s = Some s"
| "free_entries act tbl i (Suc n) s = do {
     let ent = get_ent s tbl (of_nat i);
     s \<leftarrow> (if present ent then act (set_ent s tbl (of_nat i) 0) (phy_to_kern_straight (get_ent_addr ent)) else Some s);
     free_entries act tbl (Suc i) n s
   }"

definition free_user_pte_tbl :: "page_pool \<Rightarrow> u64 \<Rightarrow> page_pool option" where
  "free_user_pte_tbl s pte_addr = do {
     s \<leftarrow> free_entries dec_page_map_count pte_addr 0 PGTBL_ENTRY_MAX s;
     free_page s pte_addr
   }"

definition free_user_pdir_tbl :: "page_pool \<Rightarrow> u64 \<Rightarrow> page_pool option" where
  "free_user_pdir_tbl s pdir_addr = do {
     s \<leftarrow> free_entries free_user_pte_tbl pdir_addr 0 PGTBL_ENTRY_MAX s;
     free_page s pdir_addr
   }"

definition free_user_pdp_tbl :: "page_pool \<Rightarrow> u64 \<Rightarrow> page_pool option" where
  "free_user_pdp_tbl s pdp_addr = do {
     s \<leftarrow> free_entries free_user_pdir_tbl pdp_addr 0 PGTBL_ENTRY_MAX s;
     free_page s pdp_addr
   }"

text \<open>The new value of \<^verbatim>\<open>as->pgtbl\<close> is 0.\<close>

definition hal_free_user_page_table :: "page_pool \<Rightarrow> u64 \<Rightarrow> page_pool option" where
  "hal_free_user_page_table s as =
     (if as = 0 then Some s
      else do {
        s \<leftarrow> free_entries free_user_pdp_tbl as 0 (unat (PML4_INDEX KERN_VMA_BASE)) s;
        free_page s as
      })"

fun copy_kernel_entries :: "u64 \<Rightarrow> u64 \<Rightarrow> nat \<Rightarrow> nat \<Rightarrow> page_pool \<Rightarrow> page_pool" where
  "copy_kernel_entries kern user i 0 s = s"
| "copy_kernel_entries kern user i (Suc n) s =
     copy_kernel_entries kern user (Suc i) n (set_ent s user (of_nat i) (get_ent s kern (of_nat i)))"

text \<open>\<open>kern\<close> is the page table of the kernel process; the result holds the new value of \<^verbatim>\<open>as->pgtbl\<close>, if it is set.\<close>

definition hal_alloc_user_page_table :: "page_pool \<Rightarrow> u64 \<Rightarrow> (int \<times> u64 option \<times> page_pool) option" where
  "hal_alloc_user_page_table s kern = do {
     kassert (kern \<noteq> 0);
     (rc, tmp_addr, s) \<leftarrow> get_free_page s;
     if rc \<noteq> 0 then Some (rc, None, s)
     else do {
       pml4_addr \<leftarrow> tmp_addr;
       let s = s\<lparr>mem := memset64 (mem s) pml4_addr 0 PAGE_SIZE\<rparr>;
       let first = unat (PML4_INDEX KERN_VMA_BASE);
       let s = copy_kernel_entries kern pml4_addr first (PGTBL_ENTRY_MAX - first) s;
       Some (0, Some pml4_addr, s)
     }
   }"

section \<open>Entries of aligned tables\<close>

definition page_aligned :: "u64 \<Rightarrow> bool" where "page_aligned a \<longleftrightarrow> 4096 dvd unat a"

lemma block_aligned:
  assumes "pool_inv s" and "straight s" and "(a, k) \<in> pool_blocks s"
  shows "page_aligned a" and "KERN_VMA_BASE \<le> a"
proof -
  from block_lookup [OF assms] obtain pfn where a: "a = addr_of pfn" "unat KERN_VMA_BASE \<le> unat a" by metis
  have "4096 dvd x mod 2 ^ 64 \<longleftrightarrow> 4096 dvd x" for x :: nat by (rule dvd_mod_iff) simp
  then have "4096 dvd unat (pfn * 4096 + KERN_VMA_BASE)" by (simp add: unat_word_ariths)
  then show "page_aligned a" by (simp add: page_aligned_def a(1) addr_of_def phy_to_kern_straight_def push_bit_eq_mult)
  show "KERN_VMA_BASE \<le> a" using a(2) by (simp add: word_le_nat_alt)
qed

lemma ent_addr:
  assumes "page_aligned tbl" and "i < 0x200"
  shows "unat (tbl + 8 * i) = unat tbl + 8 * unat i" and "8 dvd unat (tbl + 8 * i)"
proof -
  obtain q where q: "unat tbl = 4096 * q" using assms(1) by (auto simp: page_aligned_def dvd_def)
  have i: "unat i < 512" using assms(2) by (simp add: word_less_nat_alt)
  have "unat (8 * i) = 8 * unat i" using i by (simp add: unat_word_ariths)
  moreover have "4096 * q + 8 * unat i < 2 ^ 64" using i q unsigned_less [of tbl, where ?'a = nat] by simp
  ultimately show u: "unat (tbl + 8 * i) = unat tbl + 8 * unat i" using q by (simp add: unat_word_ariths)
  show "8 dvd unat (tbl + 8 * i)" unfolding u q by presburger
qed

lemma ent_addr_inj:
  assumes "page_aligned tbl" and "page_aligned tbl'" and "i < 0x200" and "i' < 0x200" and "tbl + 8 * i = tbl' + 8 * i'"
  shows "tbl = tbl' \<and> i = i'"
proof -
  obtain q q' where q: "unat tbl = 4096 * q" "unat tbl' = 4096 * q'" using assms(1,2) by (auto simp: page_aligned_def dvd_def)
  have i: "unat i < 512" "unat i' < 512" using assms(3,4) by (simp_all add: word_less_nat_alt)
  have eq: "4096 * q + 8 * unat i = 4096 * q' + 8 * unat i'"
    using ent_addr(1) [OF assms(1,3)] ent_addr(1) [OF assms(2,4)] assms(5) q by simp
  have "(4096 * q + 8 * unat i) div 4096 = q" "(4096 * q' + 8 * unat i') div 4096 = q'" using i by simp_all
  then have "q = q'" using eq by simp
  then have "q = q' \<and> unat i = unat i'" using eq by simp
  then show ?thesis using q by (simp add: word_unat_eq_iff)
qed

lemma get_set_ent:
  assumes "page_aligned tbl" and "page_aligned tbl'" and "i < 0x200" and "i' < 0x200"
  shows "get_ent (set_ent s tbl i v) tbl' i' = (if tbl' = tbl \<and> i' = i then v else get_ent s tbl' i')"
  using read64_write64_other [OF ent_addr(2) [OF assms(1,3)] ent_addr(2) [OF assms(2,4)]] ent_addr_inj [OF assms]
  by (auto simp: get_ent_def set_ent_def read64_write64_same)

lemma read64_zero: "(\<And>i. i < 8 \<Longrightarrow> m (a + of_nat i) = 0) \<Longrightarrow> read64 m a = 0"
  by (rule bit_word_eqI) (simp add: bit_read64 less_mult_imp_div_less)

lemma get_memset_ent:
  assumes "page_aligned tbl" and "page_aligned a" and "i < 0x200"
  shows "get_ent (s\<lparr>mem := memset64 m a 0 PAGE_SIZE\<rparr>) tbl i = (if tbl = a then 0 else read64 m (tbl + 8 * i))"
proof -
  have byte: "memset64 m a 0 PAGE_SIZE (tbl + 8 * i + of_nat n) = (if tbl = a then 0 else m (tbl + 8 * i + of_nat n))" if n: "n < 8" for n
  proof -
    obtain q where q: "unat tbl = 4096 * q" using assms(1) by (auto simp: page_aligned_def dvd_def)
    obtain q' where q': "unat a = 4096 * q'" using assms(2) by (auto simp: page_aligned_def dvd_def)
    have i: "unat i < 512" using assms(3) by (simp add: word_less_nat_alt)
    have "4096 * q + 8 * unat i + n < 2 ^ 64" using i n q unsigned_less [of tbl, where ?'a = nat] by simp
    then have "unat (tbl + 8 * i + of_nat n) = 4096 * q + (8 * unat i + n)"
      using ent_addr(1) [OF assms(1,3)] q n by (subst unat_word_ariths) (simp add: unat_of_nat)
    then have "unat (tbl + 8 * i + of_nat n) div 4096 = q" using i n by simp
    moreover have "unat a div 4096 = q'" by (simp add: q')
    ultimately have "tbl + 8 * i + of_nat n - a < PAGE_SIZE \<longleftrightarrow> q = q'"
      using aligned_range [of 12 a "tbl + 8 * i + of_nat n"] assms(2) by (simp add: page_aligned_def)
    moreover have "q = q' \<longleftrightarrow> tbl = a" using q q' by (auto simp: word_unat_eq_iff)
    ultimately show ?thesis by (simp add: memset64_def)
  qed
  show ?thesis
  proof (cases "tbl = a")
    case True
    then show ?thesis using byte by (simp add: get_ent_def read64_zero)
  next
    case False
    then have "read64 (memset64 m a 0 PAGE_SIZE) (tbl + 8 * i) = read64 m (tbl + 8 * i)" using byte by (intro read64_cong) simp
    then show ?thesis using False by (simp add: get_ent_def)
  qed
qed

text \<open>The indices of an address.\<close>

lemma index_lt: "PT_INDEX v < 0x200" "PD_INDEX v < 0x200" "PDPT_INDEX v < 0x200" "PML4_INDEX v < 0x200"
proof -
  have "x AND 0x1ff < (0x200 :: u64)" for x :: u64
  proof -
    have "x AND 0x1ff = take_bit 9 x" by (simp add: take_bit_eq_mask mask_eq_exp_minus_1)
    then show ?thesis by (simp add: word_less_nat_alt take_bit_eq_mod unat_mod)
  qed
  then show "PT_INDEX v < 0x200" "PD_INDEX v < 0x200" "PDPT_INDEX v < 0x200" "PML4_INDEX v < 0x200"
    by (simp_all add: PT_INDEX_def PD_INDEX_def PDPT_INDEX_def PML4_INDEX_def)
qed

section \<open>Walking the tables\<close>

definition tbl_of :: "u64 \<Rightarrow> u64" where
  "tbl_of ent = phy_to_kern_straight (get_ent_addr ent)"

fun walk :: "page_pool \<Rightarrow> u64 \<Rightarrow> u64 list \<Rightarrow> u64 option" where
  "walk s tbl [] = Some tbl"
| "walk s tbl (i # p) = (if present (get_ent s tbl i) then walk s (tbl_of (get_ent s tbl i)) p else None)"

lemma walk_snoc:
  "walk s r (p @ [i]) = (case walk s r p of None \<Rightarrow> None | Some t \<Rightarrow> if present (get_ent s t i) then Some (tbl_of (get_ent s t i)) else None)"
  by (induction p arbitrary: r) auto

definition table_path :: "u64 \<Rightarrow> u64 list" where
  "table_path v = [PML4_INDEX v, PDPT_INDEX v, PD_INDEX v]"

lemma find_pte_walk:
  "find_pte s r v = (case walk s r (table_path v) of None \<Rightarrow> None
     | Some t \<Rightarrow> if present (get_ent s t (PT_INDEX v)) then Some (t, get_ent s t (PT_INDEX v)) else None)"
  by (simp add: find_pte_def table_path_def get_pml4_ent_def get_pdp_ent_def get_pdir_ent_def get_pte_ent_def tbl_of_def Let_def)

text \<open>Paths through the tables of the user half of the address space.\<close>

definition user_path :: "u64 list \<Rightarrow> bool" where
  "user_path p \<longleftrightarrow> length p \<le> 3 \<and> (\<forall>i \<in> set p. i < 0x200) \<and> (p \<noteq> [] \<longrightarrow> hd p < 0x100)"

lemma user_path_snoc: "user_path (p @ [i]) \<Longrightarrow> user_path p \<and> i < 0x200 \<and> length p < 3"
  by (cases p) (auto simp: user_path_def)

lemma user_path_Nil [simp]: "user_path []"
  by (simp add: user_path_def)

text \<open>
  The address spaces with the top tables \<open>R\<close>: all their tables are pages in use of the pool, and no page is a table at
  two places.
\<close>

definition tables_in :: "page_pool \<Rightarrow> u64 set \<Rightarrow> bool" where
  "tables_in s R \<longleftrightarrow> (\<forall>r \<in> R. \<forall>p t. user_path p \<longrightarrow> walk s r p = Some t \<longrightarrow> (t, 0) \<in> pool_blocks s)"

definition tables_apart :: "page_pool \<Rightarrow> u64 set \<Rightarrow> bool" where
  "tables_apart s R \<longleftrightarrow> (\<forall>r \<in> R. \<forall>r' \<in> R. \<forall>p p' t. user_path p \<longrightarrow> user_path p' \<longrightarrow>
     walk s r p = Some t \<longrightarrow> walk s r' p' = Some t \<longrightarrow> r = r' \<and> p = p')"

definition pgtbl_inv :: "page_pool \<Rightarrow> u64 set \<Rightarrow> bool" where
  "pgtbl_inv s R \<longleftrightarrow> pool_inv s \<and> straight s \<and> tables_in s R \<and> tables_apart s R"

lemma pgtbl_invD:
  assumes "pgtbl_inv s R" and "r \<in> R" and "user_path p" and "walk s r p = Some t"
  shows "(t, 0) \<in> pool_blocks s" and "page_aligned t" and "t \<noteq> 0"
    and "\<And>r' p'. r' \<in> R \<Longrightarrow> user_path p' \<Longrightarrow> walk s r' p' = Some t \<Longrightarrow> r' = r \<and> p' = p"
proof -
  show b: "(t, 0) \<in> pool_blocks s" using assms unfolding pgtbl_inv_def tables_in_def by blast
  then show "page_aligned t" using assms(1) block_aligned(1) unfolding pgtbl_inv_def by blast
  have "KERN_VMA_BASE \<le> t" using b assms(1) block_aligned(2) unfolding pgtbl_inv_def by blast
  then show "t \<noteq> 0" by auto
  show "r' = r \<and> p' = p" if "r' \<in> R" "user_path p'" "walk s r' p' = Some t" for r' p'
    using assms that unfolding pgtbl_inv_def tables_apart_def by blast
qed

text \<open>Entering a new, empty table \<open>a\<close> in an entry that was not present.\<close>

lemma walk_new_table:
  assumes inv: "pgtbl_inv s R" and r: "r \<in> R" and p: "user_path (p @ [i])" and t: "walk s r p = Some t" and np: "\<not> present (get_ent s t i)"
    and a: "(a, 0) \<notin> pool_blocks s" and e: "present (get_ent s' t i)" "tbl_of (get_ent s' t i) = a"
    and z: "\<And>j. j < 0x200 \<Longrightarrow> get_ent s' a j = 0"
    and o: "\<And>t' j. (t', 0) \<in> pool_blocks s \<Longrightarrow> j < 0x200 \<Longrightarrow> (t', j) \<noteq> (t, i) \<Longrightarrow> get_ent s' t' j = get_ent s t' j"
    and q: "user_path q" and r': "r' \<in> R"
  shows "walk s' r' q = (if r' = r \<and> q = p @ [i] then Some a else walk s r' q)"
  using q
proof (induction q rule: rev_induct)
  case (snoc j q)
  note up = user_path_snoc [OF snoc.prems]
  have up0: "user_path p" using user_path_snoc [OF p] by blast
  have IH: "walk s' r' q = (if r' = r \<and> q = p @ [i] then Some a else walk s r' q)" using snoc.IH up by blast
  have none: "walk s r (p @ [i]) = None" using t np by (simp add: walk_snoc)
  consider (new) "r' = r" "q @ [j] = p @ [i]" | (below) "r' = r" "q = p @ [i]" | (other) "\<not> (r' = r \<and> q @ [j] = p @ [i])" "\<not> (r' = r \<and> q = p @ [i])" by blast
  then show ?case
  proof cases
    case new
    then show ?thesis using IH t e by (simp add: walk_snoc)
  next
    case below
    have w: "walk s' r' q = Some a" "walk s r' q = None" using IH below none by simp_all
    have "walk s' r' (q @ [j]) = None" using up z by (simp add: walk_snoc w present_def)
    moreover have "walk s r' (q @ [j]) = None" by (simp add: walk_snoc w)
    moreover have "q @ [j] \<noteq> p @ [i]" using below by simp
    ultimately show ?thesis by simp
  next
    case other
    show ?thesis
    proof (cases "walk s r' q")
      case None
      then show ?thesis using IH other by (auto simp: walk_snoc)
    next
      case (Some t')
      have "(t', 0) \<in> pool_blocks s" using pgtbl_invD(1) [OF inv r'] up Some by blast
      moreover have "(t', j) \<noteq> (t, i)" using pgtbl_invD(4) [OF inv r up0 t r'] up Some other(1) by auto
      ultimately have "get_ent s' t' j = get_ent s t' j" using o up by blast
      then show ?thesis using IH other Some by (auto simp: walk_snoc)
    qed
  qed
qed (simp add: t)

section \<open>Addresses in entries\<close>

lemma page_aligned_bits: "page_aligned x \<longleftrightarrow> (\<forall>n < 12. \<not> bit x n)"
proof -
  have "page_aligned x \<longleftrightarrow> unat (take_bit 12 x) = 0"
    unfolding page_aligned_def unsigned_take_bit_eq by (simp add: take_bit_eq_mod dvd_eq_mod_eq_0)
  also have "\<dots> \<longleftrightarrow> take_bit 12 x = 0" by (simp add: unat_eq_0)
  also have "\<dots> \<longleftrightarrow> (\<forall>n < 12. \<not> bit x n)" by (auto simp: bit_eq_iff bit_take_bit_iff)
  finally show ?thesis .
qed

lemma page_aligned_phys: "page_aligned (kern_straight_to_phy a) \<longleftrightarrow> page_aligned a"
proof -
  have k: "kern_straight_to_phy a = a + 0x800000000000" unfolding kern_straight_to_phy_def by (simp add: diff_eq_eq)
  have "4096 dvd x mod 2 ^ 64 \<longleftrightarrow> 4096 dvd x" for x :: nat by (rule dvd_mod_iff) simp
  then have "4096 dvd unat (a + 0x800000000000) \<longleftrightarrow> 4096 dvd unat a + 0x800000000000" by (simp add: unat_word_ariths)
  also have "\<dots> \<longleftrightarrow> 4096 dvd unat a" by (rule dvd_add_left_iff) simp
  finally show ?thesis by (simp add: page_aligned_def k)
qed

lemma page_mask: "PAGE_SIZE - 1 = (mask 12 :: u64)"
  by (simp add: mask_eq_exp_minus_1)

lemma small_bits:
  assumes "f < 0x1000" and "bit (f :: u64) n"
  shows "n < 12"
proof -
  have "unat f < 2 ^ 12" using assms(1) by (simp add: word_less_nat_alt)
  then have "take_bit 12 (unat f) = unat f" by (rule take_bit_nat_eq_self)
  then have "take_bit 12 f = f" by (simp add: word_unat_eq_iff unsigned_take_bit_eq)
  then show ?thesis using assms(2) by (metis bit_take_bit_iff)
qed

lemma PAGE_START_bit: "bit (PAGE_START x) n \<longleftrightarrow> bit x n \<and> 12 \<le> n"
  unfolding PAGE_START_def page_mask by (auto simp: bit_and_iff bit_not_iff bit_mask_iff dest: bit_imp_le_length)

lemma ent_parts:
  assumes "page_aligned x" and "f < 0x1000"
  shows "get_ent_addr (x OR f) = x" and "get_ent_attr (x OR f) = f"
proof -
  show "get_ent_addr (x OR f) = x" unfolding get_ent_addr_def
    using assms(1) small_bits [OF assms(2)] by (intro bit_word_eqI) (fastforce simp: PAGE_START_bit bit_or_iff page_aligned_bits not_less)
  show "get_ent_attr (x OR f) = f" unfolding get_ent_attr_def page_mask
    using assms(1) small_bits [OF assms(2)] by (intro bit_word_eqI) (fastforce simp: bit_and_iff bit_or_iff bit_mask_iff page_aligned_bits)
qed

lemma PAGE_START_aligned: "page_aligned (PAGE_START x)"
  by (simp add: page_aligned_bits PAGE_START_bit)

lemma PAGE_START_id: "page_aligned x \<Longrightarrow> PAGE_START x = x"
  by (rule bit_word_eqI) (auto simp: page_aligned_bits PAGE_START_bit not_less)

lemma table_entry:
  assumes "page_aligned a"
  shows "present (kern_straight_to_phy a OR PAGE_PGTBLBITS OR PAGE_USER)" and "tbl_of (kern_straight_to_phy a OR PAGE_PGTBLBITS OR PAGE_USER) = a"
proof -
  have "tbl_of (kern_straight_to_phy a OR (PAGE_PGTBLBITS OR PAGE_USER)) = a"
    using ent_parts(1) [of "kern_straight_to_phy a" "PAGE_PGTBLBITS OR PAGE_USER"] assms
    by (simp add: tbl_of_def page_aligned_phys) (simp add: phy_to_kern_straight_def kern_straight_to_phy_def)
  then show "tbl_of (kern_straight_to_phy a OR PAGE_PGTBLBITS OR PAGE_USER) = a" by (simp add: or.assoc)
  show "present (kern_straight_to_phy a OR PAGE_PGTBLBITS OR PAGE_USER)"
    by (auto simp: present_def bit_eq_iff [of "_ AND _"] bit_and_iff bit_or_iff intro!: exI [of _ 0])
qed

section \<open>Allocating tables\<close>

lemma get_free_page_ok:
  assumes inv: "pool_inv s" and st: "straight s"
  shows "(\<exists>a s'. get_free_page s = Some (0, Some a, s') \<and> pool_inv s' \<and> straight s' \<and> (a, 0) \<notin> pool_blocks s \<and>
       pool_blocks s' = insert (a, 0) (pool_blocks s) \<and> mem s' = memset64 (mem s) a 0 PAGE_SIZE \<and> page_aligned a \<and>
       pool_free s' + 1 = pool_free s \<and> same_owners s s') \<or>
    get_free_page s = Some (- ENOMEM, None, s) \<and> pool_free s = 0"
proof -
  note L = alloc_loop_ok [OF inv, of 0 0 "length (pfque s)", simplified, folded alloc_buddy_pages_def get_free_page_def]
  have f: "pool_free s' + 1 = pool_free s" if "get_free_page s = Some (0, p, s')" for p s'
    using alloc_free_pages [OF inv, of 0 0 p s'] that by (simp add: get_free_page_def)
  have n: "pool_free s = 0" if "get_free_page s = Some (- ENOMEM, p, s')" for p s'
    using alloc_free_pages [OF inv, of 0 "- ENOMEM" p s'] that by (simp add: get_free_page_def)
  from L show ?thesis
  proof (elim disjE exE conjE)
    fix a s' assume a: "get_free_page s = Some (0, Some a, s')" "pool_inv s'" "(a, 0) \<notin> pool_blocks s"
      "pool_blocks s' = insert (a, 0) (pool_blocks s)" "mem s' = memset64 (mem s) a 0 PAGE_SIZE"
    have so: "same_owners s s'" using a(1) alloc_owners by (auto simp: get_free_page_def)
    have st': "straight s'" using straight_owners [OF so] st by simp
    have "page_aligned a" using block_aligned(1) [OF a(2) st', of a 0] a(4) by simp
    then show ?thesis using a so st' f [OF a(1)] by blast
  qed (use n in blast)
qed

text \<open>The bytes of the pages in use other than one are the same.\<close>

definition bytes_kept :: "page_pool \<Rightarrow> page_pool \<Rightarrow> u64 set \<Rightarrow> bool" where
  "bytes_kept s s' A \<longleftrightarrow> (\<forall>b x. (b, 0) \<in> pool_blocks s \<longrightarrow> b \<notin> A \<longrightarrow> x - b < PAGE_SIZE \<longrightarrow> mem s' x = mem s x)"

lemma bytes_keptD: "bytes_kept s s' A \<Longrightarrow> (b, 0) \<in> pool_blocks s \<Longrightarrow> b \<notin> A \<Longrightarrow> x - b < PAGE_SIZE \<Longrightarrow> mem s' x = mem s x"
  by (simp add: bytes_kept_def)

lemma page_bytes_apart:
  assumes "page_aligned a" and "page_aligned b" and "x - a < PAGE_SIZE" and "x - b < PAGE_SIZE"
  shows "a = b"
proof -
  have "unat a div 4096 = unat b div 4096"
    using aligned_range [of 12 a x] aligned_range [of 12 b x] assms by (simp add: page_aligned_def)
  then show ?thesis using assms(1,2) by (metis dvd_div_eq_cancel page_aligned_def word_unat_eq_iff)
qed

lemma ent_bytes:
  assumes "page_aligned t" and "i < 0x200" and "x - (t + 8 * i) < 8"
  shows "x - t < PAGE_SIZE"
proof -
  obtain q where q: "unat t = 4096 * q" using assms(1) by (auto simp: page_aligned_def dvd_def)
  have i: "unat i < 512" using assms(2) by (simp add: word_less_nat_alt)
  have "unat x div 8 = 512 * q + unat i"
    using aligned_range [of 3 "t + 8 * i" x] ent_addr [OF assms(1,2)] assms(3) q by simp
  then have "unat x div 8 div 512 = q" using i by simp
  then have "unat x div 4096 = unat t div 4096" by (simp add: div_mult2_eq [symmetric] q)
  then show ?thesis using aligned_range [of 12 t x] assms(1) by (simp add: page_aligned_def)
qed

lemma set_ent_bytes:
  assumes "pool_inv s" and "straight s" and "page_aligned t" and "i < 0x200"
  shows "bytes_kept s (set_ent s t i v) {t}"
  using ent_bytes [OF assms(3,4)] page_bytes_apart [OF assms(3)] block_aligned(1) [OF assms(1,2)]
  by (fastforce simp: bytes_kept_def set_ent_def write64_def)

lemma set_mem_pool [simp]:
  "pool_inv (s\<lparr>mem := m\<rparr>) = pool_inv s" "straight (s\<lparr>mem := m\<rparr>) = straight s" "pool_blocks (s\<lparr>mem := m\<rparr>) = pool_blocks s"
  "pool_free (s\<lparr>mem := m\<rparr>) = pool_free s" "same_owners s (s\<lparr>mem := m\<rparr>)"
  by (simp_all add: pool_inv_def straight_def pool_blocks_def pool_free_def same_owners_def)

lemma set_ent_pool [simp]:
  "pool_inv (set_ent s t i v) = pool_inv s" "straight (set_ent s t i v) = straight s" "pool_blocks (set_ent s t i v) = pool_blocks s"
  "pool_free (set_ent s t i v) = pool_free s" "same_owners s (set_ent s t i v)"
  by (simp_all add: set_ent_def)

text \<open>
  What may happen to the address spaces \<open>R\<close> when tables are added to \<open>r\<close>: nothing that is mapped changes.
\<close>

definition tables_of :: "page_pool \<Rightarrow> u64 set \<Rightarrow> u64 set" where
  "tables_of s R = {t. \<exists>r \<in> R. \<exists>p. user_path p \<and> walk s r p = Some t}"

definition tables_added :: "u64 set \<Rightarrow> page_pool \<Rightarrow> page_pool \<Rightarrow> bool" where
  "tables_added R s s' \<longleftrightarrow> pgtbl_inv s' R \<and> pool_blocks s \<subseteq> pool_blocks s' \<and>
     (\<forall>x. kvaddr_to_page_frame s' x = kvaddr_to_page_frame s x) \<and>
     (\<forall>r \<in> R. \<forall>v. PML4_INDEX v < 0x100 \<longrightarrow> find_pte s' r v = find_pte s r v) \<and>
     (\<forall>r \<in> R. \<forall>p t. user_path p \<longrightarrow> walk s r p = Some t \<longrightarrow> walk s' r p = Some t) \<and>
     (\<forall>r \<in> R. \<forall>p t. user_path p \<longrightarrow> walk s' r p = Some t \<longrightarrow> walk s r p = Some t \<or> (t, 0) \<notin> pool_blocks s) \<and>
     bytes_kept s s' (tables_of s R)"

lemma tables_added_refl: "pgtbl_inv s R \<Longrightarrow> tables_added R s s"
  by (simp add: tables_added_def bytes_kept_def)

lemma tables_added_trans:
  assumes a: "tables_added R s s'" and b: "tables_added R s' s''"
  shows "tables_added R s s''"
proof -
  have sub: "pool_blocks s \<subseteq> pool_blocks s'" using a by (simp add: tables_added_def)
  have k: "bytes_kept s s' (tables_of s R)" using a by (simp add: tables_added_def)
  have k': "bytes_kept s' s'' (tables_of s' R)" using b by (simp add: tables_added_def)
  have old: "walk s r p = Some t" if "r \<in> R" "user_path p" "walk s' r p = Some t" "(t, 0) \<in> pool_blocks s" for r p t
    using a that unfolding tables_added_def by blast
  have "bytes_kept s s'' (tables_of s R)"
    unfolding bytes_kept_def
  proof (intro allI impI)
    fix c x assume c: "(c, 0) \<in> pool_blocks s" "c \<notin> tables_of s R" "x - c < PAGE_SIZE"
    then have "c \<notin> tables_of s' R" using old unfolding tables_of_def by blast
    then have "mem s'' x = mem s' x" using bytes_keptD [OF k'] c sub by blast
    then show "mem s'' x = mem s x" using bytes_keptD [OF k] c by simp
  qed
  moreover have "walk s r p = Some t \<or> (t, 0) \<notin> pool_blocks s" if "r \<in> R" "user_path p" "walk s'' r p = Some t" for r p t
    using b that old sub unfolding tables_added_def by blast
  moreover have "walk s'' r p = Some t" if "r \<in> R" "user_path p" "walk s r p = Some t" for r p t
    using a b that unfolding tables_added_def by blast
  moreover have "find_pte s'' r v = find_pte s r v" if "r \<in> R" "PML4_INDEX v < 0x100" for r v
    using a b that unfolding tables_added_def by simp
  moreover have "pgtbl_inv s'' R" "pool_blocks s' \<subseteq> pool_blocks s''" "\<forall>x. kvaddr_to_page_frame s'' x = kvaddr_to_page_frame s x"
    using a b unfolding tables_added_def by simp_all
  ultimately show ?thesis using sub unfolding tables_added_def by blast
qed

text \<open>The entries after a new table \<open>a\<close> was cleared and entered at index \<open>i\<close> of table \<open>t\<close>.\<close>

definition enter_table :: "page_pool \<Rightarrow> u64 \<Rightarrow> u64 \<Rightarrow> u64 \<Rightarrow> page_pool" where
  "enter_table s t i a = set_ent (s\<lparr>mem := memset64 (mem s) a 0 PAGE_SIZE\<rparr>) t i (kern_straight_to_phy a OR PAGE_PGTBLBITS OR PAGE_USER)"

lemma enter_table_ent:
  assumes "page_aligned t" and "page_aligned a" and "page_aligned t'" and "i < 0x200" and "j < 0x200" and "t \<noteq> a"
    and m: "mem s = memset64 m a 0 PAGE_SIZE"
  shows "get_ent (enter_table s t i a) t' j =
    (if t' = a then 0 else if t' = t \<and> j = i then kern_straight_to_phy a OR PAGE_PGTBLBITS OR PAGE_USER else read64 m (t' + 8 * j))"
proof -
  have "get_ent (s\<lparr>mem := memset64 (mem s) a 0 PAGE_SIZE\<rparr>) t' j = (if t' = a then 0 else read64 m (t' + 8 * j))"
    using get_memset_ent [OF assms(3,2,5), of "mem s" s] get_memset_ent [OF assms(3,2,5), of m s]
    by (cases "t' = a") (simp_all add: get_ent_def m)
  then show ?thesis using assms(6) by (auto simp: enter_table_def get_set_ent [OF assms(1,3,4,5)])
qed

lemma find_pte_new_table:
  assumes inv: "pgtbl_inv s R" and r: "r \<in> R" and p: "user_path (p @ [i])" and t: "walk s r p = Some t"
    and W: "\<And>r' q. r' \<in> R \<Longrightarrow> user_path q \<Longrightarrow> walk s' r' q = (if r' = r \<and> q = p @ [i] then Some a else walk s r' q)"
    and np: "\<not> present (get_ent s t i)" and z: "\<And>j. j < 0x200 \<Longrightarrow> get_ent s' a j = 0"
    and o: "\<And>t' j. (t', 0) \<in> pool_blocks s \<Longrightarrow> j < 0x200 \<Longrightarrow> (t', j) \<noteq> (t, i) \<Longrightarrow> get_ent s' t' j = get_ent s t' j"
    and r': "r' \<in> R" and v: "PML4_INDEX v < 0x100"
  shows "find_pte s' r' v = find_pte s r' v"
proof -
  have q: "user_path (table_path v)" using v index_lt by (simp add: user_path_def table_path_def)
  show ?thesis
  proof (cases "r' = r \<and> table_path v = p @ [i]")
    case True
    then have "walk s r' (table_path v) = None" using t np by (simp add: walk_snoc)
    then show ?thesis using W [OF r' q] True z index_lt(1) by (simp add: find_pte_walk present_def)
  next
    case False
    then have w: "walk s' r' (table_path v) = walk s r' (table_path v)" using W [OF r' q] by auto
    show ?thesis
    proof (cases "walk s r' (table_path v)")
      case (Some t')
      have "t' \<noteq> t"
      proof
        assume "t' = t"
        then have "table_path v = p" using pgtbl_invD(4) [OF inv r _ t r' q] Some user_path_snoc [OF p] by blast
        then show False using user_path_snoc [OF p] by (auto simp: table_path_def)
      qed
      then have "get_ent s' t' (PT_INDEX v) = get_ent s t' (PT_INDEX v)" using o pgtbl_invD(1) [OF inv r' q Some] index_lt(1) by blast
      then show ?thesis using w Some by (simp add: find_pte_walk)
    qed (use w in \<open>simp add: find_pte_walk\<close>)
  qed
qed

lemma alloc_tbl_ok:
  assumes inv: "pgtbl_inv s R" and r: "r \<in> R" and p: "user_path (p @ [i])" and t: "walk s r p = Some t"
    and g: "\<And>s t. get_e s t v = get_ent s t i" "\<And>s t x. set_e s t v x = set_ent s t i x"
  shows "alloc_tbl get_e set_e s t v = Some (- ENOMEM, None, s) \<and> pool_free s = 0 \<or>
    (\<exists>a s'. alloc_tbl get_e set_e s t v = Some (0, Some a, s') \<and> tables_added R s s' \<and> walk s' r (p @ [i]) = Some a \<and> pool_free s \<le> pool_free s' + 1)"
proof (cases "present (get_ent s t i)")
  case True
  then have "alloc_tbl get_e set_e s t v = Some (0, Some (tbl_of (get_ent s t i)), s)" by (simp add: alloc_tbl_def g tbl_of_def Let_def)
  then show ?thesis using tables_added_refl [OF inv] True t by (auto simp: walk_snoc)
next
  case np: False
  have P: "pool_inv s" "straight s" using inv by (simp_all add: pgtbl_inv_def)
  have up: "user_path p" "i < 0x200" using user_path_snoc [OF p] by auto
  note T = pgtbl_invD [OF inv r up(1) t]
  from get_free_page_ok [OF P] show ?thesis
  proof (elim disjE exE conjE)
    assume "get_free_page s = Some (- ENOMEM, None, s)" "pool_free s = 0"
    then show ?thesis using np by (simp add: alloc_tbl_def g Let_def)
  next
    fix a s1 assume a: "get_free_page s = Some (0, Some a, s1)" "pool_inv s1" "straight s1" "(a, 0) \<notin> pool_blocks s"
      "pool_blocks s1 = insert (a, 0) (pool_blocks s)" "mem s1 = memset64 (mem s) a 0 PAGE_SIZE" "page_aligned a"
      "pool_free s1 + 1 = pool_free s" "same_owners s s1"
    define s' where "s' = enter_table s1 t i a"
    have ta: "t \<noteq> a" using T(1) a(4) by blast
    have run: "alloc_tbl get_e set_e s t v = Some (0, Some (tbl_of (get_ent s' t i)), s')"
      using np a(1) by (simp add: alloc_tbl_def g Let_def s'_def enter_table_def tbl_of_def)
    note E = enter_table_ent [OF T(2) a(7) _ up(2) _ ta a(6), folded s'_def]
    have e: "get_ent s' t i = kern_straight_to_phy a OR PAGE_PGTBLBITS OR PAGE_USER" using E [OF T(2) up(2)] ta by simp
    have o: "get_ent s' t' j = get_ent s t' j" if "(t', 0) \<in> pool_blocks s" "j < 0x200" "(t', j) \<noteq> (t, i)" for t' j
    proof -
      have "page_aligned t'" "t' \<noteq> a" using block_aligned(1) [OF P that(1)] that(1) a(4) by auto
      then show ?thesis using E that by (auto simp: get_ent_def [of s])
    qed
    have z: "get_ent s' a j = 0" if "j < 0x200" for j using E [OF a(7) that] by simp
    have W: "walk s' r' q = (if r' = r \<and> q = p @ [i] then Some a else walk s r' q)" if "user_path q" "r' \<in> R" for r' q
      by (rule walk_new_table [OF inv r p t np a(4) _ _ z o that]) (simp_all only: e table_entry [OF a(7)] simp_thms)
    have pb: "pool_blocks s' = insert (a, 0) (pool_blocks s)" using a(5) by (simp add: s'_def enter_table_def)
    have "tables_in s' R" unfolding tables_in_def pb using W pgtbl_invD(1) [OF inv] by auto
    moreover have "tables_apart s' R" unfolding tables_apart_def
    proof (intro ballI allI impI)
      fix r1 r2 p1 p2 t' assume h: "r1 \<in> R" "r2 \<in> R" "user_path p1" "user_path p2" "walk s' r1 p1 = Some t'" "walk s' r2 p2 = Some t'"
      have old: "walk s r' q \<noteq> Some a" if "r' \<in> R" "user_path q" for r' q using pgtbl_invD(1) [OF inv that] a(4) by blast
      show "r1 = r2 \<and> p1 = p2"
      proof (cases "r1 = r \<and> p1 = p @ [i]"; cases "r2 = r \<and> p2 = p @ [i]")
        assume c: "r1 = r \<and> p1 = p @ [i]" "\<not> (r2 = r \<and> p2 = p @ [i])"
        show ?thesis using W [OF h(3,1)] W [OF h(4,2)] h(5,6) old [OF h(2,4)] by (simp only: c simp_thms if_True if_False)
      next
        assume c: "\<not> (r1 = r \<and> p1 = p @ [i])" "r2 = r \<and> p2 = p @ [i]"
        show ?thesis using W [OF h(3,1)] W [OF h(4,2)] h(5,6) old [OF h(1,3)] by (simp only: c simp_thms if_True if_False)
      next
        assume c: "\<not> (r1 = r \<and> p1 = p @ [i])" "\<not> (r2 = r \<and> p2 = p @ [i])"
        have "walk s r1 p1 = Some t'" "walk s r2 p2 = Some t'" using W [OF h(3,1)] W [OF h(4,2)] h(5,6) by (simp_all only: c simp_thms if_False)
        then show ?thesis using pgtbl_invD(4) [OF inv h(1,3) _ h(2,4)] by metis
      qed simp
    qed
    ultimately have inv': "pgtbl_inv s' R" using a(2,3) by (simp add: pgtbl_inv_def s'_def enter_table_def)
    have kv: "kvaddr_to_page_frame s' x = kvaddr_to_page_frame s x" for x
    proof -
      have "same_owners s1 s'" by (simp add: s'_def enter_table_def set_ent_def same_owners_def)
      from same_owners_lookup(1) [OF same_owners_trans [OF a(9) this]] show ?thesis .
    qed
    have bytes: "bytes_kept s s' (tables_of s R)" unfolding bytes_kept_def
    proof (intro allI impI)
      fix b x assume b: "(b, 0) \<in> pool_blocks s" "b \<notin> tables_of s R" "x - b < PAGE_SIZE"
      have bt: "b \<noteq> t" "b \<noteq> a" using b t r up(1) a(4) by (auto simp: tables_of_def)
      have "\<not> x - a < PAGE_SIZE" using page_bytes_apart [OF block_aligned(1) [OF P b(1)] a(7) b(3)] bt by blast
      moreover have "\<not> x - t < PAGE_SIZE" using page_bytes_apart [OF block_aligned(1) [OF P b(1)] T(2) b(3)] bt by blast
      ultimately show "mem s' x = mem s x"
        using ent_bytes [OF T(2) up(2), of x] by (auto simp: s'_def enter_table_def set_ent_def write64_def memset64_def a(6))
    qed
    have none: "walk s r (p @ [i]) = None" using t np by (simp add: walk_snoc)
    have keep: "walk s' r' q = Some t'" if "r' \<in> R" "user_path q" "walk s r' q = Some t'" for r' q t'
      using W [OF that(2,1)] none that(3) by auto
    have new: "walk s r' q = Some t' \<or> (t', 0) \<notin> pool_blocks s" if "r' \<in> R" "user_path q" "walk s' r' q = Some t'" for r' q t'
      using W [OF that(2,1)] a(4) that(3) by (auto split: if_split_asm)
    have fp: "find_pte s' r' v = find_pte s r' v" if "r' \<in> R" "PML4_INDEX v < 0x100" for r' v
      by (rule find_pte_new_table [OF inv r p t W np z o that])
    have "tables_added R s s'" unfolding tables_added_def
      using inv' kv bytes keep new fp pb by blast
    moreover have "tbl_of (get_ent s' t i) = a" unfolding e by (rule table_entry(2) [OF a(7)])
    moreover have "pool_free s' = pool_free s1" by (simp add: s'_def enter_table_def)
    ultimately show ?thesis using run W [OF p r] a(8) by auto
  qed
qed

section \<open>Changing the entry of a page\<close>

lemma walk_cong:
  assumes "mem s' = mem s"
  shows "walk s' r p = walk s r p" and "find_pte s' r v = find_pte s r v"
proof -
  have g: "get_ent s' = get_ent s" by (intro ext) (simp add: get_ent_def assms)
  show w: "walk s' r p = walk s r p" for r p by (induction p arbitrary: r) (simp_all add: g)
  show "find_pte s' r v = find_pte s r v" unfolding find_pte_walk w g ..
qed

lemma owners_only_pgtbl:
  assumes "owners_only s s'" and "pgtbl_inv s R"
  shows "pgtbl_inv s' R"
proof -
  have o: "pool_inv s'" "pool_blocks s' = pool_blocks s" "mem s' = mem s" "straight s' = straight s"
    using assms(1) by (simp_all add: owners_only_def straight_def del: set_map)
  show ?thesis using assms(2) unfolding pgtbl_inv_def tables_in_def tables_apart_def walk_cong [OF o(3)] o(2,4) using o(1) by blast
qed

lemma table_path_user: "PML4_INDEX v < 0x100 \<Longrightarrow> user_path (table_path v)"
  using index_lt by (simp add: user_path_def table_path_def)

lemma set_leaf:
  fixes e :: u64
  assumes inv: "pgtbl_inv s R" and r: "r \<in> R" and v: "PML4_INDEX v < 0x100" and t: "walk s r (table_path v) = Some t"
  defines "s' \<equiv> set_ent s t (PT_INDEX v) e"
  shows "pgtbl_inv s' R"
    and "\<And>r' p. r' \<in> R \<Longrightarrow> user_path p \<Longrightarrow> walk s' r' p = walk s r' p"
    and "\<And>r' v'. r' \<in> R \<Longrightarrow> PML4_INDEX v' < 0x100 \<Longrightarrow> find_pte s' r' v' =
      (if r' = r \<and> table_path v' = table_path v \<and> PT_INDEX v' = PT_INDEX v then (if present e then Some (t, e) else None) else find_pte s r' v')"
proof -
  note T = pgtbl_invD [OF inv r table_path_user [OF v] t]
  have P: "pool_inv s" "straight s" using inv by (simp_all add: pgtbl_inv_def)
  have ge: "get_ent s' t' j = (if t' = t \<and> j = PT_INDEX v then e else get_ent s t' j)" if "(t', 0) \<in> pool_blocks s" "j < 0x200" for t' j
    unfolding s'_def by (rule get_set_ent [OF T(2) block_aligned(1) [OF P that(1)] index_lt(1) that(2)])
  show W: "walk s' r' p = walk s r' p" if "r' \<in> R" "user_path p" for r' p
    using that(2)
  proof (induction p rule: rev_induct)
    case (snoc j p)
    note up = user_path_snoc [OF snoc.prems]
    then have IH: "walk s' r' p = walk s r' p" using snoc.IH by blast
    show ?case
    proof (cases "walk s r' p")
      case (Some t')
      have "t' \<noteq> t" using T(4) [OF that(1), of p] up Some by (auto simp: table_path_def)
      then have "get_ent s' t' j = get_ent s t' j" using ge pgtbl_invD(1) [OF inv that(1) _ Some] up by simp
      then show ?thesis using IH Some by (simp add: walk_snoc)
    qed (use IH in \<open>simp add: walk_snoc\<close>)
  qed simp
  have pool: "pool_inv s'" "straight s'" "pool_blocks s' = pool_blocks s" using P by (simp_all add: s'_def)
  have "tables_in s' R" "tables_apart s' R" using inv W pool unfolding pgtbl_inv_def tables_in_def tables_apart_def by simp_all
  then show "pgtbl_inv s' R" using pool by (simp add: pgtbl_inv_def)
  show "find_pte s' r' v' =
      (if r' = r \<and> table_path v' = table_path v \<and> PT_INDEX v' = PT_INDEX v then (if present e then Some (t, e) else None) else find_pte s r' v')"
    if h: "r' \<in> R" "PML4_INDEX v' < 0x100" for r' v'
  proof -
    note u' = table_path_user [OF h(2)]
    have w: "walk s' r' (table_path v') = walk s r' (table_path v')" by (rule W [OF h(1) u'])
    show ?thesis
    proof (cases "walk s r' (table_path v')")
      case None
      then have "\<not> (r' = r \<and> table_path v' = table_path v)" using t by auto
      then show ?thesis using None w by (auto simp: find_pte_walk)
    next
      case (Some t')
      have "t' = t \<longleftrightarrow> r' = r \<and> table_path v' = table_path v" using T(4) [OF h(1) u'] Some t by auto
      then show ?thesis using Some w ge [OF pgtbl_invD(1) [OF inv h(1) u' Some] index_lt(1)] by (simp add: find_pte_walk)
    qed
  qed
qed

text \<open>The indices determine the page of a user address.\<close>

abbreviation USER_VADDR_LIMIT :: u64 where "USER_VADDR_LIMIT \<equiv> 0x800000000000"

lemma user_addr_bits: "v < USER_VADDR_LIMIT \<Longrightarrow> bit v n \<Longrightarrow> n < 47"
proof -
  assume "v < USER_VADDR_LIMIT" "bit v n"
  then have "unat v < 2 ^ 47" by (simp add: word_less_nat_alt)
  then have "take_bit 47 (unat v) = unat v" by (rule take_bit_nat_eq_self)
  then have "take_bit 47 v = v" by (simp add: word_unat_eq_iff unsigned_take_bit_eq)
  then show "n < 47" using \<open>bit v n\<close> by (metis bit_take_bit_iff)
qed

lemma index_bit:
  "bit (PT_INDEX v) n \<longleftrightarrow> n < 9 \<and> bit v (12 + n)" "bit (PD_INDEX v) n \<longleftrightarrow> n < 9 \<and> bit v (21 + n)"
  "bit (PDPT_INDEX v) n \<longleftrightarrow> n < 9 \<and> bit v (30 + n)" "bit (PML4_INDEX v) n \<longleftrightarrow> n < 9 \<and> bit v (39 + n)"
proof -
  have m: "(0x1ff :: u64) = mask 9" by (simp add: mask_eq_exp_minus_1)
  show "bit (PT_INDEX v) n \<longleftrightarrow> n < 9 \<and> bit v (12 + n)" "bit (PD_INDEX v) n \<longleftrightarrow> n < 9 \<and> bit v (21 + n)"
    "bit (PDPT_INDEX v) n \<longleftrightarrow> n < 9 \<and> bit v (30 + n)" "bit (PML4_INDEX v) n \<longleftrightarrow> n < 9 \<and> bit v (39 + n)"
    unfolding PT_INDEX_def PD_INDEX_def PDPT_INDEX_def PML4_INDEX_def m
    by (auto simp: bit_and_iff bit_drop_bit_eq bit_mask_iff)
qed

lemma index_of_bit:
  "12 \<le> n \<Longrightarrow> n < 21 \<Longrightarrow> bit v n = bit (PT_INDEX v) (n - 12)" "21 \<le> n \<Longrightarrow> n < 30 \<Longrightarrow> bit v n = bit (PD_INDEX v) (n - 21)"
  "30 \<le> n \<Longrightarrow> n < 39 \<Longrightarrow> bit v n = bit (PDPT_INDEX v) (n - 30)" "39 \<le> n \<Longrightarrow> n < 48 \<Longrightarrow> bit v n = bit (PML4_INDEX v) (n - 39)"
  by (auto simp: index_bit)

lemma user_index: "v < USER_VADDR_LIMIT \<Longrightarrow> PML4_INDEX v < 0x100"
proof -
  assume v: "v < USER_VADDR_LIMIT"
  have "take_bit 8 (PML4_INDEX v) = PML4_INDEX v"
    using user_addr_bits [OF v] by (intro bit_word_eqI) (fastforce simp: bit_take_bit_iff index_bit)
  then have "take_bit 8 (unat (PML4_INDEX v)) = unat (PML4_INDEX v)" by (metis unsigned_take_bit_eq)
  then have "unat (PML4_INDEX v) mod 256 = unat (PML4_INDEX v)" by (simp add: take_bit_eq_mod)
  then have "unat (PML4_INDEX v) < 256" by (metis mod_less_divisor zero_less_numeral)
  then show "PML4_INDEX v < 0x100" by (simp add: word_less_nat_alt)
qed

lemma same_page:
  assumes "v < USER_VADDR_LIMIT" and "v' < USER_VADDR_LIMIT"
  shows "table_path v' = table_path v \<and> PT_INDEX v' = PT_INDEX v \<longleftrightarrow> PAGE_START v' = PAGE_START v"
proof
  assume eq: "table_path v' = table_path v \<and> PT_INDEX v' = PT_INDEX v"
  show "PAGE_START v' = PAGE_START v"
  proof (rule bit_word_eqI)
    fix n assume "n < LENGTH(64)"
    have i: "PT_INDEX v' = PT_INDEX v" "PD_INDEX v' = PD_INDEX v" "PDPT_INDEX v' = PDPT_INDEX v" "PML4_INDEX v' = PML4_INDEX v"
      using eq by (simp_all add: table_path_def)
    consider "n < 12" | "12 \<le> n \<and> n < 21" | "21 \<le> n \<and> n < 30" | "30 \<le> n \<and> n < 39" | "39 \<le> n \<and> n < 48" | "48 \<le> n" by linarith
    then show "bit (PAGE_START v') n = bit (PAGE_START v) n"
    proof cases
      case 2 then show ?thesis using index_of_bit(1) [of n v] index_of_bit(1) [of n v'] i(1) by (simp add: PAGE_START_bit)
    next
      case 3 then show ?thesis using index_of_bit(2) [of n v] index_of_bit(2) [of n v'] i(2) by (simp add: PAGE_START_bit)
    next
      case 4 then show ?thesis using index_of_bit(3) [of n v] index_of_bit(3) [of n v'] i(3) by (simp add: PAGE_START_bit)
    next
      case 5 then show ?thesis using index_of_bit(4) [of n v] index_of_bit(4) [of n v'] i(4) by (simp add: PAGE_START_bit)
    next
      case 6 then show ?thesis using user_addr_bits [OF assms(1), of n] user_addr_bits [OF assms(2), of n] by (auto simp: PAGE_START_bit)
    qed (simp add: PAGE_START_bit)
  qed
next
  assume eq: "PAGE_START v' = PAGE_START v"
  have b: "bit v' n = bit v n" if "12 \<le> n" for n using eq that PAGE_START_bit [of v n] PAGE_START_bit [of v' n] by simp
  show "table_path v' = table_path v \<and> PT_INDEX v' = PT_INDEX v"
    unfolding table_path_def by (auto intro!: bit_word_eqI simp: index_bit b)
qed

section \<open>Mapping a page\<close>

lemma inc_page_map_count_ok:
  assumes "pool_inv s" and "straight s" and "(b, 0) \<in> pool_blocks s"
  shows "\<exists>s' p. inc_page_map_count s b = Some s' \<and> owners_only s s' \<and> pool_free s' = pool_free s \<and> kvaddr_to_page_frame s b = (0, Some p) \<and>
    page_at s p \<noteq> None \<and> (\<forall>q. page_at s' q = (if q = p then map_option (mapcnt_update (\<lambda>n. n + 1)) (page_at s q) else page_at s q))"
proof -
  from block_lookup [OF assms] obtain j i where
    l: "j < length (pfque s)" "(i, 0) \<in> used_idx (buddy (pfque s ! j))"
       "\<And>x. x < 4096 * 2 ^ 0 \<Longrightarrow> kvaddr_to_page_frame s (b + of_nat x) = (0, Some (j, of_nat (i + x div 4096))) \<and> i + x div 4096 < length (array (buddy (pfque s ! j)))"
    by metis
  have k: "kvaddr_to_page_frame s b = (0, Some (j, of_nat i))" and i: "i < length (array (buddy (pfque s ! j)))" using l(3) [of 0] by simp_all
  have u: "unat (of_nat i :: u64) = i" using i buddy_range(1) [OF pool_invD(1) [OF assms(1) l(1)]] by (simp add: unat_of_nat)
  obtain s' where "page_update s (j, of_nat i) (mapcnt_update (\<lambda>n. n + 1)) = Some s'" "owners_only s s'" "pool_free s' = pool_free s"
    "\<forall>q. page_at s' q = (if q = (j, of_nat i) then map_option (mapcnt_update (\<lambda>n. n + 1)) (page_at s q) else page_at s q)"
    using page_attr_ok [OF assms(1) l(1), of "of_nat i" "mapcnt_update (\<lambda>n. n + 1)"] i u by (auto simp: same_place_def)
  moreover have "page_at s (j, of_nat i) \<noteq> None" using l(1) i u by (simp add: page_at_def)
  ultimately show ?thesis using k by (intro exI [of _ s'] exI [of _ "(j, of_nat i)"]) (simp add: inc_page_map_count_def)
qed

text \<open>The flags of a page, and what the hardware makes of the protection asked for.\<close>

definition mapped_prot :: "u32 \<Rightarrow> u32" where
  "mapped_prot prot = (prot AND VMA_PROT_W) OR VMA_PROT_R OR VMA_PROT_X"

lemma page_flags:
  assumes "prot \<noteq> VMA_PROT_NONE"
  defines "f \<equiv> vma_prot_to_page_flags prot AND (PAGE_SIZE - 1)"
  shows "vma_prot_to_page_flags prot \<noteq> 0" and "f < 0x1000" and "f AND PAGE_PRESENT \<noteq> 0" and "page_flags_to_vma_prot f = mapped_prot prot"
proof -
  have w: "prot AND VMA_PROT_W = 0 \<or> prot AND VMA_PROT_W = VMA_PROT_W"
  proof -
    have "prot AND 2 = (if bit prot 1 then 2 else 0)" using and_exp_eq_0_iff_not_bit
      by (intro bit_word_eqI) (auto simp: bit_and_iff bit_exp_iff [of 1, simplified] dest: bit_imp_le_length)
    then show ?thesis by simp
  qed
  have f: "f = (if prot AND VMA_PROT_W \<noteq> 0 then 7 else 5)"
    using assms(1) by (auto simp: f_def vma_prot_to_page_flags_def Let_def)
  show "f < 0x1000" "f AND PAGE_PRESENT \<noteq> 0" by (simp_all add: f)
  show "vma_prot_to_page_flags prot \<noteq> 0" using f by (auto simp: f_def split: if_split_asm)
  show "page_flags_to_vma_prot f = mapped_prot prot"
    using w by (auto simp: f page_flags_to_vma_prot_def mapped_prot_def Let_def)
qed

lemma three_tables:
  assumes inv: "pgtbl_inv s R" and r: "r \<in> R" and v: "v < USER_VADDR_LIMIT" and f: "3 \<le> pool_free s"
  obtains a s1 b s2 c s3 where "alloc_pdp_tbl s r v = Some (0, Some a, s1)" "alloc_pdir_tbl s1 a v = Some (0, Some b, s2)"
    "alloc_pte_tbl s2 b v = Some (0, Some c, s3)" "tables_added R s s3" "walk s3 r (table_path v) = Some c" "pool_free s \<le> pool_free s3 + 3"
proof -
  note up = table_path_user [OF user_index [OF v], unfolded table_path_def]
  have p: "user_path [PML4_INDEX v]" "user_path [PML4_INDEX v, PDPT_INDEX v]" using up by (simp_all add: user_path_def)
  obtain a s1 where s1: "alloc_pdp_tbl s r v = Some (0, Some a, s1)" "tables_added R s s1" "walk s1 r ([] @ [PML4_INDEX v]) = Some a" "pool_free s \<le> pool_free s1 + 1"
    using alloc_tbl_ok [OF inv r, of "[]" "PML4_INDEX v" r get_pml4_ent v set_pml4_ent] p(1) f
    by (auto simp: alloc_pdp_tbl_def get_pml4_ent_def set_pml4_ent_def)
  have i1: "pgtbl_inv s1 R" using s1(2) by (simp add: tables_added_def)
  obtain b s2 where s2: "alloc_pdir_tbl s1 a v = Some (0, Some b, s2)" "tables_added R s1 s2" "walk s2 r ([PML4_INDEX v] @ [PDPT_INDEX v]) = Some b" "pool_free s1 \<le> pool_free s2 + 1"
    using alloc_tbl_ok [OF i1 r, of "[PML4_INDEX v]" "PDPT_INDEX v" a get_pdp_ent v set_pdp_ent] p(2) f s1(3,4)
    by (auto simp: alloc_pdir_tbl_def get_pdp_ent_def set_pdp_ent_def)
  have i2: "pgtbl_inv s2 R" using s2(2) by (simp add: tables_added_def)
  obtain c s3 where s3: "alloc_pte_tbl s2 b v = Some (0, Some c, s3)" "tables_added R s2 s3" "walk s3 r ([PML4_INDEX v, PDPT_INDEX v] @ [PD_INDEX v]) = Some c" "pool_free s2 \<le> pool_free s3 + 1"
    using alloc_tbl_ok [OF i2 r, of "[PML4_INDEX v, PDPT_INDEX v]" "PD_INDEX v" b get_pdir_ent v set_pdir_ent] up f s1(4) s2(3,4)
    by (auto simp: alloc_pte_tbl_def get_pdir_ent_def set_pdir_ent_def)
  have "tables_added R s s3" using s1(2) s2(2) s3(2) tables_added_trans by blast
  moreover have "walk s3 r (table_path v) = Some c" using s3(3) by (simp add: table_path_def)
  moreover have "pool_free s \<le> pool_free s3 + 3" using s1(4) s2(4) s3(4) by linarith
  ultimately show thesis using that s1(1) s2(1) s3(1) by blast
qed

lemma bytes_kept_set_leaf:
  assumes a: "tables_added R s s1" and r: "r \<in> R" and p: "user_path p" and t: "walk s1 r p = Some t" and i: "i < 0x200"
  shows "bytes_kept s (set_ent s1 t i e) (tables_of s R)"
  unfolding bytes_kept_def
proof (intro allI impI)
  fix b x assume b: "(b, 0) \<in> pool_blocks s" "b \<notin> tables_of s R" "x - b < PAGE_SIZE"
  have inv: "pgtbl_inv s1 R" and sub: "pool_blocks s \<subseteq> pool_blocks s1" and k: "bytes_kept s s1 (tables_of s R)" using a by (simp_all add: tables_added_def)
  have P: "pool_inv s1" "straight s1" using inv by (simp_all add: pgtbl_inv_def)
  have "b \<noteq> t" using a b(1,2) r p t unfolding tables_added_def tables_of_def by blast
  then have "mem (set_ent s1 t i e) x = mem s1 x"
    using bytes_keptD [OF set_ent_bytes [OF P pgtbl_invD(2) [OF inv r p t] i]] b(1,3) sub by blast
  then show "mem (set_ent s1 t i e) x = mem s x" using bytes_keptD [OF k] b by simp
qed

lemma map_user_page_ok:
  assumes inv: "pgtbl_inv s R" and r: "as \<in> R" and v: "v < USER_VADDR_LIMIT" and prot: "prot \<noteq> VMA_PROT_NONE" and f: "3 \<le> pool_free s"
    and k: "(PAGE_START kp, 0) \<in> pool_blocks s"
  shows "\<exists>s' t e. hal_map_user_page s as v kp prot = Some (0, s') \<and> pgtbl_inv s' R \<and> pool_blocks s \<subseteq> pool_blocks s' \<and> pool_free s \<le> pool_free s' + 3 \<and>
    find_pte s' as v = Some (t, e) \<and> tbl_of e = PAGE_START kp \<and> page_flags_to_vma_prot (get_ent_attr e) = mapped_prot prot \<and>
    (\<forall>as' \<in> R. \<forall>v' < USER_VADDR_LIMIT. as' \<noteq> as \<or> PAGE_START v' \<noteq> PAGE_START v \<longrightarrow> find_pte s' as' v' = find_pte s as' v') \<and>
    bytes_kept s s' (tables_of s R) \<and> (\<forall>t \<in> tables_of s' R. t \<in> tables_of s R \<or> (t, 0) \<notin> pool_blocks s)"
proof -
  note flags = page_flags [OF prot]
  from three_tables [OF inv r v f] obtain a s1 b s2 c s3 where
    s3: "alloc_pdp_tbl s as v = Some (0, Some a, s1)" "alloc_pdir_tbl s1 a v = Some (0, Some b, s2)" "alloc_pte_tbl s2 b v = Some (0, Some c, s3)"
      "tables_added R s s3" "walk s3 as (table_path v) = Some c" "pool_free s \<le> pool_free s3 + 3" .
  define e where "e = kern_straight_to_phy (PAGE_START kp) OR (vma_prot_to_page_flags prot AND (PAGE_SIZE - 1))"
  define s4 where "s4 = set_ent s3 c (PT_INDEX v) e"
  have i3: "pgtbl_inv s3 R" and sub: "pool_blocks s \<subseteq> pool_blocks s3" and fp3: "\<forall>r \<in> R. \<forall>v. PML4_INDEX v < 0x100 \<longrightarrow> find_pte s3 r v = find_pte s r v"
    using s3(4) by (simp_all add: tables_added_def)
  note leaf = set_leaf [OF i3 r user_index [OF v] s3(5), where e = e, folded s4_def]
  have P4: "pool_inv s4" "straight s4" "(PAGE_START kp, 0) \<in> pool_blocks s4" using leaf(1) k sub by (auto simp: pgtbl_inv_def s4_def)
  obtain s' where s': "inc_page_map_count s4 (PAGE_START kp) = Some s'" "owners_only s4 s'" "pool_free s' = pool_free s4"
    using inc_page_map_count_ok [OF P4] by blast
  have run: "hal_map_user_page s as v kp prot = Some (0, s')"
    using s3(1-3) s'(1) flags(1) pgtbl_invD(3) [OF inv r user_path_Nil, of as]
    by (simp add: hal_map_user_page_def set_pte_ent_def Let_def s4_def e_def)
  have m': "mem s' = mem s4" using s'(2) by (simp add: owners_only_def)
  note parts = ent_parts [OF iffD2 [OF page_aligned_phys PAGE_START_aligned] flags(2), of kp, folded e_def]
  have "get_ent_attr e AND PAGE_PRESENT = e AND PAGE_PRESENT" by (simp add: get_ent_attr_def and.assoc)
  then have pres: "present e" using parts(2) flags(3) by (simp add: present_def)
  have "find_pte s' as v = Some (c, e)" unfolding walk_cong(2) [OF m'] using leaf(3) [OF r user_index [OF v]] pres by simp
  moreover have "tbl_of e = PAGE_START kp" unfolding tbl_of_def parts(1) by (simp add: phy_to_kern_straight_def kern_straight_to_phy_def)
  moreover have "page_flags_to_vma_prot (get_ent_attr e) = mapped_prot prot" unfolding parts(2) by (rule flags(4))
  moreover have "find_pte s' as' v' = find_pte s as' v'" if h: "as' \<in> R" "v' < USER_VADDR_LIMIT" "as' \<noteq> as \<or> PAGE_START v' \<noteq> PAGE_START v" for as' v'
    unfolding walk_cong(2) [OF m'] using leaf(3) [OF h(1) user_index [OF h(2)]] h same_page [OF v h(2)] fp3 user_index [OF h(2)] by auto
  moreover have "pgtbl_inv s' R" using owners_only_pgtbl [OF s'(2) leaf(1)] .
  moreover have "bytes_kept s s' (tables_of s R)"
    using bytes_kept_set_leaf [OF s3(4) r table_path_user [OF user_index [OF v]] s3(5) index_lt(1)] m' by (simp add: bytes_kept_def s4_def)
  moreover have "pool_blocks s \<subseteq> pool_blocks s'" using sub s'(2) by (simp add: owners_only_def s4_def)
  moreover have "pool_free s \<le> pool_free s' + 3" using s3(6) s'(3) by (simp add: s4_def)
  moreover have "t \<in> tables_of s R \<or> (t, 0) \<notin> pool_blocks s" if tt: "t \<in> tables_of s' R" for t
  proof -
    from tt obtain r' p where w: "r' \<in> R" "user_path p" "walk s' r' p = Some t" by (auto simp: tables_of_def)
    then have "walk s3 r' p = Some t" using leaf(2) [OF w(1,2)] unfolding walk_cong(1) [OF m'] by simp
    then show ?thesis using s3(4) w(1,2) unfolding tables_added_def tables_of_def by blast
  qed
  ultimately show ?thesis using run by blast
qed

lemma translate_find_pte:
  assumes "r \<noteq> 0"
  shows "hal_translate_user_page s r v = Some (case find_pte s r v of None \<Rightarrow> (- ENOENT, None)
    | Some (t, e) \<Rightarrow> (0, Some (tbl_of e, page_flags_to_vma_prot (get_ent_attr e))))"
  using assms by (simp add: hal_translate_user_page_def tbl_of_def split: option.splits)

text \<open>When a table is missing and no page is free, mapping a page never returns.\<close>

lemma map_without_memory:
  assumes inv: "pgtbl_inv s R" and r: "as \<in> R" and v: "v < USER_VADDR_LIMIT" and prot: "prot \<noteq> VMA_PROT_NONE" and f: "pool_free s = 0"
    and no: "\<not> present (get_ent s as (PML4_INDEX v))"
  shows "hal_map_user_page s as v kp prot = None"
proof -
  have P: "pool_inv s" "straight s" using inv by (simp_all add: pgtbl_inv_def)
  have "get_free_page s = Some (- ENOMEM, None, s)" using get_free_page_ok [OF P] f by auto
  then show ?thesis using no page_flags(1) [OF prot] by (simp add: hal_map_user_page_def alloc_pdp_tbl_def alloc_tbl_def get_pml4_ent_def Let_def)
qed

section \<open>Unmapping a page\<close>

definition page_mapcnt :: "page_pool \<Rightarrow> u64 \<Rightarrow> u64 option" where
  "page_mapcnt s a = (case kvaddr_to_page_frame s a of (_, None) \<Rightarrow> None | (_, Some p) \<Rightarrow> map_option mapcnt (page_at s p))"

lemma dec_page_map_count_ok:
  assumes "pool_inv s" and "straight s" and "(b, 0) \<in> pool_blocks s"
  shows "\<exists>s'. dec_page_map_count s b = Some s' \<and> mem s' = mem s \<and> (page_mapcnt s b \<noteq> Some 1 \<longrightarrow> owners_only s s')"
proof -
  from inc_page_map_count_ok [OF assms] obtain j w where k: "kvaddr_to_page_frame s b = (0, Some (j, w))" "page_at s (j, w) \<noteq> None" by auto
  define f where "f = (\<lambda>pg :: page_frame. let pg = pg\<lparr>mapcnt := mapcnt pg - 1\<rparr> in
     if mapcnt pg = 0 then pg\<lparr>pf_state := pf_state pg AND NOT PAGE_CSTATE_USED\<rparr> else pg)"
  have jw: "j < length (pfque s)" "unat w < length (array (buddy (pfque s ! j)))"
    using k(2) by (auto simp: page_at_def bind_eq_Some_conv arr_get_def split: if_split_asm)
  have run: "dec_page_map_count s b = page_update s (j, w) f" by (simp add: dec_page_map_count_def k(1) f_def)
  show ?thesis
  proof (cases "page_mapcnt s b = Some 1")
    case True
    then show ?thesis using jw by (auto simp: run page_update_def upd_page_def set_buddy_def)
  next
    case False
    define g where "g = (\<lambda>pg :: page_frame. pg\<lparr>mapcnt := mapcnt pg - 1\<rparr>)"
    have "f (array (buddy (pfque s ! j)) ! unat w) = g (array (buddy (pfque s ! j)) ! unat w)"
      using False k jw by (simp add: f_def g_def page_mapcnt_def page_at_def Let_def)
    then have "page_update s (j, w) f = page_update s (j, w) g" using jw by (simp add: page_update_def upd_page_def)
    moreover obtain s' where "page_update s (j, w) g = Some s'" "owners_only s s'"
      using page_attr_ok [OF assms(1) jw, of g] by (auto simp: same_place_def g_def)
    ultimately show ?thesis by (auto simp: run owners_only_def)
  qed
qed

section \<open>New address spaces\<close>

text \<open>A change of memory outside the pages in use changes no walk.\<close>

lemma walk_same:
  assumes inv: "pgtbl_inv s R" and o: "\<And>t j. (t, 0) \<in> pool_blocks s \<Longrightarrow> j < 0x200 \<Longrightarrow> get_ent s' t j = get_ent s t j" and r: "r \<in> R"
  shows "user_path p \<Longrightarrow> walk s' r p = walk s r p" and "v < USER_VADDR_LIMIT \<Longrightarrow> find_pte s' r v = find_pte s r v"
proof -
  show W: "walk s' r p = walk s r p" if "user_path p" for p
    using that
  proof (induction p rule: rev_induct)
    case (snoc j p)
    note up = user_path_snoc [OF snoc.prems]
    then have IH: "walk s' r p = walk s r p" using snoc.IH by blast
    show ?case
    proof (cases "walk s r p")
      case (Some t)
      have "get_ent s' t j = get_ent s t j" using o pgtbl_invD(1) [OF inv r _ Some] up by blast
      then show ?thesis using IH Some by (simp add: walk_snoc)
    qed (use IH in \<open>simp add: walk_snoc\<close>)
  qed simp
  show "find_pte s' r v = find_pte s r v" if "v < USER_VADDR_LIMIT"
  proof -
    note u = table_path_user [OF user_index [OF that]]
    show ?thesis using W [OF u] o pgtbl_invD(1) [OF inv r u] index_lt(1) [of v] by (auto simp: find_pte_walk split: option.split)
  qed
qed

text \<open>Bytes outside the page tables do not change a translation.\<close>

lemma walk_outside:
  assumes inv: "pgtbl_inv p R" and r: "r \<in> R" and o: "\<And>t x. t \<in> tables_of p R \<Longrightarrow> x - t < PAGE_SIZE \<Longrightarrow> m x = mem p x"
  shows "user_path w \<Longrightarrow> walk (p\<lparr>mem := m\<rparr>) r w = walk p r w" and "v < USER_VADDR_LIMIT \<Longrightarrow> find_pte (p\<lparr>mem := m\<rparr>) r v = find_pte p r v"
proof -
  have e: "get_ent (p\<lparr>mem := m\<rparr>) t j = get_ent p t j" if "user_path w" "walk p r w = Some t" "j < 0x200" for t j w
  proof -
    have t: "t \<in> tables_of p R" "page_aligned t" using that r pgtbl_invD(2) [OF inv r that(1,2)] by (auto simp: tables_of_def)
    have "read64 m (t + 8 * j) = read64 (mem p) (t + 8 * j)"
    proof (rule read64_cong)
      fix i :: nat assume "i < 8"
      then have "t + 8 * j + of_nat i - (t + 8 * j) < 8" by (simp add: word_less_nat_alt unat_of_nat)
      from o [OF t(1) ent_bytes [OF t(2) that(3) this]] show "m (t + 8 * j + of_nat i) = mem p (t + 8 * j + of_nat i)" .
    qed
    then show ?thesis by (simp add: get_ent_def)
  qed
  show W: "walk (p\<lparr>mem := m\<rparr>) r w = walk p r w" if "user_path w" for w
    using that
  proof (induction w rule: rev_induct)
    case (snoc j w)
    note up = user_path_snoc [OF snoc.prems]
    then have IH: "walk (p\<lparr>mem := m\<rparr>) r w = walk p r w" using snoc.IH by blast
    show ?case using IH e up by (cases "walk p r w") (auto simp: walk_snoc)
  qed simp
  show "find_pte (p\<lparr>mem := m\<rparr>) r v = find_pte p r v" if "v < USER_VADDR_LIMIT"
  proof -
    note u = table_path_user [OF user_index [OF that]]
    show ?thesis using W [OF u] e [OF u] index_lt(1) [of v] by (auto simp: find_pte_walk split: option.split)
  qed
qed

lemma tables_outside:
  assumes inv: "pgtbl_inv p R" and o: "\<And>t x. t \<in> tables_of p R \<Longrightarrow> x - t < PAGE_SIZE \<Longrightarrow> m x = mem p x"
  shows "tables_of (p\<lparr>mem := m\<rparr>) R = tables_of p R" and "pgtbl_inv (p\<lparr>mem := m\<rparr>) R"
proof -
  have W: "walk (p\<lparr>mem := m\<rparr>) r w = walk p r w" if "r \<in> R" "user_path w" for r w using walk_outside(1) [OF inv that(1) _ that(2)] o by blast
  then show "tables_of (p\<lparr>mem := m\<rparr>) R = tables_of p R" unfolding tables_of_def by (metis (no_types, lifting))
  have "tables_in (p\<lparr>mem := m\<rparr>) R" using inv W unfolding pgtbl_inv_def tables_in_def by simp
  moreover have "tables_apart (p\<lparr>mem := m\<rparr>) R" using inv W unfolding pgtbl_inv_def tables_apart_def by (metis (no_types, lifting))
  ultimately show "pgtbl_inv (p\<lparr>mem := m\<rparr>) R" using inv by (simp add: pgtbl_inv_def)
qed

lemma copy_kernel_entries_ent:
  assumes "page_aligned kern" and "page_aligned a" and "page_aligned t" and "kern \<noteq> a" and "i + n \<le> PGTBL_ENTRY_MAX" and "j < 0x200"
  shows "get_ent (copy_kernel_entries kern a i n s) t j = (if t = a \<and> i \<le> unat j \<and> unat j < i + n then get_ent s kern j else get_ent s t j)"
  using assms(5)
proof (induction n arbitrary: i s)
  case (Suc n)
  have i: "unat (of_nat i :: u64) = i" using Suc.prems by (simp add: unat_of_nat)
  then have lt: "(of_nat i :: u64) < 0x200" using Suc.prems by (simp add: word_less_nat_alt)
  have ji: "j = of_nat i \<longleftrightarrow> unat j = i" using i by (auto simp: word_unat_eq_iff)
  define s1 where "s1 = set_ent s a (of_nat i) (get_ent s kern (of_nat i))"
  have g: "get_ent s1 t j = (if t = a \<and> unat j = i then get_ent s kern j else get_ent s t j)"
    using get_set_ent [OF assms(2,3) lt assms(6)] ji by (auto simp: s1_def)
  have gk: "get_ent s1 kern j = get_ent s kern j" using get_set_ent [OF assms(2,1) lt assms(6)] assms(4) by (simp add: s1_def)
  have "get_ent (copy_kernel_entries kern a i (Suc n) s) t j = get_ent (copy_kernel_entries kern a (Suc i) n s1) t j" by (simp add: s1_def)
  also have "\<dots> = (if t = a \<and> Suc i \<le> unat j \<and> unat j < Suc i + n then get_ent s kern j else get_ent s1 t j)"
    using Suc.IH [of "Suc i" s1] Suc.prems gk by simp
  also have "\<dots> = (if t = a \<and> i \<le> unat j \<and> unat j < i + Suc n then get_ent s kern j else get_ent s t j)" unfolding g by auto
  finally show ?case .
qed auto

lemma copy_kernel_entries_pool:
  "\<exists>m. copy_kernel_entries kern a i n s = s\<lparr>mem := m\<rparr>"
proof (induction n arbitrary: i s)
  case (Suc n)
  obtain m where "copy_kernel_entries kern a (Suc i) n (set_ent s a (of_nat i) (get_ent s kern (of_nat i))) =
    (set_ent s a (of_nat i) (get_ent s kern (of_nat i)))\<lparr>mem := m\<rparr>" using Suc.IH by blast
  then show ?case by (auto simp: set_ent_def)
qed (simp, metis page_pool.surjective page_pool.update_convs(2))

lemma kernel_index: "unat (PML4_INDEX KERN_VMA_BASE) = 256"
  by (simp add: PML4_INDEX_def)

lemma alloc_space_ok:
  assumes inv: "pgtbl_inv s R" and kern: "page_aligned kern" "kern \<noteq> 0" "\<forall>a s1. get_free_page s = Some (0, Some a, s1) \<longrightarrow> a \<noteq> kern"
  shows "if pool_free s = 0 then hal_alloc_user_page_table s kern = Some (- ENOMEM, None, s)
    else \<exists>a s'. hal_alloc_user_page_table s kern = Some (0, Some a, s') \<and> a \<notin> R \<and> pgtbl_inv s' (insert a R) \<and> pool_free s' + 1 = pool_free s \<and>
      (\<forall>v < USER_VADDR_LIMIT. hal_translate_user_page s' a v = Some (- ENOENT, None)) \<and>
      (\<forall>i. 0x100 \<le> i \<longrightarrow> i < 0x200 \<longrightarrow> get_ent s' a i = get_ent s kern i) \<and>
      (\<forall>as \<in> R. \<forall>v < USER_VADDR_LIMIT. hal_translate_user_page s' as v = hal_translate_user_page s as v)"
proof -
  have P: "pool_inv s" "straight s" using inv by (simp_all add: pgtbl_inv_def)
  from get_free_page_ok [OF P] show ?thesis
  proof (elim disjE exE conjE)
    assume "get_free_page s = Some (- ENOMEM, None, s)" "pool_free s = 0"
    then show ?thesis using kern(2) by (simp add: hal_alloc_user_page_table_def)
  next
    fix a s1 assume a: "get_free_page s = Some (0, Some a, s1)" "pool_inv s1" "straight s1" "(a, 0) \<notin> pool_blocks s"
      "pool_blocks s1 = insert (a, 0) (pool_blocks s)" "mem s1 = memset64 (mem s) a 0 PAGE_SIZE" "page_aligned a"
      "pool_free s1 + 1 = pool_free s" "same_owners s s1"
    have ka: "kern \<noteq> a" using kern(3) a(1) by blast
    define s2 where "s2 = s1\<lparr>mem := memset64 (mem s1) a 0 PAGE_SIZE\<rparr>"
    define s' where "s' = copy_kernel_entries kern a 256 256 s2"
    have run: "hal_alloc_user_page_table s kern = Some (0, Some a, s')"
      using a(1) kern(2) by (simp add: hal_alloc_user_page_table_def kernel_index Let_def s'_def s2_def)
    have e2: "get_ent s2 t j = (if t = a then 0 else get_ent s t j)" if "page_aligned t" "j < 0x200" for t j
      using get_memset_ent [OF that(1) a(7) that(2), of "mem s1" s1] get_memset_ent [OF that(1) a(7) that(2), of "mem s" s]
      by (cases "t = a") (simp_all add: get_ent_def s2_def a(6))
    have e: "get_ent s' t j = (if t = a then (if 256 \<le> unat j then get_ent s kern j else 0) else get_ent s t j)" if "page_aligned t" "j < 0x200" for t j
      using copy_kernel_entries_ent [OF kern(1) a(7) that(1) ka _ that(2), of 256 256 s2] e2 [OF that] e2 [OF kern(1) that(2)] ka that(2)
      by (auto simp: s'_def word_less_nat_alt)
    have o: "get_ent s' t j = get_ent s t j" if "(t, 0) \<in> pool_blocks s" "j < 0x200" for t j
      using e [OF block_aligned(1) [OF P that(1)] that(2)] that(1) a(4) by auto
    have W: "r \<in> R \<Longrightarrow> user_path p \<Longrightarrow> walk s' r p = walk s r p" "r \<in> R \<Longrightarrow> v < USER_VADDR_LIMIT \<Longrightarrow> find_pte s' r v = find_pte s r v" for r p v
      using walk_same [OF inv o] by blast+
    have aR: "a \<notin> R" using pgtbl_invD(1) [OF inv _ user_path_Nil, of a a] a(4) by auto
    have wa: "walk s' a p = (if p = [] then Some a else None)" if "user_path p" for p
    proof (cases p)
      case (Cons i q)
      then have "i < 0x100" using that by (simp add: user_path_def)
      then have "get_ent s' a i = 0" using e [OF a(7), of i] by (auto simp: word_less_nat_alt)
      then show ?thesis using Cons by (simp add: present_def)
    qed simp
    obtain m where m: "s' = s2\<lparr>mem := m\<rparr>" using copy_kernel_entries_pool unfolding s'_def by blast
    have pool: "pool_inv s'" "straight s'" "pool_blocks s' = insert (a, 0) (pool_blocks s)" using a(2,3,5) by (simp_all add: m s2_def)
    have "tables_in s' (insert a R)" unfolding tables_in_def pool(3) using W(1) wa pgtbl_invD(1) [OF inv] by (auto split: if_split_asm)
    moreover have "tables_apart s' (insert a R)" unfolding tables_apart_def
    proof (intro ballI allI impI)
      fix r1 r2 p1 p2 t assume h: "r1 \<in> insert a R" "r2 \<in> insert a R" "user_path p1" "user_path p2" "walk s' r1 p1 = Some t" "walk s' r2 p2 = Some t"
      have old: "walk s' r p \<noteq> Some a" if "r \<in> R" "user_path p" for r p using W(1) [OF that] pgtbl_invD(1) [OF inv that] a(4) by auto
      show "r1 = r2 \<and> p1 = p2"
      proof (cases "r1 = a \<or> r2 = a")
        case True
        then show ?thesis using h wa [OF h(3)] wa [OF h(4)] old by (auto split: if_split_asm)
      next
        case False
        then show ?thesis using h W(1) pgtbl_invD(4) [OF inv, of r1 p1 t r2 p2] by auto
      qed
    qed
    ultimately have inv': "pgtbl_inv s' (insert a R)" using pool by (simp add: pgtbl_inv_def)
    have nz: "a \<noteq> 0" using pgtbl_invD(3) [OF inv' insertI1 user_path_Nil, of a] by simp
    have "hal_translate_user_page s' a v = Some (- ENOENT, None)" if "v < USER_VADDR_LIMIT" for v
      using wa [OF table_path_user [OF user_index [OF that]]] nz by (simp add: translate_find_pte find_pte_walk table_path_def)
    moreover have "hal_translate_user_page s' as v = hal_translate_user_page s as v" if "as \<in> R" "v < USER_VADDR_LIMIT" for as v
      using W(2) [OF that] pgtbl_invD(3) [OF inv that(1) user_path_Nil, of as] by (simp add: translate_find_pte)
    moreover have "get_ent s' a i = get_ent s kern i" if "0x100 \<le> i" "i < 0x200" for i
      using e [OF a(7) that(2)] that(1) by (simp add: word_le_nat_alt)
    moreover have "pool_free s' = pool_free s1" by (simp add: m s2_def)
    ultimately show ?thesis using run aR inv' a(8) by auto
  qed
qed

text \<open>A page taken for data leaves the address spaces as they are.\<close>

lemma data_page_ok:
  assumes inv: "pgtbl_inv s R" and a: "get_free_page s = Some (0, Some a, s')"
  shows "pgtbl_inv s' R" and "(a, 0) \<in> pool_blocks s'" and "(a, 0) \<notin> pool_blocks s" and "pool_blocks s \<subseteq> pool_blocks s'" and "pool_free s' + 1 = pool_free s"
    and "page_aligned a" and "a \<notin> tables_of s' R" and "tables_of s' R = tables_of s R" and "bytes_kept s s' {}" and "\<And>x. x - a < PAGE_SIZE \<Longrightarrow> mem s' x = 0"
    and "\<And>r v. r \<in> R \<Longrightarrow> v < USER_VADDR_LIMIT \<Longrightarrow> find_pte s' r v = find_pte s r v"
proof -
  have P: "pool_inv s" "straight s" using inv by (simp_all add: pgtbl_inv_def)
  have f: "pool_inv s'" "straight s'" "pool_blocks s' = insert (a, 0) (pool_blocks s)" "mem s' = memset64 (mem s) a 0 PAGE_SIZE"
    using get_free_page_ok [OF P] a by auto
  show na: "(a, 0) \<notin> pool_blocks s" and al: "page_aligned a" and "pool_free s' + 1 = pool_free s" using get_free_page_ok [OF P] a by auto
  show "(a, 0) \<in> pool_blocks s'" "pool_blocks s \<subseteq> pool_blocks s'" using f(3) by auto
  show "mem s' x = 0" if "x - a < PAGE_SIZE" for x using that by (simp add: f(4) memset64_def)
  have b: "mem s' x = mem s x" if h: "(b, 0) \<in> pool_blocks s" "x - b < PAGE_SIZE" for b x
    using page_bytes_apart [OF block_aligned(1) [OF P h(1)] al h(2)] h(1) na by (auto simp: f(4) memset64_def)
  then show "bytes_kept s s' {}" by (simp add: bytes_kept_def)
  have o: "get_ent s' t j = get_ent s t j" if h: "(t, 0) \<in> pool_blocks s" "j < 0x200" for t j
    using get_memset_ent [OF block_aligned(1) [OF P h(1)] al h(2), of "mem s" s] h(1) na by (auto simp: get_ent_def f(4))
  have W: "r \<in> R \<Longrightarrow> user_path p \<Longrightarrow> walk s' r p = walk s r p" for r p using walk_same(1) [OF inv o] by blast
  show "find_pte s' r v = find_pte s r v" if "r \<in> R" "v < USER_VADDR_LIMIT" for r v using walk_same(2) [OF inv o that] by blast
  have "tables_in s' R" "tables_apart s' R" using inv W f(3) unfolding pgtbl_inv_def tables_in_def tables_apart_def by simp_all
  then show "pgtbl_inv s' R" using f by (simp add: pgtbl_inv_def)
  show t: "tables_of s' R = tables_of s R" unfolding tables_of_def by (rule Collect_cong) (metis W)
  have "a \<notin> tables_of s R" unfolding tables_of_def using pgtbl_invD(1) [OF inv] na by blast
  then show "a \<notin> tables_of s' R" using t by simp
qed

section \<open>An example\<close>

text \<open>A machine with eight pages, one address space in it, a page for data, and that page mapped at the first user address.\<close>

definition example_kern :: u64 where "example_kern = 0xFFFF900000000000"

definition example_space :: "u64 \<times> page_pool" where
  "example_space = (case hal_alloc_user_page_table eight_pages example_kern of Some (_, Some a, s) \<Rightarrow> (a, s) | _ \<Rightarrow> (0, eight_pages))"

definition example_page :: "u64 \<times> page_pool" where
  "example_page = (case get_free_page (snd example_space) of Some (_, Some a, s) \<Rightarrow> (a, s) | _ \<Rightarrow> (0, eight_pages))"

definition example_mapped :: page_pool where
  "example_mapped = (case hal_map_user_page (snd example_page) (fst example_space) 0x400000 (fst example_page) VMA_PROT_R of
     Some (_, s) \<Rightarrow> s | None \<Rightarrow> eight_pages)"

lemma eight_pages_tables: "pgtbl_inv eight_pages {}"
  by (simp add: pgtbl_inv_def tables_in_def tables_apart_def eight_pages_inv)

lemma example_kern_ok: "page_aligned example_kern" "example_kern \<noteq> 0" "\<forall>a s1. get_free_page eight_pages = Some (0, Some a, s1) \<longrightarrow> a \<noteq> example_kern"
proof -
  show "page_aligned example_kern" "example_kern \<noteq> 0" by (simp_all add: page_aligned_def example_kern_def)
  have "map_option (\<lambda>(rc, a, s). (rc, a)) (get_free_page eight_pages) = Some (0, Some 0xFFFF800000007000)" by code_simp
  then show "\<forall>a s1. get_free_page eight_pages = Some (0, Some a, s1) \<longrightarrow> a \<noteq> example_kern" by (auto simp: example_kern_def)
qed

lemma example_space_ok: "pgtbl_inv (snd example_space) {fst example_space}" "7 \<le> pool_free (snd example_space)"
proof -
  from alloc_space_ok [OF eight_pages_tables example_kern_ok] obtain a s' where
    "hal_alloc_user_page_table eight_pages example_kern = Some (0, Some a, s')" "pgtbl_inv s' {a}" "pool_free s' + 1 = pool_free eight_pages"
    by (auto simp: eight_pages_inv)
  then show "pgtbl_inv (snd example_space) {fst example_space}" "7 \<le> pool_free (snd example_space)"
    by (simp_all add: example_space_def eight_pages_inv)
qed

lemma example_page_ok: "pgtbl_inv (snd example_page) {fst example_space}" "3 \<le> pool_free (snd example_page)"
  "(PAGE_START (fst example_page), 0) \<in> pool_blocks (snd example_page)" "PAGE_START (fst example_page) = fst example_page"
proof -
  have P: "pool_inv (snd example_space)" "straight (snd example_space)" using example_space_ok(1) by (simp_all add: pgtbl_inv_def)
  from get_free_page_ok [OF P] example_space_ok(2) obtain a s' where a: "get_free_page (snd example_space) = Some (0, Some a, s')" by auto
  have ex: "example_page = (a, s')" by (simp add: example_page_def a)
  note D = data_page_ok [OF example_space_ok(1) a]
  show "pgtbl_inv (snd example_page) {fst example_space}" "3 \<le> pool_free (snd example_page)"
    "(PAGE_START (fst example_page), 0) \<in> pool_blocks (snd example_page)" "PAGE_START (fst example_page) = fst example_page"
    using D(1,2,5) PAGE_START_id [OF D(6)] example_space_ok(2) by (simp_all add: ex)
qed

lemma example_mapped_ok:
  "pgtbl_inv example_mapped {fst example_space}" "(fst example_page, 0) \<in> pool_blocks example_mapped"
  "hal_translate_user_page example_mapped (fst example_space) 0x400000 = Some (0, Some (fst example_page, mapped_prot VMA_PROT_R))"
proof -
  have nz: "fst example_space \<noteq> 0" using pgtbl_invD(3) [OF example_space_ok(1) singletonI user_path_Nil, of "fst example_space"] by simp
  from map_user_page_ok [OF example_page_ok(1) singletonI _ _ example_page_ok(2,3), where v = "0x400000" and prot = VMA_PROT_R] obtain s' t e where
    s': "hal_map_user_page (snd example_page) (fst example_space) 0x400000 (fst example_page) VMA_PROT_R = Some (0, s')"
      "pgtbl_inv s' {fst example_space}" "pool_blocks (snd example_page) \<subseteq> pool_blocks s'" "find_pte s' (fst example_space) 0x400000 = Some (t, e)"
      "tbl_of e = PAGE_START (fst example_page)" "page_flags_to_vma_prot (get_ent_attr e) = mapped_prot VMA_PROT_R"
    by (auto simp: word_less_nat_alt)
  have "example_mapped = s'" by (simp add: example_mapped_def s'(1))
  then show "pgtbl_inv example_mapped {fst example_space}" "(fst example_page, 0) \<in> pool_blocks example_mapped"
    "hal_translate_user_page example_mapped (fst example_space) 0x400000 = Some (0, Some (fst example_page, mapped_prot VMA_PROT_R))"
    using s' example_page_ok(3,4) nz by (auto simp: translate_find_pte)
qed

section \<open>Properties\<close>

text \<open>
  Claim C10. With three free pages left, \<open>hal_map_user_page\<close> succeeds: afterwards \<open>hal_translate_user_page\<close> gives the page with the
  protection asked for, made readable and executable.  The translation of every other page and of every other address space is
  what it was, the tables of all address spaces remain pages of their own, and no byte of a page in use that is not a page
  table changes.
\<close>

theorem hal_map_user_page_spec:
  assumes "pgtbl_inv s R" and "as \<in> R" and "v < USER_VADDR_LIMIT" and "prot \<noteq> VMA_PROT_NONE" and "3 \<le> pool_free s"
    and "(PAGE_START kp, 0) \<in> pool_blocks s"
  shows "\<exists>s'. hal_map_user_page s as v kp prot = Some (0, s') \<and> pgtbl_inv s' R \<and>
    hal_translate_user_page s' as v = Some (0, Some (PAGE_START kp, mapped_prot prot)) \<and>
    (\<forall>as' \<in> R. \<forall>v' < USER_VADDR_LIMIT. as' \<noteq> as \<or> PAGE_START v' \<noteq> PAGE_START v \<longrightarrow>
       hal_translate_user_page s' as' v' = hal_translate_user_page s as' v') \<and>
    bytes_kept s s' (tables_of s R)"
proof -
  have nz: "as' \<noteq> 0" if "as' \<in> R" for as' using pgtbl_invD(3) [OF assms(1) that user_path_Nil, of as'] by simp
  from map_user_page_ok [OF assms] obtain s' t e where
    s': "hal_map_user_page s as v kp prot = Some (0, s')" "pgtbl_inv s' R" "find_pte s' as v = Some (t, e)" "tbl_of e = PAGE_START kp"
      "page_flags_to_vma_prot (get_ent_attr e) = mapped_prot prot"
      "\<forall>as' \<in> R. \<forall>v' < USER_VADDR_LIMIT. as' \<noteq> as \<or> PAGE_START v' \<noteq> PAGE_START v \<longrightarrow> find_pte s' as' v' = find_pte s as' v'"
      "bytes_kept s s' (tables_of s R)" by (elim exE conjE) (rule that)
  have "hal_translate_user_page s' as v = Some (0, Some (PAGE_START kp, mapped_prot prot))"
    using s'(3-5) nz [OF assms(2)] by (simp add: translate_find_pte)
  moreover have "hal_translate_user_page s' as' v' = hal_translate_user_page s as' v'"
    if "as' \<in> R" "v' < USER_VADDR_LIMIT" "as' \<noteq> as \<or> PAGE_START v' \<noteq> PAGE_START v" for as' v'
    using s'(6) that nz by (simp add: translate_find_pte)
  ultimately show ?thesis using s'(1,2,7) by blast
qed

theorem hal_map_user_page_spec_witness:
  "\<exists>s'. hal_map_user_page (snd example_page) (fst example_space) 0x400000 (fst example_page) VMA_PROT_R = Some (0, s') \<and>
    hal_translate_user_page s' (fst example_space) 0x400000 = Some (0, Some (fst example_page, 5))"
  using hal_map_user_page_spec [OF example_page_ok(1) singletonI _ _ example_page_ok(2,3), where v = "0x400000" and prot = VMA_PROT_R] example_page_ok(4)
  by (auto simp: word_less_nat_alt mapped_prot_def)

text \<open>
  Claim C11. \<open>hal_unmap_user_page\<close> of a mapped page succeeds: afterwards the page has no translation, and unmapping it again answers
  \<^verbatim>\<open>-ENOENT\<close> and changes nothing.  All other translations of all address spaces are what they were and no byte of a page in use
  that is not a page table changes.  When the page is still mapped elsewhere, the pool and the tables remain well-formed.
\<close>

theorem hal_unmap_user_page_spec:
  assumes inv: "pgtbl_inv s R" and r: "as \<in> R" and v: "v < USER_VADDR_LIMIT"
    and m: "hal_translate_user_page s as v = Some (0, Some (kp, prot))" and k: "(kp, 0) \<in> pool_blocks s"
  shows "\<exists>s'. hal_unmap_user_page s as v = Some (0, s') \<and> hal_translate_user_page s' as v = Some (- ENOENT, None) \<and>
    hal_unmap_user_page s' as v = Some (- ENOENT, s') \<and>
    (\<forall>as' \<in> R. \<forall>v' < USER_VADDR_LIMIT. as' \<noteq> as \<or> PAGE_START v' \<noteq> PAGE_START v \<longrightarrow>
       hal_translate_user_page s' as' v' = hal_translate_user_page s as' v') \<and>
    bytes_kept s s' (tables_of s R) \<and> (page_mapcnt s kp \<noteq> Some 1 \<longrightarrow> pgtbl_inv s' R)"
proof -
  have nz: "as' \<noteq> 0" if "as' \<in> R" for as' using pgtbl_invD(3) [OF inv that user_path_Nil, of as'] by simp
  obtain t e where e: "find_pte s as v = Some (t, e)" "tbl_of e = kp"
    using m nz [OF r] by (auto simp: translate_find_pte split: option.split_asm)
  then have t: "walk s as (table_path v) = Some t" by (auto simp: find_pte_walk split: option.split_asm if_split_asm)
  define s1 where "s1 = set_ent s t (PT_INDEX v) 0"
  note leaf = set_leaf [OF inv r user_index [OF v] t, where e = 0, folded s1_def]
  have P1: "pool_inv s1" "straight s1" "(kp, 0) \<in> pool_blocks s1" using leaf(1) k by (auto simp: pgtbl_inv_def s1_def)
  have cnt: "page_mapcnt s1 kp = page_mapcnt s kp"
  proof -
    have "page_at s1 = page_at s" by (intro ext) (simp add: page_at_def s1_def set_ent_def)
    moreover have "kvaddr_to_page_frame s1 kp = kvaddr_to_page_frame s kp" by (rule same_owners_lookup(1)) (simp add: s1_def)
    ultimately show ?thesis by (simp only: page_mapcnt_def)
  qed
  obtain s' where s': "dec_page_map_count s1 kp = Some s'" "mem s' = mem s1" "page_mapcnt s kp \<noteq> Some 1 \<longrightarrow> owners_only s1 s'"
    using dec_page_map_count_ok [OF P1] unfolding cnt by blast
  have run: "hal_unmap_user_page s as v = Some (0, s')"
    using e s'(1) nz [OF r] by (simp add: hal_unmap_user_page_def set_pte_ent_def tbl_of_def s1_def)
  have none: "find_pte s' as v = None" unfolding walk_cong(2) [OF s'(2)] using leaf(3) [OF r user_index [OF v]] by (simp add: present_def)
  have "hal_translate_user_page s' as' v' = hal_translate_user_page s as' v'"
    if h: "as' \<in> R" "v' < USER_VADDR_LIMIT" "as' \<noteq> as \<or> PAGE_START v' \<noteq> PAGE_START v" for as' v'
  proof -
    have "find_pte s' as' v' = find_pte s as' v'"
      unfolding walk_cong(2) [OF s'(2)] using leaf(3) [OF h(1) user_index [OF h(2)]] h(3) same_page [OF v h(2)] by auto
    then show ?thesis using nz [OF h(1)] by (simp add: translate_find_pte)
  qed
  moreover have "hal_translate_user_page s' as v = Some (- ENOENT, None)" "hal_unmap_user_page s' as v = Some (- ENOENT, s')"
    using none nz [OF r] by (simp_all add: translate_find_pte hal_unmap_user_page_def)
  moreover have "bytes_kept s s' (tables_of s R)"
    using bytes_kept_set_leaf [OF tables_added_refl [OF inv] r table_path_user [OF user_index [OF v]] t index_lt(1)] s'(2) by (simp add: bytes_kept_def s1_def)
  moreover have "page_mapcnt s kp \<noteq> Some 1 \<longrightarrow> pgtbl_inv s' R" using s'(3) owners_only_pgtbl leaf(1) by blast
  ultimately show ?thesis using run by blast
qed

theorem hal_unmap_user_page_spec_witness:
  "\<exists>s'. hal_unmap_user_page example_mapped (fst example_space) 0x400000 = Some (0, s') \<and>
    hal_translate_user_page s' (fst example_space) 0x400000 = Some (- ENOENT, None)"
  using hal_unmap_user_page_spec [OF example_mapped_ok(1) singletonI _ example_mapped_ok(3,2)] by (auto simp: word_less_nat_alt)

text \<open>
  Claim C12. \<open>hal_alloc_user_page_table\<close> gives a new address space whenever a page is free: nothing is mapped in its user half, its
  kernel half is that of the kernel's own table, no other address space changes, and the tables of all of them, the new one
  included, are pages of their own.  With no page free it answers \<^verbatim>\<open>-ENOMEM\<close> and changes nothing.
\<close>

theorem hal_alloc_user_page_table_spec:
  assumes inv: "pgtbl_inv s R" and kern: "page_aligned kern" "kern \<noteq> 0" "\<forall>a s1. get_free_page s = Some (0, Some a, s1) \<longrightarrow> a \<noteq> kern"
  shows "if pool_free s = 0 then hal_alloc_user_page_table s kern = Some (- ENOMEM, None, s)
    else \<exists>a s'. hal_alloc_user_page_table s kern = Some (0, Some a, s') \<and> a \<notin> R \<and> pgtbl_inv s' (insert a R) \<and>
      (\<forall>v < USER_VADDR_LIMIT. hal_translate_user_page s' a v = Some (- ENOENT, None)) \<and>
      (\<forall>i. 0x100 \<le> i \<longrightarrow> i < 0x200 \<longrightarrow> get_ent s' a i = get_ent s kern i) \<and>
      (\<forall>as \<in> R. \<forall>v < USER_VADDR_LIMIT. hal_translate_user_page s' as v = hal_translate_user_page s as v)"
proof (cases "pool_free s = 0")
  case True
  then show ?thesis using alloc_space_ok [OF assms] by simp
next
  case False
  then show ?thesis using alloc_space_ok [OF assms] by auto
qed

theorem hal_alloc_user_page_table_spec_witness:
  "\<exists>a s'. hal_alloc_user_page_table eight_pages example_kern = Some (0, Some a, s') \<and> pgtbl_inv s' {a} \<and>
    hal_translate_user_page s' a 0x400000 = Some (- ENOENT, None)"
  using hal_alloc_user_page_table_spec [OF eight_pages_tables example_kern_ok] eight_pages_inv(3) by (auto simp: word_less_nat_alt)

end
