(* ===== verification/Vm.thy ===== *)
theory Vm
  imports Slab_Alloc Pgtbl
begin

text \<open>
  Address spaces and their memory regions: \<^verbatim>\<open>src/vm/vm.c\<close> on top of the page tables of theory \<open>Pgtbl\<close>, the page
  pool and \<open>kmalloc\<close>.

  A pointer to an address space or to a region is its address, and the state maps addresses to the structures.  The
  red-black tree of regions is the sequence of its nodes in order; \<open>asmtx_self\<close> says whether the running thread
  owns the mutex of the address space, which most operations assert.  Locking a mutex of one's own, which is not
  recursive, blocks forever.  The spin lock of a region is held throughout the operations that take it.
\<close>

section \<open>State\<close>

record vma =
  vma_as :: u64
  vma_start :: u64
  vma_end :: u64
  vma_prot :: u32
  vma_flags :: u32

record vm =
  asmtx_self :: bool
  vm_p :: u64
  pgtbl :: u64
  vma_head :: "u64 list"

record vmem =
  heap :: kmem
  vmas :: "u64 \<Rightarrow> vma"
  spaces :: "u64 \<Rightarrow> vm"

abbreviation VMA_FLAG_HEAP :: u32 where "VMA_FLAG_HEAP \<equiv> 1"
abbreviation VMA_FLAG_STACK :: u32 where "VMA_FLAG_STACK \<equiv> 2"
abbreviation SIZEOF_VMA :: u64 where "SIZEOF_VMA \<equiv> 248"

abbreviation vm_pool :: "vmem \<Rightarrow> page_pool" where "vm_pool s \<equiv> pages (heap s)"

definition set_pool :: "vmem \<Rightarrow> page_pool \<Rightarrow> vmem" where
  "set_pool s p = s\<lparr>heap := (heap s)\<lparr>pages := p\<rparr>\<rparr>"

definition upd_space :: "vmem \<Rightarrow> u64 \<Rightarrow> (vm \<Rightarrow> vm) \<Rightarrow> vmem" where
  "upd_space s as f = s\<lparr>spaces := (spaces s)(as := f (spaces s as))\<rparr>"

definition upd_vma :: "vmem \<Rightarrow> u64 \<Rightarrow> (vma \<Rightarrow> vma) \<Rightarrow> vmem" where
  "upd_vma s v f = s\<lparr>vmas := (vmas s)(v := f (vmas s v))\<rparr>"

text \<open>The mutex of an address space as its owner sees it.\<close>

definition lock_space :: "vmem \<Rightarrow> u64 \<Rightarrow> vmem option" where
  "lock_space s as = (if asmtx_self (spaces s as) then None else Some (upd_space s as (asmtx_self_update (\<lambda>_. True))))"

definition unlock_space :: "vmem \<Rightarrow> u64 \<Rightarrow> vmem option" where
  "unlock_space s as = do {
     kassert (asmtx_self (spaces s as));
     Some (upd_space s as (asmtx_self_update (\<lambda>_. False)))
   }"

text \<open>The page table operations on an address space.\<close>

definition map_page :: "vmem \<Rightarrow> u64 \<Rightarrow> u64 \<Rightarrow> u64 \<Rightarrow> u32 \<Rightarrow> (int \<times> vmem) option" where
  "map_page s as vaddr kpaddr prot = do {
     kassert (asmtx_self (spaces s as));
     (rc, p) \<leftarrow> hal_map_user_page (vm_pool s) (pgtbl (spaces s as)) vaddr kpaddr prot;
     Some (rc, set_pool s p)
   }"

definition unmap_page :: "vmem \<Rightarrow> u64 \<Rightarrow> u64 \<Rightarrow> (int \<times> vmem) option" where
  "unmap_page s as vaddr = do {
     kassert (asmtx_self (spaces s as));
     (rc, p) \<leftarrow> hal_unmap_user_page (vm_pool s) (pgtbl (spaces s as)) vaddr;
     Some (rc, set_pool s p)
   }"

definition translate_page :: "vmem \<Rightarrow> u64 \<Rightarrow> u64 \<Rightarrow> (int \<times> (u64 \<times> u32) option) option" where
  "translate_page s as vaddr = do {
     kassert (asmtx_self (spaces s as));
     hal_translate_user_page (vm_pool s) (pgtbl (spaces s as)) vaddr
   }"

section \<open>Regions\<close>

definition vma_cmp :: "vma \<Rightarrow> vma \<Rightarrow> int" where
  "vma_cmp a b = (if vma_start a < vma_start b then -1 else if vma_start a > vma_start b then 1 else 0)"

text \<open>\<^verbatim>\<open>RB_INSERT\<close> gives back the node that already has the key, if there is one.\<close>

fun vma_insert :: "(u64 \<Rightarrow> vma) \<Rightarrow> u64 \<Rightarrow> u64 list \<Rightarrow> u64 option \<times> u64 list" where
  "vma_insert st v [] = (None, [v])"
| "vma_insert st v (x # xs) =
     (let comp = vma_cmp (st v) (st x) in
      if comp < 0 then (None, v # x # xs)
      else if comp > 0 then (let (r, ys) = vma_insert st v xs in (r, x # ys))
      else (Some x, x # xs))"

text \<open>\<open>base\<close> is the address of the caches of \<open>kmalloc\<close>.\<close>

definition alloc_new_vma :: "u64 \<Rightarrow> vmem \<Rightarrow> u64 \<Rightarrow> u64 \<Rightarrow> u64 \<Rightarrow> u32 \<Rightarrow> u32 \<Rightarrow> (u64 option \<times> vmem) option" where
  "alloc_new_vma base s as start end' prot vflags = do {
     (vmap, h) \<leftarrow> kmalloc base (heap s) SIZEOF_VMA;
     let s = s\<lparr>heap := h\<rparr>;
     case vmap of
       None \<Rightarrow> Some (None, s)
     | Some v \<Rightarrow> Some (Some v, upd_vma s v (\<lambda>_. \<lparr>vma_as = as, vma_start = start, vma_end = end', vma_prot = prot, vma_flags = vflags\<rparr>))
   }"

definition vma_hits :: "u64 \<Rightarrow> u64 \<Rightarrow> vma \<Rightarrow> bool" where
  "vma_hits pg_start pg_end r \<longleftrightarrow>
     vma_start r \<le> pg_start \<and> pg_start < vma_end r \<or>
     vma_start r \<le> pg_end \<and> pg_end \<le> vma_end r \<or>
     pg_start \<le> vma_start r \<and> vma_start r < pg_end \<or>
     pg_start < vma_end r \<and> vma_end r \<le> pg_end"

definition round_up :: "u64 \<Rightarrow> u64" where
  "round_up a = (if PAGE_ALIGNED a then a else PAGE_NEXT a)"

definition check_vma_overlap_nolock :: "vmem \<Rightarrow> u64 \<Rightarrow> u64 \<Rightarrow> int option" where
  "check_vma_overlap_nolock s as v = do {
     kassert (asmtx_self (spaces s as));
     let pg_start = PAGE_START (vma_start (vmas s v));
     let pg_end = round_up (vma_end (vmas s v));
     if pg_end \<ge> KERN_VMA_BASE then Some (- EBUSY)
     else if list_ex (\<lambda>x. vma_hits pg_start pg_end (vmas s x)) (vma_head (spaces s as)) then Some (- EBUSY)
     else Some 0
   }"

definition vma_covers :: "vma \<Rightarrow> u64 \<Rightarrow> bool" where
  "vma_covers r vaddr \<longleftrightarrow>
     vma_start r \<le> vaddr \<and> vaddr < vma_end r \<or> vma_start r = vma_end r \<and> vaddr = vma_start r"

definition vm_find_vma_nolock :: "vmem \<Rightarrow> u64 \<Rightarrow> u64 \<Rightarrow> (int \<times> u64 option) option" where
  "vm_find_vma_nolock s as vaddr = do {
     kassert (asmtx_self (spaces s as));
     case find (\<lambda>x. vma_covers (vmas s x) vaddr) (vma_head (spaces s as)) of
       Some v \<Rightarrow> Some (0, Some v)
     | None \<Rightarrow> Some (- ENOENT, None)
   }"

definition vm_find_vma :: "vmem \<Rightarrow> u64 \<Rightarrow> u64 \<Rightarrow> (int \<times> u64 option \<times> vmem) option" where
  "vm_find_vma s as vaddr = do {
     s \<leftarrow> lock_space s as;
     (rc, res) \<leftarrow> vm_find_vma_nolock s as vaddr;
     s \<leftarrow> unlock_space s as;
     Some (rc, res, s)
   }"

section \<open>Ranges of pages\<close>

text \<open>The loops end when \<open>vaddr\<close> reaches \<open>last\<close>; near the end of the address space they may run forever.\<close>

partial_function (option) unmap_range :: "vmem \<Rightarrow> u64 \<Rightarrow> u64 \<Rightarrow> u64 \<Rightarrow> vmem option" where
  "unmap_range s as vaddr end' =
     (if vaddr < end' then do {
        (rc, s) \<leftarrow> unmap_page s as vaddr;
        unmap_range s as (vaddr + PAGE_SIZE) end'
      } else Some s)"

text \<open>\<open>start\<close> is where the range began, \<open>vaddr\<close> the page reached.\<close>

partial_function (option) map_newpages :: "vmem \<Rightarrow> u64 \<Rightarrow> u64 \<Rightarrow> u64 \<Rightarrow> u64 \<Rightarrow> u32 \<Rightarrow> (int \<times> vmem) option" where
  "map_newpages s as start vaddr end' prot =
     (if vaddr < end' then do {
        (rc, new_page, p) \<leftarrow> get_free_page (vm_pool s);
        if rc \<noteq> 0 then do {
          s \<leftarrow> unmap_range (set_pool s p) as start vaddr;
          Some (rc, s)
        } else do {
          new_page \<leftarrow> new_page;
          let s = set_pool s (p\<lparr>mem := memset64 (mem p) new_page 0 PAGE_SIZE\<rparr>);
          (rc, s) \<leftarrow> map_page s as vaddr new_page prot;
          if rc \<noteq> 0 then do {
            s \<leftarrow> unmap_range s as start vaddr;
            p \<leftarrow> free_page (vm_pool s) new_page;
            Some (rc, set_pool s p)
          } else map_newpages s as start (vaddr + PAGE_SIZE) end' prot
        }
      } else Some (0, s))"

definition map_newpage_range :: "vmem \<Rightarrow> u64 \<Rightarrow> u64 \<Rightarrow> u64 \<Rightarrow> u32 \<Rightarrow> (int \<times> vmem) option" where
  "map_newpage_range s as start end' prot = do {
     kassert (asmtx_self (spaces s as));
     map_newpages s as start start end' prot
   }"

definition resize_vma :: "vmem \<Rightarrow> u64 \<Rightarrow> u64 \<Rightarrow> u64 \<Rightarrow> (int \<times> vmem) option" where
  "resize_vma s v start end' = do {
     let as = vma_as (vmas s v);
     kassert (start \<noteq> 0);
     kassert (asmtx_self (spaces s as));
     let new_start = (if PAGE_ALIGNED start then start else PAGE_START start);
     let new_end = round_up end';
     if new_end < new_start then Some (- EINVAL, s)
     else do {
       let r = vmas s v;
       (rc, s) \<leftarrow>
         (if vma_start r \<noteq> new_start then
            (if vma_start r > new_start then map_newpage_range s as new_start (vma_start r) (vma_prot r)
             else do { s \<leftarrow> unmap_range s as (vma_start r) new_start; Some (0, s) })
          else Some (0, s));
       (rc, s) \<leftarrow>
         (if vma_end r \<noteq> new_end then
            (if vma_end r < new_end then map_newpage_range s as (vma_end r) new_end (vma_prot r)
             else do { s \<leftarrow> unmap_range s as new_end (vma_end r); Some (0, s) })
          else Some (rc, s));
       if rc \<noteq> 0 then Some (rc, s)
       else Some (0, upd_vma s v (\<lambda>r. r\<lparr>vma_start := new_start, vma_end := new_end\<rparr>))
     }
   }"

partial_function (option) destroy_pages :: "vmem \<Rightarrow> u64 \<Rightarrow> u64 \<Rightarrow> u64 \<Rightarrow> vmem option" where
  "destroy_pages s as vaddr end' =
     (if vaddr < end' then do {
        (rc, s) \<leftarrow> unmap_page s as vaddr;
        kassert (rc = 0);
        destroy_pages s as (vaddr + PAGE_SIZE) end'
      } else Some s)"

definition vm_destroy_vma_nolock :: "vmem \<Rightarrow> u64 \<Rightarrow> (int \<times> vmem) option" where
  "vm_destroy_vma_nolock s v = do {
     let r = vmas s v;
     s \<leftarrow> destroy_pages s (vma_as r) (vma_start r) (vma_end r);
     h \<leftarrow> kfree (heap s) (Some v);
     Some (0, s\<lparr>heap := h\<rparr>)
   }"

text \<open>\<open>memcpy\<close> between two pages.\<close>

definition copy_page :: "(u64 \<Rightarrow> u8) \<Rightarrow> u64 \<Rightarrow> u64 \<Rightarrow> (u64 \<Rightarrow> u8)" where
  "copy_page m dst src = (\<lambda>x. if x - dst < PAGE_SIZE then m (src + (x - dst)) else m x)"

partial_function (option) copy_vma_pages :: "vmem \<Rightarrow> u64 \<Rightarrow> u64 \<Rightarrow> u64 \<Rightarrow> u64 \<Rightarrow> (int \<times> vmem) option" where
  "copy_vma_pages s dest src saddr daddr =
     (if saddr < vma_end (vmas s src) \<and> daddr < vma_end (vmas s dest) then do {
        (rc, old) \<leftarrow> translate_page s (vma_as (vmas s src)) saddr;
        if rc = 0 then do {
          (old_page, old_prot) \<leftarrow> old;
          (rc, new_page, p) \<leftarrow> get_free_page (vm_pool s);
          if rc \<noteq> 0 then Some (rc, set_pool s p)
          else do {
            new_page \<leftarrow> new_page;
            let s = set_pool s (p\<lparr>mem := copy_page (mem p) new_page old_page\<rparr>);
            (rc, s) \<leftarrow> map_page s (vma_as (vmas s dest)) daddr new_page (vma_prot (vmas s dest));
            if rc \<noteq> 0 then Some (rc, s)
            else copy_vma_pages s dest src (saddr + PAGE_SIZE) (daddr + PAGE_SIZE)
          }
        } else copy_vma_pages s dest src (saddr + PAGE_SIZE) (daddr + PAGE_SIZE)
      } else Some (0, s))"

definition vm_copy_vma :: "vmem \<Rightarrow> u64 \<Rightarrow> u64 \<Rightarrow> (int \<times> vmem) option" where
  "vm_copy_vma s dest src = do {
     kassert (PAGE_ALIGNED (vma_start (vmas s src)));
     kassert (PAGE_ALIGNED (vma_end (vmas s src)));
     kassert (PAGE_ALIGNED (vma_start (vmas s dest)));
     kassert (PAGE_ALIGNED (vma_end (vmas s dest)));
     let s = upd_vma s dest (\<lambda>r. r\<lparr>vma_prot := vma_prot (vmas s src), vma_flags := vma_flags (vmas s src)\<rparr>);
     kassert (vma_start (vmas s src) < vma_end (vmas s src) \<and> vma_start (vmas s dest) < vma_end (vmas s dest));
     copy_vma_pages s dest src (vma_start (vmas s src)) (vma_start (vmas s dest))
   }"

section \<open>Operations on address spaces\<close>

definition vm_create_vma :: "u64 \<Rightarrow> vmem \<Rightarrow> u64 \<Rightarrow> u64 \<Rightarrow> u64 \<Rightarrow> u32 \<Rightarrow> u32 \<Rightarrow> (int \<times> u64 option \<times> vmem) option" where
  "vm_create_vma base s as start siz prot vflags = do {
     kassert (asmtx_self (spaces s as));
     (vmap, s) \<leftarrow> alloc_new_vma base s as start (start + siz) prot vflags;
     case vmap of
       None \<Rightarrow> Some (- ENOMEM, None, s)
     | Some v \<Rightarrow> do {
         rc \<leftarrow> check_vma_overlap_nolock s as v;
         if rc \<noteq> 0 then do {
           h \<leftarrow> kfree (heap s) (Some v);
           Some (rc, None, s\<lparr>heap := h\<rparr>)
         } else do {
           let (res, q) = vma_insert (vmas s) v (vma_head (spaces s as));
           kassert (res = None);
           Some (0, Some v, upd_space s as (vma_head_update (\<lambda>_. q)))
         }
       }
   }"

definition vm_destroy_vma :: "vmem \<Rightarrow> u64 \<Rightarrow> (int \<times> vmem) option" where
  "vm_destroy_vma s v = do {
     let as = vma_as (vmas s v);
     s \<leftarrow> lock_space s as;
     (rc, s) \<leftarrow> vm_destroy_vma_nolock s v;
     s \<leftarrow> unlock_space s as;
     Some (rc, s)
   }"

fun duplicate_vmas :: "u64 \<Rightarrow> vmem \<Rightarrow> u64 \<Rightarrow> u64 list \<Rightarrow> vmem option" where
  "duplicate_vmas base s dest [] = Some s"
| "duplicate_vmas base s dest (v # vs) = do {
     let r = vmas s v;
     (rc, new_vma, s) \<leftarrow> vm_create_vma base s dest (vma_start r) (vma_end r - vma_start r) (vma_prot r) (vma_flags r);
     if rc \<noteq> 0 then Some s
     else do {
       new_vma \<leftarrow> new_vma;
       (rc, s) \<leftarrow> vm_copy_vma s new_vma v;
       if rc \<noteq> 0 then Some s else duplicate_vmas base s dest vs
     }
   }"

text \<open>\<open>kproc\<close> is the kernel process.\<close>

definition vm_duplicate :: "u64 \<Rightarrow> u64 \<Rightarrow> vmem \<Rightarrow> u64 \<Rightarrow> u64 \<Rightarrow> vmem option" where
  "vm_duplicate base kproc s dest src = do {
     kassert (pgtbl (spaces s dest) \<noteq> 0);
     kassert (pgtbl (spaces s src) \<noteq> 0);
     kassert (vm_p (spaces s dest) \<noteq> 0);
     kassert (vm_p (spaces s src) \<noteq> 0);
     kassert (vm_p (spaces s dest) \<noteq> kproc);
     kassert (vm_p (spaces s src) \<noteq> kproc);
     s \<leftarrow> lock_space s src;
     s \<leftarrow> duplicate_vmas base s dest (vma_head (spaces s src));
     unlock_space s src
   }"

definition vm_map_addr :: "vmem \<Rightarrow> u64 \<Rightarrow> u64 \<Rightarrow> u64 \<Rightarrow> (int \<times> vmem) option" where
  "vm_map_addr s as vaddr kpaddr = do {
     kassert (asmtx_self (spaces s as));
     if vaddr \<ge> USER_VADDR_LIMIT then Some (- EFAULT, s)
     else do {
       (rc, res) \<leftarrow> vm_find_vma_nolock s as vaddr;
       if rc \<noteq> 0 then Some (rc, s)
       else do {
         res \<leftarrow> res;
         map_page s as vaddr kpaddr (vma_prot (vmas s res))
       }
     }
   }"

definition vm_map_newpage :: "vmem \<Rightarrow> u64 \<Rightarrow> u64 \<Rightarrow> (int \<times> vmem) option" where
  "vm_map_newpage s as vaddr = do {
     kassert (asmtx_self (spaces s as));
     if vaddr \<ge> USER_VADDR_LIMIT then Some (- EFAULT, s)
     else do {
       (rc, res) \<leftarrow> vm_find_vma_nolock s as vaddr;
       if rc \<noteq> 0 then Some (rc, s)
       else do {
         res \<leftarrow> res;
         (rc, new_page, p) \<leftarrow> get_free_page (vm_pool s);
         if rc \<noteq> 0 then Some (rc, set_pool s p)
         else do {
           new_page \<leftarrow> new_page;
           let s = set_pool s (p\<lparr>mem := memset64 (mem p) new_page 0 PAGE_SIZE\<rparr>);
           map_page s as vaddr new_page (vma_prot (vmas s res))
         }
       }
     }
   }"

definition vm_unmap_addr :: "vmem \<Rightarrow> u64 \<Rightarrow> u64 \<Rightarrow> (int \<times> vmem) option" where
  "vm_unmap_addr s as vaddr = do {
     kassert (asmtx_self (spaces s as));
     if vaddr \<ge> USER_VADDR_LIMIT then Some (- EFAULT, s)
     else do {
       (rc, res) \<leftarrow> vm_find_vma_nolock s as vaddr;
       if rc \<noteq> 0 then Some (rc, s)
       else do {
         (_, s) \<leftarrow> unmap_page s as vaddr;
         Some (rc, s)
       }
     }
   }"

text \<open>
  The result holds the old end or start, when it is given back.  The second search writes its result over the region
  that is to be resized.
\<close>

definition vm_resize_area :: "vmem \<Rightarrow> u64 \<Rightarrow> u64 \<Rightarrow> u64 \<Rightarrow> (int \<times> u64 option \<times> vmem) option" where
  "vm_resize_area s as fault_addr new_addr = do {
     kassert (asmtx_self (spaces s as));
     kassert (fault_addr \<noteq> 0);
     kassert (new_addr \<noteq> 0);
     if fault_addr \<ge> USER_VADDR_LIMIT then Some (- EFAULT, None, s)
     else if new_addr \<ge> USER_VADDR_LIMIT then Some (- EFAULT, None, s)
     else do {
       (rc, res) \<leftarrow> vm_find_vma_nolock s as fault_addr;
       if rc \<noteq> 0 then Some (rc, None, s)
       else do {
         res \<leftarrow> res;
         let r = vmas s res;
         if vma_flags r AND VMA_FLAG_HEAP \<noteq> 0 then do {
           let old_addr = vma_end r;
           let new_start = vma_start r;
           let new_end = round_up new_addr;
           (rc, other) \<leftarrow> vm_find_vma_nolock s as new_end;
           if old_addr < new_end \<and> rc = 0 then Some (- EBUSY, None, s)
           else do {
             (rc, s) \<leftarrow> resize_vma s (case other of Some x \<Rightarrow> x | None \<Rightarrow> res) new_start new_end;
             Some (rc, if rc = 0 then Some old_addr else None, s)
           }
         } else if vma_flags r AND VMA_FLAG_STACK \<noteq> 0 then do {
           let old_addr = vma_start r;
           let new_start = (if PAGE_ALIGNED new_addr then new_addr else PAGE_START new_addr);
           let new_end = vma_end r;
           (rc, other) \<leftarrow> vm_find_vma_nolock s as new_start;
           if old_addr > new_start \<and> rc = 0 then Some (- EBUSY, None, s)
           else do {
             (rc, s) \<leftarrow> resize_vma s (case other of Some x \<Rightarrow> x | None \<Rightarrow> res) new_start new_end;
             Some (rc, if rc = 0 then Some old_addr else None, s)
           }
         } else Some (- EPERM, None, s)
       }
     }
   }"

text \<open>\<open>kvm\<close> is the address space of the kernel process.  The result of the allocation is dropped.\<close>

definition vm_init :: "u64 \<Rightarrow> vmem \<Rightarrow> u64 \<Rightarrow> vmem option" where
  "vm_init kvm s as = do {
     (rc, tbl, p) \<leftarrow> hal_alloc_user_page_table (vm_pool s) (pgtbl (spaces s kvm));
     let s = set_pool s p;
     case tbl of
       None \<Rightarrow> Some s
     | Some t \<Rightarrow> Some (upd_space s as (pgtbl_update (\<lambda>_. t)))
   }"

fun destroy_vmas :: "vmem \<Rightarrow> u64 \<Rightarrow> u64 list \<Rightarrow> vmem option" where
  "destroy_vmas s as [] = Some s"
| "destroy_vmas s as (v # vs) = do {
     let s = upd_space s as (vma_head_update (remove1 v));
     (rc, s) \<leftarrow> vm_destroy_vma_nolock s v;
     destroy_vmas s as vs
   }"

definition vm_destroy :: "vmem \<Rightarrow> u64 \<Rightarrow> vmem option" where
  "vm_destroy s as = do {
     s \<leftarrow> lock_space s as;
     s \<leftarrow> destroy_vmas s as (vma_head (spaces s as));
     p \<leftarrow> hal_free_user_page_table (vm_pool s) (pgtbl (spaces s as));
     let s = upd_space (set_pool s p) as (pgtbl_update (\<lambda>_. 0));
     unlock_space s as
   }"

section \<open>Well-formed regions\<close>

text \<open>The numbers of the pages a region has a byte in.\<close>

definition vma_pages :: "vma \<Rightarrow> nat set" where
  "vma_pages r = {unat x div 4096 | x. vma_start r \<le> x \<and> x < vma_end r}"

definition vma_before :: "vma \<Rightarrow> vma \<Rightarrow> bool" where
  "vma_before r r' \<longleftrightarrow> vma_start r < vma_start r' \<and> vma_end r \<le> vma_start r' \<and> vma_pages r \<inter> vma_pages r' = {}"

definition regions_ok :: "(u64 \<Rightarrow> vma) \<Rightarrow> u64 list \<Rightarrow> bool" where
  "regions_ok st q \<longleftrightarrow> sorted_wrt (\<lambda>x y. vma_before (st x) (st y)) q \<and> (\<forall>x \<in> set q. vma_start (st x) \<le> vma_end (st x) \<and> vma_end (st x) < KERN_VMA_BASE)"

lemma regions_ok_cong:
  assumes "\<And>x. x \<in> set q \<Longrightarrow> st' x = st x"
  shows "regions_ok st' q = regions_ok st q"
proof -
  have "sorted_wrt (\<lambda>x y. vma_before (st' x) (st' y)) q = sorted_wrt (\<lambda>x y. vma_before (st x) (st y)) q"
    using assms by (intro iffI; elim sorted_wrt_mono_rel [rotated]) auto
  then show ?thesis using assms by (auto simp: regions_ok_def)
qed

lemma covers_unique:
  assumes "sorted_wrt (\<lambda>x y. vma_before (st x) (st y)) q" and "x \<in> set q" and "y \<in> set q" and "vma_covers (st x) v" and "vma_covers (st y) v"
  shows "x = y"
  using assms
proof (induction q)
  case (Cons z q)
  have "\<not> vma_covers (st w) v" if "w \<in> set q" "vma_covers (st z) v" for w
    using Cons.prems(1) that by (fastforce simp: vma_before_def vma_covers_def)
  then show ?case using Cons by auto
qed simp

text \<open>Rounding to pages.\<close>

lemma PAGE_ALIGNED_iff: "PAGE_ALIGNED a \<longleftrightarrow> page_aligned a"
proof -
  have "PAGE_ALIGNED a \<longleftrightarrow> (\<forall>n. \<not> bit (a AND mask 12) n)" unfolding PAGE_ALIGNED_def page_mask
    by (metis bit_0_eq bot_apply bot_bool_def bit_word_eqI)
  also have "\<dots> \<longleftrightarrow> page_aligned a"
  proof -
    have "bit (a AND mask 12) n \<longleftrightarrow> bit a n \<and> n < 12" for n by (auto simp: bit_and_iff bit_mask_iff dest: bit_imp_le_length)
    then show ?thesis by (auto simp: page_aligned_bits)
  qed
  finally show ?thesis .
qed

lemma PAGE_START_unat: "unat (PAGE_START a) = 4096 * (unat a div 4096)"
proof -
  have "PAGE_START a = push_bit 12 (drop_bit 12 a)"
    by (rule bit_word_eqI) (auto simp: PAGE_START_bit bit_push_bit_iff bit_drop_bit_eq)
  moreover have "unat (drop_bit 12 a) = unat a div 4096" by (simp add: drop_bit_eq_div unat_div)
  moreover have "unat a div 4096 * 4096 < 2 ^ 64"
    using unsigned_less [of a, where ?'a = nat] div_times_less_eq_dividend [of "unat a" 4096] by simp
  ultimately show ?thesis by (simp add: push_bit_eq_mult unat_word_ariths)
qed

lemma page_le: "unat (PAGE_START a) \<le> unat a" "unat a < unat (PAGE_START a) + 4096"
  unfolding PAGE_START_unat by (simp_all add: dividend_less_div_times [of 4096, simplified] mult.commute)

lemma round_up_unat:
  assumes "unat a + 4096 \<le> 2 ^ 64"
  shows "unat a \<le> unat (round_up a)" and "unat (round_up a) < unat a + 4096" and "4096 dvd unat (round_up a)"
proof -
  have n: "unat (PAGE_NEXT a) = unat (PAGE_START a) + 4096" if "\<not> PAGE_ALIGNED a"
  proof -
    have "unat (PAGE_START a) \<noteq> unat a" using that PAGE_START_aligned [of a] by (metis PAGE_ALIGNED_iff word_unat_eq_iff)
    then have "unat (PAGE_START a) + 4096 < 2 ^ 64" using page_le [of a] assms by simp
    then show ?thesis by (simp add: PAGE_NEXT_def unat_word_ariths)
  qed
  have d: "4096 dvd unat (PAGE_START a)" by (simp add: PAGE_START_unat)
  show "unat a \<le> unat (round_up a)" using n page_le(2) [of a] by (auto simp: round_up_def)
  show "4096 dvd unat (round_up a)" using n d by (auto simp: round_up_def PAGE_ALIGNED_iff page_aligned_def)
  show "unat (round_up a) < unat a + 4096"
  proof (cases "PAGE_ALIGNED a")
    case False
    have "unat (PAGE_START a) \<noteq> unat a" using False PAGE_START_aligned [of a] by (metis PAGE_ALIGNED_iff word_unat_eq_iff)
    then show ?thesis using n [OF False] page_le(1) [of a] False by (simp add: round_up_def)
  qed (simp add: round_up_def)
qed

text \<open>When the new region, rounded to pages, neither meets nor touches another from below, it lies before or behind it.\<close>

definition clear_of :: "vma \<Rightarrow> vma \<Rightarrow> bool" where
  "clear_of r x \<longleftrightarrow> vma_start x < PAGE_START (vma_start r) \<and> vma_end x \<le> PAGE_START (vma_start r) \<and> vma_end x < round_up (vma_end r) \<or>
     round_up (vma_end r) < vma_start x"

lemma not_hits_clear:
  assumes "vma_start x \<le> vma_end x" and "PAGE_START (vma_start r) \<le> round_up (vma_end r)"
  shows "\<not> vma_hits (PAGE_START (vma_start r)) (round_up (vma_end r)) x \<longleftrightarrow> clear_of r x"
  using assms unfolding vma_hits_def clear_of_def by (auto simp: not_le not_less word_less_nat_alt word_le_nat_alt)

lemma region_bounds:
  assumes "vma_start r \<le> vma_end r" and "round_up (vma_end r) < KERN_VMA_BASE" and "unat (vma_end r) + 4096 \<le> 2 ^ 64"
  shows "PAGE_START (vma_start r) \<le> vma_start r" and "vma_end r \<le> round_up (vma_end r)" and "vma_end r < KERN_VMA_BASE"
    and "PAGE_START (vma_start r) \<le> round_up (vma_end r)"
proof -
  show s: "PAGE_START (vma_start r) \<le> vma_start r" using page_le(1) by (simp add: word_le_nat_alt)
  show e: "vma_end r \<le> round_up (vma_end r)" using round_up_unat(1) [OF assms(3)] by (simp add: word_le_nat_alt)
  show "vma_end r < KERN_VMA_BASE" using e assms(2) by simp
  show "PAGE_START (vma_start r) \<le> round_up (vma_end r)" using s e assms(1) by simp
qed

lemma pages_split:
  assumes "\<And>x. vma_start r \<le> x \<Longrightarrow> x < vma_end r \<Longrightarrow> unat x < 4096 * k" and "\<And>x. vma_start r' \<le> x \<Longrightarrow> x < vma_end r' \<Longrightarrow> 4096 * k \<le> unat x"
  shows "vma_pages r \<inter> vma_pages r' = {}"
proof (rule ccontr)
  assume "vma_pages r \<inter> vma_pages r' \<noteq> {}"
  then obtain x y where xy: "vma_start r \<le> x" "x < vma_end r" "vma_start r' \<le> y" "y < vma_end r'" "unat x div 4096 = unat y div 4096"
    by (auto simp: vma_pages_def)
  have "unat x div 4096 < k" using assms(1) [OF xy(1,2)] by (simp add: less_mult_imp_div_less mult.commute)
  moreover have "k \<le> unat y div 4096" using assms(2) [OF xy(3,4)] by (simp add: less_eq_div_iff_mult_less_eq mult.commute)
  ultimately show False using xy(5) by simp
qed

lemma clear_before:
  assumes c: "clear_of r x" and x: "vma_start x \<le> vma_end x" and r: "vma_start r \<le> vma_end r" "round_up (vma_end r) < KERN_VMA_BASE" "unat (vma_end r) + 4096 \<le> 2 ^ 64"
  shows "vma_before x r \<or> vma_before r x"
proof -
  note B = region_bounds [OF r]
  from c [unfolded clear_of_def] show ?thesis
  proof (elim disjE conjE)
    assume h: "vma_start x < PAGE_START (vma_start r)" "vma_end x \<le> PAGE_START (vma_start r)" "vma_end x < round_up (vma_end r)"
    have "vma_pages x \<inter> vma_pages r = {}"
    proof (rule pages_split [where k = "unat (vma_start r) div 4096"])
      show "unat z < 4096 * (unat (vma_start r) div 4096)" if "z < vma_end x" for z
        using that h(2) PAGE_START_unat [of "vma_start r"] by (simp add: word_less_nat_alt word_le_nat_alt)
      show "4096 * (unat (vma_start r) div 4096) \<le> unat z" if "vma_start r \<le> z" for z
        using that B(1) PAGE_START_unat [of "vma_start r"] by (simp add: word_le_nat_alt)
    qed
    then show ?thesis using less_le_trans [OF h(1) B(1)] order_trans [OF h(2) B(1)] by (simp add: vma_before_def)
  next
    assume h: "round_up (vma_end r) < vma_start x"
    obtain k where k: "unat (round_up (vma_end r)) = 4096 * k" using round_up_unat(3) [OF r(3)] by (auto simp: dvd_def)
    have "vma_pages r \<inter> vma_pages x = {}"
    proof (rule pages_split [where k = k])
      show "unat z < 4096 * k" if "z < vma_end r" for z using that B(2) k by (simp add: word_less_nat_alt word_le_nat_alt)
      show "4096 * k \<le> unat z" if "vma_start x \<le> z" for z using that h k by (simp add: word_less_nat_alt word_le_nat_alt)
    qed
    moreover have "vma_start r < vma_start x" "vma_end r \<le> vma_start x" using h B r(1) by auto
    ultimately show ?thesis by (simp add: vma_before_def)
  qed
qed

lemma vma_insert_ok:
  assumes "sorted_wrt (\<lambda>x y. vma_before (st x) (st y)) q" and "\<And>x. x \<in> set q \<Longrightarrow> vma_before (st x) (st v) \<or> vma_before (st v) (st x)"
  shows "\<exists>q'. vma_insert st v q = (None, q') \<and> set q' = insert v (set q) \<and> sorted_wrt (\<lambda>x y. vma_before (st x) (st y)) q'"
  using assms
proof (induction q)
  case (Cons x q)
  show ?case
  proof (cases "vma_before (st v) (st x)")
    case True
    have "vma_before (st v) (st y)" if y: "y \<in> set q" for y
    proof -
      have "vma_before (st x) (st y)" using Cons.prems(1) y by simp
      then have "vma_start (st v) < vma_start (st y)" using True unfolding vma_before_def by (meson less_trans)
      then show ?thesis using Cons.prems(2) [of y] y by (auto simp: vma_before_def)
    qed
    moreover have "vma_insert st v (x # q) = (None, v # x # q)" using True by (simp add: vma_before_def vma_cmp_def)
    ultimately show ?thesis using Cons.prems(1) True by auto
  next
    case False
    then have b: "vma_before (st x) (st v)" using Cons.prems(2) [of x] by simp
    obtain q' where q': "vma_insert st v q = (None, q')" "set q' = insert v (set q)" "sorted_wrt (\<lambda>x y. vma_before (st x) (st y)) q'"
      using Cons.IH Cons.prems by auto
    have "\<not> vma_start (st v) < vma_start (st x)" "vma_start (st x) < vma_start (st v)" using b unfolding vma_before_def by (meson order.asym)+
    then have "vma_insert st v (x # q) = (None, x # q')" using q'(1) by (simp add: vma_cmp_def)
    then show ?thesis using q' b Cons.prems(1) by auto
  qed
qed simp

text \<open>The regions of the address spaces \<open>A\<close>, each an object of \<open>kmalloc\<close>.\<close>

definition regions_inv :: "u64 \<Rightarrow> vmem \<Rightarrow> u64 set \<Rightarrow> bool" where
  "regions_inv base s A \<longleftrightarrow> kmalloc_inv base (heap s) \<and> (\<forall>as \<in> A. regions_ok (vmas s) (vma_head (spaces s as)) \<and>
     (\<forall>x \<in> set (vma_head (spaces s as)). vma_as (vmas s x) = as \<and> (\<exists>z > 0. (x, z) \<in> kmalloc_objs base (heap s))))"

lemma fresh_vma:
  assumes "kmalloc_inv base h'" and "kmalloc_objs base h' = insert (v, z) (kmalloc_objs base h)" and "(v, z) \<notin> kmalloc_objs base h"
    and "248 \<le> z" and "0 < z'" and "(x, z') \<in> kmalloc_objs base h"
  shows "x \<noteq> v"
proof
  assume "x = v"
  have "(x, z') \<noteq> (v, z)" using assms(3,6) by auto
  then have "obj_range (x, z') \<inter> obj_range (v, z) = {}" using kheap.disjoint_law [OF assms(1), of "(x, z')" "(v, z)"] assms(2,6) by auto
  moreover have "unat v \<in> obj_range (x, z') \<inter> obj_range (v, z)" using assms(4,5) \<open>x = v\<close> by (simp add: obj_range_def)
  ultimately show False by auto
qed

section \<open>Creating and finding regions\<close>

lemma regions_invD:
  assumes "regions_inv base s A" and "as \<in> A"
  shows "kmalloc_inv base (heap s)" and "regions_ok (vmas s) (vma_head (spaces s as))"
    and "\<And>x. x \<in> set (vma_head (spaces s as)) \<Longrightarrow> vma_as (vmas s x) = as \<and> (\<exists>z > 0. (x, z) \<in> kmalloc_objs base (heap s))"
  using assms unfolding regions_inv_def by auto

definition new_region :: "u64 \<Rightarrow> u64 \<Rightarrow> u64 \<Rightarrow> u32 \<Rightarrow> u32 \<Rightarrow> vma" where
  "new_region as start end' prot fl = \<lparr>vma_as = as, vma_start = start, vma_end = end', vma_prot = prot, vma_flags = fl\<rparr>"

lemma alloc_new_vma_ok:
  fixes as start end' prot fl
  assumes inv: "regions_inv base s A"
  defines "r \<equiv> new_region as start end' prot fl"
  shows "alloc_new_vma base s as start end' prot fl = Some (None, s) \<or>
    (\<exists>v h z. alloc_new_vma base s as start end' prot fl = Some (Some v, s\<lparr>heap := h, vmas := (vmas s)(v := r)\<rparr>) \<and> kmalloc_inv base h \<and>
       248 \<le> z \<and> kmalloc_objs base h = insert (v, z) (kmalloc_objs base (heap s)) \<and> (v, z) \<notin> kmalloc_objs base (heap s) \<and>
       (\<forall>as' \<in> A. v \<notin> set (vma_head (spaces s as'))))"
proof -
  have K: "kmalloc_inv base (heap s)" using inv by (simp add: regions_inv_def)
  from kheap.alloc_law [OF K, of SIZEOF_VMA] obtain p h where h: "kmalloc base (heap s) SIZEOF_VMA = Some (p, h)" "kmalloc_inv base h"
    "case p of None \<Rightarrow> h = heap s | Some a \<Rightarrow> \<exists>z. unat SIZEOF_VMA \<le> z \<and> (a, z) \<notin> kmalloc_objs base (heap s) \<and> kmalloc_objs base h = insert (a, z) (kmalloc_objs base (heap s))"
    by (elim exE conjE) (rule that)
  show ?thesis
  proof (cases p)
    case None
    then show ?thesis using h by (simp add: alloc_new_vma_def)
  next
    case (Some v)
    then obtain z where z: "248 \<le> z" "(v, z) \<notin> kmalloc_objs base (heap s)" "kmalloc_objs base h = insert (v, z) (kmalloc_objs base (heap s))" using h(3) by auto
    have "v \<notin> set (vma_head (spaces s as'))" if "as' \<in> A" for as'
      using regions_invD(3) [OF inv that] fresh_vma [OF h(2) z(3,2,1)] by blast
    moreover have "alloc_new_vma base s as start end' prot fl = Some (Some v, s\<lparr>heap := h, vmas := (vmas s)(v := r)\<rparr>)"
      using h(1) Some by (simp add: alloc_new_vma_def upd_vma_def r_def new_region_def)
    ultimately show ?thesis using h(2) z by blast
  qed
qed

text \<open>A region not yet in any address space does not matter to them.\<close>

lemma regions_inv_outside:
  assumes "regions_inv base s A" and "kmalloc_inv base h" and "kmalloc_objs base (heap s) \<subseteq> kmalloc_objs base h" and "\<forall>as \<in> A. v \<notin> set (vma_head (spaces s as))"
  shows "regions_inv base (s\<lparr>heap := h, vmas := (vmas s)(v := r)\<rparr>) A"
  unfolding regions_inv_def
proof (intro conjI ballI)
  fix as assume as: "as \<in> A"
  note D = regions_invD [OF assms(1) as]
  have eq: "((vmas s)(v := r)) x = vmas s x" if "x \<in> set (vma_head (spaces s as))" for x using that assms(4) as by auto
  show "regions_ok (vmas (s\<lparr>heap := h, vmas := (vmas s)(v := r)\<rparr>)) (vma_head (spaces (s\<lparr>heap := h, vmas := (vmas s)(v := r)\<rparr>) as))"
    using D(2) regions_ok_cong [of _ "(vmas s)(v := r)" "vmas s", OF eq] by simp
  fix x assume x: "x \<in> set (vma_head (spaces (s\<lparr>heap := h, vmas := (vmas s)(v := r)\<rparr>) as))"
  then show "vma_as (vmas (s\<lparr>heap := h, vmas := (vmas s)(v := r)\<rparr>) x) = as" using D(3) eq by auto
  show "\<exists>z > 0. (x, z) \<in> kmalloc_objs base (heap (s\<lparr>heap := h, vmas := (vmas s)(v := r)\<rparr>))" using x D(3) [of x] assms(3) by auto
qed (use assms(2) in simp)

lemma vm_create_vma_ok:
  assumes inv: "regions_inv base s A" and as: "as \<in> A" and lock: "asmtx_self (spaces s as)" and sz: "unat start + unat siz + 4096 \<le> 2 ^ 64"
    and r_def: "r = new_region as start (start + siz) prot fl"
  shows "\<exists>rc v s'. vm_create_vma base s as start siz prot fl = Some (rc, v, s') \<and> regions_inv base s' A \<and>
    (\<forall>as' \<in> A. \<forall>x \<in> set (vma_head (spaces s as')). vmas s' x = vmas s x) \<and>
    (case v of
       None \<Rightarrow> spaces s' = spaces s \<and> kmalloc_objs base (heap s') = kmalloc_objs base (heap s) \<and>
         (rc = - ENOMEM \<and> s' = s \<or> rc = - EBUSY \<and> \<not> (round_up (vma_end r) < KERN_VMA_BASE \<and> (\<forall>x \<in> set (vma_head (spaces s as)). clear_of r (vmas s x))))
     | Some v \<Rightarrow> rc = 0 \<and> vmas s' v = r \<and> round_up (vma_end r) < KERN_VMA_BASE \<and> (\<forall>x \<in> set (vma_head (spaces s as)). clear_of r (vmas s x)) \<and>
         v \<notin> set (vma_head (spaces s as)) \<and> set (vma_head (spaces s' as)) = insert v (set (vma_head (spaces s as))) \<and>
         (\<exists>q. spaces s' = (spaces s)(as := (spaces s as)\<lparr>vma_head := q\<rparr>)) \<and>
         (\<exists>z \<ge> 248. (v, z) \<notin> kmalloc_objs base (heap s) \<and> kmalloc_objs base (heap s') = insert (v, z) (kmalloc_objs base (heap s))))"
proof -
  have nw: "unat (start + siz) = unat start + unat siz" using sz by (simp add: unat_word_ariths)
  have r: "vma_start r \<le> vma_end r" "unat (vma_end r) + 4096 \<le> 2 ^ 64" using nw sz by (simp_all add: r_def new_region_def word_le_nat_alt)
  from alloc_new_vma_ok [OF inv, of as start "start + siz" prot fl, folded r_def] show ?thesis
  proof (elim disjE exE conjE)
    assume "alloc_new_vma base s as start (start + siz) prot fl = Some (None, s)"
    then show ?thesis using lock inv by (auto simp: vm_create_vma_def)
  next
    fix v h z assume a: "alloc_new_vma base s as start (start + siz) prot fl = Some (Some v, s\<lparr>heap := h, vmas := (vmas s)(v := r)\<rparr>)" "kmalloc_inv base h" "248 \<le> z"
      "kmalloc_objs base h = insert (v, z) (kmalloc_objs base (heap s))" "(v, z) \<notin> kmalloc_objs base (heap s)" "\<forall>as' \<in> A. v \<notin> set (vma_head (spaces s as'))"
    define s1 where "s1 = s\<lparr>heap := h, vmas := (vmas s)(v := r)\<rparr>"
    have s1: "spaces s1 = spaces s" "heap s1 = h" "vmas s1 v = r" by (simp_all add: s1_def)
    have keep: "vmas s1 x = vmas s x" if "as' \<in> A" "x \<in> set (vma_head (spaces s as'))" for as' x using a(6) that by (auto simp: s1_def)
    have vn: "v \<notin> set (vma_head (spaces s as))" using a(6) as by blast
    have ord: "vma_start (vmas s x) \<le> vma_end (vmas s x)" if "x \<in> set (vma_head (spaces s as))" for x
      using regions_invD(2) [OF inv as] that by (simp add: regions_ok_def)
    have hull: "PAGE_START (vma_start r) \<le> round_up (vma_end r)"
      using page_le(1) [of "vma_start r"] round_up_unat(1) [OF r(2)] r(1) by (simp add: word_le_nat_alt)
    have hit: "list_ex (\<lambda>x. vma_hits (PAGE_START (vma_start r)) (round_up (vma_end r)) (vmas s1 x)) (vma_head (spaces s as)) \<longleftrightarrow>
        \<not> (\<forall>x \<in> set (vma_head (spaces s as)). clear_of r (vmas s x))"
      using not_hits_clear [OF ord hull] keep [OF as] unfolding list_ex_iff by auto
    have chk: "check_vma_overlap_nolock s1 as v = Some (if round_up (vma_end r) < KERN_VMA_BASE \<and> (\<forall>x \<in> set (vma_head (spaces s as)). clear_of r (vmas s x)) then 0 else - EBUSY)"
      using lock hit unfolding check_vma_overlap_nolock_def s1 by (simp add: Let_def not_le)
    have run: "vm_create_vma base s as start siz prot fl = do {
         rc \<leftarrow> check_vma_overlap_nolock s1 as v;
         if rc \<noteq> 0 then do { h \<leftarrow> kfree (heap s1) (Some v); Some (rc, None, s1\<lparr>heap := h\<rparr>) }
         else do {
           let (res, q) = vma_insert (vmas s1) v (vma_head (spaces s1 as));
           kassert (res = None);
           Some (0, Some v, upd_space s1 as (vma_head_update (\<lambda>_. q))) } }"
      using lock a(1) [folded s1_def] by (simp add: vm_create_vma_def)
    show ?thesis
    proof (cases "round_up (vma_end r) < KERN_VMA_BASE \<and> (\<forall>x \<in> set (vma_head (spaces s as)). clear_of r (vmas s x))")
      case False
      obtain h' where h': "kfree h (Some v) = Some h'" "kmalloc_inv base h'" "kmalloc_objs base h' = kmalloc_objs base (heap s)"
        using kheap.free_law [OF a(2), of v z] a(4,5) by auto
      have "vm_create_vma base s as start siz prot fl = Some (- EBUSY, None, s1\<lparr>heap := h'\<rparr>)"
        unfolding run chk if_not_P [OF False] using h'(1) by (simp add: s1)
      moreover have "regions_inv base (s1\<lparr>heap := h'\<rparr>) A"
      proof -
        have "s1\<lparr>heap := h'\<rparr> = s\<lparr>heap := h', vmas := (vmas s)(v := r)\<rparr>" by (cases s) (simp add: s1_def)
        then show ?thesis using regions_inv_outside [OF inv h'(2) _ a(6), of r] h'(3) by simp
      qed
      ultimately show ?thesis using False keep s1(1) h'(3) by (intro exI [of _ "- EBUSY"] exI [of _ None] exI [of _ "s1\<lparr>heap := h'\<rparr>"]) auto
    next
      case True
      have R1: "regions_inv base s1 A" using regions_inv_outside [OF inv a(2) _ a(6), of r] a(4) by (auto simp: s1_def)
      note D = regions_invD [OF R1 as, unfolded s1(1)]
      have bf: "vma_before (vmas s1 x) (vmas s1 v) \<or> vma_before (vmas s1 v) (vmas s1 x)" if x: "x \<in> set (vma_head (spaces s as))" for x
        unfolding s1(3) keep [OF as x] using clear_before [OF _ ord [OF x] r(1) _ r(2)] True x by blast
      obtain q where q: "vma_insert (vmas s1) v (vma_head (spaces s as)) = (None, q)" "set q = insert v (set (vma_head (spaces s as)))"
        "sorted_wrt (\<lambda>x y. vma_before (vmas s1 x) (vmas s1 y)) q"
        using vma_insert_ok [of "vmas s1" "vma_head (spaces s as)" v, OF _ bf] D(2) by (auto simp: regions_ok_def)
      define s2 where "s2 = upd_space s1 as (vma_head_update (\<lambda>_. q))"
      have s2: "vmas s2 = vmas s1" "heap s2 = h" "vma_head (spaces s2 as) = q" "\<And>as'. as' \<noteq> as \<Longrightarrow> spaces s2 as' = spaces s as'"
        by (simp_all add: s2_def upd_space_def s1)
      have "vm_create_vma base s as start siz prot fl = Some (0, Some v, s2)"
        unfolding run chk if_P [OF True] using q(1) by (simp add: s1(1) s2_def)
      moreover have "regions_inv base s2 A" unfolding regions_inv_def
      proof (intro conjI ballI)
        fix as' assume as': "as' \<in> A"
        note D' = regions_invD [OF R1 as', unfolded s1(1)]
        show "regions_ok (vmas s2) (vma_head (spaces s2 as'))"
        proof (cases "as' = as")
          case True
          have "vma_end r < KERN_VMA_BASE" using region_bounds(3) [OF r(1) _ r(2)] \<open>round_up (vma_end r) < KERN_VMA_BASE \<and> _\<close> by blast
          then show ?thesis using True q(2,3) D(2) r(1) by (auto simp: s2 regions_ok_def s1(3))
        qed (use D'(2) in \<open>simp add: s2\<close>)
        fix x assume x: "x \<in> set (vma_head (spaces s2 as'))"
        have "as' = as \<and> x = v \<or> x \<in> set (vma_head (spaces s as'))" using x q(2) s2(3,4) by (cases "as' = as") auto
        moreover have "\<exists>z > 0. (v, z) \<in> kmalloc_objs base (heap s2)" using a(3,4) by (intro exI [of _ z]) (simp add: s2)
        ultimately show "vma_as (vmas s2 x) = as'" "\<exists>z > 0. (x, z) \<in> kmalloc_objs base (heap s2)"
          using D'(3) [of x] by (auto simp: s2 s1(2,3) r_def new_region_def)
      qed (simp add: s2 a(2))
      moreover have "\<exists>q. spaces s2 = (spaces s)(as := (spaces s as)\<lparr>vma_head := q\<rparr>)" by (intro exI [of _ q]) (simp add: s2_def upd_space_def s1)
      moreover have "\<exists>z \<ge> 248. (v, z) \<notin> kmalloc_objs base (heap s) \<and> kmalloc_objs base (heap s2) = insert (v, z) (kmalloc_objs base (heap s))"
        using a(3-5) by (intro exI [of _ z]) (simp add: s2)
      ultimately show ?thesis using True keep vn q(2) by (intro exI [of _ 0] exI [of _ "Some v"] exI [of _ s2]) (simp add: s2 s1)
    qed
  qed
qed

text \<open>
  Claim C13. Creating a region that does not run over the end of memory answers \<^verbatim>\<open>-ENOMEM\<close> with nothing changed, when \<open>kmalloc\<close> has no room for
  its record, or \<^verbatim>\<open>-EBUSY\<close>, and then the region, rounded to whole pages, reaches into the kernel half or is not clear of
  some region of the address space; no address space and no region of one changes, and the record has been given back to \<open>kmalloc\<close>.
  Otherwise the region is clear of all others and below the kernel half, it is added to the address space, exactly its record is taken from
  \<open>kmalloc\<close>, and nothing else changes.  Regions of an address space thus never have a page in common.
\<close>

theorem vm_create_vma_spec:
  assumes inv: "regions_inv base s A" and as: "as \<in> A" and lock: "asmtx_self (spaces s as)" and sz: "unat start + unat siz + 4096 \<le> 2 ^ 64"
  shows "\<exists>rc v s'. vm_create_vma base s as start siz prot fl = Some (rc, v, s') \<and> regions_inv base s' A \<and>
    (\<forall>as' \<in> A. \<forall>x \<in> set (vma_head (spaces s as')). vmas s' x = vmas s x) \<and>
    (case v of
       None \<Rightarrow> spaces s' = spaces s \<and> kmalloc_objs base (heap s') = kmalloc_objs base (heap s) \<and>
         (rc = - ENOMEM \<and> s' = s \<or> rc = - EBUSY \<and> \<not> (round_up (vma_end (new_region as start (start + siz) prot fl)) < KERN_VMA_BASE \<and> (\<forall>x \<in> set (vma_head (spaces s as)). clear_of (new_region as start (start + siz) prot fl) (vmas s x))))
     | Some v \<Rightarrow> rc = 0 \<and> vmas s' v = new_region as start (start + siz) prot fl \<and> round_up (vma_end (new_region as start (start + siz) prot fl)) < KERN_VMA_BASE \<and> (\<forall>x \<in> set (vma_head (spaces s as)). clear_of (new_region as start (start + siz) prot fl) (vmas s x)) \<and>
         v \<notin> set (vma_head (spaces s as)) \<and> set (vma_head (spaces s' as)) = insert v (set (vma_head (spaces s as))) \<and>
         (\<exists>q. spaces s' = (spaces s)(as := (spaces s as)\<lparr>vma_head := q\<rparr>)) \<and>
         (\<exists>z \<ge> 248. (v, z) \<notin> kmalloc_objs base (heap s) \<and> kmalloc_objs base (heap s') = insert (v, z) (kmalloc_objs base (heap s))))"
  by (rule vm_create_vma_ok [OF assms refl])

lemma vm_find_vma_nolock_eq:
  assumes "asmtx_self (spaces s as)"
  shows "x \<in> set (vma_head (spaces s as)) \<Longrightarrow> vma_covers (vmas s x) v \<Longrightarrow> regions_ok (vmas s) (vma_head (spaces s as)) \<Longrightarrow>
      vm_find_vma_nolock s as v = Some (0, Some x)"
    and "\<forall>x \<in> set (vma_head (spaces s as)). \<not> vma_covers (vmas s x) v \<Longrightarrow> vm_find_vma_nolock s as v = Some (- ENOENT, None)"
proof -
  assume x: "x \<in> set (vma_head (spaces s as))" "vma_covers (vmas s x) v" and ok: "regions_ok (vmas s) (vma_head (spaces s as))"
  have "find (\<lambda>x. vma_covers (vmas s x) v) (vma_head (spaces s as)) \<noteq> None" using x by (auto simp: find_None_iff)
  then obtain y where f: "find (\<lambda>x. vma_covers (vmas s x) v) (vma_head (spaces s as)) = Some y" by auto
  then have "y \<in> set (vma_head (spaces s as))" "vma_covers (vmas s y) v" by (auto simp: find_Some_iff)
  then have "y = x" using covers_unique [of "vmas s" "vma_head (spaces s as)" y x v] x ok by (simp add: regions_ok_def)
  then show "vm_find_vma_nolock s as v = Some (0, Some x)" using f assms by (simp add: vm_find_vma_nolock_def)
next
  assume "\<forall>x \<in> set (vma_head (spaces s as)). \<not> vma_covers (vmas s x) v"
  then have "find (\<lambda>x. vma_covers (vmas s x) v) (vma_head (spaces s as)) = None" by (simp add: find_None_iff)
  then show "vm_find_vma_nolock s as v = Some (- ENOENT, None)" using assms by (simp add: vm_find_vma_nolock_def)
qed

text \<open>
  \<open>vm_find_vma\<close> gives the region an address lies in, which is the only one, or \<^verbatim>\<open>-ENOENT\<close> when there is none; the address
  space is as it was, its mutex given back.
\<close>

theorem vm_find_vma_spec:
  assumes "regions_inv base s A" and "as \<in> A" and "\<not> asmtx_self (spaces s as)"
  shows "(\<exists>x \<in> set (vma_head (spaces s as)). vma_covers (vmas s x) v \<and> vm_find_vma s as v = Some (0, Some x, s) \<and>
       (\<forall>y \<in> set (vma_head (spaces s as)). vma_covers (vmas s y) v \<longrightarrow> y = x)) \<or>
    (\<forall>x \<in> set (vma_head (spaces s as)). \<not> vma_covers (vmas s x) v) \<and> vm_find_vma s as v = Some (- ENOENT, None, s)"
proof -
  define s1 where "s1 = upd_space s as (asmtx_self_update (\<lambda>_. True))"
  have l: "lock_space s as = Some s1" using assms(3) by (simp add: lock_space_def s1_def)
  have s1: "asmtx_self (spaces s1 as)" "vma_head (spaces s1 as) = vma_head (spaces s as)" "vmas s1 = vmas s" by (simp_all add: s1_def upd_space_def)
  have u: "unlock_space s1 as = Some s"
  proof -
    have "upd_space s1 as (asmtx_self_update (\<lambda>_. False)) = s"
      using assms(3) by (cases s) (auto simp: s1_def upd_space_def fun_eq_iff)
    then show ?thesis using s1(1) by (simp add: unlock_space_def)
  qed
  have ok: "regions_ok (vmas s) (vma_head (spaces s as))" by (rule regions_invD(2) [OF assms(1,2)])
  show ?thesis
  proof (cases "\<exists>x \<in> set (vma_head (spaces s as)). vma_covers (vmas s x) v")
    case True
    then obtain x where x: "x \<in> set (vma_head (spaces s as))" "vma_covers (vmas s x) v" by blast
    have "vm_find_vma s as v = Some (0, Some x, s)"
      using vm_find_vma_nolock_eq(1) [OF s1(1), of x v] x ok l u by (simp add: s1 vm_find_vma_def)
    moreover have "\<forall>y \<in> set (vma_head (spaces s as)). vma_covers (vmas s y) v \<longrightarrow> y = x"
      using covers_unique [of "vmas s" "vma_head (spaces s as)" _ x v] x ok by (simp add: regions_ok_def)
    ultimately show ?thesis using x by blast
  next
    case False
    then show ?thesis using vm_find_vma_nolock_eq(2) [OF s1(1), of v] l u by (simp add: s1 vm_find_vma_def)
  qed
qed

section \<open>New pages\<close>

lemma memset64_same: "memset64 (memset64 m a c n) a c n = memset64 m a c n"
  by (simp add: memset64_def fun_eq_iff)

lemma set_pool_simps [simp]:
  "heap (set_pool s p) = (heap s)\<lparr>pages := p\<rparr>" "vmas (set_pool s p) = vmas s" "spaces (set_pool s p) = spaces s"
  "set_pool (set_pool s p) p' = set_pool s p'"
  by (simp_all add: set_pool_def)

text \<open>What one page more does to the address spaces \<open>R\<close>; \<open>k\<close> is the new page, mapped at \<open>v\<close> in \<open>r\<close>, and \<open>c\<close> its bytes.\<close>

definition page_added :: "u64 set \<Rightarrow> page_pool \<Rightarrow> page_pool \<Rightarrow> u64 \<Rightarrow> u64 \<Rightarrow> u64 \<Rightarrow> u32 \<Rightarrow> (u64 \<Rightarrow> u8) \<Rightarrow> bool" where
  "page_added R p p' r v k prot c \<longleftrightarrow> pgtbl_inv p' R \<and> pool_blocks p \<subseteq> pool_blocks p' \<and> pool_free p \<le> pool_free p' + 4 \<and>
     (k, 0) \<notin> pool_blocks p \<and> (k, 0) \<in> pool_blocks p' \<and> k \<notin> tables_of p' R \<and> (\<forall>x. x - k < PAGE_SIZE \<longrightarrow> mem p' x = c (x - k)) \<and>
     (\<exists>t e. find_pte p' r v = Some (t, e) \<and> tbl_of e = k \<and> page_flags_to_vma_prot (get_ent_attr e) = mapped_prot prot) \<and>
     (\<forall>r' \<in> R. \<forall>v' < USER_VADDR_LIMIT. r' \<noteq> r \<or> PAGE_START v' \<noteq> PAGE_START v \<longrightarrow> find_pte p' r' v' = find_pte p r' v') \<and>
     bytes_kept p p' (tables_of p R) \<and> (\<forall>t \<in> tables_of p' R. t \<in> tables_of p R \<or> (t, 0) \<notin> pool_blocks p)"

text \<open>The page \<open>k\<close> has been taken from the pool \<open>s\<close> and written.\<close>

lemma fill_page_ok:
  assumes inv: "pgtbl_inv (vm_pool s) R" and r: "pgtbl (spaces s as) \<in> R" and l: "asmtx_self (spaces s as)" and v: "v < USER_VADDR_LIMIT"
    and prot: "prot \<noteq> VMA_PROT_NONE" and f: "4 \<le> pool_free (vm_pool s)" and a: "get_free_page (vm_pool s) = Some (0, Some k, p)"
    and m: "\<And>x. \<not> x - k < PAGE_SIZE \<Longrightarrow> m x = mem p x"
  shows "\<exists>p'. map_page (set_pool s (p\<lparr>mem := m\<rparr>)) as v k prot = Some (0, set_pool s p') \<and>
    page_added R (vm_pool s) p' (pgtbl (spaces s as)) v k prot (\<lambda>d. m (k + d))"
proof -
  define q where "q = p\<lparr>mem := m\<rparr>"
  note D = data_page_ok [OF inv a]
  have off: "m x = mem p x" if "(b, 0) \<in> pool_blocks p" "b \<noteq> k" "x - b < PAGE_SIZE" for b x
    using m page_bytes_apart [OF _ D(6) that(3)] block_aligned(1) [OF _ _ that(1)] that(2) D(1) by (metis pgtbl_inv_def)
  have tab: "m x = mem p x" if "t \<in> tables_of p R" "x - t < PAGE_SIZE" for t x
  proof (rule off [OF _ _ that(2)])
    show "(t, 0) \<in> pool_blocks p" using that(1) pgtbl_invD(1) [OF D(1)] by (auto simp: tables_of_def)
    show "t \<noteq> k" using that(1) D(7) by auto
  qed
  have Q: "pgtbl_inv q R" "tables_of q R = tables_of p R" "pool_blocks q = pool_blocks p" "pool_free q = pool_free p" "mem q = m"
    using tables_outside [OF D(1) tab] by (simp_all add: q_def)
  have fq: "find_pte q r' v' = find_pte p r' v'" if "r' \<in> R" "v' < USER_VADDR_LIMIT" for r' v'
    using walk_outside(2) [OF D(1) that(1) tab that(2)] by (simp add: q_def)
  have k: "(PAGE_START k, 0) \<in> pool_blocks q" "PAGE_START k = k" using D(2) Q(3) PAGE_START_id [OF D(6)] by simp_all
  have f3: "3 \<le> pool_free q" using D(5) f Q(4) by simp
  from map_user_page_ok [OF Q(1) r v prot f3 k(1)] obtain p' t e where
    p': "hal_map_user_page q (pgtbl (spaces s as)) v k prot = Some (0, p')" "pgtbl_inv p' R" "pool_blocks p \<subseteq> pool_blocks p'" "pool_free p \<le> pool_free p' + 3"
      "find_pte p' (pgtbl (spaces s as)) v = Some (t, e)" "tbl_of e = k" "page_flags_to_vma_prot (get_ent_attr e) = mapped_prot prot"
      "\<forall>as' \<in> R. \<forall>v' < USER_VADDR_LIMIT. as' \<noteq> pgtbl (spaces s as) \<or> PAGE_START v' \<noteq> PAGE_START v \<longrightarrow> find_pte p' as' v' = find_pte q as' v'"
      "bytes_kept q p' (tables_of p R)" "\<forall>t \<in> tables_of p' R. t \<in> tables_of p R \<or> (t, 0) \<notin> pool_blocks p"
    unfolding k(2) Q(2-4) by (elim exE conjE) (rule that)
  have nt: "k \<notin> tables_of p' R" using p'(10) D(2,7) by blast
  have byt: "mem p' x = m (k + (x - k))" if "x - k < PAGE_SIZE" for x using bytes_keptD [OF p'(9) _ D(7) that] D(2) Q(3,5) by simp
  have bytes: "bytes_kept (vm_pool s) p' (tables_of (vm_pool s) R)" unfolding bytes_kept_def
  proof (intro allI impI)
    fix b x assume b: "(b, 0) \<in> pool_blocks (vm_pool s)" "b \<notin> tables_of (vm_pool s) R" "x - b < PAGE_SIZE"
    have "b \<noteq> k" "(b, 0) \<in> pool_blocks p" using b(1) D(3,4) by auto
    then have "mem p' x = mem p x" using bytes_keptD [OF p'(9) _ _ b(3)] b(2) D(8) Q(3,5) off [OF _ _ b(3)] by simp
    then show "mem p' x = mem (vm_pool s) x" using bytes_keptD [OF D(9) b(1) _ b(3)] by simp
  qed
  have tab': "\<forall>t \<in> tables_of p' R. t \<in> tables_of (vm_pool s) R \<or> (t, 0) \<notin> pool_blocks (vm_pool s)" using p'(10) D(4,8) by blast
  have fp: "\<forall>r' \<in> R. \<forall>v' < USER_VADDR_LIMIT. r' \<noteq> pgtbl (spaces s as) \<or> PAGE_START v' \<noteq> PAGE_START v \<longrightarrow> find_pte p' r' v' = find_pte (vm_pool s) r' v'"
    using p'(8) D(11) fq by simp
  have free: "pool_free (vm_pool s) \<le> pool_free p' + 4" using p'(4) D(5) by linarith
  have sub: "pool_blocks (vm_pool s) \<subseteq> pool_blocks p'" "(k, 0) \<in> pool_blocks p'" using D(2,4) p'(3) by auto
  have "page_added R (vm_pool s) p' (pgtbl (spaces s as)) v k prot (\<lambda>d. m (k + d))"
    unfolding page_added_def using p'(2,5-7) D(3) nt byt bytes tab' fp free sub by blast
  moreover have "map_page (set_pool s q) as v k prot = Some (0, set_pool s p')"
    unfolding map_page_def using p'(1) l by simp
  ultimately show ?thesis unfolding q_def by blast
qed

lemma new_page_ok:
  assumes inv: "pgtbl_inv (vm_pool s) R" and r: "pgtbl (spaces s as) \<in> R" and l: "asmtx_self (spaces s as)" and v: "v < USER_VADDR_LIMIT"
    and prot: "prot \<noteq> VMA_PROT_NONE" and f: "4 \<le> pool_free (vm_pool s)"
  shows "\<exists>k p p'. get_free_page (vm_pool s) = Some (0, Some k, p) \<and>
    map_page (set_pool s (p\<lparr>mem := memset64 (mem p) k 0 PAGE_SIZE\<rparr>)) as v k prot = Some (0, set_pool s p') \<and>
    page_added R (vm_pool s) p' (pgtbl (spaces s as)) v k prot (\<lambda>_. 0)"
proof -
  have P: "pool_inv (vm_pool s)" "straight (vm_pool s)" using inv by (simp_all add: pgtbl_inv_def)
  from get_free_page_ok [OF P] f obtain k p where a: "get_free_page (vm_pool s) = Some (0, Some k, p)" by auto
  from fill_page_ok [OF inv r l v prot f a, of "memset64 (mem p) k 0 PAGE_SIZE"] obtain p' where
    "map_page (set_pool s (p\<lparr>mem := memset64 (mem p) k 0 PAGE_SIZE\<rparr>)) as v k prot = Some (0, set_pool s p')"
    "page_added R (vm_pool s) p' (pgtbl (spaces s as)) v k prot (\<lambda>d. memset64 (mem p) k 0 PAGE_SIZE (k + d))"
    by (auto simp: memset64_def)
  moreover from this(2) have "page_added R (vm_pool s) p' (pgtbl (spaces s as)) v k prot (\<lambda>_. 0)"
    by (simp add: page_added_def memset64_def)
  ultimately show ?thesis using a by blast
qed

lemma page_addedD:
  assumes "page_added R p p' r v k prot c" and "r \<noteq> 0"
  shows "hal_translate_user_page p' r v = Some (0, Some (k, mapped_prot prot))"
    and "\<And>r' v'. r' \<in> R \<Longrightarrow> r' \<noteq> 0 \<Longrightarrow> v' < USER_VADDR_LIMIT \<Longrightarrow> r' \<noteq> r \<or> PAGE_START v' \<noteq> PAGE_START v \<Longrightarrow>
      hal_translate_user_page p' r' v' = hal_translate_user_page p r' v'"
  using assms by (auto simp: page_added_def translate_find_pte)

text \<open>
  Claim C14. \<open>vm_map_newpage\<close> answers \<^verbatim>\<open>-EFAULT\<close> above the user limit, \<^verbatim>\<open>-ENOENT\<close> outside all regions and \<^verbatim>\<open>-ENOMEM\<close> when no page is free, all
  without effect.  Inside a region whose protection is not \<^verbatim>\<open>VMA_PROT_NONE\<close>, with four free pages left, enough for
  the page and its tables, it maps a page that nobody used before, filled with zeros; it is writable when the region is, and always readable and executable,
  whatever the region says, which is \<open>mapped_prot\<close>.  No other translation in any address space changes, nor any byte of a page in use that is not a page table.
\<close>

theorem vm_map_newpage_spec:
  assumes inv: "pgtbl_inv (vm_pool s) R" and r: "pgtbl (spaces s as) \<in> R" and l: "asmtx_self (spaces s as)"
    and ok: "regions_ok (vmas s) (vma_head (spaces s as))"
  shows "if v \<ge> USER_VADDR_LIMIT then vm_map_newpage s as v = Some (- EFAULT, s)
    else if \<forall>x \<in> set (vma_head (spaces s as)). \<not> vma_covers (vmas s x) v then vm_map_newpage s as v = Some (- ENOENT, s)
    else if pool_free (vm_pool s) = 0 then vm_map_newpage s as v = Some (- ENOMEM, s)
    else \<forall>x \<in> set (vma_head (spaces s as)). vma_covers (vmas s x) v \<longrightarrow> vma_prot (vmas s x) \<noteq> VMA_PROT_NONE \<longrightarrow> 4 \<le> pool_free (vm_pool s) \<longrightarrow>
      (\<exists>k p'. vm_map_newpage s as v = Some (0, set_pool s p') \<and> pgtbl_inv p' R \<and> (k, 0) \<notin> pool_blocks (vm_pool s) \<and>
         hal_translate_user_page p' (pgtbl (spaces s as)) v = Some (0, Some (k, mapped_prot (vma_prot (vmas s x)))) \<and>
         (\<forall>a. a - k < PAGE_SIZE \<longrightarrow> mem p' a = 0) \<and> bytes_kept (vm_pool s) p' (tables_of (vm_pool s) R) \<and>
         (\<forall>r' \<in> R. \<forall>v' < USER_VADDR_LIMIT. r' \<noteq> pgtbl (spaces s as) \<or> PAGE_START v' \<noteq> PAGE_START v \<longrightarrow>
            hal_translate_user_page p' r' v' = hal_translate_user_page (vm_pool s) r' v'))"
proof -
  have nz: "r' \<noteq> 0" if "r' \<in> R" for r' using pgtbl_invD(3) [OF inv that user_path_Nil, of r'] by simp
  consider (fault) "v \<ge> USER_VADDR_LIMIT" | (none) "v < USER_VADDR_LIMIT" "\<forall>x \<in> set (vma_head (spaces s as)). \<not> vma_covers (vmas s x) v"
    | (found) "v < USER_VADDR_LIMIT" "\<not> (\<forall>x \<in> set (vma_head (spaces s as)). \<not> vma_covers (vmas s x) v)" by force
  then show ?thesis
  proof cases
    case fault
    then show ?thesis using l by (simp add: vm_map_newpage_def)
  next
    case none
    then show ?thesis using l vm_find_vma_nolock_eq(2) [OF l, of v] by (simp add: vm_map_newpage_def not_le)
  next
    case found
    have "\<exists>k p'. vm_map_newpage s as v = Some (0, set_pool s p') \<and> page_added R (vm_pool s) p' (pgtbl (spaces s as)) v k (vma_prot (vmas s x)) (\<lambda>_. 0)"
      if x: "x \<in> set (vma_head (spaces s as))" "vma_covers (vmas s x) v" and pr: "vma_prot (vmas s x) \<noteq> VMA_PROT_NONE" and f: "4 \<le> pool_free (vm_pool s)" for x
    proof -
      from new_page_ok [OF inv r l found(1) pr f] obtain k p p' where g: "get_free_page (vm_pool s) = Some (0, Some k, p)"
        "map_page (set_pool s (p\<lparr>mem := memset64 (mem p) k 0 PAGE_SIZE\<rparr>)) as v k (vma_prot (vmas s x)) = Some (0, set_pool s p')"
        "page_added R (vm_pool s) p' (pgtbl (spaces s as)) v k (vma_prot (vmas s x)) (\<lambda>_. 0)" by blast
      have "vm_map_newpage s as v = Some (0, set_pool s p')"
        using l found(1) vm_find_vma_nolock_eq(1) [OF l x ok] g(1,2) by (simp add: vm_map_newpage_def)
      then show ?thesis using g(3) by blast
    qed
    note main = this
    have nomem: "vm_map_newpage s as v = Some (- ENOMEM, s)" if "pool_free (vm_pool s) = 0"
    proof -
      have P: "pool_inv (vm_pool s)" "straight (vm_pool s)" using inv by (simp_all add: pgtbl_inv_def)
      have g: "get_free_page (vm_pool s) = Some (- ENOMEM, None, vm_pool s)" using get_free_page_ok [OF P] that by auto
      obtain x where x: "x \<in> set (vma_head (spaces s as))" "vma_covers (vmas s x) v" using found(2) by blast
      have "set_pool s (vm_pool s) = s" by (simp add: set_pool_def)
      then show ?thesis using l found(1) vm_find_vma_nolock_eq(1) [OF l x ok] g by (simp add: vm_map_newpage_def)
    qed
    have "\<not> v \<ge> USER_VADDR_LIMIT" using found(1) by simp
    note lim = if_not_P [OF this]
    show ?thesis unfolding lim if_not_P [OF found(2)]
    proof (rule if_split [THEN iffD2], intro conjI impI ballI)
      fix x assume x: "x \<in> set (vma_head (spaces s as))" "vma_covers (vmas s x) v" "vma_prot (vmas s x) \<noteq> VMA_PROT_NONE" "4 \<le> pool_free (vm_pool s)"
      from main [OF this] obtain k p' where m: "vm_map_newpage s as v = Some (0, set_pool s p')"
        "page_added R (vm_pool s) p' (pgtbl (spaces s as)) v k (vma_prot (vmas s x)) (\<lambda>_. 0)" by blast
      have "pgtbl_inv p' R" "(k, 0) \<notin> pool_blocks (vm_pool s)" "\<forall>a. a - k < PAGE_SIZE \<longrightarrow> mem p' a = 0" "bytes_kept (vm_pool s) p' (tables_of (vm_pool s) R)"
        using m(2) by (simp_all add: page_added_def)
      then show "\<exists>k p'. vm_map_newpage s as v = Some (0, set_pool s p') \<and> pgtbl_inv p' R \<and> (k, 0) \<notin> pool_blocks (vm_pool s) \<and>
         hal_translate_user_page p' (pgtbl (spaces s as)) v = Some (0, Some (k, mapped_prot (vma_prot (vmas s x)))) \<and>
         (\<forall>a. a - k < PAGE_SIZE \<longrightarrow> mem p' a = 0) \<and> bytes_kept (vm_pool s) p' (tables_of (vm_pool s) R) \<and>
         (\<forall>r' \<in> R. \<forall>v' < USER_VADDR_LIMIT. r' \<noteq> pgtbl (spaces s as) \<or> PAGE_START v' \<noteq> PAGE_START v \<longrightarrow>
            hal_translate_user_page p' r' v' = hal_translate_user_page (vm_pool s) r' v')"
        using m(1) page_addedD [OF m(2) nz [OF r]] nz by blast
    qed (rule nomem)
  qed
qed

text \<open>Several pages: page \<open>i\<close> above \<open>v\<close> is mapped to the page \<open>ks ! i\<close>, whose bytes are \<open>c i\<close>.\<close>

definition pages_added :: "u64 set \<Rightarrow> page_pool \<Rightarrow> page_pool \<Rightarrow> u64 \<Rightarrow> u64 \<Rightarrow> u64 list \<Rightarrow> u32 \<Rightarrow> (nat \<Rightarrow> u64 \<Rightarrow> u8) \<Rightarrow> bool" where
  "pages_added R p p' r v ks prot c \<longleftrightarrow> pgtbl_inv p' R \<and> pool_blocks p \<subseteq> pool_blocks p' \<and> distinct ks \<and>
     (\<forall>k \<in> set ks. (k, 0) \<notin> pool_blocks p) \<and> (\<forall>i < length ks. \<forall>x. x - ks ! i < PAGE_SIZE \<longrightarrow> mem p' x = c i (x - ks ! i)) \<and>
     (\<forall>i < length ks. \<exists>t e. find_pte p' r (v + of_nat (4096 * i)) = Some (t, e) \<and> tbl_of e = ks ! i \<and> page_flags_to_vma_prot (get_ent_attr e) = mapped_prot prot) \<and>
     (\<forall>r' \<in> R. \<forall>v' < USER_VADDR_LIMIT. r' \<noteq> r \<or> \<not> (unat v \<le> unat v' \<and> unat v' < unat v + 4096 * length ks) \<longrightarrow> find_pte p' r' v' = find_pte p r' v') \<and>
     bytes_kept p p' (tables_of p R)"

lemma page_in_range:
  assumes "page_aligned v" and "PAGE_START v' = v"
  shows "unat v \<le> unat v' \<and> unat v' < unat v + 4096"
  using page_le [of v'] assms(2) by simp

lemma pages_added_Cons:
  assumes a: "page_added R p p1 r v k prot c" and b: "pages_added R p1 p' r (v + PAGE_SIZE) ks prot cs"
    and v: "page_aligned v" and lim: "unat v + 4096 * Suc (length ks) \<le> unat USER_VADDR_LIMIT" and r: "r \<in> R"
  shows "pages_added R p p' r v (k # ks) prot (case_nat c cs)"
proof -
  have A: "pgtbl_inv p1 R" "pool_blocks p \<subseteq> pool_blocks p1" "(k, 0) \<notin> pool_blocks p" "(k, 0) \<in> pool_blocks p1" "k \<notin> tables_of p1 R"
    "\<forall>x. x - k < PAGE_SIZE \<longrightarrow> mem p1 x = c (x - k)" "bytes_kept p p1 (tables_of p R)" "\<forall>t \<in> tables_of p1 R. t \<in> tables_of p R \<or> (t, 0) \<notin> pool_blocks p"
    "\<exists>t e. find_pte p1 r v = Some (t, e) \<and> tbl_of e = k \<and> page_flags_to_vma_prot (get_ent_attr e) = mapped_prot prot"
    "\<And>r' v'. r' \<in> R \<Longrightarrow> v' < USER_VADDR_LIMIT \<Longrightarrow> r' \<noteq> r \<or> PAGE_START v' \<noteq> PAGE_START v \<Longrightarrow> find_pte p1 r' v' = find_pte p r' v'"
    using a by (simp_all add: page_added_def)
  have B: "pgtbl_inv p' R" "pool_blocks p1 \<subseteq> pool_blocks p'" "distinct ks"
    "\<And>k. k \<in> set ks \<Longrightarrow> (k, 0) \<notin> pool_blocks p1" "bytes_kept p1 p' (tables_of p1 R)"
    "\<And>i. i < length ks \<Longrightarrow> \<exists>t e. find_pte p' r (v + PAGE_SIZE + of_nat (4096 * i)) = Some (t, e) \<and> tbl_of e = ks ! i \<and> page_flags_to_vma_prot (get_ent_attr e) = mapped_prot prot"
    "\<And>r' v'. r' \<in> R \<Longrightarrow> v' < USER_VADDR_LIMIT \<Longrightarrow> r' \<noteq> r \<or> \<not> (unat (v + PAGE_SIZE) \<le> unat v' \<and> unat v' < unat (v + PAGE_SIZE) + 4096 * length ks) \<Longrightarrow>
      find_pte p' r' v' = find_pte p1 r' v'"
    "\<And>i x. i < length ks \<Longrightarrow> x - ks ! i < PAGE_SIZE \<Longrightarrow> mem p' x = cs i (x - ks ! i)"
    using b by (simp_all add: pages_added_def)
  have uv: "unat (v + PAGE_SIZE) = unat v + 4096" using lim by (simp add: unat_word_ariths)
  have vl: "v < USER_VADDR_LIMIT" using lim by (simp add: word_less_nat_alt)
  have "mem p' x = c (x - k)" if "x - k < PAGE_SIZE" for x using bytes_keptD [OF B(5) A(4,5) that] A(6) that by simp
  then have "mem p' x = case_nat c cs i (x - (k # ks) ! i)" if "i < length (k # ks)" "x - (k # ks) ! i < PAGE_SIZE" for i x
    using that B(8) by (cases i) auto
  moreover have "(k', 0) \<notin> pool_blocks p" if "k' \<in> set (k # ks)" for k'
    using that B(4) [of k'] A(2,3) by auto
  moreover have "distinct (k # ks)" using B(3,4) A(4) by auto
  moreover have "\<exists>t e. find_pte p' r (v + of_nat (4096 * i)) = Some (t, e) \<and> tbl_of e = (k # ks) ! i \<and> page_flags_to_vma_prot (get_ent_attr e) = mapped_prot prot"
    if "i < length (k # ks)" for i
  proof (cases i)
    case 0
    have "find_pte p' r v = find_pte p1 r v" using B(7) [OF r vl] uv by simp
    then show ?thesis using A(9) 0 by simp
  next
    case (Suc j)
    then show ?thesis using B(6) [of j] that by (simp add: algebra_simps)
  qed
  moreover have "find_pte p' r' v' = find_pte p r' v'"
    if h: "r' \<in> R" "v' < USER_VADDR_LIMIT" "r' \<noteq> r \<or> \<not> (unat v \<le> unat v' \<and> unat v' < unat v + 4096 * length (k # ks))" for r' v'
  proof -
    have "find_pte p' r' v' = find_pte p1 r' v'" using B(7) [OF h(1,2)] h(3) uv by auto
    also have "\<dots> = find_pte p r' v'"
    proof (rule A(10) [OF h(1,2)])
      show "r' \<noteq> r \<or> PAGE_START v' \<noteq> PAGE_START v" using h(3) page_in_range [OF v, of v'] PAGE_START_id [OF v] by auto
    qed
    finally show ?thesis .
  qed
  moreover have "bytes_kept p p' (tables_of p R)" unfolding bytes_kept_def
  proof (intro allI impI)
    fix c x assume c: "(c, 0) \<in> pool_blocks p" "c \<notin> tables_of p R" "x - c < PAGE_SIZE"
    have "mem p' x = mem p1 x" using bytes_keptD [OF B(5) _ _ c(3)] c A(2,8) by blast
    then show "mem p' x = mem p x" using bytes_keptD [OF A(7) c] by simp
  qed
  ultimately show ?thesis unfolding pages_added_def using A(2) B(1,2) by blast
qed

lemma map_newpages_ok:
  assumes "pgtbl_inv (vm_pool s) R" and "pgtbl (spaces s as) \<in> R" and "asmtx_self (spaces s as)" and "prot \<noteq> VMA_PROT_NONE"
    and "4 * n \<le> pool_free (vm_pool s)" and "page_aligned v" and "unat v + 4096 * n \<le> unat USER_VADDR_LIMIT"
  shows "\<exists>p' ks. map_newpages s as start v (v + of_nat (4096 * n)) prot = Some (0, set_pool s p') \<and> length ks = n \<and>
    pages_added R (vm_pool s) p' (pgtbl (spaces s as)) v ks prot (\<lambda>_ _. 0)"
  using assms
proof (induction n arbitrary: s v)
  case 0
  have "set_pool s (vm_pool s) = s" by (cases s) (simp add: set_pool_def)
  moreover have "pages_added R (vm_pool s) (vm_pool s) (pgtbl (spaces s as)) v [] prot (\<lambda>_ _. 0)"
    using 0(1) by (simp add: pages_added_def bytes_kept_def)
  ultimately show ?case by (intro exI [of _ "vm_pool s"] exI [of _ "[]"]) (simp add: map_newpages.simps)
next
  case (Suc n)
  have vl: "v < USER_VADDR_LIMIT" using Suc.prems(7) by (simp add: word_less_nat_alt)
  have f: "4 \<le> pool_free (vm_pool s)" using Suc.prems(5) by simp
  from new_page_ok [OF Suc.prems(1-3) vl Suc.prems(4) f] obtain k p p1 where g: "get_free_page (vm_pool s) = Some (0, Some k, p)"
    "map_page (set_pool s (p\<lparr>mem := memset64 (mem p) k 0 PAGE_SIZE\<rparr>)) as v k prot = Some (0, set_pool s p1)"
    "page_added R (vm_pool s) p1 (pgtbl (spaces s as)) v k prot (\<lambda>_. 0)" by blast
  have uv: "unat (v + PAGE_SIZE) = unat v + 4096" using Suc.prems(7) by (simp add: unat_word_ariths)
  have al: "page_aligned (v + PAGE_SIZE)" using Suc.prems(6) uv by (simp add: page_aligned_def)
  have i1: "pgtbl_inv p1 R" "4 * n \<le> pool_free p1" using g(3) Suc.prems(5) by (simp_all add: page_added_def)
  from Suc.IH [of "set_pool s p1" "v + PAGE_SIZE"] i1 Suc.prems(2-4,7) al uv obtain p' ks where
    q: "map_newpages (set_pool s p1) as start (v + PAGE_SIZE) (v + PAGE_SIZE + of_nat (4096 * n)) prot = Some (0, set_pool s p')" "length ks = n"
      "pages_added R p1 p' (pgtbl (spaces s as)) (v + PAGE_SIZE) ks prot (\<lambda>_ _. 0)" by auto
  have lt: "v < v + of_nat (4096 * Suc n)"
  proof -
    have "unat (v + of_nat (4096 * Suc n)) = unat v + 4096 * Suc n" using Suc.prems(7) by (simp add: unat_word_ariths unat_of_nat del: of_nat_mult of_nat_Suc)
    then show ?thesis by (simp add: word_less_nat_alt)
  qed
  have e: "v + PAGE_SIZE + of_nat (4096 * n) = v + of_nat (4096 * Suc n)" by (simp add: algebra_simps)
  have "map_newpages s as start v (v + of_nat (4096 * Suc n)) prot = Some (0, set_pool s p')"
    using q(1) [unfolded e] lt g(1,2) by (subst map_newpages.simps) (simp del: of_nat_mult of_nat_Suc)
  moreover have "case_nat (\<lambda>_. 0) (\<lambda>_ _. 0) = (\<lambda>_ (_ :: u64). 0 :: u8)" by (rule ext) (simp split: nat.split)
  then have "pages_added R (vm_pool s) p' (pgtbl (spaces s as)) v (k # ks) prot (\<lambda>_ _. 0)"
    using pages_added_Cons [OF g(3) q(3) Suc.prems(6) _ Suc.prems(2)] Suc.prems(7) q(2) by simp
  ultimately show ?case using q(2) by (intro exI [of _ p'] exI [of _ "k # ks"]) simp
qed

section \<open>Growing the heap\<close>

lemma round_up_le:
  assumes "unat a \<le> m" and "4096 dvd m" and "m + 4096 \<le> 2 ^ 64"
  shows "unat (round_up a) \<le> m"
proof -
  have "unat a + 4096 \<le> 2 ^ 64" using assms by simp
  note u = round_up_unat [OF this]
  obtain i j where ij: "unat (round_up a) = 4096 * i" "m = 4096 * j" using u(3) assms(2) by (auto simp: dvd_def)
  have "4096 * i < 4096 * Suc j" using u(2) assms(1) ij by simp
  then have "i < Suc j" by simp
  then show ?thesis using ij by simp
qed

lemma round_up_id: "page_aligned a \<Longrightarrow> round_up a = a"
  by (simp add: round_up_def PAGE_ALIGNED_iff)

definition grown :: "vmem \<Rightarrow> page_pool \<Rightarrow> u64 \<Rightarrow> u64 \<Rightarrow> vmem" where
  "grown s p x e = (set_pool s p)\<lparr>vmas := (vmas s)(x := (vmas s x)\<lparr>vma_end := e\<rparr>)\<rparr>"

lemma heap_grow_ok:
  assumes inv: "pgtbl_inv (vm_pool s) R" and root: "pgtbl (spaces s as) \<in> R" and l: "asmtx_self (spaces s as)"
    and ok: "regions_ok (vmas s) (vma_head (spaces s as))" and x: "x \<in> set (vma_head (spaces s as))" "vma_as (vmas s x) = as"
      "vma_covers (vmas s x) a" "vma_flags (vmas s x) AND VMA_FLAG_HEAP \<noteq> 0" "vma_prot (vmas s x) \<noteq> VMA_PROT_NONE"
      "page_aligned (vma_start (vmas s x))" "page_aligned (vma_end (vmas s x))" "vma_start (vmas s x) \<noteq> 0"
    and a: "a \<noteq> 0" "a < USER_VADDR_LIMIT" and b: "b < USER_VADDR_LIMIT" "vma_end (vmas s x) < round_up b"
    and no: "\<forall>y \<in> set (vma_head (spaces s as)). \<not> vma_covers (vmas s y) (round_up b)"
    and n: "unat (round_up b) = unat (vma_end (vmas s x)) + 4096 * n" and f: "4 * n \<le> pool_free (vm_pool s)"
  shows "\<exists>p' ks. vm_resize_area s as a b = Some (0, Some (vma_end (vmas s x)), grown s p' x (round_up b)) \<and> length ks = n \<and>
    pages_added R (vm_pool s) p' (pgtbl (spaces s as)) (vma_end (vmas s x)) ks (vma_prot (vmas s x)) (\<lambda>_ _. 0)"
proof -
  define r where "r = vmas s x"
  define e where "e = round_up b"
  have b0: "unat b + 4096 \<le> 2 ^ 64" using b(1) by (simp add: word_less_nat_alt)
  have el: "unat e \<le> unat USER_VADDR_LIMIT" unfolding e_def using b(1) by (intro round_up_le) (simp_all add: word_less_nat_alt)
  have ea: "page_aligned e" using round_up_unat(3) [OF b0] by (simp add: page_aligned_def e_def)
  have bz: "b \<noteq> 0"
  proof
    assume "b = 0"
    then have "e = 0" by (simp add: e_def round_up_def PAGE_ALIGNED_def)
    then show False using b(2) by (simp add: e_def)
  qed
  have st: "vma_start r \<le> vma_end r" using ok x(1) by (simp add: regions_ok_def r_def)
  have ee: "e = vma_end r + of_nat (4096 * n)"
    using n el by (simp add: word_unat_eq_iff unat_word_ariths unat_of_nat e_def r_def del: of_nat_mult)
  have lim: "unat (vma_end r) + 4096 * n \<le> unat USER_VADDR_LIMIT" using n el by (simp add: e_def r_def)
  from map_newpages_ok [OF inv root l x(5) f x(7), of "vma_end r"] lim obtain p' ks where
    p': "map_newpages s as (vma_end r) (vma_end r) e (vma_prot r) = Some (0, set_pool s p')" "length ks = n"
      "pages_added R (vm_pool s) p' (pgtbl (spaces s as)) (vma_end r) ks (vma_prot r) (\<lambda>_ _. 0)"
    unfolding ee by (auto simp: r_def simp del: of_nat_mult)
  have se: "\<not> e < vma_start r" using st b(2) by (auto simp: e_def r_def)
  have rs: "resize_vma s x (vma_start r) e = Some (0, grown s p' x e)"
    using p'(1) l x(2,6,8) ea se b(2)
    by (simp add: resize_vma_def r_def [symmetric] map_newpage_range_def round_up_id PAGE_ALIGNED_iff Let_def e_def [symmetric] upd_vma_def grown_def)
  have "vm_resize_area s as a b = Some (0, Some (vma_end r), grown s p' x e)"
    using l a b bz x(4) vm_find_vma_nolock_eq(1) [OF l x(1,3) ok] vm_find_vma_nolock_eq(2) [OF l no] rs
    by (simp add: vm_resize_area_def Let_def not_le r_def [symmetric] e_def [symmetric])
  then show ?thesis using p'(2,3) unfolding r_def e_def by blast
qed

text \<open>The regions stay apart when no other region lies where the heap grows to.\<close>

lemma grown_regions:
  assumes ok: "regions_ok st q" and x: "x \<in> set q" and al: "page_aligned (vma_end (st x))" "page_aligned e" and e: "vma_end (st x) \<le> e" "e < KERN_VMA_BASE"
    and room: "\<forall>y \<in> set q. y \<noteq> x \<longrightarrow> vma_before (st x) (st y) \<longrightarrow> e \<le> vma_start (st y)"
  shows "regions_ok (st(x := (st x)\<lparr>vma_end := e\<rparr>)) q"
proof -
  define st' where "st' = st(x := (st x)\<lparr>vma_end := e\<rparr>)"
  obtain j where j: "unat (vma_end (st x)) = 4096 * j" using al(1) by (auto simp: page_aligned_def dvd_def)
  obtain k where k: "unat e = 4096 * k" using al(2) by (auto simp: page_aligned_def dvd_def)
  have irr: "\<not> vma_before (st y) (st y)" for y by (simp add: vma_before_def)
  have "vma_before (st' y) (st' z)" if yz: "y \<in> set q" "z \<in> set q" "vma_before (st y) (st z)" for y z
  proof -
    have ne: "y \<noteq> z" using yz(3) irr by auto
    consider (left) "y = x" "z \<noteq> x" | (right) "z = x" "y \<noteq> x" | (none) "y \<noteq> x" "z \<noteq> x" using ne by blast
    then show ?thesis
    proof cases
      case left
      then have "e \<le> vma_start (st z)" using room yz by blast
      moreover from this have "vma_pages (st' x) \<inter> vma_pages (st z) = {}"
        using k by (intro pages_split [where k = k]) (auto simp: st'_def word_less_nat_alt word_le_nat_alt)
      ultimately show ?thesis using yz(3) left by (simp add: vma_before_def st'_def)
    next
      case right
      have old: "vma_pages (st y) \<inter> vma_pages (st x) = {}" "vma_end (st y) \<le> vma_start (st x)" using yz(3) right by (simp_all add: vma_before_def)
      have se: "vma_start (st x) \<le> vma_end (st x)" using ok x by (simp add: regions_ok_def)
      have up: "vma_pages (st' x) \<subseteq> vma_pages (st x) \<union> {m. j \<le> m}"
      proof
        fix m assume "m \<in> vma_pages (st' x)"
        then obtain u where u: "m = unat u div 4096" "vma_start (st x) \<le> u" "u < e" by (auto simp: vma_pages_def st'_def)
        show "m \<in> vma_pages (st x) \<union> {m. j \<le> m}"
        proof (cases "u < vma_end (st x)")
          case True
          then show ?thesis using u by (auto simp: vma_pages_def)
        next
          case False
          then have "4096 * j \<le> unat u" using j by (simp add: word_less_nat_alt)
          then show ?thesis using u(1) by (simp add: less_eq_div_iff_mult_less_eq mult.commute)
        qed
      qed
      have "m < j" if "m \<in> vma_pages (st y)" for m
      proof -
        from that obtain u where u: "m = unat u div 4096" "u < vma_end (st y)" by (auto simp: vma_pages_def)
        have "unat u < 4096 * j" using u(2) old(2) se j by (simp add: word_less_nat_alt word_le_nat_alt)
        then show ?thesis using u(1) by (simp add: less_mult_imp_div_less mult.commute)
      qed
      then have "vma_pages (st y) \<inter> vma_pages (st' x) = {}" using old(1) up by (auto simp: not_le [symmetric])
      then show ?thesis using yz(3) right by (simp add: vma_before_def st'_def)
    qed (use yz(3) in \<open>simp add: st'_def\<close>)
  qed
  then have "sorted_wrt (\<lambda>y z. vma_before (st' y) (st' z)) q"
    using ok unfolding regions_ok_def by (auto elim: sorted_wrt_mono_rel [rotated])
  moreover have "vma_start (st x) \<le> e" using ok x e(1) by (auto simp: regions_ok_def)
  ultimately show ?thesis using ok e(2) by (auto simp: regions_ok_def st'_def)
qed

text \<open>A region that lies between the heap and its new end is not noticed, and the heap then covers it.\<close>

lemma heap_grows_over_region:
  assumes "regions_ok (vmas s) (vma_head (spaces s as))" and "x \<in> set (vma_head (spaces s as))" and "y \<in> set (vma_head (spaces s as))" and "x \<noteq> y"
    and "vma_end (vmas s x) \<le> vma_start (vmas s y)" and "vma_start (vmas s y) < e" and "vma_start (vmas s x) < vma_start (vmas s y)"
  shows "\<not> regions_ok (vmas (grown s p x e)) (vma_head (spaces (grown s p x e) as))"
proof
  let ?st = "vmas (grown s p x e)" and ?q = "vma_head (spaces s as)"
  assume "regions_ok ?st (vma_head (spaces (grown s p x e) as))"
  then have so: "sorted_wrt (\<lambda>x y. vma_before (?st x) (?st y)) ?q" by (simp add: regions_ok_def grown_def)
  have total: "vma_before (st a) (st b) \<or> vma_before (st b) (st a)"
    if "sorted_wrt (\<lambda>x y. vma_before (st x) (st y)) q" "a \<in> set q" "b \<in> set q" "a \<noteq> b" for st q and a b :: u64
    using that by (induction q) auto
  have "vma_before (?st x) (?st y) \<or> vma_before (?st y) (?st x)" using total [OF so assms(2-4)] .
  then show False using assms(4,6,7) by (auto simp: vma_before_def grown_def)
qed

text \<open>A page fault in a region reaches \<open>vm_map_newpage\<close> without the mutex, which never returns.\<close>

lemma map_newpage_unlocked: "\<not> asmtx_self (spaces s as) \<Longrightarrow> vm_map_newpage s as v = None"
  by (simp add: vm_map_newpage_def)

text \<open>\<open>vm_duplicate\<close> takes the mutex of its source only, but creating a region asserts that of its destination.\<close>

lemma duplicate_unlocked:
  assumes "\<not> asmtx_self (spaces s dest)" and "dest \<noteq> src" and "vma_head (spaces s src) \<noteq> []"
  shows "vm_duplicate base kproc s dest src = None"
proof -
  obtain v vs where "vma_head (spaces s src) = v # vs" using assms(3) by (cases "vma_head (spaces s src)") auto
  moreover have "vm_create_vma base s' dest st sz pr fl = None" if "\<not> asmtx_self (spaces s' dest)" for s' st sz pr fl using that by (simp add: vm_create_vma_def)
  ultimately show ?thesis using assms(1,2) by (simp add: vm_duplicate_def lock_space_def upd_space_def)
qed

text \<open>A region with a page that was never touched cannot be destroyed.\<close>

lemma destroy_untouched_page:
  assumes "asmtx_self (spaces s (vma_as (vmas s v)))" and "pgtbl (spaces s (vma_as (vmas s v))) \<noteq> 0" and "vma_start (vmas s v) < vma_end (vmas s v)"
    and "find_pte (vm_pool s) (pgtbl (spaces s (vma_as (vmas s v)))) (vma_start (vmas s v)) = None"
  shows "vm_destroy_vma_nolock s v = None"
  using assms by (simp add: vm_destroy_vma_nolock_def destroy_pages.simps unmap_page_def hal_unmap_user_page_def)

text \<open>A size that runs over the end of memory is accepted: the region starts in the kernel half.\<close>

lemma wrapped_region_accepted:
  assumes "asmtx_self (spaces s as)" and "vma_head (spaces s as) = []" and "vmas s v = new_region as 0xFFFFFFFFFFFFF000 (0xFFFFFFFFFFFFF000 + 0x1000) prot fl"
  shows "check_vma_overlap_nolock s as v = Some 0"
  using assms by (simp add: check_vma_overlap_nolock_def new_region_def round_up_def PAGE_ALIGNED_def)

section \<open>Properties\<close>

text \<open>An address space with one region of one page, on the machine of the example of theory \<open>Pgtbl\<close>.\<close>

definition example_vmem :: vmem where
  "example_vmem = \<lparr>heap = boot_kmem\<lparr>pages := snd example_space\<rparr>,
     vmas = (\<lambda>_. new_region 1 0x500000 0x501000 (VMA_PROT_R OR VMA_PROT_W) VMA_FLAG_HEAP),
     spaces = (\<lambda>_. \<lparr>asmtx_self = True, vm_p = 1, pgtbl = fst example_space, vma_head = [2]\<rparr>)\<rparr>"

definition empty_vmem :: "bool \<Rightarrow> vmem" where
  "empty_vmem locked = \<lparr>heap = ready_kmem, vmas = (\<lambda>_. new_region 0 0 0 0 0),
     spaces = (\<lambda>_. \<lparr>asmtx_self = locked, vm_p = 1, pgtbl = 0, vma_head = []\<rparr>)\<rparr>"

lemma empty_vmem_ok: "regions_inv 0x200000 (empty_vmem locked) {1}"
  by (simp add: regions_inv_def empty_vmem_def ready_kmem_inv regions_ok_def)

lemma example_vmem_ok: "pgtbl_inv (vm_pool example_vmem) {fst example_space}" "pgtbl (spaces example_vmem 1) \<in> {fst example_space}"
  "asmtx_self (spaces example_vmem 1)" "regions_ok (vmas example_vmem) (vma_head (spaces example_vmem 1))" "7 \<le> pool_free (vm_pool example_vmem)"
  using example_space_ok by (simp_all add: example_vmem_def regions_ok_def new_region_def)

theorem vm_create_vma_spec_witness:
  "\<exists>rc v s'. vm_create_vma 0x200000 (empty_vmem True) 1 0x400000 0x1800 VMA_PROT_R 0 = Some (rc, v, s') \<and> regions_inv 0x200000 s' {1} \<and>
    (case v of None \<Rightarrow> rc = - ENOMEM | Some v \<Rightarrow> rc = 0 \<and> set (vma_head (spaces s' 1)) = {v})"
proof -
  from vm_create_vma_spec [OF empty_vmem_ok singletonI, of True "0x400000" "0x1800" VMA_PROT_R 0] obtain rc v s' where
    c: "vm_create_vma 0x200000 (empty_vmem True) 1 0x400000 0x1800 VMA_PROT_R 0 = Some (rc, v, s')" "regions_inv 0x200000 s' {1}"
    "case v of None \<Rightarrow> spaces s' = spaces (empty_vmem True) \<and> (rc = - ENOMEM \<or> rc = - EBUSY \<and> \<not> (round_up (vma_end (new_region 1 0x400000 (0x400000 + 0x1800) VMA_PROT_R 0)) < KERN_VMA_BASE \<and>
         (\<forall>x \<in> set (vma_head (spaces (empty_vmem True) 1)). clear_of (new_region 1 0x400000 (0x400000 + 0x1800) VMA_PROT_R 0) (vmas (empty_vmem True) x))))
     | Some v \<Rightarrow> rc = 0 \<and> set (vma_head (spaces s' 1)) = insert v (set (vma_head (spaces (empty_vmem True) 1)))"
    by (fastforce simp: empty_vmem_def split: option.split_asm)
  have "round_up 0x401800 < KERN_VMA_BASE" by code_simp
  then show ?thesis using c by (intro exI [of _ rc] exI [of _ v] exI [of _ s']) (auto simp: empty_vmem_def new_region_def split: option.split_asm)
qed

theorem vm_find_vma_spec_witness:
  "vm_find_vma (empty_vmem False) 1 0x400000 = Some (- ENOENT, None, empty_vmem False)"
  using vm_find_vma_spec [OF empty_vmem_ok [of False] singletonI, of "0x400000"] by (simp add: empty_vmem_def)

theorem vm_map_newpage_spec_witness:
  "(\<exists>k p'. vm_map_newpage example_vmem 1 0x500123 = Some (0, set_pool example_vmem p') \<and>
      hal_translate_user_page p' (fst example_space) 0x500123 = Some (0, Some (k, 7))) \<and>
    vm_map_newpage example_vmem 1 0x600000 = Some (- ENOENT, example_vmem)"
proof
  have x: "2 \<in> set (vma_head (spaces example_vmem 1))" "vma_covers (vmas example_vmem 2) 0x500123" "vma_prot (vmas example_vmem 2) = 3"
    by (simp_all add: example_vmem_def vma_covers_def new_region_def)
  have r: "pgtbl (spaces example_vmem 1) = fst example_space" by (simp add: example_vmem_def)
  show "\<exists>k p'. vm_map_newpage example_vmem 1 0x500123 = Some (0, set_pool example_vmem p') \<and>
      hal_translate_user_page p' (fst example_space) 0x500123 = Some (0, Some (k, 7))"
    using vm_map_newpage_spec [OF example_vmem_ok(1-4), of "0x500123"] x example_vmem_ok(5) unfolding r
    by (fastforce simp: mapped_prot_def split: if_split_asm)
  show "vm_map_newpage example_vmem 1 0x600000 = Some (- ENOENT, example_vmem)"
    using vm_map_newpage_spec [OF example_vmem_ok(1-4), of "0x600000"] by (simp add: example_vmem_def vma_covers_def new_region_def)
qed

text \<open>
  When the heap region is not protected by \<^verbatim>\<open>VMA_PROT_NONE\<close>, its new end lies in no region and four free pages are left for each new page, \<open>vm_resize_area\<close>
  grows the heap to the new end, rounded up to a page, and gives back the old one.  The pages in between are then mapped, each to
  a page of its own that nobody used before and that is filled with zeros; they are writable when the heap is, and readable and executable
  in any case, which is \<open>mapped_prot\<close>.  No other translation in
  any address space changes, nor any byte of another page in use.  The regions stay apart when no region behind the heap starts
  below the new end.
\<close>

theorem vm_resize_area_heap_spec:
  assumes inv: "pgtbl_inv (vm_pool s) R" and root: "pgtbl (spaces s as) \<in> R" and l: "asmtx_self (spaces s as)"
    and ok: "regions_ok (vmas s) (vma_head (spaces s as))" and x: "x \<in> set (vma_head (spaces s as))" "vma_as (vmas s x) = as"
      "vma_covers (vmas s x) a" "vma_flags (vmas s x) AND VMA_FLAG_HEAP \<noteq> 0" "vma_prot (vmas s x) \<noteq> VMA_PROT_NONE"
      "page_aligned (vma_start (vmas s x))" "page_aligned (vma_end (vmas s x))" "vma_start (vmas s x) \<noteq> 0"
    and a: "a \<noteq> 0" "a < USER_VADDR_LIMIT" and b: "b < USER_VADDR_LIMIT" "vma_end (vmas s x) < round_up b"
    and no: "\<forall>y \<in> set (vma_head (spaces s as)). \<not> vma_covers (vmas s y) (round_up b)"
    and n: "unat (round_up b) = unat (vma_end (vmas s x)) + 4096 * n" and f: "4 * n \<le> pool_free (vm_pool s)"
  shows "\<exists>p' ks. vm_resize_area s as a b = Some (0, Some (vma_end (vmas s x)), grown s p' x (round_up b)) \<and>
    pgtbl_inv p' R \<and> length ks = n \<and> distinct ks \<and>
    (\<forall>k \<in> set ks. (k, 0) \<notin> pool_blocks (vm_pool s) \<and> (\<forall>z. z - k < PAGE_SIZE \<longrightarrow> mem p' z = 0)) \<and>
    (\<forall>i < n. hal_translate_user_page p' (pgtbl (spaces s as)) (vma_end (vmas s x) + of_nat (4096 * i)) = Some (0, Some (ks ! i, mapped_prot (vma_prot (vmas s x))))) \<and>
    (\<forall>r \<in> R. \<forall>v < USER_VADDR_LIMIT. r \<noteq> pgtbl (spaces s as) \<or> \<not> (vma_end (vmas s x) \<le> v \<and> v < round_up b) \<longrightarrow>
       hal_translate_user_page p' r v = hal_translate_user_page (vm_pool s) r v) \<and>
    bytes_kept (vm_pool s) p' (tables_of (vm_pool s) R) \<and>
    ((\<forall>y \<in> set (vma_head (spaces s as)). y \<noteq> x \<longrightarrow> vma_before (vmas s x) (vmas s y) \<longrightarrow> round_up b \<le> vma_start (vmas s y)) \<longrightarrow>
       regions_ok (vmas (grown s p' x (round_up b))) (vma_head (spaces (grown s p' x (round_up b)) as)))"
proof -
  have nz: "r \<noteq> 0" if "r \<in> R" for r using pgtbl_invD(3) [OF inv that user_path_Nil, of r] by simp
  from heap_grow_ok [OF assms] obtain p' ks where
    p': "vm_resize_area s as a b = Some (0, Some (vma_end (vmas s x)), grown s p' x (round_up b))" "length ks = n"
      "pages_added R (vm_pool s) p' (pgtbl (spaces s as)) (vma_end (vmas s x)) ks (vma_prot (vmas s x)) (\<lambda>_ _. 0)" by blast
  note P = p'(3) [unfolded pages_added_def p'(2)]
  have "hal_translate_user_page p' (pgtbl (spaces s as)) (vma_end (vmas s x) + of_nat (4096 * i)) = Some (0, Some (ks ! i, mapped_prot (vma_prot (vmas s x))))"
    if "i < n" for i using P that nz [OF root] by (auto simp: translate_find_pte simp del: of_nat_mult)
  moreover have "hal_translate_user_page p' r v = hal_translate_user_page (vm_pool s) r v"
    if h: "r \<in> R" "v < USER_VADDR_LIMIT" "r \<noteq> pgtbl (spaces s as) \<or> \<not> (vma_end (vmas s x) \<le> v \<and> v < round_up b)" for r v
  proof -
    have "find_pte p' r v = find_pte (vm_pool s) r v" using P h n by (auto simp: word_le_nat_alt word_less_nat_alt)
    then show ?thesis using nz [OF h(1)] by (simp add: translate_find_pte)
  qed
  moreover have "regions_ok (vmas (grown s p' x (round_up b))) (vma_head (spaces (grown s p' x (round_up b)) as))"
    if room: "\<forall>y \<in> set (vma_head (spaces s as)). y \<noteq> x \<longrightarrow> vma_before (vmas s x) (vmas s y) \<longrightarrow> round_up b \<le> vma_start (vmas s y)"
  proof -
    have b0: "unat b + 4096 \<le> 2 ^ 64" using b(1) by (simp add: word_less_nat_alt)
    have "page_aligned (round_up b)" using round_up_unat(3) [OF b0] by (simp add: page_aligned_def)
    moreover have "round_up b < KERN_VMA_BASE" using round_up_unat(2) [OF b0] b(1) by (simp add: word_less_nat_alt)
    ultimately show ?thesis using grown_regions [OF ok x(1,7), of "round_up b"] b(2) room by (simp add: grown_def)
  qed
  moreover have "pgtbl_inv p' R" "distinct ks" "bytes_kept (vm_pool s) p' (tables_of (vm_pool s) R)"
    using P by blast+
  moreover have "\<forall>k \<in> set ks. (k, 0) \<notin> pool_blocks (vm_pool s) \<and> (\<forall>z. z - k < PAGE_SIZE \<longrightarrow> mem p' z = 0)"
    using P p'(2) by (auto simp: in_set_conv_nth)
  ultimately show ?thesis using p'(1,2) by (intro exI [of _ p'] exI [of _ ks]) blast
qed

theorem vm_resize_area_heap_spec_witness:
  "\<exists>p' k. vm_resize_area example_vmem 1 0x500000 0x501800 = Some (0, Some 0x501000, grown example_vmem p' 2 0x502000) \<and>
    hal_translate_user_page p' (fst example_space) 0x501000 = Some (0, Some (k, 7))"
proof -
  have r: "round_up 0x501800 = 0x502000" by code_simp
  have x: "vmas example_vmem 2 = new_region 1 0x500000 0x501000 3 1" "spaces example_vmem 1 = \<lparr>asmtx_self = True, vm_p = 1, pgtbl = fst example_space, vma_head = [2]\<rparr>"
    by (simp_all add: example_vmem_def)
  have "\<exists>p' ks. vm_resize_area example_vmem 1 0x500000 0x501800 = Some (0, Some (vma_end (vmas example_vmem 2)), grown example_vmem p' 2 (round_up 0x501800)) \<and>
    length ks = 1 \<and>
    (\<forall>i < 1. hal_translate_user_page p' (pgtbl (spaces example_vmem 1)) (vma_end (vmas example_vmem 2) + of_nat (4096 * i)) = Some (0, Some (ks ! i, mapped_prot (vma_prot (vmas example_vmem 2)))))"
    using vm_resize_area_heap_spec [OF example_vmem_ok(1-4), of 2 "0x500000" "0x501800" 1] example_vmem_ok(5)
    by (auto simp: x r new_region_def vma_covers_def page_aligned_def)
  then show ?thesis by (auto simp: x r new_region_def mapped_prot_def)
qed

end
