(* ===== verification/User_Mem.thy ===== *)
theory User_Mem
  imports Vm
begin

text \<open>
  User memory as the kernel handles it for a process: the checks and copies of \<^verbatim>\<open>src/vm/vm-copy-inout.c\<close>, the areas of a
  process in \<^verbatim>\<open>src/proc/proc.c\<close>, \<open>sbrk\<close> in \<^verbatim>\<open>src/kern/vm-server.c\<close> and the page fault handler of
  \<^verbatim>\<open>src/hal/x86-64/exc/common-traps.c\<close>.

  \<open>kproc\<close> is the address of the kernel process, \<open>cur_p\<close> that of the running process and \<open>cur_as\<close> its address space, whose
  page tables the processor uses.  A process is seen by its address space and its regions.  Dispatch is disabled
  during a copy between two processes; the counter for that belongs to theory \<open>Thread_Info\<close>.
\<close>

section \<open>The check of a range\<close>

definition user_area_can_access_nolock :: "vmem \<Rightarrow> u64 \<Rightarrow> u64 \<Rightarrow> u64 \<Rightarrow> u32 \<Rightarrow> bool option" where
  "user_area_can_access_nolock s as start count prot = do {
     let pg_start = PAGE_START start;
     let pg_end = round_up (start + count);
     (rc, vmap) \<leftarrow> vm_find_vma_nolock s as pg_start;
     if rc \<noteq> 0 then Some False
     else do {
       vmap \<leftarrow> vmap;
       if vma_end (vmas s vmap) < pg_end then Some False
       else if vma_prot (vmas s vmap) AND prot = 0 then Some False
       else Some True
     }
   }"

definition vm_user_area_can_access :: "u64 \<Rightarrow> vmem \<Rightarrow> u64 \<Rightarrow> u64 \<Rightarrow> u64 \<Rightarrow> u32 \<Rightarrow> (bool \<times> vmem) option" where
  "vm_user_area_can_access kproc s as start count prot =
     (if vm_p (spaces s as) = kproc then Some (True, s)
      else do {
        s \<leftarrow> lock_space s as;
        rc \<leftarrow> user_area_can_access_nolock s as start count prot;
        s \<leftarrow> unlock_space s as;
        Some (rc, s)
      })"

section \<open>Copies between two processes\<close>

text \<open>
  One side of the copy: the kernel address of the page of \<open>a\<close>.  The first component is the result with which the copy is
  given up.  A page that is mapped here leaves the variable \<open>kv\<close> as it was, undefined at first.
\<close>

definition page_for_copy :: "u64 \<Rightarrow> vmem \<Rightarrow> u64 \<Rightarrow> u64 \<Rightarrow> u64 option \<Rightarrow> (int option \<times> u64 option \<times> vmem) option" where
  "page_for_copy kproc s as a kv =
     (if vm_p (spaces s as) = kproc then Some (None, Some (PAGE_START a), s)
      else do {
        (rc, tr) \<leftarrow> translate_page s as a;
        if rc = 0 then do { (k, _) \<leftarrow> tr; Some (None, Some k, s) }
        else do {
          (rc, vmap) \<leftarrow> vm_find_vma_nolock s as a;
          if rc \<noteq> 0 then Some (Some rc, kv, s)
          else do {
            vmap \<leftarrow> vmap;
            if vma_prot (vmas s vmap) = VMA_PROT_NONE then Some (Some rc, kv, s)
            else do {
              (rc, new_page, p) \<leftarrow> get_free_page (vm_pool s);
              if rc \<noteq> 0 then Some (Some rc, kv, set_pool s p)
              else do {
                new_page \<leftarrow> new_page;
                let s = set_pool s (p\<lparr>mem := memset64 (mem p) new_page 0 PAGE_SIZE\<rparr>);
                (rc, s) \<leftarrow> map_page s as a new_page (vma_prot (vmas s vmap));
                if rc \<noteq> 0 then do {
                  p \<leftarrow> free_page (vm_pool s) new_page;
                  Some (Some rc, kv, set_pool s p)
                } else Some (None, kv, s)
              }
            }
          }
        }
      })"

definition page_offset :: "u64 \<Rightarrow> u64" where
  "page_offset a = a - PAGE_START a"

fun copy_bytes :: "nat \<Rightarrow> (u64 \<Rightarrow> u8) \<Rightarrow> u64 \<Rightarrow> u64 \<Rightarrow> u64 \<Rightarrow> u64 \<Rightarrow> (u64 \<Rightarrow> u8)" where
  "copy_bytes 0 m dk daddr sk saddr = m"
| "copy_bytes (Suc n) m dk daddr sk saddr =
     copy_bytes n (m(dk + page_offset daddr := m (sk + page_offset saddr))) dk (daddr + 1) sk (saddr + 1)"

definition set_bytes :: "vmem \<Rightarrow> (u64 \<Rightarrow> u8) \<Rightarrow> vmem" where
  "set_bytes s m = set_pool s ((vm_pool s)\<lparr>mem := m\<rparr>)"

definition copy_len :: "u64 \<Rightarrow> u64 \<Rightarrow> u64 \<Rightarrow> u64" where
  "copy_len daddr saddr len =
     (let src_len = PAGE_NEXT saddr - saddr; dest_len = PAGE_NEXT daddr - daddr;
          cpy_len = (if src_len \<le> dest_len then src_len else dest_len)
      in if cpy_len > len then len else cpy_len)"

partial_function (option) copy_loop :: "u64 \<Rightarrow> vmem \<Rightarrow> u64 \<Rightarrow> u64 \<Rightarrow> u64 \<Rightarrow> u64 \<Rightarrow> u64 \<Rightarrow> u64 \<Rightarrow> u64 option \<Rightarrow> u64 option \<Rightarrow> (int \<times> vmem) option" where
  "copy_loop kproc s dest_as src_as daddr saddr count len sk dk =
     (if len > 0 then do {
        (e, sk, s) \<leftarrow> page_for_copy kproc s src_as saddr sk;
        case e of Some rc \<Rightarrow> Some (rc, s)
        | None \<Rightarrow> do {
            (e, dk, s) \<leftarrow> page_for_copy kproc s dest_as daddr dk;
            case e of Some rc \<Rightarrow> Some (rc, s)
            | None \<Rightarrow> do {
                sk' \<leftarrow> sk;
                dk' \<leftarrow> dk;
                let n = copy_len daddr saddr len;
                let s = set_bytes s (copy_bytes (unat n) (mem (vm_pool s)) dk' daddr sk' saddr);
                copy_loop kproc s dest_as src_as (daddr + n) (saddr + n) count (len - n) sk dk
              }
          }
      } else Some (sint (ucast (count - len) :: 32 word), s))"

definition inter_user_copy :: "u64 \<Rightarrow> u64 \<Rightarrow> vmem \<Rightarrow> u64 \<Rightarrow> u64 \<Rightarrow> u64 \<Rightarrow> u64 \<Rightarrow> u64 \<Rightarrow> (int \<times> vmem) option" where
  "inter_user_copy kproc cur_as s dest_as src_as dest src count = do {
     kassert (vm_p (spaces s src_as) \<noteq> 0);
     kassert (vm_p (spaces s dest_as) \<noteq> 0);
     if src \<ge> KERN_VMA_BASE \<or> dest \<ge> KERN_VMA_BASE then Some (- EFAULT, s)
     else if vm_p (spaces s dest_as) = kproc \<or> vm_p (spaces s src_as) = kproc then Some (- EFAULT, s)
     else do {
       s \<leftarrow> lock_space s (if cur_as = dest_as then src_as else dest_as);
       (rc, s) \<leftarrow> copy_loop kproc s dest_as src_as dest src count count None None;
       s \<leftarrow> unlock_space s (if cur_as = dest_as then src_as else dest_as);
       Some (rc, s)
     }
   }"

section \<open>Copies between a process and the kernel\<close>

text \<open>
  The byte at a virtual address: kernel memory is where its address says, a user page where the page tables of the running
  process say.  An access that faults in the kernel ends in \<open>handle_error_exception\<close>, which does not return.
\<close>

definition byte_addr :: "u64 \<Rightarrow> vmem \<Rightarrow> u64 \<Rightarrow> u64 option" where
  "byte_addr cur_as s a =
     (if a \<ge> KERN_VMA_BASE then Some a
      else do {
        (rc, tr) \<leftarrow> hal_translate_user_page (vm_pool s) (pgtbl (spaces s cur_as)) a;
        (k, _) \<leftarrow> tr;
        Some (k + page_offset a)
      })"

fun memcpy_virt :: "nat \<Rightarrow> u64 \<Rightarrow> vmem \<Rightarrow> u64 \<Rightarrow> u64 \<Rightarrow> vmem option" where
  "memcpy_virt 0 cur_as s dest src = Some s"
| "memcpy_virt (Suc n) cur_as s dest src = do {
     x \<leftarrow> byte_addr cur_as s src;
     y \<leftarrow> byte_addr cur_as s dest;
     memcpy_virt n cur_as (set_bytes s ((mem (vm_pool s))(y := mem (vm_pool s) x))) (dest + 1) (src + 1)
   }"

text \<open>From the lock of the address space on; \<open>a\<close> is the user address and \<open>prot\<close> the access to it.\<close>

definition copy_locked :: "u64 \<Rightarrow> u64 \<Rightarrow> vmem \<Rightarrow> u64 \<Rightarrow> u64 \<Rightarrow> u32 \<Rightarrow> u64 \<Rightarrow> u64 \<Rightarrow> u64 \<Rightarrow> (int \<times> vmem) option" where
  "copy_locked kproc cur_as s as a prot dest src count = do {
     s \<leftarrow> lock_space s as;
     ok \<leftarrow> (if vm_p (spaces s as) = kproc then Some True
            else if a \<ge> KERN_VMA_BASE then Some False
            else user_area_can_access_nolock s as a count prot);
     if \<not> ok then do { s \<leftarrow> unlock_space s as; Some (- EFAULT, s) }
     else do {
       s \<leftarrow> memcpy_virt (unat count) cur_as s dest src;
       s \<leftarrow> unlock_space s as;
       Some (sint (ucast count :: 32 word), s)
     }
   }"

definition vm_copy_in :: "u64 \<Rightarrow> u64 \<Rightarrow> u64 \<Rightarrow> vmem \<Rightarrow> u64 \<Rightarrow> u64 \<Rightarrow> u64 \<Rightarrow> u64 \<Rightarrow> (int \<times> vmem) option" where
  "vm_copy_in kproc cur_p cur_as s as dest src count = do {
     kassert (vm_p (spaces s as) \<noteq> 0);
     if cur_p \<noteq> kproc \<and> dest < KERN_VMA_BASE then inter_user_copy kproc cur_as s cur_as as dest src count
     else copy_locked kproc cur_as s as src VMA_PROT_R dest src count
   }"

definition vm_copy_out :: "u64 \<Rightarrow> u64 \<Rightarrow> u64 \<Rightarrow> vmem \<Rightarrow> u64 \<Rightarrow> u64 \<Rightarrow> u64 \<Rightarrow> u64 \<Rightarrow> (int \<times> vmem) option" where
  "vm_copy_out kproc cur_p cur_as s as dest src count = do {
     kassert (vm_p (spaces s as) \<noteq> 0);
     if cur_p \<noteq> kproc \<and> src < KERN_VMA_BASE then inter_user_copy kproc cur_as s as cur_as dest src count
     else copy_locked kproc cur_as s as dest VMA_PROT_W dest src count
   }"

section \<open>The areas of a process\<close>

record proc_mem =
  pm_vm :: u64
  pm_text :: "u64 option"
  pm_data :: "u64 option"
  pm_heap :: "u64 option"
  pm_stack :: "u64 option"
  pm_entry :: u64

abbreviation USER_STACK_BOTTOM :: u64 where "USER_STACK_BOTTOM \<equiv> 0x400000000000"

text \<open>The loops that unmap an area after a failure.\<close>

partial_function (option) unmap_area :: "vmem \<Rightarrow> u64 \<Rightarrow> u64 \<Rightarrow> u64 \<Rightarrow> vmem option" where
  "unmap_area s as vmap uvaddr =
     (if uvaddr < vma_end (vmas s vmap) then do {
        (rc, s) \<leftarrow> vm_unmap_addr s as uvaddr;
        unmap_area s as vmap (uvaddr + PAGE_SIZE)
      } else Some s)"

definition release_area :: "vmem \<Rightarrow> u64 \<Rightarrow> u64 \<Rightarrow> vmem option" where
  "release_area s as vmap = do {
     s \<leftarrow> unmap_area s as vmap (vma_start (vmas s vmap));
     h \<leftarrow> kfree (heap s) (Some vmap);
     Some (s\<lparr>heap := h\<rparr>)
   }"

text \<open>One page is allocated whatever the size is, and \<open>siz\<close> bytes from its start are cleared.\<close>

definition alloc_process_stack :: "u64 \<Rightarrow> vmem \<Rightarrow> proc_mem \<Rightarrow> u64 \<Rightarrow> (int \<times> proc_mem \<times> vmem) option" where
  "alloc_process_stack base s pm siz = do {
     let as = pm_vm pm;
     s \<leftarrow> lock_space s as;
     (rc, v, s) \<leftarrow> vm_create_vma base s as (USER_STACK_BOTTOM - PAGE_SIZE) siz (VMA_PROT_R OR VMA_PROT_W OR VMA_PROT_X) VMA_FLAG_STACK;
     if rc \<noteq> 0 then do { s \<leftarrow> unlock_space s as; Some (rc, pm, s) }
     else do {
       v \<leftarrow> v;
       (rc, new_page, p) \<leftarrow> get_free_page (vm_pool s);
       (rc, s) \<leftarrow>
         (if rc \<noteq> 0 then Some (rc, set_pool s p)
          else do {
            new_page \<leftarrow> new_page;
            let s = set_pool s (p\<lparr>mem := memset64 (mem p) new_page 0 siz\<rparr>);
            map_page s as (vma_start (vmas s v)) new_page (vma_prot (vmas s v))
          });
       if rc \<noteq> 0 then do {
         s \<leftarrow> release_area s as v;
         s \<leftarrow> unlock_space s as;
         Some (rc, pm\<lparr>pm_stack := None\<rparr>, s)
       } else do {
         s \<leftarrow> unlock_space s as;
         Some (0, pm\<lparr>pm_stack := Some v\<rparr>, s)
       }
     }
   }"

definition setup_heap_area :: "u64 \<Rightarrow> vmem \<Rightarrow> proc_mem \<Rightarrow> (int \<times> proc_mem \<times> vmem) option" where
  "setup_heap_area base s pm = do {
     s \<leftarrow> lock_space s (pm_vm pm);
     data \<leftarrow> pm_data pm;
     (rc, v, s) \<leftarrow> vm_create_vma base s (pm_vm pm) (PAGE_NEXT (vma_end (vmas s data))) 0 (VMA_PROT_R OR VMA_PROT_W) VMA_FLAG_HEAP;
     s \<leftarrow> unlock_space s (pm_vm pm);
     Some (rc, if rc = 0 then pm\<lparr>pm_heap := v\<rparr> else pm, s)
   }"

definition proc_expand_stack :: "vmem \<Rightarrow> proc_mem \<Rightarrow> u64 \<Rightarrow> (int \<times> vmem) option" where
  "proc_expand_stack s pm new_top = do {
     stack \<leftarrow> pm_stack pm;
     s \<leftarrow> lock_space s (pm_vm pm);
     (rc, vmap) \<leftarrow> vm_find_vma_nolock s (pm_vm pm) new_top;
     (rc, s) \<leftarrow>
       (if rc = 0 then Some (rc, s)
        else do {
          (rc, _, s) \<leftarrow> vm_resize_area s (pm_vm pm) (vma_start (vmas s stack)) new_top;
          Some (rc, s)
        });
     s \<leftarrow> unlock_space s (pm_vm pm);
     Some (rc, s)
   }"

text \<open>The second component is the old end of the heap, when the call succeeds.\<close>

definition proc_expand_heap :: "vmem \<Rightarrow> proc_mem \<Rightarrow> u64 \<Rightarrow> (int \<times> u64 option \<times> vmem) option" where
  "proc_expand_heap s pm new_heap_end = do {
     h \<leftarrow> pm_heap pm;
     s \<leftarrow> lock_space s (pm_vm pm);
     (rc, old_addr, s) \<leftarrow>
       (if new_heap_end \<noteq> 0 then vm_resize_area s (pm_vm pm) (vma_start (vmas s h)) new_heap_end
        else Some (0, Some (vma_end (vmas s h)), s));
     s \<leftarrow> unlock_space s (pm_vm pm);
     Some (rc, if rc = 0 then old_addr else None, s)
   }"

text \<open>
  \<open>pm\<close> is the process of the thread that sent the request, when there is one; \<open>inc\<close> is the increment as a word.  The
  second component is what the reply holds as the old end of the heap.
\<close>

definition handle_sbrk :: "vmem \<Rightarrow> proc_mem option \<Rightarrow> u64 \<Rightarrow> (int \<times> u64 option \<times> vmem) option" where
  "handle_sbrk s thr inc = (case thr of
      None \<Rightarrow> Some (- ENOENT, None, s)
    | Some pm \<Rightarrow> do {
        (rc, cur_end, s) \<leftarrow> proc_expand_heap s pm 0;
        if rc \<noteq> 0 then Some (rc, None, s)
        else if inc = 0 then Some (0, cur_end, s)
        else do {
          cur_end \<leftarrow> cur_end;
          let new_end = round_up (cur_end + inc);
          h \<leftarrow> pm_heap pm;
          if new_end < vma_start (vmas s h) then Some (- EINVAL, None, s)
          else do {
            (rc, cur_end, s) \<leftarrow> proc_expand_heap s pm new_end;
            if rc \<noteq> 0 then Some (rc, None, s) else Some (0, cur_end, s)
          }
        }
      })"

section \<open>Page faults\<close>

datatype fault_result = Fault_resume | Fault_exit

text \<open>A fault in the kernel does not return; \<open>pm\<close> is the running process.\<close>

definition page_fault_exception :: "vmem \<Rightarrow> bool \<Rightarrow> proc_mem \<Rightarrow> u64 \<Rightarrow> (fault_result \<times> vmem) option" where
  "page_fault_exception s from_user pm fault_addr =
     (if \<not> from_user then None
      else do {
        (rc, vmap, s) \<leftarrow> vm_find_vma s (pm_vm pm) fault_addr;
        (rc, s) \<leftarrow> (if rc = 0 then vm_map_newpage s (pm_vm pm) fault_addr else Some (0, s));
        if rc \<noteq> 0 then Some (Fault_exit, s)
        else do {
          h \<leftarrow> pm_heap pm;
          stack \<leftarrow> pm_stack pm;
          if vma_end (vmas s h) < fault_addr \<and> fault_addr < vma_start (vmas s stack) then do {
            (rc, s) \<leftarrow> proc_expand_stack s pm fault_addr;
            if rc \<noteq> 0 then Some (Fault_exit, s) else Some (Fault_resume, s)
          } else Some (Fault_exit, s)
        }
      })"

section \<open>What the check grants\<close>

text \<open>Regions that begin and end at pages, as all regions of the kernel's own processes do.\<close>

definition paged :: "vmem \<Rightarrow> u64 \<Rightarrow> bool" where
  "paged s as \<longleftrightarrow> (\<forall>x \<in> set (vma_head (spaces s as)). page_aligned (vma_start (vmas s x)) \<and> page_aligned (vma_end (vmas s x)))"

lemma aligned_le_start:
  assumes "page_aligned a" "a \<le> b"
  shows "a \<le> PAGE_START b"
proof -
  obtain q where q: "unat a = 4096 * q" using assms(1) by (auto simp: page_aligned_def dvd_def)
  have "q \<le> unat b div 4096" using assms(2) q by (simp add: word_le_nat_alt less_eq_div_iff_mult_less_eq mult.commute)
  then show ?thesis by (simp add: word_le_nat_alt PAGE_START_unat q)
qed

lemma can_access_eq:
  assumes l: "asmtx_self (spaces s as)" and ok: "regions_ok (vmas s) (vma_head (spaces s as))" and pg: "paged s as"
    and w: "0 < count" "unat start + unat count + 4096 \<le> 2 ^ 64"
  shows "user_area_can_access_nolock s as start count prot = Some (\<exists>x \<in> set (vma_head (spaces s as)). vma_prot (vmas s x) AND prot \<noteq> 0 \<and>
      vma_start (vmas s x) \<le> start \<and> unat start + unat count \<le> unat (vma_end (vmas s x)))"
proof -
  let ?q = "vma_head (spaces s as)" and ?e = "round_up (start + count)"
  have u: "unat (start + count) = unat start + unat count" using w(2) by (simp add: unat_word_ariths)
  note ru = round_up_unat [of "start + count", unfolded u, OF w(2)]
  have fits: "unat start + unat count \<le> unat (vma_end (vmas s x)) \<longleftrightarrow> \<not> vma_end (vmas s x) < ?e" if "x \<in> set ?q" for x
  proof -
    have "vma_end (vmas s x) < KERN_VMA_BASE" "4096 dvd unat (vma_end (vmas s x))" using that ok pg by (auto simp: regions_ok_def paged_def page_aligned_def)
    then have "unat (start + count) \<le> unat (vma_end (vmas s x)) \<Longrightarrow> unat ?e \<le> unat (vma_end (vmas s x))"
      by (intro round_up_le) (simp_all add: word_less_nat_alt)
    then show ?thesis using ru(1) u by (auto simp: word_less_nat_alt)
  qed
  have cov: "vma_covers (vmas s x) (PAGE_START start)" if "x \<in> set ?q" "vma_start (vmas s x) \<le> start" "unat start + unat count \<le> unat (vma_end (vmas s x))" for x
  proof -
    have "unat (PAGE_START start) < unat (vma_end (vmas s x))" using page_le(1) [of start] that(3) w(1) by (simp add: word_less_nat_alt)
    moreover have "vma_start (vmas s x) \<le> PAGE_START start" using aligned_le_start that(1,2) pg by (simp add: paged_def)
    ultimately show ?thesis by (simp add: vma_covers_def word_less_nat_alt)
  qed
  have st: "vma_start (vmas s x) \<le> start" if "vma_covers (vmas s x) (PAGE_START start)" for x
    using that page_le(1) [of start] by (auto simp: vma_covers_def word_le_nat_alt)
  show ?thesis
  proof (cases "\<exists>x \<in> set ?q. vma_covers (vmas s x) (PAGE_START start)")
    case True
    then obtain x where x: "x \<in> set ?q" "vma_covers (vmas s x) (PAGE_START start)" by blast
    have only: "y = x" if "y \<in> set ?q" "vma_covers (vmas s y) (PAGE_START start)" for y
      using covers_unique [of "vmas s" ?q y x] that x ok by (simp add: regions_ok_def)
    have "user_area_can_access_nolock s as start count prot = Some (\<not> vma_end (vmas s x) < ?e \<and> vma_prot (vmas s x) AND prot \<noteq> 0)"
      using vm_find_vma_nolock_eq(1) [OF l x ok] by (simp add: user_area_can_access_nolock_def)
    moreover have "(\<not> vma_end (vmas s x) < ?e \<and> vma_prot (vmas s x) AND prot \<noteq> 0) \<longleftrightarrow> (\<exists>x \<in> set ?q. vma_prot (vmas s x) AND prot \<noteq> 0 \<and>
        vma_start (vmas s x) \<le> start \<and> unat start + unat count \<le> unat (vma_end (vmas s x)))"
      using fits [OF x(1)] st [OF x(2)] x(1) cov only by blast
    ultimately show ?thesis by (simp only:)
  next
    case False
    then show ?thesis using vm_find_vma_nolock_eq(2) [OF l, of "PAGE_START start"] cov by (auto simp: user_area_can_access_nolock_def)
  qed
qed

text \<open>The range may run over the end of memory: then its end is rounded to a low address, and the check grants it.\<close>

lemma can_access_wraps:
  assumes "asmtx_self (spaces s as)" "regions_ok (vmas s) (vma_head (spaces s as))" "x \<in> set (vma_head (spaces s as))"
    "vma_covers (vmas s x) (PAGE_START start)" "vma_prot (vmas s x) AND prot \<noteq> 0" "count = - start"
  shows "user_area_can_access_nolock s as start count prot = Some True"
proof -
  have "round_up 0 = 0" by code_simp
  then show ?thesis using vm_find_vma_nolock_eq(1) [OF assms(1,3,4,2)] assms(5,6) by (simp add: user_area_can_access_nolock_def)
qed

section \<open>The lock of an address space\<close>

definition locked :: "vmem \<Rightarrow> u64 \<Rightarrow> vmem" where
  "locked s as = upd_space s as (asmtx_self_update (\<lambda>_. True))"

lemma locked_simps [simp]:
  "asmtx_self (spaces (locked s as) as)" "vma_head (spaces (locked s as) a) = vma_head (spaces s a)"
  "vm_p (spaces (locked s as) a) = vm_p (spaces s a)" "pgtbl (spaces (locked s as) a) = pgtbl (spaces s a)"
  "vmas (locked s as) = vmas s" "heap (locked s as) = heap s"
  by (simp_all add: locked_def upd_space_def)

lemma lock_space_ok: "\<not> asmtx_self (spaces s as) \<Longrightarrow> lock_space s as = Some (locked s as)"
  by (simp add: lock_space_def locked_def)

lemma unlock_space_ok:
  assumes "\<not> asmtx_self (spaces s as)"
  shows "unlock_space ((locked s as)\<lparr>heap := h, vmas := v\<rparr>) as = Some (s\<lparr>heap := h, vmas := v\<rparr>)" and "unlock_space (locked s as) as = Some s"
    and "unlock_space ((locked s as)\<lparr>heap := h\<rparr>) as = Some (s\<lparr>heap := h\<rparr>)"
proof -
  have "(spaces (locked s as))(as := (spaces (locked s as) as)\<lparr>asmtx_self := False\<rparr>) = spaces s"
    using assms by (auto simp: locked_def upd_space_def fun_eq_iff)
  then have "unlock_space s' as = Some (s'\<lparr>spaces := spaces s\<rparr>)" if "spaces s' = spaces (locked s as)" for s'
    using that by (simp add: unlock_space_def upd_space_def)
  then show "unlock_space ((locked s as)\<lparr>heap := h, vmas := v\<rparr>) as = Some (s\<lparr>heap := h, vmas := v\<rparr>)" "unlock_space (locked s as) as = Some s"
    "unlock_space ((locked s as)\<lparr>heap := h\<rparr>) as = Some (s\<lparr>heap := h\<rparr>)"
    by (simp_all add: locked_def upd_space_def)
qed

text \<open>\<open>vm_user_area_can_access\<close> always answers and leaves the address space as it was.  Unless the range runs over the end of memory, the
  answer is yes exactly when one region holds every byte of the range and its protection has a bit of the one asked for.
\<close>

theorem vm_user_area_can_access_spec:
  assumes "vm_p (spaces s as) \<noteq> kproc" "\<not> asmtx_self (spaces s as)" "regions_ok (vmas s) (vma_head (spaces s as))" "paged s as"
    and "0 < count" "unat start + unat count + 4096 \<le> 2 ^ 64"
  shows "\<exists>b. vm_user_area_can_access kproc s as start count prot = Some (b, s) \<and>
    (b \<longleftrightarrow> (\<exists>x \<in> set (vma_head (spaces s as)). vma_prot (vmas s x) AND prot \<noteq> 0 \<and>
        (\<forall>i < unat count. vma_start (vmas s x) \<le> start + of_nat i \<and> start + of_nat i < vma_end (vmas s x))))"
proof -
  let ?P = "\<lambda>x. \<forall>i < unat count. vma_start (vmas s x) \<le> start + of_nat i \<and> start + of_nat i < vma_end (vmas s x)"
  have u: "unat (start + of_nat i) = unat start + i" if "i < unat count" for i
    using that assms(6) by (simp add: unat_word_ariths unat_of_nat)
  have c: "0 < unat count" using assms(5) by (simp add: word_less_nat_alt)
  have bytes: "?P x \<longleftrightarrow> vma_start (vmas s x) \<le> start \<and> unat start + unat count \<le> unat (vma_end (vmas s x))" for x
  proof
    assume P: "?P x"
    have "start + of_nat (unat count - 1) < vma_end (vmas s x)" "vma_start (vmas s x) \<le> start + of_nat 0" using P c by (metis diff_less zero_less_one)+
    then show "vma_start (vmas s x) \<le> start \<and> unat start + unat count \<le> unat (vma_end (vmas s x))"
      using u [of "unat count - 1"] c by (simp add: word_less_nat_alt)
  qed (use u in \<open>auto simp: word_le_nat_alt word_less_nat_alt\<close>)
  have "paged (locked s as) as" using assms(4) by (simp add: paged_def)
  from can_access_eq [OF _ _ this assms(5,6), of prot] assms(1-3) show ?thesis
    by (simp add: vm_user_area_can_access_def lock_space_ok unlock_space_ok bytes)
qed

section \<open>The heap and the stack of a process\<close>

lemma find_pte_page:
  assumes "v < USER_VADDR_LIMIT"
  shows "find_pte p r (PAGE_START v) = find_pte p r v"
proof -
  have "PAGE_START v < USER_VADDR_LIMIT" using page_le(1) [of v] assms by (simp add: word_less_nat_alt)
  moreover have "PAGE_START (PAGE_START v) = PAGE_START v" by (rule PAGE_START_id [OF PAGE_START_aligned])
  ultimately have "table_path (PAGE_START v) = table_path v" "PT_INDEX (PAGE_START v) = PT_INDEX v"
    using same_page [OF assms, of "PAGE_START v"] by simp_all
  then show ?thesis by (simp only: find_pte_walk)
qed

lemma pages_added_translate:
  assumes P: "pages_added R p p' r v ks prot c" and inv: "pgtbl_inv p R" and r: "r \<in> R" and e: "unat e = unat v + 4096 * length ks"
  shows "\<And>i. i < length ks \<Longrightarrow> hal_translate_user_page p' r (v + of_nat (4096 * i)) = Some (0, Some (ks ! i, mapped_prot prot))"
    and "\<And>r' v'. r' \<in> R \<Longrightarrow> v' < USER_VADDR_LIMIT \<Longrightarrow> r' \<noteq> r \<or> \<not> (v \<le> v' \<and> v' < e) \<Longrightarrow>
      hal_translate_user_page p' r' v' = hal_translate_user_page p r' v'"
proof -
  have nz: "r \<noteq> 0" if "r \<in> R" for r using pgtbl_invD(3) [OF inv that user_path_Nil, of r] by simp
  note P = P [unfolded pages_added_def]
  show "hal_translate_user_page p' r (v + of_nat (4096 * i)) = Some (0, Some (ks ! i, mapped_prot prot))" if "i < length ks" for i
    using P that nz [OF r] by (auto simp: translate_find_pte simp del: of_nat_mult)
  show "hal_translate_user_page p' r' v' = hal_translate_user_page p r' v'"
    if h: "r' \<in> R" "v' < USER_VADDR_LIMIT" "r' \<noteq> r \<or> \<not> (v \<le> v' \<and> v' < e)" for r' v'
  proof -
    have "find_pte p' r' v' = find_pte p r' v'" using P h e by (auto simp: word_le_nat_alt word_less_nat_alt)
    then show ?thesis using nz [OF h(1)] by (simp add: translate_find_pte)
  qed
qed

definition grown_down :: "vmem \<Rightarrow> page_pool \<Rightarrow> u64 \<Rightarrow> u64 \<Rightarrow> vmem" where
  "grown_down s p x st = (set_pool s p)\<lparr>vmas := (vmas s)(x := (vmas s x)\<lparr>vma_start := st\<rparr>)\<rparr>"

text \<open>The region \<open>x\<close> is a stack with pages in all of its range.\<close>

definition stack_region :: "vmem \<Rightarrow> u64 \<Rightarrow> u64 \<Rightarrow> bool" where
  "stack_region s as x \<longleftrightarrow> x \<in> set (vma_head (spaces s as)) \<and> vma_as (vmas s x) = as \<and> vma_flags (vmas s x) = VMA_FLAG_STACK \<and>
     vma_prot (vmas s x) \<noteq> VMA_PROT_NONE \<and> page_aligned (vma_start (vmas s x)) \<and> page_aligned (vma_end (vmas s x)) \<and>
     vma_start (vmas s x) < USER_VADDR_LIMIT"

lemma stack_grow_ok:
  assumes inv: "pgtbl_inv (vm_pool s) R" and root: "pgtbl (spaces s as) \<in> R" and l: "asmtx_self (spaces s as)"
    and ok: "regions_ok (vmas s) (vma_head (spaces s as))" and x: "stack_region s as x"
    and b: "b < vma_start (vmas s x)" "PAGE_START b \<noteq> 0" and no: "\<forall>y \<in> set (vma_head (spaces s as)). \<not> vma_covers (vmas s y) (PAGE_START b)"
    and n: "unat (vma_start (vmas s x)) = unat (PAGE_START b) + 4096 * n" and f: "4 * n \<le> pool_free (vm_pool s)"
  shows "\<exists>p' ks. vm_resize_area s as (vma_start (vmas s x)) b = Some (0, Some (vma_start (vmas s x)), grown_down s p' x (PAGE_START b)) \<and> length ks = n \<and>
    pages_added R (vm_pool s) p' (pgtbl (spaces s as)) (PAGE_START b) ks (vma_prot (vmas s x)) (\<lambda>_ _. 0)"
proof -
  define r where "r = vmas s x"
  define st where "st = PAGE_START b"
  have X: "x \<in> set (vma_head (spaces s as))" "vma_as r = as" "vma_flags r = 2" "vma_prot r \<noteq> 0" "page_aligned (vma_start r)" "page_aligned (vma_end r)"
    "vma_start r < USER_VADDR_LIMIT" using x by (simp_all add: stack_region_def r_def)
  have se: "vma_start r \<le> vma_end r" using ok X(1) by (simp add: regions_ok_def r_def)
  have stb: "unat st \<le> unat b" "page_aligned st" using page_le(1) [of b] PAGE_START_aligned by (simp_all add: st_def)
  have lt: "st < vma_start r" using stb(1) b(1) by (simp add: word_less_nat_alt r_def)
  have bz: "b \<noteq> 0" using b(2) stb(1) by (auto simp: st_def unat_0_iff)
  have ee: "vma_start r = st + of_nat (4096 * n)"
    using n X(7) by (simp add: word_unat_eq_iff unat_word_ariths unat_of_nat word_less_nat_alt r_def st_def del: of_nat_mult)
  have lim: "unat st + 4096 * n \<le> unat USER_VADDR_LIMIT" using n X(7) by (simp add: r_def st_def word_less_nat_alt)
  from map_newpages_ok [OF inv root l X(4) f stb(2) lim, of st] obtain p' ks where
    p': "map_newpages s as st st (vma_start r) (vma_prot r) = Some (0, set_pool s p')" "length ks = n"
      "pages_added R (vm_pool s) p' (pgtbl (spaces s as)) st ks (vma_prot r) (\<lambda>_ _. 0)"
    unfolding ee [symmetric] by blast
  have ne: "\<not> vma_end r < st" "vma_start r \<noteq> st" using lt se by auto
  have rs: "resize_vma s x st (vma_end r) = Some (0, grown_down s p' x st)"
    using p'(1) l X(2,6) stb(2) lt ne b(2)
    by (simp add: resize_vma_def r_def [symmetric] map_newpage_range_def round_up_id PAGE_ALIGNED_iff Let_def upd_vma_def grown_down_def st_def [symmetric])
  have cov: "vma_covers r (vma_start r)" using se by (auto simp: vma_covers_def)
  have lims: "\<not> USER_VADDR_LIMIT \<le> vma_start r" "\<not> USER_VADDR_LIMIT \<le> b" "vma_start r \<noteq> 0"
    using X(7) b(1) lt by (auto simp: r_def)
  have start: "(if PAGE_ALIGNED b then b else PAGE_START b) = st" by (simp add: st_def PAGE_ALIGNED_iff PAGE_START_id)
  have "vm_resize_area s as (vma_start r) b = Some (0, Some (vma_start r), grown_down s p' x st)"
    using l lims bz X(3) vm_find_vma_nolock_eq(1) [OF l X(1) cov [unfolded r_def] ok] vm_find_vma_nolock_eq(2) [OF l no] rs
    unfolding vm_resize_area_def by (simp add: Let_def r_def [symmetric] start st_def [symmetric])
  then show ?thesis using p'(2,3) unfolding r_def st_def by blast
qed

lemma find_vma_cases:
  assumes l: "\<not> asmtx_self (spaces s as)" and ok: "regions_ok (vmas s) (vma_head (spaces s as))"
  shows "vm_find_vma s as v = (case find (\<lambda>x. vma_covers (vmas s x) v) (vma_head (spaces s as)) of None \<Rightarrow> Some (- ENOENT, None, s) | Some x \<Rightarrow> Some (0, Some x, s))"
  using l by (simp add: vm_find_vma_def lock_space_ok unlock_space_ok vm_find_vma_nolock_def split: option.split)

lemma find_vma_none:
  assumes "\<not> asmtx_self (spaces s as)" "regions_ok (vmas s) (vma_head (spaces s as))" "\<forall>y \<in> set (vma_head (spaces s as)). \<not> vma_covers (vmas s y) a"
  shows "vm_find_vma s as a = Some (- ENOENT, None, s)"
proof -
  have "find (\<lambda>x. vma_covers (vmas s x) a) (vma_head (spaces s as)) = None" using assms(3) by (auto simp: find_None_iff)
  then show ?thesis using find_vma_cases [OF assms(1,2), of a] by simp
qed

lemma page_fault_grows_stack:
  assumes inv: "pgtbl_inv (vm_pool s) R" and root: "pgtbl (spaces s as) \<in> R" and l: "\<not> asmtx_self (spaces s as)"
    and ok: "regions_ok (vmas s) (vma_head (spaces s as))" and x: "stack_region s as x"
    and pm: "pm_vm pm = as" "pm_heap pm = Some h" "pm_stack pm = Some x"
    and no: "\<forall>y \<in> set (vma_head (spaces s as)). \<not> vma_covers (vmas s y) a \<and> \<not> vma_covers (vmas s y) (PAGE_START a)"
    and gap: "vma_end (vmas s h) < a" "a < vma_start (vmas s x)" "PAGE_START a \<noteq> 0"
    and n: "unat (vma_start (vmas s x)) = unat (PAGE_START a) + 4096 * n" "4 * n \<le> pool_free (vm_pool s)"
  shows "\<exists>p' k. page_fault_exception s True pm a = Some (Fault_resume, grown_down s p' x (PAGE_START a)) \<and> pgtbl_inv p' R \<and>
        hal_translate_user_page p' (pgtbl (spaces s as)) a = Some (0, Some (k, mapped_prot (vma_prot (vmas s x)))) \<and>
        (k, 0) \<notin> pool_blocks (vm_pool s) \<and> (\<forall>z. z - k < PAGE_SIZE \<longrightarrow> mem p' z = 0) \<and>
        (\<forall>r \<in> R. \<forall>v < USER_VADDR_LIMIT. r \<noteq> pgtbl (spaces s as) \<or> \<not> (PAGE_START a \<le> v \<and> v < vma_start (vmas s x)) \<longrightarrow>
           hal_translate_user_page p' r v = hal_translate_user_page (vm_pool s) r v)"
proof -
  have x': "stack_region (locked s as) as x" using x by (simp add: stack_region_def)
  have "\<forall>y \<in> set (vma_head (spaces (locked s as) as)). \<not> vma_covers (vmas (locked s as) y) (PAGE_START a)" using no by simp
  from stack_grow_ok [where R = R and n = n, OF _ _ _ _ x' _ gap(3) this] inv root ok gap n obtain p' ks where
    p': "vm_resize_area (locked s as) as (vma_start (vmas s x)) a = Some (0, Some (vma_start (vmas s x)), grown_down (locked s as) p' x (PAGE_START a))"
      "length ks = n" "pages_added R (vm_pool s) p' (pgtbl (spaces s as)) (PAGE_START a) ks (vma_prot (vmas s x)) (\<lambda>_ _. 0)"
    by auto
  have "unlock_space (grown_down (locked s as) p' x (PAGE_START a)) as = Some (grown_down s p' x (PAGE_START a))"
    using unlock_space_ok(1) [OF l] by (simp add: grown_down_def set_pool_def)
  then have "proc_expand_stack s pm a = Some (0, grown_down s p' x (PAGE_START a))"
    using p'(1) vm_find_vma_nolock_eq(2) [of "locked s as" as a] no by (simp add: proc_expand_stack_def pm lock_space_ok [OF l])
  then have run: "page_fault_exception s True pm a = Some (Fault_resume, grown_down s p' x (PAGE_START a))"
    using find_vma_none [OF l ok] gap no by (simp add: page_fault_exception_def pm)
  have au: "a < USER_VADDR_LIMIT" using gap(2) x by (auto simp: stack_region_def)
  have n0: "0 < n" using page_le(1) [of a] gap(2) n(1) by (cases n) (auto simp: word_less_nat_alt)
  note P = p'(3) [unfolded pages_added_def p'(2)]
  note T = pages_added_translate [OF p'(3) inv root, unfolded p'(2), OF n(1)]
  have "hal_translate_user_page p' (pgtbl (spaces s as)) a = hal_translate_user_page p' (pgtbl (spaces s as)) (PAGE_START a)"
    by (simp add: hal_translate_user_page_def find_pte_page [OF au])
  then have "hal_translate_user_page p' (pgtbl (spaces s as)) a = Some (0, Some (ks ! 0, mapped_prot (vma_prot (vmas s x))))"
    using T(1) [OF n0] by simp
  moreover have "ks ! 0 \<in> set ks" using n0 p'(2) by simp
  ultimately show ?thesis using run P T(2) n0 by (intro exI [of _ p'] exI [of _ "ks ! 0"]) blast
qed

text \<open>Claim C16. 
  The page fault handler.  A fault of a user program between the end of the heap and the stack grows the stack down to
  the page of the fault, when this page is not the first of memory, no region holds its start and four free pages are left for each
  new page: the program goes on, and the
  address is then in a page that nobody used before, filled with zeros, with the protection of the stack (to which the page tables
  add reading and execution); no translation outside the new part of the stack changes.  A fault outside all regions and outside this gap ends the
  thread without effect.  A fault inside a region, for which the handler means to map a page, fails the assertion of \<open>vm_map_newpage\<close>
  that the address space is locked, and a fault of the kernel stops it.
\<close>

theorem page_fault_exception_spec:
  assumes inv: "pgtbl_inv (vm_pool s) R" and root: "pgtbl (spaces s as) \<in> R" and l: "\<not> asmtx_self (spaces s as)"
    and ok: "regions_ok (vmas s) (vma_head (spaces s as))" and x: "stack_region s as x"
    and pm: "pm_vm pm = as" "pm_heap pm = Some h" "pm_stack pm = Some x"
  shows "page_fault_exception s False pm a = None \<and>
    (if \<exists>y \<in> set (vma_head (spaces s as)). vma_covers (vmas s y) a then page_fault_exception s True pm a = None
     else if \<not> (vma_end (vmas s h) < a \<and> a < vma_start (vmas s x)) then page_fault_exception s True pm a = Some (Fault_exit, s)
     else (\<forall>y \<in> set (vma_head (spaces s as)). \<not> vma_covers (vmas s y) (PAGE_START a)) \<longrightarrow> PAGE_START a \<noteq> 0 \<longrightarrow>
       (\<forall>n. unat (vma_start (vmas s x)) = unat (PAGE_START a) + 4096 * n \<longrightarrow> 4 * n \<le> pool_free (vm_pool s) \<longrightarrow>
      (\<exists>p' k. page_fault_exception s True pm a = Some (Fault_resume, grown_down s p' x (PAGE_START a)) \<and> pgtbl_inv p' R \<and>
        hal_translate_user_page p' (pgtbl (spaces s as)) a = Some (0, Some (k, mapped_prot (vma_prot (vmas s x)))) \<and>
        (k, 0) \<notin> pool_blocks (vm_pool s) \<and> (\<forall>z. z - k < PAGE_SIZE \<longrightarrow> mem p' z = 0) \<and>
        (\<forall>r \<in> R. \<forall>v < USER_VADDR_LIMIT. r \<noteq> pgtbl (spaces s as) \<or> \<not> (PAGE_START a \<le> v \<and> v < vma_start (vmas s x)) \<longrightarrow>
           hal_translate_user_page p' r v = hal_translate_user_page (vm_pool s) r v))))"
proof (intro conjI)
  let ?q = "vma_head (spaces s as)"
  show "page_fault_exception s False pm a = None" by (simp add: page_fault_exception_def)
  consider (region) "\<exists>y \<in> set ?q. vma_covers (vmas s y) a" | (out) "\<forall>y \<in> set ?q. \<not> vma_covers (vmas s y) a" "\<not> (vma_end (vmas s h) < a \<and> a < vma_start (vmas s x))"
    | (gap) "\<forall>y \<in> set ?q. \<not> vma_covers (vmas s y) a" "vma_end (vmas s h) < a" "a < vma_start (vmas s x)" by blast
  then show "if \<exists>y \<in> set ?q. vma_covers (vmas s y) a then page_fault_exception s True pm a = None
     else if \<not> (vma_end (vmas s h) < a \<and> a < vma_start (vmas s x)) then page_fault_exception s True pm a = Some (Fault_exit, s)
     else (\<forall>y \<in> set ?q. \<not> vma_covers (vmas s y) (PAGE_START a)) \<longrightarrow> PAGE_START a \<noteq> 0 \<longrightarrow>
       (\<forall>n. unat (vma_start (vmas s x)) = unat (PAGE_START a) + 4096 * n \<longrightarrow> 4 * n \<le> pool_free (vm_pool s) \<longrightarrow>
      (\<exists>p' k. page_fault_exception s True pm a = Some (Fault_resume, grown_down s p' x (PAGE_START a)) \<and> pgtbl_inv p' R \<and>
        hal_translate_user_page p' (pgtbl (spaces s as)) a = Some (0, Some (k, mapped_prot (vma_prot (vmas s x)))) \<and>
        (k, 0) \<notin> pool_blocks (vm_pool s) \<and> (\<forall>z. z - k < PAGE_SIZE \<longrightarrow> mem p' z = 0) \<and>
        (\<forall>r \<in> R. \<forall>v < USER_VADDR_LIMIT. r \<noteq> pgtbl (spaces s as) \<or> \<not> (PAGE_START a \<le> v \<and> v < vma_start (vmas s x)) \<longrightarrow>
           hal_translate_user_page p' r v = hal_translate_user_page (vm_pool s) r v)))"
  proof cases
    case region
    then have "find (\<lambda>x. vma_covers (vmas s x) a) ?q \<noteq> None" by (auto simp: find_None_iff)
    then have "page_fault_exception s True pm a = None"
      using find_vma_cases [OF l ok, of a] map_newpage_unlocked [OF l] by (auto simp: page_fault_exception_def pm(1))
    then show ?thesis using region by simp
  next
    case out
    then have "page_fault_exception s True pm a = Some (Fault_exit, s)"
      using find_vma_none [OF l ok out(1)] by (auto simp: page_fault_exception_def pm)
    then show ?thesis using out by auto
  next
    case gap
    have b: "\<not> (\<exists>y \<in> set ?q. vma_covers (vmas s y) a)" "\<not> \<not> (vma_end (vmas s h) < a \<and> a < vma_start (vmas s x))" using gap by auto
    show ?thesis unfolding if_not_P [OF b(1)] if_not_P [OF b(2)]
      using page_fault_grows_stack [OF inv root l ok x pm _ gap(2,3)] gap(1) by blast
  qed
qed

text \<open>The region \<open>x\<close> is a heap.\<close>

definition heap_region :: "vmem \<Rightarrow> u64 \<Rightarrow> u64 \<Rightarrow> bool" where
  "heap_region s as x \<longleftrightarrow> x \<in> set (vma_head (spaces s as)) \<and> vma_as (vmas s x) = as \<and> vma_flags (vmas s x) AND VMA_FLAG_HEAP \<noteq> 0 \<and>
     vma_prot (vmas s x) \<noteq> VMA_PROT_NONE \<and> page_aligned (vma_start (vmas s x)) \<and> page_aligned (vma_end (vmas s x)) \<and>
     vma_start (vmas s x) \<noteq> 0"

lemma expand_heap_ask:
  assumes "\<not> asmtx_self (spaces s (pm_vm pm))" "pm_heap pm = Some x"
  shows "proc_expand_heap s pm 0 = Some (0, Some (vma_end (vmas s x)), s)"
  using assms by (simp add: proc_expand_heap_def lock_space_ok unlock_space_ok)

lemma expand_heap_ok:
  assumes inv: "pgtbl_inv (vm_pool s) R" and root: "pgtbl (spaces s as) \<in> R" and l: "\<not> asmtx_self (spaces s as)"
    and ok: "regions_ok (vmas s) (vma_head (spaces s as))" and x: "heap_region s as x" and pm: "pm_vm pm = as" "pm_heap pm = Some x"
    and e: "page_aligned e" "e < USER_VADDR_LIMIT" "vma_end (vmas s x) < e" and no: "\<forall>y \<in> set (vma_head (spaces s as)). \<not> vma_covers (vmas s y) e"
    and n: "unat e = unat (vma_end (vmas s x)) + 4096 * n" "4 * n \<le> pool_free (vm_pool s)"
  shows "\<exists>p' ks. proc_expand_heap s pm e = Some (0, Some (vma_end (vmas s x)), grown s p' x e) \<and> length ks = n \<and>
    pages_added R (vm_pool s) p' (pgtbl (spaces s as)) (vma_end (vmas s x)) ks (vma_prot (vmas s x)) (\<lambda>_ _. 0)"
proof -
  let ?s = "locked s as" and ?a = "vma_start (vmas s x)"
  have X: "x \<in> set (vma_head (spaces s as))" "vma_as (vmas s x) = as" "vma_flags (vmas s x) AND VMA_FLAG_HEAP \<noteq> 0" "vma_prot (vmas s x) \<noteq> VMA_PROT_NONE"
    "page_aligned (vma_start (vmas s x))" "page_aligned (vma_end (vmas s x))" "vma_start (vmas s x) \<noteq> 0" using x by (simp_all add: heap_region_def)
  have se: "?a \<le> vma_end (vmas s x)" using ok X(1) by (simp add: regions_ok_def)
  have cov: "vma_covers (vmas s x) ?a" "?a < USER_VADDR_LIMIT" using se e(2,3) by (auto simp: vma_covers_def)
  from heap_grow_ok [of ?s R as x ?a e n] inv root ok X cov e no n obtain p' ks where
    p': "vm_resize_area ?s as ?a e = Some (0, Some (vma_end (vmas s x)), grown ?s p' x e)" "length ks = n"
      "pages_added R (vm_pool s) p' (pgtbl (spaces s as)) (vma_end (vmas s x)) ks (vma_prot (vmas s x)) (\<lambda>_ _. 0)"
    by (auto simp: round_up_id)
  have "unlock_space (grown ?s p' x e) as = Some (grown s p' x e)"
    using unlock_space_ok(1) [OF l] by (simp add: grown_def set_pool_def)
  moreover have "e \<noteq> 0" using e(3) by auto
  ultimately have "proc_expand_heap s pm e = Some (0, Some (vma_end (vmas s x)), grown s p' x e)"
    using p'(1) by (simp add: proc_expand_heap_def pm lock_space_ok [OF l])
  then show ?thesis using p'(2,3) by blast
qed

lemma sbrk_grows:
  assumes inv: "pgtbl_inv (vm_pool s) R" and root: "pgtbl (spaces s as) \<in> R" and l: "\<not> asmtx_self (spaces s as)"
    and ok: "regions_ok (vmas s) (vma_head (spaces s as))" and x: "heap_region s as x" and pm: "pm_vm pm = as" "pm_heap pm = Some x"
    and e: "e = round_up (vma_end (vmas s x) + inc)" "inc \<noteq> 0"
    and h: "\<not> e < vma_start (vmas s x)" "vma_end (vmas s x) < e" "page_aligned e" "e < USER_VADDR_LIMIT"
      "\<forall>y \<in> set (vma_head (spaces s as)). \<not> vma_covers (vmas s y) e" "unat e = unat (vma_end (vmas s x)) + 4096 * n" "4 * n \<le> pool_free (vm_pool s)"
  shows "\<exists>p' ks. handle_sbrk s (Some pm) inc = Some (0, Some (vma_end (vmas s x)), grown s p' x e) \<and> pgtbl_inv p' R \<and> length ks = n \<and> distinct ks \<and>
         (\<forall>k \<in> set ks. (k, 0) \<notin> pool_blocks (vm_pool s) \<and> (\<forall>z. z - k < PAGE_SIZE \<longrightarrow> mem p' z = 0)) \<and>
         (\<forall>i < n. hal_translate_user_page p' (pgtbl (spaces s as)) (vma_end (vmas s x) + of_nat (4096 * i)) = Some (0, Some (ks ! i, mapped_prot (vma_prot (vmas s x))))) \<and>
         (\<forall>r \<in> R. \<forall>v < USER_VADDR_LIMIT. r \<noteq> pgtbl (spaces s as) \<or> \<not> (vma_end (vmas s x) \<le> v \<and> v < e) \<longrightarrow>
           hal_translate_user_page p' r v = hal_translate_user_page (vm_pool s) r v)"
proof -
  from expand_heap_ok [OF inv root l ok x pm h(3,4,2,5,6,7)] obtain p' ks where
    p': "proc_expand_heap s pm e = Some (0, Some (vma_end (vmas s x)), grown s p' x e)" "length ks = n"
    "pages_added R (vm_pool s) p' (pgtbl (spaces s as)) (vma_end (vmas s x)) ks (vma_prot (vmas s x)) (\<lambda>_ _. 0)" by blast
  have "proc_expand_heap s pm 0 = Some (0, Some (vma_end (vmas s x)), s)" using expand_heap_ask l pm by simp
  then have "handle_sbrk s (Some pm) inc = Some (0, Some (vma_end (vmas s x)), grown s p' x e)"
    using p'(1) h(1) e by (simp add: handle_sbrk_def pm Let_def)
  moreover have "\<forall>k \<in> set ks. (k, 0) \<notin> pool_blocks (vm_pool s) \<and> (\<forall>z. z - k < PAGE_SIZE \<longrightarrow> mem p' z = 0)"
    using p'(3) by (auto simp: pages_added_def in_set_conv_nth)
  ultimately show ?thesis
    using p'(2) p'(3) [unfolded pages_added_def p'(2)] pages_added_translate [OF p'(3) inv root, unfolded p'(2), OF h(6)]
    by (intro exI [of _ p'] exI [of _ ks]) blast
qed

text \<open>Claim C17. 
  \<open>sbrk\<close>: a request of an unknown thread is answered with \<^verbatim>\<open>-ENOENT\<close>, an increment of 0 with the end of the heap.  A positive increment
  moves the end of the heap up to the next page boundary, when that is below the user limit, no region holds the new end and four free pages are left
  for each new page: the answer
  is the old end, and from there to the new end every page is a page of its own, filled with zeros, with the protection of the heap (to which the
  page tables add reading and execution); no other translation changes.  When the new end lies below the start of
  the heap the answer is \<^verbatim>\<open>-EINVAL\<close> without effect.
\<close>

theorem handle_sbrk_spec:
  assumes inv: "pgtbl_inv (vm_pool s) R" and root: "pgtbl (spaces s as) \<in> R" and l: "\<not> asmtx_self (spaces s as)"
    and ok: "regions_ok (vmas s) (vma_head (spaces s as))" and x: "heap_region s as x" and pm: "pm_vm pm = as" "pm_heap pm = Some x"
    and e: "e = round_up (vma_end (vmas s x) + inc)" "inc \<noteq> 0"
  shows "handle_sbrk s None inc = Some (- ENOENT, None, s) \<and> handle_sbrk s (Some pm) 0 = Some (0, Some (vma_end (vmas s x)), s) \<and>
    (if e < vma_start (vmas s x) then handle_sbrk s (Some pm) inc = Some (- EINVAL, None, s)
     else \<forall>n. vma_end (vmas s x) < e \<longrightarrow> page_aligned e \<longrightarrow> e < USER_VADDR_LIMIT \<longrightarrow> (\<forall>y \<in> set (vma_head (spaces s as)). \<not> vma_covers (vmas s y) e) \<longrightarrow>
       unat e = unat (vma_end (vmas s x)) + 4096 * n \<longrightarrow> 4 * n \<le> pool_free (vm_pool s) \<longrightarrow>
       (\<exists>p' ks. handle_sbrk s (Some pm) inc = Some (0, Some (vma_end (vmas s x)), grown s p' x e) \<and> pgtbl_inv p' R \<and> length ks = n \<and> distinct ks \<and>
         (\<forall>k \<in> set ks. (k, 0) \<notin> pool_blocks (vm_pool s) \<and> (\<forall>z. z - k < PAGE_SIZE \<longrightarrow> mem p' z = 0)) \<and>
         (\<forall>i < n. hal_translate_user_page p' (pgtbl (spaces s as)) (vma_end (vmas s x) + of_nat (4096 * i)) = Some (0, Some (ks ! i, mapped_prot (vma_prot (vmas s x))))) \<and>
         (\<forall>r \<in> R. \<forall>v < USER_VADDR_LIMIT. r \<noteq> pgtbl (spaces s as) \<or> \<not> (vma_end (vmas s x) \<le> v \<and> v < e) \<longrightarrow>
           hal_translate_user_page p' r v = hal_translate_user_page (vm_pool s) r v)))"
proof (intro conjI)
  have ask: "proc_expand_heap s pm 0 = Some (0, Some (vma_end (vmas s x)), s)" using expand_heap_ask l pm by simp
  show "handle_sbrk s None inc = Some (- ENOENT, None, s)" by (simp add: handle_sbrk_def)
  show "handle_sbrk s (Some pm) 0 = Some (0, Some (vma_end (vmas s x)), s)" using ask by (simp add: handle_sbrk_def)
  show "if e < vma_start (vmas s x) then handle_sbrk s (Some pm) inc = Some (- EINVAL, None, s)
     else \<forall>n. vma_end (vmas s x) < e \<longrightarrow> page_aligned e \<longrightarrow> e < USER_VADDR_LIMIT \<longrightarrow> (\<forall>y \<in> set (vma_head (spaces s as)). \<not> vma_covers (vmas s y) e) \<longrightarrow>
       unat e = unat (vma_end (vmas s x)) + 4096 * n \<longrightarrow> 4 * n \<le> pool_free (vm_pool s) \<longrightarrow> (\<exists>p' ks. handle_sbrk s (Some pm) inc = Some (0, Some (vma_end (vmas s x)), grown s p' x e) \<and> pgtbl_inv p' R \<and> length ks = n \<and> distinct ks \<and>
         (\<forall>k \<in> set ks. (k, 0) \<notin> pool_blocks (vm_pool s) \<and> (\<forall>z. z - k < PAGE_SIZE \<longrightarrow> mem p' z = 0)) \<and>
         (\<forall>i < n. hal_translate_user_page p' (pgtbl (spaces s as)) (vma_end (vmas s x) + of_nat (4096 * i)) = Some (0, Some (ks ! i, mapped_prot (vma_prot (vmas s x))))) \<and>
         (\<forall>r \<in> R. \<forall>v < USER_VADDR_LIMIT. r \<noteq> pgtbl (spaces s as) \<or> \<not> (vma_end (vmas s x) \<le> v \<and> v < e) \<longrightarrow>
           hal_translate_user_page p' r v = hal_translate_user_page (vm_pool s) r v))"
  proof (cases "e < vma_start (vmas s x)")
    case True
    then have "handle_sbrk s (Some pm) inc = Some (- EINVAL, None, s)" using ask e by (simp add: handle_sbrk_def pm Let_def)
    then show ?thesis using True by simp
  next
    case False
    show ?thesis unfolding if_not_P [OF False] by (intro allI impI) (rule sbrk_grows [OF inv root l ok x pm e False])
  qed
qed

section \<open>Copies\<close>

lemma set_bytes_simps [simp]:
  "set_bytes (set_bytes s m) m' = set_bytes s m'" "mem (vm_pool (set_bytes s m)) = m" "spaces (set_bytes s m) = spaces s" "vmas (set_bytes s m) = vmas s"
  "set_bytes s (mem (vm_pool s)) = s"
  by (simp_all add: set_bytes_def set_pool_def)

lemma byte_addr_outside:
  assumes "pgtbl_inv (vm_pool s) R" "pgtbl (spaces s as) \<in> R" "\<And>t x. t \<in> tables_of (vm_pool s) R \<Longrightarrow> x - t < PAGE_SIZE \<Longrightarrow> m x = mem (vm_pool s) x"
    and "a < USER_VADDR_LIMIT \<or> KERN_VMA_BASE \<le> a"
  shows "byte_addr as (set_bytes s m) a = byte_addr as s a"
proof (cases "KERN_VMA_BASE \<le> a")
  case False
  then have "find_pte ((vm_pool s)\<lparr>mem := m\<rparr>) (pgtbl (spaces s as)) a = find_pte (vm_pool s) (pgtbl (spaces s as)) a"
    using walk_outside(2) [OF assms(1,2)] assms(3,4) by blast
  then show ?thesis by (simp add: byte_addr_def set_bytes_def hal_translate_user_page_def)
qed (simp add: byte_addr_def)

text \<open>
  A copy whose bytes are at \<open>ks\<close> and go to \<open>kd\<close>, where the destination meets neither the source nor a page table.
\<close>

lemma memcpy_virt_ok:
  assumes src: "\<And>m i. (\<forall>x. x \<notin> kd ` {..<N} \<longrightarrow> m x = mem (vm_pool s) x) \<Longrightarrow> i < N \<Longrightarrow> byte_addr as (set_bytes s m) (src + of_nat i) = Some (ks i)"
    and dest: "\<And>m i. (\<forall>x. x \<notin> kd ` {..<N} \<longrightarrow> m x = mem (vm_pool s) x) \<Longrightarrow> i < N \<Longrightarrow> byte_addr as (set_bytes s m) (dest + of_nat i) = Some (kd i)"
    and apart: "\<And>i. i < N \<Longrightarrow> ks i \<notin> kd ` {..<N}" and inj: "inj_on kd {..<N}"
  shows "j + n = N \<Longrightarrow> (\<forall>x. x \<notin> kd ` {..<N} \<longrightarrow> m x = mem (vm_pool s) x) \<Longrightarrow>
    \<exists>m'. memcpy_virt n as (set_bytes s m) (dest + of_nat j) (src + of_nat j) = Some (set_bytes s m') \<and>
      (\<forall>x. x \<notin> kd ` {..<N} \<longrightarrow> m' x = mem (vm_pool s) x) \<and> (\<forall>i. j \<le> i \<and> i < N \<longrightarrow> m' (kd i) = mem (vm_pool s) (ks i)) \<and> (\<forall>i < j. m' (kd i) = m (kd i))"
proof (induction n arbitrary: j m)
  case 0
  then show ?case by auto
next
  case (Suc n)
  define m1 where "m1 = m(kd j := m (ks j))"
  have j: "j < N" using Suc.prems(1) by simp
  have m1: "\<forall>x. x \<notin> kd ` {..<N} \<longrightarrow> m1 x = mem (vm_pool s) x" using Suc.prems(2) j by (auto simp: m1_def)
  have jn: "Suc j + n = N" using Suc.prems(1) by simp
  from Suc.IH [OF jn m1] obtain m' where r: "memcpy_virt n as (set_bytes s m1) (dest + of_nat (Suc j)) (src + of_nat (Suc j)) = Some (set_bytes s m')"
    "\<forall>x. x \<notin> kd ` {..<N} \<longrightarrow> m' x = mem (vm_pool s) x" "\<forall>i. Suc j \<le> i \<and> i < N \<longrightarrow> m' (kd i) = mem (vm_pool s) (ks i)" "\<forall>i < Suc j. m' (kd i) = m1 (kd i)" by blast
  have "memcpy_virt (Suc n) as (set_bytes s m) (dest + of_nat j) (src + of_nat j) = Some (set_bytes s m')"
    using r(1) src [OF Suc.prems(2) j] dest [OF Suc.prems(2) j] by (simp add: m1_def add.commute add.left_commute)
  moreover have "m' (kd j) = mem (vm_pool s) (ks j)" using r(4) apart [OF j] Suc.prems(2) by (simp add: m1_def)
  moreover have "m' (kd i) = m (kd i)" if "i < j" for i
    using r(4) that j inj_onD [OF inj, of i j] by (auto simp: m1_def)
  ultimately show ?case using r(2,3) by (metis Suc_leI le_neq_implies_less)
qed

text \<open>
  The bytes of a range of user memory: below the user limit, one region with the asked protection holds them, and they lie at
  \<open>k\<close>, outside the page tables.
\<close>

definition user_bytes :: "vmem \<Rightarrow> u64 set \<Rightarrow> u64 \<Rightarrow> u64 \<Rightarrow> nat \<Rightarrow> u32 \<Rightarrow> (nat \<Rightarrow> u64) \<Rightarrow> bool" where
  "user_bytes s R as a n prot k \<longleftrightarrow> unat a + n \<le> unat USER_VADDR_LIMIT \<and>
     (\<exists>x \<in> set (vma_head (spaces s as)). vma_prot (vmas s x) AND prot \<noteq> 0 \<and> vma_start (vmas s x) \<le> a \<and> unat a + n \<le> unat (vma_end (vmas s x))) \<and>
     (\<forall>i < n. byte_addr as s (a + of_nat i) = Some (k i) \<and> (\<forall>t \<in> tables_of (vm_pool s) R. PAGE_SIZE \<le> k i - t))"

text \<open>A range of kernel memory outside the page tables.\<close>

definition kernel_bytes :: "vmem \<Rightarrow> u64 set \<Rightarrow> u64 \<Rightarrow> nat \<Rightarrow> bool" where
  "kernel_bytes s R a n \<longleftrightarrow> KERN_VMA_BASE \<le> a \<and> unat a + n \<le> 2 ^ 64 \<and> (\<forall>i < n. \<forall>t \<in> tables_of (vm_pool s) R. PAGE_SIZE \<le> a + of_nat i - t)"

lemma kernel_bytesD:
  assumes "kernel_bytes s R a n" "i < n"
  shows "unat (a + of_nat i) = unat a + i" "KERN_VMA_BASE \<le> a + of_nat i" "byte_addr as s' (a + of_nat i) = Some (a + of_nat i)"
proof -
  show u: "unat (a + of_nat i) = unat a + i" using assms by (simp add: kernel_bytes_def unat_word_ariths unat_of_nat)
  then show k: "KERN_VMA_BASE \<le> a + of_nat i" using assms by (simp add: kernel_bytes_def word_le_nat_alt)
  then show "byte_addr as s' (a + of_nat i) = Some (a + of_nat i)" by (simp add: byte_addr_def)
qed

lemma kernel_bytes_inj: "kernel_bytes s R a n \<Longrightarrow> inj_on (\<lambda>i. a + of_nat i) {..<n}"
  by (rule inj_onI) (metis add_left_cancel kernel_bytesD(1) lessThan_iff)

lemma user_bytes_addr:
  assumes "user_bytes s R as a n prot k" "i < n" "pgtbl_inv (vm_pool s) R" "pgtbl (spaces s as) \<in> R"
    and "\<And>t x. t \<in> tables_of (vm_pool s) R \<Longrightarrow> x - t < PAGE_SIZE \<Longrightarrow> m x = mem (vm_pool s) x"
  shows "byte_addr as (set_bytes s m) (a + of_nat i) = Some (k i)"
proof -
  have "unat (a + of_nat i) = unat a + i" using assms(1,2) by (simp add: user_bytes_def unat_word_ariths unat_of_nat)
  then have "a + of_nat i < USER_VADDR_LIMIT" using assms(1,2) by (simp add: user_bytes_def word_less_nat_alt)
  then show ?thesis using byte_addr_outside [OF assms(3,4), of m] assms(1,2,5) by (simp add: user_bytes_def)
qed

lemma count_int:
  fixes c :: u64
  assumes "unat c < 2 ^ 31"
  shows "sint (ucast c :: 32 word) = int (unat c)"
proof -
  have "(ucast c :: 32 word) = of_nat (unat c)" by (simp only: of_nat_unat)
  moreover have "sint (of_nat (unat c) :: 32 word) = signed_take_bit 31 (int (unat c))" by (simp only: signed_of_nat) simp
  moreover have "int (unat c) < 2 ^ 31" using assms by (metis of_nat_less_iff of_nat_numeral of_nat_power)
  moreover have "- (2 ^ 31) \<le> int (unat c)" by (rule order_trans [of _ 0]) simp_all
  ultimately have "sint (ucast c :: 32 word) = signed_take_bit 31 (int (unat c))" "signed_take_bit 31 (int (unat c)) = int (unat c)"
    by (simp_all only: signed_take_bit_int_eq_self)
  then show ?thesis by (simp only:)
qed

lemma copy_locked_ok:
  assumes own: "vm_p (spaces s as) \<noteq> kproc" "\<not> asmtx_self (spaces s as)" and ok: "regions_ok (vmas s) (vma_head (spaces s as))" "paged s as"
    and c: "0 < count" "unat count < 2 ^ 31" and ub: "user_bytes s R as a (unat count) prot k" and t: "pgtbl_inv (vm_pool s) R" "pgtbl (spaces s as) \<in> R"
    and src: "\<And>m i. (\<forall>x. x \<notin> kd ` {..<unat count} \<longrightarrow> m x = mem (vm_pool s) x) \<Longrightarrow> i < unat count \<Longrightarrow> byte_addr as (set_bytes s m) (src + of_nat i) = Some (ks i)"
    and dest: "\<And>m i. (\<forall>x. x \<notin> kd ` {..<unat count} \<longrightarrow> m x = mem (vm_pool s) x) \<Longrightarrow> i < unat count \<Longrightarrow> byte_addr as (set_bytes s m) (dest + of_nat i) = Some (kd i)"
    and apart: "\<And>i. i < unat count \<Longrightarrow> ks i \<notin> kd ` {..<unat count}" and inj: "inj_on kd {..<unat count}"
  shows "\<exists>m'. copy_locked kproc as s as a prot dest src count = Some (int (unat count), set_bytes s m') \<and>
    (\<forall>x. x \<notin> kd ` {..<unat count} \<longrightarrow> m' x = mem (vm_pool s) x) \<and> (\<forall>i < unat count. m' (kd i) = mem (vm_pool s) (ks i))"
proof -
  have lk: "byte_addr as (set_bytes (locked s as) m) = byte_addr as (set_bytes s m)" for m
    by (rule ext) (simp add: byte_addr_def set_bytes_def)
  have "\<exists>m'. memcpy_virt (unat count) as (set_bytes (locked s as) (mem (vm_pool s))) (dest + of_nat 0) (src + of_nat 0) = Some (set_bytes (locked s as) m') \<and>
      (\<forall>x. x \<notin> kd ` {..<unat count} \<longrightarrow> m' x = mem (vm_pool (locked s as)) x) \<and> (\<forall>i. 0 \<le> i \<and> i < unat count \<longrightarrow> m' (kd i) = mem (vm_pool (locked s as)) (ks i)) \<and>
      (\<forall>i < 0. m' (kd i) = mem (vm_pool s) (kd i))"
    by (rule memcpy_virt_ok) (use src dest apart inj lk in auto)
  then obtain m' where m': "memcpy_virt (unat count) as (locked s as) dest src = Some (set_bytes (locked s as) m')"
    "\<forall>x. x \<notin> kd ` {..<unat count} \<longrightarrow> m' x = mem (vm_pool s) x" "\<forall>i < unat count. m' (kd i) = mem (vm_pool s) (ks i)"
    using set_bytes_simps(5) [of "locked s as"] by auto
  have "paged (locked s as) as" using ok(2) by (simp add: paged_def)
  moreover have ul: "unat a + unat count + 4096 \<le> 2 ^ 64" "a < KERN_VMA_BASE" using ub c(1) by (auto simp: user_bytes_def word_less_nat_alt)
  ultimately have acc: "user_area_can_access_nolock (locked s as) as a count prot = Some True"
    using can_access_eq [of "locked s as" as count a prot] ok(1) c(1) ub by (auto simp: user_bytes_def)
  have na: "\<not> KERN_VMA_BASE \<le> a" using ul(2) by (simp only: not_le)
  have un: "unlock_space (set_bytes (locked s as) m') as = Some (set_bytes s m')"
    using unlock_space_ok(3) [OF own(2)] by (simp add: set_bytes_def set_pool_def)
  have ct: "sint (ucast count :: 32 word) = int (unat count)" using count_int [OF c(2)] .
  have "copy_locked kproc as s as a prot dest src count = Some (int (unat count), set_bytes s m')"
    using acc m'(1) un ct own na by (simp add: copy_locked_def lock_space_ok)
  then show ?thesis using m'(2,3) by blast
qed

lemma copy_in_ok:
  assumes own: "vm_p (spaces s as) \<noteq> 0" "vm_p (spaces s as) \<noteq> kproc" "\<not> asmtx_self (spaces s as)" and ok: "regions_ok (vmas s) (vma_head (spaces s as))" "paged s as"
    and t: "pgtbl_inv (vm_pool s) R" "pgtbl (spaces s as) \<in> R" and c: "0 < count" "unat count < 2 ^ 31"
    and ub: "user_bytes s R as a (unat count) VMA_PROT_R k" and kb: "kernel_bytes s R buf (unat count)"
    and apart: "\<And>i j. i < unat count \<Longrightarrow> j < unat count \<Longrightarrow> k i \<noteq> buf + of_nat j"
  shows "\<exists>m'. vm_copy_in kproc cur_p as s as buf a count = Some (int (unat count), set_bytes s m') \<and>
    (\<forall>x. x \<notin> (\<lambda>i. buf + of_nat i) ` {..<unat count} \<longrightarrow> m' x = mem (vm_pool s) x) \<and> (\<forall>i < unat count. m' (buf + of_nat i) = mem (vm_pool s) (k i))"
proof -
  let ?D = "(\<lambda>i. buf + of_nat i) ` {..<unat count}"
  have src: "byte_addr as (set_bytes s m) (a + of_nat i) = Some (k i)" if m: "\<forall>x. x \<notin> ?D \<longrightarrow> m x = mem (vm_pool s) x" and i: "i < unat count" for m i
  proof (rule user_bytes_addr [OF ub i t])
    fix u x assume "u \<in> tables_of (vm_pool s) R" "x - u < PAGE_SIZE"
    then have "x \<notin> ?D" using kb unfolding kernel_bytes_def by (metis (no_types, lifting) imageE lessThan_iff leD)
    then show "m x = mem (vm_pool s) x" using m by blast
  qed
  have "KERN_VMA_BASE \<le> buf" using kb by (simp add: kernel_bytes_def)
  then have "vm_copy_in kproc cur_p as s as buf a count = copy_locked kproc as s as a VMA_PROT_R buf a count" using own by (auto simp: vm_copy_in_def)
  moreover have "k i \<notin> ?D" if "i < unat count" for i using apart that by blast
  ultimately show ?thesis
    using copy_locked_ok [OF own(2,3) ok c ub t src kernel_bytesD(3) [OF kb] _ kernel_bytes_inj [OF kb]] by simp
qed

lemma copy_out_ok:
  assumes own: "vm_p (spaces s as) \<noteq> 0" "vm_p (spaces s as) \<noteq> kproc" "\<not> asmtx_self (spaces s as)" and ok: "regions_ok (vmas s) (vma_head (spaces s as))" "paged s as"
    and t: "pgtbl_inv (vm_pool s) R" "pgtbl (spaces s as) \<in> R" and c: "0 < count" "unat count < 2 ^ 31"
    and ub: "user_bytes s R as a (unat count) VMA_PROT_W k" and kb: "kernel_bytes s R buf (unat count)"
    and apart: "\<And>i j. i < unat count \<Longrightarrow> j < unat count \<Longrightarrow> k i \<noteq> buf + of_nat j" and inj: "inj_on k {..<unat count}"
  shows "\<exists>m'. vm_copy_out kproc cur_p as s as a buf count = Some (int (unat count), set_bytes s m') \<and>
    (\<forall>x. x \<notin> k ` {..<unat count} \<longrightarrow> m' x = mem (vm_pool s) x) \<and> (\<forall>i < unat count. m' (k i) = mem (vm_pool s) (buf + of_nat i))"
proof -
  let ?D = "k ` {..<unat count}"
  have dest: "byte_addr as (set_bytes s m) (a + of_nat i) = Some (k i)" if m: "\<forall>x. x \<notin> ?D \<longrightarrow> m x = mem (vm_pool s) x" and i: "i < unat count" for m i
  proof (rule user_bytes_addr [OF ub i t])
    fix u x assume "u \<in> tables_of (vm_pool s) R" "x - u < PAGE_SIZE"
    then have "x \<notin> ?D" using ub unfolding user_bytes_def by (metis (no_types, lifting) imageE lessThan_iff leD)
    then show "m x = mem (vm_pool s) x" using m by blast
  qed
  have "KERN_VMA_BASE \<le> buf" using kb by (simp add: kernel_bytes_def)
  then have "vm_copy_out kproc cur_p as s as a buf count = copy_locked kproc as s as a VMA_PROT_W a buf count" using own by (auto simp: vm_copy_out_def)
  moreover have "buf + of_nat i \<notin> ?D" if "i < unat count" for i using apart that by (metis imageE lessThan_iff)
  ultimately show ?thesis
    using copy_locked_ok [where kd = k and ks = "\<lambda>i. buf + of_nat i" and dest = a and src = buf, OF own(2,3) ok c ub t kernel_bytesD(3) [OF kb] dest _ inj]
    by presburger
qed

lemma copy_refused:
  assumes own: "vm_p (spaces s as) \<noteq> 0" "vm_p (spaces s as) \<noteq> kproc" "\<not> asmtx_self (spaces s as)" and ok: "regions_ok (vmas s) (vma_head (spaces s as))" "paged s as"
    and c: "0 < count" "unat a + unat count + 4096 \<le> 2 ^ 64"
    and no: "KERN_VMA_BASE \<le> a \<or> \<not> (\<exists>x \<in> set (vma_head (spaces s as)). vma_prot (vmas s x) AND prot \<noteq> 0 \<and> vma_start (vmas s x) \<le> a \<and> unat a + unat count \<le> unat (vma_end (vmas s x)))"
  shows "copy_locked kproc as s as a prot dest src count = Some (- EFAULT, s)"
proof -
  have "paged (locked s as) as" using ok(2) by (simp add: paged_def)
  then have "user_area_can_access_nolock (locked s as) as a count prot = Some (\<exists>x \<in> set (vma_head (spaces s as)). vma_prot (vmas s x) AND prot \<noteq> 0 \<and>
      vma_start (vmas s x) \<le> a \<and> unat a + unat count \<le> unat (vma_end (vmas s x)))"
    using can_access_eq [of "locked s as" as count a prot] ok(1) c by simp
  then show ?thesis using own no by (auto simp: copy_locked_def lock_space_ok unlock_space_ok)
qed

text \<open>Claim C15. 
  What \<open>vm_copy_out\<close> writes to user memory is what \<open>vm_copy_in\<close> then reads from it: a thread of the process copies \<open>count\<close> bytes of
  a kernel buffer to a user address whose pages are mapped and lie in a region that is readable and writable, and from there to a
  second buffer.  Both calls return \<open>count\<close>, the second buffer and the user memory then hold the bytes of the first buffer, and no
  other byte changes.
\<close>

theorem vm_copy_roundtrip:
  assumes own: "vm_p (spaces s as) \<noteq> 0" "vm_p (spaces s as) \<noteq> kproc" "\<not> asmtx_self (spaces s as)" and ok: "regions_ok (vmas s) (vma_head (spaces s as))" "paged s as"
    and t: "pgtbl_inv (vm_pool s) R" "pgtbl (spaces s as) \<in> R" and c: "0 < count" "unat count < 2 ^ 31"
    and ub: "user_bytes s R as a (unat count) VMA_PROT_W k" "user_bytes s R as a (unat count) VMA_PROT_R k" and inj: "inj_on k {..<unat count}"
    and kb: "kernel_bytes s R buf (unat count)" "kernel_bytes s R buf' (unat count)"
    and apart: "\<And>i j. i < unat count \<Longrightarrow> j < unat count \<Longrightarrow> k i \<noteq> buf + of_nat j \<and> k i \<noteq> buf' + of_nat j"
  shows "\<exists>m m'. vm_copy_out kproc cur_p as s as a buf count = Some (int (unat count), set_bytes s m) \<and>
    vm_copy_in kproc cur_p as (set_bytes s m) as buf' a count = Some (int (unat count), set_bytes s m') \<and>
    (\<forall>i < unat count. m' (buf' + of_nat i) = mem (vm_pool s) (buf + of_nat i) \<and> m' (k i) = mem (vm_pool s) (buf + of_nat i)) \<and>
    (\<forall>x. x \<notin> k ` {..<unat count} \<longrightarrow> x \<notin> (\<lambda>i. buf' + of_nat i) ` {..<unat count} \<longrightarrow> m' x = mem (vm_pool s) x)"
proof -
  let ?n = "unat count" and ?K = "k ` {..<unat count}"
  from copy_out_ok [OF own ok t c ub(1) kb(1) _ inj] apart obtain m where
    m: "vm_copy_out kproc cur_p as s as a buf count = Some (int ?n, set_bytes s m)"
      "\<And>x. x \<notin> ?K \<Longrightarrow> m x = mem (vm_pool s) x" "\<And>i. i < ?n \<Longrightarrow> m (k i) = mem (vm_pool s) (buf + of_nat i)" by metis
  let ?s = "set_bytes s m"
  have tab: "m x = mem (vm_pool s) x" if "u \<in> tables_of (vm_pool s) R" "x - u < PAGE_SIZE" for u x
    using m(2) ub(1) that unfolding user_bytes_def by (metis (no_types, lifting) imageE lessThan_iff leD)
  have T: "tables_of (vm_pool ?s) R = tables_of (vm_pool s) R" "pgtbl_inv (vm_pool ?s) R"
    using tables_outside [OF t(1) tab] by (simp_all add: set_bytes_def)
  have ub': "user_bytes ?s R as a ?n VMA_PROT_R k"
    using ub(2) user_bytes_addr [OF ub(2) _ t tab] T(1) by (simp add: user_bytes_def)
  have kb': "kernel_bytes ?s R buf' ?n" using kb(2) T(1) by (simp add: kernel_bytes_def)
  have pg: "paged ?s as" using ok(2) by (simp add: paged_def)
  from copy_in_ok [of ?s as kproc R count a k buf' cur_p] own ok(1) pg t(2) T(2) c ub' kb' apart obtain m' where
    m': "vm_copy_in kproc cur_p as ?s as buf' a count = Some (int ?n, set_bytes ?s m')"
      "\<And>x. x \<notin> (\<lambda>i. buf' + of_nat i) ` {..<?n} \<Longrightarrow> m' x = m x" "\<And>i. i < ?n \<Longrightarrow> m' (buf' + of_nat i) = m (k i)" by auto
  have "m' (k i) = m (k i)" if "i < ?n" for i using m'(2) apart that by (metis (no_types, lifting) imageE lessThan_iff)
  then show ?thesis using m m' by (intro exI [of _ m] exI [of _ m']) simp
qed

text \<open>A page of an accessible range that is not mapped yet stops the kernel.\<close>

lemma copy_in_unmapped:
  assumes "vm_p (spaces s as) \<noteq> 0" "vm_p (spaces s as) \<noteq> kproc" "\<not> asmtx_self (spaces s as)" "KERN_VMA_BASE \<le> buf" "a < KERN_VMA_BASE" "0 < count"
    and "user_area_can_access_nolock (locked s as) as a count VMA_PROT_R = Some True" "hal_translate_user_page (vm_pool s) (pgtbl (spaces s as)) a = Some (- ENOENT, None)"
  shows "vm_copy_in kproc cur_p as s as buf a count = None"
proof -
  have "\<not> KERN_VMA_BASE \<le> a" "\<not> buf < KERN_VMA_BASE" using assms(4,5) by auto
  moreover obtain n where "unat count = Suc n" using assms(6) by (cases "unat count") (simp_all add: unat_0_iff)
  ultimately show ?thesis using assms(1-3,7,8) by (simp add: vm_copy_in_def copy_locked_def lock_space_ok byte_addr_def)
qed

text \<open>A copy between two processes takes one of the two mutexes, but both page tables are read.\<close>

lemma inter_user_copy_stops:
  assumes "dest_as \<noteq> src_as" "vm_p (spaces s src_as) \<notin> {0, kproc}" "vm_p (spaces s dest_as) \<notin> {0, kproc}"
    "\<not> asmtx_self (spaces s src_as)" "\<not> asmtx_self (spaces s dest_as)" "src < KERN_VMA_BASE" "dest < KERN_VMA_BASE" "0 < count"
    and "hal_translate_user_page (vm_pool s) (pgtbl (spaces s src_as)) src = Some (0, Some (k, pr))"
  shows "inter_user_copy kproc cur_as s dest_as src_as dest src count = None"
proof -
  let ?l = "if cur_as = dest_as then src_as else dest_as"
  have lk: "lock_space s ?l = Some (locked s ?l)" using assms(4,5) by (simp add: lock_space_ok)
  have "asmtx_self (spaces (locked s ?l) src_as) \<noteq> asmtx_self (spaces (locked s ?l) dest_as)"
    using assms(1,4,5) by (auto simp: locked_def upd_space_def)
  then have "copy_loop kproc (locked s ?l) dest_as src_as dest src count count None None = None"
    using assms(2,3,8,9) by (subst copy_loop.simps) (auto simp: page_for_copy_def translate_page_def)
  then show ?thesis using assms(2,3,6,7) lk by (auto simp: inter_user_copy_def not_le [symmetric])
qed

text \<open>A region that is given back after a failure stays in the list of the address space.\<close>

lemma release_area_dangling:
  assumes "release_area s as v = Some s'" "v \<in> set (vma_head (spaces s as))"
  shows "v \<in> set (vma_head (spaces s' as))"
proof -
  have un: "spaces s2 = spaces s1" if "vm_unmap_addr s1 b a = Some (rc, s2)" for s1 s2 a b rc
    using that by (auto simp: vm_unmap_addr_def unmap_page_def bind_eq_Some_conv split: if_split_asm)
  have "spaces s2 = spaces s1" if "unmap_area s1 as w a = Some s2" for s1 s2 w a
    using that by (induction rule: unmap_area.raw_induct [rotated, consumes 1]) (auto simp: bind_eq_Some_conv split: if_split_asm dest: un)
  then show ?thesis using assms by (auto simp: release_area_def bind_eq_Some_conv)
qed

section \<open>Examples\<close>

text \<open>A process with a heap of one page and a stack of one page, none of them mapped yet.\<close>

definition example_proc :: vmem where
  "example_proc = example_vmem\<lparr>vmas := (vmas example_vmem)(3 := new_region 1 0x3FFFFFFFF000 0x400000000000 (VMA_PROT_R OR VMA_PROT_W OR VMA_PROT_X) VMA_FLAG_STACK),
     spaces := (\<lambda>_. \<lparr>asmtx_self = False, vm_p = 1, pgtbl = fst example_space, vma_head = [2, 3]\<rparr>)\<rparr>"

definition example_pm :: proc_mem where
  "example_pm = \<lparr>pm_vm = 1, pm_text = None, pm_data = None, pm_heap = Some 2, pm_stack = Some 3, pm_entry = 0\<rparr>"

lemma example_proc_vmas: "vmas example_proc 2 = new_region 1 0x500000 0x501000 3 VMA_FLAG_HEAP" "vmas example_proc 3 = new_region 1 0x3FFFFFFFF000 0x400000000000 7 VMA_FLAG_STACK"
  "spaces example_proc 1 = \<lparr>asmtx_self = False, vm_p = 1, pgtbl = fst example_space, vma_head = [2, 3]\<rparr>" "vm_pool example_proc = snd example_space"
  by (simp_all add: example_proc_def example_vmem_def)

lemma example_proc_ok: "pgtbl_inv (vm_pool example_proc) {fst example_space}" "pgtbl (spaces example_proc 1) \<in> {fst example_space}"
  "\<not> asmtx_self (spaces example_proc 1)" "regions_ok (vmas example_proc) (vma_head (spaces example_proc 1))" "paged example_proc 1"
  "heap_region example_proc 1 2" "stack_region example_proc 1 3" "7 \<le> pool_free (vm_pool example_proc)"
proof -
  have "vma_pages (new_region 1 0x500000 0x501000 3 VMA_FLAG_HEAP) \<inter> vma_pages (new_region 1 0x3FFFFFFFF000 0x400000000000 7 VMA_FLAG_STACK) = {}"
    by (rule pages_split [where k = "0x501"]) (auto simp: new_region_def word_less_nat_alt word_le_nat_alt)
  then show "regions_ok (vmas example_proc) (vma_head (spaces example_proc 1))"
    by (simp add: example_proc_vmas regions_ok_def vma_before_def) (simp add: new_region_def)
qed (use example_space_ok in \<open>simp_all add: example_proc_vmas paged_def heap_region_def stack_region_def new_region_def page_aligned_def\<close>)

theorem vm_user_area_can_access_spec_witness:
  "vm_user_area_can_access 9 example_proc 1 0x500010 16 VMA_PROT_W = Some (True, example_proc) \<and>
   vm_user_area_can_access 9 example_proc 1 0x500FF8 16 VMA_PROT_W = Some (False, example_proc)"
proof -
  have kp: "vm_p (spaces example_proc 1) \<noteq> 9" "(0 :: u64) < 16" by (simp_all add: example_proc_vmas)
  note S = vm_user_area_can_access_spec [OF kp(1) example_proc_ok(3,4,5) kp(2)]
  have u: "unat (0x500010 :: u64) + unat (16 :: u64) + 4096 \<le> 2 ^ 64" "unat (0x500FF8 :: u64) + unat (16 :: u64) + 4096 \<le> 2 ^ 64" by simp_all
  have b: "vma_start (vmas example_proc 2) \<le> 0x500010 + of_nat i \<and> 0x500010 + of_nat i < vma_end (vmas example_proc 2)" if "i < unat (16 :: u64)" for i :: nat
  proof -
    have "unat (0x500010 + of_nat i :: u64) = 0x500010 + i" using that by (simp add: unat_word_ariths unat_of_nat)
    moreover have "i < 16" using that by simp
    ultimately show ?thesis unfolding example_proc_vmas new_region_def vma.select_convs word_le_nat_alt word_less_nat_alt by simp
  qed
  have w: "vma_prot (vmas example_proc 2) AND VMA_PROT_W \<noteq> 0" by (simp add: example_proc_vmas new_region_def)
  have n: "\<not> (\<forall>i < unat (16 :: u64). vma_start (vmas example_proc x) \<le> 0x500FF8 + of_nat i \<and> 0x500FF8 + of_nat i < vma_end (vmas example_proc x))" if "x \<in> {2, 3}" for x
  proof
    assume "\<forall>i < unat (16 :: u64). vma_start (vmas example_proc x) \<le> 0x500FF8 + of_nat i \<and> 0x500FF8 + of_nat i < vma_end (vmas example_proc x)"
    from this [THEN spec, of 15] this [THEN spec, of 0] that show False by (auto simp: example_proc_vmas new_region_def)
  qed
  have q: "set (vma_head (spaces example_proc 1)) = {2, 3}" by (simp add: example_proc_vmas)
  from S [OF u(1), of VMA_PROT_W] obtain d where d: "vm_user_area_can_access 9 example_proc 1 0x500010 16 VMA_PROT_W = Some (d, example_proc)"
    "d \<longleftrightarrow> (\<exists>x \<in> {2, 3}. vma_prot (vmas example_proc x) AND VMA_PROT_W \<noteq> 0 \<and>
       (\<forall>i < unat (16 :: u64). vma_start (vmas example_proc x) \<le> 0x500010 + of_nat i \<and> 0x500010 + of_nat i < vma_end (vmas example_proc x)))"
    unfolding q by (elim exE conjE) (rule that)
  have d unfolding d(2) using b w by blast
  from S [OF u(2), of VMA_PROT_W] obtain c where c: "vm_user_area_can_access 9 example_proc 1 0x500FF8 16 VMA_PROT_W = Some (c, example_proc)"
    "c \<longleftrightarrow> (\<exists>x \<in> {2, 3}. vma_prot (vmas example_proc x) AND VMA_PROT_W \<noteq> 0 \<and>
       (\<forall>i < unat (16 :: u64). vma_start (vmas example_proc x) \<le> 0x500FF8 + of_nat i \<and> 0x500FF8 + of_nat i < vma_end (vmas example_proc x)))"
    unfolding q by (elim exE conjE) (rule that)
  have "\<not> c" unfolding c(2) using n by blast
  then show ?thesis using c(1) d(1) \<open>d\<close> by simp
qed

theorem page_fault_exception_spec_witness:
  "(\<exists>p' k. page_fault_exception example_proc True example_pm 0x3FFFFFFFE123 = Some (Fault_resume, grown_down example_proc p' 3 0x3FFFFFFFE000) \<and>
      hal_translate_user_page p' (fst example_space) 0x3FFFFFFFE123 = Some (0, Some (k, 7))) \<and>
   page_fault_exception example_proc True example_pm 0x400000 = Some (Fault_exit, example_proc) \<and>
   page_fault_exception example_proc True example_pm 0x500000 = None"
proof (intro conjI)
  have pm: "pm_vm example_pm = 1" "pm_heap example_pm = Some 2" "pm_stack example_pm = Some 3" by (simp_all add: example_pm_def)
  note S = page_fault_exception_spec [OF example_proc_ok(1-4,7) pm]
  have ps: "PAGE_START 0x3FFFFFFFE123 = 0x3FFFFFFFE000" by code_simp
  have no: "\<forall>y \<in> set (vma_head (spaces example_proc 1)). \<not> vma_covers (vmas example_proc y) v" if "v \<in> {0x3FFFFFFFE123, 0x3FFFFFFFE000, 0x400000}" for v
    using that by (auto simp: example_proc_vmas vma_covers_def new_region_def)
  have r: "pgtbl (spaces example_proc 1) = fst example_space" "mapped_prot 7 = 7" by (simp_all add: example_proc_vmas mapped_prot_def)
  show "\<exists>p' k. page_fault_exception example_proc True example_pm 0x3FFFFFFFE123 = Some (Fault_resume, grown_down example_proc p' 3 0x3FFFFFFFE000) \<and>
      hal_translate_user_page p' (fst example_space) 0x3FFFFFFFE123 = Some (0, Some (k, 7))"
    using S [of "0x3FFFFFFFE123"] no [of "0x3FFFFFFFE123"] no [of "0x3FFFFFFFE000"] example_proc_ok(8)
    unfolding ps r(1) by (simp add: example_proc_vmas new_region_def r(2)) blast
  show "page_fault_exception example_proc True example_pm 0x400000 = Some (Fault_exit, example_proc)"
    using S [of "0x400000"] no [of "0x400000"] by (simp add: example_proc_vmas new_region_def)
  have "\<exists>y \<in> set (vma_head (spaces example_proc 1)). vma_covers (vmas example_proc y) 0x500000" by (auto simp: example_proc_vmas vma_covers_def new_region_def)
  then show "page_fault_exception example_proc True example_pm 0x500000 = None" using S [of "0x500000"] by simp
qed

theorem handle_sbrk_spec_witness:
  "\<exists>p' k. handle_sbrk example_proc (Some example_pm) 0x800 = Some (0, Some 0x501000, grown example_proc p' 2 0x502000) \<and>
     hal_translate_user_page p' (fst example_space) 0x501000 = Some (0, Some (k, 7))"
proof -
  have pm: "pm_vm example_pm = 1" "pm_heap example_pm = Some 2" by (simp_all add: example_pm_def)
  have e: "0x502000 = round_up (vma_end (vmas example_proc 2) + 0x800)" "(0x800 :: u64) \<noteq> 0" by (simp_all add: example_proc_vmas new_region_def) code_simp
  have no: "\<forall>y \<in> set (vma_head (spaces example_proc 1)). \<not> vma_covers (vmas example_proc y) 0x502000"
    by (auto simp: example_proc_vmas vma_covers_def new_region_def)
  have "\<exists>p' ks. handle_sbrk example_proc (Some example_pm) 0x800 = Some (0, Some 0x501000, grown example_proc p' 2 0x502000) \<and>
      (\<forall>i < 1. hal_translate_user_page p' (fst example_space) (0x501000 + of_nat (4096 * i)) = Some (0, Some (ks ! i, mapped_prot 3)))"
    using handle_sbrk_spec [OF example_proc_ok(1-4,6) pm e] no example_proc_ok(8)
    by (auto simp: example_proc_vmas new_region_def page_aligned_def dest!: spec [of _ 1])
  then show ?thesis by (auto simp: mapped_prot_def)
qed

text \<open>A process with one mapped page that it may read and write; the buffers are in the same page, outside the byte that is copied.\<close>

definition example_buffers :: vmem where
  "example_buffers = \<lparr>heap = boot_kmem\<lparr>pages := example_mapped\<rparr>, vmas = (\<lambda>_. new_region 1 0x400000 0x401000 (VMA_PROT_R OR VMA_PROT_W) VMA_FLAG_HEAP),
     spaces = (\<lambda>_. \<lparr>asmtx_self = False, vm_p = 1, pgtbl = fst example_space, vma_head = [2]\<rparr>)\<rparr>"

lemma example_page_no_table: "fst example_page \<notin> tables_of example_mapped {fst example_space}" "page_aligned (fst example_page)" "KERN_VMA_BASE \<le> fst example_page"
proof -
  have P: "pool_inv (snd example_space)" "straight (snd example_space)" using example_space_ok(1) by (simp_all add: pgtbl_inv_def)
  from get_free_page_ok [OF P] example_space_ok(2) obtain a s' where a: "get_free_page (snd example_space) = Some (0, Some a, s')" by auto
  have ex: "example_page = (a, s')" by (simp add: example_page_def a)
  note D = data_page_ok [OF example_space_ok(1) a]
  from map_user_page_ok [OF example_page_ok(1) singletonI _ _ example_page_ok(2,3), where v = "0x400000" and prot = VMA_PROT_R] obtain p' where
    p': "hal_map_user_page (snd example_page) (fst example_space) 0x400000 (fst example_page) VMA_PROT_R = Some (0, p')"
      "\<forall>t \<in> tables_of p' {fst example_space}. t \<in> tables_of (snd example_page) {fst example_space} \<or> (t, 0) \<notin> pool_blocks (snd example_page)"
    by (auto simp: word_less_nat_alt)
  have "example_mapped = p'" by (simp add: example_mapped_def p'(1))
  then show "fst example_page \<notin> tables_of example_mapped {fst example_space}" using p'(2) D(2,7) by (auto simp: ex)
  show "page_aligned (fst example_page)" "KERN_VMA_BASE \<le> fst example_page"
    using block_aligned [OF _ _ example_page_ok(3)] example_page_ok(1,4) by (simp_all add: pgtbl_inv_def)
qed

lemma example_off_tables:
  assumes "t \<in> tables_of example_mapped {fst example_space}" "d < PAGE_SIZE"
  shows "PAGE_SIZE \<le> fst example_page + d - t"
proof (rule ccontr)
  assume "\<not> PAGE_SIZE \<le> fst example_page + d - t"
  moreover have "page_aligned t" using assms(1) pgtbl_invD(2) [OF example_mapped_ok(1)] by (auto simp: tables_of_def)
  ultimately have "fst example_page = t" using page_bytes_apart [OF example_page_no_table(2), of t "fst example_page + d"] assms(2) by (simp add: not_le)
  then show False using assms(1) example_page_no_table(1) by simp
qed

theorem vm_copy_roundtrip_witness:
  "\<exists>m m'. vm_copy_out 9 1 1 example_buffers 1 0x400000 (fst example_page + 8) 1 = Some (1, set_bytes example_buffers m) \<and>
     vm_copy_in 9 1 1 (set_bytes example_buffers m) 1 (fst example_page + 16) 0x400000 1 = Some (1, set_bytes example_buffers m') \<and>
     m' (fst example_page + 16) = mem example_mapped (fst example_page + 8)"
proof -
  let ?s = example_buffers and ?R = "{fst example_space}" and ?k = "\<lambda>_ :: nat. fst example_page"
  have sp: "spaces ?s 1 = \<lparr>asmtx_self = False, vm_p = 1, pgtbl = fst example_space, vma_head = [2]\<rparr>" "vm_pool ?s = example_mapped"
    "vmas ?s 2 = new_region 1 0x400000 0x401000 3 VMA_FLAG_HEAP" by (simp_all add: example_buffers_def)
  have po: "page_offset 0x400000 = 0" by code_simp
  have ub: "user_bytes ?s ?R 1 0x400000 (unat (1 :: u64)) pr ?k" if "pr \<in> {VMA_PROT_R, VMA_PROT_W}" for pr
    using that example_mapped_ok(3) example_off_tables [of _ 0] by (auto simp: user_bytes_def sp byte_addr_def po new_region_def word_less_nat_alt)
  have kb: "kernel_bytes ?s ?R (fst example_page + d) (unat (1 :: u64))" if "d < 0x100" for d
  proof -
    obtain q where q: "unat (fst example_page) = 4096 * q" using example_page_no_table(2) by (auto simp: page_aligned_def dvd_def)
    have "unat (fst example_page) < 2 ^ 64" using unsigned_less [of "fst example_page", where ?'a = nat] by simp
    then have "unat (fst example_page) + 4096 \<le> 2 ^ 64" using q by simp
    then have u: "unat (fst example_page + d) = unat (fst example_page) + unat d" "unat (fst example_page) + unat d + 1 \<le> 2 ^ 64"
      using that by (auto simp: unat_word_ariths word_less_nat_alt)
    have "d < PAGE_SIZE" using that by (simp add: word_less_nat_alt)
    then show ?thesis using u example_page_no_table(3) example_off_tables by (simp add: kernel_bytes_def sp word_le_nat_alt)
  qed
  have ok: "regions_ok (vmas ?s) (vma_head (spaces ?s 1))" "paged ?s 1" by (simp_all add: sp regions_ok_def paged_def new_region_def page_aligned_def)
  have "\<exists>m m'. vm_copy_out 9 1 1 ?s 1 0x400000 (fst example_page + 8) 1 = Some (int (unat (1 :: u64)), set_bytes ?s m) \<and>
    vm_copy_in 9 1 1 (set_bytes ?s m) 1 (fst example_page + 16) 0x400000 1 = Some (int (unat (1 :: u64)), set_bytes ?s m') \<and>
    (\<forall>i < unat (1 :: u64). m' (fst example_page + 16 + of_nat i) = mem (vm_pool ?s) (fst example_page + 8 + of_nat i) \<and> m' (?k i) = mem (vm_pool ?s) (fst example_page + 8 + of_nat i)) \<and>
    (\<forall>x. x \<notin> ?k ` {..<unat (1 :: u64)} \<longrightarrow> x \<notin> (\<lambda>i. fst example_page + 16 + of_nat i) ` {..<unat (1 :: u64)} \<longrightarrow> m' x = mem (vm_pool ?s) x)"
    by (rule vm_copy_roundtrip [OF _ _ _ ok]) (use example_mapped_ok(1) ub kb in \<open>auto simp: sp inj_on_def\<close>)
  then show ?thesis by (simp add: sp) blast
qed

end
