(* ===== verification/Elf_Loader.thy ===== *)
theory Elf_Loader
  imports User_Mem
begin

text \<open>
  The ELF loader, \<^verbatim>\<open>src/kern/elfldr.c\<close>: an image in kernel memory becomes the text and the data region of a process.

  The headers are read from memory at the offsets of the structures in \<^verbatim>\<open>src/include/kern/elf64.h\<close>.  The caller
  holds the mutex of the address space; the spin lock of the process is held throughout.  The letters for the protection are
  printed in a debug build only and are left out.
\<close>

section \<open>Headers\<close>

abbreviation (input) PT_LOAD :: u32 where "PT_LOAD \<equiv> 1"
abbreviation (input) PF_X :: u32 where "PF_X \<equiv> 1"
abbreviation (input) PF_W :: u32 where "PF_W \<equiv> 2"
abbreviation (input) PF_R :: u32 where "PF_R \<equiv> 4"
abbreviation (input) VMA_FLAG_FIXED :: u32 where "VMA_FLAG_FIXED \<equiv> 0"
abbreviation (input) SIZEOF_PHDR :: u64 where "SIZEOF_PHDR \<equiv> 56"

record elf_ehdr =
  e_magic :: bool
  e_entry :: u64
  e_phoff :: u64
  e_phnum :: "16 word"

record elf_phdr =
  p_type :: u32
  p_flags :: u32
  p_offset :: u64
  p_vaddr :: u64
  p_filesz :: u64
  p_memsz :: u64

definition read_ehdr :: "(u64 \<Rightarrow> u8) \<Rightarrow> u64 \<Rightarrow> elf_ehdr" where
  "read_ehdr m a = \<lparr>e_magic = (m a = 0x7f \<and> m (a + 1) = 0x45 \<and> m (a + 2) = 0x4c \<and> m (a + 3) = 0x46),
     e_entry = read64 m (a + 24), e_phoff = read64 m (a + 32), e_phnum = ucast (read64 m (a + 56))\<rparr>"

definition read_phdr :: "(u64 \<Rightarrow> u8) \<Rightarrow> u64 \<Rightarrow> elf_phdr" where
  "read_phdr m a = \<lparr>p_type = ucast (read64 m a), p_flags = ucast (drop_bit 32 (read64 m a)), p_offset = read64 m (a + 8),
     p_vaddr = read64 m (a + 16), p_filesz = read64 m (a + 32), p_memsz = read64 m (a + 40)\<rparr>"

definition ph_prot2vma_prot :: "u32 \<Rightarrow> u32" where
  "ph_prot2vma_prot fl =
     (if fl AND PF_R \<noteq> 0 then VMA_PROT_R else 0) OR (if fl AND PF_W \<noteq> 0 then VMA_PROT_W else 0) OR
     (if fl AND PF_X \<noteq> 0 then VMA_PROT_X else 0)"

definition segment_size :: "elf_phdr \<Rightarrow> u64" where
  "segment_size ph = (if PAGE_ALIGNED (p_vaddr ph + p_memsz ph) then p_memsz ph else PAGE_NEXT (p_memsz ph))"

section \<open>The pages of a segment\<close>

text \<open>The pages with bytes of the file; \<open>paddr\<close> is the address in the image.\<close>

partial_function (option) load_file_pages :: "vmem \<Rightarrow> u64 \<Rightarrow> u32 \<Rightarrow> u64 \<Rightarrow> u64 \<Rightarrow> u64 \<Rightarrow> (int \<times> vmem) option" where
  "load_file_pages s as prot vaddr paddr lim =
     (if vaddr < lim then do {
        (rc, new_page, p) \<leftarrow> get_free_page (vm_pool s);
        if rc \<noteq> 0 then Some (rc, set_pool s p)
        else do {
          new_page \<leftarrow> new_page;
          let m = copy_page (mem p) new_page paddr;
          kassert (read64 m new_page = read64 m paddr);
          kassert (read64 m (new_page + (PAGE_SIZE - 8)) = read64 m (paddr + (PAGE_SIZE - 8)));
          (rc, s) \<leftarrow> map_page (set_pool s (p\<lparr>mem := m\<rparr>)) as vaddr new_page prot;
          if rc \<noteq> 0 then Some (rc, s)
          else load_file_pages s as prot (vaddr + PAGE_SIZE) (paddr + PAGE_SIZE) lim
        }
      } else Some (0, s))"

text \<open>The pages behind them.\<close>

partial_function (option) load_zero_pages :: "vmem \<Rightarrow> u64 \<Rightarrow> u32 \<Rightarrow> u64 \<Rightarrow> u64 \<Rightarrow> (int \<times> vmem) option" where
  "load_zero_pages s as prot vaddr lim =
     (if vaddr < lim then do {
        (rc, new_page, p) \<leftarrow> get_free_page (vm_pool s);
        if rc \<noteq> 0 then Some (rc, set_pool s p)
        else do {
          new_page \<leftarrow> new_page;
          (rc, s) \<leftarrow> map_page (set_pool s (p\<lparr>mem := memset64 (mem p) new_page 0 PAGE_SIZE\<rparr>)) as vaddr new_page prot;
          if rc \<noteq> 0 then Some (rc, s) else load_zero_pages s as prot (vaddr + PAGE_SIZE) lim
        }
      } else Some (0, s))"

definition load_pages :: "vmem \<Rightarrow> u64 \<Rightarrow> u64 \<Rightarrow> u64 \<Rightarrow> elf_phdr \<Rightarrow> (int \<times> vmem) option" where
  "load_pages s as vmap kvaddr ph = do {
     let r = vmas s vmap;
     let lim = PAGE_NEXT (p_vaddr ph + p_filesz ph);
     (rc, s) \<leftarrow> load_file_pages s as (vma_prot r) (vma_start r) (kvaddr + p_offset ph) lim;
     if rc \<noteq> 0 then Some (rc, s)
     else load_zero_pages s as (vma_prot r) lim (vma_end r)
   }"

section \<open>Loading\<close>

text \<open>The first segment is the text, the second the data.\<close>

definition load_segment :: "u64 \<Rightarrow> vmem \<Rightarrow> proc_mem \<Rightarrow> u64 \<Rightarrow> nat \<Rightarrow> elf_phdr \<Rightarrow> (int \<times> proc_mem \<times> vmem) option" where
  "load_segment base s pm kvaddr c ph = do {
     (rc, v, s) \<leftarrow> vm_create_vma base s (pm_vm pm) (p_vaddr ph) (segment_size ph) (ph_prot2vma_prot (p_flags ph)) VMA_FLAG_FIXED;
     if rc \<noteq> 0 then Some (rc, pm, s)
     else do {
       v \<leftarrow> v;
       let pm = (if c = 0 then pm\<lparr>pm_text := Some v\<rparr> else pm\<lparr>pm_data := Some v\<rparr>);
       (rc, s) \<leftarrow> load_pages s (pm_vm pm) v kvaddr ph;
       Some (rc, pm, s)
     }
   }"

text \<open>The labels \<^verbatim>\<open>unmap_pages_out\<close> and, when there is no text region, \<^verbatim>\<open>no_page_out\<close>.\<close>

definition load_fail :: "int \<Rightarrow> vmem \<Rightarrow> proc_mem \<Rightarrow> (int \<times> proc_mem \<times> vmem) option" where
  "load_fail rc s pm = (case pm_text pm of
      None \<Rightarrow> Some (rc, pm\<lparr>pm_entry := 0\<rparr>, s)
    | Some text \<Rightarrow> do {
        s \<leftarrow> (case pm_data pm of None \<Rightarrow> Some s | Some data \<Rightarrow> release_area s (pm_vm pm) data);
        s \<leftarrow> release_area s (pm_vm pm) text;
        Some (rc, pm\<lparr>pm_text := None, pm_data := None, pm_entry := 0\<rparr>, s)
      })"

text \<open>The loop over \<open>n\<close> headers; \<open>phdr\<close> is the header it has reached and \<open>c\<close> the number of segments loaded.\<close>

fun load_phdrs :: "u64 \<Rightarrow> nat \<Rightarrow> vmem \<Rightarrow> proc_mem \<Rightarrow> u64 \<Rightarrow> u64 \<Rightarrow> nat \<Rightarrow> (int \<times> proc_mem \<times> vmem) option" where
  "load_phdrs base 0 s pm kvaddr phdr c = Some (0, pm, s)"
| "load_phdrs base (Suc n) s pm kvaddr phdr c =
     (let ph = read_phdr (mem (vm_pool s)) phdr in
      if p_type ph = PT_LOAD then
        if c \<le> 1 then do {
          (rc, pm, s) \<leftarrow> load_segment base s pm kvaddr c ph;
          if rc \<noteq> 0 then load_fail rc s pm
          else load_phdrs base n s pm kvaddr (phdr + SIZEOF_PHDR) (c + 1)
        } else load_phdrs base n s pm kvaddr phdr c
      else load_phdrs base n s pm kvaddr (phdr + SIZEOF_PHDR) c)"

definition proc_load_ELF_from_memory :: "u64 \<Rightarrow> vmem \<Rightarrow> proc_mem \<Rightarrow> u64 \<Rightarrow> (int \<times> proc_mem \<times> vmem) option" where
  "proc_load_ELF_from_memory base s pm kvaddr = do {
     kassert (pm_text pm = None);
     kassert (pm_data pm = None);
     let hdr = read_ehdr (mem (vm_pool s)) kvaddr;
     if \<not> e_magic hdr then Some (- EINVAL, pm, s)
     else load_phdrs base (unat (e_phnum hdr)) s (pm\<lparr>pm_entry := e_entry hdr\<rparr>) kvaddr (kvaddr + e_phoff hdr) 0
   }"

section \<open>The pages of a segment hold its bytes\<close>














section \<open>The shape of a segment\<close>




section \<open>Properties\<close>






section \<open>Headers that load nothing\<close>

text \<open>An image without the magic number is refused and nothing changes; the regions must not have been set.\<close>

lemma load_ELF_no_magic:
  assumes "pm_text pm = None" "pm_data pm = None" "\<not> e_magic (read_ehdr (mem (vm_pool s)) kvaddr)"
  shows "proc_load_ELF_from_memory base s pm kvaddr = Some (- EINVAL, pm, s)"
  using assms by (simp add: proc_load_ELF_from_memory_def)

text \<open>
  A third loadable segment is skipped by a \<^verbatim>\<open>continue\<close> that does not go on to the next header: every later round
  looks at the same one, so whatever follows it in the table is ignored.
\<close>

lemma load_phdrs_third:
  assumes "p_type (read_phdr (mem (vm_pool s)) phdr) = PT_LOAD" "2 \<le> c"
  shows "load_phdrs base n s pm kvaddr phdr c = Some (0, pm, s)"
  using assms by (induction n) (simp_all add: Let_def)

text \<open>Headers of other types are passed over.\<close>

lemma load_phdrs_other:
  assumes "\<And>i. i < n \<Longrightarrow> p_type (read_phdr (mem (vm_pool s)) (phdr + of_nat (56 * i))) \<noteq> PT_LOAD"
  shows "load_phdrs base n s pm kvaddr phdr c = Some (0, pm, s)"
  using assms
proof (induction n arbitrary: phdr)
  case (Suc n)
  have "p_type (read_phdr (mem (vm_pool s)) (phdr + SIZEOF_PHDR + of_nat (56 * i))) \<noteq> PT_LOAD" if "i < n" for i
    using Suc.prems [of "Suc i"] that by (simp add: algebra_simps)
  then show ?case using Suc.IH Suc.prems [of 0] by (simp add: Let_def)
qed simp

end
