(* ===== verification/Spec2Isabelle.thy ===== *)
theory Spec2Isabelle
  imports Klist Slab_Alloc Mutex Kprintf Cmdline Name_Service Servers Elf_Loader
begin

text \<open>
  A verification of the YATOS kernel, a small operating system kernel in C for x86-64.

  \<^bold>\<open>The program.\<close>  The kernel keeps memory as pages in a buddy allocator per memory area
  (\<^verbatim>\<open>src/page\<close>), runs threads from priority queues (\<^verbatim>\<open>src/thr\<close>), lets them wait on
  synchronisation objects, mutexes and asynchronous events (\<^verbatim>\<open>src/thr\<close>, \<^verbatim>\<open>src/kern\<close>,
  \<^verbatim>\<open>src/event\<close>), dispatches interrupts to handlers (\<^verbatim>\<open>src/irq\<close>, \<^verbatim>\<open>src/hal/x86-64/pic\<close>), and
  builds all of it on intrusive lists, reference counters, id bitmaps, spin locks and string
  functions (\<^verbatim>\<open>src/klib\<close>, \<^verbatim>\<open>src/kern\<close>).  Threads and processes, address spaces (\<^verbatim>\<open>src/vm\<close>) and the
  local procedure calls by which threads exchange messages (\<^verbatim>\<open>src/lpc\<close>) stand on top of these, and on top of the messages
  servers for names, memory, threads and processes (\<^verbatim>\<open>src/kern\<close>).

  \<^bold>\<open>The theories\<close>, from the bottom up; each operation of the code is one definition of the same
  name, a loop of it one more.

  \<^item> \<open>Kern_Prelude\<close>: machine words, error codes, assertions (a failed \<open>kassert\<close> and an access
    outside an array are \<open>None\<close>), bits of words, and the interface \<open>kept_by_steps\<close> of a step
    relation and an invariant.
  \<^item> \<open>Klist\<close>: \<^verbatim>\<open>klib/list.c\<close>, \<^verbatim>\<open>klib/queue.c\<close> and the traversal macros on a store of links.  The
    interface \<open>kqueue\<close> is interpreted on the linked lists and on plain sequences, which is why the
    other theories keep queues as sequences.
  \<^item> \<open>Refcount\<close>, \<open>Id_Bitmap\<close>: \<^verbatim>\<open>kern/refcount.c\<close> and \<^verbatim>\<open>kern/id-bitmap.c\<close>; the counter is a signed
    64-bit word, the bitmap a list of 64-bit words.
  \<^item> \<open>Page_Buddy\<close>, \<open>Page_Pool\<close>: \<^verbatim>\<open>page/page-buddy.c\<close>, \<^verbatim>\<open>page/page.c\<close> and the address conversions of
    \<^verbatim>\<open>hal/x86-64/mm/page-pool.c\<close>.  The invariant says that the page array carries a partition into
    aligned blocks and that the queues hold the free ones; the interface \<open>page_allocator\<close> is
    interpreted on the buddy of one area and on the pool of all areas.
  \<^item> \<open>Page_Owner\<close>, \<open>Kmcache\<close>, \<open>Kmalloc\<close>, \<open>Slab_Alloc\<close>: \<^verbatim>\<open>page/page-kmcache.c\<close> and \<^verbatim>\<open>page/page-kmalloc.c\<close>.
    Each page of a slab leads back to the slab's descriptor, by which an object is found when it is freed; caches and
    descriptors are kept by address, with the sizes of the structures on x86-64 (248, 16 and 360 bytes).  All page frame
    numbers are below \<open>2 ^ 35\<close>, the size of the map of physical memory.  The interface \<open>object_allocator\<close> is interpreted on
    \<open>kmalloc\<close> and \<open>kfree\<close>.
  \<^item> \<open>Pgtbl\<close>: \<^verbatim>\<open>hal/x86-64/mm/pgtbl.c\<close> and \<^verbatim>\<open>include/x86-64/pgtbl.h\<close>.  The tables are words of the memory of the page
    pool; the invariant is over any set of address spaces, and every operation is shown to leave the others alone.
  \<^item> \<open>Vm\<close>: \<^verbatim>\<open>vm/vm.c\<close>, regions and their pages, on \<open>Pgtbl\<close> and \<open>kmalloc\<close>.  The loops over the pages of a range are
    partial functions; growing a range is shown to return.
  \<^item> \<open>User_Mem\<close>: \<^verbatim>\<open>vm/vm-copy-inout.c\<close>, the areas of a process in \<^verbatim>\<open>proc/proc.c\<close>, \<open>sbrk\<close> of \<^verbatim>\<open>kern/vm-server.c\<close> and the page
    fault handler of \<^verbatim>\<open>hal/x86-64/exc/common-traps.c\<close>.  An access of the kernel to a user address goes through the page tables
    of the running process; where it would fault the result is \<open>None\<close>.
  \<^item> \<open>Elf_Loader\<close>: \<^verbatim>\<open>kern/elfldr.c\<close>, on \<open>User_Mem\<close>, with the headers read from the image in memory.
  \<^item> \<open>Thread_Info\<close>: \<^verbatim>\<open>thr/thread-info.c\<close> and \<^verbatim>\<open>kern/spinlock.c\<close> in the uniprocessor configuration.
  \<^item> \<open>Event_Mask\<close>, \<open>Event_Queue\<close>, \<open>Async_Event\<close>: \<^verbatim>\<open>event/event-mask.c\<close>, \<^verbatim>\<open>event/event-alloc.c\<close> and
    \<^verbatim>\<open>event/async-event.c\<close>; masks refine sets of events.
  \<^item> \<open>Sched\<close>: \<^verbatim>\<open>thr/thread-schedule.c\<close> and \<^verbatim>\<open>thr/thread-que.c\<close>.  A context switch is the change of
    \<open>current\<close>; an operation that gives up the processor in its middle is split there into a part
    before and a part that resumes.
  \<^item> \<open>Thread_Sync\<close>, \<open>Mutex\<close>: \<^verbatim>\<open>thr/thread-sync.c\<close> and \<^verbatim>\<open>kern/mutex.c\<close>, with any number of client
    threads as a step relation.
  \<^item> \<open>Lpc\<close>: \<^verbatim>\<open>lpc/lpc.c\<close>.  A call that waits is split where it gives up the processor; what it keeps on its stack is a
    frame.  The copies between the memory of a process and the kernel are arguments: what a sender's buffer holds, or that
    it cannot be read.
  \<^item> \<open>Thread\<close>: \<^verbatim>\<open>thr/thread.c\<close>, \<^verbatim>\<open>thr/thread-reaper.c\<close> and the start and end of a process in \<^verbatim>\<open>proc/proc.c\<close>: thread
    identifiers from \<open>Id_Bitmap\<close>, creation, start, exit, waiting for a child, and the reaper.  An address space whose
    last thread has left is recorded as given back.
  \<^item> \<open>Cmdline\<close>: the parser of the command line and the stack of a new process in \<^verbatim>\<open>proc/proc.c\<close>, on the bytes of \<open>Kstring\<close>.
  \<^item> \<open>Name_Service\<close>: \<^verbatim>\<open>kern/kname-service.c\<close>, the data base, the handlers, one round of the server and the functions of its clients.
  \<^item> \<open>Servers\<close>: the handlers of \<^verbatim>\<open>kern/thr-server.c\<close> and \<^verbatim>\<open>kern/proc-server.c\<close> that act on \<open>Async_Event\<close> and \<open>Timer\<close>, and the wait
    of \<^verbatim>\<open>kern/svc.c\<close> on \<open>Thread\<close>.
  \<^item> \<open>Irq\<close>: \<^verbatim>\<open>irq/irq.c\<close> and \<^verbatim>\<open>hal/x86-64/pic/i8259.c\<close>, with registrations, removals and interrupts
    as a step relation.
  \<^item> \<open>Timer\<close>: \<^verbatim>\<open>tim/timer.c\<close> and \<^verbatim>\<open>tim/timer-handler.c\<close>.  The tree of call-outs is its sequence in order; the tick handler
    runs in interrupt context, where waking never dispatches.
  \<^item> \<open>Kstring\<close>: the sixteen string and memory functions of \<^verbatim>\<open>klib\<close> on a store of bytes.
  \<^item> \<open>Kprintf\<close>: \<^verbatim>\<open>klib/doprintf.c\<close>, \<^verbatim>\<open>klib/vsnprintf.c\<close> and \<^verbatim>\<open>klib/printf.c\<close>.  The text of a format and its
    arguments is the specification; the formatter is shown to write it to any stream.

  \<^bold>\<open>What is shown.\<close>  Memory: blocks in use never overlap, an allocation fails only when no aligned
  range is free, freeing merges as far as possible, the free count is exact, and no call of a history
  gets stuck; objects of \<open>kmalloc\<close> never overlap and freeing undoes allocating; a
  mapped page is what its address translates to, and no other translation changes; regions of an address space never share a page;
  a heap and a stack grow by zeroed pages of their own, a segment of an image is in memory as it is in the file, and what is copied to user
  memory is what is read back.  Scheduling: a dispatch runs the head of the best queue and loses no thread; a mutex has
  at most one owner in every interleaving and no waiter sleeps while it is free.  Events: delivery
  order, masking, hand-over at exit.  Interrupts: a line is masked exactly when it has no handler or
  was given up as spurious, except for the cascade line.  Timers: a tick wakes exactly the waits whose time has come.
  Messages: what is sent arrives unchanged, with the identity of its sender, and the sender goes on.  Threads: identifiers
  are distinct and given back, a parent that waits learns the exit code of its child, and a thread is freed only when it
  has ended; the arguments of \<open>main\<close> are the words of the command line.  The name service is a map from names to endpoints.  Libraries: queues refine sequences, ids are the lowest free ones, a counter
  frees its object once, strings are what their names say,
  numbers are printed as their flags ask and plain ones so that they can be read back, formatted text stays inside its buffer.  Where the code does not do what it means to,
  a theorem proves the deviation on the model.

  \<^bold>\<open>Loops.\<close>  Loops over arrays and queues are structural or have a termination proof.  \<open>mutex_lock\<close>
  and the unbounded string loops are partial functions into \<open>option\<close>; the properties prove that
  they return.  Widths: counters, masks, page numbers and addresses are words of the width in the code;
  addresses of list nodes and bytes of strings are natural numbers, as the code computes no
  out-of-range pointers from them.

  \<^bold>\<open>Not modelled.\<close>  The kernel is built for one processor, and a spin lock disables dispatch and, where
  the code says so, interrupts: an operation that holds its lock throughout is one step.  Boot code,
  descriptor tables, trap frames and the translation cache belong to the processor; the console and the
  interval timer are devices; the user library, the tests and the configuration tool are not kernel
  code.  The loops in which the servers receive a request and send its reply with \<open>Lpc\<close> are left out, the round in between is modelled.
  \<open>proc_create\<close> and \<open>handle_create_thread\<close> call in turn what is modelled on the state of \<open>Thread\<close> and on that of \<open>Vm\<close>; the two states are not
  joined.  In \<open>Lpc\<close> and \<open>Name_Service\<close> the copy between user and kernel memory is an argument: it may take the mutex of the address space in
  its middle, and theory \<open>User_Mem\<close> shows what it does when the memory is mapped.
\<close>

end
